(* ===== verification/Prelude.thy ===== *)
theory Prelude
  imports Main "HOL-Library.Word"
begin

unbundle bit_operations_syntax

text \<open>
  Shared ground of the development: names for the C integer types of the sources, the
  collections of simplification rules the component theories extend, and generic facts on
  lists, byte lists and words that no component owns.

  C integers are words of their width where the code works bitwise or can wrap around
  (\<open>u8\<close> for \<open>u_char\<close>, \<open>u16\<close>, \<open>u32\<close>, \<open>u64\<close>);
  counters and sizes whose bounds are part of an invariant are \<open>nat\<close>. A failed
  \<open>assert\<close>, an access through a null pointer and a loop that does not end are values
  of \<open>fault\<close>, so every operation that can abort returns \<open>fault + 'a\<close>.
\<close>

section \<open>Integer types and faults\<close>

type_synonym u8 = "8 word"
type_synonym u16 = "16 word"
type_synonym u32 = "32 word"
type_synonym u64 = "64 word"

datatype fault =
    AssertFailed   \<comment> \<open>\<open>assert (..)\<close> of the source fails: the process aborts\<close>
  | NullDeref      \<comment> \<open>a null or dangling pointer is followed\<close>
  | OutOfBounds    \<comment> \<open>memory outside a buffer is read or written\<close>
  | IntOverflow    \<comment> \<open>signed arithmetic leaves the range of \<open>int\<close>\<close>
  | DivByZero      \<comment> \<open>integer division by zero\<close>
  | Diverged       \<comment> \<open>the loop bound of the model is used up\<close>

type_synonym 'a res = "fault + 'a"

text \<open>Sequencing of operations that can abort.\<close>

fun and_then :: "'a res \<Rightarrow> ('a \<Rightarrow> 'b res) \<Rightarrow> 'b res" where
  "and_then (Inl e) f = Inl e"
| "and_then (Inr x) f = f x"

definition ensure :: "bool \<Rightarrow> unit res" where
  "ensure b = (if b then Inr () else Inl AssertFailed)"

lemma and_then_Inr_iff:
  "and_then m f = Inr y \<longleftrightarrow> (\<exists>x. m = Inr x \<and> f x = Inr y)"
  by (cases m) auto

lemma and_then_assoc:
  "and_then (and_then m f) g = and_then m (\<lambda>x. and_then (f x) g)"
  by (cases m) auto

lemma and_then_cong [fundef_cong]:
  "m = m' \<Longrightarrow> (\<And>x. m' = Inr x \<Longrightarrow> f x = g x) \<Longrightarrow> and_then m f = and_then m' g"
  by (cases m') auto

lemma ensure_Inr [simp]: "ensure b = Inr u \<longleftrightarrow> b"
  by (simp add: ensure_def)

lemma ensure_True [simp]: "ensure True = Inr ()"
  by (simp add: ensure_def)

lemma ensure_False [simp]: "ensure False = Inl AssertFailed"
  by (simp add: ensure_def)

section \<open>Collections of simplification rules\<close>

named_theorems pbit_simps \<open>how an operation on prefixes acts on the bits of an address\<close>
named_theorems sane_simps \<open>well-formedness of the values operations return\<close>

section \<open>Byte arrays\<close>

text \<open>
  Reading byte \<open>i\<close> of an array. Outside the array the C code would read foreign memory;
  the model reads zero there and the invariants of the components keep indices inside.
\<close>

definition byte_at :: "u8 list \<Rightarrow> nat \<Rightarrow> u8" where
  "byte_at bs i = (if i < length bs then bs ! i else 0)"

lemma byte_at_nth [simp]: "i < length bs \<Longrightarrow> byte_at bs i = bs ! i"
  by (simp add: byte_at_def)

lemma byte_at_update:
  "byte_at (bs[i := x]) j = (if i = j \<and> i < length bs then x else byte_at bs j)"
  by (simp add: byte_at_def nth_list_update)

lemma byte_at_append:
  "byte_at (xs @ ys) i = (if i < length xs then xs ! i else byte_at ys (i - length xs))"
  by (auto simp: byte_at_def nth_append)

section \<open>Words\<close>

lemma u8_eq_iff: "(x :: u8) = y \<longleftrightarrow> (\<forall>i<8. bit x i = bit y i)"
  using bit_word_eqI [of x y] by auto

lemma not_bit_u8: "8 \<le> n \<Longrightarrow> \<not> bit (x :: u8) n"
  by (auto dest: bit_imp_le_length)

lemma and_1_unat: "unat ((x :: u8) AND 1) = of_bool (bit x 0)"
  by (simp add: and_one_eq bit_0 mod_2_eq_odd)

lemma word_and_eq_0_iff: "(x :: u8) AND y = 0 \<longleftrightarrow> (\<forall>i<8. \<not> (bit x i \<and> bit y i))"
  by (auto simp: u8_eq_iff bit_simps)

lemma bit_double_u8: "bit ((v :: u8) * 2) j \<longleftrightarrow> 0 < j \<and> j < 8 \<and> bit v (j - 1)"
  using bit_push_bit_iff [of 1 v j] by (auto simp: Suc_le_eq)

lemma div_mod8_cases:
  assumes "\<And>q r :: nat. n = 8 * q + r \<Longrightarrow> r < 8 \<Longrightarrow> thesis"
  shows thesis
  using assms [of "n div 8" "n mod 8"] by simp

lemma div_mod8 [simp]: "r < 8 \<Longrightarrow> (8 * q + r) div 8 = q" "r < 8 \<Longrightarrow> (8 * q + r) mod 8 = r"
  for q r :: nat
  by simp_all

section \<open>Lists\<close>

lemma map_upt_eq_take:
  "m \<le> n \<Longrightarrow> take m (map f [0..<n]) = map f [0..<m]"
  by (simp add: take_map take_upt)

lemma map_upt_eq_iff: "map f [0..<n] = map g [0..<n] \<longleftrightarrow> (\<forall>i<n. f i = g i)"
  by auto

end
