(* ===== verification/Prefix.thy ===== *)
theory Prefix
  imports Prelude
begin

unbundle bit_operations_syntax

text \<open>
  \<^verbatim>\<open>lib/prefix.c\<close> and \<^verbatim>\<open>lib/prefix.h\<close>: network prefixes. A
  \<open>struct prefix\<close> is a record of the address family, the prefix length and the bytes
  of the address union (16 bytes with IPv6 enabled, as \<^verbatim>\<open>config.h\<close> has it). An IPv4
  address \<open>s_addr\<close> is the 32-bit integer a little-endian host reads from the first four
  bytes. The meaning of an address is its sequence of bits from the most significant bit of
  the first byte on (\<open>pbit\<close>); the network part of a prefix is \<open>prefix_key\<close>.

  The lemmas give every operation in terms of these bits: \<open>prefix_match\<close> is the prefix
  order on keys, masks keep exactly the first bits, a mask length and its mask determine each
  other, and the table of IPv6 masks is right in every row.
\<close>

section \<open>Data\<close>

definition AF_UNSPEC :: nat where "AF_UNSPEC = 0"
definition AF_INET :: nat where "AF_INET = 2"
definition AF_INET6 :: nat where "AF_INET6 = 10"

definition AFI_IP :: nat where "AFI_IP = 1"
definition AFI_IP6 :: nat where "AFI_IP6 = 2"

definition IPV4_MAX_BITLEN :: nat where "IPV4_MAX_BITLEN = 32"
definition IPV6_MAX_BITLEN :: nat where "IPV6_MAX_BITLEN = 128"
definition IPV4_MAX_BYTELEN :: nat where "IPV4_MAX_BYTELEN = 4"
definition IPV6_MAX_BYTELEN :: nat where "IPV6_MAX_BYTELEN = 16"

lemmas af_defs = AF_UNSPEC_def AF_INET_def AF_INET6_def AFI_IP_def AFI_IP6_def
  IPV4_MAX_BITLEN_def IPV6_MAX_BITLEN_def IPV4_MAX_BYTELEN_def IPV6_MAX_BYTELEN_def

record prefix =
  family :: nat
  prefixlen :: nat
  u_prefix :: "u8 list"

definition PSIZE :: "nat \<Rightarrow> nat" where
  "PSIZE a = (a + 7) div 8"

text \<open>The union holds 16 bytes and the length fits the family.\<close>

definition wf_prefix :: "prefix \<Rightarrow> bool" where
  "wf_prefix p \<longleftrightarrow> length (u_prefix p) = 16 \<and>
     (family p = AF_INET \<and> prefixlen p \<le> IPV4_MAX_BITLEN \<or>
      family p = AF_INET6 \<and> prefixlen p \<le> IPV6_MAX_BITLEN)"

text \<open>
  The keys of routing tables: besides the two address families there is the family 0 of the link
  state databases, whose keys are the eight bytes of an identifier and an advertising router.
\<close>

definition wf_key :: "prefix \<Rightarrow> bool" where
  "wf_key p \<longleftrightarrow> wf_prefix p \<or> length (u_prefix p) = 16 \<and> family p = AF_UNSPEC \<and> prefixlen p \<le> 64"

text \<open>Bit \<open>i\<close> of an address, counted from the most significant bit of the first byte.\<close>

definition pbit :: "u8 list \<Rightarrow> nat \<Rightarrow> bool" where
  "pbit bs i = bit (byte_at bs (i div 8)) (7 - i mod 8)"

definition prefix_key :: "prefix \<Rightarrow> bool list" where
  "prefix_key p = map (pbit (u_prefix p)) [0..<prefixlen p]"

section \<open>Bits, comparison and copying\<close>

definition maskbit :: "nat \<Rightarrow> u8" where
  "maskbit i = [0x00, 0x80, 0xc0, 0xe0, 0xf0, 0xf8, 0xfc, 0xfe, 0xff] ! i"

definition prefix_bit :: "u8 list \<Rightarrow> nat \<Rightarrow> nat" where
  "prefix_bit pfx len =
     (let offset = len div 8; shift = 7 - (len mod 8)
      in unat (drop_bit shift (byte_at pfx offset) AND 1))"

definition prefix6_bit :: "u8 list \<Rightarrow> nat \<Rightarrow> nat" where
  "prefix6_bit pfx len = prefix_bit pfx len"

definition afi2family :: "nat \<Rightarrow> nat" where
  "afi2family afi =
     (if afi = AFI_IP then AF_INET else if afi = AFI_IP6 then AF_INET6 else 0)"

definition family2afi :: "nat \<Rightarrow> nat" where
  "family2afi fam =
     (if fam = AF_INET then AFI_IP else if fam = AF_INET6 then AFI_IP6 else 0)"

text \<open>The loop \<open>while (offset--) if (np[offset] != pp[offset]) return 0;\<close>\<close>

fun bytes_same :: "nat \<Rightarrow> u8 list \<Rightarrow> u8 list \<Rightarrow> bool" where
  "bytes_same 0 np pp = True"
| "bytes_same (Suc offset) np pp =
     (if byte_at np offset \<noteq> byte_at pp offset then False else bytes_same offset np pp)"

definition prefix_match :: "prefix \<Rightarrow> prefix \<Rightarrow> bool" where
  "prefix_match n p =
     (if prefixlen n > prefixlen p then False
      else let np = u_prefix n; pp = u_prefix p;
               offset = prefixlen n div 8; shift = prefixlen n mod 8
        in if shift \<noteq> 0 \<and> maskbit shift AND (byte_at np offset XOR byte_at pp offset) \<noteq> 0
           then False
           else bytes_same offset np pp)"

text \<open>The destination keeps the bytes of its union that the family of the source does not use.\<close>

definition prefix_copy :: "prefix \<Rightarrow> prefix \<Rightarrow> prefix res" where
  "prefix_copy dest src =
     (let d = dest\<lparr>family := family src, prefixlen := prefixlen src\<rparr>
      in if family src = AF_INET
           then Inr (d\<lparr>u_prefix := take 4 (u_prefix src) @ drop 4 (u_prefix d)\<rparr>)
         else if family src = AF_INET6
           then Inr (d\<lparr>u_prefix := take 16 (u_prefix src) @ drop 16 (u_prefix d)\<rparr>)
         else if family src = AF_UNSPEC
           then Inr (d\<lparr>u_prefix := take 8 (u_prefix src) @ drop 8 (u_prefix d)\<rparr>)
         else Inl AssertFailed)"

definition prefix_same :: "prefix \<Rightarrow> prefix \<Rightarrow> bool" where
  "prefix_same p1 p2 =
     (family p1 = family p2 \<and> prefixlen p1 = prefixlen p2 \<and>
      (family p1 = AF_INET \<and> take 4 (u_prefix p1) = take 4 (u_prefix p2) \<or>
       family p1 = AF_INET6 \<and> take 16 (u_prefix p1) = take 16 (u_prefix p2)))"

definition prefix_cmp :: "prefix \<Rightarrow> prefix \<Rightarrow> nat" where
  "prefix_cmp p1 p2 =
     (if family p1 \<noteq> family p2 \<or> prefixlen p1 \<noteq> prefixlen p2 then 1
      else let pp1 = u_prefix p1; pp2 = u_prefix p2;
               offset = prefixlen p1 div 8; shift = prefixlen p1 mod 8
        in if shift \<noteq> 0 \<and> maskbit shift AND (byte_at pp1 offset XOR byte_at pp2 offset) \<noteq> 0
           then 1
           else if bytes_same offset pp1 pp2 then 0 else 1)"

text \<open>
  \<open>prefix_common_bits\<close>: \<open>first_diff\<close> is the loop over bytes (it returns
  \<open>length\<close> when all are equal), \<open>first_bit\<close> the loop over the bits of their
  exclusive or.
\<close>

function first_diff :: "nat \<Rightarrow> nat \<Rightarrow> u8 list \<Rightarrow> u8 list \<Rightarrow> nat" where
  "first_diff pos len pp1 pp2 =
     (if pos < len \<and> byte_at pp1 pos = byte_at pp2 pos
      then first_diff (Suc pos) len pp1 pp2 else pos)"
  by pat_completeness auto
termination
  by (relation "measure (\<lambda>(pos, len, _). len - pos)") auto

declare first_diff.simps [simp del]

function first_bit :: "nat \<Rightarrow> u8 \<Rightarrow> nat" where
  "first_bit b x =
     (if b < 8 \<and> x AND push_bit (7 - b) 1 = 0 then first_bit (Suc b) x else b)"
  by pat_completeness auto
termination
  by (relation "measure (\<lambda>(b, _). 8 - b)") auto

declare first_bit.simps [simp del]

definition prefix_common_bits :: "prefix \<Rightarrow> prefix \<Rightarrow> int" where
  "prefix_common_bits p1 p2 =
     (let len = (if family p1 = AF_INET6 then IPV6_MAX_BYTELEN
                 else if family p1 = AF_INET then IPV4_MAX_BYTELEN else 0);
          pp1 = u_prefix p1; pp2 = u_prefix p2
      in if family p1 \<noteq> family p2 \<or> len = 0 then -1
         else let pos = first_diff 0 len pp1 pp2
           in if pos = len then int (pos * 8)
              else int (pos * 8 + first_bit 0 (byte_at pp1 pos XOR byte_at pp2 pos)))"

definition prefix_family_str :: "prefix \<Rightarrow> string" where
  "prefix_family_str p =
     (if family p = AF_INET then ''inet''
      else if family p = AF_INET6 then ''inet6'' else ''unspec'')"

definition prefix_blen :: "prefix \<Rightarrow> nat" where
  "prefix_blen p =
     (if family p = AF_INET then IPV4_MAX_BYTELEN
      else if family p = AF_INET6 then IPV6_MAX_BYTELEN else 0)"

section \<open>IPv4 addresses and masks\<close>

text \<open>
  \<open>s_addr\<close> as a little-endian host loads it from and stores it into memory; \<open>htonl\<close>
  and \<open>ntohl\<close> swap the bytes.
\<close>

definition load32 :: "u8 list \<Rightarrow> u32" where
  "load32 bs = ucast (byte_at bs 0) OR push_bit 8 (ucast (byte_at bs 1)) OR
     push_bit 16 (ucast (byte_at bs 2)) OR push_bit 24 (ucast (byte_at bs 3))"

definition store32 :: "u32 \<Rightarrow> u8 list" where
  "store32 w = [ucast w, ucast (drop_bit 8 w), ucast (drop_bit 16 w), ucast (drop_bit 24 w)]"

definition htonl :: "u32 \<Rightarrow> u32" where
  "htonl w = load32 (rev (store32 w))"

abbreviation ntohl :: "u32 \<Rightarrow> u32" where
  "ntohl \<equiv> htonl"

definition prefix4 :: "prefix \<Rightarrow> u32" where
  "prefix4 p = load32 (u_prefix p)"

definition set_prefix4 :: "prefix \<Rightarrow> u32 \<Rightarrow> prefix" where
  "set_prefix4 p a = p\<lparr>u_prefix := store32 a @ drop 4 (u_prefix p)\<rparr>"

definition masklen2ip :: "int \<Rightarrow> u32 res" where
  "masklen2ip masklen =
     and_then (ensure (masklen \<ge> 0 \<and> masklen \<le> int IPV4_MAX_BITLEN))
       (\<lambda>_. Inr (htonl (ucast (push_bit (nat (32 - masklen)) (0xffffffff :: u64)))))"

text \<open>\<open>__builtin_clz\<close>: the number of leading zero bits.\<close>

definition clz32 :: "u32 \<Rightarrow> nat" where
  "clz32 w = length (takeWhile (\<lambda>i. \<not> bit w (31 - i)) [0..<32])"

definition ip_masklen :: "u32 \<Rightarrow> nat" where
  "ip_masklen netmask =
     (let tmp = NOT (ntohl netmask) in if tmp \<noteq> 0 then clz32 tmp else 32)"

definition apply_mask_ipv4 :: "prefix \<Rightarrow> prefix res" where
  "apply_mask_ipv4 p =
     and_then (masklen2ip (int (prefixlen p)))
       (\<lambda>mask. Inr (set_prefix4 p (prefix4 p AND mask)))"

definition prefix_ipv4_any :: "prefix \<Rightarrow> bool" where
  "prefix_ipv4_any p = (prefix4 p = 0 \<and> prefixlen p = 0)"

definition IN_CLASSA :: "u32 \<Rightarrow> bool" where
  "IN_CLASSA a = (a AND 0x80000000 = 0)"

definition IN_CLASSB :: "u32 \<Rightarrow> bool" where
  "IN_CLASSB a = (a AND 0xc0000000 = 0x80000000)"

definition IN_CLASSC :: "u32 \<Rightarrow> bool" where
  "IN_CLASSC a = (a AND 0xe0000000 = 0xc0000000)"

definition apply_classful_mask_ipv4 :: "prefix \<Rightarrow> prefix res" where
  "apply_classful_mask_ipv4 p =
     (let destination = ntohl (prefix4 p)
      in if prefixlen p = IPV4_MAX_BITLEN then Inr p
         else if IN_CLASSC destination then apply_mask_ipv4 (p\<lparr>prefixlen := 24\<rparr>)
         else if IN_CLASSB destination then apply_mask_ipv4 (p\<lparr>prefixlen := 16\<rparr>)
         else apply_mask_ipv4 (p\<lparr>prefixlen := 8\<rparr>))"

definition ipv4_network_addr :: "u32 \<Rightarrow> int \<Rightarrow> u32 res" where
  "ipv4_network_addr hostaddr masklen =
     and_then (masklen2ip masklen) (\<lambda>mask. Inr (hostaddr AND mask))"

definition ipv4_broadcast_addr :: "u32 \<Rightarrow> int \<Rightarrow> u32 res" where
  "ipv4_broadcast_addr hostaddr masklen =
     and_then (masklen2ip masklen)
       (\<lambda>mask. Inr (if masklen \<noteq> int IPV4_MAX_BITLEN - 1 then hostaddr OR NOT mask
                    else hostaddr XOR NOT mask))"

text \<open>
  The tests of \<^verbatim>\<open>prefix.h\<close> on an address given as an integer, and
  \<open>ipv4_martian\<close>, which applies them to \<open>s_addr\<close> as it is stored.
\<close>

definition IPV4_NET0 :: "u32 \<Rightarrow> bool" where
  "IPV4_NET0 a = (a AND 0xff000000 = 0x00000000)"

definition IPV4_NET127 :: "u32 \<Rightarrow> bool" where
  "IPV4_NET127 a = (a AND 0xff000000 = 0x7f000000)"

definition IPV4_LINKLOCAL :: "u32 \<Rightarrow> bool" where
  "IPV4_LINKLOCAL a = (a AND 0xffff0000 = 0xa9fe0000)"

definition IPV4_CLASS_DE :: "u32 \<Rightarrow> bool" where
  "IPV4_CLASS_DE a = (a AND 0xe0000000 = 0xe0000000)"

definition ipv4_martian :: "u32 \<Rightarrow> bool" where
  "ipv4_martian s_addr = (IPV4_NET0 s_addr \<or> IPV4_NET127 s_addr \<or> IPV4_CLASS_DE s_addr)"

section \<open>IPv6 masks\<close>

text \<open>
  \<open>ip6_masklen\<close>: first the loop over bytes equal to \<open>0xff\<close>, then the loop that
  shifts the next byte to the left until it is zero. The first loop reads the byte before it
  compares the count with 128, so on the all-ones mask it reads one byte past the address;
  that byte is an argument here.
\<close>

function ff_bytes :: "u8 list \<Rightarrow> nat \<Rightarrow> nat" where
  "ff_bytes bs i = (if byte_at bs i = 0xff \<and> i * 8 < IPV6_MAX_BITLEN
                    then ff_bytes bs (Suc i) else i)"
  by pat_completeness auto
termination
  by (relation "measure (\<lambda>(bs, i). 16 - i)") (auto simp: IPV6_MAX_BITLEN_def)

declare ff_bytes.simps [simp del]

function shift_len :: "u8 \<Rightarrow> nat" where
  "shift_len v = (if v \<noteq> 0 then Suc (shift_len (push_bit 1 v)) else 0)"
  by pat_completeness auto
termination
proof (relation "measure (\<lambda>v :: u8. card {i. i < 8 \<and> (\<exists>j\<le>i. bit v j)})", simp)
  fix v :: u8
  assume "v \<noteq> 0"
  let ?A = "\<lambda>v :: u8. {i. i < 8 \<and> (\<exists>j\<le>i. bit v j)}"
  from \<open>v \<noteq> 0\<close> obtain j where j: "j < 8" "bit v j"
    by (auto simp: u8_eq_iff)
  define k where "k = (LEAST j. bit v j)"
  have k: "bit v k" "k < 8" and least: "\<And>j. bit v j \<Longrightarrow> k \<le> j"
    using j LeastI [of "bit v" j] Least_le [of "bit v"]
    by (auto simp: k_def intro: le_less_trans)
  have "k \<in> ?A v" using k by blast
  moreover have "k \<notin> ?A (push_bit 1 v)"
    using least by (fastforce simp: bit_double_u8)
  moreover have "?A (push_bit 1 v) \<subseteq> ?A v"
    by (auto simp: bit_double_u8) (meson diff_le_self le_trans)
  ultimately have "?A (push_bit 1 v) \<subset> ?A v" by blast
  then show "(push_bit 1 v, v) \<in> measure (\<lambda>v. card (?A v))"
    by (simp add: psubset_card_mono)
qed

declare shift_len.simps [simp del]

definition ip6_masklen :: "u8 \<Rightarrow> u8 list \<Rightarrow> nat" where
  "ip6_masklen after netmask =
     (let bs = netmask @ [after]; i = ff_bytes bs 0; len = i * 8
      in if len < IPV6_MAX_BITLEN then len + shift_len (byte_at bs i) else len)"

definition maskbytes6 :: "u8 list list" where
  "maskbytes6 =
  [
   [0x00, 0x00, 0x00, 0x00, 0x00, 0x00, 0x00, 0x00, 0x00, 0x00, 0x00, 0x00, 0x00, 0x00, 0x00, 0x00],
   [0x80, 0x00, 0x00, 0x00, 0x00, 0x00, 0x00, 0x00, 0x00, 0x00, 0x00, 0x00, 0x00, 0x00, 0x00, 0x00],
   [0xc0, 0x00, 0x00, 0x00, 0x00, 0x00, 0x00, 0x00, 0x00, 0x00, 0x00, 0x00, 0x00, 0x00, 0x00, 0x00],
   [0xe0, 0x00, 0x00, 0x00, 0x00, 0x00, 0x00, 0x00, 0x00, 0x00, 0x00, 0x00, 0x00, 0x00, 0x00, 0x00],
   [0xf0, 0x00, 0x00, 0x00, 0x00, 0x00, 0x00, 0x00, 0x00, 0x00, 0x00, 0x00, 0x00, 0x00, 0x00, 0x00],
   [0xf8, 0x00, 0x00, 0x00, 0x00, 0x00, 0x00, 0x00, 0x00, 0x00, 0x00, 0x00, 0x00, 0x00, 0x00, 0x00],
   [0xfc, 0x00, 0x00, 0x00, 0x00, 0x00, 0x00, 0x00, 0x00, 0x00, 0x00, 0x00, 0x00, 0x00, 0x00, 0x00],
   [0xfe, 0x00, 0x00, 0x00, 0x00, 0x00, 0x00, 0x00, 0x00, 0x00, 0x00, 0x00, 0x00, 0x00, 0x00, 0x00],
   [0xff, 0x00, 0x00, 0x00, 0x00, 0x00, 0x00, 0x00, 0x00, 0x00, 0x00, 0x00, 0x00, 0x00, 0x00, 0x00],
   [0xff, 0x80, 0x00, 0x00, 0x00, 0x00, 0x00, 0x00, 0x00, 0x00, 0x00, 0x00, 0x00, 0x00, 0x00, 0x00],
   [0xff, 0xc0, 0x00, 0x00, 0x00, 0x00, 0x00, 0x00, 0x00, 0x00, 0x00, 0x00, 0x00, 0x00, 0x00, 0x00],
   [0xff, 0xe0, 0x00, 0x00, 0x00, 0x00, 0x00, 0x00, 0x00, 0x00, 0x00, 0x00, 0x00, 0x00, 0x00, 0x00],
   [0xff, 0xf0, 0x00, 0x00, 0x00, 0x00, 0x00, 0x00, 0x00, 0x00, 0x00, 0x00, 0x00, 0x00, 0x00, 0x00],
   [0xff, 0xf8, 0x00, 0x00, 0x00, 0x00, 0x00, 0x00, 0x00, 0x00, 0x00, 0x00, 0x00, 0x00, 0x00, 0x00],
   [0xff, 0xfc, 0x00, 0x00, 0x00, 0x00, 0x00, 0x00, 0x00, 0x00, 0x00, 0x00, 0x00, 0x00, 0x00, 0x00],
   [0xff, 0xfe, 0x00, 0x00, 0x00, 0x00, 0x00, 0x00, 0x00, 0x00, 0x00, 0x00, 0x00, 0x00, 0x00, 0x00],
   [0xff, 0xff, 0x00, 0x00, 0x00, 0x00, 0x00, 0x00, 0x00, 0x00, 0x00, 0x00, 0x00, 0x00, 0x00, 0x00],
   [0xff, 0xff, 0x80, 0x00, 0x00, 0x00, 0x00, 0x00, 0x00, 0x00, 0x00, 0x00, 0x00, 0x00, 0x00, 0x00],
   [0xff, 0xff, 0xc0, 0x00, 0x00, 0x00, 0x00, 0x00, 0x00, 0x00, 0x00, 0x00, 0x00, 0x00, 0x00, 0x00],
   [0xff, 0xff, 0xe0, 0x00, 0x00, 0x00, 0x00, 0x00, 0x00, 0x00, 0x00, 0x00, 0x00, 0x00, 0x00, 0x00],
   [0xff, 0xff, 0xf0, 0x00, 0x00, 0x00, 0x00, 0x00, 0x00, 0x00, 0x00, 0x00, 0x00, 0x00, 0x00, 0x00],
   [0xff, 0xff, 0xf8, 0x00, 0x00, 0x00, 0x00, 0x00, 0x00, 0x00, 0x00, 0x00, 0x00, 0x00, 0x00, 0x00],
   [0xff, 0xff, 0xfc, 0x00, 0x00, 0x00, 0x00, 0x00, 0x00, 0x00, 0x00, 0x00, 0x00, 0x00, 0x00, 0x00],
   [0xff, 0xff, 0xfe, 0x00, 0x00, 0x00, 0x00, 0x00, 0x00, 0x00, 0x00, 0x00, 0x00, 0x00, 0x00, 0x00],
   [0xff, 0xff, 0xff, 0x00, 0x00, 0x00, 0x00, 0x00, 0x00, 0x00, 0x00, 0x00, 0x00, 0x00, 0x00, 0x00],
   [0xff, 0xff, 0xff, 0x80, 0x00, 0x00, 0x00, 0x00, 0x00, 0x00, 0x00, 0x00, 0x00, 0x00, 0x00, 0x00],
   [0xff, 0xff, 0xff, 0xc0, 0x00, 0x00, 0x00, 0x00, 0x00, 0x00, 0x00, 0x00, 0x00, 0x00, 0x00, 0x00],
   [0xff, 0xff, 0xff, 0xe0, 0x00, 0x00, 0x00, 0x00, 0x00, 0x00, 0x00, 0x00, 0x00, 0x00, 0x00, 0x00],
   [0xff, 0xff, 0xff, 0xf0, 0x00, 0x00, 0x00, 0x00, 0x00, 0x00, 0x00, 0x00, 0x00, 0x00, 0x00, 0x00],
   [0xff, 0xff, 0xff, 0xf8, 0x00, 0x00, 0x00, 0x00, 0x00, 0x00, 0x00, 0x00, 0x00, 0x00, 0x00, 0x00],
   [0xff, 0xff, 0xff, 0xfc, 0x00, 0x00, 0x00, 0x00, 0x00, 0x00, 0x00, 0x00, 0x00, 0x00, 0x00, 0x00],
   [0xff, 0xff, 0xff, 0xfe, 0x00, 0x00, 0x00, 0x00, 0x00, 0x00, 0x00, 0x00, 0x00, 0x00, 0x00, 0x00],
   [0xff, 0xff, 0xff, 0xff, 0x00, 0x00, 0x00, 0x00, 0x00, 0x00, 0x00, 0x00, 0x00, 0x00, 0x00, 0x00],
   [0xff, 0xff, 0xff, 0xff, 0x80, 0x00, 0x00, 0x00, 0x00, 0x00, 0x00, 0x00, 0x00, 0x00, 0x00, 0x00],
   [0xff, 0xff, 0xff, 0xff, 0xc0, 0x00, 0x00, 0x00, 0x00, 0x00, 0x00, 0x00, 0x00, 0x00, 0x00, 0x00],
   [0xff, 0xff, 0xff, 0xff, 0xe0, 0x00, 0x00, 0x00, 0x00, 0x00, 0x00, 0x00, 0x00, 0x00, 0x00, 0x00],
   [0xff, 0xff, 0xff, 0xff, 0xf0, 0x00, 0x00, 0x00, 0x00, 0x00, 0x00, 0x00, 0x00, 0x00, 0x00, 0x00],
   [0xff, 0xff, 0xff, 0xff, 0xf8, 0x00, 0x00, 0x00, 0x00, 0x00, 0x00, 0x00, 0x00, 0x00, 0x00, 0x00],
   [0xff, 0xff, 0xff, 0xff, 0xfc, 0x00, 0x00, 0x00, 0x00, 0x00, 0x00, 0x00, 0x00, 0x00, 0x00, 0x00],
   [0xff, 0xff, 0xff, 0xff, 0xfe, 0x00, 0x00, 0x00, 0x00, 0x00, 0x00, 0x00, 0x00, 0x00, 0x00, 0x00],
   [0xff, 0xff, 0xff, 0xff, 0xff, 0x00, 0x00, 0x00, 0x00, 0x00, 0x00, 0x00, 0x00, 0x00, 0x00, 0x00],
   [0xff, 0xff, 0xff, 0xff, 0xff, 0x80, 0x00, 0x00, 0x00, 0x00, 0x00, 0x00, 0x00, 0x00, 0x00, 0x00],
   [0xff, 0xff, 0xff, 0xff, 0xff, 0xc0, 0x00, 0x00, 0x00, 0x00, 0x00, 0x00, 0x00, 0x00, 0x00, 0x00],
   [0xff, 0xff, 0xff, 0xff, 0xff, 0xe0, 0x00, 0x00, 0x00, 0x00, 0x00, 0x00, 0x00, 0x00, 0x00, 0x00],
   [0xff, 0xff, 0xff, 0xff, 0xff, 0xf0, 0x00, 0x00, 0x00, 0x00, 0x00, 0x00, 0x00, 0x00, 0x00, 0x00],
   [0xff, 0xff, 0xff, 0xff, 0xff, 0xf8, 0x00, 0x00, 0x00, 0x00, 0x00, 0x00, 0x00, 0x00, 0x00, 0x00],
   [0xff, 0xff, 0xff, 0xff, 0xff, 0xfc, 0x00, 0x00, 0x00, 0x00, 0x00, 0x00, 0x00, 0x00, 0x00, 0x00],
   [0xff, 0xff, 0xff, 0xff, 0xff, 0xfe, 0x00, 0x00, 0x00, 0x00, 0x00, 0x00, 0x00, 0x00, 0x00, 0x00],
   [0xff, 0xff, 0xff, 0xff, 0xff, 0xff, 0x00, 0x00, 0x00, 0x00, 0x00, 0x00, 0x00, 0x00, 0x00, 0x00],
   [0xff, 0xff, 0xff, 0xff, 0xff, 0xff, 0x80, 0x00, 0x00, 0x00, 0x00, 0x00, 0x00, 0x00, 0x00, 0x00],
   [0xff, 0xff, 0xff, 0xff, 0xff, 0xff, 0xc0, 0x00, 0x00, 0x00, 0x00, 0x00, 0x00, 0x00, 0x00, 0x00],
   [0xff, 0xff, 0xff, 0xff, 0xff, 0xff, 0xe0, 0x00, 0x00, 0x00, 0x00, 0x00, 0x00, 0x00, 0x00, 0x00],
   [0xff, 0xff, 0xff, 0xff, 0xff, 0xff, 0xf0, 0x00, 0x00, 0x00, 0x00, 0x00, 0x00, 0x00, 0x00, 0x00],
   [0xff, 0xff, 0xff, 0xff, 0xff, 0xff, 0xf8, 0x00, 0x00, 0x00, 0x00, 0x00, 0x00, 0x00, 0x00, 0x00],
   [0xff, 0xff, 0xff, 0xff, 0xff, 0xff, 0xfc, 0x00, 0x00, 0x00, 0x00, 0x00, 0x00, 0x00, 0x00, 0x00],
   [0xff, 0xff, 0xff, 0xff, 0xff, 0xff, 0xfe, 0x00, 0x00, 0x00, 0x00, 0x00, 0x00, 0x00, 0x00, 0x00],
   [0xff, 0xff, 0xff, 0xff, 0xff, 0xff, 0xff, 0x00, 0x00, 0x00, 0x00, 0x00, 0x00, 0x00, 0x00, 0x00],
   [0xff, 0xff, 0xff, 0xff, 0xff, 0xff, 0xff, 0x80, 0x00, 0x00, 0x00, 0x00, 0x00, 0x00, 0x00, 0x00],
   [0xff, 0xff, 0xff, 0xff, 0xff, 0xff, 0xff, 0xc0, 0x00, 0x00, 0x00, 0x00, 0x00, 0x00, 0x00, 0x00],
   [0xff, 0xff, 0xff, 0xff, 0xff, 0xff, 0xff, 0xe0, 0x00, 0x00, 0x00, 0x00, 0x00, 0x00, 0x00, 0x00],
   [0xff, 0xff, 0xff, 0xff, 0xff, 0xff, 0xff, 0xf0, 0x00, 0x00, 0x00, 0x00, 0x00, 0x00, 0x00, 0x00],
   [0xff, 0xff, 0xff, 0xff, 0xff, 0xff, 0xff, 0xf8, 0x00, 0x00, 0x00, 0x00, 0x00, 0x00, 0x00, 0x00],
   [0xff, 0xff, 0xff, 0xff, 0xff, 0xff, 0xff, 0xfc, 0x00, 0x00, 0x00, 0x00, 0x00, 0x00, 0x00, 0x00],
   [0xff, 0xff, 0xff, 0xff, 0xff, 0xff, 0xff, 0xfe, 0x00, 0x00, 0x00, 0x00, 0x00, 0x00, 0x00, 0x00],
   [0xff, 0xff, 0xff, 0xff, 0xff, 0xff, 0xff, 0xff, 0x00, 0x00, 0x00, 0x00, 0x00, 0x00, 0x00, 0x00],
   [0xff, 0xff, 0xff, 0xff, 0xff, 0xff, 0xff, 0xff, 0x80, 0x00, 0x00, 0x00, 0x00, 0x00, 0x00, 0x00],
   [0xff, 0xff, 0xff, 0xff, 0xff, 0xff, 0xff, 0xff, 0xc0, 0x00, 0x00, 0x00, 0x00, 0x00, 0x00, 0x00],
   [0xff, 0xff, 0xff, 0xff, 0xff, 0xff, 0xff, 0xff, 0xe0, 0x00, 0x00, 0x00, 0x00, 0x00, 0x00, 0x00],
   [0xff, 0xff, 0xff, 0xff, 0xff, 0xff, 0xff, 0xff, 0xf0, 0x00, 0x00, 0x00, 0x00, 0x00, 0x00, 0x00],
   [0xff, 0xff, 0xff, 0xff, 0xff, 0xff, 0xff, 0xff, 0xf8, 0x00, 0x00, 0x00, 0x00, 0x00, 0x00, 0x00],
   [0xff, 0xff, 0xff, 0xff, 0xff, 0xff, 0xff, 0xff, 0xfc, 0x00, 0x00, 0x00, 0x00, 0x00, 0x00, 0x00],
   [0xff, 0xff, 0xff, 0xff, 0xff, 0xff, 0xff, 0xff, 0xfe, 0x00, 0x00, 0x00, 0x00, 0x00, 0x00, 0x00],
   [0xff, 0xff, 0xff, 0xff, 0xff, 0xff, 0xff, 0xff, 0xff, 0x00, 0x00, 0x00, 0x00, 0x00, 0x00, 0x00],
   [0xff, 0xff, 0xff, 0xff, 0xff, 0xff, 0xff, 0xff, 0xff, 0x80, 0x00, 0x00, 0x00, 0x00, 0x00, 0x00],
   [0xff, 0xff, 0xff, 0xff, 0xff, 0xff, 0xff, 0xff, 0xff, 0xc0, 0x00, 0x00, 0x00, 0x00, 0x00, 0x00],
   [0xff, 0xff, 0xff, 0xff, 0xff, 0xff, 0xff, 0xff, 0xff, 0xe0, 0x00, 0x00, 0x00, 0x00, 0x00, 0x00],
   [0xff, 0xff, 0xff, 0xff, 0xff, 0xff, 0xff, 0xff, 0xff, 0xf0, 0x00, 0x00, 0x00, 0x00, 0x00, 0x00],
   [0xff, 0xff, 0xff, 0xff, 0xff, 0xff, 0xff, 0xff, 0xff, 0xf8, 0x00, 0x00, 0x00, 0x00, 0x00, 0x00],
   [0xff, 0xff, 0xff, 0xff, 0xff, 0xff, 0xff, 0xff, 0xff, 0xfc, 0x00, 0x00, 0x00, 0x00, 0x00, 0x00],
   [0xff, 0xff, 0xff, 0xff, 0xff, 0xff, 0xff, 0xff, 0xff, 0xfe, 0x00, 0x00, 0x00, 0x00, 0x00, 0x00],
   [0xff, 0xff, 0xff, 0xff, 0xff, 0xff, 0xff, 0xff, 0xff, 0xff, 0x00, 0x00, 0x00, 0x00, 0x00, 0x00],
   [0xff, 0xff, 0xff, 0xff, 0xff, 0xff, 0xff, 0xff, 0xff, 0xff, 0x80, 0x00, 0x00, 0x00, 0x00, 0x00],
   [0xff, 0xff, 0xff, 0xff, 0xff, 0xff, 0xff, 0xff, 0xff, 0xff, 0xc0, 0x00, 0x00, 0x00, 0x00, 0x00],
   [0xff, 0xff, 0xff, 0xff, 0xff, 0xff, 0xff, 0xff, 0xff, 0xff, 0xe0, 0x00, 0x00, 0x00, 0x00, 0x00],
   [0xff, 0xff, 0xff, 0xff, 0xff, 0xff, 0xff, 0xff, 0xff, 0xff, 0xf0, 0x00, 0x00, 0x00, 0x00, 0x00],
   [0xff, 0xff, 0xff, 0xff, 0xff, 0xff, 0xff, 0xff, 0xff, 0xff, 0xf8, 0x00, 0x00, 0x00, 0x00, 0x00],
   [0xff, 0xff, 0xff, 0xff, 0xff, 0xff, 0xff, 0xff, 0xff, 0xff, 0xfc, 0x00, 0x00, 0x00, 0x00, 0x00],
   [0xff, 0xff, 0xff, 0xff, 0xff, 0xff, 0xff, 0xff, 0xff, 0xff, 0xfe, 0x00, 0x00, 0x00, 0x00, 0x00],
   [0xff, 0xff, 0xff, 0xff, 0xff, 0xff, 0xff, 0xff, 0xff, 0xff, 0xff, 0x00, 0x00, 0x00, 0x00, 0x00],
   [0xff, 0xff, 0xff, 0xff, 0xff, 0xff, 0xff, 0xff, 0xff, 0xff, 0xff, 0x80, 0x00, 0x00, 0x00, 0x00],
   [0xff, 0xff, 0xff, 0xff, 0xff, 0xff, 0xff, 0xff, 0xff, 0xff, 0xff, 0xc0, 0x00, 0x00, 0x00, 0x00],
   [0xff, 0xff, 0xff, 0xff, 0xff, 0xff, 0xff, 0xff, 0xff, 0xff, 0xff, 0xe0, 0x00, 0x00, 0x00, 0x00],
   [0xff, 0xff, 0xff, 0xff, 0xff, 0xff, 0xff, 0xff, 0xff, 0xff, 0xff, 0xf0, 0x00, 0x00, 0x00, 0x00],
   [0xff, 0xff, 0xff, 0xff, 0xff, 0xff, 0xff, 0xff, 0xff, 0xff, 0xff, 0xf8, 0x00, 0x00, 0x00, 0x00],
   [0xff, 0xff, 0xff, 0xff, 0xff, 0xff, 0xff, 0xff, 0xff, 0xff, 0xff, 0xfc, 0x00, 0x00, 0x00, 0x00],
   [0xff, 0xff, 0xff, 0xff, 0xff, 0xff, 0xff, 0xff, 0xff, 0xff, 0xff, 0xfe, 0x00, 0x00, 0x00, 0x00],
   [0xff, 0xff, 0xff, 0xff, 0xff, 0xff, 0xff, 0xff, 0xff, 0xff, 0xff, 0xff, 0x00, 0x00, 0x00, 0x00],
   [0xff, 0xff, 0xff, 0xff, 0xff, 0xff, 0xff, 0xff, 0xff, 0xff, 0xff, 0xff, 0x80, 0x00, 0x00, 0x00],
   [0xff, 0xff, 0xff, 0xff, 0xff, 0xff, 0xff, 0xff, 0xff, 0xff, 0xff, 0xff, 0xc0, 0x00, 0x00, 0x00],
   [0xff, 0xff, 0xff, 0xff, 0xff, 0xff, 0xff, 0xff, 0xff, 0xff, 0xff, 0xff, 0xe0, 0x00, 0x00, 0x00],
   [0xff, 0xff, 0xff, 0xff, 0xff, 0xff, 0xff, 0xff, 0xff, 0xff, 0xff, 0xff, 0xf0, 0x00, 0x00, 0x00],
   [0xff, 0xff, 0xff, 0xff, 0xff, 0xff, 0xff, 0xff, 0xff, 0xff, 0xff, 0xff, 0xf8, 0x00, 0x00, 0x00],
   [0xff, 0xff, 0xff, 0xff, 0xff, 0xff, 0xff, 0xff, 0xff, 0xff, 0xff, 0xff, 0xfc, 0x00, 0x00, 0x00],
   [0xff, 0xff, 0xff, 0xff, 0xff, 0xff, 0xff, 0xff, 0xff, 0xff, 0xff, 0xff, 0xfe, 0x00, 0x00, 0x00],
   [0xff, 0xff, 0xff, 0xff, 0xff, 0xff, 0xff, 0xff, 0xff, 0xff, 0xff, 0xff, 0xff, 0x00, 0x00, 0x00],
   [0xff, 0xff, 0xff, 0xff, 0xff, 0xff, 0xff, 0xff, 0xff, 0xff, 0xff, 0xff, 0xff, 0x80, 0x00, 0x00],
   [0xff, 0xff, 0xff, 0xff, 0xff, 0xff, 0xff, 0xff, 0xff, 0xff, 0xff, 0xff, 0xff, 0xc0, 0x00, 0x00],
   [0xff, 0xff, 0xff, 0xff, 0xff, 0xff, 0xff, 0xff, 0xff, 0xff, 0xff, 0xff, 0xff, 0xe0, 0x00, 0x00],
   [0xff, 0xff, 0xff, 0xff, 0xff, 0xff, 0xff, 0xff, 0xff, 0xff, 0xff, 0xff, 0xff, 0xf0, 0x00, 0x00],
   [0xff, 0xff, 0xff, 0xff, 0xff, 0xff, 0xff, 0xff, 0xff, 0xff, 0xff, 0xff, 0xff, 0xf8, 0x00, 0x00],
   [0xff, 0xff, 0xff, 0xff, 0xff, 0xff, 0xff, 0xff, 0xff, 0xff, 0xff, 0xff, 0xff, 0xfc, 0x00, 0x00],
   [0xff, 0xff, 0xff, 0xff, 0xff, 0xff, 0xff, 0xff, 0xff, 0xff, 0xff, 0xff, 0xff, 0xfe, 0x00, 0x00],
   [0xff, 0xff, 0xff, 0xff, 0xff, 0xff, 0xff, 0xff, 0xff, 0xff, 0xff, 0xff, 0xff, 0xff, 0x00, 0x00],
   [0xff, 0xff, 0xff, 0xff, 0xff, 0xff, 0xff, 0xff, 0xff, 0xff, 0xff, 0xff, 0xff, 0xff, 0x80, 0x00],
   [0xff, 0xff, 0xff, 0xff, 0xff, 0xff, 0xff, 0xff, 0xff, 0xff, 0xff, 0xff, 0xff, 0xff, 0xc0, 0x00],
   [0xff, 0xff, 0xff, 0xff, 0xff, 0xff, 0xff, 0xff, 0xff, 0xff, 0xff, 0xff, 0xff, 0xff, 0xe0, 0x00],
   [0xff, 0xff, 0xff, 0xff, 0xff, 0xff, 0xff, 0xff, 0xff, 0xff, 0xff, 0xff, 0xff, 0xff, 0xf0, 0x00],
   [0xff, 0xff, 0xff, 0xff, 0xff, 0xff, 0xff, 0xff, 0xff, 0xff, 0xff, 0xff, 0xff, 0xff, 0xf8, 0x00],
   [0xff, 0xff, 0xff, 0xff, 0xff, 0xff, 0xff, 0xff, 0xff, 0xff, 0xff, 0xff, 0xff, 0xff, 0xfc, 0x00],
   [0xff, 0xff, 0xff, 0xff, 0xff, 0xff, 0xff, 0xff, 0xff, 0xff, 0xff, 0xff, 0xff, 0xff, 0xfe, 0x00],
   [0xff, 0xff, 0xff, 0xff, 0xff, 0xff, 0xff, 0xff, 0xff, 0xff, 0xff, 0xff, 0xff, 0xff, 0xff, 0x00],
   [0xff, 0xff, 0xff, 0xff, 0xff, 0xff, 0xff, 0xff, 0xff, 0xff, 0xff, 0xff, 0xff, 0xff, 0xff, 0x80],
   [0xff, 0xff, 0xff, 0xff, 0xff, 0xff, 0xff, 0xff, 0xff, 0xff, 0xff, 0xff, 0xff, 0xff, 0xff, 0xc0],
   [0xff, 0xff, 0xff, 0xff, 0xff, 0xff, 0xff, 0xff, 0xff, 0xff, 0xff, 0xff, 0xff, 0xff, 0xff, 0xe0],
   [0xff, 0xff, 0xff, 0xff, 0xff, 0xff, 0xff, 0xff, 0xff, 0xff, 0xff, 0xff, 0xff, 0xff, 0xff, 0xf0],
   [0xff, 0xff, 0xff, 0xff, 0xff, 0xff, 0xff, 0xff, 0xff, 0xff, 0xff, 0xff, 0xff, 0xff, 0xff, 0xf8],
   [0xff, 0xff, 0xff, 0xff, 0xff, 0xff, 0xff, 0xff, 0xff, 0xff, 0xff, 0xff, 0xff, 0xff, 0xff, 0xfc],
   [0xff, 0xff, 0xff, 0xff, 0xff, 0xff, 0xff, 0xff, 0xff, 0xff, 0xff, 0xff, 0xff, 0xff, 0xff, 0xfe],
   [0xff, 0xff, 0xff, 0xff, 0xff, 0xff, 0xff, 0xff, 0xff, 0xff, 0xff, 0xff, 0xff, 0xff, 0xff, 0xff]
  ]"

definition masklen2ip6 :: "int \<Rightarrow> u8 list res" where
  "masklen2ip6 masklen =
     and_then (ensure (masklen \<ge> 0 \<and> masklen \<le> int IPV6_MAX_BITLEN))
       (\<lambda>_. Inr (maskbytes6 ! nat masklen))"

text \<open>The loop \<open>while (index < 16) pnt[index++] = 0;\<close>\<close>

function clear_bytes :: "u8 list \<Rightarrow> nat \<Rightarrow> u8 list" where
  "clear_bytes bs index = (if index < 16 then clear_bytes (bs[index := 0]) (Suc index) else bs)"
  by pat_completeness auto
termination
  by (relation "measure (\<lambda>(bs, index). 16 - index)") auto

declare clear_bytes.simps [simp del]

definition apply_mask_ipv6 :: "prefix \<Rightarrow> prefix" where
  "apply_mask_ipv6 p =
     (let index = prefixlen p div 8
      in if index < 16
         then let offset = prefixlen p mod 8; pnt = u_prefix p
           in p\<lparr>u_prefix := clear_bytes (pnt[index := byte_at pnt index AND maskbit offset])
                                (Suc index)\<rparr>
         else p)"

definition apply_mask :: "prefix \<Rightarrow> prefix res" where
  "apply_mask p =
     (if family p = AF_INET then apply_mask_ipv4 p
      else if family p = AF_INET6 then Inr (apply_mask_ipv6 p) else Inr p)"

section \<open>Text and socket addresses\<close>

text \<open>
  \<open>atoi\<close> of the C library on a string whose number fits an \<open>int\<close>: white space, an
  optional sign, decimal digits up to the first other character.
\<close>

definition isspace :: "char \<Rightarrow> bool" where
  "isspace c = (of_char c \<in> {9, 10, 11, 12, 13, 32 :: nat})"

definition isdigit :: "char \<Rightarrow> bool" where
  "isdigit c = (48 \<le> (of_char c :: nat) \<and> (of_char c :: nat) \<le> 57)"

fun digits_value :: "int \<Rightarrow> string \<Rightarrow> int" where
  "digits_value acc [] = acc"
| "digits_value acc (c # cs) =
     (if isdigit c then digits_value (10 * acc + (of_char c - 48)) cs else acc)"

definition atoi :: "string \<Rightarrow> int" where
  "atoi str =
     (case dropWhile isspace str of
        [] \<Rightarrow> 0
      | c # cs \<Rightarrow> (if c = CHR ''-'' then - digits_value 0 cs
                   else if c = CHR ''+'' then digits_value 0 cs
                   else digits_value 0 (c # cs)))"

definition all_digit :: "string \<Rightarrow> bool" where
  "all_digit str = list_all isdigit str"

definition prefix_new :: prefix where
  "prefix_new = \<lparr>family = 0, prefixlen = 0, u_prefix = replicate 16 0\<rparr>"

definition prefix_ipv4_new :: prefix where
  "prefix_ipv4_new = prefix_new\<lparr>family := AF_INET\<rparr>"

definition prefix_ipv6_new :: prefix where
  "prefix_ipv6_new = prefix_new\<lparr>family := AF_INET6\<rparr>"

text \<open>
  The address parsers \<open>inet_aton\<close> and \<open>inet_pton\<close> of the system library are
  arguments; \<open>None\<close> is their result 0, which leaves the destination as it is.
\<close>

definition str2prefix_ipv4 ::
    "(string \<Rightarrow> u32 option) \<Rightarrow> string \<Rightarrow> prefix \<Rightarrow> int \<times> prefix" where
  "str2prefix_ipv4 inet_aton str p =
     (let addr = takeWhile (\<lambda>c. c \<noteq> CHR ''/'') str
      in if addr = str
         then case inet_aton str of
                None \<Rightarrow> (0, p)
              | Some a \<Rightarrow> (1, (set_prefix4 p a)\<lparr>family := AF_INET, prefixlen := IPV4_MAX_BITLEN\<rparr>)
         else let (ret, p) = (case inet_aton addr of None \<Rightarrow> (0, p) | Some a \<Rightarrow> (1, set_prefix4 p a));
                  plen = nat (atoi (drop (Suc (length addr)) str) mod 256)
           in if plen > IPV4_MAX_BITLEN then (0, p)
              else (ret, p\<lparr>family := AF_INET, prefixlen := plen\<rparr>))"

definition str2prefix_ipv6 ::
    "(string \<Rightarrow> u8 list option) \<Rightarrow> string \<Rightarrow> prefix \<Rightarrow> int \<times> prefix" where
  "str2prefix_ipv6 inet_pton6 str p =
     (let addr = takeWhile (\<lambda>c. c \<noteq> CHR ''/'') str
      in if addr = str
         then case inet_pton6 str of
                None \<Rightarrow> (0, p)
              | Some a \<Rightarrow> (1, p\<lparr>u_prefix := a, prefixlen := IPV6_MAX_BITLEN, family := AF_INET6\<rparr>)
         else case inet_pton6 addr of
                None \<Rightarrow> (0, p)
              | Some a \<Rightarrow>
                  (let p = p\<lparr>u_prefix := a\<rparr>;
                       plen = nat (atoi (drop (Suc (length addr)) str) mod 256)
                   in if plen > IPV6_MAX_BITLEN then (0, p)
                      else (1, p\<lparr>prefixlen := plen, family := AF_INET6\<rparr>)))"

definition str2prefix ::
    "(string \<Rightarrow> u32 option) \<Rightarrow> (string \<Rightarrow> u8 list option) \<Rightarrow> string \<Rightarrow> prefix \<Rightarrow> int \<times> prefix"
where
  "str2prefix inet_aton inet_pton6 str p =
     (let (ret, p) = str2prefix_ipv4 inet_aton str p
      in if ret \<noteq> 0 then (ret, p)
         else let (ret, p) = str2prefix_ipv6 inet_pton6 str p
           in if ret \<noteq> 0 then (ret, p) else (0, p))"

text \<open>
  The fields of \<open>union sockunion\<close> that these conversions read and write, one per view.
\<close>

record sockunion =
  sa_family :: nat
  sin_addr :: u32
  sin6_addr :: "u8 list"

definition sockunion2prefix :: "u8 \<Rightarrow> sockunion \<Rightarrow> sockunion \<Rightarrow> prefix option" where
  "sockunion2prefix after dest msk =
     (if sa_family dest = AF_INET
      then Some ((set_prefix4 prefix_ipv4_new (sin_addr dest))
                   \<lparr>family := AF_INET, prefixlen := ip_masklen (sin_addr msk)\<rparr>)
      else if sa_family dest = AF_INET6
      then Some (prefix_ipv6_new
                   \<lparr>family := AF_INET6, prefixlen := ip6_masklen after (sin6_addr msk),
                    u_prefix := sin6_addr dest\<rparr>)
      else None)"

definition sockunion2hostprefix :: "sockunion \<Rightarrow> prefix option" where
  "sockunion2hostprefix su =
     (if sa_family su = AF_INET
      then Some ((set_prefix4 prefix_ipv4_new (sin_addr su))
                   \<lparr>family := AF_INET, prefixlen := IPV4_MAX_BITLEN\<rparr>)
      else if sa_family su = AF_INET6
      then Some (prefix_ipv6_new
                   \<lparr>family := AF_INET6, prefixlen := IPV6_MAX_BITLEN, u_prefix := sin6_addr su\<rparr>)
      else None)"

definition prefix2sockunion :: "prefix \<Rightarrow> sockunion" where
  "prefix2sockunion p =
     (let su = \<lparr>sa_family = family p, sin_addr = 0, sin6_addr = replicate 16 0\<rparr>
      in if family p = AF_INET then su\<lparr>sin_addr := prefix4 p\<rparr>
         else if family p = AF_INET6 then su\<lparr>sin6_addr := take 16 (u_prefix p)\<rparr>
         else su)"

text \<open>Sample prefixes: 10.0.0.0/8, 10.1.2.3/16 and 192.168.0.0/16.\<close>

definition net10 :: prefix where
  "net10 = \<lparr>family = AF_INET, prefixlen = 8, u_prefix = 10 # replicate 15 0\<rparr>"

definition net10_1 :: prefix where
  "net10_1 = \<lparr>family = AF_INET, prefixlen = 16, u_prefix = [10, 1, 2, 3] @ replicate 12 0\<rparr>"

definition net192 :: prefix where
  "net192 = \<lparr>family = AF_INET, prefixlen = 16, u_prefix = [192, 168] @ replicate 14 0\<rparr>"

section \<open>The bits of an address\<close>

lemma length_prefix_key [simp]: "length (prefix_key p) = prefixlen p"
  by (simp add: prefix_key_def)

lemma prefix_bit_pbit: "prefix_bit bs i = of_bool (pbit bs i)"
  by (simp add: prefix_bit_def pbit_def and_1_unat bit_drop_bit_eq)

lemma pbit_byte: "k < 8 \<Longrightarrow> pbit bs (8 * j + k) = bit (byte_at bs j) (7 - k)"
  by (simp add: pbit_def)

lemma bit_byte_pbit: "i < 8 \<Longrightarrow> bit (byte_at bs j) i = pbit bs (8 * j + (7 - i))"
  by (subst pbit_byte) auto

lemma byte_eq_pbit:
  "byte_at as j = byte_at bs j \<longleftrightarrow> (\<forall>k<8. pbit as (8 * j + k) = pbit bs (8 * j + k))"
proof
  assume R: "\<forall>k<8. pbit as (8 * j + k) = pbit bs (8 * j + k)"
  show "byte_at as j = byte_at bs j"
    unfolding u8_eq_iff
  proof (intro allI impI)
    fix i :: nat assume "i < 8"
    then show "bit (byte_at as j) i = bit (byte_at bs j) i"
      using R [rule_format, of "7 - i"] by (simp only: bit_byte_pbit)
  qed
qed (simp add: pbit_byte)

lemma all_less_split8: "(\<forall>i < 8 * Suc n. P i) \<longleftrightarrow> (\<forall>i < 8 * n. P i) \<and> (\<forall>k<8. P (8 * n + k))"
  for P :: "nat \<Rightarrow> bool"
proof (intro iffI conjI allI impI)
  fix i assume *: "(\<forall>i < 8 * n. P i) \<and> (\<forall>k<8. P (8 * n + k))" and "i < 8 * Suc n"
  then show "P i"
    using conjunct2 [OF *, rule_format, of "i - 8 * n"] by (cases "i < 8 * n") auto
next
  fix k :: nat assume "\<forall>i < 8 * Suc n. P i" and "k < 8"
  then show "P (8 * n + k)" by simp
qed simp

lemma bytes_same_pbit: "bytes_same n as bs \<longleftrightarrow> (\<forall>i < 8 * n. pbit as i = pbit bs i)"
  by (induction n) (auto simp: all_less_split8 byte_eq_pbit simp del: mult_Suc_right)

lemma bit_maskbit: "s \<le> 8 \<Longrightarrow> i < 8 \<Longrightarrow> bit (maskbit s) i \<longleftrightarrow> 8 - s \<le> i"
proof -
  have "\<forall>s \<in> set [0..<9]. \<forall>i \<in> set [0..<8]. bit (maskbit s) i \<longleftrightarrow> 8 - s \<le> i"
    by (simp add: maskbit_def upt_rec bit_simps)
  then show "s \<le> 8 \<Longrightarrow> i < 8 \<Longrightarrow> ?thesis" by simp
qed

lemma mask_xor_zero:
  assumes "s < 8"
  shows "maskbit s AND (byte_at as j XOR byte_at bs j) = 0
     \<longleftrightarrow> (\<forall>k < s. pbit as (8 * j + k) = pbit bs (8 * j + k))"  (is "?L \<longleftrightarrow> ?R")
proof
  assume ?L
  then have *: "bit (byte_at as j) i = bit (byte_at bs j) i" if "8 - s \<le> i" "i < 8" for i
    using that assms by (simp add: word_and_eq_0_iff bit_maskbit bit_xor_iff)
  show ?R using assms by (auto simp: pbit_byte intro!: *)
next
  assume R: ?R
  have "bit (byte_at as j) i = bit (byte_at bs j) i" if "8 - s \<le> i" "i < 8" for i
    unfolding bit_byte_pbit [OF \<open>i < 8\<close>] using that assms by (intro R [rule_format]) simp
  then show ?L
    using assms by (auto simp: word_and_eq_0_iff bit_maskbit bit_xor_iff)
qed

text \<open>The comparison shared by \<open>prefix_match\<close> and \<open>prefix_cmp\<close>: the first \<open>len\<close> bits.\<close>

lemma masked_bytes_same:
  "(\<not> (len mod 8 \<noteq> 0 \<and>
        maskbit (len mod 8) AND (byte_at as (len div 8) XOR byte_at bs (len div 8)) \<noteq> 0) \<and>
    bytes_same (len div 8) as bs)
   \<longleftrightarrow> (\<forall>i<len. pbit as i = pbit bs i)"
proof -
  have "(\<forall>i<len. P i) \<longleftrightarrow> (\<forall>i < 8 * (len div 8). P i) \<and> (\<forall>k < len mod 8. P (8 * (len div 8) + k))"
    for P :: "nat \<Rightarrow> bool"
  proof (intro iffI conjI allI impI)
    fix i assume *: "(\<forall>i < 8 * (len div 8). P i) \<and> (\<forall>k < len mod 8. P (8 * (len div 8) + k))"
      and "i < len"
    then show "P i"
      using conjunct2 [OF *, rule_format, of "i - 8 * (len div 8)"]
      by (cases "i < 8 * (len div 8)") (auto simp: mult.commute less_diff_conv2 minus_mult_div_eq_mod)
  next
    fix k assume "\<forall>i<len. P i" and "k < len mod 8"
    moreover have "8 * (len div 8) + len mod 8 = len" by simp
    ultimately show "P (8 * (len div 8) + k)" by (metis nat_add_left_cancel_less)
  next
    fix i assume "\<forall>i<len. P i" and "i < 8 * (len div 8)"
    moreover have "8 * (len div 8) \<le> len" by simp
    ultimately show "P i" by simp
  qed
  then show ?thesis
    by (auto simp: bytes_same_pbit mask_xor_zero)
qed

lemma prefix_match_pbit:
  "prefix_match n p \<longleftrightarrow> prefixlen n \<le> prefixlen p \<and>
     (\<forall>i < prefixlen n. pbit (u_prefix n) i = pbit (u_prefix p) i)"
  using masked_bytes_same [of "prefixlen n" "u_prefix n" "u_prefix p"]
  by (auto simp: prefix_match_def Let_def)

lemma prefix_match_key:
  "prefix_match n p \<longleftrightarrow> take (prefixlen n) (prefix_key p) = prefix_key n"
proof (cases "prefixlen n \<le> prefixlen p")
  case True
  then show ?thesis
    by (auto simp: prefix_match_pbit prefix_key_def map_upt_eq_take map_upt_eq_iff)
next
  case False
  then have "take (prefixlen n) (prefix_key p) \<noteq> prefix_key n"
    by (metis length_prefix_key length_take min.cobounded1)
  with False show ?thesis by (simp add: prefix_match_pbit)
qed

lemma prefix_match_ex: "prefix_match n p \<longleftrightarrow> (\<exists>rest. prefix_key p = prefix_key n @ rest)"
  unfolding prefix_match_key
  by (metis append_eq_conv_conj append_take_drop_id length_prefix_key)

lemma prefix_key_nth: "i < prefixlen p \<Longrightarrow> prefix_key p ! i = pbit (u_prefix p) i"
  by (simp add: prefix_key_def)

lemma prefix_key_split:
  assumes "prefix_key p = prefix_key m @ x # z"
  shows "prefix_bit (u_prefix p) (prefixlen m) = of_bool x" "prefixlen m < prefixlen p"
proof -
  from assms have "length (prefix_key p) = length (prefix_key m @ x # z)" by simp
  then show lt: "prefixlen m < prefixlen p" by simp
  have "prefix_key p ! prefixlen m = x" using assms by (simp add: nth_append)
  with lt show "prefix_bit (u_prefix p) (prefixlen m) = of_bool x"
    by (simp add: prefix_bit_pbit prefix_key_nth)
qed

section \<open>IPv4 words and their bits\<close>

text \<open>Bit \<open>i\<close> of an address is bit \<open>word_pos i\<close> of the word loaded from it.\<close>

definition word_pos :: "nat \<Rightarrow> nat" where
  "word_pos i = 8 * (i div 8) + (7 - i mod 8)"

lemma word_pos_facts:
  "i < 32 \<Longrightarrow> word_pos i < 32"
  "word_pos i div 8 = i div 8"
  "word_pos i mod 8 = 7 - i mod 8"
  "i < 32 \<Longrightarrow> 8 * (3 - i div 8) + (7 - i mod 8) = 31 - i"
proof -
  obtain q r where i: "i = 8 * q + r" "r < 8" by (rule div_mod8_cases)
  have "word_pos i \<le> 8 * q + 7" using i by (simp add: word_pos_def)
  moreover have "q < 4" if "i < 32" using i that by simp
  ultimately show "i < 32 \<Longrightarrow> word_pos i < 32" by fastforce
  show "i < 32 \<Longrightarrow> 8 * (3 - i div 8) + (7 - i mod 8) = 31 - i" using i by simp
  show "word_pos i div 8 = i div 8" "word_pos i mod 8 = 7 - i mod 8"
    using div_mod8 [of "7 - i mod 8" "i div 8"] by (simp_all only: word_pos_def)
qed

lemma bit_load32:
  assumes "n < 32"
  shows "bit (load32 bs) n = bit (byte_at bs (n div 8)) (n mod 8)"
proof -
  obtain q r where n: "n = 8 * q + r" "r < 8" by (rule div_mod8_cases)
  then have d: "n div 8 = q" "n mod 8 = r" by simp_all
  from n assms have "q = 0 \<or> q = 1 \<or> q = 2 \<or> q = 3" by auto
  with n show ?thesis
    unfolding d by (elim disjE) (simp_all add: load32_def bit_or_iff bit_push_bit_iff bit_unsigned_iff not_bit_u8)
qed

lemma length_store32 [simp]: "length (store32 w) = 4"
  by (simp add: store32_def)

lemma bit_store32:
  "j < 4 \<Longrightarrow> i < 8 \<Longrightarrow> bit (store32 w ! j) i = bit w (8 * j + i)"
  by (auto simp: store32_def bit_simps less_Suc_eq numeral_eq_Suc nth_Cons split: nat.splits)

lemma bit_htonl:
  assumes "n < 32"
  shows "bit (htonl w) n = bit w (8 * (3 - n div 8) + n mod 8)"
proof -
  from assms have "n div 8 < 4" by simp
  with assms show ?thesis
    by (simp add: htonl_def bit_load32 rev_nth bit_store32)
qed

lemma pbit_store32:
  assumes "i < 32"
  shows "pbit (store32 w @ bs) i = bit w (word_pos i)"
proof -
  from assms have "i div 8 < 4" by simp
  then show ?thesis
    by (simp add: pbit_def byte_at_append bit_store32 word_pos_def)
qed

lemma pbit_store_htonl: "i < 32 \<Longrightarrow> pbit (store32 (htonl w) @ bs) i = bit w (31 - i)"
  by (simp only: pbit_store32 bit_htonl word_pos_facts)

lemma bit_load32_pbit: "i < 32 \<Longrightarrow> bit (load32 bs) (word_pos i) = pbit bs i"
  by (simp only: bit_load32 pbit_def word_pos_facts)

lemma htonl_htonl [simp]: "htonl (htonl w) = w"
proof (rule bit_word_eqI)
  fix n assume "n < LENGTH(32)"
  then have n: "n < 32" by simp
  then have "8 * (3 - n div 8) + n mod 8 < 32" by presburger
  with n show "bit (htonl (htonl w)) n = bit w n"
    by (simp add: bit_htonl)
qed

lemma masklen2ip_Inr:
  "masklen2ip m = Inr a \<longleftrightarrow>
     0 \<le> m \<and> m \<le> 32 \<and> a = htonl (ucast (push_bit (nat (32 - m)) (0xffffffff :: u64)))"
  by (auto simp: masklen2ip_def and_then_Inr_iff af_defs)

lemma bit_masklen_host:
  assumes "m \<le> 32" "n < 32"
  shows "bit (ucast (push_bit (32 - m) (0xffffffff :: u64)) :: u32) n \<longleftrightarrow> 32 - m \<le> n"
proof -
  have ones: "bit (0xffffffff :: u64) k \<longleftrightarrow> k < 32" for k
  proof -
    have "(0xffffffff :: u64) = mask 32" by (simp add: mask_eq_exp_minus_1)
    then show ?thesis by (simp only: bit_mask_iff) auto
  qed
  show ?thesis
    using assms by (auto simp: bit_unsigned_iff bit_push_bit_iff ones simp del: bit_numeral_word_iff)
qed

section \<open>Comparison and common bits\<close>

lemma prefix_cmp_key:
  "prefix_cmp p q = 0 \<longleftrightarrow> family p = family q \<and> prefix_key p = prefix_key q"
proof (cases "family p = family q \<and> prefixlen p = prefixlen q")
  case True
  then have "prefix_cmp p q = 0 \<longleftrightarrow> (\<forall>i < prefixlen p. pbit (u_prefix p) i = pbit (u_prefix q) i)"
    using masked_bytes_same [of "prefixlen p" "u_prefix p" "u_prefix q"]
    by (auto simp: prefix_cmp_def Let_def)
  with True show ?thesis by (auto simp: prefix_key_def)
next
  case False
  moreover have "prefix_key p = prefix_key q \<Longrightarrow> prefixlen p = prefixlen q"
    by (metis length_prefix_key)
  ultimately show ?thesis by (auto simp: prefix_cmp_def)
qed

lemma first_diff_spec:
  assumes "pos \<le> len"
  shows "pos \<le> first_diff pos len as bs \<and> first_diff pos len as bs \<le> len \<and>
     (\<forall>j. pos \<le> j \<longrightarrow> j < first_diff pos len as bs \<longrightarrow> byte_at as j = byte_at bs j) \<and>
     (first_diff pos len as bs < len \<longrightarrow>
        byte_at as (first_diff pos len as bs) \<noteq> byte_at bs (first_diff pos len as bs))"
  using assms
proof (induction pos len as bs rule: first_diff.induct)
  case (1 pos len as bs)
  show ?case
  proof (cases "pos < len \<and> byte_at as pos = byte_at bs pos")
    case True
    with "1.IH" show ?thesis
      by (auto simp: first_diff.simps [of pos] less_Suc_eq_le not_less_eq_eq le_Suc_eq
          intro: le_neq_implies_less dest: Suc_leI) (metis Suc_leI le_neq_implies_less)+
  next
    case False
    with "1.prems" show ?thesis by (auto simp: first_diff.simps [of pos])
  qed
qed

lemma test_bit_zero: "x AND push_bit k 1 = 0 \<longleftrightarrow> \<not> bit x k" if "k < 8" for x :: u8
  using that by (auto simp: word_and_eq_0_iff bit_exp_iff)

lemma first_bit_spec:
  assumes "b \<le> 8"
  shows "b \<le> first_bit b x \<and> first_bit b x \<le> 8 \<and>
     (\<forall>j. b \<le> j \<longrightarrow> j < first_bit b x \<longrightarrow> \<not> bit x (7 - j)) \<and>
     (first_bit b x < 8 \<longrightarrow> bit x (7 - first_bit b x))"
  using assms
proof (induction b x rule: first_bit.induct)
  case (1 b x)
  show ?case
  proof (cases "b < 8 \<and> x AND push_bit (7 - b) 1 = 0")
    case True
    then have "first_bit b x = first_bit (Suc b) x" by (simp add: first_bit.simps [of b])
    moreover from True "1.IH" have "Suc b \<le> first_bit (Suc b) x \<and> first_bit (Suc b) x \<le> 8 \<and>
       (\<forall>j. Suc b \<le> j \<longrightarrow> j < first_bit (Suc b) x \<longrightarrow> \<not> bit x (7 - j)) \<and>
       (first_bit (Suc b) x < 8 \<longrightarrow> bit x (7 - first_bit (Suc b) x))" by simp
    moreover have "\<not> bit x (7 - b)" using True test_bit_zero [of "7 - b" x] by simp
    ultimately show ?thesis by (metis Suc_leI Suc_leD le_neq_implies_less)
  next
    case False
    with "1.prems" have "first_bit b x = b" "b < 8 \<Longrightarrow> bit x (7 - b)"
      using test_bit_zero [of "7 - b" x] by (auto simp: first_bit.simps [of b])
    with "1.prems" show ?thesis by simp
  qed
qed

text \<open>\<open>n\<close> is the length of the longest common prefix of the first \<open>len\<close> bits.\<close>

definition common_len :: "nat \<Rightarrow> u8 list \<Rightarrow> u8 list \<Rightarrow> nat \<Rightarrow> bool" where
  "common_len len as bs n \<longleftrightarrow> n \<le> len \<and> (\<forall>i<n. pbit as i = pbit bs i) \<and>
     (n < len \<longrightarrow> pbit as n \<noteq> pbit bs n)"

lemma common_len_bytes:
  assumes "pos = first_diff 0 len as bs"
  shows "common_len (8 * len) as bs
     (if pos = len then 8 * pos
      else 8 * pos + first_bit 0 (byte_at as pos XOR byte_at bs pos))"
proof -
  from first_diff_spec [of 0 len as bs] assms
  have pos: "pos \<le> len" "\<And>j. j < pos \<Longrightarrow> byte_at as j = byte_at bs j"
    and neq: "pos < len \<Longrightarrow> byte_at as pos \<noteq> byte_at bs pos" by auto
  have before: "\<forall>i < 8 * pos. pbit as i = pbit bs i"
    using pos(2) by (auto simp: pbit_def)
  show ?thesis
  proof (cases "pos = len")
    case True
    then show ?thesis using before by (simp add: common_len_def)
  next
    case False
    with pos have lt: "pos < len" by simp
    let ?x = "byte_at as pos XOR byte_at bs pos"
    let ?b = "first_bit 0 ?x"
    from first_bit_spec [of 0 ?x]
    have b: "?b \<le> 8" "\<And>j. j < ?b \<Longrightarrow> \<not> bit ?x (7 - j)" "?b < 8 \<Longrightarrow> bit ?x (7 - ?b)" by auto
    have "?b < 8"
    proof (rule ccontr)
      assume "\<not> ?b < 8"
      with b have "\<not> bit ?x i" if "i < 8" for i using b(2) [of "7 - i"] that by simp
      then have "byte_at as pos = byte_at bs pos" by (simp add: u8_eq_iff bit_xor_iff)
      with neq lt show False by simp
    qed
    moreover have "pbit as (8 * pos + k) = pbit bs (8 * pos + k)" if "k < ?b" for k
      using b(2) [OF that] that \<open>?b < 8\<close> by (simp add: pbit_byte bit_xor_iff)
    with before have "\<forall>i < 8 * pos + ?b. pbit as i = pbit bs i"
      by (metis le_add_diff_inverse nat_add_left_cancel_less not_less)
    ultimately show ?thesis
      using b(3) lt False by (simp add: common_len_def pbit_byte bit_xor_iff)
  qed
qed

section \<open>Masks\<close>

lemma takeWhile_upt_length:
  assumes "m \<le> n" "\<And>i. i < m \<Longrightarrow> P i" "m < n \<Longrightarrow> \<not> P m"
  shows "length (takeWhile P [0..<n]) = m"
proof (cases "m = n")
  case True
  then show ?thesis using assms(2) by (subst takeWhile_eq_all_conv [THEN iffD2]) auto
next
  case False
  with assms(1) have "[0..<n] = [0..<m] @ m # [Suc m..<n]"
    using upt_add_eq_append [of 0 m "n - m"] upt_conv_Cons [of m n] by simp
  with assms False show ?thesis by (simp add: takeWhile_append)
qed

lemma masklen_roundtrip:
  assumes "0 \<le> m" "m \<le> 32"
  shows "masklen2ip m = Inr (htonl (ucast (push_bit (nat (32 - m)) (0xffffffff :: u64))))"
    and "ip_masklen (htonl (ucast (push_bit (nat (32 - m)) (0xffffffff :: u64)))) = nat m"
proof -
  show "masklen2ip m = Inr (htonl (ucast (push_bit (nat (32 - m)) (0xffffffff :: u64))))"
    using assms by (simp add: masklen2ip_Inr)
  define w where "w = (ucast (push_bit (nat (32 - m)) (0xffffffff :: u64)) :: u32)"
  have w: "bit w n \<longleftrightarrow> 32 - nat m \<le> n" if "n < 32" for n
    using bit_masklen_host [of "nat m" n] that assms by (simp add: w_def nat_diff_distrib')
  have "clz32 (NOT w) = nat m" if "m < 32"
    unfolding clz32_def using assms that
    by (intro takeWhile_upt_length) (auto simp: bit_not_iff w)
  moreover have "NOT w = 0 \<longleftrightarrow> m = 32"
  proof -
    have "NOT w = 0 \<longleftrightarrow> (\<forall>n<32. bit w n)"
      by (auto simp: bit_eq_iff bit_not_iff)
    also have "\<dots> \<longleftrightarrow> (\<forall>n<32. 32 - nat m \<le> n)" by (simp add: w)
    also have "\<dots> \<longleftrightarrow> 32 - nat m \<le> 0" by (metis le_0_eq le_trans zero_less_numeral zero_le)
    also have "\<dots> \<longleftrightarrow> m = 32" using assms by auto
    finally show ?thesis .
  qed
  ultimately show "ip_masklen (htonl (ucast (push_bit (nat (32 - m)) (0xffffffff :: u64)))) = nat m"
    using assms by (auto simp: ip_masklen_def Let_def simp flip: w_def)
qed

lemma pbit_apply_mask_ipv4:
  assumes "prefixlen p \<le> 32" "i < 32"
  shows "\<exists>q. apply_mask_ipv4 p = Inr q \<and> family q = family p \<and> prefixlen q = prefixlen p \<and>
     length (u_prefix q) = 4 + (length (u_prefix p) - 4) \<and>
     (pbit (u_prefix q) i \<longleftrightarrow> i < prefixlen p \<and> pbit (u_prefix p) i)"
proof -
  let ?m = "ucast (push_bit (32 - prefixlen p) (0xffffffff :: u64)) :: u32"
  have "apply_mask_ipv4 p = Inr (set_prefix4 p (prefix4 p AND htonl ?m))"
    using assms by (simp add: apply_mask_ipv4_def masklen_roundtrip nat_diff_distrib')
  moreover have "pbit (u_prefix (set_prefix4 p (prefix4 p AND htonl ?m))) i
     \<longleftrightarrow> i < prefixlen p \<and> pbit (u_prefix p) i"
  proof -
    have "bit (htonl ?m) (word_pos i) \<longleftrightarrow> bit ?m (31 - i)"
      using assms(2) by (simp only: bit_htonl word_pos_facts)
    also have "\<dots> \<longleftrightarrow> 32 - prefixlen p \<le> 31 - i"
      using assms by (intro bit_masklen_host) auto
    also have "\<dots> \<longleftrightarrow> i < prefixlen p" using assms by auto
    finally have "bit (htonl ?m) (word_pos i) \<longleftrightarrow> i < prefixlen p" .
    then show ?thesis
      using assms by (simp add: set_prefix4_def prefix4_def pbit_store32 bit_and_iff
          bit_load32_pbit conj_commute)
  qed
  ultimately show ?thesis by (auto simp: set_prefix4_def)
qed

lemma length_clear_bytes [simp]: "length (clear_bytes bs i) = length bs"
  by (induction bs i rule: clear_bytes.induct) (subst clear_bytes.simps, simp)

lemma byte_at_clear_bytes:
  "length bs = 16 \<Longrightarrow> byte_at (clear_bytes bs i) j = (if i \<le> j then 0 else byte_at bs j)"
proof (induction bs i rule: clear_bytes.induct)
  case (1 bs i)
  show ?case
  proof (cases "i < 16")
    case True
    with 1 show ?thesis
      by (auto simp: clear_bytes.simps [of bs i] byte_at_update Suc_le_eq le_less)
  next
    case False
    with "1.prems" show ?thesis by (simp add: clear_bytes.simps [of bs i] byte_at_def)
  qed
qed

lemma pbit_apply_mask_ipv6:
  assumes "length (u_prefix p) = 16" "prefixlen p \<le> 128" "i < 128"
  shows "pbit (u_prefix (apply_mask_ipv6 p)) i \<longleftrightarrow> i < prefixlen p \<and> pbit (u_prefix p) i"
proof (cases "prefixlen p div 8 < 16")
  case True
  obtain q r where i: "i = 8 * q + r" "r < 8" by (rule div_mod8_cases)
  obtain ql rl where l: "prefixlen p = 8 * ql + rl" "rl < 8" by (rule div_mod8_cases)
  from l True have ql: "prefixlen p div 8 = ql" "prefixlen p mod 8 = rl" "ql < 16" by simp_all
  have "byte_at (u_prefix (apply_mask_ipv6 p)) q =
     (if q < ql then byte_at (u_prefix p) q
      else if q = ql then byte_at (u_prefix p) q AND maskbit rl else 0)"
    using assms ql by (auto simp: apply_mask_ipv6_def Let_def byte_at_clear_bytes byte_at_update)
  moreover have "bit (maskbit rl) (7 - r) \<longleftrightarrow> r < rl"
    using i l by (subst bit_maskbit) auto
  moreover have "i < prefixlen p \<longleftrightarrow> q < ql \<or> q = ql \<and> r < rl" using i l by auto
  ultimately show ?thesis using i by (auto simp: pbit_byte bit_and_iff)
next
  case False
  with assms have "prefixlen p = 128" by simp
  with assms show ?thesis by (simp add: apply_mask_ipv6_def)
qed

lemma apply_mask_ipv6_frame:
  "family (apply_mask_ipv6 p) = family p" "prefixlen (apply_mask_ipv6 p) = prefixlen p"
  "length (u_prefix (apply_mask_ipv6 p)) = length (u_prefix p)"
  by (simp_all add: apply_mask_ipv6_def Let_def)

text \<open>Every row of the table of IPv6 masks is right.\<close>

lemma length_maskbytes6: "length maskbytes6 = 129"
  by (simp add: maskbytes6_def)

lemma maskbytes6_table:
  "\<forall>m \<in> set [0..<129]. maskbytes6 ! m = map (\<lambda>j. maskbit (min 8 (m - 8 * j))) [0..<16]"
  by code_simp

lemma masklen2ip6_Inr:
  assumes "0 \<le> m" "m \<le> 128"
  shows "masklen2ip6 m = Inr (map (\<lambda>j. maskbit (min 8 (nat m - 8 * j))) [0..<16])"
proof -
  have "nat m \<in> set [0..<129]" using assms by auto
  from maskbytes6_table [rule_format, OF this]
  have "maskbytes6 ! nat m = map (\<lambda>j. maskbit (min 8 (nat m - 8 * j))) [0..<16]" .
  with assms show ?thesis by (simp add: masklen2ip6_def af_defs)
qed

lemma pbit_mask_bytes:
  assumes "i < 128"
  shows "pbit (map (\<lambda>j. maskbit (min 8 (m - 8 * j))) [0..<16]) i \<longleftrightarrow> i < m"
proof -
  obtain q r where i: "i = 8 * q + r" "r < 8" by (rule div_mod8_cases)
  with assms have "q < 16" by simp
  then have "pbit (map (\<lambda>j. maskbit (min 8 (m - 8 * j))) [0..<16]) i
     \<longleftrightarrow> bit (maskbit (min 8 (m - 8 * q))) (7 - r)"
    using i by (simp add: pbit_byte)
  also have "\<dots> \<longleftrightarrow> 8 - min 8 (m - 8 * q) \<le> 7 - r"
    by (intro bit_maskbit) auto
  also have "\<dots> \<longleftrightarrow> i < m" using i by auto
  finally show ?thesis .
qed

lemma maskbit_facts:
  "s < 8 \<Longrightarrow> maskbit s \<noteq> 0xff"
  "maskbit 8 = 0xff"
  "s \<le> 8 \<Longrightarrow> shift_len (maskbit s) = s"
proof -
  have "\<forall>s \<in> set [0..<8]. maskbit s \<noteq> 0xff" by code_simp
  then show "s < 8 \<Longrightarrow> maskbit s \<noteq> 0xff" by simp
  show "maskbit 8 = 0xff" by (simp add: maskbit_def)
  have "\<forall>s \<in> set [0..<9]. shift_len (maskbit s) = s" by code_simp
  then show "s \<le> 8 \<Longrightarrow> shift_len (maskbit s) = s" by simp
qed

lemma ff_bytes_stop:
  assumes "i \<le> k" "k \<le> 16" "\<And>j. i \<le> j \<Longrightarrow> j < k \<Longrightarrow> byte_at bs j = 0xff"
    and "k < 16 \<Longrightarrow> byte_at bs k \<noteq> 0xff"
  shows "ff_bytes bs i = k"
  using assms
proof (induction bs i rule: ff_bytes.induct)
  case (1 bs i)
  show ?case
  proof (cases "i = k")
    case True
    with "1.prems" show ?thesis by (auto simp: ff_bytes.simps [of bs k] af_defs)
  next
    case False
    with "1.prems" have i: "i < k" "byte_at bs i = 0xff" "i * 8 < IPV6_MAX_BITLEN"
      by (auto simp: af_defs)
    then have "ff_bytes bs i = ff_bytes bs (Suc i)" by (simp add: ff_bytes.simps [of bs i])
    also have "\<dots> = k" using i "1.prems" by (intro "1.IH") auto
    finally show ?thesis .
  qed
qed

lemma ip6_masklen_mask_bytes:
  assumes "m \<le> 128"
  shows "ip6_masklen after (map (\<lambda>j. maskbit (min 8 (m - 8 * j))) [0..<16]) = m"
proof -
  let ?row = "map (\<lambda>j. maskbit (min 8 (m - 8 * j))) [0..<16]"
  let ?bs = "?row @ [after]"
  have byte: "byte_at ?bs j = maskbit (min 8 (m - 8 * j))" if "j < 16" for j
    using that by (simp add: byte_at_append)
  have ff: "ff_bytes ?bs 0 = m div 8"
  proof (rule ff_bytes_stop)
    show "m div 8 \<le> 16" using assms by simp
    show "byte_at ?bs j = 0xff" if "j < m div 8" for j
    proof -
      have "8 \<le> m - 8 * j" "j < 16" using that assms by auto
      then show ?thesis by (subst byte) (simp_all add: maskbit_facts min_def)
    qed
    show "byte_at ?bs (m div 8) \<noteq> 0xff" if "m div 8 < 16"
    proof -
      have "m - 8 * (m div 8) < 8" by (simp add: minus_mult_div_eq_mod)
      with that show ?thesis by (subst byte) (simp_all add: maskbit_facts min_def)
    qed
  qed simp
  show ?thesis
  proof (cases "m = 128")
    case True
    then show ?thesis using ff by (simp add: ip6_masklen_def af_defs)
  next
    case False
    with assms have lt: "m div 8 < 16" by simp
    have "m - 8 * (m div 8) = m mod 8" by (simp add: minus_mult_div_eq_mod)
    then have "byte_at ?bs (m div 8) = maskbit (m mod 8)"
      using lt byte [of "m div 8"] by (simp add: min_def split: if_splits)
    moreover have "m div 8 * 8 < 128" using lt by simp
    ultimately show ?thesis
      by (simp add: ip6_masklen_def ff af_defs maskbit_facts Let_def del: append_Cons)
  qed
qed

lemma htonl_top_byte:
  fixes a :: u32 and m k :: u8
  shows "htonl a AND push_bit 24 (ucast m) = push_bit 24 (ucast k) \<longleftrightarrow> a AND ucast m = ucast k"
proof -
  have hi: "bit (htonl a) (24 + r) = bit a r" if "r < 8" for r
    using that bit_htonl [of "24 + r" a] div_mod8 [of r 3] by simp
  have "htonl a AND push_bit 24 (ucast m) = push_bit 24 (ucast k)
     \<longleftrightarrow> (\<forall>n<32. 24 \<le> n \<longrightarrow> (bit (htonl a) n \<and> bit m (n - 24) \<longleftrightarrow> bit k (n - 24)))"
    by (auto simp: bit_eq_iff bit_and_iff bit_push_bit_iff bit_unsigned_iff)
  also have "\<dots> \<longleftrightarrow> (\<forall>r<8. bit a r \<and> bit m r \<longleftrightarrow> bit k r)"
  proof
    assume L: "\<forall>n<32. 24 \<le> n \<longrightarrow> (bit (htonl a) n \<and> bit m (n - 24) \<longleftrightarrow> bit k (n - 24))"
    show "\<forall>r<8. bit a r \<and> bit m r \<longleftrightarrow> bit k r"
    proof (intro allI impI)
      fix r :: nat assume "r < 8"
      then show "bit a r \<and> bit m r \<longleftrightarrow> bit k r"
        using L [rule_format, of "24 + r"] hi [of r] by simp
    qed
  next
    assume R: "\<forall>r<8. bit a r \<and> bit m r \<longleftrightarrow> bit k r"
    show "\<forall>n<32. 24 \<le> n \<longrightarrow> (bit (htonl a) n \<and> bit m (n - 24) \<longleftrightarrow> bit k (n - 24))"
    proof (intro allI impI)
      fix n :: nat assume "n < 32" "24 \<le> n"
      then show "bit (htonl a) n \<and> bit m (n - 24) \<longleftrightarrow> bit k (n - 24)"
        using R [rule_format, of "n - 24"] hi [of "n - 24"] by simp
    qed
  qed
  also have "\<dots> \<longleftrightarrow> a AND ucast m = ucast k"
  proof -
    have "(\<forall>r<8. bit a r \<and> bit m r \<longleftrightarrow> bit k r) \<longleftrightarrow> (\<forall>n<32. bit a n \<and> bit m n \<longleftrightarrow> bit k n)"
    proof (rule iffI)
      assume R: "\<forall>r<8. bit a r \<and> bit m r \<longleftrightarrow> bit k r"
      have "bit a n \<and> bit m n \<longleftrightarrow> bit k n" for n
        using R by (cases "n < 8") (auto simp: not_bit_u8)
      then show "\<forall>n<32. bit a n \<and> bit m n \<longleftrightarrow> bit k n" by simp
    qed simp
    then show ?thesis by (simp add: bit_eq_iff bit_and_iff bit_unsigned_iff)
  qed
  finally show ?thesis .
qed

lemma prefix_copy_new:
  assumes "wf_key p"
  shows "\<exists>p'. prefix_copy prefix_new p = Inr p' \<and> wf_key p' \<and> prefix_key p' = prefix_key p \<and>
     prefixlen p' = prefixlen p"
proof -
  have bytes: "pbit (take k (u_prefix p) @ drop k (u_prefix prefix_new)) i = pbit (u_prefix p) i"
    if "i < 8 * k" "k \<le> 16" for i k
  proof -
    have "i div 8 < k" using that by auto
    then show ?thesis using assms that(2) by (auto simp: pbit_def wf_key_def wf_prefix_def byte_at_append)
  qed
  have zero: "length (u_prefix prefix_new) = 16" by (simp add: prefix_new_def)
  show ?thesis
  proof (cases "family p = AF_INET")
    case True
    then show ?thesis
      using assms bytes [of _ 4] zero
      by (auto simp: prefix_copy_def wf_key_def wf_prefix_def prefix_key_def af_defs)
  next
    case False
    then show ?thesis
      using assms bytes [of _ 16] bytes [of _ 8] zero
      by (auto simp: prefix_copy_def wf_key_def wf_prefix_def prefix_key_def af_defs)
  qed
qed

section \<open>Properties\<close>

text \<open>C31: \<open>prefix_match n p\<close> holds exactly when the network bits of \<open>n\<close> are an initial
  segment of those of \<open>p\<close>: the byte and mask comparison is the prefix order.\<close>

theorem prefix_match_iff_prefix_order:
  "prefix_match n p \<longleftrightarrow> (\<exists>rest. prefix_key p = prefix_key n @ rest)"
  by (rule prefix_match_ex)

text \<open>On two well-formed prefixes of one family, \<open>prefix_common_bits\<close> is the length of the
  longest common initial segment of their addresses.\<close>

theorem prefix_common_bits_longest:
  assumes "wf_prefix p" "wf_prefix q" "family p = family q"
  shows "\<exists>n. prefix_common_bits p q = int n \<and> n \<le> 8 * prefix_blen p \<and>
     (\<forall>i<n. pbit (u_prefix p) i = pbit (u_prefix q) i) \<and>
     (n < 8 * prefix_blen p \<longrightarrow> pbit (u_prefix p) n \<noteq> pbit (u_prefix q) n)"
proof -
  let ?pos = "first_diff 0 (prefix_blen p) (u_prefix p) (u_prefix q)"
  let ?n = "if ?pos = prefix_blen p then 8 * ?pos
     else 8 * ?pos + first_bit 0 (byte_at (u_prefix p) ?pos XOR byte_at (u_prefix q) ?pos)"
  have "prefix_common_bits p q = int ?n"
    using assms by (auto simp: prefix_common_bits_def prefix_blen_def wf_prefix_def af_defs Let_def)
  moreover have "common_len (8 * prefix_blen p) (u_prefix p) (u_prefix q) ?n"
    by (rule common_len_bytes) simp
  ultimately show ?thesis unfolding common_len_def by blast
qed

lemma wf_samples [simp]: "wf_prefix net10" "wf_prefix net10_1" "wf_prefix net192"
  by (simp_all add: wf_prefix_def net10_def net10_1_def net192_def af_defs)

lemma wf_key_samples: "wf_key net10" "wf_key net10_1" "wf_key net192"
  by (simp_all add: wf_key_def)

theorem prefix_common_bits_longest_witness:
  "wf_prefix net10 \<and> wf_prefix net10_1 \<and> prefix_common_bits net10 net10_1 = 15 \<and>
   pbit (u_prefix net10) 14 = pbit (u_prefix net10_1) 14 \<and> pbit (u_prefix net10) 15 \<noteq> pbit (u_prefix net10_1) 15"
proof -
  have fam: "family net10 = family net10_1" by (simp add: net10_def net10_1_def)
  have val: "prefix_common_bits net10 net10_1 = 15" "prefix_blen net10 = 4" by code_simp+
  from prefix_common_bits_longest [OF wf_samples(1,2) fam] val
  show ?thesis by auto
qed

lemma wf_prefix_blen:
  "wf_prefix p \<Longrightarrow> prefixlen p \<le> 8 * prefix_blen p \<and>
     (family p = AF_INET \<and> prefix_blen p = 4 \<or> family p = AF_INET6 \<and> prefix_blen p = 16)"
  by (auto simp: wf_prefix_def prefix_blen_def af_defs)

text \<open>\<open>apply_mask\<close> succeeds on every well-formed prefix, keeps it well-formed with its family
  and length, keeps the network bits and clears every host bit.\<close>

theorem apply_mask_clears_host_bits:
  assumes "wf_prefix p"
  shows "\<exists>q. apply_mask p = Inr q \<and> wf_prefix q \<and> family q = family p \<and>
     prefixlen q = prefixlen p \<and>
     (\<forall>i < 8 * prefix_blen p. pbit (u_prefix q) i \<longleftrightarrow> i < prefixlen p \<and> pbit (u_prefix p) i)"
proof (cases "family p = AF_INET")
  case True
  with assms have len: "prefixlen p \<le> 32" "length (u_prefix p) = 16" "prefix_blen p = 4"
    by (auto simp: wf_prefix_def prefix_blen_def af_defs)
  from pbit_apply_mask_ipv4 [OF len(1), of 0] obtain q where q: "apply_mask_ipv4 p = Inr q"
    "family q = family p" "prefixlen q = prefixlen p" "length (u_prefix q) = 16"
    using len by auto
  have "\<forall>i<32. pbit (u_prefix q) i \<longleftrightarrow> i < prefixlen p \<and> pbit (u_prefix p) i"
    using pbit_apply_mask_ipv4 [OF len(1)] q(1) by fastforce
  with q len True show ?thesis
    by (intro exI [of _ q]) (auto simp: apply_mask_def wf_prefix_def af_defs)
next
  case False
  with assms have six: "family p = AF_INET6" "length (u_prefix p) = 16" "prefixlen p \<le> 128"
    by (auto simp: wf_prefix_def af_defs)
  then show ?thesis
    by (intro exI [of _ "apply_mask_ipv6 p"])
      (simp add: apply_mask_def wf_prefix_def prefix_blen_def apply_mask_ipv6_frame
        pbit_apply_mask_ipv6 af_defs)
qed

theorem apply_mask_clears_host_bits_witness:
  "\<exists>q. apply_mask net10_1 = Inr q \<and> wf_prefix q \<and> prefixlen q = 16 \<and> \<not> pbit (u_prefix q) 22"
proof -
  from apply_mask_clears_host_bits [OF wf_samples(2)] obtain q where
    "apply_mask net10_1 = Inr q" "wf_prefix q" "prefixlen q = prefixlen net10_1"
    "\<forall>i < 8 * prefix_blen net10_1. pbit (u_prefix q) i \<longleftrightarrow>
       i < prefixlen net10_1 \<and> pbit (u_prefix net10_1) i" by blast
  then show ?thesis by (auto simp: net10_1_def prefix_blen_def af_defs)
qed

text \<open>For IPv4, every length from 0 to 32 has a mask, and the length computed from the mask is
  the one it was made from.\<close>

theorem ipv4_masklen_roundtrip:
  "0 \<le> m \<Longrightarrow> m \<le> 32 \<Longrightarrow> \<exists>a. masklen2ip m = Inr a \<and> ip_masklen a = nat m"
  using masklen_roundtrip by blast

theorem ipv4_masklen_roundtrip_witness:
  "\<exists>a. masklen2ip 20 = Inr a \<and> ip_masklen a = 20"
  using ipv4_masklen_roundtrip [of 20] by simp

text \<open>Every row of the IPv6 mask table has exactly the first \<open>m\<close> bits set, and
  \<open>ip6_masklen\<close> reads \<open>m\<close> back from it, whatever byte follows the address in memory.\<close>

theorem ipv6_mask_table_roundtrip:
  assumes "0 \<le> m" "m \<le> 128"
  shows "\<exists>bs. masklen2ip6 m = Inr bs \<and> length bs = 16 \<and>
     (\<forall>i<128. pbit bs i \<longleftrightarrow> int i < m) \<and> ip6_masklen after bs = nat m"
  using assms
  by (auto simp: masklen2ip6_Inr pbit_mask_bytes ip6_masklen_mask_bytes zless_nat_eq_int_zless)

theorem ipv6_mask_table_roundtrip_witness:
  "\<exists>bs. masklen2ip6 64 = Inr bs \<and> length bs = 16 \<and> ip6_masklen 0 bs = 64"
  using ipv6_mask_table_roundtrip [of 64 0] by auto

text \<open>\<open>ipv4_martian\<close> tests the stored word, so on a little-endian host it looks at the last
  octet of the address: 127.0.0.1 is accepted and 8.8.8.127 is refused.\<close>

theorem ipv4_martian_tests_last_octet:
  "ipv4_martian (htonl a) \<longleftrightarrow>
     a AND 0xff = 0 \<or> a AND 0xff = 0x7f \<or> a AND 0xe0 = 0xe0"
  using htonl_top_byte [of a "0xff" 0] htonl_top_byte [of a "0xff" "0x7f"]
    htonl_top_byte [of a "0xe0" "0xe0"]
  by (simp add: ipv4_martian_def IPV4_NET0_def IPV4_NET127_def IPV4_CLASS_DE_def push_bit_eq_mult)

text \<open>The prefix length of an IPv4 string is cast to \<open>u_char\<close> before it is compared with 32,
  so the length 256 is accepted and means the default route.\<close>

theorem str2prefix_ipv4_length_wraps:
  assumes "inet_aton ''10.0.0.0'' = Some a"
  shows "str2prefix_ipv4 inet_aton ''10.0.0.0/256'' prefix_new =
     (1, (set_prefix4 prefix_new a)\<lparr>family := AF_INET, prefixlen := 0\<rparr>)"
proof -
  have "takeWhile (\<lambda>c. c \<noteq> CHR ''/'') ''10.0.0.0/256'' = ''10.0.0.0''" by code_simp
  moreover have "atoi (drop 9 ''10.0.0.0/256'') = 256" by code_simp
  ultimately show ?thesis
    using assms by (simp add: str2prefix_ipv4_def Let_def)
qed

theorem str2prefix_ipv4_length_wraps_witness:
  "str2prefix_ipv4 (\<lambda>s. if s = ''10.0.0.0'' then Some 10 else None) ''10.0.0.0/256'' prefix_new =
     (1, (set_prefix4 prefix_new 10)\<lparr>family := AF_INET, prefixlen := 0\<rparr>)"
  by (rule str2prefix_ipv4_length_wraps) simp

end
