(* ===== verification/Names.thy ===== *)
theory Names
  imports Prefix
begin

text \<open>
  What the access lists (\<^verbatim>\<open>lib/filter.c\<close>) and the prefix lists (\<^verbatim>\<open>lib/plist.c\<close>) share: both keep
  their lists by name, those whose name is a number in one list ordered by the number, the others
  in a second one ordered by \<open>strcmp\<close>. A list linked by \<open>next\<close> and \<open>prev\<close> is a list here; what an
  insertion and a removal do to it is \<open>insert_point\<close> and \<open>update_first\<close>.
\<close>

section \<open>Strings and numbers\<close>

fun strcmp :: "string \<Rightarrow> string \<Rightarrow> int" where
  "strcmp [] [] = 0"
| "strcmp [] (b # bs) = - of_char b - 1"
| "strcmp (a # as) [] = of_char a + 1"
| "strcmp (a # as) (b # bs) = (if a = b then strcmp as bs else of_char a - of_char b)"

lemma of_char_bounds: "0 \<le> (of_char c :: int)"
  by (simp add: of_char_def)

lemma of_char_eq: "(of_char a :: int) = of_char b \<longleftrightarrow> a = b"
  by simp

lemma strcmp_eq_0 [simp]: "strcmp a b = 0 \<longleftrightarrow> a = b"
proof (induction a b rule: strcmp.induct)
  case (2 b bs)
  then show ?case using of_char_bounds [of b] by simp
next
  case (3 a as)
  then show ?case using of_char_bounds [of a] by simp
qed (auto simp: of_char_eq)

lemma strcmp_trans:
  assumes "strcmp a b < 0" "strcmp b c < 0"
  shows "strcmp a c < 0"
  using assms
proof (induction a b arbitrary: c rule: strcmp.induct)
  case (2 b bs)
  then show ?case using of_char_bounds by (cases c) (auto split: if_splits)
next
  case (3 a as)
  then show ?case using of_char_bounds [of a] by simp
next
  case (4 a as b bs)
  show ?case
  proof (cases c)
    case Nil
    then show ?thesis using 4(3) of_char_bounds [of b] by simp
  next
    case (Cons d ds)
    show ?thesis
    proof (cases "a = b \<and> b = d")
      case True
      then show ?thesis using 4 Cons by auto
    next
      case False
      then show ?thesis using 4(2,3) Cons by (auto split: if_splits)
    qed
  qed
qed auto

lemma strcmp_flip: "strcmp b a < 0 \<longleftrightarrow> 0 < strcmp a b"
proof (induction a b rule: strcmp.induct)
  case (2 b bs)
  then show ?case using of_char_bounds [of b] by simp
next
  case (3 a as)
  then show ?case using of_char_bounds [of a] by simp
qed auto

text \<open>Limits of \<open>int\<close> and \<open>long\<close>, and the conversion to \<open>int\<close>, which keeps the low 32 bits.\<close>

definition INT_MAX :: int where "INT_MAX = 2 ^ 31 - 1"
definition LONG_MAX :: int where "LONG_MAX = 2 ^ 63 - 1"

definition to_int :: "int \<Rightarrow> int" where
  "to_int v = (v + 2 ^ 31) mod 2 ^ 32 - 2 ^ 31"

lemma to_int_range: "- (2 ^ 31) \<le> to_int v" "to_int v \<le> INT_MAX"
  by (simp_all add: to_int_def INT_MAX_def)

lemma to_int_id: "- (2 ^ 31) \<le> v \<Longrightarrow> v \<le> INT_MAX \<Longrightarrow> to_int v = v"
  by (simp add: to_int_def INT_MAX_def)

text \<open>The loop that reads a name as a number: the value and the characters it did not take.\<close>

fun digits_loop :: "int \<Rightarrow> string \<Rightarrow> (int \<times> string) res" where
  "digits_loop number [] = Inr (number, [])"
| "digits_loop number (c # cs) =
     (if isdigit c
      then let number = number * 10 + (of_char c - 48)
           in if number > LONG_MAX then Inl IntOverflow else digits_loop number cs
      else Inr (number, c # cs))"

text \<open>
  On a string of digits \<open>atol\<close> is the same number, as long as it fits a \<open>long\<close>; it is compared
  with the number of the new name only for names that passed this loop before.
\<close>

definition name_number :: "string \<Rightarrow> int" where
  "name_number s = digits_value 0 s"

lemma digits_loop_value:
  assumes "digits_loop n s = Inr (v, [])"
  shows "v = digits_value n s"
  using assms by (induction n s rule: digits_loop.induct) (auto simp: Let_def algebra_simps split: if_splits)

section \<open>Linked lists\<close>

text \<open>Insertion before the first element that satisfies \<open>P\<close>, the \<open>point\<close> of the source, or at the tail.\<close>

fun insert_point :: "('a \<Rightarrow> bool) \<Rightarrow> 'a \<Rightarrow> 'a list \<Rightarrow> 'a list" where
  "insert_point P x [] = [x]"
| "insert_point P x (y # ys) = (if P y then x # y # ys else y # insert_point P x ys)"

text \<open>What a pointer to the first element that satisfies \<open>P\<close> is used for: reading, removing, writing.\<close>

fun remove_first :: "('a \<Rightarrow> bool) \<Rightarrow> 'a list \<Rightarrow> 'a list" where
  "remove_first P [] = []"
| "remove_first P (y # ys) = (if P y then ys else y # remove_first P ys)"

fun update_first :: "('a \<Rightarrow> bool) \<Rightarrow> ('a \<Rightarrow> 'a) \<Rightarrow> 'a list \<Rightarrow> 'a list" where
  "update_first P f [] = []"
| "update_first P f (y # ys) = (if P y then f y # ys else y # update_first P f ys)"

lemma set_insert_point [simp]: "set (insert_point P x ys) = insert x (set ys)"
  by (induction ys) auto

lemma length_insert_point [simp]: "length (insert_point P x ys) = Suc (length ys)"
  by (induction ys) auto

lemma set_remove_first: "set (remove_first P ys) \<subseteq> set ys"
  by (induction ys) auto

lemma length_remove_first: "List.find P ys = Some y \<Longrightarrow> Suc (length (remove_first P ys)) = length ys"
  by (induction ys) (auto split: if_splits)

lemma remove_first_idle: "List.find P ys = None \<Longrightarrow> remove_first P ys = ys"
  by (induction ys) (auto split: if_splits)

lemma length_update_first [simp]: "length (update_first P f ys) = length ys"
  by (induction ys) auto

lemma map_update_first: "(\<And>y. P y \<Longrightarrow> g (f y) = g y) \<Longrightarrow> map g (update_first P f ys) = map g ys"
  by (induction ys) auto

lemma set_update_first: "set (update_first P f ys) \<subseteq> f ` set ys \<union> set ys"
  by (induction ys) auto

lemma map_remove_first: "(\<And>y. P y = Q (f y)) \<Longrightarrow> map f (remove_first P ys) = remove_first Q (map f ys)"
  by (induction ys) auto

lemma distinct_remove_first: "distinct ys \<Longrightarrow> distinct (remove_first P ys)"
  using set_remove_first by (induction ys) fastforce+

lemma sorted_remove_first: "sorted_wrt r ys \<Longrightarrow> sorted_wrt r (remove_first P ys)"
  using set_remove_first by (induction ys) fastforce+

text \<open>
  Insertion keeps a strict order \<open>r\<close> when the point is the first element that is not below the
  new one, and no element is equivalent to it.
\<close>

lemma sorted_insert_point:
  assumes "sorted_wrt r ys" and trans: "\<And>a b c. r a b \<Longrightarrow> r b c \<Longrightarrow> r a c"
    and pt: "\<And>y. y \<in> set ys \<Longrightarrow> P y \<Longrightarrow> r x y" "\<And>y. y \<in> set ys \<Longrightarrow> \<not> P y \<Longrightarrow> r y x"
  shows "sorted_wrt r (insert_point P x ys)"
  using assms(1) pt
proof (induction ys)
  case (Cons y ys)
  show ?case
  proof (cases "P y")
    case True
    have "r x z" if "z \<in> set ys" for z using Cons.prems(1,2) True that trans [of x y z] by simp
    then show ?thesis using Cons.prems True by auto
  next
    case False
    then show ?thesis using Cons by auto
  qed
qed simp

lemma insert_point_decomp:
  "\<exists>us vs. ys = us @ vs \<and> insert_point P x ys = us @ x # vs \<and> (\<forall>u \<in> set us. \<not> P u) \<and> (vs \<noteq> [] \<longrightarrow> P (hd vs))"
proof (induction ys)
  case (Cons y ys)
  show ?case
  proof (cases "P y")
    case True
    then show ?thesis by (intro exI [of _ "[]"] exI [of _ "y # ys"]) simp
  next
    case False
    from Cons obtain us vs where "ys = us @ vs" "insert_point P x ys = us @ x # vs" "\<forall>u \<in> set us. \<not> P u"
      "vs \<noteq> [] \<longrightarrow> P (hd vs)" by blast
    with False show ?thesis by (intro exI [of _ "y # us"] exI [of _ vs]) simp
  qed
qed simp

lemma find_insert_point:
  assumes "\<And>y. y \<in> set ys \<Longrightarrow> \<not> Q y"
  shows "List.find Q (insert_point P x ys) = (if Q x then Some x else None)"
  using assms by (induction ys) (auto simp: find_None_iff)

end
