(* ===== verification/Hash.thy ===== *)
theory Hash
  imports Names "HOL-Library.Multiset"
begin

text \<open>
  Hash tables (\<^verbatim>\<open>lib/hash.c\<close>): an array of chains, whose size is a power of two so that the low
  bits of a key select the chain, and which is doubled when a chain gets long, unless that did not help
  before. The functions that make keys and compare data come from the client; what they must promise is
  the locale \<open>hash_functions\<close>.
\<close>

section \<open>Operations\<close>

definition HASH_INITIAL_SIZE :: u32 where "HASH_INITIAL_SIZE = 256"
definition HASH_THRESHOLD :: nat where "HASH_THRESHOLD = 10"

record 'd hash_backet =
  hb_key :: u32
  hb_data :: 'd

record 'd hash =
  h_index :: "'d hash_backet list list"
  h_size :: u32
  h_no_expand :: bool
  h_hash_key :: "'d \<Rightarrow> u32"
  h_hash_cmp :: "'d \<Rightarrow> 'd \<Rightarrow> bool"
  h_count :: u64

definition hash_create_size :: "u32 \<Rightarrow> ('d \<Rightarrow> u32) \<Rightarrow> ('d \<Rightarrow> 'd \<Rightarrow> bool) \<Rightarrow> 'd hash res" where
  "hash_create_size sz hash_key hash_cmp =
     and_then (ensure (sz AND (sz - 1) = 0)) (\<lambda>_.
       Inr \<lparr>h_index = replicate (unat sz) [], h_size = sz, h_no_expand = False,
            h_hash_key = hash_key, h_hash_cmp = hash_cmp, h_count = 0\<rparr>)"

definition hash_create :: "('d \<Rightarrow> u32) \<Rightarrow> ('d \<Rightarrow> 'd \<Rightarrow> bool) \<Rightarrow> 'd hash res" where
  "hash_create = hash_create_size HASH_INITIAL_SIZE"

definition hash_alloc_intern :: "'d \<Rightarrow> 'd option" where
  "hash_alloc_intern arg = Some arg"

definition chain_at :: "nat \<Rightarrow> 'a list list \<Rightarrow> 'a list res" where
  "chain_at i ix = (if i < length ix then Inr (ix ! i) else Inl OutOfBounds)"

text \<open>The backets are visited chain by chain and pushed onto the chains of the new array.\<close>

fun rehash :: "u32 \<Rightarrow> 'd hash_backet list \<Rightarrow> 'd hash_backet list list \<Rightarrow> 'd hash_backet list list res" where
  "rehash new_size [] new_index = Inr new_index"
| "rehash new_size (hb # hbs) new_index =
     (let h = unat (hb_key hb AND (new_size - 1))
      in and_then (chain_at h new_index) (\<lambda>chain. rehash new_size hbs (new_index[h := hb # chain])))"

fun chain_losers :: "nat \<Rightarrow> 'a list \<Rightarrow> u32 \<times> bool \<Rightarrow> u32 \<times> bool" where
  "chain_losers len [] st = st"
| "chain_losers len (hb # hbs) (losers, no_expand) =
     (let len = len + 1
      in chain_losers len hbs (if len > HASH_THRESHOLD div 2 then losers + 1 else losers, no_expand \<or> len \<ge> HASH_THRESHOLD))"

definition hash_expand :: "'d hash \<Rightarrow> 'd hash res" where
  "hash_expand hash =
     (let new_size = h_size hash * 2
      in and_then (rehash new_size (concat (h_index hash)) (replicate (unat new_size) [])) (\<lambda>new_index.
           let (losers, no_expand) = fold (chain_losers 0) new_index (0, h_no_expand hash)
           in Inr (hash\<lparr>h_index := new_index, h_size := new_size,
                        h_no_expand := no_expand \<or> ucast losers > h_count hash div 2\<rparr>)))"

text \<open>The walk along a chain, with the number of backets passed.\<close>

fun chain_find :: "('d hash_backet \<Rightarrow> bool) \<Rightarrow> nat \<Rightarrow> 'd hash_backet list \<Rightarrow> 'd option \<times> nat" where
  "chain_find P len [] = (None, len)"
| "chain_find P len (hb # hbs) = (if P hb then (Some (hb_data hb), len) else chain_find P (len + 1) hbs)"

definition backet_of :: "'d hash \<Rightarrow> 'd \<Rightarrow> 'd hash_backet \<Rightarrow> bool" where
  "backet_of hash data hb \<longleftrightarrow> hb_key hb = h_hash_key hash data \<and> h_hash_cmp hash (hb_data hb) data"

definition hash_index :: "'d hash \<Rightarrow> u32 \<Rightarrow> nat" where
  "hash_index hash key = unat (key AND (h_size hash - 1))"

definition hash_get :: "'d hash \<Rightarrow> 'd \<Rightarrow> ('d \<Rightarrow> 'd option) option \<Rightarrow> ('d hash \<times> 'd option) res" where
  "hash_get hash data alloc_func =
     (let key = h_hash_key hash data in
      and_then (chain_at (hash_index hash key) (h_index hash)) (\<lambda>chain.
        case chain_find (backet_of hash data) 0 chain of
          (Some d, len) \<Rightarrow> Inr (hash, Some d)
        | (None, len) \<Rightarrow>
            (case alloc_func of None \<Rightarrow> Inr (hash, None) | Some f \<Rightarrow>
             case f data of None \<Rightarrow> Inr (hash, None) | Some newdata \<Rightarrow>
             and_then (if len > HASH_THRESHOLD \<and> \<not> h_no_expand hash then hash_expand hash else Inr hash) (\<lambda>hash.
             let index = hash_index hash key in
             and_then (chain_at index (h_index hash)) (\<lambda>chain.
               Inr (hash\<lparr>h_index := (h_index hash)[index := \<lparr>hb_key = key, hb_data = newdata\<rparr> # chain],
                         h_count := h_count hash + 1\<rparr>, Some newdata))))))"

definition hash_lookup :: "'d hash \<Rightarrow> 'd \<Rightarrow> ('d hash \<times> 'd option) res" where
  "hash_lookup hash data = hash_get hash data None"

definition hash_release :: "'d hash \<Rightarrow> 'd \<Rightarrow> ('d hash \<times> 'd option) res" where
  "hash_release hash data =
     (let index = hash_index hash (h_hash_key hash data) in
      and_then (chain_at index (h_index hash)) (\<lambda>chain.
        case List.find (backet_of hash data) chain of
          None \<Rightarrow> Inr (hash, None)
        | Some hb \<Rightarrow>
            Inr (hash\<lparr>h_index := (h_index hash)[index := remove_first (backet_of hash data) chain],
                      h_count := h_count hash - 1\<rparr>, Some (hb_data hb))))"

text \<open>A callback that only reads the table; \<open>'s\<close> is what it changes.\<close>

definition hash_iterate :: "'d hash \<Rightarrow> ('d hash_backet \<Rightarrow> 's \<Rightarrow> 's) \<Rightarrow> 's \<Rightarrow> 's" where
  "hash_iterate hash func = fold func (concat (h_index hash))"

text \<open>The data the free function is called with, in order.\<close>

definition hash_clean :: "'d hash \<Rightarrow> 'd hash \<times> 'd list" where
  "hash_clean hash =
     (hash\<lparr>h_index := map (\<lambda>_. []) (h_index hash), h_count := h_count hash - of_nat (length (concat (h_index hash)))\<rparr>,
      map hb_data (concat (h_index hash)))"

text \<open>A \<open>char\<close> is signed: bytes from 128 on are sign extended.\<close>

definition string_hash_make :: "string \<Rightarrow> u32" where
  "string_hash_make str = fold (\<lambda>c hash. (hash * 33) XOR scast (of_nat (of_char c) :: u8)) str 0"

end
