(* ===== verification/HashProps.thy ===== *)
theory HashProps
  imports Hash
begin

text \<open>
  What a hash table promises: it behaves as a map from data to the equal datum that is stored, with
  a right count, whatever the table does with its chains.
\<close>

section \<open>Low bits and chains\<close>

lemma low_bits_less: "k \<le> 31 \<Longrightarrow> unat ((w :: u32) AND (2 ^ k - 1)) < 2 ^ k"
proof -
  assume "k \<le> 31"
  have "w AND (2 ^ k - 1) = take_bit k w" by (simp add: take_bit_eq_mask mask_eq_exp_minus_1)
  then show ?thesis by (simp add: unsigned_take_bit_eq)
qed

lemma mset_concat_upd: "i < length ix \<Longrightarrow> mset (concat (ix[i := c])) + mset (ix ! i) = mset (concat ix) + mset c"
  by (induction ix arbitrary: i) (auto simp: less_Suc_eq_0_disj)

lemma mset_nth_concat: "i < length ix \<Longrightarrow> mset (ix ! i) \<subseteq># mset (concat ix)"
  by (metis mset_concat_upd append_Nil2 mset_append mset.simps(1) mset_subset_eq_add_right add.right_neutral)

lemma mset_remove_first: "List.find P bs = Some b \<Longrightarrow> mset bs = add_mset b (mset (remove_first P bs))"
  by (induction bs) (auto split: if_splits)

lemma chain_find_eq:
  "chain_find P n bs = (map_option hb_data (List.find P bs), snd (chain_find P n bs))"
  "List.find P bs = None \<Longrightarrow> snd (chain_find P n bs) = n + length bs"
  by (induction bs arbitrary: n) (auto split: if_splits)

lemma unat_pow2: "k \<le> 31 \<Longrightarrow> unat (2 ^ k :: u32) = 2 ^ k"
proof -
  assume "k \<le> 31"
  then have "(2 :: nat) ^ k \<le> 2 ^ 31" by (intro power_increasing) simp_all
  then have "(2 :: nat) ^ k < 2 ^ LENGTH(32)" by simp
  then have "unat (of_nat (2 ^ k) :: u32) = 2 ^ k" by (simp only: unsigned_of_nat take_bit_nat_eq_self of_nat_id)
  then show ?thesis by simp
qed

section \<open>The map\<close>

text \<open>What the operations do to the map from data to the equal datum stored, \<open>cmp\<close> being equality.\<close>

definition map_get :: "('d \<Rightarrow> 'd \<Rightarrow> bool) \<Rightarrow> 'd \<Rightarrow> ('d \<Rightarrow> 'd option) option \<Rightarrow> ('d \<rightharpoonup> 'd) \<Rightarrow> ('d \<rightharpoonup> 'd) \<times> 'd option" where
  "map_get cmp d alloc m = (case m d of
     Some x \<Rightarrow> (m, Some x)
   | None \<Rightarrow> (case alloc of None \<Rightarrow> (m, None) | Some f \<Rightarrow>
              case f d of None \<Rightarrow> (m, None) | Some x \<Rightarrow> (\<lambda>e. if cmp x e then Some x else m e, Some x)))"

datatype 'd hash_call = Lookup 'd | Get 'd "'d \<Rightarrow> 'd option" | Release 'd | Clean

fun hash_exec :: "'d hash_call \<Rightarrow> 'd hash \<Rightarrow> ('d hash \<times> 'd option) res" where
  "hash_exec (Lookup d) h = hash_lookup h d"
| "hash_exec (Get d f) h = hash_get h d (Some f)"
| "hash_exec (Release d) h = hash_release h d"
| "hash_exec Clean h = Inr (fst (hash_clean h), None)"

fun map_exec :: "('d \<Rightarrow> 'd \<Rightarrow> bool) \<Rightarrow> 'd hash_call \<Rightarrow> ('d \<rightharpoonup> 'd) \<Rightarrow> ('d \<rightharpoonup> 'd) \<times> 'd option" where
  "map_exec cmp (Lookup d) m = map_get cmp d None m"
| "map_exec cmp (Get d f) m = map_get cmp d (Some f) m"
| "map_exec cmp (Release d) m = (\<lambda>e. if cmp d e then None else m e, m d)"
| "map_exec cmp Clean m = (Map.empty, None)"

fun hash_run :: "'d hash_call list \<Rightarrow> 'd hash \<Rightarrow> ('d hash \<times> 'd option list) res" where
  "hash_run [] h = Inr (h, [])"
| "hash_run (c # cs) h =
     and_then (hash_exec c h) (\<lambda>(h, r). and_then (hash_run cs h) (\<lambda>(h, rs). Inr (h, r # rs)))"

fun map_calls :: "('d \<Rightarrow> 'd \<Rightarrow> bool) \<Rightarrow> 'd hash_call list \<Rightarrow> ('d \<rightharpoonup> 'd) \<Rightarrow> ('d \<rightharpoonup> 'd) \<times> 'd option list" where
  "map_calls cmp [] m = (m, [])"
| "map_calls cmp (c # cs) m =
     (let (m, r) = map_exec cmp c m; (m, rs) = map_calls cmp cs m in (m, r # rs))"

text \<open>What a client allocates is equal to what it looked for.\<close>

fun call_ok :: "('d \<Rightarrow> 'd \<Rightarrow> bool) \<Rightarrow> 'd hash_call \<Rightarrow> bool" where
  "call_ok cmp (Get d f) \<longleftrightarrow> (case f d of None \<Rightarrow> True | Some x \<Rightarrow> cmp x d)"
| "call_ok cmp c \<longleftrightarrow> True"

section \<open>Functions of the client\<close>

text \<open>Comparison is an equivalence, and equal data have the same key.\<close>

locale hash_functions =
  fixes key :: "'d \<Rightarrow> u32" and cmp :: "'d \<Rightarrow> 'd \<Rightarrow> bool"
  assumes cmp_refl: "cmp a a"
    and cmp_sym: "cmp a b \<Longrightarrow> cmp b a"
    and cmp_trans: "cmp a b \<Longrightarrow> cmp b c \<Longrightarrow> cmp a c"
    and key_cmp: "cmp a b \<Longrightarrow> key a = key b"
begin

text \<open>No two data are equal.\<close>

definition uniq :: "'d multiset \<Rightarrow> bool" where
  "uniq M \<longleftrightarrow> (\<forall>x. size {#y \<in># M. cmp y x#} \<le> 1)"

lemma uniq_empty: "uniq {#}"
  by (simp add: uniq_def)

lemma uniq_sub:
  assumes "uniq M" "N \<subseteq># M"
  shows "uniq N"
  unfolding uniq_def
proof
  fix x
  have "size {#y \<in># N. cmp y x#} \<le> size {#y \<in># M. cmp y x#}"
    by (intro size_mset_mono multiset_filter_mono assms(2))
  also have "\<dots> \<le> 1" using assms(1) by (simp add: uniq_def)
  finally show "size {#y \<in># N. cmp y x#} \<le> 1" .
qed

lemma uniq_add: "uniq (add_mset x M) \<longleftrightarrow> uniq M \<and> (\<forall>y \<in># M. \<not> cmp y x)"
proof
  assume u: "uniq (add_mset x M)"
  then have "size {#y \<in># add_mset x M. cmp y x#} \<le> 1" unfolding uniq_def by blast
  then have "size {#y \<in># M. cmp y x#} = 0" using cmp_refl [of x] by simp
  then have "y \<notin># {#y \<in># M. cmp y x#}" for y by simp
  then show "uniq M \<and> (\<forall>y \<in># M. \<not> cmp y x)" using uniq_sub [OF u] by auto
next
  assume M: "uniq M \<and> (\<forall>y \<in># M. \<not> cmp y x)"
  have "{#y \<in># M. cmp y z#} = {#}" if "cmp x z" for z
    using M cmp_trans [OF _ cmp_sym [OF that]] by (intro multiset_eqI) (auto simp: count_eq_zero_iff)
  then show "uniq (add_mset x M)" using M by (simp add: uniq_def)
qed

lemma uniq_eq:
  assumes "uniq M" "x \<in># M" "y \<in># M" "cmp x d" "cmp y d"
  shows "x = y"
proof -
  obtain N where N: "M = add_mset x N" using assms(2) by (meson multi_member_split)
  show ?thesis
  proof (rule ccontr)
    assume "x \<noteq> y"
    then have "y \<in># N" using assms(3) N by auto
    then have "\<not> cmp y x" using assms(1) N by (simp add: uniq_add)
    then show False using cmp_trans [OF assms(5) cmp_sym [OF assms(4)]] by blast
  qed
qed

section \<open>Chains\<close>

definition placed :: "u32 \<Rightarrow> nat \<Rightarrow> 'd hash_backet \<Rightarrow> bool" where
  "placed sz i b \<longleftrightarrow> i = unat (key (hb_data b) AND (sz - 1)) \<and> hb_key b = key (hb_data b)"

definition chains_ok :: "u32 \<Rightarrow> 'd hash_backet list list \<Rightarrow> bool" where
  "chains_ok sz ix \<longleftrightarrow> (\<forall>i < length ix. \<forall>b \<in> set (ix ! i). placed sz i b)"

definition stored :: "'d hash \<Rightarrow> 'd multiset" where
  "stored h = image_mset hb_data (mset (concat (h_index h)))"

definition hash_ok :: "'d hash \<Rightarrow> bool" where
  "hash_ok h \<longleftrightarrow> h_hash_key h = key \<and> h_hash_cmp h = cmp \<and> (\<exists>k \<le> 31. h_size h = 2 ^ k \<and> length (h_index h) = 2 ^ k) \<and>
     chains_ok (h_size h) (h_index h) \<and> uniq (stored h) \<and> h_count h = of_nat (size (stored h))"

lemma chains_ok_upd:
  assumes "chains_ok sz ix" "\<forall>b \<in> set c. placed sz i b"
  shows "chains_ok sz (ix[i := c])"
  using assms by (cases "i < length ix") (auto simp: chains_ok_def nth_list_update split: if_splits)

lemma rehash_ok:
  assumes "k \<le> 31" "length ix = 2 ^ k" "chains_ok (2 ^ k) ix" "\<forall>b \<in> set bs. hb_key b = key (hb_data b)"
  shows "\<exists>ix'. rehash (2 ^ k) bs ix = Inr ix' \<and> length ix' = 2 ^ k \<and> chains_ok (2 ^ k) ix' \<and>
    mset (concat ix') = mset (concat ix) + mset bs"
  using assms(2-)
proof (induction bs arbitrary: ix)
  case (Cons b bs)
  let ?i = "unat (hb_key b AND (2 ^ k - 1))"
  have i: "?i < 2 ^ k" using assms(1) by (rule low_bits_less)
  have "chains_ok (2 ^ k) (ix[?i := b # ix ! ?i])"
  proof (rule chains_ok_upd [OF Cons.prems(2)])
    have "placed (2 ^ k) ?i b" using Cons.prems(3) by (simp add: placed_def)
    then show "\<forall>c \<in> set (b # ix ! ?i). placed (2 ^ k) ?i c" using Cons.prems(1,2) i by (simp add: chains_ok_def)
  qed
  from Cons.IH [OF _ this] Cons.prems obtain ix' where ix': "rehash (2 ^ k) bs (ix[?i := b # ix ! ?i]) = Inr ix'"
    "length ix' = 2 ^ k" "chains_ok (2 ^ k) ix'" "mset (concat ix') = mset (concat (ix[?i := b # ix ! ?i])) + mset bs" by auto
  have "rehash (2 ^ k) (b # bs) ix = Inr ix'" using ix'(1) i Cons.prems(1) by (simp add: chain_at_def Let_def)
  moreover have "mset (concat ix') = mset (concat ix) + mset (b # bs)"
    using ix'(4) mset_concat_upd [of ?i ix "b # ix ! ?i"] i Cons.prems(1) by simp
  ultimately show ?case using ix'(2,3) by blast
qed simp

section \<open>Operations on the map\<close>

definition rep :: "'d hash \<Rightarrow> ('d \<rightharpoonup> 'd) \<Rightarrow> bool" where
  "rep h m \<longleftrightarrow> hash_ok h \<and> (\<forall>d x. m d = Some x \<longleftrightarrow> x \<in># stored h \<and> cmp x d)"

lemma keys_ok:
  assumes "chains_ok sz ix" "b \<in> set (concat ix)"
  shows "hb_key b = key (hb_data b)"
proof -
  obtain c where c: "c \<in> set ix" "b \<in> set c" using assms(2) by auto
  then obtain i where "i < length ix" "b \<in> set (ix ! i)" by (metis in_set_conv_nth)
  then show ?thesis using assms(1) by (simp add: chains_ok_def placed_def)
qed

lemma expand_ok:
  assumes "rep h m" "h_size h \<noteq> 2 ^ 31"
  shows "\<exists>h'. hash_expand h = Inr h' \<and> rep h' m"
proof -
  from assms(1) obtain k where k: "k \<le> 31" "h_size h = 2 ^ k" "length (h_index h) = 2 ^ k" and ok: "chains_ok (h_size h) (h_index h)"
    and h: "h_hash_key h = key" "h_hash_cmp h = cmp" "uniq (stored h)" "h_count h = of_nat (size (stored h))"
    by (auto simp: rep_def hash_ok_def)
  obtain n where n: "n = Suc k" by blast
  have k1: "n \<le> 31" using k assms(2) unfolding n by (metis Suc_leI le_neq_implies_less)
  have sz: "h_size h * 2 = 2 ^ n" "unat (2 ^ n :: u32) = 2 ^ n" using k(2) unat_pow2 [OF k1] by (simp_all add: n)
  have keys: "\<forall>b \<in> set (concat (h_index h)). hb_key b = key (hb_data b)" using keys_ok [OF ok] by blast
  have "chains_ok (2 ^ n) (replicate (2 ^ n) [])" by (simp add: chains_ok_def)
  from rehash_ok [OF k1 _ this keys] obtain ix where
    ix: "rehash (2 ^ n) (concat (h_index h)) (replicate (2 ^ n) []) = Inr ix" "length ix = 2 ^ n" "chains_ok (2 ^ n) ix"
      "mset (concat ix) = mset (concat (h_index h))" by auto
  obtain losers ne where l: "fold (chain_losers 0) ix (0, h_no_expand h) = (losers, ne)" by fastforce
  define h' where "h' = h\<lparr>h_index := ix, h_size := 2 ^ n, h_no_expand := ne \<or> ucast losers > h_count h div 2\<rparr>"
  have "hash_expand h = Inr h'" using ix(1) l by (simp add: hash_expand_def Let_def sz h'_def)
  moreover have st: "stored h' = stored h" using ix(4) by (simp add: stored_def h'_def)
  moreover have "hash_ok h'" unfolding hash_ok_def st using h ix(2,3) k1 by (simp add: h'_def)
  ultimately show ?thesis using assms(1) by (auto simp: rep_def)
qed

text \<open>The table with \<open>2\<^sup>31\<close> chains cannot be doubled: the new size wraps around to 0.\<close>

lemma expand_full:
  assumes "rep h m" "h_size h = 2 ^ 31" "concat (h_index h) \<noteq> []"
  shows "hash_expand h = Inl OutOfBounds"
proof -
  have "h_size h * 2 = 0" using assms(2) by simp
  then show ?thesis using assms(3) by (cases "concat (h_index h)") (simp_all add: hash_expand_def chain_at_def)
qed

lemma find_law:
  assumes "rep h m"
  shows "hash_index h (key d) < length (h_index h)"
    "map_option hb_data (List.find (backet_of h d) (h_index h ! hash_index h (key d))) = m d"
proof -
  let ?i = "hash_index h (key d)"
  from assms obtain k where k: "k \<le> 31" "h_size h = 2 ^ k" "length (h_index h) = 2 ^ k" and ok: "chains_ok (h_size h) (h_index h)"
    and h: "h_hash_key h = key" "h_hash_cmp h = cmp" and m: "\<And>x. m d = Some x \<longleftrightarrow> x \<in># stored h \<and> cmp x d"
    by (auto simp: rep_def hash_ok_def)
  show i: "?i < length (h_index h)" unfolding hash_index_def k(2,3) by (rule low_bits_less [OF k(1)])
  show "map_option hb_data (List.find (backet_of h d) (h_index h ! ?i)) = m d"
  proof (cases "List.find (backet_of h d) (h_index h ! ?i)")
    case None
    have "m d \<noteq> Some x" for x
    proof
      assume "m d = Some x"
      then obtain b j where b: "j < length (h_index h)" "b \<in> set (h_index h ! j)" "x = hb_data b" "cmp x d"
        using m by (fastforce simp: stored_def in_set_conv_nth)
      have "placed (h_size h) j b" using ok b(1,2) by (simp add: chains_ok_def)
      then have "j = ?i" "backet_of h d b" using key_cmp [OF b(4)] b(3,4) h by (simp_all add: placed_def hash_index_def backet_of_def)
      with None b(2) show False by (auto simp: find_None_iff)
    qed
    then show ?thesis using None by (cases "m d") auto
  next
    case (Some b)
    then have "b \<in> set (h_index h ! ?i)" "backet_of h d b" by (auto simp: find_Some_iff in_set_conv_nth)
    then have "b \<in> set (concat (h_index h))" "cmp (hb_data b) d" using nth_mem [OF i] h by (auto simp: backet_of_def)
    then have "hb_data b \<in># stored h" "cmp (hb_data b) d" by (auto simp: stored_def)
    with m [of "hb_data b"] Some show ?thesis by simp
  qed
qed

text \<open>Storing a new datum in a table that has none equal to it, and releasing one.\<close>

lemma put_ok:
  assumes "rep h m" "m d = None" "cmp x d"
  shows "rep (h\<lparr>h_index := (h_index h)[hash_index h (key d) := \<lparr>hb_key = key d, hb_data = x\<rparr> # h_index h ! hash_index h (key d)],
      h_count := h_count h + 1\<rparr>) (\<lambda>e. if cmp x e then Some x else m e)" (is "rep ?h ?m")
proof -
  let ?i = "hash_index h (key d)" and ?b = "\<lparr>hb_key = key d, hb_data = x\<rparr>"
  note i = find_law(1) [OF assms(1), of d]
  have h: "hash_ok h" and m: "\<And>d x. m d = Some x \<longleftrightarrow> x \<in># stored h \<and> cmp x d" using assms(1) by (auto simp: rep_def)
  have st: "stored ?h = add_mset x (stored h)"
    using mset_concat_upd [OF i, of "?b # h_index h ! ?i"] by (simp add: stored_def)
  have none: "\<not> cmp y x" if "y \<in># stored h" for y using that m [of d y] assms(2) cmp_trans [OF _ assms(3)] by auto
  have "chains_ok (h_size h) (h_index ?h)"
  proof -
    have "placed (h_size h) ?i ?b" using key_cmp [OF assms(3)] by (simp add: placed_def hash_index_def)
    then have "\<forall>c \<in> set (?b # h_index h ! ?i). placed (h_size h) ?i c" using h i by (simp add: hash_ok_def chains_ok_def)
    with chains_ok_upd h show ?thesis by (simp add: hash_ok_def)
  qed
  moreover have "uniq (stored ?h)" unfolding st uniq_add using h none by (simp add: hash_ok_def)
  ultimately have "hash_ok ?h" using h unfolding hash_ok_def st by auto
  moreover have "?m e = Some y \<longleftrightarrow> y \<in># stored ?h \<and> cmp y e" for e y
  proof (cases "cmp x e")
    case True
    then have "\<not> cmp y e" if "y \<in># stored h" using none [OF that] cmp_trans [OF _ cmp_sym [OF True]] by blast
    then show ?thesis using True unfolding st by auto
  next
    case False
    then show ?thesis using m unfolding st by auto
  qed
  ultimately show ?thesis by (simp add: rep_def)
qed

lemma release_ok:
  assumes "rep h m" "List.find (backet_of h d) (h_index h ! hash_index h (key d)) = Some b"
  shows "rep (h\<lparr>h_index := (h_index h)[hash_index h (key d) := remove_first (backet_of h d) (h_index h ! hash_index h (key d))],
      h_count := h_count h - 1\<rparr>) (\<lambda>e. if cmp d e then None else m e)" (is "rep ?h ?m")
proof -
  let ?i = "hash_index h (key d)"
  note i = find_law(1) [OF assms(1), of d]
  have h: "hash_ok h" and m: "\<And>d x. m d = Some x \<longleftrightarrow> x \<in># stored h \<and> cmp x d" using assms(1) by (auto simp: rep_def)
  have b: "backet_of h d b" using assms(2) by (auto simp: find_Some_iff)
  then have bd: "cmp (hb_data b) d" using h by (simp add: backet_of_def hash_ok_def)
  have "mset (concat (h_index h)) = add_mset b (mset (concat (h_index ?h)))"
    using mset_concat_upd [OF i, of "remove_first (backet_of h d) (h_index h ! ?i)"] mset_remove_first [OF assms(2)]
    by simp
  then have st: "stored h = add_mset (hb_data b) (stored ?h)" by (simp only: stored_def image_mset_add_mset)
  have "chains_ok (h_size h) (h_index ?h)"
  proof -
    have "\<forall>c \<in> set (remove_first (backet_of h d) (h_index h ! ?i)). placed (h_size h) ?i c"
      using h i set_remove_first by (fastforce simp: hash_ok_def chains_ok_def)
    with chains_ok_upd h show ?thesis by (simp add: hash_ok_def)
  qed
  moreover have u: "uniq (stored ?h)" "\<forall>y \<in># stored ?h. \<not> cmp y (hb_data b)"
    using h unfolding hash_ok_def st uniq_add by auto
  moreover have "h_count ?h = of_nat (size (stored ?h))"
  proof -
    have "h_count ?h = of_nat (size (stored h)) - 1" using h by (simp add: hash_ok_def)
    then show ?thesis unfolding st by (simp only: size_add_mset of_nat_Suc add_diff_cancel_left')
  qed
  ultimately have "hash_ok ?h" using h unfolding hash_ok_def by auto
  moreover have "?m e = Some y \<longleftrightarrow> y \<in># stored ?h \<and> cmp y e" for e y
  proof (cases "cmp d e")
    case True
    have "\<not> cmp y e" if "y \<in># stored ?h"
      using u(2) that cmp_trans [OF _ cmp_sym [OF cmp_trans [OF bd True]]] by blast
    then show ?thesis using True by auto
  next
    case False
    then have "\<not> cmp (hb_data b) e" using cmp_trans [OF cmp_sym [OF bd]] by blast
    then show ?thesis using m False unfolding st by auto
  qed
  ultimately show ?thesis by (simp add: rep_def)
qed

text \<open>A call does what it does to the map, or it fails because it would have to double the largest table.\<close>

definition does :: "'d hash \<Rightarrow> ('d hash \<times> 'd option) res \<Rightarrow> ('d \<rightharpoonup> 'd) \<times> 'd option \<Rightarrow> bool" where
  "does h res r \<longleftrightarrow> (\<exists>h'. res = Inr (h', snd r) \<and> rep h' (fst r)) \<or> (h_size h = 2 ^ 31 \<and> res = Inl OutOfBounds)"

lemma get_ok:
  assumes "rep h m" "\<And>f x. alloc = Some f \<Longrightarrow> f d = Some x \<Longrightarrow> cmp x d"
  shows "does h (hash_get h d alloc) (map_get cmp d alloc m)"
proof -
  let ?c = "h_index h ! hash_index h (key d)"
  have hk: "h_hash_key h = key" using assms(1) by (simp add: rep_def hash_ok_def)
  note i = find_law [OF assms(1), of d]
  obtain n where cf: "chain_find (backet_of h d) 0 ?c = (m d, n)"
    using chain_find_eq(1) [of "backet_of h d" 0 ?c] unfolding i(2) by blast
  show ?thesis
  proof (cases "\<exists>f x. m d = None \<and> alloc = Some f \<and> f d = Some x")
    case False
    then have "map_get cmp d alloc m = (m, m d)" by (auto simp: map_get_def split: option.splits)
    moreover have "hash_get h d alloc = Inr (h, m d)"
      using False i(1) cf by (auto simp: hash_get_def Let_def hk chain_at_def split: option.splits)
    ultimately show ?thesis using assms(1) by (simp add: does_def)
  next
    case True
    then obtain f x where f: "m d = None" "alloc = Some f" "f d = Some x" by blast
    have len: "n = length ?c" using chain_find_eq(2) [of "backet_of h d" ?c 0] i(2) f(1) cf by simp
    let ?x = "if length ?c > HASH_THRESHOLD \<and> \<not> h_no_expand h then hash_expand h else Inr h"
    have get: "hash_get h d alloc = and_then ?x (\<lambda>h. let index = hash_index h (key d) in and_then (chain_at index (h_index h)) (\<lambda>chain.
        Inr (h\<lparr>h_index := (h_index h)[index := \<lparr>hb_key = key d, hb_data = x\<rparr> # chain], h_count := h_count h + 1\<rparr>, Some x)))"
      using cf len f i(1) by (simp add: hash_get_def hk chain_at_def Let_def)
    show ?thesis
    proof (cases "h_size h = 2 ^ 31 \<and> length ?c > HASH_THRESHOLD \<and> \<not> h_no_expand h")
      case True
      then have "concat (h_index h) \<noteq> []" using nth_mem [OF i(1)] by fastforce
      then show ?thesis using True expand_full [OF assms(1)] get by (simp add: does_def)
    next
      case False
      obtain h1 where h1: "?x = Inr h1" "rep h1 m"
        using expand_ok [OF assms(1)] False assms(1) by (cases "length ?c > HASH_THRESHOLD \<and> \<not> h_no_expand h") auto
      have "cmp x d" using assms(2) f by blast
      from put_ok [OF h1(2) f(1) this] find_law(1) [OF h1(2), of d] f h1(1) show ?thesis
        unfolding get by (simp add: chain_at_def map_get_def Let_def does_def)
    qed
  qed
qed

lemma hash_release_ok:
  assumes "rep h m"
  shows "\<exists>h'. hash_release h d = Inr (h', m d) \<and> rep h' (\<lambda>e. if cmp d e then None else m e)"
proof -
  have hk: "h_hash_key h = key" using assms by (simp add: rep_def hash_ok_def)
  note i = find_law [OF assms, of d]
  show ?thesis
  proof (cases "List.find (backet_of h d) (h_index h ! hash_index h (key d))")
    case None
    then have d: "m d = None" using i(2) by simp
    have "m e = None" if "cmp d e" for e
    proof (cases "m e")
      case (Some x)
      then have "x \<in># stored h" "cmp x d" using assms cmp_trans [OF _ cmp_sym [OF that]] by (auto simp: rep_def)
      with assms have "m d = Some x" by (simp add: rep_def)
      with d show ?thesis by simp
    qed
    then have "(\<lambda>e. if cmp d e then None else m e) = m" by auto
    then show ?thesis using None d i(1) assms by (simp add: hash_release_def hk chain_at_def Let_def)
  next
    case (Some b)
    with i release_ok [OF assms Some] show ?thesis by (simp add: hash_release_def hk chain_at_def Let_def)
  qed
qed

lemma clean_ok:
  assumes "rep h m"
  shows "rep (fst (hash_clean h)) Map.empty"
proof -
  have "concat (map (\<lambda>_. []) xs) = []" for xs :: "'x list" by (induction xs) auto
  then have st: "stored (fst (hash_clean h)) = {#}" by (simp add: stored_def hash_clean_def)
  have "hash_ok (fst (hash_clean h))"
    unfolding hash_ok_def st using assms
    by (auto simp: rep_def hash_ok_def hash_clean_def chains_ok_def uniq_empty stored_def)
  then show ?thesis by (simp add: rep_def st)
qed

lemma create_ok: "\<exists>h. hash_create key cmp = Inr h \<and> rep h Map.empty"
proof -
  let ?h = "\<lparr>h_index = replicate 256 [], h_size = 256, h_no_expand = False, h_hash_key = key, h_hash_cmp = cmp, h_count = 0\<rparr>"
  have st: "stored ?h = {#}" by (simp add: stored_def)
  have "(256 :: u32) AND (256 - 1) = 0" "unat (256 :: u32) = 256" by simp_all
  then have "hash_create key cmp = Inr ?h" by (simp add: hash_create_def hash_create_size_def HASH_INITIAL_SIZE_def)
  moreover have "hash_ok ?h" unfolding hash_ok_def st by (auto simp: chains_ok_def uniq_empty intro!: exI [of _ 8])
  ultimately show ?thesis by (simp add: rep_def st)
qed

lemma rep_count: "rep h m \<Longrightarrow> h_count h = of_nat (card (ran m))"
proof -
  assume r: "rep h m"
  then have u: "uniq (stored h)" and c: "h_count h = of_nat (size (stored h))" by (auto simp: rep_def hash_ok_def)
  have "ran m = set_mset (stored h)" using r cmp_refl by (auto simp: rep_def ran_def)
  moreover have "size M = card (set_mset M)" if "uniq M" for M
    using that cmp_refl by (induction M) (auto simp: uniq_add card_insert_if)
  ultimately show ?thesis using c u by simp
qed

lemma exec_ok:
  assumes "rep h m" "call_ok cmp c"
  shows "does h (hash_exec c h) (map_exec cmp c m)"
proof (cases c)
  case (Lookup d)
  then show ?thesis using get_ok [OF assms(1), of None d] by (simp add: hash_lookup_def)
next
  case (Get d f)
  then have "cmp x d" if "Some f = Some g" "g d = Some x" for g x using that assms(2) by auto
  from get_ok [OF assms(1), of "Some f" d, OF this] Get show ?thesis by simp
next
  case (Release d)
  then show ?thesis using hash_release_ok [OF assms(1), of d] by (simp add: does_def)
next
  case Clean
  then show ?thesis using clean_ok [OF assms(1)] by (simp add: does_def)
qed

lemma run_ok:
  assumes "rep h m" "list_all (call_ok cmp) cs"
  shows "(\<exists>h'. hash_run cs h = Inr (h', snd (map_calls cmp cs m)) \<and> rep h' (fst (map_calls cmp cs m))) \<or>
    (\<exists>cs1 c cs2 h'. cs = cs1 @ c # cs2 \<and> hash_run cs1 h = Inr (h', snd (map_calls cmp cs1 m)) \<and> h_size h' = 2 ^ 31 \<and>
       hash_exec c h' = Inl OutOfBounds)"
  using assms
proof (induction cs arbitrary: h m)
  case (Cons c cs)
  from exec_ok [OF Cons.prems(1), of c] Cons.prems(2) consider
    (full) "h_size h = 2 ^ 31" "hash_exec c h = Inl OutOfBounds"
    | (goes) h1 where "hash_exec c h = Inr (h1, snd (map_exec cmp c m))" "rep h1 (fst (map_exec cmp c m))" by (auto simp: does_def)
  then show ?case
  proof cases
    case full
    then have "c # cs = [] @ c # cs \<and> hash_run [] h = Inr (h, snd (map_calls cmp [] m)) \<and> h_size h = 2 ^ 31 \<and> hash_exec c h = Inl OutOfBounds" by simp
    then show ?thesis by blast
  next
    case (goes h1)
    let ?m = "fst (map_exec cmp c m)"
    from Cons.IH [OF goes(2)] Cons.prems(2) consider
      (run) h' where "hash_run cs h1 = Inr (h', snd (map_calls cmp cs ?m))" "rep h' (fst (map_calls cmp cs ?m))"
      | (stop) cs1 c' cs2 h' where "cs = cs1 @ c' # cs2" "hash_run cs1 h1 = Inr (h', snd (map_calls cmp cs1 ?m))" "h_size h' = 2 ^ 31"
         "hash_exec c' h' = Inl OutOfBounds" by auto
    then show ?thesis
    proof cases
      case run
      then show ?thesis using goes(1) by (auto simp: case_prod_unfold Let_def)
    next
      case stop
      then have "c # cs = (c # cs1) @ c' # cs2 \<and> hash_run (c # cs1) h = Inr (h', snd (map_calls cmp (c # cs1) m)) \<and>
        h_size h' = 2 ^ 31 \<and> hash_exec c' h' = Inl OutOfBounds" using goes(1) by (simp add: case_prod_unfold Let_def)
      then show ?thesis by blast
    qed
  qed
qed simp

end

section \<open>Clients\<close>

text \<open>
  The filters of interfaces (\<^verbatim>\<open>lib/distribute.c\<close>), where one without a name is for all interfaces, and the route maps of
  interfaces (\<^verbatim>\<open>lib/if_rmap.c\<close>): both are kept by the name of the interface.
\<close>

record distribute =
  dist_ifname :: "string option"
  dist_list :: "string option list"
  dist_prefix :: "string option list"

definition distribute_hash_make :: "distribute \<Rightarrow> u32" where
  "distribute_hash_make dist = (case dist_ifname dist of Some name \<Rightarrow> string_hash_make name | None \<Rightarrow> 0)"

definition distribute_cmp :: "distribute \<Rightarrow> distribute \<Rightarrow> bool" where
  "distribute_cmp dist1 dist2 \<longleftrightarrow> (case (dist_ifname dist1, dist_ifname dist2) of
     (Some a, Some b) \<Rightarrow> strcmp a b = 0 | (None, None) \<Rightarrow> True | _ \<Rightarrow> False)"

record if_rmap =
  ifr_ifname :: string
  ifr_routemap :: "string option list"

definition if_rmap_hash_make :: "if_rmap \<Rightarrow> u32" where
  "if_rmap_hash_make r = string_hash_make (ifr_ifname r)"

definition if_rmap_hash_cmp :: "if_rmap \<Rightarrow> if_rmap \<Rightarrow> bool" where
  "if_rmap_hash_cmp r1 r2 \<longleftrightarrow> strcmp (ifr_ifname r1) (ifr_ifname r2) = 0"

lemma distribute_cmp_iff: "distribute_cmp a b \<longleftrightarrow> dist_ifname a = dist_ifname b"
  by (auto simp: distribute_cmp_def split: option.splits)

interpretation disthash: hash_functions distribute_hash_make distribute_cmp
  by unfold_locales (simp_all add: distribute_cmp_iff distribute_hash_make_def)

interpretation ifrmaphash: hash_functions if_rmap_hash_make if_rmap_hash_cmp
  by unfold_locales (simp_all add: if_rmap_hash_cmp_def if_rmap_hash_make_def)

section \<open>Properties\<close>

text \<open>C21: A hash table is a map. Started empty, any sequence of lookups, insertions, releases and
  cleanings ends without a fault and returns what the same calls return on a map from data to the equal datum
  stored, and the count is the number of data stored, across all doublings of the table; unless the table has grown to \<open>2\<^sup>31\<close>
  chains and a call would double it again: there the new size wraps around to 0 and the code writes outside its array. Up to
  that call the results are those of the map, too. The client promises that comparison is an equivalence
  the keys respect, and that it allocates what it looked for.\<close>

theorem hash_refines_map:
  assumes "hash_functions key cmp" "list_all (call_ok cmp) cs"
  shows "(\<exists>h. and_then (hash_create key cmp) (hash_run cs) = Inr (h, snd (map_calls cmp cs Map.empty)) \<and>
      h_count h = of_nat (card (ran (fst (map_calls cmp cs Map.empty))))) \<or>
    (\<exists>cs1 c cs2 h. cs = cs1 @ c # cs2 \<and> and_then (hash_create key cmp) (hash_run cs1) = Inr (h, snd (map_calls cmp cs1 Map.empty)) \<and>
      h_size h = 2 ^ 31 \<and> hash_exec c h = Inl OutOfBounds)"
proof -
  from hash_functions.create_ok [OF assms(1)] obtain h where
    h: "hash_create key cmp = Inr h" "hash_functions.rep key cmp h Map.empty" by blast
  from hash_functions.run_ok [OF assms(1) h(2) assms(2)] show ?thesis
  proof
    assume "\<exists>h'. hash_run cs h = Inr (h', snd (map_calls cmp cs Map.empty)) \<and> hash_functions.rep key cmp h' (fst (map_calls cmp cs Map.empty))"
    then show ?thesis using hash_functions.rep_count [OF assms(1)] h(1) by auto
  next
    assume "\<exists>cs1 c cs2 h'. cs = cs1 @ c # cs2 \<and> hash_run cs1 h = Inr (h', snd (map_calls cmp cs1 Map.empty)) \<and> h_size h' = 2 ^ 31 \<and>
       hash_exec c h' = Inl OutOfBounds"
    then show ?thesis using h(1) by simp
  qed
qed

lemma isl_and_then: "isl m \<Longrightarrow> isl (and_then m f)"
  by (cases m) simp_all

lemma hash_run_stops:
  assumes "hash_run cs1 h = Inr (h', rs)" "hash_exec c h' = Inl e"
  shows "isl (hash_run (cs1 @ c # cs2) h)"
  using assms(1)
proof (induction cs1 arbitrary: h rs)
  case Nil
  then show ?case using assms(2) by simp
next
  case (Cons d cs1)
  then obtain h1 r rs1 where "hash_exec d h = Inr (h1, r)" "hash_run cs1 h1 = Inr (h', rs1)" by (auto simp: and_then_Inr_iff)
  with Cons.IH show ?case by (simp add: isl_and_then)
qed

definition for_if :: "string option \<Rightarrow> distribute" where
  "for_if name = \<lparr>dist_ifname = name, dist_list = replicate 2 None, dist_prefix = replicate 2 None\<rparr>"

definition ex_dists :: "distribute hash_call list" where
  "ex_dists = [Get (for_if (Some ''lo'')) hash_alloc_intern, Get (for_if None) hash_alloc_intern, Lookup (for_if (Some ''lo'')),
     Release (for_if (Some ''lo'')), Lookup (for_if (Some ''lo'')), Lookup (for_if None)]"

theorem hash_refines_map_witness:
  "hash_functions distribute_hash_make distribute_cmp \<and> list_all (call_ok distribute_cmp) ex_dists \<and>
   (\<exists>h. and_then (hash_create distribute_hash_make distribute_cmp) (hash_run ex_dists) =
      Inr (h, [Some (for_if (Some ''lo'')), Some (for_if None), Some (for_if (Some ''lo'')), Some (for_if (Some ''lo'')), None, Some (for_if None)]) \<and>
      h_count h = 1)"
proof -
  have ok: "list_all (call_ok distribute_cmp) ex_dists"
    by (simp add: ex_dists_def hash_alloc_intern_def distribute_cmp_iff)
  let ?m = "map_calls distribute_cmp ex_dists Map.empty"
  have r: "snd ?m = [Some (for_if (Some ''lo'')), Some (for_if None), Some (for_if (Some ''lo'')), Some (for_if (Some ''lo'')), None, Some (for_if None)]"
    by (simp add: ex_dists_def map_get_def hash_alloc_intern_def distribute_cmp_iff for_if_def)
  have "fst ?m = (\<lambda>e. if dist_ifname e = None then Some (for_if None) else None)"
    by (auto simp: ex_dists_def map_get_def hash_alloc_intern_def distribute_cmp_iff for_if_def fun_eq_iff)
  moreover have "ran (\<lambda>e :: distribute. if dist_ifname e = None then Some (for_if None) else None) = {for_if None}"
  proof -
    have "dist_ifname (for_if None) = None" by (simp add: for_if_def)
    then show ?thesis unfolding ran_def by auto
  qed
  ultimately have c: "card (ran (fst ?m)) = 1" by simp
  have y: "\<not> isl (and_then (hash_create distribute_hash_make distribute_cmp) (hash_run ex_dists))" by code_simp
  have "\<not> (\<exists>cs1 c cs2 h. ex_dists = cs1 @ c # cs2 \<and> and_then (hash_create distribute_hash_make distribute_cmp) (hash_run cs1) =
      Inr (h, snd (map_calls distribute_cmp cs1 Map.empty)) \<and> h_size h = 2 ^ 31 \<and> hash_exec c h = Inl OutOfBounds)"
  proof clarify
    fix cs1 c cs2 h
    assume cs: "ex_dists = cs1 @ c # cs2" and fails: "hash_exec c h = Inl OutOfBounds" and
      runs: "and_then (hash_create distribute_hash_make distribute_cmp) (hash_run cs1) = Inr (h, snd (map_calls distribute_cmp cs1 Map.empty))"
    from runs obtain h0 where h0: "hash_create distribute_hash_make distribute_cmp = Inr h0"
      "hash_run cs1 h0 = Inr (h, snd (map_calls distribute_cmp cs1 Map.empty))" by (auto simp: and_then_Inr_iff)
    from hash_run_stops [OF h0(2) fails, of cs2] y h0(1) cs show False by simp
  qed
  with hash_refines_map [OF disthash.hash_functions_axioms ok] have
    "\<exists>h. and_then (hash_create distribute_hash_make distribute_cmp) (hash_run ex_dists) = Inr (h, snd ?m) \<and>
      h_count h = of_nat (card (ran (fst ?m)))" by blast
  then show ?thesis unfolding r c using ok disthash.hash_functions_axioms by simp
qed

end
