(* ===== verification/Buffer.thy ===== *)
theory Buffer
  imports Names
begin

text \<open>
  Output buffers (\<^verbatim>\<open>lib/buffer.c\<close>): bytes that wait for a descriptor, in a list of chunks. A chunk is
  the list of the bytes written to it, up to \<open>cp\<close>, and the position \<open>sp\<close> of the first byte not flushed. What
  the kernel does with a write is an argument: it takes a number of bytes, at most those offered,
  or fails with an error number. The bytes it took so far and \<open>errno\<close> are the state \<open>desc\<close> of the
  descriptor.
\<close>

section \<open>Chunks\<close>

record buffer_data =
  bd_data :: "u8 list"
  bd_sp :: nat

record buffer =
  b_list :: "buffer_data list"
  b_size :: nat

abbreviation bd_cp :: "buffer_data \<Rightarrow> nat" where
  "bd_cp d \<equiv> length (bd_data d)"

definition unflushed :: "buffer_data \<Rightarrow> u8 list" where
  "unflushed d = drop (bd_sp d) (bd_data d)"

definition BUFFER_SIZE_DEFAULT :: nat where "BUFFER_SIZE_DEFAULT = 4096"

text \<open>\<open>pgsz\<close> is the page size of the system.\<close>

definition buffer_new :: "nat \<Rightarrow> nat \<Rightarrow> buffer" where
  "buffer_new pgsz sz = \<lparr>b_list = [],
     b_size = (if sz \<noteq> 0 then sz else ((BUFFER_SIZE_DEFAULT - 1) div pgsz + 1) * pgsz)\<rparr>"

definition buffer_getstr :: "buffer \<Rightarrow> u8 list" where
  "buffer_getstr b = concat (map unflushed (b_list b)) @ [0]"

definition buffer_empty :: "buffer \<Rightarrow> bool" where
  "buffer_empty b \<longleftrightarrow> b_list b = []"

definition buffer_reset :: "buffer \<Rightarrow> buffer" where
  "buffer_reset b = b\<lparr>b_list := []\<rparr>"

definition buffer_add :: "buffer \<Rightarrow> buffer" where
  "buffer_add b = b\<lparr>b_list := b_list b @ [\<lparr>bd_data = [], bd_sp = 0\<rparr>]\<rparr>"

text \<open>The loop ends when all bytes are copied; a bound of one turn for each byte is enough for a chunk size above zero.\<close>

fun put_loop :: "nat \<Rightarrow> u8 list \<Rightarrow> buffer \<Rightarrow> buffer res" where
  "put_loop turns [] b = Inr b"
| "put_loop 0 bytes b = Inl Diverged"
| "put_loop (Suc turns) bytes b =
     (let b = (if b_list b = [] \<or> bd_cp (last (b_list b)) = b_size b then buffer_add b else b);
          data = last (b_list b);
          chunk = (if length bytes \<le> b_size b - bd_cp data then length bytes else b_size b - bd_cp data)
      in put_loop turns (drop chunk bytes)
           (b\<lparr>b_list := butlast (b_list b) @ [data\<lparr>bd_data := bd_data data @ take chunk bytes\<rparr>]\<rparr>))"

definition buffer_put :: "u8 list \<Rightarrow> buffer \<Rightarrow> buffer res" where
  "buffer_put bytes b = put_loop (length bytes) bytes b"

definition buffer_putc :: "u8 \<Rightarrow> buffer \<Rightarrow> buffer res" where
  "buffer_putc c b = buffer_put [c] b"

definition buffer_putstr :: "string \<Rightarrow> buffer \<Rightarrow> buffer res" where
  "buffer_putstr s b = buffer_put (map (\<lambda>c. of_nat (of_char c)) s) b"

section \<open>Writing\<close>

datatype errno = EINTR | EAGAIN | EOTHER

datatype io = Wrote nat | Failed errno

record desc =
  fd_out :: "u8 list"
  fd_errno :: errno

datatype buffer_status = BUFFER_ERROR | BUFFER_EMPTY | BUFFER_PENDING

definition sys_write :: "io \<Rightarrow> u8 list \<Rightarrow> desc \<Rightarrow> desc \<times> nat option" where
  "sys_write io bytes fd = (case io of
     Wrote n \<Rightarrow> (fd\<lparr>fd_out := fd_out fd @ take n bytes\<rparr>, Some (min n (length bytes)))
   | Failed e \<Rightarrow> (fd\<lparr>fd_errno := e\<rparr>, None))"

definition ERRNO_IO_RETRY :: "errno \<Rightarrow> bool" where
  "ERRNO_IO_RETRY e \<longleftrightarrow> e = EAGAIN \<or> e = EINTR"

definition MAX_CHUNKS :: nat where "MAX_CHUNKS = 16"
definition MAX_FLUSH :: nat where "MAX_FLUSH = 131072"

fun gather :: "nat \<Rightarrow> nat \<Rightarrow> buffer_data list \<Rightarrow> u8 list list" where
  "gather iovcnt nbyte [] = []"
| "gather iovcnt nbyte (d # ds) =
     (if iovcnt < MAX_CHUNKS \<and> nbyte < MAX_FLUSH
      then unflushed d # gather (iovcnt + 1) (nbyte + (bd_cp d - bd_sp d)) ds else [])"

text \<open>Freeing what was written; the queue is never empty with bytes left to free, and the source only logs if it is.\<close>

fun drop_written :: "nat \<Rightarrow> buffer_data list \<Rightarrow> buffer_data list" where
  "drop_written written [] = []"
| "drop_written written (d # ds) =
     (if written = 0 then d # ds
      else if written < bd_cp d - bd_sp d then d\<lparr>bd_sp := bd_sp d + written\<rparr> # ds
      else drop_written (written - (bd_cp d - bd_sp d)) ds)"

definition status_of :: "buffer \<Rightarrow> buffer_status" where
  "status_of b = (if b_list b = [] then BUFFER_EMPTY else BUFFER_PENDING)"

definition buffer_flush_available :: "io \<Rightarrow> buffer \<times> desc \<Rightarrow> (buffer \<times> desc) \<times> buffer_status" where
  "buffer_flush_available io = (\<lambda>(b, fd).
     let iov = concat (gather 0 0 (b_list b))
     in if iov = [] then ((b, fd), BUFFER_EMPTY)
        else case sys_write io iov fd of
            (fd, None) \<Rightarrow> ((b, fd), if ERRNO_IO_RETRY (fd_errno fd) then BUFFER_PENDING else BUFFER_ERROR)
          | (fd, Some written) \<Rightarrow>
              let b = b\<lparr>b_list := drop_written written (b_list b)\<rparr> in ((b, fd), status_of b))"

text \<open>
  The head of the queue is the same chunk as before exactly if none was freed. Each turn takes the next
  outcome of a write.
\<close>

fun flush_loop :: "io list \<Rightarrow> buffer \<times> desc \<Rightarrow> ((buffer \<times> desc) \<times> buffer_status) res" where
  "flush_loop [] st = Inl Diverged"
| "flush_loop (io # ios) st =
     (case buffer_flush_available io st of
        (st', ret) \<Rightarrow>
          if ret \<noteq> BUFFER_PENDING then Inr (st', ret)
          else let ds = b_list (fst st); ds' = b_list (fst st')
               in if length ds' = length ds \<and> bd_sp (hd ds') = bd_sp (hd ds) \<and> fd_errno (snd st') \<noteq> EINTR
                  then Inr (st', ret)
                  else flush_loop ios st')"

definition buffer_flush_all :: "io list \<Rightarrow> buffer \<times> desc \<Rightarrow> ((buffer \<times> desc) \<times> buffer_status) res" where
  "buffer_flush_all ios st = (if b_list (fst st) = [] then Inr (st, BUFFER_EMPTY) else flush_loop ios st)"

definition buffer_write :: "io \<Rightarrow> u8 list \<Rightarrow> buffer \<times> desc \<Rightarrow> ((buffer \<times> desc) \<times> buffer_status) res" where
  "buffer_write io bytes = (\<lambda>(b, fd).
     case (if b_list b \<noteq> [] then (fd, Some 0) else sys_write io bytes fd) of
       (fd, None) \<Rightarrow>
         if ERRNO_IO_RETRY (fd_errno fd)
         then and_then (if bytes \<noteq> [] then buffer_put bytes b else Inr b) (\<lambda>b. Inr ((b, fd), status_of b))
         else Inr ((b, fd), BUFFER_ERROR)
     | (fd, Some written) \<Rightarrow>
         and_then (if written < length bytes then buffer_put (drop written bytes) b else Inr b) (\<lambda>b. Inr ((b, fd), status_of b)))"

section \<open>Filling a window\<close>

text \<open>The characters of a chunk that are displayed, from position \<open>cp\<close>, with the column and the lines left.\<close>

fun window_scan :: "int \<Rightarrow> u8 list \<Rightarrow> nat \<Rightarrow> int \<Rightarrow> int \<Rightarrow> nat \<times> int \<times> int" where
  "window_scan width [] cp column height = (cp, column, height)"
| "window_scan width (c # cs) cp column height =
     (if height > 0
      then if c = 13 then window_scan width cs (cp + 1) 1 height
           else if c = 10 \<or> column = width then window_scan width cs (cp + 1) 1 (height - 1)
           else window_scan width cs (cp + 1) (column + 1) height
      else (cp, column, height))"

text \<open>The array of vectors has \<open>iov_alloc\<close> slots and is doubled when it is full.\<close>

fun window_loop :: "int \<Rightarrow> buffer_data list \<Rightarrow> int \<Rightarrow> int \<Rightarrow> nat \<Rightarrow> u8 list list \<Rightarrow> (buffer_data list \<times> nat \<times> u8 list list) res" where
  "window_loop width [] column height iov_alloc iov = Inr ([], iov_alloc, iov)"
| "window_loop width (d # ds) column height iov_alloc iov =
     (if height > 0
      then case window_scan width (unflushed d) (bd_sp d) column height of
          (cp, column, height) \<Rightarrow>
            and_then (if length iov < iov_alloc then Inr () else Inl OutOfBounds) (\<lambda>_.
            let iov = iov @ [take (cp - bd_sp d) (unflushed d)];
                iov_alloc = (if length iov = iov_alloc then 2 * iov_alloc else iov_alloc)
            in and_then (window_loop width ds column height iov_alloc iov) (\<lambda>(ds, r).
                 Inr (d\<lparr>bd_sp := cp\<rparr> # ds, r)))
      else Inr (d # ds, iov_alloc, iov))"

text \<open>The vectors are written in batches of at most \<open>iov_max\<close>, until one fails; how much a write took is not looked at.\<close>

fun write_batches :: "nat \<Rightarrow> io list \<Rightarrow> u8 list list \<Rightarrow> desc \<Rightarrow> (desc \<times> bool) res" where
  "write_batches iov_max ios [] fd = Inr (fd, True)"
| "write_batches iov_max [] (v # vs) fd = Inl Diverged"
| "write_batches iov_max (io # ios) (v # vs) fd =
     (case sys_write io (concat (take iov_max (v # vs))) fd of
        (fd, None) \<Rightarrow> Inr (fd, False)
      | (fd, Some n) \<Rightarrow> write_batches iov_max ios (drop iov_max (v # vs)) fd)"

definition more :: "u8 list" where
  "more = map (\<lambda>c. of_nat (of_char c)) '' --More-- '' @ [0]"

definition erase :: "u8 list" where
  "erase = replicate 10 8 @ replicate 10 32 @ replicate 10 8"

definition buffer_flush_window :: "nat \<Rightarrow> io list \<Rightarrow> int \<Rightarrow> int \<Rightarrow> bool \<Rightarrow> bool \<Rightarrow> buffer \<times> desc \<Rightarrow>
    ((buffer \<times> desc) \<times> buffer_status) res" where
  "buffer_flush_window iov_max ios width height erase_flag no_more_flag = (\<lambda>(b, fd).
     if b_list b = [] then Inr ((b, fd), BUFFER_EMPTY)
     else let height = (if height < 1 then 1 else if height \<ge> 2 then height - 1 else height);
              width = (if width < 1 then 1 else width) in
     and_then (if length (b_list b) = 1 then Inr 3
               else if height * (width + 2) > INT_MAX then Inl IntOverflow
               else Inr (nat (height * (width + 2)) div b_size b + 10)) (\<lambda>iov_alloc.
     let iov = (if erase_flag then [erase] else []) in
     and_then (window_loop width (b_list b) 1 height iov_alloc iov) (\<lambda>(ds, iov_alloc, iov).
     let is_more = (bd_sp (last ds) < bd_cp (last ds) \<and> \<not> no_more_flag) in
     and_then (if is_more \<and> \<not> length iov < iov_alloc then Inl OutOfBounds else Inr (if is_more then iov @ [more] else iov)) (\<lambda>iov.
     and_then (write_batches iov_max ios iov fd) (\<lambda>(fd, ok).
       let b = b\<lparr>b_list := dropWhile (\<lambda>d. bd_sp d = bd_cp d) ds\<rparr>
       in Inr ((b, fd), if ok then status_of b else BUFFER_ERROR))))))"

end
