(* ===== verification/BufferProps.thy ===== *)
theory BufferProps
  imports Buffer
begin

text \<open>
  What an output buffer promises: the bytes the kernel took so far followed by the bytes in the
  buffer are the bytes that were put in, in order, whatever the kernel does with the writes.
\<close>

section \<open>Invariant\<close>

definition chunk_ok :: "nat \<Rightarrow> buffer_data \<Rightarrow> bool" where
  "chunk_ok sz d \<longleftrightarrow> bd_sp d < bd_cp d \<and> bd_cp d \<le> sz"

definition buf_ok :: "buffer \<Rightarrow> bool" where
  "buf_ok b \<longleftrightarrow> 0 < b_size b \<and> list_all (chunk_ok (b_size b)) (b_list b)"

definition queued :: "buffer_data list \<Rightarrow> u8 list" where
  "queued ds = concat (map unflushed ds)"

abbreviation pending :: "buffer \<Rightarrow> u8 list" where
  "pending b \<equiv> queued (b_list b)"

lemma queued_simps [simp]: "queued [] = []" "queued (d # ds) = unflushed d @ queued ds" "queued (ds @ es) = queued ds @ queued es"
  by (simp_all add: queued_def)

lemma length_unflushed [simp]: "length (unflushed d) = bd_cp d - bd_sp d"
  by (simp add: unflushed_def)

lemma unflushed_nonempty: "chunk_ok sz d \<Longrightarrow> unflushed d \<noteq> []"
  by (auto simp: chunk_ok_def simp flip: length_0_conv)

lemma queued_nonempty: "list_all (chunk_ok sz) ds \<Longrightarrow> queued ds = [] \<longleftrightarrow> ds = []"
  by (cases ds) (auto dest: unflushed_nonempty)

section \<open>Putting\<close>

lemma put_chunk:
  assumes ok: "buf_ok b" and bytes: "bytes \<noteq> []"
    and b1: "b1 = (if b_list b = [] \<or> bd_cp (last (b_list b)) = b_size b then buffer_add b else b)"
    and chunk: "chunk = (if length bytes \<le> b_size b1 - bd_cp (last (b_list b1)) then length bytes else b_size b1 - bd_cp (last (b_list b1)))"
    and b2: "b2 = b1\<lparr>b_list := butlast (b_list b1) @ [(last (b_list b1))\<lparr>bd_data := bd_data (last (b_list b1)) @ take chunk bytes\<rparr>]\<rparr>"
  shows "0 < chunk \<and> buf_ok b2 \<and> pending b2 = pending b @ take chunk bytes \<and> b_size b2 = b_size b"
proof -
  have sz: "0 < b_size b" and all: "list_all (chunk_ok (b_size b)) (b_list b)" using ok by (auto simp: buf_ok_def)
  obtain ds d where d: "b_list b1 = ds @ [d]" "list_all (chunk_ok (b_size b)) ds" "bd_sp d \<le> bd_cp d" "bd_cp d < b_size b"
    "queued (ds @ [d]) = pending b" "b_size b1 = b_size b"
  proof (cases "b_list b = [] \<or> bd_cp (last (b_list b)) = b_size b")
    case True
    then show ?thesis using that [of "b_list b" "\<lparr>bd_data = [], bd_sp = 0\<rparr>"] b1 all sz by (simp add: buffer_add_def unflushed_def)
  next
    case False
    then obtain ds d where "b_list b = ds @ [d]" by (metis append_butlast_last_id)
    then show ?thesis using that [of ds d] False b1 all by (auto simp: chunk_ok_def)
  qed
  have c: "0 < chunk" "bd_cp d + chunk \<le> b_size b" "chunk \<le> length bytes" using bytes d(1,4,6) chunk by auto
  let ?d = "d\<lparr>bd_data := bd_data d @ take chunk bytes\<rparr>"
  have "chunk_ok (b_size b) ?d" using c d(3) by (simp add: chunk_ok_def min_absorb2)
  moreover have "unflushed ?d = unflushed d @ take chunk bytes" using d(3) by (simp add: unflushed_def)
  ultimately show ?thesis using c d sz by (auto simp: b2 buf_ok_def)
qed

lemma put_loop_ok:
  assumes "buf_ok b" "length bytes \<le> turns"
  shows "\<exists>b'. put_loop turns bytes b = Inr b' \<and> buf_ok b' \<and> pending b' = pending b @ bytes"
  using assms
proof (induction turns bytes b rule: put_loop.induct)
  case (3 turns v va b)
  define b1 where "b1 = (if b_list b = [] \<or> bd_cp (last (b_list b)) = b_size b then buffer_add b else b)"
  define chunk where "chunk = (if length (v # va) \<le> b_size b1 - bd_cp (last (b_list b1)) then length (v # va) else b_size b1 - bd_cp (last (b_list b1)))"
  define b2 where "b2 = b1\<lparr>b_list := butlast (b_list b1) @ [(last (b_list b1))\<lparr>bd_data := bd_data (last (b_list b1)) @ take chunk (v # va)\<rparr>]\<rparr>"
  have p: "0 < chunk" "buf_ok b2" "pending b2 = pending b @ take chunk (v # va)"
    using put_chunk [OF 3(2) _ b1_def chunk_def b2_def] by auto
  have "put_loop (Suc turns) (v # va) b = put_loop turns (drop chunk (v # va)) b2"
    by (simp only: put_loop.simps Let_def b1_def [symmetric] chunk_def [symmetric] b2_def [symmetric])
  moreover have "\<exists>b'. put_loop turns (drop chunk (v # va)) b2 = Inr b' \<and> buf_ok b' \<and> pending b' = pending b2 @ drop chunk (v # va)"
    using p 3(3) by (intro 3(1) [OF b1_def refl chunk_def, folded b2_def]) auto
  ultimately show ?case using p(3) by auto
qed auto

lemma buffer_put_ok: "buf_ok b \<Longrightarrow> \<exists>b'. buffer_put bytes b = Inr b' \<and> buf_ok b' \<and> pending b' = pending b @ bytes"
  by (simp add: buffer_put_def put_loop_ok)

section \<open>Flushing\<close>

lemma gather_prefix: "\<exists>k. concat (gather c n ds) = take k (queued ds)"
proof (induction c n ds rule: gather.induct)
  case (2 c n d ds)
  show ?case
  proof (cases "c < MAX_CHUNKS \<and> n < MAX_FLUSH")
    case True
    with 2 obtain k where "concat (gather (c + 1) (n + (bd_cp d - bd_sp d)) ds) = take k (queued ds)" by auto
    with True show ?thesis by (intro exI [of _ "length (unflushed d) + k"]) simp
  qed (auto intro: exI [of _ 0])
qed simp

lemma gather_nonempty: "list_all (chunk_ok sz) ds \<Longrightarrow> ds \<noteq> [] \<Longrightarrow> concat (gather 0 0 ds) \<noteq> []"
  by (cases ds) (auto simp: MAX_CHUNKS_def MAX_FLUSH_def dest: unflushed_nonempty)

lemma drop_written_queued:
  assumes "list_all (chunk_ok sz) ds"
  shows "queued (drop_written n ds) = drop n (queued ds)" "list_all (chunk_ok sz) (drop_written n ds)"
  using assms
proof (induction n ds rule: drop_written.induct)
  case (2 n d ds)
  {
    case 1
    then show ?case using 2 by (auto simp: unflushed_def chunk_ok_def add.commute)
  next
    case 2
    then show ?case using "2.IH" by (auto simp: chunk_ok_def)
  }
qed simp_all

definition conserved :: "buffer \<times> desc \<Rightarrow> buffer \<times> desc \<Rightarrow> bool" where
  "conserved st st' \<longleftrightarrow> buf_ok (fst st') \<and> fd_out (snd st') @ pending (fst st') = fd_out (snd st) @ pending (fst st) \<and>
     length (pending (fst st')) \<le> length (pending (fst st))"

text \<open>One write: what it may have done, and when it has made progress.\<close>

fun moves :: "io \<Rightarrow> bool" where
  "moves (Wrote n) \<longleftrightarrow> n > 0"
| "moves (Failed e) \<longleftrightarrow> e \<noteq> EINTR"

lemma flush_available_ok:
  assumes "buf_ok b"
  shows "conserved (b, fd) (fst (buffer_flush_available io (b, fd)))"
    "snd (buffer_flush_available io (b, fd)) = BUFFER_PENDING \<Longrightarrow> b_list (fst (fst (buffer_flush_available io (b, fd)))) \<noteq> []"
    "snd (buffer_flush_available io (b, fd)) = BUFFER_EMPTY \<Longrightarrow> b_list (fst (fst (buffer_flush_available io (b, fd)))) = []"
    "io = Wrote (Suc n) \<Longrightarrow> b_list b \<noteq> [] \<Longrightarrow> length (pending (fst (fst (buffer_flush_available io (b, fd))))) < length (pending b)"
proof -
  have all: "list_all (chunk_ok (b_size b)) (b_list b)" using assms by (simp add: buf_ok_def)
  obtain k where k: "concat (gather 0 0 (b_list b)) = take k (pending b)" using gather_prefix by blast
  have ne: "b_list b \<noteq> [] \<Longrightarrow> take k (pending b) \<noteq> []" using gather_nonempty [OF all] k by simp
  have e: "take k (pending b) = [] \<longleftrightarrow> b_list b = []" using ne by auto
  have d: "queued (drop_written n (b_list b)) = drop n (pending b)" "list_all (chunk_ok (b_size b)) (drop_written n (b_list b))" for n
    using drop_written_queued [OF all] by auto
  have t: "take n (take k (pending b)) @ drop (min n (min k (length (pending b)))) (pending b) = pending b" for n
    by (simp add: min_def)
  note defs = buffer_flush_available_def Let_def sys_write_def k status_of_def
  show "conserved (b, fd) (fst (buffer_flush_available io (b, fd)))"
    using assms d t by (cases io) (auto simp: defs conserved_def buf_ok_def min.commute)
  show "snd (buffer_flush_available io (b, fd)) = BUFFER_PENDING \<Longrightarrow> b_list (fst (fst (buffer_flush_available io (b, fd)))) \<noteq> []"
    using e by (cases io) (auto simp: defs split: if_splits)
  show "snd (buffer_flush_available io (b, fd)) = BUFFER_EMPTY \<Longrightarrow> b_list (fst (fst (buffer_flush_available io (b, fd)))) = []"
    using e by (cases "b_list b = []"; cases io) (simp_all add: defs del: concat_eq_Nil_conv split: if_splits)
  show "length (pending (fst (fst (buffer_flush_available io (b, fd))))) < length (pending b)" if "io = Wrote (Suc n)" "b_list b \<noteq> []"
    using ne [OF that(2)] e that d by (auto simp: defs min_def simp del: concat_eq_Nil_conv)
qed

lemma flush_stuck:
  assumes "b_list b \<noteq> []" "buf_ok b" "snd (buffer_flush_available (Failed e) (b, fd)) = BUFFER_PENDING"
  shows "buffer_flush_available (Failed e) (b, fd) = ((b, fd\<lparr>fd_errno := e\<rparr>), BUFFER_PENDING)"
  using assms by (auto simp: buffer_flush_available_def Let_def sys_write_def split: if_splits)

lemma conserved_trans: "conserved s t \<Longrightarrow> conserved t u \<Longrightarrow> conserved s u"
  by (simp add: conserved_def)

lemma conserved_refl: "buf_ok (fst st) \<Longrightarrow> conserved st st"
  by (simp add: conserved_def)

text \<open>
  Flushing everything returns as soon as the kernel has made more moves than there are bytes: each move either takes
  bytes, or ends the loop. An interrupted write is no move, and neither is one of zero bytes, after which
  the source looks at an old \<open>errno\<close>.
\<close>

lemma flush_loop_ok:
  assumes "buf_ok (fst st)" "length (pending (fst st)) < length (filter moves ios)"
  shows "\<exists>st' ret. flush_loop ios st = Inr (st', ret) \<and> conserved st st' \<and> (ret = BUFFER_EMPTY \<longrightarrow> b_list (fst st') = [])"
  using assms
proof (induction ios arbitrary: st)
  case (Cons io ios)
  obtain b fd where st: "st = (b, fd)" by (cases st)
  obtain st' ret where f: "buffer_flush_available io st = (st', ret)" by (cases "buffer_flush_available io st")
  have ok: "buf_ok b" using Cons.prems(1) st by simp
  have c: "conserved st st'" and e: "ret = BUFFER_EMPTY \<longrightarrow> b_list (fst st') = []"
    using flush_available_ok(1,3) [OF ok] f st by (metis fst_conv snd_conv)+
  show ?case
  proof (cases "ret \<noteq> BUFFER_PENDING \<or> (length (b_list (fst st')) = length (b_list b) \<and> bd_sp (hd (b_list (fst st'))) = bd_sp (hd (b_list b)) \<and> fd_errno (snd st') \<noteq> EINTR)")
    case True
    then have "flush_loop (io # ios) st = Inr (st', ret)" using f st by (simp add: Let_def)
    then show ?thesis using c e by simp
  next
    case False
    have p: "ret = BUFFER_PENDING" using False by simp
    have ne: "b_list b \<noteq> []" using p f st by (auto simp: buffer_flush_available_def split: if_splits)
    have "length (pending (fst st')) < length (filter moves ios)"
    proof (cases io)
      case (Wrote n)
      show ?thesis
      proof (cases n)
        case 0
        then show ?thesis using Wrote Cons.prems(2) c by (simp add: conserved_def)
      next
        case (Suc m)
        then show ?thesis using Wrote Cons.prems(2) flush_available_ok(4) [OF ok _ ne, where io = io and n = m and fd = fd] f st by auto
      qed
    next
      case (Failed x)
      have s: "st' = (b, fd\<lparr>fd_errno := x\<rparr>)" using flush_stuck [OF ne ok, of x fd] p f st Failed by auto
      then have "x = EINTR" using False p by auto
      then show ?thesis using Failed Cons.prems(2) s st by simp
    qed
    moreover have "buf_ok (fst st')" using c by (simp add: conserved_def)
    ultimately obtain st'' r where "flush_loop ios st' = Inr (st'', r)" "conserved st' st''" "r = BUFFER_EMPTY \<longrightarrow> b_list (fst st'') = []"
      using Cons.IH by blast
    moreover have "flush_loop (io # ios) st = flush_loop ios st'" using False f st by (auto simp: Let_def)
    ultimately show ?thesis using c conserved_trans by auto
  qed
qed simp

lemma flush_all_ok:
  assumes "buf_ok (fst st)" "length (pending (fst st)) < length (filter moves ios)"
  shows "\<exists>st' ret. buffer_flush_all ios st = Inr (st', ret) \<and> conserved st st'"
proof (cases "b_list (fst st) = []")
  case True
  then show ?thesis using conserved_refl [OF assms(1)] by (auto simp: buffer_flush_all_def)
next
  case False
  then show ?thesis using flush_loop_ok [OF assms] by (auto simp: buffer_flush_all_def)
qed

text \<open>Whatever the kernel does, the loop keeps the bytes, or it has not returned when the given outcomes are used up.\<close>

lemma flush_loop_safe:
  assumes "buf_ok (fst st)"
  shows "case flush_loop ios st of Inl e \<Rightarrow> e = Diverged | Inr (st', ret) \<Rightarrow> conserved st st'"
  using assms
proof (induction ios arbitrary: st)
  case (Cons io ios)
  obtain b fd where st: "st = (b, fd)" by (cases st)
  obtain st' ret where f: "buffer_flush_available io st = (st', ret)" by (cases "buffer_flush_available io st")
  have c: "conserved st st'" using flush_available_ok(1) [of b fd io] Cons.prems f st by simp
  have "case flush_loop ios st' of Inl e \<Rightarrow> e = Diverged | Inr (st'', ret) \<Rightarrow> conserved st st''"
    using Cons.IH [of st'] c conserved_trans [OF c] by (auto simp: conserved_def [of st st'] split: sum.splits)
  then show ?case using f st c by (auto simp: Let_def)
qed simp

lemma flush_all_safe:
  assumes "buf_ok (fst st)"
  shows "case buffer_flush_all ios st of Inl e \<Rightarrow> e = Diverged | Inr (st', ret) \<Rightarrow> conserved st st'"
  using flush_loop_safe [OF assms, of ios] conserved_refl [OF assms] by (simp add: buffer_flush_all_def)

lemma buffer_write_ok:
  assumes "buf_ok b"
  shows "\<exists>b' fd' ret. buffer_write io bytes (b, fd) = Inr ((b', fd'), ret) \<and> buf_ok b' \<and>
    fd_out fd' @ pending b' = fd_out fd @ pending b @ (if ret = BUFFER_ERROR then [] else bytes)"
proof -
  have put: "\<exists>b'. (if n < length bytes then buffer_put (drop n bytes) b else Inr b) = Inr b' \<and> buf_ok b' \<and> pending b' = pending b @ drop n bytes" for n
    using buffer_put_ok [OF assms, of "drop n bytes"] assms by auto
  have s: "status_of x \<noteq> BUFFER_ERROR" for x by (simp add: status_of_def)
  show ?thesis
  proof (cases "b_list b \<noteq> []")
    case True
    obtain b' where "(if 0 < length bytes then buffer_put (drop 0 bytes) b else Inr b) = Inr b'" "buf_ok b'" "pending b' = pending b @ bytes"
      using put [of 0] by auto
    then show ?thesis using True s by (intro exI [of _ b'] exI [of _ fd] exI [of _ "status_of b'"]) (simp add: buffer_write_def)
  next
    case False
    show ?thesis
    proof (cases io)
      case (Wrote n)
      let ?m = "min n (length bytes)"
      obtain b' where "(if ?m < length bytes then buffer_put (drop ?m bytes) b else Inr b) = Inr b'" "buf_ok b'" "pending b' = pending b @ drop ?m bytes"
        using put [of ?m] by auto
      then show ?thesis using False Wrote s
        by (intro exI [of _ b'] exI [of _ "fd\<lparr>fd_out := fd_out fd @ take n bytes\<rparr>"] exI [of _ "status_of b'"])
          (simp add: buffer_write_def sys_write_def min_def split: if_splits)
    next
      case (Failed e)
      obtain b' where "(if 0 < length bytes then buffer_put (drop 0 bytes) b else Inr b) = Inr b'" "buf_ok b'" "pending b' = pending b @ bytes"
        using put [of 0] by auto
      then show ?thesis using False Failed s assms
        by (intro exI [of _ "if ERRNO_IO_RETRY e then b' else b"] exI [of _ "fd\<lparr>fd_errno := e\<rparr>"]
            exI [of _ "if ERRNO_IO_RETRY e then status_of b' else BUFFER_ERROR"]) (auto simp: buffer_write_def sys_write_def split: if_splits)
    qed
  qed
qed

section \<open>Sequences of calls\<close>

datatype call = Put "u8 list" | Write io "u8 list" | Flush io | FlushAll "io list"

text \<open>A call, with the bytes that it accepted: a write that fails for good accepts none.\<close>

fun exec :: "call \<Rightarrow> buffer \<times> desc \<Rightarrow> ((buffer \<times> desc) \<times> u8 list) res" where
  "exec (Put bytes) (b, fd) = and_then (buffer_put bytes b) (\<lambda>b. Inr ((b, fd), bytes))"
| "exec (Write io bytes) st =
     and_then (buffer_write io bytes st) (\<lambda>(st, ret). Inr (st, if ret = BUFFER_ERROR then [] else bytes))"
| "exec (Flush io) st = Inr (fst (buffer_flush_available io st), [])"
| "exec (FlushAll ios) st = and_then (buffer_flush_all ios st) (\<lambda>(st, ret). Inr (st, []))"

fun run :: "call list \<Rightarrow> buffer \<times> desc \<Rightarrow> ((buffer \<times> desc) \<times> u8 list) res" where
  "run [] st = Inr (st, [])"
| "run (c # cs) st = and_then (exec c st) (\<lambda>(st, a). and_then (run cs st) (\<lambda>(st, as). Inr (st, a @ as)))"

text \<open>The bytes a list of calls offers, an upper bound of the bytes in the buffer.\<close>

fun offered :: "call list \<Rightarrow> nat" where
  "offered [] = 0"
| "offered (Put bytes # cs) = length bytes + offered cs"
| "offered (Write io bytes # cs) = length bytes + offered cs"
| "offered (c # cs) = offered cs"

text \<open>Every flush of everything meets a kernel that moves often enough for \<open>n\<close> bytes.\<close>

fun served :: "nat \<Rightarrow> call list \<Rightarrow> bool" where
  "served n [] \<longleftrightarrow> True"
| "served n (FlushAll ios # cs) \<longleftrightarrow> n < length (filter moves ios) \<and> served n cs"
| "served n (c # cs) \<longleftrightarrow> served n cs"

lemma buffer_exec_ok:
  assumes "buf_ok (fst st)" "served n (c # cs)" "length (fd_out (snd st) @ pending (fst st)) + offered (c # cs) \<le> n"
  shows "\<exists>st' a. exec c st = Inr (st', a) \<and> buf_ok (fst st') \<and>
    fd_out (snd st') @ pending (fst st') = fd_out (snd st) @ pending (fst st) @ a \<and>
    served n cs \<and> length (fd_out (snd st') @ pending (fst st')) + offered cs \<le> n"
proof -
  obtain b fd where st: "st = (b, fd)" by (cases st)
  have ok: "buf_ok b" using assms(1) st by simp
  show ?thesis
  proof (cases c)
    case (Put bytes)
    then show ?thesis using buffer_put_ok [OF ok, of bytes] assms st by auto
  next
    case (Write io bytes)
    obtain b' fd' ret where w: "buffer_write io bytes (b, fd) = Inr ((b', fd'), ret)" "buf_ok b'"
      "fd_out fd' @ pending b' = fd_out fd @ pending b @ (if ret = BUFFER_ERROR then [] else bytes)"
      using buffer_write_ok [OF ok, of io bytes fd] by blast
    show ?thesis using w(1,2) Write assms st by (simp add: w(3) del: length_append) simp
  next
    case (Flush io)
    then show ?thesis using flush_available_ok(1) [OF ok, where io = io and fd = fd] assms st
      by (auto simp: conserved_def simp flip: length_append)
  next
    case (FlushAll ios)
    have "length (pending b) < length (filter moves ios)" using assms(2,3) FlushAll st by simp
    then show ?thesis using flush_all_ok [of "(b, fd)" ios] ok FlushAll assms(2,3) st by (auto simp: conserved_def simp flip: length_append)
  qed
qed

lemma buffer_run_ok:
  assumes "buf_ok (fst st)" "served n cs" "length (fd_out (snd st) @ pending (fst st)) + offered cs \<le> n"
  shows "\<exists>st' a. run cs st = Inr (st', a) \<and> buf_ok (fst st') \<and> fd_out (snd st') @ pending (fst st') = fd_out (snd st) @ pending (fst st) @ a"
  using assms
proof (induction cs arbitrary: st)
  case (Cons c cs)
  obtain st1 a where 1: "exec c st = Inr (st1, a)" "buf_ok (fst st1)" "served n cs"
    "fd_out (snd st1) @ pending (fst st1) = fd_out (snd st) @ pending (fst st) @ a"
    "length (fd_out (snd st1) @ pending (fst st1)) + offered cs \<le> n"
    using buffer_exec_ok [OF Cons.prems] by blast
  obtain st2 as where 2: "run cs st1 = Inr (st2, as)" "buf_ok (fst st2)" "fd_out (snd st2) @ pending (fst st2) = fd_out (snd st1) @ pending (fst st1) @ as"
    using Cons.IH [OF 1(2,3,5)] by blast
  have "fd_out (snd st2) @ pending (fst st2) = fd_out (snd st) @ pending (fst st) @ a @ as"
    using 1(4) 2(3) by (metis append.assoc)
  then show ?case using 1(1) 2(1,2) by simp
qed simp

text \<open>Without that, a call that flushes everything may not return, but nothing else can happen.\<close>

definition keeps :: "buffer \<times> desc \<Rightarrow> ((buffer \<times> desc) \<times> u8 list) res \<Rightarrow> bool" where
  "keeps st r \<longleftrightarrow> (case r of Inl e \<Rightarrow> e = Diverged
     | Inr (st', a) \<Rightarrow> buf_ok (fst st') \<and> fd_out (snd st') @ pending (fst st') = fd_out (snd st) @ pending (fst st) @ a)"

lemma buffer_exec_safe:
  assumes "buf_ok (fst st)"
  shows "keeps st (exec c st)"
proof (cases "\<exists>ios. c = FlushAll ios")
  case True
  then obtain ios where "c = FlushAll ios" by blast
  then show ?thesis using flush_all_safe [OF assms, of ios] by (auto simp: keeps_def conserved_def split: sum.splits)
next
  case False
  then have "served n [c]" for n by (cases c) auto
  from buffer_exec_ok [OF assms this, OF le_refl] show ?thesis by (auto simp: keeps_def)
qed

lemma buffer_run_safe:
  assumes "buf_ok (fst st)"
  shows "keeps st (run cs st)"
  using assms
proof (induction cs arbitrary: st)
  case Nil
  then show ?case by (simp add: keeps_def)
next
  case (Cons c cs)
  show ?case
  proof (cases "exec c st")
    case (Inl e)
    then show ?thesis using buffer_exec_safe [OF Cons.prems, of c] by (simp add: keeps_def)
  next
    case (Inr x)
    obtain st1 a where x: "x = (st1, a)" by (cases x)
    have 1: "buf_ok (fst st1)" "fd_out (snd st1) @ pending (fst st1) = fd_out (snd st) @ pending (fst st) @ a"
      using buffer_exec_safe [OF Cons.prems, of c] Inr x by (auto simp: keeps_def)
    show ?thesis
    proof (cases "run cs st1")
      case (Inl e)
      then show ?thesis using Cons.IH [OF 1(1)] Inr x by (simp add: keeps_def)
    next
      case (Inr y)
      obtain st2 as where y: "y = (st2, as)" by (cases y)
      have "buf_ok (fst st2)" "fd_out (snd st2) @ pending (fst st2) = fd_out (snd st1) @ pending (fst st1) @ as"
        using Cons.IH [OF 1(1)] Inr y by (auto simp: keeps_def)
      then have "buf_ok (fst st2)" "fd_out (snd st2) @ pending (fst st2) = fd_out (snd st) @ pending (fst st) @ a @ as"
        using 1(2) by (simp, metis append.assoc)
      then show ?thesis using \<open>exec c st = Inr x\<close> Inr x y by (simp add: keeps_def)
    qed
  qed
qed

lemma buf_ok_new: "0 < pgsz \<Longrightarrow> buf_ok (buffer_new pgsz sz)" "pending (buffer_new pgsz sz) = []"
  by (simp_all add: buf_ok_def buffer_new_def)



end
