(* ===== verification/Vector.thy ===== *)
theory Vector
  imports Prelude
begin

text \<open>
  Vectors (\<^verbatim>\<open>lib/vector.c\<close>): an array of data pointers that doubles when it runs short, with the number of
  allocated slots (the length of the array) and of active ones. The counters are 32-bit unsigned; a doubling that wraps
  around makes the code clear memory it does not have.
\<close>

section \<open>Operations\<close>

record 'a vector =
  v_active :: nat
  v_index :: "'a option list"

abbreviation v_alloced :: "'a vector \<Rightarrow> nat" where
  "v_alloced v \<equiv> length (v_index v)"

definition vector_init :: "nat \<Rightarrow> 'a vector" where
  "vector_init n = (let n = (if n = 0 then 1 else n) in \<lparr>v_active = 0, v_index = replicate n None\<rparr>)"

definition vector_copy :: "'a vector \<Rightarrow> 'a vector" where
  "vector_copy v = \<lparr>v_active = v_active v, v_index = v_index v\<rparr>"

text \<open>From a vector of at least one slot, 32 doublings pass every 32-bit number.\<close>

fun ensure_loop :: "nat \<Rightarrow> nat \<Rightarrow> 'a vector \<Rightarrow> 'a vector res" where
  "ensure_loop 0 num v = Inl Diverged"
| "ensure_loop (Suc turns) num v =
     (if num < v_alloced v then Inr v
      else if 2 * v_alloced v \<ge> 2 ^ 32 then Inl OutOfBounds
      else let v = v\<lparr>v_index := v_index v @ replicate (v_alloced v) None\<rparr>
        in if v_alloced v \<le> num then ensure_loop turns num v else Inr v)"

definition vector_ensure :: "nat \<Rightarrow> 'a vector \<Rightarrow> 'a vector res" where
  "vector_ensure num v = ensure_loop 33 num v"

fun empty_slot_loop :: "'a option list \<Rightarrow> nat \<Rightarrow> nat \<Rightarrow> nat" where
  "empty_slot_loop [] i active = i"
| "empty_slot_loop (x # xs) i active = (if i < active then (if x = None then i else empty_slot_loop xs (i + 1) active) else i)"

definition vector_empty_slot :: "'a vector \<Rightarrow> nat" where
  "vector_empty_slot v = (if v_active v = 0 then 0 else empty_slot_loop (v_index v) 0 (v_active v))"

definition vector_set_index :: "nat \<Rightarrow> 'a option \<Rightarrow> 'a vector \<Rightarrow> ('a vector \<times> nat) res" where
  "vector_set_index i val v =
     and_then (vector_ensure i v) (\<lambda>v.
       let v = v\<lparr>v_index := (v_index v)[i := val]\<rparr>
       in Inr (if v_active v \<le> i then v\<lparr>v_active := i + 1\<rparr> else v, i))"

definition vector_set :: "'a option \<Rightarrow> 'a vector \<Rightarrow> ('a vector \<times> nat) res" where
  "vector_set val v =
     (let i = vector_empty_slot v
      in and_then (vector_ensure i v) (\<lambda>v.
           let v = v\<lparr>v_index := (v_index v)[i := val]\<rparr>
           in Inr (if v_active v \<le> i then v\<lparr>v_active := i + 1\<rparr> else v, i)))"

definition vector_lookup :: "nat \<Rightarrow> 'a vector \<Rightarrow> 'a option" where
  "vector_lookup i v = (if i \<ge> v_active v then None else v_index v ! i)"

definition vector_lookup_ensure :: "nat \<Rightarrow> 'a vector \<Rightarrow> ('a vector \<times> 'a option) res" where
  "vector_lookup_ensure i v = and_then (vector_ensure i v) (\<lambda>v. Inr (v, v_index v ! i))"

text \<open>The number of active slots after \<open>while (i && v->index[--i] == NULL && v->active--)\<close>.\<close>

fun unset_loop :: "'a option list \<Rightarrow> nat \<Rightarrow> nat \<Rightarrow> nat" where
  "unset_loop xs 0 active = active"
| "unset_loop xs (Suc i) active =
     (if xs ! i = None then (if active = 0 then 2 ^ 32 - 1 else unset_loop xs i (active - 1)) else active)"

definition vector_unset :: "nat \<Rightarrow> 'a vector \<Rightarrow> 'a vector" where
  "vector_unset i v =
     (if i \<ge> v_alloced v then v
      else let v = v\<lparr>v_index := (v_index v)[i := None]\<rparr>
        in if i + 1 = v_active v then v\<lparr>v_active := unset_loop (v_index v) i (v_active v - 1)\<rparr> else v)"

definition vector_count :: "'a vector \<Rightarrow> nat" where
  "vector_count v = length (filter (\<lambda>i. v_index v ! i \<noteq> None) [0..<v_active v])"

section \<open>Slots\<close>

lemma least_at: "P k \<Longrightarrow> \<exists>i. i = (LEAST i. P i) \<and> P i \<and> i \<le> k \<and> (\<forall>j<i. \<not> P j)" for k :: nat
  by (meson LeastI Least_le not_less_Least)

text \<open>
  What a user of a vector relies on: the slots are a partial function, which a set and an unset change at one place,
  and a set without an index takes the least free place. \<open>lim\<close> is the first number that is not an index.
\<close>

locale slots =
  fixes ok :: "'v \<Rightarrow> bool" and get :: "nat \<Rightarrow> 'v \<Rightarrow> 'a option" and set_at :: "nat \<Rightarrow> 'a option \<Rightarrow> 'v \<Rightarrow> ('v \<times> nat) res"
    and put :: "'a option \<Rightarrow> 'v \<Rightarrow> ('v \<times> nat) res" and unset :: "nat \<Rightarrow> 'v \<Rightarrow> 'v" and lim :: nat
  assumes set_at: "ok v \<Longrightarrow> i < lim \<Longrightarrow> \<exists>v'. set_at i (Some x) v = Inr (v', i) \<and> ok v' \<and> (\<forall>j. get j v' = (if j = i then Some x else get j v))"
    and put: "ok v \<Longrightarrow> get k v = None \<Longrightarrow> k < lim \<Longrightarrow> put (Some x) v = set_at (LEAST i. get i v = None) (Some x) v"
    and unset: "ok v \<Longrightarrow> ok (unset i v) \<and> (\<forall>j. get j (unset i v) = (if j = i then None else get j v))"
begin

lemma put_least:
  assumes "ok v" "get k v = None" "k < lim"
  shows "\<exists>v' i. put (Some x) v = Inr (v', i) \<and> ok v' \<and> i \<le> k \<and> get i v = None \<and> (\<forall>j<i. get j v \<noteq> None) \<and>
    (\<forall>j. get j v' = (if j = i then Some x else get j v))"
proof -
  obtain i where i: "i = (LEAST i. get i v = None)" "get i v = None" "i \<le> k" "\<forall>j<i. get j v \<noteq> None"
    using least_at [of "\<lambda>i. get i v = None" k, OF assms(2)] by blast
  have "i < lim" using i(3) assms(3) by simp
  from set_at [OF assms(1) this, of x] obtain v' where
    "set_at i (Some x) v = Inr (v', i)" "ok v'" "\<forall>j. get j v' = (if j = i then Some x else get j v)" by blast
  then show ?thesis using put [OF assms(1-3), of x] i by (metis (no_types, lifting))
qed

lemma put_unset:
  assumes "ok v" "get k v = None" "k < lim"
  shows "\<exists>v' i. put (Some x) v = Inr (v', i) \<and> get i v' = Some x \<and> get j (unset i v') = get j v"
proof -
  obtain v' i where "put (Some x) v = Inr (v', i)" "ok v'" "get i v = None" "\<forall>j. get j v' = (if j = i then Some x else get j v)"
    using put_least [OF assms, of x] by blast
  then show ?thesis using unset [of v' i] by auto
qed

end

definition vec_ok :: "'a vector \<Rightarrow> bool" where
  "vec_ok v \<longleftrightarrow> 0 < v_alloced v \<and> v_active v \<le> v_alloced v \<and> v_alloced v < 2 ^ 32 \<and>
     (0 < v_active v \<longrightarrow> v_index v ! (v_active v - 1) \<noteq> None) \<and> (\<forall>i. v_active v \<le> i \<and> i < v_alloced v \<longrightarrow> v_index v ! i = None)"

lemma ensure_loop_ok:
  assumes "0 < v_alloced v" "v_alloced v < 2 ^ 32" "num < 2 ^ 31" "num < v_alloced v * 2 ^ turns"
  shows "\<exists>k. ensure_loop (Suc turns) num v = Inr (v\<lparr>v_index := v_index v @ replicate k None\<rparr>) \<and> num < v_alloced v + k \<and> v_alloced v + k < 2 ^ 32"
  using assms
proof (induction turns arbitrary: v)
  case 0
  then show ?case by (auto intro: exI [of _ 0])
next
  case (Suc n)
  show ?case
  proof (cases "num < v_alloced v")
    case True
    then show ?thesis using Suc.prems by (intro exI [of _ 0]) simp
  next
    case False
    let ?v = "v\<lparr>v_index := v_index v @ replicate (v_alloced v) None\<rparr>"
    have "num < v_alloced ?v * 2 ^ n" using Suc.prems(4) by (simp add: algebra_simps)
    then obtain k where k: "ensure_loop (Suc n) num ?v = Inr (?v\<lparr>v_index := v_index ?v @ replicate k None\<rparr>)" "num < v_alloced ?v + k" "v_alloced ?v + k < 2 ^ 32"
      using Suc.IH [of ?v] Suc.prems(1,3) False by auto
    have "ensure_loop (Suc (Suc n)) num v = ensure_loop (Suc n) num ?v" using False Suc.prems(3) by (simp add: Let_def)
    then show ?thesis using k by (intro exI [of _ "v_alloced v + k"]) (simp add: replicate_add)
  qed
qed

lemma vector_ensure_ok:
  assumes "vec_ok v" "num < 2 ^ 31"
  shows "\<exists>k. vector_ensure num v = Inr (v\<lparr>v_index := v_index v @ replicate k None\<rparr>) \<and> num < v_alloced v + k \<and> v_alloced v + k < 2 ^ 32"
proof -
  have a: "0 < v_alloced v" "v_alloced v < 2 ^ 32" using assms(1) by (auto simp: vec_ok_def)
  have "num < 1 * 2 ^ (32 :: nat)" using assms(2) by simp
  also have "\<dots> \<le> v_alloced v * 2 ^ (32 :: nat)" using a(1) by (intro mult_right_mono) (simp_all add: Suc_le_eq)
  finally have "num < v_alloced v * 2 ^ (32 :: nat)" .
  moreover have "(33 :: nat) = Suc 32" by simp
  ultimately show ?thesis unfolding vector_ensure_def by (metis ensure_loop_ok [OF a assms(2), of 32])
qed

lemma lookup_at: "vec_ok v \<Longrightarrow> vector_lookup j v = (if j < v_alloced v then v_index v ! j else None)"
  by (auto simp: vector_lookup_def vec_ok_def)

lemma store_ok:
  assumes ok: "vec_ok v" and k: "i < v_alloced v + k" "v_alloced v + k < 2 ^ 32"
    and v1: "v1 = v\<lparr>v_index := (v_index v @ replicate k None)[i := Some x]\<rparr>"
    and v2: "v2 = (if v_active v1 \<le> i then v1\<lparr>v_active := i + 1\<rparr> else v1)"
  shows "vec_ok v2" "vector_lookup j v2 = (if j = i then Some x else vector_lookup j v)"
proof -
  show ok2: "vec_ok v2" using ok k by (auto simp: vec_ok_def v1 v2 nth_list_update nth_append)
  show "vector_lookup j v2 = (if j = i then Some x else vector_lookup j v)"
    using k unfolding lookup_at [OF ok2] lookup_at [OF ok] by (auto simp: v1 v2 nth_list_update nth_append)
qed

lemma vector_set_index_ok:
  assumes "vec_ok v" "i < 2 ^ 31"
  shows "\<exists>v'. vector_set_index i (Some x) v = Inr (v', i) \<and> vec_ok v' \<and> (\<forall>j. vector_lookup j v' = (if j = i then Some x else vector_lookup j v))"
proof -
  obtain k where k: "vector_ensure i v = Inr (v\<lparr>v_index := v_index v @ replicate k None\<rparr>)" "i < v_alloced v + k" "v_alloced v + k < 2 ^ 32"
    using vector_ensure_ok [OF assms] by blast
  define v1 where "v1 = v\<lparr>v_index := (v_index v @ replicate k None)[i := Some x]\<rparr>"
  define v2 where "v2 = (if v_active v1 \<le> i then v1\<lparr>v_active := i + 1\<rparr> else v1)"
  have "vector_set_index i (Some x) v = Inr (v2, i)" using k(1) by (simp add: vector_set_index_def Let_def v1_def v2_def)
  then show ?thesis using store_ok [OF assms(1) k(2,3) v1_def v2_def] by blast
qed

lemma empty_slot_loop_least:
  "\<exists>j. empty_slot_loop xs i active = i + j \<and> (\<forall>k<j. xs ! k \<noteq> None) \<and> j \<le> length xs \<and> (j = length xs \<or> i + j \<ge> active \<or> xs ! j = None)"
proof (induction xs arbitrary: i)
  case (Cons x xs)
  obtain j where j: "empty_slot_loop xs (i + 1) active = i + 1 + j" "\<forall>k<j. xs ! k \<noteq> None" "j \<le> length xs"
    "j = length xs \<or> i + 1 + j \<ge> active \<or> xs ! j = None" using Cons.IH [of "i + 1"] by blast
  show ?case
  proof (cases "i < active \<and> x \<noteq> None")
    case True
    then show ?thesis using j by (intro exI [of _ "Suc j"]) (auto simp: nth_Cons split: nat.splits)
  qed (auto intro: exI [of _ 0])
qed simp

lemma empty_slot_least:
  assumes ok: "vec_ok v"
  shows "vector_empty_slot v = (LEAST i. vector_lookup i v = None)"
proof -
  obtain j where j: "vector_empty_slot v = j" "\<forall>k<j. v_index v ! k \<noteq> None" "j \<le> v_alloced v" "j = v_alloced v \<or> j \<ge> v_active v \<or> v_index v ! j = None"
    using empty_slot_loop_least [of "v_index v" 0 "v_active v"] by (cases "v_active v = 0") (auto simp: vector_empty_slot_def)
  have "vector_lookup j v = None" using j(4) ok by (auto simp: vector_lookup_def vec_ok_def)
  moreover have "vector_lookup k v \<noteq> None" if "k < j" for k using that j(2,3) lookup_at [OF ok, of k] by simp
  ultimately have "(LEAST i. vector_lookup i v = None) = j" by (intro Least_equality) (assumption, meson leI)
  then show ?thesis using j(1) by simp
qed

lemma vector_set_eq: "vec_ok v \<Longrightarrow> vector_set x v = vector_set_index (LEAST i. vector_lookup i v = None) x v"
  by (simp add: vector_set_def vector_set_index_def empty_slot_least Let_def)

lemma unset_loop_trims:
  assumes "i \<le> length xs"
  shows "unset_loop xs i i \<le> i" "0 < unset_loop xs i i \<longrightarrow> xs ! (unset_loop xs i i - 1) \<noteq> None" "\<forall>j. unset_loop xs i i \<le> j \<and> j < i \<longrightarrow> xs ! j = None"
  using assms by (induction i) (auto simp: less_Suc_eq)

lemma vector_unset_ok:
  assumes ok: "vec_ok v"
  shows "vec_ok (vector_unset i v) \<and> (\<forall>j. vector_lookup j (vector_unset i v) = (if j = i then None else vector_lookup j v))"
proof -
  have ok': "vec_ok (vector_unset i v)"
  proof (cases "i < v_alloced v \<and> i + 1 = v_active v")
    case True
    let ?xs = "(v_index v)[i := None]"
    let ?a = "unset_loop ?xs i i"
    have t: "?a \<le> i" "0 < ?a \<longrightarrow> ?xs ! (?a - 1) \<noteq> None" "\<And>j. ?a \<le> j \<and> j < i \<longrightarrow> ?xs ! j = None"
      using unset_loop_trims [of i ?xs] True by auto
    have "?xs ! j = None" if "?a \<le> j" "j < v_alloced v" for j
      using that t(3) [of j] ok True by (cases j i rule: linorder_cases) (auto simp: vec_ok_def nth_list_update)
    moreover have "v_active v - 1 = i" using conjunct2 [OF True] by linarith
    then have "vector_unset i v = v\<lparr>v_index := ?xs, v_active := ?a\<rparr>" using True by (auto simp: vector_unset_def Let_def)
    ultimately show ?thesis using True ok t(1,2) by (simp add: vec_ok_def)
  next
    case False
    then show ?thesis using ok by (auto simp: vector_unset_def vec_ok_def Let_def nth_list_update)
  qed
  have "vector_lookup j (vector_unset i v) = (if j = i then None else vector_lookup j v)" for j
    unfolding lookup_at [OF ok'] lookup_at [OF ok] by (auto simp: vector_unset_def Let_def nth_list_update)
  then show ?thesis using ok' by blast
qed

interpretation vec: slots vec_ok vector_lookup vector_set_index vector_set vector_unset "2 ^ 31"
  by unfold_locales (rule vector_set_index_ok vector_set_eq vector_unset_ok; assumption)+

section \<open>Sequences of calls\<close>

datatype 'a vop = VSet 'a | VSetIndex nat 'a | VUnset nat

fun vop_exec :: "'a vop \<Rightarrow> 'a vector \<Rightarrow> 'a vector res" where
  "vop_exec (VSet x) v = and_then (vector_set (Some x) v) (\<lambda>(v, _). Inr v)"
| "vop_exec (VSetIndex i x) v = and_then (vector_set_index i (Some x) v) (\<lambda>(v, _). Inr v)"
| "vop_exec (VUnset i) v = Inr (vector_unset i v)"

fun vop_run :: "'a vop list \<Rightarrow> 'a vector \<Rightarrow> 'a vector res" where
  "vop_run [] v = Inr v"
| "vop_run (c # cs) v = and_then (vop_exec c v) (vop_run cs)"

text \<open>The same on a partial function.\<close>

fun vop_spec :: "'a vop \<Rightarrow> (nat \<rightharpoonup> 'a) \<Rightarrow> (nat \<rightharpoonup> 'a)" where
  "vop_spec (VSet x) f = f((LEAST i. f i = None) \<mapsto> x)"
| "vop_spec (VSetIndex i x) f = f(i \<mapsto> x)"
| "vop_spec (VUnset i) f = f(i := None)"

fun vop_legal :: "'a vop \<Rightarrow> bool" where
  "vop_legal (VSetIndex i x) \<longleftrightarrow> i < 2 ^ 31"
| "vop_legal c \<longleftrightarrow> True"

lemma free_slot:
  assumes "finite (dom f)"
  shows "\<exists>k \<le> card (dom f). f k = None"
proof (rule ccontr)
  assume "\<not> (\<exists>k \<le> card (dom f). f k = None)"
  then have "{..card (dom f)} \<subseteq> dom f" by auto
  from card_mono [OF assms this] show False by simp
qed

lemma vop_exec_ok:
  assumes ok: "vec_ok v" and f: "\<And>i. vector_lookup i v = f i" and d: "finite (dom f)" "card (dom f) < 2 ^ 31" and l: "vop_legal c"
  shows "\<exists>v'. vop_exec c v = Inr v' \<and> vec_ok v' \<and> (\<forall>i. vector_lookup i v' = vop_spec c f i) \<and>
    finite (dom (vop_spec c f)) \<and> card (dom (vop_spec c f)) \<le> Suc (card (dom f))"
proof -
  have u: "finite (dom (f(i := y)))" "card (dom (f(i := y))) \<le> Suc (card (dom f))" for i y
    using d(1) card_insert_le_m1 card_Diff1_le [of "dom f" i] by (auto simp: card_insert_if)
  show ?thesis
  proof (cases c)
    case (VSet x)
    obtain k where k: "f k = None" "k < 2 ^ 31" using free_slot [OF d(1)] d(2) by auto
    let ?i = "LEAST i. f i = None"
    have "?i < 2 ^ 31" using Least_le [of "\<lambda>i. f i = None" k] k by simp
    from vec.set_at [OF ok this, of x] obtain v' where "vector_set_index ?i (Some x) v = Inr (v', ?i)" "vec_ok v'"
      "\<forall>j. vector_lookup j v' = (if j = ?i then Some x else vector_lookup j v)" by blast
    then show ?thesis using vector_set_eq [OF ok, of "Some x"] f u [of ?i "Some x"] VSet by (simp del: dom_fun_upd)
  next
    case (VSetIndex i x)
    obtain v' where "vector_set_index i (Some x) v = Inr (v', i)" "vec_ok v'" "\<forall>j. vector_lookup j v' = (if j = i then Some x else vector_lookup j v)"
      using vec.set_at [OF ok, of i x] l VSetIndex by auto
    then show ?thesis using f u [of i "Some x"] VSetIndex by (simp del: dom_fun_upd)
  next
    case (VUnset i)
    then show ?thesis using vec.unset [OF ok, of i] f u [of i None] by (simp del: dom_fun_upd)
  qed
qed

lemma vop_run_ok:
  assumes "vec_ok v" "\<And>i. vector_lookup i v = f i" "finite (dom f)" "card (dom f) + length cs \<le> 2 ^ 31" "list_all vop_legal cs"
  shows "\<exists>v'. vop_run cs v = Inr v' \<and> vec_ok v' \<and> (\<forall>i. vector_lookup i v' = fold vop_spec cs f i)"
  using assms
proof (induction cs arbitrary: v f)
  case (Cons c cs)
  have l: "vop_legal c" "list_all vop_legal cs" "card (dom f) < 2 ^ 31" using Cons.prems(4,5) by auto
  from vop_exec_ok [OF Cons.prems(1-3) l(3,1)] obtain v1 where v1: "vop_exec c v = Inr v1" "vec_ok v1"
    "\<And>i. vector_lookup i v1 = vop_spec c f i" "finite (dom (vop_spec c f))" "card (dom (vop_spec c f)) \<le> Suc (card (dom f))" by blast
  from Cons.IH [OF v1(2,3,4) _ l(2)] v1(1,5) Cons.prems(4) show ?case by auto
qed auto

lemma vec_ok_init: "n < 2 ^ 32 \<Longrightarrow> vec_ok (vector_init n)" "vector_lookup i (vector_init n) = None"
  by (auto simp: vec_ok_def vector_init_def vector_lookup_def Let_def)

lemma vector_count_eq: "vec_ok v \<Longrightarrow> vector_count v = card {i. vector_lookup i v \<noteq> None}"
proof -
  assume ok: "vec_ok v"
  have "{i. vector_lookup i v \<noteq> None} = {i. i < v_active v \<and> v_index v ! i \<noteq> None}" by (auto simp: vector_lookup_def)
  also have "\<dots> = set (filter (\<lambda>i. v_index v ! i \<noteq> None) [0..<v_active v])" by auto
  finally show ?thesis by (simp only: vector_count_def distinct_card distinct_filter distinct_upt)
qed

lemma active_is_last: "vec_ok v \<Longrightarrow> v_active v = k + 1 \<Longrightarrow> vector_lookup k v \<noteq> None"
  by (auto simp: vec_ok_def vector_lookup_def)

text \<open>C23: A vector is a partial function from slots to data. Over every sequence of sets, sets at an index below \<open>2\<^sup>31\<close> and unsets of a
  new vector, the calls return and a lookup finds what the same updates of a partial function give,
  where a set without an index takes the least free slot; the count is the number of used slots, and the number of
  active slots is one more than the last used slot.\<close>

theorem vector_refines_slots:
  assumes "n < 2 ^ 32" "length cs \<le> 2 ^ 31" "list_all vop_legal cs"
  shows "\<exists>v. vop_run cs (vector_init n) = Inr v \<and> (\<forall>i. vector_lookup i v = fold vop_spec cs Map.empty i) \<and>
    vector_count v = card (dom (fold vop_spec cs Map.empty)) \<and> (\<forall>k. v_active v = k + 1 \<longrightarrow> fold vop_spec cs Map.empty k \<noteq> None)"
proof -
  obtain v where v: "vop_run cs (vector_init n) = Inr v" "vec_ok v" "\<And>i. vector_lookup i v = fold vop_spec cs Map.empty i"
    using vop_run_ok [OF vec_ok_init(1) [OF assms(1)], of Map.empty cs] vec_ok_init(2) assms(2,3) by auto
  have "vector_count v = card (dom (fold vop_spec cs Map.empty))" using vector_count_eq [OF v(2)] v(3) by (simp add: dom_def)
  then show ?thesis using v active_is_last [OF v(2)] by metis
qed

theorem vector_refines_slots_witness:
  "\<exists>v. vop_run [VSet CHR ''a'', VSetIndex 5 CHR ''b'', VSet CHR ''c'', VUnset 0, VUnset 5] (vector_init 0) = Inr v \<and>
     vector_lookup 5 v = None \<and> vector_lookup 1 v = fold vop_spec [VSet CHR ''a'', VSetIndex 5 CHR ''b'', VSet CHR ''c'', VUnset 0, VUnset 5] Map.empty 1"
  using vector_refines_slots [of 0 "[VSet CHR ''a'', VSetIndex 5 CHR ''b'', VSet CHR ''c'', VUnset 0, VUnset 5]"] by auto

end
