(* ===== verification/Clock.thy ===== *)
theory Clock
  imports Prelude
begin

text \<open>
  The clocks of \<^verbatim>\<open>lib/thread.c\<close>: arithmetic on \<open>struct timeval\<close>, the relative time
  the timers run on, and the stabilised wall clock. Seconds and microseconds are integers
  (\<open>long\<close> does not overflow on the values a clock returns); \<open>timeval_elapsed\<close> returns
  an \<open>unsigned long\<close> and keeps its width. What the system clock returns is an argument,
  \<open>None\<close> for a failed call.
\<close>

section \<open>Time values\<close>

record timeval =
  tv_sec :: int
  tv_usec :: int

definition TIMER_SECOND_MICRO :: int where
  "TIMER_SECOND_MICRO = 1000000"

text \<open>The two loops of \<open>timeval_adjust\<close>.\<close>

function carry_loop :: "timeval \<Rightarrow> timeval" where
  "carry_loop a =
     (if tv_usec a \<ge> TIMER_SECOND_MICRO
      then carry_loop (a\<lparr>tv_sec := tv_sec a + 1, tv_usec := tv_usec a - TIMER_SECOND_MICRO\<rparr>) else a)"
  by pat_completeness auto
termination
  by (relation "measure (\<lambda>a. nat (tv_usec a))") (auto simp: TIMER_SECOND_MICRO_def)

function borrow_loop :: "timeval \<Rightarrow> timeval" where
  "borrow_loop a =
     (if tv_usec a < 0
      then borrow_loop (a\<lparr>tv_sec := tv_sec a - 1, tv_usec := tv_usec a + TIMER_SECOND_MICRO\<rparr>) else a)"
  by pat_completeness auto
termination
  by (relation "measure (\<lambda>a. nat (- tv_usec a))") (auto simp: TIMER_SECOND_MICRO_def)

declare carry_loop.simps [simp del] borrow_loop.simps [simp del]

definition timeval_adjust :: "timeval \<Rightarrow> timeval" where
  "timeval_adjust a =
     (let a = borrow_loop (carry_loop a)
      in if tv_sec a < 0 then a\<lparr>tv_sec := 0, tv_usec := 0\<rparr> else a)"

definition timeval_subtract :: "timeval \<Rightarrow> timeval \<Rightarrow> timeval" where
  "timeval_subtract a b =
     timeval_adjust \<lparr>tv_sec = tv_sec a - tv_sec b, tv_usec = tv_usec a - tv_usec b\<rparr>"

definition timeval_cmp :: "timeval \<Rightarrow> timeval \<Rightarrow> int" where
  "timeval_cmp a b =
     (if tv_sec a = tv_sec b then tv_usec a - tv_usec b else tv_sec a - tv_sec b)"

definition timeval_elapsed :: "timeval \<Rightarrow> timeval \<Rightarrow> u64" where
  "timeval_elapsed a b =
     of_int ((tv_sec a - tv_sec b) * TIMER_SECOND_MICRO + (tv_usec a - tv_usec b))"

section \<open>Clocks\<close>

text \<open>The clock variables of the file. \<open>relative_time\<close> is what the timers compare with.\<close>

record clock =
  recent_time :: timeval
  last_recent_time :: timeval
  relative_time :: timeval
  relative_time_base :: timeval
  timers_inited :: bool

definition zero_time :: timeval where
  "zero_time = \<lparr>tv_sec = 0, tv_usec = 0\<rparr>"

definition clock_init :: clock where
  "clock_init = \<lparr>recent_time = zero_time, last_recent_time = zero_time, relative_time = zero_time,
     relative_time_base = zero_time, timers_inited = False\<rparr>"

definition quagga_gettimeofday_relative_adjust :: "clock \<Rightarrow> clock" where
  "quagga_gettimeofday_relative_adjust c =
     (let c = (if timeval_cmp (recent_time c) (last_recent_time c) < 0
               then c\<lparr>relative_time := \<lparr>tv_sec = tv_sec (relative_time c) + 1, tv_usec = 0\<rparr>\<rparr>
               else let diff = timeval_subtract (recent_time c) (last_recent_time c)
                 in c\<lparr>relative_time := timeval_adjust
                       \<lparr>tv_sec = tv_sec (relative_time c) + tv_sec diff,
                        tv_usec = tv_usec (relative_time c) + tv_usec diff\<rparr>\<rparr>)
      in c\<lparr>last_recent_time := recent_time c\<rparr>)"

text \<open>The argument \<open>now\<close> is what \<open>gettimeofday\<close> stores; the returned integer is the
  return value. The caller's \<open>tv\<close> receives \<open>recent_time\<close>.\<close>

definition quagga_gettimeofday :: "timeval option \<Rightarrow> clock \<Rightarrow> clock \<times> int" where
  "quagga_gettimeofday now c =
     (case now of
        None \<Rightarrow> (c, -1)
      | Some t \<Rightarrow>
          let c = c\<lparr>recent_time := t\<rparr>
          in (if timers_inited c then c
              else c\<lparr>relative_time_base := recent_time c, last_recent_time := recent_time c,
                     timers_inited := True\<rparr>, 0))"

text \<open>
  A reading of the clock the relative time comes from: with \<open>HAVE_CLOCK_MONOTONIC\<close> a
  \<open>struct timespec\<close> of seconds and nanoseconds, else the result of \<open>gettimeofday\<close>.
\<close>

datatype reading =
    Monotonic "(int \<times> int) option"
  | Wall "timeval option"

definition quagga_get_relative :: "reading \<Rightarrow> clock \<Rightarrow> clock \<times> int" where
  "quagga_get_relative r c =
     (case r of
        Monotonic None \<Rightarrow> (c, -1)
      | Monotonic (Some (sec, nsec)) \<Rightarrow>
          (c\<lparr>relative_time := \<lparr>tv_sec = sec, tv_usec = nsec div 1000\<rparr>\<rparr>, 0)
      | Wall now \<Rightarrow>
          let (c, ret) = quagga_gettimeofday now c
          in (if ret = 0 then quagga_gettimeofday_relative_adjust c else c, ret))"

definition quagga_real_stabilised :: "clock \<Rightarrow> timeval" where
  "quagga_real_stabilised c =
     timeval_adjust
       \<lparr>tv_sec = tv_sec (relative_time_base c) + tv_sec (relative_time c),
        tv_usec = tv_usec (relative_time_base c) + tv_usec (relative_time c)\<rparr>"

datatype quagga_clkid =
    QUAGGA_CLK_REALTIME
  | QUAGGA_CLK_MONOTONIC
  | QUAGGA_CLK_REALTIME_STABILISED

text \<open>The exported time function returns the clock variables, the return value and what the
  caller's \<open>tv\<close> receives.\<close>

definition quagga_gettime ::
    "quagga_clkid \<Rightarrow> timeval option \<Rightarrow> reading \<Rightarrow> clock \<Rightarrow> clock \<times> int \<times> timeval option" where
  "quagga_gettime clkid now r c =
     (case clkid of
        QUAGGA_CLK_REALTIME \<Rightarrow>
          let (c, ret) = quagga_gettimeofday now c
          in (c, ret, if ret = 0 then Some (recent_time c) else None)
      | QUAGGA_CLK_MONOTONIC \<Rightarrow>
          let (c, ret) = quagga_get_relative r c in (c, ret, Some (relative_time c))
      | QUAGGA_CLK_REALTIME_STABILISED \<Rightarrow> (c, 0, Some (quagga_real_stabilised c)))"

definition quagga_time :: "clock \<Rightarrow> int" where
  "quagga_time c = tv_sec (quagga_real_stabilised c)"

definition recent_relative_time :: "clock \<Rightarrow> timeval" where
  "recent_relative_time c = relative_time c"

section \<open>Time values as microseconds\<close>

definition micros :: "timeval \<Rightarrow> int" where
  "micros a = tv_sec a * TIMER_SECOND_MICRO + tv_usec a"

definition normal :: "timeval \<Rightarrow> bool" where
  "normal a \<longleftrightarrow> 0 \<le> tv_usec a \<and> tv_usec a < TIMER_SECOND_MICRO"

lemma carry_loop_spec: "micros (carry_loop a) = micros a \<and> tv_usec (carry_loop a) < TIMER_SECOND_MICRO \<and>
   (0 \<le> tv_usec a \<longrightarrow> 0 \<le> tv_usec (carry_loop a))"
proof (induction a rule: carry_loop.induct)
  case (1 a)
  show ?case
  proof (cases "tv_usec a \<ge> TIMER_SECOND_MICRO")
    case True
    with 1 show ?thesis by (subst (1 2 3) carry_loop.simps) (auto simp: micros_def algebra_simps)
  qed (simp add: carry_loop.simps [of a])
qed

lemma borrow_loop_spec:
  "micros (borrow_loop a) = micros a \<and> 0 \<le> tv_usec (borrow_loop a) \<and>
   (tv_usec a < TIMER_SECOND_MICRO \<longrightarrow> tv_usec (borrow_loop a) < TIMER_SECOND_MICRO)"
proof (induction a rule: borrow_loop.induct)
  case (1 a)
  show ?case
  proof (cases "tv_usec a < 0")
    case True
    with 1 show ?thesis by (subst (1 2 3) borrow_loop.simps) (auto simp: micros_def algebra_simps)
  qed (simp add: borrow_loop.simps [of a])
qed

lemma micros_sign: "normal a \<Longrightarrow> tv_sec a < 0 \<longleftrightarrow> micros a < 0"
  unfolding normal_def micros_def TIMER_SECOND_MICRO_def by arith

lemma timeval_adjust_spec: "normal (timeval_adjust a) \<and> micros (timeval_adjust a) = max 0 (micros a) \<and>
  0 \<le> tv_sec (timeval_adjust a)"
proof -
  let ?b = "borrow_loop (carry_loop a)"
  have b: "normal ?b" "micros ?b = micros a"
    using carry_loop_spec [of a] borrow_loop_spec [of "carry_loop a"] by (auto simp: normal_def)
  with micros_sign [OF b(1)] show ?thesis
    by (auto simp: timeval_adjust_def Let_def) (auto simp: micros_def normal_def TIMER_SECOND_MICRO_def)
qed

lemma timeval_cmp_sign:
  assumes "normal a" "normal b"
  shows "timeval_cmp a b < 0 \<longleftrightarrow> micros a < micros b" "timeval_cmp a b > 0 \<longleftrightarrow> micros b < micros a"
  using assms by (auto simp: timeval_cmp_def micros_def normal_def TIMER_SECOND_MICRO_def)

lemma timeval_cmp_sym: "timeval_cmp a b < 0 \<longleftrightarrow> timeval_cmp b a > 0"
  by (auto simp: timeval_cmp_def)

lemma timeval_cmp_trans: "timeval_cmp a b \<le> 0 \<Longrightarrow> timeval_cmp b c \<le> 0 \<Longrightarrow> timeval_cmp a c \<le> 0"
  by (auto simp: timeval_cmp_def split: if_splits)

section \<open>Properties\<close>

text \<open>The loops of \<open>timeval_adjust\<close> end, and the result is the time value with
  microseconds in \<open>[0, 1000000)\<close> that stands for the same number of microseconds, or zero
  where that is negative; \<open>timeval_subtract\<close> is the difference cut off at zero.\<close>

theorem timeval_arithmetic:
  "normal (timeval_adjust a) \<and> micros (timeval_adjust a) = max 0 (micros a) \<and>
   normal (timeval_subtract a b) \<and> micros (timeval_subtract a b) = max 0 (micros a - micros b)"
  using timeval_adjust_spec [of a]
    timeval_adjust_spec [of "\<lparr>tv_sec = tv_sec a - tv_sec b, tv_usec = tv_usec a - tv_usec b\<rparr>"]
  by (simp add: timeval_subtract_def) (simp add: micros_def algebra_simps)

definition clock_ok :: "clock \<Rightarrow> bool" where
  "clock_ok c \<longleftrightarrow> normal (recent_time c) \<and> normal (last_recent_time c) \<and> normal (relative_time c) \<and>
     0 \<le> tv_sec (relative_time c)"

text \<open>C40: without a monotonic clock of the system, the relative time still never goes back. Whatever
  sequence of valid times \<open>gettimeofday\<close> returns, also when the wall clock is set back, the clock
  variables stay normal and \<open>relative_time\<close> does not decrease.\<close>

theorem relative_time_never_back:
  assumes "clock_ok c" "\<And>t. now = Some t \<Longrightarrow> normal t"
  shows "clock_ok (fst (quagga_get_relative (Wall now) c)) \<and>
     micros (relative_time c) \<le> micros (relative_time (fst (quagga_get_relative (Wall now) c)))"
proof (cases now)
  case None
  with assms show ?thesis by (simp add: quagga_get_relative_def quagga_gettimeofday_def)
next
  case (Some t)
  define d where "d = fst (quagga_gettimeofday now c)"
  have d: "quagga_gettimeofday now c = (d, 0)" "normal (recent_time d)" "normal (last_recent_time d)"
    "relative_time d = relative_time c"
    using Some assms by (auto simp: d_def quagga_gettimeofday_def clock_ok_def Let_def)
  let ?diff = "timeval_subtract (recent_time d) (last_recent_time d)"
  have diff: "0 \<le> micros ?diff" "normal ?diff"
    using timeval_adjust_spec by (auto simp: timeval_subtract_def)
  let ?sum = "\<lparr>tv_sec = tv_sec (relative_time c) + tv_sec ?diff, tv_usec = tv_usec (relative_time c) + tv_usec ?diff\<rparr>"
  have "micros ?sum = micros (relative_time c) + micros ?diff" by (simp add: micros_def algebra_simps)
  moreover have "normal (relative_time c)" "0 \<le> tv_sec (relative_time c)" using assms(1) by (auto simp: clock_ok_def)
  moreover have "micros (relative_time c) \<le> micros \<lparr>tv_sec = tv_sec (relative_time c) + 1, tv_usec = 0\<rparr>"
    "normal \<lparr>tv_sec = tv_sec (relative_time c) + 1, tv_usec = 0\<rparr>"
    using calculation(2) by (auto simp: micros_def normal_def TIMER_SECOND_MICRO_def)
  moreover note timeval_adjust_spec [of ?sum]
  ultimately show ?thesis
    using d diff by (auto simp: quagga_get_relative_def quagga_gettimeofday_relative_adjust_def clock_ok_def Let_def)
qed

theorem relative_time_never_back_witness:
  "clock_ok clock_init \<and>
   micros (relative_time clock_init) \<le>
     micros (relative_time (fst (quagga_get_relative (Wall (Some \<lparr>tv_sec = 5, tv_usec = 7\<rparr>)) clock_init)))"
proof -
  have ok: "clock_ok clock_init" by (simp add: clock_ok_def clock_init_def zero_time_def normal_def TIMER_SECOND_MICRO_def)
  moreover have "normal \<lparr>tv_sec = 5, tv_usec = 7\<rparr>" by (simp add: normal_def TIMER_SECOND_MICRO_def)
  ultimately show ?thesis using relative_time_never_back [OF ok, of "Some \<lparr>tv_sec = 5, tv_usec = 7\<rparr>"] by auto
qed

end
