(* ===== verification/Pqueue.thy ===== *)
theory Pqueue
  imports Prelude "HOL-Library.Multiset"
begin

text \<open>
  \<^verbatim>\<open>lib/pqueue.c\<close>: the binary heap behind the timer queues. The array is a list whose
  length is \<open>array_size\<close>; \<open>cmp\<close> is the comparison callback, \<open>upd\<close> the update
  callback acting on a user state (the identity where the callback is \<open>NULL\<close>). The parameter
  \<open>null\<close> is what \<open>XCALLOC\<close> fills unused slots with. Indices and sizes are natural
  numbers; \<open>OutOfBounds\<close> marks an access outside the array.
\<close>

section \<open>Definitions\<close>

record 'a pqueue =
  pq_array :: "'a list"
  pq_size :: nat

definition PQUEUE_INIT_ARRAYSIZE :: nat where
  "PQUEUE_INIT_ARRAYSIZE = 32"

definition PARENT_OF :: "nat \<Rightarrow> nat" where
  "PARENT_OF x = (x - 1) div 2"

definition LEFT_OF :: "nat \<Rightarrow> nat" where
  "LEFT_OF x = 2 * x + 1"

definition RIGHT_OF :: "nat \<Rightarrow> nat" where
  "RIGHT_OF x = 2 * x + 2"

definition HAVE_CHILD :: "nat \<Rightarrow> nat \<Rightarrow> bool" where
  "HAVE_CHILD x size_q \<longleftrightarrow> x < size_q div 2"

definition slot :: "'a list \<Rightarrow> nat \<Rightarrow> 'a res" where
  "slot xs i = (if i < length xs then Inr (xs ! i) else Inl OutOfBounds)"

definition set_slot :: "nat \<Rightarrow> 'a \<Rightarrow> 'a list \<Rightarrow> 'a list res" where
  "set_slot i x xs = (if i < length xs then Inr (xs[i := x]) else Inl OutOfBounds)"

text \<open>The loop of \<open>trickle_up\<close> on the saved node \<open>tmp\<close>; it returns where it stops.\<close>

function up_loop ::
    "('a \<Rightarrow> 'a \<Rightarrow> int) \<Rightarrow> ('a \<Rightarrow> nat \<Rightarrow> 'u \<Rightarrow> 'u) \<Rightarrow> 'a \<Rightarrow> nat \<Rightarrow> 'a list \<Rightarrow> 'u \<Rightarrow> (nat \<times> 'a list \<times> 'u) res"
where
  "up_loop cmp upd tmp i xs u =
     (if i > 0
      then and_then (slot xs (PARENT_OF i)) (\<lambda>p.
        if cmp tmp p < 0
        then and_then (set_slot i p xs) (\<lambda>xs. up_loop cmp upd tmp (PARENT_OF i) xs (upd p i u))
        else Inr (i, xs, u))
      else Inr (i, xs, u))"
  by pat_completeness auto
termination
  by (relation "measure (\<lambda>(cmp, upd, tmp, i, xs, u). i)") (auto simp: PARENT_OF_def)

declare up_loop.simps [simp del]

definition trickle_up ::
    "('a \<Rightarrow> 'a \<Rightarrow> int) \<Rightarrow> ('a \<Rightarrow> nat \<Rightarrow> 'u \<Rightarrow> 'u) \<Rightarrow> nat \<Rightarrow> 'a pqueue \<Rightarrow> 'u \<Rightarrow> ('a pqueue \<times> 'u) res" where
  "trickle_up cmp upd index q u =
     and_then (slot (pq_array q) index) (\<lambda>tmp.
     and_then (up_loop cmp upd tmp index (pq_array q) u) (\<lambda>(i, xs, u).
     and_then (set_slot i tmp xs) (\<lambda>xs. Inr (q\<lparr>pq_array := xs\<rparr>, upd tmp i u))))"

function down_loop ::
    "('a \<Rightarrow> 'a \<Rightarrow> int) \<Rightarrow> ('a \<Rightarrow> nat \<Rightarrow> 'u \<Rightarrow> 'u) \<Rightarrow> nat \<Rightarrow> 'a \<Rightarrow> nat \<Rightarrow> 'a list \<Rightarrow> 'u \<Rightarrow> (nat \<times> 'a list \<times> 'u) res"
where
  "down_loop cmp upd n tmp i xs u =
     (if HAVE_CHILD i n
      then and_then (slot xs (LEFT_OF i)) (\<lambda>l.
           and_then (if RIGHT_OF i < n
                     then and_then (slot xs (RIGHT_OF i)) (\<lambda>r.
                            Inr (if cmp l r > 0 then (RIGHT_OF i, r) else (LEFT_OF i, l)))
                     else Inr (LEFT_OF i, l)) (\<lambda>(which, c).
             if cmp c tmp > 0 then Inr (i, xs, u)
             else and_then (set_slot i c xs) (\<lambda>xs.
                    down_loop cmp upd n tmp which xs (upd c i u))))
      else Inr (i, xs, u))"
  by pat_completeness auto
termination
  by (relation "measure (\<lambda>(cmp, upd, n, tmp, i, xs, u). n - i)")
    (auto simp: LEFT_OF_def RIGHT_OF_def HAVE_CHILD_def and_then_Inr_iff split: if_splits)

declare down_loop.simps [simp del]

definition trickle_down ::
    "('a \<Rightarrow> 'a \<Rightarrow> int) \<Rightarrow> ('a \<Rightarrow> nat \<Rightarrow> 'u \<Rightarrow> 'u) \<Rightarrow> nat \<Rightarrow> 'a pqueue \<Rightarrow> 'u \<Rightarrow> ('a pqueue \<times> 'u) res" where
  "trickle_down cmp upd index q u =
     and_then (slot (pq_array q) index) (\<lambda>tmp.
     and_then (down_loop cmp upd (pq_size q) tmp index (pq_array q) u) (\<lambda>(i, xs, u).
     and_then (set_slot i tmp xs) (\<lambda>xs. Inr (q\<lparr>pq_array := xs\<rparr>, upd tmp i u))))"

definition pqueue_create :: "'a \<Rightarrow> 'a pqueue" where
  "pqueue_create null = \<lparr>pq_array = replicate PQUEUE_INIT_ARRAYSIZE null, pq_size = 0\<rparr>"

definition pqueue_expand :: "'a \<Rightarrow> 'a pqueue \<Rightarrow> 'a pqueue" where
  "pqueue_expand null q = q\<lparr>pq_array := pq_array q @ replicate (length (pq_array q)) null\<rparr>"

definition pqueue_enqueue ::
    "'a \<Rightarrow> ('a \<Rightarrow> 'a \<Rightarrow> int) \<Rightarrow> ('a \<Rightarrow> nat \<Rightarrow> 'u \<Rightarrow> 'u) \<Rightarrow> 'a \<Rightarrow> 'a pqueue \<Rightarrow> 'u \<Rightarrow> ('a pqueue \<times> 'u) res" where
  "pqueue_enqueue null cmp upd data q u =
     (let q = (if pq_size q + 2 \<ge> length (pq_array q) then pqueue_expand null q else q)
      in and_then (set_slot (pq_size q) data (pq_array q)) (\<lambda>xs.
         and_then (trickle_up cmp upd (pq_size q) (q\<lparr>pq_array := xs\<rparr>) (upd data (pq_size q) u)) (\<lambda>(q, u).
           Inr (q\<lparr>pq_size := Suc (pq_size q)\<rparr>, u))))"

text \<open>\<open>array[--size]\<close> of an empty queue reads before the array.\<close>

definition pqueue_dequeue ::
    "('a \<Rightarrow> 'a \<Rightarrow> int) \<Rightarrow> ('a \<Rightarrow> nat \<Rightarrow> 'u \<Rightarrow> 'u) \<Rightarrow> 'a pqueue \<Rightarrow> 'u \<Rightarrow> ('a pqueue \<times> 'u \<times> 'a) res" where
  "pqueue_dequeue cmp upd q u =
     and_then (slot (pq_array q) 0) (\<lambda>data.
       if pq_size q = 0 then Inl OutOfBounds
       else let q = q\<lparr>pq_size := pq_size q - 1\<rparr>
         in and_then (slot (pq_array q) (pq_size q)) (\<lambda>x.
            and_then (set_slot 0 x (pq_array q)) (\<lambda>xs.
            and_then (trickle_down cmp upd 0 (q\<lparr>pq_array := xs\<rparr>) u) (\<lambda>(q, u). Inr (q, u, data)))))"

definition pqueue_remove_at ::
    "('a \<Rightarrow> 'a \<Rightarrow> int) \<Rightarrow> ('a \<Rightarrow> nat \<Rightarrow> 'u \<Rightarrow> 'u) \<Rightarrow> nat \<Rightarrow> 'a pqueue \<Rightarrow> 'u \<Rightarrow> ('a pqueue \<times> 'u) res" where
  "pqueue_remove_at cmp upd index q u =
     (if pq_size q = 0 then Inl OutOfBounds
      else let q = q\<lparr>pq_size := pq_size q - 1\<rparr>
        in and_then (slot (pq_array q) (pq_size q)) (\<lambda>x.
           and_then (set_slot index x (pq_array q)) (\<lambda>xs.
             let q = q\<lparr>pq_array := xs\<rparr>
             in if index > 0
                then and_then (slot xs (PARENT_OF index)) (\<lambda>p.
                       if cmp x p < 0 then trickle_up cmp upd index q u
                       else trickle_down cmp upd index q u)
                else trickle_down cmp upd index q u)))"

section \<open>Heaps over a comparison callback\<close>

lemma parent_less: "0 < i \<Longrightarrow> PARENT_OF i < i"
  by (auto simp: PARENT_OF_def)

lemma have_child_iff: "HAVE_CHILD i n \<longleftrightarrow> LEFT_OF i < n"
  by (auto simp: HAVE_CHILD_def LEFT_OF_def)

lemma parent_iff: "0 < j \<Longrightarrow> PARENT_OF j = i \<longleftrightarrow> j = LEFT_OF i \<or> j = RIGHT_OF i"
  by (auto simp: PARENT_OF_def LEFT_OF_def RIGHT_OF_def)

lemma child_gt: "i < LEFT_OF i" "i < RIGHT_OF i" "0 < LEFT_OF i" "0 < RIGHT_OF i"
  "PARENT_OF (LEFT_OF i) = i" "PARENT_OF (RIGHT_OF i) = i"
  by (auto simp: LEFT_OF_def RIGHT_OF_def PARENT_OF_def)

lemma slot_simps [simp]: "i < length xs \<Longrightarrow> slot xs i = Inr (xs ! i)"
  "i < length xs \<Longrightarrow> set_slot i x xs = Inr (xs[i := x])"
  by (simp_all add: slot_def set_slot_def)

lemma dequeue_remove_at:
  assumes "0 < pq_size q" "pq_size q \<le> length (pq_array q)"
  shows "pqueue_dequeue cmp upd q u =
     and_then (pqueue_remove_at cmp upd 0 q u) (\<lambda>(q', v). Inr (q', v, pq_array q ! 0))"
proof -
  have "0 < length (pq_array q)" using assms by linarith
  with assms show ?thesis
    by (simp add: pqueue_dequeue_def pqueue_remove_at_def Let_def and_then_assoc)
qed

text \<open>The contract of the comparison callback: a total preorder read off the sign.\<close>

locale cmp_order =
  fixes cmp :: "'a \<Rightarrow> 'a \<Rightarrow> int"
  assumes cmp_sym: "cmp a b < 0 \<longleftrightarrow> cmp b a > 0"
    and cmp_trans: "cmp a b \<le> 0 \<Longrightarrow> cmp b c \<le> 0 \<Longrightarrow> cmp a c \<le> 0"
begin

lemma cmp_refl: "cmp a a \<le> 0"
  using cmp_sym [of a a] by linarith

lemma cmp_total: "cmp a b > 0 \<Longrightarrow> cmp b a \<le> 0" "\<not> cmp a b < 0 \<Longrightarrow> cmp b a \<le> 0"
  using cmp_sym [of a b] cmp_sym [of b a] by linarith+

end

definition edge :: "('a \<Rightarrow> 'a \<Rightarrow> int) \<Rightarrow> 'a list \<Rightarrow> nat \<Rightarrow> bool" where
  "edge cmp xs j \<longleftrightarrow> cmp (xs ! PARENT_OF j) (xs ! j) \<le> 0"

definition heap :: "('a \<Rightarrow> 'a \<Rightarrow> int) \<Rightarrow> 'a list \<Rightarrow> nat \<Rightarrow> bool" where
  "heap cmp xs n \<longleftrightarrow> (\<forall>j. 0 < j \<longrightarrow> j < n \<longrightarrow> edge cmp xs j)"

text \<open>A heap but for the edge above \<open>i\<close>, respectively the edges below it.\<close>

definition up_hole :: "('a \<Rightarrow> 'a \<Rightarrow> int) \<Rightarrow> 'a list \<Rightarrow> nat \<Rightarrow> nat \<Rightarrow> bool" where
  "up_hole cmp xs n i \<longleftrightarrow> (\<forall>j. 0 < j \<longrightarrow> j < n \<longrightarrow> j \<noteq> i \<longrightarrow> edge cmp xs j) \<and>
     (\<forall>j. 0 < j \<longrightarrow> j < n \<longrightarrow> PARENT_OF j = i \<longrightarrow> 0 < i \<longrightarrow> cmp (xs ! PARENT_OF i) (xs ! j) \<le> 0)"

definition down_hole :: "('a \<Rightarrow> 'a \<Rightarrow> int) \<Rightarrow> 'a list \<Rightarrow> nat \<Rightarrow> nat \<Rightarrow> bool" where
  "down_hole cmp xs n i \<longleftrightarrow> (\<forall>j. 0 < j \<longrightarrow> j < n \<longrightarrow> PARENT_OF j \<noteq> i \<longrightarrow> edge cmp xs j) \<and>
     (\<forall>j. 0 < j \<longrightarrow> j < n \<longrightarrow> PARENT_OF j = i \<longrightarrow> 0 < i \<longrightarrow> cmp (xs ! PARENT_OF i) (xs ! j) \<le> 0)"

text \<open>The update callback has told every element but the one in the hole its position.\<close>

definition placed :: "('a \<Rightarrow> nat) \<Rightarrow> 'a list \<Rightarrow> nat \<Rightarrow> nat \<Rightarrow> bool" where
  "placed pos xs n i \<longleftrightarrow> distinct (take n xs) \<and> (\<forall>j<n. j \<noteq> i \<longrightarrow> pos (xs ! j) = j)"

definition swapped :: "'a list \<Rightarrow> nat \<Rightarrow> nat \<Rightarrow> 'a list" where
  "swapped xs i j = xs[i := xs ! j, j := xs ! i]"

lemma swapped_nth:
  "i < length xs \<Longrightarrow> j < length xs \<Longrightarrow>
   swapped xs i j ! k = (if k = j then xs ! i else if k = i then xs ! j else xs ! k)"
  by (auto simp: swapped_def nth_list_update)

lemma swapped_mset:
  "i < n \<Longrightarrow> j < n \<Longrightarrow> n \<le> length xs \<Longrightarrow> mset (take n (swapped xs i j)) = mset (take n xs)"
  using mset_swap [of j "take n xs" i] by (simp add: swapped_def take_update_swap)

lemma length_swapped [simp]: "length (swapped xs i j) = length xs"
  by (simp add: swapped_def)

lemma swapped_update:
  assumes "i < length xs" "j < length xs" "i \<noteq> j"
  shows "(xs[i := xs ! j])[j := t] = swapped (xs[i := t]) i j"
  using assms by (intro nth_equalityI) (auto simp: swapped_nth nth_list_update)

lemma placed_swap:
  assumes "placed pos xs n i" "i < n" "j < n" "i \<noteq> j" "n \<le> length xs"
  shows "placed (pos(xs ! j := i)) (swapped xs i j) n j"
proof -
  have d: "distinct (take n xs)" and p: "\<And>k. k < n \<Longrightarrow> k \<noteq> i \<Longrightarrow> pos (xs ! k) = k"
    using assms(1) by (auto simp: placed_def)
  have "distinct (take n (swapped xs i j))"
    using mset_eq_imp_distinct_iff [OF swapped_mset [OF assms(2,3,5)]] d by simp
  moreover have "xs ! k \<noteq> xs ! j" if "k < n" "k \<noteq> j" for k
    using d that assms(3,5) by (metis length_take min.absorb2 nth_eq_iff_index_eq nth_take)
  ultimately show ?thesis
    using p assms(2-5) by (auto simp: placed_def swapped_nth)
qed

lemma placed_fill:
  assumes "placed pos xs n i" "i < n" "n \<le> length xs"
  shows "placed (pos(xs ! i := i)) xs n n"
proof -
  have "xs ! k \<noteq> xs ! i" if "k < n" "k \<noteq> i" for k
    using assms that by (metis length_take min.absorb2 nth_eq_iff_index_eq nth_take placed_def)
  with assms show ?thesis by (auto simp: placed_def)
qed

locale pq_callbacks = cmp_order cmp for cmp :: "'a \<Rightarrow> 'a \<Rightarrow> int" +
  fixes upd :: "'a \<Rightarrow> nat \<Rightarrow> 'u \<Rightarrow> 'u" and pos :: "'u \<Rightarrow> 'a \<Rightarrow> nat"
  assumes pos_upd: "pos (upd a i u) = (pos u)(a := i)"
begin

lemma up_hole_step:
  assumes "up_hole cmp ys n i" "0 < i" "i < n" "n \<le> length ys" "cmp (ys ! i) (ys ! PARENT_OF i) < 0"
  shows "up_hole cmp (swapped ys i (PARENT_OF i)) n (PARENT_OF i)"
proof -
  let ?p = "PARENT_OF i"
  have p: "?p < i" using assms(2) by (rule parent_less)
  have nth: "swapped ys i ?p ! k = (if k = ?p then ys ! i else if k = i then ys ! ?p else ys ! k)" for k
    using p assms(3,4) by (intro swapped_nth) auto
  have le: "cmp (ys ! i) (ys ! ?p) \<le> 0" using assms(5) by simp
  have old: "cmp (ys ! PARENT_OF j) (ys ! j) \<le> 0" if "0 < j" "j < n" "j \<noteq> i" for j
    using assms(1) that by (auto simp: up_hole_def edge_def)
  have grand: "cmp (ys ! ?p) (ys ! j) \<le> 0" if "0 < j" "j < n" "PARENT_OF j = i" for j
    using assms(1,2) that by (auto simp: up_hole_def)
  have "edge cmp (swapped ys i ?p) j" if j: "0 < j" "j < n" "j \<noteq> ?p" for j
  proof -
    consider "j = i" | "PARENT_OF j = i" "j \<noteq> i" | "PARENT_OF j = ?p" "j \<noteq> i"
      | "PARENT_OF j \<noteq> ?p" "PARENT_OF j \<noteq> i" "j \<noteq> i" by blast
    then show ?thesis
    proof cases
      case 3
      then have "cmp (ys ! i) (ys ! j) \<le> 0" using cmp_trans [OF le] old [OF j(1,2)] by simp
      with 3 j p show ?thesis by (simp add: edge_def nth)
    qed (insert j p le grand old, auto simp: edge_def nth)
  qed
  moreover have "cmp (swapped ys i ?p ! PARENT_OF ?p) (swapped ys i ?p ! j) \<le> 0"
    if j: "0 < j" "j < n" "PARENT_OF j = ?p" "0 < ?p" for j
  proof -
    have gp: "PARENT_OF ?p < ?p" using j(4) by (rule parent_less)
    have up: "cmp (ys ! PARENT_OF ?p) (ys ! ?p) \<le> 0" using old [of ?p] j(4) p assms(3) by simp
    have "cmp (ys ! PARENT_OF ?p) (ys ! j) \<le> 0" if "j \<noteq> i"
      using cmp_trans [OF up] old [of j] that j by simp
    then show ?thesis using up gp p j by (auto simp: nth)
  qed
  ultimately show ?thesis by (simp add: up_hole_def)
qed

lemma up_hole_done:
  assumes "up_hole cmp ys n i" "i = 0 \<or> \<not> cmp (ys ! i) (ys ! PARENT_OF i) < 0"
  shows "heap cmp ys n"
  using assms cmp_total(2) by (auto simp: heap_def up_hole_def edge_def)

lemma down_hole_step:
  assumes "down_hole cmp ys n i" "w < n" "0 < w" "PARENT_OF w = i" "n \<le> length ys"
    and "cmp (ys ! w) (ys ! i) \<le> 0"
    and min: "\<And>j. 0 < j \<Longrightarrow> j < n \<Longrightarrow> PARENT_OF j = i \<Longrightarrow> cmp (ys ! w) (ys ! j) \<le> 0"
  shows "down_hole cmp (swapped ys i w) n w"
proof -
  have iw: "i < w" using parent_less [OF assms(3)] assms(4) by simp
  have nth: "swapped ys i w ! k = (if k = w then ys ! i else if k = i then ys ! w else ys ! k)" for k
    using iw assms(2,5) by (intro swapped_nth) auto
  have old: "cmp (ys ! PARENT_OF j) (ys ! j) \<le> 0" if "0 < j" "j < n" "PARENT_OF j \<noteq> i" for j
    using assms(1) that by (auto simp: down_hole_def edge_def)
  have grand: "cmp (ys ! PARENT_OF i) (ys ! j) \<le> 0" if "0 < j" "j < n" "PARENT_OF j = i" "0 < i" for j
    using assms(1) that by (auto simp: down_hole_def)
  have "edge cmp (swapped ys i w) j" if j: "0 < j" "j < n" "PARENT_OF j \<noteq> w" for j
  proof -
    have pj: "PARENT_OF j < j" using j(1) by (rule parent_less)
    consider "j = w" | "j = i" | "PARENT_OF j = i" "j \<noteq> w" | "PARENT_OF j \<noteq> i" "j \<noteq> i" "j \<noteq> w" by blast
    then show ?thesis
    proof cases
      case 1
      then show ?thesis using assms(4,6) iw by (simp add: edge_def nth)
    next
      case 2
      then have "cmp (ys ! PARENT_OF i) (ys ! w) \<le> 0" using grand assms(2-4) j(1) by simp
      with 2 j pj iw show ?thesis by (auto simp: edge_def nth)
    next
      case 3
      then show ?thesis using min [OF j(1,2)] iw pj by (auto simp: edge_def nth)
    next
      case 4
      then show ?thesis using old [OF j(1,2)] j(3) by (simp add: edge_def nth)
    qed
  qed
  moreover have "cmp (swapped ys i w ! PARENT_OF w) (swapped ys i w ! j) \<le> 0"
    if j: "0 < j" "j < n" "PARENT_OF j = w" for j
    using old [of j] j iw assms(4) parent_less [OF j(1)] by (auto simp: nth)
  ultimately show ?thesis by (simp add: down_hole_def)
qed

lemma up_loop_spec:
  assumes "i < n" "n \<le> length xs" "up_hole cmp (xs[i := tmp]) n i" "placed (pos u) (xs[i := tmp]) n i"
  shows "\<exists>k ys v. up_loop cmp upd tmp i xs u = Inr (k, ys, v) \<and> k < n \<and> length ys = length xs \<and>
     heap cmp (ys[k := tmp]) n \<and> placed (pos v) (ys[k := tmp]) n k \<and>
     mset (take n (ys[k := tmp])) = mset (take n (xs[i := tmp]))"
  using assms
proof (induction i arbitrary: xs u rule: less_induct)
  case (less i)
  let ?zs = "xs[i := tmp]" and ?p = "PARENT_OF i"
  show ?case
  proof (cases "0 < i \<and> cmp tmp (xs ! ?p) < 0")
    case False
    have "i = 0 \<or> \<not> cmp (?zs ! i) (?zs ! ?p) < 0"
      using False parent_less [of i] less.prems(1,2) by auto
    from up_hole_done [OF less.prems(3) this] False less.prems show ?thesis
      using parent_less [of i] by (subst up_loop.simps) auto
  next
    case True
    then have p: "?p < i" by (simp add: parent_less)
    let ?xs = "xs[i := xs ! ?p]" and ?u = "upd (xs ! ?p) i u"
    have sw: "?xs[?p := tmp] = swapped ?zs i ?p"
      using p less.prems(1,2) by (intro swapped_update) auto
    have "up_hole cmp (?xs[?p := tmp]) n ?p"
      unfolding sw using True p less.prems by (intro up_hole_step) auto
    moreover have "placed (pos ?u) (?xs[?p := tmp]) n ?p"
      unfolding sw using placed_swap [OF less.prems(4), of ?p] p less.prems(1,2) by (simp add: pos_upd)
    ultimately obtain k ys v where k: "up_loop cmp upd tmp ?p ?xs ?u = Inr (k, ys, v)" "k < n"
      "length ys = length xs" "heap cmp (ys[k := tmp]) n" "placed (pos v) (ys[k := tmp]) n k"
      "mset (take n (ys[k := tmp])) = mset (take n (?xs[?p := tmp]))"
      using less.IH [of ?p ?xs ?u] p less.prems(1,2) by auto
    have "mset (take n (?xs[?p := tmp])) = mset (take n ?zs)"
      unfolding sw using p less.prems(1,2) by (intro swapped_mset) auto
    moreover have "up_loop cmp upd tmp i xs u = up_loop cmp upd tmp ?p ?xs ?u"
      using True p less.prems(1,2) by (subst up_loop.simps) simp
    ultimately show ?thesis using k by auto
  qed
qed

lemma trickle_up_spec:
  assumes "i < n" "n \<le> length (pq_array q)" "up_hole cmp (pq_array q) n i" "placed (pos u) (pq_array q) n i"
  shows "\<exists>q' v. trickle_up cmp upd i q u = Inr (q', v) \<and> pq_size q' = pq_size q \<and>
     length (pq_array q') = length (pq_array q) \<and> heap cmp (pq_array q') n \<and>
     placed (pos v) (pq_array q') n n \<and> mset (take n (pq_array q')) = mset (take n (pq_array q))"
proof -
  let ?xs = "pq_array q" and ?tmp = "pq_array q ! i"
  have id: "?xs[i := ?tmp] = ?xs" by simp
  from up_loop_spec [of i n ?xs ?tmp u] assms obtain k ys v where
    k: "up_loop cmp upd ?tmp i ?xs u = Inr (k, ys, v)" "k < n" "length ys = length ?xs"
      "heap cmp (ys[k := ?tmp]) n" "placed (pos v) (ys[k := ?tmp]) n k"
      "mset (take n (ys[k := ?tmp])) = mset (take n ?xs)" unfolding id by blast
  have "placed (pos (upd ?tmp k v)) (ys[k := ?tmp]) n n"
    unfolding pos_upd using placed_fill [OF k(5)] k(2,3) assms(1,2) by simp
  with k assms(1,2) show ?thesis by (simp add: trickle_up_def)
qed

lemma down_choice:
  assumes "HAVE_CHILD i n" "n \<le> length xs"
  shows "\<exists>w. and_then (slot xs (LEFT_OF i)) (\<lambda>l.
      (if RIGHT_OF i < n then and_then (slot xs (RIGHT_OF i)) (\<lambda>r.
         Inr (if cmp l r > 0 then (RIGHT_OF i, r) else (LEFT_OF i, l))) else Inr (LEFT_OF i, l))) = Inr (w, xs ! w) \<and>
     0 < w \<and> w < n \<and> PARENT_OF w = i \<and>
     (\<forall>j. 0 < j \<longrightarrow> j < n \<longrightarrow> PARENT_OF j = i \<longrightarrow> cmp (xs ! w) (xs ! j) \<le> 0)"
proof -
  have l: "LEFT_OF i < n" using assms(1) by (simp add: have_child_iff)
  show ?thesis
  proof (cases "RIGHT_OF i < n \<and> cmp (xs ! LEFT_OF i) (xs ! RIGHT_OF i) > 0")
    case True
    then have "cmp (xs ! RIGHT_OF i) (xs ! LEFT_OF i) \<le> 0" by (simp add: cmp_total(1))
    with True l assms(2) child_gt [of i] cmp_refl show ?thesis
      by (intro exI [of _ "RIGHT_OF i"]) (auto simp: parent_iff)
  next
    case False
    with l assms(2) child_gt [of i] cmp_refl show ?thesis
      by (intro exI [of _ "LEFT_OF i"]) (auto simp: parent_iff not_less)
  qed
qed

lemma down_hole_done:
  assumes "down_hole cmp ys n i" "\<And>j. 0 < j \<Longrightarrow> j < n \<Longrightarrow> PARENT_OF j = i \<Longrightarrow> cmp (ys ! i) (ys ! j) \<le> 0"
  shows "heap cmp ys n"
  using assms by (auto simp: heap_def down_hole_def edge_def)

lemma down_loop_spec:
  assumes "i < n" "n \<le> length xs" "down_hole cmp (xs[i := tmp]) n i" "placed (pos u) (xs[i := tmp]) n i"
  shows "\<exists>k ys v. down_loop cmp upd n tmp i xs u = Inr (k, ys, v) \<and> k < n \<and> length ys = length xs \<and>
     heap cmp (ys[k := tmp]) n \<and> placed (pos v) (ys[k := tmp]) n k \<and>
     mset (take n (ys[k := tmp])) = mset (take n (xs[i := tmp]))"
  using assms
proof (induction "n - i" arbitrary: i xs u rule: less_induct)
  case less
  let ?zs = "xs[i := tmp]"
  have il: "i < length xs" using less.prems(1,2) by simp
  show ?case
  proof (cases "HAVE_CHILD i n")
    case False
    then have "PARENT_OF j \<noteq> i" if "0 < j" "j < n" for j
      using that child_gt [of i] by (auto simp: have_child_iff parent_iff LEFT_OF_def RIGHT_OF_def)
    then have "heap cmp ?zs n" using less.prems(3) by (intro down_hole_done) auto
    with False less.prems show ?thesis by (subst down_loop.simps) auto
  next
    case True
    from down_choice [OF True less.prems(2)] obtain w where
      w: "and_then (slot xs (LEFT_OF i)) (\<lambda>l.
        (if RIGHT_OF i < n then and_then (slot xs (RIGHT_OF i)) (\<lambda>r.
         Inr (if cmp l r > 0 then (RIGHT_OF i, r) else (LEFT_OF i, l))) else Inr (LEFT_OF i, l))) = Inr (w, xs ! w)"
      "0 < w" "w < n" "PARENT_OF w = i"
      and min: "\<And>j. 0 < j \<Longrightarrow> j < n \<Longrightarrow> PARENT_OF j = i \<Longrightarrow> cmp (xs ! w) (xs ! j) \<le> 0" by blast
    have iw: "i < w" using parent_less [OF w(2)] w(4) by simp
    let ?xs = "xs[i := xs ! w]" and ?u = "upd (xs ! w) i u"
    have step: "down_loop cmp upd n tmp i xs u =
       (if cmp (xs ! w) tmp > 0 then Inr (i, xs, u) else down_loop cmp upd n tmp w ?xs ?u)"
      using True w(1) il by (subst down_loop.simps) (simp add: and_then_assoc [symmetric])
    have old: "?zs ! j = xs ! j" if "0 < j" "PARENT_OF j = i" for j
      using that parent_less [OF that(1)] by auto
    show ?thesis
    proof (cases "cmp (xs ! w) tmp > 0")
      case gt: True
      have "cmp tmp (xs ! j) \<le> 0" if "0 < j" "j < n" "PARENT_OF j = i" for j
        using cmp_trans [OF cmp_total(1) [OF gt] min [OF that]] .
      then have "heap cmp ?zs n" using less.prems(3) old il by (intro down_hole_done) auto
      with step gt less.prems show ?thesis by auto
    next
      case le: False
      have sw: "?xs[w := tmp] = swapped ?zs i w"
        using iw w(3) less.prems(2) by (intro swapped_update) auto
      have "down_hole cmp (?xs[w := tmp]) n w"
        unfolding sw using le min old w less.prems(2,3) il by (intro down_hole_step) auto
      moreover have "placed (pos ?u) (?xs[w := tmp]) n w"
        unfolding sw using placed_swap [OF less.prems(4), of w] iw w(3) less.prems(1,2) by (simp add: pos_upd)
      moreover have "n - w < n - i" using iw w(3) by simp
      ultimately obtain k ys v where k: "down_loop cmp upd n tmp w ?xs ?u = Inr (k, ys, v)" "k < n"
        "length ys = length xs" "heap cmp (ys[k := tmp]) n" "placed (pos v) (ys[k := tmp]) n k"
        "mset (take n (ys[k := tmp])) = mset (take n (?xs[w := tmp]))"
        using less.hyps [of w ?xs ?u] iw w(3) less.prems(1,2) by auto
      have "mset (take n (?xs[w := tmp])) = mset (take n ?zs)"
        unfolding sw using iw w(3) less.prems(2) by (intro swapped_mset) auto
      with k step le show ?thesis by auto
    qed
  qed
qed

lemma trickle_down_spec:
  assumes "i < n" "n \<le> length (pq_array q)" "pq_size q = n" "down_hole cmp (pq_array q) n i"
    "placed (pos u) (pq_array q) n i"
  shows "\<exists>q' v. trickle_down cmp upd i q u = Inr (q', v) \<and> pq_size q' = pq_size q \<and>
     length (pq_array q') = length (pq_array q) \<and> heap cmp (pq_array q') n \<and>
     placed (pos v) (pq_array q') n n \<and> mset (take n (pq_array q')) = mset (take n (pq_array q))"
proof -
  let ?xs = "pq_array q" and ?tmp = "pq_array q ! i"
  have id: "?xs[i := ?tmp] = ?xs" by simp
  from down_loop_spec [of i n ?xs ?tmp u] assms obtain k ys v where
    k: "down_loop cmp upd n ?tmp i ?xs u = Inr (k, ys, v)" "k < n" "length ys = length ?xs"
      "heap cmp (ys[k := ?tmp]) n" "placed (pos v) (ys[k := ?tmp]) n k"
      "mset (take n (ys[k := ?tmp])) = mset (take n ?xs)" unfolding id by blast
  have "placed (pos (upd ?tmp k v)) (ys[k := ?tmp]) n n"
    unfolding pos_upd using placed_fill [OF k(5)] k(2,3) assms(1,2) by simp
  with k assms(1-3) show ?thesis by (simp add: trickle_down_def)
qed

end

text \<open>The invariant of a queue with its update state, and its contents.\<close>

definition queue_ok :: "('a \<Rightarrow> 'a \<Rightarrow> int) \<Rightarrow> ('u \<Rightarrow> 'a \<Rightarrow> nat) \<Rightarrow> 'a pqueue \<Rightarrow> 'u \<Rightarrow> bool" where
  "queue_ok cmp pos q u \<longleftrightarrow> 0 < length (pq_array q) \<and> pq_size q \<le> length (pq_array q) \<and>
     heap cmp (pq_array q) (pq_size q) \<and> placed (pos u) (pq_array q) (pq_size q) (pq_size q)"

definition elems :: "'a pqueue \<Rightarrow> 'a list" where
  "elems q = take (pq_size q) (pq_array q)"

lemma placed_append:
  assumes "placed pos xs n n" "n < length ys" "\<And>i. i < n \<Longrightarrow> ys ! i = xs ! i" "n \<le> length xs"
    "ys ! n \<notin> set (take n xs)"
  shows "placed pos ys (Suc n) n"
proof -
  have "take n ys = take n xs" using assms(2-4) by (intro nth_equalityI) auto
  then show ?thesis using assms by (auto simp: placed_def take_Suc_conv_app_nth less_Suc_eq)
qed

lemma placed_other: "placed pos xs n i \<Longrightarrow> x \<notin> set (take n xs) \<Longrightarrow> n \<le> length xs \<Longrightarrow> placed (pos(x := k)) xs n i"
  by (auto simp: placed_def in_set_conv_nth)

context pq_callbacks
begin

lemma enqueue_room:
  assumes "queue_ok cmp pos q u" and q1: "q1 = (if pq_size q + 2 \<ge> length (pq_array q) then pqueue_expand null q else q)"
  shows "pq_size q1 = pq_size q" "pq_size q < length (pq_array q1)" "elems q1 = elems q"
    "\<And>i. i < pq_size q \<Longrightarrow> pq_array q1 ! i = pq_array q ! i"
  using assms by (auto simp: queue_ok_def pqueue_expand_def elems_def nth_append simp del: length_greater_0_conv)

lemma enqueue_ok:
  assumes "queue_ok cmp pos q u" "x \<notin> set (elems q)"
  shows "\<exists>q' v. pqueue_enqueue null cmp upd x q u = Inr (q', v) \<and> queue_ok cmp pos q' v \<and>
     mset (elems q') = mset (elems q) + {#x#}"
proof -
  define q1 where "q1 = (if pq_size q + 2 \<ge> length (pq_array q) then pqueue_expand null q else q)"
  note r = enqueue_room [OF assms(1) q1_def]
  let ?n = "pq_size q" and ?q = "q1\<lparr>pq_array := (pq_array q1)[pq_size q := x]\<rparr>"
  have tk: "take (Suc ?n) (pq_array ?q) = elems q @ [x]"
    using r(1-3) by (simp add: take_Suc_conv_app_nth elems_def)
  have nth: "pq_array ?q ! i = (if i = ?n then x else pq_array q ! i)" if "i \<le> ?n" for i
    using that r(2,4) by (auto simp: le_less)
  have ok: "heap cmp (pq_array q) ?n" "placed (pos u) (pq_array q) ?n ?n"
    using assms(1) by (simp_all add: queue_ok_def)
  have "up_hole cmp (pq_array ?q) (Suc ?n) ?n"
  proof -
    have "edge cmp (pq_array ?q) j" if "0 < j" "j < Suc ?n" "j \<noteq> ?n" for j
      using ok(1) that parent_less [OF that(1)] by (auto simp: heap_def edge_def r(4))
    moreover have "PARENT_OF j \<noteq> ?n" if "0 < j" "j < Suc ?n" for j
      using parent_less [OF that(1)] that(2) by simp
    ultimately show ?thesis by (auto simp: up_hole_def)
  qed
  moreover have "placed (pos (upd x ?n u)) (pq_array ?q) (Suc ?n) ?n"
  proof -
    have sz: "?n \<le> length (pq_array q)" using assms(1) by (simp add: queue_ok_def)
    have "placed (pos (upd x ?n u)) (pq_array q) ?n ?n"
      unfolding pos_upd using placed_other [OF ok(2)] assms(2) sz by (simp add: elems_def)
    then show ?thesis using assms(2) sz r(2,4) by (intro placed_append [of _ "pq_array q"]) (auto simp: elems_def)
  qed
  ultimately obtain q' v where q': "trickle_up cmp upd ?n ?q (upd x ?n u) = Inr (q', v)"
    "pq_size q' = ?n" "length (pq_array q') = length (pq_array q1)" "heap cmp (pq_array q') (Suc ?n)"
    "placed (pos v) (pq_array q') (Suc ?n) (Suc ?n)"
    "mset (take (Suc ?n) (pq_array q')) = mset (take (Suc ?n) (pq_array ?q))"
    using trickle_up_spec [of ?n "Suc ?n" ?q "upd x ?n u"] r(1,2) by auto
  then have "pqueue_enqueue null cmp upd x q u = Inr (q'\<lparr>pq_size := Suc ?n\<rparr>, v)"
    unfolding pqueue_enqueue_def q1_def [symmetric] Let_def using r(1,2) by simp
  moreover have "queue_ok cmp pos (q'\<lparr>pq_size := Suc ?n\<rparr>) v" using q' r(2) by (auto simp: queue_ok_def)
  moreover have "mset (elems (q'\<lparr>pq_size := Suc ?n\<rparr>)) = mset (elems q) + {#x#}"
    using q'(6) tk by (simp add: elems_def)
  ultimately show ?thesis by blast
qed

lemma heap_min:
  assumes "heap cmp xs n" "j < n"
  shows "cmp (xs ! 0) (xs ! j) \<le> 0"
  using assms(2)
proof (induction j rule: less_induct)
  case (less j)
  show ?case
  proof (cases "j = 0")
    case True
    then show ?thesis by (simp add: cmp_refl)
  next
    case False
    then have p: "PARENT_OF j < j" by (simp add: parent_less)
    then have "cmp (xs ! 0) (xs ! PARENT_OF j) \<le> 0" using less by simp
    moreover have "cmp (xs ! PARENT_OF j) (xs ! j) \<le> 0"
      using assms(1) False less.prems by (auto simp: heap_def edge_def)
    ultimately show ?thesis by (rule cmp_trans)
  qed
qed

text \<open>The last element moves into the place of the removed one.\<close>

lemma remove_mset:
  assumes "i \<le> n" "Suc n \<le> length xs"
  shows "mset (take n (xs[i := xs ! n])) + {#xs ! i#} = mset (take (Suc n) xs)"
proof (cases "i = n")
  case True
  then show ?thesis using assms by (simp add: take_Suc_conv_app_nth)
next
  case False
  with assms have "i < n" by simp
  then have "mset ((take n xs)[i := xs ! n]) = add_mset (xs ! n) (mset (take n xs) - {#take n xs ! i#})"
    using assms by (intro mset_update) simp
  moreover have "xs ! i \<in># mset (take n xs)"
    using \<open>i < n\<close> assms by (metis in_multiset_in_set in_set_conv_nth length_take min.absorb2 nth_take Suc_leD)
  ultimately show ?thesis
    using assms \<open>i < n\<close> by (simp add: take_update_swap take_Suc_conv_app_nth)
qed

lemma remove_placed:
  assumes "placed p xs (Suc n) (Suc n)" "i < n" "Suc n \<le> length xs"
  shows "placed p (xs[i := xs ! n]) n i"
proof -
  have "distinct (take (Suc n) xs)" using assms(1) by (simp add: placed_def)
  moreover have "mset (take n (xs[i := xs ! n])) + {#xs ! i#} = mset (take (Suc n) xs)"
    using assms by (intro remove_mset) auto
  ultimately have "distinct (take n (xs[i := xs ! n]) @ [xs ! i])"
    by (metis mset.simps(1) mset.simps(2) mset_append mset_eq_imp_distinct_iff)
  with assms show ?thesis by (auto simp: placed_def)
qed

lemma remove_down_hole:
  assumes "heap cmp xs (Suc n)" "i < n" "Suc n \<le> length xs"
    "i = 0 \<or> \<not> cmp (xs ! n) (xs ! PARENT_OF i) < 0"
  shows "down_hole cmp (xs[i := xs ! n]) n i"
proof -
  have e: "cmp (xs ! PARENT_OF j) (xs ! j) \<le> 0" if "0 < j" "j < Suc n" for j
    using assms(1) that by (auto simp: heap_def edge_def)
  have "edge cmp (xs[i := xs ! n]) j" if j: "0 < j" "j < n" "PARENT_OF j \<noteq> i" for j
  proof (cases "j = i")
    case True
    with j parent_less [OF j(1)] assms show ?thesis by (auto simp: edge_def dest: cmp_total(2))
  next
    case False
    with j e [of j] show ?thesis by (simp add: edge_def)
  qed
  moreover have "cmp ((xs[i := xs ! n]) ! PARENT_OF i) ((xs[i := xs ! n]) ! j) \<le> 0"
    if j: "0 < j" "j < n" "PARENT_OF j = i" "0 < i" for j
    using cmp_trans [OF e [of i] e [of j, unfolded j(3)]] j assms(2) parent_less [OF j(1)] parent_less [OF j(4)] by simp
  ultimately show ?thesis by (simp add: down_hole_def)
qed

lemma remove_up_hole:
  assumes "heap cmp xs (Suc n)" "i < n" "Suc n \<le> length xs" "0 < i" "cmp (xs ! n) (xs ! PARENT_OF i) < 0"
  shows "up_hole cmp (xs[i := xs ! n]) n i"
proof -
  have e: "cmp (xs ! PARENT_OF j) (xs ! j) \<le> 0" if "0 < j" "j < Suc n" for j
    using assms(1) that by (auto simp: heap_def edge_def)
  have pi: "PARENT_OF i < i" using assms(4) by (rule parent_less)
  have gr: "cmp (xs ! PARENT_OF i) (xs ! j) \<le> 0" if "0 < j" "j < n" "PARENT_OF j = i" for j
    using cmp_trans [OF e [OF assms(4)] e [of j, unfolded that(3)]] that assms(2) by simp
  have "edge cmp (xs[i := xs ! n]) j" if j: "0 < j" "j < n" "j \<noteq> i" for j
  proof (cases "PARENT_OF j = i")
    case True
    have "cmp (xs ! n) (xs ! PARENT_OF i) \<le> 0" using assms(5) by simp
    from cmp_trans [OF this gr [OF j(1,2) True]] True j assms(2,3) show ?thesis by (simp add: edge_def)
  next
    case False
    with j e [of j] show ?thesis by (simp add: edge_def)
  qed
  moreover have "cmp ((xs[i := xs ! n]) ! PARENT_OF i) ((xs[i := xs ! n]) ! j) \<le> 0"
    if "0 < j" "j < n" "PARENT_OF j = i" for j
    using gr [OF that] pi parent_less [OF that(1)] that(3) by simp
  ultimately show ?thesis by (simp add: up_hole_def)
qed

lemma remove_at_ok:
  assumes "queue_ok cmp pos q u" "i < pq_size q"
  shows "\<exists>q' v. pqueue_remove_at cmp upd i q u = Inr (q', v) \<and> queue_ok cmp pos q' v \<and>
     mset (elems q') + {#pq_array q ! i#} = mset (elems q) \<and> pq_size q' = pq_size q - 1"
proof -
  obtain n where n: "pq_size q = Suc n" using assms(2) by (cases "pq_size q") auto
  let ?xs = "pq_array q" and ?q = "q\<lparr>pq_size := n, pq_array := (pq_array q)[i := pq_array q ! n]\<rparr>"
  have ok: "heap cmp ?xs (Suc n)" "placed (pos u) ?xs (Suc n) (Suc n)" "Suc n \<le> length ?xs" "0 < length ?xs"
    using assms(1) n by (simp_all add: queue_ok_def)
  have in1: "i \<le> n" using assms(2) n by simp
  have step: "pqueue_remove_at cmp upd i q u =
     (if 0 < i \<and> cmp (?xs ! n) (?xs[i := ?xs ! n] ! PARENT_OF i) < 0 then trickle_up cmp upd i ?q u
      else trickle_down cmp upd i ?q u)"
    using n in1 ok(3) parent_less [of i] by (auto simp: pqueue_remove_at_def Let_def)
  have ms: "mset (take n (pq_array ?q)) + {#?xs ! i#} = mset (elems q)"
    using remove_mset [OF in1 ok(3)] n by (simp add: elems_def)
  have fin: ?thesis if "pqueue_remove_at cmp upd i q u = Inr (q', v)" "pq_size q' = n"
    "length (pq_array q') = length ?xs" "heap cmp (pq_array q') n" "placed (pos v) (pq_array q') n n"
    "mset (take n (pq_array q')) = mset (take n (pq_array ?q))" for q' v
    using that ok(3,4) ms n by (intro exI [of _ q'] exI [of _ v]) (auto simp: queue_ok_def elems_def)
  show ?thesis
  proof (cases "i = n")
    case False
    with in1 have lt: "i < n" by simp
    then have pl: "placed (pos u) (pq_array ?q) n i" using remove_placed [OF ok(2) lt ok(3)] by simp
    have par: "?xs[i := ?xs ! n] ! PARENT_OF i = ?xs ! PARENT_OF i" if "0 < i"
      using parent_less [OF that] by simp
    show ?thesis
    proof (cases "0 < i \<and> cmp (?xs ! n) (?xs ! PARENT_OF i) < 0")
      case True
      with trickle_up_spec [of i n ?q u] lt pl ok(3) remove_up_hole [OF ok(1) lt ok(3)] obtain q' v where
        "trickle_up cmp upd i ?q u = Inr (q', v)" "pq_size q' = n" "length (pq_array q') = length ?xs"
        "heap cmp (pq_array q') n" "placed (pos v) (pq_array q') n n"
        "mset (take n (pq_array q')) = mset (take n (pq_array ?q))" by auto
      with step True par show ?thesis by (intro fin) auto
    next
      case False
      with trickle_down_spec [of i n ?q u] lt pl ok(3) remove_down_hole [OF ok(1) lt ok(3)] obtain q' v where
        "trickle_down cmp upd i ?q u = Inr (q', v)" "pq_size q' = n" "length (pq_array q') = length ?xs"
        "heap cmp (pq_array q') n" "placed (pos v) (pq_array q') n n"
        "mset (take n (pq_array q')) = mset (take n (pq_array ?q))" by auto
      with step False par show ?thesis by (intro fin) auto
    qed
  next
    case True
    have "\<not> HAVE_CHILD n n" by (simp add: HAVE_CHILD_def)
    moreover have "\<not> cmp (?xs ! n) (?xs ! PARENT_OF n) < 0" if "0 < n"
    proof -
      have "cmp (?xs ! PARENT_OF n) (?xs ! n) \<le> 0" using ok(1) that by (simp add: heap_def edge_def)
      then show ?thesis using cmp_sym [of "?xs ! n" "?xs ! PARENT_OF n"] by linarith
    qed
    ultimately have "pqueue_remove_at cmp upd i q u = Inr (?q, upd (?xs ! n) n u)"
      unfolding step using True ok(3) by (auto simp: trickle_down_def down_loop.simps [of _ _ n])
    moreover have "placed (pos (upd (?xs ! n) n u)) ?xs n n"
      unfolding pos_upd using ok(2,3)
      by (intro placed_other) (auto simp: placed_def take_Suc_conv_app_nth)
    moreover have "heap cmp ?xs n" using ok(1) by (auto simp: heap_def)
    ultimately show ?thesis using True by (intro fin [of ?q "upd (?xs ! n) n u"]) auto
  qed
qed

lemma dequeue_ok:
  assumes "queue_ok cmp pos q u" "0 < pq_size q"
  shows "\<exists>q' v x. pqueue_dequeue cmp upd q u = Inr (q', v, x) \<and> queue_ok cmp pos q' v \<and>
     mset (elems q') + {#x#} = mset (elems q) \<and> (\<forall>y \<in> set (elems q). cmp x y \<le> 0) \<and>
     x = pq_array q ! 0 \<and> pq_size q' = pq_size q - 1"
proof -
  have len: "pq_size q \<le> length (pq_array q)" and h: "heap cmp (pq_array q) (pq_size q)"
    using assms(1) by (auto simp: queue_ok_def)
  have "pqueue_dequeue cmp upd q u = and_then (pqueue_remove_at cmp upd 0 q u) (\<lambda>(q', v). Inr (q', v, pq_array q ! 0))"
    by (rule dequeue_remove_at [OF assms(2) len])
  moreover have "cmp (pq_array q ! 0) y \<le> 0" if "y \<in> set (elems q)" for y
    using that heap_min [OF h] len by (auto simp: elems_def in_set_conv_nth)
  ultimately show ?thesis using remove_at_ok [OF assms] by auto
qed

end

section \<open>What the operations leave alone\<close>

text \<open>A property of the user state that the update callback keeps on the elements \<open>S\<close> of the
  queue is kept by every operation.\<close>

lemma set_take_update: "set (take n (xs[i := y])) \<subseteq> insert y (set (take n xs))"
  by (cases "i < n") (auto simp: take_update_swap dest: set_update_subset_insert [THEN subsetD])

lemma nth_in_set_take: "i < n \<Longrightarrow> n \<le> length xs \<Longrightarrow> xs ! i \<in> set (take n xs)"
  using nth_mem [of i "take n xs"] by simp

lemma up_loop_frame:
  assumes "up_loop cmp upd tmp i xs u = Inr (j, ys, v)" "I u" "set (take n xs) \<subseteq> S" "i < n" "n \<le> length xs"
    "\<And>x k u. x \<in> S \<Longrightarrow> I u \<Longrightarrow> I (upd x k u)"
  shows "I v"
  using assms
proof (induction cmp upd tmp i xs u rule: up_loop.induct)
  case (1 cmp upd tmp i xs u)
  note prems = "1.prems"
  show ?case
  proof (cases "0 < i \<and> cmp tmp (xs ! PARENT_OF i) < 0")
    case True
    then have p: "PARENT_OF i < n" using parent_less [of i] prems(4) by simp
    then have pS: "xs ! PARENT_OF i \<in> S" using nth_in_set_take [OF p prems(5)] prems(3) by blast
    have "up_loop cmp upd tmp (PARENT_OF i) (xs[i := xs ! PARENT_OF i]) (upd (xs ! PARENT_OF i) i u) = Inr (j, ys, v)"
      using prems(1,4,5) True p by (subst (asm) up_loop.simps) simp
    moreover have "set (take n (xs[i := xs ! PARENT_OF i])) \<subseteq> S" using set_take_update [of n xs i] pS prems(3) by blast
    ultimately show ?thesis
      using "1.IH" [of "xs ! PARENT_OF i" "xs[i := xs ! PARENT_OF i]"] True prems p pS by simp
  next
    case False
    then have "up_loop cmp upd tmp i xs u = Inr (i, xs, u)"
      using prems(4,5) parent_less [of i] by (subst up_loop.simps) auto
    with prems show ?thesis by simp
  qed
qed

lemma down_loop_frame:
  assumes "down_loop cmp upd n tmp i xs u = Inr (j, ys, v)" "I u" "set (take n xs) \<subseteq> S" "n \<le> length xs"
    "\<And>x k u. x \<in> S \<Longrightarrow> I u \<Longrightarrow> I (upd x k u)"
  shows "I v"
  using assms
proof (induction cmp upd n tmp i xs u rule: down_loop.induct)
  case (1 cmp upd n tmp i xs u)
  note prems = "1.prems"
  show ?case
  proof (cases "HAVE_CHILD i n")
    case True
    then have l: "LEFT_OF i < n" by (simp add: have_child_iff)
    let ?w = "if RIGHT_OF i < n \<and> cmp (xs ! LEFT_OF i) (xs ! RIGHT_OF i) > 0 then RIGHT_OF i else LEFT_OF i"
    have w: "?w < n" using l by simp
    have i: "i < n" using l child_gt(1) [of i] by linarith
    have wS: "xs ! ?w \<in> S" using nth_in_set_take [OF w prems(4)] prems(3) by blast
    have eq: "down_loop cmp upd n tmp i xs u =
       (if cmp (xs ! ?w) tmp > 0 then Inr (i, xs, u)
        else down_loop cmp upd n tmp ?w (xs[i := xs ! ?w]) (upd (xs ! ?w) i u))"
      using True l prems(4) i by (subst down_loop.simps) simp
    show ?thesis
    proof (cases "cmp (xs ! ?w) tmp > 0")
      case True
      with eq prems show ?thesis by simp
    next
      case False
      have "set (take n (xs[i := xs ! ?w])) \<subseteq> S" using set_take_update [of n xs i] wS prems(3) by blast
      then show ?thesis
        using "1.IH" [of "xs ! LEFT_OF i" "(?w, xs ! ?w)" ?w "xs ! ?w" "xs[i := xs ! ?w]"] eq False True l prems i wS
        by auto
    qed
  next
    case False
    then have "down_loop cmp upd n tmp i xs u = Inr (i, xs, u)" by (subst down_loop.simps) simp
    with prems show ?thesis by simp
  qed
qed

lemma trickle_up_frame:
  assumes "trickle_up cmp upd i q u = Inr (q', v)" "I u" "set (take n (pq_array q)) \<subseteq> S" "i < n"
    "n \<le> length (pq_array q)" "\<And>x k u. x \<in> S \<Longrightarrow> I u \<Longrightarrow> I (upd x k u)"
  shows "I v"
  using assms(1,4,5) up_loop_frame [of cmp upd "pq_array q ! i" i "pq_array q" u _ _ _ I, OF _ assms(2,3-6)]
    nth_in_set_take [OF assms(4,5)] assms(3,6)
  by (auto simp: trickle_up_def and_then_Inr_iff)

lemma trickle_down_frame:
  assumes "trickle_down cmp upd i q u = Inr (q', v)" "I u" "set (take (pq_size q) (pq_array q)) \<subseteq> S"
    "pq_size q \<le> length (pq_array q)" "i < length (pq_array q)" "pq_array q ! i \<in> S"
    "\<And>x k u. x \<in> S \<Longrightarrow> I u \<Longrightarrow> I (upd x k u)"
  shows "I v"
  using assms(1,5,6,7) down_loop_frame [of cmp upd "pq_size q" "pq_array q ! i" i "pq_array q" u _ _ _ I, OF _ assms(2,3,4,7)]
  by (auto simp: trickle_down_def and_then_Inr_iff)

lemma enqueue_frame:
  assumes "pqueue_enqueue null cmp upd x q u = Inr (q', v)" "I (upd x (pq_size q) u)" "pq_size q \<le> length (pq_array q)"
    "\<And>y k u. y \<in> insert x (set (elems q)) \<Longrightarrow> I u \<Longrightarrow> I (upd y k u)"
  shows "I v"
proof -
  define q1 where "q1 = (if pq_size q + 2 \<ge> length (pq_array q) then pqueue_expand null q else q)"
  let ?n = "pq_size q" and ?xs = "(pq_array q1)[pq_size q := x]"
  have q1: "pq_size q1 = ?n" "take ?n (pq_array q1) = elems q"
    using assms(3) by (auto simp: q1_def pqueue_expand_def elems_def)
  from assms(1) obtain q2 where len: "?n < length (pq_array q1)"
    and t: "trickle_up cmp upd ?n (q1\<lparr>pq_array := ?xs\<rparr>) (upd x ?n u) = Inr (q2, v)"
    unfolding pqueue_enqueue_def q1_def [symmetric] Let_def q1(1)
    by (auto simp: and_then_Inr_iff set_slot_def split: if_splits)
  have "take (Suc ?n) ?xs = elems q @ [x]" using len q1(2) by (simp add: take_Suc_conv_app_nth)
  then have sub: "set (take (Suc ?n) (pq_array (q1\<lparr>pq_array := ?xs\<rparr>))) \<subseteq> insert x (set (elems q))" by simp
  show ?thesis
    by (rule trickle_up_frame [where I = I, OF t _ sub]) (insert assms(2,4) len, auto)
qed

lemma remove_at_frame:
  assumes "pqueue_remove_at cmp upd i q u = Inr (q', v)" "I u" "pq_size q \<le> length (pq_array q)" "i < pq_size q"
    "\<And>y k u. y \<in> set (elems q) \<Longrightarrow> I u \<Longrightarrow> I (upd y k u)"
  shows "I v"
proof -
  obtain n where n: "pq_size q = Suc n" using assms(4) by (cases "pq_size q") auto
  let ?x = "pq_array q ! n" and ?q = "q\<lparr>pq_size := n, pq_array := (pq_array q)[i := pq_array q ! n]\<rparr>"
  have x: "?x \<in> set (elems q)" using nth_in_set_take [of n "Suc n"] assms(3) n by (simp add: elems_def)
  have "set (take n (pq_array q)) \<subseteq> set (elems q)" by (simp add: elems_def n set_take_subset_set_take)
  then have sub: "set (take n (pq_array ?q)) \<subseteq> set (elems q)" using set_take_update [of n "pq_array q" i ?x] x by auto
  have "trickle_up cmp upd i ?q u = Inr (q', v) \<and> 0 < i \<and> i \<le> n \<or> trickle_down cmp upd i ?q u = Inr (q', v)"
    using assms(1,3,4) n parent_less [of i] by (auto simp: pqueue_remove_at_def Let_def split: if_splits)
  then show ?thesis
  proof (elim disjE conjE)
    assume t: "trickle_up cmp upd i ?q u = Inr (q', v)" "i \<le> n"
    have "set (take (Suc n) (pq_array ?q)) \<subseteq> set (elems q)"
      using set_take_update [of "Suc n" "pq_array q" i ?x] x n by (auto simp: elems_def)
    then show ?thesis
      by (rule trickle_up_frame [where I = I, OF t(1) assms(2)]) (insert t(2) assms(3,5) n, auto)
  next
    assume t: "trickle_down cmp upd i ?q u = Inr (q', v)"
    show ?thesis
      by (rule trickle_down_frame [where I = I, OF t assms(2), where S = "set (elems q)"]) (insert sub x assms(3-5) n, auto)
  qed
qed

end
