(* ===== verification/Dll.thy ===== *)
theory Dll
  imports Prelude
begin

text \<open>
  Doubly linked lists, as \<^verbatim>\<open>lib/linklist.c\<close> and the thread lists of
  \<^verbatim>\<open>lib/thread.c\<close> build them. Both are seen through their links, a map from addresses to
  \<open>(next, prev)\<close>; insertion and removal at any place are two lemmas.
\<close>

type_synonym links = "nat \<rightharpoonup> nat option \<times> nat option"

text \<open>
  \<open>seg lk p c xs l n\<close>: from the pointer \<open>c\<close>, whose node has the predecessor \<open>p\<close>, the links
  run through \<open>xs\<close> to the last node \<open>l\<close>, whose successor is \<open>n\<close>.
\<close>

fun seg :: "links \<Rightarrow> nat option \<Rightarrow> nat option \<Rightarrow> nat list \<Rightarrow> nat option \<Rightarrow> nat option \<Rightarrow> bool" where
  "seg lk p c [] l n \<longleftrightarrow> c = n \<and> l = p"
| "seg lk p c (x # xs) l n \<longleftrightarrow> c = Some x \<and> (\<exists>q. lk x = Some (q, p) \<and> seg lk (Some x) q xs l n)"

definition dll :: "links \<Rightarrow> nat option \<Rightarrow> nat option \<Rightarrow> nat list \<Rightarrow> bool" where
  "dll lk hd_p tl_p xs \<longleftrightarrow> seg lk None hd_p xs tl_p None \<and> distinct xs"

definition first_p :: "nat list \<Rightarrow> nat option" where
  "first_p xs = (case xs of [] \<Rightarrow> None | x # _ \<Rightarrow> Some x)"

definition last_p :: "nat list \<Rightarrow> nat option" where
  "last_p xs = (if xs = [] then None else Some (last xs))"

lemma first_p_simps [simp]: "first_p [] = None" "first_p (x # xs) = Some x"
  by (simp_all add: first_p_def)

lemma last_p_simps [simp]: "last_p [] = None" "last_p (xs @ [x]) = Some x"
  "last_p (x # xs) = (if xs = [] then Some x else last_p xs)"
  by (simp_all add: last_p_def)

lemma ptr_None [simp]: "first_p xs = None \<longleftrightarrow> xs = []" "last_p xs = None \<longleftrightarrow> xs = []"
  by (auto simp: first_p_def last_p_def split: list.splits)

lemma ptr_in_set: "first_p xs = Some x \<Longrightarrow> x \<in> set xs" "last_p xs = Some x \<Longrightarrow> x \<in> set xs"
  by (auto simp: first_p_def last_p_def split: list.splits if_splits)

lemma seg_append:
  "seg lk p c (xs @ ys) l n \<longleftrightarrow> (\<exists>k d. seg lk p c xs k d \<and> seg lk k d ys l n)"
  by (induction xs arbitrary: p c) auto

lemma seg_frame: "seg lk p c xs l n \<Longrightarrow> (\<And>x. x \<in> set xs \<Longrightarrow> lk' x = lk x) \<Longrightarrow> seg lk' p c xs l n"
  by (induction xs arbitrary: p c) auto

lemma seg_ends:
  "seg lk p c xs l n \<Longrightarrow> c = (if xs = [] then n else first_p xs) \<and> l = (if xs = [] then p else last_p xs)"
  by (induction xs arbitrary: p c) auto

lemma seg_dom: "seg lk p c xs l n \<Longrightarrow> set xs \<subseteq> dom lk"
  by (induction xs arbitrary: p c) auto

lemma seg_relink:
  assumes "seg lk p c xs l n" "distinct xs" "xs \<noteq> []"
    and "\<And>x q r. x \<in> set xs \<Longrightarrow> lk x = Some (q, r) \<Longrightarrow>
      lk' x = Some (if l = Some x then n' else q, if c = Some x then p' else r)"
  shows "seg lk' p' c xs l n'"
  using assms
proof (induction xs arbitrary: p c p')
  case (Cons x xs)
  from Cons.prems(1) obtain q where q: "c = Some x" "lk x = Some (q, p)" "seg lk (Some x) q xs l n"
    by auto
  have x': "lk' x = Some (if l = Some x then n' else q, p')" using Cons.prems(4) [of x q p] q by simp
  show ?case
  proof (cases "xs = []")
    case True
    then show ?thesis using q x' by simp
  next
    case False
    then have l: "l \<noteq> Some x" using seg_ends [OF q(3)] Cons.prems(2) by (auto simp: last_p_def)
    have "lk' y = Some (if l = Some y then n' else a, if q = Some y then Some x else r)"
      if y: "y \<in> set xs" "lk y = Some (a, r)" for y a r
    proof -
      have "y \<noteq> x" using y(1) Cons.prems(2) by auto
      moreover have "r = Some x" if "q = Some y"
        using q(3) that y(2) False by (cases xs) auto
      ultimately show ?thesis using Cons.prems(4) [of y a r] y q(1) by auto
    qed
    then have "seg lk' (Some x) q xs l n'"
      using Cons.IH [OF q(3) _ False] Cons.prems(2) by auto
    then show ?thesis using q(1) x' l by simp
  qed
qed simp

lemma seg_first_link: "seg lk p (Some x) xs l n \<Longrightarrow> xs \<noteq> [] \<Longrightarrow> lk x = Some (q, r) \<Longrightarrow> r = p"
  by (cases xs) auto

lemma seg_last_link:
  assumes "seg lk p c xs (Some x) n" "xs \<noteq> []" "lk x = Some (q, r)"
  shows "q = n"
proof -
  obtain ys y where "xs = ys @ [y]" using assms(2) by (cases xs rule: rev_cases) auto
  with assms show ?thesis by (auto simp: seg_append)
qed

lemma seg_relink_last:
  assumes "seg lk p c xs l n" "distinct xs" "xs \<noteq> []"
    and "\<And>x q r. x \<in> set xs \<Longrightarrow> lk x = Some (q, r) \<Longrightarrow> lk' x = Some (if l = Some x then n' else q, r)"
  shows "seg lk' p c xs l n'"
  using assms seg_first_link [of lk p _ xs l n] by (intro seg_relink [OF assms(1-3)]) auto

lemma seg_relink_first:
  assumes "seg lk p c xs l n" "distinct xs" "xs \<noteq> []"
    and "\<And>x q r. x \<in> set xs \<Longrightarrow> lk x = Some (q, r) \<Longrightarrow> lk' x = Some (q, if c = Some x then p' else r)"
  shows "seg lk' p' c xs l n"
  using assms seg_last_link [of lk p c xs _ n] by (intro seg_relink [OF assms(1-3)]) auto

text \<open>Insertion of \<open>x\<close> between \<open>xs\<close> and \<open>ys\<close>.\<close>

lemma dll_insert:
  assumes d: "dll lk h t (xs @ ys)" and x: "x \<notin> set (xs @ ys)"
    and new: "lk' x = Some (first_p ys, last_p xs)"
    and old: "\<And>y q r. y \<in> set (xs @ ys) \<Longrightarrow> lk y = Some (q, r) \<Longrightarrow>
      lk' y = Some (if last_p xs = Some y then Some x else q, if first_p ys = Some y then Some x else r)"
    and ends: "h' = (if xs = [] then Some x else h)" "t' = (if ys = [] then Some x else t)"
  shows "dll lk' h' t' (xs @ x # ys)"
proof -
  from d obtain k c where k: "seg lk None h xs k c" "seg lk k c ys t None" "distinct (xs @ ys)"
    by (auto simp: dll_def seg_append)
  note e1 = seg_ends [OF k(1)] and e2 = seg_ends [OF k(2)]
  have dis: "last_p xs \<noteq> Some y" if "y \<in> set ys" for y
    using k(3) that by (auto simp: last_p_def split: if_splits dest: last_in_set)
  have dis': "first_p ys \<noteq> Some y" if "y \<in> set xs" for y
    using k(3) that by (cases ys) auto
  have "seg lk' None (if xs = [] then Some x else h) xs (last_p xs) (Some x)"
  proof (cases "xs = []")
    case False
    have "seg lk' None h xs k (Some x)"
      using e1 False old dis' k(3) by (intro seg_relink_last [OF k(1) _ False]) auto
    with False e1 show ?thesis by simp
  qed simp
  moreover have "seg lk' (Some x) (first_p ys) ys t' None"
  proof (cases "ys = []")
    case False
    have "seg lk' (Some x) c ys t None"
      using e2 False old dis k(3) by (intro seg_relink_first [OF k(2) _ False]) auto
    with False e2 ends show ?thesis by simp
  qed (simp add: ends)
  ultimately have "seg lk' None h' (xs @ x # ys) t' None"
    using new ends by (auto simp: seg_append)
  then show ?thesis using k(3) x by (auto simp: dll_def)
qed

text \<open>Removal of \<open>x\<close> between \<open>xs\<close> and \<open>ys\<close>.\<close>

lemma dll_remove:
  assumes d: "dll lk h t (xs @ x # ys)"
    and old: "\<And>y q r. y \<in> set (xs @ ys) \<Longrightarrow> lk y = Some (q, r) \<Longrightarrow>
      lk' y = Some (if last_p xs = Some y then first_p ys else q, if first_p ys = Some y then last_p xs else r)"
    and ends: "h' = (if xs = [] then first_p ys else h)" "t' = (if ys = [] then last_p xs else t)"
  shows "dll lk' h' t' (xs @ ys)"
proof -
  from d obtain k q where k: "seg lk None h xs k (Some x)" "lk x = Some (q, k)" "seg lk (Some x) q ys t None"
    "distinct (xs @ x # ys)" by (auto simp: dll_def seg_append)
  note e1 = seg_ends [OF k(1)] and e2 = seg_ends [OF k(3)]
  have dis: "last_p xs \<noteq> Some y" if "y \<in> set ys" for y
    using k(4) that by (auto simp: last_p_def split: if_splits dest: last_in_set)
  have dis': "first_p ys \<noteq> Some y" if "y \<in> set xs" for y
    using k(4) that by (cases ys) auto
  have "seg lk' None h' xs (last_p xs) (first_p ys)"
  proof (cases "xs = []")
    case False
    have "seg lk' None h xs k (first_p ys)"
      using e1 False old dis' k(4) by (intro seg_relink_last [OF k(1) _ False]) auto
    with False e1 ends show ?thesis by simp
  qed (simp add: ends)
  moreover have "seg lk' (last_p xs) (first_p ys) ys t' None"
  proof (cases "ys = []")
    case False
    have "seg lk' (last_p xs) q ys t None"
      using e2 False old dis k(4) by (intro seg_relink_first [OF k(3) _ False]) auto
    with False e2 ends show ?thesis by simp
  qed (simp add: ends)
  ultimately show ?thesis using k(4) by (auto simp: dll_def seg_append)
qed

text \<open>What the links of a node in the list say.\<close>

lemma dll_node:
  assumes "dll lk h t (xs @ x # ys)"
  shows "lk x = Some (first_p ys, last_p xs)" "h = first_p (xs @ x # ys)" "t = last_p (xs @ x # ys)"
proof -
  from assms obtain k q where k: "seg lk None h xs k (Some x)" "lk x = Some (q, k)" "seg lk (Some x) q ys t None"
    by (auto simp: dll_def seg_append)
  show "lk x = Some (first_p ys, last_p xs)"
    using k(2) seg_ends [OF k(1)] seg_ends [OF k(3)] by (auto split: if_splits)
  show "h = first_p (xs @ x # ys)" "t = last_p (xs @ x # ys)"
    using assms seg_ends [of lk None h "xs @ x # ys" t None] by (auto simp: dll_def)
qed

lemma dll_ends: "dll lk h t xs \<Longrightarrow> h = first_p xs \<and> t = last_p xs"
  using seg_ends [of lk None h xs t None] by (auto simp: dll_def split: if_splits)

end
