(* ===== verification/Thread.thy ===== *)
theory Thread
  imports Clock Pqueue Dll "HOL-Library.Signed_Division"
begin

text \<open>
  The scheduler of \<^verbatim>\<open>lib/thread.c\<close>. All threads live in one memory, a function from
  addresses below \<open>m_brk\<close>; the lists are threaded through their \<open>next\<close> and
  \<open>prev\<close> fields and the two timer queues are heaps of addresses that store a thread's
  position in its \<open>index\<close>. The members of \<open>struct thread_master\<close> that have the same type
  and are passed to the same functions by address are functions of a member name:
  \<open>m_list m LRead\<close> is \<open>m->read\<close>, \<open>m_queue m QTimer\<close> is \<open>m->timer\<close>,
  \<open>m_fd m ReadFd\<close> is \<open>m->readfd\<close>. Function and argument pointers are numbers.
\<close>

section \<open>Data\<close>

datatype thread_type =
    THREAD_READ | THREAD_WRITE | THREAD_TIMER | THREAD_EVENT
  | THREAD_READY | THREAD_BACKGROUND | THREAD_UNUSED | THREAD_EXECUTE

fun type_code :: "thread_type \<Rightarrow> nat" where
  "type_code THREAD_READ = 0"
| "type_code THREAD_WRITE = 1"
| "type_code THREAD_TIMER = 2"
| "type_code THREAD_EVENT = 3"
| "type_code THREAD_READY = 4"
| "type_code THREAD_BACKGROUND = 5"
| "type_code THREAD_UNUSED = 6"
| "type_code THREAD_EXECUTE = 7"

text \<open>The union \<open>u\<close> of a thread, with the member last written.\<close>

datatype thread_u = U_val int | U_fd int | U_sands timeval

fun u_fd :: "thread_u \<Rightarrow> int" where
  "u_fd (U_fd fd) = fd"
| "u_fd (U_val v) = v"
| "u_fd (U_sands t) = 0"

fun u_sands :: "thread_u \<Rightarrow> timeval" where
  "u_sands (U_sands t) = t"
| "u_sands (U_fd fd) = zero_time"
| "u_sands (U_val v) = zero_time"

text \<open>Where a thread was scheduled: function name, file and line.\<close>

type_synonym debugargs = "string \<times> string \<times> int"

record thread =
  th_type :: thread_type
  th_add_type :: thread_type
  th_next :: "nat option"
  th_prev :: "nat option"
  th_func :: nat
  th_arg :: nat
  th_u :: thread_u
  th_index :: int
  th_real :: timeval
  th_hist :: "nat option"
  th_debug :: debugargs

definition zero_thread :: thread where
  "zero_thread = \<lparr>th_type = THREAD_READ, th_add_type = THREAD_READ, th_next = None, th_prev = None,
     th_func = 0, th_arg = 0, th_u = U_val 0, th_index = 0, th_real = zero_time, th_hist = None,
     th_debug = ([], [], 0)\<rparr>"

record thread_list =
  tl_head :: "nat option"
  tl_tail :: "nat option"
  tl_count :: int

datatype lname = LRead | LWrite | LEvent | LReady | LUnuse
datatype qname = QTimer | QBackground
datatype fdname = ReadFd | WriteFd | ExceptFd

record thread_master =
  m_list :: "lname \<Rightarrow> thread_list"
  m_queue :: "qname \<Rightarrow> nat pqueue"
  m_fd :: "fdname \<Rightarrow> int set"
  m_alloc :: nat
  m_mem :: "nat \<Rightarrow> thread"
  m_brk :: nat
  m_clock :: clock

definition th_at :: "thread_master \<Rightarrow> nat \<Rightarrow> thread res" where
  "th_at m a = (if a < m_brk m then Inr (m_mem m a) else Inl NullDeref)"

definition upd_th :: "nat \<Rightarrow> (thread \<Rightarrow> thread) \<Rightarrow> thread_master \<Rightarrow> thread_master res" where
  "upd_th a f m = and_then (th_at m a) (\<lambda>t. Inr (m\<lparr>m_mem := (m_mem m)(a := f t)\<rparr>))"

definition upd_list :: "lname \<Rightarrow> (thread_list \<Rightarrow> thread_list) \<Rightarrow> thread_master \<Rightarrow> thread_master" where
  "upd_list l f m = m\<lparr>m_list := (m_list m)(l := f (m_list m l))\<rparr>"

section \<open>Timer queues\<close>

definition thread_timer_cmp :: "(nat \<Rightarrow> thread) \<Rightarrow> nat \<Rightarrow> nat \<Rightarrow> int" where
  "thread_timer_cmp mem a b =
     (let c = timeval_cmp (u_sands (th_u (mem a))) (u_sands (th_u (mem b)))
      in if c < 0 then -1 else if c > 0 then 1 else 0)"

definition thread_timer_update :: "nat \<Rightarrow> nat \<Rightarrow> (nat \<Rightarrow> thread) \<Rightarrow> nat \<Rightarrow> thread" where
  "thread_timer_update node actual_position mem =
     mem(node := (mem node)\<lparr>th_index := int actual_position\<rparr>)"

text \<open>The queue operations on the memory of the threads. The update callback changes no deadline,
  so the comparison callback can be given the memory at the call.\<close>

definition enqueue_timer :: "qname \<Rightarrow> nat \<Rightarrow> thread_master \<Rightarrow> thread_master res" where
  "enqueue_timer q x m =
     and_then (pqueue_enqueue 0 (thread_timer_cmp (m_mem m)) thread_timer_update x (m_queue m q) (m_mem m))
       (\<lambda>(Q, mem). Inr (m\<lparr>m_queue := (m_queue m)(q := Q), m_mem := mem\<rparr>))"

definition dequeue_timer :: "qname \<Rightarrow> thread_master \<Rightarrow> thread_master res" where
  "dequeue_timer q m =
     and_then (pqueue_dequeue (thread_timer_cmp (m_mem m)) thread_timer_update (m_queue m q) (m_mem m))
       (\<lambda>(Q, mem, _). Inr (m\<lparr>m_queue := (m_queue m)(q := Q), m_mem := mem\<rparr>))"

definition remove_timer :: "nat \<Rightarrow> qname \<Rightarrow> thread_master \<Rightarrow> thread_master res" where
  "remove_timer i q m =
     and_then (pqueue_remove_at (thread_timer_cmp (m_mem m)) thread_timer_update i (m_queue m q) (m_mem m))
       (\<lambda>(Q, mem). Inr (m\<lparr>m_queue := (m_queue m)(q := Q), m_mem := mem\<rparr>))"

section \<open>The thread master and its lists\<close>

definition thread_master_create :: "clock \<Rightarrow> thread_master" where
  "thread_master_create c =
     \<lparr>m_list = (\<lambda>_. \<lparr>tl_head = None, tl_tail = None, tl_count = 0\<rparr>),
      m_queue = (\<lambda>_. pqueue_create 0), m_fd = (\<lambda>_. {}), m_alloc = 0,
      m_mem = (\<lambda>_. zero_thread), m_brk = 0, m_clock = c\<rparr>"

definition thread_list_add :: "lname \<Rightarrow> nat \<Rightarrow> thread_master \<Rightarrow> thread_master res" where
  "thread_list_add l x m =
     and_then (upd_th x (\<lambda>t. t\<lparr>th_next := None, th_prev := tl_tail (m_list m l)\<rparr>) m) (\<lambda>m.
     and_then (case tl_tail (m_list m l) of
                 Some a \<Rightarrow> upd_th a (\<lambda>t. t\<lparr>th_next := Some x\<rparr>) m
               | None \<Rightarrow> Inr (upd_list l (\<lambda>L. L\<lparr>tl_head := Some x\<rparr>) m)) (\<lambda>m.
     Inr (upd_list l (\<lambda>L. L\<lparr>tl_tail := Some x, tl_count := tl_count L + 1\<rparr>) m)))"

definition thread_list_delete :: "lname \<Rightarrow> nat \<Rightarrow> thread_master \<Rightarrow> thread_master res" where
  "thread_list_delete l x m =
     and_then (th_at m x) (\<lambda>t.
     and_then (case th_next t of
                 Some a \<Rightarrow> upd_th a (\<lambda>n. n\<lparr>th_prev := th_prev t\<rparr>) m
               | None \<Rightarrow> Inr (upd_list l (\<lambda>L. L\<lparr>tl_tail := th_prev t\<rparr>) m)) (\<lambda>m.
     and_then (th_at m x) (\<lambda>t.
     and_then (case th_prev t of
                 Some a \<Rightarrow> upd_th a (\<lambda>n. n\<lparr>th_next := th_next t\<rparr>) m
               | None \<Rightarrow> Inr (upd_list l (\<lambda>L. L\<lparr>tl_head := th_next t\<rparr>) m)) (\<lambda>m.
     and_then (upd_th x (\<lambda>t. t\<lparr>th_next := None, th_prev := None\<rparr>) m) (\<lambda>m.
     Inr (upd_list l (\<lambda>L. L\<lparr>tl_count := tl_count L - 1\<rparr>) m))))))"

definition thread_add_unuse :: "nat \<Rightarrow> thread_master \<Rightarrow> thread_master res" where
  "thread_add_unuse x m =
     and_then (th_at m x) (\<lambda>t.
     and_then (ensure (th_next t = None)) (\<lambda>_.
     and_then (ensure (th_prev t = None)) (\<lambda>_.
     and_then (ensure (th_type t = THREAD_UNUSED)) (\<lambda>_.
     thread_list_add LUnuse x m))))"

definition thread_empty :: "lname \<Rightarrow> thread_master \<Rightarrow> bool" where
  "thread_empty l m = (case tl_head (m_list m l) of None \<Rightarrow> True | Some _ \<Rightarrow> False)"

definition thread_trim_head :: "lname \<Rightarrow> thread_master \<Rightarrow> (thread_master \<times> nat option) res" where
  "thread_trim_head l m =
     (case tl_head (m_list m l) of
        Some x \<Rightarrow> and_then (thread_list_delete l x m) (\<lambda>m. Inr (m, Some x))
      | None \<Rightarrow> Inr (m, None))"

text \<open>Freeing: the addresses given to \<open>XFREE\<close>, in order, and the remaining count. The walk
  reads \<open>next\<close> before it frees the thread.\<close>

definition walk_fuel :: "thread_master \<Rightarrow> nat" where
  "walk_fuel m = Suc (m_brk m)"

fun list_free_walk :: "nat \<Rightarrow> nat option \<Rightarrow> thread_master \<Rightarrow> nat list res" where
  "list_free_walk 0 c m = Inl Diverged"
| "list_free_walk (Suc fuel) c m =
     (case c of
        None \<Rightarrow> Inr []
      | Some x \<Rightarrow> and_then (th_at m x) (\<lambda>t.
          and_then (list_free_walk fuel (th_next t) m) (\<lambda>xs. Inr (x # xs))))"

definition thread_list_free :: "lname \<Rightarrow> thread_master \<Rightarrow> nat list res" where
  "thread_list_free l m = list_free_walk (walk_fuel m) (tl_head (m_list m l)) m"

definition thread_queue_free :: "qname \<Rightarrow> thread_master \<Rightarrow> nat list" where
  "thread_queue_free q m = take (pq_size (m_queue m q)) (pq_array (m_queue m q))"

text \<open>The freed addresses and the value \<open>m->alloc\<close> ends with.\<close>

definition thread_master_free :: "thread_master \<Rightarrow> (nat list \<times> int) res" where
  "thread_master_free m =
     and_then (thread_list_free LRead m) (\<lambda>r.
     and_then (thread_list_free LWrite m) (\<lambda>w.
     let t = thread_queue_free QTimer m
     in and_then (thread_list_free LEvent m) (\<lambda>e.
        and_then (thread_list_free LReady m) (\<lambda>y.
        and_then (thread_list_free LUnuse m) (\<lambda>u.
        let b = thread_queue_free QBackground m; freed = r @ w @ t @ e @ y @ u @ b
        in Inr (freed, int (m_alloc m) - int (length freed)))))))"

section \<open>Scheduling\<close>

definition get_relative :: "reading \<Rightarrow> thread_master \<Rightarrow> thread_master" where
  "get_relative r m = m\<lparr>m_clock := fst (quagga_get_relative r (m_clock m))\<rparr>"

definition thread_timer_remain_second :: "reading \<Rightarrow> nat \<Rightarrow> thread_master \<Rightarrow> (thread_master \<times> nat) res" where
  "thread_timer_remain_second r x m =
     (let m = get_relative r m
      in and_then (th_at m x) (\<lambda>t.
           let d = tv_sec (u_sands (th_u t)) - tv_sec (relative_time (m_clock m))
           in Inr (m, if d > 0 then nat d else 0)))"

definition thread_get ::
    "thread_type \<Rightarrow> nat \<Rightarrow> nat \<Rightarrow> debugargs \<Rightarrow> thread_master \<Rightarrow> (thread_master \<times> nat) res" where
  "thread_get ty func arg dbg m =
     and_then (thread_trim_head LUnuse m) (\<lambda>(m, t).
       let (m, x) = (case t of
             Some x \<Rightarrow> (m, x)
           | None \<Rightarrow> (m\<lparr>m_mem := (m_mem m)(m_brk m := zero_thread), m_alloc := Suc (m_alloc m),
                        m_brk := Suc (m_brk m)\<rparr>, m_brk m))
       in and_then (upd_th x (\<lambda>t. t\<lparr>th_type := ty, th_add_type := ty, th_func := func, th_arg := arg,
                                   th_index := -1, th_debug := dbg\<rparr>) m) (\<lambda>m. Inr (m, x)))"

text \<open>An \<open>fd_set\<close> is an array of \<open>FD_SETSIZE\<close> bits, and its macros do not check the descriptor: one
  below 0 or from \<open>FD_SETSIZE\<close> on is an access outside the array.\<close>

definition FD_SETSIZE :: int where
  "FD_SETSIZE = 1024"

definition fd_valid :: "int \<Rightarrow> bool" where
  "fd_valid fd \<longleftrightarrow> 0 \<le> fd \<and> fd < FD_SETSIZE"

definition FD_ISSET :: "int \<Rightarrow> int set \<Rightarrow> bool res" where
  "FD_ISSET fd s = (if fd_valid fd then Inr (fd \<in> s) else Inl OutOfBounds)"

definition fd_with :: "int \<Rightarrow> fdname \<Rightarrow> thread_master \<Rightarrow> thread_master" where
  "fd_with fd n m = m\<lparr>m_fd := (m_fd m)(n := insert fd (m_fd m n))\<rparr>"

definition fd_without :: "int \<Rightarrow> fdname \<Rightarrow> thread_master \<Rightarrow> thread_master" where
  "fd_without fd n m = m\<lparr>m_fd := (m_fd m)(n := m_fd m n - {fd})\<rparr>"

definition FD_SET :: "int \<Rightarrow> fdname \<Rightarrow> thread_master \<Rightarrow> thread_master res" where
  "FD_SET fd n m = (if fd_valid fd then Inr (fd_with fd n m) else Inl OutOfBounds)"

definition FD_CLR :: "int \<Rightarrow> fdname \<Rightarrow> thread_master \<Rightarrow> thread_master res" where
  "FD_CLR fd n m = (if fd_valid fd then Inr (fd_without fd n m) else Inl OutOfBounds)"

definition funcname_thread_add_read ::
    "thread_master \<Rightarrow> nat \<Rightarrow> nat \<Rightarrow> int \<Rightarrow> debugargs \<Rightarrow> (thread_master \<times> nat option) res" where
  "funcname_thread_add_read m func arg fd dbg =
     and_then (FD_ISSET fd (m_fd m ReadFd)) (\<lambda>b.
       if b then Inr (m, None)
       else and_then (thread_get THREAD_READ func arg dbg m) (\<lambda>(m, x).
            and_then (FD_SET fd ReadFd m) (\<lambda>m.
            and_then (upd_th x (\<lambda>t. t\<lparr>th_u := U_fd fd\<rparr>) m) (\<lambda>m.
            and_then (thread_list_add LRead x m) (\<lambda>m. Inr (m, Some x))))))"

definition funcname_thread_add_write ::
    "thread_master \<Rightarrow> nat \<Rightarrow> nat \<Rightarrow> int \<Rightarrow> debugargs \<Rightarrow> (thread_master \<times> nat option) res" where
  "funcname_thread_add_write m func arg fd dbg =
     and_then (FD_ISSET fd (m_fd m WriteFd)) (\<lambda>b.
       if b then Inr (m, None)
       else and_then (thread_get THREAD_WRITE func arg dbg m) (\<lambda>(m, x).
            and_then (FD_SET fd WriteFd m) (\<lambda>m.
            and_then (upd_th x (\<lambda>t. t\<lparr>th_u := U_fd fd\<rparr>) m) (\<lambda>m.
            and_then (thread_list_add LWrite x m) (\<lambda>m. Inr (m, Some x))))))"

definition funcname_thread_add_timer_timeval ::
    "reading \<Rightarrow> thread_master \<Rightarrow> nat \<Rightarrow> thread_type \<Rightarrow> nat \<Rightarrow> timeval \<Rightarrow> debugargs \<Rightarrow> (thread_master \<times> nat option) res"
where
  "funcname_thread_add_timer_timeval r m func ty arg time_relative dbg =
     and_then (ensure (ty = THREAD_TIMER \<or> ty = THREAD_BACKGROUND)) (\<lambda>_.
       let queue = (if ty = THREAD_TIMER then QTimer else QBackground)
       in and_then (thread_get ty func arg dbg m) (\<lambda>(m, x).
          let m = get_relative r m; now = relative_time (m_clock m);
              alarm_time = \<lparr>tv_sec = tv_sec now + tv_sec time_relative,
                            tv_usec = tv_usec now + tv_usec time_relative\<rparr>
          in and_then (upd_th x (\<lambda>t. t\<lparr>th_u := U_sands (timeval_adjust alarm_time)\<rparr>) m) (\<lambda>m.
             and_then (enqueue_timer queue x m) (\<lambda>m. Inr (m, Some x)))))"

definition funcname_thread_add_timer ::
    "reading \<Rightarrow> thread_master \<Rightarrow> nat \<Rightarrow> nat \<Rightarrow> int \<Rightarrow> debugargs \<Rightarrow> (thread_master \<times> nat option) res" where
  "funcname_thread_add_timer r m func arg timer dbg =
     funcname_thread_add_timer_timeval r m func THREAD_TIMER arg \<lparr>tv_sec = timer, tv_usec = 0\<rparr> dbg"

definition funcname_thread_add_timer_msec ::
    "reading \<Rightarrow> thread_master \<Rightarrow> nat \<Rightarrow> nat \<Rightarrow> int \<Rightarrow> debugargs \<Rightarrow> (thread_master \<times> nat option) res" where
  "funcname_thread_add_timer_msec r m func arg timer dbg =
     funcname_thread_add_timer_timeval r m func THREAD_TIMER arg
       \<lparr>tv_sec = timer sdiv 1000, tv_usec = 1000 * (timer smod 1000)\<rparr> dbg"

definition funcname_thread_add_background ::
    "reading \<Rightarrow> thread_master \<Rightarrow> nat \<Rightarrow> nat \<Rightarrow> int \<Rightarrow> debugargs \<Rightarrow> (thread_master \<times> nat option) res" where
  "funcname_thread_add_background r m func arg delay dbg =
     funcname_thread_add_timer_timeval r m func THREAD_BACKGROUND arg
       (if delay \<noteq> 0 then \<lparr>tv_sec = delay sdiv 1000, tv_usec = 1000 * (delay smod 1000)\<rparr>
        else \<lparr>tv_sec = 0, tv_usec = 0\<rparr>) dbg"

definition funcname_thread_add_event ::
    "thread_master \<Rightarrow> nat \<Rightarrow> nat \<Rightarrow> int \<Rightarrow> debugargs \<Rightarrow> (thread_master \<times> nat option) res" where
  "funcname_thread_add_event m func arg val dbg =
     and_then (thread_get THREAD_EVENT func arg dbg m) (\<lambda>(m, x).
     and_then (upd_th x (\<lambda>t. t\<lparr>th_u := U_val val\<rparr>) m) (\<lambda>m.
     and_then (thread_list_add LEvent x m) (\<lambda>m. Inr (m, Some x))))"

section \<open>Cancelling\<close>

text \<open>The last two statements of \<open>thread_cancel\<close>, which the other operations repeat.\<close>

definition to_unuse :: "nat \<Rightarrow> thread_master \<Rightarrow> thread_master res" where
  "to_unuse x m = and_then (upd_th x (\<lambda>t. t\<lparr>th_type := THREAD_UNUSED\<rparr>) m) (thread_add_unuse x)"

definition cancel_queue :: "nat \<Rightarrow> qname \<Rightarrow> thread_master \<Rightarrow> thread_master res" where
  "cancel_queue x q m =
     and_then (th_at m x) (\<lambda>t.
     and_then (ensure (th_index t \<ge> 0)) (\<lambda>_.
     and_then (slot (pq_array (m_queue m q)) (nat (th_index t))) (\<lambda>y.
     and_then (ensure (x = y)) (\<lambda>_.
     remove_timer (nat (th_index t)) q m))))"

definition thread_cancel :: "nat \<Rightarrow> thread_master \<Rightarrow> thread_master res" where
  "thread_cancel x m =
     and_then (th_at m x) (\<lambda>t.
       case th_type t of
         THREAD_READ \<Rightarrow>
           and_then (and_then (FD_ISSET (u_fd (th_u t)) (m_fd m ReadFd)) ensure) (\<lambda>_.
           and_then (FD_CLR (u_fd (th_u t)) ReadFd m) (\<lambda>m.
           and_then (thread_list_delete LRead x m) (to_unuse x)))
       | THREAD_WRITE \<Rightarrow>
           and_then (and_then (FD_ISSET (u_fd (th_u t)) (m_fd m WriteFd)) ensure) (\<lambda>_.
           and_then (FD_CLR (u_fd (th_u t)) WriteFd m) (\<lambda>m.
           and_then (thread_list_delete LWrite x m) (to_unuse x)))
       | THREAD_TIMER \<Rightarrow> and_then (cancel_queue x QTimer m) (to_unuse x)
       | THREAD_EVENT \<Rightarrow> and_then (thread_list_delete LEvent x m) (to_unuse x)
       | THREAD_READY \<Rightarrow> and_then (thread_list_delete LReady x m) (to_unuse x)
       | THREAD_BACKGROUND \<Rightarrow> and_then (cancel_queue x QBackground m) (to_unuse x)
       | _ \<Rightarrow> Inr m)"

fun cancel_walk :: "nat \<Rightarrow> lname \<Rightarrow> nat \<Rightarrow> nat option \<Rightarrow> nat \<Rightarrow> thread_master \<Rightarrow> (thread_master \<times> nat) res" where
  "cancel_walk 0 l arg c ret m = Inl Diverged"
| "cancel_walk (Suc fuel) l arg c ret m =
     (case c of
        None \<Rightarrow> Inr (m, ret)
      | Some x \<Rightarrow> and_then (th_at m x) (\<lambda>t.
          if th_arg t = arg
          then and_then (thread_list_delete l x m) (\<lambda>m.
               and_then (to_unuse x m) (\<lambda>m. cancel_walk fuel l arg (th_next t) (Suc ret) m))
          else cancel_walk fuel l arg (th_next t) ret m))"

definition thread_cancel_event :: "nat \<Rightarrow> thread_master \<Rightarrow> (thread_master \<times> nat) res" where
  "thread_cancel_event arg m =
     and_then (cancel_walk (walk_fuel m) LEvent arg (tl_head (m_list m LEvent)) 0 m) (\<lambda>(m, ret).
       cancel_walk (walk_fuel m) LReady arg (tl_head (m_list m LReady)) ret m)"

section \<open>Running\<close>

definition thread_timer_wait :: "qname \<Rightarrow> thread_master \<Rightarrow> timeval option res" where
  "thread_timer_wait q m =
     (if pq_size (m_queue m q) \<noteq> 0
      then and_then (slot (pq_array (m_queue m q)) 0) (\<lambda>x.
           and_then (th_at m x) (\<lambda>t.
             Inr (Some (timeval_subtract (u_sands (th_u t)) (relative_time (m_clock m))))))
      else Inr None)"

definition thread_run :: "nat \<Rightarrow> thread_master \<Rightarrow> (thread_master \<times> thread) res" where
  "thread_run x m = and_then (th_at m x) (\<lambda>fetch. and_then (to_unuse x m) (\<lambda>m. Inr (m, fetch)))"

fun process_fd_walk ::
    "nat \<Rightarrow> lname \<Rightarrow> int set \<Rightarrow> fdname \<Rightarrow> nat option \<Rightarrow> nat \<Rightarrow> thread_master \<Rightarrow> (thread_master \<times> nat) res" where
  "process_fd_walk 0 l fdset mfd c ready m = Inl Diverged"
| "process_fd_walk (Suc fuel) l fdset mfd c ready m =
     (case c of
        None \<Rightarrow> Inr (m, ready)
      | Some x \<Rightarrow> and_then (th_at m x) (\<lambda>t.
          and_then (FD_ISSET (u_fd (th_u t)) fdset) (\<lambda>b.
            if b
            then and_then (and_then (FD_ISSET (u_fd (th_u t)) (m_fd m mfd)) ensure) (\<lambda>_.
                 and_then (FD_CLR (u_fd (th_u t)) mfd m) (\<lambda>m.
                 and_then (thread_list_delete l x m) (\<lambda>m.
                 and_then (thread_list_add LReady x m) (\<lambda>m.
                 and_then (upd_th x (\<lambda>t. t\<lparr>th_type := THREAD_READY\<rparr>) m) (\<lambda>m.
                 process_fd_walk fuel l fdset mfd (th_next t) (Suc ready) m)))))
            else process_fd_walk fuel l fdset mfd (th_next t) ready m)))"

definition thread_process_fd :: "lname \<Rightarrow> int set \<Rightarrow> fdname \<Rightarrow> thread_master \<Rightarrow> (thread_master \<times> nat) res" where
  "thread_process_fd l fdset mfd m = process_fd_walk (walk_fuel m) l fdset mfd (tl_head (m_list m l)) 0 m"

text \<open>The thread becomes ready: its type, then the list, as in the timer and event loops.\<close>

definition make_ready :: "nat \<Rightarrow> thread_master \<Rightarrow> thread_master res" where
  "make_ready x m =
     and_then (upd_th x (\<lambda>t. t\<lparr>th_type := THREAD_READY\<rparr>) m) (thread_list_add LReady x)"

fun timer_walk :: "nat \<Rightarrow> qname \<Rightarrow> timeval \<Rightarrow> nat \<Rightarrow> thread_master \<Rightarrow> (thread_master \<times> nat) res" where
  "timer_walk 0 q now ready m = Inl Diverged"
| "timer_walk (Suc fuel) q now ready m =
     (if pq_size (m_queue m q) \<noteq> 0
      then and_then (slot (pq_array (m_queue m q)) 0) (\<lambda>x.
           and_then (th_at m x) (\<lambda>t.
             if timeval_cmp now (u_sands (th_u t)) < 0 then Inr (m, ready)
             else and_then (dequeue_timer q m) (\<lambda>m.
                  and_then (make_ready x m) (\<lambda>m. timer_walk fuel q now (Suc ready) m))))
      else Inr (m, ready))"

definition thread_timer_process :: "qname \<Rightarrow> timeval \<Rightarrow> thread_master \<Rightarrow> (thread_master \<times> nat) res" where
  "thread_timer_process q timenow m = timer_walk (Suc (pq_size (m_queue m q))) q timenow 0 m"

fun process_walk :: "nat \<Rightarrow> lname \<Rightarrow> nat option \<Rightarrow> nat \<Rightarrow> thread_master \<Rightarrow> (thread_master \<times> nat) res" where
  "process_walk 0 l c ready m = Inl Diverged"
| "process_walk (Suc fuel) l c ready m =
     (case c of
        None \<Rightarrow> Inr (m, ready)
      | Some x \<Rightarrow> and_then (th_at m x) (\<lambda>t.
          and_then (thread_list_delete l x m) (\<lambda>m.
          and_then (make_ready x m) (\<lambda>m. process_walk fuel l (th_next t) (Suc ready) m))))"

definition thread_process :: "lname \<Rightarrow> thread_master \<Rightarrow> (thread_master \<times> nat) res" where
  "thread_process l m = process_walk (walk_fuel m) l (tl_head (m_list m l)) 0 m"

text \<open>
  One turn of the loop of \<open>thread_fetch\<close> sees an environment: what the signal handlers run by
  \<open>quagga_sigevent_process\<close> do, two readings of the clock, and \<open>select\<close>, which gets the
  descriptor sets and the timeout (\<open>None\<close> waits for ever) and may store the time left in the
  timeout. The SNMP parts are not compiled in.
\<close>

datatype select_result =
    Selected int "int set" "int set"   \<comment> \<open>the number returned, the readable and the writable descriptors\<close>
  | SelectIntr                        \<comment> \<open>\<open>EINTR\<close>\<close>
  | SelectError                       \<comment> \<open>any other error\<close>

record fetch_env =
  fe_sig :: "thread_master \<Rightarrow> thread_master"
  fe_now1 :: reading
  fe_select :: "int set \<Rightarrow> int set \<Rightarrow> timeval option \<Rightarrow> select_result"
  fe_left :: "timeval \<Rightarrow> timeval"
  fe_now2 :: reading

datatype fetched =
    Fetched thread   \<comment> \<open>the copy in the caller's buffer\<close>
  | FetchNull        \<comment> \<open>\<open>NULL\<close> after an error of \<open>select\<close>\<close>
  | Waiting          \<comment> \<open>the given environments are used up, the loop goes on\<close>

text \<open>The wait computed when nothing is ready, else the one left from the turn before.\<close>

definition select_wait :: "reading \<Rightarrow> timeval option \<Rightarrow> thread_master \<Rightarrow> (thread_master \<times> timeval option) res" where
  "select_wait r timer_wait m =
     (if tl_count (m_list m LReady) = 0
      then let m = get_relative r m
        in and_then (thread_timer_wait QTimer m) (\<lambda>w.
           and_then (thread_timer_wait QBackground m) (\<lambda>bg.
             Inr (m, case bg of
                 None \<Rightarrow> w
               | Some b \<Rightarrow> (case w of None \<Rightarrow> bg | Some a \<Rightarrow> if timeval_cmp a b > 0 then bg else w))))
      else Inr (m, timer_wait))"

definition run_ready :: "thread_master \<Rightarrow> (thread_master \<times> thread option) res" where
  "run_ready m =
     and_then (thread_trim_head LReady m) (\<lambda>(m, x).
       case x of
         Some a \<Rightarrow> and_then (thread_run a m) (\<lambda>(m, fetch). Inr (m, Some fetch))
       | None \<Rightarrow> Inr (m, None))"

definition process_ready :: "fetch_env \<Rightarrow> int \<Rightarrow> int set \<Rightarrow> int set \<Rightarrow> thread_master \<Rightarrow> thread_master res" where
  "process_ready e num readfd writefd m =
     (let m = get_relative (fe_now2 e) m
      in and_then (thread_timer_process QTimer (relative_time (m_clock m)) m) (\<lambda>(m, _).
         and_then (if num > 0
                   then and_then (thread_process_fd LRead readfd ReadFd m) (\<lambda>(m, _).
                        and_then (thread_process_fd LWrite writefd WriteFd m) (\<lambda>(m, _). Inr m))
                   else Inr m) (\<lambda>m.
         and_then (thread_timer_process QBackground (relative_time (m_clock m)) m) (\<lambda>(m, _). Inr m))))"

fun fetch_loop :: "fetch_env list \<Rightarrow> timeval option \<Rightarrow> thread_master \<Rightarrow> (thread_master \<times> fetched) res" where
  "fetch_loop [] timer_wait m = Inr (m, Waiting)"
| "fetch_loop (e # es) timer_wait m =
     and_then (run_ready (fe_sig e m)) (\<lambda>(m, f).
       case f of
         Some fetch \<Rightarrow> Inr (m, Fetched fetch)
       | None \<Rightarrow>
         and_then (thread_process LEvent m) (\<lambda>(m, _).
         and_then (select_wait (fe_now1 e) timer_wait m) (\<lambda>(m, timer_wait).
           let left = map_option (fe_left e) timer_wait
           in case fe_select e (m_fd m ReadFd) (m_fd m WriteFd) timer_wait of
                SelectIntr \<Rightarrow> fetch_loop es left m
              | SelectError \<Rightarrow> Inr (m, FetchNull)
              | Selected num readfd writefd \<Rightarrow>
                  and_then (process_ready e num readfd writefd m) (\<lambda>m.
                  and_then (run_ready m) (\<lambda>(m, f).
                    case f of
                      Some fetch \<Rightarrow> Inr (m, Fetched fetch)
                    | None \<Rightarrow> fetch_loop es left m)))))"

definition thread_fetch :: "fetch_env list \<Rightarrow> thread_master \<Rightarrow> (thread_master \<times> fetched) res" where
  "thread_fetch es m = fetch_loop es (Some zero_time) m"

definition THREAD_YIELD_TIME_SLOT :: u64 where
  "THREAD_YIELD_TIME_SLOT = 10 * 1000"

definition thread_should_yield :: "reading \<Rightarrow> thread \<Rightarrow> thread_master \<Rightarrow> thread_master \<times> bool" where
  "thread_should_yield r t m =
     (let m = get_relative r m
      in (m, timeval_elapsed (relative_time (m_clock m)) (th_real t) > THREAD_YIELD_TIME_SLOT))"

section \<open>Run-time statistics\<close>

record time_stats =
  ts_total :: u64
  ts_max :: u64

record cpu_thread_history =
  h_func :: nat
  h_total_calls :: u32
  h_real :: time_stats
  h_cpu :: time_stats
  h_types :: u8
  h_funcname :: string

record rusage_t =
  ru_utime :: timeval
  ru_stime :: timeval
  ru_real :: timeval

text \<open>The records live in a memory of their own; the hash table \<open>cpu_record\<close> holds the address of
  the record of a function pointer.\<close>

record cpu_state =
  cpu_record :: "nat \<rightharpoonup> nat"
  cpu_heap :: "nat \<Rightarrow> cpu_thread_history"
  cpu_brk :: nat

definition cpu_record_hash_alloc :: "nat \<Rightarrow> string \<Rightarrow> cpu_thread_history" where
  "cpu_record_hash_alloc func funcname =
     \<lparr>h_func = func, h_total_calls = 0, h_real = \<lparr>ts_total = 0, ts_max = 0\<rparr>,
      h_cpu = \<lparr>ts_total = 0, ts_max = 0\<rparr>, h_types = 0, h_funcname = funcname\<rparr>"

definition thread_consumed_time :: "rusage_t \<Rightarrow> rusage_t \<Rightarrow> u64 \<times> u64" where
  "thread_consumed_time now start =
     (timeval_elapsed (ru_real now) (ru_real start),
      timeval_elapsed (ru_utime now) (ru_utime start) + timeval_elapsed (ru_stime now) (ru_stime start))"

definition add_time :: "u64 \<Rightarrow> time_stats \<Rightarrow> time_stats" where
  "add_time d s = \<lparr>ts_total = ts_total s + d, ts_max = (if ts_max s < d then d else ts_max s)\<rparr>"

definition cpu_record_get :: "nat \<Rightarrow> string \<Rightarrow> cpu_state \<Rightarrow> cpu_state \<times> nat" where
  "cpu_record_get func funcname c =
     (case cpu_record c func of
        Some a \<Rightarrow> (c, a)
      | None \<Rightarrow> (c\<lparr>cpu_record := (cpu_record c)(func \<mapsto> cpu_brk c),
                   cpu_heap := (cpu_heap c)(cpu_brk c := cpu_record_hash_alloc func funcname),
                   cpu_brk := Suc (cpu_brk c)\<rparr>, cpu_brk c))"

definition account :: "u64 \<Rightarrow> u64 \<Rightarrow> thread_type \<Rightarrow> cpu_thread_history \<Rightarrow> cpu_thread_history" where
  "account realtime cputime ty h =
     h\<lparr>h_total_calls := h_total_calls h + 1, h_real := add_time realtime (h_real h),
       h_cpu := add_time cputime (h_cpu h), h_types := h_types h OR push_bit (type_code ty) 1\<rparr>"

text \<open>
  \<open>thread_call\<close> with the readings \<open>before\<close> and \<open>after\<close> of \<open>GETRUSAGE\<close>; \<open>run\<close> is the
  effect of the thread's function on the rest of the program, the statistics included.
\<close>

definition thread_call ::
    "(thread \<Rightarrow> 'w \<times> cpu_state \<Rightarrow> 'w \<times> cpu_state) \<Rightarrow> rusage_t \<Rightarrow> rusage_t \<Rightarrow> thread \<Rightarrow> 'w \<times> cpu_state \<Rightarrow>
     thread \<times> 'w \<times> cpu_state" where
  "thread_call run before after t s =
     (let (w, c) = s;
          (c, hist) = (case th_hist t of
             Some a \<Rightarrow> (c, a) | None \<Rightarrow> cpu_record_get (th_func t) (fst (th_debug t)) c);
          t = t\<lparr>th_hist := Some hist, th_real := ru_real before\<rparr>;
          (w, c) = run t (w, c);
          (realtime, cputime) = thread_consumed_time after before
      in (t, w, c\<lparr>cpu_heap := (cpu_heap c)(hist := account realtime cputime (th_add_type t) (cpu_heap c hist))\<rparr>))"

definition funcname_thread_execute ::
    "(thread \<Rightarrow> 'w \<times> cpu_state \<Rightarrow> 'w \<times> cpu_state) \<Rightarrow> rusage_t \<Rightarrow> rusage_t \<Rightarrow> nat \<Rightarrow> nat \<Rightarrow> int \<Rightarrow> debugargs \<Rightarrow>
     'w \<times> cpu_state \<Rightarrow> 'w \<times> cpu_state"
where
  "funcname_thread_execute run before after func arg val dbg s =
     snd (thread_call run before after
       (zero_thread\<lparr>th_type := THREAD_EVENT, th_add_type := THREAD_EXECUTE, th_func := func,
         th_arg := arg, th_u := U_val val, th_debug := dbg\<rparr>) s)"

text \<open>The filter argument of the \<open>thread cpu\<close> commands: one letter per thread type.\<close>

definition filter_bit :: "char \<Rightarrow> u8" where
  "filter_bit c =
     (if c \<in> {CHR ''r'', CHR ''R''} then push_bit (type_code THREAD_READ) 1
      else if c \<in> {CHR ''w'', CHR ''W''} then push_bit (type_code THREAD_WRITE) 1
      else if c \<in> {CHR ''t'', CHR ''T''} then push_bit (type_code THREAD_TIMER) 1
      else if c \<in> {CHR ''e'', CHR ''E''} then push_bit (type_code THREAD_EVENT) 1
      else if c \<in> {CHR ''x'', CHR ''X''} then push_bit (type_code THREAD_EXECUTE) 1
      else if c \<in> {CHR ''b'', CHR ''B''} then push_bit (type_code THREAD_BACKGROUND) 1
      else 0)"

definition cpu_filter :: "string option \<Rightarrow> u8 option" where
  "cpu_filter arg =
     (case arg of
        None \<Rightarrow> Some (- 1)
      | Some s \<Rightarrow> let f = fold (\<lambda>c f. f OR filter_bit c) s 0 in if f = 0 then None else Some f)"

text \<open>The records \<open>show thread cpu\<close> prints, in the order of the hash table, and their totals.\<close>

definition cpu_record_hash_print :: "u8 \<Rightarrow> cpu_thread_history \<Rightarrow> cpu_thread_history list \<times> cpu_thread_history \<Rightarrow>
    cpu_thread_history list \<times> cpu_thread_history" where
  "cpu_record_hash_print flt a acc =
     (let (out, totals) = acc
      in if h_types a AND flt = 0 then acc
         else (out @ [a],
               totals\<lparr>h_total_calls := h_total_calls totals + h_total_calls a,
                 h_real := \<lparr>ts_total = ts_total (h_real totals) + ts_total (h_real a),
                            ts_max = (if ts_max (h_real totals) < ts_max (h_real a) then ts_max (h_real a) else ts_max (h_real totals))\<rparr>,
                 h_cpu := \<lparr>ts_total = ts_total (h_cpu totals) + ts_total (h_cpu a),
                           ts_max = (if ts_max (h_cpu totals) < ts_max (h_cpu a) then ts_max (h_cpu a) else ts_max (h_cpu totals))\<rparr>\<rparr>))"

definition cpu_record_print :: "u8 \<Rightarrow> cpu_thread_history list \<Rightarrow> cpu_thread_history list" where
  "cpu_record_print flt hs =
     (let (out, tmp) = fold (cpu_record_hash_print flt) hs
            ([], (cpu_record_hash_alloc 0 ''TOTAL'')\<lparr>h_types := flt\<rparr>)
      in if h_total_calls tmp > 0 then out @ [tmp] else out)"

text \<open>Clearing takes the records out of the hash table; \<open>hash_release\<close> does not free them.\<close>

definition cpu_record_clear :: "u8 \<Rightarrow> cpu_state \<Rightarrow> cpu_state" where
  "cpu_record_clear flt c =
     c\<lparr>cpu_record := (\<lambda>k. case cpu_record c k of
         None \<Rightarrow> None | Some a \<Rightarrow> if h_types (cpu_heap c a) AND flt = 0 then Some a else None)\<rparr>"

end
