(* ===== verification/ThreadLists.thy ===== *)
theory ThreadLists
  imports Thread
begin

text \<open>
  The lists of the scheduler: five doubly linked lists over one memory of threads. Adding and
  deleting change one list and the links of its threads, and nothing else.
\<close>

definition lk :: "thread_master \<Rightarrow> links" where
  "lk m a = (if a < m_brk m then Some (th_next (m_mem m a), th_prev (m_mem m a)) else None)"

definition lists_ok :: "(lname \<Rightarrow> nat list) \<Rightarrow> thread_master \<Rightarrow> bool" where
  "lists_ok ls m \<longleftrightarrow>
     (\<forall>l. dll (lk m) (tl_head (m_list m l)) (tl_tail (m_list m l)) (ls l) \<and>
        tl_count (m_list m l) = int (length (ls l)) \<and> set (ls l) \<subseteq> {..<m_brk m}) \<and>
     (\<forall>l l'. l \<noteq> l' \<longrightarrow> set (ls l) \<inter> set (ls l') = {})"

definition strip :: "thread \<Rightarrow> thread" where
  "strip t = t\<lparr>th_next := None, th_prev := None\<rparr>"

text \<open>Only lists and links have changed, and the links only of threads in \<open>X\<close>.\<close>

definition relinked :: "nat set \<Rightarrow> thread_master \<Rightarrow> thread_master \<Rightarrow> bool" where
  "relinked X m m' \<longleftrightarrow> m_queue m' = m_queue m \<and> m_fd m' = m_fd m \<and> m_alloc m' = m_alloc m \<and>
     m_brk m' = m_brk m \<and> m_clock m' = m_clock m \<and> (\<forall>a. strip (m_mem m' a) = strip (m_mem m a)) \<and>
     (\<forall>a. a \<notin> X \<longrightarrow> m_mem m' a = m_mem m a)"

lemma strip_eqD:
  assumes "strip t = strip s"
  shows "th_type t = th_type s" "th_add_type t = th_add_type s" "th_func t = th_func s" "th_arg t = th_arg s"
    "th_u t = th_u s" "th_index t = th_index s" "th_real t = th_real s" "th_hist t = th_hist s" "th_debug t = th_debug s"
  using assms by (cases t; cases s; simp add: strip_def)+

lemma relinkedD:
  assumes "relinked X m m'"
  shows "m_queue m' = m_queue m" "m_fd m' = m_fd m" "m_alloc m' = m_alloc m" "m_brk m' = m_brk m"
    "m_clock m' = m_clock m" "th_type (m_mem m' a) = th_type (m_mem m a)" "th_u (m_mem m' a) = th_u (m_mem m a)"
    "th_index (m_mem m' a) = th_index (m_mem m a)" "th_arg (m_mem m' a) = th_arg (m_mem m a)"
    "a \<notin> X \<Longrightarrow> m_mem m' a = m_mem m a"
  using assms strip_eqD [of "m_mem m' a" "m_mem m a"] by (auto simp: relinked_def)

lemma lists_okD:
  assumes "lists_ok ls m"
  shows "dll (lk m) (tl_head (m_list m l)) (tl_tail (m_list m l)) (ls l)"
    "tl_count (m_list m l) = int (length (ls l))" "a \<in> set (ls l) \<Longrightarrow> a < m_brk m"
    "tl_head (m_list m l) = first_p (ls l)" "tl_tail (m_list m l) = last_p (ls l)" "distinct (ls l)"
proof -
  show d: "dll (lk m) (tl_head (m_list m l)) (tl_tail (m_list m l)) (ls l)"
    and "tl_count (m_list m l) = int (length (ls l))" "a \<in> set (ls l) \<Longrightarrow> a < m_brk m"
    using assms by (auto simp: lists_ok_def)
  show "tl_head (m_list m l) = first_p (ls l)" "tl_tail (m_list m l) = last_p (ls l)" "distinct (ls l)"
    using dll_ends [OF d] d by (auto simp: dll_def)
qed

lemma lists_disjoint: "lists_ok ls m \<Longrightarrow> a \<in> set (ls l) \<Longrightarrow> a \<in> set (ls l') \<Longrightarrow> l = l'"
  unfolding lists_ok_def by blast

lemma list_node:
  assumes "lists_ok ls m" "ls l = xs @ x # ys"
  shows "x < m_brk m" "th_next (m_mem m x) = first_p ys" "th_prev (m_mem m x) = last_p xs"
proof -
  show b: "x < m_brk m" using assms lists_okD(3) [OF assms(1), of x l] by simp
  show "th_next (m_mem m x) = first_p ys" "th_prev (m_mem m x) = last_p xs"
    using dll_node(1) [of "lk m" _ _ xs x ys] lists_okD(1) [OF assms(1), of l] assms(2) b by (auto simp: lk_def)
qed

lemma list_fuel:
  assumes "lists_ok ls m"
  shows "length (ls l) < walk_fuel m"
proof -
  have "set (ls l) \<subseteq> {..<m_brk m}" "distinct (ls l)" using lists_okD [OF assms] by auto
  then have "length (ls l) \<le> m_brk m" by (metis card_lessThan card_mono distinct_card finite_lessThan)
  then show ?thesis by (simp add: walk_fuel_def)
qed

text \<open>The other lists do not notice a change of links outside them.\<close>

lemma lists_okI:
  assumes ok: "lists_ok ls m" and l: "dll (lk m') (tl_head (m_list m' l)) (tl_tail (m_list m' l)) xs"
    "tl_count (m_list m' l) = int (length xs)" "set xs \<subseteq> {..<m_brk m'}" "\<And>l'. l' \<noteq> l \<Longrightarrow> set xs \<inter> set (ls l') = {}"
    and other: "\<And>l'. l' \<noteq> l \<Longrightarrow> m_list m' l' = m_list m l'" "m_brk m \<le> m_brk m'"
      "\<And>l' a. l' \<noteq> l \<Longrightarrow> a \<in> set (ls l') \<Longrightarrow> lk m' a = lk m a"
  shows "lists_ok (ls(l := xs)) m'"
proof -
  have "dll (lk m') (tl_head (m_list m' l')) (tl_tail (m_list m' l')) (ls l') \<and>
      tl_count (m_list m' l') = int (length (ls l')) \<and> set (ls l') \<subseteq> {..<m_brk m'}" if "l' \<noteq> l" for l'
  proof -
    have o: "dll (lk m) (tl_head (m_list m l')) (tl_tail (m_list m l')) (ls l')"
      "tl_count (m_list m l') = int (length (ls l'))" "set (ls l') \<subseteq> {..<m_brk m}"
      using ok by (auto simp: lists_ok_def)
    have "seg (lk m') None (tl_head (m_list m' l')) (ls l') (tl_tail (m_list m' l')) None"
      using o(1) other that by (auto simp: dll_def intro: seg_frame)
    then show ?thesis using o other that by (auto simp: dll_def)
  qed
  with assms show ?thesis by (auto simp: lists_ok_def)
qed

section \<open>Adding\<close>

definition added :: "lname \<Rightarrow> nat \<Rightarrow> thread_master \<Rightarrow> thread_master" where
  "added l x m =
     m\<lparr>m_list := (m_list m)(l := \<lparr>tl_head = (if tl_tail (m_list m l) = None then Some x else tl_head (m_list m l)),
          tl_tail = Some x, tl_count = tl_count (m_list m l) + 1\<rparr>),
       m_mem := (\<lambda>a. if a = x then (m_mem m x)\<lparr>th_next := None, th_prev := tl_tail (m_list m l)\<rparr>
          else if tl_tail (m_list m l) = Some a then (m_mem m a)\<lparr>th_next := Some x\<rparr> else m_mem m a)\<rparr>"

lemma thread_list_add_eq:
  assumes "lists_ok ls m" "x < m_brk m" "x \<notin> set (ls l)"
  shows "thread_list_add l x m = Inr (added l x m)"
proof (cases "tl_tail (m_list m l)")
  case None
  then show ?thesis using assms(2)
    by (auto simp: thread_list_add_def added_def upd_th_def th_at_def upd_list_def fun_eq_iff
        intro!: thread_master.equality thread_list.equality)
next
  case (Some a)
  then have "a \<in> set (ls l)" using lists_okD(5) [OF assms(1), of l] ptr_in_set(2) by metis
  then have "a < m_brk m" "a \<noteq> x" using lists_okD(3) [OF assms(1)] assms(3) by auto
  then show ?thesis using assms(2) Some
    by (auto simp: thread_list_add_def added_def upd_th_def th_at_def upd_list_def fun_eq_iff
        intro!: thread_master.equality thread_list.equality)
qed

lemma added_ok:
  assumes ok: "lists_ok ls m" "x < m_brk m" "\<And>l. x \<notin> set (ls l)"
  shows "lists_ok (ls(l := ls l @ [x])) (added l x m)" "relinked (insert x (set (ls l))) m (added l x m)"
proof -
  let ?m = "added l x m"
  note e = lists_okD [where l = l, OF ok(1)]
  have tl: "tl_tail (m_list m l) = Some a \<Longrightarrow> a \<in> set (ls l)" for a
    using e(5) ptr_in_set(2) by metis
  have d: "dll (lk m) (tl_head (m_list m l)) (tl_tail (m_list m l)) (ls l @ [])" using e(1) by simp
  have "dll (lk ?m) (tl_head (m_list ?m l)) (tl_tail (m_list ?m l)) (ls l @ [x])"
  proof (rule dll_insert [OF d])
    show "x \<notin> set (ls l @ [])" using ok(3) by simp
    show "lk ?m x = Some (first_p [], last_p (ls l))" using ok(2) e(5) by (simp add: lk_def added_def)
    show "lk ?m y = Some (if last_p (ls l) = Some y then Some x else q, if first_p [] = Some y then Some x else r)"
      if "y \<in> set (ls l @ [])" "lk m y = Some (q, r)" for y q r
      using that ok(3) [of l] e(5) by (auto simp: lk_def added_def split: if_splits)
  qed (insert e(5), auto simp: added_def)
  moreover have "lk ?m a = lk m a" if "l' \<noteq> l" "a \<in> set (ls l')" for l' a
  proof -
    have "a \<noteq> x" "tl_tail (m_list m l) \<noteq> Some a" using that ok(3) tl lists_disjoint [OF ok(1), of a l l'] by auto
    then show ?thesis by (simp add: lk_def added_def)
  qed
  moreover have "set (ls l @ [x]) \<inter> set (ls l') = {}" if "l' \<noteq> l" for l'
    using that ok(3) lists_disjoint [OF ok(1), of _ l l'] by auto
  ultimately show "lists_ok (ls(l := ls l @ [x])) ?m"
    using e(2,3) ok(2) by (intro lists_okI [OF ok(1)]) (auto simp: added_def)
  show "relinked (insert x (set (ls l))) m ?m"
    using tl by (auto simp: relinked_def added_def strip_def)
qed

section \<open>Deleting\<close>

definition deleted :: "lname \<Rightarrow> nat list \<Rightarrow> nat \<Rightarrow> nat list \<Rightarrow> thread_master \<Rightarrow> thread_master" where
  "deleted l xs x ys m =
     m\<lparr>m_list := (m_list m)(l := \<lparr>tl_head = (if xs = [] then first_p ys else tl_head (m_list m l)),
          tl_tail = (if ys = [] then last_p xs else tl_tail (m_list m l)), tl_count = tl_count (m_list m l) - 1\<rparr>),
       m_mem := (\<lambda>a. if a = x then strip (m_mem m a)
          else (m_mem m a)\<lparr>th_next := (if last_p xs = Some a then first_p ys else th_next (m_mem m a)),
                           th_prev := (if first_p ys = Some a then last_p xs else th_prev (m_mem m a))\<rparr>)\<rparr>"

lemma thread_list_delete_eq:
  assumes ok: "lists_ok ls m" and ls: "ls l = xs @ x # ys"
  shows "thread_list_delete l x m = Inr (deleted l xs x ys m)"
proof -
  note n = list_node [OF ok ls]
  have dis: "distinct (xs @ x # ys)" "\<And>a. a \<in> set (xs @ x # ys) \<Longrightarrow> a < m_brk m"
    using lists_okD [where l = l, OF ok] ls by auto
  have fy: "a \<noteq> x \<and> a < m_brk m \<and> last_p xs \<noteq> Some a" if "first_p ys = Some a" for a
    using ptr_in_set(1) [OF that] ptr_in_set(2) [of xs a] dis by auto
  have lx: "a \<noteq> x \<and> a < m_brk m \<and> first_p ys \<noteq> Some a" if "last_p xs = Some a" for a
    using ptr_in_set(2) [OF that] ptr_in_set(1) [of ys a] dis by auto
  show ?thesis
  proof (cases "first_p ys"; cases "last_p xs")
  qed (insert n fy lx, auto simp: thread_list_delete_def deleted_def upd_th_def th_at_def upd_list_def strip_def fun_eq_iff
      intro!: thread_master.equality thread_list.equality thread.equality)
qed

lemma deleted_ok:
  assumes ok: "lists_ok ls m" and ls: "ls l = xs @ x # ys"
  shows "lists_ok (ls(l := xs @ ys)) (deleted l xs x ys m)" "relinked (set (ls l)) m (deleted l xs x ys m)"
    "th_next (m_mem (deleted l xs x ys m) x) = None" "th_prev (m_mem (deleted l xs x ys m) x) = None"
proof -
  let ?m = "deleted l xs x ys m"
  note e = lists_okD [where l = l, OF ok]
  have nb: "a \<in> set (xs @ ys)" if "last_p xs = Some a \<or> first_p ys = Some a" for a
    using that ptr_in_set [of xs a] ptr_in_set [of ys a] by auto
  have x: "x \<notin> set (xs @ ys)" using e(6) ls by auto
  have d: "dll (lk m) (tl_head (m_list m l)) (tl_tail (m_list m l)) (xs @ x # ys)" using e(1) ls by simp
  have "dll (lk ?m) (tl_head (m_list ?m l)) (tl_tail (m_list ?m l)) (xs @ ys)"
  proof (rule dll_remove [OF d])
    show "lk ?m y = Some (if last_p xs = Some y then first_p ys else q, if first_p ys = Some y then last_p xs else r)"
      if "y \<in> set (xs @ ys)" "lk m y = Some (q, r)" for y q r
      using that x by (auto simp: lk_def deleted_def split: if_splits)
  qed (auto simp: deleted_def)
  moreover have "lk ?m a = lk m a" if "l' \<noteq> l" "a \<in> set (ls l')" for l' a
  proof -
    have "a \<notin> set (xs @ x # ys)" using that lists_disjoint [OF ok, of a l l'] ls by auto
    then have "a \<noteq> x" "last_p xs \<noteq> Some a" "first_p ys \<noteq> Some a" using nb [of a] by auto
    then show ?thesis by (simp add: lk_def deleted_def)
  qed
  moreover have "set (xs @ ys) \<inter> set (ls l') = {}" if "l' \<noteq> l" for l'
    using that lists_disjoint [OF ok, of _ l l'] ls by auto
  moreover have "set (xs @ ys) \<subseteq> {..<m_brk ?m}" using e(3) ls by (auto simp: deleted_def)
  ultimately show "lists_ok (ls(l := xs @ ys)) ?m"
    using e(2) ls by (intro lists_okI [OF ok]) (auto simp: deleted_def)
  show "relinked (set (ls l)) m ?m"
    using nb ls by (auto simp: relinked_def deleted_def strip_def)
  show "th_next (m_mem ?m x) = None" "th_prev (m_mem ?m x) = None" by (simp_all add: deleted_def strip_def)
qed

end
