(* ===== verification/ThreadQueues.thy ===== *)
theory ThreadQueues
  imports Thread
begin

text \<open>
  The timer queues of the scheduler as instances of the heap of \<^verbatim>\<open>lib/pqueue.c\<close>: the
  comparison of deadlines and the update of the thread's \<open>index\<close> meet the contract of the
  callbacks, so the heap invariant and the positions are kept by every queue operation.
\<close>

definition th_pos :: "(nat \<Rightarrow> thread) \<Rightarrow> nat \<Rightarrow> nat" where
  "th_pos mem a = nat (th_index (mem a))"

lemma thread_timer_cmp_less:
  "thread_timer_cmp mem a b < 0 \<longleftrightarrow> timeval_cmp (u_sands (th_u (mem a))) (u_sands (th_u (mem b))) < 0"
  "thread_timer_cmp mem a b > 0 \<longleftrightarrow> timeval_cmp (u_sands (th_u (mem a))) (u_sands (th_u (mem b))) > 0"
  "thread_timer_cmp mem a b \<le> 0 \<longleftrightarrow> timeval_cmp (u_sands (th_u (mem a))) (u_sands (th_u (mem b))) \<le> 0"
  by (auto simp: thread_timer_cmp_def Let_def)

interpretation timers: pq_callbacks "thread_timer_cmp mem" thread_timer_update th_pos
  for mem
proof
  show "thread_timer_cmp mem a b < 0 \<longleftrightarrow> thread_timer_cmp mem b a > 0" for a b
    using timeval_cmp_sym by (simp add: thread_timer_cmp_less)
  show "thread_timer_cmp mem a c \<le> 0" if "thread_timer_cmp mem a b \<le> 0" "thread_timer_cmp mem b c \<le> 0" for a b c
    using timeval_cmp_trans that unfolding thread_timer_cmp_less by metis
  show "th_pos (thread_timer_update a i u) = (th_pos u)(a := i)" for a i u
    by (auto simp: th_pos_def thread_timer_update_def)
qed

text \<open>Only positions of threads in \<open>X\<close> have changed.\<close>

definition reindexed :: "nat set \<Rightarrow> (nat \<Rightarrow> thread) \<Rightarrow> (nat \<Rightarrow> thread) \<Rightarrow> bool" where
  "reindexed X mem mem' \<longleftrightarrow> (\<forall>a. \<exists>i. mem' a = (mem a)\<lparr>th_index := i\<rparr> \<and> (a \<notin> X \<longrightarrow> i = th_index (mem a)) \<and>
     (0 \<le> i \<or> i = th_index (mem a)))"

lemma reindexed_refl: "reindexed X mem mem"
proof -
  have "\<exists>i. t = t\<lparr>th_index := i\<rparr> \<and> (b \<longrightarrow> i = th_index t) \<and> (0 \<le> i \<or> i = th_index t)" for t :: thread and b
    by (rule exI [of _ "th_index t"]) simp
  then show ?thesis by (simp add: reindexed_def)
qed

lemma reindexed_update:
  assumes "x \<in> X" "reindexed X mem mem'"
  shows "reindexed X mem (thread_timer_update x k mem')"
proof -
  from assms(2) obtain i where "mem' x = (mem x)\<lparr>th_index := i\<rparr>" by (auto simp: reindexed_def)
  then have "thread_timer_update x k mem' x = (mem x)\<lparr>th_index := int k\<rparr>" by (simp add: thread_timer_update_def)
  with assms show ?thesis by (auto simp: reindexed_def thread_timer_update_def)
qed

lemma update_index: "th_index (thread_timer_update x k mem a) = (if a = x then int k else th_index (mem a))"
  by (simp add: thread_timer_update_def)

lemma reindexedD:
  assumes "reindexed X mem mem'"
  shows "a \<notin> X \<Longrightarrow> mem' a = mem a" "th_u (mem' a) = th_u (mem a)" "th_type (mem' a) = th_type (mem a)"
    "th_next (mem' a) = th_next (mem a)" "th_prev (mem' a) = th_prev (mem a)" "th_arg (mem' a) = th_arg (mem a)"
    "thread_timer_cmp mem' = thread_timer_cmp mem" "0 \<le> th_index (mem a) \<Longrightarrow> 0 \<le> th_index (mem' a)"
proof -
  have "\<exists>i. mem' a = (mem a)\<lparr>th_index := i\<rparr> \<and> (a \<notin> X \<longrightarrow> i = th_index (mem a)) \<and> (0 \<le> i \<or> i = th_index (mem a))" for a
    using assms by (simp add: reindexed_def)
  note r = this
  from r [of a] show "a \<notin> X \<Longrightarrow> mem' a = mem a" "th_u (mem' a) = th_u (mem a)" "th_type (mem' a) = th_type (mem a)"
    "th_next (mem' a) = th_next (mem a)" "th_prev (mem' a) = th_prev (mem a)" "th_arg (mem' a) = th_arg (mem a)"
    "0 \<le> th_index (mem a) \<Longrightarrow> 0 \<le> th_index (mem' a)"
    by auto
  have "th_u (mem' b) = th_u (mem b)" for b using r [of b] by auto
  then show "thread_timer_cmp mem' = thread_timer_cmp mem" by (simp add: thread_timer_cmp_def fun_eq_iff)
qed

section \<open>The queues of the master\<close>

definition tqueue :: "thread_master \<Rightarrow> qname \<Rightarrow> bool" where
  "tqueue m q \<longleftrightarrow> queue_ok (thread_timer_cmp (m_mem m)) th_pos (m_queue m q) (m_mem m) \<and>
     (\<forall>a \<in> set (elems (m_queue m q)). 0 \<le> th_index (m_mem m a))"

lemma queue_ok_cong:
  assumes "queue_ok c p q u" "\<And>a b. a \<in> set (elems q) \<Longrightarrow> b \<in> set (elems q) \<Longrightarrow> c' a b = c a b"
    "\<And>a. a \<in> set (elems q) \<Longrightarrow> p' u' a = p u a"
  shows "queue_ok c' p' q u'"
proof -
  have "pq_array q ! j \<in> set (elems q)" if "j < pq_size q" for j
    using assms(1) nth_in_set_take [OF that] by (auto simp: queue_ok_def elems_def)
  moreover have "PARENT_OF j < pq_size q" if "0 < j" "j < pq_size q" for j using parent_less [OF that(1)] that(2) by simp
  ultimately show ?thesis using assms by (auto simp: queue_ok_def heap_def edge_def placed_def)
qed

lemma tqueue_cong:
  assumes "tqueue m q" "m_queue m' q = m_queue m q"
    "\<And>a. a \<in> set (elems (m_queue m q)) \<Longrightarrow> th_u (m_mem m' a) = th_u (m_mem m a) \<and> th_index (m_mem m' a) = th_index (m_mem m a)"
  shows "tqueue m' q"
proof -
  have "queue_ok (thread_timer_cmp (m_mem m')) th_pos (m_queue m q) (m_mem m')"
    by (rule queue_ok_cong [of "thread_timer_cmp (m_mem m)" th_pos _ "m_mem m"])
      (insert assms, auto simp: tqueue_def thread_timer_cmp_def th_pos_def)
  with assms show ?thesis by (simp add: tqueue_def)
qed

lemma tqueue_pos:
  assumes "tqueue m q" "x \<in> set (elems (m_queue m q))"
  shows "0 \<le> th_index (m_mem m x)" "nat (th_index (m_mem m x)) < pq_size (m_queue m q)"
    "pq_array (m_queue m q) ! nat (th_index (m_mem m x)) = x" "pq_size (m_queue m q) \<le> length (pq_array (m_queue m q))"
proof -
  from assms obtain i where "i < pq_size (m_queue m q)" "pq_array (m_queue m q) ! i = x"
    by (auto simp: elems_def in_set_conv_nth)
  with assms show "0 \<le> th_index (m_mem m x)" "nat (th_index (m_mem m x)) < pq_size (m_queue m q)"
    "pq_array (m_queue m q) ! nat (th_index (m_mem m x)) = x" "pq_size (m_queue m q) \<le> length (pq_array (m_queue m q))"
    by (auto simp: tqueue_def queue_ok_def placed_def th_pos_def)
qed

lemma tqueue_distinct: "tqueue m q \<Longrightarrow> distinct (elems (m_queue m q))"
  by (simp add: tqueue_def queue_ok_def placed_def elems_def)

text \<open>What a queue operation leaves alone: all but its own queue and the positions in it.\<close>

definition requeued :: "qname \<Rightarrow> nat set \<Rightarrow> thread_master \<Rightarrow> thread_master \<Rightarrow> bool" where
  "requeued q X m m' \<longleftrightarrow>
     (\<exists>Q mem. m' = m\<lparr>m_queue := (m_queue m)(q := Q), m_mem := mem\<rparr> \<and> reindexed X (m_mem m) mem)"

lemma requeuedD:
  assumes "requeued q X m m'"
  shows "m_list m' = m_list m" "m_fd m' = m_fd m" "m_alloc m' = m_alloc m" "m_brk m' = m_brk m"
    "m_clock m' = m_clock m" "q' \<noteq> q \<Longrightarrow> m_queue m' q' = m_queue m q'" "reindexed X (m_mem m) (m_mem m')"
  using assms by (auto simp: requeued_def)

lemma index_nonneg:
  assumes "tqueue m q" "reindexed (insert x (set (elems (m_queue m q)))) (m_mem m) mem'" "0 \<le> th_index (mem' x)"
    "a \<in> insert x (set (elems (m_queue m q)))"
  shows "0 \<le> th_index (mem' a)"
  using assms reindexedD(8) [OF assms(2), of a] by (auto simp: tqueue_def)

lemma enqueue_timer_ok:
  assumes t: "tqueue m q" and x: "x \<notin> set (elems (m_queue m q))"
  shows "\<exists>m'. enqueue_timer q x m = Inr m' \<and> tqueue m' q \<and> requeued q (insert x (set (elems (m_queue m q)))) m m' \<and>
     mset (elems (m_queue m' q)) = mset (elems (m_queue m q)) + {#x#}"
proof -
  let ?S = "insert x (set (elems (m_queue m q)))" and ?c = "thread_timer_cmp (m_mem m)"
  have ok: "queue_ok ?c th_pos (m_queue m q) (m_mem m)" using t by (simp add: tqueue_def)
  from timers.enqueue_ok [OF ok x, of 0] obtain Q v where
    Q: "pqueue_enqueue 0 ?c thread_timer_update x (m_queue m q) (m_mem m) = Inr (Q, v)" "queue_ok ?c th_pos Q v"
    "mset (elems Q) = mset (elems (m_queue m q)) + {#x#}" by blast
  have sz: "pq_size (m_queue m q) \<le> length (pq_array (m_queue m q))" using ok by (simp add: queue_ok_def)
  have "reindexed ?S (m_mem m) v \<and> 0 \<le> th_index (v x)"
    by (rule enqueue_frame [where I = "\<lambda>v. reindexed ?S (m_mem m) v \<and> 0 \<le> th_index (v x)", OF Q(1) _ sz])
      (auto intro: reindexed_refl reindexed_update simp: update_index)
  then have r: "reindexed ?S (m_mem m) v" and rx: "0 \<le> th_index (v x)" by auto
  let ?m = "m\<lparr>m_queue := (m_queue m)(q := Q), m_mem := v\<rparr>"
  have "set (elems Q) = ?S" using Q(3) by (metis add_mset_add_single set_mset_add_mset_insert set_mset_mset)
  then have "tqueue ?m q"
    using rx Q(2) index_nonneg [OF t r] by (auto simp: tqueue_def reindexedD(7) [OF r])
  moreover have "requeued q ?S m ?m" using r by (auto simp: requeued_def)
  ultimately show ?thesis using Q by (intro exI [of _ ?m]) (simp add: enqueue_timer_def)
qed

lemma remove_timer_ok:
  assumes t: "tqueue m q" and i: "i < pq_size (m_queue m q)"
  shows "\<exists>m'. remove_timer i q m = Inr m' \<and> tqueue m' q \<and> requeued q (set (elems (m_queue m q))) m m' \<and>
     mset (elems (m_queue m' q)) + {#pq_array (m_queue m q) ! i#} = mset (elems (m_queue m q)) \<and>
     pq_size (m_queue m' q) = pq_size (m_queue m q) - 1"
proof -
  let ?S = "set (elems (m_queue m q))" and ?c = "thread_timer_cmp (m_mem m)"
  have ok: "queue_ok ?c th_pos (m_queue m q) (m_mem m)" using t by (simp add: tqueue_def)
  from timers.remove_at_ok [OF ok i] obtain Q v where
    Q: "pqueue_remove_at ?c thread_timer_update i (m_queue m q) (m_mem m) = Inr (Q, v)" "queue_ok ?c th_pos Q v"
    "mset (elems Q) + {#pq_array (m_queue m q) ! i#} = mset (elems (m_queue m q))" "pq_size Q = pq_size (m_queue m q) - 1"
    by blast
  have sz: "pq_size (m_queue m q) \<le> length (pq_array (m_queue m q))" using ok by (simp add: queue_ok_def)
  have r: "reindexed ?S (m_mem m) v"
    by (rule remove_at_frame [where I = "reindexed ?S (m_mem m)", OF Q(1) reindexed_refl sz i])
      (rule reindexed_update)
  let ?m = "m\<lparr>m_queue := (m_queue m)(q := Q), m_mem := v\<rparr>"
  have "set (elems Q) \<subseteq> ?S" using Q(3) by (metis mset_subset_eq_add_left set_mset_mono set_mset_mset)
  then have "tqueue ?m q"
    using Q(2) t reindexedD(8) [OF r] by (auto simp: tqueue_def reindexedD(7) [OF r])
  moreover have "requeued q ?S m ?m" using r by (auto simp: requeued_def)
  ultimately show ?thesis using Q by (intro exI [of _ ?m]) (simp add: remove_timer_def)
qed

lemma dequeue_timer_eq:
  assumes "tqueue m q" "0 < pq_size (m_queue m q)"
  shows "dequeue_timer q m = remove_timer 0 q m"
proof -
  have sz: "pq_size (m_queue m q) \<le> length (pq_array (m_queue m q))" using assms by (simp add: tqueue_def queue_ok_def)
  show ?thesis
    unfolding dequeue_timer_def remove_timer_def dequeue_remove_at [OF assms(2) sz]
    by (simp add: and_then_assoc split_def)
qed

lemma root_is_first:
  assumes "tqueue m q" "a \<in> set (elems (m_queue m q))"
  shows "timeval_cmp (u_sands (th_u (m_mem m (pq_array (m_queue m q) ! 0)))) (u_sands (th_u (m_mem m a))) \<le> 0"
proof -
  have ok: "queue_ok (thread_timer_cmp (m_mem m)) th_pos (m_queue m q) (m_mem m)" using assms(1) by (simp add: tqueue_def)
  moreover have "0 < pq_size (m_queue m q)" using assms(2) by (cases "pq_size (m_queue m q)") (auto simp: elems_def)
  ultimately have "thread_timer_cmp (m_mem m) (pq_array (m_queue m q) ! 0) a \<le> 0"
    using timers.dequeue_ok [OF ok] assms(2) by blast
  then show ?thesis by (simp add: thread_timer_cmp_less)
qed

end
