(* ===== verification/ThreadInv.thy ===== *)
theory ThreadInv
  imports ThreadLists ThreadQueues
begin

text \<open>
  The invariant of the scheduler: every allocated thread is in exactly one of the five lists and
  two queues, the one its type names, or is detached because an operation is under way; a thread
  that is in no list has null links; the descriptor sets are those of the read and write lists.
\<close>

section \<open>The invariant\<close>

fun ltype :: "lname \<Rightarrow> thread_type" where
  "ltype LRead = THREAD_READ"
| "ltype LWrite = THREAD_WRITE"
| "ltype LEvent = THREAD_EVENT"
| "ltype LReady = THREAD_READY"
| "ltype LUnuse = THREAD_UNUSED"

fun qtype :: "qname \<Rightarrow> thread_type" where
  "qtype QTimer = THREAD_TIMER"
| "qtype QBackground = THREAD_BACKGROUND"

abbreviation qset :: "thread_master \<Rightarrow> qname \<Rightarrow> nat set" where
  "qset m q \<equiv> set (elems (m_queue m q))"

definition unlinked :: "thread_master \<Rightarrow> nat \<Rightarrow> bool" where
  "unlinked m a \<longleftrightarrow> a < m_brk m \<and> th_next (m_mem m a) = None \<and> th_prev (m_mem m a) = None"

definition core :: "(lname \<Rightarrow> nat list) \<Rightarrow> nat set \<Rightarrow> thread_master \<Rightarrow> bool" where
  "core ls D m \<longleftrightarrow> lists_ok ls m \<and>
     (\<forall>l. \<forall>a \<in> set (ls l). th_type (m_mem m a) = ltype l \<and> a \<notin> D) \<and>
     (\<forall>q. tqueue m q \<and> (\<forall>a \<in> qset m q. unlinked m a \<and> th_type (m_mem m a) = qtype q \<and> a \<notin> D)) \<and>
     (\<forall>a \<in> D. unlinked m a) \<and>
     (\<forall>a < m_brk m. a \<in> D \<or> (\<exists>l. a \<in> set (ls l)) \<or> (\<exists>q. a \<in> qset m q)) \<and>
     m_alloc m = m_brk m"

definition fd_of :: "thread_master \<Rightarrow> nat \<Rightarrow> int" where
  "fd_of m a = u_fd (th_u (m_mem m a))"

text \<open>The list whose descriptors a set holds.\<close>

fun fdlist :: "fdname \<Rightarrow> lname option" where
  "fdlist ReadFd = Some LRead"
| "fdlist WriteFd = Some LWrite"
| "fdlist ExceptFd = None"

definition fds_ok :: "(lname \<Rightarrow> nat list) \<Rightarrow> thread_master \<Rightarrow> bool" where
  "fds_ok ls m \<longleftrightarrow> (\<forall>n l. fdlist n = Some l \<longrightarrow>
     distinct (map (fd_of m) (ls l)) \<and> m_fd m n = fd_of m ` set (ls l) \<and> (\<forall>fd \<in> m_fd m n. fd_valid fd))"

definition sched :: "(lname \<Rightarrow> nat list) \<Rightarrow> thread_master \<Rightarrow> bool" where
  "sched ls m \<longleftrightarrow> core ls {} m \<and> fds_ok ls m"

definition sched_ok :: "thread_master \<Rightarrow> bool" where
  "sched_ok m \<longleftrightarrow> (\<exists>ls. sched ls m)"

lemma type_names [simp]: "ltype l = ltype l' \<longleftrightarrow> l = l'" "qtype q = qtype q' \<longleftrightarrow> q = q'"
  "ltype l \<noteq> qtype q" "qtype q \<noteq> ltype l"
proof -
  show "ltype l = ltype l' \<longleftrightarrow> l = l'" by (cases l; cases l'; simp)
  show "qtype q = qtype q' \<longleftrightarrow> q = q'" by (cases q; cases q'; simp)
  show "ltype l \<noteq> qtype q" "qtype q \<noteq> ltype l" by (cases l; cases q; simp)+
qed

lemma coreD:
  assumes "core ls D m"
  shows "lists_ok ls m" "a \<in> set (ls l) \<Longrightarrow> th_type (m_mem m a) = ltype l" "a \<in> set (ls l) \<Longrightarrow> a \<notin> D"
    "tqueue m q" "a \<in> qset m q \<Longrightarrow> unlinked m a" "a \<in> qset m q \<Longrightarrow> th_type (m_mem m a) = qtype q"
    "a \<in> qset m q \<Longrightarrow> a \<notin> D" "a \<in> D \<Longrightarrow> unlinked m a" "a \<in> set (ls l) \<Longrightarrow> a \<notin> qset m q" "m_alloc m = m_brk m"
    "a \<in> qset m q \<Longrightarrow> a \<in> qset m q' \<Longrightarrow> q = q'" "a \<in> D \<Longrightarrow> a < m_brk m"
  using assms type_names unfolding core_def unlinked_def by (blast, blast, blast, blast, blast, blast, blast, blast, metis, blast, metis, blast)

lemma coreI:
  assumes "lists_ok ls m" "\<And>l a. a \<in> set (ls l) \<Longrightarrow> th_type (m_mem m a) = ltype l"
    "\<And>l a. a \<in> set (ls l) \<Longrightarrow> a \<notin> D" "\<And>q. tqueue m q"
    "\<And>q a. a \<in> qset m q \<Longrightarrow> unlinked m a \<and> th_type (m_mem m a) = qtype q \<and> a \<notin> D"
    "\<And>a. a \<in> D \<Longrightarrow> unlinked m a"
    "\<And>a. a < m_brk m \<Longrightarrow> a \<notin> D \<Longrightarrow> (\<And>q. a \<notin> qset m q) \<Longrightarrow> \<exists>l. a \<in> set (ls l)"
    "m_alloc m = m_brk m"
  shows "core ls D m"
  unfolding core_def using assms by blast

lemma core_place: "core ls D m \<Longrightarrow> a < m_brk m \<Longrightarrow> a \<in> D \<or> (\<exists>l. a \<in> set (ls l)) \<or> (\<exists>q. a \<in> qset m q)"
  unfolding core_def by blast

lemma core_detached: "core ls D m \<Longrightarrow> x \<in> D \<Longrightarrow> x < m_brk m \<and> (\<forall>l. x \<notin> set (ls l)) \<and> (\<forall>q. x \<notin> qset m q)"
  using coreD(3,7,12) by metis

text \<open>The invariant does not look at the clock or at the descriptor sets.\<close>

lemma core_clock [simp]: "core ls D (m\<lparr>m_clock := c\<rparr>) = core ls D m" "core ls D (m\<lparr>m_fd := f\<rparr>) = core ls D m"
proof -
  have "lk (m\<lparr>m_clock := c\<rparr>) = lk m" "lk (m\<lparr>m_fd := f\<rparr>) = lk m" by (auto simp: lk_def)
  then show "core ls D (m\<lparr>m_clock := c\<rparr>) = core ls D m" "core ls D (m\<lparr>m_fd := f\<rparr>) = core ls D m"
    by (simp_all add: core_def lists_ok_def tqueue_def unlinked_def)
qed

section \<open>Steps between places\<close>

text \<open>A thread leaves its list.\<close>

lemma core_delete:
  assumes c: "core ls {} m" and ls: "ls l = xs @ x # ys"
  shows "core (ls(l := xs @ ys)) {x} (deleted l xs x ys m)"
proof -
  let ?m = "deleted l xs x ys m"
  note ok = coreD(1) [OF c] and d = deleted_ok [OF coreD(1) [OF c] ls] and r = relinkedD [OF deleted_ok(2) [OF coreD(1) [OF c] ls]]
  have x: "x \<in> set (ls l)" "x \<notin> set (xs @ ys)" using ls lists_okD(6) [OF ok, of l] by auto
  have q: "tqueue ?m q" "\<And>a. a \<in> qset m q \<Longrightarrow> unlinked ?m a \<and> th_type (m_mem ?m a) = qtype q \<and> a \<noteq> x" for q
  proof -
    show "tqueue ?m q" by (rule tqueue_cong [OF coreD(4) [OF c]]) (simp_all only: r)
    fix a assume a: "a \<in> qset m q"
    then have "a \<notin> set (ls l)" using coreD(9) [OF c] by blast
    then have "m_mem ?m a = m_mem m a" "a \<noteq> x" using r(10) [of a] x(1) by auto
    then show "unlinked ?m a \<and> th_type (m_mem ?m a) = qtype q \<and> a \<noteq> x"
      using coreD(5,6) [OF c a] r(4) by (simp add: unlinked_def)
  qed
  have ty: "th_type (m_mem ?m a) = ltype l'" "a \<noteq> x" if "a \<in> set ((ls(l := xs @ ys)) l')" for a l'
  proof -
    have a: "a \<in> set (ls l')" using that ls by (cases "l' = l") auto
    show "th_type (m_mem ?m a) = ltype l'" unfolding r(6) by (rule coreD(2) [OF c a])
    show "a \<noteq> x" using that a x lists_disjoint [OF ok x(1)] by (metis fun_upd_apply)
  qed
  have pl: "\<exists>l'. a \<in> set ((ls(l := xs @ ys)) l')" if "a < m_brk m" "a \<noteq> x" "\<And>q. a \<notin> qset m q" for a
  proof -
    from core_place [OF c that(1)] that obtain l0 where "a \<in> set (ls l0)" by auto
    with that(2) ls show ?thesis by (cases "l0 = l") (auto intro: exI [of _ l0] exI [of _ l])
  qed
  have "unlinked ?m x" using d(3,4) lists_okD(3) [OF ok x(1)] r(4) by (simp add: unlinked_def)
  then show ?thesis
    using d(1) ty q pl coreD(10) [OF c] r(1,3,4) by (intro coreI) auto
qed

text \<open>A detached thread joins the list of its type.\<close>

lemma core_add:
  assumes c: "core ls {x} m" and ty: "th_type (m_mem m x) = ltype l"
  shows "core (ls(l := ls l @ [x])) {} (added l x m)"
proof -
  let ?m = "added l x m"
  have x: "x < m_brk m" "\<And>l. x \<notin> set (ls l)" "\<And>q. x \<notin> qset m q" using core_detached [OF c] by auto
  note ok = coreD(1) [OF c] and d = added_ok [OF coreD(1) [OF c] x(1,2), of l]
  note r = relinkedD [OF d(2)]
  have q: "tqueue ?m q" "\<And>a. a \<in> qset m q \<Longrightarrow> unlinked ?m a \<and> th_type (m_mem ?m a) = qtype q" for q
  proof -
    show "tqueue ?m q" by (rule tqueue_cong [OF coreD(4) [OF c]]) (simp_all only: r)
    fix a assume a: "a \<in> qset m q"
    then have "a \<notin> insert x (set (ls l))" using coreD(9) [OF c] x(3) by blast
    then have "m_mem ?m a = m_mem m a" using r(10) [of a] by simp
    then show "unlinked ?m a \<and> th_type (m_mem ?m a) = qtype q"
      using coreD(5,6) [OF c a] r(4) by (simp add: unlinked_def)
  qed
  have ty: "th_type (m_mem ?m a) = ltype l'" if "a \<in> set ((ls(l := ls l @ [x])) l')" for a l'
    using that coreD(2) [OF c, of a l'] ty r(6) [of a] by (auto split: if_splits)
  have pl: "\<exists>l'. a \<in> set ((ls(l := ls l @ [x])) l')" if "a < m_brk m" "\<And>q. a \<notin> qset m q" for a
  proof -
    from core_place [OF c that(1)] that consider "a = x" | l0 where "a \<in> set (ls l0)" by auto
    then show ?thesis
    proof cases
      case (2 l0)
      then show ?thesis by (cases "l0 = l") (auto intro: exI [of _ l0] exI [of _ l])
    qed (auto intro: exI [of _ l])
  qed
  show ?thesis
    using d(1) ty q pl coreD(10) [OF c] r(1,3,4) by (intro coreI) auto
qed

text \<open>Writes to a detached thread, links apart.\<close>

lemma core_write:
  assumes c: "core ls {x} m" and f: "th_next (f (m_mem m x)) = None" "th_prev (f (m_mem m x)) = None"
  shows "core ls {x} (m\<lparr>m_mem := (m_mem m)(x := f (m_mem m x))\<rparr>)"
proof -
  let ?m = "m\<lparr>m_mem := (m_mem m)(x := f (m_mem m x))\<rparr>"
  have x: "x < m_brk m" "\<And>l. x \<notin> set (ls l)" "\<And>q. x \<notin> qset m q" using core_detached [OF c] by auto
  have u: "unlinked m x" using coreD(8) [OF c, of x] by simp
  then have "lk ?m = lk m" using f by (auto simp: lk_def unlinked_def)
  then have "lists_ok ls ?m" using coreD(1) [OF c] by (simp add: lists_ok_def)
  moreover have "tqueue ?m q" for q
    by (rule tqueue_cong [OF coreD(4) [OF c]]) (insert x(3) [of q], auto)
  moreover have "unlinked ?m a" if "unlinked m a" for a using that f by (simp add: unlinked_def)
  moreover have "th_type (m_mem ?m a) = th_type (m_mem m a)" if "a \<noteq> x" for a using that by simp
  moreover have "\<exists>l. a \<in> set (ls l)" if "a < m_brk m" "a \<noteq> x" "\<And>q. a \<notin> qset m q" for a
    using core_place [OF c that(1)] that(2,3) by auto
  ultimately show ?thesis
    using coreD(2,5,6,10) [OF c] x(2,3) u by (intro coreI) auto
qed

section \<open>Queues\<close>

lemma requeued_lists: "requeued q X m m' \<Longrightarrow> lists_ok ls m' = lists_ok ls m"
proof -
  assume r: "requeued q X m m'"
  have "lk m' = lk m" using requeuedD(4) [OF r] reindexedD(4,5) [OF requeuedD(7) [OF r]] by (auto simp: lk_def)
  then show ?thesis using requeuedD(1,4) [OF r] by (simp add: lists_ok_def)
qed

text \<open>A detached thread joins the queue of its type, or the thread at a position leaves it.\<close>

lemma core_requeue:
  assumes c: "core ls D m" and r: "requeued q X m m'" and X: "X = insert x (qset m q)" and t: "tqueue m' q"
    and move: "qset m' q \<union> D' = qset m q \<union> D" "qset m' q \<inter> D' = {}"
    and ty: "\<And>a. a \<in> qset m' q \<Longrightarrow> th_type (m_mem m a) = qtype q" and x: "x \<in> qset m q \<union> D" and D: "D' \<subseteq> qset m q \<union> D"
  shows "core ls D' m'"
proof -
  note rq = requeuedD [OF r] and ri = reindexedD [OF requeuedD(7) [OF r]]
  have un: "unlinked m' a" if "a \<in> qset m q \<union> D" for a
    using that coreD(5,8) [OF c] ri(4,5) rq(4) by (auto simp: unlinked_def)
  have other: "tqueue m' q'" "\<And>a. a \<in> qset m q' \<Longrightarrow> a \<notin> X" if "q' \<noteq> q" for q'
  proof -
    show nx: "a \<notin> X" if "a \<in> qset m q'" for a
      using that \<open>q' \<noteq> q\<close> coreD(7) [OF c, of a q'] coreD(11) [OF c, of a q q'] x X by auto
    show "tqueue m' q'" using tqueue_cong [OF coreD(4) [OF c, of q'], of m'] nx ri(1) rq(6) that by simp
  qed
  have "tqueue m' q' \<and> (\<forall>a \<in> qset m' q'. unlinked m' a \<and> th_type (m_mem m' a) = qtype q' \<and> a \<notin> D')" for q'
  proof (cases "q' = q")
    case True
    have "a \<in> qset m q \<union> D" "a \<notin> D'" if "a \<in> qset m' q" for a using that move by auto
    with t un ty ri(3) True show ?thesis by simp
  next
    case False
    then have "qset m' q' = qset m q'" using rq(6) by simp
    moreover have "a \<notin> D'" if "a \<in> qset m q'" for a
      using that False D coreD(7) [OF c, of a q'] coreD(11) [OF c, of a q q'] by auto
    moreover have "unlinked m' a" if "a \<in> qset m q'" for a
      using that coreD(5) [OF c] ri(4,5) rq(4) by (auto simp: unlinked_def)
    ultimately show ?thesis using other(1) [OF False] coreD(6) [OF c] ri(3) by simp
  qed
  moreover have "a \<notin> D'" if "a \<in> set (ls l)" for a l
    using that D coreD(3) [OF c, of a l] coreD(9) [OF c, of a l q] by auto
  moreover have "\<exists>l. a \<in> set (ls l)" if "a < m_brk m" "a \<notin> D'" "\<And>q. a \<notin> qset m' q" for a
  proof -
    have "a \<notin> qset m q \<union> D" using that(2) that(3) [of q] move(1) by auto
    moreover have "a \<notin> qset m q'" if "q' \<noteq> q" for q' using \<open>\<And>q. a \<notin> qset m' q\<close> [of q'] rq(6) [OF that] by simp
    ultimately show ?thesis using core_place [OF c \<open>a < m_brk m\<close>] by (metis UnCI)
  qed
  ultimately show ?thesis
    using requeued_lists [OF r] coreD(1,2,10) [OF c] ri(3) rq(3,4) un D by (intro coreI) auto
qed

section \<open>Steps of the operations\<close>

text \<open>What a move between places keeps of a thread: all but links, position and type.\<close>

definition body :: "thread \<Rightarrow> thread" where
  "body t = t\<lparr>th_type := THREAD_READ, th_next := None, th_prev := None, th_index := 0\<rparr>"

definition moved :: "thread_master \<Rightarrow> thread_master \<Rightarrow> bool" where
  "moved m m' \<longleftrightarrow> m_fd m' = m_fd m \<and> m_clock m' = m_clock m \<and> m_brk m' = m_brk m \<and>
     (\<forall>a. body (m_mem m' a) = body (m_mem m a))"

lemma moved_refl [simp]: "moved m m"
  by (simp add: moved_def)

lemma moved_trans [trans]: "moved m m' \<Longrightarrow> moved m' m'' \<Longrightarrow> moved m m''"
  by (simp add: moved_def)

lemma body_eqD:
  assumes "body t = body s"
  shows "th_add_type t = th_add_type s" "th_func t = th_func s" "th_arg t = th_arg s" "th_u t = th_u s"
  using assms by (cases t; cases s; simp add: body_def)+

lemma movedD:
  assumes "moved m m'"
  shows "m_fd m' = m_fd m" "m_clock m' = m_clock m" "m_brk m' = m_brk m"
    "th_u (m_mem m' a) = th_u (m_mem m a)" "th_arg (m_mem m' a) = th_arg (m_mem m a)"
    "th_func (m_mem m' a) = th_func (m_mem m a)" "body (m_mem m' a) = body (m_mem m a)"
  using assms body_eqD [of "m_mem m' a" "m_mem m a"] by (auto simp: moved_def)

lemma relinked_moved: "relinked X m m' \<Longrightarrow> moved m m'"
proof -
  assume r: "relinked X m m'"
  have "body (m_mem m' a) = body (m_mem m a)" for a
  proof -
    have "strip (m_mem m' a) = strip (m_mem m a)" using r by (simp add: relinked_def)
    then show ?thesis by (cases "m_mem m' a"; cases "m_mem m a"; simp add: body_def strip_def)
  qed
  then show ?thesis using relinkedD [OF r] by (simp add: moved_def)
qed

lemma requeued_moved: "requeued q X m m' \<Longrightarrow> moved m m'"
proof -
  assume r: "requeued q X m m'"
  have "body (m_mem m' a) = body (m_mem m a)" for a
  proof -
    from requeuedD(7) [OF r] obtain i where "m_mem m' a = (m_mem m a)\<lparr>th_index := i\<rparr>" by (auto simp: reindexed_def)
    then show ?thesis by (simp add: body_def)
  qed
  then show ?thesis using requeuedD [OF r] by (simp add: moved_def)
qed

lemma detach_step:
  assumes "core ls {} m" "ls l = xs @ x # ys"
  shows "\<exists>m'. thread_list_delete l x m = Inr m' \<and> core (ls(l := xs @ ys)) {x} m' \<and> moved m m' \<and> m_queue m' = m_queue m"
  using thread_list_delete_eq [OF coreD(1) [OF assms(1)] assms(2)] core_delete [OF assms]
    deleted_ok(2) [OF coreD(1) [OF assms(1)] assms(2)] relinked_moved relinkedD(1) by blast

lemma attach_step:
  assumes "core ls {x} m" "th_type (m_mem m x) = ltype l"
  shows "\<exists>m'. thread_list_add l x m = Inr m' \<and> core (ls(l := ls l @ [x])) {} m' \<and> moved m m' \<and> m_queue m' = m_queue m"
proof -
  have x: "x < m_brk m" "\<And>l. x \<notin> set (ls l)" using core_detached [OF assms(1)] by auto
  show ?thesis
    using thread_list_add_eq [OF coreD(1) [OF assms(1)] x(1,2)] core_add [OF assms]
      added_ok(2) [OF coreD(1) [OF assms(1)] x, of l] relinked_moved relinkedD(1) by blast
qed

lemma type_step:
  assumes "core ls {x} m"
  shows "\<exists>m'. upd_th x (\<lambda>t. t\<lparr>th_type := ty\<rparr>) m = Inr m' \<and> core ls {x} m' \<and> moved m m' \<and> m_queue m' = m_queue m \<and>
     th_type (m_mem m' x) = ty"
proof -
  have x: "x < m_brk m" "unlinked m x" using core_detached [OF assms] coreD(8) [OF assms, of x] by auto
  let ?m = "m\<lparr>m_mem := (m_mem m)(x := (m_mem m x)\<lparr>th_type := ty\<rparr>)\<rparr>"
  have "core ls {x} ?m" using core_write [OF assms, of "\<lambda>t. t\<lparr>th_type := ty\<rparr>"] x(2) by (simp add: unlinked_def)
  moreover have "moved m ?m" by (simp add: moved_def body_def)
  ultimately show ?thesis using x(1) by (intro exI [of _ ?m]) (simp add: upd_th_def th_at_def)
qed

lemma to_unuse_step:
  assumes "core ls {x} m"
  shows "\<exists>m'. to_unuse x m = Inr m' \<and> core (ls(LUnuse := ls LUnuse @ [x])) {} m' \<and> moved m m' \<and> m_queue m' = m_queue m"
proof -
  from type_step [OF assms, of THREAD_UNUSED] obtain m1 where m1: "upd_th x (\<lambda>t. t\<lparr>th_type := THREAD_UNUSED\<rparr>) m = Inr m1"
    "core ls {x} m1" "moved m m1" "m_queue m1 = m_queue m" "th_type (m_mem m1 x) = THREAD_UNUSED" by blast
  from attach_step [OF m1(2), of LUnuse] m1(5) obtain m2 where m2: "thread_list_add LUnuse x m1 = Inr m2"
    "core (ls(LUnuse := ls LUnuse @ [x])) {} m2" "moved m1 m2" "m_queue m2 = m_queue m1" by auto
  have "unlinked m1 x" using coreD(8) [OF m1(2), of x] by simp
  with m1 m2 show ?thesis
    by (intro exI [of _ m2]) (auto simp: to_unuse_def thread_add_unuse_def th_at_def unlinked_def intro: moved_trans)
qed

lemma make_ready_step:
  assumes "core ls {x} m"
  shows "\<exists>m'. make_ready x m = Inr m' \<and> core (ls(LReady := ls LReady @ [x])) {} m' \<and> moved m m' \<and> m_queue m' = m_queue m"
proof -
  from type_step [OF assms, of THREAD_READY] obtain m1 where m1: "upd_th x (\<lambda>t. t\<lparr>th_type := THREAD_READY\<rparr>) m = Inr m1"
    "core ls {x} m1" "moved m m1" "m_queue m1 = m_queue m" "th_type (m_mem m1 x) = THREAD_READY" by blast
  from attach_step [OF m1(2), of LReady] m1 show ?thesis by (fastforce simp: make_ready_def intro: moved_trans)
qed

text \<open>The thread at position \<open>i\<close> leaves its queue.\<close>

lemma remove_step:
  assumes c: "core ls {} m" and i: "i < pq_size (m_queue m q)" and x: "pq_array (m_queue m q) ! i = x"
  shows "\<exists>m'. remove_timer i q m = Inr m' \<and> core ls {x} m' \<and> moved m m' \<and> (\<forall>q'. q' \<noteq> q \<longrightarrow> m_queue m' q' = m_queue m q') \<and>
     mset (elems (m_queue m' q)) + {#x#} = mset (elems (m_queue m q)) \<and> pq_size (m_queue m' q) = pq_size (m_queue m q) - 1"
proof -
  note t = coreD(4) [OF c, of q]
  from remove_timer_ok [OF t i] x obtain m' where m': "remove_timer i q m = Inr m'" "tqueue m' q" "requeued q (qset m q) m m'"
    "mset (elems (m_queue m' q)) + {#x#} = mset (elems (m_queue m q))" "pq_size (m_queue m' q) = pq_size (m_queue m q) - 1" by blast
  have xq: "x \<in> qset m q" using nth_in_set_take [OF i] t x by (auto simp: tqueue_def queue_ok_def elems_def)
  have "distinct (elems (m_queue m q))" using tqueue_distinct [OF t] .
  then have "qset m' q \<union> {x} = qset m q" "x \<notin> qset m' q"
    using m'(4) by (metis Un_insert_right add_mset_add_single set_mset_add_mset_insert set_mset_mset sup_bot_right,
      metis add_mset_add_single distinct.simps(2) mset.simps(2) mset_eq_imp_distinct_iff)
  then have "core ls {x} m'"
    using xq coreD(6) [OF c, of _ q] by (intro core_requeue [OF c m'(3) _ m'(2)]) auto
  then show ?thesis using m' requeued_moved [OF m'(3)] requeuedD(6) [OF m'(3)] by blast
qed

lemma cancel_queue_step:
  assumes c: "core ls {} m" and x: "x \<in> qset m q"
  shows "\<exists>m'. cancel_queue x q m = Inr m' \<and> core ls {x} m' \<and> moved m m' \<and> (\<forall>q'. q' \<noteq> q \<longrightarrow> m_queue m' q' = m_queue m q') \<and>
     mset (elems (m_queue m' q)) + {#x#} = mset (elems (m_queue m q))"
proof -
  note p = tqueue_pos [OF coreD(4) [OF c] x]
  have "x < m_brk m" using coreD(5) [OF c x] by (simp add: unlinked_def)
  moreover have "nat (th_index (m_mem m x)) < length (pq_array (m_queue m q))" using p(2,4) by linarith
  ultimately have "cancel_queue x q m = remove_timer (nat (th_index (m_mem m x))) q m"
    using p(1,3) by (simp add: cancel_queue_def th_at_def)
  with remove_step [OF c p(2,3)] show ?thesis by auto
qed

end
