(* ===== verification/ThreadSched.thy ===== *)
theory ThreadSched
  imports ThreadInv
begin

text \<open>
  Every operation of the scheduler keeps the invariant and fails no assertion: obtaining a thread,
  the five ways to add one, and cancelling.
\<close>

section \<open>Obtaining a thread\<close>

definition obtained :: "nat \<Rightarrow> thread_master \<Rightarrow> thread_master \<Rightarrow> bool" where
  "obtained x m m' \<longleftrightarrow> m_fd m' = m_fd m \<and> m_queue m' = m_queue m \<and> m_brk m \<le> m_brk m' \<and> m_clock m' = m_clock m \<and>
     (\<forall>a. a \<noteq> x \<longrightarrow> body (m_mem m' a) = body (m_mem m a))"

definition alloc_thread :: "thread_master \<Rightarrow> thread_master" where
  "alloc_thread m = m\<lparr>m_mem := (m_mem m)(m_brk m := zero_thread), m_alloc := Suc (m_alloc m), m_brk := Suc (m_brk m)\<rparr>"

lemma alloc_step:
  assumes c: "core ls {} m"
  shows "core ls {m_brk m} (alloc_thread m)" "obtained (m_brk m) m (alloc_thread m)"
proof -
  let ?m = "alloc_thread m"
  have old: "m_mem ?m a = m_mem m a" "a < m_brk ?m" if "a < m_brk m" for a using that by (auto simp: alloc_thread_def)
  have ls: "a < m_brk m" if "a \<in> set (ls l)" for a l using that lists_okD(3) [OF coreD(1) [OF c]] by auto
  have qs: "a < m_brk m" if "a \<in> qset m q" for a q using that coreD(5) [OF c] by (auto simp: unlinked_def)
  have [simp]: "m_queue ?m = m_queue m" "m_list ?m = m_list m" "m_brk ?m = Suc (m_brk m)" "m_alloc ?m = Suc (m_alloc m)"
    by (simp_all add: alloc_thread_def)
  have "lk ?m a = lk m a" if "a < m_brk m" for a using that old by (simp add: lk_def)
  then have "dll (lk ?m) (tl_head (m_list m l)) (tl_tail (m_list m l)) (ls l)" for l
    using lists_okD(1) [OF coreD(1) [OF c], of l] ls by (auto simp: dll_def intro: seg_frame)
  moreover have "\<forall>l l'. l \<noteq> l' \<longrightarrow> set (ls l) \<inter> set (ls l') = {}"
    using coreD(1) [OF c] unfolding lists_ok_def by (elim conjE)
  moreover have "set (ls l) \<subseteq> {..<m_brk ?m}" for l using ls by (auto simp: less_Suc_eq)
  ultimately have "lists_ok ls ?m"
    using lists_okD(2) [OF coreD(1) [OF c]] unfolding lists_ok_def by simp
  moreover have "tqueue ?m q" for q
    by (rule tqueue_cong [OF coreD(4) [OF c]]) (auto dest: qs simp: old)
  moreover have "unlinked ?m a" if "unlinked m a" for a
    using that old by (simp add: unlinked_def)
  moreover have "unlinked ?m (m_brk m)" by (simp add: unlinked_def alloc_thread_def zero_thread_def)
  moreover have "\<exists>l. a \<in> set (ls l)" if "a < m_brk ?m" "a \<notin> {m_brk m}" "\<And>q. a \<notin> qset ?m q" for a
  proof -
    have "a < m_brk m" using that by simp
    from core_place [OF c this] that(3) show ?thesis by auto
  qed
  moreover have "th_type (m_mem ?m a) = ltype l \<and> a \<notin> {m_brk m}" if "a \<in> set (ls l)" for a l
    using coreD(2) [OF c that] ls [OF that] old(1) by auto
  moreover have "th_type (m_mem ?m a) = qtype q \<and> a \<notin> {m_brk m}" if "a \<in> qset ?m q" for a q
    using coreD(6) [OF c, of a q] qs [of a q] old(1) that by auto
  ultimately show "core ls {m_brk m} ?m"
    using coreD(5,10) [OF c] by (intro coreI) auto
  show "obtained (m_brk m) m ?m" by (simp add: obtained_def alloc_thread_def)
qed

lemma write_step:
  assumes "core ls {x} m" "\<And>t. th_next (f t) = th_next t" "\<And>t. th_prev (f t) = th_prev t"
  shows "\<exists>m'. upd_th x f m = Inr m' \<and> core ls {x} m' \<and> obtained x m m' \<and> m_mem m' x = f (m_mem m x)"
proof -
  have x: "x < m_brk m" "unlinked m x" using core_detached [OF assms(1)] coreD(8) [OF assms(1), of x] by auto
  let ?m = "m\<lparr>m_mem := (m_mem m)(x := f (m_mem m x))\<rparr>"
  have "core ls {x} ?m" using core_write [OF assms(1), of f] x(2) assms(2,3) by (simp add: unlinked_def)
  then show ?thesis using x(1) by (intro exI [of _ ?m]) (simp add: upd_th_def th_at_def obtained_def)
qed

lemma obtained_trans [trans]: "obtained x m m' \<Longrightarrow> obtained x m' m'' \<Longrightarrow> obtained x m m''"
  by (simp add: obtained_def)

lemma moved_obtained: "moved m m' \<Longrightarrow> m_queue m' = m_queue m \<Longrightarrow> obtained x m m'"
  by (simp add: moved_def obtained_def)

lemma thread_get_step:
  assumes c: "core ls {} m"
  shows "\<exists>m' x. thread_get ty func arg dbg m = Inr (m', x) \<and> core (ls(LUnuse := tl (ls LUnuse))) {x} m' \<and> obtained x m m' \<and>
     th_type (m_mem m' x) = ty \<and> th_func (m_mem m' x) = func \<and> th_arg (m_mem m' x) = arg \<and>
     x \<notin> (\<Union>l \<in> - {LUnuse}. set (ls l)) \<and> (\<forall>q. x \<notin> qset m q)"
proof -
  let ?f = "\<lambda>t. t\<lparr>th_type := ty, th_add_type := ty, th_func := func, th_arg := arg, th_index := -1, th_debug := dbg\<rparr>"
  let ?ls = "ls(LUnuse := tl (ls LUnuse))"
  have head: "tl_head (m_list m LUnuse) = first_p (ls LUnuse)" using lists_okD(4) [OF coreD(1) [OF c]] .
  have "\<exists>m1 x. thread_get ty func arg dbg m = and_then (upd_th x ?f m1) (\<lambda>m. Inr (m, x)) \<and> core ?ls {x} m1 \<and> obtained x m m1"
  proof (cases "ls LUnuse")
    case Nil
    then have "thread_get ty func arg dbg m = and_then (upd_th (m_brk m) ?f (alloc_thread m)) (\<lambda>m'. Inr (m', m_brk m))"
      using head by (simp add: thread_get_def thread_trim_head_def alloc_thread_def)
    with alloc_step [OF c] Nil show ?thesis by (auto simp: fun_upd_idem)
  next
    case (Cons x xs)
    with detach_step [OF c, of LUnuse "[]" x xs] obtain m1 where
      "thread_list_delete LUnuse x m = Inr m1" "core ?ls {x} m1" "moved m m1" "m_queue m1 = m_queue m" by auto
    moreover from this have "thread_get ty func arg dbg m = and_then (upd_th x ?f m1) (\<lambda>m. Inr (m, x))"
      using head Cons by (simp add: thread_get_def thread_trim_head_def)
    ultimately show ?thesis using moved_obtained by blast
  qed
  then obtain m1 x where get: "thread_get ty func arg dbg m = and_then (upd_th x ?f m1) (\<lambda>m. Inr (m, x))"
    and m1: "core ?ls {x} m1" "obtained x m m1" by blast
  from write_step [OF m1(1), of ?f] obtain m' where m': "upd_th x ?f m1 = Inr m'" "core ?ls {x} m'" "obtained x m1 m'"
    "m_mem m' x = ?f (m_mem m1 x)" by auto
  have "x \<notin> set (ls l)" if "l \<noteq> LUnuse" for l using core_detached [OF m1(1), of x] that by (metis fun_upd_other singletonI)
  moreover have "x \<notin> qset m q" for q using core_detached [OF m1(1), of x] m1(2) by (simp add: obtained_def)
  ultimately show ?thesis using get m' m1(2) obtained_trans by auto
qed

section \<open>Descriptors\<close>

lemma fdlist_inj: "fdlist n = Some l \<Longrightarrow> fdlist n' = Some l \<Longrightarrow> n = n'"
  by (cases n; cases n') auto

lemma fdlist_names: "fdlist n = Some l \<Longrightarrow> l \<noteq> LUnuse \<and> l \<noteq> LReady \<and> l \<noteq> LEvent"
  by (cases n) auto

lemma fds_okD: "fds_ok ls m \<Longrightarrow> fdlist n = Some l \<Longrightarrow> distinct (map (fd_of m) (ls l)) \<and> m_fd m n = fd_of m ` set (ls l) \<and> (\<forall>fd \<in> m_fd m n. fd_valid fd)"
  by (simp add: fds_ok_def)

lemma fds_ok_valid:
  assumes "fds_ok ls m" "fdlist n = Some l" "x \<in> set (ls l)"
  shows "fd_of m x \<in> m_fd m n" "fd_valid (fd_of m x)"
  using fds_okD [OF assms(1,2)] assms(3) by auto

lemma fd_of_fd [simp]: "fd_of (m\<lparr>m_fd := f\<rparr>) = fd_of m" "fd_of (m\<lparr>m_clock := c\<rparr>) = fd_of m"
  by (simp_all add: fd_of_def fun_eq_iff)

lemma fds_frame:
  assumes "fds_ok ls m" "m_fd m' = m_fd m" "\<And>n l. fdlist n = Some l \<Longrightarrow> ls' l = ls l"
    "\<And>n l a. fdlist n = Some l \<Longrightarrow> a \<in> set (ls l) \<Longrightarrow> fd_of m' a = fd_of m a"
  shows "fds_ok ls' m'"
proof -
  have "map (fd_of m') (ls' l) = map (fd_of m) (ls l)" "fd_of m' ` set (ls' l) = fd_of m ` set (ls l)"
    if "fdlist n = Some l" for n l using assms(3,4) [OF that] by auto
  then show ?thesis using assms(1) unfolding fds_ok_def assms(2) by simp
qed

lemma fds_moved:
  assumes "fds_ok ls m" "moved m m'" "\<And>n l. fdlist n = Some l \<Longrightarrow> ls' l = ls l"
  shows "fds_ok ls' m'"
  using assms movedD [OF assms(2)] by (intro fds_frame [OF assms(1)]) (auto simp: fd_of_def)

lemma fds_obtained:
  assumes "fds_ok ls m" "obtained x m m'" "\<And>n l. fdlist n = Some l \<Longrightarrow> ls' l = ls l"
    "\<And>n l. fdlist n = Some l \<Longrightarrow> x \<notin> set (ls l)"
  shows "fds_ok ls' m'"
proof (rule fds_frame [OF assms(1)])
  show "fd_of m' a = fd_of m a" if "fdlist n = Some l" "a \<in> set (ls l)" for n l a
  proof -
    have "a \<noteq> x" using that assms(4) by auto
    then have "body (m_mem m' a) = body (m_mem m a)" using assms(2) by (simp add: obtained_def)
    from body_eqD(4) [OF this] show ?thesis by (simp add: fd_of_def)
  qed
qed (insert assms(2,3), auto simp: obtained_def)

text \<open>A thread with a new descriptor joins the list, or one leaves it with its descriptor.\<close>

lemma fds_insert:
  assumes "fds_ok ls m" "fdlist n = Some l" "fd_of m x \<notin> m_fd m n" "x \<notin> set (ls l)" "fd_valid (fd_of m x)"
  shows "fds_ok (ls(l := ls l @ [x])) (fd_with (fd_of m x) n m)"
proof -
  show ?thesis
    unfolding fds_ok_def
  proof (intro allI impI)
    fix n' l' assume n': "fdlist n' = Some l'"
    show "distinct (map (fd_of (fd_with (fd_of m x) n m)) ((ls(l := ls l @ [x])) l')) \<and>
        m_fd (fd_with (fd_of m x) n m) n' = fd_of (fd_with (fd_of m x) n m) ` set ((ls(l := ls l @ [x])) l') \<and>
        (\<forall>fd \<in> m_fd (fd_with (fd_of m x) n m) n'. fd_valid fd)"
    proof (cases "n' = n")
      case True
      then have "l' = l" using n' assms(2) by simp
      with True fds_okD [OF assms(1,2)] assms(3-5) show ?thesis by (auto simp: fd_with_def)
    next
      case False
      then have "l' \<noteq> l" using fdlist_inj [OF n'] assms(2) by auto
      with False fds_okD [OF assms(1) n'] show ?thesis by (simp add: fd_with_def)
    qed
  qed
qed

lemma fds_delete:
  assumes "fds_ok ls m" "fdlist n = Some l" "ls l = xs @ x # ys"
  shows "fd_of m x \<in> m_fd m n" "fds_ok (ls(l := xs @ ys)) (fd_without (fd_of m x) n m)"
proof -
  have ok: "distinct (map (fd_of m) (xs @ x # ys))" "m_fd m n = fd_of m ` set (xs @ x # ys)" "\<forall>fd \<in> m_fd m n. fd_valid fd"
    using fds_okD [OF assms(1,2)] assms(3) by auto
  then show "fd_of m x \<in> m_fd m n" by simp
  show "fds_ok (ls(l := xs @ ys)) (fd_without (fd_of m x) n m)"
    unfolding fds_ok_def
  proof (intro allI impI)
    fix n' l' assume n': "fdlist n' = Some l'"
    show "distinct (map (fd_of (fd_without (fd_of m x) n m)) ((ls(l := xs @ ys)) l')) \<and>
        m_fd (fd_without (fd_of m x) n m) n' = fd_of (fd_without (fd_of m x) n m) ` set ((ls(l := xs @ ys)) l') \<and>
        (\<forall>fd \<in> m_fd (fd_without (fd_of m x) n m) n'. fd_valid fd)"
    proof (cases "n' = n")
      case True
      then have "l' = l" using n' assms(2) by simp
      moreover have "fd_of m x \<notin> fd_of m ` set (xs @ ys)" using ok(1) by auto
      ultimately show ?thesis using True ok by (auto simp: fd_without_def)
    next
      case False
      then have "l' \<noteq> l" using fdlist_inj [OF n'] assms(2) by auto
      with False fds_okD [OF assms(1) n'] show ?thesis by (simp add: fd_without_def)
    qed
  qed
qed

lemma core_fd [simp]: "core ls D (fd_with fd n m) = core ls D m" "core ls D (fd_without fd n m) = core ls D m"
  by (simp_all add: fd_with_def fd_without_def)

section \<open>Adding threads\<close>

lemma add_fd_step:
  assumes s: "sched ls m" and l: "fdlist n = Some l" and fd: "fd \<notin> m_fd m n" "fd_valid fd"
  shows "\<exists>m' x. and_then (thread_get (ltype l) func arg dbg m) (\<lambda>(m, x). and_then (FD_SET fd n m) (\<lambda>m.
        and_then (upd_th x (\<lambda>t. t\<lparr>th_u := U_fd fd\<rparr>) m) (\<lambda>m.
        and_then (thread_list_add l x m) (\<lambda>m. Inr (m, Some x))))) = Inr (m', Some x) \<and>
     sched (ls(LUnuse := tl (ls LUnuse), l := ls l @ [x])) m' \<and> fd_of m' x = fd \<and> x < m_brk m' \<and>
     th_func (m_mem m' x) = func \<and> th_arg (m_mem m' x) = arg \<and> m_queue m' = m_queue m"
proof -
  have c: "core ls {} m" and f: "fds_ok ls m" using s by (auto simp: sched_def)
  note nl = fdlist_names [OF l]
  let ?ls = "ls(LUnuse := tl (ls LUnuse))"
  from thread_get_step [OF c, of "ltype l" func arg dbg] obtain m1 x where
    m1: "thread_get (ltype l) func arg dbg m = Inr (m1, x)" "core ?ls {x} m1" "obtained x m m1" "th_type (m_mem m1 x) = ltype l"
    "th_func (m_mem m1 x) = func" "th_arg (m_mem m1 x) = arg" and x: "\<And>l. l \<noteq> LUnuse \<Longrightarrow> x \<notin> set (ls l)" by auto
  from write_step [of ?ls x "fd_with fd n m1" "\<lambda>t. t\<lparr>th_u := U_fd fd\<rparr>"] m1(2) obtain m2 where
    m2: "upd_th x (\<lambda>t. t\<lparr>th_u := U_fd fd\<rparr>) (fd_with fd n m1) = Inr m2" "core ?ls {x} m2" "obtained x (fd_with fd n m1) m2"
    "m_mem m2 x = (m_mem m1 x)\<lparr>th_u := U_fd fd\<rparr>" by (auto simp: fd_with_def)
  from attach_step [OF m2(2), of l] m2(4) m1(4) obtain m3 where
    m3: "thread_list_add l x m2 = Inr m3" "core (?ls(l := ?ls l @ [x])) {} m3" "moved m2 m3" "m_queue m3 = m_queue m2" by auto
  let ?m = "m2\<lparr>m_fd := m_fd m\<rparr>"
  have fx: "fd_of ?m x = fd" using m2(4) by (simp add: fd_of_def)
  have "obtained x m ?m" using m1(3) m2(3) by (simp add: obtained_def fd_with_def)
  moreover have "\<And>n l. fdlist n = Some l \<Longrightarrow> ?ls l = ls l" "\<And>n l. fdlist n = Some l \<Longrightarrow> x \<notin> set (ls l)"
    using fdlist_names x by auto
  ultimately have "fds_ok ?ls ?m" by (rule fds_obtained [OF f])
  moreover have "x \<notin> set (?ls l)" using x nl by simp
  ultimately have "fds_ok (?ls(l := ?ls l @ [x])) (fd_with (fd_of ?m x) n ?m)"
    using fx fd by (intro fds_insert [OF _ l]) auto
  moreover have "fd_with (fd_of ?m x) n ?m = m2"
    using fx m2(3) m1(3) by (auto simp: fd_with_def obtained_def intro!: thread_master.equality)
  ultimately have "fds_ok (?ls(l := ?ls l @ [x])) m3" using fds_moved [OF _ m3(3)] by simp
  moreover have "m_queue m3 = m_queue m" using m3(4) m2(3) m1(3) by (simp add: obtained_def fd_with_def)
  moreover have "x < m_brk m3" using core_detached [OF m2(2)] movedD(3) [OF m3(3)] by simp
  ultimately show ?thesis
    using m1 m2(1,4) m3(1,2) movedD(4,5,6) [OF m3(3), of x] nl
    fd(2)
    by (intro exI [of _ m3] exI [of _ x]) (simp add: sched_def fd_of_def FD_SET_def fun_upd_twist)
qed

lemma add_event_step:
  assumes s: "sched ls m"
  shows "\<exists>m' x. funcname_thread_add_event m func arg val dbg = Inr (m', Some x) \<and>
     sched (ls(LUnuse := tl (ls LUnuse), LEvent := ls LEvent @ [x])) m' \<and> x < m_brk m' \<and>
     th_func (m_mem m' x) = func \<and> th_arg (m_mem m' x) = arg \<and> m_queue m' = m_queue m"
proof -
  have c: "core ls {} m" and f: "fds_ok ls m" using s by (auto simp: sched_def)
  let ?ls = "ls(LUnuse := tl (ls LUnuse))"
  from thread_get_step [OF c, of THREAD_EVENT func arg dbg] obtain m1 x where
    m1: "thread_get THREAD_EVENT func arg dbg m = Inr (m1, x)" "core ?ls {x} m1" "obtained x m m1" "th_type (m_mem m1 x) = THREAD_EVENT"
    "th_func (m_mem m1 x) = func" "th_arg (m_mem m1 x) = arg" and x: "\<And>l. l \<noteq> LUnuse \<Longrightarrow> x \<notin> set (ls l)" by auto
  from write_step [OF m1(2), of "\<lambda>t. t\<lparr>th_u := U_val val\<rparr>"] obtain m2 where
    m2: "upd_th x (\<lambda>t. t\<lparr>th_u := U_val val\<rparr>) m1 = Inr m2" "core ?ls {x} m2" "obtained x m1 m2"
    "m_mem m2 x = (m_mem m1 x)\<lparr>th_u := U_val val\<rparr>" by auto
  from attach_step [OF m2(2), of LEvent] m2(4) m1(4) obtain m3 where
    m3: "thread_list_add LEvent x m2 = Inr m3" "core (?ls(LEvent := ?ls LEvent @ [x])) {} m3" "moved m2 m3" "m_queue m3 = m_queue m2"
    by auto
  have "fds_ok ?ls m2" using fdlist_names x by (intro fds_obtained [OF f obtained_trans [OF m1(3) m2(3)]]) auto
  then have "fds_ok (?ls(LEvent := ?ls LEvent @ [x])) m3" 
    by (rule fds_moved [OF _ m3(3)]) (insert fdlist_names, auto)
  moreover have "x < m_brk m3" using core_detached [OF m2(2)] movedD(3) [OF m3(3)] by simp
  ultimately show ?thesis
    using m1 m2(1,3,4) m3(1,2,4) movedD(5,6) [OF m3(3), of x]
    by (intro exI [of _ m3] exI [of _ x]) (simp add: sched_def funcname_thread_add_event_def fun_upd_twist obtained_def)
qed

lemma enqueue_step:
  assumes c: "core ls {x} m" and ty: "th_type (m_mem m x) = qtype q"
  shows "\<exists>m'. enqueue_timer q x m = Inr m' \<and> core ls {} m' \<and> moved m m' \<and> (\<forall>q'. q' \<noteq> q \<longrightarrow> m_queue m' q' = m_queue m q') \<and>
     mset (elems (m_queue m' q)) = mset (elems (m_queue m q)) + {#x#}"
proof -
  have x: "x \<notin> qset m q" using core_detached [OF c] by simp
  from enqueue_timer_ok [OF coreD(4) [OF c] x] obtain m' where m': "enqueue_timer q x m = Inr m'" "tqueue m' q"
    "requeued q (insert x (qset m q)) m m'" "mset (elems (m_queue m' q)) = mset (elems (m_queue m q)) + {#x#}" by blast
  have "qset m' q = insert x (qset m q)" using m'(4) by (metis add_mset_add_single set_mset_add_mset_insert set_mset_mset)
  then have "core ls {} m'"
    using coreD(6) [OF c, of _ q] ty by (intro core_requeue [OF c m'(3) refl m'(2)]) auto
  then show ?thesis using m' requeued_moved [OF m'(3)] requeuedD(6) [OF m'(3)] by blast
qed

lemma get_relative_simps [simp]:
  "core ls D (get_relative r m) = core ls D m" "m_mem (get_relative r m) = m_mem m" "m_fd (get_relative r m) = m_fd m"
  "m_queue (get_relative r m) = m_queue m" "m_brk (get_relative r m) = m_brk m" "m_list (get_relative r m) = m_list m"
  "m_clock (get_relative r m) = fst (quagga_get_relative r (m_clock m))" "fd_of (get_relative r m) = fd_of m"
  by (simp_all add: get_relative_def)

lemma add_timer_step:
  assumes s: "sched ls m"
  shows "\<exists>m' x now. funcname_thread_add_timer_timeval r m func (qtype q) arg tr dbg = Inr (m', Some x) \<and>
     sched (ls(LUnuse := tl (ls LUnuse))) m' \<and> x \<notin> qset m q \<and> x < m_brk m' \<and>
     mset (elems (m_queue m' q)) = mset (elems (m_queue m q)) + {#x#} \<and> (\<forall>q'. q' \<noteq> q \<longrightarrow> m_queue m' q' = m_queue m q') \<and>
     now = relative_time (fst (quagga_get_relative r (m_clock m))) \<and>
     th_u (m_mem m' x) = U_sands (timeval_adjust \<lparr>tv_sec = tv_sec now + tv_sec tr, tv_usec = tv_usec now + tv_usec tr\<rparr>) \<and>
     th_func (m_mem m' x) = func \<and> th_arg (m_mem m' x) = arg"
proof -
  have c: "core ls {} m" and f: "fds_ok ls m" using s by (auto simp: sched_def)
  let ?ls = "ls(LUnuse := tl (ls LUnuse))"
  have q: "ensure (qtype q = THREAD_TIMER \<or> qtype q = THREAD_BACKGROUND) = Inr ()"
    "(if qtype q = THREAD_TIMER then QTimer else QBackground) = q" by (cases q; simp)+
  from thread_get_step [OF c, of "qtype q" func arg dbg] obtain m1 x where
    m1: "thread_get (qtype q) func arg dbg m = Inr (m1, x)" "core ?ls {x} m1" "obtained x m m1" "th_type (m_mem m1 x) = qtype q"
    "th_func (m_mem m1 x) = func" "th_arg (m_mem m1 x) = arg" "x \<notin> qset m q"
    and x: "\<And>l. l \<noteq> LUnuse \<Longrightarrow> x \<notin> set (ls l)" by auto
  let ?now = "relative_time (fst (quagga_get_relative r (m_clock m)))"
  let ?u = "U_sands (timeval_adjust \<lparr>tv_sec = tv_sec ?now + tv_sec tr, tv_usec = tv_usec ?now + tv_usec tr\<rparr>)"
  let ?m = "get_relative r m1"
  have ck: "m_clock m1 = m_clock m" using m1(3) by (simp add: obtained_def)
  from write_step [of ?ls x ?m "\<lambda>t. t\<lparr>th_u := ?u\<rparr>"] m1(2) obtain m2 where
    m2: "upd_th x (\<lambda>t. t\<lparr>th_u := ?u\<rparr>) ?m = Inr m2" "core ?ls {x} m2" "obtained x ?m m2"
    "m_mem m2 x = (m_mem m1 x)\<lparr>th_u := ?u\<rparr>" by auto
  from enqueue_step [OF m2(2), of q] m2(4) m1(4) obtain m3 where
    m3: "enqueue_timer q x m2 = Inr m3" "core ?ls {} m3" "moved m2 m3" "\<forall>q'. q' \<noteq> q \<longrightarrow> m_queue m3 q' = m_queue m2 q'"
    "mset (elems (m_queue m3 q)) = mset (elems (m_queue m2 q)) + {#x#}" by auto
  have "fds_ok ?ls m1" using fdlist_names x by (intro fds_obtained [OF f m1(3)]) auto
  then have "fds_ok ?ls ?m" by (rule fds_frame) auto
  then have "fds_ok ?ls m2" by (rule fds_obtained [OF _ m2(3)]) (insert fdlist_names x, auto)
  then have "fds_ok ?ls m3" by (rule fds_moved [OF _ m3(3)]) simp
  moreover have "x < m_brk m3" using core_detached [OF m2(2)] movedD(3) [OF m3(3)] by simp
  moreover have "m_queue m2 = m_queue m" using m1(3) m2(3) by (simp add: obtained_def)
  moreover have "funcname_thread_add_timer_timeval r m func (qtype q) arg tr dbg = Inr (m3, Some x)"
    unfolding funcname_thread_add_timer_timeval_def q Let_def using m1(1) m2(1) m3(1) ck by simp
  ultimately show ?thesis
    using m1(5,6,7) m2(4) m3(2,4,5) movedD(4,5,6) [OF m3(3), of x]
    by (intro exI [of _ m3] exI [of _ x] exI [of _ ?now]) (simp add: sched_def)
qed

section \<open>Cancelling\<close>

text \<open>A thread in a list, respectively in a queue, goes to the unused threads.\<close>

lemma cancel_list_step:
  assumes "core ls {} m" "ls l = xs @ x # ys" "l \<noteq> LUnuse"
  shows "\<exists>m'. and_then (thread_list_delete l x m) (to_unuse x) = Inr m' \<and>
     core (ls(l := xs @ ys, LUnuse := ls LUnuse @ [x])) {} m' \<and> moved m m' \<and> m_queue m' = m_queue m"
proof -
  from detach_step [OF assms(1,2)] obtain m1 where m1: "thread_list_delete l x m = Inr m1" "core (ls(l := xs @ ys)) {x} m1"
    "moved m m1" "m_queue m1 = m_queue m" by blast
  from to_unuse_step [OF m1(2)] assms(3) m1 show ?thesis by (auto intro: moved_trans)
qed

lemma cancel_queue_unuse_step:
  assumes "core ls {} m" "x \<in> qset m q"
  shows "\<exists>m'. and_then (cancel_queue x q m) (to_unuse x) = Inr m' \<and>
     core (ls(LUnuse := ls LUnuse @ [x])) {} m' \<and> moved m m' \<and> (\<forall>q'. qset m' q' = qset m q' - {x})"
proof -
  from cancel_queue_step [OF assms] obtain m1 where m1: "cancel_queue x q m = Inr m1" "core ls {x} m1" "moved m m1"
    "\<forall>q'. q' \<noteq> q \<longrightarrow> m_queue m1 q' = m_queue m q'" "mset (elems (m_queue m1 q)) + {#x#} = mset (elems (m_queue m q))" by blast
  from to_unuse_step [OF m1(2)] obtain m2 where m2: "to_unuse x m1 = Inr m2" "core (ls(LUnuse := ls LUnuse @ [x])) {} m2"
    "moved m1 m2" "m_queue m2 = m_queue m1" by blast
  have x: "x \<notin> qset m1 q'" for q' using core_detached [OF m1(2)] by simp
  have "insert x (qset m1 q) = qset m q"
    using m1(5) by (metis add_mset_add_single set_mset_add_mset_insert set_mset_mset)
  then have "qset m2 q' = qset m q' - {x}" for q' using m1(4) m2(4) x [of q'] by (cases "q' = q") auto
  with m1 m2 show ?thesis by (auto intro: moved_trans)
qed

lemma sched_cancel_list:
  assumes s: "sched ls m" and l: "ls l = xs @ x # ys" "l \<noteq> LUnuse" "\<And>n. fdlist n \<noteq> Some l"
  shows "\<exists>m'. and_then (thread_list_delete l x m) (to_unuse x) = Inr m' \<and>
     sched (ls(l := xs @ ys, LUnuse := ls LUnuse @ [x])) m' \<and> moved m m' \<and> m_queue m' = m_queue m"
proof -
  have c: "core ls {} m" and f: "fds_ok ls m" using s by (auto simp: sched_def)
  from cancel_list_step [OF c l(1,2)] obtain m' where m': "and_then (thread_list_delete l x m) (to_unuse x) = Inr m'"
    "core (ls(l := xs @ ys, LUnuse := ls LUnuse @ [x])) {} m'" "moved m m'" "m_queue m' = m_queue m" by blast
  moreover have "fds_ok (ls(l := xs @ ys, LUnuse := ls LUnuse @ [x])) m'"
    by (rule fds_moved [OF f m'(3)]) (insert l(3) fdlist_names, auto)
  ultimately show ?thesis by (auto simp: sched_def)
qed

lemma sched_cancel_fd:
  assumes s: "sched ls m" and l: "ls l = xs @ x # ys" and n: "fdlist n = Some l"
  shows "fd_of m x \<in> m_fd m n" "\<exists>m'. and_then (thread_list_delete l x (fd_without (fd_of m x) n m)) (to_unuse x) = Inr m' \<and>
     sched (ls(l := xs @ ys, LUnuse := ls LUnuse @ [x])) m' \<and> moved (fd_without (fd_of m x) n m) m' \<and> m_queue m' = m_queue m"
proof -
  have c: "core ls {} m" and f: "fds_ok ls m" using s by (auto simp: sched_def)
  note d = fds_delete [OF f n l]
  show "fd_of m x \<in> m_fd m n" by (rule d(1))
  have "core ls {} (fd_without (fd_of m x) n m)" using c by simp
  from cancel_list_step [OF this l] fdlist_names [OF n] obtain m' where
    m': "and_then (thread_list_delete l x (fd_without (fd_of m x) n m)) (to_unuse x) = Inr m'"
    "core (ls(l := xs @ ys, LUnuse := ls LUnuse @ [x])) {} m'" "moved (fd_without (fd_of m x) n m) m'" "m_queue m' = m_queue m"
    by (auto simp: fd_without_def)
  moreover have "fds_ok (ls(l := xs @ ys, LUnuse := ls LUnuse @ [x])) m'"
    by (rule fds_moved [OF d(2) m'(3)]) (insert fdlist_names, auto)
  ultimately show "\<exists>m'. and_then (thread_list_delete l x (fd_without (fd_of m x) n m)) (to_unuse x) = Inr m' \<and>
     sched (ls(l := xs @ ys, LUnuse := ls LUnuse @ [x])) m' \<and> moved (fd_without (fd_of m x) n m) m' \<and> m_queue m' = m_queue m"
    by (auto simp: sched_def)
qed

text \<open>The place of every other thread, and so its type, stays as it was.\<close>

lemma type_by_place:
  assumes "core ls D m" "core ls' D' m'" "a < m_brk m" "a \<notin> D" "\<And>l. a \<in> set (ls l) \<Longrightarrow> a \<in> set (ls' l)"
    "\<And>q. a \<in> qset m q \<Longrightarrow> a \<in> qset m' q"
  shows "th_type (m_mem m' a) = th_type (m_mem m a)"
  using core_place [OF assms(1,3)] assms(4-6) coreD(2,6) [OF assms(1)] coreD(2,6) [OF assms(2)] by metis

definition cancelled :: "nat \<Rightarrow> thread_master \<Rightarrow> thread_master \<Rightarrow> bool" where
  "cancelled x m m' \<longleftrightarrow> th_type (m_mem m' x) = THREAD_UNUSED \<and> m_brk m' = m_brk m \<and>
     (\<forall>a. a < m_brk m \<longrightarrow> a \<noteq> x \<longrightarrow> th_type (m_mem m' a) = th_type (m_mem m a) \<and> body (m_mem m' a) = body (m_mem m a))"

lemma cancelled_list:
  assumes "core ls {} m" "core (ls(l := xs @ ys, LUnuse := ls LUnuse @ [x])) {} m'" "ls l = xs @ x # ys" "l \<noteq> LUnuse"
    "moved m m'" "m_queue m' = m_queue m"
  shows "cancelled x m m'"
proof -
  have "th_type (m_mem m' a) = th_type (m_mem m a)" if "a < m_brk m" "a \<noteq> x" for a
    by (rule type_by_place [OF assms(1,2) that(1)]) (insert assms(3,4,6) that(2), auto split: if_splits)
  moreover have "th_type (m_mem m' x) = THREAD_UNUSED" using coreD(2) [OF assms(2), of x LUnuse] by simp
  ultimately show ?thesis using movedD(3,7) [OF assms(5)] by (simp add: cancelled_def)
qed

lemma cancelled_queue:
  assumes "core ls {} m" "core (ls(LUnuse := ls LUnuse @ [x])) {} m'" "moved m m'" "\<And>q. qset m' q = qset m q - {x}"
  shows "cancelled x m m'"
proof -
  have "th_type (m_mem m' a) = th_type (m_mem m a)" if "a < m_brk m" "a \<noteq> x" for a
    by (rule type_by_place [OF assms(1,2) that(1)]) (insert assms(4) that(2), auto split: if_splits)
  moreover have "th_type (m_mem m' x) = THREAD_UNUSED" using coreD(2) [OF assms(2), of x LUnuse] by simp
  ultimately show ?thesis using movedD(3,7) [OF assms(3)] by (simp add: cancelled_def)
qed

lemma cancel_fd_result:
  assumes s: "sched ls m" and x: "x \<in> set (ls l)" and n: "fdlist n = Some l"
  shows "fd_of m x \<in> m_fd m n" "\<exists>m'. and_then (thread_list_delete l x (fd_without (fd_of m x) n m)) (to_unuse x) = Inr m' \<and>
     sched_ok m' \<and> cancelled x m m'" "fd_valid (fd_of m x)"
proof -
  from split_list [OF x] obtain xs ys where l: "ls l = xs @ x # ys" by blast
  show "fd_valid (fd_of m x)" using s x by (intro fds_ok_valid(2) [of ls m n l, OF _ n]) (auto simp: sched_def)
  show "fd_of m x \<in> m_fd m n" by (rule sched_cancel_fd(1) [OF s l n])
  from sched_cancel_fd(2) [OF s l n] obtain m' where
    m': "and_then (thread_list_delete l x (fd_without (fd_of m x) n m)) (to_unuse x) = Inr m'"
    "sched (ls(l := xs @ ys, LUnuse := ls LUnuse @ [x])) m'" "moved (fd_without (fd_of m x) n m) m'" "m_queue m' = m_queue m" by blast
  have "cancelled x (fd_without (fd_of m x) n m) m'"
    using s m'(2,4) l fdlist_names [OF n] by (intro cancelled_list [where ls = ls and l = l and xs = xs and ys = ys, OF _ _ l _ m'(3)]) (auto simp: sched_def fd_without_def)
  then have "cancelled x m m'" by (simp add: cancelled_def fd_without_def)
  with m' show "\<exists>m'. and_then (thread_list_delete l x (fd_without (fd_of m x) n m)) (to_unuse x) = Inr m' \<and>
     sched_ok m' \<and> cancelled x m m'" by (auto simp: sched_ok_def)
qed

lemma cancel_list_result:
  assumes s: "sched ls m" and x: "x \<in> set (ls l)" and l: "l = LEvent \<or> l = LReady"
  shows "\<exists>m'. and_then (thread_list_delete l x m) (to_unuse x) = Inr m' \<and> sched_ok m' \<and> cancelled x m m'"
proof -
  from split_list [OF x] obtain xs ys where xs: "ls l = xs @ x # ys" by blast
  have n: "l \<noteq> LUnuse" "\<And>n. fdlist n \<noteq> Some l" using l fdlist_names by auto
  from sched_cancel_list [OF s xs n] obtain m' where m': "and_then (thread_list_delete l x m) (to_unuse x) = Inr m'"
    "sched (ls(l := xs @ ys, LUnuse := ls LUnuse @ [x])) m'" "moved m m'" "m_queue m' = m_queue m" by blast
  have "cancelled x m m'" using s m'(2) by (intro cancelled_list [where ls = ls and l = l and xs = xs and ys = ys, OF _ _ xs n(1) m'(3,4)]) (auto simp: sched_def)
  with m' show ?thesis by (auto simp: sched_ok_def)
qed

lemma cancel_queue_result:
  assumes s: "sched ls m" and x: "x \<in> qset m q"
  shows "\<exists>m'. and_then (cancel_queue x q m) (to_unuse x) = Inr m' \<and> sched_ok m' \<and> cancelled x m m'"
proof -
  have c: "core ls {} m" and f: "fds_ok ls m" using s by (auto simp: sched_def)
  from cancel_queue_unuse_step [OF c x] obtain m' where m': "and_then (cancel_queue x q m) (to_unuse x) = Inr m'"
    "core (ls(LUnuse := ls LUnuse @ [x])) {} m'" "moved m m'" "\<And>q'. qset m' q' = qset m q' - {x}" by blast
  have "fds_ok (ls(LUnuse := ls LUnuse @ [x])) m'" by (rule fds_moved [OF f m'(3)]) (insert fdlist_names, auto)
  with m' cancelled_queue [OF c m'(2,3,4)] show ?thesis by (auto simp: sched_ok_def sched_def)
qed

lemma thread_cancel_result:
  assumes s: "sched ls m" and x: "x < m_brk m"
  shows "\<exists>m'. thread_cancel x m = Inr m' \<and> sched_ok m' \<and> cancelled x m m'"
proof -
  have c: "core ls {} m" using s by (simp add: sched_def)
  note fr = cancel_fd_result [OF s, of x LRead ReadFd] and fw = cancel_fd_result [OF s, of x LWrite WriteFd]
  from core_place [OF c x] consider l where "x \<in> set (ls l)" | q where "x \<in> qset m q" by auto
  then show ?thesis
  proof cases
    case (1 l)
    note ty = coreD(2) [OF c 1]
    show ?thesis
    proof (cases l)
      case LUnuse
      have "sched_ok m" "cancelled x m m" using s ty LUnuse by (auto simp: sched_ok_def cancelled_def)
      with ty LUnuse x show ?thesis by (auto simp: thread_cancel_def th_at_def)
    qed (insert 1 ty x fr fw cancel_list_result [OF s 1],
        auto simp: thread_cancel_def th_at_def FD_ISSET_def FD_CLR_def fd_of_def)
  next
    case (2 q)
    with coreD(6) [OF c 2] x cancel_queue_result [OF s 2] show ?thesis
      by (cases q) (auto simp: thread_cancel_def th_at_def)
  qed
qed

end
