(* ===== verification/ThreadRun.thy ===== *)
theory ThreadRun
  imports ThreadSched
begin

text \<open>
  The loops of the scheduler: cancelling by argument, the passes that make threads ready, and the
  loop of \<open>thread_fetch\<close>. Each walk is bounded by the list or queue it consumes, so the fuel is
  enough and every loop is shown to return.
\<close>

section \<open>Walks over lists\<close>

lemma sched_parts: "sched ls m \<Longrightarrow> core ls {} m" "sched ls m \<Longrightarrow> fds_ok ls m" "sched ls m \<Longrightarrow> lists_ok ls m"
  by (auto simp: sched_def dest: coreD(1))

lemma walk_node:
  assumes "lists_ok ls m" "ls l = ks @ x # xs"
  shows "th_at m x = Inr (m_mem m x)" "th_next (m_mem m x) = first_p xs"
  using list_node [OF assms] by (auto simp: th_at_def)

lemma upd_twice:
  "l \<noteq> k \<Longrightarrow> f(l := a, k := f k @ [x], l := b, k := (f(l := a, k := f k @ [x])) k @ c) = f(l := b, k := f k @ x # c)"
  by (auto simp: fun_eq_iff)

lemma cancel_walk_step:
  assumes "sched ls m" "ls l = ks @ todo" "l = LEvent \<or> l = LReady" "length todo < fuel"
  shows "\<exists>m'. cancel_walk fuel l arg (first_p todo) ret m =
       Inr (m', ret + length (filter (\<lambda>a. th_arg (m_mem m a) = arg) todo)) \<and>
     sched (ls(l := ks @ filter (\<lambda>a. th_arg (m_mem m a) \<noteq> arg) todo,
               LUnuse := ls LUnuse @ filter (\<lambda>a. th_arg (m_mem m a) = arg) todo)) m' \<and> moved m m' \<and> m_queue m' = m_queue m"
  using assms
proof (induction todo arbitrary: fuel ks ls m ret)
  case Nil
  then show ?case by (cases fuel) (auto simp: fun_upd_idem)
next
  case (Cons x xs)
  then obtain fuel' where fuel: "fuel = Suc fuel'" "length xs < fuel'" by (cases fuel) auto
  note n = walk_node [OF sched_parts(3) [OF Cons.prems(1)] Cons.prems(2)]
  show ?case
  proof (cases "th_arg (m_mem m x) = arg")
    case True
    let ?ls = "ls(l := ks @ xs, LUnuse := ls LUnuse @ [x])"
    have nl: "l \<noteq> LUnuse" "\<And>n. fdlist n \<noteq> Some l" using Cons.prems(3) fdlist_names by auto
    from sched_cancel_list [OF Cons.prems(1,2) nl] obtain m1 where
      m1: "and_then (thread_list_delete l x m) (to_unuse x) = Inr m1" "sched ?ls m1" "moved m m1" "m_queue m1 = m_queue m" by blast
    have l1: "?ls l = ks @ xs" using nl by simp
    have step: "cancel_walk fuel l arg (first_p (x # xs)) ret m = cancel_walk fuel' l arg (first_p xs) (Suc ret) m1"
      using n m1(1) True fuel(1) by (auto simp: and_then_Inr_iff and_then_assoc [symmetric])
    have f: "filter (\<lambda>a. th_arg (m_mem m a) = arg) (x # xs) = x # filter (\<lambda>a. th_arg (m_mem m a) = arg) xs"
      "filter (\<lambda>a. th_arg (m_mem m a) \<noteq> arg) (x # xs) = filter (\<lambda>a. th_arg (m_mem m a) \<noteq> arg) xs" using True by simp_all
    have ar: "Suc ret + length zs = ret + length (x # zs)" for zs by simp
    from Cons.IH [OF m1(2) l1 Cons.prems(3) fuel(2), of "Suc ret", unfolded upd_twice [OF nl(1)] movedD(5) [OF m1(3)] m1(4) ar]
    show ?thesis unfolding f step by (blast intro: moved_trans [OF m1(3)])
  next
    case False
    have l1: "ls l = (ks @ [x]) @ xs" using Cons.prems(2) by simp
    from Cons.IH [OF Cons.prems(1) l1 Cons.prems(3) fuel(2)] n False fuel(1) show ?thesis by auto
  qed
qed

lemma ready_step:
  assumes "core ls {} m" "ls l = xs @ x # ys" "l \<noteq> LReady"
  shows "\<exists>m'. and_then (thread_list_delete l x m) (make_ready x) = Inr m' \<and>
     core (ls(l := xs @ ys, LReady := ls LReady @ [x])) {} m' \<and> moved m m' \<and> m_queue m' = m_queue m"
proof -
  from detach_step [OF assms(1,2)] obtain m1 where m1: "thread_list_delete l x m = Inr m1" "core (ls(l := xs @ ys)) {x} m1"
    "moved m m1" "m_queue m1 = m_queue m" by blast
  from make_ready_step [OF m1(2)] assms(3) m1 show ?thesis by (auto intro: moved_trans)
qed

lemma process_walk_step:
  assumes "core ls {} m" "ls LEvent = todo" "length todo < fuel"
  shows "\<exists>m'. process_walk fuel LEvent (first_p todo) ready m = Inr (m', ready + length todo) \<and>
     core (ls(LEvent := [], LReady := ls LReady @ todo)) {} m' \<and> moved m m' \<and> m_queue m' = m_queue m"
  using assms
proof (induction todo arbitrary: fuel ls m ready)
  case Nil
  then show ?case by (cases fuel) (auto simp: fun_upd_idem)
next
  case (Cons x xs)
  then obtain fuel' where fuel: "fuel = Suc fuel'" "length xs < fuel'" by (cases fuel) auto
  have l: "ls LEvent = [] @ x # xs" using Cons.prems(2) by simp
  note n = walk_node [OF coreD(1) [OF Cons.prems(1)] l]
  let ?ls = "ls(LEvent := xs, LReady := ls LReady @ [x])"
  from ready_step [OF Cons.prems(1) l] obtain m1 where
    m1: "and_then (thread_list_delete LEvent x m) (make_ready x) = Inr m1" "core ?ls {} m1" "moved m m1" "m_queue m1 = m_queue m"
    by auto
  have step: "process_walk fuel LEvent (first_p (x # xs)) ready m = process_walk fuel' LEvent (first_p xs) (Suc ready) m1"
    using n m1(1) fuel(1) by (auto simp: and_then_Inr_iff and_then_assoc [symmetric])
  have "LEvent \<noteq> LReady" "?ls LEvent = xs" by simp_all
  moreover have ar: "Suc ready + length xs = ready + length (x # xs)" by simp
  ultimately show ?case
    unfolding step using Cons.IH [OF m1(2) _ fuel(2), of "Suc ready", unfolded upd_twice [OF \<open>LEvent \<noteq> LReady\<close>] m1(4) ar]
    by (blast intro: moved_trans [OF m1(3)])
qed

text \<open>In the pass over descriptors the type is set after the thread is on the ready list.\<close>

lemma late_type:
  assumes "core ls {x} m"
  shows "and_then (thread_list_add l x m) (upd_th x (\<lambda>t. t\<lparr>th_type := ty\<rparr>)) =
     and_then (upd_th x (\<lambda>t. t\<lparr>th_type := ty\<rparr>) m) (thread_list_add l x)"
proof -
  have x: "x < m_brk m" "x \<notin> set (ls l)" using core_detached [OF assms] by auto
  from type_step [OF assms, of ty] obtain m1 where m1: "upd_th x (\<lambda>t. t\<lparr>th_type := ty\<rparr>) m = Inr m1" "core ls {x} m1" by blast
  then have eq: "m1 = m\<lparr>m_mem := (m_mem m)(x := (m_mem m x)\<lparr>th_type := ty\<rparr>)\<rparr>" using x by (simp add: upd_th_def th_at_def)
  have "thread_list_add l x m = Inr (added l x m)" using thread_list_add_eq [OF coreD(1) [OF assms] x] .
  moreover have "thread_list_add l x m1 = Inr (added l x m1)"
    using thread_list_add_eq [OF coreD(1) [OF m1(2)]] x eq by simp
  moreover have "upd_th x (\<lambda>t. t\<lparr>th_type := ty\<rparr>) (added l x m) = Inr (added l x m1)"
    using x(1) eq by (auto simp: upd_th_def th_at_def added_def fun_eq_iff intro!: thread_master.equality)
  ultimately show ?thesis using m1(1) by simp
qed

lemma process_fd_walk_step:
  assumes "sched ls m" "ls l = ks @ todo" "fdlist n = Some l" "length todo < fuel"
  shows "\<exists>m'. process_fd_walk fuel l fdset n (first_p todo) ready m =
       Inr (m', ready + length (filter (\<lambda>a. fd_of m a \<in> fdset) todo)) \<and>
     sched (ls(l := ks @ filter (\<lambda>a. fd_of m a \<notin> fdset) todo, LReady := ls LReady @ filter (\<lambda>a. fd_of m a \<in> fdset) todo)) m' \<and>
     m_clock m' = m_clock m \<and> m_queue m' = m_queue m \<and> (\<forall>a. body (m_mem m' a) = body (m_mem m a)) \<and> m_brk m' = m_brk m"
  using assms
proof (induction todo arbitrary: fuel ks ls m ready)
  case Nil
  then show ?case by (cases fuel) (auto simp: fun_upd_idem)
next
  case (Cons x xs)
  then obtain fuel' where fuel: "fuel = Suc fuel'" "length xs < fuel'" by (cases fuel) auto
  note p = sched_parts [OF Cons.prems(1)]
  note w = walk_node [OF p(3) Cons.prems(2)] and nl = fdlist_names [OF Cons.prems(3)]
  show ?case
  proof (cases "fd_of m x \<in> fdset")
    case True
    let ?m = "fd_without (fd_of m x) n m" and ?ls = "ls(l := ks @ xs, LReady := ls LReady @ [x])"
    note fd = fds_delete [OF p(2) Cons.prems(3,2)] and v = fds_ok_valid(2) [OF p(2) Cons.prems(3), of x]
    have "core ls {} ?m" using p(1) by simp
    from detach_step [OF this Cons.prems(2)] obtain m1 where m1: "thread_list_delete l x ?m = Inr m1"
      "core (ls(l := ks @ xs)) {x} m1" "moved ?m m1" "m_queue m1 = m_queue ?m" by blast
    from make_ready_step [OF m1(2)] nl obtain m2 where m2: "make_ready x m1 = Inr m2" "core ?ls {} m2" "moved m1 m2"
      "m_queue m2 = m_queue m1" by auto
    note mv = moved_trans [OF m1(3) m2(3)]
    have "fds_ok ?ls m2" by (rule fds_moved [OF fd(2) mv]) (insert fdlist_names, auto)
    then have s2: "sched ?ls m2" using m2(2) by (simp add: sched_def)
    have b: "body (m_mem m2 a) = body (m_mem m a)" "fd_of m2 = fd_of m" for a
      using movedD(4,7) [OF mv] by (auto simp: fd_without_def fd_of_def fun_eq_iff)
    have l2: "?ls l = ks @ xs" using nl by simp
    have "and_then (thread_list_add LReady x m1) (upd_th x (\<lambda>t. t\<lparr>th_type := THREAD_READY\<rparr>)) = Inr m2"
      using m2(1) late_type [OF m1(2)] by (simp add: make_ready_def)
    then have step: "process_fd_walk fuel l fdset n (first_p (x # xs)) ready m =
        process_fd_walk fuel' l fdset n (first_p xs) (Suc ready) m2"
      using w m1(1) True fd(1) v Cons.prems(2) fuel(1)
      by (auto simp: FD_ISSET_def FD_CLR_def fd_of_def and_then_Inr_iff and_then_assoc [symmetric])
    have f: "filter (\<lambda>a. fd_of m a \<in> fdset) (x # xs) = x # filter (\<lambda>a. fd_of m a \<in> fdset) xs"
      "filter (\<lambda>a. fd_of m a \<notin> fdset) (x # xs) = filter (\<lambda>a. fd_of m a \<notin> fdset) xs" "l \<noteq> LReady" using True nl by simp_all
    have k: "m_clock m2 = m_clock m" "m_queue m2 = m_queue m" "m_brk m2 = m_brk m"
      using movedD(2,3) [OF mv] m1(4) m2(4) by (simp_all add: fd_without_def)
    have ar: "Suc ready + length zs = ready + length (x # zs)" for zs by simp
    from Cons.IH [OF s2 l2 Cons.prems(3) fuel(2), of "Suc ready", unfolded upd_twice [OF f(3)] b k ar]
    show ?thesis unfolding f step .
  next
    case False
    have l1: "ls l = (ks @ [x]) @ xs" using Cons.prems(2) by simp
    from Cons.IH [OF Cons.prems(1) l1 Cons.prems(3) fuel(2), of ready] w False fuel(1) fds_ok_valid(2) [OF p(2) Cons.prems(3), of x] Cons.prems(2) show ?thesis
      by (auto simp: FD_ISSET_def fd_of_def)
  qed
qed

section \<open>Expired timers\<close>

abbreviation deadline :: "thread_master \<Rightarrow> nat \<Rightarrow> timeval" where
  "deadline m a \<equiv> u_sands (th_u (m_mem m a))"

lemma timer_pop_step:
  assumes c: "core ls {} m" and n: "pq_size (m_queue m q) \<noteq> 0" and x: "pq_array (m_queue m q) ! 0 = x"
  shows "\<exists>m'. and_then (dequeue_timer q m) (make_ready x) = Inr m' \<and>
     core (ls(LReady := ls LReady @ [x])) {} m' \<and> moved m m' \<and> (\<forall>q'. q' \<noteq> q \<longrightarrow> m_queue m' q' = m_queue m q') \<and>
     mset (elems (m_queue m' q)) + {#x#} = mset (elems (m_queue m q)) \<and> pq_size (m_queue m' q) = pq_size (m_queue m q) - 1"
proof -
  have n': "0 < pq_size (m_queue m q)" using n by simp
  from remove_step [OF c n' x] obtain m1 where m1: "remove_timer 0 q m = Inr m1" "core ls {x} m1" "moved m m1"
    "\<forall>q'. q' \<noteq> q \<longrightarrow> m_queue m1 q' = m_queue m q'" "mset (elems (m_queue m1 q)) + {#x#} = mset (elems (m_queue m q))"
    "pq_size (m_queue m1 q) = pq_size (m_queue m q) - 1" by blast
  from make_ready_step [OF m1(2)] m1 dequeue_timer_eq [OF coreD(4) [OF c] n'] show ?thesis
    by (auto intro: moved_trans)
qed

lemma timer_root:
  assumes c: "core ls {} m" and n: "pq_size (m_queue m q) \<noteq> 0"
  shows "slot (pq_array (m_queue m q)) 0 = Inr (pq_array (m_queue m q) ! 0)" "pq_array (m_queue m q) ! 0 \<in> qset m q"
    "th_at m (pq_array (m_queue m q) ! 0) = Inr (m_mem m (pq_array (m_queue m q) ! 0))"
proof -
  have sz: "pq_size (m_queue m q) \<le> length (pq_array (m_queue m q))" "0 < length (pq_array (m_queue m q))"
    using coreD(4) [OF c, of q] by (auto simp: tqueue_def queue_ok_def simp del: length_greater_0_conv)
  then show "slot (pq_array (m_queue m q)) 0 = Inr (pq_array (m_queue m q) ! 0)" by (simp del: length_greater_0_conv)
  show x: "pq_array (m_queue m q) ! 0 \<in> qset m q"
    using nth_in_set_take [of 0 "pq_size (m_queue m q)"] sz n by (simp add: elems_def)
  show "th_at m (pq_array (m_queue m q) ! 0) = Inr (m_mem m (pq_array (m_queue m q) ! 0))"
    using coreD(5) [OF c x] by (simp add: th_at_def unlinked_def)
qed

lemma timeval_cmp_less_trans: "timeval_cmp a b < 0 \<Longrightarrow> timeval_cmp b c \<le> 0 \<Longrightarrow> timeval_cmp a c < 0"
  by (auto simp: timeval_cmp_def split: if_splits)

text \<open>The due threads leave the queue for the end of the ready list, in the order of their deadlines.\<close>

definition expired :: "qname \<Rightarrow> timeval \<Rightarrow> nat list \<Rightarrow> thread_master \<Rightarrow> thread_master \<Rightarrow> bool" where
  "expired q now due m m' \<longleftrightarrow> mset (elems (m_queue m q)) = mset due + mset (elems (m_queue m' q)) \<and>
     sorted_wrt (\<lambda>a b. timeval_cmp (deadline m a) (deadline m b) \<le> 0) due \<and>
     (\<forall>a \<in> set due. \<not> timeval_cmp now (deadline m a) < 0) \<and> (\<forall>a \<in> qset m' q. timeval_cmp now (deadline m a) < 0)"

lemma timer_walk_step:
  assumes "core ls {} m" "pq_size (m_queue m q) < fuel"
  shows "\<exists>m' due. timer_walk fuel q now ready m = Inr (m', ready + length due) \<and>
     core (ls(LReady := ls LReady @ due)) {} m' \<and> moved m m' \<and> (\<forall>q'. q' \<noteq> q \<longrightarrow> m_queue m' q' = m_queue m q') \<and>
     expired q now due m m'"
  using assms
proof (induction fuel arbitrary: ls m ready)
  case (Suc fuel)
  note c = Suc.prems(1) and r = timer_root [OF Suc.prems(1)]
  let ?x = "pq_array (m_queue m q) ! 0"
  consider (empty) "pq_size (m_queue m q) = 0" | (later) "pq_size (m_queue m q) \<noteq> 0" "timeval_cmp now (deadline m ?x) < 0"
    | (due) "pq_size (m_queue m q) \<noteq> 0" "\<not> timeval_cmp now (deadline m ?x) < 0" by blast
  then show ?case
  proof cases
    case empty
    then have "expired q now [] m m" by (simp add: expired_def elems_def)
    with empty c show ?thesis by (intro exI [of _ m] exI [of _ "[]"]) simp
  next
    case later
    have "timeval_cmp now (deadline m a) < 0" if "a \<in> qset m q" for a
      using timeval_cmp_less_trans [OF later(2) root_is_first [OF coreD(4) [OF c] that]] .
    then have "expired q now [] m m" by (simp add: expired_def)
    with later r [OF later(1)] c show ?thesis by (intro exI [of _ m] exI [of _ "[]"]) simp
  next
    case due
    from timer_pop_step [OF c due(1) refl] obtain m1 where m1: "and_then (dequeue_timer q m) (make_ready ?x) = Inr m1"
      "core (ls(LReady := ls LReady @ [?x])) {} m1" "moved m m1" "\<forall>q'. q' \<noteq> q \<longrightarrow> m_queue m1 q' = m_queue m q'"
      "mset (elems (m_queue m1 q)) + {#?x#} = mset (elems (m_queue m q))" "pq_size (m_queue m1 q) = pq_size (m_queue m q) - 1" by blast
    have "pq_size (m_queue m1 q) < fuel" using m1(6) Suc.prems(2) due(1) by arith
    from Suc.IH [OF m1(2) this, of "Suc ready", unfolded fun_upd_upd fun_upd_same append_assoc append.simps] obtain m2 ds where
      m2: "timer_walk fuel q now (Suc ready) m1 = Inr (m2, Suc ready + length ds)"
      "core (ls(LReady := ls LReady @ ?x # ds)) {} m2" "moved m1 m2"
      "\<forall>q'. q' \<noteq> q \<longrightarrow> m_queue m2 q' = m_queue m1 q'" "expired q now ds m1 m2" by blast
    have dl: "deadline m1 a = deadline m a" for a using movedD(4) [OF m1(3)] by simp
    have sub: "set ds \<subseteq> qset m q"
      using m2(5) m1(5) unfolding expired_def by (metis mset_subset_eq_add_left set_mset_mono set_mset_mset subset_trans)
    have "expired q now (?x # ds) m m2"
      using m2(5) m1(5) due(2) sub root_is_first [OF coreD(4) [OF c]] unfolding expired_def dl
      by (auto simp: union_assoc [symmetric])
    moreover have "timer_walk (Suc fuel) q now ready m = timer_walk fuel q now (Suc ready) m1"
      using r [OF due(1)] due m1(1) by (auto simp: and_then_Inr_iff)
    moreover from this m2(1) have "timer_walk (Suc fuel) q now ready m = Inr (m2, ready + length (?x # ds))"
      by (simp only: list.size add_Suc add_Suc_right add_0_right)
    moreover have "\<forall>q'. q' \<noteq> q \<longrightarrow> m_queue m2 q' = m_queue m q'" using m1(4) m2(4) by simp
    ultimately show ?thesis using m2(2) moved_trans [OF m1(3) m2(3)] by blast
  qed
qed simp

section \<open>Freeing\<close>

lemma list_free_walk_step:
  "lists_ok ls m \<Longrightarrow> ls l = ks @ todo \<Longrightarrow> length todo < fuel \<Longrightarrow> list_free_walk fuel (first_p todo) m = Inr todo"
proof (induction todo arbitrary: fuel ks)
  case (Cons x xs)
  then obtain fuel' where fuel: "fuel = Suc fuel'" "length xs < fuel'" by (cases fuel) auto
  have "ls l = (ks @ [x]) @ xs" using Cons.prems(2) by simp
  from Cons.IH [OF Cons.prems(1) this fuel(2)] walk_node [OF Cons.prems(1,2)] fuel(1) show ?case by simp
qed (auto simp: gr0_conv_Suc)

lemma thread_list_free_eq: "lists_ok ls m \<Longrightarrow> thread_list_free l m = Inr (ls l)"
  using list_free_walk_step [of ls m l "[]"] list_fuel lists_okD(4) by (simp add: thread_list_free_def)

end
