(* ===== verification/ThreadFetch.thy ===== *)
theory ThreadFetch
  imports ThreadRun
begin

text \<open>
  The main loop: \<open>thread_fetch\<close> and its parts, seen through the abstract lists and queues of the
  invariant.
\<close>

lemma sched_get_relative [simp]: "sched ls (get_relative r m) = sched ls m"
  by (simp add: sched_def fds_ok_def)

lemma run_ready_step:
  assumes s: "sched ls m"
  shows "(ls LReady = [] \<longrightarrow> run_ready m = Inr (m, None)) \<and>
     (\<forall>x xs. ls LReady = x # xs \<longrightarrow> (\<exists>m' t. run_ready m = Inr (m', Some t) \<and>
        sched (ls(LReady := xs, LUnuse := ls LUnuse @ [x])) m' \<and> m_queue m' = m_queue m \<and>
        th_type t = THREAD_READY \<and> body t = body (m_mem m x) \<and> (\<forall>a. body (m_mem m' a) = body (m_mem m a))))"
proof (cases "ls LReady")
  case Nil
  have "tl_head (m_list m LReady) = None" using lists_okD(4) [OF sched_parts(3) [OF s], of LReady] Nil by simp
  with Nil show ?thesis by (simp add: run_ready_def thread_trim_head_def)
next
  case (Cons x xs)
  note c = sched_parts(1) [OF s]
  have h: "tl_head (m_list m LReady) = Some x" using lists_okD(4) [OF sched_parts(3) [OF s], of LReady] Cons by simp
  from detach_step [OF c, of LReady "[]" x xs] Cons obtain m1 where m1: "thread_list_delete LReady x m = Inr m1"
    "core (ls(LReady := xs)) {x} m1" "moved m m1" "m_queue m1 = m_queue m" by auto
  have ty: "th_type (m_mem m1 x) = THREAD_READY"
  proof -
    have "relinked (set (ls LReady)) m m1"
      using thread_list_delete_eq [OF coreD(1) [OF c], of LReady "[]" x xs] deleted_ok(2) [OF coreD(1) [OF c], of LReady "[]" x xs]
        Cons m1(1) by auto
    then show ?thesis using relinkedD(6) coreD(2) [OF c, of x LReady] Cons by simp
  qed
  from to_unuse_step [OF m1(2)] obtain m2 where m2: "to_unuse x m1 = Inr m2"
    "core (ls(LReady := xs, LUnuse := ls LUnuse @ [x])) {} m2" "moved m1 m2" "m_queue m2 = m_queue m1" by auto
  have "fds_ok (ls(LReady := xs, LUnuse := ls LUnuse @ [x])) m2"
    by (rule fds_moved [OF sched_parts(2) [OF s] moved_trans [OF m1(3) m2(3)]]) (insert fdlist_names, auto)
  moreover have "th_at m1 x = Inr (m_mem m1 x)" using core_detached [OF m1(2)] by (simp add: th_at_def)
  then have "run_ready m = Inr (m2, Some (m_mem m1 x))"
    using h m1(1) m2(1) by (simp add: run_ready_def thread_trim_head_def thread_run_def)
  ultimately show ?thesis
    using Cons m1(4) m2(2,4) ty movedD(7) [OF m1(3)] movedD(7) [OF m2(3)] by (simp add: sched_def)
qed

lemma process_step:
  assumes s: "sched ls m"
  shows "\<exists>m'. thread_process LEvent m = Inr (m', length (ls LEvent)) \<and>
     sched (ls(LEvent := [], LReady := ls LReady @ ls LEvent)) m' \<and> moved m m' \<and> m_queue m' = m_queue m"
proof -
  note p = sched_parts [OF s]
  from process_walk_step [OF p(1) refl list_fuel [OF p(3)], of 0] lists_okD(4) [OF p(3), of LEvent] obtain m' where
    m': "thread_process LEvent m = Inr (m', length (ls LEvent))"
    "core (ls(LEvent := [], LReady := ls LReady @ ls LEvent)) {} m'" "moved m m'" "m_queue m' = m_queue m"
    by (auto simp: thread_process_def)
  moreover have "fds_ok (ls(LEvent := [], LReady := ls LReady @ ls LEvent)) m'"
    by (rule fds_moved [OF p(2) m'(3)]) (insert fdlist_names, auto)
  ultimately show ?thesis by (auto simp: sched_def)
qed

lemma process_fd_step:
  assumes s: "sched ls m" and n: "fdlist n = Some l"
  shows "\<exists>m'. thread_process_fd l fdset n m = Inr (m', length (filter (\<lambda>a. fd_of m a \<in> fdset) (ls l))) \<and>
     sched (ls(l := filter (\<lambda>a. fd_of m a \<notin> fdset) (ls l), LReady := ls LReady @ filter (\<lambda>a. fd_of m a \<in> fdset) (ls l))) m' \<and>
     m_clock m' = m_clock m \<and> m_queue m' = m_queue m \<and> (\<forall>a. body (m_mem m' a) = body (m_mem m a)) \<and> m_brk m' = m_brk m"
  using process_fd_walk_step [OF s, of l "[]" "ls l", OF _ n list_fuel [OF sched_parts(3) [OF s]], of fdset 0]
    lists_okD(4) [OF sched_parts(3) [OF s], of l]
  unfolding thread_process_fd_def append.simps add_0 by simp

lemma timer_process_step:
  assumes s: "sched ls m"
  shows "\<exists>m' due. thread_timer_process q now m = Inr (m', length due) \<and>
     sched (ls(LReady := ls LReady @ due)) m' \<and> moved m m' \<and> (\<forall>q'. q' \<noteq> q \<longrightarrow> m_queue m' q' = m_queue m q') \<and>
     expired q now due m m'"
proof -
  note p = sched_parts [OF s]
  from timer_walk_step [OF p(1) lessI, of q now 0] obtain m' due where
    m': "thread_timer_process q now m = Inr (m', length due)" "core (ls(LReady := ls LReady @ due)) {} m'" "moved m m'"
    "\<forall>q'. q' \<noteq> q \<longrightarrow> m_queue m' q' = m_queue m q'" "expired q now due m m'"
    unfolding thread_timer_process_def add_0 by blast
  moreover have "fds_ok (ls(LReady := ls LReady @ due)) m'"
    by (rule fds_moved [OF p(2) m'(3)]) (insert fdlist_names, auto)
  ultimately show ?thesis unfolding sched_def by blast
qed

lemma timer_wait_value:
  assumes c: "core ls {} m"
  shows "thread_timer_wait q m = Inr (if pq_size (m_queue m q) = 0 then None
     else Some (timeval_subtract (deadline m (pq_array (m_queue m q) ! 0)) (relative_time (m_clock m))))"
  using timer_root [OF c, of q] by (simp add: thread_timer_wait_def)

lemma select_wait_step:
  assumes s: "sched ls m"
  shows "\<exists>w m'. select_wait r timer_wait m = Inr (m', w) \<and> sched ls m' \<and> m_queue m' = m_queue m \<and> m_mem m' = m_mem m \<and> m_fd m' = m_fd m"
proof -
  have c: "core ls {} (get_relative r m)" using sched_parts(1) [OF s] by simp
  show ?thesis using s by (auto simp: select_wait_def Let_def timer_wait_value [OF c])
qed

section \<open>One pass over everything that can be ready\<close>

lemma expired_cong:
  assumes "expired q now due m1 m2" "m_queue m1 q = m_queue m q" "m_queue m2 q = m_queue m' q" "\<And>a. th_u (m_mem m1 a) = th_u (m_mem m a)"
  shows "expired q now due m m'"
  using assms unfolding expired_def by simp

definition io_ready :: "int \<Rightarrow> int set \<Rightarrow> thread_master \<Rightarrow> nat list \<Rightarrow> nat list" where
  "io_ready num fdset m xs = (if num > 0 then filter (\<lambda>a. fd_of m a \<in> fdset) xs else [])"

lemma process_io_step:
  assumes s: "sched ls m"
  shows "\<exists>m' ls'. (if num > 0
        then and_then (thread_process_fd LRead readfd ReadFd m) (\<lambda>(m, _).
             and_then (thread_process_fd LWrite writefd WriteFd m) (\<lambda>(m, _). Inr m))
        else Inr m) = Inr m' \<and> sched ls' m' \<and>
     ls' LReady = ls LReady @ io_ready num readfd m (ls LRead) @ io_ready num writefd m (ls LWrite) \<and>
     m_clock m' = m_clock m \<and> m_queue m' = m_queue m \<and> (\<forall>a. body (m_mem m' a) = body (m_mem m a)) \<and> m_brk m' = m_brk m"
proof (cases "num > 0")
  case True
  have n: "fdlist ReadFd = Some LRead" "fdlist WriteFd = Some LWrite" by simp_all
  let ?ls = "ls(LRead := filter (\<lambda>a. fd_of m a \<notin> readfd) (ls LRead), LReady := ls LReady @ filter (\<lambda>a. fd_of m a \<in> readfd) (ls LRead))"
  from process_fd_step [OF s n(1), of readfd] obtain m1 where
    m1: "thread_process_fd LRead readfd ReadFd m = Inr (m1, length (filter (\<lambda>a. fd_of m a \<in> readfd) (ls LRead)))" "sched ?ls m1"
    "m_clock m1 = m_clock m" "m_queue m1 = m_queue m" "\<forall>a. body (m_mem m1 a) = body (m_mem m a)" "m_brk m1 = m_brk m" by blast
  define ls2 where "ls2 = ?ls(LWrite := filter (\<lambda>a. fd_of m1 a \<notin> writefd) (?ls LWrite),
     LReady := ?ls LReady @ filter (\<lambda>a. fd_of m1 a \<in> writefd) (?ls LWrite))"
  from process_fd_step [OF m1(2) n(2), of writefd, folded ls2_def] obtain m2 where
    m2: "thread_process_fd LWrite writefd WriteFd m1 = Inr (m2, length (filter (\<lambda>a. fd_of m1 a \<in> writefd) (?ls LWrite)))"
    "sched ls2 m2" "m_clock m2 = m_clock m1" "m_queue m2 = m_queue m1" "\<forall>a. body (m_mem m2 a) = body (m_mem m1 a)" "m_brk m2 = m_brk m1" by blast
  have "fd_of m1 a = fd_of m a" for a using m1(5) body_eqD(4) [of "m_mem m1 a" "m_mem m a"] by (simp add: fd_of_def)
  then have "ls2 LReady = ls LReady @ io_ready num readfd m (ls LRead) @ io_ready num writefd m (ls LWrite)"
    using True by (simp add: io_ready_def ls2_def)
  then show ?thesis
    using True m1(1,3-6) m2 by (intro exI [of _ m2] exI [of _ ls2]) simp
next
  case False
  with s show ?thesis by (auto simp: io_ready_def)
qed

lemma process_ready_step:
  assumes s: "sched ls m" and now: "now = relative_time (m_clock (get_relative (fe_now2 e) m))"
  shows "\<exists>m' ls' due bg. process_ready e num readfd writefd m = Inr m' \<and> sched ls' m' \<and>
     ls' LReady = ls LReady @ due @ io_ready num readfd m (ls LRead) @ io_ready num writefd m (ls LWrite) @ bg \<and>
     expired QTimer now due m m' \<and> expired QBackground now bg m m' \<and> (\<forall>a. body (m_mem m' a) = body (m_mem m a))"
proof -
  let ?m = "get_relative (fe_now2 e) m"
  have s0: "sched ls ?m" using s by simp
  from timer_process_step [OF s0, of QTimer now] obtain m1 due where
    m1: "thread_timer_process QTimer now ?m = Inr (m1, length due)" "sched (ls(LReady := ls LReady @ due)) m1" "moved ?m m1"
    "\<forall>q'. q' \<noteq> QTimer \<longrightarrow> m_queue m1 q' = m_queue ?m q'" "expired QTimer now due ?m m1" by blast
  note mv1 = movedD [OF m1(3)]
  from process_io_step [OF m1(2), of num readfd writefd] obtain m2 ls2 where
    m2: "(if num > 0 then and_then (thread_process_fd LRead readfd ReadFd m1) (\<lambda>(m, _).
             and_then (thread_process_fd LWrite writefd WriteFd m) (\<lambda>(m, _). Inr m)) else Inr m1) = Inr m2" "sched ls2 m2"
    "ls2 LReady = (ls LReady @ due) @ io_ready num readfd m1 (ls LRead) @ io_ready num writefd m1 (ls LWrite)"
    "m_clock m2 = m_clock m1" "m_queue m2 = m_queue m1" "\<forall>a. body (m_mem m2 a) = body (m_mem m1 a)" by auto
  from timer_process_step [OF m2(2), of QBackground now] obtain m3 bg where
    m3: "thread_timer_process QBackground now m2 = Inr (m3, length bg)" "sched (ls2(LReady := ls2 LReady @ bg)) m3" "moved m2 m3"
    "\<forall>q'. q' \<noteq> QBackground \<longrightarrow> m_queue m3 q' = m_queue m2 q'" "expired QBackground now bg m2 m3" by blast
  have b: "body (m_mem m3 a) = body (m_mem m a)" "th_u (m_mem m2 a) = th_u (m_mem m a)" "fd_of m1 a = fd_of m a" for a
    using mv1(4,7) m2(6) movedD(7) [OF m3(3), of a] body_eqD(4) [of "m_mem m2 a" "m_mem m1 a"] by (auto simp: fd_of_def)
  have "process_ready e num readfd writefd m = Inr m3"
    using m1(1) m2(1) m3(1) m2(4) mv1(2) unfolding process_ready_def Let_def now by simp
  moreover have "expired QTimer now due m m3" by (rule expired_cong [OF m1(5)]) (insert m2(5) m3(4), auto)
  moreover have "expired QBackground now bg m m3" by (rule expired_cong [OF m3(5)]) (insert m2(5) m1(4) b(2), auto)
  moreover have "(ls2(LReady := ls2 LReady @ bg)) LReady =
      ls LReady @ due @ io_ready num readfd m (ls LRead) @ io_ready num writefd m (ls LWrite) @ bg"
    using m2(3) b(3) by (simp add: io_ready_def)
  ultimately show ?thesis using m3(2) b(1) by metis
qed

section \<open>The loop\<close>

lemma fetch_loop_step:
  assumes "sched_ok m" "\<And>e m. e \<in> set es \<Longrightarrow> sched_ok m \<Longrightarrow> sched_ok (fe_sig e m)"
  shows "\<exists>m' r. fetch_loop es w m = Inr (m', r) \<and> sched_ok m' \<and> (\<forall>t. r = Fetched t \<longrightarrow> th_type t = THREAD_READY)"
  using assms
proof (induction es arbitrary: w m)
  case (Cons e es)
  have sig: "\<And>e m. e \<in> set es \<Longrightarrow> sched_ok m \<Longrightarrow> sched_ok (fe_sig e m)" using Cons.prems(2) by simp
  note IH = Cons.IH [OF _ sig]
  from Cons.prems obtain ls where s: "sched ls (fe_sig e m)" by (fastforce simp: sched_ok_def)
  note rr = run_ready_step [OF s]
  show ?case
  proof (cases "ls LReady")
    case (Cons x xs)
    with rr show ?thesis by (auto simp: sched_ok_def)
  next
    case Nil
    from process_step [OF s] obtain m1 where m1: "thread_process LEvent (fe_sig e m) = Inr (m1, length (ls LEvent))"
      "sched (ls(LEvent := [], LReady := ls LReady @ ls LEvent)) m1" by blast
    from select_wait_step [OF m1(2)] obtain w' m2 where m2: "select_wait (fe_now1 e) w m1 = Inr (m2, w')"
      "sched (ls(LEvent := [], LReady := ls LReady @ ls LEvent)) m2" by blast
    have ok2: "sched_ok m2" using m2(2) by (auto simp: sched_ok_def)
    show ?thesis
    proof (cases "fe_select e (m_fd m2 ReadFd) (m_fd m2 WriteFd) w'")
      case (Selected num readfd writefd)
      from process_ready_step [OF m2(2) refl] obtain m3 ls3 where m3: "process_ready e num readfd writefd m2 = Inr m3" "sched ls3 m3"
        by blast
      have ok3: "sched_ok m3" using m3(2) by (auto simp: sched_ok_def)
      from run_ready_step [OF m3(2)] consider "run_ready m3 = Inr (m3, None)"
        | m4 t where "run_ready m3 = Inr (m4, Some t)" "sched_ok m4" "th_type t = THREAD_READY"
        by (cases "ls3 LReady") (auto simp: sched_ok_def)
      then show ?thesis
        using Nil rr m1(1) m2(1) m3(1) Selected IH [OF ok3, of "map_option (fe_left e) w'"] by cases auto
    qed (insert Nil rr m1(1) m2(1) ok2 IH [OF ok2, of "map_option (fe_left e) w'"], auto)
  qed
qed simp

end
