(* ===== verification/ThreadProps.thy ===== *)
theory ThreadProps
  imports ThreadFetch
begin

text \<open>
  What the scheduler guarantees: no sequence of calls breaks its structure or fails an assertion,
  timers expire in the order of their deadlines, a turn of the loop whose \<open>select\<close> returns runs ready
  work, and freeing the master frees every thread once.
\<close>

lemma sched_create: "sched (\<lambda>_. []) (thread_master_create c)"
proof -
  let ?m = "thread_master_create c"
  have q: "elems (m_queue ?m q) = []" "tqueue ?m q" for q
    by (simp_all add: thread_master_create_def pqueue_create_def elems_def tqueue_def queue_ok_def heap_def
        placed_def PQUEUE_INIT_ARRAYSIZE_def)
  have "lists_ok (\<lambda>_. []) ?m" by (simp add: lists_ok_def thread_master_create_def dll_def)
  then have "core (\<lambda>_. []) {} ?m" using q by (intro coreI) (auto simp: thread_master_create_def)
  then show ?thesis by (simp add: sched_def fds_ok_def thread_master_create_def)
qed

lemma sched_okI: "sched ls m \<Longrightarrow> sched_ok m"
  by (auto simp: sched_ok_def)

section \<open>Any sequence of calls\<close>

datatype sched_call =
    AddRead nat nat int debugargs
  | AddWrite nat nat int debugargs
  | AddTimer reading nat nat int debugargs
  | AddTimerMsec reading nat nat int debugargs
  | AddBackground reading nat nat int debugargs
  | AddEvent nat nat int debugargs
  | Cancel nat
  | CancelEvent nat
  | Fetch "fetch_env list"

fun do_call :: "sched_call \<Rightarrow> thread_master \<Rightarrow> thread_master res" where
  "do_call (AddRead f a fd d) m = and_then (funcname_thread_add_read m f a fd d) (\<lambda>(m, _). Inr m)"
| "do_call (AddWrite f a fd d) m = and_then (funcname_thread_add_write m f a fd d) (\<lambda>(m, _). Inr m)"
| "do_call (AddTimer r f a s d) m = and_then (funcname_thread_add_timer r m f a s d) (\<lambda>(m, _). Inr m)"
| "do_call (AddTimerMsec r f a s d) m = and_then (funcname_thread_add_timer_msec r m f a s d) (\<lambda>(m, _). Inr m)"
| "do_call (AddBackground r f a s d) m = and_then (funcname_thread_add_background r m f a s d) (\<lambda>(m, _). Inr m)"
| "do_call (AddEvent f a v d) m = and_then (funcname_thread_add_event m f a v d) (\<lambda>(m, _). Inr m)"
| "do_call (Cancel x) m = thread_cancel x m"
| "do_call (CancelEvent arg) m = and_then (thread_cancel_event arg m) (\<lambda>(m, _). Inr m)"
| "do_call (Fetch es) m = and_then (thread_fetch es m) (\<lambda>(m, _). Inr m)"

text \<open>A call is legal when a descriptor fits the sets, a cancelled thread was allocated, and the signal
  handlers of a fetch only use the scheduler, so keep its invariant.\<close>

fun legal :: "sched_call \<Rightarrow> thread_master \<Rightarrow> bool" where
  "legal (AddRead f a fd d) m = fd_valid fd"
| "legal (AddWrite f a fd d) m = fd_valid fd"
| "legal (Cancel x) m = (x < m_brk m)"
| "legal (Fetch es) m = (\<forall>e \<in> set es. \<forall>m. sched_ok m \<longrightarrow> sched_ok (fe_sig e m))"
| "legal c m = True"

inductive sched_reach :: "thread_master \<Rightarrow> bool" where
  create: "sched_reach (thread_master_create c)"
| call: "sched_reach m \<Longrightarrow> legal op m \<Longrightarrow> do_call op m = Inr m' \<Longrightarrow> sched_reach m'"

inductive_cases sched_reachE: "sched_reach m"

lemma cancel_event_step:
  assumes s: "sched ls m"
  shows "\<exists>m'. thread_cancel_event arg m = Inr (m', length (filter (\<lambda>a. th_arg (m_mem m a) = arg) (ls LEvent @ ls LReady))) \<and>
     sched (ls(LEvent := filter (\<lambda>a. th_arg (m_mem m a) \<noteq> arg) (ls LEvent), LReady := filter (\<lambda>a. th_arg (m_mem m a) \<noteq> arg) (ls LReady),
       LUnuse := ls LUnuse @ filter (\<lambda>a. th_arg (m_mem m a) = arg) (ls LEvent @ ls LReady))) m' \<and> moved m m' \<and> m_queue m' = m_queue m"
proof -
  let ?p = "\<lambda>a. th_arg (m_mem m a) = arg" and ?n = "\<lambda>a. th_arg (m_mem m a) \<noteq> arg"
  let ?ls = "ls(LEvent := filter ?n (ls LEvent), LUnuse := ls LUnuse @ filter ?p (ls LEvent))"
  note fu = list_fuel [OF sched_parts(3) [OF s], of LEvent]
  from cancel_walk_step [OF s, of LEvent "[]" "ls LEvent", OF _ _ fu, of arg 0, unfolded append.simps add_0] obtain m1 where
    m1: "cancel_walk (walk_fuel m) LEvent arg (first_p (ls LEvent)) 0 m = Inr (m1, length (filter ?p (ls LEvent)))"
    "sched ?ls m1" "moved m m1" "m_queue m1 = m_queue m" by blast
  have r: "?ls LReady = [] @ ls LReady" by simp
  have "length (ls LReady) < walk_fuel m1" using list_fuel [OF sched_parts(3) [OF m1(2)], of LReady] by simp
  from cancel_walk_step [OF m1(2) r _ this, of arg "length (filter ?p (ls LEvent))", unfolded movedD(5) [OF m1(3)] append.simps]
  obtain m2 where
    m2: "cancel_walk (walk_fuel m1) LReady arg (first_p (ls LReady)) (length (filter ?p (ls LEvent))) m1 =
       Inr (m2, length (filter ?p (ls LEvent)) + length (filter ?p (ls LReady)))"
    "sched (?ls(LReady := filter ?n (ls LReady), LUnuse := ?ls LUnuse @ filter ?p (ls LReady))) m2" "moved m1 m2"
    "m_queue m2 = m_queue m1" by blast
  have "?ls(LReady := a, LUnuse := ?ls LUnuse @ b) =
     ls(LEvent := filter ?n (ls LEvent), LReady := a, LUnuse := ls LUnuse @ filter ?p (ls LEvent) @ b)" for a b
    by (auto simp: fun_eq_iff)
  with m2(2) have "sched (ls(LEvent := filter ?n (ls LEvent), LReady := filter ?n (ls LReady),
     LUnuse := ls LUnuse @ filter ?p (ls LEvent @ ls LReady))) m2" unfolding filter_append by (simp only:)
  moreover have "tl_head (m_list m LEvent) = first_p (ls LEvent)" "tl_head (m_list m1 LReady) = first_p (ls LReady)"
    using lists_okD(4) [OF sched_parts(3) [OF s], of LEvent] lists_okD(4) [OF sched_parts(3) [OF m1(2)], of LReady] by simp_all
  then have "thread_cancel_event arg m = Inr (m2, length (filter ?p (ls LEvent @ ls LReady)))"
    using m1(1) m2(1) by (simp add: thread_cancel_event_def)
  ultimately show ?thesis using moved_trans [OF m1(3) m2(3)] m1(4) m2(4) by (metis (no_types, lifting))
qed

lemma add_read_ok:
  assumes s: "sched ls m" and v: "fd_valid fd"
  shows "\<exists>m'. and_then (funcname_thread_add_read m f a fd d) (\<lambda>(m, _). Inr m) = Inr m' \<and> sched_ok m'"
    "\<exists>m'. and_then (funcname_thread_add_write m f a fd d) (\<lambda>(m, _). Inr m) = Inr m' \<and> sched_ok m'"
proof -
  have fd: "\<exists>m' x. and_then (thread_get (ltype l) f a d m) (\<lambda>(m, x). and_then (FD_SET fd n m) (\<lambda>m.
        and_then (upd_th x (\<lambda>t. t\<lparr>th_u := U_fd fd\<rparr>) m) (\<lambda>m.
        and_then (thread_list_add l x m) (\<lambda>m. Inr (m, Some x))))) = Inr (m', Some x) \<and> sched_ok m'"
    if "fdlist n = Some l" "fd \<notin> m_fd m n" for n l
    using add_fd_step [OF s that v, of f a d] sched_okI by blast
  note r = fd [of ReadFd LRead] and w = fd [of WriteFd LWrite]
  show "\<exists>m'. and_then (funcname_thread_add_read m f a fd d) (\<lambda>(m, _). Inr m) = Inr m' \<and> sched_ok m'"
    using r v sched_okI [OF s] by (cases "fd \<in> m_fd m ReadFd") (auto simp: funcname_thread_add_read_def FD_ISSET_def)
  show "\<exists>m'. and_then (funcname_thread_add_write m f a fd d) (\<lambda>(m, _). Inr m) = Inr m' \<and> sched_ok m'"
    using w v sched_okI [OF s] by (cases "fd \<in> m_fd m WriteFd") (auto simp: funcname_thread_add_write_def FD_ISSET_def)
qed

text \<open>A descriptor outside the sets is not refused.\<close>

lemma add_read_outside:
  assumes "\<not> fd_valid fd"
  shows "funcname_thread_add_read m f a fd d = Inl OutOfBounds" "funcname_thread_add_write m f a fd d = Inl OutOfBounds"
  using assms by (simp_all add: funcname_thread_add_read_def funcname_thread_add_write_def FD_ISSET_def)

lemma do_call_ok:
  assumes "sched_ok m" "legal op m"
  shows "\<exists>m'. do_call op m = Inr m' \<and> sched_ok m'"
proof -
  obtain ls where s: "sched ls m" using assms(1) by (auto simp: sched_ok_def)
  have t: "\<exists>m'. and_then (funcname_thread_add_timer_timeval rd m f (qtype q) a tr d) (\<lambda>(m, _). Inr m) = Inr m' \<and> sched_ok m'"
    for rd f q a tr d using add_timer_step [OF s, of rd f q a tr d] by (auto dest: sched_okI)
  show ?thesis
  proof (cases op)
    case (AddRead f a fd d)
    with add_read_ok(1) [OF s] assms(2) show ?thesis by simp
  next
    case (AddWrite f a fd d)
    with add_read_ok(2) [OF s] assms(2) show ?thesis by simp
  next
    case (AddTimer rd f a s d)
    with t [of rd f QTimer a] show ?thesis by (simp add: funcname_thread_add_timer_def)
  next
    case (AddTimerMsec rd f a s d)
    with t [of rd f QTimer a] show ?thesis by (simp add: funcname_thread_add_timer_msec_def)
  next
    case (AddBackground rd f a s d)
    with t [of rd f QBackground a] show ?thesis by (simp add: funcname_thread_add_background_def)
  next
    case (AddEvent f a v d)
    with add_event_step [OF s, of f a v d] show ?thesis by (auto dest: sched_okI)
  next
    case (Cancel x)
    with thread_cancel_result [OF s, of x] assms(2) show ?thesis by auto
  next
    case (CancelEvent arg)
    with cancel_event_step [OF s, of arg] show ?thesis by (auto dest: sched_okI)
  next
    case (Fetch es)
    with fetch_loop_step [OF assms(1), of es "Some zero_time"] assms(2) show ?thesis by (auto simp: thread_fetch_def)
  qed
qed

text \<open>C35: the scheduler never breaks. In every state reached from a new master by any sequence of calls
  that add, cancel and fetch threads, every allocated thread is in exactly the list or queue its type names,
  the positions stored in timers are right, the descriptor sets match the lists and hold only descriptors from 0
  to \<open>FD_SETSIZE - 1\<close>; and every further legal
  call returns, without a failed assertion, a bad pointer or an endless loop. The range of the descriptors is up to the callers:
  adding a read or write thread for a descriptor outside it accesses memory outside the set.\<close>

theorem scheduler_never_breaks:
  assumes "sched_reach m"
  shows "sched_ok m \<and> (\<forall>op. legal op m \<longrightarrow> (\<exists>m'. do_call op m = Inr m' \<and> sched_ok m')) \<and>
    (\<forall>f a fd d. \<not> fd_valid fd \<longrightarrow> do_call (AddRead f a fd d) m = Inl OutOfBounds \<and> do_call (AddWrite f a fd d) m = Inl OutOfBounds)"
proof -
  have "sched_ok m"
    using assms
  proof (induction rule: sched_reach.induct)
    case (create c)
    show ?case using sched_create by (auto simp: sched_ok_def)
  next
    case (call m op m')
    then show ?case using do_call_ok [OF call.IH call.hyps(2)] by auto
  qed
  then show ?thesis using do_call_ok add_read_outside by simp
qed

theorem scheduler_never_breaks_witness:
  "sched_reach (thread_master_create clock_init) \<and>
   (\<exists>m'. do_call (AddRead 1 2 5 ([], [], 0)) (thread_master_create clock_init) = Inr m' \<and> sched_ok m') \<and>
   do_call (AddRead 1 2 1024 ([], [], 0)) (thread_master_create clock_init) = Inl OutOfBounds"
proof -
  note r = sched_reach.create [of clock_init]
  have l: "legal (AddRead 1 2 5 ([], [], 0)) (thread_master_create clock_init)" "\<not> fd_valid 1024"
    by (simp_all add: fd_valid_def FD_SETSIZE_def)
  from scheduler_never_breaks [OF r] l r show ?thesis by blast
qed

section \<open>Cancelling and freeing\<close>

text \<open>\<open>thread_cancel\<close> of any allocated thread passes its assertions (the descriptor is registered,
  the stored index is the position of the thread in its queue), makes the thread unused and leaves type and
  payload of every other thread alone.\<close>

theorem thread_cancel_passes:
  assumes "sched_ok m" "x < m_brk m"
  shows "\<exists>m'. thread_cancel x m = Inr m' \<and> sched_ok m' \<and> th_type (m_mem m' x) = THREAD_UNUSED \<and> m_brk m' = m_brk m \<and>
     (\<forall>a < m_brk m. a \<noteq> x \<longrightarrow> th_type (m_mem m' a) = th_type (m_mem m a) \<and> body (m_mem m' a) = body (m_mem m a))"
  using assms thread_cancel_result unfolding sched_ok_def cancelled_def by blast

lemma sample_master:
  "\<exists>m. funcname_thread_add_timer (Monotonic None) (thread_master_create clock_init) 1 2 5 ([], [], 0) = Inr (m, Some 0) \<and>
     sched_ok m \<and> 0 < m_brk m"
proof -
  from add_timer_step [OF sched_create, of "Monotonic None" clock_init 1 QTimer 2 "\<lparr>tv_sec = 5, tv_usec = 0\<rparr>" "([], [], 0)"]
  obtain m x where m: "funcname_thread_add_timer (Monotonic None) (thread_master_create clock_init) 1 2 5 ([], [], 0) = Inr (m, Some x)"
    "sched ((\<lambda>_. [])(LUnuse := tl [])) m" "x < m_brk m" by (auto simp: funcname_thread_add_timer_def)
  have "\<exists>m. funcname_thread_add_timer (Monotonic None) (thread_master_create clock_init) 1 2 5 ([], [], 0) = Inr (m, Some 0)"
    unfolding funcname_thread_add_timer_def funcname_thread_add_timer_timeval_def Let_def
    by (simp add: thread_get_def thread_trim_head_def thread_master_create_def upd_th_def th_at_def get_relative_def enqueue_timer_def
        pqueue_enqueue_def pqueue_create_def PQUEUE_INIT_ARRAYSIZE_def trickle_up_def up_loop.simps [of _ _ _ 0])
  then have "x = 0" using m(1) by auto
  with m show ?thesis by (auto dest: sched_okI)
qed

theorem thread_cancel_passes_witness:
  "\<exists>m m'. funcname_thread_add_timer (Monotonic None) (thread_master_create clock_init) 1 2 5 ([], [], 0) = Inr (m, Some 0) \<and>
     thread_cancel 0 m = Inr m' \<and> th_type (m_mem m' 0) = THREAD_UNUSED"
  using sample_master thread_cancel_passes by blast

text \<open>\<open>thread_cancel_event\<close> takes every thread with the argument off the event list and off the ready
  list, whatever kind of thread it was before it became ready, returns their number, keeps the order of the others and
  leaves descriptors, read, write and timer threads alone.\<close>

theorem thread_cancel_event_takes_all:
  assumes "sched ls m"
  shows "\<exists>m' ls'. thread_cancel_event arg m =
       Inr (m', length (filter (\<lambda>a. th_arg (m_mem m a) = arg) (ls LEvent @ ls LReady))) \<and> sched ls' m' \<and>
     ls' LEvent = filter (\<lambda>a. th_arg (m_mem m a) \<noteq> arg) (ls LEvent) \<and>
     ls' LReady = filter (\<lambda>a. th_arg (m_mem m a) \<noteq> arg) (ls LReady) \<and>
     ls' LRead = ls LRead \<and> ls' LWrite = ls LWrite \<and> m_queue m' = m_queue m \<and> m_fd m' = m_fd m"
proof -
  from cancel_event_step [OF assms, of arg] obtain m' ls' where
    m': "thread_cancel_event arg m = Inr (m', length (filter (\<lambda>a. th_arg (m_mem m a) = arg) (ls LEvent @ ls LReady)))"
    "sched ls' m'" "moved m m'" "m_queue m' = m_queue m" and
    ls': "ls' = ls(LEvent := filter (\<lambda>a. th_arg (m_mem m a) \<noteq> arg) (ls LEvent), LReady := filter (\<lambda>a. th_arg (m_mem m a) \<noteq> arg) (ls LReady),
       LUnuse := ls LUnuse @ filter (\<lambda>a. th_arg (m_mem m a) = arg) (ls LEvent @ ls LReady))" by blast
  have "ls' LEvent = filter (\<lambda>a. th_arg (m_mem m a) \<noteq> arg) (ls LEvent)" "ls' LReady = filter (\<lambda>a. th_arg (m_mem m a) \<noteq> arg) (ls LReady)"
    "ls' LRead = ls LRead" "ls' LWrite = ls LWrite" unfolding ls' by simp_all
  with m' movedD(1) [OF m'(3)] show ?thesis by blast
qed

theorem thread_cancel_event_takes_all_witness:
  "\<exists>m x m'. funcname_thread_add_event (thread_master_create clock_init) 1 7 0 ([], [], 0) = Inr (m, Some x) \<and>
     thread_cancel_event 7 m = Inr (m', 1) \<and> sched_ok m'"
proof -
  from add_event_step [OF sched_create, of clock_init 1 7 0 "([], [], 0)"] obtain m x where
    m: "funcname_thread_add_event (thread_master_create clock_init) 1 7 0 ([], [], 0) = Inr (m, Some x)"
    "sched ((\<lambda>_. [])(LUnuse := tl [], LEvent := [] @ [x])) m" "th_arg (m_mem m x) = 7" by blast
  from thread_cancel_event_takes_all [OF m(2), of 7] m(3) obtain m' ls' where "thread_cancel_event 7 m = Inr (m', 1)" "sched ls' m'" by auto
  with m(1) show ?thesis by (blast dest: sched_okI)
qed

text \<open>\<open>thread_master_free\<close> ends, hands every allocated thread to \<open>XFREE\<close> exactly once, and brings
  the count of allocated threads to zero.\<close>

theorem thread_master_free_all:
  assumes "sched_ok m"
  shows "\<exists>freed. thread_master_free m = Inr (freed, 0) \<and> distinct freed \<and> set freed = {..<m_brk m}"
proof -
  obtain ls where s: "sched ls m" using assms by (auto simp: sched_ok_def)
  note c = sched_parts(1) [OF s] and ok = sched_parts(3) [OF s]
  let ?q = "\<lambda>q. elems (m_queue m q)"
  let ?freed = "ls LRead @ ls LWrite @ ?q QTimer @ ls LEvent @ ls LReady @ ls LUnuse @ ?q QBackground"
  have dl: "distinct (ls l)" for l using lists_okD(6) [OF ok] .
  have dq: "distinct (?q q)" for q using tqueue_distinct [OF coreD(4) [OF c]] .
  have ll: "set (ls l) \<inter> set (ls l') = {}" if "l \<noteq> l'" for l l' using ok that unfolding lists_ok_def by blast
  have lq: "set (ls l) \<inter> qset m q = {}" for l q using coreD(9) [OF c] by blast
  have qq: "qset m QTimer \<inter> qset m QBackground = {}" using coreD(11) [OF c] by blast
  have dis: "distinct ?freed"
    using dl dq ll lq qq by (simp add: Int_Un_distrib Int_Un_distrib2 Int_commute)
  have "set ?freed = {..<m_brk m}"
  proof (rule set_eqI)
    fix a
    have "a \<in> set ?freed \<longleftrightarrow> (\<exists>l. a \<in> set (ls l)) \<or> (\<exists>q. a \<in> qset m q)"
      by (auto, (metis lname.exhaust qname.exhaust)+)
    also have "\<dots> \<longleftrightarrow> a < m_brk m"
      using core_place [OF c, of a] lists_okD(3) [OF ok, of a] coreD(5) [OF c, of a] by (auto simp: unlinked_def)
    finally show "a \<in> set ?freed \<longleftrightarrow> a \<in> {..<m_brk m}" by simp
  qed
  moreover have "thread_master_free m = Inr (?freed, int (m_alloc m) - int (length ?freed))"
    using thread_list_free_eq [OF ok] by (simp add: thread_master_free_def Let_def thread_queue_free_def elems_def)
  moreover have "length ?freed = m_alloc m"
    using distinct_card [OF dis] calculation(1) coreD(10) [OF c] by simp
  ultimately show ?thesis using dis by (intro exI [of _ ?freed]) simp
qed

theorem thread_master_free_all_witness:
  "\<exists>m freed. funcname_thread_add_timer (Monotonic None) (thread_master_create clock_init) 1 2 5 ([], [], 0) = Inr (m, Some 0) \<and>
     thread_master_free m = Inr (freed, 0) \<and> 0 \<in> set freed"
proof -
  obtain m where m: "funcname_thread_add_timer (Monotonic None) (thread_master_create clock_init) 1 2 5 ([], [], 0) = Inr (m, Some 0)"
    "sched_ok m" "0 < m_brk m" using sample_master by blast
  with thread_master_free_all [OF m(2)] show ?thesis by auto
qed

section \<open>Timers and the main loop\<close>

text \<open>C36: timers expire in the order of their deadlines. \<open>thread_timer_process\<close> moves exactly the
  threads of the queue whose deadline has come to the end of the ready list, earlier deadlines first, and leaves
  the others in the queue.\<close>

theorem timers_expire_in_order:
  assumes "sched ls m"
  shows "\<exists>m' due. thread_timer_process q now m = Inr (m', length due) \<and> sched (ls(LReady := ls LReady @ due)) m' \<and>
     mset (elems (m_queue m q)) = mset due + mset (elems (m_queue m' q)) \<and>
     sorted_wrt (\<lambda>a b. timeval_cmp (deadline m a) (deadline m b) \<le> 0) due \<and>
     (\<forall>a \<in> set due. timeval_cmp (deadline m a) now \<le> 0) \<and> (\<forall>a \<in> qset m' q. timeval_cmp now (deadline m a) < 0)"
proof -
  have "timeval_cmp (deadline m a) now \<le> 0 \<longleftrightarrow> \<not> timeval_cmp now (deadline m a) < 0" for a
    using timeval_cmp_sym [of now "deadline m a"] by auto
  then show ?thesis using timer_process_step [OF assms, of q now] unfolding expired_def by blast
qed

text \<open>A master with one timer, due five seconds after the start.\<close>

lemma one_timer:
  obtains m x where "funcname_thread_add_timer (Monotonic None) (thread_master_create clock_init) 1 2 5 ([], [], 0) = Inr (m, Some x)"
    "sched (\<lambda>_. []) m" "elems (m_queue m QTimer) = [x]" "elems (m_queue m QBackground) = []" "deadline m x = \<lparr>tv_sec = 5, tv_usec = 0\<rparr>"
proof -
  let ?m = "thread_master_create clock_init"
  have e: "elems (m_queue ?m q) = []" for q by (simp add: thread_master_create_def pqueue_create_def elems_def)
  have u: "(\<lambda>_ :: lname. [] :: nat list)(LUnuse := tl []) = (\<lambda>_. [])" by auto
  have c: "relative_time (fst (quagga_get_relative (Monotonic None) (m_clock ?m))) = \<lparr>tv_sec = 0, tv_usec = 0\<rparr>"
    by (simp add: quagga_get_relative_def thread_master_create_def clock_init_def zero_time_def)
  from add_timer_step [OF sched_create, of "Monotonic None" clock_init 1 QTimer 2 "\<lparr>tv_sec = 5, tv_usec = 0\<rparr>" "([], [], 0)"]
  obtain m x where m: "funcname_thread_add_timer (Monotonic None) ?m 1 2 5 ([], [], 0) = Inr (m, Some x)" "sched (\<lambda>_. []) m"
    "mset (elems (m_queue m QTimer)) = {#x#}" "m_queue m QBackground = m_queue ?m QBackground"
    "th_u (m_mem m x) = U_sands (timeval_adjust \<lparr>tv_sec = 5, tv_usec = 0\<rparr>)"
    unfolding c e u by (auto simp: funcname_thread_add_timer_def)
  have "timeval_adjust \<lparr>tv_sec = 5, tv_usec = 0\<rparr> = \<lparr>tv_sec = 5, tv_usec = 0\<rparr>" by code_simp
  with m that [of m x] e show ?thesis by simp
qed

theorem timers_expire_in_order_witness:
  "\<exists>m x m'. funcname_thread_add_timer (Monotonic None) (thread_master_create clock_init) 1 2 5 ([], [], 0) = Inr (m, Some x) \<and>
     thread_timer_process QTimer \<lparr>tv_sec = 9, tv_usec = 0\<rparr> m = Inr (m', 1) \<and> elems (m_queue m' QTimer) = []"
proof -
  let ?now = "\<lparr>tv_sec = 9, tv_usec = 0\<rparr> :: timeval"
  obtain m x where m: "funcname_thread_add_timer (Monotonic None) (thread_master_create clock_init) 1 2 5 ([], [], 0) = Inr (m, Some x)"
    "sched (\<lambda>_. []) m" "elems (m_queue m QTimer) = [x]" "deadline m x = \<lparr>tv_sec = 5, tv_usec = 0\<rparr>" by (rule one_timer)
  from timers_expire_in_order [OF m(2), of QTimer ?now] obtain m' due where
    d: "thread_timer_process QTimer ?now m = Inr (m', length due)" "{#x#} = mset due + mset (elems (m_queue m' QTimer))"
    "\<forall>a \<in> qset m' QTimer. timeval_cmp ?now (deadline m a) < 0" using m(3) by auto
  have "\<not> timeval_cmp ?now (deadline m x) < 0" unfolding m(4) by code_simp
  then have "x \<notin> qset m' QTimer" using d(3) by blast
  moreover have "qset m' QTimer \<subseteq> {x}" using arg_cong [OF d(2), of set_mset] by auto
  ultimately have "elems (m_queue m' QTimer) = []" by (cases "elems (m_queue m' QTimer)") auto
  with d(1,2) m(1) show ?thesis using arg_cong [OF d(2), of size] by auto
qed

text \<open>What becomes ready in one turn of the main loop is queued in this order: the threads already
  ready, expired foreground timers, then (when \<open>select\<close> reports descriptors) the read threads of readable and
  the write threads of writable descriptors, then expired background timers. No assertion fails whatever
  descriptor sets \<open>select\<close> returns.\<close>

theorem fetch_queues_by_priority:
  assumes "sched ls m" "now = relative_time (fst (quagga_get_relative (fe_now2 e) (m_clock m)))"
  shows "\<exists>m' ls' due bg. process_ready e num readfd writefd m = Inr m' \<and> sched ls' m' \<and>
     ls' LReady = ls LReady @ due @ (if num > 0 then filter (\<lambda>a. fd_of m a \<in> readfd) (ls LRead) else []) @
       (if num > 0 then filter (\<lambda>a. fd_of m a \<in> writefd) (ls LWrite) else []) @ bg \<and>
     expired QTimer now due m m' \<and> expired QBackground now bg m m'"
proof -
  have "now = relative_time (m_clock (get_relative (fe_now2 e) m))" using assms(2) by simp
  from process_ready_step [OF assms(1) this, of num readfd writefd] show ?thesis unfolding io_ready_def by blast
qed

definition idle_env :: fetch_env where
  "idle_env = \<lparr>fe_sig = id, fe_now1 = Monotonic (Some (0, 0)), fe_select = (\<lambda>r w t. Selected 0 {} {}),
     fe_left = id, fe_now2 = Monotonic (Some (9, 0))\<rparr>"

theorem fetch_queues_by_priority_witness:
  "\<exists>m' ls'. process_ready idle_env 0 {} {} (thread_master_create clock_init) = Inr m' \<and> sched ls' m'"
  using fetch_queues_by_priority [OF sched_create [of clock_init] refl, of idle_env 0 "{}" "{}"] by blast

text \<open>Work a pass of the loop finds: ready threads, due timers, reported descriptors.\<close>

definition work_waits :: "fetch_env \<Rightarrow> int \<Rightarrow> int set \<Rightarrow> int set \<Rightarrow> (lname \<Rightarrow> nat list) \<Rightarrow> thread_master \<Rightarrow> bool" where
  "work_waits e num rs ws ls m \<longleftrightarrow> ls LReady \<noteq> [] \<or>
     (\<exists>q. \<exists>a \<in> qset m q. \<not> timeval_cmp (relative_time (fst (quagga_get_relative (fe_now2 e) (m_clock m)))) (deadline m a) < 0) \<or>
     0 < num \<and> ((\<exists>a \<in> set (ls LRead). fd_of m a \<in> rs) \<or> (\<exists>a \<in> set (ls LWrite). fd_of m a \<in> ws))"

lemma expired_takes:
  assumes "expired q now ds m m'" "a \<in> qset m q" "\<not> timeval_cmp now (deadline m a) < 0"
  shows "a \<in> set ds"
proof -
  have "a \<in># mset (elems (m_queue m q))" using assms(2) by simp
  then show ?thesis using assms unfolding expired_def by auto
qed

lemma pass_finds_work:
  assumes s: "sched ls m" and w: "work_waits e num rs ws ls m"
  shows "\<exists>m' ls' x xs. process_ready e num rs ws m = Inr m' \<and> sched ls' m' \<and> ls' LReady = x # xs"
proof -
  let ?now = "relative_time (fst (quagga_get_relative (fe_now2 e) (m_clock m)))"
  from process_ready_step [OF s, of ?now e num rs ws] obtain m' ls' due bg where
    m': "process_ready e num rs ws m = Inr m'" "sched ls' m'"
    "ls' LReady = ls LReady @ due @ io_ready num rs m (ls LRead) @ io_ready num ws m (ls LWrite) @ bg"
    "expired QTimer ?now due m m'" "expired QBackground ?now bg m m'" by auto
  have "due \<noteq> [] \<or> bg \<noteq> []" if "a \<in> qset m q" "\<not> timeval_cmp ?now (deadline m a) < 0" for a q
    using that expired_takes [OF m'(4), of a] expired_takes [OF m'(5), of a] by (cases q) auto
  moreover have "io_ready num fds m (ls l) \<noteq> []" if "0 < num" "a \<in> set (ls l)" "fd_of m a \<in> fds" for a l fds
    using that by (auto simp: io_ready_def filter_empty_conv)
  ultimately have "ls' LReady \<noteq> []" using w unfolding work_waits_def m'(3) append_is_Nil_conv by blast
  then show ?thesis using m'(1,2) by (metis list.exhaust)
qed

text \<open>The timeout a turn gives to \<open>select\<close>, \<open>m\<close> being the master after the signal handlers.\<close>

definition select_timeout :: "fetch_env \<Rightarrow> timeval option \<Rightarrow> thread_master \<Rightarrow> timeval option" where
  "select_timeout e w m = (case and_then (thread_process LEvent m) (\<lambda>(m, _). select_wait (fe_now1 e) w m) of
     Inr (_, t) \<Rightarrow> t | Inl _ \<Rightarrow> w)"

text \<open>The time when the timers are looked at in a turn that found nothing ready before \<open>select\<close>.\<close>

definition turn_time :: "fetch_env \<Rightarrow> clock \<Rightarrow> timeval" where
  "turn_time e c = relative_time (fst (quagga_get_relative (fe_now2 e) (fst (quagga_get_relative (fe_now1 e) c))))"

text \<open>A turn that finds nothing ready after the signal handlers: up to the call of \<open>select\<close> it only makes the pending events ready, and
  only when there is none it reads the clock.\<close>

lemma turn_to_select:
  assumes s: "sched ls m" and n: "ls LReady = []"
  shows "\<exists>m'. and_then (thread_process LEvent m) (\<lambda>(m, _). select_wait (fe_now1 e) w m) = Inr (m', select_timeout e w m) \<and>
     sched (ls(LEvent := [], LReady := ls LEvent)) m' \<and> m_fd m' = m_fd m \<and> m_queue m' = m_queue m \<and>
     (\<forall>a. th_u (m_mem m' a) = th_u (m_mem m a)) \<and> (ls LEvent = [] \<longrightarrow> m_clock m' = fst (quagga_get_relative (fe_now1 e) (m_clock m))) \<and>
     (ls LEvent \<noteq> [] \<longrightarrow> select_timeout e w m = w)"
proof -
  let ?ls = "ls(LEvent := [], LReady := ls LEvent)"
  from process_step [OF s] n obtain m1 where m1: "thread_process LEvent m = Inr (m1, length (ls LEvent))" "sched ?ls m1"
    "moved m m1" "m_queue m1 = m_queue m" by auto
  from select_wait_step [OF m1(2)] obtain t m2 where m2: "select_wait (fe_now1 e) w m1 = Inr (m2, t)" "sched ?ls m2"
    "m_queue m2 = m_queue m1" "m_mem m2 = m_mem m1" "m_fd m2 = m_fd m1" by blast
  have cnt: "tl_count (m_list m1 LReady) = int (length (ls LEvent))" using lists_okD(2) [OF sched_parts(3) [OF m1(2)], of LReady] by simp
  have t: "select_timeout e w m = t" using m1(1) m2(1) by (simp add: select_timeout_def)
  have "m_clock m2 = fst (quagga_get_relative (fe_now1 e) (m_clock m))" if "ls LEvent = []"
    using that m2(1) cnt movedD(2) [OF m1(3)] by (auto simp: select_wait_def Let_def and_then_Inr_iff get_relative_def)
  moreover have "t = w" if "ls LEvent \<noteq> []" using that m2(1) cnt by (simp add: select_wait_def)
  ultimately show ?thesis using m1 m2 movedD(1,4) [OF m1(3)] unfolding t by auto
qed

text \<open>C37: no ready work is left waiting. A turn of \<open>thread_fetch\<close> returns a thread if one is ready after the signal handlers have run,
  and also if \<open>select\<close> returns without an error or an interruption and an event was pending before it, or
  a timer of either queue is due at the time read after it, or it reports a descriptor a thread waits for.\<close>

theorem fetch_returns_ready_work:
  assumes s: "sched ls (fe_sig e m)"
    and work: "ls LReady \<noteq> [] \<or>
      fe_select e (m_fd (fe_sig e m) ReadFd) (m_fd (fe_sig e m) WriteFd) (select_timeout e w (fe_sig e m)) = Selected num rs ws \<and>
      (ls LEvent \<noteq> [] \<or>
       (\<exists>q. \<exists>a \<in> qset (fe_sig e m) q. \<not> timeval_cmp (turn_time e (m_clock (fe_sig e m))) (deadline (fe_sig e m) a) < 0) \<or>
       0 < num \<and> (\<exists>a \<in> set (ls LRead). fd_of (fe_sig e m) a \<in> rs) \<or>
       0 < num \<and> (\<exists>a \<in> set (ls LWrite). fd_of (fe_sig e m) a \<in> ws))"
  shows "\<exists>m' t. fetch_loop (e # es) w m = Inr (m', Fetched t) \<and> sched_ok m'"
proof (cases "ls LReady")
  case (Cons x xs)
  with run_ready_step [OF s] show ?thesis by (auto intro: sched_okI)
next
  case Nil
  let ?m = "fe_sig e m" and ?ls = "ls(LEvent := [], LReady := ls LEvent)"
  from turn_to_select [OF s Nil, of e w] obtain m2 where
    m2: "and_then (thread_process LEvent ?m) (\<lambda>(m, _). select_wait (fe_now1 e) w m) = Inr (m2, select_timeout e w ?m)"
    "sched ?ls m2" "m_fd m2 = m_fd ?m" "m_queue m2 = m_queue ?m" and u: "\<And>a. th_u (m_mem m2 a) = th_u (m_mem ?m a)"
    and c: "ls LEvent = [] \<Longrightarrow> m_clock m2 = fst (quagga_get_relative (fe_now1 e) (m_clock ?m))" by blast
  then obtain m1 k where m1: "thread_process LEvent ?m = Inr (m1, k)" "select_wait (fe_now1 e) w m1 = Inr (m2, select_timeout e w ?m)"
    by (auto simp: and_then_Inr_iff)
  have sel: "fe_select e (m_fd m2 ReadFd) (m_fd m2 WriteFd) (select_timeout e w ?m) = Selected num rs ws"
    using work Nil m2(3) by simp
  have fd: "fd_of m2 a = fd_of ?m a" for a using u by (simp add: fd_of_def)
  have "work_waits e num rs ws ?ls m2"
  proof (cases "ls LEvent = []")
    case True
    then show ?thesis using work Nil c unfolding work_waits_def m2(4) u fd turn_time_def by auto
  qed (simp add: work_waits_def)
  from pass_finds_work [OF m2(2) this] obtain m3 ls3 x xs where
    m3: "process_ready e num rs ws m2 = Inr m3" "sched ls3 m3" "ls3 LReady = x # xs" by blast
  from run_ready_step [OF m3(2)] m3(3) obtain m4 t where "run_ready m3 = Inr (m4, Some t)" "sched_ok m4" by (blast intro: sched_okI)
  moreover have "run_ready ?m = Inr (?m, None)" using run_ready_step [OF s] Nil by blast
  ultimately show ?thesis using m1 sel m3(1) by simp
qed

theorem fetch_returns_ready_work_witness:
  "\<exists>m x m' t. funcname_thread_add_timer (Monotonic None) (thread_master_create clock_init) 1 2 5 ([], [], 0) = Inr (m, Some x) \<and>
     fetch_loop [idle_env] None m = Inr (m', Fetched t) \<and> sched_ok m'"
proof -
  obtain m x where m: "funcname_thread_add_timer (Monotonic None) (thread_master_create clock_init) 1 2 5 ([], [], 0) = Inr (m, Some x)"
    "sched (\<lambda>_. []) m" "elems (m_queue m QTimer) = [x]" "deadline m x = \<lparr>tv_sec = 5, tv_usec = 0\<rparr>" by (rule one_timer)
  have now: "turn_time idle_env c = \<lparr>tv_sec = 9, tv_usec = 0\<rparr>" for c
    by (simp add: turn_time_def idle_env_def quagga_get_relative_def)
  have due: "\<not> timeval_cmp (turn_time idle_env (m_clock m)) (deadline m x) < 0" unfolding now m(4) by code_simp
  have s: "sched (\<lambda>_. []) (fe_sig idle_env m)" using m(2) by (simp add: idle_env_def)
  have sel: "fe_select idle_env (m_fd (fe_sig idle_env m) ReadFd) (m_fd (fe_sig idle_env m) WriteFd)
      (select_timeout idle_env None (fe_sig idle_env m)) = Selected 0 {} {}" by (simp add: idle_env_def)
  have "\<exists>q. \<exists>a \<in> qset (fe_sig idle_env m) q. \<not> timeval_cmp (turn_time idle_env (m_clock (fe_sig idle_env m))) (deadline (fe_sig idle_env m) a) < 0"
    using due m(3) by (intro exI [of _ QTimer] bexI [of _ x]) (simp_all add: idle_env_def)
  with sel have "\<exists>m' t. fetch_loop [idle_env] None m = Inr (m', Fetched t) \<and> sched_ok m'"
    by (intro fetch_returns_ready_work [OF s, where num = 0 and rs = "{}" and ws = "{}"]) blast
  with m(1) show ?thesis by blast
qed

section \<open>How long the loop sleeps\<close>

abbreviation time_left :: "thread_master \<Rightarrow> timeval \<Rightarrow> nat \<Rightarrow> int" where
  "time_left m now a \<equiv> max 0 (micros (deadline m a) - micros now)"

lemma timer_wait_least:
  assumes c: "core ls {} m" and n: "\<And>q a. a \<in> qset m q \<Longrightarrow> normal (deadline m a)"
  shows "\<exists>w. thread_timer_wait q m = Inr w \<and> (w = None \<longleftrightarrow> qset m q = {}) \<and>
     (\<forall>t. w = Some t \<longrightarrow> normal t \<and> (\<exists>a \<in> qset m q. micros t = time_left m (relative_time (m_clock m)) a) \<and>
        (\<forall>a \<in> qset m q. micros t \<le> time_left m (relative_time (m_clock m)) a))"
proof (cases "pq_size (m_queue m q) = 0")
  case True
  then show ?thesis by (simp add: thread_timer_wait_def elems_def)
next
  case False
  let ?x = "pq_array (m_queue m q) ! 0" and ?now = "relative_time (m_clock m)"
  let ?t = "timeval_subtract (deadline m ?x) ?now"
  have x: "?x \<in> qset m q" using timer_root(2) [OF c False] .
  have t: "normal ?t" "micros ?t = time_left m ?now ?x"
    using timeval_adjust_spec [of "\<lparr>tv_sec = tv_sec (deadline m ?x) - tv_sec ?now, tv_usec = tv_usec (deadline m ?x) - tv_usec ?now\<rparr>"]
    by (simp add: timeval_subtract_def, simp add: timeval_subtract_def micros_def algebra_simps)
  have "micros (deadline m ?x) \<le> micros (deadline m a)" if "a \<in> qset m q" for a
    using root_is_first [OF coreD(4) [OF c] that] timeval_cmp_sign(2) [OF n [OF x] n [OF that]] by linarith
  then have le: "micros ?t \<le> time_left m ?now a" if "a \<in> qset m q" for a using that t(2) by fastforce
  have w: "thread_timer_wait q m = Inr (Some ?t)" using timer_wait_value [OF c] False by simp
  show ?thesis
  proof (rule exI [of _ "Some ?t"], intro conjI allI impI)
    show "Some ?t = None \<longleftrightarrow> qset m q = {}" using x by auto
  qed (insert x t le w, auto)
qed

text \<open>C38: when nothing is ready, the loop sleeps exactly until the earliest deadline. The timeout passed
  to \<open>select\<close> is the least time left of all timers of both queues (zero for one that is overdue), and no timeout
  is given only when there is no timer.\<close>

theorem select_waits_for_earliest:
  assumes s: "sched ls m" and empty: "ls LReady = []" and n: "\<And>q a. a \<in> qset m q \<Longrightarrow> normal (deadline m a)"
    and now: "now = relative_time (fst (quagga_get_relative r (m_clock m)))"
  shows "\<exists>m' w. select_wait r w0 m = Inr (m', w) \<and> (w = None \<longleftrightarrow> (\<forall>q. qset m q = {})) \<and>
     (\<forall>t. w = Some t \<longrightarrow> (\<exists>q. \<exists>a \<in> qset m q. micros t = time_left m now a) \<and> (\<forall>q. \<forall>a \<in> qset m q. micros t \<le> time_left m now a))"
proof -
  let ?m = "get_relative r m"
  have c: "core ls {} ?m" using sched_parts(1) [OF s] by simp
  have z: "tl_count (m_list m LReady) = 0" using lists_okD(2) [OF sched_parts(3) [OF s], of LReady] empty by simp
  have all: "(\<forall>q. P q) \<longleftrightarrow> P QTimer \<and> P QBackground" "(\<exists>q. P q) \<longleftrightarrow> P QTimer \<or> P QBackground" for P
    by (metis qname.exhaust)+
  from timer_wait_least [OF c, of QTimer] n now obtain w where w: "thread_timer_wait QTimer ?m = Inr w" "w = None \<longleftrightarrow> qset m QTimer = {}"
    "\<And>t. w = Some t \<Longrightarrow> normal t \<and> (\<exists>a \<in> qset m QTimer. micros t = time_left m now a) \<and> (\<forall>a \<in> qset m QTimer. micros t \<le> time_left m now a)"
    by auto
  from timer_wait_least [OF c, of QBackground] n now obtain b where b: "thread_timer_wait QBackground ?m = Inr b" "b = None \<longleftrightarrow> qset m QBackground = {}"
    "\<And>t. b = Some t \<Longrightarrow> normal t \<and> (\<exists>a \<in> qset m QBackground. micros t = time_left m now a) \<and> (\<forall>a \<in> qset m QBackground. micros t \<le> time_left m now a)"
    by auto
  show ?thesis
  proof (cases b)
    case None
    then have "select_wait r w0 m = Inr (?m, w)" using w(1) b(1) z by (simp add: select_wait_def)
    with None b(2) w(2,3) show ?thesis unfolding all by auto
  next
    case (Some tb)
    note bt = b(3) [OF Some]
    show ?thesis
    proof (cases w)
      case None
      then have "select_wait r w0 m = Inr (?m, b)" using Some w(1) b(1) z by (simp add: select_wait_def)
      with None Some b(2) w(2) bt show ?thesis unfolding all by auto
    next
      case (Some tw)
      note wt = w(3) [OF Some]
      have sign: "timeval_cmp tw tb > 0 \<longleftrightarrow> micros tb < micros tw" using timeval_cmp_sign(2) [of tw tb] wt bt by blast
      let ?t = "if micros tb < micros tw then tb else tw"
      have "select_wait r w0 m = Inr (?m, Some ?t)"
        using Some \<open>b = Some tb\<close> w(1) b(1) z sign by (simp add: select_wait_def)
      moreover have "Some ?t = None \<longleftrightarrow> (\<forall>q. qset m q = {})" using w(2) Some unfolding all by auto
      moreover have "\<exists>q. \<exists>a \<in> qset m q. micros ?t = time_left m now a"
        using wt bt by (cases "micros tb < micros tw") (simp, blast)+
      moreover have "micros ?t \<le> micros tb" "micros ?t \<le> micros tw" by auto
      then have "\<forall>q. \<forall>a \<in> qset m q. micros ?t \<le> time_left m now a"
        unfolding all using wt bt order_trans by blast
      ultimately show ?thesis by blast
    qed
  qed
qed

theorem select_waits_for_earliest_witness:
  "\<exists>m x m' t. funcname_thread_add_timer (Monotonic None) (thread_master_create clock_init) 1 2 5 ([], [], 0) = Inr (m, Some x) \<and>
     select_wait (Monotonic (Some (2, 0))) None m = Inr (m', Some t) \<and> micros t = 3000000"
proof -
  obtain m x where m: "funcname_thread_add_timer (Monotonic None) (thread_master_create clock_init) 1 2 5 ([], [], 0) = Inr (m, Some x)"
    "sched (\<lambda>_. []) m" "elems (m_queue m QTimer) = [x]" "elems (m_queue m QBackground) = []"
    "deadline m x = \<lparr>tv_sec = 5, tv_usec = 0\<rparr>" by (rule one_timer)
  let ?now = "relative_time (fst (quagga_get_relative (Monotonic (Some (2, 0))) (m_clock m)))"
  have q: "qset m q = (if q = QTimer then {x} else {})" for q using m(3,4) by (cases q) simp_all
  have n: "normal (deadline m a)" if "a \<in> qset m q" for q a
    using that m(5) by (simp add: q normal_def TIMER_SECOND_MICRO_def split: if_splits)
  have "\<exists>m' w. select_wait (Monotonic (Some (2, 0))) None m = Inr (m', w) \<and> (w = None \<longleftrightarrow> (\<forall>q. qset m q = {})) \<and>
     (\<forall>t. w = Some t \<longrightarrow> (\<exists>q. \<exists>a \<in> qset m q. micros t = time_left m ?now a) \<and> (\<forall>q. \<forall>a \<in> qset m q. micros t \<le> time_left m ?now a))"
    by (rule select_waits_for_earliest [OF m(2) refl _ refl]) (rule n)
  then obtain m' w where
    w: "select_wait (Monotonic (Some (2, 0))) None m = Inr (m', w)" "w = None \<longleftrightarrow> (\<forall>q. qset m q = {})"
    "\<And>t. w = Some t \<Longrightarrow> \<exists>q. \<exists>a \<in> qset m q. micros t = time_left m ?now a" by blast
  have "x \<in> qset m QTimer" using m(3) by simp
  then have "w \<noteq> None" using w(2) by (metis empty_iff)
  then obtain t where t: "w = Some t" by blast
  with w(3) have "micros t = time_left m ?now x" by (auto simp: q split: if_splits)
  then have "micros t = 3000000" unfolding m(5) by (simp add: quagga_get_relative_def micros_def TIMER_SECOND_MICRO_def)
  with m(1) w(1) t show ?thesis by blast
qed

section \<open>An interrupted wait\<close>

text \<open>A turn without ready threads and events does nothing before \<open>select\<close> but to read the clock and compute the timeout.\<close>

lemma idle_turn:
  assumes s: "sched ls m" and n: "ls LReady = []" "ls LEvent = []" "\<And>q. qset m q = {}"
  shows "thread_process LEvent m = Inr (m, 0)" "select_wait r w m = Inr (get_relative r m, None)"
proof -
  note ok = sched_parts(3) [OF s]
  have "tl_head (m_list m LEvent) = None" using lists_okD(4) [OF ok, of LEvent] n(2) by simp
  then show "thread_process LEvent m = Inr (m, 0)" by (simp add: thread_process_def walk_fuel_def)
  have z: "pq_size (m_queue m q) = 0" for q using timer_root(2) [OF sched_parts(1) [OF s], of q] n(3) [of q] by fastforce
  have "tl_count (m_list m LReady) = 0" using lists_okD(2) [OF ok, of LReady] n(1) by simp
  then show "select_wait r w m = Inr (get_relative r m, None)" using z by (simp add: select_wait_def thread_timer_wait_def get_relative_def)
qed

text \<open>C39: after an interrupted \<open>select\<close> the timeout of the turn before is used again when something has
  become ready since. Whenever a turn finds nothing ready, no event and no timer, its \<open>select\<close> is interrupted by a signal, and the
  handler leaves events pending: the next turn puts the events on the ready list, and yet calls \<open>select\<close> without a
  timeout. No event is run before that call has returned, and none when it fails.\<close>

theorem fetch_sleeps_on_ready_event:
  assumes m1: "sched ls1 (fe_sig e1 m)" "ls1 LReady = []" "ls1 LEvent = []" "\<And>q. qset (fe_sig e1 m) q = {}"
    and intr: "fe_select e1 (m_fd (fe_sig e1 m) ReadFd) (m_fd (fe_sig e1 m) WriteFd) None = SelectIntr"
    and m2: "m2 = fe_sig e2 (get_relative (fe_now1 e1) (fe_sig e1 m))" "sched ls2 m2" "ls2 LReady = []" "ls2 LEvent \<noteq> []"
  shows "\<exists>m3. sched (ls2(LEvent := [], LReady := ls2 LEvent)) m3 \<and> m_fd m3 = m_fd m2 \<and>
     thread_fetch (e1 # e2 # es) m =
       (case fe_select e2 (m_fd m2 ReadFd) (m_fd m2 WriteFd) None of
          SelectIntr \<Rightarrow> fetch_loop es None m3
        | SelectError \<Rightarrow> Inr (m3, FetchNull)
        | Selected num rs ws \<Rightarrow>
            and_then (process_ready e2 num rs ws m3) (\<lambda>m. and_then (run_ready m) (\<lambda>(m, f).
              case f of Some fetch \<Rightarrow> Inr (m, Fetched fetch) | None \<Rightarrow> fetch_loop es None m)))"
proof -
  have "run_ready (fe_sig e1 m) = Inr (fe_sig e1 m, None)" using run_ready_step [OF m1(1)] m1(2) by blast
  then have first: "thread_fetch (e1 # e2 # es) m = fetch_loop (e2 # es) None (get_relative (fe_now1 e1) (fe_sig e1 m))"
    using idle_turn [OF m1] intr by (simp add: thread_fetch_def get_relative_def del: fetch_loop.simps(2), simp add: get_relative_def)
  from turn_to_select [OF m2(2,3), of e2 None] m2(4) obtain m3 where
    m3: "and_then (thread_process LEvent m2) (\<lambda>(m, _). select_wait (fe_now1 e2) None m) = Inr (m3, None)"
    "sched (ls2(LEvent := [], LReady := ls2 LEvent)) m3" "m_fd m3 = m_fd m2" by auto
  then obtain m' k where m': "thread_process LEvent m2 = Inr (m', k)" "select_wait (fe_now1 e2) None m' = Inr (m3, None)"
    by (auto simp: and_then_Inr_iff)
  have "run_ready m2 = Inr (m2, None)" using run_ready_step [OF m2(2)] m2(3) by blast
  with m' m3(3) show ?thesis unfolding first
    by (intro exI [of _ m3] conjI m3(2)) (simp_all add: m2(1) [symmetric])
qed

definition add_event_7 :: "thread_master \<Rightarrow> thread_master" where
  "add_event_7 m = (case funcname_thread_add_event m 1 7 0 ([], [], 0) of Inr (m', _) \<Rightarrow> m' | Inl _ \<Rightarrow> m)"

definition interrupted_env :: fetch_env where
  "interrupted_env = idle_env\<lparr>fe_select := (\<lambda>r w t. SelectIntr)\<rparr>"

definition handler_env :: fetch_env where
  "handler_env = idle_env\<lparr>fe_sig := add_event_7,
     fe_select := (\<lambda>r w t. if t = None then SelectError else Selected 0 {} {})\<rparr>"

theorem fetch_sleeps_on_ready_event_witness:
  "\<exists>m3 ls. thread_fetch [interrupted_env, handler_env] (thread_master_create clock_init) = Inr (m3, FetchNull) \<and>
     sched ls m3 \<and> ls LReady \<noteq> []"
proof -
  let ?m = "thread_master_create clock_init"
  let ?m1 = "get_relative (fe_now1 interrupted_env) (fe_sig interrupted_env ?m)"
  have e: "elems (m_queue ?m q) = []" for q by (simp add: thread_master_create_def pqueue_create_def elems_def)
  have s: "sched (\<lambda>_. []) (fe_sig interrupted_env ?m)" using sched_create by (simp add: interrupted_env_def idle_env_def)
  then have s1: "sched (\<lambda>_. []) ?m1" by simp
  from add_event_step [OF s1, of 1 7 0 "([], [], 0)"] obtain m2 x where
    m2: "funcname_thread_add_event ?m1 1 7 0 ([], [], 0) = Inr (m2, Some x)"
    "sched ((\<lambda>_. [])(LUnuse := tl [], LEvent := [] @ [x])) m2" by blast
  have "m2 = fe_sig handler_env ?m1" using m2(1) by (simp add: handler_env_def add_event_7_def)
  from fetch_sleeps_on_ready_event [OF s refl refl _ _ this m2(2), of "[]"] e obtain m3 where
    "sched ((\<lambda>_. [])(LUnuse := tl [], LEvent := [], LReady := [x])) m3"
    "thread_fetch [interrupted_env, handler_env] ?m = Inr (m3, FetchNull)"
    by (auto simp: interrupted_env_def idle_env_def handler_env_def)
  then show ?thesis by (intro exI [of _ m3] exI conjI) auto
qed

end
