(* ===== verification/WorkQueue.thy ===== *)
theory WorkQueue
  imports ThreadProps
begin

text \<open>
  Work queues (\<^verbatim>\<open>lib/workqueue.c\<close>) on the scheduler of \<open>Thread\<close>: a list of items that a background thread
  works off. The callbacks belong to the daemons: what the work function answers, and the data it adds to
  its own queue meanwhile, is an argument that may depend on all that happened so far, and so is what the
  clock shows. What happened is the trace: calls of the callbacks, allocated and freed items, tests of
  the clock and threads added. A null data pointer is 0.
\<close>

section \<open>Items, queues, environment\<close>

datatype wq_item_status = WQ_SUCCESS | WQ_ERROR | WQ_RETRY_NOW | WQ_RETRY_LATER | WQ_REQUEUE | WQ_QUEUE_BLOCKED

record work_queue_item =
  item_data :: nat
  item_ran :: u16

record work_queue =
  wq_self :: nat   \<comment> \<open>its address, the argument of its thread\<close>
  wq_thread :: "nat option"
  wq_has_errorfunc :: bool
  wq_has_del :: bool
  wq_has_completion :: bool
  wq_max_retries :: u32
  wq_hold :: u32
  wq_items :: "work_queue_item list"
  wq_runs :: u64
  wq_best :: u32
  wq_granularity :: u32
  wq_total :: u64
  wq_unplugged :: bool

text \<open>The error callback is declared to take an item; one of its two calls passes the data of the item instead.\<close>

datatype error_arg = ErrItem work_queue_item | ErrData nat

datatype wq_event =
    Added nat                       \<comment> \<open>an item was made for the data\<close>
  | Worked nat wq_item_status       \<comment> \<open>the work function ran\<close>
  | Errored error_arg               \<comment> \<open>the error callback ran\<close>
  | Deleted nat                     \<comment> \<open>the callback that deletes item data ran\<close>
  | Freed nat                       \<comment> \<open>the item of the data was freed\<close>
  | Tested bool                     \<comment> \<open>the clock was read to see whether to yield\<close>
  | Scheduled                       \<comment> \<open>a background thread was added\<close>
  | Completed                       \<comment> \<open>the completion callback ran\<close>

record wq_env =
  we_work :: "wq_event list \<Rightarrow> nat \<Rightarrow> wq_item_status \<times> nat list"
  we_clock :: "wq_event list \<Rightarrow> reading"

type_synonym wq_state = "work_queue \<times> thread_master \<times> wq_event list"

definition WORK_QUEUE_MIN_GRANULARITY :: u32 where "WORK_QUEUE_MIN_GRANULARITY = 1"
definition WORK_QUEUE_DEFAULT_HOLD :: u32 where "WORK_QUEUE_DEFAULT_HOLD = 50"
definition WQ_HYSTERESIS_FACTOR :: u32 where "WQ_HYSTERESIS_FACTOR = 4"

text \<open>How the scheduler names the function \<open>work_queue_run\<close>.\<close>

definition WORK_QUEUE_RUN :: nat where "WORK_QUEUE_RUN = 1"

section \<open>Adding, plugging\<close>

definition work_queue_new :: "nat \<Rightarrow> work_queue" where
  "work_queue_new self = \<lparr>wq_self = self, wq_thread = None, wq_has_errorfunc = False, wq_has_del = False,
     wq_has_completion = False, wq_max_retries = 0, wq_hold = WORK_QUEUE_DEFAULT_HOLD, wq_items = [], wq_runs = 0,
     wq_best = 0, wq_granularity = WORK_QUEUE_MIN_GRANULARITY, wq_total = 0, wq_unplugged = True\<rparr>"

definition work_queue_schedule :: "wq_env \<Rightarrow> u32 \<Rightarrow> wq_state \<Rightarrow> (wq_state \<times> bool) res" where
  "work_queue_schedule env delay = (\<lambda>(wq, m, tr).
     if wq_unplugged wq \<and> wq_thread wq = None \<and> length (wq_items wq) > 0
     then and_then (funcname_thread_add_background (we_clock env tr) m WORK_QUEUE_RUN (wq_self wq) (uint delay)
            (''work_queue_run'', ''workqueue.c'', 118)) (\<lambda>(m, x).
          Inr ((wq\<lparr>wq_thread := x\<rparr>, m, tr @ [Scheduled]), True))
     else Inr ((wq, m, tr), False))"

definition work_queue_add :: "wq_env \<Rightarrow> nat \<Rightarrow> wq_state \<Rightarrow> wq_state res" where
  "work_queue_add env data = (\<lambda>(wq, m, tr).
     and_then (work_queue_schedule env (wq_hold wq)
       (wq\<lparr>wq_items := wq_items wq @ [\<lparr>item_data = data, item_ran = 0\<rparr>]\<rparr>, m, tr @ [Added data])) (\<lambda>(s, _). Inr s))"

definition cancel_thread :: "wq_state \<Rightarrow> wq_state res" where
  "cancel_thread = (\<lambda>(wq, m, tr).
     case wq_thread wq of None \<Rightarrow> Inr (wq, m, tr) | Some x \<Rightarrow> and_then (thread_cancel x m) (\<lambda>m. Inr (wq, m, tr)))"

definition work_queue_free :: "wq_state \<Rightarrow> (thread_master \<times> wq_event list) res" where
  "work_queue_free s = and_then (cancel_thread s) (\<lambda>(wq, m, tr). Inr (m, tr @ map (\<lambda>i. Freed (item_data i)) (wq_items wq)))"

definition work_queue_plug :: "wq_state \<Rightarrow> wq_state res" where
  "work_queue_plug s = and_then (cancel_thread s) (\<lambda>(wq, m, tr). Inr (wq\<lparr>wq_thread := None, wq_unplugged := False\<rparr>, m, tr))"

definition work_queue_unplug :: "wq_env \<Rightarrow> wq_state \<Rightarrow> wq_state res" where
  "work_queue_unplug env = (\<lambda>(wq, m, tr).
     and_then (work_queue_schedule env (wq_hold wq) (wq\<lparr>wq_unplugged := True\<rparr>, m, tr)) (\<lambda>(s, _). Inr s))"

section \<open>Running\<close>

text \<open>The iteration of \<open>work_queue_run\<close> is always at the first item of the list, which it removes, moves to the end, or stops at.\<close>

definition work_queue_item_remove :: "wq_state \<Rightarrow> wq_state res" where
  "work_queue_item_remove = (\<lambda>(wq, m, tr).
     case wq_items wq of
       [] \<Rightarrow> Inl NullDeref
     | item # items \<Rightarrow> and_then (ensure (item_data item \<noteq> 0)) (\<lambda>_.
         Inr (wq\<lparr>wq_items := items\<rparr>, m,
              tr @ (if wq_has_del wq then [Deleted (item_data item)] else []) @ [Freed (item_data item)])))"

definition work_queue_item_requeue :: "wq_state \<Rightarrow> wq_state res" where
  "work_queue_item_requeue = (\<lambda>(wq, m, tr).
     case wq_items wq of [] \<Rightarrow> Inl NullDeref | item # items \<Rightarrow> Inr (wq\<lparr>wq_items := items @ [item]\<rparr>, m, tr))"

definition ran_plus :: "u16 \<Rightarrow> wq_state \<Rightarrow> wq_state" where
  "ran_plus k = (\<lambda>(wq, m, tr).
     (wq\<lparr>wq_items := (case wq_items wq of [] \<Rightarrow> [] | item # items \<Rightarrow> item\<lparr>item_ran := item_ran item + k\<rparr> # items)\<rparr>, m, tr))"

definition call_errorfunc :: "error_arg \<Rightarrow> wq_state \<Rightarrow> wq_state" where
  "call_errorfunc a = (\<lambda>(wq, m, tr). (wq, m, if wq_has_errorfunc wq then tr @ [Errored a] else tr))"

fun add_all :: "wq_env \<Rightarrow> nat list \<Rightarrow> wq_state \<Rightarrow> wq_state res" where
  "add_all env [] s = Inr s"
| "add_all env (d # ds) s = and_then (work_queue_add env d s) (add_all env ds)"

text \<open>One call of the work function on the first item.\<close>

definition call_workfunc :: "wq_env \<Rightarrow> nat \<Rightarrow> wq_state \<Rightarrow> (wq_state \<times> wq_item_status) res" where
  "call_workfunc env data = (\<lambda>(wq, m, tr).
     case we_work env tr data of
       (ret, ds) \<Rightarrow> and_then (add_all env ds (wq, m, tr @ [Worked data ret])) (\<lambda>s. Inr (s, ret)))"

text \<open>The loop that retries at once. With \<open>max_retries\<close> beyond 65535 it may never end, so it takes a bound of its turns.\<close>

fun retry_loop :: "nat \<Rightarrow> wq_env \<Rightarrow> wq_state \<Rightarrow> (wq_state \<times> wq_item_status) res" where
  "retry_loop 0 env s = Inl Diverged"
| "retry_loop (Suc turns) env (wq, m, tr) =
     (case wq_items wq of
        [] \<Rightarrow> Inl NullDeref
      | item # _ \<Rightarrow>
          and_then (call_workfunc env (item_data item) (wq, m, tr)) (\<lambda>(s, ret).
            let ran = item_ran item + 1
            in if ret = WQ_RETRY_NOW \<and> uint ran < uint (wq_max_retries wq)
               then retry_loop turns env (ran_plus 1 s) else Inr (ran_plus 1 s, ret)))"

text \<open>What becomes of the first item: the state, and whether to stop.\<close>

definition item_outcome :: "wq_item_status \<Rightarrow> wq_state \<Rightarrow> (wq_state \<times> bool) res" where
  "item_outcome ret s = (case ret of
     WQ_QUEUE_BLOCKED \<Rightarrow> Inr (ran_plus (- 1) s, True)
   | WQ_RETRY_LATER \<Rightarrow> Inr (s, True)
   | WQ_REQUEUE \<Rightarrow> and_then (work_queue_item_requeue (ran_plus (- 1) s)) (\<lambda>s. Inr (s, False))
   | WQ_SUCCESS \<Rightarrow> and_then (work_queue_item_remove s) (\<lambda>s. Inr (s, False))
   | _ \<Rightarrow> (case wq_items (fst s) of
             [] \<Rightarrow> Inl NullDeref
           | item # _ \<Rightarrow> and_then (work_queue_item_remove (call_errorfunc (ErrItem item) s)) (\<lambda>s. Inr (s, False))))"

definition should_yield :: "wq_env \<Rightarrow> thread \<Rightarrow> wq_state \<Rightarrow> wq_state \<times> bool" where
  "should_yield env t = (\<lambda>(wq, m, tr).
     case thread_should_yield (we_clock env tr) t m of (m, y) \<Rightarrow> ((wq, m, tr @ [Tested y]), y))"

text \<open>
  The next node is read before the body: after the item that is the last of the list at that time the loop ends,
  whatever was added or requeued behind it.
\<close>

fun run_loop :: "nat \<Rightarrow> wq_env \<Rightarrow> thread \<Rightarrow> u32 \<Rightarrow> wq_state \<Rightarrow> (wq_state \<times> u32 \<times> bool) res" where
  "run_loop 0 env t cycles s = Inl Diverged"
| "run_loop (Suc turns) env t cycles s =
     (case wq_items (fst s) of
        [] \<Rightarrow> Inr (s, cycles, False)
      | item # rest \<Rightarrow>
          and_then (ensure (item_data item \<noteq> 0)) (\<lambda>_.
          if uint (item_ran item) > uint (wq_max_retries (fst s))
          then and_then (work_queue_item_remove (call_errorfunc (ErrData (item_data item)) s)) (\<lambda>s.
            if rest = [] then Inr (s, cycles, False) else run_loop turns env t cycles s)
          else and_then (retry_loop turns env s) (\<lambda>(s, ret).
               and_then (item_outcome ret s) (\<lambda>(s, stop).
               if stop then Inr (s, cycles, False)
               else let cycles = cycles + 1;
                        (s, y) = (if cycles mod wq_granularity (fst s) = 0 then should_yield env t s else (s, False))
                    in if y then Inr (s, cycles, True)
                       else if rest = [] then Inr (s, cycles, False)
                       else run_loop turns env t cycles s))))"

definition adjust :: "bool \<Rightarrow> u32 \<Rightarrow> work_queue \<Rightarrow> work_queue" where
  "adjust yielded cycles wq =
     (if yielded \<and> cycles < wq_granularity wq
      then wq\<lparr>wq_granularity := (if cycles > 0 then cycles else WORK_QUEUE_MIN_GRANULARITY)\<rparr>
      else if cycles \<ge> wq_granularity wq
      then let g = wq_granularity wq; wq = (if cycles > wq_best wq then wq\<lparr>wq_best := cycles\<rparr> else wq)
        in if cycles > g * WQ_HYSTERESIS_FACTOR * WQ_HYSTERESIS_FACTOR then wq\<lparr>wq_granularity := g * WQ_HYSTERESIS_FACTOR\<rparr>
           else if cycles > g * WQ_HYSTERESIS_FACTOR then wq\<lparr>wq_granularity := g + WQ_HYSTERESIS_FACTOR\<rparr> else wq
      else wq)"

text \<open>From the label \<open>stats\<close> on.\<close>

definition run_stats :: "wq_env \<Rightarrow> wq_state \<times> u32 \<times> bool \<Rightarrow> wq_state res" where
  "run_stats env = (\<lambda>((wq, m, tr), cycles, yielded).
     let wq = adjust yielded cycles wq;
         wq = wq\<lparr>wq_runs := wq_runs wq + 1, wq_total := wq_total wq + ucast cycles\<rparr>
     in if length (wq_items wq) > 0 then and_then (work_queue_schedule env 0 (wq, m, tr)) (\<lambda>(s, _). Inr s)
        else Inr (wq, m, if wq_has_completion wq then tr @ [Completed] else tr))"

definition work_queue_run :: "nat \<Rightarrow> wq_env \<Rightarrow> thread \<Rightarrow> wq_state \<Rightarrow> wq_state res" where
  "work_queue_run turns env t = (\<lambda>(wq, m, tr).
     let wq = wq\<lparr>wq_thread := None, wq_granularity := (if wq_granularity wq = 0 then WORK_QUEUE_MIN_GRANULARITY else wq_granularity wq)\<rparr>
     in and_then (run_loop turns env t 0 (wq, m, tr)) (run_stats env))"

end
