(* ===== verification/ThreadWaiting.thy ===== *)
theory ThreadWaiting
  imports ThreadProps
begin

text \<open>
  What becomes of a background thread: it waits in the queue of background timers or in the ready list,
  and each turn of the main loop either leaves it there or hands a copy of it out to be called.
\<close>

definition waiting :: "thread_master \<Rightarrow> nat \<Rightarrow> nat \<Rightarrow> nat \<Rightarrow> bool" where
  "waiting m x func arg \<longleftrightarrow> x < m_brk m \<and> th_type (m_mem m x) \<in> {THREAD_BACKGROUND, THREAD_READY} \<and>
     th_func (m_mem m x) = func \<and> th_arg (m_mem m x) = arg"

lemma list_bound: "sched ls m \<Longrightarrow> a \<in> set (ls l) \<Longrightarrow> a < m_brk m"
  using list_node(1) [OF sched_parts(3)] by (metis split_list)

lemma waiting_place:
  assumes s: "sched ls m"
  shows "waiting m x func arg \<longleftrightarrow> (x \<in> set (ls LReady) \<or> x \<in> qset m QBackground) \<and> th_func (m_mem m x) = func \<and> th_arg (m_mem m x) = arg"
proof -
  note c = sched_parts(1) [OF s]
  have "x < m_brk m \<and> th_type (m_mem m x) \<in> {THREAD_BACKGROUND, THREAD_READY} \<longleftrightarrow> x \<in> set (ls LReady) \<or> x \<in> qset m QBackground"
  proof
    assume h: "x < m_brk m \<and> th_type (m_mem m x) \<in> {THREAD_BACKGROUND, THREAD_READY}"
    from core_place [OF c, of x] h consider l where "x \<in> set (ls l)" | q where "x \<in> qset m q" by auto
    then show "x \<in> set (ls LReady) \<or> x \<in> qset m QBackground"
    proof cases
      case (1 l)
      then show ?thesis using h coreD(2) [OF c 1] by (cases l) auto
    next
      case (2 q)
      then show ?thesis using h coreD(6) [OF c 2] by (cases q) auto
    qed
  next
    assume "x \<in> set (ls LReady) \<or> x \<in> qset m QBackground"
    then show "x < m_brk m \<and> th_type (m_mem m x) \<in> {THREAD_BACKGROUND, THREAD_READY}"
      using list_bound [OF s] coreD(2,5,6) [OF c] by (auto simp: unlinked_def)
  qed
  then show ?thesis by (auto simp: waiting_def)
qed

lemma waiting_moved:
  assumes "sched ls m" "sched ls' m'" "waiting m x f a" "\<And>a. body (m_mem m' a) = body (m_mem m a)"
    "x \<in> set (ls LReady) \<or> x \<in> qset m QBackground \<Longrightarrow> x \<in> set (ls' LReady) \<or> x \<in> qset m' QBackground"
  shows "waiting m' x f a"
  using assms(3,5) body_eqD(2,3) [OF assms(4) [of x]] unfolding waiting_place [OF assms(1)] waiting_place [OF assms(2)] by auto

lemma waiting_get_relative [simp]: "waiting (get_relative r m) x f a = waiting m x f a" "sched_ok (get_relative r m) = sched_ok m"
  by (simp_all add: waiting_def sched_ok_def)

lemma add_background_waits:
  assumes "sched_ok m"
  shows "\<exists>m' x. funcname_thread_add_background r m func arg delay dbg = Inr (m', Some x) \<and> sched_ok m' \<and> waiting m' x func arg"
proof -
  obtain ls where s: "sched ls m" using assms by (auto simp: sched_ok_def)
  let ?tr = "if delay \<noteq> 0 then \<lparr>tv_sec = delay sdiv 1000, tv_usec = 1000 * (delay smod 1000)\<rparr> else \<lparr>tv_sec = 0, tv_usec = 0\<rparr>"
  from add_timer_step [OF s, of r func QBackground arg ?tr dbg] obtain m' x where
    m': "funcname_thread_add_background r m func arg delay dbg = Inr (m', Some x)" "sched (ls(LUnuse := tl (ls LUnuse))) m'"
    "mset (elems (m_queue m' QBackground)) = mset (elems (m_queue m QBackground)) + {#x#}"
    "th_func (m_mem m' x) = func" "th_arg (m_mem m' x) = arg"
    unfolding funcname_thread_add_background_def qtype.simps by blast
  have "x \<in> qset m' QBackground" using m'(3) by (metis mset_eq_setD set_mset_mset union_single_eq_member add_mset_add_single)
  then show ?thesis using m' waiting_place [OF m'(2)] sched_okI [OF m'(2)] by auto
qed

section \<open>The main loop\<close>

text \<open>The signal handlers of a turn use the scheduler, and leave the thread alone.\<close>

definition calm :: "nat \<Rightarrow> fetch_env \<Rightarrow> bool" where
  "calm x e \<longleftrightarrow> (\<forall>m. sched_ok m \<longrightarrow> sched_ok (fe_sig e m) \<and> (\<forall>f a. waiting m x f a \<longrightarrow> waiting (fe_sig e m) x f a))"

lemma run_ready_waits:
  assumes s: "sched_ok m" and w: "waiting m x f a"
  shows "\<exists>m' r. run_ready m = Inr (m', r) \<and> sched_ok m' \<and>
    (waiting m' x f a \<or> (\<exists>t. r = Some t \<and> th_func t = f \<and> th_arg t = a)) \<and> (r = None \<longrightarrow> m' = m)"
proof -
  obtain ls where ls: "sched ls m" using s by (auto simp: sched_ok_def)
  show ?thesis
  proof (cases "ls LReady")
    case Nil
    then show ?thesis using run_ready_step [OF ls] s w by auto
  next
    case (Cons y ys)
    then obtain m' t where m': "run_ready m = Inr (m', Some t)" "sched (ls(LReady := ys, LUnuse := ls LUnuse @ [y])) m'"
      "m_queue m' = m_queue m" "body t = body (m_mem m y)" "\<And>a. body (m_mem m' a) = body (m_mem m a)"
      using run_ready_step [OF ls] by blast
    have "waiting m' x f a \<or> th_func t = f \<and> th_arg t = a"
    proof (cases "x = y")
      case True
      then show ?thesis using w body_eqD(2,3) [OF m'(4)] by (simp add: waiting_def)
    next
      case False
      have "waiting m' x f a" by (rule waiting_moved [OF ls m'(2) w m'(5)]) (insert False Cons m'(3), auto)
      then show ?thesis ..
    qed
    then show ?thesis using m'(1) sched_okI [OF m'(2)] by auto
  qed
qed

lemma process_ready_waits:
  assumes s: "sched_ok m" and w: "waiting m x f a"
  shows "\<exists>m'. process_ready e num rfd wfd m = Inr m' \<and> sched_ok m' \<and> waiting m' x f a"
proof -
  obtain ls where ls: "sched ls m" using s by (auto simp: sched_ok_def)
  let ?now = "relative_time (m_clock (get_relative (fe_now2 e) m))"
  from process_ready_step [OF ls, of ?now e num rfd wfd] obtain m' ls' due bg where
    m': "process_ready e num rfd wfd m = Inr m'" "sched ls' m'" "\<And>a. body (m_mem m' a) = body (m_mem m a)"
    "ls' LReady = ls LReady @ due @ io_ready num rfd m (ls LRead) @ io_ready num wfd m (ls LWrite) @ bg"
    "expired QBackground ?now bg m m'" by (elim meta_impE [OF _ refl] exE conjE) simp
  have "mset (elems (m_queue m QBackground)) = mset bg + mset (elems (m_queue m' QBackground))" using m'(5) by (simp add: expired_def)
  then have q: "qset m QBackground = set bg \<union> qset m' QBackground" by (metis set_mset_mset set_mset_union)
  have "waiting m' x f a" by (rule waiting_moved [OF ls m'(2) w m'(3)]) (insert m'(4) q, auto)
  then show ?thesis using m'(1) sched_okI [OF m'(2)] by blast
qed

lemma fetch_loop_waits:
  assumes "sched_ok m" "waiting m x f a" "\<And>e. e \<in> set es \<Longrightarrow> calm x e"
  shows "\<exists>m' r. fetch_loop es w m = Inr (m', r) \<and> sched_ok m' \<and> (waiting m' x f a \<or> (\<exists>t. r = Fetched t \<and> th_func t = f \<and> th_arg t = a))"
  using assms
proof (induction es arbitrary: w m)
  case (Cons e es)
  have c: "calm x e" "\<And>e. e \<in> set es \<Longrightarrow> calm x e" using Cons.prems(3) by simp_all
  note IH = Cons.IH [OF _ _ c(2)]
  let ?m = "fe_sig e m"
  have s: "sched_ok ?m" "waiting ?m x f a" using c(1) Cons.prems(1,2) by (auto simp: calm_def)
  from run_ready_waits [OF s] obtain m0 r where m0: "run_ready ?m = Inr (m0, r)" "sched_ok m0"
    "waiting m0 x f a \<or> (\<exists>t. r = Some t \<and> th_func t = f \<and> th_arg t = a)" "r = None \<longrightarrow> m0 = ?m" by blast
  show ?case
  proof (cases r)
    case (Some t)
    then show ?thesis using m0 by auto
  next
    case None
    obtain ls where ls: "sched ls ?m" using s(1) by (auto simp: sched_ok_def)
    from process_step [OF ls] obtain m1 n where m1: "thread_process LEvent ?m = Inr (m1, n)"
      "sched (ls(LEvent := [], LReady := ls LReady @ ls LEvent)) m1" "moved ?m m1" "m_queue m1 = m_queue ?m" by blast
    have w1: "waiting m1 x f a" by (rule waiting_moved [OF ls m1(2) s(2) movedD(7) [OF m1(3)]]) (insert m1(4), auto)
    from select_wait_step [OF m1(2)] obtain w' m2 where m2: "select_wait (fe_now1 e) w m1 = Inr (m2, w')"
      "sched (ls(LEvent := [], LReady := ls LReady @ ls LEvent)) m2" "m_queue m2 = m_queue m1" "m_mem m2 = m_mem m1" by blast
    have w2: "waiting m2 x f a" by (rule waiting_moved [OF m1(2) m2(2) w1]) (insert m2(3,4), auto)
    have s2: "sched_ok m2" using sched_okI [OF m2(2)] .
    let ?left = "map_option (fe_left e) w'"
    show ?thesis
    proof (cases "fe_select e (m_fd m2 ReadFd) (m_fd m2 WriteFd) w'")
      case (Selected num readfd writefd)
      from process_ready_waits [OF s2 w2, of e num readfd writefd] obtain m3 where
        m3: "process_ready e num readfd writefd m2 = Inr m3" "sched_ok m3" "waiting m3 x f a" by blast
      from run_ready_waits [OF m3(2,3)] obtain m4 r4 where m4: "run_ready m3 = Inr (m4, r4)" "sched_ok m4"
        "waiting m4 x f a \<or> (\<exists>t. r4 = Some t \<and> th_func t = f \<and> th_arg t = a)" by blast
      show ?thesis
      proof (cases r4)
        case None
        then show ?thesis using Selected \<open>r = None\<close> m0 m1(1) m2(1) m3(1) m4 IH [OF m4(2), of ?left] by simp
      next
        case (Some t)
        then show ?thesis using Selected \<open>r = None\<close> m0 m1(1) m2(1) m3(1) m4 by simp
      qed
    next
      case SelectIntr
      then show ?thesis using None m0 m1(1) m2(1) IH [OF s2 w2, of ?left] by simp
    next
      case SelectError
      then show ?thesis using None m0 m1(1) m2(1) s2 w2 by simp
    qed
  qed
qed simp

end
