(* ===== verification/WorkQueueProps.thy ===== *)
theory WorkQueueProps
  imports WorkQueue ThreadWaiting
begin

text \<open>
  What a work queue promises: an item that was added is in the queue or was freed, once; a queue with items
  that is not plugged has a thread waiting in the scheduler; and no call fails an assertion.
\<close>

section \<open>Invariant\<close>

definition items_added :: "wq_event list \<Rightarrow> nat multiset" where
  "items_added tr = mset (List.map_filter (\<lambda>e. case e of Added d \<Rightarrow> Some d | _ \<Rightarrow> None) tr)"

definition items_freed :: "wq_event list \<Rightarrow> nat multiset" where
  "items_freed tr = mset (List.map_filter (\<lambda>e. case e of Freed d \<Rightarrow> Some d | _ \<Rightarrow> None) tr)"

lemma added_append [simp]: "items_added (xs @ ys) = items_added xs + items_added ys" "items_added [] = {#}"
  "items_added (e # es) = (case e of Added d \<Rightarrow> {#d#} | _ \<Rightarrow> {#}) + items_added es"
  by (auto simp: items_added_def map_filter_def split: wq_event.splits)

lemma freed_append [simp]: "items_freed (xs @ ys) = items_freed xs + items_freed ys" "items_freed [] = {#}"
  "items_freed (e # es) = (case e of Freed d \<Rightarrow> {#d#} | _ \<Rightarrow> {#}) + items_freed es"
  by (auto simp: items_freed_def map_filter_def split: wq_event.splits)

definition wq_inv :: "wq_state \<Rightarrow> bool" where
  "wq_inv = (\<lambda>(wq, m, tr). sched_ok m \<and> (\<forall>x. wq_thread wq = Some x \<longrightarrow> waiting m x WORK_QUEUE_RUN (wq_self wq)) \<and>
     mset (map item_data (wq_items wq)) + items_freed tr = items_added tr \<and> (\<forall>i \<in> set (wq_items wq). item_data i \<noteq> 0))"

definition awake :: "work_queue \<Rightarrow> bool" where
  "awake wq \<longleftrightarrow> (wq_unplugged wq \<and> wq_items wq \<noteq> [] \<longrightarrow> wq_thread wq \<noteq> None)"

text \<open>A call that only adds items at the end, or works on the items.\<close>

definition same :: "work_queue \<Rightarrow> work_queue \<Rightarrow> bool" where
  "same wq wq' \<longleftrightarrow> wq' = wq\<lparr>wq_thread := wq_thread wq', wq_items := wq_items wq'\<rparr>"

definition step :: "wq_state \<Rightarrow> wq_state \<Rightarrow> bool" where
  "step s s' \<longleftrightarrow> wq_inv s' \<and> same (fst s) (fst s')"

lemma same_refl [simp]: "same wq wq" by (simp add: same_def)

lemma same_trans: "same a b \<Longrightarrow> same b c \<Longrightarrow> same a c"
  by (cases a; cases b; cases c) (simp add: same_def)

lemma sameD: "same wq wq' \<Longrightarrow> wq_granularity wq' = wq_granularity wq \<and> wq_best wq' = wq_best wq \<and> wq_max_retries wq' = wq_max_retries wq \<and>
   wq_unplugged wq' = wq_unplugged wq \<and> wq_has_errorfunc wq' = wq_has_errorfunc wq \<and> wq_has_del wq' = wq_has_del wq \<and> wq_self wq' = wq_self wq"
  by (cases wq; cases wq') (simp add: same_def)

lemma step_inv: "step s s' \<Longrightarrow> wq_inv s'"
  by (simp add: step_def)

lemma step_trans [trans]: "step a b \<Longrightarrow> step b c \<Longrightarrow> step a c"
  by (auto simp: step_def intro: same_trans)

text \<open>An operation is fine if it returns with the property or its bound of turns is used up.\<close>

definition fine :: "('a \<Rightarrow> bool) \<Rightarrow> 'a res \<Rightarrow> bool" where
  "fine P r \<longleftrightarrow> (case r of Inl e \<Rightarrow> e = Diverged | Inr x \<Rightarrow> P x)"

lemma fine_simps [simp]: "fine P (Inr x) \<longleftrightarrow> P x" "fine P (Inl e) \<longleftrightarrow> e = Diverged"
  by (simp_all add: fine_def)

lemma fine_and_then: "fine P r \<Longrightarrow> (\<And>x. P x \<Longrightarrow> fine Q (f x)) \<Longrightarrow> fine Q (and_then r f)"
  by (cases r) auto

lemma fineI: "\<exists>x. r = Inr x \<and> P x \<Longrightarrow> fine P r"
  by auto

section \<open>Parts of a run\<close>

definition env_ok :: "wq_env \<Rightarrow> bool" where
  "env_ok env \<longleftrightarrow> (\<forall>tr d. 0 \<notin> set (snd (we_work env tr d)))"

lemma schedule_ok:
  assumes "wq_inv s"
  shows "\<exists>s' b. work_queue_schedule env delay s = Inr (s', b) \<and> step s s' \<and> awake (fst s') \<and> wq_items (fst s') = wq_items (fst s)"
proof -
  obtain wq m tr where s: "s = (wq, m, tr)" by (cases s)
  show ?thesis
  proof (cases "wq_unplugged wq \<and> wq_thread wq = None \<and> wq_items wq \<noteq> []")
    case True
    have "sched_ok m" using assms s by (simp add: wq_inv_def)
    from add_background_waits [OF this] obtain m' x where
      "funcname_thread_add_background (we_clock env tr) m WORK_QUEUE_RUN (wq_self wq) (uint delay) (''work_queue_run'', ''workqueue.c'', 118) = Inr (m', Some x)"
      "sched_ok m'" "waiting m' x WORK_QUEUE_RUN (wq_self wq)" by blast
    then show ?thesis using True s assms by (auto simp: work_queue_schedule_def step_def wq_inv_def awake_def same_def)
  next
    case False
    then show ?thesis using s assms by (auto simp: work_queue_schedule_def step_def awake_def)
  qed
qed

lemma add_ok:
  assumes "wq_inv s" "d \<noteq> 0"
  shows "\<exists>s'. work_queue_add env d s = Inr s' \<and> step s s' \<and> awake (fst s') \<and> wq_items (fst s') = wq_items (fst s) @ [\<lparr>item_data = d, item_ran = 0\<rparr>]"
proof -
  obtain wq m tr where s: "s = (wq, m, tr)" by (cases s)
  let ?s = "(wq\<lparr>wq_items := wq_items wq @ [\<lparr>item_data = d, item_ran = 0\<rparr>]\<rparr>, m, tr @ [Added d])"
  have i: "wq_inv ?s" using assms s by (auto simp: wq_inv_def)
  obtain s' b where s': "work_queue_schedule env (wq_hold wq) ?s = Inr (s', b)" "step ?s s'" "awake (fst s')" "wq_items (fst s') = wq_items (fst ?s)"
    using schedule_ok [OF i] by blast
  have "step s ?s" using i s by (simp add: step_def same_def)
  then show ?thesis using s' s step_trans by (auto simp: work_queue_add_def)
qed

lemma add_all_ok:
  assumes "wq_inv s" "0 \<notin> set ds"
  shows "\<exists>s' new. add_all env ds s = Inr s' \<and> step s s' \<and> wq_items (fst s') = wq_items (fst s) @ new"
  using assms
proof (induction ds arbitrary: s)
  case Nil
  then show ?case by (auto simp: step_def)
next
  case (Cons d ds)
  then obtain s1 where 1: "work_queue_add env d s = Inr s1" "step s s1" "wq_items (fst s1) = wq_items (fst s) @ [\<lparr>item_data = d, item_ran = 0\<rparr>]"
    using add_ok [of s d env] by auto
  have "wq_inv s1" using 1(2) by (simp add: step_def)
  from Cons.IH [OF this] Cons.prems(2) obtain s2 new where "add_all env ds s1 = Inr s2" "step s1 s2" "wq_items (fst s2) = wq_items (fst s1) @ new"
    by auto
  then show ?case using 1 step_trans by auto
qed

lemma call_workfunc_ok:
  assumes "env_ok env" "wq_inv s"
  shows "\<exists>s' ret new. call_workfunc env d s = Inr (s', ret) \<and> step s s' \<and> wq_items (fst s') = wq_items (fst s) @ new"
proof -
  obtain wq m tr where s: "s = (wq, m, tr)" by (cases s)
  obtain ret ds where w: "we_work env tr d = (ret, ds)" by (cases "we_work env tr d")
  have "0 \<notin> set ds" using assms(1) w by (metis env_ok_def snd_conv)
  moreover have "wq_inv (wq, m, tr @ [Worked d ret])" using assms(2) s by (simp add: wq_inv_def)
  ultimately show ?thesis using add_all_ok [of "(wq, m, tr @ [Worked d ret])" ds env] s w by (auto simp: call_workfunc_def step_def)
qed

lemma ran_plus_ok: "wq_inv s \<Longrightarrow> step s (ran_plus k s)" "wq_items (fst (ran_plus k s)) = [] \<longleftrightarrow> wq_items (fst s) = []"
  by (cases s; auto simp: ran_plus_def step_def wq_inv_def same_def split: list.splits)+

lemma errorfunc_ok: "wq_inv s \<Longrightarrow> step s (call_errorfunc a s)" "wq_items (fst (call_errorfunc a s)) = wq_items (fst s)"
  by (cases s; simp add: call_errorfunc_def step_def wq_inv_def)+

lemma remove_ok: "wq_inv s \<Longrightarrow> wq_items (fst s) = i # js \<Longrightarrow>
    \<exists>s'. work_queue_item_remove s = Inr s' \<and> step s s' \<and> wq_items (fst s') = js"
  by (cases s) (auto simp: work_queue_item_remove_def step_def wq_inv_def same_def)

lemma error_remove_ok:
  assumes "wq_inv s" "wq_items (fst s) = i # js"
  shows "\<exists>s'. work_queue_item_remove (call_errorfunc a s) = Inr s' \<and> step s s'"
proof -
  have e: "step s (call_errorfunc a s)" "wq_items (fst (call_errorfunc a s)) = i # js" using errorfunc_ok assms by simp_all
  show ?thesis using remove_ok [OF step_inv [OF e(1)] e(2)] step_trans [OF e(1)] by blast
qed

lemma requeue_ok: "wq_inv s \<Longrightarrow> wq_items (fst s) \<noteq> [] \<Longrightarrow> \<exists>s'. work_queue_item_requeue s = Inr s' \<and> step s s'"
  by (cases s) (auto simp: work_queue_item_requeue_def step_def wq_inv_def same_def split: list.splits)

lemma yield_ok: "wq_inv s \<Longrightarrow> step s (fst (should_yield env t s))" "wq_items (fst (fst (should_yield env t s))) = wq_items (fst s)"
  by (cases s; simp add: should_yield_def thread_should_yield_def Let_def step_def wq_inv_def)+

lemma retry_loop_ok:
  assumes "env_ok env" "wq_inv s" "wq_items (fst s) \<noteq> []"
  shows "fine (\<lambda>(s', ret). step s s' \<and> wq_items (fst s') \<noteq> []) (retry_loop turns env s)"
  using assms
proof (induction turns env s rule: retry_loop.induct)
  case (2 turns env wq m tr)
  let ?s = "(wq, m, tr)"
  obtain i js where i: "wq_items wq = i # js" using 2(4) by (cases "wq_items wq") auto
  obtain s1 ret new where 1: "call_workfunc env (item_data i) ?s = Inr (s1, ret)" "step ?s s1" "wq_items (fst s1) = wq_items wq @ new"
    using call_workfunc_ok [OF 2(2,3), of "item_data i"] by auto
  have s1: "wq_inv s1" using 1(2) by (simp add: step_def)
  have r: "step ?s (ran_plus 1 s1)" "wq_items (fst (ran_plus 1 s1)) \<noteq> []"
    using ran_plus_ok [where s = s1 and k = 1] s1 1(3) step_trans [OF 1(2)] 2(4) by auto
  have "fine (\<lambda>(s', ret). step (ran_plus 1 s1) s' \<and> wq_items (fst s') \<noteq> []) (retry_loop turns env (ran_plus 1 s1))"
    if "ret = WQ_RETRY_NOW \<and> uint (item_ran i + 1) < uint (wq_max_retries wq)"
    using 2(1) [OF i 1(1) refl _ _ 2(2)] that r by (auto simp: step_def)
  then show ?case using i 1(1) r step_trans [OF r(1)] by (auto simp: Let_def fine_def split: sum.splits)
qed simp

lemma outcome_ok:
  assumes "wq_inv s" "wq_items (fst s) \<noteq> []"
  shows "\<exists>s' stop. item_outcome ret s = Inr (s', stop) \<and> step s s'"
proof -
  obtain i js where i: "wq_items (fst s) = i # js" using assms(2) by (cases "wq_items (fst s)") auto
  have e: "\<exists>s'. work_queue_item_remove (call_errorfunc a s) = Inr s' \<and> step s s'" for a
    using error_remove_ok [OF assms(1) i] .
  have q: "\<exists>s'. work_queue_item_requeue (ran_plus (- 1) s) = Inr s' \<and> step s s'"
    using requeue_ok [OF step_inv] ran_plus_ok [where s = s and k = "- 1"] assms step_trans by blast
  have "step s (ran_plus (- 1) s)" "step s s" using ran_plus_ok(1) assms(1) by (simp_all add: step_def)
  then show ?thesis using e [of "ErrItem i"] q remove_ok [OF assms(1) i] i by (cases ret) (auto simp: item_outcome_def)
qed

section \<open>A run\<close>

text \<open>The cycles counted, and that a run yields only after a multiple of the granularity.\<close>

definition counted :: "u32 \<Rightarrow> u32 \<Rightarrow> nat \<Rightarrow> u32 \<Rightarrow> bool \<Rightarrow> bool" where
  "counted g cycles turns cycles' y \<longleftrightarrow>
     (unat cycles + turns < 2 ^ 32 \<longrightarrow> unat cycles' \<le> unat cycles + turns \<and> (y \<longrightarrow> cycles' \<noteq> 0 \<and> cycles' mod g = 0))"

lemma counted_stop: "counted g c n c False"
  by (simp add: counted_def)

lemma unat_plus_1: "unat c + Suc n < 2 ^ 32 \<Longrightarrow> unat ((c :: u32) + 1) = unat c + 1"
  by (subst unat_plus_if_size) (simp add: word_size)

lemma counted_one: "c + 1 = c' \<Longrightarrow> (y \<longrightarrow> c' mod g = 0) \<Longrightarrow> counted g c (Suc n) c' y"
  using unat_plus_1 [of c n] by (auto simp: counted_def simp flip: unat_eq_zero)

lemma counted_more: "counted g (c + 1) n c' y \<Longrightarrow> counted g c (Suc n) c' y"
  using unat_plus_1 [of c n] by (auto simp: counted_def)

lemma counted_skip: "counted g c n c' y \<Longrightarrow> counted g c (Suc n) c' y"
  by (auto simp: counted_def)

definition ran :: "nat \<Rightarrow> u32 \<Rightarrow> wq_state \<Rightarrow> wq_state \<times> u32 \<times> bool \<Rightarrow> bool" where
  "ran turns cycles s = (\<lambda>(s', cycles', y). step s s' \<and> counted (wq_granularity (fst s)) cycles turns cycles' y)"

lemma ran_step: "step s s1 \<Longrightarrow> ran n c s1 r \<Longrightarrow> ran n c s r"
  using sameD by (auto simp: ran_def step_def intro: same_trans)

lemma run_loop_ok:
  assumes "env_ok env" "wq_inv s"
  shows "fine (ran turns cycles s) (run_loop turns env t cycles s)"
  using assms
proof (induction turns arbitrary: cycles s)
  case (Suc turns)
  show ?case
  proof (cases "wq_items (fst s)")
    case Nil
    then show ?thesis using Suc.prems counted_stop by (simp add: ran_def step_def)
  next
    case (Cons i js)
    have d: "item_data i \<noteq> 0" using Suc.prems(2) Cons by (cases s) (auto simp: wq_inv_def)
    note IH = Suc.IH [OF Suc.prems(1)]
    show ?thesis
    proof (cases "uint (item_ran i) > uint (wq_max_retries (fst s))")
      case True
      obtain s1 where s1: "work_queue_item_remove (call_errorfunc (ErrData (item_data i)) s) = Inr s1" "step s s1"
        using error_remove_ok [OF Suc.prems(2) Cons] by blast
      have "fine (ran turns cycles s1) (run_loop turns env t cycles s1)" using IH s1(2) by (simp add: step_def)
      then have "fine (ran (Suc turns) cycles s) (run_loop turns env t cycles s1)"
        using ran_step [OF s1(2)] counted_skip by (auto simp: fine_def ran_def split: sum.splits)
      then show ?thesis using Cons True d s1 counted_stop by (simp add: ran_def)
    next
      case False
      let ?next = "\<lambda>s. let cycles = cycles + 1;
                        (s, y) = (if cycles mod wq_granularity (fst s) = 0 then should_yield env t s else (s, False))
                    in if y then Inr (s, cycles, True)
                       else if js = [] then Inr (s, cycles, False)
                       else run_loop turns env t cycles s"
      have n: "fine (ran (Suc turns) cycles s) (?next s1)" if st: "step s s1" for s1
      proof -
        obtain s2 y where y: "(if (cycles + 1) mod wq_granularity (fst s1) = 0 then should_yield env t s1 else (s1, False)) = (s2, y)"
          by fastforce
        have s2: "step s s2" "y \<longrightarrow> (cycles + 1) mod wq_granularity (fst s) = 0"
          using yield_ok(1) [of s1 env t] y st step_trans sameD by (auto simp: step_def split: if_splits)
        have "fine (ran turns (cycles + 1) s2) (run_loop turns env t (cycles + 1) s2)" using IH s2(1) by (simp add: step_def)
        then have "fine (ran (Suc turns) cycles s) (run_loop turns env t (cycles + 1) s2)"
          using ran_step [OF s2(1)] counted_more by (auto simp: fine_def ran_def split: sum.splits)
        then show ?thesis using y s2 counted_one [OF refl] by (auto simp: Let_def ran_def)
      qed
      have o: "fine (ran (Suc turns) cycles s) (and_then (item_outcome ret s1) (\<lambda>(s, stop). if stop then Inr (s, cycles, False) else ?next s))"
        if a: "step s s1 \<and> wq_items (fst s1) \<noteq> []" for s1 ret
      proof -
        obtain s2 stop where s2: "item_outcome ret s1 = Inr (s2, stop)" "step s1 s2"
          using outcome_ok [of s1 ret] a step_inv by blast
        have "step s s2" using a s2(2) step_trans by blast
        then show ?thesis using n [of s2] s2(1) counted_stop by (cases stop) (auto simp: ran_def)
      qed
      have "fine (ran (Suc turns) cycles s) (and_then (retry_loop turns env s) (\<lambda>(s, ret).
          and_then (item_outcome ret s) (\<lambda>(s, stop). if stop then Inr (s, cycles, False) else ?next s)))"
        by (rule fine_and_then [OF retry_loop_ok [OF Suc.prems(1,2)]]) (insert Cons o, auto)
      then show ?thesis using Cons False d by simp
    qed
  qed
qed simp

lemma adjust_frame: "wq_items (adjust y c wq) = wq_items wq" "wq_thread (adjust y c wq) = wq_thread wq" "wq_self (adjust y c wq) = wq_self wq"
  "wq_unplugged (adjust y c wq) = wq_unplugged wq"
  by (simp_all add: adjust_def Let_def)

lemma run_stats_ok:
  assumes "wq_inv s"
  shows "\<exists>s'. run_stats env (s, c, y) = Inr s' \<and> wq_inv s' \<and> awake (fst s') \<and>
    wq_granularity (fst s') = wq_granularity (adjust y c (fst s)) \<and> wq_best (fst s') = wq_best (adjust y c (fst s))"
proof -
  obtain wq m tr where s: "s = (wq, m, tr)" by (cases s)
  let ?wq = "(adjust y c wq)\<lparr>wq_runs := wq_runs (adjust y c wq) + 1, wq_total := wq_total (adjust y c wq) + ucast c\<rparr>"
  have i: "wq_inv (?wq, m, tr)" using assms s adjust_frame by (simp add: wq_inv_def)
  show ?thesis
  proof (cases "wq_items wq = []")
    case True
    then show ?thesis using i s by (auto simp: run_stats_def Let_def adjust_frame awake_def wq_inv_def)
  next
    case False
    obtain s' b where s': "work_queue_schedule env 0 (?wq, m, tr) = Inr (s', b)" "step (?wq, m, tr) s'" "awake (fst s')"
      using schedule_ok [OF i] by blast
    have "same ?wq (fst s')" using s'(2) by (simp add: step_def)
    from sameD [OF this] show ?thesis using False s s' by (simp add: run_stats_def Let_def adjust_frame step_inv)
  qed
qed

lemma wq_run_ok:
  assumes "env_ok env" "wq_inv s"
  shows "fine (\<lambda>s'. wq_inv s' \<and> awake (fst s')) (work_queue_run turns env t s)"
proof -
  obtain wq m tr where s: "s = (wq, m, tr)" by (cases s)
  let ?wq = "wq\<lparr>wq_thread := None, wq_granularity := (if wq_granularity wq = 0 then WORK_QUEUE_MIN_GRANULARITY else wq_granularity wq)\<rparr>"
  have i: "wq_inv (?wq, m, tr)" using assms(2) s by (simp add: wq_inv_def)
  have "fine (\<lambda>s'. wq_inv s' \<and> awake (fst s')) (and_then (run_loop turns env t 0 (?wq, m, tr)) (run_stats env))"
  proof (rule fine_and_then [OF run_loop_ok [OF assms(1) i]])
    fix r assume r: "ran turns 0 (?wq, m, tr) r"
    obtain s1 c y where q: "r = (s1, c, y)" by (cases r) auto
    have "wq_inv s1" using r q by (simp add: ran_def step_def)
    then show "fine (\<lambda>s'. wq_inv s' \<and> awake (fst s')) (run_stats env r)" using run_stats_ok q fineI by metis
  qed
  then show ?thesis using s by (simp add: work_queue_run_def Let_def)
qed

section \<open>Any sequence of calls\<close>

text \<open>
  Besides the calls of the daemon there are the turns of its main loop: a thread is fetched, and called if it is
  the one of the queue. The threads of other parts are called without an effect on the queue.
\<close>

datatype wq_call = WAdd nat | WPlug | WUnplug | WTurn nat "fetch_env list"

fun wq_exec :: "wq_env \<Rightarrow> wq_call \<Rightarrow> wq_state \<Rightarrow> wq_state res" where
  "wq_exec env (WAdd d) s = work_queue_add env d s"
| "wq_exec env WPlug s = work_queue_plug s"
| "wq_exec env WUnplug s = work_queue_unplug env s"
| "wq_exec env (WTurn turns es) (wq, m, tr) =
     and_then (thread_fetch es m) (\<lambda>(m, r).
       case r of
         Fetched t \<Rightarrow> if th_func t = WORK_QUEUE_RUN \<and> th_arg t = wq_self wq then work_queue_run turns env t (wq, m, tr) else Inr (wq, m, tr)
       | _ \<Rightarrow> Inr (wq, m, tr))"

text \<open>Data pointers are not null, and signal handlers leave waiting threads alone.\<close>

fun allowed :: "wq_call \<Rightarrow> bool" where
  "allowed (WAdd d) \<longleftrightarrow> d \<noteq> 0"
| "allowed (WTurn turns es) \<longleftrightarrow> (\<forall>e \<in> set es. \<forall>x. calm x e)"
| "allowed c \<longleftrightarrow> True"

inductive wq_reach :: "wq_env \<Rightarrow> wq_state \<Rightarrow> bool" for env where
  start: "sched_ok m \<Longrightarrow> wq_reach env ((work_queue_new self)\<lparr>wq_has_errorfunc := e, wq_has_del := d, wq_has_completion := c,
     wq_max_retries := r, wq_hold := h\<rparr>, m, [])"
| call: "wq_reach env s \<Longrightarrow> allowed c \<Longrightarrow> wq_exec env c s = Inr s' \<Longrightarrow> wq_reach env s'"

lemma plug_ok: "wq_inv s \<Longrightarrow> \<exists>s'. work_queue_plug s = Inr s' \<and> wq_inv s' \<and> awake (fst s')"
proof -
  assume i: "wq_inv s"
  obtain wq m tr where s: "s = (wq, m, tr)" by (cases s)
  show ?thesis
  proof (cases "wq_thread wq")
    case None
    then show ?thesis using s i by (auto simp: work_queue_plug_def cancel_thread_def wq_inv_def awake_def)
  next
    case (Some x)
    have "sched_ok m" "x < m_brk m" using i s Some by (auto simp: wq_inv_def waiting_def)
    then obtain m' where "thread_cancel x m = Inr m'" "sched_ok m'" using thread_cancel_result unfolding sched_ok_def by metis
    then show ?thesis using s i Some by (auto simp: work_queue_plug_def cancel_thread_def wq_inv_def awake_def)
  qed
qed

lemma unplug_ok: "wq_inv s \<Longrightarrow> \<exists>s'. work_queue_unplug env s = Inr s' \<and> wq_inv s' \<and> awake (fst s')"
proof -
  assume i: "wq_inv s"
  obtain wq m tr where s: "s = (wq, m, tr)" by (cases s)
  have "wq_inv (wq\<lparr>wq_unplugged := True\<rparr>, m, tr)" using i s by (simp add: wq_inv_def)
  from schedule_ok [OF this, of env "wq_hold wq"] s show ?thesis by (auto simp: work_queue_unplug_def step_def)
qed

lemma run_ignores_thread: "work_queue_run turns env t (wq, m, tr) = work_queue_run turns env t (wq\<lparr>wq_thread := None\<rparr>, m, tr)"
  by (simp add: work_queue_run_def)

lemma turn_ok:
  assumes e: "env_ok env" and i: "wq_inv s" and a: "awake (fst s)" and es: "\<forall>e \<in> set es. \<forall>x. calm x e"
  shows "fine (\<lambda>s'. wq_inv s' \<and> awake (fst s')) (wq_exec env (WTurn turns es) s)"
proof -
  obtain wq m tr where s: "s = (wq, m, tr)" by (cases s)
  have m: "sched_ok m" using i s by (simp add: wq_inv_def)
  have "\<exists>m' r. thread_fetch es m = Inr (m', r) \<and> sched_ok m' \<and> (\<forall>x. wq_thread wq = Some x \<longrightarrow> waiting m' x WORK_QUEUE_RUN (wq_self wq) \<or>
      (\<exists>t. r = Fetched t \<and> th_func t = WORK_QUEUE_RUN \<and> th_arg t = wq_self wq))"
  proof (cases "wq_thread wq")
    case None
    then show ?thesis using fetch_loop_step [OF m, of es "Some zero_time"] es by (auto simp: thread_fetch_def calm_def)
  next
    case (Some x)
    have "waiting m x WORK_QUEUE_RUN (wq_self wq)" using i s Some by (simp add: wq_inv_def)
    then show ?thesis using fetch_loop_waits [OF m, of x WORK_QUEUE_RUN "wq_self wq" es "Some zero_time"] es Some
      by (auto simp: thread_fetch_def)
  qed
  then obtain m' r where f: "thread_fetch es m = Inr (m', r)" "sched_ok m'"
    "\<forall>x. wq_thread wq = Some x \<longrightarrow> waiting m' x WORK_QUEUE_RUN (wq_self wq) \<or>
      (\<exists>t. r = Fetched t \<and> th_func t = WORK_QUEUE_RUN \<and> th_arg t = wq_self wq)" by (elim exE conjE) simp
  show ?thesis
  proof (cases "\<exists>t. r = Fetched t \<and> th_func t = WORK_QUEUE_RUN \<and> th_arg t = wq_self wq")
    case True
    then obtain t where t: "r = Fetched t" "th_func t = WORK_QUEUE_RUN" "th_arg t = wq_self wq" by blast
    have "wq_inv (wq\<lparr>wq_thread := None\<rparr>, m', tr)" using i s f(2) by (simp add: wq_inv_def)
    from wq_run_ok [OF e this] show ?thesis using s t f(1) run_ignores_thread by simp
  next
    case False
    have "wq_exec env (WTurn turns es) s = Inr (wq, m', tr)" using s f(1) False by (auto split: fetched.splits)
    moreover have "wq_inv (wq, m', tr)" using i s f(2,3) False by (simp add: wq_inv_def)
    ultimately show ?thesis using a s by simp
  qed
qed

lemma wq_exec_ok:
  assumes "env_ok env" "wq_inv s" "awake (fst s)" "allowed c"
  shows "fine (\<lambda>s'. wq_inv s' \<and> awake (fst s')) (wq_exec env c s)"
proof (cases c)
  case (WAdd d)
  then show ?thesis using add_ok [OF assms(2), of d env] assms(4) by (intro fineI) (auto simp: step_def)
next
  case WPlug
  then show ?thesis using plug_ok [OF assms(2)] by (intro fineI) auto
next
  case WUnplug
  then show ?thesis using unplug_ok [OF assms(2)] by (intro fineI) auto
next
  case (WTurn turns es)
  then show ?thesis using turn_ok [OF assms(1-3)] assms(4) by simp
qed

lemma reach_inv:
  assumes "wq_reach env s" "env_ok env"
  shows "wq_inv s \<and> awake (fst s)"
  using assms
proof (induction rule: wq_reach.induct)
  case (start m self e d c r h)
  then show ?case by (simp add: wq_inv_def awake_def work_queue_new_def)
next
  case (call s c s')
  then show ?case using wq_exec_ok [of env s c] by simp
qed

text \<open>C20: Over every sequence of adds, plugs, unplugs and turns of the main loop of the scheduler, in which the work function may
  answer anything and add to its own queue: the items added so far are those in the queue and those freed, each once; a queue with items
  that is not plugged has its background thread waiting in the scheduler, so no wake-up is lost; and every further call returns
  without a failed assertion or bad pointer, a run of the queue perhaps not within its bound of turns.\<close>

theorem work_queue_no_item_lost:
  assumes "env_ok env" "wq_reach env (wq, m, tr)"
  shows "mset (map item_data (wq_items wq)) + items_freed tr = items_added tr \<and>
    (wq_unplugged wq \<and> wq_items wq \<noteq> [] \<longrightarrow> (\<exists>x. wq_thread wq = Some x \<and> waiting m x WORK_QUEUE_RUN (wq_self wq))) \<and>
    (\<forall>c. allowed c \<longrightarrow> (\<exists>s'. wq_exec env c (wq, m, tr) = Inr s') \<or> wq_exec env c (wq, m, tr) = Inl Diverged)"
proof -
  have i: "wq_inv (wq, m, tr)" "awake wq" using reach_inv [OF assms(2,1)] by auto
  have "(\<exists>s'. wq_exec env c (wq, m, tr) = Inr s') \<or> wq_exec env c (wq, m, tr) = Inl Diverged" if "allowed c" for c
    using wq_exec_ok [OF assms(1) i(1) _ that] i(2) by (cases "wq_exec env c (wq, m, tr)") auto
  then show ?thesis using i by (auto simp: wq_inv_def awake_def)
qed

text \<open>A queue whose function requeues its item once.\<close>

definition twice :: wq_env where
  "twice = \<lparr>we_work = (\<lambda>tr d. (if Worked d WQ_REQUEUE \<in> set tr then WQ_SUCCESS else WQ_REQUEUE, [])), we_clock = (\<lambda>tr. Monotonic None)\<rparr>"

lemma twice_ok: "env_ok twice"
  by (simp add: env_ok_def twice_def)

lemma twice_sample:
  "\<exists>wq m. wq_exec twice (WAdd 5) (work_queue_new 9, thread_master_create clock_init, []) = Inr (wq, m, [Added 5, Scheduled]) \<and>
     wq_reach twice (wq, m, [Added 5, Scheduled]) \<and> wq_items wq = [\<lparr>item_data = 5, item_ran = 0\<rparr>] \<and> same (work_queue_new 9) wq"
proof -
  have ok: "sched_ok (thread_master_create clock_init)" using sched_create by (auto simp: sched_ok_def)
  let ?s = "(work_queue_new 9, thread_master_create clock_init, [])"
  have r: "wq_reach twice ?s"
    using wq_reach.start [OF ok, where env = twice and self = 9 and e = False and d = False and c = False and r = 0 and h = 50]
    by (simp add: work_queue_new_def WORK_QUEUE_DEFAULT_HOLD_def)
  obtain wq m tr where s': "work_queue_add twice 5 ?s = Inr (wq, m, tr)" "step ?s (wq, m, tr)"
     "wq_items wq = [\<lparr>item_data = 5, item_ran = 0\<rparr>]"
    using add_ok [of ?s 5 twice] ok by (auto simp: wq_inv_def work_queue_new_def)
  have r': "wq_reach twice (wq, m, tr)" using wq_reach.call [OF r, of "WAdd 5"] s'(1) by simp
  have "tr = [Added 5, Scheduled]" using s'(1)
    by (auto simp: work_queue_add_def work_queue_schedule_def work_queue_new_def and_then_Inr_iff)
  then show ?thesis using r' s' by (auto simp: step_def)
qed

theorem work_queue_no_item_lost_witness:
  "\<exists>wq m tr. wq_exec twice (WAdd 5) (work_queue_new 9, thread_master_create clock_init, []) = Inr (wq, m, tr) \<and>
    wq_items wq \<noteq> [] \<and> wq_unplugged wq \<and> items_freed tr = {#} \<and> items_added tr = {#5#} \<and>
    (\<exists>x. wq_thread wq = Some x \<and> waiting m x WORK_QUEUE_RUN (wq_self wq))"
proof -
  obtain wq m where s: "wq_exec twice (WAdd 5) (work_queue_new 9, thread_master_create clock_init, []) = Inr (wq, m, [Added 5, Scheduled])"
    "wq_reach twice (wq, m, [Added 5, Scheduled])" "wq_items wq = [\<lparr>item_data = 5, item_ran = 0\<rparr>]" "same (work_queue_new 9) wq"
    using twice_sample by blast
  have "wq_unplugged wq" using sameD [OF s(4)] by (simp add: work_queue_new_def)
  then show ?thesis using work_queue_no_item_lost [OF twice_ok s(2)] s(1,3) by auto
qed

section \<open>Granularity\<close>

lemma adjust_grows:
  assumes "g = wq_granularity wq" "g \<noteq> 0" "unat c < 2 ^ 28" "y \<longrightarrow> c \<noteq> 0 \<and> c mod g = 0"
  shows "g \<le> wq_granularity (adjust y c wq)" "wq_granularity (adjust y c wq) = g \<or> wq_granularity (adjust y c wq) \<le> wq_best (adjust y c wq)"
proof -
  have m: "g \<le> c" if y
  proof -
    have "unat g dvd unat c" using assms(4) that by (simp add: unat_mod mod_eq_0_iff_dvd flip: unat_eq_zero)
    then show ?thesis using assms(4) that by (simp add: word_le_nat_alt dvd_imp_le unat_gt_0)
  qed
  have u: "unat (g * 4) = 4 * unat g" "unat (g + 4) = unat g + 4" "unat (g * 4 * 4) = 16 * unat g" if "g \<le> c"
    using that assms(3) by (simp_all add: unat_word_ariths word_le_nat_alt)
  have g0: "0 < unat g" using assms(2) by (simp add: unat_gt_0)
  show "g \<le> wq_granularity (adjust y c wq)"
    using m u assms(1) by (auto simp: adjust_def Let_def WQ_HYSTERESIS_FACTOR_def word_le_nat_alt word_less_nat_alt)
  show "wq_granularity (adjust y c wq) = g \<or> wq_granularity (adjust y c wq) \<le> wq_best (adjust y c wq)"
    using m u g0 unfolding assms(1) by (auto simp: adjust_def Let_def WQ_HYSTERESIS_FACTOR_def word_le_nat_alt word_less_nat_alt)
qed

text \<open>C24: A run never reduces the granularity of a work queue, also when it used up its time slot and yielded: it yields only after
  a multiple of the granularity, so the branch that would reduce it is never taken. And where a run
  raises the granularity, it does not pass the most cycles of any run.\<close>

theorem granularity_never_reduced:
  assumes "env_ok env" "wq_reach env s0" "turns < 2 ^ 28" "work_queue_run turns env t s0 = Inr s'"
  shows "wq_granularity (fst s0) \<le> wq_granularity (fst s') \<and>
    (wq_granularity (fst s') = max 1 (wq_granularity (fst s0)) \<or> wq_granularity (fst s') \<le> wq_best (fst s'))"
proof -
  obtain wq m tr where s0: "s0 = (wq, m, tr)" by (cases s0)
  define g where "g = (if wq_granularity wq = 0 then WORK_QUEUE_MIN_GRANULARITY else wq_granularity wq)"
  let ?s = "(wq\<lparr>wq_thread := None, wq_granularity := g\<rparr>, m, tr)"
  have i: "wq_inv ?s" using reach_inv [OF assms(2,1)] s0 by (simp add: wq_inv_def)
  have run: "and_then (run_loop turns env t 0 ?s) (run_stats env) = Inr s'" using assms(4) s0 by (simp add: work_queue_run_def Let_def g_def)
  then obtain s1 c y where l: "run_loop turns env t 0 ?s = Inr (s1, c, y)" "run_stats env (s1, c, y) = Inr s'" by (auto simp: and_then_Inr_iff)
  have r: "ran turns 0 ?s (s1, c, y)" using run_loop_ok [OF assms(1) i, of turns 0 t] l(1) by simp
  have s1: "wq_inv s1" "wq_granularity (fst s1) = g" "unat c \<le> turns" "y \<longrightarrow> c \<noteq> 0 \<and> c mod g = 0"
    using r assms(3) sameD by (auto simp: ran_def step_def counted_def)
  have g0: "g \<noteq> 0" by (simp add: g_def WORK_QUEUE_MIN_GRANULARITY_def)
  have f: "wq_granularity (fst s') = wq_granularity (adjust y c (fst s1))" "wq_best (fst s') = wq_best (adjust y c (fst s1))"
    using run_stats_ok [OF s1(1), of env c y] l(2) by auto
  have c: "unat c < 2 ^ 28" using s1(3) assms(3) by simp
  have "1 \<le> wq_granularity wq" if "wq_granularity wq \<noteq> 0" using that by (simp add: word_le_nat_alt Suc_le_eq unat_gt_0)
  then have "g = max 1 (wq_granularity wq)" "wq_granularity wq \<le> g" by (auto simp: g_def WORK_QUEUE_MIN_GRANULARITY_def max_def)
  then show ?thesis using adjust_grows [OF s1(2) [symmetric] g0 c s1(4)] f s0 by auto
qed

text \<open>The first run of the queue above, in which the function asks to requeue the item.\<close>

theorem granularity_never_reduced_witness:
  "\<exists>wq m tr s'. wq_exec twice (WAdd 5) (work_queue_new 9, thread_master_create clock_init, []) = Inr (wq, m, tr) \<and>
     work_queue_run 2 twice zero_thread (wq, m, tr) = Inr s' \<and> 1 \<le> wq_granularity (fst s')"
proof -
  obtain wq m where s: "wq_exec twice (WAdd 5) (work_queue_new 9, thread_master_create clock_init, []) = Inr (wq, m, [Added 5, Scheduled])"
    "wq_reach twice (wq, m, [Added 5, Scheduled])" "wq_items wq = [\<lparr>item_data = 5, item_ran = 0\<rparr>]" "same (work_queue_new 9) wq"
    using twice_sample by blast
  note q = sameD [OF s(4)]
  have q': "wq_granularity wq = 1" "wq_max_retries wq = 0" using q by (simp_all add: work_queue_new_def WORK_QUEUE_MIN_GRANULARITY_def)
  let ?s = "(wq\<lparr>wq_thread := None, wq_granularity := 1\<rparr>, m, [Added 5, Scheduled])"
  have i: "wq_inv ?s" using reach_inv [OF s(2) twice_ok] by (simp add: wq_inv_def)
  have "\<exists>r. run_loop 2 twice zero_thread 0 ?s = Inr r"
    using s(3) q' by (simp add: eval_nat_numeral twice_def call_workfunc_def ran_plus_def item_outcome_def
        work_queue_item_requeue_def should_yield_def thread_should_yield_def case_prod_unfold Let_def) blast
  then obtain r where r: "run_loop 2 twice zero_thread 0 ?s = Inr r" by blast
  obtain s1 c y where "r = (s1, c, y)" by (cases r) auto
  then obtain s' where "run_stats twice r = Inr s'" using run_loop_ok [OF twice_ok i, of 2 0 zero_thread] r run_stats_ok [of s1 twice c y]
    by (auto simp: ran_def step_def)
  then have "work_queue_run 2 twice zero_thread (wq, m, [Added 5, Scheduled]) = Inr s'" using r q' by (simp add: work_queue_run_def Let_def)
  moreover from this have "1 \<le> wq_granularity (fst s')" using granularity_never_reduced [OF twice_ok s(2), of 2 zero_thread s'] q' by simp
  ultimately show ?thesis using s(1) by blast
qed

end
