(* ===== verification/PrefixList.thy ===== *)
theory PrefixList
  imports Names
begin

text \<open>
  Prefix lists (\<^verbatim>\<open>lib/plist.c\<close>): ordered lists of entries that permit or deny prefixes. Every
  address family has a master with two lists of prefix lists, and the lists received by BGP as
  outbound route filters have one of their own. Names are unique in a master, so a pointer to a
  prefix list is its name, and a pointer to an entry, which the code only follows right after a
  search, is the first entry the search condition holds of.

  The sequence number of an entry is an \<open>int\<close>: the commands accept numbers up to 4294967295, and
  numbers above \<open>INT_MAX\<close> become negative, the last one becomes \<open>-1\<close>, which asks for an automatic
  number.
\<close>

section \<open>Data\<close>

datatype prefix_list_type = PREFIX_DENY | PREFIX_PERMIT

datatype prefix_name_type = PREFIX_TYPE_STRING | PREFIX_TYPE_NUMBER

datatype cmd_result = CMD_SUCCESS | CMD_WARNING

record prefix_list_entry =
  pe_seq :: int
  pe_le :: int
  pe_ge :: int
  pe_type :: prefix_list_type
  pe_any :: bool
  pe_prefix :: prefix
  pe_refcnt :: u64
  pe_hitcnt :: u64

record prefix_list =
  pl_name :: string
  pl_desc :: "string option"
  pl_type :: prefix_name_type
  pl_count :: int
  pl_entries :: "prefix_list_entry list"

text \<open>
  \<open>pm_hooks\<close> says whether the daemon has registered its hooks; the calls of the hooks are logged.
  \<open>pm_recent\<close> is the list changed last.
\<close>

datatype plist_hook = AddHook string | DeleteHook "string option"

record prefix_master =
  pm_num :: "prefix_list list"
  pm_str :: "prefix_list list"
  pm_seqnum :: bool
  pm_recent :: "string option"
  pm_hooks :: bool
  pm_log :: "plist_hook list"

record prefix_masters =
  prefix_master_ipv4 :: prefix_master
  prefix_master_ipv6 :: prefix_master
  prefix_master_orf :: prefix_master

definition AFI_ORF_PREFIX :: nat where "AFI_ORF_PREFIX = 65535"

definition prefix_master_get :: "nat \<Rightarrow> prefix_masters \<Rightarrow> prefix_master option" where
  "prefix_master_get afi ms =
     (if afi = AFI_IP then Some (prefix_master_ipv4 ms)
      else if afi = AFI_IP6 then Some (prefix_master_ipv6 ms)
      else if afi = AFI_ORF_PREFIX then Some (prefix_master_orf ms) else None)"

definition put_master :: "nat \<Rightarrow> prefix_master \<Rightarrow> prefix_masters \<Rightarrow> prefix_masters" where
  "put_master afi m ms =
     (if afi = AFI_IP then ms\<lparr>prefix_master_ipv4 := m\<rparr>
      else if afi = AFI_IP6 then ms\<lparr>prefix_master_ipv6 := m\<rparr>
      else if afi = AFI_ORF_PREFIX then ms\<lparr>prefix_master_orf := m\<rparr> else ms)"

definition run_hook :: "plist_hook \<Rightarrow> prefix_master \<Rightarrow> prefix_master" where
  "run_hook h m = (if pm_hooks m then m\<lparr>pm_log := pm_log m @ [h]\<rparr> else m)"

section \<open>Lists\<close>

abbreviation named :: "string \<Rightarrow> prefix_list \<Rightarrow> bool" where
  "named name \<equiv> (\<lambda>plist. strcmp (pl_name plist) name = 0)"

definition plist_lookup :: "prefix_master \<Rightarrow> string \<Rightarrow> prefix_list option" where
  "plist_lookup m name = (case List.find (named name) (pm_num m) of
     Some plist \<Rightarrow> Some plist | None \<Rightarrow> List.find (named name) (pm_str m))"

definition prefix_list_lookup :: "prefix_masters \<Rightarrow> nat \<Rightarrow> string option \<Rightarrow> prefix_list option" where
  "prefix_list_lookup ms afi name = (case name of
     None \<Rightarrow> None
   | Some n \<Rightarrow> (case prefix_master_get afi ms of None \<Rightarrow> None | Some m \<Rightarrow> plist_lookup m n))"

definition prefix_list_new :: prefix_list where
  "prefix_list_new = \<lparr>pl_name = [], pl_desc = None, pl_type = PREFIX_TYPE_STRING, pl_count = 0, pl_entries = []\<rparr>"

definition prefix_list_insert :: "prefix_master \<Rightarrow> string \<Rightarrow> (prefix_master \<times> prefix_list) res" where
  "prefix_list_insert m name =
     and_then (digits_loop 0 name) (\<lambda>(number, rest).
       if rest = []
       then let plist = prefix_list_new\<lparr>pl_name := name, pl_type := PREFIX_TYPE_NUMBER\<rparr>
            in Inr (m\<lparr>pm_num := insert_point (\<lambda>point. name_number (pl_name point) \<ge> number) plist (pm_num m)\<rparr>, plist)
       else let plist = prefix_list_new\<lparr>pl_name := name, pl_type := PREFIX_TYPE_STRING\<rparr>
            in Inr (m\<lparr>pm_str := insert_point (\<lambda>point. strcmp (pl_name point) name \<ge> 0) plist (pm_str m)\<rparr>, plist))"

definition prefix_list_get :: "prefix_master \<Rightarrow> string \<Rightarrow> (prefix_master \<times> prefix_list) res" where
  "prefix_list_get m name = (case plist_lookup m name of
     Some plist \<Rightarrow> Inr (m, plist) | None \<Rightarrow> prefix_list_insert m name)"

definition prefix_list_delete :: "prefix_list \<Rightarrow> prefix_master \<Rightarrow> prefix_master" where
  "prefix_list_delete plist m =
     (let m = (if pl_type plist = PREFIX_TYPE_NUMBER
               then m\<lparr>pm_num := remove_first (named (pl_name plist)) (pm_num m)\<rparr>
               else m\<lparr>pm_str := remove_first (named (pl_name plist)) (pm_str m)\<rparr>)
      in run_hook (DeleteHook None) (m\<lparr>pm_recent := None\<rparr>))"

text \<open>Writing through the pointer to a prefix list.\<close>

definition put_plist :: "prefix_list \<Rightarrow> prefix_master \<Rightarrow> prefix_master" where
  "put_plist plist m =
     (if pl_type plist = PREFIX_TYPE_NUMBER
      then m\<lparr>pm_num := update_first (named (pl_name plist)) (\<lambda>_. plist) (pm_num m)\<rparr>
      else m\<lparr>pm_str := update_first (named (pl_name plist)) (\<lambda>_. plist) (pm_str m)\<rparr>)"

section \<open>Entries\<close>

definition prefix_list_entry_make ::
    "prefix \<Rightarrow> prefix_list_type \<Rightarrow> int \<Rightarrow> int \<Rightarrow> int \<Rightarrow> bool \<Rightarrow> prefix_list_entry res" where
  "prefix_list_entry_make prefix type seq le ge any =
     and_then (prefix_copy prefix_new prefix) (\<lambda>p.
       Inr \<lparr>pe_seq = seq, pe_le = le, pe_ge = ge, pe_type = type, pe_any = any,
            pe_prefix = p, pe_refcnt = 0, pe_hitcnt = 0\<rparr>)"

fun maxseq_loop :: "int \<Rightarrow> prefix_list_entry list \<Rightarrow> int" where
  "maxseq_loop maxseq [] = maxseq"
| "maxseq_loop maxseq (e # es) = maxseq_loop (if maxseq < pe_seq e then pe_seq e else maxseq) es"

definition prefix_new_seq_get :: "prefix_list \<Rightarrow> int res" where
  "prefix_new_seq_get plist =
     (let newseq = maxseq_loop 0 (pl_entries plist) div 5 * 5 + 5
      in if newseq > INT_MAX then Inl IntOverflow else Inr newseq)"

definition prefix_seq_check :: "prefix_list \<Rightarrow> int \<Rightarrow> prefix_list_entry option" where
  "prefix_seq_check plist seq = List.find (\<lambda>e. pe_seq e = seq) (pl_entries plist)"

definition entry_wanted :: "prefix \<Rightarrow> prefix_list_type \<Rightarrow> int \<Rightarrow> int \<Rightarrow> int \<Rightarrow> prefix_list_entry \<Rightarrow> bool" where
  "entry_wanted p type seq le ge e \<longleftrightarrow>
     prefix_same (pe_prefix e) p \<and> pe_type e = type \<and> \<not> (seq \<ge> 0 \<and> pe_seq e \<noteq> seq) \<and> pe_le e = le \<and> pe_ge e = ge"

definition prefix_list_entry_lookup ::
    "prefix_list \<Rightarrow> prefix \<Rightarrow> prefix_list_type \<Rightarrow> int \<Rightarrow> int \<Rightarrow> int \<Rightarrow> prefix_list_entry option" where
  "prefix_list_entry_lookup plist p type seq le ge = List.find (entry_wanted p type seq le ge) (pl_entries plist)"

text \<open>Unlinking the first entry \<open>P\<close> holds of.\<close>

definition entry_unlink :: "(prefix_list_entry \<Rightarrow> bool) \<Rightarrow> prefix_list \<Rightarrow> prefix_list" where
  "entry_unlink P plist = plist\<lparr>pl_entries := remove_first P (pl_entries plist), pl_count := pl_count plist - 1\<rparr>"

text \<open>\<open>prefix_list_entry_delete\<close> with \<open>update_list\<close> set.\<close>

definition prefix_list_entry_delete :: "(prefix_list_entry \<Rightarrow> bool) \<Rightarrow> prefix_list \<Rightarrow> prefix_master \<Rightarrow> prefix_master" where
  "prefix_list_entry_delete P plist m =
     (let plist = entry_unlink P plist;
          m = run_hook (DeleteHook (Some (pl_name plist))) (put_plist plist m)
      in if pl_entries plist = [] \<and> pl_desc plist = None then prefix_list_delete plist m
         else m\<lparr>pm_recent := Some (pl_name plist)\<rparr>)"

definition prefix_list_entry_add :: "prefix_list_entry \<Rightarrow> prefix_list \<Rightarrow> prefix_master \<Rightarrow> prefix_master res" where
  "prefix_list_entry_add pentry plist m =
     and_then (if pe_seq pentry = -1 then prefix_new_seq_get plist else Inr (pe_seq pentry)) (\<lambda>seq.
       let pentry = pentry\<lparr>pe_seq := seq\<rparr>;
           plist = (case prefix_seq_check plist seq of
             None \<Rightarrow> plist | Some replace \<Rightarrow> entry_unlink (\<lambda>e. pe_seq e = seq) plist);
           plist = plist\<lparr>pl_entries := insert_point (\<lambda>point. pe_seq point \<ge> seq) pentry (pl_entries plist),
                         pl_count := pl_count plist + 1\<rparr>
       in Inr ((run_hook (AddHook (pl_name plist)) (put_plist plist m))\<lparr>pm_recent := Some (pl_name plist)\<rparr>))"

definition prefix_entry_dup_check :: "prefix_list \<Rightarrow> prefix_list_entry \<Rightarrow> prefix_list_entry option res" where
  "prefix_entry_dup_check plist new =
     and_then (if pe_seq new = -1 then prefix_new_seq_get plist else Inr (pe_seq new)) (\<lambda>seq.
       Inr (List.find (\<lambda>e. prefix_same (pe_prefix e) (pe_prefix new) \<and> pe_type e = pe_type new \<and>
              pe_le e = pe_le new \<and> pe_ge e = pe_ge new \<and> pe_seq e \<noteq> seq) (pl_entries plist)))"

section \<open>Matching\<close>

definition prefix_list_entry_match :: "prefix_list_entry \<Rightarrow> prefix \<Rightarrow> bool" where
  "prefix_list_entry_match pentry p =
     (if \<not> prefix_match (pe_prefix pentry) p then False
      else if pe_le pentry = 0 \<and> pe_ge pentry = 0 then prefixlen (pe_prefix pentry) = prefixlen p
      else \<not> (pe_le pentry \<noteq> 0 \<and> int (prefixlen p) > pe_le pentry) \<and>
           \<not> (pe_ge pentry \<noteq> 0 \<and> int (prefixlen p) < pe_ge pentry))"

fun apply_loop :: "prefix \<Rightarrow> prefix_list_entry list \<Rightarrow> prefix_list_type \<times> prefix_list_entry list" where
  "apply_loop p [] = (PREFIX_DENY, [])"
| "apply_loop p (e # es) =
     (let e = e\<lparr>pe_refcnt := pe_refcnt e + 1\<rparr>
      in if prefix_list_entry_match e p then (pe_type e, e\<lparr>pe_hitcnt := pe_hitcnt e + 1\<rparr> # es)
         else let (r, es) = apply_loop p es in (r, e # es))"

definition prefix_list_apply :: "prefix_list option \<Rightarrow> prefix \<Rightarrow> prefix_list_type \<times> prefix_list option" where
  "prefix_list_apply plist p = (case plist of
     None \<Rightarrow> (PREFIX_DENY, None)
   | Some pl \<Rightarrow>
       if pl_count pl = 0 then (PREFIX_PERMIT, Some pl)
       else let (r, es) = apply_loop p (pl_entries pl) in (r, Some (pl\<lparr>pl_entries := es\<rparr>)))"

section \<open>Commands\<close>

text \<open>Arguments of the commands are strings, a missing argument is \<open>None\<close>.\<close>

definition type_arg :: "string \<Rightarrow> prefix_list_type option" where
  "type_arg typestr =
     (if take 1 typestr = ''p'' then Some PREFIX_PERMIT
      else if take 1 typestr = ''d'' then Some PREFIX_DENY else None)"

definition num_arg :: "int \<Rightarrow> string option \<Rightarrow> int" where
  "num_arg d arg = (case arg of None \<Rightarrow> d | Some s \<Rightarrow> to_int (atoi s))"

text \<open>\<open>strncmp ("any", prefix, strlen (prefix)) == 0\<close>\<close>

definition is_any :: "string \<Rightarrow> bool" where
  "is_any s \<longleftrightarrow> take (length s) ''any'' = s"

text \<open>The prefix with the values of \<open>ge\<close>, \<open>le\<close> and \<open>any\<close>, or nothing when it is malformed. The commands pass one of the two
  families; for any other the code leaves the prefix uninitialised, the model has an empty one.\<close>

definition prefix_arg ::
    "(string \<Rightarrow> u32 option) \<Rightarrow> (string \<Rightarrow> u8 list option) \<Rightarrow> nat \<Rightarrow> string \<Rightarrow> int \<Rightarrow> int \<Rightarrow> (prefix \<times> int \<times> int \<times> bool) option" where
  "prefix_arg inet_aton inet_pton6 afi prefix genum lenum =
     (if afi = AFI_IP
      then let any = is_any prefix;
               (ret, p) = str2prefix_ipv4 inet_aton (if any then ''0.0.0.0/0'' else prefix) prefix_new
           in if ret \<le> 0 then None
              else Some (p, if any then 0 else genum, if any then int IPV4_MAX_BITLEN else lenum, any)
      else if afi = AFI_IP6
      then let any = is_any prefix;
               (ret, p) = str2prefix_ipv6 inet_pton6 (if any then ''::/0'' else prefix) prefix_new
           in if ret \<le> 0 then None
              else Some (p, if any then 0 else genum, if any then int IPV6_MAX_BITLEN else lenum, any)
      else Some (prefix_new, genum, lenum, False))"

definition bad_range :: "int \<Rightarrow> int \<Rightarrow> nat \<Rightarrow> bool" where
  "bad_range genum lenum plen \<longleftrightarrow>
     genum \<noteq> 0 \<and> genum \<le> int plen \<or> lenum \<noteq> 0 \<and> lenum \<le> int plen \<or> lenum \<noteq> 0 \<and> genum > lenum"

definition full_len :: "nat \<Rightarrow> int" where
  "full_len afi = (if afi = AFI_IP then 32 else 128)"

definition vty_prefix_list_install ::
    "(string \<Rightarrow> u32 option) \<Rightarrow> (string \<Rightarrow> u8 list option) \<Rightarrow> nat \<Rightarrow> string \<Rightarrow> string option \<Rightarrow> string \<Rightarrow> string \<Rightarrow>
     string option \<Rightarrow> string option \<Rightarrow> prefix_masters \<Rightarrow> (prefix_masters \<times> cmd_result) res" where
  "vty_prefix_list_install inet_aton inet_pton6 afi name seq typestr prefix ge le ms =
     (let seqnum = num_arg (-1) seq; genum = num_arg 0 ge; lenum = num_arg 0 le in
      case type_arg typestr of None \<Rightarrow> Inr (ms, CMD_WARNING) | Some type \<Rightarrow>
      case prefix_arg inet_aton inet_pton6 afi prefix genum lenum of None \<Rightarrow> Inr (ms, CMD_WARNING) | Some (p, genum, lenum, any) \<Rightarrow>
      if bad_range genum lenum (prefixlen p) then Inr (ms, CMD_WARNING)
      else let lenum = (if genum \<noteq> 0 \<and> lenum = full_len afi then 0 else lenum) in
      case prefix_master_get afi ms of None \<Rightarrow> Inl NullDeref | Some m \<Rightarrow>
      and_then (prefix_list_get m name) (\<lambda>(m, plist).
      and_then (prefix_list_entry_make p type seqnum lenum genum any) (\<lambda>pentry.
      and_then (prefix_entry_dup_check plist pentry) (\<lambda>dup.
        case dup of Some d \<Rightarrow> Inr (put_master afi m ms, CMD_WARNING)
        | None \<Rightarrow> and_then (prefix_list_entry_add pentry plist m) (\<lambda>m. Inr (put_master afi m ms, CMD_SUCCESS))))))"

definition vty_prefix_list_uninstall ::
    "(string \<Rightarrow> u32 option) \<Rightarrow> (string \<Rightarrow> u8 list option) \<Rightarrow> nat \<Rightarrow> string option \<Rightarrow> string option \<Rightarrow> string option \<Rightarrow>
     string option \<Rightarrow> string option \<Rightarrow> string option \<Rightarrow> prefix_masters \<Rightarrow> (prefix_masters \<times> cmd_result) res" where
  "vty_prefix_list_uninstall inet_aton inet_pton6 afi name seq typestr prefix ge le ms =
     (case prefix_list_lookup ms afi name of None \<Rightarrow> Inr (ms, CMD_WARNING) | Some plist \<Rightarrow>
      case prefix_master_get afi ms of None \<Rightarrow> Inl NullDeref | Some m \<Rightarrow>
      if seq = None \<and> typestr = None \<and> prefix = None \<and> ge = None \<and> le = None
      then Inr (put_master afi (prefix_list_delete plist m) ms, CMD_SUCCESS)
      else case (typestr, prefix) of
        (Some t, Some pfx) \<Rightarrow>
          (let seqnum = num_arg (-1) seq; genum = num_arg 0 ge; lenum = num_arg 0 le in
           case type_arg t of None \<Rightarrow> Inr (ms, CMD_WARNING) | Some type \<Rightarrow>
           case prefix_arg inet_aton inet_pton6 afi pfx genum lenum of None \<Rightarrow> Inr (ms, CMD_WARNING) | Some (p, genum, lenum, any) \<Rightarrow>
           case prefix_list_entry_lookup plist p type seqnum lenum genum of None \<Rightarrow> Inr (ms, CMD_WARNING) | Some e \<Rightarrow>
           Inr (put_master afi (prefix_list_entry_delete (entry_wanted p type seqnum lenum genum) plist m) ms, CMD_SUCCESS))
      | _ \<Rightarrow> Inr (ms, CMD_WARNING))"

definition prefix_list_description :: "nat \<Rightarrow> string \<Rightarrow> string \<Rightarrow> prefix_masters \<Rightarrow> (prefix_masters \<times> cmd_result) res" where
  "prefix_list_description afi name desc ms =
     (case prefix_master_get afi ms of None \<Rightarrow> Inl NullDeref | Some m \<Rightarrow>
      and_then (prefix_list_get m name) (\<lambda>(m, plist).
        Inr (put_master afi (put_plist (plist\<lparr>pl_desc := Some desc\<rparr>) m) ms, CMD_SUCCESS)))"

definition vty_prefix_list_desc_unset :: "nat \<Rightarrow> string option \<Rightarrow> prefix_masters \<Rightarrow> (prefix_masters \<times> cmd_result) res" where
  "vty_prefix_list_desc_unset afi name ms =
     (case prefix_list_lookup ms afi name of None \<Rightarrow> Inr (ms, CMD_WARNING) | Some plist \<Rightarrow>
      case prefix_master_get afi ms of None \<Rightarrow> Inl NullDeref | Some m \<Rightarrow>
      let plist = plist\<lparr>pl_desc := None\<rparr>; m = put_plist plist m
      in Inr (put_master afi (if pl_entries plist = [] then prefix_list_delete plist m else m) ms, CMD_SUCCESS))"

definition prefix_list_sequence_number :: "nat \<Rightarrow> bool \<Rightarrow> prefix_masters \<Rightarrow> (prefix_masters \<times> cmd_result) res" where
  "prefix_list_sequence_number afi on ms =
     (case prefix_master_get afi ms of None \<Rightarrow> Inl NullDeref | Some m \<Rightarrow>
      Inr (put_master afi (m\<lparr>pm_seqnum := on\<rparr>) ms, CMD_SUCCESS))"

definition clear_hits :: "(prefix_list_entry \<Rightarrow> bool) \<Rightarrow> prefix_list \<Rightarrow> prefix_list" where
  "clear_hits P plist = plist\<lparr>pl_entries := map (\<lambda>e. if P e then e\<lparr>pe_hitcnt := 0\<rparr> else e) (pl_entries plist)\<rparr>"

definition vty_clear_prefix_list ::
    "(string \<Rightarrow> u32 option) \<Rightarrow> (string \<Rightarrow> u8 list option) \<Rightarrow> nat \<Rightarrow> string option \<Rightarrow> string option \<Rightarrow> prefix_masters \<Rightarrow>
     (prefix_masters \<times> cmd_result) res" where
  "vty_clear_prefix_list inet_aton inet_pton6 afi name prefix ms =
     (case prefix_master_get afi ms of None \<Rightarrow> Inr (ms, CMD_WARNING) | Some m \<Rightarrow>
      if name = None \<and> prefix = None
      then Inr (put_master afi (m\<lparr>pm_num := map (clear_hits (\<lambda>_. True)) (pm_num m),
                                  pm_str := map (clear_hits (\<lambda>_. True)) (pm_str m)\<rparr>) ms, CMD_SUCCESS)
      else case prefix_list_lookup ms afi name of None \<Rightarrow> Inr (ms, CMD_WARNING) | Some plist \<Rightarrow>
      case prefix of
        None \<Rightarrow> Inr (put_master afi (put_plist (clear_hits (\<lambda>_. True) plist) m) ms, CMD_SUCCESS)
      | Some s \<Rightarrow>
          (let (ret, p) = str2prefix inet_aton inet_pton6 s prefix_new
           in if ret \<le> 0 then Inr (ms, CMD_WARNING)
              else Inr (put_master afi (put_plist (clear_hits (\<lambda>e. prefix_match (pe_prefix e) p) plist) m) ms, CMD_SUCCESS)))"

section \<open>Outbound route filters\<close>

record orf_prefix =
  orf_seq :: u32
  orf_ge :: u8
  orf_le :: u8
  orf_p :: prefix

text \<open>The range of an entry is checked as in the command; a sequence number becomes an \<open>int\<close>.\<close>

definition prefix_bgp_orf_set :: "string \<Rightarrow> nat \<Rightarrow> orf_prefix \<Rightarrow> bool \<Rightarrow> bool \<Rightarrow> prefix_masters \<Rightarrow> (prefix_masters \<times> cmd_result) res" where
  "prefix_bgp_orf_set name afi orfp permit on ms =
     (let genum = uint (orf_ge orfp); lenum = uint (orf_le orfp); p = orf_p orfp in
      if bad_range genum lenum (prefixlen p) then Inr (ms, CMD_WARNING)
      else let lenum = (if genum \<noteq> 0 \<and> lenum = full_len afi then 0 else lenum);
               seq = to_int (uint (orf_seq orfp));
               type = (if permit then PREFIX_PERMIT else PREFIX_DENY) in
      and_then (prefix_list_get (prefix_master_orf ms) name) (\<lambda>(m, plist).
        if on
        then and_then (prefix_list_entry_make p type seq lenum genum False) (\<lambda>pentry.
             and_then (prefix_entry_dup_check plist pentry) (\<lambda>dup.
               case dup of Some d \<Rightarrow> Inr (ms\<lparr>prefix_master_orf := m\<rparr>, CMD_WARNING)
               | None \<Rightarrow> and_then (prefix_list_entry_add pentry plist m) (\<lambda>m. Inr (ms\<lparr>prefix_master_orf := m\<rparr>, CMD_SUCCESS))))
        else case prefix_list_entry_lookup plist p type seq lenum genum of
            None \<Rightarrow> Inr (ms\<lparr>prefix_master_orf := m\<rparr>, CMD_WARNING)
          | Some e \<Rightarrow> Inr (ms\<lparr>prefix_master_orf := prefix_list_entry_delete (entry_wanted p type seq lenum genum) plist m\<rparr>, CMD_SUCCESS)))"

definition prefix_bgp_orf_remove_all :: "string \<Rightarrow> prefix_masters \<Rightarrow> prefix_masters" where
  "prefix_bgp_orf_remove_all name ms =
     (case prefix_list_lookup ms AFI_ORF_PREFIX (Some name) of
        None \<Rightarrow> ms | Some plist \<Rightarrow> ms\<lparr>prefix_master_orf := prefix_list_delete plist (prefix_master_orf ms)\<rparr>)"

text \<open>Deleting all lists of a master, with the assertions that follow.\<close>

definition master_reset :: "prefix_master \<Rightarrow> prefix_master res" where
  "master_reset m =
     (let m = fold prefix_list_delete (pm_num m) m; m = fold prefix_list_delete (pm_str m) m
      in and_then (ensure (pm_num m = [] \<and> pm_str m = [])) (\<lambda>_. Inr (m\<lparr>pm_seqnum := True, pm_recent := None\<rparr>)))"

definition prefix_list_reset :: "prefix_masters \<Rightarrow> prefix_masters res" where
  "prefix_list_reset ms =
     and_then (master_reset (prefix_master_ipv4 ms)) (\<lambda>m4.
     and_then (master_reset (prefix_master_ipv6 ms)) (\<lambda>m6.
     and_then (master_reset (prefix_master_orf ms)) (\<lambda>mo.
       Inr \<lparr>prefix_master_ipv4 = m4, prefix_master_ipv6 = m6, prefix_master_orf = mo\<rparr>)))"

end
