(* ===== verification/PrefixListProps.thy ===== *)
theory PrefixListProps
  imports PrefixList
begin

text \<open>
  What the prefix lists promise. The entries of a list are ordered by sequence number, with one
  entry per number, and counted; names are unique and both lists of a master are ordered. Every
  command keeps this, and the first entry in the order that matches decides.
\<close>

section \<open>Invariant\<close>

definition plist_ok :: "prefix_list \<Rightarrow> bool" where
  "plist_ok pl \<longleftrightarrow> sorted_wrt (<) (map pe_seq (pl_entries pl)) \<and> pl_count pl = int (length (pl_entries pl)) \<and>
     (\<forall>e \<in> set (pl_entries pl). pe_seq e \<le> INT_MAX)"

definition master_ok :: "prefix_master \<Rightarrow> bool" where
  "master_ok m \<longleftrightarrow>
     (\<forall>pl \<in> set (pm_num m). plist_ok pl \<and> pl_type pl = PREFIX_TYPE_NUMBER \<and> all_digit (pl_name pl)) \<and>
     (\<forall>pl \<in> set (pm_str m). plist_ok pl \<and> pl_type pl = PREFIX_TYPE_STRING \<and> \<not> all_digit (pl_name pl)) \<and>
     distinct (map pl_name (pm_num m)) \<and>
     sorted_wrt (\<lambda>a b. name_number a \<le> name_number b) (map pl_name (pm_num m)) \<and>
     sorted_wrt (\<lambda>a b. strcmp a b < 0) (map pl_name (pm_str m))"

definition masters_ok :: "prefix_masters \<Rightarrow> bool" where
  "masters_ok ms \<longleftrightarrow> master_ok (prefix_master_ipv4 ms) \<and> master_ok (prefix_master_ipv6 ms) \<and> master_ok (prefix_master_orf ms)"

lemma run_hook_simps [simp]:
  "pm_num (run_hook h m) = pm_num m" "pm_str (run_hook h m) = pm_str m"
  by (simp_all add: run_hook_def)

lemma master_ok_cong:
  assumes "pm_num m' = pm_num m" "pm_str m' = pm_str m"
  shows "master_ok m' \<longleftrightarrow> master_ok m"
  using assms by (simp add: master_ok_def)

lemma master_okD:
  assumes "master_ok m"
  shows "pl \<in> set (pm_num m) \<Longrightarrow> plist_ok pl" "pl \<in> set (pm_num m) \<Longrightarrow> pl_type pl = PREFIX_TYPE_NUMBER"
    "pl \<in> set (pm_str m) \<Longrightarrow> plist_ok pl" "pl \<in> set (pm_str m) \<Longrightarrow> pl_type pl = PREFIX_TYPE_STRING"
    "pl \<in> set (pm_num m) \<Longrightarrow> all_digit (pl_name pl)" "pl \<in> set (pm_str m) \<Longrightarrow> \<not> all_digit (pl_name pl)"
  using assms by (simp_all add: master_ok_def)

lemma plist_lookup_in:
  assumes "plist_lookup m name = Some pl"
  shows "pl_name pl = name" "pl \<in> set (pm_num m) \<union> set (pm_str m)"
  using assms by (auto simp: plist_lookup_def find_Some_iff in_set_conv_nth split: option.splits)

lemma plist_lookup_None:
  assumes "plist_lookup m name = None" "pl \<in> set (pm_num m) \<union> set (pm_str m)"
  shows "pl_name pl \<noteq> name"
  using assms by (auto simp: plist_lookup_def find_None_iff split: option.splits)

lemma put_plist_ok:
  assumes m: "master_ok m" and look: "plist_lookup m name = Some pl0"
    and pl: "pl_name pl = pl_name pl0" "pl_type pl = pl_type pl0" "plist_ok pl"
  shows "master_ok (put_plist pl m)"
proof -
  note in0 = plist_lookup_in [OF look]
  have n: "map pl_name (update_first (named (pl_name pl)) (\<lambda>_. pl) ls) = map pl_name ls" for ls
    by (rule map_update_first) simp
  have s: "set (update_first (named (pl_name pl)) (\<lambda>_. pl) ls) \<subseteq> insert pl (set ls)" for ls
    using set_update_first [of "named (pl_name pl)" "\<lambda>_. pl" ls] by auto
  show ?thesis
  proof (cases "pl_type pl = PREFIX_TYPE_NUMBER")
    case True
    then have "pl0 \<in> set (pm_num m)" using in0(2) pl(2) master_okD(4) [OF m] by auto
    then have "all_digit (pl_name pl)" using master_okD(5) [OF m] pl(1) by metis
    then show ?thesis using m True pl(3) n [of "pm_num m"] s [of "pm_num m"] by (auto simp: master_ok_def put_plist_def)
  next
    case False
    then have "pl0 \<in> set (pm_str m)" using in0(2) pl(2) master_okD(2) [OF m] by auto
    then have "\<not> all_digit (pl_name pl)" "pl_type pl = PREFIX_TYPE_STRING"
      using master_okD(6,4) [OF m] pl(1,2) by metis+
    then show ?thesis using m False pl(3) n [of "pm_str m"] s [of "pm_str m"] by (auto simp: master_ok_def put_plist_def)
  qed
qed

lemma prefix_list_delete_ok:
  assumes "master_ok m"
  shows "master_ok (prefix_list_delete pl m)"
proof -
  have n: "map pl_name (remove_first (named (pl_name pl)) ls) = remove_first (\<lambda>n. strcmp n (pl_name pl) = 0) (map pl_name ls)" for ls
    by (rule map_remove_first) simp
  have "set (remove_first (named (pl_name pl)) ls) \<subseteq> set ls" for ls by (rule set_remove_first)
  note s = subsetD [OF this]
  show ?thesis
    using assms unfolding prefix_list_delete_def Let_def
    by (auto simp: master_ok_def n intro!: sorted_remove_first distinct_remove_first dest!: s simp del: strcmp_eq_0)
qed

lemma all_digit_loop:
  assumes "digits_loop n s = Inr (v, rest)"
  shows "rest = [] \<longleftrightarrow> all_digit s"
  using assms by (induction n s rule: digits_loop.induct) (auto simp: all_digit_def Let_def split: if_splits)

lemma prefix_list_insert_ok:
  assumes m: "master_ok m" and new: "plist_lookup m name = None" and ins: "prefix_list_insert m name = Inr (m', pl)"
  shows "master_ok m'" "plist_lookup m' name = Some pl" "pl_name pl = name" "pl_entries pl = []" "plist_ok pl"
proof -
  from ins obtain number rest where d: "digits_loop 0 name = Inr (number, rest)"
    by (auto simp: prefix_list_insert_def and_then_Inr_iff)
  have fresh: "pl_name y \<noteq> name" if "y \<in> set (pm_num m) \<union> set (pm_str m)" for y
    using plist_lookup_None [OF new that] .
  have "master_ok m' \<and> plist_lookup m' name = Some pl \<and> pl_name pl = name \<and> pl_entries pl = [] \<and> plist_ok pl"
  proof (cases "rest = []")
    case True
    then have v: "number = name_number name" "all_digit name"
      using digits_loop_value d all_digit_loop [OF d] by (auto simp: name_number_def)
    define new where "new = prefix_list_new\<lparr>pl_name := name, pl_type := PREFIX_TYPE_NUMBER\<rparr>"
    have m': "m' = m\<lparr>pm_num := insert_point (\<lambda>p. number \<le> name_number (pl_name p)) new (pm_num m)\<rparr>" "pl = new"
      using ins d True by (auto simp: prefix_list_insert_def new_def Let_def)
    have new_ok: "plist_ok new" "pl_name new = name" "pl_type new = PREFIX_TYPE_NUMBER" "pl_entries new = []"
      by (auto simp: new_def prefix_list_new_def plist_ok_def)
    have num: "pm_num m' = insert_point (\<lambda>p. number \<le> name_number (pl_name p)) new (pm_num m)" using m' by simp
    have "sorted_wrt (\<lambda>a b. name_number (pl_name a) \<le> name_number (pl_name b)) (pm_num m)"
      using m by (simp add: master_ok_def sorted_wrt_map)
    then have "sorted_wrt (\<lambda>a b. name_number (pl_name a) \<le> name_number (pl_name b)) (pm_num m')"
      unfolding num by (rule sorted_insert_point) (simp_all add: v new_ok)
    moreover have "distinct (map pl_name (pm_num m'))"
    proof -
      from insert_point_decomp obtain us vs where
        uv: "pm_num m = us @ vs" "insert_point (\<lambda>p. number \<le> name_number (pl_name p)) new (pm_num m) = us @ new # vs" by metis
      have "distinct (map pl_name (us @ vs))" "name \<notin> pl_name ` set (us @ vs)"
        using m fresh uv(1) by (auto simp: master_ok_def)
      then show ?thesis using uv new_ok(2) by (auto simp: m')
    qed
    ultimately have "master_ok m'"
      using m m' new_ok v(2) by (auto simp: master_ok_def sorted_wrt_map)
    moreover have "List.find (named name) (pm_num m') = Some new"
      unfolding num using new_ok(2) fresh by (subst find_insert_point) auto
    ultimately show ?thesis using new_ok m'(2) by (simp add: plist_lookup_def)
  next
    case False
    then have v: "\<not> all_digit name" using all_digit_loop [OF d] by simp
    define new where "new = prefix_list_new\<lparr>pl_name := name, pl_type := PREFIX_TYPE_STRING\<rparr>"
    have m': "m' = m\<lparr>pm_str := insert_point (\<lambda>p. 0 \<le> strcmp (pl_name p) name) new (pm_str m)\<rparr>" "pl = new"
      using ins d False by (auto simp: prefix_list_insert_def new_def Let_def)
    have new_ok: "plist_ok new" "pl_name new = name" "pl_type new = PREFIX_TYPE_STRING" "pl_entries new = []"
      by (auto simp: new_def prefix_list_new_def plist_ok_def)
    have str: "pm_str m' = insert_point (\<lambda>p. 0 \<le> strcmp (pl_name p) name) new (pm_str m)" using m' by simp
    have "sorted_wrt (\<lambda>a b. strcmp (pl_name a) (pl_name b) < 0) (pm_str m')"
      unfolding str
    proof (rule sorted_insert_point)
      show "sorted_wrt (\<lambda>a b. strcmp (pl_name a) (pl_name b) < 0) (pm_str m)" using m by (simp add: master_ok_def sorted_wrt_map)
      show "strcmp (pl_name new) (pl_name y) < 0" if "y \<in> set (pm_str m)" "0 \<le> strcmp (pl_name y) name" for y
        using that fresh [of y] new_ok(2) strcmp_flip [of name "pl_name y"] by (cases "strcmp (pl_name y) name = 0") auto
      show "strcmp (pl_name y) (pl_name new) < 0" if "\<not> 0 \<le> strcmp (pl_name y) name" for y using that new_ok(2) by simp
    qed (rule strcmp_trans)
    then have "master_ok m'" using m m' new_ok v by (auto simp: master_ok_def sorted_wrt_map)
    moreover have "List.find (named name) (pm_num m') = None" using fresh m' by (auto simp: find_None_iff)
    moreover have "List.find (named name) (pm_str m') = Some new"
      unfolding str using new_ok(2) fresh by (subst find_insert_point) auto
    ultimately show ?thesis using new_ok m'(2) by (simp add: plist_lookup_def)
  qed
  then show "master_ok m'" "plist_lookup m' name = Some pl" "pl_name pl = name" "pl_entries pl = []" "plist_ok pl" by blast+
qed

lemma prefix_list_get_ok:
  assumes "master_ok m" "prefix_list_get m name = Inr (m', pl)"
  shows "master_ok m'" "plist_lookup m' name = Some pl" "plist_ok pl"
proof -
  have "master_ok m' \<and> plist_lookup m' name = Some pl \<and> plist_ok pl"
  proof (cases "plist_lookup m name")
    case None
    with assms prefix_list_insert_ok [OF assms(1) None] show ?thesis by (simp add: prefix_list_get_def)
  next
    case (Some p)
    with assms plist_lookup_in(2) [OF Some] master_okD(1,3) [OF assms(1)] show ?thesis by (auto simp: prefix_list_get_def)
  qed
  then show "master_ok m'" "plist_lookup m' name = Some pl" "plist_ok pl" by blast+
qed

section \<open>Entries\<close>

lemma entry_unlink_simps [simp]:
  "pl_name (entry_unlink P pl) = pl_name pl" "pl_type (entry_unlink P pl) = pl_type pl" "pl_desc (entry_unlink P pl) = pl_desc pl"
  by (simp_all add: entry_unlink_def)

lemma entry_unlink_ok:
  assumes "plist_ok pl" "List.find P (pl_entries pl) = Some e"
  shows "plist_ok (entry_unlink P pl)"
proof -
  have "sorted_wrt (\<lambda>a b. pe_seq a < pe_seq b) (remove_first P (pl_entries pl))"
    using assms(1) by (intro sorted_remove_first) (simp add: plist_ok_def sorted_wrt_map)
  moreover have "int (length (remove_first P (pl_entries pl))) = pl_count pl - 1"
    using assms(1) length_remove_first [OF assms(2)] by (simp add: plist_ok_def)
  moreover have "set (remove_first P (pl_entries pl)) \<subseteq> set (pl_entries pl)" by (rule set_remove_first)
  ultimately show ?thesis using assms(1) by (auto simp: plist_ok_def entry_unlink_def sorted_wrt_map)
qed

lemma prefix_list_entry_delete_ok:
  assumes "master_ok m" "plist_lookup m name = Some pl" "List.find P (pl_entries pl) = Some e"
  shows "master_ok (prefix_list_entry_delete P pl m)"
proof -
  have "plist_ok pl" using plist_lookup_in(2) [OF assms(2)] master_okD(1,3) [OF assms(1)] by auto
  then have "master_ok (put_plist (entry_unlink P pl) m)"
    using entry_unlink_ok [OF _ assms(3)] by (intro put_plist_ok [OF assms(1,2)]) simp_all
  then have h: "master_ok (run_hook h (put_plist (entry_unlink P pl) m))" for h by (subst master_ok_cong) simp_all
  have "master_ok (x\<lparr>pm_recent := r\<rparr>) = master_ok x" for x r by (rule master_ok_cong) simp_all
  then show ?thesis
    using h prefix_list_delete_ok [OF h] unfolding prefix_list_entry_delete_def Let_def by presburger
qed

lemma maxseq_loop_ge: "n \<le> maxseq_loop n es \<and> (\<forall>e \<in> set es. pe_seq e \<le> maxseq_loop n es)"
proof (induction es arbitrary: n)
  case (Cons e es)
  show ?case using Cons [of "pe_seq e"] Cons [of n] by fastforce
qed simp

lemma new_seq_bounds:
  assumes "prefix_new_seq_get pl = Inr seq"
  shows "0 < seq" "seq \<le> INT_MAX" "\<forall>e \<in> set (pl_entries pl). pe_seq e < seq"
proof -
  let ?m = "maxseq_loop 0 (pl_entries pl)"
  have s: "seq = ?m div 5 * 5 + 5" "seq \<le> INT_MAX" using assms by (auto simp: prefix_new_seq_get_def Let_def split: if_splits)
  have m: "0 \<le> ?m" "\<forall>e \<in> set (pl_entries pl). pe_seq e \<le> ?m" using maxseq_loop_ge [of 0] by auto
  have "?m < seq" unfolding s(1) by presburger
  then show "0 < seq" "seq \<le> INT_MAX" "\<forall>e \<in> set (pl_entries pl). pe_seq e < seq" using m s(2) by auto
qed

text \<open>The list after an entry with number \<open>seq\<close> was put into it.\<close>

definition entry_put :: "prefix_list_entry \<Rightarrow> prefix_list \<Rightarrow> prefix_list" where
  "entry_put e pl =
     (let pl = (case prefix_seq_check pl (pe_seq e) of None \<Rightarrow> pl | Some r \<Rightarrow> entry_unlink (\<lambda>x. pe_seq x = pe_seq e) pl)
      in pl\<lparr>pl_entries := insert_point (\<lambda>x. pe_seq x \<ge> pe_seq e) e (pl_entries pl), pl_count := pl_count pl + 1\<rparr>)"

lemma remove_first_all:
  assumes "sorted_wrt (\<lambda>a b. pe_seq a < pe_seq b) es"
  shows "remove_first (\<lambda>x. pe_seq x = n) es = filter (\<lambda>x. pe_seq x \<noteq> n) es"
  using assms
proof (induction es)
  case (Cons e es)
  show ?case
  proof (cases "pe_seq e = n")
    case True
    with Cons.prems have "filter (\<lambda>x. pe_seq x \<noteq> n) es = es" by (intro filter_True) auto
    with True show ?thesis by simp
  next
    case False
    with Cons show ?thesis by simp
  qed
qed simp

lemma entry_put_eq:
  assumes "plist_ok pl"
  shows "entry_put e pl = pl\<lparr>pl_entries := insert_point (\<lambda>x. pe_seq x \<ge> pe_seq e) e (filter (\<lambda>x. pe_seq x \<noteq> pe_seq e) (pl_entries pl)),
     pl_count := 1 + int (length (filter (\<lambda>x. pe_seq x \<noteq> pe_seq e) (pl_entries pl)))\<rparr>"
proof -
  have rf: "remove_first (\<lambda>x. pe_seq x = pe_seq e) (pl_entries pl) = filter (\<lambda>x. pe_seq x \<noteq> pe_seq e) (pl_entries pl)"
    using assms by (intro remove_first_all) (simp add: plist_ok_def sorted_wrt_map)
  show ?thesis
  proof (cases "prefix_seq_check pl (pe_seq e)")
    case None
    then have "filter (\<lambda>x. pe_seq x \<noteq> pe_seq e) (pl_entries pl) = pl_entries pl"
      by (intro filter_True) (simp add: prefix_seq_check_def find_None_iff)
    with None assms show ?thesis by (simp add: entry_put_def plist_ok_def)
  next
    case (Some r)
    with length_remove_first [of "\<lambda>x. pe_seq x = pe_seq e" "pl_entries pl" r] assms rf show ?thesis
      by (simp add: entry_put_def entry_unlink_def plist_ok_def prefix_seq_check_def)
  qed
qed

lemma entry_put_ok:
  assumes "plist_ok pl" "pe_seq e \<le> INT_MAX"
  shows "plist_ok (entry_put e pl)"
proof -
  let ?es = "filter (\<lambda>x. pe_seq x \<noteq> pe_seq e) (pl_entries pl)"
  have "sorted_wrt (\<lambda>a b. pe_seq a < pe_seq b) (insert_point (\<lambda>x. pe_seq x \<ge> pe_seq e) e ?es)"
    using assms(1) by (intro sorted_insert_point) (auto simp: plist_ok_def sorted_wrt_map sorted_wrt_filter)
  then show ?thesis using assms by (auto simp: entry_put_eq [OF assms(1)] plist_ok_def sorted_wrt_map)
qed

lemma entry_put_simps [simp]:
  "pl_name (entry_put e pl) = pl_name pl" "pl_type (entry_put e pl) = pl_type pl" "pl_desc (entry_put e pl) = pl_desc pl"
  by (auto simp: entry_put_def Let_def split: option.splits)

lemma prefix_list_entry_add_eq:
  "prefix_list_entry_add e pl m =
     and_then (if pe_seq e = -1 then prefix_new_seq_get pl else Inr (pe_seq e)) (\<lambda>seq.
       Inr ((run_hook (AddHook (pl_name pl)) (put_plist (entry_put (e\<lparr>pe_seq := seq\<rparr>) pl) m))\<lparr>pm_recent := Some (pl_name pl)\<rparr>))"
  by (auto simp: prefix_list_entry_add_def entry_put_def Let_def fun_eq_iff intro!: and_then_cong split: option.splits)

lemma prefix_list_entry_add_ok:
  assumes m: "master_ok m" "plist_lookup m name = Some pl" and e: "pe_seq e \<le> INT_MAX"
    and add: "prefix_list_entry_add e pl m = Inr m'"
  shows "master_ok m'"
proof -
  have pl: "plist_ok pl" using plist_lookup_in(2) [OF m(2)] master_okD(1,3) [OF m(1)] by auto
  from add obtain seq where seq: "(if pe_seq e = -1 then prefix_new_seq_get pl else Inr (pe_seq e)) = Inr seq"
    and m': "m' = (run_hook (AddHook (pl_name pl)) (put_plist (entry_put (e\<lparr>pe_seq := seq\<rparr>) pl) m))\<lparr>pm_recent := Some (pl_name pl)\<rparr>"
    by (auto simp: prefix_list_entry_add_eq and_then_Inr_iff)
  have "seq \<le> INT_MAX" using seq e new_seq_bounds(2) by (auto split: if_splits)
  then have "master_ok (put_plist (entry_put (e\<lparr>pe_seq := seq\<rparr>) pl) m)"
    using entry_put_ok [OF pl] by (intro put_plist_ok [OF m]) simp_all
  then show ?thesis unfolding m' by (subst master_ok_cong [where m = "put_plist (entry_put (e\<lparr>pe_seq := seq\<rparr>) pl) m"]) simp_all
qed

section \<open>Commands\<close>

text \<open>The calls the daemons and the commands make, in any order.\<close>

datatype plist_call =
    Install nat string "string option" string string "string option" "string option"
  | Uninstall nat "string option" "string option" "string option" "string option" "string option" "string option"
  | Describe nat string string
  | Undescribe nat "string option"
  | SequenceNumber nat bool
  | ClearHits nat "string option" "string option"
  | OrfSet string nat orf_prefix bool bool
  | OrfRemoveAll string
  | ResetAll
  | Apply nat "string option" prefix

definition apply_named :: "nat \<Rightarrow> string option \<Rightarrow> prefix \<Rightarrow> prefix_masters \<Rightarrow> prefix_masters" where
  "apply_named afi name p ms = (case prefix_list_apply (prefix_list_lookup ms afi name) p of
     (r, None) \<Rightarrow> ms
   | (r, Some pl) \<Rightarrow> (case prefix_master_get afi ms of None \<Rightarrow> ms | Some m \<Rightarrow> put_master afi (put_plist pl m) ms))"

fun plist_exec :: "(string \<Rightarrow> u32 option) \<Rightarrow> (string \<Rightarrow> u8 list option) \<Rightarrow> plist_call \<Rightarrow> prefix_masters \<Rightarrow> prefix_masters res" where
  "plist_exec a4 a6 (Install afi n s t p g l) ms = and_then (vty_prefix_list_install a4 a6 afi n s t p g l ms) (Inr \<circ> fst)"
| "plist_exec a4 a6 (Uninstall afi n s t p g l) ms = and_then (vty_prefix_list_uninstall a4 a6 afi n s t p g l ms) (Inr \<circ> fst)"
| "plist_exec a4 a6 (Describe afi n d) ms = and_then (prefix_list_description afi n d ms) (Inr \<circ> fst)"
| "plist_exec a4 a6 (Undescribe afi n) ms = and_then (vty_prefix_list_desc_unset afi n ms) (Inr \<circ> fst)"
| "plist_exec a4 a6 (SequenceNumber afi b) ms = and_then (prefix_list_sequence_number afi b ms) (Inr \<circ> fst)"
| "plist_exec a4 a6 (ClearHits afi n p) ms = and_then (vty_clear_prefix_list a4 a6 afi n p ms) (Inr \<circ> fst)"
| "plist_exec a4 a6 (OrfSet n afi p b on) ms = and_then (prefix_bgp_orf_set n afi p b on ms) (Inr \<circ> fst)"
| "plist_exec a4 a6 (OrfRemoveAll n) ms = Inr (prefix_bgp_orf_remove_all n ms)"
| "plist_exec a4 a6 ResetAll ms = prefix_list_reset ms"
| "plist_exec a4 a6 (Apply afi n p) ms = Inr (apply_named afi n p ms)"

fun plist_run :: "(string \<Rightarrow> u32 option) \<Rightarrow> (string \<Rightarrow> u8 list option) \<Rightarrow> plist_call list \<Rightarrow> prefix_masters \<Rightarrow> prefix_masters res" where
  "plist_run a4 a6 [] ms = Inr ms"
| "plist_run a4 a6 (c # cs) ms = and_then (plist_exec a4 a6 c ms) (plist_run a4 a6 cs)"

text \<open>The commands are those of the two address families; a received filter has a family the code knows.\<close>

fun plist_call_ok :: "plist_call \<Rightarrow> bool" where
  "plist_call_ok (Install afi n s t p g l) \<longleftrightarrow> afi \<in> {AFI_IP, AFI_IP6}"
| "plist_call_ok (Uninstall afi n s t p g l) \<longleftrightarrow> afi \<in> {AFI_IP, AFI_IP6}"
| "plist_call_ok (Describe afi n d) \<longleftrightarrow> afi \<in> {AFI_IP, AFI_IP6}"
| "plist_call_ok (Undescribe afi n) \<longleftrightarrow> afi \<in> {AFI_IP, AFI_IP6}"
| "plist_call_ok (SequenceNumber afi b) \<longleftrightarrow> afi \<in> {AFI_IP, AFI_IP6}"
| "plist_call_ok (OrfSet n afi p b on) \<longleftrightarrow> family (orf_p p) \<in> {AF_INET, AF_INET6}"
| "plist_call_ok _ \<longleftrightarrow> True"

definition no_lists :: prefix_master where
  "no_lists = \<lparr>pm_num = [], pm_str = [], pm_seqnum = True, pm_recent = None, pm_hooks = True, pm_log = []\<rparr>"

definition no_masters :: prefix_masters where
  "no_masters = \<lparr>prefix_master_ipv4 = no_lists, prefix_master_ipv6 = no_lists, prefix_master_orf = no_lists\<lparr>pm_hooks := False\<rparr>\<rparr>"

text \<open>A result that satisfies \<open>P\<close>, unless a number became too large for an \<open>int\<close> or a \<open>long\<close>.\<close>

definition ok_res :: "('a \<Rightarrow> bool) \<Rightarrow> 'a res \<Rightarrow> bool" where
  "ok_res P r = (case r of Inr x \<Rightarrow> P x | Inl e \<Rightarrow> e = IntOverflow)"

lemma ok_res_Inr [simp]: "ok_res P (Inr x) = P x"
  by (simp add: ok_res_def)

lemma ok_res_and_then: "ok_res Q m \<Longrightarrow> (\<And>x. m = Inr x \<Longrightarrow> Q x \<Longrightarrow> ok_res P (f x)) \<Longrightarrow> ok_res P (and_then m f)"
  by (cases m) (auto simp: ok_res_def)

lemma digits_loop_res: "ok_res (\<lambda>_. True) (digits_loop n s)"
  by (induction n s rule: digits_loop.induct) (auto simp: ok_res_def Let_def)

lemma prefix_list_get_res:
  assumes "master_ok m"
  shows "ok_res (\<lambda>(m', pl). master_ok m' \<and> plist_lookup m' name = Some pl \<and> plist_ok pl) (prefix_list_get m name)"
proof (cases "prefix_list_get m name")
  case (Inl e)
  then have "e = IntOverflow" using digits_loop_res [of 0 name]
    by (cases "digits_loop 0 name") (auto simp: prefix_list_get_def prefix_list_insert_def ok_res_def Let_def split: option.splits if_splits)
  with Inl show ?thesis by (simp add: ok_res_def)
next
  case (Inr x)
  with prefix_list_get_ok [OF assms] show ?thesis by (cases x) auto
qed

lemma prefix_copy_res: "family p \<in> {AF_INET, AF_INET6} \<Longrightarrow> \<exists>q. prefix_copy d p = Inr q"
  by (auto simp: prefix_copy_def Let_def)

lemma masters_ok_get: "masters_ok ms \<Longrightarrow> prefix_master_get afi ms = Some m \<Longrightarrow> master_ok m"
  by (auto simp: masters_ok_def prefix_master_get_def split: if_splits)

lemma masters_ok_put: "masters_ok ms \<Longrightarrow> master_ok m \<Longrightarrow> masters_ok (put_master afi m ms)"
  by (auto simp: masters_ok_def put_master_def)

text \<open>What both ways of adding an entry have in common.\<close>

definition put_new_entry :: "prefix \<Rightarrow> prefix_list_type \<Rightarrow> int \<Rightarrow> int \<Rightarrow> int \<Rightarrow> bool \<Rightarrow> prefix_master \<Rightarrow> prefix_list \<Rightarrow> (prefix_master \<times> cmd_result) res" where
  "put_new_entry p type seq le ge any m pl =
     and_then (prefix_list_entry_make p type seq le ge any) (\<lambda>pentry.
     and_then (prefix_entry_dup_check pl pentry) (\<lambda>dup.
       case dup of Some d \<Rightarrow> Inr (m, CMD_WARNING)
       | None \<Rightarrow> and_then (prefix_list_entry_add pentry pl m) (\<lambda>m. Inr (m, CMD_SUCCESS))))"

lemma put_new_entry_map:
  "and_then (prefix_list_entry_make p type seq le ge any) (\<lambda>pentry.
     and_then (prefix_entry_dup_check pl pentry) (\<lambda>dup.
       case dup of Some d \<Rightarrow> Inr (f m, CMD_WARNING)
       | None \<Rightarrow> and_then (prefix_list_entry_add pentry pl m) (\<lambda>m. Inr (f m, CMD_SUCCESS)))) =
   and_then (put_new_entry p type seq le ge any m pl) (\<lambda>(m, r). Inr (f m, r))"
  unfolding put_new_entry_def and_then_assoc
  by (intro and_then_cong refl) (auto simp: and_then_assoc split: option.splits)

lemma put_new_entry_res:
  assumes m: "master_ok m" "plist_lookup m name = Some pl" and p: "family p \<in> {AF_INET, AF_INET6}" and seq: "seq \<le> INT_MAX"
  shows "ok_res (\<lambda>(m, r). master_ok m) (put_new_entry p type seq le ge any m pl)"
proof -
  obtain q where q: "prefix_copy prefix_new p = Inr q" using prefix_copy_res [OF p] by blast
  let ?e = "\<lparr>pe_seq = seq, pe_le = le, pe_ge = ge, pe_type = type, pe_any = any, pe_prefix = q, pe_refcnt = 0, pe_hitcnt = 0\<rparr>"
  have num: "ok_res (\<lambda>_. True) (if seq = -1 then prefix_new_seq_get pl else Inr seq)"
    by (simp add: ok_res_def prefix_new_seq_get_def Let_def)
  have "ok_res (\<lambda>_. True) (prefix_list_entry_add ?e pl m)"
    unfolding prefix_list_entry_add_eq prefix_list_entry.select_convs by (rule ok_res_and_then [OF num]) simp
  moreover have "master_ok m'" if "prefix_list_entry_add ?e pl m = Inr m'" for m'
    using prefix_list_entry_add_ok [OF m _ that] seq by simp
  ultimately have add: "ok_res master_ok (prefix_list_entry_add ?e pl m)"
    by (cases "prefix_list_entry_add ?e pl m") (simp_all add: ok_res_def)
  have dup: "ok_res (\<lambda>_. True) (prefix_entry_dup_check pl ?e)"
    unfolding prefix_entry_dup_check_def prefix_list_entry.select_convs by (rule ok_res_and_then [OF num]) simp
  have "ok_res (\<lambda>(m, r). master_ok m) (case d of Some d \<Rightarrow> Inr (m, CMD_WARNING)
       | None \<Rightarrow> and_then (prefix_list_entry_add ?e pl m) (\<lambda>m. Inr (m, CMD_SUCCESS)))" for d
  proof (cases d)
    case None
    have "ok_res (\<lambda>(m, r). master_ok m) (and_then (prefix_list_entry_add ?e pl m) (\<lambda>m. Inr (m, CMD_SUCCESS)))"
      by (rule ok_res_and_then [OF add]) simp
    with None show ?thesis by simp
  qed (simp add: m(1))
  then show ?thesis
    unfolding put_new_entry_def prefix_list_entry_make_def q and_then.simps by (rule ok_res_and_then [OF dup])
qed

lemma master_of: "afi \<in> {AFI_IP, AFI_IP6} \<Longrightarrow> \<exists>m. prefix_master_get afi ms = Some m"
  by (auto simp: prefix_master_get_def)

lemma num_arg_max: "d \<le> INT_MAX \<Longrightarrow> num_arg d s \<le> INT_MAX"
  using to_int_range(2) by (simp add: num_arg_def split: option.splits)

lemma str2prefix_ipv4_family: "\<not> fst (str2prefix_ipv4 a4 s p) \<le> 0 \<Longrightarrow> family (snd (str2prefix_ipv4 a4 s p)) = AF_INET"
  unfolding str2prefix_ipv4_def Let_def
  by (cases "a4 s"; cases "a4 (takeWhile (\<lambda>c. c \<noteq> CHR ''/'') s)") (auto split: if_splits)

lemma str2prefix_ipv6_family: "\<not> fst (str2prefix_ipv6 a6 s p) \<le> 0 \<Longrightarrow> family (snd (str2prefix_ipv6 a6 s p)) = AF_INET6"
  unfolding str2prefix_ipv6_def Let_def
  by (cases "a6 s"; cases "a6 (takeWhile (\<lambda>c. c \<noteq> CHR ''/'') s)") (auto split: if_splits)

lemma prefix_arg_family:
  assumes "prefix_arg a4 a6 afi s g l = Some (p, g', l', any)" "afi \<in> {AFI_IP, AFI_IP6}"
  shows "family p \<in> {AF_INET, AF_INET6}"
  using assms
  by (auto simp: prefix_arg_def Let_def case_prod_unfold str2prefix_ipv4_family str2prefix_ipv6_family split: if_splits)

lemma install_res:
  assumes ms: "masters_ok ms" and afi: "afi \<in> {AFI_IP, AFI_IP6}"
  shows "ok_res (\<lambda>(ms, r). masters_ok ms) (vty_prefix_list_install a4 a6 afi name seq t pfx ge le ms)"
proof (cases "type_arg t")
  case (Some type)
  show ?thesis
  proof (cases "prefix_arg a4 a6 afi pfx (num_arg 0 ge) (num_arg 0 le)")
    case (Some a)
    obtain p g l any where a: "a = (p, g, l, any)" by (cases a) blast
    obtain m where m: "prefix_master_get afi ms = Some m" using master_of [OF afi] by blast
    note fam = prefix_arg_family [OF Some [unfolded a] afi]
    define l' where "l' = (if g \<noteq> 0 \<and> l = full_len afi then 0 else l)"
    have step: "ok_res (\<lambda>(ms, r). masters_ok ms) (and_then (put_new_entry p type (num_arg (-1) seq) l' g any m' pl)
        (\<lambda>(m, r). Inr (put_master afi m ms, r)))" if "master_ok m'" "plist_lookup m' name = Some pl" for m' pl
    proof (rule ok_res_and_then [OF put_new_entry_res [OF that fam]])
      show "num_arg (- 1) seq \<le> INT_MAX" by (rule num_arg_max) (simp add: INT_MAX_def)
    qed (auto simp: masters_ok_put ms)
    show ?thesis
    proof (cases "bad_range g l (prefixlen p)")
      case True
      then show ?thesis using ms Some a \<open>type_arg t = Some type\<close> by (simp add: vty_prefix_list_install_def)
    next
      case False
      have "vty_prefix_list_install a4 a6 afi name seq t pfx ge le ms = and_then (prefix_list_get m name) (\<lambda>(m, plist).
          and_then (put_new_entry p type (num_arg (-1) seq) l' g any m plist) (\<lambda>(m, r). Inr (put_master afi m ms, r)))"
        using False Some a \<open>type_arg t = Some type\<close> m unfolding vty_prefix_list_install_def put_new_entry_map [symmetric]
        by (simp add: l'_def)
      then show ?thesis using step by (auto intro!: ok_res_and_then [OF prefix_list_get_res [OF masters_ok_get [OF ms m]]])
    qed
  qed (simp add: vty_prefix_list_install_def ms \<open>type_arg t = Some type\<close>)
qed (simp add: vty_prefix_list_install_def ms)

lemma prefix_list_lookup_Some:
  assumes "prefix_list_lookup ms afi name = Some pl"
  obtains m n where "name = Some n" "prefix_master_get afi ms = Some m" "plist_lookup m n = Some pl"
  using assms by (auto simp: prefix_list_lookup_def split: option.splits)

lemma uninstall_res:
  assumes ms: "masters_ok ms"
  shows "ok_res (\<lambda>(ms, r). masters_ok ms) (vty_prefix_list_uninstall a4 a6 afi name seq t pfx ge le ms)"
proof (cases "prefix_list_lookup ms afi name")
  case (Some pl)
  then obtain m n where m: "name = Some n" "prefix_master_get afi ms = Some m" "plist_lookup m n = Some pl"
    by (rule prefix_list_lookup_Some)
  have ok: "master_ok m" using masters_ok_get [OF ms m(2)] .
  have "masters_ok (put_master afi (prefix_list_entry_delete (entry_wanted p ty s l g) pl m) ms)"
    if "prefix_list_entry_lookup pl p ty s l g = Some e" for p ty s l g e
    using that by (intro masters_ok_put [OF ms] prefix_list_entry_delete_ok [OF ok m(3)]) (simp add: prefix_list_entry_lookup_def)
  moreover have "masters_ok (put_master afi (prefix_list_delete pl m) ms)"
    by (intro masters_ok_put [OF ms] prefix_list_delete_ok ok)
  ultimately show ?thesis
    using ms Some m by (simp add: vty_prefix_list_uninstall_def Let_def split: option.split)
qed (simp add: vty_prefix_list_uninstall_def ms)

lemma put_plist_lookup_ok:
  assumes "masters_ok ms" "prefix_list_lookup ms afi name = Some pl0" "prefix_master_get afi ms = Some m"
    "pl_name pl = pl_name pl0" "pl_type pl = pl_type pl0" "plist_ok pl0 \<Longrightarrow> plist_ok pl"
  shows "masters_ok (put_master afi (put_plist pl m) ms)"
proof -
  from assms(2) obtain m' n where m: "prefix_master_get afi ms = Some m'" "plist_lookup m' n = Some pl0"
    by (rule prefix_list_lookup_Some)
  with assms(3) have look: "plist_lookup m n = Some pl0" by simp
  have ok: "master_ok m" using masters_ok_get [OF assms(1,3)] .
  have "plist_ok pl0" using plist_lookup_in(2) [OF look] master_okD(1,3) [OF ok] by auto
  then show ?thesis using assms by (intro masters_ok_put put_plist_ok [OF ok look]) simp_all
qed

lemma description_res:
  assumes ms: "masters_ok ms" and afi: "afi \<in> {AFI_IP, AFI_IP6}"
  shows "ok_res (\<lambda>(ms, r). masters_ok ms) (prefix_list_description afi name desc ms)"
proof -
  obtain m where m: "prefix_master_get afi ms = Some m" using master_of [OF afi] by blast
  have "masters_ok (put_master afi (put_plist (pl\<lparr>pl_desc := Some desc\<rparr>) m') ms)"
    if "master_ok m'" "plist_lookup m' name = Some pl" "plist_ok pl" for m' pl
    using that(3) by (intro masters_ok_put [OF ms] put_plist_ok [OF that(1,2)]) (simp_all add: plist_ok_def)
  then show ?thesis
    unfolding prefix_list_description_def m option.case
    by (auto intro!: ok_res_and_then [OF prefix_list_get_res [OF masters_ok_get [OF ms m]]])
qed

lemma desc_unset_res:
  assumes ms: "masters_ok ms"
  shows "ok_res (\<lambda>(ms, r). masters_ok ms) (vty_prefix_list_desc_unset afi name ms)"
proof (cases "prefix_list_lookup ms afi name")
  case (Some pl)
  then obtain m n where m: "name = Some n" "prefix_master_get afi ms = Some m" "plist_lookup m n = Some pl"
    by (rule prefix_list_lookup_Some)
  have ok: "master_ok m" using masters_ok_get [OF ms m(2)] .
  have "plist_ok pl" using plist_lookup_in(2) [OF m(3)] master_okD(1,3) [OF ok] by auto
  then have "master_ok (put_plist (pl\<lparr>pl_desc := None\<rparr>) m)"
    by (intro put_plist_ok [OF ok m(3)]) (simp_all add: plist_ok_def)
  then show ?thesis using Some m(2) prefix_list_delete_ok masters_ok_put [OF ms] by (simp add: vty_prefix_list_desc_unset_def Let_def)
qed (simp add: vty_prefix_list_desc_unset_def ms)

lemma clear_hits_ok: "plist_ok pl \<Longrightarrow> plist_ok (clear_hits P pl)"
proof -
  assume ok: "plist_ok pl"
  have "map pe_seq (pl_entries (clear_hits P pl)) = map pe_seq (pl_entries pl)" by (simp add: clear_hits_def)
  then have "sorted_wrt (<) (map pe_seq (pl_entries (clear_hits P pl)))" using ok by (simp add: plist_ok_def)
  then show ?thesis using ok by (auto simp: plist_ok_def clear_hits_def)
qed

lemma clear_hits_simps [simp]: "pl_name (clear_hits P pl) = pl_name pl" "pl_type (clear_hits P pl) = pl_type pl"
  by (simp_all add: clear_hits_def)

lemma clear_res:
  assumes ms: "masters_ok ms"
  shows "ok_res (\<lambda>(ms, r). masters_ok ms) (vty_clear_prefix_list a4 a6 afi name pfx ms)"
proof (cases "prefix_master_get afi ms")
  case (Some m)
  have ok: "master_ok m" using masters_ok_get [OF ms Some] .
  have "map pl_name (map (clear_hits P) ls) = map pl_name ls" for P ls by simp
  then have "master_ok (m\<lparr>pm_num := map (clear_hits (\<lambda>_. True)) (pm_num m), pm_str := map (clear_hits (\<lambda>_. True)) (pm_str m)\<rparr>)"
    using ok clear_hits_ok by (auto simp: master_ok_def comp_def)
  then have all: "masters_ok (put_master afi (m\<lparr>pm_num := map (clear_hits (\<lambda>_. True)) (pm_num m),
      pm_str := map (clear_hits (\<lambda>_. True)) (pm_str m)\<rparr>) ms)" by (rule masters_ok_put [OF ms])
  have one: "masters_ok (put_master afi (put_plist (clear_hits P pl) m) ms)" if "prefix_list_lookup ms afi name = Some pl" for P pl
    by (rule put_plist_lookup_ok [OF ms that Some]) (simp_all add: clear_hits_ok)
  show ?thesis
    using ms Some all one by (auto simp: vty_clear_prefix_list_def Let_def split: option.splits prod.splits)
qed (simp add: vty_clear_prefix_list_def ms)

lemma orf_set_res:
  assumes ms: "masters_ok ms" and fam: "family (orf_p p) \<in> {AF_INET, AF_INET6}"
  shows "ok_res (\<lambda>(ms, r). masters_ok ms) (prefix_bgp_orf_set name afi p b on ms)"
proof -
  have put: "masters_ok (ms\<lparr>prefix_master_orf := m\<rparr>)" if "master_ok m" for m using ms that by (simp add: masters_ok_def)
  have orf: "master_ok (prefix_master_orf ms)" using ms by (simp add: masters_ok_def)
  have "ok_res (\<lambda>(ms, r). masters_ok ms) (and_then (put_new_entry (orf_p p) ty (to_int v) l g False m pl)
      (\<lambda>(m, r). Inr (ms\<lparr>prefix_master_orf := m\<rparr>, r)))" if "master_ok m" "plist_lookup m name = Some pl" for ty v l g m pl
    by (rule ok_res_and_then [OF put_new_entry_res [OF that fam to_int_range(2)]]) (auto simp: put)
  note add = this [folded put_new_entry_map [where f = "\<lambda>m. ms\<lparr>prefix_master_orf := m\<rparr>"]]
  have del: "ok_res (\<lambda>(ms, r). masters_ok ms) (case prefix_list_entry_lookup pl (orf_p p) ty v l g of
      None \<Rightarrow> Inr (ms\<lparr>prefix_master_orf := m\<rparr>, CMD_WARNING)
    | Some e \<Rightarrow> Inr (ms\<lparr>prefix_master_orf := prefix_list_entry_delete (entry_wanted (orf_p p) ty v l g) pl m\<rparr>, CMD_SUCCESS))"
    if "master_ok m" "plist_lookup m name = Some pl" for ty v l g m pl
    using put prefix_list_entry_delete_ok [OF that] that(1) by (auto simp: prefix_list_entry_lookup_def split: option.splits)
  define g where "g = uint (orf_ge p)"
  define l where "l = (if g \<noteq> 0 \<and> uint (orf_le p) = full_len afi then 0 else uint (orf_le p))"
  define ty where "ty = (if b then PREFIX_PERMIT else PREFIX_DENY)"
  show ?thesis
    unfolding prefix_bgp_orf_set_def Let_def g_def [symmetric] l_def [symmetric] ty_def [symmetric]
    using ms add del by (cases on) (auto intro!: ok_res_and_then [OF prefix_list_get_res [OF orf]])
qed

lemma delete_number:
  assumes "\<forall>pl \<in> set ls. pl_type pl = PREFIX_TYPE_NUMBER"
  shows "pm_num m = ls \<Longrightarrow> pm_num (fold prefix_list_delete ls m) = [] \<and> pm_str (fold prefix_list_delete ls m) = pm_str m"
  using assms by (induction ls arbitrary: m) (simp_all add: prefix_list_delete_def Let_def)

lemma delete_string:
  assumes "\<forall>pl \<in> set ls. pl_type pl = PREFIX_TYPE_STRING"
  shows "pm_str m = ls \<Longrightarrow> pm_str (fold prefix_list_delete ls m) = [] \<and> pm_num (fold prefix_list_delete ls m) = pm_num m"
  using assms by (induction ls arbitrary: m) (simp_all add: prefix_list_delete_def Let_def)

lemma master_reset_ok:
  assumes "master_ok m"
  shows "\<exists>m'. master_reset m = Inr m' \<and> master_ok m' \<and> pm_num m' = [] \<and> pm_str m' = []"
proof -
  define m1 where "m1 = fold prefix_list_delete (pm_num m) m"
  define m2 where "m2 = fold prefix_list_delete (pm_str m1) m1"
  have m1: "pm_num m1 = []" "pm_str m1 = pm_str m"
    using delete_number [of "pm_num m" m] master_okD(2) [OF assms] by (auto simp: m1_def)
  have m2: "pm_str m2 = []" "pm_num m2 = []"
    using delete_string [of "pm_str m1" m1] master_okD(4) [OF assms] m1 by (auto simp: m2_def)
  then show ?thesis by (simp add: master_reset_def Let_def m1_def [symmetric] m2_def [symmetric] master_ok_def)
qed

lemma reset_res: "masters_ok ms \<Longrightarrow> ok_res masters_ok (prefix_list_reset ms)"
  using master_reset_ok [of "prefix_master_ipv4 ms"] master_reset_ok [of "prefix_master_ipv6 ms"] master_reset_ok [of "prefix_master_orf ms"]
  by (auto simp: masters_ok_def prefix_list_reset_def)

lemma apply_loop_keeps:
  "map pe_seq (snd (apply_loop p es)) = map pe_seq es" "length (snd (apply_loop p es)) = length es"
proof -
  show "map pe_seq (snd (apply_loop p es)) = map pe_seq es"
    by (induction p es rule: apply_loop.induct) (auto simp: Let_def split: prod.splits)
  then show "length (snd (apply_loop p es)) = length es" by (metis length_map)
qed

lemma apply_ok:
  assumes "prefix_list_apply (Some pl0) p = (r, Some pl)" "plist_ok pl0"
  shows "plist_ok pl" "pl_name pl = pl_name pl0" "pl_type pl = pl_type pl0"
proof -
  have "plist_ok pl \<and> pl_name pl = pl_name pl0 \<and> pl_type pl = pl_type pl0"
  proof (cases "pl_count pl0 = 0")
    case False
    then have pl: "pl = pl0\<lparr>pl_entries := snd (apply_loop p (pl_entries pl0))\<rparr>"
      using assms(1) by (auto simp: prefix_list_apply_def split: prod.splits)
    have "(\<forall>e \<in> set (pl_entries pl). pe_seq e \<le> INT_MAX) = (\<forall>s \<in> set (map pe_seq (pl_entries pl)). s \<le> INT_MAX)" by simp
    then show ?thesis using assms(2) apply_loop_keeps [of p "pl_entries pl0"] by (simp add: plist_ok_def pl)
  next
    case True
    then show ?thesis using assms by (simp add: prefix_list_apply_def)
  qed
  then show "plist_ok pl" "pl_name pl = pl_name pl0" "pl_type pl = pl_type pl0" by blast+
qed

lemma apply_named_ok:
  assumes "masters_ok ms"
  shows "masters_ok (apply_named afi name p ms)"
proof (cases "prefix_list_lookup ms afi name")
  case None
  then show ?thesis using assms by (simp add: apply_named_def prefix_list_apply_def)
next
  case (Some pl0)
  then obtain m n where m: "name = Some n" "prefix_master_get afi ms = Some m" "plist_lookup m n = Some pl0"
    by (rule prefix_list_lookup_Some)
  have ok: "plist_ok pl0" using plist_lookup_in(2) [OF m(3)] master_okD(1,3) [OF masters_ok_get [OF assms m(2)]] by auto
  obtain r pl where a: "prefix_list_apply (Some pl0) p = (r, Some pl)"
    by (cases "prefix_list_apply (Some pl0) p") (auto simp: prefix_list_apply_def split: if_splits prod.splits)
  from apply_ok [OF a ok] put_plist_lookup_ok [OF assms Some m(2), of pl] show ?thesis
    by (simp add: apply_named_def Some a m(2))
qed

lemma plist_exec_ok:
  assumes "masters_ok ms" "plist_call_ok c"
  shows "ok_res masters_ok (plist_exec a4 a6 c ms)"
proof -
  have wrap: "ok_res masters_ok (and_then r (Inr \<circ> fst))" if "ok_res (\<lambda>(ms, r). masters_ok ms) r" for r :: "(prefix_masters \<times> cmd_result) res"
    by (rule ok_res_and_then [OF that]) auto
  show ?thesis
  proof (cases c)
    case (SequenceNumber afi b)
    then obtain m where m: "prefix_master_get afi ms = Some m" using master_of assms(2) by fastforce
    have "master_ok (m\<lparr>pm_seqnum := b\<rparr>) = master_ok m" by (rule master_ok_cong) simp_all
    then show ?thesis using SequenceNumber m masters_ok_put [OF assms(1)] masters_ok_get [OF assms(1) m]
      by (simp add: prefix_list_sequence_number_def)
  next
    case (OrfRemoveAll n)
    have "master_ok (prefix_list_delete pl (prefix_master_orf ms))" for pl
      using assms(1) by (intro prefix_list_delete_ok) (simp add: masters_ok_def)
    then show ?thesis using OrfRemoveAll assms(1) by (simp add: prefix_bgp_orf_remove_all_def masters_ok_def split: option.splits)
  qed (insert assms, auto intro!: wrap install_res uninstall_res description_res desc_unset_res clear_res orf_set_res reset_res apply_named_ok)
qed

lemma plist_run_ok: "masters_ok ms \<Longrightarrow> list_all plist_call_ok cs \<Longrightarrow> ok_res masters_ok (plist_run a4 a6 cs ms)"
proof (induction cs arbitrary: ms)
  case (Cons c cs)
  then have "ok_res masters_ok (plist_exec a4 a6 c ms)" by (simp add: plist_exec_ok)
  then have "ok_res masters_ok (and_then (plist_exec a4 a6 c ms) (plist_run a4 a6 cs))"
    using Cons by (rule_tac ok_res_and_then) auto
  then show ?case by simp
qed simp

section \<open>Applying a list\<close>

definition decision :: "prefix \<Rightarrow> prefix_list_entry list \<Rightarrow> prefix_list_type" where
  "decision p es = (case List.find (\<lambda>e. prefix_list_entry_match e p) es of None \<Rightarrow> PREFIX_DENY | Some e \<Rightarrow> pe_type e)"

lemma match_counts [simp]:
  "prefix_list_entry_match (e\<lparr>pe_refcnt := c\<rparr>) p = prefix_list_entry_match e p"
  "prefix_list_entry_match (e\<lparr>pe_hitcnt := c\<rparr>) p = prefix_list_entry_match e p"
  "prefix_list_entry_match (e\<lparr>pe_seq := n\<rparr>) p = prefix_list_entry_match e p"
  by (simp_all add: prefix_list_entry_match_def)

lemma fst_apply_loop: "fst (apply_loop p es) = decision p es"
  by (induction p es rule: apply_loop.induct) (auto simp: decision_def Let_def split: prod.splits)

lemma fst_apply:
  assumes "plist_ok pl"
  shows "fst (prefix_list_apply (Some pl) p) = (if pl_entries pl = [] then PREFIX_PERMIT else decision p (pl_entries pl))"
  using assms fst_apply_loop [of p "pl_entries pl"] by (auto simp: prefix_list_apply_def plist_ok_def split: prod.splits)

lemma decision_first:
  assumes "sorted_wrt (<) (map pe_seq es)" "e \<in> set es" "prefix_list_entry_match e p"
    "\<forall>f \<in> set es. pe_seq f < pe_seq e \<longrightarrow> \<not> prefix_list_entry_match f p"
  shows "decision p es = pe_type e"
proof -
  from assms(2) obtain us vs where es: "es = us @ e # vs" by (meson split_list)
  with assms(1) have "\<forall>f \<in> set us. pe_seq f < pe_seq e" by (auto simp: sorted_wrt_append)
  with assms(4) es have "List.find (\<lambda>e. prefix_list_entry_match e p) us = None" by (auto simp: find_None_iff)
  then have "List.find (\<lambda>e. prefix_list_entry_match e p) es = Some e"
    unfolding es using assms(3) by (induction us) (auto split: if_splits)
  then show ?thesis by (simp add: decision_def)
qed

section \<open>Ranges\<close>

text \<open>The lengths an entry accepts, as the command states them: exactly the length of the prefix, or from
  \<open>ge\<close> (else the length of the prefix) up to \<open>le\<close> (else the longest).\<close>

definition in_range :: "nat \<Rightarrow> int \<Rightarrow> int \<Rightarrow> nat \<Rightarrow> nat \<Rightarrow> bool" where
  "in_range afi ge le plen n \<longleftrightarrow>
     (if ge = 0 \<and> le = 0 then n = plen
      else (if ge = 0 then int plen else ge) \<le> int n \<and> int n \<le> (if le = 0 then full_len afi else le))"

lemma entry_match_range:
  assumes "prefix_list_entry_make p ty seq (if ge \<noteq> 0 \<and> le = full_len afi then 0 else le) ge any = Inr e"
    "wf_prefix p" "int (prefixlen q) \<le> full_len afi"
  shows "prefix_list_entry_match e q \<longleftrightarrow> prefix_match p q \<and> in_range afi ge le (prefixlen p) (prefixlen q)"
proof -
  from prefix_copy_new [of p] assms(2) obtain p' where p': "prefix_copy prefix_new p = Inr p'" "prefix_key p' = prefix_key p"
    "prefixlen p' = prefixlen p" by (auto simp: wf_key_def)
  have m: "prefix_match p' q = prefix_match p q" using p'(2) by (simp add: prefix_match_ex)
  have "prefixlen p \<le> prefixlen q" if "prefix_match p q" using that by (simp add: prefix_match_pbit)
  then show ?thesis
    using assms(1,3) p' m
    by (auto simp: prefix_list_entry_make_def prefix_list_entry_match_def in_range_def split: if_splits)
qed

lemma find_update_first:
  assumes "\<And>x. P x \<Longrightarrow> P (f x)"
  shows "List.find P (update_first P f xs) = map_option f (List.find P xs)"
  using assms by (induction xs) auto

lemma lookup_put_plist:
  assumes m: "master_ok m" and look: "plist_lookup m name = Some pl0" and pl: "pl_name pl = name" "pl_type pl = pl_type pl0"
  shows "plist_lookup (put_plist pl m) name = Some pl"
proof (cases "pl_type pl = PREFIX_TYPE_NUMBER")
  case True
  have "pl0 \<in> set (pm_num m)" using plist_lookup_in(2) [OF look] master_okD(4) [OF m] True pl(2) by auto
  then have "List.find (named name) (pm_num m) \<noteq> None" using plist_lookup_in(1) [OF look] by (auto simp: find_None_iff)
  then show ?thesis using True pl find_update_first [of "named name" "\<lambda>_. pl" "pm_num m"]
    by (auto simp: plist_lookup_def put_plist_def)
next
  case False
  then have "pl0 \<in> set (pm_str m)" using plist_lookup_in(2) [OF look] master_okD(2) [OF m] pl(2) by auto
  then have n: "\<not> all_digit name" using plist_lookup_in(1) [OF look] master_okD(6) [OF m] by blast
  then have "List.find (named name) (pm_num m) = None" using master_okD(5) [OF m] by (auto simp: find_None_iff)
  moreover have "List.find (named name) (pm_str m) = Some pl0" using look calculation by (simp add: plist_lookup_def)
  ultimately show ?thesis using False pl find_update_first [of "named name" "\<lambda>_. pl" "pm_str m"]
    by (auto simp: plist_lookup_def put_plist_def)
qed

lemma plist_lookup_cong: "pm_num m' = pm_num m \<Longrightarrow> pm_str m' = pm_str m \<Longrightarrow> plist_lookup m' name = plist_lookup m name"
  by (simp only: plist_lookup_def)

lemma put_get_master [simp]: "prefix_master_get afi ms = Some m0 \<Longrightarrow> prefix_master_get afi (put_master afi m ms) = Some m"
  by (auto simp: prefix_master_get_def put_master_def split: if_splits)

lemma put_new_entry_lookup:
  assumes m: "master_ok m" "plist_lookup m name = Some pl" and add: "put_new_entry p ty seq le ge any m pl = Inr (m', CMD_SUCCESS)"
  obtains e n where "prefix_list_entry_make p ty seq le ge any = Inr e"
    "(if seq = -1 then prefix_new_seq_get pl else Inr seq) = Inr n" "plist_lookup m' name = Some (entry_put (e\<lparr>pe_seq := n\<rparr>) pl)"
proof -
  from add obtain e where e: "prefix_list_entry_make p ty seq le ge any = Inr e" "prefix_list_entry_add e pl m = Inr m'"
    by (auto simp: put_new_entry_def and_then_Inr_iff split: option.splits)
  have "pe_seq e = seq" using e(1) by (auto simp: prefix_list_entry_make_def and_then_Inr_iff)
  with e(2) obtain n where n: "(if seq = -1 then prefix_new_seq_get pl else Inr seq) = Inr n"
    "m' = (run_hook (AddHook (pl_name pl)) (put_plist (entry_put (e\<lparr>pe_seq := n\<rparr>) pl) m))\<lparr>pm_recent := Some (pl_name pl)\<rparr>"
    by (auto simp: prefix_list_entry_add_eq and_then_Inr_iff)
  have "plist_lookup (put_plist (entry_put (e\<lparr>pe_seq := n\<rparr>) pl) m) name = Some (entry_put (e\<lparr>pe_seq := n\<rparr>) pl)"
    using plist_lookup_in(1) [OF m(2)] by (intro lookup_put_plist [OF m]) simp_all
  then have "plist_lookup m' name = Some (entry_put (e\<lparr>pe_seq := n\<rparr>) pl)"
    unfolding n(2) by (subst plist_lookup_cong) simp_all
  with e(1) n(1) show thesis by (rule that)
qed

lemma insert_point_end: "\<forall>y \<in> set ys. \<not> P y \<Longrightarrow> insert_point P x ys = ys @ [x]"
  by (induction ys) auto

lemma entry_put_last:
  assumes "plist_ok pl" "\<forall>x \<in> set (pl_entries pl). pe_seq x < pe_seq e"
  shows "pl_entries (entry_put e pl) = pl_entries pl @ [e]"
proof -
  have "filter (\<lambda>x. pe_seq x \<noteq> pe_seq e) (pl_entries pl) = pl_entries pl" using assms(2) by (intro filter_True) auto
  then show ?thesis using assms(2) by (simp add: entry_put_eq [OF assms(1)] insert_point_end not_le)
qed

text \<open>What the command does once its arguments are read.\<close>

lemma install_add:
  assumes inst: "vty_prefix_list_install a4 a6 afi name seq t pfx ge le ms = Inr (ms', CMD_SUCCESS)"
    and ty: "type_arg t = Some ty" and p: "prefix_arg a4 a6 afi pfx (num_arg 0 ge) (num_arg 0 le) = Some (p, g, l, any)"
  shows "\<exists>m m1 pl m2. prefix_master_get afi ms = Some m \<and> prefix_list_get m name = Inr (m1, pl) \<and>
    put_new_entry p ty (num_arg (-1) seq) (if g \<noteq> 0 \<and> l = full_len afi then 0 else l) g any m1 pl = Inr (m2, CMD_SUCCESS) \<and>
    ms' = put_master afi m2 ms"
proof -
  define l' where "l' = (if g \<noteq> 0 \<and> l = full_len afi then 0 else l)"
  have "\<exists>m. prefix_master_get afi ms = Some m \<and>
    and_then (prefix_list_get m name) (\<lambda>(m, pl). and_then (put_new_entry p ty (num_arg (-1) seq) l' g any m pl)
      (\<lambda>(m, r). Inr (put_master afi m ms, r))) = Inr (ms', CMD_SUCCESS)"
    using inst ty p unfolding put_new_entry_map [symmetric]
    by (auto simp: vty_prefix_list_install_def Let_def l'_def split: if_splits option.splits)
  then show ?thesis unfolding l'_def by (auto simp: and_then_Inr_iff)
qed

section \<open>Properties\<close>

text \<open>C16: whatever commands are given, filters received and lists applied, in any order, every prefix list
  stays ordered by sequence number with one entry per number and a right count, names stay unique,
  and the lists of a master stay ordered, those with a number for a name by number. No assertion
  fails; the only fault is a number that does not fit (a name with more than 18 digits, an automatic
  sequence number above \<open>INT_MAX\<close>).\<close>

theorem plist_commands_keep_order:
  assumes "list_all plist_call_ok cs"
  shows "case plist_run inet_aton inet_pton6 cs no_masters of Inr ms \<Rightarrow> masters_ok ms | Inl e \<Rightarrow> e = IntOverflow"
  using plist_run_ok [of no_masters cs inet_aton inet_pton6] assms
  by (simp add: ok_res_def masters_ok_def no_masters_def master_ok_def no_lists_def)

text \<open>C18: the matching entry with the smallest sequence number decides; a list without a matching entry denies,
  a missing list denies, and an empty list permits. (The manual, \<^verbatim>\<open>doc/filter.texi\<close>, has it the other way round for the last two:
  it lets an unspecified list permit and a defined one deny what it does not match.)\<close>

theorem prefix_list_apply_first_match:
  assumes "plist_ok pl"
  shows "fst (prefix_list_apply None p) = PREFIX_DENY \<and>
    (pl_entries pl = [] \<longrightarrow> fst (prefix_list_apply (Some pl) p) = PREFIX_PERMIT) \<and>
    (\<forall>e \<in> set (pl_entries pl). prefix_list_entry_match e p \<and>
       (\<forall>f \<in> set (pl_entries pl). pe_seq f < pe_seq e \<longrightarrow> \<not> prefix_list_entry_match f p) \<longrightarrow>
       fst (prefix_list_apply (Some pl) p) = pe_type e) \<and>
    (pl_entries pl \<noteq> [] \<and> (\<forall>e \<in> set (pl_entries pl). \<not> prefix_list_entry_match e p) \<longrightarrow>
       fst (prefix_list_apply (Some pl) p) = PREFIX_DENY)"
proof -
  have "sorted_wrt (<) (map pe_seq (pl_entries pl))" using assms by (simp add: plist_ok_def)
  note first = decision_first [OF this]
  have "decision p (pl_entries pl) = PREFIX_DENY" if "\<forall>e \<in> set (pl_entries pl). \<not> prefix_list_entry_match e p"
    using that by (simp add: decision_def find_None_iff split: option.splits) (metis find_Some_iff nth_mem)
  with first show ?thesis unfolding fst_apply [OF assms] by (auto simp: prefix_list_apply_def)
qed

text \<open>C17: an entry installed without a sequence number goes to the end: what an old entry matches is decided as
  before, and of the rest the new entry takes the prefixes below its own whose length is in its range.
  The range is that of the command, also where \<open>le\<close> is the full length and is stored as none.\<close>

theorem prefix_list_install_appends:
  assumes ms: "masters_ok ms" and inst: "vty_prefix_list_install inet_aton inet_pton6 afi name None t pfx ge le ms = Inr (ms', CMD_SUCCESS)"
    and ty: "type_arg t = Some ty" and p: "prefix_arg inet_aton inet_pton6 afi pfx (num_arg 0 ge) (num_arg 0 le) = Some (p, g, l, any)"
    and wf: "wf_prefix p" "int (prefixlen q) \<le> full_len afi"
    and old: "old = (case prefix_list_lookup ms afi (Some name) of None \<Rightarrow> [] | Some pl \<Rightarrow> pl_entries pl)"
  shows "fst (prefix_list_apply (prefix_list_lookup ms' afi (Some name)) q) =
    (case List.find (\<lambda>e. prefix_list_entry_match e q) old of
       Some e \<Rightarrow> pe_type e
     | None \<Rightarrow> if prefix_match p q \<and> in_range afi g l (prefixlen p) (prefixlen q) then ty else PREFIX_DENY)"
proof -
  from install_add [OF inst ty p] obtain m m1 pl m2 where m: "prefix_master_get afi ms = Some m"
    "prefix_list_get m name = Inr (m1, pl)" "ms' = put_master afi m2 ms" and
    add: "put_new_entry p ty (-1) (if g \<noteq> 0 \<and> l = full_len afi then 0 else l) g any m1 pl = Inr (m2, CMD_SUCCESS)"
    by (auto simp: num_arg_def)
  have ok: "master_ok m" using masters_ok_get [OF ms m(1)] .
  note get = prefix_list_get_ok [OF ok m(2)]
  from put_new_entry_lookup [OF get(1,2) add] obtain e n where e: "prefix_list_entry_make p ty (-1) (if g \<noteq> 0 \<and> l = full_len afi then 0 else l) g any = Inr e"
    "prefix_new_seq_get pl = Inr n" "plist_lookup m2 name = Some (entry_put (e\<lparr>pe_seq := n\<rparr>) pl)" by auto
  note n = new_seq_bounds [OF e(2)]
  have es: "pl_entries (entry_put (e\<lparr>pe_seq := n\<rparr>) pl) = pl_entries pl @ [e\<lparr>pe_seq := n\<rparr>]"
    using n(3) by (intro entry_put_last [OF get(3)]) simp
  have "plist_ok (entry_put (e\<lparr>pe_seq := n\<rparr>) pl)" using n(2) by (intro entry_put_ok [OF get(3)]) simp
  note ap = fst_apply [OF this, unfolded es]
  have "pl_entries pl = old"
    using old m(1,2) prefix_list_insert_ok(4) [OF ok, of name m1 pl]
    by (auto simp: prefix_list_lookup_def prefix_list_get_def split: option.splits)
  moreover have "pe_type e = ty" using e(1) by (auto simp: prefix_list_entry_make_def and_then_Inr_iff)
  moreover have "prefix_list_lookup ms' afi (Some name) = Some (entry_put (e\<lparr>pe_seq := n\<rparr>) pl)"
    using m e(3) by (simp add: prefix_list_lookup_def)
  moreover have "List.find P (xs @ [x]) = (case List.find P xs of Some y \<Rightarrow> Some y | None \<Rightarrow> if P x then Some x else None)"
    for P and x :: prefix_list_entry and xs by (induction xs) (auto split: option.splits)
  ultimately show ?thesis
    using entry_match_range [OF e(1) wf] by (auto simp: ap decision_def split: option.splits)
qed

text \<open>C19: an entry installed with a \<open>ge\<close> value and the full length for \<open>le\<close> cannot be removed by the same
  arguments: the command that installs it stores \<open>le\<close> as none, the command that removes it looks
  for the full length.\<close>

theorem prefix_list_uninstall_misses:
  assumes inst: "vty_prefix_list_install inet_aton inet_pton6 afi name seq t pfx ge le no_masters = Inr (ms, CMD_SUCCESS)"
    and ty: "type_arg t = Some ty" and p: "prefix_arg inet_aton inet_pton6 afi pfx (num_arg 0 ge) (num_arg 0 le) = Some (p, g, l, any)"
    and range: "g \<noteq> 0" "l = full_len afi"
  shows "vty_prefix_list_uninstall inet_aton inet_pton6 afi (Some name) seq (Some t) (Some pfx) ge le ms = Inr (ms, CMD_WARNING)"
proof -
  have ok: "masters_ok no_masters" by (simp add: masters_ok_def no_masters_def master_ok_def no_lists_def)
  from install_add [OF inst ty p] range obtain m m1 pl m2 where m: "prefix_master_get afi no_masters = Some m"
    "prefix_list_get m name = Inr (m1, pl)" "ms = put_master afi m2 no_masters" and
    add: "put_new_entry p ty (num_arg (-1) seq) 0 g any m1 pl = Inr (m2, CMD_SUCCESS)" by auto
  have mok: "master_ok m" using masters_ok_get [OF ok m(1)] .
  note get = prefix_list_get_ok [OF mok m(2)]
  have "plist_lookup m name = None" using m(1)
    by (auto simp: prefix_master_get_def no_masters_def no_lists_def plist_lookup_def split: if_splits)
  then have none: "pl_entries pl = []" using m(2) prefix_list_insert_ok(4) [OF mok] by (simp add: prefix_list_get_def)
  from put_new_entry_lookup [OF get(1,2) add] obtain e n where e: "prefix_list_entry_make p ty (num_arg (-1) seq) 0 g any = Inr e"
    "plist_lookup m2 name = Some (entry_put (e\<lparr>pe_seq := n\<rparr>) pl)" by blast
  have "pe_le e = 0" using e(1) by (auto simp: prefix_list_entry_make_def and_then_Inr_iff)
  then have "\<forall>x \<in> set (pl_entries (entry_put (e\<lparr>pe_seq := n\<rparr>) pl)). pe_le x = 0"
    using none by (simp add: entry_put_eq [OF get(3)])
  then have "prefix_list_entry_lookup (entry_put (e\<lparr>pe_seq := n\<rparr>) pl) p ty s (full_len afi) g = None" for s
    by (auto simp: prefix_list_entry_lookup_def find_None_iff entry_wanted_def full_len_def)
  moreover have "prefix_list_lookup ms afi (Some name) = Some (entry_put (e\<lparr>pe_seq := n\<rparr>) pl)" "prefix_master_get afi ms = Some m2"
    using m e(2) by (simp_all add: prefix_list_lookup_def)
  ultimately show ?thesis using ty p range by (simp add: vty_prefix_list_uninstall_def Let_def)
qed

text \<open>The largest sequence number of the command is the marker of an automatic one.\<close>

lemma last_sequence_number_is_automatic:
  "vty_prefix_list_install a4 a6 afi name (Some ''4294967295'') t pfx ge le ms = vty_prefix_list_install a4 a6 afi name None t pfx ge le ms"
proof -
  have "num_arg (-1) (Some ''4294967295'') = num_arg (-1) None" by code_simp
  then show ?thesis by (simp add: vty_prefix_list_install_def)
qed

section \<open>Examples\<close>

text \<open>A stand-in for the address parser that knows three addresses.\<close>

definition ex_aton :: "string \<Rightarrow> u32 option" where
  "ex_aton s = (if s = ''10.0.0.0'' then Some 0x0000000a else if s = ''10.1.0.0'' then Some 0x0000010a
     else if s = ''0.0.0.0'' then Some 0 else None)"

definition ex_calls :: "plist_call list" where
  "ex_calls = [Install AFI_IP ''lan'' None ''permit'' ''10.0.0.0/8'' (Some ''16'') (Some ''32''),
     Install AFI_IP ''lan'' (Some ''3'') ''deny'' ''10.1.0.0/16'' None (Some ''24''),
     Install AFI_IP ''7'' None ''permit'' ''any'' None None,
     Apply AFI_IP (Some ''lan'') net10_1, Describe AFI_IP ''lan'' ''local'',
     Uninstall AFI_IP (Some ''7'') None (Some ''permit'') (Some ''any'') None None]"

lemma ex_calls_run:
  "map_sum id (\<lambda>ms. (map pl_name (pm_num (prefix_master_ipv4 ms)),
      map (\<lambda>pl. (pl_name pl, map (\<lambda>e. (pe_seq e, pe_type e, pe_ge e, pe_le e)) (pl_entries pl))) (pm_str (prefix_master_ipv4 ms))))
     (plist_run ex_aton (\<lambda>_. None) ex_calls no_masters) =
   Inr ([], [(''lan'', [(3, PREFIX_DENY, 0, 24), (5, PREFIX_PERMIT, 16, 0)])])"
  by code_simp

theorem plist_commands_keep_order_witness:
  "\<exists>ms. plist_run ex_aton (\<lambda>_. None) ex_calls no_masters = Inr ms \<and> masters_ok ms"
proof -
  have "list_all plist_call_ok ex_calls" by (simp add: ex_calls_def)
  from plist_commands_keep_order [OF this, of ex_aton "\<lambda>_. None"] ex_calls_run show ?thesis
    by (cases "plist_run ex_aton (\<lambda>_. None) ex_calls no_masters") auto
qed

definition ex_plist :: prefix_list where
  "ex_plist = \<lparr>pl_name = ''lan'', pl_desc = None, pl_type = PREFIX_TYPE_STRING, pl_count = 2, pl_entries =
     [\<lparr>pe_seq = 3, pe_le = 0, pe_ge = 0, pe_type = PREFIX_DENY, pe_any = False, pe_prefix = net192, pe_refcnt = 0, pe_hitcnt = 0\<rparr>,
      \<lparr>pe_seq = 5, pe_le = 32, pe_ge = 0, pe_type = PREFIX_PERMIT, pe_any = False, pe_prefix = net10, pe_refcnt = 0, pe_hitcnt = 0\<rparr>]\<rparr>"

lemma ex_plist_matches:
  "map (\<lambda>e. prefix_list_entry_match e net10_1) (pl_entries ex_plist) = [False, True]"
  by code_simp

theorem prefix_list_apply_first_match_witness:
  "fst (prefix_list_apply (Some ex_plist) net10_1) = PREFIX_PERMIT"
proof -
  have ok: "plist_ok ex_plist" by (simp add: plist_ok_def ex_plist_def INT_MAX_def)
  from prefix_list_apply_first_match [OF ok, of net10_1] ex_plist_matches show ?thesis by (simp add: ex_plist_def)
qed

definition ex_lan :: prefix_masters where
  "ex_lan = (case vty_prefix_list_install ex_aton (\<lambda>_. None) AFI_IP ''lan'' None ''permit'' ''10.0.0.0/8'' (Some ''16'') (Some ''32'') no_masters of
     Inr (ms, r) \<Rightarrow> ms | Inl e \<Rightarrow> no_masters)"

lemma ex_lan_install:
  "vty_prefix_list_install ex_aton (\<lambda>_. None) AFI_IP ''lan'' None ''permit'' ''10.0.0.0/8'' (Some ''16'') (Some ''32'') no_masters =
     Inr (ex_lan, CMD_SUCCESS)"
proof -
  have "map_sum id snd (vty_prefix_list_install ex_aton (\<lambda>_. None) AFI_IP ''lan'' None ''permit'' ''10.0.0.0/8'' (Some ''16'') (Some ''32'') no_masters)
      = Inr CMD_SUCCESS" by code_simp
  then show ?thesis
    by (cases "vty_prefix_list_install ex_aton (\<lambda>_. None) AFI_IP ''lan'' None ''permit'' ''10.0.0.0/8'' (Some ''16'') (Some ''32'') no_masters")
      (auto simp: ex_lan_def)
qed

lemma ex_lan_args:
  "type_arg ''permit'' = Some PREFIX_PERMIT"
  "prefix_arg ex_aton (\<lambda>_. None) AFI_IP ''10.0.0.0/8'' (num_arg 0 (Some ''16'')) (num_arg 0 (Some ''32'')) = Some (net10, 16, 32, False)"
  by code_simp+

theorem prefix_list_install_appends_witness:
  "fst (prefix_list_apply (prefix_list_lookup ex_lan AFI_IP (Some ''lan'')) net10_1) = PREFIX_PERMIT"
proof -
  have ok: "masters_ok no_masters" by (simp add: masters_ok_def no_masters_def master_ok_def no_lists_def)
  have q: "int (prefixlen net10_1) \<le> full_len AFI_IP" by code_simp
  have none: "[] = (case prefix_list_lookup no_masters AFI_IP (Some ''lan'') of None \<Rightarrow> [] | Some pl \<Rightarrow> pl_entries pl)" by code_simp
  have "prefix_match net10 net10_1 \<and> in_range AFI_IP 16 32 (prefixlen net10) (prefixlen net10_1)" by code_simp
  with prefix_list_install_appends [OF ok ex_lan_install ex_lan_args wf_samples(1) q none] show ?thesis by simp
qed

theorem prefix_list_uninstall_misses_witness:
  "vty_prefix_list_uninstall ex_aton (\<lambda>_. None) AFI_IP (Some ''lan'') None (Some ''permit'') (Some ''10.0.0.0/8'') (Some ''16'') (Some ''32'') ex_lan =
     Inr (ex_lan, CMD_WARNING)"
  by (rule prefix_list_uninstall_misses [OF ex_lan_install ex_lan_args]) (simp_all add: full_len_def)

end
