(* ===== verification/Rmap.thy ===== *)
theory Rmap
  imports PrefixList
begin

text \<open>
  Route maps (\<^verbatim>\<open>lib/routemap.c\<close>). A route map is a list of clauses, called indexes and ordered by
  their preference; a clause has match rules, set rules, a map it may call and an exit policy. The
  commands a rule can use are tables of functions the daemons install: what a function does to
  a route is an argument of the model, the object of a route is of the type \<open>'o\<close>, a compiled
  argument of the type \<open>'v\<close>. A rule points to its command by the position in the table.

  The nesting of calls is limited by a static counter, which is part of the state: it survives an
  application. The model takes the number of stack frames as its bound, \<open>Diverged\<close> is running
  out of them.
\<close>

section \<open>Data\<close>

datatype route_map_type = RMAP_PERMIT | RMAP_DENY | RMAP_ANY

datatype route_map_result = RMAP_MATCH | RMAP_DENYMATCH | RMAP_NOMATCH | RMAP_ERROR | RMAP_OKAY

datatype route_map_end = RMAP_EXIT | RMAP_GOTO | RMAP_NEXT

datatype route_map_event =
    RMAP_EVENT_SET_ADDED | RMAP_EVENT_SET_DELETED | RMAP_EVENT_SET_REPLACED
  | RMAP_EVENT_MATCH_ADDED | RMAP_EVENT_MATCH_DELETED | RMAP_EVENT_MATCH_REPLACED
  | RMAP_EVENT_INDEX_ADDED | RMAP_EVENT_INDEX_DELETED

definition RMAP_RECURSION_LIMIT :: int where "RMAP_RECURSION_LIMIT = 10"

record ('v, 'o) route_map_rule_cmd =
  rc_str :: string
  rc_apply :: "'v option \<Rightarrow> prefix \<Rightarrow> nat \<Rightarrow> 'o \<Rightarrow> route_map_result \<times> 'o"
  rc_compile :: "(string option \<Rightarrow> 'v option) option"

record 'v route_map_rule =
  rr_cmd :: nat
  rr_str :: "string option"
  rr_value :: "'v option"

record 'v route_map_index =
  ri_description :: "string option"
  ri_pref :: int
  ri_type :: route_map_type
  ri_exitpolicy :: route_map_end
  ri_nextpref :: int
  ri_nextrm :: "string option"
  ri_match :: "'v route_map_rule list"
  ri_set :: "'v route_map_rule list"

record 'v route_map =
  rm_name :: string
  rm_indexes :: "'v route_map_index list"

text \<open>The master list; \<open>rl_hooks\<close> says whether the daemon has registered its hooks, \<open>rl_log\<close> logs their calls.\<close>

datatype rmap_hook = RmapAdded string | RmapDeleted string | RmapEvent route_map_event string

record 'v route_map_list =
  rl_maps :: "'v route_map list"
  rl_hooks :: bool
  rl_log :: "rmap_hook list"

definition call_rmap_hook :: "rmap_hook \<Rightarrow> 'v route_map_list \<Rightarrow> 'v route_map_list" where
  "call_rmap_hook h l = (if rl_hooks l then l\<lparr>rl_log := rl_log l @ [h]\<rparr> else l)"

section \<open>Maps and clauses\<close>

abbreviation called :: "string \<Rightarrow> 'v route_map \<Rightarrow> bool" where
  "called name \<equiv> (\<lambda>rmap. strcmp (rm_name rmap) name = 0)"

definition route_map_lookup_by_name :: "'v route_map list \<Rightarrow> string \<Rightarrow> 'v route_map option" where
  "route_map_lookup_by_name maps name = List.find (called name) maps"

definition route_map_add :: "string \<Rightarrow> 'v route_map_list \<Rightarrow> 'v route_map_list \<times> 'v route_map" where
  "route_map_add name l =
     (let rmap = \<lparr>rm_name = name, rm_indexes = []\<rparr>
      in (call_rmap_hook (RmapAdded name) (l\<lparr>rl_maps := rl_maps l @ [rmap]\<rparr>), rmap))"

definition route_map_get :: "string \<Rightarrow> 'v route_map_list \<Rightarrow> 'v route_map_list \<times> 'v route_map" where
  "route_map_get name l = (case route_map_lookup_by_name (rl_maps l) name of
     Some rmap \<Rightarrow> (l, rmap) | None \<Rightarrow> route_map_add name l)"

text \<open>The clauses of the map are deleted without notification, then the map.\<close>

definition route_map_delete :: "'v route_map \<Rightarrow> 'v route_map_list \<Rightarrow> 'v route_map_list" where
  "route_map_delete rmap l =
     call_rmap_hook (RmapDeleted (rm_name rmap)) (l\<lparr>rl_maps := remove_first (called (rm_name rmap)) (rl_maps l)\<rparr>)"

definition route_map_empty :: "'v route_map \<Rightarrow> bool" where
  "route_map_empty rmap \<longleftrightarrow> rm_indexes rmap = []"

text \<open>Writing through the pointer to a map.\<close>

definition put_map :: "'v route_map \<Rightarrow> 'v route_map_list \<Rightarrow> 'v route_map_list" where
  "put_map rmap l = l\<lparr>rl_maps := update_first (called (rm_name rmap)) (\<lambda>_. rmap) (rl_maps l)\<rparr>"

definition route_map_index_new :: "route_map_type \<Rightarrow> int \<Rightarrow> 'v route_map_index" where
  "route_map_index_new type pref = \<lparr>ri_description = None, ri_pref = pref, ri_type = type, ri_exitpolicy = RMAP_EXIT,
     ri_nextpref = 0, ri_nextrm = None, ri_match = [], ri_set = []\<rparr>"

definition index_wanted :: "route_map_type \<Rightarrow> int \<Rightarrow> 'v route_map_index \<Rightarrow> bool" where
  "index_wanted type pref i \<longleftrightarrow> (ri_type i = type \<or> type = RMAP_ANY) \<and> ri_pref i = pref"

definition route_map_index_lookup :: "'v route_map \<Rightarrow> route_map_type \<Rightarrow> int \<Rightarrow> 'v route_map_index option" where
  "route_map_index_lookup rmap type pref = List.find (index_wanted type pref) (rm_indexes rmap)"

definition route_map_index_delete :: "('v route_map_index \<Rightarrow> bool) \<Rightarrow> 'v route_map \<Rightarrow> 'v route_map_list \<Rightarrow> 'v route_map_list \<times> 'v route_map" where
  "route_map_index_delete P rmap l =
     (let rmap = rmap\<lparr>rm_indexes := remove_first P (rm_indexes rmap)\<rparr>
      in (call_rmap_hook (RmapEvent RMAP_EVENT_INDEX_DELETED (rm_name rmap)) (put_map rmap l), rmap))"

definition route_map_index_add :: "'v route_map \<Rightarrow> route_map_type \<Rightarrow> int \<Rightarrow> 'v route_map_list \<Rightarrow> 'v route_map_list" where
  "route_map_index_add rmap type pref l =
     (let rmap = rmap\<lparr>rm_indexes := insert_point (\<lambda>point. ri_pref point \<ge> pref) (route_map_index_new type pref) (rm_indexes rmap)\<rparr>
      in call_rmap_hook (RmapEvent RMAP_EVENT_INDEX_ADDED (rm_name rmap)) (put_map rmap l))"

definition route_map_index_get :: "'v route_map \<Rightarrow> route_map_type \<Rightarrow> int \<Rightarrow> 'v route_map_list \<Rightarrow> 'v route_map_list" where
  "route_map_index_get rmap type pref l = (case route_map_index_lookup rmap RMAP_ANY pref of
     None \<Rightarrow> route_map_index_add rmap type pref l
   | Some i \<Rightarrow>
       if ri_type i \<noteq> type
       then let (l, rmap) = route_map_index_delete (index_wanted RMAP_ANY pref) rmap l in route_map_index_add rmap type pref l
       else l)"

section \<open>Rules\<close>

definition cmd_lookup :: "('v, 'o) route_map_rule_cmd list \<Rightarrow> string \<Rightarrow> nat option" where
  "cmd_lookup vec name = List.find (\<lambda>i. strcmp (rc_str (vec ! i)) name = 0) [0..<length vec]"

definition rulecmp :: "string option \<Rightarrow> string option \<Rightarrow> int" where
  "rulecmp dst src = (case dst of
     None \<Rightarrow> (case src of None \<Rightarrow> 0 | Some s \<Rightarrow> 1)
   | Some d \<Rightarrow> (case src of None \<Rightarrow> 1 | Some s \<Rightarrow> strcmp d s))"

datatype rule_result = RULE_OK | RMAP_RULE_MISSING | RMAP_COMPILE_ERROR

text \<open>
  Adding a rule to a list of rules: the command is looked up and compiles the argument, the rules
  of the same command go, and the new rule is appended. The second component tells whether one
  was replaced.
\<close>

definition rule_add :: "('v, 'o) route_map_rule_cmd list \<Rightarrow> string \<Rightarrow> string option \<Rightarrow> 'v route_map_rule list \<Rightarrow>
    rule_result \<times> bool \<times> 'v route_map_rule list" where
  "rule_add vec name arg rules = (case cmd_lookup vec name of
     None \<Rightarrow> (RMAP_RULE_MISSING, False, rules)
   | Some c \<Rightarrow>
       (case rc_compile (vec ! c) of
          None \<Rightarrow> (RULE_OK, \<exists>r \<in> set rules. rr_cmd r = c,
            filter (\<lambda>r. rr_cmd r \<noteq> c) rules @ [\<lparr>rr_cmd = c, rr_str = arg, rr_value = None\<rparr>])
        | Some compile \<Rightarrow>
            (case compile arg of
               None \<Rightarrow> (RMAP_COMPILE_ERROR, False, rules)
             | Some v \<Rightarrow> (RULE_OK, \<exists>r \<in> set rules. rr_cmd r = c,
                 filter (\<lambda>r. rr_cmd r \<noteq> c) rules @ [\<lparr>rr_cmd = c, rr_str = arg, rr_value = Some v\<rparr>]))))"

definition rule_delete :: "('v, 'o) route_map_rule_cmd list \<Rightarrow> string \<Rightarrow> string option \<Rightarrow> 'v route_map_rule list \<Rightarrow>
    bool \<times> 'v route_map_rule list" where
  "rule_delete vec name arg rules = (case cmd_lookup vec name of
     None \<Rightarrow> (False, rules)
   | Some c \<Rightarrow>
       let P = (\<lambda>r. rr_cmd r = c \<and> (rulecmp (rr_str r) arg = 0 \<or> arg = None))
       in (List.find P rules \<noteq> None, remove_first P rules))"

text \<open>The clause a terminal edits, by the name of the map and the preference of the clause.\<close>

definition get_index :: "string \<Rightarrow> int \<Rightarrow> 'v route_map_list \<Rightarrow> ('v route_map \<times> 'v route_map_index) option" where
  "get_index name pref l = (case route_map_lookup_by_name (rl_maps l) name of
     None \<Rightarrow> None
   | Some rmap \<Rightarrow> (case List.find (\<lambda>i. ri_pref i = pref) (rm_indexes rmap) of None \<Rightarrow> None | Some i \<Rightarrow> Some (rmap, i)))"

definition put_index :: "'v route_map \<Rightarrow> 'v route_map_index \<Rightarrow> 'v route_map_list \<Rightarrow> 'v route_map_list" where
  "put_index rmap i l = put_map (rmap\<lparr>rm_indexes := update_first (\<lambda>j. ri_pref j = ri_pref i) (\<lambda>_. i) (rm_indexes rmap)\<rparr>) l"

definition route_map_add_match :: "('v, 'o) route_map_rule_cmd list \<Rightarrow> 'v route_map \<Rightarrow> 'v route_map_index \<Rightarrow> string \<Rightarrow>
    string option \<Rightarrow> 'v route_map_list \<Rightarrow> 'v route_map_list \<times> rule_result" where
  "route_map_add_match vec rmap i name arg l = (case rule_add vec name arg (ri_match i) of
     (r, replaced, rules) \<Rightarrow>
       if r = RULE_OK
       then (call_rmap_hook (RmapEvent (if replaced then RMAP_EVENT_MATCH_REPLACED else RMAP_EVENT_MATCH_ADDED) (rm_name rmap))
              (put_index rmap (i\<lparr>ri_match := rules\<rparr>) l), r)
       else (l, r))"

definition route_map_delete_match :: "('v, 'o) route_map_rule_cmd list \<Rightarrow> 'v route_map \<Rightarrow> 'v route_map_index \<Rightarrow> string \<Rightarrow>
    string option \<Rightarrow> 'v route_map_list \<Rightarrow> 'v route_map_list \<times> int" where
  "route_map_delete_match vec rmap i name arg l = (case rule_delete vec name arg (ri_match i) of
     (found, rules) \<Rightarrow>
       if found then (call_rmap_hook (RmapEvent RMAP_EVENT_MATCH_DELETED (rm_name rmap)) (put_index rmap (i\<lparr>ri_match := rules\<rparr>) l), 0)
       else (l, 1))"

definition route_map_add_set :: "('v, 'o) route_map_rule_cmd list \<Rightarrow> 'v route_map \<Rightarrow> 'v route_map_index \<Rightarrow> string \<Rightarrow>
    string option \<Rightarrow> 'v route_map_list \<Rightarrow> 'v route_map_list \<times> rule_result" where
  "route_map_add_set vec rmap i name arg l = (case rule_add vec name arg (ri_set i) of
     (r, replaced, rules) \<Rightarrow>
       if r = RULE_OK
       then (call_rmap_hook (RmapEvent (if replaced then RMAP_EVENT_SET_REPLACED else RMAP_EVENT_SET_ADDED) (rm_name rmap))
              (put_index rmap (i\<lparr>ri_set := rules\<rparr>) l), r)
       else (l, r))"

definition route_map_delete_set :: "('v, 'o) route_map_rule_cmd list \<Rightarrow> 'v route_map \<Rightarrow> 'v route_map_index \<Rightarrow> string \<Rightarrow>
    string option \<Rightarrow> 'v route_map_list \<Rightarrow> 'v route_map_list \<times> int" where
  "route_map_delete_set vec rmap i name arg l = (case rule_delete vec name arg (ri_set i) of
     (found, rules) \<Rightarrow>
       if found then (call_rmap_hook (RmapEvent RMAP_EVENT_SET_DELETED (rm_name rmap)) (put_index rmap (i\<lparr>ri_set := rules\<rparr>) l), 0)
       else (l, 1))"

section \<open>Application\<close>

definition cmd_at :: "('v, 'o) route_map_rule_cmd list \<Rightarrow> nat \<Rightarrow> ('v, 'o) route_map_rule_cmd res" where
  "cmd_at vec c = (if c < length vec then Inr (vec ! c) else Inl NullDeref)"

fun match_loop :: "('v, 'o) route_map_rule_cmd list \<Rightarrow> prefix \<Rightarrow> nat \<Rightarrow> route_map_result \<Rightarrow> 'v route_map_rule list \<Rightarrow> 'o \<Rightarrow>
    (route_map_result \<times> 'o) res" where
  "match_loop vec p type ret [] object = Inr (ret, object)"
| "match_loop vec p type ret (rule # rules) object =
     and_then (cmd_at vec (rr_cmd rule)) (\<lambda>cmd.
       case rc_apply cmd (rr_value rule) p type object of
         (ret, object) \<Rightarrow> if ret \<noteq> RMAP_MATCH then Inr (ret, object) else match_loop vec p type ret rules object)"

definition route_map_apply_match :: "('v, 'o) route_map_rule_cmd list \<Rightarrow> 'v route_map_rule list \<Rightarrow> prefix \<Rightarrow> nat \<Rightarrow> 'o \<Rightarrow>
    (route_map_result \<times> 'o) res" where
  "route_map_apply_match vec rules p type object =
     (if rules = [] then Inr (RMAP_MATCH, object) else match_loop vec p type RMAP_NOMATCH rules object)"

fun set_loop :: "('v, 'o) route_map_rule_cmd list \<Rightarrow> prefix \<Rightarrow> nat \<Rightarrow> 'v route_map_rule list \<Rightarrow> route_map_result \<times> 'o \<Rightarrow>
    (route_map_result \<times> 'o) res" where
  "set_loop vec p type [] st = Inr st"
| "set_loop vec p type (rule # rules) st =
     and_then (cmd_at vec (rr_cmd rule)) (\<lambda>cmd. set_loop vec p type rules (rc_apply cmd (rr_value rule) p type (snd st)))"

text \<open>The tables of commands and the maps, which an application only reads.\<close>

record ('v, 'o) rmap_env =
  re_match :: "('v, 'o) route_map_rule_cmd list"
  re_set :: "('v, 'o) route_map_rule_cmd list"
  re_maps :: "'v route_map list"

text \<open>
  The loop over the clauses; \<open>call\<close> is the nested application of another map. The state is the
  object and the counter of nested calls.
\<close>

function index_loop :: "('v, 'o) rmap_env \<Rightarrow> ('v route_map \<Rightarrow> 'o \<times> int \<Rightarrow> (route_map_result \<times> 'o \<times> int) res) \<Rightarrow> prefix \<Rightarrow> nat \<Rightarrow>
    'v route_map_index list \<Rightarrow> 'o \<times> int \<Rightarrow> (route_map_result \<times> 'o \<times> int) res" where
  "index_loop env call p type [] (object, recursion) = Inr (RMAP_DENYMATCH, object, recursion)"
| "index_loop env call p type (index # next) (object, recursion) =
     and_then (route_map_apply_match (re_match env) (ri_match index) p type object) (\<lambda>(ret, object).
       if ret = RMAP_NOMATCH then index_loop env call p type next (object, recursion)
       else if ret = RMAP_MATCH then
         (if ri_type index = RMAP_PERMIT then
            and_then (set_loop (re_set env) p type (ri_set index) (ret, object)) (\<lambda>(ret, object).
            and_then (case ri_nextrm index of
                None \<Rightarrow> Inr (False, ret, object, recursion)
              | Some name \<Rightarrow>
                  (case route_map_lookup_by_name (re_maps env) name of
                     None \<Rightarrow> Inr (ret = RMAP_DENYMATCH, ret, object, recursion)
                   | Some nextrm \<Rightarrow> and_then (call nextrm (object, recursion + 1)) (\<lambda>(ret, object, recursion).
                       Inr (ret = RMAP_DENYMATCH, ret, object, recursion - 1))))
              (\<lambda>(finish, ret, object, recursion).
                 if finish then Inr (ret, object, recursion)
                 else case ri_exitpolicy index of
                     RMAP_EXIT \<Rightarrow> Inr (ret, object, recursion)
                   | RMAP_NEXT \<Rightarrow> index_loop env call p type next (object, recursion)
                   | RMAP_GOTO \<Rightarrow>
                       (let next = dropWhile (\<lambda>i. ri_pref i < ri_nextpref index) next
                        in if next = [] then Inr (ret, object, recursion)
                           else index_loop env call p type next (object, recursion))))
          else if ri_type index = RMAP_DENY then Inr (RMAP_DENYMATCH, object, recursion)
          else index_loop env call p type next (object, recursion))
       else index_loop env call p type next (object, recursion))"
  by pat_completeness auto
termination
  by (relation "measure (\<lambda>(env, call, p, type, is, st). length is)") (auto simp: less_Suc_eq_le length_dropWhile_le)

fun route_map_apply :: "nat \<Rightarrow> ('v, 'o) rmap_env \<Rightarrow> prefix \<Rightarrow> nat \<Rightarrow> 'v route_map option \<Rightarrow> 'o \<times> int \<Rightarrow>
    (route_map_result \<times> 'o \<times> int) res" where
  "route_map_apply 0 env p type rmap st = Inl Diverged"
| "route_map_apply (Suc frames) env p type rmap (object, recursion) =
     (if recursion > RMAP_RECURSION_LIMIT then Inr (RMAP_DENYMATCH, object, 0)
      else case rmap of
          None \<Rightarrow> Inr (RMAP_DENYMATCH, object, recursion)
        | Some m \<Rightarrow> index_loop env (\<lambda>nextrm. route_map_apply frames env p type (Some nextrm)) p type (rm_indexes m) (object, recursion))"

section \<open>Commands\<close>

definition ULONG_MAX :: int where "ULONG_MAX = 2 ^ 64 - 1"

text \<open>\<open>strtoul\<close> with base 10: the value, the characters not taken and whether \<open>errno\<close> is set.\<close>

definition strtoul :: "string \<Rightarrow> int \<times> string \<times> bool" where
  "strtoul s =
     (let t = dropWhile isspace s;
          neg = (take 1 t = ''-'');
          u = (if neg \<or> take 1 t = ''+'' then drop 1 t else t);
          ds = takeWhile isdigit u; v = digits_value 0 ds; rest = drop (length ds) u
      in if ds = [] then (0, s, False)
         else if v > ULONG_MAX then (ULONG_MAX, rest, True)
         else (if neg then (- v) mod 2 ^ 64 else v, rest, False))"

text \<open>The arguments both forms of the command share: the type by a prefix of its name, and a preference.\<close>

definition rmap_args :: "string \<Rightarrow> string \<Rightarrow> (route_map_type \<times> int) option" where
  "rmap_args typestr prefstr =
     (let permit = (if take (length typestr) ''permit'' = typestr then Some RMAP_PERMIT
                    else if take (length typestr) ''deny'' = typestr then Some RMAP_DENY else None)
      in case permit of None \<Rightarrow> None | Some type \<Rightarrow>
         (case strtoul prefstr of (pref, rest, err) \<Rightarrow>
            if pref = ULONG_MAX \<or> rest \<noteq> [] then None
            else if pref = 0 \<or> pref > 65535 then None
            else Some (type, pref)))"

text \<open>
  A terminal is at the clause it edits, in the node of route maps, or outside of that node. The commands that
  remove clauses belong to the parent node, so running one leaves the node of route maps.
\<close>

record 'v rmap_vty =
  rv_list :: "'v route_map_list"
  rv_index :: "(string \<times> int) option"

definition route_map_cmd :: "string \<Rightarrow> string \<Rightarrow> string \<Rightarrow> 'v rmap_vty \<Rightarrow> 'v rmap_vty \<times> cmd_result" where
  "route_map_cmd name typestr prefstr v = (case rmap_args typestr prefstr of
     None \<Rightarrow> (v, CMD_WARNING)
   | Some (permit, pref) \<Rightarrow>
       let (l, rmap) = route_map_get name (rv_list v)
       in (v\<lparr>rv_list := route_map_index_get rmap permit pref l, rv_index := Some (name, pref)\<rparr>, CMD_SUCCESS))"

definition no_route_map_all :: "string \<Rightarrow> 'v route_map_list \<Rightarrow> 'v route_map_list \<times> cmd_result" where
  "no_route_map_all name l = (case route_map_lookup_by_name (rl_maps l) name of
     None \<Rightarrow> (l, CMD_WARNING) | Some rmap \<Rightarrow> (route_map_delete rmap l, CMD_SUCCESS))"

definition no_route_map :: "string \<Rightarrow> string \<Rightarrow> string \<Rightarrow> 'v route_map_list \<Rightarrow> 'v route_map_list \<times> cmd_result" where
  "no_route_map name typestr prefstr l = (case rmap_args typestr prefstr of
     None \<Rightarrow> (l, CMD_WARNING)
   | Some (permit, pref) \<Rightarrow>
       (case route_map_lookup_by_name (rl_maps l) name of None \<Rightarrow> (l, CMD_WARNING) | Some rmap \<Rightarrow>
        case route_map_index_lookup rmap permit pref of None \<Rightarrow> (l, CMD_WARNING) | Some i \<Rightarrow>
        let (l, rmap) = route_map_index_delete (index_wanted permit pref) rmap l
        in (if route_map_empty rmap then route_map_delete rmap l else l, CMD_SUCCESS)))"

text \<open>The commands of a clause.\<close>

definition rmap_onmatch_next :: "'v route_map_index \<Rightarrow> 'v route_map_index" where
  "rmap_onmatch_next i = i\<lparr>ri_exitpolicy := RMAP_NEXT\<rparr>"

definition no_rmap_onmatch_next :: "'v route_map_index \<Rightarrow> 'v route_map_index" where
  "no_rmap_onmatch_next i = i\<lparr>ri_exitpolicy := RMAP_EXIT\<rparr>"

definition rmap_onmatch_goto :: "string option \<Rightarrow> 'v route_map_index \<Rightarrow> 'v route_map_index \<times> cmd_result" where
  "rmap_onmatch_goto arg i =
     (let d = (case arg of
            None \<Rightarrow> Some (ri_pref i + 1)
          | Some s \<Rightarrow> (case strtoul s of (v, rest, err) \<Rightarrow>
              if take 1 s = ''-'' \<or> rest \<noteq> [] \<or> err then None
              else if v < 1 \<or> v > 65536 then None else Some v))
      in case d of None \<Rightarrow> (i, CMD_WARNING) | Some d \<Rightarrow>
         if d \<le> ri_pref i then (i, CMD_WARNING)
         else (i\<lparr>ri_exitpolicy := RMAP_GOTO, ri_nextpref := d\<rparr>, CMD_SUCCESS))"

definition no_rmap_onmatch_goto :: "'v route_map_index \<Rightarrow> 'v route_map_index" where
  "no_rmap_onmatch_goto i = i\<lparr>ri_exitpolicy := RMAP_EXIT\<rparr>"

definition rmap_call :: "string \<Rightarrow> 'v route_map_index \<Rightarrow> 'v route_map_index" where
  "rmap_call name i = i\<lparr>ri_nextrm := Some name\<rparr>"

definition no_rmap_call :: "'v route_map_index \<Rightarrow> 'v route_map_index" where
  "no_rmap_call i = i\<lparr>ri_nextrm := None\<rparr>"

definition rmap_description :: "string \<Rightarrow> 'v route_map_index \<Rightarrow> 'v route_map_index" where
  "rmap_description d i = i\<lparr>ri_description := Some d\<rparr>"

definition no_rmap_description :: "'v route_map_index \<Rightarrow> 'v route_map_index" where
  "no_rmap_description i = i\<lparr>ri_description := None\<rparr>"

text \<open>The commands at a clause; those that add and delete rules come from the daemons.\<close>

datatype rmap_edit =
    OnMatchNext | NoOnMatchNext | OnMatchGoto "string option" | NoOnMatchGoto
  | Call string | NoCall | Description string | NoDescription
  | AddMatch string "string option" | DeleteMatch string "string option"
  | AddSet string "string option" | DeleteSet string "string option"

fun edit_exec :: "('v, 'o) route_map_rule_cmd list \<Rightarrow> ('v, 'o) route_map_rule_cmd list \<Rightarrow> rmap_edit \<Rightarrow>
    'v route_map \<Rightarrow> 'v route_map_index \<Rightarrow> 'v route_map_list \<Rightarrow> 'v route_map_list" where
  "edit_exec mv sv OnMatchNext rmap i l = put_index rmap (rmap_onmatch_next i) l"
| "edit_exec mv sv NoOnMatchNext rmap i l = put_index rmap (no_rmap_onmatch_next i) l"
| "edit_exec mv sv (OnMatchGoto arg) rmap i l = put_index rmap (fst (rmap_onmatch_goto arg i)) l"
| "edit_exec mv sv NoOnMatchGoto rmap i l = put_index rmap (no_rmap_onmatch_goto i) l"
| "edit_exec mv sv (Call name) rmap i l = put_index rmap (rmap_call name i) l"
| "edit_exec mv sv NoCall rmap i l = put_index rmap (no_rmap_call i) l"
| "edit_exec mv sv (Description d) rmap i l = put_index rmap (rmap_description d i) l"
| "edit_exec mv sv NoDescription rmap i l = put_index rmap (no_rmap_description i) l"
| "edit_exec mv sv (AddMatch name arg) rmap i l = fst (route_map_add_match mv rmap i name arg l)"
| "edit_exec mv sv (DeleteMatch name arg) rmap i l = fst (route_map_delete_match mv rmap i name arg l)"
| "edit_exec mv sv (AddSet name arg) rmap i l = fst (route_map_add_set sv rmap i name arg l)"
| "edit_exec mv sv (DeleteSet name arg) rmap i l = fst (route_map_delete_set sv rmap i name arg l)"

datatype rmap_command =
    RouteMapCmd string string string
  | NoRouteMapAll string
  | NoRouteMap string string string
  | Edit rmap_edit

fun rmap_exec :: "('v, 'o) route_map_rule_cmd list \<Rightarrow> ('v, 'o) route_map_rule_cmd list \<Rightarrow> rmap_command \<Rightarrow> 'v rmap_vty \<Rightarrow> 'v rmap_vty res" where
  "rmap_exec mv sv (RouteMapCmd name typestr prefstr) v = Inr (fst (route_map_cmd name typestr prefstr v))"
| "rmap_exec mv sv (NoRouteMapAll name) v = Inr \<lparr>rv_list = fst (no_route_map_all name (rv_list v)), rv_index = None\<rparr>"
| "rmap_exec mv sv (NoRouteMap name typestr prefstr) v =
     Inr \<lparr>rv_list = fst (no_route_map name typestr prefstr (rv_list v)), rv_index = None\<rparr>"
| "rmap_exec mv sv (Edit e) v = (case rv_index v of
     None \<Rightarrow> Inr v
   | Some (name, pref) \<Rightarrow>
       (case get_index name pref (rv_list v) of
          None \<Rightarrow> Inl NullDeref
        | Some (rmap, i) \<Rightarrow> Inr (v\<lparr>rv_list := edit_exec mv sv e rmap i (rv_list v)\<rparr>)))"

fun rmap_run :: "('v, 'o) route_map_rule_cmd list \<Rightarrow> ('v, 'o) route_map_rule_cmd list \<Rightarrow> rmap_command list \<Rightarrow> 'v rmap_vty \<Rightarrow> 'v rmap_vty res" where
  "rmap_run mv sv [] v = Inr v"
| "rmap_run mv sv (c # cs) v = and_then (rmap_exec mv sv c v) (rmap_run mv sv cs)"

text \<open>A daemon starts with no maps, and registers its hooks or not.\<close>

definition rmap_start :: "bool \<Rightarrow> 'v rmap_vty" where
  "rmap_start hooks = \<lparr>rv_list = \<lparr>rl_maps = [], rl_hooks = hooks, rl_log = []\<rparr>, rv_index = None\<rparr>"

section \<open>Nested calls\<close>

text \<open>
  What an application does to the counter, seen from outside: it gives it back, or the limit was
  hit below, the route is denied and the counter is eleven lower than before.
\<close>

definition rmap_post :: "int \<Rightarrow> route_map_result \<times> 'o \<times> int \<Rightarrow> bool" where
  "rmap_post r = (\<lambda>(ret, obj, r'). r' = r \<or> ret = RMAP_DENYMATCH \<and> r' = r - (RMAP_RECURSION_LIMIT + 1))"

text \<open>Every rule points into its table.\<close>

definition rules_ok :: "('v, 'o) rmap_env \<Rightarrow> 'v route_map_index list \<Rightarrow> bool" where
  "rules_ok env is \<longleftrightarrow> (\<forall>i \<in> set is. (\<forall>r \<in> set (ri_match i). rr_cmd r < length (re_match env)) \<and>
     (\<forall>r \<in> set (ri_set i). rr_cmd r < length (re_set env)))"

definition env_ok :: "('v, 'o) rmap_env \<Rightarrow> bool" where
  "env_ok env \<longleftrightarrow> (\<forall>m \<in> set (re_maps env). rules_ok env (rm_indexes m))"

lemma match_loop_total:
  "\<forall>r \<in> set rules. rr_cmd r < length vec \<Longrightarrow> \<exists>x. match_loop vec p ty ret rules obj = Inr x"
  by (induction rules arbitrary: ret obj) (auto simp: cmd_at_def split: prod.splits)

lemma apply_match_total:
  "\<forall>r \<in> set rules. rr_cmd r < length vec \<Longrightarrow> \<exists>x. route_map_apply_match vec rules p ty obj = Inr x"
  using match_loop_total by (auto simp: route_map_apply_match_def)

lemma set_loop_total:
  "\<forall>r \<in> set rules. rr_cmd r < length vec \<Longrightarrow> \<exists>x. set_loop vec p ty rules st = Inr x"
  by (induction rules arbitrary: st) (auto simp: cmd_at_def)

lemma rules_ok_Cons [simp]:
  "rules_ok env (i # is) \<longleftrightarrow> (\<forall>r \<in> set (ri_match i). rr_cmd r < length (re_match env)) \<and>
     (\<forall>r \<in> set (ri_set i). rr_cmd r < length (re_set env)) \<and> rules_ok env is"
  by (auto simp: rules_ok_def)

lemma rules_ok_dropWhile: "rules_ok env is \<Longrightarrow> rules_ok env (dropWhile P is)"
  unfolding rules_ok_def using set_dropWhileD by fast

lemma lookup_in: "route_map_lookup_by_name maps name = Some m \<Longrightarrow> m \<in> set maps \<and> rm_name m = name"
  by (auto simp: route_map_lookup_by_name_def find_Some_iff in_set_conv_nth)

end
