(* ===== verification/RmapConf.thy ===== *)
theory RmapConf
  imports Rmap
begin

text \<open>
  What the commands of \<^verbatim>\<open>lib/routemap.c\<close> keep: names of maps are unique, the clauses of a map
  are in the order of their preferences, jumps go forward, a clause has at most one rule of a
  command, and the clause a terminal edits exists.
\<close>

section \<open>Invariant\<close>

definition index_ok :: "('v, 'o) route_map_rule_cmd list \<Rightarrow> ('v, 'o) route_map_rule_cmd list \<Rightarrow> 'v route_map_index \<Rightarrow> bool" where
  "index_ok mv sv i \<longleftrightarrow> ri_type i \<noteq> RMAP_ANY \<and> 1 \<le> ri_pref i \<and> ri_pref i \<le> 65535 \<and> (ri_exitpolicy i = RMAP_GOTO \<longrightarrow> ri_pref i < ri_nextpref i) \<and>
     distinct (map rr_cmd (ri_match i)) \<and> (\<forall>r \<in> set (ri_match i). rr_cmd r < length mv) \<and>
     distinct (map rr_cmd (ri_set i)) \<and> (\<forall>r \<in> set (ri_set i). rr_cmd r < length sv)"

definition rmap_ok :: "('v, 'o) route_map_rule_cmd list \<Rightarrow> ('v, 'o) route_map_rule_cmd list \<Rightarrow> 'v route_map \<Rightarrow> bool" where
  "rmap_ok mv sv m \<longleftrightarrow> sorted_wrt (<) (map ri_pref (rm_indexes m)) \<and> (\<forall>i \<in> set (rm_indexes m). index_ok mv sv i)"

definition rmaps_ok :: "('v, 'o) route_map_rule_cmd list \<Rightarrow> ('v, 'o) route_map_rule_cmd list \<Rightarrow> 'v route_map_list \<Rightarrow> bool" where
  "rmaps_ok mv sv l \<longleftrightarrow> distinct (map rm_name (rl_maps l)) \<and> (\<forall>m \<in> set (rl_maps l). rmap_ok mv sv m)"

lemma call_rmap_hook_maps [simp]: "rl_maps (call_rmap_hook h l) = rl_maps l"
  by (simp add: call_rmap_hook_def)

lemma rmaps_ok_hook [simp]: "rmaps_ok mv sv (call_rmap_hook h l) = rmaps_ok mv sv l"
  by (simp add: rmaps_ok_def)

lemma put_map_ok:
  assumes "rmaps_ok mv sv l" "rmap_ok mv sv m"
  shows "rmaps_ok mv sv (put_map m l)"
proof -
  have "map rm_name (update_first (called (rm_name m)) (\<lambda>_. m) (rl_maps l)) = map rm_name (rl_maps l)"
    by (rule map_update_first) simp
  then show ?thesis
    using assms set_update_first [of "called (rm_name m)" "\<lambda>_. m" "rl_maps l"] by (auto simp: rmaps_ok_def put_map_def)
qed

lemma lookup_ok: "rmaps_ok mv sv l \<Longrightarrow> route_map_lookup_by_name (rl_maps l) name = Some m \<Longrightarrow> rmap_ok mv sv m"
  using lookup_in by (auto simp: rmaps_ok_def)

lemma route_map_delete_ok:
  assumes "rmaps_ok mv sv l"
  shows "rmaps_ok mv sv (route_map_delete m l)"
proof -
  have "map rm_name (remove_first (called (rm_name m)) (rl_maps l)) = remove_first (\<lambda>n. strcmp n (rm_name m) = 0) (map rm_name (rl_maps l))"
    by (rule map_remove_first) simp
  moreover have "distinct (remove_first P xs)" if "distinct xs" for P and xs :: "string list" using that by (rule distinct_remove_first)
  ultimately show ?thesis
    using assms set_remove_first [of "called (rm_name m)" "rl_maps l"] by (auto simp: rmaps_ok_def route_map_delete_def)
qed

lemma route_map_get_ok:
  assumes "rmaps_ok mv sv l" "route_map_get name l = (l', m)"
  shows "rmaps_ok mv sv l'" "rmap_ok mv sv m"
proof -
  have "rmaps_ok mv sv l' \<and> rmap_ok mv sv m"
  proof (cases "route_map_lookup_by_name (rl_maps l) name")
    case None
    then have "name \<notin> rm_name ` set (rl_maps l)" by (auto simp: route_map_lookup_by_name_def find_None_iff)
    with None assms show ?thesis by (auto simp: route_map_get_def route_map_add_def rmaps_ok_def rmap_ok_def Let_def)
  next
    case (Some m')
    with assms lookup_ok [OF assms(1) Some] show ?thesis by (simp add: route_map_get_def)
  qed
  then show "rmaps_ok mv sv l'" "rmap_ok mv sv m" by blast+
qed

lemma index_delete_ok:
  assumes "rmaps_ok mv sv l" "rmap_ok mv sv m" "route_map_index_delete P m l = (l', m')"
  shows "rmaps_ok mv sv l'" "rmap_ok mv sv m'" "rm_indexes m' = remove_first P (rm_indexes m)"
proof -
  have m': "m' = m\<lparr>rm_indexes := remove_first P (rm_indexes m)\<rparr>"
    and l': "l' = call_rmap_hook (RmapEvent RMAP_EVENT_INDEX_DELETED (rm_name m)) (put_map m' l)"
    using assms(3) by (auto simp: route_map_index_delete_def Let_def)
  have "sorted_wrt (\<lambda>a b. ri_pref a < ri_pref b) (remove_first P (rm_indexes m))"
    using assms(2) by (intro sorted_remove_first) (simp add: rmap_ok_def sorted_wrt_map)
  then show "rmap_ok mv sv m'" using assms(2) set_remove_first [of P "rm_indexes m"] by (auto simp: m' rmap_ok_def sorted_wrt_map)
  then show "rmaps_ok mv sv l'" using put_map_ok [OF assms(1)] by (simp add: l')
  show "rm_indexes m' = remove_first P (rm_indexes m)" by (simp add: m')
qed

lemma index_add_ok:
  assumes "rmaps_ok mv sv l" "rmap_ok mv sv m" "type \<noteq> RMAP_ANY" "\<forall>i \<in> set (rm_indexes m). ri_pref i \<noteq> pref"
    "1 \<le> pref" "pref \<le> 65535"
  shows "rmaps_ok mv sv (route_map_index_add m type pref l)"
proof -
  let ?i = "route_map_index_new type pref"
  have i: "ri_pref ?i = pref" "index_ok mv sv ?i" using assms(3,5,6) by (simp_all add: route_map_index_new_def index_ok_def)
  have "sorted_wrt (\<lambda>a b. ri_pref a < ri_pref b) (insert_point (\<lambda>j. pref \<le> ri_pref j) ?i (rm_indexes m))"
  proof (rule sorted_insert_point)
    show "sorted_wrt (\<lambda>a b. ri_pref a < ri_pref b) (rm_indexes m)" using assms(2) by (simp add: rmap_ok_def sorted_wrt_map)
    show "ri_pref ?i < ri_pref y" if "y \<in> set (rm_indexes m)" "pref \<le> ri_pref y" for y
      using that assms(4) i(1) by (metis order_le_neq_trans)
  qed (simp_all add: i(1))
  then have "rmap_ok mv sv (m\<lparr>rm_indexes := insert_point (\<lambda>j. pref \<le> ri_pref j) ?i (rm_indexes m)\<rparr>)"
    using assms(2) i(2) by (simp add: rmap_ok_def sorted_wrt_map)
  from put_map_ok [OF assms(1) this] show ?thesis by (simp add: route_map_index_add_def Let_def)
qed

lemma sorted_remove_gone:
  assumes "sorted_wrt (<) (map f xs)"
  shows "\<forall>x \<in> set (remove_first (\<lambda>x. f x = n) xs). f x \<noteq> (n :: int)"
  using assms by (induction xs) auto

lemma index_get_ok:
  assumes l: "rmaps_ok mv sv l" and m: "rmap_ok mv sv m" and type: "type \<noteq> RMAP_ANY"
    and pref: "1 \<le> pref" "pref \<le> 65535"
  shows "rmaps_ok mv sv (route_map_index_get m type pref l)"
proof (cases "route_map_index_lookup m RMAP_ANY pref")
  case None
  then have "\<forall>i \<in> set (rm_indexes m). ri_pref i \<noteq> pref"
    by (auto simp: route_map_index_lookup_def find_None_iff index_wanted_def)
  then show ?thesis using None index_add_ok [OF l m type _ pref] by (simp add: route_map_index_get_def)
next
  case (Some i)
  obtain l' m' where d: "route_map_index_delete (index_wanted RMAP_ANY pref) m l = (l', m')" by fastforce
  have "index_wanted RMAP_ANY pref = (\<lambda>i :: 'a route_map_index. ri_pref i = pref)" by (simp add: index_wanted_def fun_eq_iff)
  then have "\<forall>i \<in> set (rm_indexes m'). ri_pref i \<noteq> pref"
    using sorted_remove_gone [of ri_pref "rm_indexes m"] m index_delete_ok(3) [OF l m d] by (simp add: rmap_ok_def)
  then show ?thesis using Some l d index_add_ok [OF index_delete_ok(1,2) [OF l m d] type _ pref] by (simp add: route_map_index_get_def)
qed

section \<open>Clauses after a command\<close>

lemma set_update_distinct:
  assumes "distinct (map f xs)"
  shows "set (update_first (\<lambda>x. f x = n) (\<lambda>_. z) xs) \<subseteq> insert z {x \<in> set xs. f x \<noteq> n}"
  using assms by (induction xs) (auto simp: image_iff)

lemma update_first_in: "n \<in> f ` set xs \<Longrightarrow> z \<in> set (update_first (\<lambda>x. f x = n) (\<lambda>_. z) xs)"
  by (induction xs) auto

lemma remove_first_distinct:
  assumes "distinct (map f xs)"
  shows "set (remove_first (\<lambda>x. f x = n) xs) = {x \<in> set xs. f x \<noteq> n}"
  using assms by (induction xs) (auto simp: image_iff)

lemma map_update_found: "List.find P xs = Some x \<Longrightarrow> g z = g x \<Longrightarrow> map g (update_first P (\<lambda>_. z) xs) = map g xs"
  by (induction xs) (auto split: if_splits)

lemma put_map_maps:
  assumes "rmaps_ok mv sv l" "rm_name m \<in> rm_name ` set (rl_maps l)"
  shows "m \<in> set (rl_maps (put_map m l))" "x \<in> set (rl_maps (put_map m l)) \<Longrightarrow> x = m \<or> x \<in> set (rl_maps l) \<and> rm_name x \<noteq> rm_name m"
    "map rm_name (rl_maps (put_map m l)) = map rm_name (rl_maps l)"
proof -
  show "m \<in> set (rl_maps (put_map m l))" using update_first_in [OF assms(2)] by (simp add: put_map_def)
  show "x = m \<or> x \<in> set (rl_maps l) \<and> rm_name x \<noteq> rm_name m" if "x \<in> set (rl_maps (put_map m l))"
    using that set_update_distinct [of rm_name "rl_maps l"] assms(1) by (auto simp: put_map_def rmaps_ok_def)
  show "map rm_name (rl_maps (put_map m l)) = map rm_name (rl_maps l)"
    unfolding put_map_def by (simp, rule map_update_first) simp
qed

text \<open>After \<open>route_map_index_get\<close> the clause is there, and the other maps are as before.\<close>

definition clause_at :: "string \<Rightarrow> int \<Rightarrow> 'v route_map_list \<Rightarrow> bool" where
  "clause_at name pref l \<longleftrightarrow> (\<exists>m \<in> set (rl_maps l). rm_name m = name \<and> pref \<in> ri_pref ` set (rm_indexes m))"

definition others_kept :: "string \<Rightarrow> 'v route_map_list \<Rightarrow> 'v route_map_list \<Rightarrow> bool" where
  "others_kept name l l' \<longleftrightarrow> (\<forall>x \<in> set (rl_maps l'). rm_name x = name \<or> x \<in> set (rl_maps l))"

lemma index_add_at:
  assumes "rmaps_ok mv sv l" "rm_name m \<in> rm_name ` set (rl_maps l)"
  shows "clause_at (rm_name m) pref (route_map_index_add m type pref l)" "others_kept (rm_name m) l (route_map_index_add m type pref l)"
proof -
  let ?m = "m\<lparr>rm_indexes := insert_point (\<lambda>j. pref \<le> ri_pref j) (route_map_index_new type pref) (rm_indexes m)\<rparr>"
  have maps: "rl_maps (route_map_index_add m type pref l) = rl_maps (put_map ?m l)" by (simp add: route_map_index_add_def Let_def)
  have "pref \<in> ri_pref ` set (rm_indexes ?m)" by (simp add: route_map_index_new_def)
  then show "clause_at (rm_name m) pref (route_map_index_add m type pref l)"
    using put_map_maps(1) [OF assms(1), of ?m] assms(2) unfolding clause_at_def maps by (intro bexI [of _ ?m]) simp_all
  have "x = ?m \<or> x \<in> set (rl_maps l)" if "x \<in> set (rl_maps (put_map ?m l))" for x
    using put_map_maps(2) [OF assms(1), of ?m x] that assms(2) by auto
  moreover have "rm_name ?m = rm_name m" by simp
  ultimately show "others_kept (rm_name m) l (route_map_index_add m type pref l)" unfolding others_kept_def maps by metis
qed

lemma index_delete_at:
  assumes "rmaps_ok mv sv l" "rm_name m \<in> rm_name ` set (rl_maps l)" "route_map_index_delete P m l = (l', m')"
  shows "rm_name m' = rm_name m" "rm_name m' \<in> rm_name ` set (rl_maps l')" "others_kept (rm_name m) l l'"
    "x \<in> set (rl_maps l') \<Longrightarrow> x = m' \<or> x \<in> set (rl_maps l) \<and> rm_name x \<noteq> rm_name m"
proof -
  have m': "m' = m\<lparr>rm_indexes := remove_first P (rm_indexes m)\<rparr>" and maps: "rl_maps l' = rl_maps (put_map m' l)"
    using assms(3) by (auto simp: route_map_index_delete_def Let_def)
  show n: "rm_name m' = rm_name m" by (simp add: m')
  show "rm_name m' \<in> rm_name ` set (rl_maps l')"
    unfolding maps by (rule imageI, rule put_map_maps(1) [OF assms(1)]) (simp add: n assms(2))
  show *: "x = m' \<or> x \<in> set (rl_maps l) \<and> rm_name x \<noteq> rm_name m" if "x \<in> set (rl_maps l')" for x
    using put_map_maps(2) [OF assms(1), of m' x] assms(2) that by (simp add: maps n)
  show "others_kept (rm_name m) l l'" unfolding others_kept_def using * n by blast
qed

lemma others_kept_trans: "others_kept n l l' \<Longrightarrow> others_kept n l' l'' \<Longrightarrow> others_kept n l l''"
  unfolding others_kept_def by blast

lemma index_get_at:
  assumes "rmaps_ok mv sv l" "rmap_ok mv sv m" "m \<in> set (rl_maps l)"
  shows "clause_at (rm_name m) pref (route_map_index_get m type pref l) \<and> others_kept (rm_name m) l (route_map_index_get m type pref l)"
proof (cases "route_map_index_lookup m RMAP_ANY pref")
  case None
  then show ?thesis using index_add_at [OF assms(1), of m] assms(3) by (simp add: route_map_index_get_def)
next
  case (Some i)
  obtain l' m' where d: "route_map_index_delete (index_wanted RMAP_ANY pref) m l = (l', m')" by fastforce
  have n: "rm_name m \<in> rm_name ` set (rl_maps l)" using assms(3) by simp
  note del = index_delete_at [OF assms(1) n d]
  have "clause_at (rm_name m) pref l \<and> others_kept (rm_name m) l l"
    using Some assms(3) by (auto simp: route_map_index_lookup_def find_Some_iff index_wanted_def clause_at_def others_kept_def)
  moreover have "clause_at (rm_name m) pref (route_map_index_add m' type pref l') \<and> others_kept (rm_name m) l (route_map_index_add m' type pref l')"
    using index_add_at [OF index_delete_ok(1) [OF assms(1,2) d] del(2)] del(1) others_kept_trans [OF del(3)] by simp
  ultimately show ?thesis using Some d by (simp add: route_map_index_get_def)
qed

section \<open>Edits of a clause\<close>

definition rules_fit :: "('v, 'o) route_map_rule_cmd list \<Rightarrow> 'v route_map_rule list \<Rightarrow> bool" where
  "rules_fit vec rules \<longleftrightarrow> distinct (map rr_cmd rules) \<and> (\<forall>r \<in> set rules. rr_cmd r < length vec)"

lemma cmd_lookup_less: "cmd_lookup vec name = Some c \<Longrightarrow> c < length vec"
  by (auto simp: cmd_lookup_def find_Some_iff)

lemma rule_add_fit: "rules_fit vec rules \<Longrightarrow> rule_add vec name arg rules = (r, rep, rules') \<Longrightarrow> rules_fit vec rules'"
  by (auto simp: rule_add_def rules_fit_def distinct_map_filter cmd_lookup_less split: option.splits)

lemma rule_delete_fit: "rules_fit vec rules \<Longrightarrow> rule_delete vec name arg rules = (f, rules') \<Longrightarrow> rules_fit vec rules'"
proof (cases "cmd_lookup vec name")
  case (Some c)
  let ?P = "\<lambda>r. rr_cmd r = c \<and> (rulecmp (rr_str r) arg = 0 \<or> arg = None)"
  assume "rules_fit vec rules" "rule_delete vec name arg rules = (f, rules')"
  moreover from this have "rules' = remove_first ?P rules" using Some by (simp add: rule_delete_def Let_def)
  moreover have "distinct (map rr_cmd rules) \<Longrightarrow> distinct (map rr_cmd (remove_first ?P rules))"
    by (induction rules) (auto dest: set_remove_first [THEN subsetD])
  ultimately show ?thesis using set_remove_first by (fastforce simp: rules_fit_def)
qed (simp add: rule_delete_def)

lemma index_ok_fit:
  "index_ok mv sv i \<longleftrightarrow> ri_type i \<noteq> RMAP_ANY \<and> 1 \<le> ri_pref i \<and> ri_pref i \<le> 65535 \<and>
     (ri_exitpolicy i = RMAP_GOTO \<longrightarrow> ri_pref i < ri_nextpref i) \<and> rules_fit mv (ri_match i) \<and> rules_fit sv (ri_set i)"
  by (auto simp: index_ok_def rules_fit_def)

lemmas edit_defs = rmap_onmatch_next_def no_rmap_onmatch_next_def no_rmap_onmatch_goto_def
  rmap_call_def no_rmap_call_def rmap_description_def no_rmap_description_def

lemma edit_exec_put:
  assumes "index_ok mv sv i"
  shows "\<exists>i'. index_ok mv sv i' \<and> ri_pref i' = ri_pref i \<and>
    (edit_exec mv sv e m i l = l \<or> rl_maps (edit_exec mv sv e m i l) = rl_maps (put_index m i' l))"
    (is ?edit)
proof -
  have put: ?edit if "edit_exec mv sv e m i l = put_index m i' l" "index_ok mv sv i'" "ri_pref i' = ri_pref i" for i'
    using that by auto
  show ?thesis
  proof (cases e)
    case (AddMatch name arg)
    obtain r rep rules where "rule_add mv name arg (ri_match i) = (r, rep, rules)" by (metis prod_cases3)
    with AddMatch assms show ?thesis
      by (intro exI [of _ "if r = RULE_OK then i\<lparr>ri_match := rules\<rparr> else i"])
        (auto simp: route_map_add_match_def index_ok_fit dest: rule_add_fit)
  next
    case (DeleteMatch name arg)
    obtain f rules where "rule_delete mv name arg (ri_match i) = (f, rules)" by fastforce
    with DeleteMatch assms show ?thesis
      by (intro exI [of _ "if f then i\<lparr>ri_match := rules\<rparr> else i"])
        (auto simp: route_map_delete_match_def index_ok_fit dest: rule_delete_fit)
  next
    case (AddSet name arg)
    obtain r rep rules where "rule_add sv name arg (ri_set i) = (r, rep, rules)" by (metis prod_cases3)
    with AddSet assms show ?thesis
      by (intro exI [of _ "if r = RULE_OK then i\<lparr>ri_set := rules\<rparr> else i"])
        (auto simp: route_map_add_set_def index_ok_fit dest: rule_add_fit)
  next
    case (DeleteSet name arg)
    obtain f rules where "rule_delete sv name arg (ri_set i) = (f, rules)" by fastforce
    with DeleteSet assms show ?thesis
      by (intro exI [of _ "if f then i\<lparr>ri_set := rules\<rparr> else i"])
        (auto simp: route_map_delete_set_def index_ok_fit dest: rule_delete_fit)
  next
    case (OnMatchGoto arg)
    have "index_ok mv sv (fst (rmap_onmatch_goto arg i)) \<and> ri_pref (fst (rmap_onmatch_goto arg i)) = ri_pref i"
      using assms by (auto simp: rmap_onmatch_goto_def index_ok_fit Let_def split: option.splits)
    with OnMatchGoto show ?thesis by auto
  qed ((rule put, simp, simp add: assms [unfolded index_ok_fit] index_ok_fit edit_defs, simp add: edit_defs)+)
qed

section \<open>Commands\<close>

text \<open>Names and preferences, which an edit keeps.\<close>

definition shape :: "'v route_map_list \<Rightarrow> (string \<times> int list) list" where
  "shape l = map (\<lambda>m. (rm_name m, map ri_pref (rm_indexes m))) (rl_maps l)"

definition full :: "'v route_map_list \<Rightarrow> bool" where
  "full l \<longleftrightarrow> (\<forall>m \<in> set (rl_maps l). rm_indexes m \<noteq> [])"

lemma clause_at_shape: "clause_at n p l \<longleftrightarrow> (\<exists>x \<in> set (shape l). fst x = n \<and> p \<in> set (snd x))"
  by (auto simp: clause_at_def shape_def)

lemma full_shape: "full l \<longleftrightarrow> (\<forall>x \<in> set (shape l). snd x \<noteq> [])"
  by (auto simp: full_def shape_def)

lemma get_index_found:
  assumes "rmaps_ok mv sv l" "clause_at name pref l"
  shows "\<exists>m i. get_index name pref l = Some (m, i)"
proof -
  from assms(2) obtain m where m: "m \<in> set (rl_maps l)" "rm_name m = name" "pref \<in> ri_pref ` set (rm_indexes m)"
    by (auto simp: clause_at_def)
  then obtain m' where m': "route_map_lookup_by_name (rl_maps l) name = Some m'"
    by (cases "route_map_lookup_by_name (rl_maps l) name") (auto simp: route_map_lookup_by_name_def find_None_iff)
  have "m' = m" using lookup_in [OF m'] m(1,2) assms(1) by (auto simp: rmaps_ok_def distinct_map inj_on_def)
  then show ?thesis using m(3) m' by (cases "List.find (\<lambda>i. ri_pref i = pref) (rm_indexes m)") (auto simp: get_index_def find_None_iff)
qed

lemma put_index_ok:
  assumes l: "rmaps_ok mv sv l" and g: "get_index n p l = Some (m, i)" and i: "index_ok mv sv i'" "ri_pref i' = ri_pref i"
  shows "rmaps_ok mv sv (put_index m i' l)" "shape (put_index m i' l) = shape l"
proof -
  let ?is = "update_first (\<lambda>j. ri_pref j = ri_pref i') (\<lambda>_. i') (rm_indexes m)"
  have m: "route_map_lookup_by_name (rl_maps l) n = Some m" using g by (auto simp: get_index_def split: option.splits)
  have prefs: "map ri_pref ?is = map ri_pref (rm_indexes m)" by (rule map_update_first) simp
  have "rmap_ok mv sv (m\<lparr>rm_indexes := ?is\<rparr>)"
    using lookup_ok [OF l m] prefs i(1) set_update_first [of "\<lambda>j. ri_pref j = ri_pref i'" "\<lambda>_. i'" "rm_indexes m"]
    by (auto simp: rmap_ok_def)
  then show "rmaps_ok mv sv (put_index m i' l)" unfolding put_index_def by (rule put_map_ok [OF l])
  have "List.find (called (rm_name m)) (rl_maps l) = Some m" using m lookup_in [OF m] by (simp add: route_map_lookup_by_name_def)
  then show "shape (put_index m i' l) = shape l"
    unfolding shape_def put_index_def put_map_def using prefs by (simp add: map_update_found)
qed

lemma get_index_ok: "rmaps_ok mv sv l \<Longrightarrow> get_index n p l = Some (m, i) \<Longrightarrow> index_ok mv sv i"
  by (auto simp: get_index_def find_Some_iff rmap_ok_def dest: lookup_ok split: option.splits)

lemma rmaps_ok_maps: "rl_maps l = rl_maps l' \<Longrightarrow> rmaps_ok mv sv l = rmaps_ok mv sv l'"
  by (simp add: rmaps_ok_def)

lemma edit_exec_ok:
  assumes "rmaps_ok mv sv l" "get_index n p l = Some (m, i)"
  shows "rmaps_ok mv sv (edit_exec mv sv e m i l) \<and> shape (edit_exec mv sv e m i l) = shape l"
proof -
  obtain i' where i': "index_ok mv sv i'" "ri_pref i' = ri_pref i"
    and e: "edit_exec mv sv e m i l = l \<or> rl_maps (edit_exec mv sv e m i l) = rl_maps (put_index m i' l)"
    using edit_exec_put [OF get_index_ok [OF assms]] by blast
  from e show ?thesis
  proof
    assume "rl_maps (edit_exec mv sv e m i l) = rl_maps (put_index m i' l)"
    with put_index_ok [OF assms i'] show ?thesis by (simp add: shape_def rmaps_ok_def)
  qed (simp add: assms(1))
qed

definition vty_ok :: "('v, 'o) route_map_rule_cmd list \<Rightarrow> ('v, 'o) route_map_rule_cmd list \<Rightarrow> 'v rmap_vty \<Rightarrow> bool" where
  "vty_ok mv sv v \<longleftrightarrow> rmaps_ok mv sv (rv_list v) \<and> full (rv_list v) \<and>
     (case rv_index v of None \<Rightarrow> True | Some (name, pref) \<Rightarrow> clause_at name pref (rv_list v))"

lemma digits_value_nonneg: "0 \<le> acc \<Longrightarrow> 0 \<le> digits_value acc ds"
proof (induction acc ds rule: digits_value.induct)
  case (2 acc c cs)
  have "int (of_char c) = of_char c" by (rule of_nat_of_char)
  with 2 show ?case by (auto simp: isdigit_def)
qed simp

lemma rmap_args_range: "rmap_args t p = Some (type, pref) \<Longrightarrow> type \<noteq> RMAP_ANY \<and> 1 \<le> pref \<and> pref \<le> 65535"
proof -
  assume a: "rmap_args t p = Some (type, pref)"
  obtain v rest err where s: "strtoul p = (v, rest, err)" by (metis prod_cases3)
  have "0 \<le> digits_value 0 ds" for ds by (rule digits_value_nonneg) simp
  then have "0 \<le> v" using s by (auto simp: strtoul_def Let_def ULONG_MAX_def split: if_splits)
  with a s show ?thesis by (auto simp: rmap_args_def Let_def split: if_splits option.splits)
qed

lemma route_map_get_in:
  assumes "route_map_get name l = (l', m)" "full l"
  shows "m \<in> set (rl_maps l')" "rm_name m = name" "\<forall>x \<in> set (rl_maps l'). rm_name x = name \<or> rm_indexes x \<noteq> []"
  using assms lookup_in by (auto simp: route_map_get_def route_map_add_def full_def Let_def split: option.splits)

lemma route_map_cmd_ok: "vty_ok mv sv v \<Longrightarrow> vty_ok mv sv (fst (route_map_cmd name t p v))"
proof (cases "rmap_args t p")
  case (Some a)
  assume v: "vty_ok mv sv v"
  obtain type pref where a: "a = (type, pref)" by fastforce
  obtain l m where g: "route_map_get name (rv_list v) = (l, m)" by fastforce
  let ?l = "route_map_index_get m type pref l"
  have v': "rmaps_ok mv sv (rv_list v)" "full (rv_list v)" using v by (simp_all add: vty_ok_def)
  note range = rmap_args_range [OF Some [unfolded a]]
  note ok = route_map_get_ok [OF v'(1) g] and maps = route_map_get_in [OF g v'(2)]
  have l': "rmaps_ok mv sv ?l" using index_get_ok [OF ok] range by blast
  have at: "clause_at name pref ?l" "others_kept name l ?l" using index_get_at [OF ok maps(1), of pref type] maps(2) by simp_all
  have "rm_indexes x \<noteq> []" if x: "x \<in> set (rl_maps ?l)" for x
  proof (cases "rm_name x = name")
    case True
    with at(1) x l' show ?thesis by (fastforce simp: clause_at_def rmaps_ok_def distinct_map inj_on_def)
  next
    case False
    with at(2) maps(3) x show ?thesis by (auto simp: others_kept_def)
  qed
  then show ?thesis using Some a g l' at(1) by (simp add: route_map_cmd_def vty_ok_def full_def)
qed (simp add: route_map_cmd_def)

lemma route_map_delete_full:
  assumes "rmaps_ok mv sv l" "\<forall>x \<in> set (rl_maps l). rm_name x = rm_name m \<or> rm_indexes x \<noteq> []"
  shows "full (route_map_delete m l)"
  using assms remove_first_distinct [of rm_name "rl_maps l" "rm_name m"] by (auto simp: full_def route_map_delete_def rmaps_ok_def)

lemma no_route_map_all_ok:
  assumes "rmaps_ok mv sv l" "full l"
  shows "rmaps_ok mv sv (fst (no_route_map_all name l)) \<and> full (fst (no_route_map_all name l))"
  using assms route_map_delete_ok [OF assms(1)] route_map_delete_full [OF assms(1)]
  by (cases "route_map_lookup_by_name (rl_maps l) name") (auto simp: no_route_map_all_def full_def)

lemma no_route_map_ok:
  assumes "rmaps_ok mv sv l" "full l"
  shows "rmaps_ok mv sv (fst (no_route_map name t p l)) \<and> full (fst (no_route_map name t p l))"
proof -
  have "rmaps_ok mv sv (fst (no_route_map name t p l)) \<and> full (fst (no_route_map name t p l))"
    if "rmap_args t p = Some (type, pref)" and m: "route_map_lookup_by_name (rl_maps l) name = Some m"
      and "route_map_index_lookup m type pref = Some i" for type pref m i
  proof -
    obtain l' m' where d: "route_map_index_delete (index_wanted type pref) m l = (l', m')" by fastforce
    have n: "rm_name m \<in> rm_name ` set (rl_maps l)" using lookup_in [OF m] by blast
    note ok = index_delete_ok [OF assms(1) lookup_ok [OF assms(1) m] d] and at = index_delete_at [OF assms(1) n d]
    have others: "\<forall>x \<in> set (rl_maps l'). x = m' \<or> rm_indexes x \<noteq> []" using at(4) assms(2) by (auto simp: full_def)
    have "full (if route_map_empty m' then route_map_delete m' l' else l')"
    proof (cases "route_map_empty m'")
      case True
      have "\<forall>x \<in> set (rl_maps l'). rm_name x = rm_name m' \<or> rm_indexes x \<noteq> []" using others by metis
      with True show ?thesis using route_map_delete_full [OF ok(1)] by simp
    next
      case False
      then show ?thesis using others by (auto simp: route_map_empty_def full_def)
    qed
    then show ?thesis using that d ok(1) route_map_delete_ok [OF ok(1), of m'] by (auto simp: no_route_map_def)
  qed
  then show ?thesis using assms by (auto simp: no_route_map_def split: option.splits)
qed

lemma rmap_exec_ok: "vty_ok mv sv v \<Longrightarrow> \<exists>v'. rmap_exec mv sv c v = Inr v' \<and> vty_ok mv sv v'"
proof (induction mv sv c v rule: rmap_exec.induct)
  case (4 mv sv e v)
  show ?case
  proof (cases "rv_index v")
    case (Some a)
    obtain name pref where a: "a = (name, pref)" by fastforce
    with 4 Some have v: "rmaps_ok mv sv (rv_list v)" "full (rv_list v)" "clause_at name pref (rv_list v)" by (auto simp: vty_ok_def)
    from get_index_found [OF v(1,3)] obtain m i where g: "get_index name pref (rv_list v) = Some (m, i)" by blast
    with edit_exec_ok [OF v(1) g, of e] v Some a show ?thesis by (simp add: vty_ok_def full_shape clause_at_shape)
  qed (insert 4, simp)
qed (simp_all add: route_map_cmd_ok, auto simp: vty_ok_def no_route_map_all_ok no_route_map_ok)

lemma rmap_run_ok: "vty_ok mv sv v \<Longrightarrow> \<exists>v'. rmap_run mv sv cs v = Inr v' \<and> vty_ok mv sv v'"
proof (induction cs arbitrary: v)
  case (Cons c cs)
  from rmap_exec_ok [OF Cons.prems] obtain v' where "rmap_exec mv sv c v = Inr v'" "vty_ok mv sv v'" by blast
  with Cons.IH show ?case by simp
qed simp

lemma vty_ok_start: "vty_ok mv sv (rmap_start hooks)"
  by (simp add: vty_ok_def rmap_start_def rmaps_ok_def full_def)

section \<open>Properties\<close>

text \<open>C14: Whatever commands a terminal runs, none follows a dangling pointer to a clause, and afterwards
  the names of the route maps are unique, no map is without a clause, the clauses of a map are
  in strictly increasing order of preferences between 1 and 65535, each permits or denies, a jump
  goes to a greater preference, and a clause has at most one rule of a command, which is in
  the table.
\<close>

theorem rmap_commands_keep_order: "\<exists>v. rmap_run mv sv cs (rmap_start hooks) = Inr v \<and> vty_ok mv sv v"
  by (rule rmap_run_ok) (rule vty_ok_start)

end
