(* ===== verification/RmapProps.thy ===== *)
theory RmapProps
  imports RmapConf
begin

text \<open>
  The meaning of a route map, as the comment in \<^verbatim>\<open>lib/routemap.c\<close> tabulates it, and that
  \<open>route_map_apply\<close> computes it as long as calls are not nested too deeply, and what happens to the
  counter of nested calls when they are.

  The meaning is defined without the functions of the code: a clause matches if all its match rules do, one after
  the other; its action applies all set rules and accepts the route unless the map it calls denies it. Where the
  comment says two things about \<open>goto n\<close>, the first clause with a preference above \<open>n\<close>, and the \<open>n\<close>th clause
  or the first one after it, the meaning has the second.
\<close>

section \<open>Meaning\<close>

datatype verdict = Accept | Deny

fun rules_match :: "('v, 'o) route_map_rule_cmd list \<Rightarrow> prefix \<Rightarrow> nat \<Rightarrow> 'v route_map_rule list \<Rightarrow> 'o \<Rightarrow> bool \<times> 'o" where
  "rules_match cmds p type [] obj = (True, obj)"
| "rules_match cmds p type (r # rs) obj =
     (let (ret, obj') = rc_apply (cmds ! rr_cmd r) (rr_value r) p type obj
      in if ret = RMAP_MATCH then rules_match cmds p type rs obj' else (False, obj'))"

definition sets_applied :: "('v, 'o) route_map_rule_cmd list \<Rightarrow> prefix \<Rightarrow> nat \<Rightarrow> 'v route_map_rule list \<Rightarrow> 'o \<Rightarrow> 'o" where
  "sets_applied cmds p type rs obj = fold (\<lambda>r obj. snd (rc_apply (cmds ! rr_cmd r) (rr_value r) p type obj)) rs obj"

text \<open>The clauses to go on with after a clause has matched, if the exit policy goes on.\<close>

definition exit_to :: "'v route_map_index \<Rightarrow> 'v route_map_index list \<Rightarrow> 'v route_map_index list option" where
  "exit_to i is = (case ri_exitpolicy i of
     RMAP_EXIT \<Rightarrow> None
   | RMAP_NEXT \<Rightarrow> Some is
   | RMAP_GOTO \<Rightarrow> (let js = dropWhile (\<lambda>j. ri_pref j < ri_nextpref i) is in if js = [] then None else Some js))"

definition callee :: "('v, 'o) rmap_env \<Rightarrow> 'v route_map_index \<Rightarrow> 'v route_map option" where
  "callee env i = (case ri_nextrm i of None \<Rightarrow> None | Some name \<Rightarrow> route_map_lookup_by_name (re_maps env) name)"

text \<open>
  \<open>rm_eval env p type k is obj v obj'\<close>: the clauses \<open>is\<close> take the object from \<open>obj\<close> to \<open>obj'\<close>
  with the verdict \<open>v\<close>, with at most \<open>k\<close> calls nested.
\<close>

inductive rm_eval :: "('v, 'o) rmap_env \<Rightarrow> prefix \<Rightarrow> nat \<Rightarrow> nat \<Rightarrow> 'v route_map_index list \<Rightarrow> 'o \<Rightarrow> verdict \<Rightarrow> 'o \<Rightarrow> bool"
  for env :: "('v, 'o) rmap_env" and p :: prefix and type :: nat where
  exhausted: "rm_eval env p type k [] obj Deny obj"
| cont: "rules_match (re_match env) p type (ri_match i) obj = (False, obj1) \<Longrightarrow> rm_eval env p type k is obj1 v obj' \<Longrightarrow>
    rm_eval env p type k (i # is) obj v obj'"
| deny: "rules_match (re_match env) p type (ri_match i) obj = (True, obj1) \<Longrightarrow> ri_type i = RMAP_DENY \<Longrightarrow>
    rm_eval env p type k (i # is) obj Deny obj1"
| permit: "rules_match (re_match env) p type (ri_match i) obj = (True, obj1) \<Longrightarrow> ri_type i = RMAP_PERMIT \<Longrightarrow>
    obj2 = sets_applied (re_set env) p type (ri_set i) obj1 \<Longrightarrow> callee env i = None \<Longrightarrow> exit_to i is = None \<Longrightarrow>
    rm_eval env p type k (i # is) obj Accept obj2"
| permit_on: "rules_match (re_match env) p type (ri_match i) obj = (True, obj1) \<Longrightarrow> ri_type i = RMAP_PERMIT \<Longrightarrow>
    obj2 = sets_applied (re_set env) p type (ri_set i) obj1 \<Longrightarrow> callee env i = None \<Longrightarrow> exit_to i is = Some js \<Longrightarrow>
    rm_eval env p type k js obj2 v obj' \<Longrightarrow> rm_eval env p type k (i # is) obj v obj'"
| call_deny: "rules_match (re_match env) p type (ri_match i) obj = (True, obj1) \<Longrightarrow> ri_type i = RMAP_PERMIT \<Longrightarrow>
    obj2 = sets_applied (re_set env) p type (ri_set i) obj1 \<Longrightarrow> callee env i = Some m \<Longrightarrow>
    rm_eval env p type k (rm_indexes m) obj2 Deny obj3 \<Longrightarrow> rm_eval env p type (Suc k) (i # is) obj Deny obj3"
| call: "rules_match (re_match env) p type (ri_match i) obj = (True, obj1) \<Longrightarrow> ri_type i = RMAP_PERMIT \<Longrightarrow>
    obj2 = sets_applied (re_set env) p type (ri_set i) obj1 \<Longrightarrow> callee env i = Some m \<Longrightarrow>
    rm_eval env p type k (rm_indexes m) obj2 Accept obj3 \<Longrightarrow> exit_to i is = None \<Longrightarrow> rm_eval env p type (Suc k) (i # is) obj Accept obj3"
| call_on: "rules_match (re_match env) p type (ri_match i) obj = (True, obj1) \<Longrightarrow> ri_type i = RMAP_PERMIT \<Longrightarrow>
    obj2 = sets_applied (re_set env) p type (ri_set i) obj1 \<Longrightarrow> callee env i = Some m \<Longrightarrow>
    rm_eval env p type k (rm_indexes m) obj2 Accept obj3 \<Longrightarrow> exit_to i is = Some js \<Longrightarrow>
    rm_eval env p type (Suc k) js obj3 v obj' \<Longrightarrow> rm_eval env p type (Suc k) (i # is) obj v obj'"

text \<open>How the code tells the verdict, and what it asks of the set functions of the daemons: that they do not
  answer with the value that denies a route.\<close>

definition verdict_of :: "route_map_result \<Rightarrow> verdict" where
  "verdict_of ret = (if ret = RMAP_DENYMATCH then Deny else Accept)"

definition sets_accept :: "('v, 'o) route_map_rule_cmd list \<Rightarrow> bool" where
  "sets_accept cmds \<longleftrightarrow> (\<forall>c \<in> set cmds. \<forall>v p type obj. fst (rc_apply c v p type obj) \<noteq> RMAP_DENYMATCH)"

section \<open>Rules\<close>

lemma match_loop_rules:
  assumes "\<forall>r \<in> set rules. rr_cmd r < length vec" "rules = [] \<longrightarrow> ret = RMAP_MATCH"
  shows "\<exists>m. match_loop vec p type ret rules obj = Inr (m, snd (rules_match vec p type rules obj)) \<and>
    (m = RMAP_MATCH \<longleftrightarrow> fst (rules_match vec p type rules obj))"
  using assms by (induction rules arbitrary: ret obj) (auto simp: cmd_at_def split: prod.splits)

lemma apply_match_rules:
  assumes "\<forall>r \<in> set rules. rr_cmd r < length vec"
  shows "\<exists>m. route_map_apply_match vec rules p type obj = Inr (m, snd (rules_match vec p type rules obj)) \<and>
    (m = RMAP_MATCH \<longleftrightarrow> fst (rules_match vec p type rules obj))"
  using match_loop_rules [OF assms, of RMAP_NOMATCH] by (auto simp: route_map_apply_match_def)

lemma set_loop_rules:
  assumes "\<forall>r \<in> set rules. rr_cmd r < length vec" "sets_accept vec" "ret \<noteq> RMAP_DENYMATCH"
  shows "\<exists>s. set_loop vec p type rules (ret, obj) = Inr (s, sets_applied vec p type rules obj) \<and> s \<noteq> RMAP_DENYMATCH"
  using assms
proof (induction rules arbitrary: ret obj)
  case (Cons r rules)
  obtain s o1 where s: "rc_apply (vec ! rr_cmd r) (rr_value r) p type obj = (s, o1)" by (cases "rc_apply (vec ! rr_cmd r) (rr_value r) p type obj")
  have "s \<noteq> RMAP_DENYMATCH" using Cons.prems(1,2) s unfolding sets_accept_def by (metis fst_conv list.set_intros(1) nth_mem)
  then show ?case using Cons s by (simp add: cmd_at_def sets_applied_def)
qed (simp add: sets_applied_def)

section \<open>The loop\<close>

text \<open>One clause of the loop, in terms of the notions above.\<close>

lemma index_loop_Cons:
  "index_loop env call p type (i # is) (obj, r) =
     and_then (route_map_apply_match (re_match env) (ri_match i) p type obj) (\<lambda>(m, obj).
       if m \<noteq> RMAP_MATCH \<or> ri_type i = RMAP_ANY then index_loop env call p type is (obj, r)
       else if ri_type i = RMAP_DENY then Inr (RMAP_DENYMATCH, obj, r)
       else and_then (set_loop (re_set env) p type (ri_set i) (m, obj)) (\<lambda>(ret, obj).
         and_then (case callee env i of
             None \<Rightarrow> Inr (ri_nextrm i \<noteq> None \<and> ret = RMAP_DENYMATCH, ret, obj, r)
           | Some m \<Rightarrow> and_then (call m (obj, r + 1)) (\<lambda>(ret, obj, r). Inr (ret = RMAP_DENYMATCH, ret, obj, r - 1)))
           (\<lambda>(finish, ret, obj, r).
              if finish then Inr (ret, obj, r)
              else case exit_to i is of None \<Rightarrow> Inr (ret, obj, r) | Some js \<Rightarrow> index_loop env call p type js (obj, r))))"
  by (cases "ri_type i"; cases "ri_exitpolicy i"; cases "ri_nextrm i")
    (auto simp: exit_to_def callee_def Let_def intro!: and_then_cong split: option.splits)

declare index_loop.simps(2) [simp del]

lemma exit_to_shorter: "exit_to i is = Some js \<Longrightarrow> length js \<le> length is \<and> (\<exists>P. js = dropWhile P is)"
proof (cases "ri_exitpolicy i")
  case RMAP_NEXT
  assume "exit_to i is = Some js"
  with RMAP_NEXT have "js = dropWhile (\<lambda>_. False) is" by (simp add: exit_to_def)
  then show ?thesis by (metis length_dropWhile_le)
qed (auto simp: exit_to_def Let_def length_dropWhile_le split: if_splits)

lemma callee_in: "callee env i = Some m \<Longrightarrow> m \<in> set (re_maps env)"
  by (auto simp: callee_def dest: lookup_in split: option.splits)

abbreviation nested :: "nat \<Rightarrow> ('v, 'o) rmap_env \<Rightarrow> prefix \<Rightarrow> nat \<Rightarrow> 'v route_map \<Rightarrow> 'o \<times> int \<Rightarrow> (route_map_result \<times> 'o \<times> int) res" where
  "nested frames env p type \<equiv> (\<lambda>m. route_map_apply frames env p type (Some m))"

lemma clause_parts:
  assumes "env_ok env" "sets_accept (re_set env)" "rules_ok env (i # is)"
  shows "\<exists>m s. route_map_apply_match (re_match env) (ri_match i) p type obj = Inr (m, snd (rules_match (re_match env) p type (ri_match i) obj)) \<and>
    (m = RMAP_MATCH \<longleftrightarrow> fst (rules_match (re_match env) p type (ri_match i) obj)) \<and>
    set_loop (re_set env) p type (ri_set i) (RMAP_MATCH, snd (rules_match (re_match env) p type (ri_match i) obj)) =
      Inr (s, sets_applied (re_set env) p type (ri_set i) (snd (rules_match (re_match env) p type (ri_match i) obj))) \<and> s \<noteq> RMAP_DENYMATCH \<and> rules_ok env is"
  using apply_match_rules [of "ri_match i" "re_match env" p type obj] set_loop_rules [OF _ assms(2), of "ri_set i" RMAP_MATCH p type] assms(3)
  by fastforce

lemma rules_ok_exit: "exit_to i is = Some js \<Longrightarrow> rules_ok env (i # is) \<Longrightarrow> rules_ok env js"
  using exit_to_shorter [of i "is" js] rules_ok_dropWhile by fastforce

text \<open>The meaning is what the loop returns.\<close>

lemma rm_eval_loop:
  assumes "rm_eval env p type k is obj v obj'" "env_ok env" "sets_accept (re_set env)" "rules_ok env is"
    "int k = RMAP_RECURSION_LIMIT - r" "k < frames"
  shows "\<exists>ret. index_loop env (nested frames env p type) p type is (obj, r) = Inr (ret, obj', r) \<and> verdict_of ret = v"
  using assms
proof (induction arbitrary: r frames rule: rm_eval.induct)
  case (exhausted k obj)
  then show ?case by (simp add: verdict_of_def)
next
  case (cont i obj obj1 k "is" v obj')
  from clause_parts [OF cont.prems(1-3), of p type obj] cont show ?case by (auto simp: index_loop_Cons)
next
  case (deny i obj obj1 k "is")
  from clause_parts [OF deny.prems(1-3), of p type obj] deny show ?case by (auto simp: index_loop_Cons verdict_of_def)
next
  case (permit i obj obj1 obj2 "is" k)
  from clause_parts [OF permit.prems(1-3), of p type obj] permit show ?case by (auto simp: index_loop_Cons verdict_of_def)
next
  case (permit_on i obj obj1 obj2 "is" js k v obj')
  from clause_parts [OF permit_on.prems(1-3), of p type obj] permit_on rules_ok_exit [of i "is" js env] show ?case
    by (auto simp: index_loop_Cons)
next
  case (call_deny i obj obj1 obj2 m k obj3 "is")
  then obtain f where f: "frames = Suc f" "k < f" by (cases frames) auto
  have ok: "rules_ok env (rm_indexes m)" using call_deny.hyps(4) call_deny.prems(1) callee_in by (auto simp: env_ok_def)
  have k: "int k = RMAP_RECURSION_LIMIT - (r + 1)" using call_deny.prems(4) by simp
  obtain ret where "index_loop env (nested f env p type) p type (rm_indexes m) (obj2, r + 1) = Inr (ret, obj3, r + 1)" "verdict_of ret = Deny"
    using call_deny.IH [OF call_deny.prems(1,2) ok k f(2)] by blast
  then have c: "nested frames env p type m (obj2, r + 1) = Inr (ret, obj3, r + 1)" "verdict_of ret = Deny" using f(1) k by simp_all
  from c clause_parts [OF call_deny.prems(1-3), of p type obj] call_deny.hyps show ?case
    by (auto simp: index_loop_Cons verdict_of_def split: if_splits)
next
  case (call i obj obj1 obj2 m k obj3 "is")
  then obtain f where f: "frames = Suc f" "k < f" by (cases frames) auto
  have ok: "rules_ok env (rm_indexes m)" using call.hyps(4) call.prems(1) callee_in by (auto simp: env_ok_def)
  have k: "int k = RMAP_RECURSION_LIMIT - (r + 1)" using call.prems(4) by simp
  obtain ret where "index_loop env (nested f env p type) p type (rm_indexes m) (obj2, r + 1) = Inr (ret, obj3, r + 1)" "verdict_of ret = Accept"
    using call.IH [OF call.prems(1,2) ok k f(2)] by blast
  then have c: "nested frames env p type m (obj2, r + 1) = Inr (ret, obj3, r + 1)" "verdict_of ret = Accept" using f(1) k by simp_all
  from c clause_parts [OF call.prems(1-3), of p type obj] call.hyps show ?case
    by (auto simp: index_loop_Cons verdict_of_def split: if_splits)
next
  case (call_on i obj obj1 obj2 m k obj3 "is" js v obj')
  then obtain f where f: "frames = Suc f" "k < f" by (cases frames) auto
  have ok: "rules_ok env (rm_indexes m)" using call_on.hyps(4) call_on.prems(1) callee_in by (auto simp: env_ok_def)
  have k: "int k = RMAP_RECURSION_LIMIT - (r + 1)" using call_on.prems(4) by simp
  obtain ret where "index_loop env (nested f env p type) p type (rm_indexes m) (obj2, r + 1) = Inr (ret, obj3, r + 1)" "verdict_of ret = Accept"
    using call_on.IH(1) [OF call_on.prems(1,2) ok k f(2)] by blast
  then have c: "nested frames env p type m (obj2, r + 1) = Inr (ret, obj3, r + 1)" "verdict_of ret = Accept" using f(1) k by simp_all
  have "rules_ok env js" using rules_ok_exit [OF call_on.hyps(6)] call_on.prems(3) by simp
  then obtain ret' where "index_loop env (nested frames env p type) p type js (obj3, r) = Inr (ret', obj', r)" "verdict_of ret' = v"
    using call_on.IH(2) call_on.prems by blast
  with c clause_parts [OF call_on.prems(1-3), of p type obj] call_on.hyps show ?case
    by (auto simp: index_loop_Cons verdict_of_def split: if_splits)
qed

text \<open>The loop returns, with the meaning or after the limit was hit, when the calls it makes do.\<close>

definition settled :: "('o \<Rightarrow> verdict \<Rightarrow> 'o \<Rightarrow> bool) \<Rightarrow> int \<Rightarrow> 'o \<Rightarrow> (route_map_result \<times> 'o \<times> int) res \<Rightarrow> bool" where
  "settled Q r obj x \<longleftrightarrow> (\<exists>ret obj' r'. x = Inr (ret, obj', r') \<and>
     (r' = r \<and> Q obj (verdict_of ret) obj' \<or> r' = r - (RMAP_RECURSION_LIMIT + 1) \<and> ret = RMAP_DENYMATCH))"

definition deeper :: "('v, 'o) rmap_env \<Rightarrow> prefix \<Rightarrow> nat \<Rightarrow> nat \<Rightarrow> 'v route_map \<Rightarrow> 'o \<Rightarrow> verdict \<Rightarrow> 'o \<Rightarrow> bool" where
  "deeper env p type k m obj v obj' \<longleftrightarrow> (\<exists>j. k = Suc j \<and> rm_eval env p type j (rm_indexes m) obj v obj')"

lemma settled_mono: "settled Q r obj x \<Longrightarrow> (\<And>v obj'. Q obj v obj' \<Longrightarrow> Q' obj2 v obj') \<Longrightarrow> settled Q' r obj2 x"
  unfolding settled_def by blast

lemma settledI: "Q obj (verdict_of ret) obj' \<Longrightarrow> settled Q r obj (Inr (ret, obj', r))"
  by (simp add: settled_def)

text \<open>A clause that permits, without and with a call.\<close>

lemma plain_settled:
  assumes pre: "rules_match (re_match env) p type (ri_match i) obj = (True, o1)" "ri_type i = RMAP_PERMIT"
    and m: "route_map_apply_match (re_match env) (ri_match i) p type obj = Inr (RMAP_MATCH, o1)"
    and s: "set_loop (re_set env) p type (ri_set i) (RMAP_MATCH, o1) = Inr (s, o2)" "s \<noteq> RMAP_DENYMATCH"
      "o2 = sets_applied (re_set env) p type (ri_set i) o1"
    and on: "\<And>ks o2. exit_to i js = Some ks \<Longrightarrow> settled (rm_eval env p type k ks) r o2 (index_loop env call p type ks (o2, r))"
    and none: "callee env i = None"
  shows "settled (rm_eval env p type k (i # js)) r obj (index_loop env call p type (i # js) (obj, r))"
proof (cases "exit_to i js")
  case None
  have "settled (rm_eval env p type k (i # js)) r obj (Inr (s, o2, r))"
    by (rule settledI) (insert rm_eval.permit [OF pre s(3) none None] s(2), simp add: verdict_of_def)
  then show ?thesis using pre m s none None by (simp add: index_loop_Cons)
next
  case (Some ks)
  have "settled (rm_eval env p type k (i # js)) r obj (index_loop env call p type ks (o2, r))"
    by (rule settled_mono [OF on [OF Some]]) (rule rm_eval.permit_on [OF pre s(3) none Some])
  then show ?thesis using pre m s none Some by (simp add: index_loop_Cons)
qed

lemma call_settled:
  assumes pre: "rules_match (re_match env) p type (ri_match i) obj = (True, o1)" "ri_type i = RMAP_PERMIT"
    and m: "route_map_apply_match (re_match env) (ri_match i) p type obj = Inr (RMAP_MATCH, o1)"
    and s: "set_loop (re_set env) p type (ri_set i) (RMAP_MATCH, o1) = Inr (s, o2)" "s \<noteq> RMAP_DENYMATCH"
      "o2 = sets_applied (re_set env) p type (ri_set i) o1"
    and on: "\<And>ks o2. exit_to i js = Some ks \<Longrightarrow> settled (rm_eval env p type k ks) r o2 (index_loop env call p type ks (o2, r))"
    and some: "callee env i = Some c" and sc: "settled (deeper env p type k c) (r + 1) o2 (call c (o2, r + 1))"
  shows "settled (rm_eval env p type k (i # js)) r obj (index_loop env call p type (i # js) (obj, r))"
proof -
  from sc obtain ret o3 r' where c: "call c (o2, r + 1) = Inr (ret, o3, r')"
    and alt: "r' = r + 1 \<and> deeper env p type k c o2 (verdict_of ret) o3 \<or> r' = r + 1 - (RMAP_RECURSION_LIMIT + 1) \<and> ret = RMAP_DENYMATCH"
    unfolding settled_def by blast
  note pre' = pre m s some c
  show ?thesis
  proof (cases "r' = r + 1 \<and> deeper env p type k c o2 (verdict_of ret) o3")
    case False
    with alt have "r' - 1 = r - (RMAP_RECURSION_LIMIT + 1)" "ret = RMAP_DENYMATCH" by auto
    then show ?thesis using pre' by (simp add: index_loop_Cons settled_def)
  next
    case True
    then obtain j where j: "k = Suc j" "rm_eval env p type j (rm_indexes c) o2 (verdict_of ret) o3" "r' - 1 = r" by (auto simp: deeper_def)
    consider (deny) "ret = RMAP_DENYMATCH" | (out) "ret \<noteq> RMAP_DENYMATCH" "exit_to i js = None"
      | (more) ks where "ret \<noteq> RMAP_DENYMATCH" "exit_to i js = Some ks" by (cases "exit_to i js") auto
    then show ?thesis
    proof cases
      case deny
      have "settled (rm_eval env p type k (i # js)) r obj (Inr (ret, o3, r))" unfolding j(1)
        by (rule settledI) (insert rm_eval.call_deny [OF pre s(3) some] j(2) deny, simp add: verdict_of_def)
      then show ?thesis using pre' j(3) deny by (simp add: index_loop_Cons)
    next
      case out
      have "settled (rm_eval env p type k (i # js)) r obj (Inr (ret, o3, r))" unfolding j(1)
        by (rule settledI) (insert rm_eval.call [OF pre s(3) some _ out(2)] j(2) out(1), simp add: verdict_of_def)
      then show ?thesis using pre' j(3) out by (simp add: index_loop_Cons)
    next
      case more
      have "rm_eval env p type j (rm_indexes c) o2 Accept o3" using j(2) more(1) by (simp add: verdict_of_def)
      then have "settled (rm_eval env p type k (i # js)) r obj (index_loop env call p type ks (o3, r))"
        by (intro settled_mono [OF on [OF more(2)]]) (auto simp: j(1) intro: rm_eval.call_on [OF pre s(3) some _ more(2)])
      then show ?thesis using pre' j(3) more by (simp add: index_loop_Cons)
    qed
  qed
qed

lemma loop_settled:
  assumes env: "env_ok env" "sets_accept (re_set env)"
    and call: "\<And>m obj. m \<in> set (re_maps env) \<Longrightarrow> settled (deeper env p type k m) (r + 1) obj (call m (obj, r + 1))"
  shows "rules_ok env is \<Longrightarrow> \<forall>i \<in> set is. ri_type i \<noteq> RMAP_ANY \<Longrightarrow> settled (rm_eval env p type k is) r obj (index_loop env call p type is (obj, r))"
proof (induction "is" arbitrary: obj rule: length_induct)
  case (1 "is")
  have IH: "settled (rm_eval env p type k js) r obj (index_loop env call p type js (obj, r))"
    if "length js < length is" "rules_ok env js" "\<forall>i \<in> set js. ri_type i \<noteq> RMAP_ANY" for js obj using 1 that by blast
  show ?case
  proof (cases "is")
    case Nil
    then show ?thesis by (simp add: settled_def verdict_of_def rm_eval.exhausted)
  next
    case (Cons i js)
    have on: "settled (rm_eval env p type k ks) r o2 (index_loop env call p type ks (o2, r))"
      if "exit_to i js = Some ks" for ks o2
    proof -
      from exit_to_shorter [OF that] obtain P where P: "ks = dropWhile P js" "length ks \<le> length js" by blast
      show ?thesis using 1(2,3) Cons P set_dropWhileD by (intro IH) (fastforce intro: rules_ok_dropWhile)+
    qed
    have ok: "rules_ok env (i # js)" using 1(2) Cons by simp
    obtain b o1 where b: "rules_match (re_match env) p type (ri_match i) obj = (b, o1)" by fastforce
    obtain m s where m: "route_map_apply_match (re_match env) (ri_match i) p type obj = Inr (m, o1)" "m = RMAP_MATCH \<longleftrightarrow> b"
      and s: "set_loop (re_set env) p type (ri_set i) (RMAP_MATCH, o1) = Inr (s, sets_applied (re_set env) p type (ri_set i) o1)" "s \<noteq> RMAP_DENYMATCH"
      using clause_parts [OF env ok, of p type obj] b by auto
    have t: "ri_type i \<noteq> RMAP_ANY" using 1(3) Cons by simp
    consider (cont) "\<not> b" | (deny) b "ri_type i = RMAP_DENY" | (permit) b "ri_type i = RMAP_PERMIT" using t by (cases "ri_type i") auto
    then show ?thesis
    proof cases
      case cont
      have "settled (rm_eval env p type k js) r o1 (index_loop env call p type js (o1, r))" using 1(2,3) Cons by (intro IH) auto
      then have "settled (rm_eval env p type k (i # js)) r obj (index_loop env call p type js (o1, r))"
        by (rule settled_mono) (rule rm_eval.cont, insert b cont, auto)
      then show ?thesis using m cont Cons by (simp add: index_loop_Cons)
    next
      case deny
      then show ?thesis using m b Cons rm_eval.deny [of env p type i obj o1 k js]
        by (simp add: index_loop_Cons settled_def verdict_of_def)
    next
      case permit
      have pre: "rules_match (re_match env) p type (ri_match i) obj = (True, o1)"
        "route_map_apply_match (re_match env) (ri_match i) p type obj = Inr (RMAP_MATCH, o1)" using b m permit(1) by auto
      show ?thesis unfolding Cons
        using plain_settled [OF pre(1) permit(2) pre(2) s refl on] call_settled [OF pre(1) permit(2) pre(2) s refl on] call callee_in
        by (cases "callee env i") blast+
    qed
  qed
qed

definition types_ok :: "('v, 'o) rmap_env \<Rightarrow> bool" where
  "types_ok env \<longleftrightarrow> (\<forall>m \<in> set (re_maps env). \<forall>i \<in> set (rm_indexes m). ri_type i \<noteq> RMAP_ANY)"

lemma apply_settled:
  assumes "env_ok env" "sets_accept (re_set env)" "types_ok env" "m \<in> set (re_maps env)"
    "r \<le> RMAP_RECURSION_LIMIT" "nat (RMAP_RECURSION_LIMIT - r) + 1 < frames"
  shows "settled (rm_eval env p type (nat (RMAP_RECURSION_LIMIT - r)) (rm_indexes m)) r obj (nested frames env p type m (obj, r))"
  using assms
proof (induction frames arbitrary: m r obj)
  case (Suc f)
  have "settled (deeper env p type (nat (RMAP_RECURSION_LIMIT - r)) c) (r + 1) o2 (nested f env p type c (o2, r + 1))"
    if "c \<in> set (re_maps env)" for c o2
  proof (cases "r = RMAP_RECURSION_LIMIT")
    case True
    moreover obtain g where "f = Suc g" using Suc.prems(6) by (cases f) auto
    ultimately show ?thesis by (simp add: settled_def)
  next
    case False
    then have k: "nat (RMAP_RECURSION_LIMIT - r) = Suc (nat (RMAP_RECURSION_LIMIT - (r + 1)))" using Suc.prems(5) by simp
    have "settled (rm_eval env p type (nat (RMAP_RECURSION_LIMIT - (r + 1))) (rm_indexes c)) (r + 1) o2 (nested f env p type c (o2, r + 1))"
      using Suc.prems that False k by (intro Suc.IH) auto
    then show ?thesis by (rule settled_mono) (simp add: deeper_def k)
  qed
  moreover have "rules_ok env (rm_indexes m)" "\<forall>i \<in> set (rm_indexes m). ri_type i \<noteq> RMAP_ANY"
    using Suc.prems(1,3,4) by (auto simp: env_ok_def types_ok_def)
  ultimately show ?case using loop_settled [OF Suc.prems(1,2)] Suc.prems(5) by simp
qed simp

lemma apply_or_limit:
  assumes "env_ok env" "sets_accept (re_set env)" "types_ok env" "m \<in> set (re_maps env)"
    "r \<le> RMAP_RECURSION_LIMIT" "nat (RMAP_RECURSION_LIMIT - r) + 1 < frames"
  shows "\<exists>ret obj' r'. route_map_apply frames env p type (Some m) (obj, r) = Inr (ret, obj', r') \<and>
    (r' = r \<and> rm_eval env p type (nat (RMAP_RECURSION_LIMIT - r)) (rm_indexes m) obj (verdict_of ret) obj' \<or>
     r' = r - (RMAP_RECURSION_LIMIT + 1) \<and> ret = RMAP_DENYMATCH \<and>
       (\<nexists>v o'. rm_eval env p type (nat (RMAP_RECURSION_LIMIT - r)) (rm_indexes m) obj v o'))"
proof -
  let ?E = "rm_eval env p type (nat (RMAP_RECURSION_LIMIT - r)) (rm_indexes m) obj"
  from apply_settled [OF assms, of p type obj] obtain ret obj' r' where a: "nested frames env p type m (obj, r) = Inr (ret, obj', r')"
    and c: "r' = r \<and> ?E (verdict_of ret) obj' \<or> r' = r - (RMAP_RECURSION_LIMIT + 1) \<and> ret = RMAP_DENYMATCH" unfolding settled_def by blast
  obtain f where f: "frames = Suc f" "nat (RMAP_RECURSION_LIMIT - r) < f" using assms(6) by (cases frames) auto
  have ok: "rules_ok env (rm_indexes m)" using assms(1,4) by (simp add: env_ok_def)
  have "r' = r" if "?E s o'" for s o'
    using rm_eval_loop [OF that assms(1,2) ok, of r f] assms(5) f a by auto
  then have "\<nexists>s o'. ?E s o'" if "r' = r - (RMAP_RECURSION_LIMIT + 1)" using that by (auto simp: RMAP_RECURSION_LIMIT_def)
  with a c show ?thesis by blast
qed

text \<open>The maps that commands have configured satisfy the assumptions.\<close>

abbreviation conf_env :: "('v, 'o) route_map_rule_cmd list \<Rightarrow> ('v, 'o) route_map_rule_cmd list \<Rightarrow> 'v rmap_vty \<Rightarrow> ('v, 'o) rmap_env" where
  "conf_env mv sv v \<equiv> \<lparr>re_match = mv, re_set = sv, re_maps = rl_maps (rv_list v)\<rparr>"

lemma vty_ok_env:
  assumes "vty_ok mv sv v"
  shows "env_ok (conf_env mv sv v)" "types_ok (conf_env mv sv v)"
proof -
  have i: "index_ok mv sv i" if "m \<in> set (rl_maps (rv_list v))" "i \<in> set (rm_indexes m)" for m i
    using assms that by (auto simp: vty_ok_def rmaps_ok_def rmap_ok_def)
  then show "env_ok (conf_env mv sv v)" by (auto simp: env_ok_def rules_ok_def index_ok_def)
  show "types_ok (conf_env mv sv v)" using i by (auto simp: types_ok_def index_ok_def)
qed

section \<open>Calls without end\<close>

text \<open>A map that calls itself, and applying it again and again.\<close>

definition loop_map :: "string \<Rightarrow> 'v route_map" where
  "loop_map n = \<lparr>rm_name = n, rm_indexes = [(route_map_index_new RMAP_PERMIT 10)\<lparr>ri_nextrm := Some n\<rparr>]\<rparr>"

fun reapply :: "nat \<Rightarrow> nat \<Rightarrow> ('v, 'o) rmap_env \<Rightarrow> prefix \<Rightarrow> nat \<Rightarrow> 'v route_map \<Rightarrow> 'o \<times> int \<Rightarrow> ('o \<times> int) res" where
  "reapply 0 frames env p type m st = Inr st"
| "reapply (Suc k) frames env p type m st =
     and_then (route_map_apply frames env p type (Some m) st) (\<lambda>(ret, st). reapply k frames env p type m st)"

lemma loop_map_lookup: "route_map_lookup_by_name [loop_map n] n = Some (loop_map n)"
  by (simp add: route_map_lookup_by_name_def loop_map_def)

lemma loop_map_step:
  assumes "re_maps env = [loop_map n]" "r \<le> RMAP_RECURSION_LIMIT"
  shows "route_map_apply (Suc f) env p type (Some (loop_map n)) (obj, r) =
    and_then (route_map_apply f env p type (Some (loop_map n)) (obj, r + 1)) (\<lambda>(ret, obj, r). Inr (ret, obj, r - 1))"
proof -
  let ?i = "(route_map_index_new RMAP_PERMIT 10)\<lparr>ri_nextrm := Some n\<rparr>"
  have m: "rm_indexes (loop_map n) = [?i]" by (simp add: loop_map_def)
  have i: "ri_match ?i = []" "ri_set ?i = []" "ri_type ?i = RMAP_PERMIT" "exit_to ?i [] = None" "callee env ?i = Some (loop_map n)"
    by (simp_all add: route_map_index_new_def exit_to_def callee_def assms(1) loop_map_lookup)
  show ?thesis using assms(2)
    by (cases "route_map_apply f env p type (Some (loop_map n)) (obj, r + 1)") (auto simp: m i index_loop_Cons route_map_apply_match_def)
qed

lemma loop_map_apply:
  assumes "re_maps env = [loop_map n]" "r \<le> RMAP_RECURSION_LIMIT"
  shows "route_map_apply frames env p type (Some (loop_map n)) (obj, r) =
    (if RMAP_RECURSION_LIMIT + 2 - r \<le> int frames then Inr (RMAP_DENYMATCH, obj, r - (RMAP_RECURSION_LIMIT + 1)) else Inl Diverged)"
  using assms(2)
proof (induction frames arbitrary: r)
  case (Suc f)
  show ?case
  proof (cases "r = RMAP_RECURSION_LIMIT")
    case True
    then show ?thesis unfolding loop_map_step [OF assms(1) Suc.prems] by (cases f) auto
  next
    case False
    with Suc show ?thesis unfolding loop_map_step [OF assms(1) Suc.prems] by auto
  qed
qed simp

lemma reapply_loop_map:
  assumes "re_maps env = [loop_map n]" "r \<le> RMAP_RECURSION_LIMIT"
  shows "reapply (Suc k) frames env p type (loop_map n) (obj, r) =
    (if (RMAP_RECURSION_LIMIT + 1) * int (Suc k) - r < int frames then Inr (obj, r - (RMAP_RECURSION_LIMIT + 1) * int (Suc k)) else Inl Diverged)"
  using assms(2)
proof (induction k arbitrary: r)
  case 0
  then show ?case by (simp add: loop_map_apply [OF assms(1)])
next
  case (Suc k)
  have "reapply (Suc k) frames env p type (loop_map n) (obj, r - (RMAP_RECURSION_LIMIT + 1)) =
    (if (RMAP_RECURSION_LIMIT + 1) * int (Suc (Suc k)) - r < int frames
     then Inr (obj, r - (RMAP_RECURSION_LIMIT + 1) * int (Suc (Suc k))) else Inl Diverged)"
    using Suc.IH [of "r - (RMAP_RECURSION_LIMIT + 1)"] Suc.prems by (simp add: RMAP_RECURSION_LIMIT_def algebra_simps)
  then show ?case using Suc.prems loop_map_apply [OF assms(1) Suc.prems]
    by (subst reapply.simps(2)) (auto simp: RMAP_RECURSION_LIMIT_def)
qed

lemma loop_map_configured:
  "rmap_run mv sv [RouteMapCmd n ''permit'' ''10'', Edit (Call n)] (rmap_start hooks) =
     Inr \<lparr>rv_list = \<lparr>rl_maps = [loop_map n], rl_hooks = hooks,
            rl_log = (if hooks then [RmapAdded n, RmapEvent RMAP_EVENT_INDEX_ADDED n] else [])\<rparr>,
          rv_index = Some (n, 10)\<rparr>"
proof -
  have a: "rmap_args ''permit'' ''10'' = Some (RMAP_PERMIT, 10)" by code_simp
  have r: "rmap_exec mv sv (RouteMapCmd n ''permit'' ''10'') (rmap_start hooks) =
     Inr \<lparr>rv_list = \<lparr>rl_maps = [\<lparr>rm_name = n, rm_indexes = [route_map_index_new RMAP_PERMIT 10]\<rparr>], rl_hooks = hooks,
            rl_log = (if hooks then [RmapAdded n, RmapEvent RMAP_EVENT_INDEX_ADDED n] else [])\<rparr>,
          rv_index = Some (n, 10)\<rparr>"
    by (simp add: a route_map_cmd_def rmap_start_def route_map_get_def route_map_lookup_by_name_def route_map_add_def
      route_map_index_get_def route_map_index_lookup_def route_map_index_add_def call_rmap_hook_def put_map_def Let_def)
  show ?thesis
    by (simp add: r del: rmap_exec.simps(1)) (simp add: get_index_def route_map_lookup_by_name_def put_index_def put_map_def
      rmap_call_def loop_map_def route_map_index_new_def)
qed

section \<open>Properties\<close>

text \<open>C13: Applying a map that commands have configured always returns, whatever the rules of the daemon
  do to the route, as long as no set rule answers with the value that denies it, and with a stack for the calls that remain below the limit.
  It gives the verdict and the object the matrix of the source gives, with the counter of nested calls as before,
  if that nests at most \<open>RMAP_RECURSION_LIMIT - r\<close> calls. Otherwise the matrix gives no verdict, the route is denied,
  and the counter is eleven lower. The matrix is read with \<open>goto n\<close> as the \<open>n\<close>th clause or the first one after it.
\<close>

theorem route_map_apply_matrix:
  assumes "rmap_run mv sv cs (rmap_start hooks) = Inr v" "m \<in> set (rl_maps (rv_list v))" "sets_accept sv"
    and "r \<le> RMAP_RECURSION_LIMIT" "nat (RMAP_RECURSION_LIMIT - r) + 1 < frames"
  shows "\<exists>ret obj' r'. route_map_apply frames (conf_env mv sv v) p type (Some m) (obj, r) = Inr (ret, obj', r') \<and>
    (r' = r \<and> rm_eval (conf_env mv sv v) p type (nat (RMAP_RECURSION_LIMIT - r)) (rm_indexes m) obj (verdict_of ret) obj' \<or>
     r' = r - (RMAP_RECURSION_LIMIT + 1) \<and> ret = RMAP_DENYMATCH \<and>
       (\<nexists>u o'. rm_eval (conf_env mv sv v) p type (nat (RMAP_RECURSION_LIMIT - r)) (rm_indexes m) obj u o'))"
proof -
  have "vty_ok mv sv v" using rmap_run_ok [OF vty_ok_start, of mv sv cs hooks] assms(1) by auto
  then have env: "env_ok (conf_env mv sv v)" "types_ok (conf_env mv sv v)" by (rule vty_ok_env)+
  from apply_or_limit [OF env(1) _ env(2) _ assms(4,5)] assms(2,3) show ?thesis by simp
qed

text \<open>A daemon whose routes are metrics, with one rule that compares and one that sets the metric.\<close>

definition ex_match :: "(int, int) route_map_rule_cmd list" where
  "ex_match = [\<lparr>rc_str = ''metric'', rc_apply = (\<lambda>v p t obj. (if v = Some obj then RMAP_MATCH else RMAP_NOMATCH, obj)),
     rc_compile = Some (map_option atoi)\<rparr>]"

definition ex_set :: "(int, int) route_map_rule_cmd list" where
  "ex_set = [\<lparr>rc_str = ''metric'', rc_apply = (\<lambda>v p t obj. (RMAP_OKAY, case v of None \<Rightarrow> obj | Some n \<Rightarrow> n)),
     rc_compile = Some (map_option atoi)\<rparr>]"

definition ex_cmds :: "rmap_command list" where
  "ex_cmds = [RouteMapCmd ''X'' ''deny'' ''20'', RouteMapCmd ''X'' ''permit'' ''10'',
     Edit (AddMatch ''metric'' (Some ''5'')), Edit (AddSet ''metric'' (Some ''7''))]"

definition ex_map :: "int route_map" where
  "ex_map = \<lparr>rm_name = ''X'', rm_indexes =
     [(route_map_index_new RMAP_PERMIT 10)\<lparr>ri_match := [\<lparr>rr_cmd = 0, rr_str = Some ''5'', rr_value = Some 5\<rparr>],
        ri_set := [\<lparr>rr_cmd = 0, rr_str = Some ''7'', rr_value = Some 7\<rparr>]\<rparr>,
      route_map_index_new RMAP_DENY 20]\<rparr>"

definition ex_vty :: "int rmap_vty" where
  "ex_vty = \<lparr>rv_list = \<lparr>rl_maps = [ex_map], rl_hooks = False, rl_log = []\<rparr>, rv_index = Some (''X'', 10)\<rparr>"

lemma ex_run: "rmap_run ex_match ex_set ex_cmds (rmap_start False) = Inr ex_vty"
  by code_simp

lemma ex_apply: "route_map_apply 12 (conf_env ex_match ex_set ex_vty) prefix_new 0 (Some ex_map) (5, 0) = Inr (RMAP_OKAY, 7, 0)"
  by code_simp

theorem route_map_apply_matrix_witness:
  "rmap_run ex_match ex_set ex_cmds (rmap_start False) = Inr ex_vty \<and> ex_map \<in> set (rl_maps (rv_list ex_vty)) \<and>
   rm_eval (conf_env ex_match ex_set ex_vty) prefix_new 0 10 (rm_indexes ex_map) 5 Accept 7"
proof (intro conjI)
  show m: "ex_map \<in> set (rl_maps (rv_list ex_vty))" by (simp add: ex_vty_def)
  have "0 \<le> RMAP_RECURSION_LIMIT" "nat (RMAP_RECURSION_LIMIT - 0) + 1 < 12" by (simp_all add: RMAP_RECURSION_LIMIT_def)
  moreover have "sets_accept ex_set" by (simp add: sets_accept_def ex_set_def)
  ultimately have "\<exists>ret obj' r'. route_map_apply 12 (conf_env ex_match ex_set ex_vty) prefix_new 0 (Some ex_map) (5, 0) = Inr (ret, obj', r') \<and>
    (r' = 0 \<and> rm_eval (conf_env ex_match ex_set ex_vty) prefix_new 0 (nat (RMAP_RECURSION_LIMIT - 0)) (rm_indexes ex_map) 5 (verdict_of ret) obj' \<or>
     r' = 0 - (RMAP_RECURSION_LIMIT + 1))" using route_map_apply_matrix [OF ex_run m, of 0 12 prefix_new 0 5] by blast
  then
  show "rm_eval (conf_env ex_match ex_set ex_vty) prefix_new 0 10 (rm_indexes ex_map) 5 Accept 7"
    unfolding ex_apply by (simp add: RMAP_RECURSION_LIMIT_def verdict_of_def)
qed (rule ex_run)

text \<open>C15: The limit of nested calls does not bound the depth of the stack. Two commands configure a
  map that calls itself; each application of it denies the route, and lowers the counter by
  eleven, since it is reset and then decremented on the way back. So the \<open>k\<close>th application needs more than
  \<open>11 * k\<close> frames of the stack, and for every stack there is a number of routes that overflows it.
\<close>

theorem recursion_limit_drifts:
  "rmap_run mv sv [RouteMapCmd n ''permit'' ''10'', Edit (Call n)] (rmap_start hooks) =
     Inr \<lparr>rv_list = \<lparr>rl_maps = [loop_map n], rl_hooks = hooks,
            rl_log = (if hooks then [RmapAdded n, RmapEvent RMAP_EVENT_INDEX_ADDED n] else [])\<rparr>,
          rv_index = Some (n, 10)\<rparr> \<and>
   reapply k frames \<lparr>re_match = mv, re_set = sv, re_maps = [loop_map n]\<rparr> p type (loop_map n) (obj, 0) =
     (if k = 0 \<or> 11 * k < frames then Inr (obj, - (11 * int k)) else Inl Diverged)"
proof
  show "rmap_run mv sv [RouteMapCmd n ''permit'' ''10'', Edit (Call n)] (rmap_start hooks) =
     Inr \<lparr>rv_list = \<lparr>rl_maps = [loop_map n], rl_hooks = hooks,
            rl_log = (if hooks then [RmapAdded n, RmapEvent RMAP_EVENT_INDEX_ADDED n] else [])\<rparr>,
          rv_index = Some (n, 10)\<rparr>"
    by (rule loop_map_configured)
  show "reapply k frames \<lparr>re_match = mv, re_set = sv, re_maps = [loop_map n]\<rparr> p type (loop_map n) (obj, 0) =
     (if k = 0 \<or> 11 * k < frames then Inr (obj, - (11 * int k)) else Inl Diverged)"
    using reapply_loop_map [of "\<lparr>re_match = mv, re_set = sv, re_maps = [loop_map n]\<rparr>" n 0 "k - 1" frames p type obj]
    by (cases k) (auto simp: RMAP_RECURSION_LIMIT_def)
qed

end
