(* ===== verification/RouteTable.thy ===== *)
theory RouteTable
  imports Prefix
begin

unbundle bit_operations_syntax

text \<open>
  \<^verbatim>\<open>lib/table.c\<close> and \<^verbatim>\<open>lib/table.h\<close>: the routing table, a compressed binary
  trie of prefixes built from nodes with parent and child pointers and a lock count. The model
  keeps the pointers: a table holds a heap from addresses to nodes, \<open>XCALLOC\<close> takes the
  next fresh address and \<open>XFREE\<close> removes the node from the heap, so following a freed
  or null pointer is the fault \<open>NullDeref\<close> and a failed \<open>assert\<close> is
  \<open>AssertFailed\<close>. The node and table delegates are the default ones of the file, and
  a node's \<open>table\<close> field is the table itself. Locks and the node count are natural
  numbers, \<open>unsigned int\<close> and \<open>unsigned long\<close> in the source: the count is the number of nodes in memory (the invariant of
  \<^verbatim>\<open>RouteTableInv\<close>), so it neither wraps around nor is subtracted from at zero, and a lock is only taken down where the code asserts that
  it is positive; that a node is not held by \<open>2\<^sup>32\<close> clients at once is left to the clients.

  Walks over pointers take fuel; the number of addresses ever allocated bounds the length of
  every path in a well-formed table, and \<^verbatim>\<open>RouteTableInv\<close> proves that the fuel is
  never used up there.
\<close>

section \<open>Nodes, tables, iterators\<close>

record 'a route_node =
  rn_p :: prefix
  rn_parent :: "nat option"
  l_left :: "nat option"
  l_right :: "nat option"
  rn_lock :: nat
  rn_info :: "'a option"

type_synonym 'a heap = "nat \<rightharpoonup> 'a route_node"

record 'a route_table =
  rt_top :: "nat option"
  rt_count :: nat
  rt_heap :: "'a heap"
  rt_brk :: nat

datatype rt_iter_state =
  RT_ITER_STATE_INIT | RT_ITER_STATE_ITERATING | RT_ITER_STATE_PAUSED | RT_ITER_STATE_DONE

record route_table_iter =
  it_state :: rt_iter_state
  it_current :: "nat option"
  it_pause_prefix :: prefix

section \<open>Heap access\<close>

definition deref :: "'a heap \<Rightarrow> nat \<Rightarrow> 'a route_node res" where
  "deref h a = (case h a of None \<Rightarrow> Inl NullDeref | Some n \<Rightarrow> Inr n)"

definition upd_node ::
    "nat \<Rightarrow> ('a route_node \<Rightarrow> 'a route_node) \<Rightarrow> 'a route_table \<Rightarrow> 'a route_table res" where
  "upd_node a f t =
     and_then (deref (rt_heap t) a)
       (\<lambda>n. Inr (t\<lparr>rt_heap := (rt_heap t)(a \<mapsto> f n)\<rparr>))"

definition rn_link :: "'a route_node \<Rightarrow> nat \<Rightarrow> nat option" where
  "rn_link n b = (if b = 0 then l_left n else l_right n)"

definition set_rn_link :: "nat \<Rightarrow> nat option \<Rightarrow> 'a route_node \<Rightarrow> 'a route_node" where
  "set_rn_link b q n = (if b = 0 then n\<lparr>l_left := q\<rparr> else n\<lparr>l_right := q\<rparr>)"

definition walk_fuel :: "'a route_table \<Rightarrow> nat" where
  "walk_fuel t = Suc (rt_brk t)"

section \<open>Creation\<close>

definition route_table_init :: "'a route_table" where
  "route_table_init = \<lparr>rt_top = None, rt_count = 0, rt_heap = Map.empty, rt_brk = 0\<rparr>"

definition route_node_new :: "'a route_table \<Rightarrow> 'a route_table \<times> nat" where
  "route_node_new t =
     (let node = \<lparr>rn_p = prefix_new, rn_parent = None, l_left = None, l_right = None,
                  rn_lock = 0, rn_info = None\<rparr>
      in (t\<lparr>rt_heap := (rt_heap t)(rt_brk t \<mapsto> node), rt_brk := Suc (rt_brk t)\<rparr>, rt_brk t))"

definition route_node_set :: "'a route_table \<Rightarrow> prefix \<Rightarrow> ('a route_table \<times> nat) res" where
  "route_node_set t p =
     (let (t, a) = route_node_new t
      in and_then (deref (rt_heap t) a)
           (\<lambda>n. and_then (prefix_copy (rn_p n) p)
              (\<lambda>p'. and_then (upd_node a (\<lambda>n. n\<lparr>rn_p := p'\<rparr>) t) (\<lambda>t. Inr (t, a)))))"

definition route_node_free :: "'a route_table \<Rightarrow> nat \<Rightarrow> 'a route_table" where
  "route_node_free t a = t\<lparr>rt_heap := (rt_heap t)(a := None)\<rparr>"

section \<open>Common prefix\<close>

text \<open>The loop over the whole bytes of \<open>p\<close>; it returns \<open>i\<close> and the bytes written.\<close>

function common_bytes ::
    "nat \<Rightarrow> nat \<Rightarrow> u8 list \<Rightarrow> u8 list \<Rightarrow> u8 list \<Rightarrow> nat \<times> u8 list" where
  "common_bytes i lim np pp newp =
     (if i < lim \<and> byte_at np i = byte_at pp i
      then common_bytes (Suc i) lim np pp (newp[i := byte_at np i]) else (i, newp))"
  by pat_completeness auto
termination
  by (relation "measure (\<lambda>(i, lim, _). lim - i)") auto

declare common_bytes.simps [simp del]

text \<open>The loop \<open>while (new->prefixlen < p->prefixlen && !(mask & diff))\<close>.\<close>

function common_bits :: "nat \<Rightarrow> nat \<Rightarrow> u8 \<Rightarrow> u8 \<Rightarrow> nat" where
  "common_bits len lim msk diff =
     (if len < lim \<and> msk AND diff = 0
      then common_bits (Suc len) lim (drop_bit 1 msk) diff else len)"
  by pat_completeness auto
termination
  by (relation "measure (\<lambda>(len, lim, _). lim - len)") auto

declare common_bits.simps [simp del]

definition route_common :: "prefix \<Rightarrow> prefix \<Rightarrow> prefix \<Rightarrow> prefix" where
  "route_common n p new =
     (let np = u_prefix n; pp = u_prefix p;
          (i, newp) = common_bytes 0 (prefixlen p div 8) np pp (u_prefix new);
          len = i * 8
      in if len \<noteq> prefixlen p
         then let diff = byte_at np i XOR byte_at pp i;
                  len = common_bits len (prefixlen p) 0x80 diff
           in new\<lparr>prefixlen := len, u_prefix := newp[i := byte_at np i AND maskbit (len mod 8)]\<rparr>
         else new\<lparr>prefixlen := len, u_prefix := newp\<rparr>)"

definition set_link :: "nat \<Rightarrow> nat \<Rightarrow> 'a route_table \<Rightarrow> 'a route_table res" where
  "set_link node new t =
     and_then (deref (rt_heap t) new) (\<lambda>nw.
     and_then (deref (rt_heap t) node) (\<lambda>nd.
       let b = prefix_bit (u_prefix (rn_p nw)) (prefixlen (rn_p nd))
       in and_then (upd_node node (set_rn_link b (Some new)) t)
            (upd_node new (\<lambda>n. n\<lparr>rn_parent := Some node\<rparr>))))"

section \<open>Locking and deletion\<close>

definition route_lock_node :: "nat \<Rightarrow> 'a route_table \<Rightarrow> 'a route_table res" where
  "route_lock_node a = upd_node a (\<lambda>n. n\<lparr>rn_lock := Suc (rn_lock n)\<rparr>)"

text \<open>Unlinking of the node \<open>a\<close> from its parent, \<open>child\<close> taking its place.\<close>

definition unlink_node ::
    "nat \<Rightarrow> 'a route_node \<Rightarrow> nat option \<Rightarrow> 'a route_table \<Rightarrow> 'a route_table res" where
  "unlink_node a n child t =
     and_then
       (case child of None \<Rightarrow> Inr t
        | Some c \<Rightarrow> upd_node c (\<lambda>m. m\<lparr>rn_parent := rn_parent n\<rparr>) t)
       (\<lambda>t. case rn_parent n of
          Some b \<Rightarrow> upd_node b (\<lambda>m. if l_left m = Some a then m\<lparr>l_left := child\<rparr>
                                  else m\<lparr>l_right := child\<rparr>) t
        | None \<Rightarrow> Inr (t\<lparr>rt_top := child\<rparr>))"

fun route_node_delete :: "nat \<Rightarrow> nat \<Rightarrow> 'a route_table \<Rightarrow> 'a route_table res" where
  "route_node_delete 0 a t = Inl Diverged"
| "route_node_delete (Suc fuel) a t =
     and_then (deref (rt_heap t) a) (\<lambda>n.
     and_then (ensure (rn_lock n = 0)) (\<lambda>_.
     and_then (ensure (rn_info n = None)) (\<lambda>_.
       if l_left n \<noteq> None \<and> l_right n \<noteq> None then Inr t
       else let child = (if l_left n \<noteq> None then l_left n else l_right n)
         in and_then (unlink_node a n child t) (\<lambda>t.
              let t = route_node_free (t\<lparr>rt_count := rt_count t - 1\<rparr>) a
              in case rn_parent n of
                   None \<Rightarrow> Inr t
                 | Some b \<Rightarrow> and_then (deref (rt_heap t) b)
                     (\<lambda>m. if rn_lock m = 0 then route_node_delete fuel b t else Inr t)))))"

definition route_unlock_node :: "nat \<Rightarrow> 'a route_table \<Rightarrow> 'a route_table res" where
  "route_unlock_node a t =
     and_then (deref (rt_heap t) a) (\<lambda>n.
     and_then (ensure (rn_lock n > 0)) (\<lambda>_.
     and_then (upd_node a (\<lambda>n. n\<lparr>rn_lock := rn_lock n - 1\<rparr>) t) (\<lambda>t.
       if rn_lock n - 1 = 0 then route_node_delete (walk_fuel t) a t else Inr t)))"

section \<open>Lookup\<close>

fun match_walk ::
    "nat \<Rightarrow> 'a heap \<Rightarrow> prefix \<Rightarrow> nat option \<Rightarrow> nat option \<Rightarrow> nat option res" where
  "match_walk 0 h p node matched = Inl Diverged"
| "match_walk (Suc fuel) h p node matched =
     (case node of
        None \<Rightarrow> Inr matched
      | Some a \<Rightarrow> and_then (deref h a) (\<lambda>n.
          if prefixlen (rn_p n) \<le> prefixlen p \<and> prefix_match (rn_p n) p
          then let matched = (if rn_info n \<noteq> None then Some a else matched)
            in if prefixlen (rn_p n) = prefixlen p then Inr matched
               else match_walk fuel h p
                      (rn_link n (prefix_bit (u_prefix p) (prefixlen (rn_p n)))) matched
          else Inr matched))"

definition route_node_match ::
    "'a route_table \<Rightarrow> prefix \<Rightarrow> ('a route_table \<times> nat option) res" where
  "route_node_match t p =
     and_then (match_walk (walk_fuel t) (rt_heap t) p (rt_top t) None)
       (\<lambda>m. case m of
          Some a \<Rightarrow> and_then (route_lock_node a t) (\<lambda>t. Inr (t, Some a))
        | None \<Rightarrow> Inr (t, None))"

definition route_node_match_ipv4 ::
    "'a route_table \<Rightarrow> u32 \<Rightarrow> ('a route_table \<times> nat option) res" where
  "route_node_match_ipv4 t addr =
     route_node_match t
       ((set_prefix4 prefix_new addr)\<lparr>family := AF_INET, prefixlen := IPV4_MAX_BITLEN\<rparr>)"

definition route_node_match_ipv6 ::
    "'a route_table \<Rightarrow> u8 list \<Rightarrow> ('a route_table \<times> nat option) res" where
  "route_node_match_ipv6 t addr =
     route_node_match t
       (prefix_new\<lparr>family := AF_INET6, prefixlen := IPV6_MAX_BITLEN, u_prefix := addr\<rparr>)"

fun lookup_walk :: "nat \<Rightarrow> 'a heap \<Rightarrow> prefix \<Rightarrow> nat option \<Rightarrow> nat option res" where
  "lookup_walk 0 h p node = Inl Diverged"
| "lookup_walk (Suc fuel) h p node =
     (case node of
        None \<Rightarrow> Inr None
      | Some a \<Rightarrow> and_then (deref h a) (\<lambda>n.
          if prefixlen (rn_p n) \<le> prefixlen p \<and> prefix_match (rn_p n) p
          then if prefixlen (rn_p n) = prefixlen p
               then Inr (if rn_info n \<noteq> None then Some a else None)
               else lookup_walk fuel h p (rn_link n (prefix_bit (u_prefix p) (prefixlen (rn_p n))))
          else Inr None))"

definition route_node_lookup ::
    "'a route_table \<Rightarrow> prefix \<Rightarrow> ('a route_table \<times> nat option) res" where
  "route_node_lookup t p =
     and_then (lookup_walk (walk_fuel t) (rt_heap t) p (rt_top t))
       (\<lambda>m. case m of
          Some a \<Rightarrow> and_then (route_lock_node a t) (\<lambda>t. Inr (t, Some a))
        | None \<Rightarrow> Inr (t, None))"

section \<open>Insertion\<close>

text \<open>
  The descent of \<open>route_node_get\<close> returns the node of this very prefix (\<open>Inl\<close>) or
  the last node passed and the pointer where it stopped (\<open>Inr (match, node)\<close>).
\<close>

fun get_walk ::
    "nat \<Rightarrow> 'a heap \<Rightarrow> prefix \<Rightarrow> nat option \<Rightarrow> nat option \<Rightarrow>
     (nat + nat option \<times> nat option) res" where
  "get_walk 0 h p mtch node = Inl Diverged"
| "get_walk (Suc fuel) h p mtch node =
     (case node of
        None \<Rightarrow> Inr (Inr (mtch, None))
      | Some a \<Rightarrow> and_then (deref h a) (\<lambda>n.
          if prefixlen (rn_p n) \<le> prefixlen p \<and> prefix_match (rn_p n) p
          then if prefixlen (rn_p n) = prefixlen p then Inr (Inl a)
               else get_walk fuel h p (Some a)
                      (rn_link n (prefix_bit (u_prefix p) (prefixlen (rn_p n))))
          else Inr (Inr (mtch, Some a))))"

text \<open>\<open>if (match) set_link (match, new); else table->top = new;\<close>\<close>

definition attach :: "nat option \<Rightarrow> nat \<Rightarrow> 'a route_table \<Rightarrow> 'a route_table res" where
  "attach mtch new t =
     (case mtch of Some m \<Rightarrow> set_link m new t | None \<Rightarrow> Inr (t\<lparr>rt_top := Some new\<rparr>))"

definition get_leaf ::
    "nat option \<Rightarrow> prefix \<Rightarrow> 'a route_table \<Rightarrow> ('a route_table \<times> nat) res" where
  "get_leaf mtch p t =
     and_then (route_node_set t p) (\<lambda>(t, new).
     and_then (attach mtch new t) (\<lambda>t. Inr (t, new)))"

definition get_split ::
    "nat option \<Rightarrow> nat \<Rightarrow> prefix \<Rightarrow> 'a route_table \<Rightarrow> ('a route_table \<times> nat) res" where
  "get_split mtch node p t =
     (let (t, new) = route_node_new t
      in and_then (deref (rt_heap t) node) (\<lambda>nd.
         and_then (upd_node new (\<lambda>n. n\<lparr>rn_p := (route_common (rn_p nd) p (rn_p n))
                                                \<lparr>family := family p\<rparr>\<rparr>) t) (\<lambda>t.
         and_then (set_link new node t) (\<lambda>t.
         and_then (attach mtch new t) (\<lambda>t.
         and_then (deref (rt_heap t) new) (\<lambda>nw.
           if prefixlen (rn_p nw) \<noteq> prefixlen p
           then and_then (route_node_set t p) (\<lambda>(t, leaf).
                and_then (set_link new leaf t) (\<lambda>t.
                  Inr (t\<lparr>rt_count := Suc (rt_count t)\<rparr>, leaf)))
           else Inr (t, new)))))))"

definition route_node_get :: "'a route_table \<Rightarrow> prefix \<Rightarrow> ('a route_table \<times> nat) res" where
  "route_node_get t p =
     and_then (get_walk (walk_fuel t) (rt_heap t) p None (rt_top t)) (\<lambda>r.
       case r of
         Inl a \<Rightarrow> and_then (route_lock_node a t) (\<lambda>t. Inr (t, a))
       | Inr (mtch, node) \<Rightarrow>
           and_then (case node of None \<Rightarrow> get_leaf mtch p t | Some a \<Rightarrow> get_split mtch a p t)
             (\<lambda>(t, new). let t = t\<lparr>rt_count := Suc (rt_count t)\<rparr>
                in and_then (route_lock_node new t) (\<lambda>t. Inr (t, new))))"

section \<open>Iteration\<close>

definition route_top :: "'a route_table \<Rightarrow> ('a route_table \<times> nat option) res" where
  "route_top t =
     (case rt_top t of
        None \<Rightarrow> Inr (t, None)
      | Some a \<Rightarrow> and_then (route_lock_node a t) (\<lambda>t. Inr (t, Some a)))"

text \<open>
  The climb \<open>while (node->parent)\<close> of \<open>route_next\<close> and
  \<open>route_get_subtree_next\<close>; \<open>limit\<close> is the extra guard
  \<open>node != limit\<close> of \<open>route_next_until\<close> (\<open>None\<close> where there is none).
\<close>

fun climb_walk :: "nat \<Rightarrow> 'a heap \<Rightarrow> nat option \<Rightarrow> nat \<Rightarrow> nat option res" where
  "climb_walk 0 h limit a = Inl Diverged"
| "climb_walk (Suc fuel) h limit a =
     and_then (deref h a) (\<lambda>n.
       case rn_parent n of
         None \<Rightarrow> Inr None
       | Some b \<Rightarrow>
           if Some a = limit then Inr None
           else and_then (deref h b) (\<lambda>m.
             if l_left m = Some a \<and> l_right m \<noteq> None then Inr (l_right m)
             else climb_walk fuel h limit b))"

definition route_get_subtree_next :: "'a route_table \<Rightarrow> nat \<Rightarrow> nat option res" where
  "route_get_subtree_next t a = climb_walk (walk_fuel t) (rt_heap t) None a"

text \<open>\<open>route_lock_node (next); route_unlock_node (node); return next;\<close>\<close>

definition lock_unlock ::
    "nat option \<Rightarrow> nat \<Rightarrow> 'a route_table \<Rightarrow> ('a route_table \<times> nat option) res" where
  "lock_unlock nxt a t =
     (case nxt of
        None \<Rightarrow> and_then (route_unlock_node a t) (\<lambda>t. Inr (t, None))
      | Some b \<Rightarrow> and_then (route_lock_node b t) (\<lambda>t.
                  and_then (route_unlock_node a t) (\<lambda>t. Inr (t, Some b))))"

definition route_next_until ::
    "'a route_table \<Rightarrow> nat \<Rightarrow> nat option \<Rightarrow> ('a route_table \<times> nat option) res" where
  "route_next_until t a limit =
     and_then (deref (rt_heap t) a) (\<lambda>n.
       if l_left n \<noteq> None then lock_unlock (l_left n) a t
       else if l_right n \<noteq> None then lock_unlock (l_right n) a t
       else and_then (climb_walk (walk_fuel t) (rt_heap t) limit a) (\<lambda>nxt. lock_unlock nxt a t))"

definition route_next :: "'a route_table \<Rightarrow> nat \<Rightarrow> ('a route_table \<times> nat option) res" where
  "route_next t a =
     and_then (deref (rt_heap t) a) (\<lambda>n.
       if l_left n \<noteq> None then lock_unlock (l_left n) a t
       else if l_right n \<noteq> None then lock_unlock (l_right n) a t
       else and_then (climb_walk (walk_fuel t) (rt_heap t) None a) (\<lambda>nxt. lock_unlock nxt a t))"

definition route_table_count :: "'a route_table \<Rightarrow> nat" where
  "route_table_count t = rt_count t"

text \<open>
  The order of iteration on prefixes. The uninitialised \<open>common_space\<close> of the source is
  the argument \<open>common\<close>; only the length computed for it is read.
\<close>

definition route_table_prefix_iter_cmp :: "prefix \<Rightarrow> prefix \<Rightarrow> prefix \<Rightarrow> int res" where
  "route_table_prefix_iter_cmp common p1 p2 =
     (let differ =
        (let common = route_common p1 p2 common
         in and_then (ensure (prefixlen common < prefixlen p1)) (\<lambda>_.
            and_then (ensure (prefixlen common < prefixlen p2)) (\<lambda>_.
              if prefix_bit (u_prefix p1) (prefixlen common) \<noteq> 0
              then and_then (ensure (prefix_bit (u_prefix p2) (prefixlen common) = 0)) (\<lambda>_. Inr 1)
              else and_then (ensure (prefix_bit (u_prefix p2) (prefixlen common) \<noteq> 0))
                     (\<lambda>_. Inr (-1)))))
      in if prefixlen p1 \<le> prefixlen p2
         then if prefix_match p1 p2
              then Inr (if prefixlen p1 = prefixlen p2 then 0 else -1)
              else differ
         else if prefix_match p2 p1 then Inr 1
         else differ)"

text \<open>
  \<open>route_table_get_next_internal\<close>: the loop from the top; on the node of the prefix itself
  it locks the node, steps to the next one and gives that lock back.
\<close>

fun get_next_walk ::
    "nat \<Rightarrow> 'a route_table \<Rightarrow> prefix \<Rightarrow> nat option \<Rightarrow> ('a route_table \<times> nat option) res" where
  "get_next_walk 0 t p node = Inl Diverged"
| "get_next_walk (Suc fuel) t p node =
     (case node of
        None \<Rightarrow> Inr (t, None)
      | Some a \<Rightarrow> and_then (deref (rt_heap t) a) (\<lambda>n.
          let mtch = (if prefixlen (rn_p n) < prefixlen p then prefix_match (rn_p n) p
                      else prefix_match p (rn_p n))
          in if mtch
             then if prefixlen (rn_p n) = prefixlen p
                  then and_then (route_lock_node a t) (\<lambda>t.
                       and_then (route_next t a) (\<lambda>(t, nxt).
                         case nxt of
                           None \<Rightarrow> Inr (t, None)
                         | Some b \<Rightarrow> and_then (route_unlock_node b t) (\<lambda>t. Inr (t, Some b))))
                  else if prefixlen (rn_p n) > prefixlen p then Inr (t, Some a)
                  else (case rn_link n (prefix_bit (u_prefix p) (prefixlen (rn_p n))) of
                          Some b \<Rightarrow> get_next_walk fuel t p (Some b)
                        | None \<Rightarrow>
                            if l_right n \<noteq> None then Inr (t, l_right n)
                            else and_then (route_get_subtree_next t a) (\<lambda>r. Inr (t, r)))
             else and_then (route_table_prefix_iter_cmp prefix_new (rn_p n) p) (\<lambda>cmp.
                    if cmp > 0 then Inr (t, Some a)
                    else and_then (ensure (cmp < 0)) (\<lambda>_.
                         and_then (route_get_subtree_next t a) (\<lambda>r. Inr (t, r))))))"

definition route_table_get_next_internal ::
    "'a route_table \<Rightarrow> prefix \<Rightarrow> ('a route_table \<times> nat option) res" where
  "route_table_get_next_internal t p = get_next_walk (walk_fuel t) t p (rt_top t)"

definition route_table_get_next ::
    "'a route_table \<Rightarrow> prefix \<Rightarrow> ('a route_table \<times> nat option) res" where
  "route_table_get_next t p =
     and_then (route_table_get_next_internal t p) (\<lambda>(t, node).
       case node of
         None \<Rightarrow> Inr (t, None)
       | Some a \<Rightarrow>
           and_then (deref (rt_heap t) a) (\<lambda>n.
           and_then (route_table_prefix_iter_cmp prefix_new (rn_p n) p) (\<lambda>cmp.
           and_then (ensure (cmp > 0)) (\<lambda>_.
           and_then (route_lock_node a t) (\<lambda>t. Inr (t, Some a))))))"

definition route_table_iter_init :: route_table_iter where
  "route_table_iter_init =
     \<lparr>it_state = RT_ITER_STATE_INIT, it_current = None, it_pause_prefix = prefix_new\<rparr>"

definition deref_opt :: "'a heap \<Rightarrow> nat option \<Rightarrow> (nat \<times> 'a route_node) res" where
  "deref_opt h q =
     (case q of None \<Rightarrow> Inl NullDeref | Some a \<Rightarrow> and_then (deref h a) (\<lambda>n. Inr (a, n)))"

definition route_table_iter_next ::
    "route_table_iter \<Rightarrow> 'a route_table \<Rightarrow> (route_table_iter \<times> 'a route_table \<times> nat option) res"
where
  "route_table_iter_next iter t =
     (let finish = (\<lambda>(t, node).
        Inr (iter\<lparr>it_current := node,
                  it_state := (if node \<noteq> None then RT_ITER_STATE_ITERATING
                               else RT_ITER_STATE_DONE)\<rparr>, t, node))
      in case it_state iter of
           RT_ITER_STATE_INIT \<Rightarrow> and_then (route_top t) finish
         | RT_ITER_STATE_ITERATING \<Rightarrow>
             and_then (deref_opt (rt_heap t) (it_current iter))
               (\<lambda>(a, n). and_then (route_next t a) finish)
         | RT_ITER_STATE_PAUSED \<Rightarrow>
             and_then (route_table_get_next t (it_pause_prefix iter)) finish
         | RT_ITER_STATE_DONE \<Rightarrow> Inr (iter, t, None))"

definition route_table_iter_pause ::
    "route_table_iter \<Rightarrow> 'a route_table \<Rightarrow> (route_table_iter \<times> 'a route_table) res" where
  "route_table_iter_pause iter t =
     (case it_state iter of
        RT_ITER_STATE_ITERATING \<Rightarrow>
          and_then (deref_opt (rt_heap t) (it_current iter)) (\<lambda>(a, n).
          and_then (prefix_copy (it_pause_prefix iter) (rn_p n)) (\<lambda>pp.
          and_then (route_unlock_node a t) (\<lambda>t.
            Inr (iter\<lparr>it_pause_prefix := pp, it_current := None,
                      it_state := RT_ITER_STATE_PAUSED\<rparr>, t))))
      | _ \<Rightarrow> Inr (iter, t))"

definition route_table_iter_cleanup ::
    "route_table_iter \<Rightarrow> 'a route_table \<Rightarrow> (route_table_iter \<times> 'a route_table) res" where
  "route_table_iter_cleanup iter t =
     and_then
       (if it_state iter = RT_ITER_STATE_ITERATING
        then and_then (deref_opt (rt_heap t) (it_current iter)) (\<lambda>(a, n).
             and_then (route_unlock_node a t) (\<lambda>t. Inr (iter\<lparr>it_current := None\<rparr>, t)))
        else Inr (iter, t))
       (\<lambda>(iter, t). and_then (ensure (it_current iter = None))
          (\<lambda>_. Inr (iter\<lparr>it_state := RT_ITER_STATE_DONE\<rparr>, t)))"

definition route_table_iter_is_done :: "route_table_iter \<Rightarrow> bool" where
  "route_table_iter_is_done iter = (it_state iter = RT_ITER_STATE_DONE)"

definition route_table_iter_started :: "route_table_iter \<Rightarrow> bool" where
  "route_table_iter_started iter = (it_state iter \<noteq> RT_ITER_STATE_INIT)"

section \<open>Destruction\<close>

text \<open>
  \<open>route_table_free\<close>: descend to a leaf, free it, clear the parent's link to it and go on
  from the parent.
\<close>

fun free_walk :: "nat \<Rightarrow> nat option \<Rightarrow> 'a route_table \<Rightarrow> 'a route_table res" where
  "free_walk 0 node t = Inl Diverged"
| "free_walk (Suc fuel) node t =
     (case node of
        None \<Rightarrow> Inr t
      | Some a \<Rightarrow> and_then (deref (rt_heap t) a) (\<lambda>n.
          if l_left n \<noteq> None then free_walk fuel (l_left n) t
          else if l_right n \<noteq> None then free_walk fuel (l_right n) t
          else let t = route_node_free (t\<lparr>rt_count := rt_count t - 1\<rparr>) a
            in case rn_parent n of
                 None \<Rightarrow> Inr t
               | Some b \<Rightarrow>
                   and_then (upd_node b (\<lambda>m. if l_left m = Some a then m\<lparr>l_left := None\<rparr>
                                             else m\<lparr>l_right := None\<rparr>) t)
                     (free_walk fuel (Some b))))"

definition route_table_finish :: "'a route_table \<Rightarrow> 'a route_table res" where
  "route_table_finish t =
     and_then (free_walk (Suc (2 * rt_brk t)) (rt_top t) t) (\<lambda>t.
     and_then (ensure (rt_count t = 0)) (\<lambda>_. Inr t))"

end
