(* ===== verification/RouteTableInv.thy ===== *)
theory RouteTableInv
  imports RouteTable "HOL-Library.Multiset"
begin

text \<open>
  The invariant of the routing table and the correctness of its lookups. A heap represents a
  tree of addresses (\<open>tree_at\<close>); the tree is a trie over the network bits of its nodes
  (\<open>trie\<close>); every node of the heap is in the tree, the count is right, and a node
  nobody holds a lock on is a branching stub without information. Contexts (\<open>plug\<close>,
  \<open>frames_at\<close>) split a represented tree at a node; the proofs about insertion, deletion
  and iteration all work on such a split.
\<close>

section \<open>The represented tree\<close>

datatype rtree = Lf | Nd nat rtree rtree

primrec addrs :: "rtree \<Rightarrow> nat list" where
  "addrs Lf = []"
| "addrs (Nd a l r) = a # addrs l @ addrs r"

primrec tree_at :: "'a heap \<Rightarrow> nat option \<Rightarrow> nat option \<Rightarrow> rtree \<Rightarrow> bool" where
  "tree_at h par q Lf \<longleftrightarrow> q = None"
| "tree_at h par q (Nd a l r) \<longleftrightarrow> q = Some a \<and>
     (\<exists>n. h a = Some n \<and> rn_parent n = par \<and>
          tree_at h (Some a) (l_left n) l \<and> tree_at h (Some a) (l_right n) r)"

definition nkey :: "'a heap \<Rightarrow> nat \<Rightarrow> bool list" where
  "nkey h a = prefix_key (rn_p (the (h a)))"

primrec trie :: "(nat \<Rightarrow> bool list) \<Rightarrow> rtree \<Rightarrow> bool" where
  "trie key Lf \<longleftrightarrow> True"
| "trie key (Nd a l r) \<longleftrightarrow>
     (\<forall>b \<in> set (addrs l). \<exists>z. key b = key a @ False # z) \<and>
     (\<forall>b \<in> set (addrs r). \<exists>z. key b = key a @ True # z) \<and> trie key l \<and> trie key r"

text \<open>A node without a lock is a stub that branches and carries no information.\<close>

definition stub_ok :: "'a route_node \<Rightarrow> bool" where
  "stub_ok n \<longleftrightarrow> (rn_lock n = 0 \<longrightarrow> rn_info n = None \<and> l_left n \<noteq> None \<and> l_right n \<noteq> None)"

definition rt_rep :: "'a route_table \<Rightarrow> rtree \<Rightarrow> bool" where
  "rt_rep t tr \<longleftrightarrow>
     tree_at (rt_heap t) None (rt_top t) tr \<and> distinct (addrs tr) \<and>
     dom (rt_heap t) = set (addrs tr) \<and> rt_count t = length (addrs tr) \<and>
     (\<forall>a \<in> set (addrs tr). a < rt_brk t) \<and> trie (nkey (rt_heap t)) tr \<and>
     (\<forall>n \<in> ran (rt_heap t). wf_key (rn_p n))"

definition rt_inv :: "'a route_table \<Rightarrow> bool" where
  "rt_inv t \<longleftrightarrow> (\<exists>tr. rt_rep t tr) \<and> (\<forall>n \<in> ran (rt_heap t). stub_ok n)"

text \<open>The information stored in a table: network bits to information.\<close>

definition rt_entries :: "'a route_table \<Rightarrow> (bool list \<times> 'a) set" where
  "rt_entries t =
     {(k, i). \<exists>a n. rt_heap t a = Some n \<and> prefix_key (rn_p n) = k \<and> rn_info n = Some i}"

section \<open>Contexts\<close>

type_synonym frame = "nat \<times> bool \<times> rtree"

fun plug :: "frame list \<Rightarrow> rtree \<Rightarrow> rtree" where
  "plug [] t = t"
| "plug ((a, b, s) # fs) t = plug fs (if b then Nd a s t else Nd a t s)"

fun par_of :: "frame list \<Rightarrow> nat option" where
  "par_of [] = None"
| "par_of ((a, b, s) # fs) = Some a"

fun frame_addrs :: "frame list \<Rightarrow> nat list" where
  "frame_addrs [] = []"
| "frame_addrs ((a, b, s) # fs) = a # addrs s @ frame_addrs fs"

definition side :: "bool \<Rightarrow> 'a route_node \<Rightarrow> nat option" where
  "side b n = (if b then l_right n else l_left n)"

fun frames_at :: "'a heap \<Rightarrow> nat option \<Rightarrow> frame list \<Rightarrow> nat option \<Rightarrow> bool" where
  "frames_at h tp [] q \<longleftrightarrow> q = tp"
| "frames_at h tp ((a, b, s) # fs) q \<longleftrightarrow>
     (\<exists>n. h a = Some n \<and> rn_parent n = par_of fs \<and> side b n = q \<and>
          tree_at h (Some a) (side (\<not> b) n) s \<and> frames_at h tp fs (Some a))"

fun under :: "(nat \<Rightarrow> bool list) \<Rightarrow> frame list \<Rightarrow> bool list \<Rightarrow> bool" where
  "under key [] k \<longleftrightarrow> True"
| "under key ((a, b, s) # fs) k \<longleftrightarrow> (\<exists>z. k = key a @ b # z) \<and> under key fs k"

fun skel :: "(nat \<Rightarrow> bool list) \<Rightarrow> frame list \<Rightarrow> bool" where
  "skel key [] \<longleftrightarrow> True"
| "skel key ((a, b, s) # fs) \<longleftrightarrow>
     (\<forall>x \<in> set (addrs s). \<exists>z. key x = key a @ (\<not> b) # z) \<and> trie key s \<and>
     (\<forall>x \<in> insert a (set (addrs s)). under key fs (key x)) \<and> skel key fs"

lemma mset_addrs_plug:
  "mset (addrs (plug fs t)) = mset (frame_addrs fs) + mset (addrs t)"
  by (induction fs t rule: plug.induct) auto

lemma set_addrs_plug: "set (addrs (plug fs t)) = set (frame_addrs fs) \<union> set (addrs t)"
  using mset_addrs_plug [of fs t] by (metis set_mset_mset set_mset_union)

lemma distinct_plug:
  "distinct (addrs (plug fs t)) \<longleftrightarrow>
     distinct (frame_addrs fs) \<and> distinct (addrs t) \<and> set (frame_addrs fs) \<inter> set (addrs t) = {}"
  using mset_addrs_plug [of fs t]
  by (metis distinct_append mset_append mset_eq_imp_distinct_iff)

lemma length_plug: "length (addrs (plug fs t)) = length (frame_addrs fs) + length (addrs t)"
  using mset_addrs_plug [of fs t] by (metis length_append mset_append mset_eq_length)

lemma tree_at_plug:
  "tree_at h None tp (plug fs t) \<longleftrightarrow> (\<exists>q. frames_at h tp fs q \<and> tree_at h (par_of fs) q t)"
  by (induction fs t rule: plug.induct) (auto simp: side_def)

lemma trie_plug:
  "trie key (plug fs t) \<longleftrightarrow>
     trie key t \<and> (\<forall>x \<in> set (addrs t). under key fs (key x)) \<and> skel key fs"
proof (induction fs t rule: plug.induct)
  case (1 t)
  then show ?case by simp
next
  case (2 a b s fs t)
  then show ?case by (cases b) (auto simp: ball_Un)
qed

text \<open>What the representation reads of a node.\<close>

definition links :: "'a route_node \<Rightarrow> nat option \<times> nat option \<times> nat option" where
  "links n = (rn_parent n, l_left n, l_right n)"

definition same_links :: "'a heap \<Rightarrow> 'a heap \<Rightarrow> nat \<Rightarrow> bool" where
  "same_links h h' x \<longleftrightarrow> map_option links (h' x) = map_option links (h x)"

lemma same_links_Some:
  "same_links h h' x \<Longrightarrow> h x = Some n \<Longrightarrow> \<exists>n'. h' x = Some n' \<and> links n' = links n"
  by (auto simp: same_links_def)

lemma same_links_eq: "h' x = h x \<Longrightarrow> same_links h h' x"
  by (simp add: same_links_def)

lemma tree_at_frame:
  "tree_at h par q t \<Longrightarrow> \<forall>x \<in> set (addrs t). same_links h h' x \<Longrightarrow> tree_at h' par q t"
proof (induction t arbitrary: par q)
  case Lf
  then show ?case by simp
next
  case (Nd a l r)
  from Nd.prems obtain n where n: "q = Some a" "h a = Some n" "rn_parent n = par"
    "tree_at h (Some a) (l_left n) l" "tree_at h (Some a) (l_right n) r" by auto
  have "same_links h h' a" using Nd.prems(2) by simp
  from same_links_Some [OF this n(2)] obtain n' where
    n': "h' a = Some n'" "rn_parent n' = rn_parent n" "l_left n' = l_left n" "l_right n' = l_right n"
    by (auto simp: links_def)
  have "tree_at h' (Some a) (l_left n) l" "tree_at h' (Some a) (l_right n) r"
    using Nd.IH n(4,5) Nd.prems(2) by simp_all
  with n(1-3) n' show ?case by simp
qed

lemma frames_at_frame:
  "frames_at h tp fs q \<Longrightarrow> \<forall>x \<in> set (frame_addrs fs). same_links h h' x \<Longrightarrow> frames_at h' tp fs q"
proof (induction fs arbitrary: q rule: frame_addrs.induct)
  case 1
  then show ?case by simp
next
  case (2 a b s fs)
  from "2.prems" obtain n where n: "h a = Some n" "rn_parent n = par_of fs" "side b n = q"
    "tree_at h (Some a) (side (\<not> b) n) s" "frames_at h tp fs (Some a)" by auto
  have "same_links h h' a" using "2.prems"(2) by simp
  from same_links_Some [OF this n(1)] obtain n' where
    n': "h' a = Some n'" "rn_parent n' = rn_parent n" "side b n' = side b n"
      "side (\<not> b) n' = side (\<not> b) n"
    by (auto simp: links_def side_def)
  have "tree_at h' (Some a) (side (\<not> b) n) s"
    using "2.prems"(2) by (intro tree_at_frame [OF n(4)]) simp
  moreover have "frames_at h' tp fs (Some a)" using "2.IH" n(5) "2.prems"(2) by simp
  ultimately show ?case using n(2,3) n' by simp
qed

text \<open>Replacing the pointer in the hole of a context.\<close>

lemma frames_at_relink:
  assumes "frames_at h tp ((a, b, s) # fs) q"
    and "h' a = Some n'" "rn_parent n' = par_of fs" "side b n' = q'"
    and "\<And>n. h a = Some n \<Longrightarrow> side (\<not> b) n' = side (\<not> b) n"
    and "\<forall>x \<in> set (addrs s) \<union> set (frame_addrs fs). same_links h h' x"
  shows "frames_at h' tp ((a, b, s) # fs) q'"
proof -
  from assms(1) obtain n where n: "h a = Some n"
    "tree_at h (Some a) (side (\<not> b) n) s" "frames_at h tp fs (Some a)" by auto
  have "tree_at h' (Some a) (side (\<not> b) n) s"
    using assms(6) by (intro tree_at_frame [OF n(2)]) simp
  moreover have "frames_at h' tp fs (Some a)"
    using assms(6) by (intro frames_at_frame [OF n(3)]) simp
  ultimately show ?thesis using assms(2-5) n(1) by auto
qed

lemma trie_cong: "(\<And>x. x \<in> set (addrs t) \<Longrightarrow> key' x = key x) \<Longrightarrow> trie key' t = trie key t"
  by (induction t) auto

section \<open>Descending\<close>

lemma rn_link_side:
  "prefix_key p = prefix_key m @ x # z \<Longrightarrow>
     rn_link n (prefix_bit (u_prefix p) (prefixlen m)) = side x n"
  by (simp add: prefix_key_split rn_link_def side_def)

lemma nkey_Some [simp]: "h a = Some n \<Longrightarrow> nkey h a = prefix_key (rn_p n)"
  by (simp add: nkey_def)

lemma tree_at_dom: "tree_at h par q t \<Longrightarrow> set (addrs t) \<subseteq> dom h"
proof (induction t arbitrary: par q)
  case (Nd a l r)
  then show ?case by auto (meson domD subsetD)+
qed simp

text \<open>
  The guard of the descents, \<open>prefixlen \<le> && prefix_match\<close>, in terms of network bits: the
  walk stops at a node that is no prefix of \<open>p\<close>, is at \<open>p\<close>, or turns to the side
  the next bit of \<open>p\<close> says.
\<close>

lemma descend_cases:
  obtains
    (stop) "\<not> (prefixlen m \<le> prefixlen p \<and> prefix_match m p)"
      "\<And>rest. prefix_key p \<noteq> prefix_key m @ rest"
  | (here) "prefixlen m \<le> prefixlen p \<and> prefix_match m p" "prefixlen m = prefixlen p"
      "prefix_key p = prefix_key m"
  | (below) x z where "prefixlen m \<le> prefixlen p \<and> prefix_match m p" "prefixlen m \<noteq> prefixlen p"
      "prefix_key p = prefix_key m @ x # z"
proof (cases "prefix_match m p")
  case False
  then show thesis by (intro stop) (auto simp: prefix_match_ex)
next
  case True
  then obtain rest where rest: "prefix_key p = prefix_key m @ rest" by (auto simp: prefix_match_ex)
  then have len: "prefixlen p = prefixlen m + length rest"
    by (metis length_append length_prefix_key)
  show thesis
  proof (cases rest)
    case Nil
    then show thesis using rest len True by (intro here) simp_all
  next
    case (Cons x z)
    then show thesis using rest len True by (intro below [of x z]) simp_all
  qed
qed

definition candidates :: "'a heap \<Rightarrow> prefix \<Rightarrow> nat set \<Rightarrow> nat set" where
  "candidates h p A = {a \<in> A. \<exists>n. h a = Some n \<and> rn_info n \<noteq> None \<and> prefix_match (rn_p n) p}"

text \<open>\<open>res\<close> is the candidate with the longest prefix, or \<open>m\<close> when there is none.\<close>

definition best_match ::
    "'a heap \<Rightarrow> prefix \<Rightarrow> nat set \<Rightarrow> nat option \<Rightarrow> nat option \<Rightarrow> bool" where
  "best_match h p A m res \<longleftrightarrow>
     (if candidates h p A = {} then res = m
      else \<exists>a \<in> candidates h p A. res = Some a \<and>
        (\<forall>b \<in> candidates h p A. length (nkey h b) \<le> length (nkey h a)))"

lemma candidates_off_path:
  assumes "\<And>b. b \<in> A \<Longrightarrow> \<exists>z. nkey h b = k @ z" "\<And>rest. prefix_key p \<noteq> k @ rest"
  shows "candidates h p A = {}"
proof (rule ccontr)
  assume "candidates h p A \<noteq> {}"
  then obtain b n where b: "b \<in> A" "h b = Some n" "prefix_match (rn_p n) p"
    by (auto simp: candidates_def)
  from b(3) obtain rest where "prefix_key p = nkey h b @ rest"
    using b(2) by (auto simp: prefix_match_ex)
  moreover from assms(1) b(1) obtain z where "nkey h b = k @ z" by blast
  ultimately show False using assms(2) by simp
qed

lemma candidates_Un: "candidates h p (A \<union> B) = candidates h p A \<union> candidates h p B"
  by (auto simp: candidates_def)

lemma candidates_insert:
  "h a = Some n \<Longrightarrow> candidates h p (insert a A) =
     (if rn_info n \<noteq> None \<and> prefix_match (rn_p n) p then {a} else {}) \<union> candidates h p A"
  by (auto simp: candidates_def)

lemma trie_child:
  assumes "trie key (Nd a l r)" "b \<in> set (addrs (if x then r else l))"
  shows "\<exists>z. key b = (key a @ [x]) @ z"
  using assms by (cases x) auto

lemma trie_below: "trie key (Nd a l r) \<Longrightarrow> b \<in> set (addrs (Nd a l r)) \<Longrightarrow> \<exists>z. key b = key a @ z"
  by auto

lemma match_walk_best:
  assumes "tree_at h par q tr" "trie (nkey h) tr" "length (addrs tr) < fuel"
  shows "\<exists>res. match_walk fuel h p q m = Inr res \<and> best_match h p (set (addrs tr)) m res"
  using assms
proof (induction tr arbitrary: par q m fuel)
  case Lf
  then show ?case by (cases fuel) (auto simp: best_match_def candidates_def)
next
  case (Nd a l r)
  from Nd.prems(1) obtain n where n: "q = Some a" "h a = Some n"
    "tree_at h (Some a) (l_left n) l" "tree_at h (Some a) (l_right n) r" by auto
  from Nd.prems(3) obtain k where fuel: "fuel = Suc k" "length (addrs l) < k" "length (addrs r) < k"
    by (cases fuel) auto
  let ?T = "set (addrs (Nd a l r))"
  show ?case
  proof (cases rule: descend_cases [of "rn_p n" p])
    case stop
    have "candidates h p ?T = {}"
    proof (rule candidates_off_path)
      fix b assume "b \<in> ?T"
      then show "\<exists>z. nkey h b = prefix_key (rn_p n) @ z"
        using trie_below [OF Nd.prems(2)] n(2) by simp
    qed (rule stop)
    moreover have "match_walk fuel h p q m = Inr m"
      using stop(1) n fuel by (auto simp: deref_def)
    ultimately show ?thesis by (simp add: best_match_def)
  next
    case here
    have "candidates h p (set (addrs (if x then r else l))) = {}" for x
    proof (rule candidates_off_path)
      show "\<exists>z. nkey h b = (prefix_key (rn_p n) @ [x]) @ z" if "b \<in> set (addrs (if x then r else l))" for b
        using trie_child [OF Nd.prems(2) that] n(2) by simp
    qed (simp add: here)
    from this [of True] this [of False]
    have "candidates h p ?T = (if rn_info n \<noteq> None then {a} else {})"
      using here n(2) by (simp add: candidates_insert candidates_Un)
    moreover have "match_walk fuel h p q m = Inr (if rn_info n \<noteq> None then Some a else m)"
      using here n fuel by (simp add: deref_def)
    ultimately show ?thesis by (auto simp: best_match_def)
  next
    case (below x z)
    let ?c = "if x then r else l" and ?m = "if rn_info n \<noteq> None then Some a else m"
    have step: "match_walk fuel h p q m = match_walk k h p (side x n) ?m"
      using below n fuel by (simp add: deref_def rn_link_side)
    have "tree_at h (Some a) (side x n) ?c" "trie (nkey h) ?c" "length (addrs ?c) < k"
      using n Nd.prems(2) fuel by (auto simp: side_def)
    with Nd.IH have "\<exists>res. match_walk k h p (side x n) ?m = Inr res \<and>
       best_match h p (set (addrs ?c)) ?m res" by (cases x) auto
    then obtain res where res: "match_walk k h p (side x n) ?m = Inr res"
      "best_match h p (set (addrs ?c)) ?m res" by blast
    have other: "candidates h p (set (addrs (if \<not> x then r else l))) = {}"
    proof (rule candidates_off_path)
      show "\<exists>z. nkey h b = (prefix_key (rn_p n) @ [\<not> x]) @ z"
        if "b \<in> set (addrs (if \<not> x then r else l))" for b
        using trie_child [OF Nd.prems(2) that] n(2) by simp
    qed (simp add: below)
    have "candidates h p ?T =
       (if rn_info n \<noteq> None then {a} else {}) \<union> candidates h p (set (addrs ?c))"
      using other below(1) n(2) by (cases x) (simp_all add: candidates_insert candidates_Un)
    moreover have "length (nkey h a) \<le> length (nkey h b)" if "b \<in> candidates h p (set (addrs ?c))" for b
      using that trie_child [OF Nd.prems(2), of b x] by (auto simp: candidates_def)
    ultimately have "best_match h p ?T m res"
      using res(2) by (auto simp: best_match_def split: if_splits)
    with step res(1) show ?thesis by simp
  qed
qed

lemma lookup_walk_exact:
  assumes "tree_at h par q tr" "trie (nkey h) tr" "length (addrs tr) < fuel"
  shows "\<exists>res. lookup_walk fuel h p q = Inr res \<and>
     (\<forall>a. res = Some a \<longleftrightarrow> a \<in> set (addrs tr) \<and> nkey h a = prefix_key p \<and>
        rn_info (the (h a)) \<noteq> None)"
  using assms
proof (induction tr arbitrary: par q fuel)
  case Lf
  then show ?case by (cases fuel) auto
next
  case (Nd a l r)
  from Nd.prems(1) obtain n where n: "q = Some a" "h a = Some n"
    "tree_at h (Some a) (l_left n) l" "tree_at h (Some a) (l_right n) r" by auto
  from Nd.prems(3) obtain k where fuel: "fuel = Suc k" "length (addrs l) < k" "length (addrs r) < k"
    by (cases fuel) auto
  have a_only: "b = a" if "b \<in> set (addrs (Nd a l r))" "nkey h b = nkey h a" for b
    using that Nd.prems(2) by auto
  show ?case
  proof (cases rule: descend_cases [of "rn_p n" p])
    case stop
    have "nkey h b \<noteq> prefix_key p" if "b \<in> set (addrs (Nd a l r))" for b
      using trie_below [OF Nd.prems(2) that] stop(2) n(2) by fastforce
    moreover have "lookup_walk fuel h p q = Inr None"
      using stop(1) n fuel by (auto simp: deref_def)
    ultimately show ?thesis by blast
  next
    case here
    then have "lookup_walk fuel h p q = Inr (if rn_info n \<noteq> None then Some a else None)"
      using n fuel by (simp add: deref_def)
    moreover have "(if rn_info n \<noteq> None then Some a else None) = Some b \<longleftrightarrow>
       b \<in> set (addrs (Nd a l r)) \<and> nkey h b = prefix_key p \<and> rn_info (the (h b)) \<noteq> None" for b
      using a_only [of b] here(3) n(2) by (cases "b = a") auto
    ultimately show ?thesis by blast
  next
    case (below x z)
    let ?c = "if x then r else l"
    have step: "lookup_walk fuel h p q = lookup_walk k h p (side x n)"
      using below n fuel by (simp add: deref_def rn_link_side)
    have "tree_at h (Some a) (side x n) ?c" "trie (nkey h) ?c" "length (addrs ?c) < k"
      using n Nd.prems(2) fuel by (auto simp: side_def)
    with Nd.IH have "\<exists>res. lookup_walk k h p (side x n) = Inr res \<and>
       (\<forall>a. res = Some a \<longleftrightarrow> a \<in> set (addrs ?c) \<and> nkey h a = prefix_key p \<and>
          rn_info (the (h a)) \<noteq> None)" by (cases x) auto
    moreover have "b \<in> set (addrs (Nd a l r)) \<and> nkey h b = prefix_key p \<longleftrightarrow>
       b \<in> set (addrs ?c) \<and> nkey h b = prefix_key p" for b
    proof -
      have "\<not> (b \<in> set (addrs (if \<not> x then r else l)) \<and> nkey h b = prefix_key p)"
        using trie_child [OF Nd.prems(2), of b "\<not> x"] below(3) n(2) by auto
      moreover have "nkey h a \<noteq> prefix_key p" using below(3) n(2) by simp
      ultimately show ?thesis by (cases x) auto
    qed
    ultimately show ?thesis using step by metis
  qed
qed

text \<open>
  The descent of \<open>route_node_get\<close>: it finds the node of \<open>p\<close>, or a context with
  \<open>p\<close> under it whose hole is empty or holds a subtree the prefix does not belong to.
\<close>

lemma get_walk_split:
  assumes "frames_at h tp fs q" "tree_at h (par_of fs) q tr" "trie (nkey h) tr"
    and "under (nkey h) fs (prefix_key p)" "length (addrs tr) < fuel"
  shows "(\<exists>a. get_walk fuel h p (par_of fs) q = Inr (Inl a) \<and> a \<in> set (addrs tr) \<and>
            nkey h a = prefix_key p) \<or>
     (\<exists>fs' q' tr'. get_walk fuel h p (par_of fs) q = Inr (Inr (par_of fs', q')) \<and>
        plug fs tr = plug fs' tr' \<and> frames_at h tp fs' q' \<and> tree_at h (par_of fs') q' tr' \<and>
        under (nkey h) fs' (prefix_key p) \<and>
        (tr' = Lf \<or> (\<exists>a l r. tr' = Nd a l r \<and> (\<forall>rest. prefix_key p \<noteq> nkey h a @ rest))))"
  using assms
proof (induction tr arbitrary: fs q fuel)
  case Lf
  then have "get_walk fuel h p (par_of fs) q = Inr (Inr (par_of fs, None))" by (cases fuel) auto
  with Lf show ?case
    by (intro disjI2 exI [of _ fs] exI [of _ None] exI [of _ Lf]) simp
next
  case (Nd a l r)
  from Nd.prems(2) obtain n where n: "q = Some a" "h a = Some n" "rn_parent n = par_of fs"
    "tree_at h (Some a) (l_left n) l" "tree_at h (Some a) (l_right n) r" by auto
  from Nd.prems(5) obtain k where fuel: "fuel = Suc k" "length (addrs l) < k" "length (addrs r) < k"
    by (cases fuel) auto
  show ?case
  proof (cases rule: descend_cases [of "rn_p n" p])
    case stop
    then have "get_walk fuel h p (par_of fs) q = Inr (Inr (par_of fs, q))"
      using n fuel by (auto simp: deref_def)
    then show ?thesis
      using Nd.prems(1,2,4) stop(2) n(2)
      by (intro disjI2 exI [of _ fs] exI [of _ q] exI [of _ "Nd a l r"]) auto
  next
    case here
    then have "get_walk fuel h p (par_of fs) q = Inr (Inl a)"
      using n fuel by (simp add: deref_def)
    with here n(2) show ?thesis by simp
  next
    case (below x z)
    let ?c = "if x then r else l" and ?s = "if x then l else r"
    let ?fs = "(a, x, ?s) # fs"
    have step: "get_walk fuel h p (par_of fs) q = get_walk k h p (par_of ?fs) (side x n)"
      using below n fuel by (simp add: deref_def rn_link_side)
    have pre: "frames_at h tp ?fs (side x n)" "tree_at h (par_of ?fs) (side x n) ?c"
      "trie (nkey h) ?c" "under (nkey h) ?fs (prefix_key p)" "length (addrs ?c) < k"
      using n Nd.prems below(3) fuel by (auto simp: side_def)
    have IH: "(\<exists>b. get_walk k h p (par_of ?fs) (side x n) = Inr (Inl b) \<and> b \<in> set (addrs ?c) \<and>
            nkey h b = prefix_key p) \<or>
     (\<exists>fs' q' tr'. get_walk k h p (par_of ?fs) (side x n) = Inr (Inr (par_of fs', q')) \<and>
        plug ?fs ?c = plug fs' tr' \<and> frames_at h tp fs' q' \<and> tree_at h (par_of fs') q' tr' \<and>
        under (nkey h) fs' (prefix_key p) \<and>
        (tr' = Lf \<or> (\<exists>a l r. tr' = Nd a l r \<and> (\<forall>rest. prefix_key p \<noteq> nkey h a @ rest))))"
    proof (cases x)
      case True
      then have c: "?c = r" by simp
      show ?thesis using pre unfolding c by (rule Nd.IH(2))
    next
      case False
      then have c: "?c = l" by simp
      show ?thesis using pre unfolding c by (rule Nd.IH(1))
    qed
    have plug: "plug ?fs ?c = plug fs (Nd a l r)" by (cases x) simp_all
    have sub: "b \<in> set (addrs (Nd a l r))" if "b \<in> set (addrs ?c)" for b
      using that by (cases x) auto
    show ?thesis
      unfolding step by (rule disjE [OF IH [unfolded plug]]) (meson sub, blast)
  qed
qed

section \<open>Changes of data\<close>

lemma rt_rep_data:
  assumes "rt_rep t tr" "rt_heap t a = Some n" "links n' = links n" "rn_p n' = rn_p n"
  shows "rt_rep (t\<lparr>rt_heap := (rt_heap t)(a \<mapsto> n')\<rparr>) tr"
proof -
  let ?h = "(rt_heap t)(a \<mapsto> n')"
  have "tree_at ?h None (rt_top t) tr"
    using assms by (intro tree_at_frame [of "rt_heap t" None "rt_top t" tr ?h])
      (auto simp: rt_rep_def same_links_def)
  moreover have key: "nkey ?h = nkey (rt_heap t)"
    using assms(2,4) by (auto simp: nkey_def fun_eq_iff)
  moreover have "dom ?h = dom (rt_heap t)" using assms(2) by auto
  moreover have "\<forall>m \<in> ran ?h. wf_key (rn_p m)"
    using assms(1,2,4) by (auto simp: rt_rep_def ran_def)
  ultimately show ?thesis using assms(1) by (simp add: rt_rep_def)
qed

lemma rt_entries_data:
  assumes "rt_heap t a = Some n" "rn_info n' = rn_info n" "rn_p n' = rn_p n"
  shows "rt_entries (t\<lparr>rt_heap := (rt_heap t)(a \<mapsto> n')\<rparr>) = rt_entries t"
  using assms unfolding rt_entries_def by (auto split: if_splits) (metis option.inject)+

lemma rt_inv_data:
  assumes "rt_inv t" "rt_heap t a = Some n" "links n' = links n" "rn_p n' = rn_p n" "stub_ok n'"
  shows "rt_inv (t\<lparr>rt_heap := (rt_heap t)(a \<mapsto> n')\<rparr>)"
  using assms rt_rep_data [OF _ assms(2-4)] by (auto simp: rt_inv_def ran_def)

lemma rt_rep_fuel:
  assumes "rt_rep t tr"
  shows "length (addrs tr) < walk_fuel t"
proof -
  from assms have "set (addrs tr) \<subseteq> {..<rt_brk t}" "distinct (addrs tr)" by (auto simp: rt_rep_def)
  then have "length (addrs tr) \<le> rt_brk t"
    by (metis card_lessThan card_mono distinct_card finite_lessThan)
  then show ?thesis by (simp add: walk_fuel_def)
qed

lemma route_lock_node_spec:
  assumes "rt_inv t" "rt_heap t a = Some n"
  shows "\<exists>t'. route_lock_node a t = Inr t' \<and> rt_inv t' \<and> rt_entries t' = rt_entries t \<and>
     rt_heap t' = (rt_heap t)(a \<mapsto> n\<lparr>rn_lock := Suc (rn_lock n)\<rparr>) \<and>
     rt_count t' = rt_count t"
  using assms rt_inv_data [OF assms, of "n\<lparr>rn_lock := Suc (rn_lock n)\<rparr>"]
    rt_entries_data [OF assms(2), of "n\<lparr>rn_lock := Suc (rn_lock n)\<rparr>"]
  by (simp add: route_lock_node_def upd_node_def deref_def links_def stub_ok_def)

section \<open>Properties of lookup\<close>

text \<open>C1: \<open>route_node_match\<close> is longest-prefix match. On a well-formed table it returns without a
  fault, keeps the invariant and the stored information, and returns a node with information
  whose prefix contains \<open>p\<close> and is the longest such, or no node when none contains \<open>p\<close>.\<close>

theorem route_node_match_longest:
  assumes "rt_inv t"
  shows "\<exists>t' r. route_node_match t p = Inr (t', r) \<and> rt_inv t' \<and> rt_entries t' = rt_entries t \<and>
     (case r of
        None \<Rightarrow> \<forall>b m. rt_heap t b = Some m \<longrightarrow> rn_info m \<noteq> None \<longrightarrow> \<not> prefix_match (rn_p m) p
      | Some a \<Rightarrow> \<exists>n. rt_heap t a = Some n \<and> rn_info n \<noteq> None \<and> prefix_match (rn_p n) p \<and>
          (\<forall>b m. rt_heap t b = Some m \<longrightarrow> rn_info m \<noteq> None \<longrightarrow> prefix_match (rn_p m) p \<longrightarrow>
             prefixlen (rn_p m) \<le> prefixlen (rn_p n)))"
proof -
  let ?h = "rt_heap t"
  from assms obtain tr where rep: "rt_rep t tr" by (auto simp: rt_inv_def)
  then have d: "dom ?h = set (addrs tr)" by (simp add: rt_rep_def)
  obtain r where r: "match_walk (walk_fuel t) ?h p (rt_top t) None = Inr r"
    and best: "best_match ?h p (set (addrs tr)) None r"
    using match_walk_best [of ?h None "rt_top t" tr "walk_fuel t" p None] rep rt_rep_fuel [OF rep]
    by (auto simp: rt_rep_def)
  have cand: "b \<in> candidates ?h p (set (addrs tr)) \<longleftrightarrow>
     (\<exists>m. ?h b = Some m \<and> rn_info m \<noteq> None \<and> prefix_match (rn_p m) p)" for b
    using d by (auto simp: candidates_def)
  show ?thesis
  proof (cases r)
    case None
    with best have "candidates ?h p (set (addrs tr)) = {}"
      by (auto simp: best_match_def split: if_splits)
    then have "\<forall>b m. ?h b = Some m \<longrightarrow> rn_info m \<noteq> None \<longrightarrow> \<not> prefix_match (rn_p m) p"
      using cand by blast
    with r None assms show ?thesis by (simp add: route_node_match_def)
  next
    case (Some a)
    with best have a: "a \<in> candidates ?h p (set (addrs tr))"
      "\<forall>b \<in> candidates ?h p (set (addrs tr)). length (nkey ?h b) \<le> length (nkey ?h a)"
      by (auto simp: best_match_def split: if_splits)
    from a(1) obtain n where n: "?h a = Some n" "rn_info n \<noteq> None" "prefix_match (rn_p n) p"
      using cand by blast
    moreover have "prefixlen (rn_p m) \<le> prefixlen (rn_p n)"
      if "?h b = Some m" "rn_info m \<noteq> None" "prefix_match (rn_p m) p" for b m
      using a(2) [rule_format, of b] that n(1) cand by auto
    moreover from route_lock_node_spec [OF assms n(1)] obtain t' where
      "route_lock_node a t = Inr t'" "rt_inv t'" "rt_entries t' = rt_entries t" by blast
    ultimately show ?thesis using r Some by (simp add: route_node_match_def)
  qed
qed

lemma route_node_lookup_spec:
  assumes "rt_inv t"
  shows "\<exists>r. (\<forall>a. r = Some a \<longleftrightarrow> (\<exists>n. rt_heap t a = Some n \<and> prefix_key (rn_p n) = prefix_key p \<and>
        rn_info n \<noteq> None)) \<and>
     route_node_lookup t p = (case r of None \<Rightarrow> Inr (t, None)
       | Some a \<Rightarrow> and_then (route_lock_node a t) (\<lambda>t. Inr (t, Some a)))"
proof -
  let ?h = "rt_heap t"
  from assms obtain tr where rep: "rt_rep t tr" by (auto simp: rt_inv_def)
  then have d: "dom ?h = set (addrs tr)" by (simp add: rt_rep_def)
  obtain r where r: "lookup_walk (walk_fuel t) ?h p (rt_top t) = Inr r"
    and ex: "\<And>a. r = Some a \<longleftrightarrow> a \<in> set (addrs tr) \<and> nkey ?h a = prefix_key p \<and>
        rn_info (the (?h a)) \<noteq> None"
    using lookup_walk_exact [of ?h None "rt_top t" tr "walk_fuel t" p] rep rt_rep_fuel [OF rep]
    by (auto simp: rt_rep_def)
  have exact: "r = Some a \<longleftrightarrow> (\<exists>n. ?h a = Some n \<and> prefix_key (rn_p n) = prefix_key p \<and>
        rn_info n \<noteq> None)" for a
  proof -
    have "a \<in> set (addrs tr) \<longleftrightarrow> (\<exists>n. ?h a = Some n)" using d by auto
    then show ?thesis unfolding ex by auto
  qed
  then show ?thesis using r by (auto simp: route_node_lookup_def)
qed

text \<open>\<open>route_node_lookup\<close> is exact: it returns the node of this prefix when that node carries
  information, and no node otherwise; it never faults and keeps the stored information.\<close>

theorem route_node_lookup_exact:
  assumes "rt_inv t"
  shows "\<exists>t' r. route_node_lookup t p = Inr (t', r) \<and> rt_inv t' \<and> rt_entries t' = rt_entries t \<and>
     (\<forall>a. r = Some a \<longleftrightarrow> (\<exists>n. rt_heap t a = Some n \<and> prefix_key (rn_p n) = prefix_key p \<and>
        rn_info n \<noteq> None))"
proof -
  from route_node_lookup_spec [OF assms, of p] obtain r where
    ex: "\<forall>a. r = Some a \<longleftrightarrow> (\<exists>n. rt_heap t a = Some n \<and> prefix_key (rn_p n) = prefix_key p \<and>
        rn_info n \<noteq> None)"
    and r: "route_node_lookup t p = (case r of None \<Rightarrow> Inr (t, None)
       | Some a \<Rightarrow> and_then (route_lock_node a t) (\<lambda>t. Inr (t, Some a)))" by blast
  show ?thesis
  proof (cases r)
    case None
    with r ex assms show ?thesis by auto
  next
    case (Some a)
    with ex obtain n where n: "rt_heap t a = Some n" by blast
    from route_lock_node_spec [OF assms n] r ex Some show ?thesis by auto
  qed
qed

section \<open>A sample table\<close>

text \<open>10.0.0.0/8 with 10.1.0.0/16 below it, both with information and a lock.\<close>

definition sample_table :: "nat route_table" where
  "sample_table = \<lparr>rt_top = Some 0, rt_count = 2,
     rt_heap = [0 \<mapsto> \<lparr>rn_p = net10, rn_parent = None, l_left = Some 1, l_right = None,
                     rn_lock = 1, rn_info = Some 7\<rparr>,
                1 \<mapsto> \<lparr>rn_p = net10_1, rn_parent = Some 0, l_left = None, l_right = None,
                     rn_lock = 2, rn_info = Some 8\<rparr>], rt_brk = 2\<rparr>"

lemma sample_keys: "prefix_key net10_1 = prefix_key net10 @ False # [False, False, False, False, False, False, True]"
  by code_simp

lemma sample_wf: "wf_key net10" "wf_key net10_1"
  by code_simp+

lemma sample_table_inv: "rt_inv sample_table"
proof -
  have "rt_rep sample_table (Nd 0 (Nd 1 Lf Lf) Lf)"
    using sample_keys sample_wf by (auto simp: rt_rep_def sample_table_def nkey_def ran_def)
  moreover have "\<forall>n \<in> ran (rt_heap sample_table). stub_ok n"
    by (auto simp: sample_table_def ran_def stub_ok_def)
  ultimately show ?thesis by (auto simp: rt_inv_def)
qed

theorem route_node_match_longest_witness:
  "rt_inv sample_table \<and>
   (\<exists>t' a n. route_node_match sample_table net10_1 = Inr (t', Some a) \<and> rt_heap sample_table a = Some n \<and>
      prefixlen (rn_p n) = 16)"
proof -
  have "match_walk (walk_fuel sample_table) (rt_heap sample_table) net10_1 (Some 0) None = Inr (Some 1)"
    by code_simp
  with route_node_match_longest [OF sample_table_inv, of net10_1] sample_table_inv show ?thesis
    by (auto simp: route_node_match_def sample_table_def and_then_Inr_iff net10_1_def)
qed

theorem route_node_lookup_exact_witness:
  "rt_inv sample_table \<and> (\<exists>t' r. route_node_lookup sample_table net10 = Inr (t', r) \<and> r = Some 0)"
proof -
  have "\<exists>n. rt_heap sample_table 0 = Some n \<and> prefix_key (rn_p n) = prefix_key net10 \<and> rn_info n \<noteq> None"
    by (simp add: sample_table_def)
  with route_node_lookup_exact [OF sample_table_inv, of net10] sample_table_inv show ?thesis by blast
qed

end
