(* ===== verification/RouteTableGet.thy ===== *)
theory RouteTableGet
  imports RouteTableInv
begin

unbundle bit_operations_syntax

text \<open>
  Insertion into the routing table: \<open>route_common\<close> computes the longest common prefix,
  and \<open>route_node_get\<close> returns the node of the prefix in a well-formed table that stores
  what it stored before.
\<close>

section \<open>The common prefix\<close>

lemma common_bytes_spec:
  assumes "i \<le> lim" "common_bytes i lim np pp newp = (j, newp')"
  shows "i \<le> j \<and> j \<le> lim \<and> (\<forall>k. i \<le> k \<longrightarrow> k < j \<longrightarrow> byte_at np k = byte_at pp k) \<and>
     (j < lim \<longrightarrow> byte_at np j \<noteq> byte_at pp j) \<and> length newp' = length newp \<and>
     (\<forall>k. k < length newp \<longrightarrow> byte_at newp' k = (if i \<le> k \<and> k < j then byte_at np k else byte_at newp k))"
  using assms
proof (induction i lim np pp newp rule: common_bytes.induct)
  case (1 i lim np pp newp)
  show ?case
  proof (cases "i < lim \<and> byte_at np i = byte_at pp i")
    case True
    with "1.prems" have eq: "common_bytes (Suc i) lim np pp (newp[i := byte_at np i]) = (j, newp')"
      by (simp add: common_bytes.simps [of i])
    from "1.IH" [OF True _ eq] True
    have IH: "Suc i \<le> j" "j \<le> lim" "\<And>k. Suc i \<le> k \<Longrightarrow> k < j \<Longrightarrow> byte_at np k = byte_at pp k"
      "j < lim \<Longrightarrow> byte_at np j \<noteq> byte_at pp j" "length newp' = length newp"
      "\<And>k. k < length newp \<Longrightarrow> byte_at newp' k =
         (if Suc i \<le> k \<and> k < j then byte_at np k else byte_at (newp[i := byte_at np i]) k)"
      by auto
    have "byte_at np k = byte_at pp k" if "i \<le> k" "k < j" for k
      using IH(3) [of k] True that by (cases "k = i") auto
    moreover have "byte_at newp' k = (if i \<le> k \<and> k < j then byte_at np k else byte_at newp k)"
      if "k < length newp" for k
      using IH(1) IH(6) [OF that] that by (auto simp: byte_at_update)
    ultimately show ?thesis using IH by auto
  next
    case False
    with "1.prems" have "j = i" "newp' = newp" by (simp_all add: common_bytes.simps [of i])
    with False "1.prems"(1) show ?thesis by auto
  qed
qed

lemma bit_0x80: "bit (0x80 :: u8) i \<longleftrightarrow> i = 7"
proof (cases "i < 8")
  case True
  then show ?thesis using bit_maskbit [of 1 i] by (auto simp: maskbit_def)
qed (auto simp: not_bit_u8)

lemma shifted_mask: "k < 8 \<Longrightarrow> drop_bit k (0x80 :: u8) AND diff = 0 \<longleftrightarrow> \<not> bit diff (7 - k)"
proof -
  have "bit (drop_bit k (0x80 :: u8)) i \<longleftrightarrow> k + i = 7" for i
    by (simp only: bit_drop_bit_eq comp_def bit_0x80)
  then have bits: "drop_bit k (0x80 :: u8) AND diff = 0 \<longleftrightarrow> (\<forall>i<8. \<not> (k + i = 7 \<and> bit diff i))"
    by (simp only: word_and_eq_0_iff)
  assume k: "k < 8"
  have "k + i = 7 \<longleftrightarrow> i = 7 - k" for i using k by auto
  moreover have "7 - k < 8" by simp
  ultimately show ?thesis unfolding bits by auto
qed

lemma common_bits_spec:
  assumes "k < 8" "len = base + k" "len \<le> lim" "msk = drop_bit k 0x80"
    and "lim < base + 8 \<or> (\<exists>j. k \<le> j \<and> j < 8 \<and> bit diff (7 - j))"
  shows "len \<le> common_bits len lim msk diff \<and> common_bits len lim msk diff \<le> lim \<and>
     common_bits len lim msk diff < base + 8 \<and>
     (\<forall>j. k \<le> j \<longrightarrow> base + j < common_bits len lim msk diff \<longrightarrow> \<not> bit diff (7 - j)) \<and>
     (common_bits len lim msk diff < lim \<longrightarrow> bit diff (7 - (common_bits len lim msk diff - base)))"
  using assms
proof (induction len lim msk diff arbitrary: k rule: common_bits.induct)
  case (1 len lim msk diff)
  show ?case
  proof (cases "len < lim \<and> msk AND diff = 0")
    case True
    then have eq: "common_bits len lim msk diff = common_bits (Suc len) lim (drop_bit 1 msk) diff"
      by (simp add: common_bits.simps [of len])
    have nb: "\<not> bit diff (7 - k)" using True "1.prems" shifted_mask by simp
    have k7: "Suc k < 8"
    proof (rule ccontr)
      assume "\<not> Suc k < 8"
      with "1.prems"(1) have "k = 7" by simp
      with "1.prems"(2,5) nb True show False by (auto simp: less_Suc_eq numeral_eq_Suc le_Suc_eq)
    qed
    have ex: "lim < base + 8 \<or> (\<exists>j\<ge>Suc k. j < 8 \<and> bit diff (7 - j))"
      using "1.prems"(5) nb by (metis Suc_leI le_neq_implies_less)
    have msk: "drop_bit 1 msk = drop_bit (Suc k) 0x80"
      using "1.prems"(4) by (simp add: drop_bit_drop_bit)
    have IH: "Suc len \<le> common_bits len lim msk diff \<and> common_bits len lim msk diff \<le> lim \<and>
     common_bits len lim msk diff < base + 8 \<and>
     (\<forall>j. Suc k \<le> j \<longrightarrow> base + j < common_bits len lim msk diff \<longrightarrow> \<not> bit diff (7 - j)) \<and>
     (common_bits len lim msk diff < lim \<longrightarrow> bit diff (7 - (common_bits len lim msk diff - base)))"
      unfolding eq using True k7 "1.prems"(2) msk ex by (intro "1.IH") auto
    have "\<not> bit diff (7 - j)" if "k \<le> j" "base + j < common_bits len lim msk diff" for j
      using IH nb that by (cases "j = k") auto
    with IH show ?thesis by auto
  next
    case False
    then have eq: "common_bits len lim msk diff = len" by (subst common_bits.simps) auto
    have "bit diff (7 - k)" if "len < lim" using False that "1.prems" shifted_mask by simp
    then show ?thesis unfolding eq using "1.prems" by auto
  qed
qed

text \<open>Where the bit loop of \<open>route_common\<close> stops, in terms of address bits.\<close>

lemma common_bits_pbit:
  fixes np pp :: "u8 list"
  assumes "i \<le> len div 8" "8 * i \<noteq> len" "i < len div 8 \<Longrightarrow> byte_at np i \<noteq> byte_at pp i"
    and L: "L = common_bits (8 * i) len 0x80 (byte_at np i XOR byte_at pp i)"
  shows "8 * i \<le> L" "L \<le> len" "L < 8 * i + 8"
    "\<And>j. 8 * i \<le> j \<Longrightarrow> j < L \<Longrightarrow> pbit np j = pbit pp j"
    "L < len \<Longrightarrow> pbit np L \<noteq> pbit pp L"
proof -
  let ?diff = "byte_at np i XOR byte_at pp i"
  have le: "8 * i \<le> len" using assms(1) by auto
  have d: "bit ?diff (7 - j) \<longleftrightarrow> pbit np (8 * i + j) \<noteq> pbit pp (8 * i + j)" if "j < 8" for j
    using that by (simp add: bit_xor_iff pbit_byte)
  have "len < 8 * i + 8 \<or> (\<exists>j\<ge>0. j < 8 \<and> bit ?diff (7 - j))"
  proof (cases "i < len div 8")
    case True
    then have "\<exists>k<8. pbit np (8 * i + k) \<noteq> pbit pp (8 * i + k)"
      using assms(3) byte_eq_pbit [of np i pp] by simp
    then show ?thesis using d by auto
  next
    case False
    with assms(1) have "i = len div 8" by simp
    then show ?thesis by auto
  qed
  with common_bits_spec [of 0 "8 * i" "8 * i" len "0x80" ?diff] le
  have s: "8 * i \<le> L" "L \<le> len" "L < 8 * i + 8"
    "\<And>j. 8 * i + j < L \<Longrightarrow> \<not> bit ?diff (7 - j)" "L < len \<Longrightarrow> bit ?diff (7 - (L - 8 * i))"
    unfolding L by auto
  then show "8 * i \<le> L" "L \<le> len" "L < 8 * i + 8" by simp_all
  show "pbit np j = pbit pp j" if "8 * i \<le> j" "j < L" for j
    using s(3) s(4) [of "j - 8 * i"] d [of "j - 8 * i"] that by simp
  show "pbit np L \<noteq> pbit pp L" if "L < len"
    using s(1,3) s(5) [OF that] d [of "L - 8 * i"] by simp
qed

text \<open>\<open>c\<close> is the longest common prefix of \<open>n\<close> (all its bits) and \<open>p\<close> (its network bits).\<close>

definition is_common :: "prefix \<Rightarrow> prefix \<Rightarrow> prefix \<Rightarrow> bool" where
  "is_common n p c \<longleftrightarrow> prefixlen c \<le> prefixlen p \<and> length (u_prefix c) = 16 \<and>
     (\<forall>i < prefixlen c. pbit (u_prefix n) i = pbit (u_prefix p) i \<and>
                        pbit (u_prefix c) i = pbit (u_prefix n) i) \<and>
     (prefixlen c < prefixlen p \<longrightarrow>
        pbit (u_prefix n) (prefixlen c) \<noteq> pbit (u_prefix p) (prefixlen c))"

lemma route_common_is_common:
  assumes "length (u_prefix new) = 16" "prefixlen p \<le> 128"
  shows "is_common n p (route_common n p new)"
proof -
  let ?np = "u_prefix n" and ?pp = "u_prefix p" and ?len = "prefixlen p"
  obtain i newp where cb: "common_bytes 0 (?len div 8) ?np ?pp (u_prefix new) = (i, newp)" by force
  from common_bytes_spec [OF _ cb] assms(1)
  have i: "i \<le> ?len div 8" "\<And>k. k < i \<Longrightarrow> byte_at ?np k = byte_at ?pp k"
    "i < ?len div 8 \<Longrightarrow> byte_at ?np i \<noteq> byte_at ?pp i" "length newp = 16"
    "\<And>k. k < 16 \<Longrightarrow> byte_at newp k = (if k < i then byte_at ?np k else byte_at (u_prefix new) k)"
    by auto
  have i16: "8 * i \<le> ?len" using i(1) by auto
  have low: "pbit ?np j = pbit ?pp j" "pbit newp j = pbit ?np j" if "j < 8 * i" for j
    using that i(2,5) [of "j div 8"] i16 assms(2) by (auto simp: pbit_def)
  show ?thesis
  proof (cases "8 * i = ?len")
    case True
    then have "route_common n p new = new\<lparr>prefixlen := ?len, u_prefix := newp\<rparr>"
      by (simp add: route_common_def cb mult.commute)
    with low True i(4) show ?thesis by (simp add: is_common_def)
  next
    case False
    define L where "L = common_bits (8 * i) ?len 0x80 (byte_at ?np i XOR byte_at ?pp i)"
    note L = common_bits_pbit [OF i(1) False i(3) L_def]
    have c: "route_common n p new =
        new\<lparr>prefixlen := L, u_prefix := newp[i := byte_at ?np i AND maskbit (L mod 8)]\<rparr>"
      using False by (simp add: route_common_def cb L_def mult.commute Let_def)
    have eq: "pbit ?np j = pbit ?pp j" if "j < L" for j
      using low(1) L(4) that by (cases "j < 8 * i") auto
    have "i < 16" using False i16 assms(2) by simp
    moreover have "L mod 8 = L - 8 * i" using L(1,3) by (simp add: mod_nat_eqI)
    ultimately have byte: "byte_at (newp[i := byte_at ?np i AND maskbit (L mod 8)]) k =
        (if k = i then byte_at ?np i AND maskbit (L - 8 * i) else byte_at newp k)" for k
      using i(4) by (simp add: byte_at_update)
    have "pbit (newp[i := byte_at ?np i AND maskbit (L mod 8)]) j = pbit ?np j" if "j < L" for j
    proof (cases "j < 8 * i")
      case True
      then have "j div 8 \<noteq> i" by auto
      then show ?thesis using low(2) [OF True] byte by (simp add: pbit_def)
    next
      case False
      define r where "r = j - 8 * i"
      with False have r: "j = 8 * i + r" "r < 8" using L(3) that by auto
      have "bit (maskbit (L - 8 * i)) (7 - r)" using r that L(3) by (subst bit_maskbit) auto
      then show ?thesis using r byte by (simp add: pbit_byte bit_and_iff)
    qed
    then show ?thesis using eq L(2,5) i(4) by (simp add: is_common_def c)
  qed
qed

lemma route_common_family [simp]: "family (route_common n p new) = family new"
  by (simp add: route_common_def Let_def split: prod.splits)

lemma common_key:
  assumes "is_common n p c" "\<And>rest. prefix_key p \<noteq> prefix_key n @ rest"
  shows "\<exists>x z. prefix_key n = prefix_key c @ x # z \<and>
     (if prefixlen c = prefixlen p then prefix_key p = prefix_key c
      else \<exists>z'. prefix_key p = prefix_key c @ (\<not> x) # z')"
proof -
  let ?L = "prefixlen c"
  have kp: "take ?L (prefix_key p) = prefix_key c"
    using assms(1) by (simp add: is_common_def prefix_key_def map_upt_eq_take)
  have lt: "?L < prefixlen n"
  proof (rule ccontr)
    assume "\<not> ?L < prefixlen n"
    then have "prefixlen n \<le> prefixlen p" "take (prefixlen n) (prefix_key p) = prefix_key n"
      using assms(1) by (auto simp: is_common_def prefix_key_def map_upt_eq_take)
    then have "prefix_key p = prefix_key n @ drop (prefixlen n) (prefix_key p)"
      by (metis append_take_drop_id)
    with assms(2) show False by blast
  qed
  have kn: "take ?L (prefix_key n) = prefix_key c"
    using assms(1) lt by (simp add: is_common_def prefix_key_def map_upt_eq_take)
  have nth: "k = take m k @ k ! m # drop (Suc m) k" if "m < length k" for k :: "bool list" and m
    using that by (simp add: id_take_nth_drop)
  from nth [of ?L "prefix_key n"] lt kn
  have n: "prefix_key n = prefix_key c @ pbit (u_prefix n) ?L # drop (Suc ?L) (prefix_key n)"
    by (simp add: prefix_key_nth)
  show ?thesis
  proof (cases "?L = prefixlen p")
    case True
    with kp have "prefix_key p = prefix_key c" by simp
    with n True show ?thesis by auto
  next
    case False
    then have L: "?L < prefixlen p" using assms(1) by (simp add: is_common_def)
    with assms(1) have "pbit (u_prefix p) ?L = (\<not> pbit (u_prefix n) ?L)"
      by (auto simp: is_common_def)
    with nth [of ?L "prefix_key p"] L kp
    have "prefix_key p = prefix_key c @ (\<not> pbit (u_prefix n) ?L) # drop (Suc ?L) (prefix_key p)"
      by (simp add: prefix_key_nth)
    with n False show ?thesis by metis
  qed
qed

section \<open>Linking\<close>

definition ndata :: "'a route_node \<Rightarrow> prefix \<times> nat \<times> 'a option" where
  "ndata n = (rn_p n, rn_lock n, rn_info n)"

lemma set_rn_link_simps [simp]:
  "side x (set_rn_link (of_bool x) q n) = q"
  "side (\<not> x) (set_rn_link (of_bool x) q n) = side (\<not> x) n"
  "side x (set_rn_link (of_bool (\<not> x)) q n) = side x n"
  "rn_parent (set_rn_link b q n) = rn_parent n"
  "rn_p (set_rn_link b q n) = rn_p n"
  "rn_lock (set_rn_link b q n) = rn_lock n"
  "rn_info (set_rn_link b q n) = rn_info n"
  by (simp_all add: set_rn_link_def side_def)

lemma ndata_set_rn_link [simp]: "ndata (set_rn_link b q n) = ndata n"
  by (simp add: ndata_def)

lemma stub_ok_side: "stub_ok n \<longleftrightarrow>
    (rn_lock n = 0 \<longrightarrow> rn_info n = None \<and> side x n \<noteq> None \<and> side (\<not> x) n \<noteq> None)"
  by (cases x) (auto simp: stub_ok_def side_def)

lemma stub_ok_link: "stub_ok n \<Longrightarrow> stub_ok (set_rn_link (of_bool x) (Some q) n)"
  by (auto simp: stub_ok_side [where x = x])

lemma set_link_eq:
  assumes "rt_heap t new = Some nw" "rt_heap t node = Some nd" "node \<noteq> new"
    and "prefix_key (rn_p nw) = prefix_key (rn_p nd) @ x # z"
  shows "set_link node new t =
     Inr (t\<lparr>rt_heap := (rt_heap t)(node \<mapsto> set_rn_link (of_bool x) (Some new) nd,
                                   new \<mapsto> nw\<lparr>rn_parent := Some node\<rparr>)\<rparr>)"
  using assms by (simp add: set_link_def upd_node_def deref_def prefix_key_split(1) [OF assms(4)])

text \<open>Attaching a node below a context, whose last node is its parent.\<close>

lemma attach_frames:
  assumes "frames_at (rt_heap t) (rt_top t) fs q" "distinct (frame_addrs fs)"
    and "rt_heap t new = Some nw" "new \<notin> set (frame_addrs fs)" "rn_parent nw = None"
    and "under (nkey (rt_heap t)) fs (prefix_key (rn_p nw))"
  shows "\<exists>t'. attach (par_of fs) new t = Inr t' \<and>
     frames_at (rt_heap t') (rt_top t') fs (Some new) \<and>
     rt_heap t' new = Some (nw\<lparr>rn_parent := par_of fs\<rparr>) \<and>
     (\<forall>x. x \<noteq> new \<longrightarrow> x \<notin> set (frame_addrs fs) \<longrightarrow> rt_heap t' x = rt_heap t x) \<and>
     (\<forall>x. map_option ndata (rt_heap t' x) = map_option ndata (rt_heap t x)) \<and>
     (\<forall>x n'. x \<noteq> new \<longrightarrow> rt_heap t' x = Some n' \<longrightarrow>
        (\<exists>n. rt_heap t x = Some n \<and> (stub_ok n \<longrightarrow> stub_ok n'))) \<and>
     rt_brk t' = rt_brk t \<and> rt_count t' = rt_count t"
proof (cases fs)
  case Nil
  with assms(3,5) show ?thesis by (auto simp: attach_def)
next
  case (Cons f fs')
  obtain m y s where f: "f = (m, y, s)" by (cases f)
  from assms(1) Cons f obtain nm where nm: "rt_heap t m = Some nm" "rn_parent nm = par_of fs'" by auto
  from assms(6) Cons f nm obtain z where z: "prefix_key (rn_p nw) = prefix_key (rn_p nm) @ y # z"
    by auto
  have ne: "m \<noteq> new" using assms(4) Cons f by auto
  let ?h = "(rt_heap t)(m \<mapsto> set_rn_link (of_bool y) (Some new) nm, new \<mapsto> nw\<lparr>rn_parent := Some m\<rparr>)"
  have "attach (par_of fs) new t = Inr (t\<lparr>rt_heap := ?h\<rparr>)"
    using set_link_eq [OF assms(3) nm(1) ne z] Cons f by (simp add: attach_def)
  moreover have "frames_at ?h (rt_top t) fs (Some new)"
    unfolding Cons f
  proof (rule frames_at_relink [of "rt_heap t" _ m y s fs' q])
    show "frames_at (rt_heap t) (rt_top t) ((m, y, s) # fs') q" using assms(1) Cons f by simp
    show "?h m = Some (set_rn_link (of_bool y) (Some new) nm)" using ne by simp
    show "\<forall>x \<in> set (addrs s) \<union> set (frame_addrs fs'). same_links (rt_heap t) ?h x"
      using assms(2,4) Cons f by (auto intro!: same_links_eq)
    show "side (\<not> y) (set_rn_link (of_bool y) (Some new) nm) = side (\<not> y) n"
      if "rt_heap t m = Some n" for n using that nm(1) by simp
  qed (simp_all add: nm(2))
  ultimately show ?thesis
    using Cons f nm ne assms(3) by (auto simp: ndata_def stub_ok_link)
qed

section \<open>New nodes\<close>

definition fresh_node :: "prefix \<Rightarrow> 'a route_node" where
  "fresh_node p = \<lparr>rn_p = p, rn_parent = None, l_left = None, l_right = None,
                   rn_lock = 0, rn_info = None\<rparr>"

lemma fresh_node_simps [simp]:
  "rn_p (fresh_node p) = p" "rn_parent (fresh_node p) = None" "side b (fresh_node p) = None"
  "l_left (fresh_node p) = None" "l_right (fresh_node p) = None"
  "rn_lock (fresh_node p) = 0" "rn_info (fresh_node p) = None"
  by (simp_all add: fresh_node_def side_def)

lemma route_node_new_eq:
  "route_node_new t = (t\<lparr>rt_heap := (rt_heap t)(rt_brk t \<mapsto> fresh_node prefix_new),
                          rt_brk := Suc (rt_brk t)\<rparr>, rt_brk t)"
  by (simp add: route_node_new_def fresh_node_def)

lemma route_node_set_eq:
  assumes "wf_key p"
  shows "\<exists>p'. wf_key p' \<and> prefix_key p' = prefix_key p \<and> prefixlen p' = prefixlen p \<and>
     route_node_set t p = Inr (t\<lparr>rt_heap := (rt_heap t)(rt_brk t \<mapsto> fresh_node p'),
                                 rt_brk := Suc (rt_brk t)\<rparr>, rt_brk t)"
  using prefix_copy_new [OF assms]
  by (auto simp: route_node_set_def route_node_new_eq deref_def upd_node_def fresh_node_def)

text \<open>
  \<open>grown t t' N new p\<close>: the nodes \<open>N\<close> were added without information or lock, \<open>new\<close>
  is the one for \<open>p\<close>, every other node keeps its data, and only \<open>new\<close> may lack children.
\<close>

definition grown :: "'a route_table \<Rightarrow> 'a route_table \<Rightarrow> nat set \<Rightarrow> nat \<Rightarrow> prefix \<Rightarrow> bool" where
  "grown t t' N new p \<longleftrightarrow>
     dom (rt_heap t') = dom (rt_heap t) \<union> N \<and> N \<inter> dom (rt_heap t) = {} \<and> new \<in> N \<and>
     (\<forall>x \<in> dom (rt_heap t). map_option ndata (rt_heap t' x) = map_option ndata (rt_heap t x)) \<and>
     (\<forall>x \<in> N. \<exists>n. rt_heap t' x = Some n \<and> rn_info n = None \<and> rn_lock n = 0 \<and>
        (x \<noteq> new \<longrightarrow> stub_ok n)) \<and>
     nkey (rt_heap t') new = prefix_key p \<and>
     (\<forall>x n n'. rt_heap t x = Some n \<longrightarrow> rt_heap t' x = Some n' \<longrightarrow> stub_ok n \<longrightarrow> stub_ok n')"

lemma grown_oneI:
  assumes "dom (rt_heap t') = insert c (dom (rt_heap t))" "c \<notin> dom (rt_heap t)"
    and "\<And>y. y \<in> dom (rt_heap t) \<Longrightarrow> map_option ndata (rt_heap t' y) = map_option ndata (rt_heap t y)"
    and "rt_heap t' c = Some n" "ndata n = (pc, 0, None)" "prefix_key pc = prefix_key p"
    and "\<And>y n n'. rt_heap t y = Some n \<Longrightarrow> rt_heap t' y = Some n' \<Longrightarrow> stub_ok n \<Longrightarrow> stub_ok n'"
  shows "grown t t' {c} c p"
  unfolding grown_def using assms by (simp add: ndata_def)

lemma frames_key_cong:
  "(\<And>x. x \<in> set (frame_addrs fs) \<Longrightarrow> key' x = key x) \<Longrightarrow>
     under key' fs k = under key fs k \<and> skel key' fs = skel key fs"
proof (induction fs arbitrary: k rule: frame_addrs.induct)
  case 1
  then show ?case by simp
next
  case (2 a b s fs)
  then have "under key' fs k' = under key fs k' \<and> skel key' fs = skel key fs" for k' by simp
  moreover have "trie key' s = trie key s" using 2(2) by (intro trie_cong) simp
  ultimately show ?case using 2(2) by simp
qed

lemma ndata_nkey:
  "map_option ndata (h' x) = map_option ndata (h x) \<Longrightarrow> x \<in> dom h \<Longrightarrow> nkey h' x = nkey h x"
  by (auto simp: nkey_def ndata_def)

lemma rt_rep_parts:
  assumes "rt_rep t (plug fs tr)"
  shows "distinct (frame_addrs fs)" "distinct (addrs tr)"
    "set (frame_addrs fs) \<inter> set (addrs tr) = {}"
    "dom (rt_heap t) = set (frame_addrs fs) \<union> set (addrs tr)"
    "rt_count t = length (frame_addrs fs) + length (addrs tr)"
    "\<And>x. x \<in> dom (rt_heap t) \<Longrightarrow> x < rt_brk t"
    "trie (nkey (rt_heap t)) tr" "skel (nkey (rt_heap t)) fs"
    "\<And>x. x \<in> set (addrs tr) \<Longrightarrow> under (nkey (rt_heap t)) fs (nkey (rt_heap t) x)"
  using assms by (auto simp: rt_rep_def distinct_plug set_addrs_plug length_plug trie_plug)

lemma map_option_doms:
  "(\<And>x. map_option f (h' x) = map_option f (h x)) \<Longrightarrow> dom h' = dom h"
  by (metis (mono_tags, lifting) domIff option.map_disc_iff subsetI subset_antisym)

text \<open>Replacing the subtree in a context by one with the new nodes \<open>N\<close>.\<close>

lemma rt_rep_grow:
  assumes rep: "rt_rep t (plug fs tr)"
    and fr: "frames_at (rt_heap t') (rt_top t') fs q" and tr: "tree_at (rt_heap t') (par_of fs) q T"
    and N: "mset (addrs T) = mset (addrs tr) + mset N" "distinct N" "set N \<inter> dom (rt_heap t) = {}"
    and dm: "dom (rt_heap t') = dom (rt_heap t) \<union> set N"
    and data: "\<And>x. x \<in> dom (rt_heap t) \<Longrightarrow>
      map_option ndata (rt_heap t' x) = map_option ndata (rt_heap t x)"
    and new: "\<And>x. x \<in> set N \<Longrightarrow> under (nkey (rt_heap t)) fs (nkey (rt_heap t') x) \<and>
      wf_key (rn_p (the (rt_heap t' x))) \<and> x < rt_brk t'"
    and trie: "trie (nkey (rt_heap t')) T"
    and cnt: "rt_brk t \<le> rt_brk t'" "rt_count t' = rt_count t + length N"
  shows "rt_rep t' (plug fs T)"
proof -
  note parts = rt_rep_parts [OF rep]
  have key: "nkey (rt_heap t') x = nkey (rt_heap t) x" if "x \<in> dom (rt_heap t)" for x
    using data that by (intro ndata_nkey [of "rt_heap t'" x "rt_heap t"]) auto
  have fkey: "under (nkey (rt_heap t')) fs k = under (nkey (rt_heap t)) fs k \<and>
      skel (nkey (rt_heap t')) fs = skel (nkey (rt_heap t)) fs" for k
    using key parts(4) by (intro frames_key_cong) simp
  have setT: "set (addrs T) = set (addrs tr) \<union> set N"
    using N(1) by (metis set_mset_mset set_mset_union)
  have distT: "distinct (addrs T)"
    using N parts(2,4) mset_eq_imp_distinct_iff [of "addrs T" "addrs tr @ N"] by auto
  have lenT: "length (addrs T) = length (addrs tr) + length N"
    using N(1) by (metis length_append mset_append mset_eq_length)
  have un: "under (nkey (rt_heap t')) fs (nkey (rt_heap t') x)" if "x \<in> set (addrs T)" for x
    using that setT new [of x] parts(4,9) fkey key by auto
  have wf: "wf_key (rn_p n)" if "rt_heap t' x = Some n" for x n
  proof (cases "x \<in> set N")
    case True
    with new [of x] that show ?thesis by simp
  next
    case False
    with that dm have x: "x \<in> dom (rt_heap t)" by blast
    then obtain m where "rt_heap t x = Some m" by blast
    with data [OF x] that rep show ?thesis by (auto simp: ndata_def rt_rep_def ran_def)
  qed
  show ?thesis
    unfolding rt_rep_def tree_at_plug trie_plug distinct_plug set_addrs_plug length_plug setT lenT
    using fr tr parts distT dm fkey trie un wf cnt N(3) new setT
    by (auto simp: ran_def dest: less_le_trans)
qed

lemma get_leaf_rep:
  assumes rep: "rt_rep (t\<lparr>rt_count := k\<rparr>) (plug fs Lf)"
    and fr: "frames_at (rt_heap t) (rt_top t) fs None"
    and un: "under (nkey (rt_heap t)) fs (prefix_key p)" and wf: "wf_key p"
  shows "\<exists>t' new. get_leaf (par_of fs) p t = Inr (t', new) \<and>
     rt_rep (t'\<lparr>rt_count := Suc k\<rparr>) (plug fs (Nd new Lf Lf)) \<and> grown t t' {new} new p \<and>
     rt_count t' = rt_count t"
proof -
  note parts = rt_rep_parts [OF rep, simplified]
  let ?new = "rt_brk t"
  from route_node_set_eq [OF wf, of t] obtain p' where p': "wf_key p'"
    "prefix_key p' = prefix_key p" and set: "route_node_set t p =
       Inr (t\<lparr>rt_heap := (rt_heap t)(?new \<mapsto> fresh_node p'), rt_brk := Suc (rt_brk t)\<rparr>, ?new)"
    by blast
  define t1 where "t1 = t\<lparr>rt_heap := (rt_heap t)(?new \<mapsto> fresh_node p'), rt_brk := Suc (rt_brk t)\<rparr>"
  have nin: "?new \<notin> dom (rt_heap t)" using parts(6) by blast
  then have nfr: "?new \<notin> set (frame_addrs fs)" using parts(4) by simp
  have "nkey (rt_heap t1) x = nkey (rt_heap t) x" if "x \<in> set (frame_addrs fs)" for x
    using that nfr by (auto simp: t1_def nkey_def)
  then have "under (nkey (rt_heap t1)) fs (prefix_key p')"
    using frames_key_cong [of fs "nkey (rt_heap t1)" "nkey (rt_heap t)"] un p'(2) by simp
  moreover have "frames_at (rt_heap t1) (rt_top t1) fs None"
    unfolding t1_def using frames_at_frame [OF fr] nfr by (auto simp: same_links_def)
  ultimately obtain t' where att: "attach (par_of fs) ?new t1 = Inr t'"
    and fr': "frames_at (rt_heap t') (rt_top t') fs (Some ?new)"
    and new': "rt_heap t' ?new = Some ((fresh_node p')\<lparr>rn_parent := par_of fs\<rparr>)"
    and data': "\<And>x. map_option ndata (rt_heap t' x) = map_option ndata (rt_heap t1 x)"
    and stub': "\<And>x n'. x \<noteq> ?new \<Longrightarrow> rt_heap t' x = Some n' \<Longrightarrow>
        \<exists>n. rt_heap t1 x = Some n \<and> (stub_ok n \<longrightarrow> stub_ok n')"
    and brk': "rt_brk t' = rt_brk t1" "rt_count t' = rt_count t1"
    using attach_frames [of t1 fs None ?new "fresh_node p'"] parts(1) nfr
    by (auto simp: t1_def)
  have dom': "dom (rt_heap t') = insert ?new (dom (rt_heap t))"
    using map_option_doms [of ndata "rt_heap t'" "rt_heap t1"] data' by (auto simp: t1_def)
  have data: "map_option ndata (rt_heap t' x) = map_option ndata (rt_heap t x)"
    if "x \<in> dom (rt_heap t)" for x
    using that data' [of x] nin by (auto simp: t1_def)
  have "rt_rep (t'\<lparr>rt_count := Suc k\<rparr>) (plug fs (Nd ?new Lf Lf))"
    using fr' new' nin dom' data un p' brk'
    by (intro rt_rep_grow [OF rep, of _ "Some ?new" _ "[?new]"]) (simp_all add: t1_def)
  moreover have "grown t t' {?new} ?new p"
  proof (rule grown_oneI [OF dom' nin data new', where pc = p'])
    show "stub_ok n'" if "rt_heap t y = Some n" "rt_heap t' y = Some n'" "stub_ok n" for y n n'
    proof -
      have "y \<noteq> ?new" using that(1) nin by auto
      then show ?thesis using stub' [of y n'] that by (auto simp: t1_def)
    qed
  qed (simp_all add: p'(2) ndata_def)
  ultimately show ?thesis using set att brk' by (auto simp: get_leaf_def t1_def)
qed

lemma common_split:
  "c @ x # z = k @ w \<Longrightarrow> c @ (\<not> x) # z' = k @ w' \<Longrightarrow> \<exists>u. c = k @ u"
proof (induction k arbitrary: c)
  case (Cons e k)
  then show ?case by (cases c) auto
qed simp

lemma under_common:
  assumes "under key fs (c @ x # z)" "under key fs (c @ (\<not> x) # z')"
  shows "under key fs c"
  using assms
proof (induction fs rule: frame_addrs.induct)
  case (2 a b s fs)
  then obtain w w' where "c @ x # z = (key a @ [b]) @ w" "c @ (\<not> x) # z' = (key a @ [b]) @ w'"
    by auto
  from common_split [OF this] 2 show ?case by auto
qed simp

lemma under_common_key:
  assumes "is_common n p c" "\<And>rest. prefix_key p \<noteq> prefix_key n @ rest"
    and "under key fs (prefix_key n)" "under key fs (prefix_key p)"
  shows "under key fs (prefix_key c)"
  using common_key [OF assms(1,2)] assms(3,4) by (auto split: if_splits dest: under_common)

text \<open>
  Putting the node of the common prefix between the context and the subtree: the first half of
  \<open>get_split\<close>, from the heap with the new node \<open>c\<close> on.
\<close>

lemma split_rep:
  fixes t :: "'a route_table"
  assumes rep: "rt_rep t (plug fs (Nd a l r))"
    and fr: "frames_at (rt_heap t) (rt_top t) fs (Some a)"
    and tr: "tree_at (rt_heap t) (par_of fs) (Some a) (Nd a l r)"
    and un: "under (nkey (rt_heap t)) fs (prefix_key pc)" and wf: "wf_key pc"
    and key: "nkey (rt_heap t) a = prefix_key pc @ x # z"
    and t1: "(t1 :: 'a route_table) = t\<lparr>rt_heap := (rt_heap t)(rt_brk t \<mapsto> fresh_node pc), rt_brk := Suc (rt_brk t)\<rparr>"
  shows "\<exists>t2 t3. set_link (rt_brk t) a t1 = Inr t2 \<and> attach (par_of fs) (rt_brk t) t2 = Inr t3 \<and>
     rt_rep (t3\<lparr>rt_count := Suc (rt_count t)\<rparr>) (plug ((rt_brk t, x, Lf) # fs) (Nd a l r)) \<and>
     grown t t3 {rt_brk t} (rt_brk t) pc \<and> rt_count t3 = rt_count t \<and>
     (\<exists>nc. rt_heap t3 (rt_brk t) = Some nc \<and> rn_p nc = pc)"
proof -
  note parts = rt_rep_parts [OF rep]
  let ?c = "rt_brk t"
  from tr obtain nd where nd: "rt_heap t a = Some nd" "rn_parent nd = par_of fs"
    "tree_at (rt_heap t) (Some a) (l_left nd) l" "tree_at (rt_heap t) (Some a) (l_right nd) r"
    by auto
  have nin: "?c \<notin> dom (rt_heap t)" using parts(6) by blast
  then have ac: "a \<noteq> ?c" "?c \<notin> set (frame_addrs fs)" "?c \<notin> set (addrs l)" "?c \<notin> set (addrs r)"
    "a \<notin> set (frame_addrs fs)" "a \<notin> set (addrs l)" "a \<notin> set (addrs r)"
    using parts(2-4) nd(1) by auto
  define nc :: "'a route_node" where "nc = set_rn_link (of_bool x) (Some a) (fresh_node pc)"
  define t2 where "t2 = t1\<lparr>rt_heap := (rt_heap t1)(?c \<mapsto> nc, a \<mapsto> nd\<lparr>rn_parent := Some ?c\<rparr>)\<rparr>"
  have h2: "rt_heap t2 = (rt_heap t)(?c \<mapsto> nc, a \<mapsto> nd\<lparr>rn_parent := Some ?c\<rparr>)"
    by (simp add: t2_def t1)
  have link: "set_link ?c a t1 = Inr t2"
    unfolding t2_def nc_def using key nd(1) ac(1) by (intro set_link_eq) (auto simp: t1)
  have key2: "nkey (rt_heap t2) y = nkey (rt_heap t) y" if "y \<in> set (frame_addrs fs)" for y
    using that ac by (auto simp: h2 nkey_def)
  have fr2: "frames_at (rt_heap t2) (rt_top t2) fs (Some a)"
  proof -
    have "frames_at (rt_heap t2) (rt_top t) fs (Some a)"
      using ac by (intro frames_at_frame [OF fr]) (auto intro!: same_links_eq simp: h2)
    then show ?thesis by (simp add: t2_def t1)
  qed
  have nc: "rt_heap t2 ?c = Some nc" "rn_parent nc = None" "rn_p nc = pc"
    "side x nc = Some a" "side (\<not> x) nc = None" "ndata nc = (pc, 0, None)"
    using ac(1) by (simp_all add: h2 nc_def ndata_def)
  have "under (nkey (rt_heap t2)) fs (prefix_key (rn_p nc))"
    using frames_key_cong [of fs "nkey (rt_heap t2)" "nkey (rt_heap t)"] key2 un nc(3) by simp
  from attach_frames [OF fr2 parts(1) nc(1) ac(2) nc(2) this] obtain t3 where
    att: "attach (par_of fs) ?c t2 = Inr t3"
    and fr3: "frames_at (rt_heap t3) (rt_top t3) fs (Some ?c)"
    and nc3: "rt_heap t3 ?c = Some (nc\<lparr>rn_parent := par_of fs\<rparr>)"
    and same3: "\<And>y. y \<noteq> ?c \<Longrightarrow> y \<notin> set (frame_addrs fs) \<Longrightarrow> rt_heap t3 y = rt_heap t2 y"
    and data3: "\<And>y. map_option ndata (rt_heap t3 y) = map_option ndata (rt_heap t2 y)"
    and stub3: "\<And>y n'. y \<noteq> ?c \<Longrightarrow> rt_heap t3 y = Some n' \<Longrightarrow>
        \<exists>n. rt_heap t2 y = Some n \<and> (stub_ok n \<longrightarrow> stub_ok n')"
    and brk3: "rt_brk t3 = rt_brk t2" "rt_count t3 = rt_count t2" by blast
  have dom3: "dom (rt_heap t3) = insert ?c (dom (rt_heap t))"
    using map_option_doms [of ndata "rt_heap t3" "rt_heap t2"] data3 nd(1) by (auto simp: h2)
  have data: "map_option ndata (rt_heap t3 y) = map_option ndata (rt_heap t y)"
    if "y \<in> dom (rt_heap t)" for y
    using that data3 [of y] nin nd(1) by (auto simp: h2 ndata_def)
  have sub3: "rt_heap t3 y = rt_heap t y" if "y \<in> set (addrs l) \<union> set (addrs r)" for y
  proof -
    have "y \<noteq> ?c" "y \<notin> set (frame_addrs fs)" "y \<noteq> a" using that parts(3) ac by auto
    then show ?thesis using same3 [of y] by (simp add: h2)
  qed
  then have "tree_at (rt_heap t3) (Some a) (l_left nd) l" "tree_at (rt_heap t3) (Some a) (l_right nd) r"
    by (auto intro!: tree_at_frame [OF nd(3)] tree_at_frame [OF nd(4)] same_links_eq)
  moreover have "rt_heap t3 a = Some (nd\<lparr>rn_parent := Some ?c\<rparr>)"
    using same3 [of a] ac by (simp add: h2)
  ultimately have tr3: "tree_at (rt_heap t3) (par_of fs) (Some ?c)
      (if x then Nd ?c Lf (Nd a l r) else Nd ?c (Nd a l r) Lf)"
    using nc3 nc(4,5) by (auto simp: side_def)
  have key3: "nkey (rt_heap t3) y = nkey (rt_heap t) y" if "y \<in> dom (rt_heap t)" for y
    using data that by (intro ndata_nkey [of "rt_heap t3" y "rt_heap t"]) auto
  have keyT: "\<exists>z. nkey (rt_heap t3) y = nkey (rt_heap t3) ?c @ x # z"
    if "y \<in> set (addrs (Nd a l r))" for y
    using key key3 [of y] parts(4) trie_below [OF parts(7) that] that nc3 nc(3) by auto
  have "trie (nkey (rt_heap t3)) (Nd a l r) = trie (nkey (rt_heap t)) (Nd a l r)"
    using parts(4) key3 by (intro trie_cong) auto
  with parts(7) have trie3: "trie (nkey (rt_heap t3)) (Nd a l r)" by blast
  have "rt_rep (t3\<lparr>rt_count := Suc (rt_count t)\<rparr>)
      (plug fs (if x then Nd ?c Lf (Nd a l r) else Nd ?c (Nd a l r) Lf))"
  proof (rule rt_rep_grow [OF rep, of _ "Some ?c" _ "[?c]"])
    show "trie (nkey (rt_heap (t3\<lparr>rt_count := Suc (rt_count t)\<rparr>)))
       (if x then Nd ?c Lf (Nd a l r) else Nd ?c (Nd a l r) Lf)"
      using trie3 keyT by (cases x) auto
  qed (insert fr3 tr3 nin dom3 data un wf nc3 nc brk3, auto simp: t1 t2_def)
  moreover have "grown t t3 {?c} ?c pc"
  proof (rule grown_oneI [OF dom3 nin data nc3, where pc = pc])
    show "stub_ok n'" if "rt_heap t y = Some n" "rt_heap t3 y = Some n'" "stub_ok n" for y n n'
    proof -
      have "y \<noteq> ?c" using that(1) nin by auto
      then show ?thesis using stub3 [of y n'] that nd(1)
        by (auto simp: h2 stub_ok_def split: if_splits)
    qed
  qed (insert nc(3,6), simp_all add: ndata_def)
  ultimately show ?thesis using link att nc3 nc brk3 by (auto simp: t2_def t1)
qed

lemma grown_trans:
  assumes "grown t t1 {c} c pc" "grown t1 t2 {new} new p"
    and "rt_heap t2 c = Some nc" "l_left nc \<noteq> None" "l_right nc \<noteq> None"
  shows "grown t t2 {c, new} new p"
proof -
  have c: "c \<in> dom (rt_heap t1)" "c \<noteq> new" "c \<notin> dom (rt_heap t)"
    using assms(1,2) by (auto simp: grown_def)
  then have "rn_info nc = None \<and> rn_lock nc = 0"
    using assms(1-3) by (auto simp: grown_def ndata_def)
  then have "rn_info nc = None \<and> rn_lock nc = 0 \<and> stub_ok nc" using assms(4,5) by (simp add: stub_ok_def)
  moreover have "stub_ok n'" if n: "rt_heap t x = Some n" "rt_heap t2 x = Some n'" "stub_ok n" for x n n'
  proof -
    have "x \<in> dom (rt_heap t1)" using n(1) assms(1) by (auto simp: grown_def)
    then obtain m where "rt_heap t1 x = Some m" by blast
    then show ?thesis using n assms(1,2) unfolding grown_def by metis
  qed
  ultimately show ?thesis using assms c unfolding grown_def by auto
qed

lemma get_split_rep:
  assumes rep: "rt_rep t (plug fs (Nd a l r))"
    and fr: "frames_at (rt_heap t) (rt_top t) fs (Some a)"
    and tr: "tree_at (rt_heap t) (par_of fs) (Some a) (Nd a l r)"
    and un: "under (nkey (rt_heap t)) fs (prefix_key p)" and wf: "wf_key p"
    and off: "\<And>rest. prefix_key p \<noteq> nkey (rt_heap t) a @ rest"
  shows "\<exists>t' new tr' N. get_split (par_of fs) a p t = Inr (t', new) \<and>
     rt_rep (t'\<lparr>rt_count := Suc (rt_count t')\<rparr>) tr' \<and> grown t t' N new p \<and> (\<exists>c. N \<subseteq> {new, c})"
proof -
  note parts = rt_rep_parts [OF rep]
  let ?c = "rt_brk t"
  from tr obtain nd where nd: "rt_heap t a = Some nd" by auto
  define pc where "pc = (route_common (rn_p nd) p prefix_new)\<lparr>family := family p\<rparr>"
  have "is_common (rn_p nd) p (route_common (rn_p nd) p prefix_new)"
    using wf by (intro route_common_is_common) (auto simp: wf_key_def wf_prefix_def prefix_new_def af_defs split: if_splits)
  then have com: "is_common (rn_p nd) p pc" by (simp add: is_common_def pc_def)
  then have wfc: "wf_key pc" using wf by (auto simp: wf_key_def wf_prefix_def is_common_def pc_def)
  have off': "prefix_key p \<noteq> prefix_key (rn_p nd) @ rest" for rest using off nd by simp
  from common_key [OF com off'] obtain x z where xz: "prefix_key (rn_p nd) = prefix_key pc @ x # z"
    "if prefixlen pc = prefixlen p then prefix_key p = prefix_key pc
      else \<exists>z'. prefix_key p = prefix_key pc @ (\<not> x) # z'" by blast
  have "under (nkey (rt_heap t)) fs (nkey (rt_heap t) a)" using parts(9) by simp
  then have unc: "under (nkey (rt_heap t)) fs (prefix_key pc)"
    using under_common_key [OF com off'] un nd by simp
  define t1 where "t1 = t\<lparr>rt_heap := (rt_heap t)(?c \<mapsto> fresh_node pc), rt_brk := Suc (rt_brk t)\<rparr>"
  from split_rep [OF rep fr tr unc wfc _ t1_def] xz(1) nd obtain t2 t3 nc where
    steps: "set_link ?c a t1 = Inr t2" "attach (par_of fs) ?c t2 = Inr t3"
    and rep3: "rt_rep (t3\<lparr>rt_count := Suc (rt_count t)\<rparr>) (plug ((?c, x, Lf) # fs) (Nd a l r))"
    and gr3: "grown t t3 {?c} ?c pc" and cnt3: "rt_count t3 = rt_count t"
    and nc: "rt_heap t3 ?c = Some nc" "rn_p nc = pc" by auto
  define t0 where "t0 = t\<lparr>rt_heap := (rt_heap t)(?c \<mapsto> fresh_node prefix_new), rt_brk := Suc ?c\<rparr>"
  have "a < ?c" using nd parts(6) by auto
  then have nd0: "rt_heap t0 a = Some nd" using nd by (simp add: t0_def)
  have upd: "upd_node ?c (\<lambda>n. n\<lparr>rn_p := (route_common (rn_p nd) p (rn_p n))\<lparr>family := family p\<rparr>\<rparr>) t0 =
      Inr t1"
    by (cases t) (simp add: upd_node_def deref_def t0_def t1_def pc_def fresh_node_def)
  have eq: "get_split (par_of fs) a p t =
      (if prefixlen pc \<noteq> prefixlen p
       then and_then (get_leaf (Some ?c) p t3) (\<lambda>(t, leaf). Inr (t\<lparr>rt_count := Suc (rt_count t)\<rparr>, leaf))
       else Inr (t3, ?c))"
    unfolding get_split_def route_node_new_eq t0_def [symmetric] Let_def prod.case
    using nd0 upd steps nc
    by (simp add: deref_def get_leaf_def attach_def [of "Some ?c"] and_then_assoc split_def)
  show ?thesis
  proof (cases "prefixlen pc = prefixlen p")
    case True
    with xz(2) gr3 have "grown t t3 {?c} ?c p" by (simp add: grown_def)
    with True eq rep3 cnt3 show ?thesis by (auto simp del: plug.simps)
  next
    case False
    let ?fs = "(?c, \<not> x, Nd a l r) # fs"
    have rep3': "rt_rep (t3\<lparr>rt_count := Suc (rt_count t)\<rparr>) (plug ?fs Lf)"
      using rep3 by (cases x) simp_all
    then obtain fr3: "frames_at (rt_heap t3) (rt_top t3) ?fs None"
      by (auto simp: rt_rep_def tree_at_plug simp del: plug.simps)
    have "nkey (rt_heap t3) x = nkey (rt_heap t) x" if "x \<in> set (frame_addrs fs)" for x
      using gr3 that parts(4) by (intro ndata_nkey [of "rt_heap t3" x "rt_heap t"]) (auto simp: grown_def)
    then have "under (nkey (rt_heap t3)) ?fs (prefix_key p)"
      using frames_key_cong [of fs "nkey (rt_heap t3)" "nkey (rt_heap t)"] un xz(2) False nc by simp
    from get_leaf_rep [OF rep3' fr3 this wf] obtain t4 new where
      leaf: "get_leaf (Some ?c) p t3 = Inr (t4, new)"
      and rep4: "rt_rep (t4\<lparr>rt_count := Suc (Suc (rt_count t))\<rparr>) (plug ?fs (Nd new Lf Lf))"
      and gr4: "grown t3 t4 {new} new p" and cnt4: "rt_count t4 = rt_count t3" by auto
    have "\<exists>nc. rt_heap t4 ?c = Some nc \<and> l_left nc \<noteq> None \<and> l_right nc \<noteq> None"
      using rep4 by (cases x) (auto simp: rt_rep_def tree_at_plug side_def simp del: plug.simps)
    then obtain nc where "rt_heap t4 ?c = Some nc" "l_left nc \<noteq> None" "l_right nc \<noteq> None" by blast
    from grown_trans [OF gr3 gr4 this] have "grown t t4 {?c, new} new p" .
    with leaf eq False rep4 cnt3 cnt4 show ?thesis 
      by (auto simp: grown_def simp del: plug.simps)
  qed
qed

section \<open>Insertion\<close>

lemma grown_entries:
  assumes "grown t t' N new p"
  shows "rt_entries t' = rt_entries t"
proof -
  have "(\<exists>n. rt_heap t' a = Some n \<and> prefix_key (rn_p n) = k \<and> rn_info n = Some i) \<longleftrightarrow>
     (\<exists>n. rt_heap t a = Some n \<and> prefix_key (rn_p n) = k \<and> rn_info n = Some i)" for a k i
  proof (cases "rt_heap t a")
    case None
    then have "rt_heap t' a = None \<or> (\<exists>n. rt_heap t' a = Some n \<and> rn_info n = None)"
      using assms by (cases "a \<in> N") (auto simp: grown_def)
    with None show ?thesis by auto
  next
    case (Some n)
    then have "a \<in> dom (rt_heap t)" by auto
    then have "map_option ndata (rt_heap t' a) = map_option ndata (rt_heap t a)"
      using assms by (simp add: grown_def)
    with Some show ?thesis by (auto simp: ndata_def)
  qed
  then show ?thesis by (simp add: rt_entries_def)
qed

lemma rt_entries_count [simp]: "rt_entries (t\<lparr>rt_count := k\<rparr>) = rt_entries t"
  by (simp add: rt_entries_def)

text \<open>Every node stays where it is with its prefix and information; only \<open>a\<close> gains a lock.\<close>

definition keeps_nodes :: "'a route_table \<Rightarrow> 'a route_table \<Rightarrow> nat \<Rightarrow> bool" where
  "keeps_nodes t t' a \<longleftrightarrow> (\<forall>b m. rt_heap t b = Some m \<longrightarrow> (\<exists>m'. rt_heap t' b = Some m' \<and>
     rn_p m' = rn_p m \<and> rn_info m' = rn_info m \<and> rn_lock m' = rn_lock m + (if b = a then 1 else 0)))"

text \<open>The nodes added carry no information, and only \<open>a\<close> is locked.\<close>

definition fresh_nodes :: "'a route_table \<Rightarrow> 'a route_table \<Rightarrow> nat \<Rightarrow> bool" where
  "fresh_nodes t t' a \<longleftrightarrow> (\<forall>b m. rt_heap t b = None \<longrightarrow> rt_heap t' b = Some m \<longrightarrow>
     rn_info m = None \<and> rn_lock m = of_bool (b = a))"

lemma grown_lock:
  assumes "grown t t' N new p" "rt_rep (t'\<lparr>rt_count := k\<rparr>) tr" "rt_inv t"
  shows "\<exists>t2. route_lock_node new (t'\<lparr>rt_count := k\<rparr>) = Inr t2 \<and> rt_inv t2 \<and>
     rt_entries t2 = rt_entries t \<and>
     keeps_nodes t t2 new \<and> fresh_nodes t t2 new \<and> dom (rt_heap t2) = dom (rt_heap t) \<union> N \<and>
     (\<exists>n. rt_heap t2 new = Some n \<and> prefix_key (rn_p n) = prefix_key p \<and> rn_lock n = 1)"
proof -
  from assms(1) obtain n where n: "rt_heap t' new = Some n" "rn_lock n = 0" "rn_info n = None"
    "prefix_key (rn_p n) = prefix_key p" by (auto simp: grown_def)
  let ?n = "n\<lparr>rn_lock := 1\<rparr>" and ?t = "t'\<lparr>rt_count := k\<rparr>"
  let ?t2 = "?t\<lparr>rt_heap := (rt_heap ?t)(new \<mapsto> ?n)\<rparr>"
  have "route_lock_node new ?t = Inr ?t2"
    using n by (simp add: route_lock_node_def upd_node_def deref_def)
  moreover have "rt_rep ?t2 tr"
    using n by (intro rt_rep_data [OF assms(2)]) (auto simp: links_def)
  moreover have "stub_ok m" if "m \<in> ran (rt_heap ?t2)" for m
  proof -
    from that obtain x where x: "rt_heap ?t2 x = Some m" by (auto simp: ran_def)
    show ?thesis
    proof (cases "x = new")
      case True
      with x show ?thesis by (auto simp: stub_ok_def)
    next
      case False
      with x have m: "rt_heap t' x = Some m" by simp
      then have "x \<in> dom (rt_heap t) \<or> x \<in> N" using assms(1) by (auto simp: grown_def)
      then show ?thesis
        using m False assms(1,3) by (auto simp: grown_def rt_inv_def ran_def)
    qed
  qed
  moreover have "rt_entries ?t2 = rt_entries t"
    using rt_entries_data [of ?t new n ?n] grown_entries [OF assms(1)] n by simp
  moreover have "\<exists>m'. rt_heap ?t2 b = Some m' \<and> ndata m' = ndata m \<and> b \<noteq> new"
    if "rt_heap t b = Some m" for b m
  proof -
    have "b \<in> dom (rt_heap t)" using that by auto
    then have "map_option ndata (rt_heap t' b) = Some (ndata m)" "b \<noteq> new"
      using assms(1) that by (auto simp: grown_def)
    then show ?thesis by auto
  qed
  moreover have "fresh_nodes t ?t2 new"
    using assms(1) n unfolding fresh_nodes_def grown_def
    by (auto split: if_splits) (metis Un_iff domI domIff option.inject)+
  moreover have "dom (rt_heap ?t2) = dom (rt_heap t) \<union> N" using assms(1) by (auto simp: grown_def)
  ultimately show ?thesis using n(4) by (fastforce simp: rt_inv_def keeps_nodes_def ndata_def)
qed

lemma get_walk_table:
  assumes "rt_rep t tr"
  obtains
    (found) a n where "get_walk (walk_fuel t) (rt_heap t) p None (rt_top t) = Inr (Inl a)"
      "rt_heap t a = Some n" "prefix_key (rn_p n) = prefix_key p"
  | (leaf) fs where "get_walk (walk_fuel t) (rt_heap t) p None (rt_top t) = Inr (Inr (par_of fs, None))"
      "tr = plug fs Lf" "frames_at (rt_heap t) (rt_top t) fs None"
      "under (nkey (rt_heap t)) fs (prefix_key p)"
  | (split) fs a l r where
      "get_walk (walk_fuel t) (rt_heap t) p None (rt_top t) = Inr (Inr (par_of fs, Some a))"
      "tr = plug fs (Nd a l r)" "frames_at (rt_heap t) (rt_top t) fs (Some a)"
      "tree_at (rt_heap t) (par_of fs) (Some a) (Nd a l r)"
      "under (nkey (rt_heap t)) fs (prefix_key p)" "\<And>rest. prefix_key p \<noteq> nkey (rt_heap t) a @ rest"
proof -
  have pre: "frames_at (rt_heap t) (rt_top t) [] (rt_top t)"
    "tree_at (rt_heap t) (par_of []) (rt_top t) tr" "trie (nkey (rt_heap t)) tr"
    "under (nkey (rt_heap t)) [] (prefix_key p)" "length (addrs tr) < walk_fuel t"
    using assms rt_rep_fuel [OF assms] by (simp_all add: rt_rep_def)
  have "\<exists>n. rt_heap t a = Some n" if "a \<in> set (addrs tr)" for a
    using assms that by (auto simp: rt_rep_def)
  then have fnd: thesis if "get_walk (walk_fuel t) (rt_heap t) p None (rt_top t) = Inr (Inl a)"
    "a \<in> set (addrs tr)" "nkey (rt_heap t) a = prefix_key p" for a
    using that found by fastforce
  from get_walk_split [OF pre] show thesis
    by (auto intro: fnd leaf split)
qed

lemma route_node_get_spec:
  assumes "rt_inv t" "wf_key p"
  shows "\<exists>t' a n. route_node_get t p = Inr (t', a) \<and> rt_inv t' \<and> rt_entries t' = rt_entries t \<and>
     rt_heap t' a = Some n \<and> prefix_key (rn_p n) = prefix_key p \<and> rn_lock n > 0 \<and> keeps_nodes t t' a \<and>
     fresh_nodes t t' a \<and> (\<exists>c. dom (rt_heap t') \<subseteq> dom (rt_heap t) \<union> {a, c})"
proof -
  from assms(1) obtain tr where rep: "rt_rep t tr" by (auto simp: rt_inv_def)
  then show ?thesis
  proof (cases rule: get_walk_table [where p = p])
    case (found a n)
    with route_lock_node_spec [OF assms(1) found(2)] show ?thesis
      by (auto simp: route_node_get_def keeps_nodes_def fresh_nodes_def)
  next
    case (leaf fs)
    have "rt_rep (t\<lparr>rt_count := rt_count t\<rparr>) (plug fs Lf)" using rep leaf(2) by simp
    from get_leaf_rep [OF this leaf(3,4) assms(2)] obtain t' new where
      t': "get_leaf (par_of fs) p t = Inr (t', new)" "grown t t' {new} new p"
      "rt_rep (t'\<lparr>rt_count := Suc (rt_count t')\<rparr>) (plug fs (Nd new Lf Lf))" by auto
    from grown_lock [OF t'(2,3) assms(1)] t'(1) leaf(1) show ?thesis
      by (auto simp: route_node_get_def)
  next
    case (split fs a l r)
    from get_split_rep [OF rep [unfolded split(2)] split(3-5) assms(2) split(6)]
    obtain t' new tr' N where t': "get_split (par_of fs) a p t = Inr (t', new)" "grown t t' N new p"
      "rt_rep (t'\<lparr>rt_count := Suc (rt_count t')\<rparr>) tr'" "\<exists>c. N \<subseteq> {new, c}" by blast
    from grown_lock [OF t'(2,3) assms(1)] obtain t2 n where
      t2: "route_lock_node new (t'\<lparr>rt_count := Suc (rt_count t')\<rparr>) = Inr t2" "rt_inv t2" "rt_entries t2 = rt_entries t"
      "keeps_nodes t t2 new" "fresh_nodes t t2 new" "dom (rt_heap t2) = dom (rt_heap t) \<union> N"
      "rt_heap t2 new = Some n" "prefix_key (rn_p n) = prefix_key p" "rn_lock n = 1" by blast
    have "route_node_get t p = Inr (t2, new)" using t'(1) split(1) t2(1) by (simp add: route_node_get_def)
    moreover have "\<exists>c. dom (rt_heap t2) \<subseteq> dom (rt_heap t) \<union> {new, c}" using t2(6) t'(4) by blast
    ultimately show ?thesis using t2(2-5,7-9) by auto
  qed
qed

text \<open>C2: \<open>route_node_get\<close> on a well-formed table and prefix returns, without a fault, a node
  whose prefix has the network bits of \<open>p\<close> and that holds a lock; the table stays well-formed
  and stores the same information as before, every old node staying at its address and only the
  returned one gaining a lock, whether the node was found, added as a leaf or
  added below or as the common prefix of a split path. At most the returned node and one more are added; they carry no information,
  and of the added nodes only the returned one is locked, once.\<close>

theorem route_node_get_inserts:
  assumes "rt_inv t" "wf_key p"
  shows "\<exists>t' a n. route_node_get t p = Inr (t', a) \<and> rt_inv t' \<and> rt_entries t' = rt_entries t \<and>
     rt_heap t' a = Some n \<and> prefix_key (rn_p n) = prefix_key p \<and> rn_lock n > 0 \<and> keeps_nodes t t' a \<and>
     fresh_nodes t t' a \<and> (\<exists>c. dom (rt_heap t') \<subseteq> dom (rt_heap t) \<union> {a, c})"
  using route_node_get_spec [OF assms] by blast

theorem route_node_get_inserts_witness:
  "rt_inv sample_table \<and> wf_key net192 \<and>
   (\<exists>t' a n. route_node_get sample_table net192 = Inr (t', a) \<and> rt_inv t' \<and>
      rt_heap t' a = Some n \<and> prefix_key (rn_p n) = prefix_key net192)"
  using route_node_get_inserts [OF sample_table_inv wf_key_samples(3)] sample_table_inv wf_key_samples(3) by blast

end
