(* ===== verification/RouteTableDel.thy ===== *)
theory RouteTableDel
  imports RouteTableGet
begin

text \<open>
  Unlocking and deletion: \<open>route_unlock_node\<close> gives one lock back; when the last one is
  gone \<open>route_node_delete\<close> unlinks the node, and every ancestor stub that no longer
  branches, and the table stays well-formed with what it stores.
\<close>

section \<open>Unlinking a node\<close>

lemma tree_at_reparent:
  assumes "tree_at h par q T" "distinct (addrs T)"
    and "\<And>x. x \<in> set (addrs T) \<Longrightarrow> q \<noteq> Some x \<Longrightarrow> same_links h h' x"
    and "\<And>x n. q = Some x \<Longrightarrow> h x = Some n \<Longrightarrow>
      \<exists>n'. h' x = Some n' \<and> rn_parent n' = par' \<and> l_left n' = l_left n \<and> l_right n' = l_right n"
  shows "tree_at h' par' q T"
proof (cases T)
  case Lf
  with assms(1) show ?thesis by simp
next
  case (Nd c l r)
  from assms(1) Nd obtain n where n: "q = Some c" "h c = Some n"
    "tree_at h (Some c) (l_left n) l" "tree_at h (Some c) (l_right n) r" by auto
  from assms(4) [OF n(1,2)] obtain n' where n': "h' c = Some n'" "rn_parent n' = par'"
    "l_left n' = l_left n" "l_right n' = l_right n" by blast
  have same: "same_links h h' x" if "x \<in> set (addrs l) \<union> set (addrs r)" for x
    using that assms(2,3) Nd n(1) by auto
  have "tree_at h' (Some c) (l_left n) l" using same by (intro tree_at_frame [OF n(3)]) simp
  moreover have "tree_at h' (Some c) (l_right n) r"
    using same by (intro tree_at_frame [OF n(4)]) simp
  ultimately show ?thesis using Nd n(1) n' by simp
qed

lemma tree_at_root: "tree_at h par (Some a) T \<Longrightarrow> a \<in> set (addrs T)"
  by (cases T) auto

text \<open>The heap after \<open>unlink_node\<close>.\<close>

definition relink :: "nat \<Rightarrow> nat option \<Rightarrow> 'a route_node \<Rightarrow> 'a route_node" where
  "relink a child m = (if l_left m = Some a then m\<lparr>l_left := child\<rparr> else m\<lparr>l_right := child\<rparr>)"

lemma relink_simps [simp]:
  "rn_parent (relink a child m) = rn_parent m" "rn_p (relink a child m) = rn_p m"
  "rn_lock (relink a child m) = rn_lock m" "rn_info (relink a child m) = rn_info m"
  "ndata (relink a child m) = ndata m"
  by (simp_all add: relink_def ndata_def)

lemma relink_side:
  assumes "side y m = Some a" "side (\<not> y) m \<noteq> Some a"
  shows "side y (relink a child m) = child" "side (\<not> y) (relink a child m) = side (\<not> y) m"
  using assms by (auto simp: relink_def side_def split: if_splits)

text \<open>
  The tree below the node that takes its place, and the part of the proof that is about the
  links: the context closes over the child.
\<close>

lemma unlink_links:
  assumes fr: "frames_at h tp fs (Some a)" and tr: "tree_at h (Some a) child T"
    and d: "distinct (frame_addrs fs)" "distinct (addrs T)" "set (frame_addrs fs) \<inter> set (addrs T) = {}"
      "a \<notin> set (frame_addrs fs)" "a \<notin> set (addrs T)"
    and h1: "\<And>x. child \<noteq> Some x \<Longrightarrow> par_of fs \<noteq> Some x \<Longrightarrow> x \<noteq> a \<Longrightarrow> h' x = h x"
    and hc: "\<And>x n. child = Some x \<Longrightarrow> h x = Some n \<Longrightarrow> h' x = Some (n\<lparr>rn_parent := par_of fs\<rparr>)"
    and hb: "\<And>x n. par_of fs = Some x \<Longrightarrow> h x = Some n \<Longrightarrow> h' x = Some (relink a child n)"
    and tp': "tp' = (if fs = [] then child else tp)"
  shows "frames_at h' tp' fs child" "tree_at h' (par_of fs) child T"
proof -
  have cT: "x \<in> set (addrs T)" if "child = Some x" for x
    using tr that tree_at_root by blast
  have bF: "x \<in> set (frame_addrs fs)" if "par_of fs = Some x" for x
    using that by (cases fs rule: par_of.cases) auto
  show "tree_at h' (par_of fs) child T"
  proof (rule tree_at_reparent [OF tr d(2)])
    show "same_links h h' x" if "x \<in> set (addrs T)" "child \<noteq> Some x" for x
      using that h1 [of x] bF d(3,5) by (intro same_links_eq) blast
  qed (simp add: hc)
  show "frames_at h' tp' fs child"
  proof (cases fs rule: par_of.cases)
    case 1
    then show ?thesis by (simp add: tp')
  next
    case (2 b y s fs')
    from fr 2 obtain m where m: "h b = Some m" "rn_parent m = par_of fs'" "side y m = Some a"
      "tree_at h (Some b) (side (\<not> y) m) s" by auto
    have "side (\<not> y) m \<noteq> Some a" using m(4) tree_at_root d(4) 2 by fastforce
    note sides = relink_side [OF m(3) this]
    have same: "same_links h h' x" if "x \<in> set (addrs s) \<union> set (frame_addrs fs')" for x
      using that d 2 cT by (intro same_links_eq h1) auto
    have "frames_at h' tp ((b, y, s) # fs') child"
      using fr 2 m hb [of b m] same sides
      by (intro frames_at_relink [of h tp b y s fs' "Some a" h' "relink a child m"]) auto
    then show ?thesis using 2 tp' by simp
  qed
qed

lemma unlink_node_eq:
  assumes n: "rn_parent n = par" and par: "par \<noteq> child \<or> child = None" "par \<noteq> Some a" "child \<noteq> Some a"
    and c: "\<And>x. child = Some x \<Longrightarrow> x \<in> dom (rt_heap t)"
    and b: "\<And>x. par = Some x \<Longrightarrow> x \<in> dom (rt_heap t)"
  shows "\<exists>t'. unlink_node a n child t = Inr t' \<and> rt_brk t' = rt_brk t \<and> rt_count t' = rt_count t \<and>
     rt_top t' = (if par = None then child else rt_top t) \<and>
     (\<forall>x. rt_heap t' x = (if child = Some x then map_option (\<lambda>m. m\<lparr>rn_parent := par\<rparr>) (rt_heap t x)
        else if par = Some x then map_option (relink a child) (rt_heap t x) else rt_heap t x))"
proof (cases child; cases par)
  fix y z
  assume cp: "child = Some y" "par = Some z"
  then obtain m k where mk: "rt_heap t y = Some m" "rt_heap t z = Some k" "y \<noteq> z"
    using b c par(1) by fastforce
  with cp n show ?thesis by (auto simp: unlink_node_def upd_node_def deref_def relink_def)
qed (insert n b c, auto simp: unlink_node_def upd_node_def deref_def relink_def)

lemma unlink_rep:
  assumes rep: "rt_rep t (plug fs (Nd a l r))" and n: "rt_heap t a = Some n"
    and one: "l = Lf \<or> r = Lf"
    and child: "child = (if l_left n \<noteq> None then l_left n else l_right n)"
  shows "\<exists>t2. unlink_node a n child t = Inr t2 \<and>
     rt_rep (route_node_free (t2\<lparr>rt_count := rt_count t2 - 1\<rparr>) a) (plug fs (if l \<noteq> Lf then l else r)) \<and>
     (\<forall>x. x \<noteq> a \<longrightarrow> map_option ndata (rt_heap t2 x) = map_option ndata (rt_heap t x)) \<and>
     (\<forall>x m m'. x \<noteq> a \<longrightarrow> par_of fs \<noteq> Some x \<longrightarrow> rt_heap t x = Some m \<longrightarrow> rt_heap t2 x = Some m' \<longrightarrow>
        stub_ok m \<longrightarrow> stub_ok m')"
proof -
  note parts = rt_rep_parts [OF rep]
  let ?T = "if l \<noteq> Lf then l else r"
  from rep n obtain fr: "frames_at (rt_heap t) (rt_top t) fs (Some a)" and par: "rn_parent n = par_of fs"
    and lr: "tree_at (rt_heap t) (Some a) (l_left n) l" "tree_at (rt_heap t) (Some a) (l_right n) r"
    by (auto simp: rt_rep_def tree_at_plug)
  have "l = Lf \<longleftrightarrow> l_left n = None" using lr(1) by (cases l) auto
  then have tr: "tree_at (rt_heap t) (Some a) child ?T" using lr child by simp
  have T: "set (addrs ?T) = set (addrs l) \<union> set (addrs r)" "length (addrs ?T) = length (addrs l @ addrs r)"
    using one by auto
  have bF: "x \<in> set (frame_addrs fs)" if "par_of fs = Some x" for x
    using that by (cases fs rule: par_of.cases) auto
  have cT: "x \<in> set (addrs ?T)" if "child = Some x" for x using tr that tree_at_root by blast
  have aT: "a \<notin> set (addrs ?T)" "a \<notin> set (frame_addrs fs)" "distinct (addrs ?T)"
    "set (frame_addrs fs) \<inter> set (addrs ?T) = {}" using parts(2,3) T(1) by auto
  have "x \<in> dom (rt_heap t)" if "child = Some x \<or> par_of fs = Some x" for x
    using that cT bF T(1) parts(4) by auto
  moreover have ne: "par_of fs \<noteq> child \<or> child = None" "par_of fs \<noteq> Some a" "child \<noteq> Some a"
    using cT bF aT by blast+
  ultimately obtain t2 where t2: "unlink_node a n child t = Inr t2" "rt_brk t2 = rt_brk t"
    "rt_count t2 = rt_count t" "rt_top t2 = (if par_of fs = None then child else rt_top t)"
    and h2: "\<And>x. rt_heap t2 x = (if child = Some x then map_option (\<lambda>m. m\<lparr>rn_parent := par_of fs\<rparr>) (rt_heap t x)
        else if par_of fs = Some x then map_option (relink a child) (rt_heap t x) else rt_heap t x)"
    using unlink_node_eq [OF par, of child a t] by blast
  let ?h = "(rt_heap t2)(a := None)"
  have data2: "map_option ndata (rt_heap t2 x) = map_option ndata (rt_heap t x)" for x
    unfolding h2 by (cases "rt_heap t x") (simp_all add: ndata_def)
  have links: "frames_at ?h (rt_top t2) fs child" "tree_at ?h (par_of fs) child ?T"
  proof -
    have tp: "rt_top t2 = (if fs = [] then child else rt_top t)"
      using t2(4) by (cases fs rule: par_of.cases) simp_all
    have h: "child \<noteq> Some x \<Longrightarrow> par_of fs \<noteq> Some x \<Longrightarrow> x \<noteq> a \<Longrightarrow> ?h x = rt_heap t x"
      "child = Some x \<Longrightarrow> rt_heap t x = Some m \<Longrightarrow> ?h x = Some (m\<lparr>rn_parent := par_of fs\<rparr>)"
      "par_of fs = Some x \<Longrightarrow> rt_heap t x = Some m \<Longrightarrow> ?h x = Some (relink a child m)" for x m
      using ne by (auto simp: h2)
    from unlink_links [OF fr tr parts(1) aT(3,4,2,1) h(1,2,3) tp]
    show "frames_at ?h (rt_top t2) fs child" "tree_at ?h (par_of fs) child ?T" by blast+
  qed
  have key: "nkey ?h x = nkey (rt_heap t) x" if "x \<in> set (addrs (plug fs ?T))" for x
  proof -
    have "x \<noteq> a" "x \<in> dom (rt_heap t)" using that aT T parts(4) by (auto simp: set_addrs_plug)
    then show ?thesis using data2 [of x] by (intro ndata_nkey) simp_all
  qed
  have "trie (nkey (rt_heap t)) (plug fs ?T)"
    using parts(7-9) T(1) by (auto simp: trie_plug)
  then have trie: "trie (nkey ?h) (plug fs ?T)" using trie_cong key by blast
  have doms: "dom ?h = set (addrs (plug fs ?T))"
    using map_option_doms [of ndata "rt_heap t2" "rt_heap t"] data2 parts(4) aT T(1)
    by (auto simp: set_addrs_plug)
  have wf: "wf_key (rn_p m)" if "m \<in> ran ?h" for m
  proof -
    from that obtain x where "rt_heap t2 x = Some m" by (auto simp: ran_def split: if_splits)
    with data2 [of x] obtain k where "rt_heap t x = Some k" "rn_p k = rn_p m"
      by (cases "rt_heap t x") (auto simp: ndata_def)
    with rep show ?thesis by (auto simp: rt_rep_def ran_def)
  qed
  have "rt_rep (route_node_free (t2\<lparr>rt_count := rt_count t2 - 1\<rparr>) a) (plug fs ?T)"
    unfolding rt_rep_def route_node_free_def
    using links trie doms wf aT parts(1,5,6) t2(2,3) T parts(4)
    by (auto simp: tree_at_plug distinct_plug length_plug set_addrs_plug)
  moreover have "stub_ok m'" if "x \<noteq> a" "par_of fs \<noteq> Some x" "rt_heap t x = Some m"
    "rt_heap t2 x = Some m'" "stub_ok m" for x m m'
    using that h2 [of x] by (auto simp: stub_ok_def split: if_splits)
  ultimately show ?thesis using t2(1) data2 by blast
qed

section \<open>Deletion\<close>

text \<open>
  \<open>shrunk t t'\<close>: nodes of \<open>t\<close> may be gone, but only ones without a lock or
  information; the nodes that are left keep their data.
\<close>

definition shrunk :: "'a route_table \<Rightarrow> 'a route_table \<Rightarrow> bool" where
  "shrunk t t' \<longleftrightarrow> (\<forall>x. case rt_heap t x of
       None \<Rightarrow> rt_heap t' x = None
     | Some m \<Rightarrow> (case rt_heap t' x of
          None \<Rightarrow> rn_lock m = 0 \<and> rn_info m = None
        | Some m' \<Rightarrow> ndata m' = ndata m))"

lemma shrunk_refl: "shrunk t t"
  by (simp add: shrunk_def split: option.splits)

lemma shrunk_trans: "shrunk t t1 \<Longrightarrow> shrunk t1 t2 \<Longrightarrow> shrunk t t2"
  unfolding shrunk_def
proof
  fix x
  assume "\<forall>x. case rt_heap t x of None \<Rightarrow> rt_heap t1 x = None
     | Some m \<Rightarrow> (case rt_heap t1 x of None \<Rightarrow> rn_lock m = 0 \<and> rn_info m = None
        | Some m' \<Rightarrow> ndata m' = ndata m)"
    and "\<forall>x. case rt_heap t1 x of None \<Rightarrow> rt_heap t2 x = None
     | Some m \<Rightarrow> (case rt_heap t2 x of None \<Rightarrow> rn_lock m = 0 \<and> rn_info m = None
        | Some m' \<Rightarrow> ndata m' = ndata m)"
  from this [THEN spec, of x] show "case rt_heap t x of None \<Rightarrow> rt_heap t2 x = None
     | Some m \<Rightarrow> (case rt_heap t2 x of None \<Rightarrow> rn_lock m = 0 \<and> rn_info m = None
        | Some m' \<Rightarrow> ndata m' = ndata m)"
    by (auto simp: ndata_def split: option.splits)
qed

lemma shrunk_entries:
  assumes "shrunk t t'"
  shows "rt_entries t' = rt_entries t"
proof -
  have "(\<exists>n. rt_heap t' a = Some n \<and> prefix_key (rn_p n) = k \<and> rn_info n = Some i) \<longleftrightarrow>
     (\<exists>n. rt_heap t a = Some n \<and> prefix_key (rn_p n) = k \<and> rn_info n = Some i)" for a k i
    using assms [unfolded shrunk_def, rule_format, of a]
    by (auto simp: ndata_def split: option.splits)
  then show ?thesis by (simp add: rt_entries_def)
qed

lemma route_node_delete_rep:
  assumes "rt_rep t (plug fs (Nd a l r))" "rt_heap t a = Some n" "rn_lock n = 0" "rn_info n = None"
    and "\<forall>x m. x \<noteq> a \<longrightarrow> rt_heap t x = Some m \<longrightarrow> stub_ok m" "length fs < fuel"
  shows "\<exists>t'. route_node_delete fuel a t = Inr t' \<and> rt_inv t' \<and> shrunk t t' \<and>
     (rt_heap t' a = None \<longleftrightarrow> l_left n = None \<or> l_right n = None)"
  using assms
proof (induction fuel arbitrary: fs a l r n t)
  case 0
  then show ?case by simp
next
  case (Suc fuel)
  note rep = Suc.prems(1) and n = Suc.prems(2-4) and stubs = Suc.prems(5) [rule_format]
  have lr: "tree_at (rt_heap t) (Some a) (l_left n) l" "tree_at (rt_heap t) (Some a) (l_right n) r"
    "rn_parent n = par_of fs"
    using rep n(1) by (auto simp: rt_rep_def tree_at_plug)
  show ?case
  proof (cases "l_left n \<noteq> None \<and> l_right n \<noteq> None")
    case True
    then have "stub_ok n" by (simp add: stub_ok_def n)
    then have "stub_ok m" if "rt_heap t x = Some m" for x m
      using that n(1) stubs by (cases "x = a") auto
    with rep have "rt_inv t" by (auto simp: rt_inv_def ran_def)
    with True n show ?thesis by (auto simp: deref_def ensure_def shrunk_refl)
  next
    case False
    then have one: "l = Lf \<or> r = Lf" using lr by (cases l; cases r) auto
    let ?child = "if l_left n \<noteq> None then l_left n else l_right n" and ?T = "if l \<noteq> Lf then l else r"
    from unlink_rep [OF rep n(1) one refl] obtain t2 where t2: "unlink_node a n ?child t = Inr t2"
      and rep3: "rt_rep (route_node_free (t2\<lparr>rt_count := rt_count t2 - 1\<rparr>) a) (plug fs ?T)"
      and data2: "\<And>x. x \<noteq> a \<Longrightarrow> map_option ndata (rt_heap t2 x) = map_option ndata (rt_heap t x)"
      and stub2: "\<And>x m m'. x \<noteq> a \<Longrightarrow> par_of fs \<noteq> Some x \<Longrightarrow> rt_heap t x = Some m \<Longrightarrow>
        rt_heap t2 x = Some m' \<Longrightarrow> stub_ok m \<Longrightarrow> stub_ok m'" by blast
    define t3 where "t3 = route_node_free (t2\<lparr>rt_count := rt_count t2 - 1\<rparr>) a"
    have h3: "rt_heap t3 = (rt_heap t2)(a := None)" by (simp add: t3_def route_node_free_def)
    have step: "route_node_delete (Suc fuel) a t = (case par_of fs of None \<Rightarrow> Inr t3
       | Some b \<Rightarrow> and_then (deref (rt_heap t3) b)
           (\<lambda>m. if rn_lock m = 0 then route_node_delete fuel b t3 else Inr t3))"
      using False n lr(3)
      by (auto simp: deref_def ensure_def t2 t3_def [symmetric] simp del: One_nat_def not_None_eq)
    have shr: "shrunk t t3"
      unfolding shrunk_def
    proof
      fix x
      show "case rt_heap t x of None \<Rightarrow> rt_heap t3 x = None | Some m \<Rightarrow> (case rt_heap t3 x of
          None \<Rightarrow> rn_lock m = 0 \<and> rn_info m = None | Some m' \<Rightarrow> ndata m' = ndata m)"
        using data2 [of x] n by (cases "x = a"; cases "rt_heap t x") (auto simp: h3)
    qed
    have stub3: "stub_ok m'" if m': "rt_heap t3 x = Some m'" "par_of fs \<noteq> Some x" for x m'
    proof -
      have x: "x \<noteq> a" "rt_heap t2 x = Some m'" using m'(1) h3 by (auto split: if_splits)
      then obtain m where "rt_heap t x = Some m" using data2 [of x] by (cases "rt_heap t x") auto
      with stub2 [OF x(1) m'(2) _ x(2)] stubs x show ?thesis by blast
    qed
    show ?thesis
    proof (cases fs rule: par_of.cases)
      case 1
      then have "rt_inv t3" using rep3 stub3 by (auto simp: rt_inv_def ran_def t3_def)
      with step shr 1 False h3 show ?thesis by auto
    next
      case (2 b y s fs')
      let ?N = "if y then Nd b s ?T else Nd b ?T s"
      have rep3': "rt_rep t3 (plug fs' ?N)" using rep3 2 by (simp add: t3_def)
      then have "b \<in> dom (rt_heap t3)" by (auto simp: rt_rep_def set_addrs_plug)
      then obtain m where m: "rt_heap t3 b = Some m" by blast
      show ?thesis
      proof (cases "rn_lock m = 0")
        case True
        have "b \<noteq> a" using m h3 by auto
        moreover from this m data2 [of b] h3 obtain k where k: "rt_heap t b = Some k" "ndata k = ndata m"
          by (cases "rt_heap t b") auto
        ultimately have "rn_info m = None"
          using stubs [of b k] True by (auto simp: stub_ok_def ndata_def)
        moreover have "stub_ok m'" if "x \<noteq> b" "rt_heap t3 x = Some m'" for x m'
          using stub3 [OF that(2)] that(1) 2 by simp
        moreover have "length fs' < fuel" using Suc.prems(6) 2 by simp
        moreover obtain l' r' where "?N = Nd b l' r'" by (cases y) auto
        ultimately obtain t' where "route_node_delete fuel b t3 = Inr t'" "rt_inv t'" "shrunk t3 t'"
          using Suc.IH [of t3 fs' b l' r' m] rep3' m True by auto
        moreover from this(3) have "rt_heap t' a = None"
          unfolding shrunk_def by (drule_tac spec [of _ a]) (simp add: h3)
        ultimately show ?thesis using step 2 m True shr \<open>\<not> (l_left n \<noteq> None \<and> l_right n \<noteq> None)\<close>
          by (auto simp: deref_def intro: shrunk_trans)
      next
        case False
        then have "stub_ok m'" if "rt_heap t3 x = Some m'" for x m'
          using stub3 [OF that] that m 2 by (cases "x = b") (auto simp: stub_ok_def)
        then have "rt_inv t3" using rep3 by (auto simp: rt_inv_def ran_def t3_def)
        with step 2 m False shr h3 \<open>\<not> (l_left n \<noteq> None \<and> l_right n \<noteq> None)\<close>
        show ?thesis by (auto simp: deref_def)
      qed
    qed
  qed
qed

lemma plug_append: "plug (fs @ gs) t = plug gs (plug fs t)"
  by (induction fs t rule: plug.induct) simp_all

lemma frame_of:
  "a \<in> set (addrs tr) \<Longrightarrow> \<exists>fs l r. tr = plug fs (Nd a l r)"
proof (induction tr)
  case (Nd b l r)
  consider "a = b" | "a \<in> set (addrs l)" | "a \<in> set (addrs r)" using Nd.prems by auto
  then show ?case
  proof cases
    case 1
    then have "Nd b l r = plug [] (Nd a l r)" by simp
    then show ?thesis by blast
  next
    case 2
    with Nd.IH obtain fs l' r' where "l = plug fs (Nd a l' r')" by blast
    then have "Nd b l r = plug (fs @ [(b, False, r)]) (Nd a l' r')" by (simp add: plug_append)
    then show ?thesis by blast
  next
    case 3
    with Nd.IH obtain fs l' r' where "r = plug fs (Nd a l' r')" by blast
    then have "Nd b l r = plug (fs @ [(b, True, l)]) (Nd a l' r')" by (simp add: plug_append)
    then show ?thesis by blast
  qed
qed simp

lemma length_frames: "length fs \<le> length (frame_addrs fs)"
  by (induction fs rule: frame_addrs.induct) auto

text \<open>What \<open>route_unlock_node\<close> does, with the nodes it may free.\<close>

lemma route_unlock_node_spec:
  assumes "rt_inv t" "rt_heap t a = Some n" "rn_lock n > 0"
    and "rn_lock n = 1 \<Longrightarrow> rn_info n = None"
  shows "\<exists>t'. route_unlock_node a t = Inr t' \<and> rt_inv t' \<and> 
     (rn_lock n > 1 \<longrightarrow> t' = t\<lparr>rt_heap := (rt_heap t)(a \<mapsto> n\<lparr>rn_lock := rn_lock n - 1\<rparr>)\<rparr>) \<and>
     (rn_lock n = 1 \<longrightarrow> (rt_heap t' a = None \<longleftrightarrow> l_left n = None \<or> l_right n = None)) \<and>
     shrunk (t\<lparr>rt_heap := (rt_heap t)(a \<mapsto> n\<lparr>rn_lock := rn_lock n - 1\<rparr>)\<rparr>) t'"
proof -
  let ?n = "n\<lparr>rn_lock := rn_lock n - 1\<rparr>"
  let ?t = "t\<lparr>rt_heap := (rt_heap t)(a \<mapsto> ?n)\<rparr>"
  have step: "route_unlock_node a t =
     (if rn_lock n = 1 then route_node_delete (walk_fuel ?t) a ?t else Inr ?t)"
    using assms(2,3) by (auto simp: route_unlock_node_def deref_def upd_node_def ensure_def)
  show ?thesis
  proof (cases "rn_lock n = 1")
    case False
    then have "rt_inv ?t"
      using assms(3) by (intro rt_inv_data [OF assms(1,2)]) (auto simp: links_def stub_ok_def)
    with step False assms(3) shrunk_refl show ?thesis by auto
  next
    case True
    from assms(1) obtain tr where "rt_rep t tr" by (auto simp: rt_inv_def)
    then have rep: "rt_rep ?t tr" by (intro rt_rep_data [OF _ assms(2)]) (auto simp: links_def)
    then have "a \<in> set (addrs tr)" by (auto simp: rt_rep_def)
    then obtain fs l r where tr: "tr = plug fs (Nd a l r)" using frame_of by blast
    have fuel: "length fs < walk_fuel ?t"
      using rt_rep_fuel [OF rep] length_frames [of fs] by (simp add: tr length_plug)
    have stub: "\<forall>x m. x \<noteq> a \<longrightarrow> rt_heap ?t x = Some m \<longrightarrow> stub_ok m"
      using assms(1) by (auto simp: rt_inv_def ran_def)
    have "rt_heap ?t a = Some ?n" "rn_lock ?n = 0" "rn_info ?n = None" using True assms(4) by auto
    from route_node_delete_rep [OF rep [unfolded tr] this stub fuel]
    obtain t' where "route_node_delete (walk_fuel ?t) a ?t = Inr t'" "rt_inv t'" "shrunk ?t t'"
      "rt_heap t' a = None \<longleftrightarrow> l_left ?n = None \<or> l_right ?n = None"
      by (elim exE conjE) (rule that)
    with step True show ?thesis by auto
  qed
qed



end
