(* ===== verification/RouteTableIter.thy ===== *)
theory RouteTableIter
  imports RouteTableDel
begin

text \<open>
  Iteration over the routing table: \<open>route_next\<close> walks the tree in preorder, preorder is
  the order of \<open>route_table_prefix_iter_cmp\<close>, and resuming a paused iteration
  (\<open>route_table_get_next\<close>) finds the first node after the prefix it paused at.
\<close>

section \<open>Preorder\<close>

fun before_hole :: "frame list \<Rightarrow> nat list" where
  "before_hole [] = []"
| "before_hole ((a, b, s) # fs) = before_hole fs @ a # (if b then addrs s else [])"

fun after_hole :: "frame list \<Rightarrow> nat list" where
  "after_hole [] = []"
| "after_hole ((a, b, s) # fs) = (if b then [] else addrs s) @ after_hole fs"

definition first_of :: "nat list \<Rightarrow> nat option" where
  "first_of xs = (case xs of [] \<Rightarrow> None | x # _ \<Rightarrow> Some x)"

lemma first_of_simps [simp]: "first_of [] = None" "first_of (x # xs) = Some x"
  by (simp_all add: first_of_def)

lemma first_of_append: "first_of (xs @ ys) = (if xs = [] then first_of ys else first_of xs)"
  by (cases xs) simp_all

lemma addrs_plug: "addrs (plug fs t) = before_hole fs @ addrs t @ after_hole fs"
  by (induction fs t rule: plug.induct) auto

lemma tree_at_first: "tree_at h par q t \<Longrightarrow> first_of (addrs t) = q"
  by (cases t) auto

lemma tree_at_Nil: "tree_at h par q t \<Longrightarrow> addrs t = [] \<longleftrightarrow> q = None"
  by (cases t) auto

text \<open>The climb finds the first node after the subtree.\<close>

lemma climb_walk_after:
  assumes "frames_at h tp fs (Some a)" "h a = Some n" "rn_parent n = par_of fs"
    and "a \<notin> set (frame_addrs fs)" "distinct (frame_addrs fs)" "length fs < fuel"
  shows "climb_walk fuel h None a = Inr (first_of (after_hole fs))"
  using assms
proof (induction fs arbitrary: a n fuel rule: after_hole.induct)
  case 1
  then show ?case by (cases fuel) (auto simp: deref_def)
next
  case (2 b y s fs)
  from "2.prems"(6) obtain k where k: "fuel = Suc k" "length fs < k" by (cases fuel) auto
  from "2.prems"(1) obtain m where m: "h b = Some m" "rn_parent m = par_of fs" "side y m = Some a"
    "tree_at h (Some b) (side (\<not> y) m) s" "frames_at h tp fs (Some b)" by auto
  have IH: "climb_walk k h None b = Inr (first_of (after_hole fs))"
    using "2.prems"(5) by (intro "2.IH" [OF m(5,1,2) _ _ k(2)]) auto
  have step: "climb_walk fuel h None a =
      (if l_left m = Some a \<and> l_right m \<noteq> None then Inr (l_right m) else climb_walk k h None b)"
    using k "2.prems"(2,3) m(1) by (simp add: deref_def)
  show ?case
  proof (cases y)
    case True
    have "l_left m \<noteq> Some a"
      using m(4) tree_at_root [of h "Some b" a s] "2.prems"(4) True by (auto simp: side_def)
    with step IH True show ?thesis by simp
  next
    case False
    with step IH m(3,4) tree_at_first [OF m(4)] tree_at_Nil [OF m(4)] show ?thesis
      by (auto simp: side_def first_of_append)
  qed
qed

text \<open>The pointer \<open>route_next\<close> moves to.\<close>

definition next_ptr :: "'a route_table \<Rightarrow> nat \<Rightarrow> nat option res" where
  "next_ptr t a =
     and_then (deref (rt_heap t) a) (\<lambda>n.
       if l_left n \<noteq> None then Inr (l_left n)
       else if l_right n \<noteq> None then Inr (l_right n)
       else climb_walk (walk_fuel t) (rt_heap t) None a)"

lemma route_next_ptr: "next_ptr t a = Inr q \<Longrightarrow> route_next t a = lock_unlock q a t"
  by (auto simp: next_ptr_def route_next_def and_then_Inr_iff split: if_splits)

lemma rep_at:
  assumes "rt_rep t (plug fs (Nd a l r))"
  obtains n where "rt_heap t a = Some n" "frames_at (rt_heap t) (rt_top t) fs (Some a)"
    "rn_parent n = par_of fs" "tree_at (rt_heap t) (Some a) (l_left n) l"
    "tree_at (rt_heap t) (Some a) (l_right n) r" "a \<notin> set (frame_addrs fs)"
    "distinct (frame_addrs fs)" "length fs < walk_fuel t"
  using assms rt_rep_parts [OF assms] rt_rep_fuel [OF assms] length_frames [of fs]
  by (auto simp: rt_rep_def tree_at_plug length_plug)

lemma subtree_next_after:
  assumes "rt_rep t (plug fs (Nd a l r))"
  shows "route_get_subtree_next t a = Inr (first_of (after_hole fs))"
  using assms by (rule rep_at) (auto simp: route_get_subtree_next_def intro: climb_walk_after)

lemma next_ptr_preorder:
  assumes "rt_rep t (plug fs (Nd a l r))"
  shows "next_ptr t a = Inr (first_of (addrs l @ addrs r @ after_hole fs))"
  using assms
proof (rule rep_at)
  fix n
  assume n: "rt_heap t a = Some n" "frames_at (rt_heap t) (rt_top t) fs (Some a)"
    "rn_parent n = par_of fs" "tree_at (rt_heap t) (Some a) (l_left n) l"
    "tree_at (rt_heap t) (Some a) (l_right n) r" "a \<notin> set (frame_addrs fs)"
    "distinct (frame_addrs fs)" "length fs < walk_fuel t"
  with climb_walk_after [OF n(2,1,3,6,7,8)] tree_at_first [OF n(4)] tree_at_first [OF n(5)]
    tree_at_Nil [OF n(4)] tree_at_Nil [OF n(5)]
  show ?thesis by (auto simp: next_ptr_def deref_def first_of_append)
qed

lemma next_ptr_split:
  assumes "rt_rep t tr" "addrs tr = xs @ a # ys"
  shows "next_ptr t a = Inr (first_of ys)"
proof -
  have "a \<in> set (addrs tr)" using assms(2) by simp
  then obtain fs l r where tr: "tr = plug fs (Nd a l r)" using frame_of by blast
  have "distinct (addrs tr)" using assms(1) by (simp add: rt_rep_def)
  then have "a \<notin> set xs" "a \<notin> set ys" using assms(2) by auto
  moreover have "xs @ a # ys = before_hole fs @ a # addrs l @ addrs r @ after_hole fs"
    using assms(2) by (simp add: tr addrs_plug)
  ultimately have "ys = addrs l @ addrs r @ after_hole fs" by (simp add: append_Cons_eq_iff)
  with next_ptr_preorder [OF assms(1) [unfolded tr]] show ?thesis by simp
qed

section \<open>Locks around a step\<close>

definition lock_at :: "nat \<Rightarrow> 'a route_table \<Rightarrow> 'a route_table" where
  "lock_at a t = t\<lparr>rt_heap := (rt_heap t)(a := map_option (\<lambda>n. n\<lparr>rn_lock := Suc (rn_lock n)\<rparr>) (rt_heap t a))\<rparr>"

lemma route_lock_node_at: "rt_heap t a = Some n \<Longrightarrow> route_lock_node a t = Inr (lock_at a t)"
  by (simp add: route_lock_node_def upd_node_def deref_def lock_at_def)

lemma lock_at_inv: "rt_inv t \<Longrightarrow> rt_heap t a = Some n \<Longrightarrow> rt_inv (lock_at a t)"
  using route_lock_node_spec [of t a n] by (auto simp: route_lock_node_at)

lemma lock_at_heap:
  "rt_heap (lock_at a t) x =
     (if x = a then map_option (\<lambda>n. n\<lparr>rn_lock := Suc (rn_lock n)\<rparr>) (rt_heap t x) else rt_heap t x)"
  by (simp add: lock_at_def)

lemma lock_at_fields [simp]:
  "rt_top (lock_at a t) = rt_top t" "rt_brk (lock_at a t) = rt_brk t" "rt_count (lock_at a t) = rt_count t"
  by (simp_all add: lock_at_def)

lemma lock_at_commute: "a \<noteq> b \<Longrightarrow> lock_at a (lock_at b t) = lock_at b (lock_at a t)"
  by (cases t) (simp add: lock_at_def fun_upd_twist)

lemma lock_at_rep: "rt_rep t tr \<Longrightarrow> rt_heap t a = Some n \<Longrightarrow> rt_rep (lock_at a t) tr"
  unfolding lock_at_def
  using rt_rep_data [of t tr a n "n\<lparr>rn_lock := Suc (rn_lock n)\<rparr>"] by (simp add: links_def)

text \<open>Taking a lock and giving it back leaves a well-formed table as it was.\<close>

lemma unlock_lock_at:
  assumes "rt_inv t" "rt_heap t a = Some n"
  shows "route_unlock_node a (lock_at a t) = Inr t"
proof -
  have stub: "rn_lock n = 0 \<longrightarrow> rn_info n = None \<and> l_left n \<noteq> None \<and> l_right n \<noteq> None"
    using assms by (auto simp: rt_inv_def ran_def stub_ok_def)
  have "(t\<lparr>rt_heap := (rt_heap t)(a \<mapsto> n)\<rparr>) = t"
    using assms(2) by (cases t) (simp add: fun_upd_idem)
  with stub assms(2) show ?thesis
    by (auto simp: route_unlock_node_def deref_def upd_node_def ensure_def lock_at_def walk_fuel_def)
qed

section \<open>The order on prefixes\<close>

fun key_less :: "bool list \<Rightarrow> bool list \<Rightarrow> bool" where
  "key_less [] [] = False"
| "key_less [] (y # ys) = True"
| "key_less (x # xs) [] = False"
| "key_less (x # xs) (y # ys) = (if x = y then key_less xs ys else \<not> x)"

lemma key_less_irrefl [simp]: "\<not> key_less k k"
  by (induction k) simp_all

lemma key_less_trans: "key_less j k \<Longrightarrow> key_less k l \<Longrightarrow> key_less j l"
proof (induction j k arbitrary: l rule: key_less.induct)
  case (2 y ys)
  then show ?case by (cases l) auto
next
  case (4 x xs y ys)
  then show ?case by (cases l) (auto split: if_splits)
qed simp_all

lemma key_less_asym: "key_less j k \<Longrightarrow> \<not> key_less k j"
  using key_less_trans by force

lemma key_less_total: "k \<noteq> l \<Longrightarrow> key_less k l \<or> key_less l k"
  by (induction k l rule: key_less.induct) auto

lemma key_less_append [simp]: "key_less (k @ u) (k @ v) = key_less u v"
  by (induction k) simp_all

lemma key_less_extend [simp]: "key_less k (k @ v) \<longleftrightarrow> v \<noteq> []"
  using key_less_append [of k "[]" v] by (cases v) auto

lemma key_less_extend' [simp]: "\<not> key_less (k @ v) k"
  using key_less_append [of k v "[]"] by (cases v) auto

lemma trie_sorted: "trie key tr \<Longrightarrow> sorted_wrt (\<lambda>a b. key_less (key a) (key b)) (addrs tr)"
proof (induction tr)
  case (Nd a l r)
  then have "\<forall>b \<in> set (addrs l). \<forall>c \<in> set (addrs r). key_less (key b) (key c)" by fastforce
  with Nd show ?case by (auto simp: sorted_wrt_append)
qed simp

lemma prefix_match_len: "prefix_match n p \<Longrightarrow> prefixlen n \<le> prefixlen p"
  unfolding prefix_match_ex by (metis le_add1 length_append length_prefix_key)

text \<open>Two prefixes that do not contain each other part at the length of the common prefix.\<close>

lemma common_parts:
  assumes "is_common p1 p2 c" "\<not> prefix_match p1 p2" "\<not> prefix_match p2 p1"
  shows "\<exists>b z1 z2. prefix_key p1 = prefix_key c @ b # z1 \<and> prefix_key p2 = prefix_key c @ (\<not> b) # z2"
proof -
  have no: "prefix_key p2 \<noteq> prefix_key p1 @ rest" "prefix_key p1 \<noteq> prefix_key p2 @ rest" for rest
    using assms(2,3) by (auto simp: prefix_match_ex)
  from common_key [OF assms(1) no(1)] obtain x z where "prefix_key p1 = prefix_key c @ x # z"
    "if prefixlen c = prefixlen p2 then prefix_key p2 = prefix_key c
      else \<exists>z'. prefix_key p2 = prefix_key c @ (\<not> x) # z'" by blast
  with no(2) show ?thesis by (auto split: if_splits)
qed

lemma route_table_prefix_iter_cmp_eq:
  assumes "length (u_prefix common) = 16" "prefixlen p2 \<le> 128"
  shows "route_table_prefix_iter_cmp common p1 p2 =
     Inr (if prefix_key p1 = prefix_key p2 then 0
          else if key_less (prefix_key p1) (prefix_key p2) then -1 else 1)"
proof (cases "prefix_match p1 p2 \<or> prefix_match p2 p1")
  case True
  then consider "prefixlen p1 \<le> prefixlen p2" "prefix_match p1 p2"
    | "prefixlen p2 < prefixlen p1" "prefix_match p2 p1"
  proof (elim disjE)
    assume m: "prefix_match p1 p2"
    then have "prefixlen p1 \<le> prefixlen p2" by (rule prefix_match_len)
    with m show thesis using that(1) by blast
  next
    assume m: "prefix_match p2 p1"
    then obtain rest where rest: "prefix_key p1 = prefix_key p2 @ rest" by (auto simp: prefix_match_ex)
    show thesis
    proof (cases rest)
      case Nil
      with rest have "prefix_match p1 p2" by (simp add: prefix_match_ex)
      then show thesis using that(1) prefix_match_len by blast
    next
      case (Cons x z)
      with rest prefix_key_split(2) [of p1 p2 x z] m show thesis using that(2) by blast
    qed
  qed
  then show ?thesis
  proof cases
    case 1
    then obtain rest where rest: "prefix_key p2 = prefix_key p1 @ rest" by (auto simp: prefix_match_ex)
    then have "prefixlen p1 = prefixlen p2 \<longleftrightarrow> rest = []"
      by (metis append_Nil2 append_eq_append_conv length_prefix_key self_append_conv)
    with 1 rest show ?thesis by (auto simp: route_table_prefix_iter_cmp_def)
  next
    case 2
    then obtain rest where "prefix_key p1 = prefix_key p2 @ rest" by (auto simp: prefix_match_ex)
    moreover from this 2(1) have "rest \<noteq> []" by (metis append_Nil2 length_prefix_key nat_neq_iff)
    ultimately show ?thesis using 2 by (simp add: route_table_prefix_iter_cmp_def)
  qed
next
  case False
  let ?c = "route_common p1 p2 common"
  from common_parts [OF route_common_is_common [OF assms]] False obtain b z1 z2 where
    k: "prefix_key p1 = prefix_key ?c @ b # z1" "prefix_key p2 = prefix_key ?c @ (\<not> b) # z2" by blast
  with False prefix_key_split [OF k(1)] prefix_key_split [OF k(2)] show ?thesis
    by (auto simp: route_table_prefix_iter_cmp_def Let_def ensure_def)
qed

section \<open>The next node\<close>

text \<open>\<open>r\<close> is the first node of the table whose network bits come after \<open>k\<close>.\<close>

definition least_after :: "'a route_table \<Rightarrow> bool list \<Rightarrow> nat option \<Rightarrow> bool" where
  "least_after t k r \<longleftrightarrow> (case r of
       None \<Rightarrow> \<forall>b m. rt_heap t b = Some m \<longrightarrow> \<not> key_less k (prefix_key (rn_p m))
     | Some b \<Rightarrow> \<exists>m. rt_heap t b = Some m \<and> key_less k (prefix_key (rn_p m)) \<and>
         (\<forall>c m'. rt_heap t c = Some m' \<longrightarrow> key_less k (prefix_key (rn_p m')) \<longrightarrow>
            c = b \<or> key_less (prefix_key (rn_p m)) (prefix_key (rn_p m'))))"

lemma least_afterI:
  assumes rep: "rt_rep t tr" and split: "addrs tr = xs @ ys"
    and le: "\<And>x. x \<in> set xs \<Longrightarrow> \<not> key_less k (nkey (rt_heap t) x)"
    and gt: "\<And>y. y \<in> set ys \<Longrightarrow> key_less k (nkey (rt_heap t) y)"
  shows "least_after t k (first_of ys)"
proof -
  have d: "dom (rt_heap t) = set xs \<union> set ys" using rep split by (auto simp: rt_rep_def)
  have srt: "sorted_wrt (\<lambda>a b. key_less (nkey (rt_heap t) a) (nkey (rt_heap t) b)) ys"
    using trie_sorted [of "nkey (rt_heap t)" tr] rep split by (auto simp: rt_rep_def sorted_wrt_append)
  have mem: "c \<in> set ys" if "rt_heap t c = Some m" "key_less k (prefix_key (rn_p m))" for c m
    using that d le [of c] by auto
  show ?thesis
  proof (cases ys)
    case Nil
    with mem show ?thesis by (auto simp: least_after_def)
  next
    case (Cons y zs)
    then obtain m where m: "rt_heap t y = Some m" using d by auto
    have "c = y \<or> key_less (prefix_key (rn_p m)) (prefix_key (rn_p m'))"
      if "rt_heap t c = Some m'" "key_less k (prefix_key (rn_p m'))" for c m'
      using mem [OF that] that(1) srt m Cons by auto
    with m gt [of y] Cons show ?thesis by (auto simp: least_after_def)
  qed
qed

lemma least_after_split:
  assumes rep: "rt_rep t tr" "addrs tr = xs @ a # ys" and n: "rt_heap t a = Some n"
  shows "least_after t (prefix_key (rn_p n)) (first_of ys)"
proof (rule least_afterI [OF rep(1), of "xs @ [a]"])
  have srt: "sorted_wrt (\<lambda>a b. key_less (nkey (rt_heap t) a) (nkey (rt_heap t) b)) (xs @ a # ys)"
    using trie_sorted [of "nkey (rt_heap t)" tr] rep by (simp add: rt_rep_def)
  show "\<not> key_less (prefix_key (rn_p n)) (nkey (rt_heap t) x)" if "x \<in> set (xs @ [a])" for x
    using that srt n key_less_asym by (auto simp: sorted_wrt_append)
  show "key_less (prefix_key (rn_p n)) (nkey (rt_heap t) y)" if "y \<in> set ys" for y
    using that srt n by (auto simp: sorted_wrt_append)
qed (simp add: rep)

lemma hole_sides:
  assumes "skel key fs" "under key fs k"
  shows "x \<in> set (before_hole fs) \<Longrightarrow> \<not> key_less k (key x)"
    and "x \<in> set (after_hole fs) \<Longrightarrow> key_less k (key x)"
  using assms by (induction fs rule: before_hole.induct) (fastforce split: if_splits)+

lemma route_next_step:
  assumes inv: "rt_inv t" and rep: "rt_rep t tr" "addrs tr = xs @ a # ys"
    and n: "rt_heap t a = Some n" "rn_lock n > 0" "rn_lock n = 1 \<Longrightarrow> rn_info n = None"
  shows "\<exists>t'. route_next t a = Inr (t', first_of ys) \<and> rt_inv t' \<and> rt_entries t' = rt_entries t \<and>
     (\<forall>b m. first_of ys = Some b \<longrightarrow> rt_heap t b = Some m \<longrightarrow>
        (\<exists>m'. rt_heap t' b = Some m' \<and> rn_p m' = rn_p m \<and> rn_lock m' = Suc (rn_lock m)))"
proof -
  have step: "route_next t a = lock_unlock (first_of ys) a t"
    by (rule route_next_ptr [OF next_ptr_split [OF rep]])
  show ?thesis
  proof (cases ys)
    case Nil
    from route_unlock_node_spec [OF inv n] obtain t' where t': "route_unlock_node a t = Inr t'" "rt_inv t'"
      "shrunk (t\<lparr>rt_heap := (rt_heap t)(a \<mapsto> n\<lparr>rn_lock := rn_lock n - 1\<rparr>)\<rparr>) t'" by blast
    from shrunk_entries [OF t'(3)] rt_entries_data [OF n(1), of "n\<lparr>rn_lock := rn_lock n - 1\<rparr>"]
    have "rt_entries t' = rt_entries t" by simp
    with Nil step t' show ?thesis by (simp add: lock_unlock_def)
  next
    case (Cons b zs)
    have ab: "b \<noteq> a" "b \<in> dom (rt_heap t)" using rep Cons by (auto simp: rt_rep_def)
    then obtain m where m: "rt_heap t b = Some m" by blast
    let ?t = "lock_at b t"
    have h: "rt_heap ?t a = Some n" using ab n(1) by (simp add: lock_at_heap)
    from route_unlock_node_spec [OF lock_at_inv [OF inv m] h n(2,3)] obtain t' where
      t': "route_unlock_node a ?t = Inr t'" "rt_inv t'"
      "shrunk (?t\<lparr>rt_heap := (rt_heap ?t)(a \<mapsto> n\<lparr>rn_lock := rn_lock n - 1\<rparr>)\<rparr>) t'" by blast
    have "rt_entries t' = rt_entries t"
      using shrunk_entries [OF t'(3)] rt_entries_data [OF h, of "n\<lparr>rn_lock := rn_lock n - 1\<rparr>"]
        rt_entries_data [OF m, of "m\<lparr>rn_lock := Suc (rn_lock m)\<rparr>"] m by (simp add: lock_at_def)
    moreover have "\<exists>m'. rt_heap t' b = Some m' \<and> rn_p m' = rn_p m \<and> rn_lock m' = Suc (rn_lock m)"
      using t'(3) [unfolded shrunk_def, THEN spec, of b] ab(1) m
      by (auto simp: lock_at_heap ndata_def split: option.splits)
    ultimately show ?thesis using step Cons t' m by (auto simp: lock_unlock_def route_lock_node_at)
  qed
qed

section \<open>Resuming after a prefix\<close>

lemma key_cases:
  obtains (same) "k = j" | (longer) x z where "k = j @ x # z" | (shorter) x z where "j = k @ x # z"
    | (apart) c b u v where "j = c @ b # u" "k = c @ (\<not> b) # v"
proof (induction j arbitrary: k thesis)
  case Nil
  then show ?case by (cases k) auto
next
  case (Cons x j)
  show ?case
  proof (cases k)
    case Nil
    then show ?thesis using Cons.prems(3) by simp
  next
    case k: (Cons y k')
    show ?thesis
    proof (cases "x = y")
      case False
      then have "x # j = [] @ x # j" "k = [] @ (\<not> x) # k'" using k by auto
      then show ?thesis by (rule Cons.prems(4))
    next
      case True
      show ?thesis
      proof (rule Cons.IH [of k'])
        show thesis if "k' = j" using that Cons.prems(1) k True by simp
        show thesis if "k' = j @ e # z" for e z using that Cons.prems(2) k True by simp
        show thesis if "j = k' @ e # z" for e z using that Cons.prems(3) k True by simp
        show thesis if "j = c @ b # u" "k' = c @ (\<not> b) # v" for c b u v
          using that k True by (intro Cons.prems(4) [of "x # c" b u v]) simp_all
      qed
    qed
  qed
qed

lemma trie_keys: "trie key (Nd a l r) \<Longrightarrow> x \<in> set (addrs (Nd a l r)) \<Longrightarrow> \<exists>w. key x = key a @ w"
  by auto

lemma apart_less:
  assumes "j = c @ b # u" "k = c @ (\<not> b) # v"
  shows "key_less k (j @ w) = b" "key_less j k = (\<not> b)" "j \<noteq> k" "\<nexists>w. k = j @ w" "\<nexists>w. j = k @ w"
  using assms by auto

text \<open>The step on the node of the prefix itself: three lock operations that cancel out.\<close>

lemma next_and_back:
  assumes inv: "rt_inv t" and rep: "rt_rep t tr" "addrs tr = xs @ a # ys" and n: "rt_heap t a = Some n"
  shows "and_then (route_lock_node a t) (\<lambda>t. and_then (route_next t a) (\<lambda>(t, nxt). case nxt of
       None \<Rightarrow> Inr (t, None)
     | Some b \<Rightarrow> and_then (route_unlock_node b t) (\<lambda>t. Inr (t, Some b)))) = Inr (t, first_of ys)"
proof -
  have next1: "route_next (lock_at a t) a = lock_unlock (first_of ys) a (lock_at a t)"
    by (rule route_next_ptr [OF next_ptr_split [OF lock_at_rep [OF rep(1) n] rep(2)]])
  show ?thesis
  proof (cases ys)
    case Nil
    with next1 n unlock_lock_at [OF inv n] show ?thesis
      by (simp add: route_lock_node_at lock_unlock_def)
  next
    case (Cons b zs)
    have ab: "b \<noteq> a" "b \<in> dom (rt_heap t)" using rep Cons by (auto simp: rt_rep_def)
    then obtain m where m: "rt_heap t b = Some m" by blast
    have "route_unlock_node a (lock_at b (lock_at a t)) = Inr (lock_at b t)"
      using unlock_lock_at [OF lock_at_inv [OF inv m], of a n] n ab(1)
      by (simp add: lock_at_commute lock_at_heap)
    with next1 n m ab(1) Cons unlock_lock_at [OF inv m] show ?thesis
      by (simp add: route_lock_node_at [of t a] route_lock_node_at [of "lock_at a t" b] lock_at_heap
          lock_unlock_def)
  qed
qed

lemma get_next_walk_least:
  assumes "rt_inv t" "wf_key p" "rt_rep t (plug fs (Nd a l r))"
    and "under (nkey (rt_heap t)) fs (prefix_key p)" "length (addrs (Nd a l r)) < fuel"
  shows "\<exists>q. get_next_walk fuel t p (Some a) = Inr (t, q) \<and> least_after t (prefix_key p) q"
  using assms(3-5)
proof (induction fuel arbitrary: fs a l r)
  case 0
  then show ?case by simp
next
  case (Suc fuel)
  note rep = Suc.prems(1) and un = Suc.prems(2)
  note parts = rt_rep_parts [OF rep]
  from rep obtain n where n: "rt_heap t a = Some n"
    and lr: "tree_at (rt_heap t) (Some a) (l_left n) l" "tree_at (rt_heap t) (Some a) (l_right n) r"
    by (rule rep_at) blast
  note sides = hole_sides [OF parts(8) un]
  have cmp: "route_table_prefix_iter_cmp prefix_new (rn_p n) p =
     Inr (if prefix_key (rn_p n) = prefix_key p then 0
          else if key_less (prefix_key (rn_p n)) (prefix_key p) then -1 else 1)"
    using assms(2) by (intro route_table_prefix_iter_cmp_eq)
      (auto simp: prefix_new_def wf_key_def wf_prefix_def af_defs split: if_splits)
  have len: "length (prefix_key (rn_p n)) = prefixlen (rn_p n)" "length (prefix_key p) = prefixlen p"
    by simp_all
  show ?case
  proof (cases rule: key_cases [of "prefix_key p" "prefix_key (rn_p n)"])
    case same
    then have "prefixlen (rn_p n) = prefixlen p" using len by simp
    then have "get_next_walk (Suc fuel) t p (Some a) = Inr (t, first_of (addrs l @ addrs r @ after_hole fs))"
      using next_and_back [OF assms(1) rep _ n, of "before_hole fs"] same n
      by (simp add: deref_def addrs_plug prefix_match_ex)
    moreover have "least_after t (prefix_key p) (first_of (addrs l @ addrs r @ after_hole fs))"
      using sides parts(7) n same
      by (intro least_afterI [OF rep, of "before_hole fs @ [a]"]) (auto simp: addrs_plug)
    ultimately show ?thesis by blast
  next
    case (shorter x z)
    then have "prefixlen (rn_p n) > prefixlen p" using len by (metis length_append length_Cons less_add_Suc1 add_Suc_right)
    then have "get_next_walk (Suc fuel) t p (Some a) = Inr (t, Some a)"
      using shorter n by (simp add: deref_def prefix_match_ex)
    moreover have "least_after t (prefix_key p) (first_of (addrs (Nd a l r) @ after_hole fs))"
      using sides parts(7) n shorter
      by (intro least_afterI [OF rep, of "before_hole fs"]) (auto simp: addrs_plug)
    ultimately show ?thesis by auto
  next
    case (apart c b u v)
    note ap = apart_less [OF apart]
    have "\<not> prefix_match (rn_p n) p" "\<not> prefix_match p (rn_p n)" using ap(4,5) by (auto simp: prefix_match_ex)
    then have "get_next_walk (Suc fuel) t p (Some a) =
       Inr (t, if b then Some a else first_of (after_hole fs))"
      using n cmp ap(1) [of "[]"] ap(2,3) subtree_next_after [OF rep] by (auto simp: deref_def ensure_def)
    moreover have T: "key_less (prefix_key p) (nkey (rt_heap t) x) = b" if "x \<in> set (addrs (Nd a l r))" for x
      using trie_keys [OF parts(7) that] ap(1) n by auto
    moreover have "least_after t (prefix_key p) (first_of (addrs (Nd a l r) @ after_hole fs))" if b
      using sides T that by (intro least_afterI [OF rep, of "before_hole fs"]) (auto simp: addrs_plug)
    moreover have "least_after t (prefix_key p) (first_of (after_hole fs))" if "\<not> b"
      using sides T that by (intro least_afterI [OF rep, of "before_hole fs @ addrs (Nd a l r)"]) (auto simp: addrs_plug)
    ultimately show ?thesis by (cases b) auto
  next
    case (longer x z)
    let ?c = "if x then r else l" and ?fs = "(a, x, if x then l else r) # fs"
    have rep': "rt_rep t (plug ?fs ?c)" using rep by (cases x) simp_all
    have un': "under (nkey (rt_heap t)) ?fs (prefix_key p)" using un longer n by simp
    have link: "rn_link n (prefix_bit (u_prefix p) (prefixlen (rn_p n))) = side x n"
      using rn_link_side [OF longer] .
    have lt: "prefixlen (rn_p n) < prefixlen p" using prefix_key_split(2) [OF longer] .
    have m: "prefix_match (rn_p n) p" using longer by (simp add: prefix_match_ex)
    have c: "tree_at (rt_heap t) (Some a) (side x n) ?c" using lr by (simp add: side_def)
    show ?thesis
    proof (cases "side x n")
      case (Some b)
      with c obtain l' r' where c': "?c = Nd b l' r'" by (cases ?c) auto
      have "length (addrs ?c) < fuel" using Suc.prems(3) by auto
      then have "\<exists>q. get_next_walk fuel t p (Some b) = Inr (t, q) \<and> least_after t (prefix_key p) q"
        using rep' un' unfolding c' by (intro Suc.IH)
      moreover have "get_next_walk (Suc fuel) t p (Some a) = get_next_walk fuel t p (Some b)"
        using n lt m link Some by (simp add: deref_def)
      ultimately show ?thesis by simp
    next
      case None
      with c have c': "?c = Lf" by (cases ?c) auto
      have "first_of (after_hole ?fs) =
          (if l_right n \<noteq> None then l_right n else first_of (after_hole fs))"
        using None tree_at_first [OF lr(2)] tree_at_Nil [OF lr(2)]
        by (auto simp: side_def first_of_append split: if_splits)
      then have "get_next_walk (Suc fuel) t p (Some a) = Inr (t, first_of (after_hole ?fs))"
        using n lt m link None subtree_next_after [OF rep] by (simp add: deref_def)
      moreover have "least_after t (prefix_key p) (first_of (after_hole ?fs))"
        using hole_sides [OF rt_rep_parts(8) [OF rep'] un']
        by (intro least_afterI [OF rep', of "before_hole ?fs"]) (simp_all add: addrs_plug c' del: plug.simps)
      ultimately show ?thesis by blast
    qed
  qed
qed

text \<open>C4: \<open>route_next\<close> steps in the order of the prefixes. From a node the caller holds a lock
  on, it returns the first node after it (network bits compared bit by bit, a prefix before
  what it contains) with a lock taken on it, or no node after the last; it gives the caller's
  lock back, and keeps the invariant and the stored information.\<close>

theorem route_next_in_order:
  assumes "rt_inv t" "rt_heap t a = Some n" "rn_lock n > 0" "rn_lock n = 1 \<Longrightarrow> rn_info n = None"
  shows "\<exists>t' r. route_next t a = Inr (t', r) \<and> rt_inv t' \<and> rt_entries t' = rt_entries t \<and>
     least_after t (prefix_key (rn_p n)) r \<and>
     (\<forall>b m. r = Some b \<longrightarrow> rt_heap t b = Some m \<longrightarrow>
        (\<exists>m'. rt_heap t' b = Some m' \<and> rn_p m' = rn_p m \<and> rn_lock m' = Suc (rn_lock m)))"
proof -
  from assms(1) obtain tr where rep: "rt_rep t tr" by (auto simp: rt_inv_def)
  with assms(2) have "a \<in> set (addrs tr)" by (auto simp: rt_rep_def)
  then obtain xs ys where split: "addrs tr = xs @ a # ys" by (auto simp: in_set_conv_decomp)
  from least_after_split [OF rep split assms(2)]
  have "least_after t (prefix_key (rn_p n)) (first_of ys)" .
  with route_next_step [OF assms(1) rep split assms(2-4)] show ?thesis by blast
qed

theorem route_next_in_order_witness:
  "\<exists>n t' r. rt_heap sample_table 1 = Some n \<and> rn_lock n = 2 \<and>
     route_next sample_table 1 = Inr (t', r) \<and> rt_inv t' \<and> least_after sample_table (prefix_key net10_1) r"
proof -
  obtain n where "rt_heap sample_table 1 = Some n" "rn_lock n = 2" "rn_p n = net10_1"
    by (simp add: sample_table_def)
  with route_next_in_order [OF sample_table_inv, of 1 n] show ?thesis by auto
qed

text \<open>resuming a paused iteration. For any prefix, stored or not, \<open>route_table_get_next\<close>
  never faults and returns the first node after it in the order of iteration with one more
  lock, leaving the table otherwise exactly as it was, or no node after the last one.\<close>

theorem route_table_get_next_least:
  assumes "rt_inv t" "wf_key p"
  shows "\<exists>q. least_after t (prefix_key p) q \<and>
     route_table_get_next t p = Inr (case q of None \<Rightarrow> t | Some a \<Rightarrow> lock_at a t, q)"
proof -
  from assms(1) obtain tr where rep: "rt_rep t tr" by (auto simp: rt_inv_def)
  have "\<exists>q. get_next_walk (walk_fuel t) t p (rt_top t) = Inr (t, q) \<and> least_after t (prefix_key p) q"
  proof (cases tr)
    case Lf
    with rep have "rt_top t = None" "rt_heap t = Map.empty" by (auto simp: rt_rep_def)
    then show ?thesis by (auto simp: walk_fuel_def least_after_def)
  next
    case (Nd a l r)
    with rep have "rt_top t = Some a" by (auto simp: rt_rep_def)
    with get_next_walk_least [OF assms, of "[]" a l r "walk_fuel t"] rep rt_rep_fuel [OF rep] Nd
    show ?thesis by simp
  qed
  then obtain q where q: "route_table_get_next_internal t p = Inr (t, q)" "least_after t (prefix_key p) q"
    by (auto simp: route_table_get_next_internal_def)
  show ?thesis
  proof (cases q)
    case None
    with q show ?thesis by (auto simp: route_table_get_next_def)
  next
    case (Some b)
    with q(2) obtain m where m: "rt_heap t b = Some m" "key_less (prefix_key p) (prefix_key (rn_p m))"
      by (auto simp: least_after_def)
    have "route_table_prefix_iter_cmp prefix_new (rn_p m) p = Inr 1"
      using m(2) assms(2) key_less_asym [OF m(2)] by (subst route_table_prefix_iter_cmp_eq)
        (auto simp: prefix_new_def wf_key_def wf_prefix_def af_defs split: if_splits)
    with q m(1) Some show ?thesis
      by (auto simp: route_table_get_next_def deref_def ensure_def route_lock_node_at)
  qed
qed

theorem route_table_get_next_least_witness:
  "rt_inv sample_table \<and> wf_key net10 \<and>
   (\<exists>q. least_after sample_table (prefix_key net10) q \<and>
      route_table_get_next sample_table net10 =
        Inr (case q of None \<Rightarrow> sample_table | Some a \<Rightarrow> lock_at a sample_table, q))"
  using route_table_get_next_least [OF sample_table_inv wf_key_samples(1)] sample_table_inv wf_key_samples(1) by blast

text \<open>\<open>route_table_prefix_iter_cmp\<close> is this order: on any two prefixes of legal length it
  returns without a failed assertion, and says \<open>-1\<close>, \<open>0\<close> or \<open>1\<close> as the network bits
  of the first come before, are equal to or come after those of the second.\<close>

theorem route_table_prefix_iter_cmp_order:
  assumes "length (u_prefix common) = 16" "wf_key p2"
  shows "route_table_prefix_iter_cmp common p1 p2 =
     Inr (if prefix_key p1 = prefix_key p2 then 0
          else if key_less (prefix_key p1) (prefix_key p2) then -1 else 1)"
  using assms by (intro route_table_prefix_iter_cmp_eq) (auto simp: wf_key_def wf_prefix_def af_defs split: if_splits)

theorem route_table_prefix_iter_cmp_order_witness:
  "length (u_prefix prefix_new) = 16 \<and> wf_key net192 \<and>
   route_table_prefix_iter_cmp prefix_new net10 net192 = Inr (-1)"
proof -
  have "length (u_prefix prefix_new) = 16" by (simp add: prefix_new_def)
  moreover have "prefix_key net10 \<noteq> prefix_key net192" "key_less (prefix_key net10) (prefix_key net192)"
    by code_simp+
  ultimately show ?thesis
    using route_table_prefix_iter_cmp_order [of prefix_new net192 net10] wf_key_samples(3) by simp
qed

section \<open>Destruction\<close>

text \<open>Freeing a leaf and clearing its parent's link is unlinking it with no child.\<close>

lemma free_leaf_rep:
  assumes rep: "rt_rep t (plug fs (Nd a Lf Lf))" and par: "par_of fs = Some b"
  shows "\<exists>t'. upd_node b (\<lambda>m. if l_left m = Some a then m\<lparr>l_left := None\<rparr> else m\<lparr>l_right := None\<rparr>)
       (route_node_free (t\<lparr>rt_count := rt_count t - 1\<rparr>) a) = Inr t' \<and> rt_rep t' (plug fs Lf)"
  using rep
proof (rule rep_at)
  fix n
  assume n: "rt_heap t a = Some n" "rn_parent n = par_of fs"
    "tree_at (rt_heap t) (Some a) (l_left n) Lf" "tree_at (rt_heap t) (Some a) (l_right n) Lf"
    "a \<notin> set (frame_addrs fs)"
  have b: "b \<in> set (frame_addrs fs)" using par by (cases fs rule: par_of.cases) auto
  then have ab: "a \<noteq> b" using n(5) by auto
  obtain m where m: "rt_heap t b = Some m" using b rt_rep_parts(4) [OF rep] by auto
  from unlink_rep [OF rep n(1)] n(3,4) obtain t2 where
    t2: "unlink_node a n None t = Inr t2"
      "rt_rep (route_node_free (t2\<lparr>rt_count := rt_count t2 - 1\<rparr>) a) (plug fs Lf)" by auto
  have "t2 = t\<lparr>rt_heap := (rt_heap t)(b \<mapsto> relink a None m)\<rparr>"
    using t2(1) n(2) par m by (simp add: unlink_node_def upd_node_def deref_def relink_def)
  then have "upd_node b (relink a None) (route_node_free (t\<lparr>rt_count := rt_count t - 1\<rparr>) a) =
      Inr (route_node_free (t2\<lparr>rt_count := rt_count t2 - 1\<rparr>) a)"
    using ab m by (cases t) (auto simp: upd_node_def deref_def route_node_free_def)
  with t2(2) show ?thesis by (auto simp: relink_def [abs_def])
qed

text \<open>What is left when the subtree in the hole of a context is gone.\<close>

definition cleared :: "frame list \<Rightarrow> 'a route_table \<Rightarrow> bool" where
  "cleared fs t \<longleftrightarrow>
     (if fs = [] then rt_heap t = Map.empty \<and> rt_count t = 0 else rt_rep t (plug fs Lf))"

definition free_rest :: "frame list \<Rightarrow> nat \<Rightarrow> 'a route_table \<Rightarrow> 'a route_table res" where
  "free_rest fs k t = (case par_of fs of None \<Rightarrow> Inr t | Some b \<Rightarrow> free_walk k (Some b) t)"

lemma free_walk_leaf:
  assumes "rt_rep t (plug fs (Nd a Lf Lf))"
  shows "\<exists>t'. (\<forall>k. free_walk (Suc k) (Some a) t = free_rest fs k t') \<and> cleared fs t'"
  using assms
proof (rule rep_at)
  fix n
  assume n: "rt_heap t a = Some n" "rn_parent n = par_of fs"
    "tree_at (rt_heap t) (Some a) (l_left n) Lf" "tree_at (rt_heap t) (Some a) (l_right n) Lf"
  show ?thesis
  proof (cases fs rule: par_of.cases)
    case 1
    then have "dom (rt_heap t) = {a}" "rt_count t = 1" using rt_rep_parts(4,5) [OF assms] by simp_all
    then have "rt_heap (route_node_free (t\<lparr>rt_count := 0\<rparr>) a) = Map.empty"
      by (auto simp: route_node_free_def fun_eq_iff dom_def)
    with 1 n \<open>rt_count t = 1\<close> show ?thesis
      by (auto simp: deref_def free_rest_def cleared_def route_node_free_def
          intro!: exI [of _ "route_node_free (t\<lparr>rt_count := 0\<rparr>) a"])
  next
    case (2 b y s fs')
    then have par: "par_of fs = Some b" by simp
    from free_leaf_rep [OF assms par] obtain t' where t': "rt_rep t' (plug fs Lf)"
      "upd_node b (\<lambda>m. if l_left m = Some a then m\<lparr>l_left := None\<rparr> else m\<lparr>l_right := None\<rparr>)
       (route_node_free (t\<lparr>rt_count := rt_count t - 1\<rparr>) a) = Inr t'" by blast
    then have "\<forall>k. free_walk (Suc k) (Some a) t = free_rest fs k t'"
      using n par by (simp add: deref_def free_rest_def)
    with t'(1) 2 show ?thesis by (auto simp: cleared_def)
  qed
qed

lemma free_walk_subtree:
  assumes "rt_rep t (plug fs (Nd a l r))"
  shows "\<exists>j t'. j < 2 * length (addrs (Nd a l r)) \<and> cleared fs t' \<and>
     (\<forall>k. free_walk (j + k) (Some a) t = free_rest fs k t')"
  using assms
proof (induction "length (addrs (Nd a l r))" arbitrary: fs a l r t rule: less_induct)
  case less
  consider (left) c cl cr where "l = Nd c cl cr" | (right) c cl cr where "l = Lf" "r = Nd c cl cr"
    | (leaf) "l = Lf" "r = Lf" by (cases l; cases r) auto
  then show ?case
  proof cases
    case left
    let ?fs = "(a, False, r) # fs"
    have "rt_rep t (plug ?fs (Nd c cl cr))" using less.prems left by simp
    from less.hyps [OF _ this] left obtain j t1 where j: "j < 2 * length (addrs (Nd c cl cr))"
      "cleared ?fs t1" "\<And>k. free_walk (j + k) (Some c) t = free_rest ?fs k t1" by auto
    have "rt_rep t1 (plug fs (Nd a Lf r))" using j(2) by (simp add: cleared_def)
    from less.hyps [OF _ this] left obtain i t2 where i: "i < 2 * length (addrs (Nd a Lf r))"
      "cleared fs t2" "\<And>k. free_walk (i + k) (Some a) t1 = free_rest fs k t2" by auto
    have "free_walk (Suc (j + i) + k) (Some a) t = free_rest fs k t2" for k
      using less.prems left j(3) [of "i + k"] i(3) [of k]
      by (auto simp: deref_def free_rest_def rt_rep_def tree_at_plug ac_simps)
    then show ?thesis
      using i(1,2) j(1) left by (intro exI [of _ "Suc (j + i)"] exI [of _ t2]) simp
  next
    case right
    let ?fs = "(a, True, Lf) # fs"
    have "rt_rep t (plug ?fs (Nd c cl cr))" using less.prems right by simp
    from less.hyps [OF _ this] right obtain j t1 where j: "j < 2 * length (addrs (Nd c cl cr))"
      "cleared ?fs t1" "\<And>k. free_walk (j + k) (Some c) t = free_rest ?fs k t1" by auto
    have "rt_rep t1 (plug fs (Nd a Lf Lf))" using j(2) by (simp add: cleared_def)
    from less.hyps [OF _ this] right obtain i t2 where i: "i < 2 * length (addrs (Nd a Lf Lf))"
      "cleared fs t2" "\<And>k. free_walk (i + k) (Some a) t1 = free_rest fs k t2" by auto
    have "free_walk (Suc (j + i) + k) (Some a) t = free_rest fs k t2" for k
      using less.prems right j(3) [of "i + k"] i(3) [of k]
      by (auto simp: deref_def free_rest_def rt_rep_def tree_at_plug ac_simps)
    then show ?thesis
      using i(1,2) j(1) right by (intro exI [of _ "Suc (j + i)"] exI [of _ t2]) simp
  next
    case leaf
    with free_walk_leaf [of t fs a] less.prems obtain t' where
      "\<And>k. free_walk (Suc k) (Some a) t = free_rest fs k t'" "cleared fs t'" by blast
    then show ?thesis using leaf by (intro exI [of _ 1] exI [of _ t']) simp
  qed
qed

lemma route_table_finish_spec:
  assumes "rt_inv t"
  shows "\<exists>t'. route_table_finish t = Inr t' \<and> rt_heap t' = Map.empty \<and> rt_count t' = 0"
proof -
  from assms obtain tr where rep: "rt_rep t tr" by (auto simp: rt_inv_def)
  show ?thesis
  proof (cases tr)
    case Lf
    with rep have "rt_top t = None" "rt_heap t = Map.empty" "rt_count t = 0" by (auto simp: rt_rep_def)
    then show ?thesis by (simp add: route_table_finish_def ensure_def)
  next
    case (Nd a l r)
    with rep have top: "rt_top t = Some a" by (auto simp: rt_rep_def)
    from free_walk_subtree [of t "[]" a l r] rep Nd obtain j t' where
      j: "j < 2 * length (addrs tr)" "cleared [] t'"
        "\<And>k. free_walk (j + k) (Some a) t = free_rest [] k t'" by auto
    have "j \<le> Suc (2 * rt_brk t)" using j(1) rt_rep_fuel [OF rep] by (simp add: walk_fuel_def)
    then obtain k where "Suc (2 * rt_brk t) = j + k" using le_Suc_ex by blast
    with j(2,3) top show ?thesis
      by (simp add: route_table_finish_def ensure_def free_rest_def cleared_def)
  qed
qed

text \<open>C5: \<open>route_table_finish\<close> terminates on every well-formed table, whatever locks and
  information it holds, frees every node exactly once and passes its final check that the node
  count is zero.\<close>

theorem route_table_finish_frees_all:
  assumes "rt_inv t"
  shows "\<exists>t'. route_table_finish t = Inr t' \<and> rt_heap t' = Map.empty \<and> rt_count t' = 0"
  by (rule route_table_finish_spec [OF assms])

theorem route_table_finish_frees_all_witness:
  "rt_inv sample_table \<and> (\<exists>t'. route_table_finish sample_table = Inr t' \<and> rt_heap t' = Map.empty)"
  using route_table_finish_frees_all [OF sample_table_inv] sample_table_inv by blast

end
