(* ===== verification/RouteMap.thy ===== *)
theory RouteMap
  imports RouteTableIter "HOL-Library.Multiset"
begin

text \<open>
  The routing table as its clients use it: a map from prefixes to data whose nodes are borrowed.
  \<open>route_node_get\<close>, \<open>route_node_lookup\<close> and the iteration return a node
  with a lock that the client owns and has to give back; storing data in a node costs the client
  one lock (the table's reference), clearing the data returns it. \<open>rt_stores t m L\<close> says
  that the table \<open>t\<close> stores the map \<open>m\<close> and that the multiset \<open>L\<close> of locks is out.
  The laws of this discipline are the locale \<open>prefix_store\<close>, which the table implements,
  and which the link state databases and the neighbor tables of the daemons rely on.
\<close>

section \<open>The store\<close>

definition rt_stores :: "'a route_table \<Rightarrow> (bool list \<rightharpoonup> 'a) \<Rightarrow> nat multiset \<Rightarrow> bool" where
  "rt_stores t m L \<longleftrightarrow> rt_inv t \<and> rt_entries t = Map.graph m \<and> set_mset L \<subseteq> dom (rt_heap t) \<and>
     (\<forall>a n. rt_heap t a = Some n \<longrightarrow> rn_lock n = of_bool (rn_info n \<noteq> None) + count L a)"

definition rt_node :: "'a route_table \<Rightarrow> nat \<Rightarrow> bool list \<Rightarrow> 'a option \<Rightarrow> bool" where
  "rt_node t a k v \<longleftrightarrow> (\<exists>n. rt_heap t a = Some n \<and> prefix_key (rn_p n) = k \<and> rn_info n = v)"

text \<open>Reading and writing \<open>rn->info\<close>.\<close>

definition info_of :: "nat \<Rightarrow> 'a route_table \<Rightarrow> 'a option res" where
  "info_of a t = and_then (deref (rt_heap t) a) (\<lambda>n. Inr (rn_info n))"

definition set_info :: "nat \<Rightarrow> 'a option \<Rightarrow> 'a route_table \<Rightarrow> 'a route_table res" where
  "set_info a v = upd_node a (\<lambda>n. n\<lparr>rn_info := v\<rparr>)"

lemma rt_stores_init: "rt_stores route_table_init Map.empty {#}"
proof -
  have "rt_rep route_table_init Lf"
    by (simp add: rt_rep_def route_table_init_def ran_def)
  then have "rt_inv route_table_init" by (auto simp: rt_inv_def route_table_init_def ran_def)
  then show ?thesis by (simp add: rt_stores_def rt_entries_def route_table_init_def Map.graph_def)
qed

lemma info_of_node: "rt_node t a k v \<Longrightarrow> info_of a t = Inr v"
  by (auto simp: rt_node_def info_of_def deref_def)

text \<open>A key has at most one node.\<close>

lemma rt_node_key:
  assumes "rt_inv t" "rt_node t a k v" "rt_node t b k w"
  shows "a = b"
proof (rule ccontr)
  assume "a \<noteq> b"
  from assms(1) obtain tr where rep: "rt_rep t tr" by (auto simp: rt_inv_def)
  then have srt: "sorted_wrt (\<lambda>a b. key_less (nkey (rt_heap t) a) (nkey (rt_heap t) b)) (addrs tr)"
    by (auto simp: rt_rep_def intro: trie_sorted)
  have "a \<in> set (addrs tr)" "b \<in> set (addrs tr)"
    using assms(2,3) rep by (auto simp: rt_node_def rt_rep_def)
  with srt \<open>a \<noteq> b\<close> have "key_less (nkey (rt_heap t) a) (nkey (rt_heap t) b) \<or>
      key_less (nkey (rt_heap t) b) (nkey (rt_heap t) a)"
    by (auto simp: in_set_conv_nth sorted_wrt_iff_nth_less) (metis linorder_neqE_nat)
  moreover have "nkey (rt_heap t) a = k" "nkey (rt_heap t) b = k"
    using assms(2,3) by (auto simp: rt_node_def)
  ultimately show False by simp
qed

lemma rt_node_map:
  assumes "rt_stores t m L" "rt_node t a k v"
  shows "m k = v"
proof (cases "m k")
  case None
  then have "(k, i) \<notin> rt_entries t" for i using assms(1) by (simp add: rt_stores_def Map.graph_def)
  then have "v \<noteq> Some i" for i using assms(2) by (auto simp: rt_entries_def rt_node_def)
  then show ?thesis using None by (cases v) auto
next
  case (Some i)
  then have "(k, i) \<in> rt_entries t" using assms(1) by (simp add: rt_stores_def Map.graph_def)
  then obtain b where b: "rt_node t b k (Some i)" by (auto simp: rt_entries_def rt_node_def)
  have "b = a" using assms b by (auto simp: rt_stores_def intro: rt_node_key)
  then show ?thesis using b assms(2) Some by (auto simp: rt_node_def)
qed

lemma rt_map_node:
  assumes "rt_stores t m L" "m k = Some i"
  obtains a where "rt_node t a k (Some i)"
proof -
  have "(k, i) \<in> rt_entries t" using assms by (simp add: rt_stores_def Map.graph_def)
  then show thesis using that by (auto simp: rt_entries_def rt_node_def)
qed

lemma rt_stores_lock:
  assumes "rt_stores t m L" "rt_heap t a = Some n"
  shows "rt_stores (lock_at a t) m (add_mset a L)" "rt_node (lock_at a t) b k v = rt_node t b k v"
proof -
  from route_lock_node_spec [of t a n] assms have "rt_entries (lock_at a t) = rt_entries t"
    by (auto simp: rt_stores_def route_lock_node_at)
  then show "rt_stores (lock_at a t) m (add_mset a L)"
    using assms by (auto simp: rt_stores_def lock_at_heap intro: lock_at_inv split: if_splits)
  show "rt_node (lock_at a t) b k v = rt_node t b k v"
    using assms(2) by (auto simp: rt_node_def lock_at_heap)
qed

section \<open>The laws\<close>

lemma rt_lookup_law:
  assumes "rt_stores t m L"
  shows "case m (prefix_key p) of
       None \<Rightarrow> route_node_lookup t p = Inr (t, None)
     | Some i \<Rightarrow> \<exists>t' a. route_node_lookup t p = Inr (t', Some a) \<and>
         rt_stores t' m (add_mset a L) \<and> rt_node t' a (prefix_key p) (Some i) \<and>
         (\<forall>b k v. rt_node t' b k v = rt_node t b k v)"
proof -
  have inv: "rt_inv t" using assms by (simp add: rt_stores_def)
  from route_node_lookup_spec [OF inv, of p] obtain r where
    ex: "\<And>a. r = Some a \<longleftrightarrow> (\<exists>n. rt_heap t a = Some n \<and> prefix_key (rn_p n) = prefix_key p \<and>
        rn_info n \<noteq> None)"
    and r: "route_node_lookup t p = (case r of None \<Rightarrow> Inr (t, None)
       | Some a \<Rightarrow> and_then (route_lock_node a t) (\<lambda>t. Inr (t, Some a)))" by blast
  show ?thesis
  proof (cases "m (prefix_key p)")
    case None
    have "r = None"
    proof (rule ccontr)
      assume "r \<noteq> None"
      then obtain a i where "rt_node t a (prefix_key p) (Some i)" using ex by (auto simp: rt_node_def)
      from rt_node_map [OF assms this] None show False by simp
    qed
    with r None show ?thesis by simp
  next
    case (Some i)
    from rt_map_node [OF assms this] obtain a where a: "rt_node t a (prefix_key p) (Some i)" .
    then obtain n where n: "rt_heap t a = Some n" by (auto simp: rt_node_def)
    have "r = Some a" using a ex by (auto simp: rt_node_def)
    with r n a Some rt_stores_lock [OF assms n] show ?thesis
      by (auto simp: route_lock_node_at)
  qed
qed

lemma rt_get_law:
  assumes "rt_stores t m L" "wf_key p"
  shows "\<exists>t' a. route_node_get t p = Inr (t', a) \<and> rt_stores t' m (add_mset a L) \<and>
     rt_node t' a (prefix_key p) (m (prefix_key p))"
proof -
  have inv: "rt_inv t" using assms by (simp add: rt_stores_def)
  from route_node_get_spec [OF inv assms(2)] obtain t' a n where
    t': "route_node_get t p = Inr (t', a)" "rt_inv t'" "rt_entries t' = rt_entries t"
    and n: "rt_heap t' a = Some n" "prefix_key (rn_p n) = prefix_key p"
    and kept: "keeps_nodes t t' a" "fresh_nodes t t' a" by blast
  have "rn_lock m' = of_bool (rn_info m' \<noteq> None) + count (add_mset a L) b"
    if "rt_heap t' b = Some m'" for b m'
  proof (cases "rt_heap t b")
    case None
    then have "count L b = 0" using assms(1) by (auto simp: rt_stores_def count_eq_zero_iff)
    then show ?thesis using None kept(2) that by (auto simp: fresh_nodes_def)
  next
    case (Some c)
    with kept(1) that have "rn_info m' = rn_info c" "rn_lock m' = rn_lock c + (if b = a then 1 else 0)"
      unfolding keeps_nodes_def by force+
    then show ?thesis using Some assms(1) by (simp add: rt_stores_def)
  qed
  moreover have "set_mset L \<subseteq> dom (rt_heap t')"
    using assms(1) kept(1) by (fastforce simp: rt_stores_def keeps_nodes_def)
  ultimately have st: "rt_stores t' m (add_mset a L)"
    using t' n assms(1) by (auto simp: rt_stores_def)
  have "rt_node t' a (prefix_key p) (rn_info n)" using n by (simp add: rt_node_def)
  with rt_node_map [OF st this] st t'(1) show ?thesis by auto
qed

lemma set_info_inv:
  assumes "rt_inv t" "rt_heap t a = Some n" "rn_lock n > 0"
  shows "\<exists>t'. set_info a v t = Inr t' \<and> rt_inv t' \<and> rt_heap t' = (rt_heap t)(a \<mapsto> n\<lparr>rn_info := v\<rparr>)"
  using assms rt_inv_data [OF assms(1,2), of "n\<lparr>rn_info := v\<rparr>"]
  by (auto simp: set_info_def upd_node_def deref_def links_def stub_ok_def)

lemma rt_entries_upd:
  assumes "rt_inv t" "rt_entries t = Map.graph m" "rt_heap t a = Some n" "prefix_key (rn_p n) = k"
    and "rt_heap t' = (rt_heap t)(a \<mapsto> n\<lparr>rn_info := v\<rparr>)"
  shows "rt_entries t' = Map.graph (m(k := v))"
proof -
  have uniq: "b = a" if "rt_heap t b = Some n'" "prefix_key (rn_p n') = k" for b n'
    using that assms(1,3,4) by (auto simp: rt_node_def intro!: rt_node_key [of t b k _ a])
  have "(\<exists>b n'. rt_heap t' b = Some n' \<and> prefix_key (rn_p n') = j \<and> rn_info n' = Some i) \<longleftrightarrow>
      (m(k := v)) j = Some i" for j i
  proof (cases "j = k")
    case True
    have "b = a \<and> n' = n\<lparr>rn_info := v\<rparr>" if "rt_heap t' b = Some n'" "prefix_key (rn_p n') = k" for b n'
      using that uniq [of b n'] assms(5) by (cases "b = a") auto
    moreover have "rt_heap t' a = Some (n\<lparr>rn_info := v\<rparr>)" using assms(5) by simp
    ultimately show ?thesis unfolding True using assms(4) by (intro iffI) (force, fastforce)
  next
    case False
    then have "(\<exists>b n'. rt_heap t' b = Some n' \<and> prefix_key (rn_p n') = j \<and> rn_info n' = Some i) \<longleftrightarrow>
        (j, i) \<in> rt_entries t"
      unfolding rt_entries_def using assms(3-5) by (auto split: if_splits) (metis option.inject)
    with False show ?thesis using assms(2) by (simp add: Map.graph_def)
  qed
  then show ?thesis unfolding rt_entries_def Map.graph_def by simp
qed

text \<open>
  Storing the first data in a node uses up a lock, clearing it hands one out; in between the lock
  count of the node does not change.
\<close>

definition rt_fewer :: "'a route_table \<Rightarrow> 'a route_table \<Rightarrow> bool" where
  "rt_fewer t' t \<longleftrightarrow> (\<forall>a k v'. rt_node t' a k v' \<longrightarrow> (\<exists>v. rt_node t a k v))"

definition data_lock :: "nat \<Rightarrow> 'a option \<Rightarrow> nat multiset" where
  "data_lock a v = (if v = None then {#} else {#a#})"

lemma rt_set_law:
  assumes "rt_stores t m M" "rt_node t a k v" "M + data_lock a v = L + data_lock a w"
    and "v \<noteq> None \<or> w \<noteq> None"
  shows "\<exists>t'. set_info a w t = Inr t' \<and> rt_stores t' (m(k := w)) L \<and> rt_node t' a k w \<and>
     (\<forall>b j u. b \<noteq> a \<longrightarrow> rt_node t' b j u = rt_node t b j u) \<and> rt_fewer t' t"
proof -
  from assms(2) obtain n where n: "rt_heap t a = Some n" "prefix_key (rn_p n) = k" "rn_info n = v"
    by (auto simp: rt_node_def)
  have locks: "count M b + of_bool (b = a \<and> v \<noteq> None) = count L b + of_bool (b = a \<and> w \<noteq> None)" for b
    using arg_cong [OF assms(3), of "\<lambda>M. count M b"] by (auto simp: data_lock_def split: if_splits)
  have "rn_lock n = of_bool (v \<noteq> None) + count M a" using n assms(1) by (simp add: rt_stores_def)
  then have "rn_lock n \<noteq> 0" using assms(4) locks [of a] by (metis add_is_0 of_bool_eq_0_iff)
  then have "rn_lock n > 0" by simp
  with set_info_inv [OF _ n(1), of w] assms(1) obtain t' where t': "set_info a w t = Inr t'" "rt_inv t'"
    "rt_heap t' = (rt_heap t)(a \<mapsto> n\<lparr>rn_info := w\<rparr>)" by (auto simp: rt_stores_def)
  have "rt_entries t' = Map.graph (m(k := w))"
    using assms(1) n t'(3) by (intro rt_entries_upd) (auto simp: rt_stores_def)
  moreover have "set_mset L \<subseteq> dom (rt_heap t')"
  proof
    fix b assume "b \<in># L"
    then have "count L b > 0" by simp
    then have "b \<in># M \<or> b = a" using locks [of b] by (cases "b = a") (auto simp flip: count_greater_zero_iff)
    then show "b \<in> dom (rt_heap t')" using assms(1) t'(3) by (auto simp: rt_stores_def)
  qed
  moreover have "rn_lock n' = of_bool (rn_info n' \<noteq> None) + count L b" if "rt_heap t' b = Some n'" for b n'
    using that assms(1) locks [of b] n t'(3) by (auto simp: rt_stores_def split: if_splits)
  ultimately have "rt_stores t' (m(k := w)) L" using t'(2) by (simp add: rt_stores_def)
  then show ?thesis using t' n by (auto simp: rt_node_def rt_fewer_def)
qed

text \<open>Giving a lock back: the table may only lose nodes nobody holds and that carry no data.\<close>

lemma rt_unlock_law:
  assumes "rt_stores t m (add_mset a L)"
  shows "\<exists>t'. route_unlock_node a t = Inr t' \<and> rt_stores t' m L \<and>
     (\<forall>b k v. rt_node t b k v \<longrightarrow> v \<noteq> None \<or> b \<in># L \<longrightarrow> rt_node t' b k v) \<and> rt_fewer t' t"
proof -
  have inv: "rt_inv t" using assms by (simp add: rt_stores_def)
  from assms obtain n where n: "rt_heap t a = Some n"
    "rn_lock n = Suc (of_bool (rn_info n \<noteq> None) + count L a)" by (auto simp: rt_stores_def)
  let ?t = "t\<lparr>rt_heap := (rt_heap t)(a \<mapsto> n\<lparr>rn_lock := rn_lock n - 1\<rparr>)\<rparr>"
  have "rn_lock n > 0" "rn_lock n = 1 \<Longrightarrow> rn_info n = None"
    using n(2) by (simp, cases "rn_info n") simp_all
  from route_unlock_node_spec [OF inv n(1) this] obtain t' where
    t': "route_unlock_node a t = Inr t'" "rt_inv t'" "shrunk ?t t'" by blast
  have lk: "rn_lock c = of_bool (rn_info c \<noteq> None) + count L b" if "rt_heap ?t b = Some c" for b c
    using that assms n(2) by (auto simp: rt_stores_def split: if_splits)
  have sh: "\<exists>c'. rt_heap t' b = Some c' \<and> ndata c' = ndata c"
    if "rt_heap ?t b = Some c" "rn_info c \<noteq> None \<or> b \<in># L" for b c
  proof -
    have "rn_lock c \<noteq> 0" using lk [OF that(1)] that(2) by auto
    then show ?thesis using t'(3) [unfolded shrunk_def, rule_format, of b] that(1)
      by (auto split: option.splits)
  qed
  have old: "\<exists>c. rt_heap ?t b = Some c \<and> ndata c' = ndata c" if "rt_heap t' b = Some c'" for b c'
    using t'(3) [unfolded shrunk_def, rule_format, of b] that by (cases "rt_heap ?t b") auto
  have "rt_entries ?t = rt_entries t" using n(1) by (intro rt_entries_data) simp_all
  then have "rt_entries t' = Map.graph m"
    using shrunk_entries [OF t'(3)] assms by (simp add: rt_stores_def)
  moreover have "set_mset L \<subseteq> dom (rt_heap t')"
  proof
    fix b assume b: "b \<in># L"
    then have "b \<in> dom (rt_heap t)" using assms by (auto simp: rt_stores_def)
    then obtain c where "rt_heap ?t b = Some c" by (cases "b = a") auto
    then show "b \<in> dom (rt_heap t')" using sh b by blast
  qed
  moreover have "rn_lock c' = of_bool (rn_info c' \<noteq> None) + count L b" if "rt_heap t' b = Some c'" for b c'
  proof -
    from old [OF that] obtain c where "rt_heap ?t b = Some c" "ndata c' = ndata c" by blast
    then show ?thesis using lk [of b c] by (simp add: ndata_def)
  qed
  ultimately have "rt_stores t' m L" using t'(2) by (simp add: rt_stores_def)
  moreover have "rt_node t' b k v" if nd: "rt_node t b k v" and held: "v \<noteq> None \<or> b \<in># L" for b k v
  proof -
    obtain c where "rt_heap ?t b = Some c" "prefix_key (rn_p c) = k" "rn_info c = v"
      using nd n(1) by (cases "b = a") (auto simp: rt_node_def)
    then show ?thesis using sh [of b c] held by (auto simp: rt_node_def ndata_def)
  qed
  moreover have "rt_fewer t' t"
    unfolding rt_fewer_def rt_node_def
  proof (intro allI impI)
    fix b k v
    assume "\<exists>c'. rt_heap t' b = Some c' \<and> prefix_key (rn_p c') = k \<and> rn_info c' = v"
    then obtain c' c where "rt_heap ?t b = Some c" "ndata c' = ndata c" "prefix_key (rn_p c') = k"
      using old by blast
    then show "\<exists>v n. rt_heap t b = Some n \<and> prefix_key (rn_p n) = k \<and> rn_info n = v"
      using n(1) by (cases "b = a") (auto simp: ndata_def)
  qed
  ultimately show ?thesis using t'(1) by blast
qed

text \<open>The body of a loop that empties a table: clear the data of the node that is held.\<close>

lemma rt_drop_held:
  assumes "rt_stores t m (add_mset a L)" "rt_node t a k (Some j)"
  shows "\<exists>t1 t2. set_info a None t = Inr t1 \<and> route_unlock_node a t1 = Inr t2 \<and>
     rt_stores t2 (m(k := None)) (add_mset a L) \<and> rt_node t2 a k None \<and> rt_fewer t2 t"
proof -
  from rt_set_law [OF assms, of "add_mset a (add_mset a L)" None] obtain t1 where
    t1: "set_info a None t = Inr t1" "rt_stores t1 (m(k := None)) (add_mset a (add_mset a L))"
      "rt_node t1 a k None" "rt_fewer t1 t" by (auto simp: data_lock_def)
  from rt_unlock_law [OF t1(2)] obtain t2 where
    t2: "route_unlock_node a t1 = Inr t2" "rt_stores t2 (m(k := None)) (add_mset a L)"
      "rt_node t2 a k None" "rt_fewer t2 t1" using t1(3) by auto
  have "rt_fewer t2 t" using t1(4) t2(4) unfolding rt_fewer_def by blast
  with t1(1) t2 show ?thesis by blast
qed

section \<open>Iteration\<close>

lemma rt_node_Ex: "rt_heap t a = Some n \<Longrightarrow> rt_node t a (prefix_key (rn_p n)) (rn_info n)"
  by (simp add: rt_node_def)

text \<open>The nodes whose key comes after \<open>k\<close>; they bound the steps an iteration has left.\<close>

definition rt_after :: "'a route_table \<Rightarrow> bool list \<Rightarrow> nat set" where
  "rt_after t k = {b. \<exists>j v. rt_node t b j v \<and> key_less k j}"

lemma rt_after_finite:
  assumes "rt_inv t"
  shows "finite (rt_after t k)" "card (rt_after t k) < walk_fuel t"
proof -
  from assms obtain tr where rep: "rt_rep t tr" by (auto simp: rt_inv_def)
  then have sub: "rt_after t k \<subseteq> set (addrs tr)" by (auto simp: rt_after_def rt_node_def rt_rep_def)
  then show "finite (rt_after t k)" by (rule finite_subset) simp
  have "card (rt_after t k) \<le> length (addrs tr)"
    by (meson card_length card_mono finite_set le_trans sub)
  then show "card (rt_after t k) < walk_fuel t" using rt_rep_fuel [OF rep] by simp
qed

definition rt_reached ::
    "'a route_table \<Rightarrow> (bool list \<rightharpoonup> 'a) \<Rightarrow> nat multiset \<Rightarrow> bool list set \<Rightarrow> nat option \<Rightarrow> bool" where
  "rt_reached t m L K r \<longleftrightarrow> (case r of
       None \<Rightarrow> rt_stores t m L \<and> dom m \<inter> K = {}
     | Some b \<Rightarrow> \<exists>k \<in> K. rt_stores t m (add_mset b L) \<and> rt_node t b k (m k) \<and>
         (\<forall>j \<in> dom m \<inter> K. j = k \<or> key_less k j))"

lemma rt_top_law:
  assumes "rt_stores t m L"
  shows "\<exists>t' r. route_top t = Inr (t', r) \<and> rt_inv t' \<and> walk_fuel t' = walk_fuel t \<and> rt_reached t' m L UNIV r"
proof -
  from assms obtain tr where rep: "rt_rep t tr" by (auto simp: rt_stores_def rt_inv_def)
  show ?thesis
  proof (cases tr)
    case Lf
    with rep have "rt_top t = None" "rt_heap t = Map.empty" by (auto simp: rt_rep_def)
    moreover have "dom m = {}"
    proof (rule ccontr)
      assume "dom m \<noteq> {}"
      then obtain k where "k \<in> dom m" by blast
      then obtain i where "m k = Some i" by blast
      with rt_map_node [OF assms] \<open>rt_heap t = Map.empty\<close> show False by (auto simp: rt_node_def)
    qed
    ultimately show ?thesis using assms by (simp add: route_top_def rt_reached_def rt_stores_def)
  next
    case (Nd a l r)
    with rep obtain n where n: "rt_top t = Some a" "rt_heap t a = Some n" by (auto simp: rt_rep_def)
    have srt: "sorted_wrt (\<lambda>a b. key_less (nkey (rt_heap t) a) (nkey (rt_heap t) b)) (addrs tr)"
      using rep by (auto simp: rt_rep_def intro: trie_sorted)
    have min: "j = nkey (rt_heap t) a \<or> key_less (nkey (rt_heap t) a) j" if "j \<in> dom m" for j
    proof -
      from that obtain b i where "rt_node t b j (Some i)" using rt_map_node [OF assms] by blast
      then have "b \<in> set (addrs tr)" "nkey (rt_heap t) b = j"
        using rep by (auto simp: rt_node_def rt_rep_def)
      then show ?thesis using srt Nd by auto
    qed
    have nd: "rt_node t a (nkey (rt_heap t) a) (rn_info n)" using n by (simp add: rt_node_def)
    from this rt_node_map [OF assms this] have "rt_node t a (nkey (rt_heap t) a) (m (nkey (rt_heap t) a))"
      by simp
    then have "rt_reached (lock_at a t) m L UNIV (Some a)"
      unfolding rt_reached_def option.case using rt_stores_lock [OF assms n(2)] min by blast
    then show ?thesis
      using n lock_at_inv [OF _ n(2)] assms
      by (auto simp: route_top_def route_lock_node_at walk_fuel_def rt_stores_def)
  qed
qed

lemma rt_next_law:
  assumes "rt_stores t m (add_mset a L)" "rt_node t a k v"
  shows "\<exists>t' r. route_next t a = Inr (t', r) \<and> rt_fewer t' t \<and> rt_reached t' m L {j. key_less k j} r"
proof -
  from assms obtain n where n: "rt_heap t a = Some n" "prefix_key (rn_p n) = k" by (auto simp: rt_node_def)
  from assms obtain tr where rep: "rt_rep t tr" by (auto simp: rt_stores_def rt_inv_def)
  with n have "a \<in> set (addrs tr)" by (auto simp: rt_rep_def)
  then obtain xs ys where split: "addrs tr = xs @ a # ys" by (auto simp: in_set_conv_decomp)
  have step: "route_next t a = lock_unlock (first_of ys) a t"
    by (rule route_next_ptr [OF next_ptr_split [OF rep split]])
  have least: "least_after t k (first_of ys)"
    using least_after_split [OF rep split n(1)] n(2) by simp
  have nodes: "\<exists>b n'. rt_heap t b = Some n' \<and> prefix_key (rn_p n') = j" if "j \<in> dom m" for j
    using that rt_map_node [OF assms(1)] by (auto simp: rt_node_def) blast
  show ?thesis
  proof (cases "first_of ys")
    case None
    from rt_unlock_law [OF assms(1)] obtain t' where
      "route_unlock_node a t = Inr t'" "rt_stores t' m L" "rt_fewer t' t" by blast
    moreover have "dom m \<inter> {j. key_less k j} = {}"
      using least nodes None by (fastforce simp: least_after_def)
    ultimately show ?thesis using step None by (simp add: lock_unlock_def rt_reached_def)
  next
    case (Some b)
    with least obtain c where c: "rt_heap t b = Some c"
      "key_less k (prefix_key (rn_p c))"
      "\<And>d m'. rt_heap t d = Some m' \<Longrightarrow> key_less k (prefix_key (rn_p m')) \<Longrightarrow>
         d = b \<or> key_less (prefix_key (rn_p c)) (prefix_key (rn_p m'))"
      by (auto simp: least_after_def)
    have lk: "rt_stores (lock_at b t) m (add_mset a (add_mset b L))"
      using rt_stores_lock(1) [OF assms(1) c(1)] by (simp add: add_mset_commute)
    from rt_unlock_law [OF lk] obtain t' where t': "route_unlock_node a (lock_at b t) = Inr t'"
      "rt_stores t' m (add_mset b L)" "rt_fewer t' (lock_at b t)"
      and keep: "\<And>d j u. rt_node (lock_at b t) d j u \<Longrightarrow> d \<in># add_mset b L \<Longrightarrow> rt_node t' d j u" by blast
    have "rt_node t' b (prefix_key (rn_p c)) (rn_info c)"
      using keep rt_stores_lock(2) [OF assms(1) c(1)] rt_node_Ex [OF c(1)] by simp
    from this rt_node_map [OF t'(2) this] have nd: "rt_node t' b (prefix_key (rn_p c)) (m (prefix_key (rn_p c)))"
      by simp
    have "j = prefix_key (rn_p c) \<or> key_less (prefix_key (rn_p c)) j"
      if "j \<in> dom m" "key_less k j" for j
      using nodes [OF that(1)] c(1,3) that(2) by fastforce
    then have "rt_reached t' m L {j. key_less k j} (Some b)"
      unfolding rt_reached_def using nd c(2) t'(2) by auto
    moreover have "rt_fewer t' t"
      using t'(3) rt_stores_lock(2) [OF assms(1) c(1)] by (simp add: rt_fewer_def)
    ultimately show ?thesis
      using step Some c(1) t'(1) by (simp add: lock_unlock_def route_lock_node_at)
  qed
qed

text \<open>
  The loop \<open>for (rn = route_top (table); rn; rn = route_next (rn)) body\<close>. The table is a
  part of a state that the body may change, read by \<open>gt\<close> and written back by \<open>pt\<close>.
\<close>

fun rt_walk ::
    "nat \<Rightarrow> ('s \<Rightarrow> 'a route_table) \<Rightarrow> ('a route_table \<Rightarrow> 's \<Rightarrow> 's) \<Rightarrow> (nat \<Rightarrow> 's \<Rightarrow> 's res) \<Rightarrow>
     nat option \<Rightarrow> 's \<Rightarrow> 's res" where
  "rt_walk 0 gt pt body rn s = Inl Diverged"
| "rt_walk (Suc fuel) gt pt body rn s =
     (case rn of
        None \<Rightarrow> Inr s
      | Some a \<Rightarrow> and_then (body a s) (\<lambda>s.
                  and_then (route_next (gt s) a) (\<lambda>(t, rn).
                    rt_walk fuel gt pt body rn (pt t s))))"

definition rt_for ::
    "('s \<Rightarrow> 'a route_table) \<Rightarrow> ('a route_table \<Rightarrow> 's \<Rightarrow> 's) \<Rightarrow> (nat \<Rightarrow> 's \<Rightarrow> 's res) \<Rightarrow> 's \<Rightarrow> 's res" where
  "rt_for gt pt body s =
     and_then (route_top (gt s)) (\<lambda>(t, rn). rt_walk (Suc (walk_fuel t)) gt pt body rn (pt t s))"

text \<open>
  A loop is a fold over the keys of the map, in their order. \<open>R L s x\<close> relates the state of
  the code to an abstract state whose map is \<open>M x\<close>; the body may change the map only at the key
  it visits (\<open>F\<close>), and it leaves nodes without data alone. It may clear the data of its node,
  and the node itself goes away with the step to the next one.
\<close>

definition sorted_keys :: "(bool list \<rightharpoonup> 'a) \<Rightarrow> bool list list \<Rightarrow> bool" where
  "sorted_keys m ks \<longleftrightarrow> sorted_wrt key_less ks \<and> set ks = dom m"

lemma rt_sorted_keys:
  assumes "rt_stores t m L"
  shows "\<exists>ks. sorted_keys m ks"
proof -
  from assms obtain tr where rep: "rt_rep t tr" by (auto simp: rt_stores_def rt_inv_def)
  let ?as = "filter (\<lambda>a. \<exists>n i. rt_heap t a = Some n \<and> rn_info n = Some i) (addrs tr)"
  let ?ks = "map (nkey (rt_heap t)) ?as"
  have "sorted_wrt (\<lambda>a b. key_less (nkey (rt_heap t) a) (nkey (rt_heap t) b)) (addrs tr)"
    using rep by (auto simp: rt_rep_def intro: trie_sorted)
  then have "sorted_wrt key_less ?ks" by (simp add: sorted_wrt_map sorted_wrt_filter)
  moreover have "k \<in> set ?ks \<longleftrightarrow> k \<in> dom m" for k
  proof
    assume "k \<in> set ?ks"
    then obtain a n i where "rt_heap t a = Some n" "rn_info n = Some i" "prefix_key (rn_p n) = k" by auto
    then have "rt_node t a k (Some i)" by (auto simp: rt_node_def)
    from rt_node_map [OF assms this] show "k \<in> dom m" by auto
  next
    assume "k \<in> dom m"
    then obtain a i where "rt_node t a k (Some i)" using rt_map_node [OF assms] by blast
    then obtain n where n: "rt_heap t a = Some n" "prefix_key (rn_p n) = k" "rn_info n = Some i"
      by (auto simp: rt_node_def)
    then have "a \<in> set ?as" using rep by (auto simp: rt_rep_def)
    then show "k \<in> set ?ks" using n by force
  qed
  ultimately show ?thesis unfolding sorted_keys_def by blast
qed

lemma sorted_keys_Cons:
  assumes "sorted_wrt key_less ks" "set ks = dom m \<inter> {j. j = k \<or> key_less k j}"
  obtains ks' where "ks = (if m k = None then [] else [k]) @ ks'" "sorted_wrt key_less ks'"
    "set ks' = dom m \<inter> {j. key_less k j}"
proof (cases "m k")
  case None
  then have "dom m \<inter> {j. j = k \<or> key_less k j} = dom m \<inter> {j. key_less k j}" by auto
  with None assms that [of ks] show thesis by simp
next
  case (Some i)
  then have "k \<in> set ks" using assms(2) by auto
  then obtain u ks' where ks: "ks = u @ k # ks'" by (auto simp: in_set_conv_decomp)
  have "u = []"
  proof (rule ccontr)
    assume "u \<noteq> []"
    then have "hd u \<in> set ks" "key_less (hd u) k" using ks assms(1) by (auto simp: sorted_wrt_append)
    then show False using assms(2) key_less_asym by force
  qed
  moreover from this have "set ks' = dom m \<inter> {j. key_less k j}"
    using assms ks Some by (auto simp: sorted_wrt_append set_eq_iff) (metis domI key_less_irrefl)
  ultimately show thesis using ks assms(1) Some that [of ks'] by simp
qed

lemma rt_after_less:
  assumes "rt_inv t" "rt_fewer t' t" "key_less k k'" "rt_node t' b k' v"
  shows "card (rt_after t' k') < card (rt_after t k)"
proof (rule psubset_card_mono [OF rt_after_finite(1) [OF assms(1)]], rule psubsetI)
  show "rt_after t' k' \<subseteq> rt_after t k"
    using assms(2) key_less_trans [OF assms(3)] by (fastforce simp: rt_after_def rt_fewer_def)
  have "b \<notin> rt_after t' k'" using assms(4) by (auto simp: rt_after_def rt_node_def)
  moreover have "b \<in> rt_after t k" using assms(2-4) by (fastforce simp: rt_after_def rt_fewer_def)
  ultimately show "rt_after t' k' \<noteq> rt_after t k" by blast
qed

lemma rt_walk_fold:
  assumes R: "\<And>L s x. R L s x \<Longrightarrow> rt_stores (gt s) (M x) L"
    and pt: "\<And>L L' s x t. R L s x \<Longrightarrow> rt_stores t (M x) L' \<Longrightarrow> R L' (pt t s) x"
    and gtpt: "\<And>L s x t. R L s x \<Longrightarrow> gt (pt t s) = t"
    and F: "\<And>x k j. j \<noteq> k \<Longrightarrow> M (F k x) j = M x j" "\<And>x k. M x k = None \<Longrightarrow> F k x = x"
    and body: "\<And>s x a k. R (add_mset a L) s x \<Longrightarrow> rt_node (gt s) a k (M x k) \<Longrightarrow>
       \<exists>s'. body a s = Inr s' \<and> R (add_mset a L) s' (F k x) \<and> rt_node (gt s') a k (M (F k x) k) \<and>
          rt_fewer (gt s') (gt s)"
  shows "R (add_mset a L) s x \<Longrightarrow> rt_node (gt s) a k (M x k) \<Longrightarrow> sorted_wrt key_less ks \<Longrightarrow>
     set ks = dom (M x) \<inter> {j. j = k \<or> key_less k j} \<Longrightarrow> card (rt_after (gt s) k) < fuel \<Longrightarrow>
     \<exists>s'. rt_walk (Suc fuel) gt pt body (Some a) s = Inr s' \<and> R L s' (fold F ks x)"
proof (induction fuel arbitrary: a k ks s x)
  case 0
  then show ?case by simp
next
  case (Suc fuel)
  from body [OF Suc.prems(1,2)] obtain s1 where s1: "body a s = Inr s1" "R (add_mset a L) s1 (F k x)"
    "rt_node (gt s1) a k (M (F k x) k)" "rt_fewer (gt s1) (gt s)" by blast
  from sorted_keys_Cons [OF Suc.prems(3,4)] obtain ks' where
    ks': "ks = (if M x k = None then [] else [k]) @ ks'" "sorted_wrt key_less ks'"
      "set ks' = dom (M x) \<inter> {j. key_less k j}" .
  have fold: "fold F ks x = fold F ks' (F k x)" using ks'(1) F(2) by auto
  have dm: "dom (M (F k x)) \<inter> {j. key_less k j} = set ks'"
    unfolding ks'(3) using F(1) [of _ k x] by (auto simp: dom_def) (metis key_less_irrefl)+
  from rt_next_law [OF R [OF s1(2)] s1(3)] obtain t' r where
    t': "route_next (gt s1) a = Inr (t', r)" "rt_fewer t' (gt s1)"
      "rt_reached t' (M (F k x)) L {j. key_less k j} r" by blast
  show ?case
  proof (cases r)
    case None
    with t'(3) dm have "ks' = []" "rt_stores t' (M (F k x)) L" by (auto simp: rt_reached_def)
    then show ?thesis
      using s1(1) t'(1) None fold pt [OF s1(2)] by simp
  next
    case (Some b)
    with t'(3) obtain k' where k': "key_less k k'" "rt_stores t' (M (F k x)) (add_mset b L)"
      "rt_node t' b k' (M (F k x) k')" "\<forall>j \<in> dom (M (F k x)) \<inter> {j. key_less k j}. j = k' \<or> key_less k' j"
      by (auto simp: rt_reached_def)
    have set': "set ks' = dom (M (F k x)) \<inter> {j. j = k' \<or> key_less k' j}"
      using dm k'(1,4) key_less_trans [OF k'(1)] by auto
    have few: "rt_fewer t' (gt s)" using s1(4) t'(2) by (fastforce simp: rt_fewer_def)
    have "card (rt_after t' k') < card (rt_after (gt s) k)"
      using R [OF Suc.prems(1)] few k'(1,3) by (intro rt_after_less) (auto simp: rt_stores_def)
    then have "card (rt_after t' k') < fuel" using Suc.prems(5) by simp
    then obtain s' where "rt_walk (Suc fuel) gt pt body (Some b) (pt t' s1) = Inr s'"
      "R L s' (fold F ks' (F k x))"
      using Suc.IH [OF pt [OF s1(2) k'(2)], of k' ks'] k'(3) ks'(2) set' unfolding gtpt [OF s1(2)] by blast
    then show ?thesis using s1(1) t'(1) Some fold by simp
  qed
qed

lemma rt_for_fold:
  assumes R: "\<And>L s x. R L s x \<Longrightarrow> rt_stores (gt s) (M x) L"
    and pt: "\<And>L L' s x t. R L s x \<Longrightarrow> rt_stores t (M x) L' \<Longrightarrow> R L' (pt t s) x"
    and gtpt: "\<And>L s x t. R L s x \<Longrightarrow> gt (pt t s) = t"
    and F: "\<And>x k j. j \<noteq> k \<Longrightarrow> M (F k x) j = M x j" "\<And>x k. M x k = None \<Longrightarrow> F k x = x"
    and body: "\<And>s x a k. R (add_mset a L) s x \<Longrightarrow> rt_node (gt s) a k (M x k) \<Longrightarrow>
       \<exists>s'. body a s = Inr s' \<and> R (add_mset a L) s' (F k x) \<and> rt_node (gt s') a k (M (F k x) k) \<and>
          rt_fewer (gt s') (gt s)"
    and pre: "R L s x" "sorted_keys (M x) ks"
  shows "\<exists>s'. rt_for gt pt body s = Inr s' \<and> R L s' (fold F ks x)"
proof -
  from rt_top_law [OF R [OF pre(1)]] obtain t rn where t: "route_top (gt s) = Inr (t, rn)" "rt_inv t"
    "rt_reached t (M x) L UNIV rn" by blast
  show ?thesis
  proof (cases rn)
    case None
    with t(3) pre(2) have "rt_stores t (M x) L" "ks = []" by (auto simp: rt_reached_def sorted_keys_def)
    then show ?thesis using t(1) None pt [OF pre(1)] by (simp add: rt_for_def)
  next
    case (Some a)
    with t(3) obtain k where k: "rt_stores t (M x) (add_mset a L)" "rt_node t a k (M x k)"
      "\<forall>j \<in> dom (M x). j = k \<or> key_less k j" by (auto simp: rt_reached_def)
    have "R (add_mset a L) (pt t s) x" using pt [OF pre(1)] k(1) by blast
    then have "\<exists>s'. rt_walk (Suc (walk_fuel t)) gt pt body (Some a) (pt t s) = Inr s' \<and> R L s' (fold F ks x)"
    proof (rule rt_walk_fold [where R = R and M = M and F = F and k = k and L = L, rotated 6])
      show "rt_node (gt (pt t s)) a k (M x k)" using k(2) by (simp add: gtpt [OF pre(1)])
      show "sorted_wrt key_less ks" using pre(2) by (simp add: sorted_keys_def)
      show "set ks = dom (M x) \<inter> {j. j = k \<or> key_less k j}" using pre(2) k(3) by (auto simp: sorted_keys_def)
      show "card (rt_after (gt (pt t s)) k) < walk_fuel t" using rt_after_finite(2) [OF t(2)] by (simp add: gtpt [OF pre(1)])
    qed (fact R pt gtpt F body)+
    then show ?thesis using t(1) Some by (simp add: rt_for_def)
  qed
qed

section \<open>The interface\<close>

text \<open>
  What a client may rely on. The lemmas are the idioms of the daemons: look a prefix up and give
  the node back, store under a new prefix, replace, remove, and drop the data of a node that is
  held.
\<close>

locale prefix_store =
  fixes stores :: "'t \<Rightarrow> ('k \<rightharpoonup> 'a) \<Rightarrow> nat multiset \<Rightarrow> bool"
    and node :: "'t \<Rightarrow> nat \<Rightarrow> 'k \<Rightarrow> 'a option \<Rightarrow> bool"
    and find :: "'t \<Rightarrow> 'p \<Rightarrow> ('t \<times> nat option) res"
    and get :: "'t \<Rightarrow> 'p \<Rightarrow> ('t \<times> nat) res"
    and info :: "nat \<Rightarrow> 't \<Rightarrow> 'a option res"
    and put :: "nat \<Rightarrow> 'a option \<Rightarrow> 't \<Rightarrow> 't res"
    and unlock :: "nat \<Rightarrow> 't \<Rightarrow> 't res"
    and key :: "'p \<Rightarrow> 'k" and wf :: "'p \<Rightarrow> bool"
  assumes find_None: "stores t m L \<Longrightarrow> m (key p) = None \<Longrightarrow> find t p = Inr (t, None)"
    and find_Some: "stores t m L \<Longrightarrow> m (key p) = Some i \<Longrightarrow>
      \<exists>t' a. find t p = Inr (t', Some a) \<and> stores t' m (add_mset a L) \<and> node t' a (key p) (Some i)"
    and get_law: "stores t m L \<Longrightarrow> wf p \<Longrightarrow>
      \<exists>t' a. get t p = Inr (t', a) \<and> stores t' m (add_mset a L) \<and> node t' a (key p) (m (key p))"
    and info_law: "node t a k v \<Longrightarrow> info a t = Inr v"
    and put_Some: "stores t m (add_mset a L) \<Longrightarrow> node t a k None \<Longrightarrow>
      \<exists>t'. put a (Some i) t = Inr t' \<and> stores t' (m(k \<mapsto> i)) L"
    and put_None: "stores t m L \<Longrightarrow> node t a k (Some j) \<Longrightarrow>
      \<exists>t'. put a None t = Inr t' \<and> stores t' (m(k := None)) (add_mset a L) \<and> node t' a k None"
    and unlock_law: "stores t m (add_mset a L) \<Longrightarrow> \<exists>t'. unlock a t = Inr t' \<and> stores t' m L \<and>
      (\<forall>b k v. node t b k v \<longrightarrow> v \<noteq> None \<or> b \<in># L \<longrightarrow> node t' b k v)"
begin

lemma peek:
  assumes "stores t m L"
  shows "\<exists>t'. and_then (find t p) (\<lambda>(t, r). case r of
        None \<Rightarrow> Inr (t, None)
      | Some a \<Rightarrow> and_then (info a t) (\<lambda>v. and_then (unlock a t) (\<lambda>t. Inr (t, v)))) =
     Inr (t', m (key p)) \<and> stores t' m L"
proof (cases "m (key p)")
  case None
  with find_None [OF assms] assms show ?thesis by simp
next
  case (Some i)
  from find_Some [OF assms this] obtain t1 a where t1: "find t p = Inr (t1, Some a)"
    "stores t1 m (add_mset a L)" "node t1 a (key p) (Some i)" by blast
  with unlock_law [OF t1(2)] info_law [OF t1(3)] Some show ?thesis by auto
qed

lemma keep_present:
  assumes "stores t m L" "wf p"
  shows "\<exists>t1 a t2. get t p = Inr (t1, a) \<and> info a t1 = Inr (m (key p)) \<and> unlock a t1 = Inr t2 \<and> stores t2 m L"
  using get_law [OF assms] info_law unlock_law by meson

lemma store_new:
  assumes "stores t m L" "wf p" "m (key p) = None"
  shows "\<exists>t1 a t2. get t p = Inr (t1, a) \<and> info a t1 = Inr None \<and> put a (Some i) t1 = Inr t2 \<and>
     stores t2 (m(key p \<mapsto> i)) L"
  using get_law [OF assms(1,2)] info_law put_Some unfolding assms(3) by meson

lemma drop_held:
  assumes "stores t m (add_mset a L)" "node t a k (Some j)"
  shows "\<exists>t1 t2. put a None t = Inr t1 \<and> unlock a t1 = Inr t2 \<and>
     stores t2 (m(k := None)) (add_mset a L) \<and> node t2 a k None"
proof -
  from put_None [OF assms] obtain t1 where t1: "put a None t = Inr t1"
    "stores t1 (m(k := None)) (add_mset a (add_mset a L))" "node t1 a k None" by blast
  with unlock_law [OF t1(2)] show ?thesis by fastforce
qed

lemma replace:
  assumes "stores t m L" "wf p" "m (key p) = Some j"
  shows "\<exists>t1 a t2 t3 t4. get t p = Inr (t1, a) \<and> info a t1 = Inr (Some j) \<and> put a None t1 = Inr t2 \<and>
     unlock a t2 = Inr t3 \<and> put a (Some i) t3 = Inr t4 \<and> stores t4 (m(key p \<mapsto> i)) L"
proof -
  from get_law [OF assms(1,2)] assms(3) obtain t1 a where t1: "get t p = Inr (t1, a)"
    "stores t1 m (add_mset a L)" "node t1 a (key p) (Some j)" by auto
  from drop_held [OF t1(2,3)] obtain t2 t3 where t3: "put a None t1 = Inr t2" "unlock a t2 = Inr t3"
    "stores t3 (m(key p := None)) (add_mset a L)" "node t3 a (key p) None" by blast
  from put_Some [OF t3(3,4), of i] t1(1) t3(1,2) info_law [OF t1(3)] show ?thesis by auto
qed

lemma remove:
  assumes "stores t m L" "m (key p) = Some j"
  shows "\<exists>t1 a t2 t3 t4. find t p = Inr (t1, Some a) \<and> info a t1 = Inr (Some j) \<and> put a None t1 = Inr t2 \<and>
     unlock a t2 = Inr t3 \<and> unlock a t3 = Inr t4 \<and> stores t4 (m(key p := None)) L"
proof -
  from find_Some [OF assms] obtain t1 a where t1: "find t p = Inr (t1, Some a)"
    "stores t1 m (add_mset a L)" "node t1 a (key p) (Some j)" by blast
  from drop_held [OF t1(2,3)] obtain t2 t3 where t3: "put a None t1 = Inr t2" "unlock a t2 = Inr t3"
    "stores t3 (m(key p := None)) (add_mset a L)" by blast
  from unlock_law [OF t3(3)] t1(1) t3(1,2) info_law [OF t1(3)] show ?thesis by auto
qed

end

interpretation rtm: prefix_store rt_stores rt_node route_node_lookup route_node_get info_of set_info
  route_unlock_node prefix_key wf_key
proof
  show "route_node_lookup t p = Inr (t, None)" if "rt_stores t m L" "m (prefix_key p) = None"
    for t :: "'a route_table" and m L p
    using rt_lookup_law [OF that(1), of p] that(2) by simp
  show "\<exists>t' a. route_node_lookup t p = Inr (t', Some a) \<and> rt_stores t' m (add_mset a L) \<and>
      rt_node t' a (prefix_key p) (Some i)" if "rt_stores t m L" "m (prefix_key p) = Some i"
    for t :: "'a route_table" and m L p i
    using rt_lookup_law [OF that(1), of p] that(2) by auto
  show "\<exists>t'. set_info a (Some i) t = Inr t' \<and> rt_stores t' (m(k \<mapsto> i)) L"
    if "rt_stores t m (add_mset a L)" "rt_node t a k None" for t :: "'a route_table" and m a L k i
    using rt_set_law [OF that, of L "Some i"] by (auto simp: data_lock_def)
  show "\<exists>t'. set_info a None t = Inr t' \<and> rt_stores t' (m(k := None)) (add_mset a L) \<and> rt_node t' a k None"
    if "rt_stores t m L" "rt_node t a k (Some j)" for t :: "'a route_table" and m L a k j
    using rt_set_law [OF that, of "add_mset a L" None] by (auto simp: data_lock_def)
  show "\<exists>t' a. route_node_get t p = Inr (t', a) \<and> rt_stores t' m (add_mset a L) \<and>
      rt_node t' a (prefix_key p) (m (prefix_key p))" if "rt_stores t m L" "wf_key p"
    for t :: "'a route_table" and m L p
    using rt_get_law [OF that] .
  show "info_of a t = Inr v" if "rt_node t a k v" for t :: "'a route_table" and a k v
    using info_of_node [OF that] .
  show "\<exists>t'. route_unlock_node a t = Inr t' \<and> rt_stores t' m L \<and>
      (\<forall>b k v. rt_node t b k v \<longrightarrow> v \<noteq> None \<or> b \<in># L \<longrightarrow> rt_node t' b k v)"
    if "rt_stores t m (add_mset a L)" for t :: "'a route_table" and m a L
    using rt_unlock_law [OF that] by blast
qed

end
