(* ===== verification/OspfElection.thy ===== *)
theory OspfElection
  imports RouteMap
begin

text \<open>
  Election of the designated router and its backup (\<^verbatim>\<open>ospfd/ospf_ism.c\<close>). An interface keeps
  its neighbors in a table; the router itself is one of them, the pseudo neighbor \<open>nbr_self\<close>, and
  the designated routers of the interface, \<open>DR (oi)\<close> and \<open>BDR (oi)\<close>, are fields of that
  pseudo neighbor. So an election changes what the next election reads, and the second round of
  \<open>ospf_dr_election\<close> sees the claims of the first.

  Neighbors live in a memory from addresses to structures; \<open>oi->nbrs\<close> is a routing table that
  stores the addresses, with its nodes and locks. Router identifiers and interface addresses are words in host order:
  \<open>memcmp\<close> on the bytes in network order compares them as numbers.
\<close>

section \<open>Neighbors and interfaces\<close>

type_synonym nsm_state = nat
type_synonym ism_state = nat

definition NSM_DependUpon :: nsm_state where "NSM_DependUpon = 0"
definition NSM_Deleted :: nsm_state where "NSM_Deleted = 1"
definition NSM_Down :: nsm_state where "NSM_Down = 2"
definition NSM_Attempt :: nsm_state where "NSM_Attempt = 3"
definition NSM_Init :: nsm_state where "NSM_Init = 4"
definition NSM_TwoWay :: nsm_state where "NSM_TwoWay = 5"
definition NSM_ExStart :: nsm_state where "NSM_ExStart = 6"
definition NSM_Exchange :: nsm_state where "NSM_Exchange = 7"
definition NSM_Loading :: nsm_state where "NSM_Loading = 8"
definition NSM_Full :: nsm_state where "NSM_Full = 9"

lemmas nsm_defs = NSM_DependUpon_def NSM_Deleted_def NSM_Down_def NSM_Attempt_def NSM_Init_def
  NSM_TwoWay_def NSM_ExStart_def NSM_Exchange_def NSM_Loading_def NSM_Full_def

definition ISM_DependUpon :: ism_state where "ISM_DependUpon = 0"
definition ISM_Down :: ism_state where "ISM_Down = 1"
definition ISM_Loopback :: ism_state where "ISM_Loopback = 2"
definition ISM_Waiting :: ism_state where "ISM_Waiting = 3"
definition ISM_PointToPoint :: ism_state where "ISM_PointToPoint = 4"
definition ISM_DROther :: ism_state where "ISM_DROther = 5"
definition ISM_Backup :: ism_state where "ISM_Backup = 6"
definition ISM_DR :: ism_state where "ISM_DR = 7"

lemmas ism_defs = ISM_DependUpon_def ISM_Down_def ISM_Loopback_def ISM_Waiting_def ISM_PointToPoint_def
  ISM_DROther_def ISM_Backup_def ISM_DR_def

record ospf_neighbor =
  n_state :: nsm_state
  n_address :: u32
  n_router_id :: u32
  n_priority :: int
  n_d_router :: u32
  n_bd_router :: u32

text \<open>\<open>dr_adjok\<close> logs the \<open>AdjOK?\<close> events scheduled for neighbors. Both structures have more
  fields in the source; the parts of the development that read them extend these records.\<close>

record 'x ospf_dr_if =
  dr_state :: ism_state
  dr_address :: u32          \<comment> \<open>\<open>oi->address->u.prefix4\<close>\<close>
  dr_router_id :: u32        \<comment> \<open>\<open>oi->ospf->router_id\<close>\<close>
  dr_nbr :: "nat \<rightharpoonup> 'x ospf_neighbor_scheme"
  dr_nbrs :: "nat route_table"
  dr_self :: nat
  dr_adjok :: "nat list"

definition deref_nbr :: "('x, 'y) ospf_dr_if_scheme \<Rightarrow> nat \<Rightarrow> 'x ospf_neighbor_scheme res" where
  "deref_nbr oi p = (case dr_nbr oi p of None \<Rightarrow> Inl NullDeref | Some n \<Rightarrow> Inr n)"

fun deref_all :: "('x, 'y) ospf_dr_if_scheme \<Rightarrow> nat list \<Rightarrow> (nat \<times> 'x ospf_neighbor_scheme) list res" where
  "deref_all oi [] = Inr []"
| "deref_all oi (p # ps) =
     and_then (deref_nbr oi p) (\<lambda>n. and_then (deref_all oi ps) (\<lambda>ns. Inr ((p, n) # ns)))"

definition get_DR :: "('x, 'y) ospf_dr_if_scheme \<Rightarrow> u32 res" where
  "get_DR oi = and_then (deref_nbr oi (dr_self oi)) (\<lambda>n. Inr (n_d_router n))"

definition get_BDR :: "('x, 'y) ospf_dr_if_scheme \<Rightarrow> u32 res" where
  "get_BDR oi = and_then (deref_nbr oi (dr_self oi)) (\<lambda>n. Inr (n_bd_router n))"

definition set_DR :: "u32 \<Rightarrow> ('x, 'y) ospf_dr_if_scheme \<Rightarrow> ('x, 'y) ospf_dr_if_scheme res" where
  "set_DR a oi = and_then (deref_nbr oi (dr_self oi)) (\<lambda>n.
     Inr (oi\<lparr>dr_nbr := (dr_nbr oi)(dr_self oi \<mapsto> n\<lparr>n_d_router := a\<rparr>)\<rparr>))"

definition set_BDR :: "u32 \<Rightarrow> ('x, 'y) ospf_dr_if_scheme \<Rightarrow> ('x, 'y) ospf_dr_if_scheme res" where
  "set_BDR a oi = and_then (deref_nbr oi (dr_self oi)) (\<lambda>n.
     Inr (oi\<lparr>dr_nbr := (dr_nbr oi)(dr_self oi \<mapsto> n\<lparr>n_bd_router := a\<rparr>)\<rparr>))"

definition NBR_IS_DR :: "'x ospf_neighbor_scheme \<Rightarrow> bool" where
  "NBR_IS_DR n \<longleftrightarrow> n_address n = n_d_router n"

definition NBR_IS_BDR :: "'x ospf_neighbor_scheme \<Rightarrow> bool" where
  "NBR_IS_BDR n \<longleftrightarrow> n_address n = n_bd_router n"

section \<open>Election\<close>

fun election_loop :: "(nat \<times> 'x ospf_neighbor_scheme) option \<Rightarrow> (nat \<times> 'x ospf_neighbor_scheme) list \<Rightarrow> (nat \<times> 'x ospf_neighbor_scheme) option" where
  "election_loop m [] = m"
| "election_loop m ((p, nbr) # rs) =
     (case m of
        None \<Rightarrow> election_loop (Some (p, nbr)) rs
      | Some (q, mx) \<Rightarrow>
          if n_priority mx < n_priority nbr then election_loop (Some (p, nbr)) rs
          else if n_priority mx = n_priority nbr \<and> n_router_id mx < n_router_id nbr
               then election_loop (Some (p, nbr)) rs
          else election_loop m rs)"

definition ospf_dr_election_sub :: "(nat \<times> 'x ospf_neighbor_scheme) list \<Rightarrow> (nat \<times> 'x ospf_neighbor_scheme) option" where
  "ospf_dr_election_sub routers = election_loop None routers"

text \<open>The last neighbor of the list whose address is the backup's.\<close>

fun preserve_bdr :: "u32 \<Rightarrow> (nat \<times> 'x ospf_neighbor_scheme) option \<Rightarrow> (nat \<times> 'x ospf_neighbor_scheme) list \<Rightarrow> (nat \<times> 'x ospf_neighbor_scheme) option" where
  "preserve_bdr b m [] = m"
| "preserve_bdr b m ((p, nbr) # rs) = preserve_bdr b (if b = n_address nbr then Some (p, nbr) else m) rs"

definition elected_address :: "(nat \<times> 'x ospf_neighbor_scheme) option \<Rightarrow> u32" where
  "elected_address r = (case r of None \<Rightarrow> 0 | Some (p, n) \<Rightarrow> n_address n)"

definition ospf_elect_dr :: "nat list \<Rightarrow> ('x, 'y) ospf_dr_if_scheme \<Rightarrow> (('x, 'y) ospf_dr_if_scheme \<times> nat option) res" where
  "ospf_elect_dr el_list oi =
     and_then (deref_all oi el_list) (\<lambda>el.
     and_then (get_BDR oi) (\<lambda>b.
       let dr_list = filter (NBR_IS_DR \<circ> snd) el;
           bdr = preserve_bdr b None el;
           dr = (if dr_list \<noteq> [] then ospf_dr_election_sub dr_list else bdr)
       in and_then (set_DR (elected_address dr) oi) (\<lambda>oi. Inr (oi, map_option fst dr))))"

definition ospf_elect_bdr :: "nat list \<Rightarrow> ('x, 'y) ospf_dr_if_scheme \<Rightarrow> (('x, 'y) ospf_dr_if_scheme \<times> nat option) res" where
  "ospf_elect_bdr el_list oi =
     and_then (deref_all oi el_list) (\<lambda>el.
       let no_dr_list = filter (Not \<circ> NBR_IS_DR \<circ> snd) el;
           bdr_list = filter (NBR_IS_BDR \<circ> snd) no_dr_list;
           bdr = (if bdr_list \<noteq> [] then ospf_dr_election_sub bdr_list else ospf_dr_election_sub no_dr_list)
       in and_then (set_BDR (elected_address bdr) oi) (\<lambda>oi. Inr (oi, map_option fst bdr)))"

definition ospf_ism_state :: "('x, 'y) ospf_dr_if_scheme \<Rightarrow> ism_state res" where
  "ospf_ism_state oi =
     and_then (get_DR oi) (\<lambda>d.
     and_then (get_BDR oi) (\<lambda>b.
       Inr (if d = dr_address oi then ISM_DR
            else if b = dr_address oi then ISM_Backup else ISM_DROther)))"

definition eligible :: "'x ospf_neighbor_scheme \<Rightarrow> bool" where
  "eligible n \<longleftrightarrow> n_router_id n \<noteq> 0 \<and> n_priority n > 0 \<and> n_state n \<ge> NSM_TwoWay"

text \<open>\<open>for (rn = route_top (nbrs); rn; rn = route_next (rn)) if ((nbr = rn->info) != NULL) ...\<close>\<close>

definition for_nbrs ::
    "(nat \<Rightarrow> ('x, 'y) ospf_dr_if_scheme \<times> 's \<Rightarrow> (('x, 'y) ospf_dr_if_scheme \<times> 's) res) \<Rightarrow>
     ('x, 'y) ospf_dr_if_scheme \<times> 's \<Rightarrow> (('x, 'y) ospf_dr_if_scheme \<times> 's) res" where
  "for_nbrs body =
     rt_for (\<lambda>(oi, s). dr_nbrs oi) (\<lambda>t (oi, s). (oi\<lparr>dr_nbrs := t\<rparr>, s))
       (\<lambda>rn (oi, s). and_then (info_of rn (dr_nbrs oi)) (\<lambda>info. case info of
          None \<Rightarrow> Inr (oi, s)
        | Some nbr \<Rightarrow> body nbr (oi, s)))"

definition ospf_dr_eligible_routers ::
    "('x, 'y) ospf_dr_if_scheme \<Rightarrow> (('x, 'y) ospf_dr_if_scheme \<times> nat list) res" where
  "ospf_dr_eligible_routers oi =
     for_nbrs (\<lambda>nbr (oi, el_list). and_then (deref_nbr oi nbr) (\<lambda>n.
       Inr (oi, if eligible n then el_list @ [nbr] else el_list))) (oi, [])"

definition ospf_dr_change :: "('x, 'y) ospf_dr_if_scheme \<Rightarrow> ('x, 'y) ospf_dr_if_scheme res" where
  "ospf_dr_change oi =
     and_then (for_nbrs (\<lambda>nbr (oi, evs). and_then (deref_nbr oi nbr) (\<lambda>n.
       Inr (oi, if n_router_id n \<noteq> 0 \<and> n_state n \<ge> NSM_TwoWay \<and> n_router_id n \<noteq> dr_router_id oi
                then evs @ [nbr] else evs))) (oi, []))
       (\<lambda>(oi, evs). Inr (oi\<lparr>dr_adjok := dr_adjok oi @ evs\<rparr>))"

text \<open>One round: the backup is elected before the designated router.\<close>

definition election_round :: "nat list \<Rightarrow> ('x, 'y) ospf_dr_if_scheme \<Rightarrow> (('x, 'y) ospf_dr_if_scheme \<times> ism_state) res" where
  "election_round el_list oi =
     and_then (ospf_elect_bdr el_list oi) (\<lambda>(oi, _).
     and_then (ospf_elect_dr el_list oi) (\<lambda>(oi, _).
     and_then (ospf_ism_state oi) (\<lambda>s. Inr (oi, s))))"

definition ospf_dr_election :: "('x, 'y) ospf_dr_if_scheme \<Rightarrow> (('x, 'y) ospf_dr_if_scheme \<times> ism_state) res" where
  "ospf_dr_election oi =
     and_then (get_DR oi) (\<lambda>old_dr.
     and_then (get_BDR oi) (\<lambda>old_bdr.
     let old_state = dr_state oi in
     and_then (ospf_dr_eligible_routers oi) (\<lambda>(oi, el_list).
     and_then (election_round el_list oi) (\<lambda>(oi, new_state).
     and_then (if new_state \<noteq> old_state \<and> \<not> (new_state = ISM_DROther \<and> old_state < ISM_DROther)
               then election_round el_list oi else Inr (oi, new_state)) (\<lambda>(oi, new_state).
     and_then (get_DR oi) (\<lambda>d.
     and_then (get_BDR oi) (\<lambda>b.
     and_then (if old_dr \<noteq> d \<or> old_bdr \<noteq> b then ospf_dr_change oi else Inr oi) (\<lambda>oi.
       Inr (oi, new_state)))))))))"

section \<open>The best of a list\<close>

text \<open>The order of the election: priority first, then router identifier.\<close>

definition better_eq :: "'x ospf_neighbor_scheme \<Rightarrow> 'x ospf_neighbor_scheme \<Rightarrow> bool" where
  "better_eq n m \<longleftrightarrow> n_priority m < n_priority n \<or> n_priority m = n_priority n \<and> n_router_id m \<le> n_router_id n"

lemma election_loop_max:
  "\<exists>p n. election_loop (Some (q, mx)) rs = Some (p, n) \<and> (p, n) \<in> insert (q, mx) (set rs) \<and>
     (\<forall>(r, m) \<in> insert (q, mx) (set rs). better_eq n m)"
proof (induction rs arbitrary: q mx)
  case (Cons a rs)
  obtain r m where a: "a = (r, m)" by fastforce
  let ?take = "n_priority mx < n_priority m \<or> n_priority mx = n_priority m \<and> n_router_id mx < n_router_id m"
  show ?case
  proof (cases ?take)
    case True
    with Cons.IH [of r m] a obtain p n where "election_loop (Some (q, mx)) (a # rs) = Some (p, n)"
      "(p, n) \<in> insert (r, m) (set rs)" "\<forall>(r', m') \<in> insert (r, m) (set rs). better_eq n m'" by auto
    moreover from this(3) have "better_eq n m" by auto
    with True have "better_eq n mx" by (auto simp: better_eq_def)
    ultimately show ?thesis using a by auto
  next
    case False
    with Cons.IH [of q mx] a obtain p n where "election_loop (Some (q, mx)) (a # rs) = Some (p, n)"
      "(p, n) \<in> insert (q, mx) (set rs)" "\<forall>(r', m') \<in> insert (q, mx) (set rs). better_eq n m'" by auto
    moreover from this(3) have "better_eq n mx" by auto
    with False have "better_eq n m" by (auto simp: better_eq_def)
    ultimately show ?thesis using a by auto
  qed
qed (simp add: better_eq_def)

lemma election_sub_max:
  assumes "rs \<noteq> []"
  shows "\<exists>p n. ospf_dr_election_sub rs = Some (p, n) \<and> (p, n) \<in> set rs \<and> (\<forall>(r, m) \<in> set rs. better_eq n m)"
  using assms election_loop_max by (cases rs) (auto simp: ospf_dr_election_sub_def)

lemma election_sub_Nil [simp]: "ospf_dr_election_sub [] = None"
  by (simp add: ospf_dr_election_sub_def)

lemma preserve_bdr_cases:
  "preserve_bdr b m rs = m \<and> (\<forall>(p, n) \<in> set rs. n_address n \<noteq> b) \<or>
   (\<exists>p n. preserve_bdr b m rs = Some (p, n) \<and> (p, n) \<in> set rs \<and> n_address n = b)"
proof (induction rs arbitrary: m)
  case (Cons a rs)
  obtain p n where a: "a = (p, n)" by fastforce
  show ?case using Cons.IH [of "if b = n_address n then Some (p, n) else m"] a by auto
qed simp

section \<open>Rounds\<close>

text \<open>
  The interface with other values of \<open>DR (oi)\<close> and \<open>BDR (oi)\<close>: the only fields a round
  changes. What a round decides is described over pointers: \<open>nbr_at\<close> reads a neighbor, \<open>best\<close>
  is the winner among some pointers, \<open>claims_dr\<close> and \<open>claims_bdr\<close> are the declarations when
  the router's own are \<open>d\<close> and \<open>b\<close>.
\<close>

definition with_dr :: "u32 \<Rightarrow> u32 \<Rightarrow> ('x, 'y) ospf_dr_if_scheme \<Rightarrow> ('x, 'y) ospf_dr_if_scheme" where
  "with_dr d b oi = oi\<lparr>dr_nbr := (dr_nbr oi)(dr_self oi \<mapsto>
     (the (dr_nbr oi (dr_self oi)))\<lparr>n_d_router := d, n_bd_router := b\<rparr>)\<rparr>"

definition nbr_at :: "('x, 'y) ospf_dr_if_scheme \<Rightarrow> nat \<Rightarrow> 'x ospf_neighbor_scheme" where
  "nbr_at oi p = the (dr_nbr oi p)"

definition el_of :: "('x, 'y) ospf_dr_if_scheme \<Rightarrow> nat list \<Rightarrow> (nat \<times> 'x ospf_neighbor_scheme) list" where
  "el_of oi ps = map (\<lambda>p. (p, nbr_at oi p)) ps"

definition winner :: "('x, 'y) ospf_dr_if_scheme \<Rightarrow> nat list \<Rightarrow> u32" where
  "winner oi ps = elected_address (ospf_dr_election_sub (el_of oi ps))"

definition claims_dr :: "('x, 'y) ospf_dr_if_scheme \<Rightarrow> u32 \<Rightarrow> nat \<Rightarrow> bool" where
  "claims_dr oi d p \<longleftrightarrow> n_address (nbr_at oi p) = (if p = dr_self oi then d else n_d_router (nbr_at oi p))"

definition claims_bdr :: "('x, 'y) ospf_dr_if_scheme \<Rightarrow> u32 \<Rightarrow> nat \<Rightarrow> bool" where
  "claims_bdr oi b p \<longleftrightarrow> n_address (nbr_at oi p) = (if p = dr_self oi then b else n_bd_router (nbr_at oi p))"

definition round_bdr :: "('x, 'y) ospf_dr_if_scheme \<Rightarrow> nat list \<Rightarrow> u32 \<Rightarrow> u32 \<Rightarrow> u32" where
  "round_bdr oi ps d b =
     (let no_dr = filter (\<lambda>p. \<not> claims_dr oi d p) ps; bdrs = filter (claims_bdr oi b) no_dr
      in winner oi (if bdrs \<noteq> [] then bdrs else no_dr))"

definition round_dr :: "('x, 'y) ospf_dr_if_scheme \<Rightarrow> nat list \<Rightarrow> u32 \<Rightarrow> u32 \<Rightarrow> u32" where
  "round_dr oi ps d b =
     (let drs = filter (claims_dr oi d) ps in if drs \<noteq> [] then winner oi drs else round_bdr oi ps d b)"

definition own_state :: "('x, 'y) ospf_dr_if_scheme \<Rightarrow> u32 \<Rightarrow> u32 \<Rightarrow> ism_state" where
  "own_state oi d b = (if d = dr_address oi then ISM_DR else if b = dr_address oi then ISM_Backup else ISM_DROther)"

abbreviation "own_dr oi \<equiv> n_d_router (nbr_at oi (dr_self oi))"
abbreviation "own_bdr oi \<equiv> n_bd_router (nbr_at oi (dr_self oi))"

subsection \<open>The winner\<close>

lemma winner_Nil [simp]: "winner oi [] = 0"
  by (simp add: winner_def el_of_def elected_address_def)

lemma winner_max:
  assumes "ps \<noteq> []"
  shows "\<exists>p \<in> set ps. winner oi ps = n_address (nbr_at oi p) \<and> (\<forall>q \<in> set ps. better_eq (nbr_at oi p) (nbr_at oi q))"
proof -
  have "el_of oi ps \<noteq> []" using assms by (simp add: el_of_def)
  from election_sub_max [OF this] obtain p n where "ospf_dr_election_sub (el_of oi ps) = Some (p, n)"
    "(p, n) \<in> set (el_of oi ps)" "\<forall>(r, m) \<in> set (el_of oi ps). better_eq n m" by blast
  then show ?thesis by (auto simp: el_of_def winner_def elected_address_def)
qed

text \<open>The declarations do not count in the comparison.\<close>

lemma election_loop_map:
  assumes "\<And>p n. (p, n) \<in> set rs \<Longrightarrow> n_priority (f p n) = n_priority n \<and> n_router_id (f p n) = n_router_id n"
    and "\<And>p n. m = Some (p, n) \<Longrightarrow> n_priority (f p n) = n_priority n \<and> n_router_id (f p n) = n_router_id n"
  shows "election_loop (map_option (\<lambda>(p, n). (p, f p n)) m) (map (\<lambda>(p, n). (p, f p n)) rs) =
         map_option (\<lambda>(p, n). (p, f p n)) (election_loop m rs)"
  using assms
proof (induction rs arbitrary: m)
  case (Cons a rs)
  obtain r k where a: "a = (r, k)" by fastforce
  have k: "n_priority (f r k) = n_priority k" "n_router_id (f r k) = n_router_id k"
    using Cons.prems(1) [of r k] a by auto
  have IH: "election_loop (map_option (\<lambda>(p, n). (p, f p n)) m') (map (\<lambda>(p, n). (p, f p n)) rs) =
      map_option (\<lambda>(p, n). (p, f p n)) (election_loop m' rs)" if "m' = m \<or> m' = Some (r, k)" for m'
    using Cons.IH [of m'] Cons.prems a k that by auto
  show ?case
  proof (cases m)
    case None
    then show ?thesis using IH [of "Some (r, k)"] a by simp
  next
    case (Some qx)
    obtain q x where qx: "qx = (q, x)" by fastforce
    have "n_priority (f q x) = n_priority x" "n_router_id (f q x) = n_router_id x"
      using Cons.prems(2) [of q x] Some qx by auto
    then show ?thesis using IH [of "Some (r, k)"] IH [of m] a Some qx k by simp
  qed
qed simp

lemma nbr_at_with_dr:
  "nbr_at (with_dr d b oi) p =
     (if p = dr_self oi then (nbr_at oi p)\<lparr>n_d_router := d, n_bd_router := b\<rparr> else nbr_at oi p)"
  by (simp add: nbr_at_def with_dr_def)

lemma winner_with_dr [simp]: "winner (with_dr d b oi) ps = winner oi ps"
proof -
  let ?f = "\<lambda>p n. if p = dr_self oi then n\<lparr>n_d_router := d, n_bd_router := b\<rparr> else n"
  have "el_of (with_dr d b oi) ps = map (\<lambda>(p, n). (p, ?f p n)) (el_of oi ps)"
    by (simp add: el_of_def nbr_at_with_dr)
  then have "ospf_dr_election_sub (el_of (with_dr d b oi) ps) =
      map_option (\<lambda>(p, n). (p, ?f p n)) (ospf_dr_election_sub (el_of oi ps))"
    using election_loop_map [of "el_of oi ps" ?f None] by (simp add: ospf_dr_election_sub_def)
  then show ?thesis by (auto simp: winner_def elected_address_def split: option.splits)
qed

subsection \<open>What a round computes\<close>

lemma with_dr_simps [simp]:
  "dr_self (with_dr d b oi) = dr_self oi" "dr_nbrs (with_dr d b oi) = dr_nbrs oi"
  "dr_state (with_dr d b oi) = dr_state oi" "dr_address (with_dr d b oi) = dr_address oi"
  "dr_router_id (with_dr d b oi) = dr_router_id oi" "dr_adjok (with_dr d b oi) = dr_adjok oi"
  "with_dr d' b' (with_dr d b oi) = with_dr d' b' oi"
  by (simp_all add: with_dr_def)

lemma dom_with_dr [simp]: "dr_self oi \<in> dom (dr_nbr oi) \<Longrightarrow> dom (dr_nbr (with_dr d b oi)) = dom (dr_nbr oi)"
  by (auto simp: with_dr_def)

lemma with_dr_self: "dr_self oi \<in> dom (dr_nbr oi) \<Longrightarrow> with_dr (own_dr oi) (own_bdr oi) oi = oi"
  by (auto simp: with_dr_def nbr_at_def fun_upd_idem)

lemma claims_with_dr [simp]:
  "NBR_IS_DR (nbr_at (with_dr d b oi) p) = claims_dr oi d p"
  "NBR_IS_BDR (nbr_at (with_dr d b oi) p) = claims_bdr oi b p"
  "n_address (nbr_at (with_dr d b oi) p) = n_address (nbr_at oi p)"
  by (auto simp: NBR_IS_DR_def NBR_IS_BDR_def claims_dr_def claims_bdr_def nbr_at_with_dr)

lemma deref_all_ok: "set ps \<subseteq> dom (dr_nbr oi) \<Longrightarrow> deref_all oi ps = Inr (el_of oi ps)"
  by (induction ps) (auto simp: el_of_def deref_nbr_def nbr_at_def)

lemma filter_claims:
  "filter (NBR_IS_DR \<circ> snd) (el_of (with_dr d b oi) ps) = el_of (with_dr d b oi) (filter (claims_dr oi d) ps)"
  "filter (Not \<circ> NBR_IS_DR \<circ> snd) (el_of (with_dr d b oi) ps) =
     el_of (with_dr d b oi) (filter (\<lambda>p. \<not> claims_dr oi d p) ps)"
  "filter (NBR_IS_BDR \<circ> snd) (el_of (with_dr d b oi) ps) = el_of (with_dr d b oi) (filter (claims_bdr oi b) ps)"
  by (induction ps) (auto simp: el_of_def)

lemma el_of_Nil_iff [simp]: "el_of oi ps = [] \<longleftrightarrow> ps = []"
  by (simp add: el_of_def)

lemma deref_self [simp]:
  "dr_self oi \<in> dom (dr_nbr oi) \<Longrightarrow> deref_nbr (with_dr d b oi) (dr_self oi) = Inr (nbr_at (with_dr d b oi) (dr_self oi))"
  by (simp add: deref_nbr_def with_dr_def nbr_at_def)

lemma u_commute: "n\<lparr>n_bd_router := b, n_d_router := a\<rparr> = n\<lparr>n_d_router := a, n_bd_router := b\<rparr>"
  by (cases n) simp

lemma set_DR_with_dr:
  "dr_self oi \<in> dom (dr_nbr oi) \<Longrightarrow> set_DR a (with_dr d b oi) = Inr (with_dr a b oi)"
  "dr_self oi \<in> dom (dr_nbr oi) \<Longrightarrow> set_BDR a (with_dr d b oi) = Inr (with_dr d a oi)"
  by (simp_all add: set_DR_def set_BDR_def deref_nbr_def with_dr_def u_commute)

lemma get_DR_with_dr:
  "dr_self oi \<in> dom (dr_nbr oi) \<Longrightarrow> get_DR (with_dr d b oi) = Inr d"
  "dr_self oi \<in> dom (dr_nbr oi) \<Longrightarrow> get_BDR (with_dr d b oi) = Inr b"
  by (simp_all add: get_DR_def get_BDR_def nbr_at_with_dr)

lemma preserve_address:
  "elected_address (preserve_bdr b None (el_of oi ps)) = (if \<exists>p \<in> set ps. n_address (nbr_at oi p) = b then b else 0)"
  using preserve_bdr_cases [of b None "el_of oi ps"] by (auto simp: elected_address_def el_of_def)

lemma elect_bdr_round:
  assumes "dr_self oi \<in> dom (dr_nbr oi)" "set ps \<subseteq> dom (dr_nbr oi)"
  shows "\<exists>r. ospf_elect_bdr ps (with_dr d b oi) = Inr (with_dr d (round_bdr oi ps d b) oi, r)"
proof -
  define no_dr where "no_dr = filter (\<lambda>p. \<not> claims_dr oi d p) ps"
  define bdrs where "bdrs = filter (claims_bdr oi b) no_dr"
  have r: "round_bdr oi ps d b = winner (with_dr d b oi) (if bdrs \<noteq> [] then bdrs else no_dr)"
    by (simp add: round_bdr_def no_dr_def bdrs_def Let_def)
  have f: "filter (Not \<circ> NBR_IS_DR \<circ> snd) (el_of (with_dr d b oi) ps) = el_of (with_dr d b oi) no_dr"
    "filter (NBR_IS_BDR \<circ> snd) (el_of (with_dr d b oi) no_dr) = el_of (with_dr d b oi) bdrs"
    by (simp_all only: filter_claims no_dr_def bdrs_def)
  show ?thesis
    using assms unfolding ospf_elect_bdr_def
    by (simp add: deref_all_ok f Let_def set_DR_with_dr r winner_def del: filter_filter winner_with_dr)
qed

lemma round_bdr_cases:
  "round_bdr oi ps d b = 0 \<or> (\<exists>p \<in> set ps. n_address (nbr_at oi p) = round_bdr oi ps d b \<and> \<not> claims_dr oi d p)"
proof -
  define qs where "qs = (let no_dr = filter (\<lambda>p. \<not> claims_dr oi d p) ps; bdrs = filter (claims_bdr oi b) no_dr
      in if bdrs \<noteq> [] then bdrs else no_dr)"
  have "round_bdr oi ps d b = winner oi qs" "set qs \<subseteq> {p \<in> set ps. \<not> claims_dr oi d p}"
    by (auto simp: round_bdr_def qs_def Let_def)
  then show ?thesis using winner_max [of qs oi] by (cases "qs = []") force+
qed

lemma elect_dr_round:
  assumes "dr_self oi \<in> dom (dr_nbr oi)" "set ps \<subseteq> dom (dr_nbr oi)"
  shows "\<exists>r. ospf_elect_dr ps (with_dr d (round_bdr oi ps d b) oi) =
    Inr (with_dr (round_dr oi ps d b) (round_bdr oi ps d b) oi, r)"
proof -
  let ?b = "round_bdr oi ps d b" let ?oi = "with_dr d ?b oi"
  let ?drs = "filter (claims_dr oi d) ps"
  have f: "filter (NBR_IS_DR \<circ> snd) (el_of ?oi ps) = el_of ?oi ?drs"
    by (rule filter_claims)
  have a: "elected_address (if el_of ?oi ?drs \<noteq> [] then ospf_dr_election_sub (el_of ?oi ?drs)
      else preserve_bdr ?b None (el_of ?oi ps)) = round_dr oi ps d b"
    using winner_with_dr [of d ?b oi ?drs] round_bdr_cases [of oi ps d b]
    by (auto simp: round_dr_def Let_def winner_def preserve_address)
  show ?thesis
    using assms a
    by (auto simp: ospf_elect_dr_def deref_all_ok get_DR_with_dr f Let_def set_DR_with_dr split: if_splits)
qed

lemma election_round_eq:
  assumes "dr_self oi \<in> dom (dr_nbr oi)" "set ps \<subseteq> dom (dr_nbr oi)"
  shows "election_round ps (with_dr d b oi) =
    (let d' = round_dr oi ps d b; b' = round_bdr oi ps d b in Inr (with_dr d' b' oi, own_state oi d' b'))"
proof -
  from elect_bdr_round [OF assms, of d b] obtain r1 where
    "ospf_elect_bdr ps (with_dr d b oi) = Inr (with_dr d (round_bdr oi ps d b) oi, r1)" by blast
  moreover from elect_dr_round [OF assms, of d b] obtain r2 where
    "ospf_elect_dr ps (with_dr d (round_bdr oi ps d b) oi) =
      Inr (with_dr (round_dr oi ps d b) (round_bdr oi ps d b) oi, r2)" by blast
  ultimately show ?thesis
    using assms by (simp add: election_round_def ospf_ism_state_def get_DR_with_dr own_state_def Let_def)
qed

section \<open>The election\<close>

text \<open>
  The table stores the addresses \<open>m\<close> of the neighbors with the locks \<open>L\<close> out; \<open>ps\<close>
  are the addresses in the order of the keys, which is the order of the loops.
\<close>

definition dr_if_ok ::
    "(bool list \<rightharpoonup> nat) \<Rightarrow> nat multiset \<Rightarrow> nat list \<Rightarrow> ('x, 'y) ospf_dr_if_scheme \<Rightarrow> bool" where
  "dr_if_ok m L ps oi \<longleftrightarrow> rt_stores (dr_nbrs oi) m L \<and> (\<exists>ks. sorted_keys m ks \<and> ps = map (the \<circ> m) ks) \<and>
     dr_self oi \<in> dom (dr_nbr oi) \<and> set ps \<subseteq> dom (dr_nbr oi)"

lemma for_nbrs_fold:
  assumes "rt_stores (dr_nbrs oi) m L" "sorted_keys m ks"
    and body: "\<And>t p s. p \<in> ran m \<Longrightarrow> body p (oi\<lparr>dr_nbrs := t\<rparr>, s) = Inr (oi\<lparr>dr_nbrs := t\<rparr>, f p s)"
  shows "\<exists>t'. for_nbrs body (oi, s) = Inr (oi\<lparr>dr_nbrs := t'\<rparr>, fold f (map (the \<circ> m) ks) s) \<and> rt_stores t' m L"
proof -
  define R where "R = (\<lambda>L' st (x :: (bool list \<rightharpoonup> nat) \<times> 'c). \<exists>t. st = (oi\<lparr>dr_nbrs := t\<rparr>, snd x) \<and> fst x = m \<and> rt_stores t m L')"
  define F where "F = (\<lambda>k (x :: (bool list \<rightharpoonup> nat) \<times> 'c). (fst x, case fst x k of None \<Rightarrow> snd x | Some p \<Rightarrow> f p (snd x)))"
  have "\<exists>s'. for_nbrs body (oi, s) = Inr s' \<and> R L s' (fold F ks (m, s))"
    unfolding for_nbrs_def
  proof (rule rt_for_fold [where R = R and M = fst and F = F])
    show "sorted_keys (fst (m, s)) ks" using assms(2) by simp
    show "R L (oi, s) (m, s)" using assms(1) by (auto simp: R_def intro!: exI [of _ "dr_nbrs oi"])
    fix st x a k
    assume st: "R (add_mset a L) st x" and n: "rt_node ((\<lambda>(oi, s). dr_nbrs oi) st) a k (fst x k)"
    from st obtain t where t: "st = (oi\<lparr>dr_nbrs := t\<rparr>, snd x)" "fst x = m" "rt_stores t m (add_mset a L)"
      by (auto simp: R_def)
    have "p \<in> ran m" if "m k = Some p" for p using that by (auto simp: ran_def)
    then have "(\<lambda>(oi, s). and_then (info_of a (dr_nbrs oi)) (\<lambda>info. case info of
        None \<Rightarrow> Inr (oi, s) | Some nbr \<Rightarrow> body nbr (oi, s))) st = Inr (oi\<lparr>dr_nbrs := t\<rparr>, snd (F k x))"
      using t n info_of_node [of t a k "m k"] body by (auto simp: F_def split: option.splits)
    then show "\<exists>s'. (\<lambda>(oi, s). and_then (info_of a (dr_nbrs oi)) (\<lambda>info. case info of
        None \<Rightarrow> Inr (oi, s) | Some nbr \<Rightarrow> body nbr (oi, s))) st = Inr s' \<and> R (add_mset a L) s' (F k x) \<and>
        rt_node ((\<lambda>(oi, s). dr_nbrs oi) s') a k (fst (F k x) k) \<and>
        rt_fewer ((\<lambda>(oi, s). dr_nbrs oi) s') ((\<lambda>(oi, s). dr_nbrs oi) st)"
      using t n by (auto simp: R_def F_def rt_fewer_def)
  qed (auto simp: R_def F_def split: option.splits)
  moreover have "fold F ks' (m, s') = (m, fold f (map (the \<circ> m) ks') s')" if "set ks' \<subseteq> dom m" for ks' s'
    using that by (induction ks' arbitrary: s') (auto simp: F_def)
  ultimately show ?thesis using assms(2) by (auto simp: R_def sorted_keys_def)
qed

lemma fold_filter_append: "fold (\<lambda>p s. if P p then s @ [p] else s) ps s = s @ filter P ps"
  by (induction ps arbitrary: s) auto

text \<open>A loop that collects the addresses of some neighbors.\<close>

lemma for_nbrs_collect:
  assumes "dr_if_ok m L ps oi"
    and "\<And>t p s. p \<in> set ps \<Longrightarrow> body p (oi\<lparr>dr_nbrs := t\<rparr>, s) = Inr (oi\<lparr>dr_nbrs := t\<rparr>, if P p then s @ [p] else s)"
  shows "\<exists>t'. for_nbrs body (oi, []) = Inr (oi\<lparr>dr_nbrs := t'\<rparr>, filter P ps) \<and> rt_stores t' m L"
proof -
  from assms(1) obtain ks where ks: "rt_stores (dr_nbrs oi) m L" "sorted_keys m ks" "ps = map (the \<circ> m) ks"
    by (auto simp: dr_if_ok_def)
  have "p \<in> set ps" if "p \<in> ran m" for p using that ks by (force simp: ran_def sorted_keys_def)
  then have "body p (oi\<lparr>dr_nbrs := t\<rparr>, s) = Inr (oi\<lparr>dr_nbrs := t\<rparr>, if P p then s @ [p] else s)" if "p \<in> ran m" for t p s
    using assms(2) that by blast
  from for_nbrs_fold [where body = body and f = "\<lambda>p s. if P p then s @ [p] else s" and s = "[]", OF ks(1,2) this] show ?thesis
    by (simp add: fold_filter_append ks(3))
qed

definition elig :: "('x, 'y) ospf_dr_if_scheme \<Rightarrow> nat list \<Rightarrow> nat list" where
  "elig oi ps = filter (eligible \<circ> nbr_at oi) ps"

definition second_round :: "ism_state \<Rightarrow> ism_state \<Rightarrow> bool" where
  "second_round old new \<longleftrightarrow> new \<noteq> old \<and> \<not> (new = ISM_DROther \<and> old < ISM_DROther)"

text \<open>The addresses recorded by an election among the eligible routers \<open>ps\<close>.\<close>

definition elected :: "('x, 'y) ospf_dr_if_scheme \<Rightarrow> nat list \<Rightarrow> u32 \<times> u32" where
  "elected oi ps =
     (let d = round_dr oi ps (own_dr oi) (own_bdr oi); b = round_bdr oi ps (own_dr oi) (own_bdr oi)
      in if second_round (dr_state oi) (own_state oi d b) then (round_dr oi ps d b, round_bdr oi ps d b) else (d, b))"

definition adjok_targets :: "('x, 'y) ospf_dr_if_scheme \<Rightarrow> nat list \<Rightarrow> nat list" where
  "adjok_targets oi ps = filter (\<lambda>p. n_router_id (nbr_at oi p) \<noteq> 0 \<and> n_state (nbr_at oi p) \<ge> NSM_TwoWay \<and>
     n_router_id (nbr_at oi p) \<noteq> dr_router_id oi) ps"

lemma eligible_routers_eq:
  assumes "dr_if_ok m L ps oi"
  shows "\<exists>t. ospf_dr_eligible_routers oi = Inr (oi\<lparr>dr_nbrs := t\<rparr>, elig oi ps) \<and> rt_stores t m L"
  unfolding ospf_dr_eligible_routers_def elig_def
proof (rule for_nbrs_collect [OF assms])
  fix t p and s :: "nat list"
  assume "p \<in> set ps"
  then have "p \<in> dom (dr_nbr oi)" using assms by (auto simp: dr_if_ok_def)
  then show "(case (oi\<lparr>dr_nbrs := t\<rparr>, s) of (oi, el_list) \<Rightarrow> and_then (deref_nbr oi p) (\<lambda>n.
      Inr (oi, if eligible n then el_list @ [p] else el_list))) =
    Inr (oi\<lparr>dr_nbrs := t\<rparr>, if (eligible \<circ> nbr_at oi) p then s @ [p] else s)"
    by (auto simp: deref_nbr_def nbr_at_def)
qed

lemma adjok_with_dr: "adjok_targets (with_dr d b oi) ps = adjok_targets oi ps"
  unfolding adjok_targets_def with_dr_simps by (intro filter_cong) (auto simp: nbr_at_with_dr)

lemma dr_change_eq:
  assumes "dr_if_ok m L ps oi"
  shows "\<exists>t. ospf_dr_change oi = Inr (oi\<lparr>dr_nbrs := t, dr_adjok := dr_adjok oi @ adjok_targets oi ps\<rparr>) \<and>
    rt_stores t m L"
proof -
  let ?P = "\<lambda>p. n_router_id (nbr_at oi p) \<noteq> 0 \<and> n_state (nbr_at oi p) \<ge> NSM_TwoWay \<and> n_router_id (nbr_at oi p) \<noteq> dr_router_id oi"
  have "\<exists>t. for_nbrs (\<lambda>nbr (oi, evs). and_then (deref_nbr oi nbr) (\<lambda>n.
       Inr (oi, if n_router_id n \<noteq> 0 \<and> n_state n \<ge> NSM_TwoWay \<and> n_router_id n \<noteq> dr_router_id oi
                then evs @ [nbr] else evs))) (oi, []) = Inr (oi\<lparr>dr_nbrs := t\<rparr>, filter ?P ps) \<and> rt_stores t m L"
  proof (rule for_nbrs_collect [OF assms])
    fix t p and s :: "nat list"
    assume "p \<in> set ps"
    then have "p \<in> dom (dr_nbr oi)" using assms by (auto simp: dr_if_ok_def)
    then show "(case (oi\<lparr>dr_nbrs := t\<rparr>, s) of (oi, evs) \<Rightarrow> and_then (deref_nbr oi p) (\<lambda>n.
        Inr (oi, if n_router_id n \<noteq> 0 \<and> n_state n \<ge> NSM_TwoWay \<and> n_router_id n \<noteq> dr_router_id oi then evs @ [p] else evs))) =
      Inr (oi\<lparr>dr_nbrs := t\<rparr>, if ?P p then s @ [p] else s)"
      by (auto simp: deref_nbr_def nbr_at_def)
  qed
  then show ?thesis by (auto simp: ospf_dr_change_def adjok_targets_def)
qed

lemma nbrs_upd_simps [simp]:
  "nbr_at (oi\<lparr>dr_nbrs := t\<rparr>) = nbr_at oi" "with_dr d b (oi\<lparr>dr_nbrs := t\<rparr>) = (with_dr d b oi)\<lparr>dr_nbrs := t\<rparr>"
  "round_dr (oi\<lparr>dr_nbrs := t\<rparr>) = round_dr oi" "round_bdr (oi\<lparr>dr_nbrs := t\<rparr>) = round_bdr oi"
  "own_state (oi\<lparr>dr_nbrs := t\<rparr>) = own_state oi" "adjok_targets (oi\<lparr>dr_nbrs := t\<rparr>) = adjok_targets oi"
proof -
  let ?oi = "oi\<lparr>dr_nbrs := t\<rparr>"
  show n: "nbr_at ?oi = nbr_at oi" "with_dr d b ?oi = (with_dr d b oi)\<lparr>dr_nbrs := t\<rparr>"
    by (auto simp: nbr_at_def with_dr_def)
  then have c: "claims_dr ?oi = claims_dr oi" "claims_bdr ?oi = claims_bdr oi" "winner ?oi = winner oi"
    by (auto simp: claims_dr_def claims_bdr_def winner_def el_of_def fun_eq_iff)
  show b: "round_bdr ?oi = round_bdr oi" by (intro ext) (simp add: round_bdr_def c Let_def)
  show "round_dr ?oi = round_dr oi" by (intro ext) (simp add: round_dr_def c b Let_def)
  show "own_state ?oi = own_state oi" "adjok_targets ?oi = adjok_targets oi"
    using n by (auto simp: own_state_def adjok_targets_def fun_eq_iff)
qed

lemma dr_if_ok_upd: "dr_if_ok m L ps oi \<Longrightarrow> rt_stores t m L' \<Longrightarrow> dr_if_ok m L' ps ((with_dr d b oi)\<lparr>dr_nbrs := t\<rparr>)"
  by (auto simp: dr_if_ok_def with_dr_def)

lemma get_nbrs_upd:
  "get_DR ((with_dr d b oi)\<lparr>dr_nbrs := t\<rparr>) = get_DR (with_dr d b oi)"
  "get_BDR ((with_dr d b oi)\<lparr>dr_nbrs := t\<rparr>) = get_BDR (with_dr d b oi)"
  by (simp_all add: get_DR_def get_BDR_def deref_nbr_def)

lemma rounds_eq:
  assumes "dr_self oi \<in> dom (dr_nbr oi)" "set ps \<subseteq> dom (dr_nbr oi)" "elected oi ps = (d, b)"
  shows "and_then (election_round ps oi) (\<lambda>(oi', s). if s \<noteq> dr_state oi \<and> \<not> (s = ISM_DROther \<and> dr_state oi < ISM_DROther)
      then election_round ps oi' else Inr (oi', s)) = Inr (with_dr d b oi, own_state oi d b)"
proof -
  let ?d1 = "round_dr oi ps (own_dr oi) (own_bdr oi)" let ?b1 = "round_bdr oi ps (own_dr oi) (own_bdr oi)"
  have "election_round ps oi = Inr (with_dr ?d1 ?b1 oi, own_state oi ?d1 ?b1)"
    using election_round_eq [OF assms(1,2), of "own_dr oi" "own_bdr oi"] by (simp add: with_dr_self [OF assms(1)] Let_def)
  then show ?thesis
    using assms(3) by (auto simp: elected_def second_round_def election_round_eq [OF assms(1,2)] Let_def split: if_splits)
qed

lemma ospf_dr_election_eq:
  assumes "dr_if_ok m L ps oi" "elected oi (elig oi ps) = (d, b)"
  shows "\<exists>t. ospf_dr_election oi = Inr ((with_dr d b oi)\<lparr>dr_nbrs := t, dr_adjok := dr_adjok oi @
      (if d \<noteq> own_dr oi \<or> b \<noteq> own_bdr oi then adjok_targets oi ps else [])\<rparr>, own_state oi d b) \<and> rt_stores t m L"
proof -
  let ?d = "own_dr oi" let ?b = "own_bdr oi"
  from eligible_routers_eq [OF assms(1)] obtain t where
    t: "ospf_dr_eligible_routers oi = Inr (oi\<lparr>dr_nbrs := t\<rparr>, elig oi ps)" "rt_stores t m L" by blast
  let ?oi = "oi\<lparr>dr_nbrs := t\<rparr>"
  have dom: "dr_self ?oi \<in> dom (dr_nbr ?oi)" "set (elig oi ps) \<subseteq> dom (dr_nbr ?oi)"
    using assms(1) by (auto simp: dr_if_ok_def elig_def)
  have "elected ?oi (elig oi ps) = (d, b)"
    using assms(2) by (simp add: elected_def Let_def split: if_splits)
  from rounds_eq [OF dom this] have rounds: "and_then (election_round (elig oi ps) ?oi) (\<lambda>(oi', s).
      if s \<noteq> dr_state oi \<and> \<not> (s = ISM_DROther \<and> dr_state oi < ISM_DROther)
      then election_round (elig oi ps) oi' else Inr (oi', s)) = Inr ((with_dr d b oi)\<lparr>dr_nbrs := t\<rparr>, own_state oi d b)"
    by simp
  have get: "get_DR oi = Inr ?d" "get_BDR oi = Inr ?b"
    using dom(1) by (auto simp: get_DR_def get_BDR_def deref_nbr_def nbr_at_def)
  from dr_change_eq [OF dr_if_ok_upd [OF assms(1) t(2), of d b]] obtain t' where
    t': "ospf_dr_change ((with_dr d b oi)\<lparr>dr_nbrs := t\<rparr>) =
      Inr ((with_dr d b oi)\<lparr>dr_nbrs := t', dr_adjok := dr_adjok oi @ adjok_targets oi ps\<rparr>)" "rt_stores t' m L"
    by (auto simp: adjok_with_dr)
  have idle: "(with_dr d b oi)\<lparr>dr_nbrs := t\<rparr> = (with_dr d b oi)\<lparr>dr_nbrs := t, dr_adjok := dr_adjok oi\<rparr>"
    by (simp add: with_dr_def)
  have two: "and_then (election_round el o1) (\<lambda>(o2, s). and_then (if P s then election_round el o2 else Inr (o2, s)) G) =
      and_then (and_then (election_round el o1) (\<lambda>(o2, s). if P s then election_round el o2 else Inr (o2, s))) G"
    for el o1 P and G :: "('a, 'b) ospf_dr_if_scheme \<times> nat \<Rightarrow> 'd res"
    by (simp add: and_then_assoc case_prod_unfold)
  have "ospf_dr_election oi = and_then (if ?d \<noteq> d \<or> ?b \<noteq> b then ospf_dr_change ((with_dr d b oi)\<lparr>dr_nbrs := t\<rparr>)
      else Inr ((with_dr d b oi)\<lparr>dr_nbrs := t\<rparr>)) (\<lambda>oi'. Inr (oi', own_state oi d b))"
    unfolding ospf_dr_election_def get t(1) and_then.simps Let_def prod.case two rounds
    using dom(1) by (simp add: get_nbrs_upd get_DR_with_dr)
  then show ?thesis
    using t' t(2) idle by (cases "d \<noteq> ?d \<or> b \<noteq> ?b") (auto intro: exI [of _ t] exI [of _ t'])
qed

subsection \<open>Designated and backup\<close>

text \<open>
  Only the router itself has the address of the interface, and an interface in state \<open>ISM_DR\<close> has
  recorded itself as the designated router.
\<close>

definition dr_self_ok :: "nat list \<Rightarrow> ('x, 'y) ospf_dr_if_scheme \<Rightarrow> bool" where
  "dr_self_ok ps oi \<longleftrightarrow> dr_address oi \<noteq> 0 \<and> n_address (nbr_at oi (dr_self oi)) = dr_address oi \<and>
     (\<forall>p \<in> set (elig oi ps). n_address (nbr_at oi p) = dr_address oi \<longrightarrow> p = dr_self oi) \<and>
     (dr_state oi = ISM_DR \<longrightarrow> own_dr oi = dr_address oi)"

lemma dr_self_okD:
  assumes "dr_self_ok ps oi"
  shows "dr_address oi \<noteq> 0" "n_address (nbr_at oi (dr_self oi)) = dr_address oi"
    "\<And>p. p \<in> set (elig oi ps) \<Longrightarrow> n_address (nbr_at oi p) = dr_address oi \<Longrightarrow> p = dr_self oi"
    "dr_state oi = ISM_DR \<Longrightarrow> own_dr oi = dr_address oi"
  using assms unfolding dr_self_ok_def by blast+

lemma winner_in: "ps \<noteq> [] \<Longrightarrow> \<exists>p \<in> set ps. winner oi ps = n_address (nbr_at oi p)"
  using winner_max by blast

lemma winner_own:
  assumes "dr_self_ok ps oi" "set qs \<subseteq> set (elig oi ps)" "winner oi qs = dr_address oi"
  shows "dr_self oi \<in> set qs"
proof -
  have "qs \<noteq> []" using dr_self_okD(1) [OF assms(1)] assms(3) by auto
  from winner_in [OF this] obtain p where "p \<in> set qs" "n_address (nbr_at oi p) = dr_address oi"
    using assms(3) by metis
  then show ?thesis using dr_self_okD(3) [OF assms(1), of p] assms(2) by blast
qed

lemma round_bdr_own:
  assumes "dr_self_ok ps oi" "round_bdr oi (elig oi ps) d b = dr_address oi"
  shows "d \<noteq> dr_address oi" "dr_self oi \<in> set (elig oi ps)"
proof -
  have "dr_address oi \<noteq> 0" by (rule dr_self_okD(1) [OF assms(1)])
  with round_bdr_cases [of oi "elig oi ps" d b] assms obtain p where
    p: "p \<in> set (elig oi ps)" "n_address (nbr_at oi p) = dr_address oi" "\<not> claims_dr oi d p" by auto
  have "p = dr_self oi" by (rule dr_self_okD(3) [OF assms(1) p(1,2)])
  with p show "d \<noteq> dr_address oi" "dr_self oi \<in> set (elig oi ps)" by (simp_all add: claims_dr_def)
qed

lemma round_dr_own:
  assumes "dr_self_ok ps oi" "round_dr oi (elig oi ps) d b = dr_address oi" "d \<noteq> dr_address oi"
  shows "filter (claims_dr oi d) (elig oi ps) = []"
proof (rule ccontr)
  assume "filter (claims_dr oi d) (elig oi ps) \<noteq> []"
  with assms have "winner oi (filter (claims_dr oi d) (elig oi ps)) = dr_address oi"
    by (simp add: round_dr_def Let_def)
  from winner_own [OF assms(1) _ this] have "claims_dr oi d (dr_self oi)" by auto
  with assms(3) dr_self_okD(2) [OF assms(1)] show False by (simp add: claims_dr_def)
qed

text \<open>If the router wins both jobs in a round, it won one of them in the round before.\<close>

lemma second_round_not_both:
  fixes oi d b ps
  defines "d1 \<equiv> round_dr oi (elig oi ps) d b" and "b1 \<equiv> round_bdr oi (elig oi ps) d b"
  assumes ok: "dr_self_ok ps oi" and both: "round_dr oi (elig oi ps) d1 b1 = dr_address oi"
    "round_bdr oi (elig oi ps) d1 b1 = dr_address oi"
  shows False
proof -
  let ?s = "dr_self oi" let ?own = "dr_address oi"
  have own: "n_address (nbr_at oi ?s) = ?own" by (rule dr_self_okD(2) [OF ok])
  have d1: "d1 \<noteq> ?own" and s: "?s \<in> set (elig oi ps)" using round_bdr_own [OF ok both(2)] by blast+
  have none: "\<not> claims_dr oi d1 p" if "p \<in> set (elig oi ps)" for p
    using round_dr_own [OF ok both(1) d1] that by (auto simp: filter_empty_conv)
  have none0: "filter (claims_dr oi d) (elig oi ps) = []"
  proof (rule ccontr)
    assume ne: "filter (claims_dr oi d) (elig oi ps) \<noteq> []"
    from winner_in [OF this, of oi] ne obtain p where "p \<in> set (elig oi ps)" "claims_dr oi d p" "d1 = n_address (nbr_at oi p)"
      by (auto simp: d1_def round_dr_def Let_def)
    with none [of p] own d1 show False by (auto simp: claims_dr_def split: if_splits)
  qed
  then have d1b1: "d1 = b1" by (simp add: d1_def b1_def round_dr_def Let_def)
  have all: "filter (\<lambda>p. \<not> claims_dr oi d p) (elig oi ps) = elig oi ps" "filter (\<lambda>p. \<not> claims_dr oi d1 p) (elig oi ps) = elig oi ps"
    using none0 none by (auto simp: filter_id_conv filter_empty_conv)
  have bl1: "filter (claims_bdr oi b1) (elig oi ps) = []"
  proof (rule ccontr)
    assume "filter (claims_bdr oi b1) (elig oi ps) \<noteq> []"
    with both(2) have "winner oi (filter (claims_bdr oi b1) (elig oi ps)) = ?own"
      by (simp add: round_bdr_def all(2) Let_def)
    from winner_own [OF ok _ this] have "claims_bdr oi b1 ?s" by auto
    with own d1 d1b1 show False by (simp add: claims_bdr_def)
  qed
  then have w: "winner oi (elig oi ps) = ?own" using both(2) by (simp add: round_bdr_def all(2) Let_def)
  have "filter (claims_bdr oi b) (elig oi ps) \<noteq> []"
    using w d1 d1b1 by (auto simp: b1_def round_bdr_def all(1) Let_def)
  from winner_in [OF this, of oi] this obtain p where "p \<in> set (elig oi ps)" "claims_bdr oi b p" "b1 = n_address (nbr_at oi p)"
    by (auto simp: b1_def round_bdr_def all(1) Let_def)
  with bl1 own d1 d1b1 show False by (auto simp: claims_bdr_def filter_empty_conv split: if_splits)
qed

lemma elected_not_both:
  assumes "dr_self_ok ps oi" "elected oi (elig oi ps) = (d, b)"
  shows "\<not> (d = dr_address oi \<and> b = dr_address oi)"
proof
  assume both: "d = dr_address oi \<and> b = dr_address oi"
  let ?d1 = "round_dr oi (elig oi ps) (own_dr oi) (own_bdr oi)"
  let ?b1 = "round_bdr oi (elig oi ps) (own_dr oi) (own_bdr oi)"
  show False
  proof (cases "second_round (dr_state oi) (own_state oi ?d1 ?b1)")
    case True
    then show False using second_round_not_both [OF assms(1)] assms(2) both by (auto simp: elected_def Let_def)
  next
    case False
    then have db: "?d1 = dr_address oi" "?b1 = dr_address oi" using assms(2) both by (auto simp: elected_def Let_def)
    with False have "dr_state oi = ISM_DR" by (auto simp: second_round_def own_state_def ism_defs split: if_splits)
    from dr_self_okD(4) [OF assms(1) this] round_bdr_own(1) [OF assms(1) db(2)] show False by blast
  qed
qed

subsection \<open>Who is designated\<close>

lemma better_eq_trans: "better_eq a b \<Longrightarrow> better_eq b c \<Longrightarrow> better_eq a c"
  by (auto simp: better_eq_def)

lemma claims_dr_now: "claims_dr oi (own_dr oi) p = NBR_IS_DR (nbr_at oi p)"
  by (simp add: claims_dr_def NBR_IS_DR_def)

text \<open>A router whose claim wins a round is among the claimants of the next, and nobody joins them.\<close>

lemma next_claimants:
  assumes "dr_self_ok ps oi" "p \<in> set (elig oi ps)" "claims_dr oi d p" "q \<in> set (elig oi ps)"
  shows "claims_dr oi (n_address (nbr_at oi p)) p"
    and "claims_dr oi (n_address (nbr_at oi p)) q \<Longrightarrow> claims_dr oi d q"
proof -
  show "claims_dr oi (n_address (nbr_at oi p)) p" using assms(3) by (simp add: claims_dr_def)
  assume c: "claims_dr oi (n_address (nbr_at oi p)) q"
  show "claims_dr oi d q"
  proof (cases "q = dr_self oi")
    case True
    then have "n_address (nbr_at oi p) = dr_address oi"
      using c dr_self_okD(2) [OF assms(1)] by (simp add: claims_dr_def)
    from dr_self_okD(3) [OF assms(1,2) this] True assms(3) show ?thesis by simp
  next
    case False
    then show ?thesis using c by (simp add: claims_dr_def)
  qed
qed

definition best_claimant :: "nat list \<Rightarrow> ('x, 'y) ospf_dr_if_scheme \<Rightarrow> u32 \<Rightarrow> nat \<Rightarrow> bool" where
  "best_claimant ps oi d p \<longleftrightarrow> p \<in> set (elig oi ps) \<and> claims_dr oi d p \<and>
     (\<forall>q \<in> set (elig oi ps). claims_dr oi d q \<longrightarrow> better_eq (nbr_at oi p) (nbr_at oi q))"

lemma round_dr_claimant:
  assumes "q \<in> set (elig oi ps)" "claims_dr oi d q"
  shows "\<exists>p. best_claimant ps oi d p \<and> round_dr oi (elig oi ps) d b = n_address (nbr_at oi p)"
proof -
  have ne: "filter (claims_dr oi d) (elig oi ps) \<noteq> []" using assms by (auto simp: filter_empty_conv)
  from winner_max [OF this, of oi] ne show ?thesis by (auto simp: best_claimant_def round_dr_def Let_def)
qed

lemma best_claimant_next:
  assumes "dr_self_ok ps oi" "best_claimant ps oi d p" "best_claimant ps oi (n_address (nbr_at oi p)) p'"
  shows "best_claimant ps oi d p'"
proof -
  have p: "p \<in> set (elig oi ps)" "claims_dr oi d p" and p': "p' \<in> set (elig oi ps)"
    and c': "claims_dr oi (n_address (nbr_at oi p)) p'" using assms by (auto simp: best_claimant_def)
  note nc = next_claimants [OF assms(1) p]
  have "claims_dr oi d p'" using nc(2) [OF p' c'] .
  moreover have "better_eq (nbr_at oi p') (nbr_at oi p)"
    using assms(3) p(1) nc(1) [OF p'] by (auto simp: best_claimant_def)
  ultimately show ?thesis
    using assms(2) p' by (auto simp: best_claimant_def intro: better_eq_trans)
qed

lemma elected_claimant:
  assumes "dr_self_ok ps oi" "elected oi (elig oi ps) = (d, b)" "q \<in> set (elig oi ps)" "NBR_IS_DR (nbr_at oi q)"
  shows "\<exists>p. best_claimant ps oi (own_dr oi) p \<and> d = n_address (nbr_at oi p)"
proof -
  let ?d1 = "round_dr oi (elig oi ps) (own_dr oi) (own_bdr oi)"
  let ?b1 = "round_bdr oi (elig oi ps) (own_dr oi) (own_bdr oi)"
  have "claims_dr oi (own_dr oi) q" using assms(4) by (simp add: claims_dr_now)
  from round_dr_claimant [OF assms(3) this] obtain p where
    p: "best_claimant ps oi (own_dr oi) p" "?d1 = n_address (nbr_at oi p)" by blast
  then have pe: "p \<in> set (elig oi ps)" "claims_dr oi (own_dr oi) p" by (auto simp: best_claimant_def)
  from round_dr_claimant [OF pe(1) next_claimants(1) [OF assms(1) pe pe(1)]] obtain p' where
    p': "best_claimant ps oi ?d1 p'" "round_dr oi (elig oi ps) ?d1 ?b1 = n_address (nbr_at oi p')" using p(2) by metis
  have "best_claimant ps oi (own_dr oi) p'" using best_claimant_next [OF assms(1) p(1)] p'(1) p(2) by simp
  with p p' assms(2) show ?thesis by (auto simp: elected_def Let_def split: if_splits)
qed

lemma round_dr_member:
  assumes "elig oi ps \<noteq> []"
  shows "\<exists>p \<in> set (elig oi ps). round_dr oi (elig oi ps) d b = n_address (nbr_at oi p)"
proof (cases "filter (claims_dr oi d) (elig oi ps) = []")
  case True
  then have all: "filter (\<lambda>p. \<not> claims_dr oi d p) (elig oi ps) = elig oi ps"
    by (auto simp: filter_id_conv filter_empty_conv)
  let ?l = "if filter (claims_bdr oi b) (elig oi ps) \<noteq> [] then filter (claims_bdr oi b) (elig oi ps) else elig oi ps"
  have "?l \<noteq> []" using assms by simp
  from winner_in [OF this, of oi] True all show ?thesis
    by (auto simp: round_dr_def round_bdr_def Let_def split: if_splits)
next
  case False
  from winner_in [OF this, of oi] False show ?thesis by (auto simp: round_dr_def Let_def)
qed

lemma elected_member:
  assumes "elected oi (elig oi ps) = (d, b)"
  shows "elig oi ps = [] \<Longrightarrow> d = 0 \<and> b = 0"
    and "elig oi ps \<noteq> [] \<Longrightarrow> \<exists>p \<in> set (elig oi ps). d = n_address (nbr_at oi p)"
  using assms round_dr_member
  by (auto simp: elected_def Let_def round_dr_def [of _ "[]"] round_bdr_def [of _ "[]"] split: if_splits)

lemma own_state_spec:
  assumes "dr_if_ok m L ps oi"
  shows "get_DR ((with_dr d b oi)\<lparr>dr_nbrs := t, dr_adjok := l\<rparr>) = Inr d"
    "get_BDR ((with_dr d b oi)\<lparr>dr_nbrs := t, dr_adjok := l\<rparr>) = Inr b"
    "ospf_ism_state ((with_dr d b oi)\<lparr>dr_nbrs := t, dr_adjok := l\<rparr>) = Inr (own_state oi d b)"
proof -
  have d: "deref_nbr ((with_dr d b oi)\<lparr>dr_nbrs := t, dr_adjok := l\<rparr>) p = deref_nbr (with_dr d b oi) p" for p
    by (simp add: deref_nbr_def)
  show "get_DR ((with_dr d b oi)\<lparr>dr_nbrs := t, dr_adjok := l\<rparr>) = Inr d"
    "get_BDR ((with_dr d b oi)\<lparr>dr_nbrs := t, dr_adjok := l\<rparr>) = Inr b"
    "ospf_ism_state ((with_dr d b oi)\<lparr>dr_nbrs := t, dr_adjok := l\<rparr>) = Inr (own_state oi d b)"
    using assms by (simp_all add: ospf_ism_state_def get_DR_def get_BDR_def d dr_if_ok_def nbr_at_with_dr own_state_def)
qed

section \<open>Properties\<close>

text \<open>C11: an election ends without following a null pointer and returns the state that fits the routers
  it recorded. With no eligible router there is no designated router and no backup; otherwise the
  designated router is an eligible one, and if any eligible router already declares itself designated, it is
  the best of those (priority, then router identifier), also after the second round. The neighbors
  are sent \<open>AdjOK?\<close> exactly when one of the two routers changed.\<close>

theorem ospf_dr_election_result:
  assumes "dr_if_ok m L ps oi" "dr_self_ok ps oi"
  shows "\<exists>oi' s d b. ospf_dr_election oi = Inr (oi', s) \<and> get_DR oi' = Inr d \<and> get_BDR oi' = Inr b \<and>
    ospf_ism_state oi' = Inr s \<and> (elig oi ps = [] \<longrightarrow> d = 0 \<and> b = 0) \<and>
    (elig oi ps \<noteq> [] \<longrightarrow> (\<exists>p \<in> set (elig oi ps). d = n_address (nbr_at oi p))) \<and>
    ((\<exists>q \<in> set (elig oi ps). NBR_IS_DR (nbr_at oi q)) \<longrightarrow>
       (\<exists>p \<in> set (elig oi ps). d = n_address (nbr_at oi p) \<and> NBR_IS_DR (nbr_at oi p) \<and>
         (\<forall>q \<in> set (elig oi ps). NBR_IS_DR (nbr_at oi q) \<longrightarrow> better_eq (nbr_at oi p) (nbr_at oi q)))) \<and>
    dr_adjok oi' = dr_adjok oi @ (if d \<noteq> own_dr oi \<or> b \<noteq> own_bdr oi then adjok_targets oi ps else []) \<and>
    rt_stores (dr_nbrs oi') m L"
proof -
  obtain d b where db: "elected oi (elig oi ps) = (d, b)" by fastforce
  define l where "l = dr_adjok oi @ (if d \<noteq> own_dr oi \<or> b \<noteq> own_bdr oi then adjok_targets oi ps else [])"
  from ospf_dr_election_eq [OF assms(1) db] obtain t where
    t: "ospf_dr_election oi = Inr ((with_dr d b oi)\<lparr>dr_nbrs := t, dr_adjok := l\<rparr>, own_state oi d b)" "rt_stores t m L"
    unfolding l_def by blast
  define oi' where "oi' = (with_dr d b oi)\<lparr>dr_nbrs := t, dr_adjok := l\<rparr>"
  have "ospf_dr_election oi = Inr (oi', own_state oi d b)" "dr_adjok oi' = l" "rt_stores (dr_nbrs oi') m L"
    using t by (simp_all add: oi'_def)
  moreover have "get_DR oi' = Inr d" "get_BDR oi' = Inr b" "ospf_ism_state oi' = Inr (own_state oi d b)"
    using own_state_spec [OF assms(1)] by (simp_all add: oi'_def)
  moreover have "elig oi ps = [] \<longrightarrow> d = 0 \<and> b = 0"
    "elig oi ps \<noteq> [] \<longrightarrow> (\<exists>p \<in> set (elig oi ps). d = n_address (nbr_at oi p))"
    using elected_member [OF db] by blast+
  moreover have "(\<exists>q \<in> set (elig oi ps). NBR_IS_DR (nbr_at oi q)) \<longrightarrow>
       (\<exists>p \<in> set (elig oi ps). d = n_address (nbr_at oi p) \<and> NBR_IS_DR (nbr_at oi p) \<and>
         (\<forall>q \<in> set (elig oi ps). NBR_IS_DR (nbr_at oi q) \<longrightarrow> better_eq (nbr_at oi p) (nbr_at oi q)))"
    using elected_claimant [OF assms(2) db] unfolding best_claimant_def claims_dr_now by blast
  ultimately show ?thesis unfolding l_def by blast
qed

text \<open>C12: the router never elects itself designated router and backup at once, whatever it and its neighbors
  declared before.\<close>

theorem ospf_dr_election_not_both:
  assumes "dr_if_ok m L ps oi" "dr_self_ok ps oi" "ospf_dr_election oi = Inr (oi', s)"
  shows "\<not> (get_DR oi' = Inr (dr_address oi) \<and> get_BDR oi' = Inr (dr_address oi))"
proof -
  obtain d b where db: "elected oi (elig oi ps) = (d, b)" by fastforce
  from ospf_dr_election_eq [OF assms(1) db] obtain t l where "oi' = (with_dr d b oi)\<lparr>dr_nbrs := t, dr_adjok := l\<rparr>"
    using assms(3) by auto
  then have "get_DR oi' = Inr d" "get_BDR oi' = Inr b" using own_state_spec [OF assms(1)] by auto
  then show ?thesis using elected_not_both [OF assms(2) db] by simp
qed

section \<open>Examples\<close>

text \<open>A table of neighbors keyed by their addresses.\<close>

definition addr_key :: "u32 \<Rightarrow> prefix" where
  "addr_key a = \<lparr>family = AF_INET, prefixlen = 32, u_prefix = store32 (htonl a) @ replicate 12 0\<rparr>"

definition put_nbr :: "u32 \<Rightarrow> nat \<Rightarrow> nat route_table \<Rightarrow> nat route_table res" where
  "put_nbr a nbr t = and_then (route_node_get t (addr_key a)) (\<lambda>(t, rn). set_info rn (Some nbr) t)"

lemma put_nbr_law:
  assumes "rt_stores t m L" "m (prefix_key (addr_key a)) = None"
  shows "\<exists>t'. put_nbr a nbr t = Inr t' \<and> rt_stores t' (m(prefix_key (addr_key a) \<mapsto> nbr)) L"
proof -
  have "wf_key (addr_key a)" by (simp add: addr_key_def wf_key_def wf_prefix_def store32_def IPV4_MAX_BITLEN_def)
  from rtm.store_new [OF assms(1) this assms(2), of nbr] show ?thesis
    by (auto simp: put_nbr_def)
qed

definition ex_nbrs :: "nat route_table" where
  "ex_nbrs = (case and_then (put_nbr 10 0 route_table_init) (put_nbr 20 1) of Inr t \<Rightarrow> t | Inl e \<Rightarrow> route_table_init)"

definition key10 :: "bool list" where "key10 = prefix_key (addr_key 10)"
definition key20 :: "bool list" where "key20 = prefix_key (addr_key 20)"

lemma ex_keys: "key_less key10 key20" by code_simp

lemma ex_nbrs_stores: "rt_stores ex_nbrs [key10 \<mapsto> 0, key20 \<mapsto> 1] {#}"
proof -
  have "key10 \<noteq> key20" using ex_keys by auto
  then have n: "[key10 \<mapsto> (0::nat)] key20 = None" by simp
  from put_nbr_law [OF rt_stores_init, of 10 0] obtain t where
    t: "put_nbr 10 0 route_table_init = Inr t" "rt_stores t [key10 \<mapsto> 0] {#}" by (auto simp: key10_def)
  from put_nbr_law [OF t(2) n [unfolded key20_def], of 1] t(1) show ?thesis by (auto simp: ex_nbrs_def key20_def simp del: fun_upd_apply)
qed

text \<open>
  Two routers that have just come up: neither has recorded a designated router, the router's own
  priority is the higher. In the first round it becomes backup and designated router at once; the
  second round gives the other router the backup's job.
\<close>

definition ex_dr_if :: "unit ospf_dr_if" where
  "ex_dr_if = \<lparr>dr_state = ISM_Waiting, dr_address = 10, dr_router_id = 1,
     dr_nbr = [0 \<mapsto> \<lparr>n_state = NSM_TwoWay, n_address = 10, n_router_id = 1, n_priority = 2, n_d_router = 0, n_bd_router = 0\<rparr>,
               1 \<mapsto> \<lparr>n_state = NSM_Full, n_address = 20, n_router_id = 7, n_priority = 1, n_d_router = 0, n_bd_router = 0\<rparr>],
     dr_nbrs = ex_nbrs, dr_self = 0, dr_adjok = []\<rparr>"

text \<open>The same network after the other router has declared itself designated: it stays so.\<close>

definition ex_dr_taken :: "unit ospf_dr_if" where
  "ex_dr_taken = ex_dr_if\<lparr>dr_nbr := (dr_nbr ex_dr_if)(1 \<mapsto> (nbr_at ex_dr_if 1)\<lparr>n_d_router := 20\<rparr>)\<rparr>"

lemmas ex_dr_defs = ex_dr_taken_def ex_dr_if_def nbr_at_def elig_def eligible_def ism_defs nsm_defs

abbreviation "ex_map \<equiv> [key10 \<mapsto> 0, key20 \<mapsto> (1::nat)]"

lemma ex_map_keys: "\<exists>ks. sorted_keys ex_map ks \<and> [0, 1] = map (the \<circ> ex_map) ks"
proof (intro exI conjI)
  have ne: "key10 \<noteq> key20" using ex_keys by auto
  show "sorted_keys ex_map [key10, key20]"
    using ex_keys by (simp add: sorted_keys_def insert_commute)
  show "[0, 1] = map (the \<circ> ex_map) [key10, key20]" using ne by simp
qed

lemma ex_dr_ok: "dr_if_ok ex_map {#} [0, 1] ex_dr_if" "dr_if_ok ex_map {#} [0, 1] ex_dr_taken"
  using ex_nbrs_stores ex_map_keys by (simp_all add: dr_if_ok_def ex_dr_if_def ex_dr_taken_def del: fun_upd_apply)

lemma ex_dr_self_ok: "dr_self_ok [0, 1] ex_dr_if" "dr_self_ok [0, 1] ex_dr_taken"
  by (simp_all add: dr_self_ok_def ex_dr_defs)

lemma ex_dr_election:
  "map_sum id (\<lambda>(oi, s). (get_DR oi, get_BDR oi, s, dr_adjok oi)) (ospf_dr_election ex_dr_if) =
   Inr (Inr 10, Inr 20, ISM_DR, [1])"
  by code_simp

theorem ospf_dr_election_result_witness:
  "\<exists>oi' s. ospf_dr_election ex_dr_taken = Inr (oi', s) \<and> get_DR oi' = Inr 20"
proof -
  have "set (elig ex_dr_taken [0, 1]) = {0, 1}" "NBR_IS_DR (nbr_at ex_dr_taken 1)" "\<not> NBR_IS_DR (nbr_at ex_dr_taken 0)"
    "n_address (nbr_at ex_dr_taken 1) = 20"
    by (simp_all add: ex_dr_defs NBR_IS_DR_def insert_commute)
  then show ?thesis using ospf_dr_election_result [OF ex_dr_ok(2) ex_dr_self_ok(2)] by auto
qed

theorem ospf_dr_election_not_both_witness:
  "\<exists>oi' s. ospf_dr_election ex_dr_if = Inr (oi', s) \<and>
     \<not> (get_DR oi' = Inr (dr_address ex_dr_if) \<and> get_BDR oi' = Inr (dr_address ex_dr_if))"
proof -
  obtain oi' s where "ospf_dr_election ex_dr_if = Inr (oi', s)"
    using ex_dr_election by (cases "ospf_dr_election ex_dr_if") auto
  with ospf_dr_election_not_both [OF ex_dr_ok(1) ex_dr_self_ok(1) this] show ?thesis by blast
qed

end
