(* ===== verification/Checksum.thy ===== *)
theory Checksum
  imports Prelude "HOL-Library.Signed_Division"
begin

unbundle bit_operations_syntax

text \<open>
  \<^verbatim>\<open>lib/checksum.c\<close>: the Internet checksum and the Fletcher checksum, and the places that
  store and verify them: OSPF link state advertisements (\<^verbatim>\<open>ospfd/ospf_lsa.c\<close>,
  \<^verbatim>\<open>ospf6d/ospf6_lsa.c\<close>), OSPF and RSVP packets (\<^verbatim>\<open>ospfd/ospf_packet.c\<close>,
  \<^verbatim>\<open>rsvpd/rsvp_packet.c\<close>) and ISIS link state PDUs (\<^verbatim>\<open>isisd/iso_checksum.c\<close>).

  Packets are byte lists; a pointer into a packet is an offset. A read or write outside the list is
  the fault \<open>OutOfBounds\<close>. The accumulators of the Fletcher checksum are C \<open>int\<close>s: they are
  integers here, and an addition that leaves the range of \<open>int\<close> is the fault \<open>IntOverflow\<close>.
  The \<open>long\<close> accumulator of the Internet checksum cannot overflow for a length that is an
  \<open>int\<close> (it stays below \<open>2 ^ 47\<close>) and is a natural number. 16-bit words are loaded and stored
  as a little-endian host does.
\<close>

section \<open>Memory\<close>

definition load16 :: "u8 \<Rightarrow> u8 \<Rightarrow> u16" where
  "load16 lo hi = ucast lo OR push_bit 8 (ucast hi)"

definition htons :: "u16 \<Rightarrow> u16" where
  "htons w = load16 (ucast (drop_bit 8 w)) (ucast w)"

abbreviation ntohs :: "u16 \<Rightarrow> u16" where
  "ntohs \<equiv> htons"

definition rd8 :: "u8 list \<Rightarrow> nat \<Rightarrow> u8 res" where
  "rd8 bs i = (if i < length bs then Inr (bs ! i) else Inl OutOfBounds)"

definition rd16 :: "u8 list \<Rightarrow> nat \<Rightarrow> u16 res" where
  "rd16 bs i = and_then (rd8 bs i) (\<lambda>a. and_then (rd8 bs (Suc i)) (\<lambda>b. Inr (load16 a b)))"

definition wr8 :: "nat \<Rightarrow> u8 \<Rightarrow> u8 list \<Rightarrow> u8 list res" where
  "wr8 i b bs = (if i < length bs then Inr (bs[i := b]) else Inl OutOfBounds)"

definition wr16 :: "nat \<Rightarrow> u16 \<Rightarrow> u8 list \<Rightarrow> u8 list res" where
  "wr16 i w bs = and_then (wr8 i (ucast w) bs) (wr8 (Suc i) (ucast (drop_bit 8 w)))"

text \<open>\<open>memset\<close> and \<open>memcpy\<close> into a packet.\<close>

definition wr_bytes :: "nat \<Rightarrow> u8 list \<Rightarrow> u8 list \<Rightarrow> u8 list res" where
  "wr_bytes i xs bs =
     (if i + length xs \<le> length bs
      then Inr (take i bs @ xs @ drop (i + length xs) bs) else Inl OutOfBounds)"

section \<open>Internet checksum\<close>

text \<open>The loop over 16-bit words; it returns the position and the number of bytes left.\<close>

fun cksum_loop :: "u8 list \<Rightarrow> nat \<Rightarrow> nat \<Rightarrow> nat \<Rightarrow> (nat \<times> nat \<times> nat) res" where
  "cksum_loop buf ptr (Suc (Suc nbytes)) acc =
     and_then (rd16 buf ptr) (\<lambda>w. cksum_loop buf (ptr + 2) nbytes (acc + unat w))"
| "cksum_loop buf ptr nbytes acc = Inr (ptr, nbytes, acc)"

definition in_cksum :: "u8 list \<Rightarrow> int \<Rightarrow> u16 res" where
  "in_cksum buf nbytes =
     and_then (cksum_loop buf 0 (nat nbytes) 0) (\<lambda>(ptr, nbytes, acc).
     and_then (if nbytes = 1
               then and_then (rd8 buf ptr) (\<lambda>b. Inr (acc + unat (load16 b 0)))
               else Inr acc) (\<lambda>acc.
       let acc = drop_bit 16 acc + (acc AND 0xffff);
           acc = acc + drop_bit 16 acc
       in Inr (NOT (of_nat acc))))"

section \<open>Fletcher checksum\<close>

definition MODX :: nat where "MODX = 4102"

definition FLETCHER_CHECKSUM_VALIDATE :: u16 where "FLETCHER_CHECKSUM_VALIDATE = 0xffff"

definition int_add :: "int \<Rightarrow> int \<Rightarrow> int res" where
  "int_add a b =
     (if - (2 ^ 31) \<le> a + b \<and> a + b < 2 ^ 31 then Inr (a + b) else Inl IntOverflow)"

text \<open>The inner loop over a run of bytes, then the loop that reduces after each run.\<close>

fun fletcher_run :: "u8 list \<Rightarrow> int \<Rightarrow> int \<Rightarrow> (int \<times> int) res" where
  "fletcher_run [] c0 c1 = Inr (c0, c1)"
| "fletcher_run (b # bs) c0 c1 =
     and_then (int_add c0 (uint b)) (\<lambda>c0.
     and_then (int_add c1 c0) (\<lambda>c1. fletcher_run bs c0 c1))"

function fletcher_sums :: "u8 list \<Rightarrow> int \<Rightarrow> int \<Rightarrow> (int \<times> int) res" where
  "fletcher_sums p c0 c1 =
     (if p = [] then Inr (c0, c1)
      else and_then (fletcher_run (take MODX p) c0 c1) (\<lambda>(c0, c1).
             fletcher_sums (drop MODX p) (c0 smod 255) (c1 smod 255)))"
  by pat_completeness auto
termination
  by (relation "measure (\<lambda>(p, _). length p)") (auto simp: MODX_def)

declare fletcher_sums.simps [simp del]

text \<open>
  The check bytes: \<open>(int)((len - offset - 1) * c0 - c1) % 255\<close> is computed in \<open>size_t\<close>, cut to
  an \<open>int\<close> and reduced with the sign of the dividend.
\<close>

definition fletcher_x :: "u64 \<Rightarrow> u16 \<Rightarrow> int \<Rightarrow> int \<Rightarrow> int" where
  "fletcher_x len offset c0 c1 =
     (let w = (len - ucast offset - 1) * of_int c0 - of_int c1;
          x = sint (ucast w :: u32) smod 255
      in if x \<le> 0 then x + 255 else x)"

definition fletcher_y :: "int \<Rightarrow> int \<Rightarrow> int" where
  "fletcher_y c0 x = (let y = 510 - c0 - x in if y > 255 then y - 255 else y)"

definition fletcher_checksum :: "u8 list \<Rightarrow> u64 \<Rightarrow> u16 \<Rightarrow> (u8 list \<times> u16) res" where
  "fletcher_checksum buffer len offset =
     and_then (if offset \<noteq> FLETCHER_CHECKSUM_VALIDATE
               then and_then (ensure (ucast offset < len - 1)) (\<lambda>_. wr16 (unat offset) 0 buffer)
               else Inr buffer) (\<lambda>buffer.
     and_then (if unat len \<le> length buffer then Inr (take (unat len) buffer)
               else Inl OutOfBounds) (\<lambda>p.
     and_then (fletcher_sums p 0 0) (\<lambda>(c0, c1).
       let x = fletcher_x len offset c0 c1;
           y = fletcher_y c0 x
       in if offset = FLETCHER_CHECKSUM_VALIDATE
          then Inr (buffer, of_int (push_bit 8 c1 + c0))
          else and_then (wr8 (unat offset) (of_int x) buffer) (\<lambda>buffer.
               and_then (wr8 (Suc (unat offset)) (of_int y) buffer) (\<lambda>buffer.
                 Inr (buffer, htons (of_int (push_bit 8 x OR (y AND 0xff)))))))))"

section \<open>Users of the Fletcher checksum\<close>

text \<open>
  An OSPF LSA starts with its age (two bytes, not covered), the checksum is at byte 16 and the
  length at byte 18, both in network order; the headers of OSPFv2 and OSPFv3 agree in this.
\<close>

definition lsa_length :: "u8 list \<Rightarrow> u16 res" where
  "lsa_length lsa = and_then (rd16 lsa 18) (\<lambda>w. Inr (ntohs w))"

definition ospf_lsa_checksum :: "u8 list \<Rightarrow> (u8 list \<times> u16) res" where
  "ospf_lsa_checksum lsa =
     and_then (lsa_length lsa) (\<lambda>n.
     and_then (fletcher_checksum (drop 2 lsa) (ucast (n - 2)) 14) (\<lambda>(buffer, c).
       Inr (take 2 lsa @ buffer, c)))"

definition ospf_lsa_checksum_valid :: "u8 list \<Rightarrow> bool res" where
  "ospf_lsa_checksum_valid lsa =
     and_then (lsa_length lsa) (\<lambda>n.
     and_then (fletcher_checksum (drop 2 lsa) (ucast (n - 2)) FLETCHER_CHECKSUM_VALIDATE)
       (\<lambda>(_, c). Inr (c = 0)))"

definition ospf6_lsa_checksum :: "u8 list \<Rightarrow> (u8 list \<times> u16) res" where
  "ospf6_lsa_checksum lsa_header =
     and_then (lsa_length lsa_header) (\<lambda>n.
     and_then (fletcher_checksum (drop 2 lsa_header) (ucast (n - 2)) 14) (\<lambda>(buffer, c).
       Inr (take 2 lsa_header @ buffer, c)))"

definition ospf6_lsa_checksum_valid :: "u8 list \<Rightarrow> bool res" where
  "ospf6_lsa_checksum_valid lsa_header =
     and_then (lsa_length lsa_header) (\<lambda>n.
     and_then (fletcher_checksum (drop 2 lsa_header) (ucast (n - 2)) FLETCHER_CHECKSUM_VALIDATE)
       (\<lambda>(_, c). Inr (c = 0)))"

text \<open>
  \<open>iso_csum_verify\<close> gets the position of the checksum in the buffer; it returns 0 when the
  checksum is right. The recomputation writes into the buffer.
\<close>

definition iso_csum_verify :: "u8 list \<Rightarrow> int \<Rightarrow> nat \<Rightarrow> (u8 list \<times> int) res" where
  "iso_csum_verify buffer len csum =
     and_then (rd16 buffer csum) (\<lambda>w.
       let c0 = w AND 0xff00; c1 = w AND 0x00ff
       in if c0 = 0 \<and> c1 = 0 then Inr (buffer, 0)
          else if c0 = 0 \<or> c1 = 0 then Inr (buffer, 1)
          else and_then (fletcher_checksum buffer (of_int len) (of_nat csum))
                 (\<lambda>(buffer, checksum). and_then (rd16 buffer csum) (\<lambda>w.
                    Inr (buffer, if checksum = w then 0 else 1))))"


section \<open>Facts on memory\<close>

lemma unat_ucast_u16: "unat (ucast (w :: u16) :: u64) = unat w"
  using unsigned_less [of w, where ?'a = nat]
  by (simp add: unsigned_ucast_eq take_bit_nat_eq_self)

lemma u8_bound: "unat (b :: u8) < 256"
  using unsigned_less [of b, where ?'a = nat] by simp

lemma load16_plus: "load16 a b = ucast a + push_bit 8 (ucast b)"
  unfolding load16_def
  by (rule disjunctive_add_eq_or [symmetric]) (auto simp: bit_eq_iff bit_simps dest: bit_imp_le_length)

lemma unat_load16: "unat (load16 a b) = unat a + 256 * unat b"
proof -
  have a: "unat a < 256" and b: "unat b < 256"
    using u8_bound [of a] u8_bound [of b] by simp_all
  have "unat (push_bit 8 (ucast b) :: u16) = 256 * unat b"
    using b by (simp add: push_bit_eq_mult unat_word_ariths unsigned_ucast_eq take_bit_nat_eq_self)
  moreover have "unat (ucast a :: u16) = unat a"
    using a by (simp add: unsigned_ucast_eq take_bit_nat_eq_self)
  ultimately show ?thesis
    using a b by (simp add: load16_plus unat_word_ariths)
qed

lemma ucast_load16 [simp]:
  "ucast (load16 a b) = a" "ucast (drop_bit 8 (load16 a b)) = b"
  by (auto simp: load16_def bit_eq_iff bit_simps dest: bit_imp_le_length)

lemma load16_ucast [simp]: "load16 (ucast w) (ucast (drop_bit 8 w)) = w"
  by (auto simp: load16_def bit_eq_iff bit_simps dest: bit_imp_le_length)

lemma htons_htons [simp]: "htons (htons w) = w"
  by (simp add: htons_def)

lemma load16_eq [simp]: "load16 a b = load16 c d \<longleftrightarrow> a = c \<and> b = d"
  by (metis ucast_load16)

lemma rd8_in [simp]: "i < length bs \<Longrightarrow> rd8 bs i = Inr (bs ! i)"
  by (simp add: rd8_def)

lemma rd16_in [simp]: "Suc i < length bs \<Longrightarrow> rd16 bs i = Inr (load16 (bs ! i) (bs ! Suc i))"
  by (simp add: rd16_def)

lemma wr8_in [simp]: "i < length bs \<Longrightarrow> wr8 i b bs = Inr (bs[i := b])"
  by (simp add: wr8_def)

lemma wr16_in [simp]:
  "Suc i < length bs \<Longrightarrow>
   wr16 i w bs = Inr (bs[i := ucast w, Suc i := ucast (drop_bit 8 w)])"
  by (simp add: wr16_def)

section \<open>The Internet checksum is the ones' complement sum\<close>

text \<open>
  The sum of the 16-bit words of a packet, an odd last byte filled up with zero, and its reduction
  to 16 bits in ones' complement arithmetic: a representative of the residue class modulo
  \<open>2 ^ 16 - 1\<close>, zero only for the sum zero.
\<close>

fun words_sum :: "u8 list \<Rightarrow> nat" where
  "words_sum (a # b # bs) = unat a + 256 * unat b + words_sum bs"
| "words_sum [a] = unat a"
| "words_sum [] = 0"

definition oc_sum :: "nat \<Rightarrow> nat" where
  "oc_sum s = (if s = 0 then 0 else (s - 1) mod 65535 + 1)"

lemma oc_sum_le: "oc_sum s \<le> 65535"
  using mod_less_divisor [of 65535 "s - 1"] unfolding oc_sum_def by (auto simp: less_Suc_eq_le)

lemma oc_sum_shift: "0 < s \<Longrightarrow> oc_sum (65535 * h + s) = oc_sum s"
  by (cases s) (simp_all add: oc_sum_def)

lemma oc_sum_small: "s \<le> 65535 \<Longrightarrow> oc_sum s = s"
  by (auto simp: oc_sum_def)

lemma oc_sum_once: "65536 \<le> s \<Longrightarrow> s \<le> 131070 \<Longrightarrow> oc_sum s = s - 65535"
  using oc_sum_shift [of "s - 65535" 1] oc_sum_small [of "s - 65535"] by simp

lemma fold_carries:
  fixes s :: nat
  assumes "s < 2 ^ 32"
  defines "t \<equiv> drop_bit 16 s + (s AND 0xffff)"
  shows "(of_nat (t + drop_bit 16 t) :: u16) = of_nat (oc_sum s)"
proof -
  define h l where "h = s div 65536" and "l = s mod 65536"
  have m: "s AND 0xffff = l"
    using take_bit_eq_mask [of 16 s] by (simp add: take_bit_eq_mod mask_eq_exp_minus_1 l_def)
  have t: "t = h + l" and hl: "h < 65536" "l < 65536" "s = 65536 * h + l"
    using assms(1) by (simp_all add: t_def m drop_bit_eq_div h_def l_def)
  have oc: "oc_sum s = oc_sum t"
    using oc_sum_shift [of t h] by (cases "t = 0") (simp_all add: t hl(3) algebra_simps)
  show ?thesis
  proof (cases "t < 65536")
    case True
    then show ?thesis by (simp add: oc oc_sum_small drop_bit_eq_div)
  next
    case False
    then have "t + drop_bit 16 t = oc_sum t + 2 ^ 16"
      using hl oc_sum_once [of t] by (simp add: t drop_bit_eq_div)
    then show ?thesis by (simp add: oc)
  qed
qed

lemma words_sum_bound: "words_sum bs \<le> 65535 * ((length bs + 1) div 2)"
proof (induction bs rule: words_sum.induct)
  case (1 a b bs)
  then show ?case
    using u8_bound [of a] u8_bound [of b] by simp
next
  case (2 a)
  then show ?case
    using u8_bound [of a] by simp
qed simp


lemma take_drop_two:
  "Suc i < length bs \<Longrightarrow>
   take (Suc (Suc n)) (drop i bs) = bs ! i # bs ! Suc i # take n (drop (Suc (Suc i)) bs)"
  by (simp add: Cons_nth_drop_Suc [symmetric] flip: Cons_nth_drop_Suc)

lemma cksum_loop_words:
  "ptr + n \<le> length buf \<Longrightarrow>
   \<exists>ptr' n' acc'. cksum_loop buf ptr n acc = Inr (ptr', n', acc') \<and>
     (if n' = 1 then and_then (rd8 buf ptr') (\<lambda>b. Inr (acc' + unat (load16 b 0))) else Inr acc')
       = Inr (acc + words_sum (take n (drop ptr buf)))"
proof (induction buf ptr n acc rule: cksum_loop.induct)
  case (1 buf ptr n acc)
  then show ?case
    using take_drop_two [of ptr buf n] by (simp add: unat_load16 add.assoc)
qed (simp_all add: unat_load16 take_Suc_conv_app_nth)

lemma in_cksum_words:
  assumes "n \<le> length buf" "n \<le> 131072"
  shows "in_cksum buf (int n) = Inr (NOT (of_nat (oc_sum (words_sum (take n buf)))))"
proof -
  have "words_sum (take n buf) \<le> 65535 * ((n + 1) div 2)"
    using words_sum_bound [of "take n buf"] assms by simp
  also have "\<dots> < 2 ^ 32"
    using assms(2) by simp
  finally have "words_sum (take n buf) < 2 ^ 32" .
  then show ?thesis
    using cksum_loop_words [of 0 n buf 0] assms(1) fold_carries [of "words_sum (take n buf)"]
    by (auto simp: in_cksum_def Let_def)
qed

lemma words_sum_update:
  "even k \<Longrightarrow> Suc k < length bs \<Longrightarrow>
   words_sum (bs[k := a, Suc k := b]) + unat (load16 (bs ! k) (bs ! Suc k)) =
   words_sum bs + unat (load16 a b)"
proof (induction bs arbitrary: k rule: words_sum.induct)
  case (1 x y bs)
  show ?case
  proof (cases k)
    case 0
    then show ?thesis by (simp add: unat_load16)
  next
    case (Suc j)
    then obtain i where "k = Suc (Suc i)" "even i"
      using "1.prems" by (cases j) auto
    then show ?thesis using 1 by simp
  qed
qed simp_all

lemma unat_not_of_nat:
  assumes "m \<le> 65535"
  shows "unat (NOT (of_nat m) :: u16) = 65535 - m"
proof -
  have m: "unat (of_nat m :: u16) = m"
    using assms by (simp add: unat_of_nat)
  have "NOT (of_nat m) = (- 1 :: u16) - of_nat m"
    by (simp add: not_eq_complement)
  moreover have "unat ((- 1 :: u16) - of_nat m) = unat (- 1 :: u16) - unat (of_nat m :: u16)"
    by (rule unat_sub) simp
  ultimately show ?thesis
    by (simp add: m unsigned_minus_1_eq_mask mask_eq_exp_minus_1)
qed

lemma in_cksum_zero_iff:
  assumes "n \<le> length buf" "n \<le> 131072"
  shows "in_cksum buf (int n) = Inr 0 \<longleftrightarrow> oc_sum (words_sum (take n buf)) = 65535"
proof -
  have "(NOT (of_nat m) = (0 :: u16)) = (m = 65535)" if "m \<le> 65535" for m
    using that unat_not_of_nat [of m] by (simp flip: unat_eq_zero)
  then show ?thesis
    using in_cksum_words [OF assms] oc_sum_le by auto
qed

lemma oc_sum_65535: "oc_sum s = 65535 \<longleftrightarrow> 0 < s \<and> 65535 dvd s"
proof (cases s)
  case (Suc m)
  have "m mod 65535 = 65534 \<longleftrightarrow> Suc m mod 65535 = 0"
    by (simp add: mod_Suc)
  then show ?thesis
    by (simp add: Suc oc_sum_def dvd_eq_mod_eq_0)
qed (simp add: oc_sum_def)

text \<open>Stored over a zero field at an even offset, the checksum makes the sum of the packet vanish.\<close>

lemma in_cksum_store:
  assumes "n \<le> length buf" "n \<le> 131072" "even k" "Suc k < n"
    and z: "buf ! k = 0" "buf ! Suc k = 0"
    and c: "in_cksum buf (int n) = Inr c"
  shows "in_cksum (buf[k := ucast c, Suc k := ucast (drop_bit 8 c)]) (int n) = Inr 0"
proof -
  let ?p = "take n buf" and ?q = "take n (buf[k := ucast c, Suc k := ucast (drop_bit 8 c)])"
  have q: "?q = ?p[k := ucast c, Suc k := ucast (drop_bit 8 c)]"
    using assms(4) by (simp add: take_update_swap)
  have c': "c = NOT (of_nat (oc_sum (words_sum ?p)))"
    using c in_cksum_words [OF assms(1,2)] by simp
  have "unat c = 65535 - oc_sum (words_sum ?p)"
    using oc_sum_le [of "words_sum ?p"]
    by (simp add: c' unat_not_of_nat)
  then have s: "words_sum ?q = words_sum ?p + (65535 - oc_sum (words_sum ?p))"
    using words_sum_update [of k ?p "ucast c" "ucast (drop_bit 8 c)"] assms z
    by (simp add: q unat_load16 [of 0 0])
  have "65535 dvd words_sum ?q"
  proof (cases "words_sum ?p = 0")
    case False
    define m where "m = words_sum ?p - 1"
    have "words_sum ?q = m + 65535 - m mod 65535"
      using s False mod_less_divisor [of 65535 m] by (simp add: oc_sum_def m_def)
    also have "\<dots> = 65535 * (m div 65535 + 1)"
      using minus_mod_eq_mult_div [of m 65535] mod_less_eq_dividend [of m 65535] by simp
    finally show ?thesis by simp
  qed (simp add: s oc_sum_def)
  moreover have "0 < words_sum ?q"
    using s oc_sum_le [of "words_sum ?p"] by (cases "words_sum ?p") (simp_all add: oc_sum_def)
  ultimately show ?thesis
    using in_cksum_zero_iff [of n "buf[k := ucast c, Suc k := ucast (drop_bit 8 c)]"] assms
    by (simp add: oc_sum_65535)
qed


section \<open>The Fletcher sums\<close>

text \<open>
  The two sums of ISO 8473 over the bytes \<open>a\<^sub>1 .. a\<^sub>L\<close>: the sum of the bytes and the sum of
  \<open>(L - i + 1) * a\<^sub>i\<close>.
\<close>

definition byte_sum :: "u8 list \<Rightarrow> int" where
  "byte_sum bs = sum_list (map uint bs)"

fun weighted_sum :: "u8 list \<Rightarrow> int" where
  "weighted_sum [] = 0"
| "weighted_sum (b # bs) = (int (length bs) + 1) * uint b + weighted_sum bs"

lemma byte_sum_simps [simp]:
  "byte_sum [] = 0" "byte_sum (b # bs) = uint b + byte_sum bs"
  "byte_sum (xs @ ys) = byte_sum xs + byte_sum ys"
  by (simp_all add: byte_sum_def)

lemma weighted_sum_append:
  "weighted_sum (xs @ ys) = weighted_sum xs + int (length ys) * byte_sum xs + weighted_sum ys"
  by (induction xs) (simp_all add: algebra_simps)

lemma byte_sum_update:
  "i < length bs \<Longrightarrow> byte_sum (bs[i := v]) = byte_sum bs - uint (bs ! i) + uint v"
  by (induction bs arbitrary: i) (auto split: nat.splits)

lemma weighted_sum_update:
  "i < length bs \<Longrightarrow>
   weighted_sum (bs[i := v]) = weighted_sum bs + int (length bs - i) * (uint v - uint (bs ! i))"
  by (induction bs arbitrary: i) (auto split: nat.splits simp: algebra_simps)

lemma u8_uint: "0 \<le> uint (b :: u8)" "uint (b :: u8) \<le> 255"
  using uint_lt2p [of b] by simp_all

text \<open>
  No overflow within a run: the accumulators stay below the quadratic bound that \<open>MODX\<close> bytes
  reach from reduced starting values, \<open>2146931677 < 2 ^ 31\<close>.
\<close>

lemma fletcher_run_sums:
  "0 \<le> c0 \<Longrightarrow> 0 \<le> c1 \<Longrightarrow>
   2 * c1 + 2 * int (length bs) * c0 + 255 * (int (length bs) * (int (length bs) + 1)) < 2 ^ 32 \<Longrightarrow>
   fletcher_run bs c0 c1 =
     Inr (c0 + byte_sum bs, c1 + int (length bs) * c0 + weighted_sum bs)"
proof (induction bs arbitrary: c0 c1)
  case (Cons b bs)
  define u where "u = uint b"
  let ?m = "int (length bs)" and ?d = "c0 + u"
  have m: "0 \<le> ?m" and u: "0 \<le> u" "u \<le> 255"
    using u8_uint [of b] by (simp_all add: u_def)
  have "2 * (?m + 1) * u \<le> 2 * (?m + 1) * 255"
    using u m by (intro mult_left_mono) simp_all
  then have bound: "2 * (c1 + ?d) + 2 * ?m * ?d + 255 * (?m * (?m + 1)) < 2 ^ 32"
    using Cons.prems(3) by (simp add: algebra_simps)
  have "0 \<le> 2 * ?m * ?d + 255 * (?m * (?m + 1))"
    using m u Cons.prems(1) by simp
  then have "c1 + ?d < 2 ^ 31"
    using bound by simp
  then have "int_add c0 (uint b) = Inr ?d" "int_add c1 ?d = Inr (c1 + ?d)"
    using u Cons.prems(1,2) by (simp_all add: int_add_def flip: u_def)
  then show ?case
    using Cons.IH [of ?d "c1 + ?d"] Cons.prems(1,2) u bound
    by (simp add: algebra_simps flip: u_def)
qed simp

lemma fletcher_run_MODX:
  assumes "0 \<le> c0" "c0 < 255" "0 \<le> c1" "c1 < 255" "length bs \<le> MODX"
  shows "fletcher_run bs c0 c1 =
     Inr (c0 + byte_sum bs, c1 + int (length bs) * c0 + weighted_sum bs)"
proof (rule fletcher_run_sums [OF assms(1,3)])
  let ?m = "int (length bs)"
  have m: "0 \<le> ?m" "?m \<le> 4102"
    using assms(5) by (simp_all add: MODX_def)
  have "?m * c0 \<le> 4102 * 254"
    using m assms(1,2) by (intro mult_mono) simp_all
  moreover have "?m * (?m + 1) \<le> 4102 * 4103"
    using m by (intro mult_mono) simp_all
  ultimately show "2 * c1 + 2 * ?m * c0 + 255 * (?m * (?m + 1)) < 2 ^ 32"
    using assms(4) by simp
qed

lemma byte_sum_nonneg: "0 \<le> byte_sum bs"
  by (induction bs) simp_all

lemma weighted_sum_nonneg: "0 \<le> weighted_sum bs"
  by (induction bs) simp_all

lemma fletcher_sums_eq:
  "0 \<le> c0 \<Longrightarrow> c0 < 255 \<Longrightarrow> 0 \<le> c1 \<Longrightarrow> c1 < 255 \<Longrightarrow>
   fletcher_sums p c0 c1 =
     Inr ((c0 + byte_sum p) mod 255, (c1 + int (length p) * c0 + weighted_sum p) mod 255)"
proof (induction p c0 c1 rule: fletcher_sums.induct)
  case (1 p c0 c1)
  show ?case
  proof (cases "p = []")
    case False
    let ?q = "take MODX p" and ?r = "drop MODX p"
    let ?d0 = "c0 + byte_sum ?q" and ?d1 = "c1 + int (length ?q) * c0 + weighted_sum ?q"
    have run: "fletcher_run ?q c0 c1 = Inr (?d0, ?d1)"
      by (rule fletcher_run_MODX [OF "1.prems"]) simp
    have nn: "0 \<le> ?d0" "0 \<le> ?d1"
      using "1.prems" byte_sum_nonneg [of ?q] weighted_sum_nonneg [of ?q] by simp_all
    have smod: "?d0 smod 255 = ?d0 mod 255" "?d1 smod 255 = ?d1 mod 255"
      using nn by (simp_all add: smod_mod_positive)
    have "fletcher_sums p c0 c1 = fletcher_sums ?r (?d0 smod 255) (?d1 smod 255)"
      using False by (subst fletcher_sums.simps) (simp add: run)
    also have "\<dots> = Inr ((?d0 mod 255 + byte_sum ?r) mod 255,
        (?d1 mod 255 + int (length ?r) * (?d0 mod 255) + weighted_sum ?r) mod 255)"
      unfolding smod by (rule "1.IH" [OF False run refl, unfolded smod]) simp_all
    also have "(?d0 mod 255 + byte_sum ?r) mod 255 = (c0 + byte_sum (?q @ ?r)) mod 255"
      by (simp add: mod_simps algebra_simps del: append_take_drop_id)
    also have "(?d1 mod 255 + int (length ?r) * (?d0 mod 255) + weighted_sum ?r) mod 255 =
        (?d1 + int (length ?r) * ?d0 + weighted_sum ?r) mod 255"
      by (intro mod_add_cong mod_mult_cong) simp_all
    also have "?d1 + int (length ?r) * ?d0 + weighted_sum ?r =
        c1 + int (length (?q @ ?r)) * c0 + weighted_sum (?q @ ?r)"
      by (simp only: weighted_sum_append length_append of_nat_add) (simp add: algebra_simps)
    finally show ?thesis by simp
  next
    case True
    then show ?thesis using "1.prems" by (simp add: fletcher_sums.simps)
  qed
qed


section \<open>The check bytes\<close>

lemma smod_255:
  fixes k :: int
  shows "k smod 255 mod 255 = k mod 255" "- 255 < k smod 255" "k smod 255 < 255"
  using mod_mult_self2 [of "k smod 255" 255 "k sdiv 255"] smod_int_range [where a = k and b = 255]
  by (simp_all add: smod_mult_sdiv_eq)

lemma sint_ucast_of_int:
  assumes "- (2 ^ 31) \<le> k" "k < 2 ^ 31"
  shows "sint (ucast (of_int k :: u64) :: u32) = k"
proof -
  have "ucast (of_int k :: u64) = (of_int k :: u32)"
    by (simp add: bit_eq_iff bit_simps)
  then show ?thesis
    using assms by (simp add: sint_sbintrunc' signed_take_bit_int_eq_self)
qed

lemma fletcher_x_facts:
  assumes o: "Suc (unat off) < unat len" and n: "unat len < 2 ^ 23"
    and c: "0 \<le> c0" "c0 < 255" "0 \<le> c1" "c1 < 255"
  shows "1 \<le> fletcher_x len off c0 c1" "fletcher_x len off c0 c1 \<le> 255"
    and "fletcher_x len off c0 c1 mod 255 =
         ((int (unat len) - int (unat off) - 1) * c0 - c1) mod 255"
proof -
  let ?l = "int (unat len) - int (unat off) - 1"
  define a b where ab: "a = unat len" "b = unat off"
  have l: "0 \<le> ?l" "?l < 2 ^ 23"
    using o n by (simp_all flip: ab)
  have "len - ucast off - 1 = of_int ?l"
    by simp
  then have w: "(len - ucast off - 1) * of_int c0 - of_int c1 = (of_int (?l * c0 - c1) :: u64)"
    by (simp only: of_int_diff of_int_mult)
  have "0 \<le> ?l * c0" "?l * c0 \<le> 2 ^ 23 * 254"
    using l c by (simp, intro mult_mono) simp_all
  then have s: "sint (ucast ((len - ucast off - 1) * of_int c0 - of_int c1 :: u64) :: u32) = ?l * c0 - c1"
    unfolding w using c by (intro sint_ucast_of_int) simp_all
  define k where "k = ?l * c0 - c1"
  have x: "fletcher_x len off c0 c1 = (if k smod 255 \<le> 0 then k smod 255 + 255 else k smod 255)"
    by (simp add: fletcher_x_def Let_def s k_def)
  show "1 \<le> fletcher_x len off c0 c1" "fletcher_x len off c0 c1 \<le> 255"
    using smod_255 [of k] by (simp_all add: x)
  show "fletcher_x len off c0 c1 mod 255 = k mod 255"
    using smod_255(1) [of k] by (simp add: x)
qed

lemma fletcher_y_facts:
  assumes "0 \<le> c0" "c0 < 255" "1 \<le> x" "x \<le> 255"
  shows "1 \<le> fletcher_y c0 x" "fletcher_y c0 x \<le> 255"
    and "fletcher_y c0 x mod 255 = (- c0 - x) mod 255"
  using assms mod_add_self1 [of 255 "- c0 - x"] mod_add_self1 [of 255 "255 - c0 - x"]
  by (simp_all add: fletcher_y_def Let_def algebra_simps)

lemma uint_of_int_u8: "0 \<le> x \<Longrightarrow> x \<le> 255 \<Longrightarrow> uint (of_int x :: u8) = x"
  by (simp add: uint_word_of_int)

lemma htons_check_bytes:
  "htons (of_int (push_bit 8 x OR (y AND 0xff))) = load16 (of_int x) (of_int y)"
proof -
  have m: "(0xff :: int) = mask 8"
    by (simp add: mask_eq_exp_minus_1)
  have "(of_int (push_bit 8 x OR (y AND 0xff)) :: u16) = load16 (of_int y) (of_int x)"
    unfolding m by (auto simp: load16_def bit_eq_iff bit_simps)
  then show ?thesis
    by (simp add: htons_def)
qed

lemma check_bytes_cancel:
  fixes l c0 c1 x y s w :: int
  assumes c0: "c0 = s mod 255" and c1: "c1 = w mod 255"
    and x: "x mod 255 = ((n - k - 1) * c0 - c1) mod 255" and y: "y mod 255 = (- c0 - x) mod 255"
  shows "(s + x + y) mod 255 = 0" "(w + (n - k) * x + (n - k - 1) * y) mod 255 = 0"
proof -
  have d: "255 dvd s - c0" "255 dvd w - c1" "255 dvd x - ((n - k - 1) * c0 - c1)"
      "255 dvd y - (- c0 - x)"
    using x y by (simp_all add: c0 c1 mod_eq_dvd_iff dvd_minus_mod)
  have "s + x + y = (s - c0) + (y - (- c0 - x))"
    by simp
  then show "(s + x + y) mod 255 = 0"
    using d by (metis dvd_add mod_0_imp_dvd dvd_imp_mod_0)
  have "w + (n - k) * x + (n - k - 1) * y =
      (w - c1) + (x - ((n - k - 1) * c0 - c1)) + (n - k - 1) * (y - (- c0 - x))"
    by (simp add: algebra_simps)
  then show "(w + (n - k) * x + (n - k - 1) * y) mod 255 = 0"
    using d by (metis dvd_add dvd_mult dvd_imp_mod_0)
qed

text \<open>What a call that stores the checksum does: the two bytes make both sums vanish.\<close>

lemma fletcher_checksum_stores:
  assumes o: "Suc (unat off) < unat len" and n: "unat len \<le> length buffer" "unat len < 2 ^ 23"
    and off: "off \<noteq> FLETCHER_CHECKSUM_VALIDATE"
  shows "\<exists>x y. fletcher_checksum buffer len off =
       Inr (buffer[unat off := x, Suc (unat off) := y], load16 x y) \<and> x \<noteq> 0 \<and> y \<noteq> 0 \<and>
    byte_sum (take (unat len) (buffer[unat off := x, Suc (unat off) := y])) mod 255 = 0 \<and>
    weighted_sum (take (unat len) (buffer[unat off := x, Suc (unat off) := y])) mod 255 = 0"
proof -
  let ?o = "unat off" and ?n = "unat len"
  let ?p = "take ?n (buffer[?o := 0, Suc ?o := 0])"
  define c0 c1 where "c0 = byte_sum ?p mod 255" and "c1 = weighted_sum ?p mod 255"
  have c: "0 \<le> c0" "c0 < 255" "0 \<le> c1" "c1 < 255"
    by (simp_all add: c0_def c1_def)
  define x where "x = fletcher_x len off c0 c1"
  define y where "y = fletcher_y c0 x"
  note X = fletcher_x_facts [OF o n(2) c, folded x_def]
  note Y = fletcher_y_facts [OF c(1,2) X(1,2), folded y_def]
  let ?b = "buffer[?o := of_int x, Suc ?o := of_int y]"
  have len1: "ucast off < len - 1"
  proof -
    have "unat (len - 1) = ?n - 1"
      using o by (intro unat_minus_one) auto
    then show ?thesis
      using o by (simp add: word_less_nat_alt unat_ucast_u16)
  qed
  have sums: "fletcher_sums ?p 0 0 = Inr (c0, c1)"
    by (simp add: fletcher_sums_eq c0_def c1_def)
  have res: "fletcher_checksum buffer len off = Inr (?b, load16 (of_int x) (of_int y))"
    using o n off len1 sums
    by (simp add: fletcher_checksum_def Let_def htons_check_bytes list_update_swap
        flip: x_def y_def)
  have u: "uint (of_int x :: u8) = x" "uint (of_int y :: u8) = y"
    using X Y by (simp_all add: uint_of_int_u8)
  have b: "take ?n ?b = ?p[?o := of_int x, Suc ?o := of_int y]"
    using o by (simp add: take_update_swap list_update_swap)
  have "byte_sum (take ?n ?b) = byte_sum ?p + x + y"
    using o n u by (simp add: b byte_sum_update nth_list_update)
  moreover have "weighted_sum (take ?n ?b) =
      weighted_sum ?p + (int ?n - int ?o) * x + (int ?n - int ?o - 1) * y"
    using o n u by (simp add: b weighted_sum_update nth_list_update of_nat_diff)
  moreover have "(byte_sum ?p + x + y) mod 255 = 0"
    by (rule check_bytes_cancel(1) [OF c0_def c1_def X(3) Y(3)])
  moreover have "(weighted_sum ?p + (int ?n - int ?o) * x + (int ?n - int ?o - 1) * y) mod 255 = 0"
    by (rule check_bytes_cancel(2) [OF c0_def c1_def X(3) Y(3)])
  ultimately have sums0: "byte_sum (take ?n ?b) mod 255 = 0" "weighted_sum (take ?n ?b) mod 255 = 0"
    by metis+
  have "(of_int x :: u8) \<noteq> 0" "(of_int y :: u8) \<noteq> 0"
    using u X Y by auto
  then show ?thesis
    using sums0 res by (intro exI [of _ "of_int x"] exI [of _ "of_int y"]) simp
qed


text \<open>A validating call leaves the buffer alone and returns zero when both sums vanish.\<close>

lemma fletcher_checksum_validates:
  assumes "unat len \<le> length buffer"
  shows "\<exists>c. fletcher_checksum buffer len FLETCHER_CHECKSUM_VALIDATE = Inr (buffer, c) \<and>
    (c = 0 \<longleftrightarrow> byte_sum (take (unat len) buffer) mod 255 = 0 \<and>
             weighted_sum (take (unat len) buffer) mod 255 = 0)"
proof -
  define c0 c1 where "c0 = byte_sum (take (unat len) buffer) mod 255"
    and "c1 = weighted_sum (take (unat len) buffer) mod 255"
  have c: "0 \<le> c0" "c0 < 255" "0 \<le> c1" "c1 < 255"
    by (simp_all add: c0_def c1_def)
  have "fletcher_sums (take (unat len) buffer) 0 0 = Inr (c0, c1)"
    by (simp add: fletcher_sums_eq c0_def c1_def)
  then have r: "fletcher_checksum buffer len FLETCHER_CHECKSUM_VALIDATE =
      Inr (buffer, of_int (push_bit 8 c1 + c0))"
    using assms by (simp add: fletcher_checksum_def Let_def)
  have e: "push_bit 8 c1 + c0 = 256 * c1 + c0"
    by (simp add: push_bit_eq_mult)
  have "uint (of_int (push_bit 8 c1 + c0) :: u16) = 256 * c1 + c0"
    unfolding e using c by (subst uint_word_of_int) simp
  then have "(of_int (push_bit 8 c1 + c0) :: u16) = 0 \<longleftrightarrow> c0 = 0 \<and> c1 = 0"
    using c by (simp flip: uint_0_iff) linarith
  then show ?thesis
    using r by (auto simp: c0_def c1_def)
qed

section \<open>Properties\<close>

text \<open>The accumulators of \<open>fletcher_checksum\<close> never leave the range of \<open>int\<close>, whatever the
  length of the buffer: reducing after every \<open>MODX\<close> bytes is often enough. A validating call
  always returns, and a storing call returns whenever the two bytes fit.\<close>

theorem fletcher_checksum_no_overflow:
  assumes "unat len \<le> length buffer"
    and "offset = FLETCHER_CHECKSUM_VALIDATE \<or> Suc (unat offset) < unat len"
  shows "\<exists>b c. fletcher_checksum buffer len offset = Inr (b, c) \<and> length b = length buffer"
proof (cases "offset = FLETCHER_CHECKSUM_VALIDATE")
  case True
  then show ?thesis
    using fletcher_checksum_validates [OF assms(1)] by auto
next
  case False
  then have o: "Suc (unat offset) < unat len"
    using assms(2) by simp
  have "unat (len - 1) = unat len - 1"
    using o by (intro unat_minus_one) auto
  then have "ucast offset < len - 1"
    using o unat_ucast_u16 [of offset] by (simp add: word_less_nat_alt)
  then show ?thesis
    using o assms(1) False
    by (auto simp: fletcher_checksum_def Let_def fletcher_sums_eq)
qed

theorem fletcher_checksum_no_overflow_witness:
  "\<exists>b c. fletcher_checksum (replicate 9000 255) 9000 12 = Inr (b, c) \<and> length b = 9000"
  using fletcher_checksum_no_overflow [of 9000 "replicate 9000 255" 12] by simp

lemma lsa_length_eq:
  "20 \<le> length lsa \<Longrightarrow> lsa_length lsa = Inr (load16 (lsa ! 19) (lsa ! 18))"
  by (simp add: lsa_length_def htons_def)


definition sample_lsa :: "u8 list" where
  "sample_lsa = [0, 1, 2, 1, 192, 0, 2, 1, 192, 0, 2, 1, 128, 0, 0, 1, 178, 45, 0, 20]"

lemma lsa_length_update:
  assumes "lsa_length lsa = Inr n" "i \<noteq> 18" "i \<noteq> 19"
  shows "lsa_length (lsa[i := v]) = Inr n"
  using assms by (auto simp: lsa_length_def rd16_def rd8_def and_then_Inr_iff split: if_splits)

text \<open>The part of an LSA behind its age field.\<close>

lemma lsa_covered:
  assumes "20 \<le> unat n"
  shows "unat (ucast (n - 2 :: u16) :: u64) = unat n - 2"
proof -
  have "unat (n - 2) = unat n - unat (2 :: u16)"
    using assms by (intro unat_sub) (simp add: word_le_nat_alt)
  then show ?thesis
    by (simp add: unat_ucast_u16)
qed

lemma ospf_lsa_checksum_valid_iff:
  assumes "lsa_length lsa = Inr n" "20 \<le> unat n" "unat n \<le> length lsa"
  shows "ospf_lsa_checksum_valid lsa =
     Inr (byte_sum (drop 2 (take (unat n) lsa)) mod 255 = 0 \<and>
          weighted_sum (drop 2 (take (unat n) lsa)) mod 255 = 0)"
proof -
  have "drop 2 (take (unat n) lsa) = take (unat n - 2) (drop 2 lsa)"
    using assms(2) by (simp add: drop_take)
  moreover have "unat (ucast (n - 2) :: u64) \<le> length (drop 2 lsa)"
    using assms by (simp add: lsa_covered)
  ultimately show ?thesis
    using fletcher_checksum_validates [of "ucast (n - 2)" "drop 2 lsa"] assms(1,2)
    by (auto simp: ospf_lsa_checksum_valid_def lsa_covered)
qed

text \<open>C27: the checksum that \<open>ospf_lsa_checksum\<close> computes is stored in the two bytes of the
  checksum field and nothing else changes, the value returned is that field, and the LSA then
  passes \<open>ospf_lsa_checksum_valid\<close>. This holds for every LSA whose length field is at least the
  header size and covered by the buffer.\<close>

theorem ospf_lsa_checksum_roundtrip:
  assumes "lsa_length lsa = Inr n" "20 \<le> unat n" "unat n \<le> length lsa"
  shows "\<exists>x y. ospf_lsa_checksum lsa = Inr (lsa[16 := x, 17 := y], load16 x y) \<and>
    ospf_lsa_checksum_valid (lsa[16 := x, 17 := y]) = Inr True"
proof -
  let ?len = "ucast (n - 2) :: u64"
  have cov: "unat ?len = unat n - 2"
    by (rule lsa_covered [OF assms(2)])
  moreover have "unat n < 65536"
    using unsigned_less [of n, where ?'a = nat] by simp
  ultimately have "Suc (unat (14 :: u16)) < unat ?len" "unat ?len \<le> length (drop 2 lsa)"
      "unat ?len < 2 ^ 23"
    using assms(2,3) by simp_all
  then obtain x y where r:
      "fletcher_checksum (drop 2 lsa) ?len 14 = Inr ((drop 2 lsa)[14 := x, 15 := y], load16 x y)"
      "byte_sum (take (unat ?len) ((drop 2 lsa)[14 := x, 15 := y])) mod 255 = 0"
      "weighted_sum (take (unat ?len) ((drop 2 lsa)[14 := x, 15 := y])) mod 255 = 0"
    using fletcher_checksum_stores [of 14 ?len "drop 2 lsa"]
    by (auto simp: FLETCHER_CHECKSUM_VALIDATE_def)
  let ?l = "lsa[16 := x, 17 := y]"
  have l: "drop 2 ?l = (drop 2 lsa)[14 := x, 15 := y]" "take 2 ?l = take 2 lsa"
    by (simp_all add: drop_update_swap)
  then have "take 2 lsa @ (drop 2 lsa)[14 := x, 15 := y] = ?l"
    by (metis append_take_drop_id)
  moreover have "lsa_length ?l = Inr n"
    using assms(1) by (simp add: lsa_length_update)
  moreover have "drop 2 (take (unat n) ?l) = take (unat ?len) ((drop 2 lsa)[14 := x, 15 := y])"
    using l(1) cov by (simp add: drop_take)
  ultimately show ?thesis
    using r assms ospf_lsa_checksum_valid_iff [of ?l n]
    by (auto simp: ospf_lsa_checksum_def)
qed

theorem ospf_lsa_checksum_roundtrip_witness:
  "\<exists>x y. ospf_lsa_checksum sample_lsa = Inr (sample_lsa[16 := x, 17 := y], load16 x y) \<and>
    ospf_lsa_checksum_valid (sample_lsa[16 := x, 17 := y]) = Inr True"
  by (rule ospf_lsa_checksum_roundtrip [of _ "load16 20 0"])
    (simp_all add: sample_lsa_def lsa_length_eq unat_load16)

text \<open>C28: what the checksum of an LSA detects. An LSA that passes the check still passes it after a change of one byte
  outside the length field exactly when the byte belongs to the age, which the checksum does not cover, or the old and the new value are equal modulo 255 (0 and
  255); every other change of one byte is detected. (The length field is left out: it decides what is summed.)\<close>

theorem ospf_lsa_checksum_detects:
  assumes "lsa_length lsa = Inr n" "20 \<le> unat n" "unat n \<le> length lsa"
    and valid: "ospf_lsa_checksum_valid lsa = Inr True"
    and i: "i < unat n" "i \<noteq> 18" "i \<noteq> 19"
  shows "ospf_lsa_checksum_valid (lsa[i := v]) = Inr (i < 2 \<or> uint v mod 255 = uint (lsa ! i) mod 255)"
proof -
  let ?p = "drop 2 (take (unat n) lsa)" and ?p' = "drop 2 (take (unat n) (lsa[i := v]))"
  have "lsa_length (lsa[i := v]) = Inr n" using assms(1) i by (simp add: lsa_length_update)
  then have now: "ospf_lsa_checksum_valid (lsa[i := v]) = Inr (255 dvd byte_sum ?p' \<and> 255 dvd weighted_sum ?p')"
    using ospf_lsa_checksum_valid_iff [of "lsa[i := v]" n] assms(2,3) by (simp add: dvd_eq_mod_eq_0)
  have sums: "255 dvd byte_sum ?p" "255 dvd weighted_sum ?p"
    using valid ospf_lsa_checksum_valid_iff [OF assms(1-3)] by (simp_all add: dvd_eq_mod_eq_0)
  show ?thesis
  proof (cases "i < 2")
    case True
    then have "?p' = ?p" by (simp add: take_update_swap)
    with True now sums show ?thesis by simp
  next
    case False
    then have "Suc (Suc (i - 2)) = i" by simp
    then have i2: "i - 2 < length ?p" "?p ! (i - 2) = lsa ! i" using False i assms(3) by simp_all
    let ?d = "uint v - uint (lsa ! i)"
    have p: "?p' = ?p[i - 2 := v]" using False by (simp add: take_update_swap drop_update_swap)
    have "byte_sum ?p' = byte_sum ?p + ?d" "weighted_sum ?p' = weighted_sum ?p + int (length ?p - (i - 2)) * ?d"
      unfolding p using byte_sum_update [OF i2(1), of v] weighted_sum_update [OF i2(1), of v] i2(2) by simp_all
    then have "255 dvd byte_sum ?p' \<longleftrightarrow> 255 dvd ?d" "255 dvd ?d \<Longrightarrow> 255 dvd weighted_sum ?p'"
      using sums dvd_add_right_iff [OF sums(1), of ?d] by simp_all
    then show ?thesis using now False by (auto simp: mod_eq_dvd_iff)
  qed
qed

theorem ospf_lsa_checksum_detects_witness:
  "ospf_lsa_checksum_valid sample_lsa = Inr True \<and>
   ospf_lsa_checksum_valid (sample_lsa[5 := 1]) = Inr False \<and> ospf_lsa_checksum_valid (sample_lsa[1 := 9]) = Inr True"
proof -
  have "ospf_lsa_checksum_valid sample_lsa = Inr True"
    using ospf_lsa_checksum_valid_iff [of sample_lsa "load16 20 0"]
    by (simp add: sample_lsa_def lsa_length_eq unat_load16)
  then show ?thesis
    using ospf_lsa_checksum_detects [of sample_lsa "load16 20 0" 5 1] ospf_lsa_checksum_detects [of sample_lsa "load16 20 0" 1 9]
    by (simp add: sample_lsa_def lsa_length_eq unat_load16)
qed

lemma load16_bytes_zero:
  "load16 a b AND 0xff00 = 0 \<longleftrightarrow> b = 0" "load16 a b AND 0xff = 0 \<longleftrightarrow> a = 0"
proof -
  have m: "(0xff :: u16) = mask 8" "(0xff00 :: u16) = push_bit 8 (mask 8)"
    by (simp_all add: mask_eq_exp_minus_1)
  have "load16 a b AND 0xff00 = load16 0 b" "load16 a b AND 0xff = load16 a 0"
    unfolding m by (auto simp: load16_def bit_eq_iff bit_simps dest: bit_imp_le_length)
  moreover have "0 = load16 0 0"
    by (simp add: load16_def)
  ultimately show "load16 a b AND 0xff00 = 0 \<longleftrightarrow> b = 0" "load16 a b AND 0xff = 0 \<longleftrightarrow> a = 0"
    by (metis load16_eq)+
qed

text \<open>C29: \<open>iso_csum_verify\<close> accepts every checksum with two nonzero bytes, whatever the contents
  of the PDU: \<open>fletcher_checksum\<close> writes the right checksum into the buffer before it is compared
  with the field of the same buffer, so the comparison is of a value with itself. The received
  checksum is overwritten.\<close>

theorem iso_csum_verify_accepts_all:
  assumes "Suc csum < n" "n \<le> length buffer" "n < 2 ^ 23" "csum < 65535"
    and "buffer ! csum \<noteq> 0" "buffer ! Suc csum \<noteq> 0"
  shows "\<exists>x y. iso_csum_verify buffer (int n) csum = Inr (buffer[csum := x, Suc csum := y], 0)"
proof -
  have u: "unat (of_nat csum :: u16) = csum" "unat (of_int (int n) :: u64) = n"
    using assms(3,4) by (simp_all add: unat_of_nat)
  have "(of_nat csum :: u16) \<noteq> FLETCHER_CHECKSUM_VALIDATE"
    using assms(4) u(1) by (auto simp: FLETCHER_CHECKSUM_VALIDATE_def)
  then obtain x y where
    "fletcher_checksum buffer (of_int (int n)) (of_nat csum) = Inr (buffer[csum := x, Suc csum := y], load16 x y)"
    using fletcher_checksum_stores [of "of_nat csum" "of_int (int n)" buffer] u assms(1-3) by auto
  then show ?thesis
    using assms by (auto simp: iso_csum_verify_def Let_def load16_bytes_zero)
qed

theorem iso_csum_verify_accepts_all_witness:
  "\<exists>x y. iso_csum_verify [3, 1, 4, 1, 5] 5 2 = Inr ([3, 1, 4, 1, 5][2 := x, 3 := y], 0)"
  using iso_csum_verify_accepts_all [of 2 5 "[3, 1, 4, 1, 5]"] by (simp add: numeral_3_eq_3)


end
