(* ===== verification/OspfLsa.thy ===== *)
theory OspfLsa
  imports Checksum Prefix Clock "HOL-Library.Multiset"
begin

unbundle bit_operations_syntax

text \<open>
  Link state advertisements as \<^verbatim>\<open>ospfd/ospf_lsa.c\<close> keeps them: objects with a header, flags,
  a time of arrival and a count of references. All advertisements live in one memory from addresses
  to objects; an object whose count falls to zero is freed, so that a dangling pointer shows as the
  fault \<open>NullDeref\<close>. The fields of a header are the words found in memory, in network order.
  The reading of the clock is the argument \<open>now\<close>. The counts of references and of retransmission lists are integers without a bound,
  \<open>int\<close> in the source; the theorems say which numbers they are.
\<close>

section \<open>Time\<close>

definition tv_adjust :: "timeval \<Rightarrow> timeval" where
  "tv_adjust a = borrow_loop (carry_loop a)"

definition tv_ceil :: "timeval \<Rightarrow> int" where
  "tv_ceil a = (let a = tv_adjust a in if tv_usec a \<noteq> 0 then tv_sec a + 1 else tv_sec a)"

definition tv_floor :: "timeval \<Rightarrow> int" where
  "tv_floor a = tv_sec (tv_adjust a)"

definition int2tv :: "int \<Rightarrow> timeval" where
  "int2tv a = \<lparr>tv_sec = a, tv_usec = 0\<rparr>"

definition tv_add :: "timeval \<Rightarrow> timeval \<Rightarrow> timeval" where
  "tv_add a b = tv_adjust \<lparr>tv_sec = tv_sec a + tv_sec b, tv_usec = tv_usec a + tv_usec b\<rparr>"

definition tv_sub :: "timeval \<Rightarrow> timeval \<Rightarrow> timeval" where
  "tv_sub a b = tv_adjust \<lparr>tv_sec = tv_sec a - tv_sec b, tv_usec = tv_usec a - tv_usec b\<rparr>"

definition tv_cmp :: "timeval \<Rightarrow> timeval \<Rightarrow> int" where
  "tv_cmp a b =
     (if tv_sec a = tv_sec b then tv_usec a - tv_usec b else tv_sec a - tv_sec b)"

section \<open>Objects\<close>

record lsa_header =
  h_ls_age :: u16
  h_options :: u8
  h_type :: u8
  h_id :: u32
  h_adv_router :: u32
  h_ls_seqnum :: u32
  h_checksum :: u16
  h_length :: u16

record ospf_lsa =
  lsa_flags :: u8
  lsa_data :: lsa_header
  lsa_tv_recv :: timeval
  lsa_tv_orig :: timeval
  lsa_lock :: int
  lsa_stat :: int
  retransmit_counter :: int
  refresh_list :: int

definition OSPF_LSA_SELF :: u8 where "OSPF_LSA_SELF = 0x01"
definition OSPF_LSA_DISCARD :: u8 where "OSPF_LSA_DISCARD = 0x10"
definition OSPF_LSA_LOCAL_XLT :: u8 where "OSPF_LSA_LOCAL_XLT = 0x20"

definition OSPF_MIN_LS_INTERVAL :: int where "OSPF_MIN_LS_INTERVAL = 5"
definition OSPF_LSA_MAXAGE :: int where "OSPF_LSA_MAXAGE = 3600"
definition OSPF_LSA_MAXAGE_DIFF :: int where "OSPF_LSA_MAXAGE_DIFF = 900"

lemmas lsa_consts = OSPF_LSA_SELF_def OSPF_LSA_DISCARD_def OSPF_LSA_LOCAL_XLT_def
  OSPF_MIN_LS_INTERVAL_def OSPF_LSA_MAXAGE_def OSPF_LSA_MAXAGE_DIFF_def

definition CHECK_FLAG :: "u8 \<Rightarrow> u8 \<Rightarrow> bool" where
  "CHECK_FLAG v f \<longleftrightarrow> v AND f \<noteq> 0"

abbreviation IS_LSA_SELF :: "ospf_lsa \<Rightarrow> bool" where
  "IS_LSA_SELF x \<equiv> CHECK_FLAG (lsa_flags x) OSPF_LSA_SELF"

text \<open>The hooks of a database, \<open>new_lsa_hook\<close> and \<open>del_lsa_hook\<close>, as a log of their calls.\<close>

datatype lsa_hook = NewLsa nat | DelLsa nat

record lsa_mem =
  lm_lsas :: "nat \<rightharpoonup> ospf_lsa"
  lm_brk :: nat
  lm_hooks :: "lsa_hook list"

definition deref_lsa :: "lsa_mem \<Rightarrow> nat \<Rightarrow> ospf_lsa res" where
  "deref_lsa mem l = (case lm_lsas mem l of None \<Rightarrow> Inl NullDeref | Some x \<Rightarrow> Inr x)"

definition upd_lsa :: "nat \<Rightarrow> (ospf_lsa \<Rightarrow> ospf_lsa) \<Rightarrow> lsa_mem \<Rightarrow> lsa_mem res" where
  "upd_lsa l f mem =
     and_then (deref_lsa mem l) (\<lambda>x. Inr (mem\<lparr>lm_lsas := (lm_lsas mem)(l \<mapsto> f x)\<rparr>))"

definition ospf_lsa_new :: "timeval \<Rightarrow> lsa_header \<Rightarrow> lsa_mem \<Rightarrow> lsa_mem \<times> nat" where
  "ospf_lsa_new now d mem =
     (let x = \<lparr>lsa_flags = 0, lsa_data = d, lsa_tv_recv = now, lsa_tv_orig = now, lsa_lock = 1,
               lsa_stat = 0, retransmit_counter = 0, refresh_list = -1\<rparr>
      in (mem\<lparr>lm_lsas := (lm_lsas mem)(lm_brk mem \<mapsto> x), lm_brk := Suc (lm_brk mem)\<rparr>, lm_brk mem))"

definition ospf_lsa_dup :: "nat \<Rightarrow> lsa_mem \<Rightarrow> (lsa_mem \<times> nat) res" where
  "ospf_lsa_dup l mem =
     and_then (deref_lsa mem l) (\<lambda>x.
       let new = x\<lparr>lsa_flags := lsa_flags x AND NOT OSPF_LSA_DISCARD, lsa_lock := 1,
                   retransmit_counter := 0, refresh_list := -1\<rparr>
       in Inr (mem\<lparr>lm_lsas := (lm_lsas mem)(lm_brk mem \<mapsto> new), lm_brk := Suc (lm_brk mem)\<rparr>, lm_brk mem))"

definition ospf_lsa_free :: "nat \<Rightarrow> lsa_mem \<Rightarrow> lsa_mem res" where
  "ospf_lsa_free l mem =
     and_then (deref_lsa mem l) (\<lambda>x.
     and_then (ensure (lsa_lock x = 0)) (\<lambda>_.
     and_then (ensure (refresh_list x < 0)) (\<lambda>_.
       Inr (mem\<lparr>lm_lsas := (lm_lsas mem)(l := None)\<rparr>))))"

definition ospf_lsa_lock :: "nat \<Rightarrow> lsa_mem \<Rightarrow> lsa_mem res" where
  "ospf_lsa_lock l = upd_lsa l (\<lambda>x. x\<lparr>lsa_lock := lsa_lock x + 1\<rparr>)"

text \<open>\<open>ospf_lsa_unlock (&lsa)\<close> also clears the pointer when the object goes away.\<close>

definition ospf_lsa_unlock :: "nat option \<Rightarrow> lsa_mem \<Rightarrow> (lsa_mem \<times> nat option) res" where
  "ospf_lsa_unlock lsa mem =
     (case lsa of
        None \<Rightarrow> Inr (mem, None)
      | Some l \<Rightarrow>
          and_then (upd_lsa l (\<lambda>x. x\<lparr>lsa_lock := lsa_lock x - 1\<rparr>) mem) (\<lambda>mem.
          and_then (deref_lsa mem l) (\<lambda>x.
          and_then (ensure (lsa_lock x \<ge> 0)) (\<lambda>_.
            if lsa_lock x = 0
            then and_then (ensure (CHECK_FLAG (lsa_flags x) OSPF_LSA_DISCARD)) (\<lambda>_.
                 and_then (ospf_lsa_free l mem) (\<lambda>mem. Inr (mem, None)))
            else Inr (mem, Some l)))))"

definition ospf_lsa_discard :: "nat \<Rightarrow> lsa_mem \<Rightarrow> lsa_mem res" where
  "ospf_lsa_discard l mem =
     and_then (deref_lsa mem l) (\<lambda>x.
       if CHECK_FLAG (lsa_flags x) OSPF_LSA_DISCARD then Inr mem
       else and_then (upd_lsa l (\<lambda>x. x\<lparr>lsa_flags := lsa_flags x OR OSPF_LSA_DISCARD\<rparr>) mem) (\<lambda>mem.
            and_then (ospf_lsa_unlock (Some l) mem) (\<lambda>(mem, _). Inr mem)))"

section \<open>Age and recency\<close>

definition get_age :: "timeval \<Rightarrow> ospf_lsa \<Rightarrow> int" where
  "get_age now x = uint (ntohs (h_ls_age (lsa_data x))) + tv_floor (tv_sub now (lsa_tv_recv x))"

definition LS_AGE :: "timeval \<Rightarrow> ospf_lsa \<Rightarrow> int" where
  "LS_AGE now x = (if OSPF_LSA_MAXAGE < get_age now x then OSPF_LSA_MAXAGE else get_age now x)"

definition IS_LSA_MAXAGE :: "timeval \<Rightarrow> ospf_lsa \<Rightarrow> bool" where
  "IS_LSA_MAXAGE now x \<longleftrightarrow> LS_AGE now x = OSPF_LSA_MAXAGE"

definition ospf_lsa_refresh_delay :: "timeval \<Rightarrow> ospf_lsa \<Rightarrow> int res" where
  "ospf_lsa_refresh_delay now x =
     (let delta = tv_sub now (lsa_tv_orig x)
      in if tv_cmp delta (int2tv OSPF_MIN_LS_INTERVAL) < 0
         then let delay = tv_ceil (tv_sub (int2tv OSPF_MIN_LS_INTERVAL) delta)
              in and_then (ensure (delay > 0)) (\<lambda>_. Inr delay)
         else Inr 0)"

definition ospf_lsa_more_recent :: "timeval \<Rightarrow> ospf_lsa option \<Rightarrow> ospf_lsa option \<Rightarrow> int" where
  "ospf_lsa_more_recent now l1 l2 =
     (case l1 of
        None \<Rightarrow> (case l2 of None \<Rightarrow> 0 | Some _ \<Rightarrow> -1)
      | Some a \<Rightarrow> (case l2 of
          None \<Rightarrow> 1
        | Some b \<Rightarrow>
            let x = sint (ntohl (h_ls_seqnum (lsa_data a))); y = sint (ntohl (h_ls_seqnum (lsa_data b)));
                r = uint (ntohs (h_checksum (lsa_data a))) - uint (ntohs (h_checksum (lsa_data b)))
            in if x > y then 1
               else if x < y then -1
               else if r \<noteq> 0 then r
               else if IS_LSA_MAXAGE now a \<and> \<not> IS_LSA_MAXAGE now b then 1
               else if \<not> IS_LSA_MAXAGE now a \<and> IS_LSA_MAXAGE now b then -1
               else if LS_AGE now a - LS_AGE now b > OSPF_LSA_MAXAGE_DIFF then -1
               else if LS_AGE now b - LS_AGE now a > OSPF_LSA_MAXAGE_DIFF then 1
               else 0))"

section \<open>References\<close>

text \<open>
  Who creates an object holds its first reference until \<open>ospf_lsa_discard\<close>; every other
  reference is in the multiset \<open>refs\<close>. A discarded object is off the refresh list, and an
  object nobody refers to is gone.
\<close>

abbreviation discarded :: "ospf_lsa \<Rightarrow> bool" where
  "discarded x \<equiv> CHECK_FLAG (lsa_flags x) OSPF_LSA_DISCARD"

definition mem_ok :: "lsa_mem \<Rightarrow> nat multiset \<Rightarrow> bool" where
  "mem_ok mem refs \<longleftrightarrow> set_mset refs \<subseteq> dom (lm_lsas mem) \<and> dom (lm_lsas mem) \<subseteq> {..<lm_brk mem} \<and>
     (\<forall>l x. lm_lsas mem l = Some x \<longrightarrow>
        lsa_lock x = int (count refs l) + of_bool (\<not> discarded x) \<and>
        (discarded x \<longrightarrow> refresh_list x < 0 \<and> l \<in># refs))"

text \<open>Objects that are still there have the same content, apart from their reference counts.\<close>

definition lsa_content :: "ospf_lsa \<Rightarrow> u8 \<times> lsa_header \<times> timeval \<times> timeval \<times> int" where
  "lsa_content x = (lsa_flags x, lsa_data x, lsa_tv_recv x, lsa_tv_orig x, retransmit_counter x)"

definition same_content :: "lsa_mem \<Rightarrow> lsa_mem \<Rightarrow> bool" where
  "same_content mem mem' \<longleftrightarrow> (\<forall>l x x'. lm_lsas mem l = Some x \<longrightarrow> lm_lsas mem' l = Some x' \<longrightarrow>
     lsa_content x' = lsa_content x)"

lemma same_content_refl [simp]: "same_content mem mem"
  by (simp add: same_content_def)

lemma lsa_lock_step:
  assumes "mem_ok mem refs" "lm_lsas mem l = Some x"
  shows "\<exists>mem'. ospf_lsa_lock l mem = Inr mem' \<and> mem_ok mem' (add_mset l refs) \<and> same_content mem mem' \<and>
     dom (lm_lsas mem') = dom (lm_lsas mem) \<and> lm_hooks mem' = lm_hooks mem \<and> lm_brk mem' = lm_brk mem"
  using assms
  by (auto simp: ospf_lsa_lock_def upd_lsa_def deref_lsa_def mem_ok_def same_content_def lsa_content_def
      split: if_splits)

lemma lsa_unlock_step:
  assumes "mem_ok mem (add_mset l refs)"
  shows "\<exists>mem' p. ospf_lsa_unlock (Some l) mem = Inr (mem', p) \<and> mem_ok mem' refs \<and> same_content mem mem' \<and>
     dom (lm_lsas mem) - {l} \<subseteq> dom (lm_lsas mem') \<and> dom (lm_lsas mem') \<subseteq> dom (lm_lsas mem) \<and>
     lm_hooks mem' = lm_hooks mem \<and> lm_brk mem' = lm_brk mem"
proof -
  from assms obtain x where x: "lm_lsas mem l = Some x"
    "lsa_lock x = int (count refs l) + 1 + of_bool (\<not> discarded x)" "discarded x \<longrightarrow> refresh_list x < 0"
    by (auto simp: mem_ok_def)
  show ?thesis
  proof (cases "count refs l = 0 \<and> discarded x")
    case True
    then have "ospf_lsa_unlock (Some l) mem = Inr (mem\<lparr>lm_lsas := (lm_lsas mem)(l := None)\<rparr>, None)"
      using x by (simp add: ospf_lsa_unlock_def upd_lsa_def deref_lsa_def ospf_lsa_free_def)
    moreover have "mem_ok (mem\<lparr>lm_lsas := (lm_lsas mem)(l := None)\<rparr>) refs"
      using assms True by (fastforce simp: mem_ok_def count_eq_zero_iff split: if_splits)
    ultimately show ?thesis by (auto simp: same_content_def)
  next
    case False
    let ?x = "x\<lparr>lsa_lock := lsa_lock x - 1\<rparr>"
    have lk: "lsa_lock ?x > 0" using False x(2) by (cases "discarded x") auto
    then have "ospf_lsa_unlock (Some l) mem = Inr (mem\<lparr>lm_lsas := (lm_lsas mem)(l \<mapsto> ?x)\<rparr>, Some l)"
      using x(1) by (simp add: ospf_lsa_unlock_def upd_lsa_def deref_lsa_def)
    moreover have "mem_ok (mem\<lparr>lm_lsas := (lm_lsas mem)(l \<mapsto> ?x)\<rparr>) refs"
      using assms x lk by (auto simp: mem_ok_def split: if_splits)
    ultimately show ?thesis using x(1) by (auto simp: same_content_def lsa_content_def)
  qed
qed

end
