(* ===== verification/OspfExamin.thy ===== *)
theory OspfExamin
  imports Checksum
begin

text \<open>
  The length checks that every OSPF packet passes before its fields are used
  (\<open>ospf_packet_examin\<close> and the functions it calls in \<^verbatim>\<open>ospfd/ospf_packet.c\<close>). The packet
  is the contents of the receive buffer from the OSPF header on; a pointer into it is an offset, and
  reading behind the end of the buffer is the fault \<open>OutOfBounds\<close>. Opaque LSAs are compiled in.

  The loops are total: each step takes a positive number of bytes. The theorems compare the
  validator with a grammar of the packet, a body being a sequence of self-delimiting blocks.
\<close>

section \<open>Constants\<close>

definition OSPF_VERSION :: u8 where "OSPF_VERSION = 2"
definition OSPF_HEADER_SIZE :: nat where "OSPF_HEADER_SIZE = 24"
definition OSPF_AUTH_SIMPLE_SIZE :: nat where "OSPF_AUTH_SIMPLE_SIZE = 8"
definition OSPF_AUTH_MD5_SIZE :: nat where "OSPF_AUTH_MD5_SIZE = 16"
definition OSPF_AUTH_NULL :: u16 where "OSPF_AUTH_NULL = 0"
definition OSPF_AUTH_SIMPLE :: u16 where "OSPF_AUTH_SIMPLE = 1"
definition OSPF_AUTH_CRYPTOGRAPHIC :: u16 where "OSPF_AUTH_CRYPTOGRAPHIC = 2"
definition OSPF_HELLO_MIN_SIZE :: nat where "OSPF_HELLO_MIN_SIZE = 20"
definition OSPF_DB_DESC_MIN_SIZE :: nat where "OSPF_DB_DESC_MIN_SIZE = 8"
definition OSPF_LS_REQ_MIN_SIZE :: nat where "OSPF_LS_REQ_MIN_SIZE = 0"
definition OSPF_LS_UPD_MIN_SIZE :: nat where "OSPF_LS_UPD_MIN_SIZE = 4"
definition OSPF_LS_ACK_MIN_SIZE :: nat where "OSPF_LS_ACK_MIN_SIZE = 0"
definition OSPF_LSA_KEY_SIZE :: nat where "OSPF_LSA_KEY_SIZE = 12"
definition OSPF_MAX_LSA :: nat where "OSPF_MAX_LSA = 12"
definition OSPF_LSA_HEADER_SIZE :: nat where "OSPF_LSA_HEADER_SIZE = 20"
definition OSPF_ROUTER_LSA_LINK_SIZE :: nat where "OSPF_ROUTER_LSA_LINK_SIZE = 12"
definition OSPF_ROUTER_LSA_MIN_SIZE :: nat where "OSPF_ROUTER_LSA_MIN_SIZE = 4"
definition OSPF_NETWORK_LSA_MIN_SIZE :: nat where "OSPF_NETWORK_LSA_MIN_SIZE = 8"
definition OSPF_SUMMARY_LSA_MIN_SIZE :: nat where "OSPF_SUMMARY_LSA_MIN_SIZE = 8"
definition OSPF_AS_EXTERNAL_LSA_MIN_SIZE :: nat where "OSPF_AS_EXTERNAL_LSA_MIN_SIZE = 16"

lemmas ospf_sizes =
  OSPF_HEADER_SIZE_def OSPF_AUTH_SIMPLE_SIZE_def OSPF_AUTH_MD5_SIZE_def OSPF_HELLO_MIN_SIZE_def
  OSPF_DB_DESC_MIN_SIZE_def OSPF_LS_REQ_MIN_SIZE_def OSPF_LS_UPD_MIN_SIZE_def
  OSPF_LS_ACK_MIN_SIZE_def OSPF_LSA_KEY_SIZE_def OSPF_MAX_LSA_def OSPF_LSA_HEADER_SIZE_def
  OSPF_ROUTER_LSA_LINK_SIZE_def OSPF_ROUTER_LSA_MIN_SIZE_def OSPF_NETWORK_LSA_MIN_SIZE_def
  OSPF_SUMMARY_LSA_MIN_SIZE_def OSPF_AS_EXTERNAL_LSA_MIN_SIZE_def

definition ospf_packet_minlen :: "nat list" where
  "ospf_packet_minlen =
     [0, OSPF_HELLO_MIN_SIZE, OSPF_DB_DESC_MIN_SIZE, OSPF_LS_REQ_MIN_SIZE, OSPF_LS_UPD_MIN_SIZE,
      OSPF_LS_ACK_MIN_SIZE]"

definition ospf_lsa_minlen :: "nat list" where
  "ospf_lsa_minlen =
     [0, OSPF_ROUTER_LSA_MIN_SIZE, OSPF_NETWORK_LSA_MIN_SIZE, OSPF_SUMMARY_LSA_MIN_SIZE,
      OSPF_SUMMARY_LSA_MIN_SIZE, OSPF_AS_EXTERNAL_LSA_MIN_SIZE, 0, OSPF_AS_EXTERNAL_LSA_MIN_SIZE,
      0, 0, 0, 0]"

datatype msg_result = MSG_OK | MSG_NG

section \<open>The validator\<close>

text \<open>
  The loop over the link blocks of a Router-LSA; \<open>None\<close> is the early return of \<open>MSG_NG\<close>. The
  field \<open>tos_count\<close> is at byte 9 of a block.
\<close>

function links_loop :: "u8 list \<Rightarrow> nat \<Rightarrow> nat \<Rightarrow> nat \<Rightarrow> nat option res" where
  "links_loop buf link linkbytes counted_links =
     (if linkbytes = 0 then Inr (Some counted_links)
      else and_then (rd8 buf (link + 9)) (\<lambda>tos_count.
        let thislinklen = OSPF_ROUTER_LSA_LINK_SIZE + 4 * unat tos_count
        in if thislinklen > linkbytes then Inr None
           else links_loop buf (link + thislinklen) (linkbytes - thislinklen) (Suc counted_links)))"
  by pat_completeness auto
termination
  by (relation "measure (\<lambda>(_, _, linkbytes, _). linkbytes)") (auto simp: ospf_sizes)

declare links_loop.simps [simp del]

definition ospf_router_lsa_links_examin ::
    "u8 list \<Rightarrow> nat \<Rightarrow> nat \<Rightarrow> nat \<Rightarrow> msg_result res" where
  "ospf_router_lsa_links_examin buf link linkbytes num_links =
     and_then (links_loop buf link linkbytes 0) (\<lambda>r.
       Inr (case r of
              None \<Rightarrow> MSG_NG
            | Some counted_links \<Rightarrow> if counted_links \<noteq> num_links then MSG_NG else MSG_OK))"

definition ospf_lsa_examin :: "u8 list \<Rightarrow> nat \<Rightarrow> nat \<Rightarrow> bool \<Rightarrow> msg_result res" where
  "ospf_lsa_examin buf lsah lsalen headeronly =
     and_then (rd8 buf (lsah + 3)) (\<lambda>ty.
       let type = unat ty
       in if type < OSPF_MAX_LSA \<and> ospf_lsa_minlen ! type \<noteq> 0 \<and>
             lsalen < OSPF_LSA_HEADER_SIZE + ospf_lsa_minlen ! type
          then Inr MSG_NG
          else if type = 1
          then if headeronly
               then Inr (if (lsalen - OSPF_LSA_HEADER_SIZE - OSPF_ROUTER_LSA_MIN_SIZE) mod 4 \<noteq> 0
                         then MSG_NG else MSG_OK)
               else and_then (rd16 buf (lsah + 22)) (\<lambda>links.
                    ospf_router_lsa_links_examin buf (lsah + 24)
                      (lsalen - OSPF_LSA_HEADER_SIZE - 4) (unat (ntohs links)))
          else if type = 5 \<or> type = 7
          then Inr (if (lsalen - OSPF_LSA_HEADER_SIZE - OSPF_AS_EXTERNAL_LSA_MIN_SIZE) mod 12 \<noteq> 0
                    then MSG_NG else MSG_OK)
          else if type = 2 \<or> type = 3 \<or> type = 4 \<or> type = 9 \<or> type = 10 \<or> type = 11
          then Inr (if lsalen mod 4 \<noteq> 0 then MSG_NG else MSG_OK)
          else Inr MSG_NG)"

function lsaseq_loop :: "u8 list \<Rightarrow> nat \<Rightarrow> nat \<Rightarrow> bool \<Rightarrow> nat \<Rightarrow> nat option res" where
  "lsaseq_loop buf lsah len headeronly counted_lsas =
     (if len = 0 then Inr (Some counted_lsas)
      else if len < OSPF_LSA_HEADER_SIZE then Inr None
      else and_then (rd16 buf (lsah + 18)) (\<lambda>w.
        let lsalen = unat (ntohs w)
        in if lsalen < OSPF_LSA_HEADER_SIZE then Inr None
           else if headeronly
           then and_then (ospf_lsa_examin buf lsah lsalen True) (\<lambda>r.
                  if r \<noteq> MSG_OK then Inr None
                  else lsaseq_loop buf (lsah + OSPF_LSA_HEADER_SIZE) (len - OSPF_LSA_HEADER_SIZE)
                         headeronly (Suc counted_lsas))
           else if lsalen > len then Inr None
           else and_then (ospf_lsa_examin buf lsah lsalen False) (\<lambda>r.
                  if r \<noteq> MSG_OK then Inr None
                  else lsaseq_loop buf (lsah + lsalen) (len - lsalen) headeronly (Suc counted_lsas))))"
  by pat_completeness auto
termination
  by (relation "measure (\<lambda>(_, _, len, _). len)") (auto simp: ospf_sizes)

declare lsaseq_loop.simps [simp del]

definition ospf_lsaseq_examin ::
    "u8 list \<Rightarrow> nat \<Rightarrow> nat \<Rightarrow> bool \<Rightarrow> nat \<Rightarrow> msg_result res" where
  "ospf_lsaseq_examin buf lsah len headeronly declared_num_lsas =
     and_then (lsaseq_loop buf lsah len headeronly 0) (\<lambda>r.
       Inr (case r of
              None \<Rightarrow> MSG_NG
            | Some counted_lsas \<Rightarrow>
                if declared_num_lsas \<noteq> 0 \<and> counted_lsas \<noteq> declared_num_lsas then MSG_NG else MSG_OK))"

text \<open>A 32-bit field in network order.\<close>

definition rd32n :: "u8 list \<Rightarrow> nat \<Rightarrow> nat res" where
  "rd32n bs i = and_then (rd16 bs i) (\<lambda>hi. and_then (rd16 bs (i + 2)) (\<lambda>lo.
     Inr (65536 * unat (ntohs hi) + unat (ntohs lo))))"

definition ospf_packet_body_examin :: "u8 list \<Rightarrow> nat \<Rightarrow> nat \<Rightarrow> msg_result res" where
  "ospf_packet_body_examin oh type bytesdeclared =
     (if 1 \<le> type \<and> type \<le> 5 \<and> bytesdeclared < OSPF_HEADER_SIZE + ospf_packet_minlen ! type
      then Inr MSG_NG
      else if type = 1
      then Inr (if (bytesdeclared - OSPF_HEADER_SIZE - OSPF_HELLO_MIN_SIZE) mod 4 \<noteq> 0
                then MSG_NG else MSG_OK)
      else if type = 2
      then ospf_lsaseq_examin oh (OSPF_HEADER_SIZE + OSPF_DB_DESC_MIN_SIZE)
             (bytesdeclared - OSPF_HEADER_SIZE - OSPF_DB_DESC_MIN_SIZE) True 0
      else if type = 3
      then Inr (if (bytesdeclared - OSPF_HEADER_SIZE - OSPF_LS_REQ_MIN_SIZE) mod OSPF_LSA_KEY_SIZE \<noteq> 0
                then MSG_NG else MSG_OK)
      else if type = 4
      then and_then (rd32n oh OSPF_HEADER_SIZE) (\<lambda>num_lsas.
             ospf_lsaseq_examin oh (OSPF_HEADER_SIZE + OSPF_LS_UPD_MIN_SIZE)
               (bytesdeclared - OSPF_HEADER_SIZE - OSPF_LS_UPD_MIN_SIZE) False num_lsas)
      else if type = 5
      then ospf_lsaseq_examin oh (OSPF_HEADER_SIZE + OSPF_LS_ACK_MIN_SIZE)
             (bytesdeclared - OSPF_HEADER_SIZE - OSPF_LS_ACK_MIN_SIZE) True 0
      else Inr MSG_NG)"

definition ospf_packet_examin :: "u8 list \<Rightarrow> nat \<Rightarrow> msg_result res" where
  "ospf_packet_examin oh bytesonwire =
     (if bytesonwire < OSPF_HEADER_SIZE then Inr MSG_NG
      else and_then (rd8 oh 0) (\<lambda>version.
        if version \<noteq> OSPF_VERSION then Inr MSG_NG
        else and_then (rd8 oh 1) (\<lambda>type.
             and_then (rd16 oh 2) (\<lambda>len.
             and_then (rd16 oh 14) (\<lambda>auth_type.
             and_then (rd8 oh 19) (\<lambda>auth_data_len.
               let bytesdeclared = unat (ntohs len);
                   crypt = (ntohs auth_type = OSPF_AUTH_CRYPTOGRAPHIC);
                   bytesauth = (if crypt then OSPF_AUTH_MD5_SIZE else 0)
               in if crypt \<and> unat auth_data_len \<noteq> OSPF_AUTH_MD5_SIZE then Inr MSG_NG
                  else if bytesdeclared + bytesauth > bytesonwire then Inr MSG_NG
                  else ospf_packet_body_examin oh (unat type) bytesdeclared))))))"

section \<open>A grammar of the packets\<close>

text \<open>
  \<open>tiles ok xs m\<close>: the bytes \<open>xs\<close> are \<open>m\<close> blocks one after the other, each of the form
  \<open>ok\<close>. Blocks that tell their own length are read in one way only; the interface is a function
  that gives the length of the first block.
\<close>

definition tiles :: "('a list \<Rightarrow> bool) \<Rightarrow> 'a list \<Rightarrow> nat \<Rightarrow> bool" where
  "tiles ok xs m \<longleftrightarrow> (\<exists>bs. concat bs = xs \<and> (\<forall>b\<in>set bs. ok b) \<and> length bs = m)"

locale self_delimiting =
  fixes ok :: "'a list \<Rightarrow> bool"
    and nxt :: "'a list \<Rightarrow> nat option"
  assumes nxt_block: "nxt xs = Some k \<Longrightarrow> 0 < k \<and> k \<le> length xs \<and> ok (take k xs)"
    and block_nxt: "ok b \<Longrightarrow> b \<noteq> [] \<and> nxt (b @ r) = Some (length b)"
begin

lemma tiles_Nil: "tiles ok [] m \<longleftrightarrow> m = 0"
proof
  assume "tiles ok [] m"
  then obtain bs where "concat bs = []" "\<forall>b\<in>set bs. ok b" "length bs = m"
    by (auto simp: tiles_def)
  then show "m = 0"
    using block_nxt by (cases bs) auto
qed (simp add: tiles_def)

lemma tiles_Some:
  assumes "nxt xs = Some k"
  shows "tiles ok xs m \<longleftrightarrow> (\<exists>j. m = Suc j \<and> tiles ok (drop k xs) j)"
proof
  assume "tiles ok xs m"
  then obtain bs where bs: "concat bs = xs" "\<forall>b\<in>set bs. ok b" "length bs = m"
    by (auto simp: tiles_def)
  have "xs \<noteq> []"
    using nxt_block [OF assms] by auto
  then obtain b cs where "bs = b # cs"
    using bs by (cases bs) auto
  moreover from this have "k = length b"
    using block_nxt [of b "concat cs"] bs assms by auto
  ultimately show "\<exists>j. m = Suc j \<and> tiles ok (drop k xs) j"
    using bs by (auto simp: tiles_def)
next
  assume "\<exists>j. m = Suc j \<and> tiles ok (drop k xs) j"
  then obtain cs where "concat cs = drop k xs" "\<forall>b\<in>set cs. ok b" "m = Suc (length cs)"
    by (auto simp: tiles_def)
  then show "tiles ok xs m"
    using nxt_block [OF assms] by (auto simp: tiles_def intro!: exI [of _ "take k xs # cs"])
qed

lemma tiles_None:
  assumes "nxt xs = None" "xs \<noteq> []"
  shows "\<not> tiles ok xs m"
proof
  assume "tiles ok xs m"
  then obtain bs where bs: "concat bs = xs" "\<forall>b\<in>set bs. ok b"
    by (auto simp: tiles_def)
  then obtain b cs where "xs = concat (b # cs)" "ok b"
    using assms(2) by (cases bs) auto
  then show False
    using block_nxt [of b "concat cs"] assms(1) by simp
qed

end

text \<open>The blocks: a link description of a Router-LSA, a full LSA, an LSA header on its own.\<close>

definition be16 :: "u8 list \<Rightarrow> nat \<Rightarrow> nat" where
  "be16 bs i = 256 * unat (byte_at bs i) + unat (byte_at bs (Suc i))"

definition link_block :: "u8 list \<Rightarrow> bool" where
  "link_block b \<longleftrightarrow> 12 \<le> length b \<and> length b = 12 + 4 * unat (b ! 9)"

definition lsa_size_ok :: "nat \<Rightarrow> nat \<Rightarrow> bool" where
  "lsa_size_ok type n \<longleftrightarrow> 20 \<le> n \<and>
     (type = 1 \<and> 24 \<le> n \<or> type \<in> {5, 7} \<and> 36 \<le> n \<and> (n - 36) mod 12 = 0 \<or>
      type \<in> {2, 3, 4} \<and> 28 \<le> n \<and> n mod 4 = 0 \<or> type \<in> {9, 10, 11} \<and> n mod 4 = 0)"

definition full_lsa :: "u8 list \<Rightarrow> bool" where
  "full_lsa l \<longleftrightarrow> lsa_size_ok (unat (l ! 3)) (length l) \<and> be16 l 18 = length l \<and>
     (l ! 3 = 1 \<longrightarrow> tiles link_block (drop 24 l) (be16 l 22))"

definition header_lsa :: "u8 list \<Rightarrow> bool" where
  "header_lsa l \<longleftrightarrow> length l = 20 \<and> lsa_size_ok (unat (l ! 3)) (be16 l 18) \<and>
     (l ! 3 = 1 \<longrightarrow> be16 l 18 mod 4 = 0)"

definition next_link :: "u8 list \<Rightarrow> nat option" where
  "next_link xs =
     (if 12 \<le> length xs \<and> 12 + 4 * unat (xs ! 9) \<le> length xs
      then Some (12 + 4 * unat (xs ! 9)) else None)"

definition next_full :: "u8 list \<Rightarrow> nat option" where
  "next_full xs =
     (if be16 xs 18 \<le> length xs \<and> full_lsa (take (be16 xs 18) xs) then Some (be16 xs 18) else None)"

definition next_header :: "u8 list \<Rightarrow> nat option" where
  "next_header xs = (if header_lsa (take 20 xs) then Some 20 else None)"

interpretation links: self_delimiting link_block next_link
  by unfold_locales (auto simp: link_block_def next_link_def nth_append split: if_splits)

lemma be16_append: "Suc i < length b \<Longrightarrow> be16 (b @ r) i = be16 b i"
  by (simp add: be16_def byte_at_append)

lemma be16_take: "Suc i < n \<Longrightarrow> n \<le> length b \<Longrightarrow> be16 (take n b) i = be16 b i"
  by (simp add: be16_def)

lemma full_lsa_length: "full_lsa l \<Longrightarrow> 20 \<le> length l \<and> be16 l 18 = length l"
  by (simp add: full_lsa_def lsa_size_ok_def)

interpretation fulls: self_delimiting full_lsa next_full
proof
  fix xs k
  assume "next_full xs = Some k"
  then show "0 < k \<and> k \<le> length xs \<and> full_lsa (take k xs)"
    using full_lsa_length [of "take k xs"] by (auto simp: next_full_def split: if_splits)
next
  fix b r
  assume b: "full_lsa b"
  then show "b \<noteq> [] \<and> next_full (b @ r) = Some (length b)"
    using full_lsa_length [OF b] by (auto simp: next_full_def be16_append)
qed

interpretation headers: self_delimiting header_lsa next_header
  by unfold_locales (auto simp: next_header_def header_lsa_def split: if_splits)

text \<open>The whole packet.\<close>

definition window :: "nat \<Rightarrow> nat \<Rightarrow> u8 list \<Rightarrow> u8 list" where
  "window i n bs = take n (drop i bs)"

definition wf_body :: "u8 list \<Rightarrow> nat \<Rightarrow> bool" where
  "wf_body oh n \<longleftrightarrow>
     (oh ! 1 = 1 \<and> 44 \<le> n \<and> (n - 44) mod 4 = 0 \<or>
      oh ! 1 = 2 \<and> 32 \<le> n \<and> (\<exists>m. tiles header_lsa (window 32 (n - 32) oh) m) \<or>
      oh ! 1 = 3 \<and> 24 \<le> n \<and> (n - 24) mod 12 = 0 \<or>
      oh ! 1 = 4 \<and> 28 \<le> n \<and>
        (\<exists>m. tiles full_lsa (window 28 (n - 28) oh) m \<and>
             (65536 * be16 oh 24 + be16 oh 26 \<noteq> 0 \<longrightarrow> m = 65536 * be16 oh 24 + be16 oh 26)) \<or>
      oh ! 1 = 5 \<and> 24 \<le> n \<and> (\<exists>m. tiles header_lsa (window 24 (n - 24) oh) m))"

definition wf_packet :: "u8 list \<Rightarrow> nat \<Rightarrow> bool" where
  "wf_packet oh bytesonwire \<longleftrightarrow>
     24 \<le> bytesonwire \<and> oh ! 0 = 2 \<and> wf_body oh (be16 oh 2) \<and>
     (if be16 oh 14 = 2 then oh ! 19 = 16 \<and> be16 oh 2 + 16 \<le> bytesonwire
      else be16 oh 2 \<le> bytesonwire)"

section \<open>The validator accepts the grammar\<close>

lemma unat_ntohs_load16: "unat (ntohs (load16 a b)) = 256 * unat a + unat b"
  by (simp add: htons_def unat_load16)

lemma rd16_be16: "Suc i < length bs \<Longrightarrow> \<exists>w. rd16 bs i = Inr w \<and> unat (ntohs w) = be16 bs i"
  by (simp add: unat_ntohs_load16 be16_def)

lemma window_drop: "drop k (window i n bs) = window (i + k) (n - k) bs"
  by (simp add: window_def drop_take add.commute)

lemma window_nth: "j < n \<Longrightarrow> i + n \<le> length bs \<Longrightarrow> window i n bs ! j = bs ! (i + j)"
  by (simp add: window_def)

lemma window_length: "i + n \<le> length bs \<Longrightarrow> length (window i n bs) = n"
  by (simp add: window_def)

lemma links_loop_tiles:
  "link + linkbytes + 9 \<le> length buf \<Longrightarrow>
   \<exists>r. links_loop buf link linkbytes c = Inr r \<and>
     (\<forall>m. r = Some m \<longleftrightarrow> (\<exists>j. m = c + j \<and> tiles link_block (window link linkbytes buf) j))"
proof (induction buf link linkbytes c rule: links_loop.induct)
  case (1 buf link linkbytes c)
  let ?xs = "window link linkbytes buf" and ?k = "12 + 4 * unat (buf ! (link + 9))"
  have len: "length ?xs = linkbytes"
    using "1.prems" by (simp add: window_length)
  show ?case
  proof (cases "linkbytes = 0")
    case True
    then show ?thesis
      by (auto simp: links_loop.simps window_def links.tiles_Nil)
  next
    case False
    then have rd: "rd8 buf (link + 9) = Inr (buf ! (link + 9))"
      using "1.prems" by simp
    have nine: "?xs ! 9 = buf ! (link + 9)" if "12 \<le> linkbytes"
      using that "1.prems" by (simp add: window_nth)
    show ?thesis
    proof (cases "?k > linkbytes")
      case True
      then have "next_link ?xs = None"
        using nine by (auto simp: next_link_def len)
      then have "\<not> tiles link_block ?xs j" for j
        using False len by (intro links.tiles_None) auto
      moreover have "links_loop buf link linkbytes c = Inr None"
        using True False rd by (simp add: links_loop.simps ospf_sizes)
      ultimately show ?thesis by simp
    next
      case le: False
      then have "next_link ?xs = Some ?k"
        using nine by (auto simp: next_link_def len)
      note step = links.tiles_Some [OF this, unfolded window_drop]
      obtain r where "links_loop buf (link + ?k) (linkbytes - ?k) (Suc c) = Inr r"
        "\<forall>m. r = Some m \<longleftrightarrow>
          (\<exists>j. m = Suc c + j \<and> tiles link_block (window (link + ?k) (linkbytes - ?k) buf) j)"
        using "1.IH" [OF False rd refl] le "1.prems" by (auto simp: ospf_sizes)
      moreover have "links_loop buf link linkbytes c = links_loop buf (link + ?k) (linkbytes - ?k) (Suc c)"
        using le False rd by (subst links_loop.simps) (simp add: ospf_sizes Let_def)
      ultimately show ?thesis
        by (auto simp: step)
    qed
  qed
qed


lemma lsa_type_cases:
  assumes "20 \<le> n"
  shows "(t < OSPF_MAX_LSA \<and> ospf_lsa_minlen ! t \<noteq> 0 \<and> n < OSPF_LSA_HEADER_SIZE + ospf_lsa_minlen ! t) =
    (t = 1 \<and> n < 24 \<or> t \<in> {2, 3, 4} \<and> n < 28 \<or> t \<in> {5, 7} \<and> n < 36)"
proof (cases "t < 12")
  case True
  then have "t = 0 \<or> t = 1 \<or> t = 2 \<or> t = 3 \<or> t = 4 \<or> t = 5 \<or> t = 6 \<or> t = 7 \<or> t = 8 \<or> t = 9 \<or>
      t = 10 \<or> t = 11"
    by arith
  then show ?thesis
    by (elim disjE) (simp_all add: ospf_lsa_minlen_def ospf_sizes)
next
  case False
  then show ?thesis by (simp add: ospf_sizes)
qed

lemma router_minlen: "ospf_lsa_minlen ! Suc 0 = 4"
  by (simp add: ospf_lsa_minlen_def ospf_sizes)

lemma mod4_shift: "24 \<le> n \<Longrightarrow> (n - 24) mod 4 = n mod 4" for n :: nat
  using mod_mult_self2 [of "n - 24" 4 6] by simp

text \<open>All types but the Router-LSA are treated alike, with or without their bodies.\<close>

lemma lsa_examin_other:
  assumes b: "lsah + 20 \<le> length buf" and n: "20 \<le> n" and t: "unat (buf ! (lsah + 3)) = t" "t \<noteq> 1"
  shows "ospf_lsa_examin buf lsah n h = Inr (if lsa_size_ok t n then MSG_OK else MSG_NG)"
proof -
  have rd: "rd8 buf (lsah + 3) = Inr (buf ! (lsah + 3))"
    using b by simp
  note ex = ospf_lsa_examin_def rd and_then.simps Let_def t lsa_type_cases [OF n] lsa_size_ok_def n
  consider "t \<in> {5, 7}" | "t \<in> {2, 3, 4}" | "t \<in> {9, 10, 11}" | "t \<notin> {5, 7, 2, 3, 4, 9, 10, 11}"
    by blast
  then show ?thesis
  proof cases
    case 1
    then have "(t = 5 \<or> t = 7) = True" "(t \<in> {2, 3, 4}) = False" "(t \<in> {9, 10, 11}) = False" "(t \<in> {5, 7}) = True"
      by auto
    then show ?thesis by (simp only: ex) (simp add: ospf_sizes)
  next
    case 2
    then have "(t = 5 \<or> t = 7) = False" "(t \<in> {5, 7}) = False" "(t \<in> {9, 10, 11}) = False"
      "(t \<in> {2, 3, 4}) = True" "(t = 2 \<or> t = 3 \<or> t = 4 \<or> t = 9 \<or> t = 10 \<or> t = 11) = True"
      by auto
    then show ?thesis by (simp only: ex) (simp add: t)
  next
    case 3
    then have "(t = 5 \<or> t = 7) = False" "(t \<in> {5, 7}) = False" "(t \<in> {2, 3, 4}) = False"
      "(t \<in> {9, 10, 11}) = True" "(t = 2 \<or> t = 3 \<or> t = 4 \<or> t = 9 \<or> t = 10 \<or> t = 11) = True"
      by auto
    then show ?thesis by (simp only: ex) (simp add: t)
  next
    case 4
    then have "(t = 5 \<or> t = 7) = False" "(t \<in> {5, 7}) = False" "(t \<in> {2, 3, 4}) = False"
      "(t \<in> {9, 10, 11}) = False" "(t = 2 \<or> t = 3 \<or> t = 4 \<or> t = 9 \<or> t = 10 \<or> t = 11) = False"
      by auto
    then show ?thesis by (simp only: ex) (simp add: t)
  qed
qed

lemma u8_is_1: "(x :: u8) = 1 \<longleftrightarrow> unat x = 1"
  by (simp add: word_unat_eq_iff)

lemma lsa_size_router: "lsa_size_ok 1 n \<longleftrightarrow> 24 \<le> n" "lsa_size_ok (Suc 0) n \<longleftrightarrow> 24 \<le> n"
  by (auto simp: lsa_size_ok_def)

lemma lsa_examin_header:
  assumes "lsah + 20 \<le> length buf" "20 \<le> n"
  shows "ospf_lsa_examin buf lsah n True =
    Inr (if lsa_size_ok (unat (buf ! (lsah + 3))) n \<and> (buf ! (lsah + 3) = 1 \<longrightarrow> n mod 4 = 0)
         then MSG_OK else MSG_NG)"
proof (cases "buf ! (lsah + 3) = 1")
  case True
  then show ?thesis
    using assms
    by (simp add: ospf_lsa_examin_def lsa_size_router router_minlen mod4_shift Let_def ospf_sizes)
next
  case False
  then show ?thesis
    using lsa_examin_other [OF assms refl] by (simp add: u8_is_1)
qed

lemma lsa_examin_full:
  assumes b: "lsah + n + 9 \<le> length buf" and n: "20 \<le> n"
  shows "ospf_lsa_examin buf lsah n False =
    Inr (if lsa_size_ok (unat (buf ! (lsah + 3))) n \<and>
            (buf ! (lsah + 3) = 1 \<longrightarrow>
             tiles link_block (window (lsah + 24) (n - 24) buf) (be16 buf (lsah + 22)))
         then MSG_OK else MSG_NG)"
proof (cases "buf ! (lsah + 3) = 1")
  case True
  obtain w where w: "rd16 buf (lsah + 22) = Inr w" "unat (ntohs w) = be16 buf (lsah + 22)"
    using rd16_be16 [of "lsah + 22" buf] b n by auto
  show ?thesis
  proof (cases "24 \<le> n")
    case n24: True
    obtain r where r: "links_loop buf (lsah + 24) (n - 24) 0 = Inr r"
      "\<forall>m. r = Some m \<longleftrightarrow> (\<exists>j. m = 0 + j \<and> tiles link_block (window (lsah + 24) (n - 24) buf) j)"
      using links_loop_tiles [of "lsah + 24" "n - 24" buf 0] b n24 by auto
    have "ospf_lsa_examin buf lsah n False =
        ospf_router_lsa_links_examin buf (lsah + 24) (n - 24) (be16 buf (lsah + 22))"
      using True w b n24 by (simp add: ospf_lsa_examin_def router_minlen Let_def ospf_sizes)
    also have "\<dots> = Inr (if tiles link_block (window (lsah + 24) (n - 24) buf) (be16 buf (lsah + 22))
        then MSG_OK else MSG_NG)"
      using r by (cases r) (auto simp: ospf_router_lsa_links_examin_def)
    finally show ?thesis
      using True n24 by (simp add: lsa_size_router)
  next
    case False
    then show ?thesis
      using True b n by (simp add: ospf_lsa_examin_def lsa_size_router router_minlen Let_def ospf_sizes)
  qed
next
  case False
  then show ?thesis
    using lsa_examin_other [OF _ n refl, of lsah buf] b n by (simp add: u8_is_1)
qed

lemma be16_window:
  "Suc i < n \<Longrightarrow> lsah + n \<le> length buf \<Longrightarrow> be16 (window lsah n buf) i = be16 buf (lsah + i)"
  by (simp add: be16_def window_length window_nth)

lemma full_lsa_at:
  assumes l: "lsah + n \<le> length buf" and n: "20 \<le> n" "be16 buf (lsah + 18) = n"
  shows "full_lsa (window lsah n buf) \<longleftrightarrow> lsa_size_ok (unat (buf ! (lsah + 3))) n \<and>
    (buf ! (lsah + 3) = 1 \<longrightarrow>
     tiles link_block (window (lsah + 24) (n - 24) buf) (be16 buf (lsah + 22)))"
proof -
  have 3: "window lsah n buf ! 3 = buf ! (lsah + 3)"
    using n l by (simp add: window_nth)
  moreover have "be16 (window lsah n buf) 22 = be16 buf (lsah + 22)" if "lsa_size_ok 1 n"
    using that l by (simp add: be16_window lsa_size_ok_def)
  ultimately show ?thesis
    using l n be16_window [of 18 n lsah buf] by (auto simp: full_lsa_def window_length window_drop)
qed

lemma lsa_size_min: "lsa_size_ok t n \<Longrightarrow> 20 \<le> n"
  by (simp add: lsa_size_ok_def)

lemma full_lsa_window:
  assumes "lsah + len \<le> length buf" "20 \<le> len" "be16 buf (lsah + 18) = n"
  shows "next_full (window lsah len buf) =
    (if n \<le> len \<and> lsa_size_ok (unat (buf ! (lsah + 3))) n \<and>
        (buf ! (lsah + 3) = 1 \<longrightarrow>
         tiles link_block (window (lsah + 24) (n - 24) buf) (be16 buf (lsah + 22)))
     then Some n else None)"
proof -
  have 18: "be16 (window lsah len buf) 18 = n"
    using assms by (simp add: be16_window)
  have t: "take n (window lsah len buf) = window lsah n buf" if "n \<le> len"
    using that by (simp add: window_def min_def)
  show ?thesis
  proof (cases "20 \<le> n \<and> n \<le> len")
    case True
    then show ?thesis
      using full_lsa_at [of lsah n buf] assms window_length [OF assms(1)]
      by (simp add: next_full_def 18 t)
  next
    case False
    moreover have "length (window lsah n buf) \<le> n"
      by (simp add: window_def)
    ultimately show ?thesis
      using full_lsa_length [of "window lsah n buf"] window_length [OF assms(1)]
      by (auto simp: next_full_def 18 t dest: lsa_size_min)
  qed
qed

lemma header_lsa_window:
  assumes "lsah + len \<le> length buf" "20 \<le> len"
  shows "next_header (window lsah len buf) =
    (if lsa_size_ok (unat (buf ! (lsah + 3))) (be16 buf (lsah + 18)) \<and>
        (buf ! (lsah + 3) = 1 \<longrightarrow> be16 buf (lsah + 18) mod 4 = 0)
     then Some 20 else None)"
proof -
  have "take 20 (window lsah len buf) = window lsah 20 buf"
    using assms(2) by (simp add: window_def min_def)
  moreover have "length (window lsah 20 buf) = 20" "window lsah 20 buf ! 3 = buf ! (lsah + 3)"
      "be16 (window lsah 20 buf) 18 = be16 buf (lsah + 18)"
    using assms by (simp_all add: window_length window_nth be16_window)
  ultimately show ?thesis
    by (simp add: next_header_def header_lsa_def)
qed

text \<open>The form of the blocks of a sequence of LSAs.\<close>

definition lsa_form :: "bool \<Rightarrow> u8 list \<Rightarrow> bool" where
  "lsa_form headeronly = (if headeronly then header_lsa else full_lsa)"

definition next_lsa :: "bool \<Rightarrow> u8 list \<Rightarrow> nat option" where
  "next_lsa headeronly = (if headeronly then next_header else next_full)"

lemma lsa_self_delimiting: "self_delimiting (lsa_form h) (next_lsa h)"
  by (simp add: lsa_form_def next_lsa_def fulls.self_delimiting_axioms headers.self_delimiting_axioms)

text \<open>One turn of the loop takes the next block of the grammar or gives up.\<close>

lemma lsaseq_step:
  assumes "lsah + len + 9 \<le> length buf" "len \<noteq> 0"
  shows "lsaseq_loop buf lsah len h c =
    (case next_lsa h (window lsah len buf) of
       None \<Rightarrow> Inr None
     | Some k \<Rightarrow> lsaseq_loop buf (lsah + k) (len - k) h (Suc c))"
proof (cases "len < 20")
  case True
  then have "next_lsa h (window lsah len buf) = None"
    using window_length [of lsah len buf] assms full_lsa_length [of "take k (window lsah len buf)" for k]
    by (auto simp: next_lsa_def next_header_def header_lsa_def next_full_def)
  then show ?thesis
    using True assms by (simp add: lsaseq_loop.simps ospf_sizes)
next
  case False
  then obtain w where w: "rd16 buf (lsah + 18) = Inr w" "unat (ntohs w) = be16 buf (lsah + 18)"
    using rd16_be16 [of "lsah + 18" buf] assms by auto
  let ?n = "be16 buf (lsah + 18)"
  have small: "\<not> lsa_size_ok t ?n" if "?n < 20" for t
    using that by (auto dest: lsa_size_min)
  show ?thesis
  proof (cases "?n < 20")
    case True
    then show ?thesis
      using False assms w header_lsa_window [of lsah len buf] full_lsa_window [of lsah len buf ?n]
      by (subst lsaseq_loop.simps) (simp add: ospf_sizes next_lsa_def small Let_def)
  next
    case n: False
    show ?thesis
      using False n assms w lsa_examin_header [of lsah buf ?n] header_lsa_window [of lsah len buf]
        lsa_examin_full [of lsah ?n buf] full_lsa_window [of lsah len buf ?n]
      by (subst lsaseq_loop.simps) (auto simp: ospf_sizes next_lsa_def Let_def)
  qed
qed

lemma lsaseq_loop_tiles:
  "lsah + len + 9 \<le> length buf \<Longrightarrow>
   \<exists>r. lsaseq_loop buf lsah len h c = Inr r \<and>
     (\<forall>m. r = Some m \<longleftrightarrow> (\<exists>j. m = c + j \<and> tiles (lsa_form h) (window lsah len buf) j))"
proof (induction len arbitrary: lsah c rule: less_induct)
  case (less len)
  note D = lsa_self_delimiting [of h]
  let ?xs = "window lsah len buf"
  have len: "length ?xs = len"
    using less.prems by (simp add: window_length)
  consider "len = 0" | "len \<noteq> 0" "next_lsa h ?xs = None" | k where "len \<noteq> 0" "next_lsa h ?xs = Some k"
    by (cases "next_lsa h ?xs") auto
  then show ?case
  proof cases
    case 1
    then show ?thesis
      by (auto simp: lsaseq_loop.simps window_def self_delimiting.tiles_Nil [OF D])
  next
    case 2
    then have "\<not> tiles (lsa_form h) ?xs j" for j
      using len by (intro self_delimiting.tiles_None [OF D]) auto
    then show ?thesis
      using 2 lsaseq_step [OF less.prems 2(1), of h c] by simp
  next
    case 3
    have k: "0 < k" "k \<le> len"
      using self_delimiting.nxt_block [OF D 3(2)] len by auto
    note step = self_delimiting.tiles_Some [OF D 3(2), unfolded window_drop]
    obtain r where "lsaseq_loop buf (lsah + k) (len - k) h (Suc c) = Inr r"
      "\<forall>m. r = Some m \<longleftrightarrow>
        (\<exists>j. m = Suc c + j \<and> tiles (lsa_form h) (window (lsah + k) (len - k) buf) j)"
      using less.IH [of "len - k" "lsah + k" "Suc c"] k less.prems by auto
    then show ?thesis
      using lsaseq_step [OF less.prems 3(1), of h c] 3(2) by (auto simp: step)
  qed
qed

lemma lsaseq_examin_eq:
  assumes "lsah + len + 9 \<le> length buf"
  shows "ospf_lsaseq_examin buf lsah len h num =
    Inr (if \<exists>m. tiles (lsa_form h) (window lsah len buf) m \<and> (num \<noteq> 0 \<longrightarrow> m = num)
         then MSG_OK else MSG_NG)"
proof -
  obtain r where "lsaseq_loop buf lsah len h 0 = Inr r"
    "\<forall>m. r = Some m \<longleftrightarrow> tiles (lsa_form h) (window lsah len buf) m"
    using lsaseq_loop_tiles [OF assms, of h 0] by auto
  then show ?thesis
    by (cases r) (auto simp: ospf_lsaseq_examin_def)
qed

lemma rd32n_be16: "i + 3 < length bs \<Longrightarrow> rd32n bs i = Inr (65536 * be16 bs i + be16 bs (i + 2))"
  by (simp add: rd32n_def unat_ntohs_load16 be16_def add.commute)

lemma u8_is_numeral: "(x :: u8) = numeral k \<longleftrightarrow> unat x = unat (numeral k :: u8)"
  by (simp only: word_unat_eq_iff)

lemma body_examin_wf:
  assumes b: "n + 9 \<le> length oh" "24 \<le> length oh"
  shows "ospf_packet_body_examin oh (unat (oh ! 1)) n =
    Inr (if wf_body oh n then MSG_OK else MSG_NG)"
proof -
  define t where "t = unat (oh ! 1)"
  have t: "oh ! 1 = 1 \<longleftrightarrow> t = 1" "oh ! 1 = 2 \<longleftrightarrow> t = 2" "oh ! 1 = 3 \<longleftrightarrow> t = 3" "oh ! 1 = 4 \<longleftrightarrow> t = 4"
      "oh ! 1 = 5 \<longleftrightarrow> t = 5"
    by (simp_all add: t_def u8_is_1 u8_is_numeral)
  have seq: "ospf_lsaseq_examin oh i (n - i) h num =
      Inr (if \<exists>m. tiles (lsa_form h) (window i (n - i) oh) m \<and> (num \<noteq> 0 \<longrightarrow> m = num)
           then MSG_OK else MSG_NG)" if "i \<le> n" for i h num
    using lsaseq_examin_eq [of i "n - i" oh h num] that b by simp
  have num: "rd32n oh 24 = Inr (65536 * be16 oh 24 + be16 oh 26)" if "28 \<le> n"
    using rd32n_be16 [of 24 oh] that b by simp
  consider "t = 1" | "t = 2" | "t = 3" | "t = 4" | "t = 5" | "t \<notin> {1, 2, 3, 4, 5}"
    by blast
  then show ?thesis
    unfolding t_def [symmetric] wf_body_def t
    by cases (simp_all add: ospf_packet_body_examin_def ospf_packet_minlen_def ospf_sizes seq num
        lsa_form_def not_less)
qed

section \<open>Properties of the validator\<close>

text \<open>C6: \<open>ospf_packet_examin\<close> returns, reads nothing behind the ninth byte after the packet, and
  accepts exactly the packets of the grammar: version, declared length and authentication trailer
  fit the bytes received, and the body is a whole number of neighbours, request blocks or LSAs, the
  LSAs of an update fill the declared length exactly, have their type's minimal size and alignment,
  the links of a Router-LSA fill it exactly and agree with its link count, and the number of LSAs is
  the declared one unless zero is declared.\<close>

theorem ospf_packet_examin_iff_wf:
  assumes "bytesonwire + 9 \<le> length oh"
  shows "ospf_packet_examin oh bytesonwire =
    Inr (if wf_packet oh bytesonwire then MSG_OK else MSG_NG)"
proof (cases "24 \<le> bytesonwire")
  case True
  obtain w v where w: "rd16 oh 2 = Inr w" "unat (ntohs w) = be16 oh 2"
      and v: "rd16 oh 14 = Inr v" "unat (ntohs v) = be16 oh 14"
    using rd16_be16 [of 2 oh] rd16_be16 [of 14 oh] True assms by auto
  have rd: "rd8 oh 0 = Inr (oh ! 0)" "rd8 oh 1 = Inr (oh ! 1)" "rd8 oh 19 = Inr (oh ! 19)"
    using True assms by (auto simp: rd8_def)
  have crypt: "ntohs v = OSPF_AUTH_CRYPTOGRAPHIC \<longleftrightarrow> be16 oh 14 = 2"
    using v(2) by (simp add: word_unat_eq_iff OSPF_AUTH_CRYPTOGRAPHIC_def)
  have len: "unat (oh ! 19) = 16 \<longleftrightarrow> oh ! 19 = 16"
    by (simp add: u8_is_numeral)
  have body: "ospf_packet_body_examin oh (unat (oh ! 1)) (be16 oh 2) =
      Inr (if wf_body oh (be16 oh 2) then MSG_OK else MSG_NG)" if "be16 oh 2 \<le> bytesonwire"
    using body_examin_wf [of "be16 oh 2" oh] that assms True by simp
  have "ospf_packet_examin oh bytesonwire =
      (if oh ! 0 \<noteq> 2 \<or> be16 oh 14 = 2 \<and> oh ! 19 \<noteq> 16 \<or>
          be16 oh 2 + (if be16 oh 14 = 2 then 16 else 0) > bytesonwire then Inr MSG_NG
       else ospf_packet_body_examin oh (unat (oh ! 1)) (be16 oh 2))"
    unfolding ospf_packet_examin_def rd w(1) v(1) and_then.simps Let_def crypt w(2)
    using True len by (simp add: ospf_sizes OSPF_VERSION_def)
  then show ?thesis
    using True body by (auto simp: wf_packet_def not_less)
next
  case False
  then show ?thesis
    by (simp add: ospf_packet_examin_def wf_packet_def ospf_sizes)
qed


lemmas examin_eval =
  ospf_packet_examin_def ospf_packet_body_examin_def ospf_lsaseq_examin_def lsaseq_loop.simps
  ospf_lsa_examin_def ospf_router_lsa_links_examin_def links_loop.simps rd32n_def rd16_def rd8_def
  unat_ntohs_load16 ospf_packet_minlen_def ospf_lsa_minlen_def ospf_sizes OSPF_VERSION_def
  OSPF_AUTH_CRYPTOGRAPHIC_def htons_def load16_def Let_def

text \<open>An update with one Router-LSA of one link, and the same packet with a wrong link count.\<close>

definition sample_update :: "u8 list" where
  "sample_update =
     [2, 4, 0, 64, 192, 0, 2, 1, 0, 0, 0, 0, 0, 0, 0, 0, 0, 0, 0, 0, 0, 0, 0, 0, 0, 0, 0, 1] @
     [0, 1, 2, 1, 192, 0, 2, 1, 192, 0, 2, 1, 128, 0, 0, 1, 0, 0, 0, 36] @
     [0, 0, 0, 1, 192, 0, 2, 0, 255, 255, 255, 0, 3, 0, 0, 10]"

theorem ospf_packet_examin_iff_wf_witness:
  "ospf_packet_examin (sample_update @ replicate 9 0) 64 =
     Inr (if wf_packet (sample_update @ replicate 9 0) 64 then MSG_OK else MSG_NG) \<and>
   ospf_packet_examin (sample_update @ replicate 9 0) 64 = Inr MSG_OK \<and>
   ospf_packet_examin (sample_update[51 := 2] @ replicate 9 0) 64 = Inr MSG_NG"
proof (intro conjI)
  show "ospf_packet_examin (sample_update @ replicate 9 0) 64 =
     Inr (if wf_packet (sample_update @ replicate 9 0) 64 then MSG_OK else MSG_NG)"
    by (rule ospf_packet_examin_iff_wf) (simp add: sample_update_def)
qed (simp_all add: sample_update_def examin_eval)

text \<open>when the packet fills its buffer, the validator itself reads behind the end: the link
  count of a Router-LSA is read at byte 9 of a link block although fewer bytes are left. Here an
  update ends one byte into a link block.\<close>

theorem ospf_examin_reads_past_end:
  "ospf_packet_examin
     ([2, 4, 0, 53, 192, 0, 2, 1, 0, 0, 0, 0, 0, 0, 0, 0, 0, 0, 0, 0, 0, 0, 0, 0, 0, 0, 0, 1] @
      [0, 1, 2, 1, 192, 0, 2, 1, 192, 0, 2, 1, 128, 0, 0, 1, 0, 0, 0, 25] @
      [0, 0, 0, 1, 192]) 53 = Inl OutOfBounds"
  by (simp add: examin_eval)

end
