(* ===== verification/OspfLsdb.thy ===== *)
theory OspfLsdb
  imports OspfLsa OspfExamin RouteMap
begin

text \<open>
  The link state database (\<^verbatim>\<open>ospfd/ospf_lsdb.c\<close>): one routing table per type of advertisement,
  keyed by the identifier and the advertising router, with counters beside it. The tables are those
  of \<^verbatim>\<open>RouteTable\<close>, with their nodes and locks; the advertisements are the reference-counted
  objects of \<^verbatim>\<open>OspfLsa\<close>. A database and the memory of the advertisements are passed as a pair.

  The invariant ties the four counters to the content of the tables and the reference counts of the
  objects to the tables that store them; the operations are shown to implement those of a map from
  types and keys to advertisements.
\<close>

section \<open>Databases\<close>

record lsdb_type =
  ty_count :: u64
  ty_count_self :: u64
  ty_checksum :: u32
  ty_db :: "nat route_table option"

record ospf_lsdb =
  ld_type :: "lsdb_type list"
  ld_total :: u64
  ld_new_hook :: bool
  ld_del_hook :: bool

type_synonym lsdb_state = "ospf_lsdb \<times> lsa_mem"

definition OSPF_MIN_LSA :: nat where "OSPF_MIN_LSA = 1"

abbreviation lsa_types :: "nat list" where
  "lsa_types \<equiv> [OSPF_MIN_LSA..<OSPF_MAX_LSA]"

text \<open>\<open>lsdb->type[i]\<close> and its table; indices are checked, the table of type 0 is null.\<close>

definition get_type :: "ospf_lsdb \<Rightarrow> nat \<Rightarrow> lsdb_type res" where
  "get_type lsdb i = (if i < length (ld_type lsdb) then Inr (ld_type lsdb ! i) else Inl OutOfBounds)"

definition get_table :: "ospf_lsdb \<Rightarrow> nat \<Rightarrow> nat route_table res" where
  "get_table lsdb i =
     and_then (get_type lsdb i) (\<lambda>ty. case ty_db ty of None \<Rightarrow> Inl NullDeref | Some t \<Rightarrow> Inr t)"

definition upd_type :: "nat \<Rightarrow> (lsdb_type \<Rightarrow> lsdb_type) \<Rightarrow> ospf_lsdb \<Rightarrow> ospf_lsdb" where
  "upd_type i f lsdb = lsdb\<lparr>ld_type := (ld_type lsdb)[i := f (ld_type lsdb ! i)]\<rparr>"

definition put_table :: "nat \<Rightarrow> nat route_table \<Rightarrow> ospf_lsdb \<Rightarrow> ospf_lsdb" where
  "put_table i t = upd_type i (\<lambda>ty. ty\<lparr>ty_db := Some t\<rparr>)"

text \<open>\<open>for (i = OSPF_MIN_LSA; i < OSPF_MAX_LSA; i++)\<close>\<close>

fun each_type :: "nat list \<Rightarrow> (nat \<Rightarrow> 's \<Rightarrow> 's res) \<Rightarrow> 's \<Rightarrow> 's res" where
  "each_type [] f s = Inr s"
| "each_type (i # is) f s = and_then (f i s) (each_type is f)"

definition ospf_lsdb_init :: "ospf_lsdb \<Rightarrow> ospf_lsdb" where
  "ospf_lsdb_init lsdb = fold (\<lambda>i. put_table i route_table_init) lsa_types lsdb"

definition ospf_lsdb_new :: ospf_lsdb where
  "ospf_lsdb_new =
     ospf_lsdb_init \<lparr>ld_type = replicate OSPF_MAX_LSA \<lparr>ty_count = 0, ty_count_self = 0, ty_checksum = 0,
       ty_db = None\<rparr>, ld_total = 0, ld_new_hook = False, ld_del_hook = False\<rparr>"

text \<open>The key of an advertisement: eight bytes, the identifier and the advertising router.\<close>

definition prefix_ls :: "u32 \<Rightarrow> u32 \<Rightarrow> prefix" where
  "prefix_ls ident adv =
     \<lparr>family = AF_UNSPEC, prefixlen = 64, u_prefix = store32 ident @ store32 adv @ replicate 8 0\<rparr>"

definition ls_prefix_set :: "ospf_lsa \<Rightarrow> prefix" where
  "ls_prefix_set lsa = prefix_ls (h_id (lsa_data lsa)) (h_adv_router (lsa_data lsa))"

section \<open>Operations\<close>

text \<open>
  \<open>i\<close> is the type whose table holds the node \<open>rn\<close>; the assertion of the source compares the
  table of the node with the table for the type of the advertisement.
\<close>

definition ospf_lsdb_delete_entry :: "nat \<Rightarrow> nat \<Rightarrow> lsdb_state \<Rightarrow> lsdb_state res" where
  "ospf_lsdb_delete_entry i rn = (\<lambda>(lsdb, mem).
     and_then (get_table lsdb i) (\<lambda>table.
     and_then (info_of rn table) (\<lambda>info.
       case info of
         None \<Rightarrow> Inr (lsdb, mem)
       | Some lsa \<Rightarrow>
           and_then (deref_lsa mem lsa) (\<lambda>x.
             let ty = unat (h_type (lsa_data x))
             in and_then (get_type lsdb ty) (\<lambda>_.
                and_then (ensure (i = ty)) (\<lambda>_.
                  let lsdb = (if IS_LSA_SELF x
                              then upd_type ty (\<lambda>t. t\<lparr>ty_count_self := ty_count_self t - 1\<rparr>) lsdb else lsdb);
                      lsdb = upd_type ty (\<lambda>t. t\<lparr>ty_count := ty_count t - 1\<rparr>) lsdb;
                      lsdb = upd_type ty (\<lambda>t. t\<lparr>ty_checksum :=
                               ty_checksum t - ucast (ntohs (h_checksum (lsa_data x)))\<rparr>) lsdb;
                      lsdb = lsdb\<lparr>ld_total := ld_total lsdb - 1\<rparr>
                  in and_then (set_info rn None table) (\<lambda>table.
                     and_then (route_unlock_node rn table) (\<lambda>table.
                       let lsdb = put_table ty table lsdb;
                           mem = (if ld_del_hook lsdb then mem\<lparr>lm_hooks := lm_hooks mem @ [DelLsa lsa]\<rparr>
                                  else mem)
                       in and_then (ospf_lsa_unlock (Some lsa) mem) (\<lambda>(mem, _). Inr (lsdb, mem))))))))))"

text \<open>The second half of \<open>ospf_lsdb_add\<close>: the node has no data (any more).\<close>

definition add_entry :: "nat \<Rightarrow> nat \<Rightarrow> nat \<Rightarrow> ospf_lsa \<Rightarrow> lsdb_state \<Rightarrow> lsdb_state res" where
  "add_entry ty rn lsa x = (\<lambda>(lsdb, mem).
     let lsdb = (if IS_LSA_SELF x
                 then upd_type ty (\<lambda>t. t\<lparr>ty_count_self := ty_count_self t + 1\<rparr>) lsdb else lsdb);
         lsdb = upd_type ty (\<lambda>t. t\<lparr>ty_count := ty_count t + 1\<rparr>) lsdb;
         lsdb = lsdb\<lparr>ld_total := ld_total lsdb + 1\<rparr>;
         mem = (if ld_new_hook lsdb then mem\<lparr>lm_hooks := lm_hooks mem @ [NewLsa lsa]\<rparr> else mem);
         lsdb = upd_type ty (\<lambda>t. t\<lparr>ty_checksum :=
                  ty_checksum t + ucast (ntohs (h_checksum (lsa_data x)))\<rparr>) lsdb
     in and_then (ospf_lsa_lock lsa mem) (\<lambda>mem.
        and_then (get_table lsdb ty) (\<lambda>table.
        and_then (set_info rn (Some lsa) table) (\<lambda>table.
          Inr (put_table ty table lsdb, mem)))))"

definition ospf_lsdb_add :: "nat \<Rightarrow> lsdb_state \<Rightarrow> lsdb_state res" where
  "ospf_lsdb_add lsa = (\<lambda>(lsdb, mem).
     and_then (deref_lsa mem lsa) (\<lambda>x.
       let ty = unat (h_type (lsa_data x))
       in and_then (get_table lsdb ty) (\<lambda>table.
          and_then (route_node_get table (ls_prefix_set x)) (\<lambda>(table, rn).
          and_then (info_of rn table) (\<lambda>info.
            if info = Some lsa
            then and_then (route_unlock_node rn table) (\<lambda>table. Inr (put_table ty table lsdb, mem))
            else and_then (if info \<noteq> None
                           then ospf_lsdb_delete_entry ty rn (put_table ty table lsdb, mem)
                           else Inr (put_table ty table lsdb, mem)) (add_entry ty rn lsa x))))))"

definition ospf_lsdb_delete :: "nat option \<Rightarrow> lsdb_state \<Rightarrow> lsdb_state res" where
  "ospf_lsdb_delete p = (\<lambda>(lsdb, mem).
     case p of
       None \<Rightarrow> Inr (lsdb, mem)
     | Some lsa \<Rightarrow>
         and_then (deref_lsa mem lsa) (\<lambda>x.
           let ty = unat (h_type (lsa_data x))
           in and_then (ensure (ty < OSPF_MAX_LSA)) (\<lambda>_.
              and_then (get_table lsdb ty) (\<lambda>table.
              and_then (route_node_lookup table (ls_prefix_set x)) (\<lambda>(table, r).
                case r of
                  None \<Rightarrow> Inr (put_table ty table lsdb, mem)
                | Some rn \<Rightarrow>
                    and_then (info_of rn table) (\<lambda>info.
                    and_then (if info = Some lsa
                              then ospf_lsdb_delete_entry ty rn (put_table ty table lsdb, mem)
                              else Inr (put_table ty table lsdb, mem)) (\<lambda>(lsdb, mem).
                    and_then (get_table lsdb ty) (\<lambda>table.
                    and_then (route_unlock_node rn table) (\<lambda>table.
                      Inr (put_table ty table lsdb, mem))))))))))"

text \<open>The loop over the nodes of the table of type \<open>i\<close>.\<close>

definition lsdb_loop :: "nat \<Rightarrow> (nat \<Rightarrow> lsdb_state \<Rightarrow> lsdb_state res) \<Rightarrow> lsdb_state \<Rightarrow> lsdb_state res" where
  "lsdb_loop i body = (\<lambda>(lsdb, mem).
     and_then (get_table lsdb i) (\<lambda>_.
       rt_for (\<lambda>(lsdb, mem). the (ty_db (ld_type lsdb ! i)))
              (\<lambda>t (lsdb, mem). (put_table i t lsdb, mem)) body (lsdb, mem)))"

definition ospf_lsdb_delete_all :: "lsdb_state \<Rightarrow> lsdb_state res" where
  "ospf_lsdb_delete_all = each_type lsa_types (\<lambda>i. lsdb_loop i (ospf_lsdb_delete_entry i))"

definition LSA_SPF_NOT_EXPLORED :: int where "LSA_SPF_NOT_EXPLORED = -1"

definition ospf_lsdb_clean_stat :: "lsdb_state \<Rightarrow> lsdb_state res" where
  "ospf_lsdb_clean_stat =
     each_type lsa_types (\<lambda>i. lsdb_loop i (\<lambda>rn (lsdb, mem).
       and_then (get_table lsdb i) (\<lambda>table.
       and_then (info_of rn table) (\<lambda>info. case info of
          None \<Rightarrow> Inr (lsdb, mem)
        | Some lsa \<Rightarrow> and_then (upd_lsa lsa (\<lambda>x. x\<lparr>lsa_stat := LSA_SPF_NOT_EXPLORED\<rparr>) mem)
                       (\<lambda>mem. Inr (lsdb, mem))))))"

definition lookup_key :: "nat \<Rightarrow> prefix \<Rightarrow> ospf_lsdb \<Rightarrow> (ospf_lsdb \<times> nat option) res" where
  "lookup_key i lp lsdb =
     and_then (get_table lsdb i) (\<lambda>table.
     and_then (and_then (route_node_lookup table lp) (\<lambda>(table, r). case r of
        None \<Rightarrow> Inr (table, None)
      | Some rn \<Rightarrow> and_then (info_of rn table) (\<lambda>v.
                    and_then (route_unlock_node rn table) (\<lambda>table. Inr (table, v)))))
       (\<lambda>(table, v). Inr (put_table i table lsdb, v)))"

definition ospf_lsdb_lookup :: "nat \<Rightarrow> lsdb_state \<Rightarrow> (lsdb_state \<times> nat option) res" where
  "ospf_lsdb_lookup lsa = (\<lambda>(lsdb, mem).
     and_then (deref_lsa mem lsa) (\<lambda>x.
     and_then (lookup_key (unat (h_type (lsa_data x))) (ls_prefix_set x) lsdb) (\<lambda>(lsdb, v).
       Inr ((lsdb, mem), v))))"

definition ospf_lsdb_lookup_by_id :: "u8 \<Rightarrow> u32 \<Rightarrow> u32 \<Rightarrow> ospf_lsdb \<Rightarrow> (ospf_lsdb \<times> nat option) res" where
  "ospf_lsdb_lookup_by_id type ident adv = lookup_key (unat type) (prefix_ls ident adv)"

text \<open>The loop \<open>for (; rn; rn = route_next (rn)) if (rn->info) break;\<close>.\<close>

fun info_walk :: "nat \<Rightarrow> nat option \<Rightarrow> 'a route_table \<Rightarrow> ('a route_table \<times> (nat \<times> 'a) option) res" where
  "info_walk 0 rn table = Inl Diverged"
| "info_walk (Suc fuel) rn table =
     (case rn of
        None \<Rightarrow> Inr (table, None)
      | Some a \<Rightarrow> and_then (info_of a table) (\<lambda>v. case v of
          Some i \<Rightarrow> Inr (table, Some (a, i))
        | None \<Rightarrow> and_then (route_next table a) (\<lambda>(table, rn). info_walk fuel rn table)))"

definition ospf_lsdb_lookup_by_id_next ::
    "u8 \<Rightarrow> u32 \<Rightarrow> u32 \<Rightarrow> bool \<Rightarrow> ospf_lsdb \<Rightarrow> (ospf_lsdb \<times> nat option) res" where
  "ospf_lsdb_lookup_by_id_next type ident adv first lsdb =
     (let i = unat type in
      and_then (get_table lsdb i) (\<lambda>table.
        let walk = (\<lambda>table rn.
          and_then (info_walk (Suc (walk_fuel table)) rn table) (\<lambda>(table, found). case found of
             None \<Rightarrow> Inr (put_table i table lsdb, None)
           | Some (a, lsa) \<Rightarrow> and_then (route_unlock_node a table) (\<lambda>table.
                                Inr (put_table i table lsdb, Some lsa))))
        in if first then and_then (route_top table) (\<lambda>(table, rn). walk table rn)
           else and_then (route_node_lookup table (prefix_ls ident adv)) (\<lambda>(table, r). case r of
                  None \<Rightarrow> Inr (put_table i table lsdb, None)
                | Some a \<Rightarrow> and_then (route_next table a) (\<lambda>(table, rn). walk table rn))))"

definition ospf_lsdb_count_all :: "ospf_lsdb \<Rightarrow> u64" where
  "ospf_lsdb_count_all lsdb = ld_total lsdb"

definition ospf_lsdb_count :: "ospf_lsdb \<Rightarrow> nat \<Rightarrow> u64 res" where
  "ospf_lsdb_count lsdb i = and_then (get_type lsdb i) (\<lambda>t. Inr (ty_count t))"

definition ospf_lsdb_count_self :: "ospf_lsdb \<Rightarrow> nat \<Rightarrow> u64 res" where
  "ospf_lsdb_count_self lsdb i = and_then (get_type lsdb i) (\<lambda>t. Inr (ty_count_self t))"

definition ospf_lsdb_checksum :: "ospf_lsdb \<Rightarrow> nat \<Rightarrow> u32 res" where
  "ospf_lsdb_checksum lsdb i = and_then (get_type lsdb i) (\<lambda>t. Inr (ty_checksum t))"

definition ospf_lsdb_isempty :: "ospf_lsdb \<Rightarrow> bool" where
  "ospf_lsdb_isempty lsdb \<longleftrightarrow> ld_total lsdb = 0"

definition finish_tables :: "lsdb_state \<Rightarrow> lsdb_state res" where
  "finish_tables = each_type lsa_types (\<lambda>i (lsdb, mem).
     and_then (get_table lsdb i) (\<lambda>table.
     and_then (route_table_finish table) (\<lambda>_.
       Inr (upd_type i (\<lambda>t. t\<lparr>ty_db := None\<rparr>) lsdb, mem))))"

definition ospf_lsdb_cleanup :: "lsdb_state \<Rightarrow> lsdb_state res" where
  "ospf_lsdb_cleanup s =
     and_then (ensure (ld_total (fst s) = 0)) (\<lambda>_.
     and_then (ospf_lsdb_delete_all s) finish_tables)"

section \<open>Sums over a map\<close>

definition tally :: "('v \<Rightarrow> 'b::comm_monoid_add) \<Rightarrow> ('k \<rightharpoonup> 'v) \<Rightarrow> 'b" where
  "tally f m = (\<Sum>k \<in> dom m. f (the (m k)))"

lemma tally_empty [simp]: "tally f Map.empty = 0"
  by (simp add: tally_def)

lemma tally_split:
  assumes "finite (dom m)" "m k = Some v"
  shows "tally f m = f v + tally f (m(k := None))"
proof -
  have "tally f m = f (the (m k)) + (\<Sum>j \<in> dom m - {k}. f (the (m j)))"
    using sum.remove [OF assms(1), of k "\<lambda>k. f (the (m k))"] assms(2) by (simp add: tally_def domI)
  moreover have "(\<Sum>j \<in> dom m - {k}. f (the (m j))) = tally f (m(k := None))"
    unfolding tally_def by (rule sum.cong) auto
  ultimately show ?thesis using assms(2) by simp
qed

lemma tally_insert: "finite (dom m) \<Longrightarrow> tally f (m(k \<mapsto> v)) = f v + tally f (m(k := None))"
  using tally_split [of "m(k \<mapsto> v)" k v f] by simp

lemma tally_cong: "(\<And>k v. m k = Some v \<Longrightarrow> f v = g v) \<Longrightarrow> tally f m = tally g m"
  unfolding tally_def by (rule sum.cong) (auto simp: dom_def)

lemma tally_mem:
  assumes "finite (dom m)" "m k = Some l"
  shows "l \<in># tally (\<lambda>l. {#l#}) m"
  using tally_split [OF assms, of "\<lambda>l. {#l#}"] by simp

section \<open>The invariant\<close>

text \<open>
  \<open>D i\<close> is the content of the table of type \<open>i\<close> and \<open>Ls i\<close> the locks that are out on
  its nodes. The counters are sums over the content.
\<close>

definition self_at :: "lsa_mem \<Rightarrow> nat \<Rightarrow> bool" where
  "self_at mem l = IS_LSA_SELF (the (lm_lsas mem l))"

definition cksum_at :: "lsa_mem \<Rightarrow> nat \<Rightarrow> u32" where
  "cksum_at mem l = ucast (ntohs (h_checksum (lsa_data (the (lm_lsas mem l)))))"

definition lsa_at :: "lsa_mem \<Rightarrow> nat \<Rightarrow> nat \<Rightarrow> bool list \<Rightarrow> bool" where
  "lsa_at mem l i k \<longleftrightarrow> (\<exists>x. lm_lsas mem l = Some x \<and> unat (h_type (lsa_data x)) = i \<and>
     prefix_key (ls_prefix_set x) = k)"

definition type_ok :: "lsa_mem \<Rightarrow> nat \<Rightarrow> (bool list \<rightharpoonup> nat) \<Rightarrow> nat multiset \<Rightarrow> lsdb_type \<Rightarrow> bool" where
  "type_ok mem i m L T \<longleftrightarrow> (\<exists>t. ty_db T = Some t \<and> rt_stores t m L) \<and> finite (dom m) \<and>
     (\<forall>k l. m k = Some l \<longrightarrow> lsa_at mem l i k) \<and>
     ty_count T = tally (\<lambda>_. 1) m \<and> ty_count_self T = tally (\<lambda>l. of_bool (self_at mem l)) m \<and>
     ty_checksum T = tally (cksum_at mem) m"

type_synonym content = "nat \<Rightarrow> bool list \<rightharpoonup> nat"

definition lsdb_ok :: "lsa_mem \<Rightarrow> content \<Rightarrow> (nat \<Rightarrow> nat multiset) \<Rightarrow> ospf_lsdb \<Rightarrow> bool" where
  "lsdb_ok mem D Ls lsdb \<longleftrightarrow> length (ld_type lsdb) = OSPF_MAX_LSA \<and>
     (\<forall>i \<in> set lsa_types. type_ok mem i (D i) (Ls i) (ld_type lsdb ! i)) \<and>
     ld_total lsdb = (\<Sum>i \<in> set lsa_types. tally (\<lambda>_. 1) (D i))"

definition refs :: "content \<Rightarrow> nat multiset" where
  "refs D = (\<Sum>i \<in> set lsa_types. tally (\<lambda>l. {#l#}) (D i))"

definition lsdb_rep :: "lsdb_state \<Rightarrow> content \<Rightarrow> (nat \<Rightarrow> nat multiset) \<Rightarrow> nat multiset \<Rightarrow> bool" where
  "lsdb_rep s D Ls R \<longleftrightarrow> lsdb_ok (snd s) D Ls (fst s) \<and> mem_ok (snd s) (refs D + R)"

lemma sum_upd:
  assumes "i \<in> set lsa_types"
  shows "(\<Sum>j \<in> set lsa_types. f ((D(i := m)) j)) = f m + (\<Sum>j \<in> set lsa_types - {i}. f (D j))"
  using assms by (subst sum.remove [of _ i]) (auto intro: sum.cong)

text \<open>Only the flags and the header matter for a database.\<close>

definition same_data :: "lsa_mem \<Rightarrow> lsa_mem \<Rightarrow> bool" where
  "same_data mem mem' \<longleftrightarrow> (\<forall>l x x'. lm_lsas mem l = Some x \<longrightarrow> lm_lsas mem' l = Some x' \<longrightarrow>
     lsa_flags x' = lsa_flags x \<and> lsa_data x' = lsa_data x)"

lemma same_content_data: "same_content mem mem' \<Longrightarrow> same_data mem mem'"
  unfolding same_content_def same_data_def lsa_content_def by blast

lemma lsa_at_data:
  assumes "lsa_at mem l i k" "same_data mem mem'" "l \<in> dom (lm_lsas mem')"
  shows "lsa_at mem' l i k" "self_at mem' l = self_at mem l" "cksum_at mem' l = cksum_at mem l"
proof -
  from assms obtain x x' where "lm_lsas mem l = Some x" "lm_lsas mem' l = Some x'"
    "lsa_flags x' = lsa_flags x" "lsa_data x' = lsa_data x" "unat (h_type (lsa_data x)) = i" "prefix_key (ls_prefix_set x) = k"
    unfolding lsa_at_def same_data_def by blast
  then show "lsa_at mem' l i k" "self_at mem' l = self_at mem l" "cksum_at mem' l = cksum_at mem l"
    by (auto simp: lsa_at_def self_at_def cksum_at_def ls_prefix_set_def)
qed

lemmas lsa_at_content = lsa_at_data [OF _ same_content_data]

lemma type_ok_data:
  assumes "type_ok mem i m L T" "same_data mem mem'" "ran m \<subseteq> dom (lm_lsas mem')"
  shows "type_ok mem' i m L T"
proof -
  have at: "lsa_at mem' l i k \<and> self_at mem' l = self_at mem l \<and> cksum_at mem' l = cksum_at mem l"
    if "m k = Some l" for k l
  proof -
    have "lsa_at mem l i k" "l \<in> dom (lm_lsas mem')"
      using assms(1,3) that ranI [of m k l] unfolding type_ok_def by blast+
    then show ?thesis using lsa_at_data [OF _ assms(2)] by blast
  qed
  have "tally (cksum_at mem') m = tally (cksum_at mem) m"
    "tally (\<lambda>l. of_bool (self_at mem' l)) m = (tally (\<lambda>l. of_bool (self_at mem l)) m :: u64)"
    using at by (auto intro!: tally_cong)
  then show ?thesis using assms(1) at by (auto simp: type_ok_def)
qed

lemmas type_ok_content = type_ok_data [OF _ same_content_data]

lemma refs_mem:
  assumes "i \<in> set lsa_types" "finite (dom (D i))"
  shows "ran (D i) \<subseteq> set_mset (refs D)"
proof
  fix l
  assume "l \<in> ran (D i)"
  then obtain k where "D i k = Some l" by (auto simp: ran_def)
  with assms(2) have "l \<in># tally (\<lambda>l. {#l#}) (D i)" by (intro tally_mem)
  then show "l \<in> set_mset (refs D)"
    using assms(1) by (auto simp: refs_def sum.remove [of _ i])
qed

lemma refs_live:
  assumes "mem_ok mem (refs D + R)" "i \<in> set lsa_types" "finite (dom (D i))"
  shows "ran (D i) \<subseteq> dom (lm_lsas mem)"
  using refs_mem [of i D] assms by (auto simp: mem_ok_def)

section \<open>Steps\<close>

lemma upd_type_simps [simp]:
  "ld_total (upd_type i f d) = ld_total d" "ld_new_hook (upd_type i f d) = ld_new_hook d"
  "ld_del_hook (upd_type i f d) = ld_del_hook d" "length (ld_type (upd_type i f d)) = length (ld_type d)"
  "upd_type i f (d\<lparr>ld_total := n\<rparr>) = (upd_type i f d)\<lparr>ld_total := n\<rparr>"
  by (simp_all add: upd_type_def)

lemma upd_type_nth [simp]:
  "i < length (ld_type d) \<Longrightarrow> ld_type (upd_type i f d) ! j = (if j = i then f (ld_type d ! i) else ld_type d ! j)"
  by (simp add: upd_type_def nth_list_update)

lemma count_self_idem [simp]: "T\<lparr>ty_count_self := ty_count_self T\<rparr> = T"
  by (cases T) simp

lemma total_idem [simp]: "(upd_type i f d)\<lparr>ld_total := ld_total d\<rparr> = upd_type i f d"
  by (simp add: upd_type_def)

lemma upd_type_twice:
  "i < length (ld_type d) \<Longrightarrow> upd_type i f (upd_type i g d) = upd_type i (\<lambda>T. f (g T)) d"
  by (simp add: upd_type_def)

lemma lsdb_okD:
  assumes "lsdb_ok mem D Ls lsdb" "i \<in> set lsa_types"
  shows "i < length (ld_type lsdb)" "type_ok mem i (D i) (Ls i) (ld_type lsdb ! i)"
    "get_type lsdb i = Inr (ld_type lsdb ! i)"
    "\<exists>t. get_table lsdb i = Inr t \<and> ty_db (ld_type lsdb ! i) = Some t \<and> rt_stores t (D i) (Ls i)"
proof -
  have i: "i < length (ld_type lsdb)" "type_ok mem i (D i) (Ls i) (ld_type lsdb ! i)"
    using assms by (auto simp: lsdb_ok_def)
  then show "i < length (ld_type lsdb)" "type_ok mem i (D i) (Ls i) (ld_type lsdb ! i)" by auto
  from i show "get_type lsdb i = Inr (ld_type lsdb ! i)" by (simp add: get_type_def)
  from i obtain t where "ty_db (ld_type lsdb ! i) = Some t" "rt_stores t (D i) (Ls i)"
    by (auto simp: type_ok_def)
  with i(1) show "\<exists>t. get_table lsdb i = Inr t \<and> ty_db (ld_type lsdb ! i) = Some t \<and> rt_stores t (D i) (Ls i)"
    by (simp add: get_table_def get_type_def)
qed

lemma lsdb_ok_upd:
  assumes "lsdb_ok mem D Ls lsdb" "i \<in> set lsa_types" "same_content mem mem'"
    and "\<And>j. j \<in> set lsa_types \<Longrightarrow> j \<noteq> i \<Longrightarrow> ran (D j) \<subseteq> dom (lm_lsas mem')"
    and "type_ok mem' i m L (f (ld_type lsdb ! i))"
    and "n = ld_total lsdb - tally (\<lambda>_. 1) (D i) + tally (\<lambda>_. 1) m"
  shows "lsdb_ok mem' (D(i := m)) (Ls(i := L)) ((upd_type i f lsdb)\<lparr>ld_total := n\<rparr>)"
proof -
  have "(\<Sum>j \<in> set lsa_types. tally (\<lambda>_. 1) (D j)) =
      (tally (\<lambda>_. 1) (D i) :: u64) + (\<Sum>j \<in> set lsa_types - {i}. tally (\<lambda>_. 1) (D j))"
    using assms(2) by (intro sum.remove) auto
  then have "n = (\<Sum>j \<in> set lsa_types. tally (\<lambda>_. 1) ((D(i := m)) j))"
    using assms(1,6) unfolding sum_upd [OF assms(2), of "tally (\<lambda>_. 1)"] lsdb_ok_def by simp
  moreover have "type_ok mem' j (D j) (Ls j) (ld_type lsdb ! j)" if "j \<in> set lsa_types" "j \<noteq> i" for j
    by (rule type_ok_content [OF lsdb_okD(2) [OF assms(1) that(1)] assms(3) assms(4) [OF that]])
  ultimately show ?thesis
    using assms(1,5) upd_type_nth [OF lsdb_okD(1) [OF assms(1,2)]]
    unfolding lsdb_ok_def by (auto simp del: upd_type_nth)
qed

lemma refs_upd:
  assumes "i \<in> set lsa_types"
  shows "refs (D(i := m)) + tally (\<lambda>l. {#l#}) (D i) = refs D + tally (\<lambda>l. {#l#}) m"
proof -
  have "refs D = tally (\<lambda>l. {#l#}) (D i) + (\<Sum>j \<in> set lsa_types - {i}. tally (\<lambda>l. {#l#}) (D j))"
    unfolding refs_def using assms by (intro sum.remove) auto
  then show ?thesis unfolding refs_def sum_upd [OF assms, of "tally (\<lambda>l. {#l#})"] by (simp add: ac_simps)
qed

lemma mem_ok_hooks [simp]: "mem_ok (mem\<lparr>lm_hooks := h\<rparr>) R = mem_ok mem R"
  by (simp add: mem_ok_def)

text \<open>The content of one type after an entry is dropped or added, with its counters.\<close>

lemma type_ok_drop:
  assumes "type_ok mem i m L T" "m k = Some l" "lm_lsas mem l = Some x" "rt_stores t (m(k := None)) L'"
  shows "type_ok mem i (m(k := None)) L' (T\<lparr>ty_count_self := ty_count_self T - of_bool (IS_LSA_SELF x),
     ty_count := ty_count T - 1, ty_checksum := ty_checksum T - ucast (ntohs (h_checksum (lsa_data x))),
     ty_db := Some t\<rparr>)"
  using assms by (auto simp: type_ok_def tally_split [of m k l] self_at_def cksum_at_def)

lemma type_ok_put:
  assumes "type_ok mem i m L T" "m k = None" "lm_lsas mem l = Some x" "lsa_at mem l i k"
    and "rt_stores t (m(k \<mapsto> l)) L'"
  shows "type_ok mem i (m(k \<mapsto> l)) L' (T\<lparr>ty_count_self := ty_count_self T + of_bool (IS_LSA_SELF x),
     ty_count := ty_count T + 1, ty_checksum := ty_checksum T + ucast (ntohs (h_checksum (lsa_data x))),
     ty_db := Some t\<rparr>)"
proof -
  have "m(k := None) = m" using assms(2) by (simp add: fun_upd_idem)
  with assms show ?thesis by (auto simp: type_ok_def tally_insert self_at_def cksum_at_def)
qed

lemma same_content_hooks [simp]:
  "same_content (mem\<lparr>lm_hooks := h\<rparr>) mem' = same_content mem mem'"
  "same_content mem (mem'\<lparr>lm_hooks := h\<rparr>) = same_content mem mem'"
  by (simp_all add: same_content_def)

lemma same_content_trans:
  assumes "same_content a b" "same_content b c" "dom (lm_lsas c) \<subseteq> dom (lm_lsas b)"
  shows "same_content a c"
  unfolding same_content_def
proof (intro allI impI)
  fix l x x'
  assume x: "lm_lsas a l = Some x" "lm_lsas c l = Some x'"
  then obtain y where "lm_lsas b l = Some y" using assms(3) by blast
  then show "lsa_content x' = lsa_content x" using x assms(1,2) unfolding same_content_def by metis
qed

text \<open>Objects may have gone, the others have the same content.\<close>

definition mem_sub :: "lsa_mem \<Rightarrow> lsa_mem \<Rightarrow> bool" where
  "mem_sub mem mem' \<longleftrightarrow> same_content mem mem' \<and> dom (lm_lsas mem') \<subseteq> dom (lm_lsas mem)"

lemma mem_sub_refl [simp]: "mem_sub mem mem"
  by (simp add: mem_sub_def)

lemma mem_sub_hooks [simp]: "mem_sub (mem\<lparr>lm_hooks := h\<rparr>) mem' = mem_sub mem mem'"
  by (simp add: mem_sub_def)

lemma mem_sub_trans: "mem_sub a b \<Longrightarrow> mem_sub b c \<Longrightarrow> mem_sub a c"
  unfolding mem_sub_def by (meson same_content_trans subset_trans)

lemma lsdb_rep_hooks [simp]: "lsdb_rep (d, mem\<lparr>lm_hooks := h\<rparr>) D Ls R = lsdb_rep (d, mem) D Ls R"
proof -
  have "cksum_at (mem\<lparr>lm_hooks := h\<rparr>) = cksum_at mem" by (simp add: cksum_at_def fun_eq_iff)
  then show ?thesis by (simp add: lsdb_rep_def lsdb_ok_def type_ok_def lsa_at_def self_at_def)
qed

text \<open>
  Dropping the entry of a node that is held: the table loses the key, the counters follow, and the
  object loses the reference of the database.
\<close>

lemma delete_entry_step:
  assumes rep: "lsdb_rep (lsdb, mem) D Ls R" and i: "i \<in> set lsa_types"
    and nd: "ty_db (ld_type lsdb ! i) = Some t" "rt_node t rn k (Some l)" and held: "Ls i = add_mset rn L"
  shows "\<exists>lsdb' mem' t'. ospf_lsdb_delete_entry i rn (lsdb, mem) = Inr (lsdb', mem') \<and>
     lsdb_rep (lsdb', mem') (D(i := (D i)(k := None))) Ls R \<and> ty_db (ld_type lsdb' ! i) = Some t' \<and>
     rt_node t' rn k None \<and> rt_fewer t' t \<and> mem_sub mem mem' \<and>
     dom (lm_lsas mem) - {l} \<subseteq> dom (lm_lsas mem')"
proof -
  have ok: "lsdb_ok mem D Ls lsdb" and mok: "mem_ok mem (refs D + R)" using rep by (auto simp: lsdb_rep_def)
  note T = lsdb_okD [OF ok i]
  have tab: "get_table lsdb i = Inr t" and st: "rt_stores t (D i) (add_mset rn L)"
    using T(4) nd(1) held by auto
  have Dk: "D i k = Some l" by (rule rt_node_map [OF st nd(2)])
  then obtain x where x: "lm_lsas mem l = Some x" "unat (h_type (lsa_data x)) = i"
    using T(2) by (auto simp: type_ok_def lsa_at_def)
  from rt_drop_held [OF st nd(2)] obtain t1 t2 where t2: "set_info rn None t = Inr t1"
    "route_unlock_node rn t1 = Inr t2" "rt_stores t2 ((D i)(k := None)) (add_mset rn L)"
    "rt_node t2 rn k None" "rt_fewer t2 t" by blast
  let ?D = "D(i := (D i)(k := None))"
  have fin: "finite (dom (D i))" using T(2) by (simp add: type_ok_def)
  have "refs D = add_mset l (refs ?D)"
    using refs_upd [OF i, of D "(D i)(k := None)"] tally_split [OF fin Dk, of "\<lambda>l. {#l#}"] by simp
  then have "mem_ok mem (add_mset l (refs ?D + R))" using mok by simp
  then have "mem_ok (if ld_del_hook lsdb then mem\<lparr>lm_hooks := lm_hooks mem @ [DelLsa l]\<rparr> else mem)
      (add_mset l (refs ?D + R))" by simp
  from lsa_unlock_step [OF this] obtain mem' p where mem': "ospf_lsa_unlock (Some l)
      (if ld_del_hook lsdb then mem\<lparr>lm_hooks := lm_hooks mem @ [DelLsa l]\<rparr> else mem) = Inr (mem', p)"
    "mem_ok mem' (refs ?D + R)" "same_content mem mem'" "dom (lm_lsas mem) - {l} \<subseteq> dom (lm_lsas mem')"
    "dom (lm_lsas mem') \<subseteq> dom (lm_lsas mem)"
    by (auto split: if_splits)
  let ?F = "\<lambda>T. T\<lparr>ty_count_self := ty_count_self T - of_bool (IS_LSA_SELF x), ty_count := ty_count T - 1,
    ty_checksum := ty_checksum T - ucast (ntohs (h_checksum (lsa_data x))), ty_db := Some t2\<rparr>"
  let ?lsdb = "(upd_type i ?F lsdb)\<lparr>ld_total := ld_total lsdb - 1\<rparr>"
  have run: "ospf_lsdb_delete_entry i rn (lsdb, mem) = Inr (?lsdb, mem')"
    using tab info_of_node [OF nd(2)] x T(1,3) t2(1,2) mem'(1)
    by (cases "ld_del_hook lsdb"; cases "IS_LSA_SELF x")
      (simp_all add: ospf_lsdb_delete_entry_def deref_lsa_def put_table_def upd_type_twice Let_def)
  have live: "ran (?D j) \<subseteq> dom (lm_lsas mem')" if "j \<in> set lsa_types" for j
    using lsdb_okD(2) [OF ok that] fin by (intro refs_live [OF mem'(2) that]) (auto simp: type_ok_def)
  have "type_ok mem i ((D i)(k := None)) (Ls i) (?F (ld_type lsdb ! i))"
    using type_ok_drop [OF T(2) Dk x(1)] t2(3) held by simp
  from type_ok_content [OF this mem'(3)] live [OF i]
  have "type_ok mem' i ((D i)(k := None)) (Ls i) (?F (ld_type lsdb ! i))" by simp
  then have "lsdb_ok mem' ?D (Ls(i := Ls i)) ?lsdb"
  proof (rule lsdb_ok_upd [OF ok i mem'(3), where f = ?F, rotated 1])
    show "ran (D j) \<subseteq> dom (lm_lsas mem')" if "j \<in> set lsa_types" "j \<noteq> i" for j
      using live [of j] that by simp
  qed (simp add: tally_split [OF fin Dk, of "\<lambda>_. 1 :: u64"])
  then have "lsdb_ok mem' ?D Ls ?lsdb" by simp
  moreover have "mem_sub mem mem'" using mem'(3,5) by (simp add: mem_sub_def)
  ultimately show ?thesis using run mem'(2,4) t2(4,5) T(1) by (simp add: lsdb_rep_def)
qed

text \<open>Storing under a key that has no data, in a node that is held.\<close>

lemma put_entry_step:
  assumes rep: "lsdb_rep (lsdb, mem) D Ls R" and i: "i \<in> set lsa_types"
    and nd: "ty_db (ld_type lsdb ! i) = Some t" "rt_node t rn k None" and held: "Ls i = add_mset rn L"
    and x: "lm_lsas mem l = Some x" "lsa_at mem l i k"
  shows "\<exists>t' mem'. set_info rn (Some l) t = Inr t' \<and> ospf_lsa_lock l mem = Inr mem' \<and> mem_sub mem mem' \<and>
     lsdb_rep ((upd_type i (\<lambda>T. T\<lparr>ty_count_self := ty_count_self T + of_bool (IS_LSA_SELF x),
        ty_count := ty_count T + 1, ty_checksum := ty_checksum T + ucast (ntohs (h_checksum (lsa_data x))),
        ty_db := Some t'\<rparr>) lsdb)\<lparr>ld_total := ld_total lsdb + 1\<rparr>, mem')
       (D(i := (D i)(k \<mapsto> l))) (Ls(i := L)) R"
proof -
  have ok: "lsdb_ok mem D Ls lsdb" and mok: "mem_ok mem (refs D + R)" using rep by (auto simp: lsdb_rep_def)
  note T = lsdb_okD [OF ok i]
  have st: "rt_stores t (D i) (add_mset rn L)" using T(4) nd(1) held by auto
  have Dk: "D i k = None" by (rule rt_node_map [OF st nd(2)])
  then have same: "(D i)(k := None) = D i" by (simp add: fun_upd_idem)
  from rtm.put_Some [OF st nd(2), of l] obtain t' where
    t': "set_info rn (Some l) t = Inr t'" "rt_stores t' ((D i)(k \<mapsto> l)) L" by blast
  let ?D = "D(i := (D i)(k \<mapsto> l))"
  have fin: "finite (dom (D i))" using T(2) by (simp add: type_ok_def)
  have "refs ?D = add_mset l (refs D)"
    using refs_upd [OF i, of D "(D i)(k \<mapsto> l)"] tally_insert [OF fin, of "\<lambda>l. {#l#}" k l] same by simp
  moreover from lsa_lock_step [OF mok x(1)] obtain mem' where mem': "ospf_lsa_lock l mem = Inr mem'"
    "mem_ok mem' (add_mset l (refs D + R))" "same_content mem mem'" "dom (lm_lsas mem') = dom (lm_lsas mem)" by blast
  ultimately have mok': "mem_ok mem' (refs ?D + R)" by simp
  have live: "ran (?D j) \<subseteq> dom (lm_lsas mem')" if "j \<in> set lsa_types" for j
    using lsdb_okD(2) [OF ok that] fin by (intro refs_live [OF mok' that]) (auto simp: type_ok_def)
  let ?F = "\<lambda>T. T\<lparr>ty_count_self := ty_count_self T + of_bool (IS_LSA_SELF x), ty_count := ty_count T + 1,
    ty_checksum := ty_checksum T + ucast (ntohs (h_checksum (lsa_data x))), ty_db := Some t'\<rparr>"
  have "type_ok mem i ((D i)(k \<mapsto> l)) L (?F (ld_type lsdb ! i))"
    by (rule type_ok_put [OF T(2) Dk x t'(2)])
  from type_ok_content [OF this mem'(3)] live [OF i]
  have "type_ok mem' i ((D i)(k \<mapsto> l)) L (?F (ld_type lsdb ! i))" by simp
  then have "lsdb_ok mem' ?D (Ls(i := L)) ((upd_type i ?F lsdb)\<lparr>ld_total := ld_total lsdb + 1\<rparr>)"
  proof (rule lsdb_ok_upd [OF ok i mem'(3), where f = ?F, rotated 1])
    show "ran (D j) \<subseteq> dom (lm_lsas mem')" if "j \<in> set lsa_types" "j \<noteq> i" for j
      using live [of j] that by simp
  qed (simp add: tally_insert [OF fin] same)
  with mok' mem'(1,3,4) t'(1) show ?thesis by (auto simp: lsdb_rep_def mem_sub_def)
qed

text \<open>Another version of a table, with other locks out, in the place of the table.\<close>

lemma put_table_rep:
  assumes rep: "lsdb_rep (lsdb, mem) D Ls R" and i: "i \<in> set lsa_types" and st: "rt_stores t (D i) L"
  shows "lsdb_rep (put_table i t lsdb, mem) D (Ls(i := L)) R"
proof -
  have ok: "lsdb_ok mem D Ls lsdb" and mok: "mem_ok mem (refs D + R)" using rep by (auto simp: lsdb_rep_def)
  note T = lsdb_okD [OF ok i]
  let ?F = "\<lambda>T. T\<lparr>ty_db := Some t\<rparr>"
  have "type_ok mem i (D i) L (?F (ld_type lsdb ! i))" using T(2) st by (simp add: type_ok_def)
  then have "lsdb_ok mem (D(i := D i)) (Ls(i := L)) ((upd_type i ?F lsdb)\<lparr>ld_total := ld_total lsdb\<rparr>)"
  proof (rule lsdb_ok_upd [OF ok i, where f = ?F, rotated 2])
    show "ran (D j) \<subseteq> dom (lm_lsas mem)" if "j \<in> set lsa_types" "j \<noteq> i" for j
      using lsdb_okD(2) [OF ok that(1)] by (intro refs_live [OF mok that(1)]) (simp add: type_ok_def)
  qed simp_all
  then show ?thesis using mok by (simp add: lsdb_rep_def put_table_def)
qed

lemma ls_prefix_wf: "wf_key (ls_prefix_set x)"
  by (simp add: wf_key_def ls_prefix_set_def prefix_ls_def)

lemma get_table_nth: "get_table lsdb i = Inr t \<longleftrightarrow> i < length (ld_type lsdb) \<and> ty_db (ld_type lsdb ! i) = Some t"
  by (auto simp: get_table_def get_type_def split: option.splits)

definition put_key :: "nat \<Rightarrow> bool list \<Rightarrow> nat option \<Rightarrow> content \<Rightarrow> content" where
  "put_key i k v D = D(i := (D i)(k := v))"

lemma put_key_same: "D i k = v \<Longrightarrow> put_key i k v D = D"
  by (simp add: put_key_def fun_upd_idem)

lemma add_entry_step:
  assumes rep: "lsdb_rep (lsdb, mem') D Ls R" and i: "i \<in> set lsa_types"
    and nd: "ty_db (ld_type lsdb ! i) = Some t" "rt_node t rn k None" and held: "Ls i = add_mset rn L"
    and x: "lm_lsas mem l = Some x" "lsa_at mem l i k"
    and same: "mem_sub mem mem'" "l \<in> dom (lm_lsas mem')"
  shows "\<exists>lsdb2 mem2. add_entry i rn l x (lsdb, mem') = Inr (lsdb2, mem2) \<and>
     lsdb_rep (lsdb2, mem2) (put_key i k (Some l) D) (Ls(i := L)) R \<and> mem_sub mem mem2"
proof -
  let ?mem = "if ld_new_hook lsdb then mem'\<lparr>lm_hooks := lm_hooks mem' @ [NewLsa l]\<rparr> else mem'"
  have T: "i < length (ld_type lsdb)" using lsdb_okD(1) rep i by (auto simp: lsdb_rep_def)
  from same(2) obtain x' where x': "lm_lsas mem' l = Some x'" by blast
  have sc: "same_content mem mem'" using same(1) by (simp add: mem_sub_def)
  with x' x(1) have eq: "lsa_content x' = lsa_content x" by (simp add: same_content_def)
  have rep': "lsdb_rep (lsdb, ?mem) D Ls R" using rep by simp
  have x2: "lm_lsas ?mem l = Some x'" "lsa_at ?mem l i k"
    using x' lsa_at_content(1) [OF x(2) sc same(2)] by (auto simp: lsa_at_def)
  from put_entry_step [OF rep' i nd held x2] obtain t' mem2 where
    t': "set_info rn (Some l) t = Inr t'" "ospf_lsa_lock l ?mem = Inr mem2" "mem_sub ?mem mem2"
    and rep2: "lsdb_rep ((upd_type i (\<lambda>T. T\<lparr>ty_count_self := ty_count_self T + of_bool (IS_LSA_SELF x'),
        ty_count := ty_count T + 1, ty_checksum := ty_checksum T + ucast (ntohs (h_checksum (lsa_data x'))),
        ty_db := Some t'\<rparr>) lsdb)\<lparr>ld_total := ld_total lsdb + 1\<rparr>, mem2)
       (D(i := (D i)(k \<mapsto> l))) (Ls(i := L)) R" (is "lsdb_rep (?lsdb2, _) _ _ _") by blast
  have "add_entry i rn l x (lsdb, mem') = Inr (?lsdb2, mem2)"
    using T nd(1) t'(1,2) eq
    by (cases "ld_new_hook lsdb"; cases "IS_LSA_SELF x")
      (simp_all add: add_entry_def get_table_def get_type_def put_table_def upd_type_twice lsa_content_def Let_def)
  moreover have "mem_sub mem mem2"
    using mem_sub_trans [OF same(1), of mem2] t'(3) by (cases "ld_new_hook lsdb") simp_all
  ultimately show ?thesis using rep2 by (auto simp: put_key_def)
qed

lemma ospf_lsdb_add_step:
  assumes rep: "lsdb_rep (lsdb, mem) D Ls R" and x: "lm_lsas mem l = Some x"
    and i: "i = unat (h_type (lsa_data x))" "i \<in> set lsa_types" and k: "k = prefix_key (ls_prefix_set x)"
  shows "\<exists>lsdb' mem'. ospf_lsdb_add l (lsdb, mem) = Inr (lsdb', mem') \<and>
     lsdb_rep (lsdb', mem') (put_key i k (Some l) D) Ls R \<and> mem_sub mem mem'"
proof -
  have ok: "lsdb_ok mem D Ls lsdb" using rep by (auto simp: lsdb_rep_def)
  note T = lsdb_okD [OF ok i(2)]
  from T(4) obtain t where t: "get_table lsdb i = Inr t" "rt_stores t (D i) (Ls i)" by blast
  from rt_get_law [OF t(2) ls_prefix_wf, of x, folded k] obtain t1 rn where
    t1: "route_node_get t (ls_prefix_set x) = Inr (t1, rn)" "rt_stores t1 (D i) (add_mset rn (Ls i))"
      "rt_node t1 rn k (D i k)" by blast
  let ?lsdb = "put_table i t1 lsdb" and ?Ls = "Ls(i := add_mset rn (Ls i))"
  have rep1: "lsdb_rep (?lsdb, mem) D ?Ls R" by (rule put_table_rep [OF rep i(2) t1(2)])
  have tab1: "ty_db (ld_type ?lsdb ! i) = Some t1" using T(1) by (simp add: put_table_def)
  have at: "lsa_at mem l i k" using x i k by (simp add: lsa_at_def)
  have fin: ?thesis if mid: "(if D i k \<noteq> None then ospf_lsdb_delete_entry i rn (?lsdb, mem) else Inr (?lsdb, mem)) =
        Inr (lsdb2, mem2)" and other: "D i k \<noteq> Some l"
      and rep2: "lsdb_rep (lsdb2, mem2) (put_key i k None D) ?Ls R"
      and nd2: "ty_db (ld_type lsdb2 ! i) = Some t2" "rt_node t2 rn k None"
      and same: "mem_sub mem mem2" "l \<in> dom (lm_lsas mem2)" for lsdb2 mem2 t2
  proof -
    have "ospf_lsdb_add l (lsdb, mem) = add_entry i rn l x (lsdb2, mem2)"
      using x i(1) [symmetric] t(1) t1(1) info_of_node [OF t1(3)] other mid
      by (cases "D i k") (simp_all add: ospf_lsdb_add_def deref_lsa_def Let_def)
    with add_entry_step [OF rep2 i(2) nd2 _ x at same, of "Ls i"] show ?thesis
      by (auto simp: put_key_def)
  qed
  show ?thesis
  proof (cases "D i k")
    case None
    then show ?thesis using fin [of ?lsdb mem t1] rep1 t1(3) tab1 x by (auto simp: put_key_same)
  next
    case (Some j)
    show ?thesis
    proof (cases "j = l")
      case True
      from rt_unlock_law [OF t1(2)] obtain t2 where
        t2: "route_unlock_node rn t1 = Inr t2" "rt_stores t2 (D i) (Ls i)" by blast
      have "lsdb_rep (put_table i t2 lsdb, mem) D (Ls(i := Ls i)) R" by (rule put_table_rep [OF rep i(2) t2(2)])
      moreover have "ospf_lsdb_add l (lsdb, mem) = Inr (put_table i t2 lsdb, mem)"
        using x i(1) t(1) t1(1) info_of_node [OF t1(3)] t2(1) Some True
        by (simp add: ospf_lsdb_add_def deref_lsa_def)
      ultimately show ?thesis using Some True by (auto simp: put_key_same)
    next
      case False
      have "rt_node t1 rn k (Some j)" using t1(3) Some by simp
      from delete_entry_step [OF rep1 i(2) tab1 this, of "Ls i"] obtain lsdb2 mem2 t2 where
        "ospf_lsdb_delete_entry i rn (?lsdb, mem) = Inr (lsdb2, mem2)"
        "lsdb_rep (lsdb2, mem2) (D(i := (D i)(k := None))) ?Ls R" "ty_db (ld_type lsdb2 ! i) = Some t2"
        "rt_node t2 rn k None" "mem_sub mem mem2" "dom (lm_lsas mem) - {j} \<subseteq> dom (lm_lsas mem2)" by auto
      moreover from this(6) have "l \<in> dom (lm_lsas mem2)" using False x by blast
      ultimately show ?thesis using fin [of lsdb2 mem2 t2] Some False by (simp add: put_key_def)
    qed
  qed
qed

lemma ospf_lsdb_delete_step:
  assumes rep: "lsdb_rep (lsdb, mem) D Ls R" and x: "lm_lsas mem l = Some x"
    and i: "i = unat (h_type (lsa_data x))" "i \<in> set lsa_types" and k: "k = prefix_key (ls_prefix_set x)"
    and D': "D' = (if D i k = Some l then put_key i k None D else D)"
  shows "\<exists>lsdb' mem'. ospf_lsdb_delete (Some l) (lsdb, mem) = Inr (lsdb', mem') \<and>
     lsdb_rep (lsdb', mem') D' Ls R \<and> mem_sub mem mem'"
proof -
  have ok: "lsdb_ok mem D Ls lsdb" using rep by (auto simp: lsdb_rep_def)
  note T = lsdb_okD [OF ok i(2)]
  from T(4) obtain t where t: "get_table lsdb i = Inr t" "rt_stores t (D i) (Ls i)" by blast
  note run = ospf_lsdb_delete_def deref_lsa_def x i(1) [symmetric] t(1) Let_def
  have small: "i < OSPF_MAX_LSA" using i(2) by simp
  show ?thesis
  proof (cases "D i k")
    case None
    then have "route_node_lookup t (ls_prefix_set x) = Inr (t, None)"
      using rt_lookup_law [OF t(2), of "ls_prefix_set x"] k by simp
    moreover have "lsdb_rep (put_table i t lsdb, mem) D (Ls(i := Ls i)) R" by (rule put_table_rep [OF rep i(2) t(2)])
    ultimately show ?thesis using None D' small by (simp add: run)
  next
    case (Some j)
    from rt_lookup_law [OF t(2), of "ls_prefix_set x"] k Some obtain t1 rn where
      t1: "route_node_lookup t (ls_prefix_set x) = Inr (t1, Some rn)" "rt_stores t1 (D i) (add_mset rn (Ls i))"
        "rt_node t1 rn k (Some j)" by auto
    let ?lsdb = "put_table i t1 lsdb" and ?Ls = "Ls(i := add_mset rn (Ls i))"
    have rep1: "lsdb_rep (?lsdb, mem) D ?Ls R" by (rule put_table_rep [OF rep i(2) t1(2)])
    have tab1: "ty_db (ld_type ?lsdb ! i) = Some t1" using T(1) by (simp add: put_table_def)
    obtain lsdb2 mem2 where mid: "(if j = l then ospf_lsdb_delete_entry i rn (?lsdb, mem)
        else Inr (?lsdb, mem)) = Inr (lsdb2, mem2)" "mem_sub mem mem2" "lsdb_rep (lsdb2, mem2) D' ?Ls R"
      using delete_entry_step [OF rep1 i(2) tab1 t1(3), of "Ls i"] Some D' rep1
      by (cases "j = l") (auto simp: put_key_def)
    from lsdb_okD(4) [of mem2 D' ?Ls lsdb2 i] mid(3) i(2) obtain t2 where
      t2: "get_table lsdb2 i = Inr t2" "rt_stores t2 (D' i) (add_mset rn (Ls i))" by (auto simp: lsdb_rep_def)
    from rt_unlock_law [OF t2(2)] obtain t3 where
      t3: "route_unlock_node rn t2 = Inr t3" "rt_stores t3 (D' i) (Ls i)" by blast
    have "ospf_lsdb_delete (Some l) (lsdb, mem) = Inr (put_table i t3 lsdb2, mem2)"
      using t1(1) info_of_node [OF t1(3)] mid(1) t2(1) t3(1) small x
      by (cases "j = l") (simp_all add: run)
    moreover from put_table_rep [OF mid(3) i(2) t3(2)]
    have "lsdb_rep (put_table i t3 lsdb2, mem2) D' Ls R" by simp
    ultimately show ?thesis using mid(2) by blast
  qed
qed

text \<open>The same inside a loop over the table, which holds the node of the entry.\<close>

lemma ospf_lsdb_delete_held:
  assumes rep: "lsdb_rep (lsdb, mem) D Ls R" and i: "i \<in> set lsa_types" and held: "Ls i = add_mset a L"
    and nd: "ty_db (ld_type lsdb ! i) = Some t" "rt_node t a k (Some l)"
  shows "\<exists>lsdb' mem' t'. ospf_lsdb_delete (Some l) (lsdb, mem) = Inr (lsdb', mem') \<and>
     lsdb_rep (lsdb', mem') (put_key i k None D) Ls R \<and> mem_sub mem mem' \<and>
     ty_db (ld_type lsdb' ! i) = Some t' \<and> rt_node t' a k None \<and> rt_fewer t' t"
proof -
  have ok: "lsdb_ok mem D Ls lsdb" using rep by (auto simp: lsdb_rep_def)
  note T = lsdb_okD [OF ok i]
  have t: "get_table lsdb i = Inr t" "rt_stores t (D i) (add_mset a L)" using T(4) nd(1) held by auto
  have Dk: "D i k = Some l" by (rule rt_node_map [OF t(2) nd(2)])
  then obtain x where x: "lm_lsas mem l = Some x" "unat (h_type (lsa_data x)) = i"
    "prefix_key (ls_prefix_set x) = k" using T(2) by (auto simp: type_ok_def lsa_at_def)
  have "D i (prefix_key (ls_prefix_set x)) = Some l" using Dk x(3) by simp
  with rt_lookup_law [OF t(2), of "ls_prefix_set x"] obtain t1 rn where
    t1: "route_node_lookup t (ls_prefix_set x) = Inr (t1, Some rn)" "rt_stores t1 (D i) (add_mset rn (add_mset a L))"
      "rt_node t1 rn k (Some l)" "\<forall>b k v. rt_node t1 b k v = rt_node t b k v" using x(3) by auto
  have inv: "rt_inv t1" using t1(2) by (simp add: rt_stores_def)
  have rn: "rn = a" using rt_node_key [OF inv t1(3)] t1(4) nd(2) by blast
  let ?lsdb = "put_table i t1 lsdb" and ?Ls = "Ls(i := add_mset a (add_mset a L))"
  have rep1: "lsdb_rep (?lsdb, mem) D ?Ls R" using put_table_rep [OF rep i t1(2)] rn by simp
  have tab1: "ty_db (ld_type ?lsdb ! i) = Some t1" using T(1) by (simp add: put_table_def)
  from delete_entry_step [OF rep1 i tab1 t1(3), of "add_mset a L"] rn obtain lsdb2 mem2 t2 where
    s2: "ospf_lsdb_delete_entry i a (?lsdb, mem) = Inr (lsdb2, mem2)" "lsdb_rep (lsdb2, mem2) (put_key i k None D) ?Ls R"
      "ty_db (ld_type lsdb2 ! i) = Some t2" "rt_node t2 a k None" "rt_fewer t2 t1" "mem_sub mem mem2"
    by (auto simp: put_key_def)
  from lsdb_okD(4) [of mem2 "put_key i k None D" ?Ls lsdb2 i] s2(2,3) i have
    t2: "get_table lsdb2 i = Inr t2" "rt_stores t2 (put_key i k None D i) (add_mset a (add_mset a L))" by (auto simp: lsdb_rep_def)
  from rt_unlock_law [OF t2(2)] obtain t3 where t3: "route_unlock_node a t2 = Inr t3"
    "rt_stores t3 (put_key i k None D i) (add_mset a L)" "rt_node t3 a k None" "rt_fewer t3 t2"
    using s2(4) by (metis union_single_eq_member)
  have "ospf_lsdb_delete (Some l) (lsdb, mem) = Inr (put_table i t3 lsdb2, mem2)"
    using t1(1) info_of_node [OF t1(3)] rn s2(1) t2(1) t3(1) i x t(1)
    by (simp add: ospf_lsdb_delete_def deref_lsa_def Let_def)
  moreover have "lsdb_rep (put_table i t3 lsdb2, mem2) (put_key i k None D) Ls R"
    using put_table_rep [OF s2(2) i t3(2)] held by (simp add: fun_upd_idem)
  moreover have "ty_db (ld_type (put_table i t3 lsdb2) ! i) = Some t3"
    using lsdb_okD(1) [of mem2 _ ?Ls lsdb2 i] s2(2) i by (auto simp: put_table_def lsdb_rep_def)
  moreover have "rt_fewer t3 t" using t3(4) s2(5) t1(4) unfolding rt_fewer_def by metis
  ultimately show ?thesis using s2(6) t3(3) by blast
qed

lemma lookup_key_step:
  assumes rep: "lsdb_rep (lsdb, mem) D Ls R" and i: "i \<in> set lsa_types"
  shows "\<exists>lsdb'. lookup_key i lp lsdb = Inr (lsdb', D i (prefix_key lp)) \<and> lsdb_rep (lsdb', mem) D Ls R"
proof -
  from lsdb_okD(4) [of mem D Ls lsdb i] rep i obtain t where
    t: "get_table lsdb i = Inr t" "rt_stores t (D i) (Ls i)" by (auto simp: lsdb_rep_def)
  from rtm.peek [OF t(2), of lp] obtain t' where t': "and_then (route_node_lookup t lp) (\<lambda>(t, r). case r of
        None \<Rightarrow> Inr (t, None)
      | Some a \<Rightarrow> and_then (info_of a t) (\<lambda>v. and_then (route_unlock_node a t) (\<lambda>t. Inr (t, v)))) =
     Inr (t', D i (prefix_key lp))" "rt_stores t' (D i) (Ls i)" by blast
  from put_table_rep [OF rep i t'(2)] have "lsdb_rep (put_table i t' lsdb, mem) D Ls R" by simp
  with t(1) t'(1) show ?thesis by (auto simp: lookup_key_def)
qed

text \<open>Inside a loop: a lookup keeps the nodes that have data or are held.\<close>

lemma lookup_key_held:
  assumes rep: "lsdb_rep (lsdb, mem) D Ls R" and i: "i \<in> set lsa_types"
    and nd: "ty_db (ld_type lsdb ! i) = Some t" "rt_node t a k v" "v \<noteq> None \<or> a \<in># Ls i"
  shows "\<exists>lsdb' t'. lookup_key i lp lsdb = Inr (lsdb', D i (prefix_key lp)) \<and> lsdb_rep (lsdb', mem) D Ls R \<and>
     ty_db (ld_type lsdb' ! i) = Some t' \<and> rt_node t' a k v \<and> rt_fewer t' t"
proof -
  from lsdb_okD [of mem D Ls lsdb i] rep i nd(1) have
    t: "get_table lsdb i = Inr t" "rt_stores t (D i) (Ls i)" and len: "i < length (ld_type lsdb)"
    by (auto simp: lsdb_rep_def)
  have put: "lsdb_rep (put_table i t' lsdb, mem) D Ls R \<and> ty_db (ld_type (put_table i t' lsdb) ! i) = Some t'"
    if "rt_stores t' (D i) (Ls i)" for t'
    using put_table_rep [OF rep i that] len by (simp add: put_table_def)
  show ?thesis
  proof (cases "D i (prefix_key lp)")
    case None
    then have "route_node_lookup t lp = Inr (t, None)" using rt_lookup_law [OF t(2), of lp] by simp
    then show ?thesis using put [OF t(2)] t(1) None nd(2) by (simp add: lookup_key_def rt_fewer_def)
  next
    case (Some l)
    with rt_lookup_law [OF t(2), of lp] obtain t1 rn where
      t1: "route_node_lookup t lp = Inr (t1, Some rn)" "rt_stores t1 (D i) (add_mset rn (Ls i))"
        "rt_node t1 rn (prefix_key lp) (Some l)" "\<forall>b k v. rt_node t1 b k v = rt_node t b k v" by auto
    from rt_unlock_law [OF t1(2)] obtain t2 where t2: "route_unlock_node rn t1 = Inr t2" "rt_stores t2 (D i) (Ls i)"
      "\<forall>b k v. rt_node t1 b k v \<longrightarrow> v \<noteq> None \<or> b \<in># Ls i \<longrightarrow> rt_node t2 b k v" "rt_fewer t2 t1" by blast
    have "rt_node t2 a k v" using t2(3) t1(4) nd(2,3) by blast
    moreover have "rt_fewer t2 t" using t2(4) t1(4) by (simp add: rt_fewer_def)
    ultimately show ?thesis
      using put [OF t2(2)] t(1) t1(1) info_of_node [OF t1(3)] t2(1) Some by (simp add: lookup_key_def)
  qed
qed

section \<open>Loops over a database\<close>

lemma fold_put_key:
  "fold (\<lambda>k. put_key i k None) ks D = D(i := (D i) |` (- set ks))"
  by (induction ks arbitrary: D) (auto simp: put_key_def restrict_map_def fun_eq_iff)

lemma lsdb_rep_table:
  assumes "lsdb_rep s D Ls R" "i \<in> set lsa_types"
  shows "rt_stores (the (ty_db (ld_type (fst s) ! i))) (D i) (Ls i)"
    "ty_db (ld_type (fst s) ! i) = Some (the (ty_db (ld_type (fst s) ! i)))" "i < length (ld_type (fst s))"
    "get_table (fst s) i = Inr (the (ty_db (ld_type (fst s) ! i)))"
  using lsdb_okD [of "snd s" D Ls "fst s" i] assms by (auto simp: lsdb_rep_def)

text \<open>Emptying the table of one type.\<close>

lemma delete_body:
  assumes rep: "lsdb_rep s D (Ls(i := add_mset a (Ls i))) R" and i: "i \<in> set lsa_types"
    and nd: "rt_node (the (ty_db (ld_type (fst s) ! i))) a k (D i k)"
  shows "\<exists>lsdb' mem'. ospf_lsdb_delete_entry i a s = Inr (lsdb', mem') \<and>
     lsdb_rep (lsdb', mem') (put_key i k None D) (Ls(i := add_mset a (Ls i))) R \<and>
     mem_sub (snd s) mem' \<and>
     rt_node (the (ty_db (ld_type lsdb' ! i))) a k (put_key i k None D i k) \<and>
     rt_fewer (the (ty_db (ld_type lsdb' ! i))) (the (ty_db (ld_type (fst s) ! i)))"
proof (cases "D i k")
  case None
  then have "ospf_lsdb_delete_entry i a s = Inr s"
    using lsdb_rep_table(4) [OF rep i] info_of_node [OF nd]
    by (cases s) (simp add: ospf_lsdb_delete_entry_def)
  with None rep nd show ?thesis by (cases s) (auto simp: put_key_same rt_fewer_def)
next
  case (Some l)
  then have "rt_node (the (ty_db (ld_type (fst s) ! i))) a k (Some l)" using nd by simp
  moreover have "lsdb_rep (fst s, snd s) D (Ls(i := add_mset a (Ls i))) R" using rep by simp
  ultimately obtain lsdb' mem' t' where "ospf_lsdb_delete_entry i a s = Inr (lsdb', mem')"
    "lsdb_rep (lsdb', mem') (D(i := (D i)(k := None))) (Ls(i := add_mset a (Ls i))) R"
    "ty_db (ld_type lsdb' ! i) = Some t'" "rt_node t' a k None"
    "rt_fewer t' (the (ty_db (ld_type (fst s) ! i)))" "mem_sub (snd s) mem'"
    using delete_entry_step [OF _ i lsdb_rep_table(2) [OF rep i], of "snd s" D _ R a k l "Ls i"]
    by fastforce
  then show ?thesis by (simp add: put_key_def)
qed

lemma delete_loop_step:
  assumes rep: "lsdb_rep (lsdb, mem) D Ls R" and i: "i \<in> set lsa_types"
  shows "\<exists>lsdb' mem'. lsdb_loop i (ospf_lsdb_delete_entry i) (lsdb, mem) = Inr (lsdb', mem') \<and>
     lsdb_rep (lsdb', mem') (D(i := Map.empty)) Ls R \<and> mem_sub mem mem'"
proof -
  define Q where "Q = (\<lambda>L s x. lsdb_rep s x (Ls(i := L)) R \<and> mem_sub mem (snd s))"
  let ?gt = "\<lambda>(lsdb, mem :: lsa_mem). the (ty_db (ld_type lsdb ! i))"
  let ?pt = "\<lambda>t (lsdb, mem :: lsa_mem). (put_table i t lsdb, mem)"
  from rt_sorted_keys [OF lsdb_rep_table(1) [OF rep i]] obtain ks where ks: "sorted_keys (D i) ks" by blast
  have "\<exists>s'. rt_for ?gt ?pt (ospf_lsdb_delete_entry i) (lsdb, mem) = Inr s' \<and>
     Q (Ls i) s' (fold (\<lambda>k. put_key i k None) ks D)"
  proof (rule rt_for_fold [where M = "\<lambda>x. x i" and F = "\<lambda>k. put_key i k None"])
    show "rt_stores (?gt s) (x i) L" if "Q L s x" for L s x
      using lsdb_rep_table(1) [of s x "Ls(i := L)" R i] that i by (auto simp: Q_def split: prod.splits)
    show "Q L' (?pt t s) x" if "Q L s x" "rt_stores t (x i) L'" for L L' s x t
      using put_table_rep [of "fst s" "snd s" x "Ls(i := L)" R i t L'] that i by (cases s) (simp add: Q_def)
    show "?gt (?pt t s) = t" if "Q L s x" for L s x t
      using lsdb_rep_table(3) [of s x "Ls(i := L)" R i] that i
      by (auto simp: Q_def put_table_def split: prod.splits)
    show "\<exists>s'. ospf_lsdb_delete_entry i a s = Inr s' \<and> Q (add_mset a (Ls i)) s' (put_key i k None x) \<and>
        rt_node (?gt s') a k (put_key i k None x i k) \<and> rt_fewer (?gt s') (?gt s)"
      if "Q (add_mset a (Ls i)) s x" "rt_node (?gt s) a k (x i k)" for s x a k
      using delete_body [of s x Ls i a R k] that i unfolding Q_def
      by (cases s) (auto intro: mem_sub_trans)
    show "Q (Ls i) (lsdb, mem) D" using rep by (simp add: Q_def)
    show "sorted_keys (D i) ks" by (rule ks)
  qed (simp add: put_key_def, simp add: put_key_same)
  moreover have "fold (\<lambda>k. put_key i k None) ks D = D(i := Map.empty)"
    using ks by (auto simp: fold_put_key sorted_keys_def restrict_map_def fun_eq_iff)
  ultimately show ?thesis
    using lsdb_rep_table(4) [OF rep i] by (auto simp: lsdb_loop_def Q_def)
qed

definition cleared_db :: "content \<Rightarrow> content" where
  "cleared_db D = (\<lambda>i. if i \<in> set lsa_types then Map.empty else D i)"

lemma ospf_lsdb_delete_all_step:
  assumes "lsdb_rep (lsdb, mem) D Ls R"
  shows "\<exists>lsdb' mem'. ospf_lsdb_delete_all (lsdb, mem) = Inr (lsdb', mem') \<and>
     lsdb_rep (lsdb', mem') (cleared_db D) Ls R \<and> mem_sub mem mem'"
proof -
  have "\<exists>lsdb' mem'. each_type is (\<lambda>i. lsdb_loop i (ospf_lsdb_delete_entry i)) (lsdb, mem) = Inr (lsdb', mem') \<and>
     lsdb_rep (lsdb', mem') (\<lambda>i. if i \<in> set is then Map.empty else D i) Ls R \<and> mem_sub mem mem'"
    if "set is \<subseteq> set lsa_types" for "is"
    using that assms
  proof (induction "is" arbitrary: lsdb mem D)
    case (Cons i js)
    then have "i \<in> set lsa_types" by simp
    from delete_loop_step [OF Cons.prems(2) this] obtain lsdb1 mem1 where
      s1: "lsdb_loop i (ospf_lsdb_delete_entry i) (lsdb, mem) = Inr (lsdb1, mem1)"
        "lsdb_rep (lsdb1, mem1) (D(i := Map.empty)) Ls R" "mem_sub mem mem1" by blast
    from Cons.IH [OF _ s1(2)] Cons.prems(1) obtain lsdb2 mem2 where
      s2: "each_type js (\<lambda>i. lsdb_loop i (ospf_lsdb_delete_entry i)) (lsdb1, mem1) = Inr (lsdb2, mem2)"
        "lsdb_rep (lsdb2, mem2) (\<lambda>j. if j \<in> set js then Map.empty else (D(i := Map.empty)) j) Ls R"
        "mem_sub mem1 mem2" by auto
    moreover have "(\<lambda>j. if j \<in> set js then Map.empty else (D(i := Map.empty)) j) =
      (\<lambda>j. if j \<in> set (i # js) then Map.empty else D j)" by auto
    ultimately show ?case using s1(1) mem_sub_trans [OF s1(3) s2(3)] by simp
  qed simp
  from this [of lsa_types] show ?thesis by (simp add: ospf_lsdb_delete_all_def cleared_db_def)
qed

end
