(* ===== verification/OspfNbrLists.thy ===== *)
theory OspfNbrLists
  imports OspfLsdb
begin

text \<open>
  The three lists of advertisements of a neighbor: what is to be retransmitted to it, what is left
  of the summary of the database it is sent, and what is to be requested from it
  (\<^verbatim>\<open>ospfd/ospf_flood.c\<close>, \<^verbatim>\<open>ospfd/ospf_nsm.c\<close>). Each list is a link state database of its own,
  so that one advertisement object is shared by the database of the area and the lists of many
  neighbors; \<open>lsa->retransmit_counter\<close> counts the retransmission lists it is on, and the maximum
  age walker frees an advertisement only when it is zero.

  The invariant of the lists is that of the databases, over one memory, together with the
  retransmission counters; the operations are shown to keep it.
\<close>

section \<open>Lists\<close>

record nbr_lists =
  nl_rxmt :: ospf_lsdb
  nl_sum :: ospf_lsdb
  nl_req :: ospf_lsdb
  nl_req_last :: "nat option"

type_synonym nl_state = "nbr_lists \<times> lsa_mem"

definition on_rxmt :: "(lsdb_state \<Rightarrow> lsdb_state res) \<Rightarrow> nl_state \<Rightarrow> nl_state res" where
  "on_rxmt f = (\<lambda>(nl, mem). and_then (f (nl_rxmt nl, mem)) (\<lambda>(d, mem). Inr (nl\<lparr>nl_rxmt := d\<rparr>, mem)))"

definition on_sum :: "(lsdb_state \<Rightarrow> lsdb_state res) \<Rightarrow> nl_state \<Rightarrow> nl_state res" where
  "on_sum f = (\<lambda>(nl, mem). and_then (f (nl_sum nl, mem)) (\<lambda>(d, mem). Inr (nl\<lparr>nl_sum := d\<rparr>, mem)))"

definition on_req :: "(lsdb_state \<Rightarrow> lsdb_state res) \<Rightarrow> nl_state \<Rightarrow> nl_state res" where
  "on_req f = (\<lambda>(nl, mem). and_then (f (nl_req nl, mem)) (\<lambda>(d, mem). Inr (nl\<lparr>nl_req := d\<rparr>, mem)))"

text \<open>\<open>ospf_lsa_unlock (&nbr->ls_req_last); nbr->ls_req_last = NULL;\<close>\<close>

definition drop_req_last :: "nl_state \<Rightarrow> nl_state res" where
  "drop_req_last = (\<lambda>(nl, mem). and_then (ospf_lsa_unlock (nl_req_last nl) mem) (\<lambda>(mem, _).
     Inr (nl\<lparr>nl_req_last := None\<rparr>, mem)))"

section \<open>Requests\<close>

definition ospf_ls_request_add :: "nat \<Rightarrow> nl_state \<Rightarrow> nl_state res" where
  "ospf_ls_request_add lsa = on_req (ospf_lsdb_add lsa)"

definition ospf_ls_request_count :: "nbr_lists \<Rightarrow> u64" where
  "ospf_ls_request_count nl = ospf_lsdb_count_all (nl_req nl)"

definition ospf_ls_request_isempty :: "nbr_lists \<Rightarrow> bool" where
  "ospf_ls_request_isempty nl = ospf_lsdb_isempty (nl_req nl)"

definition ospf_ls_request_delete :: "nat \<Rightarrow> nl_state \<Rightarrow> nl_state res" where
  "ospf_ls_request_delete lsa = (\<lambda>(nl, mem).
     and_then (if nl_req_last nl = Some lsa then drop_req_last (nl, mem) else Inr (nl, mem))
       (on_req (ospf_lsdb_delete (Some lsa))))"

definition ospf_ls_request_delete_all :: "nl_state \<Rightarrow> nl_state res" where
  "ospf_ls_request_delete_all st = and_then (drop_req_last st) (on_req ospf_lsdb_delete_all)"

definition ospf_ls_request_lookup :: "nat \<Rightarrow> nl_state \<Rightarrow> (nl_state \<times> nat option) res" where
  "ospf_ls_request_lookup lsa = (\<lambda>(nl, mem).
     and_then (ospf_lsdb_lookup lsa (nl_req nl, mem)) (\<lambda>((d, mem), v). Inr ((nl\<lparr>nl_req := d\<rparr>, mem), v)))"

definition ospf_ls_request_new :: "timeval \<Rightarrow> lsa_header \<Rightarrow> lsa_mem \<Rightarrow> lsa_mem \<times> nat" where
  "ospf_ls_request_new now lsah mem = ospf_lsa_new now lsah mem"

section \<open>Retransmissions\<close>

definition ospf_ls_retransmit_count :: "nbr_lists \<Rightarrow> u64" where
  "ospf_ls_retransmit_count nl = ospf_lsdb_count_all (nl_rxmt nl)"

definition ospf_ls_retransmit_count_self :: "nbr_lists \<Rightarrow> nat \<Rightarrow> u64 res" where
  "ospf_ls_retransmit_count_self nl lsa_type = ospf_lsdb_count_self (nl_rxmt nl) lsa_type"

definition ospf_ls_retransmit_isempty :: "nbr_lists \<Rightarrow> bool" where
  "ospf_ls_retransmit_isempty nl = ospf_lsdb_isempty (nl_rxmt nl)"

definition ospf_ls_retransmit_lookup :: "nat \<Rightarrow> nl_state \<Rightarrow> (nl_state \<times> nat option) res" where
  "ospf_ls_retransmit_lookup lsa = (\<lambda>(nl, mem).
     and_then (ospf_lsdb_lookup lsa (nl_rxmt nl, mem)) (\<lambda>((d, mem), v). Inr ((nl\<lparr>nl_rxmt := d\<rparr>, mem), v)))"

definition add_counter :: "int \<Rightarrow> nat \<Rightarrow> nl_state \<Rightarrow> nl_state res" where
  "add_counter c lsa = (\<lambda>(nl, mem).
     and_then (upd_lsa lsa (\<lambda>x. x\<lparr>retransmit_counter := retransmit_counter x + c\<rparr>) mem) (\<lambda>mem. Inr (nl, mem)))"

definition deref_opt :: "lsa_mem \<Rightarrow> nat option \<Rightarrow> ospf_lsa option res" where
  "deref_opt mem p = (case p of None \<Rightarrow> Inr None | Some l \<Rightarrow> and_then (deref_lsa mem l) (\<lambda>x. Inr (Some x)))"

definition ospf_ls_retransmit_add :: "timeval \<Rightarrow> nat \<Rightarrow> nl_state \<Rightarrow> nl_state res" where
  "ospf_ls_retransmit_add now lsa st =
     and_then (ospf_ls_retransmit_lookup lsa st) (\<lambda>(st, old).
     and_then (deref_opt (snd st) old) (\<lambda>o1.
     and_then (deref_lsa (snd st) lsa) (\<lambda>x.
       if ospf_lsa_more_recent now o1 (Some x) < 0
       then and_then (case old of
              None \<Rightarrow> Inr st
            | Some l \<Rightarrow> and_then (add_counter (-1) l st) (on_rxmt (ospf_lsdb_delete (Some l)))) (\<lambda>st.
            and_then (add_counter 1 lsa st) (on_rxmt (ospf_lsdb_add lsa)))
       else Inr st)))"

definition ospf_ls_retransmit_delete :: "nat \<Rightarrow> nl_state \<Rightarrow> nl_state res" where
  "ospf_ls_retransmit_delete lsa st =
     and_then (ospf_ls_retransmit_lookup lsa st) (\<lambda>(st, v).
       if v \<noteq> None then and_then (add_counter (-1) lsa st) (on_rxmt (ospf_lsdb_delete (Some lsa)))
       else Inr st)"

text \<open>What \<open>ospf_ls_retransmit_delete_nbr_if\<close> does with one neighbor.\<close>

definition retransmit_delete_nbr :: "nat \<Rightarrow> nl_state \<Rightarrow> nl_state res" where
  "retransmit_delete_nbr lsa st =
     and_then (ospf_ls_retransmit_lookup lsa st) (\<lambda>(st, lsr). case lsr of
        None \<Rightarrow> Inr st
      | Some r \<Rightarrow>
          and_then (deref_lsa (snd st) r) (\<lambda>y.
          and_then (deref_lsa (snd st) lsa) (\<lambda>x.
            if h_ls_seqnum (lsa_data y) = h_ls_seqnum (lsa_data x) then ospf_ls_retransmit_delete r st
            else Inr st)))"

text \<open>
  What the packets of the neighbor do to its lists (\<^verbatim>\<open>ospfd/ospf_packet.c\<close>): an update with the copy
  this router is waiting for acknowledges it, an acknowledgment of the same instance does (the callback for opaque ones is not modelled), and the last advertisement put into a
  request is remembered.
\<close>

definition implied_ack :: "nat \<Rightarrow> nl_state \<Rightarrow> nl_state res" where
  "implied_ack lsa st =
     and_then (ospf_ls_retransmit_lookup lsa st) (\<lambda>(st, ls_ret). case ls_ret of
        None \<Rightarrow> Inr st
      | Some r \<Rightarrow> ospf_ls_retransmit_delete r st)"

definition ls_ack :: "timeval \<Rightarrow> nat \<Rightarrow> nl_state \<Rightarrow> nl_state res" where
  "ls_ack now lsa st =
     and_then (ospf_ls_retransmit_lookup lsa st) (\<lambda>(st, lsr). case lsr of
        None \<Rightarrow> Inr st
      | Some r \<Rightarrow>
          and_then (deref_lsa (snd st) r) (\<lambda>y.
          and_then (deref_lsa (snd st) lsa) (\<lambda>x.
            if ospf_lsa_more_recent now (Some y) (Some x) = 0 then ospf_ls_retransmit_delete r st
            else Inr st)))"

definition set_req_last :: "nat \<Rightarrow> nl_state \<Rightarrow> nl_state res" where
  "set_req_last lsa = (\<lambda>(nl, mem).
     and_then (ospf_lsa_unlock (nl_req_last nl) mem) (\<lambda>(mem, _).
     and_then (ospf_lsa_lock lsa mem) (\<lambda>mem. Inr (nl\<lparr>nl_req_last := Some lsa\<rparr>, mem))))"

text \<open>The loops of the source over the table of type \<open>i\<close> of one of the lists, read by \<open>g\<close> and written back by \<open>p\<close>.\<close>

definition list_loop :: "(nbr_lists \<Rightarrow> ospf_lsdb) \<Rightarrow> (ospf_lsdb \<Rightarrow> nbr_lists \<Rightarrow> nbr_lists) \<Rightarrow> nat \<Rightarrow>
    (nat \<Rightarrow> nl_state \<Rightarrow> nl_state res) \<Rightarrow> nl_state \<Rightarrow> nl_state res" where
  "list_loop g p i body = (\<lambda>(nl, mem).
     and_then (get_table (g nl) i) (\<lambda>_.
       rt_for (\<lambda>(nl, mem). the (ty_db (ld_type (g nl) ! i)))
         (\<lambda>t (nl, mem). (p (put_table i t (g nl)) nl, mem))
         (\<lambda>rn (nl, mem). and_then (get_table (g nl) i) (\<lambda>table.
            and_then (info_of rn table) (\<lambda>info. case info of
              None \<Rightarrow> Inr (nl, mem)
            | Some lsa \<Rightarrow> body lsa (nl, mem)))) (nl, mem)))"

definition rxmt_loop :: "nat \<Rightarrow> (nat \<Rightarrow> nl_state \<Rightarrow> nl_state res) \<Rightarrow> nl_state \<Rightarrow> nl_state res" where
  "rxmt_loop = list_loop nl_rxmt (\<lambda>d nl. nl\<lparr>nl_rxmt := d\<rparr>)"

definition sum_loop :: "nat \<Rightarrow> (nat \<Rightarrow> nl_state \<Rightarrow> nl_state res) \<Rightarrow> nl_state \<Rightarrow> nl_state res" where
  "sum_loop = list_loop nl_sum (\<lambda>d nl. nl\<lparr>nl_sum := d\<rparr>)"

definition ospf_ls_retransmit_clear :: "nl_state \<Rightarrow> nl_state res" where
  "ospf_ls_retransmit_clear st =
     and_then (each_type lsa_types (\<lambda>i. rxmt_loop i ospf_ls_retransmit_delete) st) drop_req_last"

section \<open>Database summary\<close>

definition ospf_db_summary_count :: "nbr_lists \<Rightarrow> u64" where
  "ospf_db_summary_count nl = ospf_lsdb_count_all (nl_sum nl)"

definition ospf_db_summary_isempty :: "nbr_lists \<Rightarrow> bool" where
  "ospf_db_summary_isempty nl = ospf_lsdb_isempty (nl_sum nl)"

definition OSPF_OPAQUE_LINK_LSA :: u8 where "OSPF_OPAQUE_LINK_LSA = 9"

text \<open>
  \<open>here lsa\<close> stands for \<open>ospf_if_exists (lsa->oi) == nbr->oi\<close>: the advertisement with link scope
  is of the link of the neighbor.
\<close>

definition ospf_db_summary_add :: "timeval \<Rightarrow> (nat \<Rightarrow> bool) \<Rightarrow> nat \<Rightarrow> nl_state \<Rightarrow> nl_state res" where
  "ospf_db_summary_add now here lsa st =
     and_then (deref_lsa (snd st) lsa) (\<lambda>x.
       if h_type (lsa_data x) = OSPF_OPAQUE_LINK_LSA \<and> \<not> here lsa then Inr st
       else if CHECK_FLAG (lsa_flags x) OSPF_LSA_LOCAL_XLT then Inr st
       else if IS_LSA_MAXAGE now x then ospf_ls_retransmit_add now lsa st
       else on_sum (ospf_lsdb_add lsa) st)"

definition ospf_db_summary_clear :: "nl_state \<Rightarrow> nl_state res" where
  "ospf_db_summary_clear = each_type lsa_types (\<lambda>i. sum_loop i (\<lambda>lsa. on_sum (ospf_lsdb_delete (Some lsa))))"

text \<open>The lists of \<open>nsm_clear_adj\<close>.\<close>

definition clear_lists :: "nl_state \<Rightarrow> nl_state res" where
  "clear_lists st =
     and_then (if \<not> ospf_db_summary_isempty (fst st) then ospf_db_summary_clear st else Inr st) (\<lambda>st.
     and_then (if \<not> ospf_ls_request_isempty (fst st) then ospf_ls_request_delete_all st else Inr st) (\<lambda>st.
       if \<not> ospf_ls_retransmit_isempty (fst st) then ospf_ls_retransmit_clear st else Inr st))"

section \<open>Invariant\<close>

text \<open>
  \<open>X\<close>, \<open>S\<close> and \<open>Q\<close> are the contents of the three lists, \<open>Lx\<close> and \<open>Ly\<close> the locks loops hold on
  the tables of the first two, \<open>R\<close> the references of others. The counters are described apart:
  \<open>counters mem K\<close> when every advertisement has the retransmission counter \<open>K\<close>.
\<close>

definition opt_ref :: "nat option \<Rightarrow> nat multiset" where
  "opt_ref p = (case p of None \<Rightarrow> {#} | Some l \<Rightarrow> {#l#})"

definition nl_rep :: "nl_state \<Rightarrow> content \<Rightarrow> content \<Rightarrow> content \<Rightarrow> (nat \<Rightarrow> nat multiset) \<Rightarrow>
    (nat \<Rightarrow> nat multiset) \<Rightarrow> nat multiset \<Rightarrow> bool" where
  "nl_rep st X S Q Lx Ly R \<longleftrightarrow>
     lsdb_ok (snd st) X Lx (nl_rxmt (fst st)) \<and> lsdb_ok (snd st) S Ly (nl_sum (fst st)) \<and>
     lsdb_ok (snd st) Q (\<lambda>_. {#}) (nl_req (fst st)) \<and>
     mem_ok (snd st) (refs X + refs S + refs Q + opt_ref (nl_req_last (fst st)) + R)"

definition counters :: "lsa_mem \<Rightarrow> (nat \<Rightarrow> int) \<Rightarrow> bool" where
  "counters mem K \<longleftrightarrow> (\<forall>l x. lm_lsas mem l = Some x \<longrightarrow> retransmit_counter x = K l)"

lemma counters_sub:
  assumes "counters mem K" "mem_sub mem mem'"
  shows "counters mem' K"
  unfolding counters_def
proof (intro allI impI)
  fix l x'
  assume x': "lm_lsas mem' l = Some x'"
  with assms(2) obtain x where x: "lm_lsas mem l = Some x" unfolding mem_sub_def by blast
  have "lsa_content x' = lsa_content x" using assms(2) x x' unfolding mem_sub_def same_content_def by blast
  moreover have "retransmit_counter x = K l" using assms(1) x unfolding counters_def by blast
  ultimately show "retransmit_counter x' = K l" by (simp add: lsa_content_def)
qed

text \<open>
  What the operations on the lists do to the memory: advertisements may be freed, and of those that
  stay only the counts change.
\<close>

definition mem_le :: "lsa_mem \<Rightarrow> lsa_mem \<Rightarrow> bool" where
  "mem_le mem mem' \<longleftrightarrow> dom (lm_lsas mem') \<subseteq> dom (lm_lsas mem) \<and>
     (\<forall>l x x'. lm_lsas mem l = Some x \<longrightarrow> lm_lsas mem' l = Some x' \<longrightarrow>
        lsa_flags x' = lsa_flags x \<and> lsa_data x' = lsa_data x \<and> lsa_tv_recv x' = lsa_tv_recv x)"

lemma mem_le_refl [simp]: "mem_le mem mem"
  by (simp add: mem_le_def)

lemma mem_le_trans:
  assumes "mem_le a b" "mem_le b c"
  shows "mem_le a c"
  unfolding mem_le_def
proof (intro conjI allI impI)
  show "dom (lm_lsas c) \<subseteq> dom (lm_lsas a)" using assms unfolding mem_le_def by blast
  fix l x x'
  assume x: "lm_lsas a l = Some x" "lm_lsas c l = Some x'"
  with assms(2) obtain y where y: "lm_lsas b l = Some y" unfolding mem_le_def by blast
  with x assms show "lsa_flags x' = lsa_flags x" "lsa_data x' = lsa_data x" "lsa_tv_recv x' = lsa_tv_recv x"
    unfolding mem_le_def by metis+
qed

lemma mem_sub_le: "mem_sub mem mem' \<Longrightarrow> mem_le mem mem'"
  unfolding mem_sub_def mem_le_def same_content_def lsa_content_def by blast

lemma mem_le_data: "mem_le mem mem' \<Longrightarrow> same_data mem mem'"
  unfolding mem_le_def same_data_def by blast

lemma lsdb_ok_mem:
  assumes "lsdb_ok mem D Ls d" "mem_le mem mem'" "mem_ok mem' (refs D + R)"
  shows "lsdb_ok mem' D Ls d"
proof -
  have "type_ok mem' i (D i) (Ls i) (ld_type d ! i)" if i: "i \<in> set lsa_types" for i
  proof (rule type_ok_data)
    show "type_ok mem i (D i) (Ls i) (ld_type d ! i)" using assms(1) i by (simp add: lsdb_ok_def)
    then show "ran (D i) \<subseteq> dom (lm_lsas mem')" using refs_live [OF assms(3) i] by (simp add: type_ok_def)
  qed (rule mem_le_data [OF assms(2)])
  then show ?thesis using assms(1) by (simp add: lsdb_ok_def)
qed

text \<open>A step of one database is a step of the lists.\<close>

lemma on_rxmt_step:
  assumes rep: "nl_rep (nl, mem) X S Q Lx Ly R"
    and f: "\<And>R'. lsdb_rep (nl_rxmt nl, mem) X Lx R' \<Longrightarrow> \<exists>d' mem'. f (nl_rxmt nl, mem) = Inr (d', mem') \<and>
       lsdb_rep (d', mem') X' Lx' R' \<and> mem_sub mem mem' \<and> P d'"
  shows "\<exists>d' mem'. on_rxmt f (nl, mem) = Inr (nl\<lparr>nl_rxmt := d'\<rparr>, mem') \<and>
     nl_rep (nl\<lparr>nl_rxmt := d'\<rparr>, mem') X' S Q Lx' Ly R \<and> mem_sub mem mem' \<and> P d'"
proof -
  have "lsdb_rep (nl_rxmt nl, mem) X Lx (refs S + refs Q + opt_ref (nl_req_last nl) + R)"
    using rep by (simp add: nl_rep_def lsdb_rep_def ac_simps)
  from f [OF this] obtain d' mem' where s: "f (nl_rxmt nl, mem) = Inr (d', mem')" "mem_sub mem mem'" "P d'"
    "lsdb_rep (d', mem') X' Lx' (refs S + refs Q + opt_ref (nl_req_last nl) + R)" by blast
  have "mem_ok mem' (refs S + (refs X' + refs Q + opt_ref (nl_req_last nl) + R))"
    "mem_ok mem' (refs Q + (refs X' + refs S + opt_ref (nl_req_last nl) + R))"
    using s(4) by (simp_all add: lsdb_rep_def ac_simps)
  from lsdb_ok_mem [OF _ mem_sub_le [OF s(2)] this(1)] lsdb_ok_mem [OF _ mem_sub_le [OF s(2)] this(2)]
  have "nl_rep (nl\<lparr>nl_rxmt := d'\<rparr>, mem') X' S Q Lx' Ly R"
    using rep s(4) by (simp add: nl_rep_def lsdb_rep_def ac_simps)
  then show ?thesis using s by (auto simp: on_rxmt_def)
qed

lemma on_sum_step:
  assumes rep: "nl_rep (nl, mem) X S Q Lx Ly R"
    and f: "\<And>R'. lsdb_rep (nl_sum nl, mem) S Ly R' \<Longrightarrow> \<exists>d' mem'. f (nl_sum nl, mem) = Inr (d', mem') \<and>
       lsdb_rep (d', mem') S' Ly' R' \<and> mem_sub mem mem' \<and> P d'"
  shows "\<exists>d' mem'. on_sum f (nl, mem) = Inr (nl\<lparr>nl_sum := d'\<rparr>, mem') \<and>
     nl_rep (nl\<lparr>nl_sum := d'\<rparr>, mem') X S' Q Lx Ly' R \<and> mem_sub mem mem' \<and> P d'"
proof -
  have "lsdb_rep (nl_sum nl, mem) S Ly (refs X + refs Q + opt_ref (nl_req_last nl) + R)"
    using rep by (simp add: nl_rep_def lsdb_rep_def ac_simps)
  from f [OF this] obtain d' mem' where s: "f (nl_sum nl, mem) = Inr (d', mem')" "mem_sub mem mem'" "P d'"
    "lsdb_rep (d', mem') S' Ly' (refs X + refs Q + opt_ref (nl_req_last nl) + R)" by blast
  have "mem_ok mem' (refs X + (refs S' + refs Q + opt_ref (nl_req_last nl) + R))"
    "mem_ok mem' (refs Q + (refs X + refs S' + opt_ref (nl_req_last nl) + R))"
    using s(4) by (simp_all add: lsdb_rep_def ac_simps)
  from lsdb_ok_mem [OF _ mem_sub_le [OF s(2)] this(1)] lsdb_ok_mem [OF _ mem_sub_le [OF s(2)] this(2)]
  have "nl_rep (nl\<lparr>nl_sum := d'\<rparr>, mem') X S' Q Lx Ly' R"
    using rep s(4) by (simp add: nl_rep_def lsdb_rep_def ac_simps)
  then show ?thesis using s by (auto simp: on_sum_def)
qed

lemma on_req_step:
  assumes rep: "nl_rep (nl, mem) X S Q Lx Ly R"
    and f: "\<And>R'. lsdb_rep (nl_req nl, mem) Q (\<lambda>_. {#}) R' \<Longrightarrow> \<exists>d' mem'. f (nl_req nl, mem) = Inr (d', mem') \<and>
       lsdb_rep (d', mem') Q' (\<lambda>_. {#}) R' \<and> mem_sub mem mem'"
  shows "\<exists>d' mem'. on_req f (nl, mem) = Inr (nl\<lparr>nl_req := d'\<rparr>, mem') \<and>
     nl_rep (nl\<lparr>nl_req := d'\<rparr>, mem') X S Q' Lx Ly R \<and> mem_sub mem mem'"
proof -
  have "lsdb_rep (nl_req nl, mem) Q (\<lambda>_. {#}) (refs X + refs S + opt_ref (nl_req_last nl) + R)"
    using rep by (simp add: nl_rep_def lsdb_rep_def ac_simps)
  from f [OF this] obtain d' mem' where s: "f (nl_req nl, mem) = Inr (d', mem')" "mem_sub mem mem'"
    "lsdb_rep (d', mem') Q' (\<lambda>_. {#}) (refs X + refs S + opt_ref (nl_req_last nl) + R)" by blast
  have "mem_ok mem' (refs X + (refs S + refs Q' + opt_ref (nl_req_last nl) + R))"
    "mem_ok mem' (refs S + (refs X + refs Q' + opt_ref (nl_req_last nl) + R))"
    using s(3) by (simp_all add: lsdb_rep_def ac_simps)
  from lsdb_ok_mem [OF _ mem_sub_le [OF s(2)] this(1)] lsdb_ok_mem [OF _ mem_sub_le [OF s(2)] this(2)]
  have "nl_rep (nl\<lparr>nl_req := d'\<rparr>, mem') X S Q' Lx Ly R"
    using rep s(3) by (simp add: nl_rep_def lsdb_rep_def ac_simps)
  then show ?thesis using s by (auto simp: on_req_def)
qed

lemma drop_req_last_step:
  assumes rep: "nl_rep (nl, mem) X S Q Lx Ly R"
  shows "\<exists>mem'. drop_req_last (nl, mem) = Inr (nl\<lparr>nl_req_last := None\<rparr>, mem') \<and>
     nl_rep (nl\<lparr>nl_req_last := None\<rparr>, mem') X S Q Lx Ly R \<and> mem_sub mem mem'"
proof (cases "nl_req_last nl")
  case None
  then have "nl_rep (nl\<lparr>nl_req_last := None\<rparr>, mem) X S Q Lx Ly R" using rep by (simp add: nl_rep_def)
  with None show ?thesis by (simp add: drop_req_last_def ospf_lsa_unlock_def)
next
  case (Some l)
  then have "mem_ok mem (add_mset l (refs X + refs S + refs Q + R))"
    using rep by (simp add: nl_rep_def opt_ref_def)
  from lsa_unlock_step [OF this] obtain mem' p where s: "ospf_lsa_unlock (Some l) mem = Inr (mem', p)"
    "mem_ok mem' (refs X + refs S + refs Q + R)" "same_content mem mem'" "dom (lm_lsas mem') \<subseteq> dom (lm_lsas mem)" by blast
  have sub: "mem_sub mem mem'" using s by (simp add: mem_sub_def)
  have "mem_ok mem' (refs X + (refs S + refs Q + R))" "mem_ok mem' (refs S + (refs X + refs Q + R))"
    "mem_ok mem' (refs Q + (refs X + refs S + R))" using s(2) by (simp_all add: ac_simps)
  from lsdb_ok_mem [OF _ mem_sub_le [OF sub] this(1)] lsdb_ok_mem [OF _ mem_sub_le [OF sub] this(2)] lsdb_ok_mem [OF _ mem_sub_le [OF sub] this(3)]
  have "nl_rep (nl\<lparr>nl_req_last := None\<rparr>, mem') X S Q Lx Ly R"
    using rep s(2) by (simp add: nl_rep_def opt_ref_def)
  then show ?thesis using s(1) sub Some by (auto simp: drop_req_last_def)
qed

text \<open>Changing a retransmission counter.\<close>

lemma add_counter_step:
  assumes rep: "nl_rep (nl, mem) X S Q Lx Ly R" and K: "counters mem K" and x: "lm_lsas mem l = Some x"
  shows "\<exists>mem'. add_counter c l (nl, mem) = Inr (nl, mem') \<and> nl_rep (nl, mem') X S Q Lx Ly R \<and>
     counters mem' (K(l := K l + c)) \<and> mem_le mem mem' \<and> dom (lm_lsas mem') = dom (lm_lsas mem)"
proof -
  define mem' where "mem' = mem\<lparr>lm_lsas := (lm_lsas mem)(l \<mapsto> x\<lparr>retransmit_counter := retransmit_counter x + c\<rparr>)\<rparr>"
  let ?all = "refs X + refs S + refs Q + opt_ref (nl_req_last nl) + R"
  have ok: "mem_ok mem ?all" using rep by (simp add: nl_rep_def)
  have le: "mem_le mem mem'" using x by (auto simp: mem_le_def mem'_def split: if_splits)
  have dom: "dom (lm_lsas mem') = dom (lm_lsas mem)" using x by (auto simp: mem'_def)
  have "mem_ok mem' ?all"
    using ok x unfolding mem_ok_def dom by (auto simp: mem'_def split: if_splits)
  then have all: "mem_ok mem' (refs X + (refs S + refs Q + opt_ref (nl_req_last nl) + R))"
    "mem_ok mem' (refs S + (refs X + refs Q + opt_ref (nl_req_last nl) + R))"
    "mem_ok mem' (refs Q + (refs X + refs S + opt_ref (nl_req_last nl) + R))" by (simp_all add: ac_simps)
  from lsdb_ok_mem [OF _ le all(1)] lsdb_ok_mem [OF _ le all(2)] lsdb_ok_mem [OF _ le all(3)]
  have "nl_rep (nl, mem') X S Q Lx Ly R" using rep \<open>mem_ok mem' ?all\<close> by (simp add: nl_rep_def)
  moreover have "counters mem' (K(l := K l + c))" using K x by (auto simp: counters_def mem'_def)
  moreover have "add_counter c l (nl, mem) = Inr (nl, mem')"
    using x by (simp add: add_counter_def upd_lsa_def deref_lsa_def mem'_def)
  ultimately show ?thesis using le dom by blast
qed

lemma refs_put_key:
  assumes "i \<in> set lsa_types" "finite (dom (D i))"
  shows "refs (put_key i k v D) + opt_ref (D i k) = refs D + opt_ref v"
proof -
  have "tally (\<lambda>l. {#l#}) (D i) = opt_ref (D i k) + tally (\<lambda>l. {#l#}) ((D i)(k := None))"
    using tally_split [OF assms(2), of k _ "\<lambda>l. {#l#}"] by (cases "D i k") (simp_all add: opt_ref_def fun_upd_idem)
  moreover have "tally (\<lambda>l. {#l#}) ((D i)(k := v)) = opt_ref v + tally (\<lambda>l. {#l#}) ((D i)(k := None))"
    using tally_insert [OF assms(2), of "\<lambda>l. {#l#}" k] by (cases v) (simp_all add: opt_ref_def)
  ultimately show ?thesis
    using refs_upd [OF assms(1), of D "(D i)(k := v)"] by (simp add: put_key_def)
qed

section \<open>Operations keep the invariant\<close>

lemma rxmt_lookup_step:
  assumes rep: "nl_rep (nl, mem) X S Q Lx Ly R" and x: "lm_lsas mem l = Some x"
    and i: "i = unat (h_type (lsa_data x))" "i \<in> set lsa_types" and k: "k = prefix_key (ls_prefix_set x)"
  shows "\<exists>d'. ospf_ls_retransmit_lookup l (nl, mem) = Inr ((nl\<lparr>nl_rxmt := d'\<rparr>, mem), X i k) \<and>
     nl_rep (nl\<lparr>nl_rxmt := d'\<rparr>, mem) X S Q Lx Ly R"
proof -
  have "lsdb_rep (nl_rxmt nl, mem) X Lx (refs S + refs Q + opt_ref (nl_req_last nl) + R)"
    using rep by (simp add: nl_rep_def lsdb_rep_def ac_simps)
  from lookup_key_step [OF this i(2), of "ls_prefix_set x"] obtain d' where
    d': "lookup_key i (ls_prefix_set x) (nl_rxmt nl) = Inr (d', X i k)" "lsdb_ok mem X Lx d'"
    by (auto simp: lsdb_rep_def k)
  have "nl_rep (nl\<lparr>nl_rxmt := d'\<rparr>, mem) X S Q Lx Ly R" using rep d'(2) by (simp add: nl_rep_def)
  then show ?thesis
    using d'(1) x i(1) by (auto simp: ospf_ls_retransmit_lookup_def ospf_lsdb_lookup_def deref_lsa_def)
qed

lemma nl_finite: "nl_rep st X S Q Lx Ly R \<Longrightarrow> i \<in> set lsa_types \<Longrightarrow> finite (dom (X i)) \<and> finite (dom (S i))"
  by (auto simp: nl_rep_def lsdb_ok_def type_ok_def)

text \<open>
  The counters count the retransmission list of this neighbor on top of those of the others, \<open>C\<close>.
\<close>

definition rxmt_counts :: "content \<Rightarrow> (nat \<Rightarrow> int) \<Rightarrow> nat \<Rightarrow> int" where
  "rxmt_counts X C = (\<lambda>l. int (count (refs X) l) + C l)"

lemma rxmt_counts_put:
  assumes "i \<in> set lsa_types" "finite (dom (X i))"
  shows "X i k = Some l \<Longrightarrow> (rxmt_counts X C)(l := rxmt_counts X C l - 1) = rxmt_counts (put_key i k None X) C"
    and "X i k = None \<Longrightarrow> (rxmt_counts X C)(l := rxmt_counts X C l + 1) = rxmt_counts (put_key i k (Some l) X) C"
proof -
  note eq = refs_put_key [where D = X, OF assms, of k]
  show "(rxmt_counts X C)(l := rxmt_counts X C l - 1) = rxmt_counts (put_key i k None X) C" if "X i k = Some l"
  proof -
    have "refs X = add_mset l (refs (put_key i k None X))" using eq [of None] that by (simp add: opt_ref_def)
    then show ?thesis by (auto simp: rxmt_counts_def)
  qed
  show "(rxmt_counts X C)(l := rxmt_counts X C l + 1) = rxmt_counts (put_key i k (Some l) X) C" if "X i k = None"
  proof -
    have "refs (put_key i k (Some l) X) = add_mset l (refs X)" using eq [of "Some l"] that by (simp add: opt_ref_def)
    then show ?thesis by (auto simp: rxmt_counts_def)
  qed
qed

text \<open>An advertisement in a later memory has the key it had.\<close>

lemma later_lsa:
  assumes "mem_le mem mem'" "lm_lsas mem l = Some x" "l \<in> dom (lm_lsas mem')"
    and "i = unat (h_type (lsa_data x))" "k = prefix_key (ls_prefix_set x)"
  obtains x' where "lm_lsas mem' l = Some x'" "i = unat (h_type (lsa_data x'))" "k = prefix_key (ls_prefix_set x')"
proof -
  from assms(3) obtain x' where x': "lm_lsas mem' l = Some x'" by blast
  with assms(1,2) have "lsa_data x' = lsa_data x" unfolding mem_le_def by blast
  with that x' assms(4,5) show thesis by (simp add: ls_prefix_set_def)
qed

lemma nl_live:
  assumes "nl_rep (nl, mem) X S Q Lx Ly R"
  shows "l \<in># R \<Longrightarrow> l \<in> dom (lm_lsas mem)"
    and "i \<in> set lsa_types \<Longrightarrow> X i k = Some l \<Longrightarrow> lsa_at mem l i k"
    and "i \<in> set lsa_types \<Longrightarrow> S i k = Some l \<Longrightarrow> lsa_at mem l i k"
  using assms by (auto simp: nl_rep_def mem_ok_def lsdb_ok_def type_ok_def)

text \<open>Taking an advertisement off the list; \<open>P\<close> is what the deletion guarantees of the database.\<close>

lemma uncount_step:
  assumes rep: "nl_rep (nl, mem) X S Q Lx Ly R" and K: "counters mem (rxmt_counts X C)"
    and i: "i \<in> set lsa_types" and l: "X i k = Some l"
    and del: "\<And>mem1 R'. lsdb_rep (nl_rxmt nl, mem1) X Lx R' \<Longrightarrow> \<exists>d' mem'.
       ospf_lsdb_delete (Some l) (nl_rxmt nl, mem1) = Inr (d', mem') \<and>
       lsdb_rep (d', mem') (put_key i k None X) Lx R' \<and> mem_sub mem1 mem' \<and> P d'"
  shows "\<exists>d' mem'. and_then (add_counter (-1) l (nl, mem)) (on_rxmt (ospf_lsdb_delete (Some l))) =
     Inr (nl\<lparr>nl_rxmt := d'\<rparr>, mem') \<and> nl_rep (nl\<lparr>nl_rxmt := d'\<rparr>, mem') (put_key i k None X) S Q Lx Ly R \<and>
     counters mem' (rxmt_counts (put_key i k None X) C) \<and> mem_le mem mem' \<and> P d'"
proof -
  from nl_live(2) [OF rep i l] obtain x where x: "lm_lsas mem l = Some x" by (auto simp: lsa_at_def)
  from add_counter_step [OF rep K x, of "-1"] obtain mem1 where
    m1: "add_counter (-1) l (nl, mem) = Inr (nl, mem1)" "nl_rep (nl, mem1) X S Q Lx Ly R" "mem_le mem mem1"
      "counters mem1 ((rxmt_counts X C)(l := rxmt_counts X C l - 1))" by auto
  from on_rxmt_step [where f = "ospf_lsdb_delete (Some l)" and P = P, OF m1(2) del] obtain d2 mem2 where
    m2: "on_rxmt (ospf_lsdb_delete (Some l)) (nl, mem1) = Inr (nl\<lparr>nl_rxmt := d2\<rparr>, mem2)"
      "nl_rep (nl\<lparr>nl_rxmt := d2\<rparr>, mem2) (put_key i k None X) S Q Lx Ly R" "mem_sub mem1 mem2" "P d2" by blast
  have "counters mem2 (rxmt_counts (put_key i k None X) C)"
    using counters_sub [OF m1(4) m2(3)] rxmt_counts_put(1) [where X = X, OF i _ l] nl_finite [OF rep i] by simp
  with m1(1) m2(1,2,4) mem_le_trans [OF m1(3) mem_sub_le [OF m2(3)]] show ?thesis by auto
qed

lemma delete_stored:
  assumes "lsdb_rep (d, mem) D Ls R" "i \<in> set lsa_types" "D i k = Some l"
  shows "\<exists>d' mem'. ospf_lsdb_delete (Some l) (d, mem) = Inr (d', mem') \<and>
     lsdb_rep (d', mem') (put_key i k None D) Ls R \<and> mem_sub mem mem' \<and> True"
proof -
  have "type_ok mem i (D i) (Ls i) (ld_type d ! i)" using lsdb_okD(2) [of mem D Ls d i] assms(1,2) by (simp add: lsdb_rep_def)
  then obtain x where x: "lm_lsas mem l = Some x" "i = unat (h_type (lsa_data x))" "k = prefix_key (ls_prefix_set x)"
    using assms(3) by (auto simp: type_ok_def lsa_at_def)
  from ospf_lsdb_delete_step [OF assms(1) x(1,2) assms(2) x(3) refl] assms(3) show ?thesis by auto
qed

lemma retransmit_delete_step:
  assumes rep: "nl_rep (nl, mem) X S Q Lx Ly R" and K: "counters mem (rxmt_counts X C)"
    and x: "lm_lsas mem l = Some x" and i: "i = unat (h_type (lsa_data x))" "i \<in> set lsa_types"
    and k: "k = prefix_key (ls_prefix_set x)" and l: "X i k = Some l \<or> X i k = None"
  shows "\<exists>d' mem'. ospf_ls_retransmit_delete l (nl, mem) = Inr (nl\<lparr>nl_rxmt := d'\<rparr>, mem') \<and>
     nl_rep (nl\<lparr>nl_rxmt := d'\<rparr>, mem') (put_key i k None X) S Q Lx Ly R \<and>
     counters mem' (rxmt_counts (put_key i k None X) C) \<and> mem_le mem mem'"
proof -
  from rxmt_lookup_step [OF rep x i k] obtain d1 where
    d1: "ospf_ls_retransmit_lookup l (nl, mem) = Inr ((nl\<lparr>nl_rxmt := d1\<rparr>, mem), X i k)"
      "nl_rep (nl\<lparr>nl_rxmt := d1\<rparr>, mem) X S Q Lx Ly R" by blast
  show ?thesis
  proof (cases "X i k")
    case None
    then show ?thesis using d1 K by (auto simp: ospf_ls_retransmit_delete_def put_key_same)
  next
    case (Some j)
    with l have "X i k = Some l" by simp
    from uncount_step [OF d1(2) K i(2) this delete_stored [where D = X, OF _ i(2) this]] d1(1) Some show ?thesis
      by (auto simp: ospf_ls_retransmit_delete_def)
  qed
qed

lemma retransmit_put_step:
  assumes rep: "nl_rep (nl, mem) X S Q Lx Ly R" and K: "counters mem (rxmt_counts X C)"
    and x: "lm_lsas mem l = Some x" and i: "i = unat (h_type (lsa_data x))" "i \<in> set lsa_types"
    and k: "k = prefix_key (ls_prefix_set x)" and new: "X i k = None"
  shows "\<exists>d' mem'. and_then (add_counter 1 l (nl, mem)) (on_rxmt (ospf_lsdb_add l)) = Inr (nl\<lparr>nl_rxmt := d'\<rparr>, mem') \<and>
     nl_rep (nl\<lparr>nl_rxmt := d'\<rparr>, mem') (put_key i k (Some l) X) S Q Lx Ly R \<and>
     counters mem' (rxmt_counts (put_key i k (Some l) X) C) \<and> mem_le mem mem'"
proof -
  from add_counter_step [OF rep K x, of 1] obtain mem1 where m1: "add_counter 1 l (nl, mem) = Inr (nl, mem1)"
    "nl_rep (nl, mem1) X S Q Lx Ly R" "mem_le mem mem1"
    "counters mem1 ((rxmt_counts X C)(l := rxmt_counts X C l + 1))" "dom (lm_lsas mem1) = dom (lm_lsas mem)" by auto
  have "l \<in> dom (lm_lsas mem1)" using x m1(5) by blast
  from later_lsa [OF m1(3) x this i(1) k] obtain x1 where
    x1: "lm_lsas mem1 l = Some x1" "i = unat (h_type (lsa_data x1))" "k = prefix_key (ls_prefix_set x1)" .
  have "\<exists>d' mem'. on_rxmt (ospf_lsdb_add l) (nl, mem1) = Inr (nl\<lparr>nl_rxmt := d'\<rparr>, mem') \<and>
     nl_rep (nl\<lparr>nl_rxmt := d'\<rparr>, mem') (put_key i k (Some l) X) S Q Lx Ly R \<and> mem_sub mem1 mem' \<and> True"
    by (rule on_rxmt_step [OF m1(2)]) (auto dest!: ospf_lsdb_add_step [OF _ x1(1,2) i(2) x1(3)])
  then obtain d2 mem2 where m2: "on_rxmt (ospf_lsdb_add l) (nl, mem1) = Inr (nl\<lparr>nl_rxmt := d2\<rparr>, mem2)"
    "nl_rep (nl\<lparr>nl_rxmt := d2\<rparr>, mem2) (put_key i k (Some l) X) S Q Lx Ly R" "mem_sub mem1 mem2" by blast
  have "counters mem2 (rxmt_counts (put_key i k (Some l) X) C)"
    using counters_sub [OF m1(4) m2(3)] rxmt_counts_put(2) [where X = X, OF i(2) _ new] nl_finite [OF rep i(2)] by simp
  with m1(1) m2(1,2) mem_le_trans [OF m1(3) mem_sub_le [OF m2(3)]] show ?thesis by auto
qed

definition rxmt_takes :: "timeval \<Rightarrow> lsa_mem \<Rightarrow> content \<Rightarrow> nat \<Rightarrow> bool" where
  "rxmt_takes now mem X l \<longleftrightarrow>
     (let x = the (lm_lsas mem l); old = X (unat (h_type (lsa_data x))) (prefix_key (ls_prefix_set x))
      in ospf_lsa_more_recent now (map_option (\<lambda>j. the (lm_lsas mem j)) old) (Some x) < 0)"

lemma retransmit_add_step:
  assumes rep: "nl_rep (nl, mem) X S Q Lx Ly R" and K: "counters mem (rxmt_counts X C)"
    and x: "lm_lsas mem l = Some x" and i: "i = unat (h_type (lsa_data x))" "i \<in> set lsa_types"
    and k: "k = prefix_key (ls_prefix_set x)" and l: "l \<in># R"
    and X': "X' = (if rxmt_takes now mem X l then put_key i k (Some l) X else X)"
  shows "\<exists>d' mem'. ospf_ls_retransmit_add now l (nl, mem) = Inr (nl\<lparr>nl_rxmt := d'\<rparr>, mem') \<and>
     nl_rep (nl\<lparr>nl_rxmt := d'\<rparr>, mem') X' S Q Lx Ly R \<and> counters mem' (rxmt_counts X' C) \<and> mem_le mem mem'"
proof -
  from rxmt_lookup_step [OF rep x i k] obtain d1 where
    d1: "ospf_ls_retransmit_lookup l (nl, mem) = Inr ((nl\<lparr>nl_rxmt := d1\<rparr>, mem), X i k)"
      "nl_rep (nl\<lparr>nl_rxmt := d1\<rparr>, mem) X S Q Lx Ly R" by blast
  let ?nl = "nl\<lparr>nl_rxmt := d1\<rparr>"
  let ?old = "map_option (\<lambda>j. the (lm_lsas mem j)) (X i k)"
  have old: "deref_opt mem (X i k) = Inr ?old"
    using nl_live(2) [OF rep i(2), of k] by (cases "X i k") (auto simp: deref_opt_def deref_lsa_def lsa_at_def)
  have takes: "rxmt_takes now mem X l \<longleftrightarrow> ospf_lsa_more_recent now ?old (Some x) < 0"
    using x i k by (simp add: rxmt_takes_def)
  show ?thesis
  proof (cases "rxmt_takes now mem X l")
    case False
    with d1 old takes x K X' show ?thesis by (auto simp: ospf_ls_retransmit_add_def deref_lsa_def)
  next
    case True
    let ?X1 = "put_key i k None X"
    obtain d2 mem2 where m2: "(case X i k of None \<Rightarrow> Inr (?nl, mem)
         | Some j \<Rightarrow> and_then (add_counter (-1) j (?nl, mem)) (on_rxmt (ospf_lsdb_delete (Some j)))) =
         Inr (nl\<lparr>nl_rxmt := d2\<rparr>, mem2)"
      "nl_rep (nl\<lparr>nl_rxmt := d2\<rparr>, mem2) ?X1 S Q Lx Ly R" "counters mem2 (rxmt_counts ?X1 C)" "mem_le mem mem2"
    proof (cases "X i k")
      case None
      with d1(2) K show ?thesis by (intro that [of d1 mem]) (simp_all add: put_key_same)
    next
      case (Some j)
      from uncount_step [OF d1(2) K i(2) Some delete_stored [where D = X, OF _ i(2) Some]] Some show ?thesis by (auto intro: that)
    qed
    have "l \<in> dom (lm_lsas mem2)" by (rule nl_live(1) [OF m2(2) l])
    from later_lsa [OF m2(4) x this i(1) k] obtain x2 where
      x2: "lm_lsas mem2 l = Some x2" "i = unat (h_type (lsa_data x2))" "k = prefix_key (ls_prefix_set x2)" .
    from retransmit_put_step [OF m2(2,3) x2(1,2) i(2) x2(3)] obtain d3 mem3 where
      m3: "and_then (add_counter 1 l (nl\<lparr>nl_rxmt := d2\<rparr>, mem2)) (on_rxmt (ospf_lsdb_add l)) = Inr (nl\<lparr>nl_rxmt := d3\<rparr>, mem3)"
        "nl_rep (nl\<lparr>nl_rxmt := d3\<rparr>, mem3) (put_key i k (Some l) X) S Q Lx Ly R"
        "counters mem3 (rxmt_counts (put_key i k (Some l) X) C)" "mem_le mem2 mem3"
      by (auto simp: put_key_def)
    have "ospf_ls_retransmit_add now l (nl, mem) = Inr (nl\<lparr>nl_rxmt := d3\<rparr>, mem3)"
      using d1(1) old takes True x m2(1) m3(1) by (simp add: ospf_ls_retransmit_add_def deref_lsa_def)
    with m3 True X' mem_le_trans [OF m2(4) m3(4)] show ?thesis by auto
  qed
qed

section \<open>Clearing the lists\<close>

text \<open>One turn of the loop of \<open>ospf_ls_retransmit_clear\<close>, at a node the loop holds.\<close>

definition held_node :: "ospf_lsdb \<Rightarrow> nat \<Rightarrow> nat \<Rightarrow> bool list \<Rightarrow> nat option \<Rightarrow> nat route_table \<Rightarrow> bool" where
  "held_node d i a k v t \<longleftrightarrow> (\<exists>t'. ty_db (ld_type d ! i) = Some t' \<and> rt_node t' a k v \<and> rt_fewer t' t)"

lemma rt_fewer_trans: "rt_fewer t'' t' \<Longrightarrow> rt_fewer t' t \<Longrightarrow> rt_fewer t'' t"
  unfolding rt_fewer_def by meson

lemma rxmt_clear_body:
  assumes rep: "nl_rep (nl, mem) X S Q Lx Ly R" and K: "counters mem (rxmt_counts X C)"
    and i: "i \<in> set lsa_types" and held: "Lx i = add_mset a L"
    and nd: "ty_db (ld_type (nl_rxmt nl) ! i) = Some t" "rt_node t a k (Some l)"
  shows "\<exists>d' mem'. ospf_ls_retransmit_delete l (nl, mem) = Inr (nl\<lparr>nl_rxmt := d'\<rparr>, mem') \<and>
     nl_rep (nl\<lparr>nl_rxmt := d'\<rparr>, mem') (put_key i k None X) S Q Lx Ly R \<and>
     counters mem' (rxmt_counts (put_key i k None X) C) \<and> mem_le mem mem' \<and> held_node d' i a k None t"
proof -
  have dbrep: "lsdb_rep (nl_rxmt nl, mem) X Lx (refs S + refs Q + opt_ref (nl_req_last nl) + R)"
    using rep by (simp add: nl_rep_def lsdb_rep_def ac_simps)
  have st: "rt_stores t (X i) (Lx i)" using lsdb_rep_table(1) [OF dbrep i] nd(1) by simp
  have l: "X i k = Some l" by (rule rt_node_map [OF st nd(2)])
  then obtain x where x: "lm_lsas mem l = Some x" "unat (h_type (lsa_data x)) = i" "prefix_key (ls_prefix_set x) = k"
    using nl_live(2) [OF rep i] by (auto simp: lsa_at_def)
  from lookup_key_held [OF dbrep i nd(1,2), of "ls_prefix_set x"] obtain d1 t1 where
    d1: "lookup_key i (ls_prefix_set x) (nl_rxmt nl) = Inr (d1, Some l)" "lsdb_ok mem X Lx d1"
      "ty_db (ld_type d1 ! i) = Some t1" "rt_node t1 a k (Some l)" "rt_fewer t1 t"
    using l x(3) by (auto simp: lsdb_rep_def)
  have rep1: "nl_rep (nl\<lparr>nl_rxmt := d1\<rparr>, mem) X S Q Lx Ly R" using rep d1(2) by (simp add: nl_rep_def)
  have "\<exists>d' mem'. and_then (add_counter (-1) l (nl\<lparr>nl_rxmt := d1\<rparr>, mem)) (on_rxmt (ospf_lsdb_delete (Some l))) =
     Inr ((nl\<lparr>nl_rxmt := d1\<rparr>)\<lparr>nl_rxmt := d'\<rparr>, mem') \<and>
     nl_rep ((nl\<lparr>nl_rxmt := d1\<rparr>)\<lparr>nl_rxmt := d'\<rparr>, mem') (put_key i k None X) S Q Lx Ly R \<and>
     counters mem' (rxmt_counts (put_key i k None X) C) \<and> mem_le mem mem' \<and> held_node d' i a k None t1"
  proof (rule uncount_step [OF rep1 K i l])
    fix mem1 R'
    assume "lsdb_rep (nl_rxmt (nl\<lparr>nl_rxmt := d1\<rparr>), mem1) X Lx R'"
    from ospf_lsdb_delete_held [OF this i held] d1(3,4)
    show "\<exists>d' mem'. ospf_lsdb_delete (Some l) (nl_rxmt (nl\<lparr>nl_rxmt := d1\<rparr>), mem1) = Inr (d', mem') \<and>
       lsdb_rep (d', mem') (put_key i k None X) Lx R' \<and> mem_sub mem1 mem' \<and> held_node d' i a k None t1"
      by (fastforce simp: held_node_def)
  qed
  moreover have "ospf_ls_retransmit_lookup l (nl, mem) = Inr ((nl\<lparr>nl_rxmt := d1\<rparr>, mem), Some l)"
    using d1(1) x by (simp add: ospf_ls_retransmit_lookup_def ospf_lsdb_lookup_def deref_lsa_def)
  ultimately show ?thesis
    using d1(5) by (auto simp: ospf_ls_retransmit_delete_def held_node_def intro: rt_fewer_trans)
qed

text \<open>
  A loop whose body takes the entry of its node off the list empties the table. \<open>I L s x\<close> is the
  invariant of the loop with the locks \<open>L\<close> out and the content \<open>x\<close> left.
\<close>

definition db_table :: "ospf_lsdb \<Rightarrow> nat \<Rightarrow> (bool list \<rightharpoonup> nat) \<Rightarrow> nat multiset \<Rightarrow> bool" where
  "db_table d i m L \<longleftrightarrow> (\<exists>t. get_table d i = Inr t \<and> rt_stores t m L)"

lemma list_loop_clear:
  assumes I: "\<And>L s x. I L s x \<Longrightarrow> db_table (g (fst s)) i (x i) L"
    and put: "\<And>L L' s x t. I L s x \<Longrightarrow> rt_stores t (x i) L' \<Longrightarrow> I L' (p (put_table i t (g (fst s))) (fst s), snd s) x"
    and gp: "\<And>d nl. g (p d nl) = d"
    and body: "\<And>s x a k l t. I (add_mset a L) s x \<Longrightarrow> ty_db (ld_type (g (fst s)) ! i) = Some t \<Longrightarrow>
       rt_node t a k (Some l) \<Longrightarrow> \<exists>s'. body l s = Inr s' \<and> I (add_mset a L) s' (put_key i k None x) \<and>
         held_node (g (fst s')) i a k None t"
    and start: "I L s D"
  shows "\<exists>s'. list_loop g p i body s = Inr s' \<and> I L s' (D(i := Map.empty))"
proof -
  let ?gt = "\<lambda>(nl, mem :: lsa_mem). the (ty_db (ld_type (g nl) ! i))"
  let ?pt = "\<lambda>t (nl, mem :: lsa_mem). (p (put_table i t (g nl)) nl, mem)"
  let ?body = "\<lambda>rn (nl, mem). and_then (get_table (g nl) i) (\<lambda>table. and_then (info_of rn table)
     (\<lambda>info. case info of None \<Rightarrow> Inr (nl, mem) | Some lsa \<Rightarrow> body lsa (nl, mem)))"
  have tab: "get_table (g (fst s)) i = Inr (?gt s)" "ty_db (ld_type (g (fst s)) ! i) = Some (?gt s)"
    "rt_stores (?gt s) (x i) L'" "i < length (ld_type (g (fst s)))" if "I L' s x" for L' s x
    using I [OF that] by (auto simp: db_table_def get_table_nth split: prod.splits)
  from rt_sorted_keys [OF tab(3) [OF start]] obtain ks where ks: "sorted_keys (D i) ks" by blast
  have "\<exists>s'. rt_for ?gt ?pt ?body s = Inr s' \<and> I L s' (fold (\<lambda>k. put_key i k None) ks D)"
  proof (rule rt_for_fold [where M = "\<lambda>x. x i" and F = "\<lambda>k. put_key i k None" and R = I])
    show "rt_stores (?gt s) (x i) L'" if "I L' s x" for L' s x by (rule tab(3) [OF that])
    show "I L' (?pt t s) x" if "I L1 s x" "rt_stores t (x i) L'" for L1 L' s x t
      using put [OF that] by (simp add: case_prod_unfold)
    show "?gt (?pt t s) = t" if "I L' s x" for L' s x t
      using tab(4) [OF that] by (simp add: gp put_table_def case_prod_unfold)
    show "\<exists>s'. ?body a s = Inr s' \<and> I (add_mset a L) s' (put_key i k None x) \<and>
        rt_node (?gt s') a k (put_key i k None x i k) \<and> rt_fewer (?gt s') (?gt s)"
      if st: "I (add_mset a L) s x" and n: "rt_node (?gt s) a k (x i k)" for s x a k
    proof (cases "x i k")
      case None
      then have "?body a s = Inr s" using tab(1) [OF st] info_of_node [OF n] by (simp add: case_prod_unfold)
      then show ?thesis using st n None by (simp add: put_key_same rt_fewer_def)
    next
      case (Some l)
      then have "rt_node (?gt s) a k (Some l)" using n by simp
      from body [OF st tab(2) [OF st] this] obtain s' where s': "body l s = Inr s'" "I (add_mset a L) s' (put_key i k None x)"
        "held_node (g (fst s')) i a k None (?gt s)" by blast
      have "?body a s = Inr s'" using tab(1) [OF st] info_of_node [OF n] Some s'(1) by (simp add: case_prod_unfold)
      then show ?thesis using s'(2,3) by (auto simp: held_node_def put_key_def case_prod_unfold)
    qed
    show "I L s D" by (rule start)
    show "sorted_keys (D i) ks" by (rule ks)
  qed (simp_all add: put_key_def put_key_same [unfolded put_key_def])
  moreover have "fold (\<lambda>k. put_key i k None) ks D = D(i := Map.empty)"
    using ks by (auto simp: fold_put_key sorted_keys_def restrict_map_def fun_eq_iff)
  ultimately show ?thesis using tab(1) [OF start] by (cases s) (simp add: list_loop_def)
qed

lemma rxmt_loop_step:
  assumes rep: "nl_rep (nl, mem) X S Q Lx Ly R" and K: "counters mem (rxmt_counts X C)" and i: "i \<in> set lsa_types"
  shows "\<exists>d' mem'. rxmt_loop i ospf_ls_retransmit_delete (nl, mem) = Inr (nl\<lparr>nl_rxmt := d'\<rparr>, mem') \<and>
     nl_rep (nl\<lparr>nl_rxmt := d'\<rparr>, mem') (X(i := Map.empty)) S Q Lx Ly R \<and>
     counters mem' (rxmt_counts (X(i := Map.empty)) C) \<and> mem_le mem mem'"
proof -
  define I where "I = (\<lambda>L s x. \<exists>d m. s = (nl\<lparr>nl_rxmt := d\<rparr>, m) \<and> nl_rep s x S Q (Lx(i := L)) Ly R \<and>
     counters m (rxmt_counts x C) \<and> mem_le mem m)"
  have db: "lsdb_rep (nl_rxmt n, m) x L (refs S + refs Q + opt_ref (nl_req_last n) + R)"
    if "nl_rep (n, m) x S Q L Ly R" for n m x L
    using that by (simp add: nl_rep_def lsdb_rep_def ac_simps)
  have "\<exists>s'. list_loop nl_rxmt (\<lambda>d nl. nl\<lparr>nl_rxmt := d\<rparr>) i ospf_ls_retransmit_delete (nl, mem) = Inr s' \<and>
     I (Lx i) s' (X(i := Map.empty))"
  proof (rule list_loop_clear)
    show "db_table (nl_rxmt (fst s)) i (x i) L" if "I L s x" for L s x
      using lsdb_rep_table(1,4) [OF db i, of "fst s" "snd s" x "Lx(i := L)"] that by (auto simp: I_def db_table_def)
    show "I L' (fst s\<lparr>nl_rxmt := put_table i t (nl_rxmt (fst s))\<rparr>, snd s) x"
      if "I L s x" "rt_stores t (x i) L'" for L L' s x t
    proof -
      from that(1) obtain d m where s: "s = (nl\<lparr>nl_rxmt := d\<rparr>, m)" "nl_rep s x S Q (Lx(i := L)) Ly R"
        "counters m (rxmt_counts x C)" "mem_le mem m" by (auto simp: I_def)
      from s(1,2) have "nl_rep (nl\<lparr>nl_rxmt := d\<rparr>, m) x S Q (Lx(i := L)) Ly R" by simp
      from put_table_rep [OF db [OF this] i, of t L'] that(2)
      have "lsdb_ok m x (Lx(i := L')) (put_table i t d)" by (simp add: lsdb_rep_def)
      then show ?thesis using s by (auto simp: I_def nl_rep_def)
    qed
    show "\<exists>s'. ospf_ls_retransmit_delete l s = Inr s' \<and> I (add_mset a (Lx i)) s' (put_key i k None x) \<and>
        held_node (nl_rxmt (fst s')) i a k None t"
      if s: "I (add_mset a (Lx i)) s x" and n: "ty_db (ld_type (nl_rxmt (fst s)) ! i) = Some t" "rt_node t a k (Some l)"
      for s x a k l t
    proof -
      from s obtain d m where d: "s = (nl\<lparr>nl_rxmt := d\<rparr>, m)" "nl_rep (nl\<lparr>nl_rxmt := d\<rparr>, m) x S Q (Lx(i := add_mset a (Lx i))) Ly R"
        "counters m (rxmt_counts x C)" "mem_le mem m" by (auto simp: I_def)
      from rxmt_clear_body [OF d(2,3) i _ _ n(2), of "Lx i"] n(1) d(1) obtain d' m' where
        "ospf_ls_retransmit_delete l s = Inr (nl\<lparr>nl_rxmt := d'\<rparr>, m')"
        "nl_rep (nl\<lparr>nl_rxmt := d'\<rparr>, m') (put_key i k None x) S Q (Lx(i := add_mset a (Lx i))) Ly R"
        "counters m' (rxmt_counts (put_key i k None x) C)" "mem_le m m'" "held_node d' i a k None t" by auto
      then show ?thesis using mem_le_trans [OF d(4)] by (auto simp: I_def)
    qed
    show "I (Lx i) (nl, mem) X" using rep K by (auto simp: I_def intro!: exI [of _ "nl_rxmt nl"])
  qed simp
  then show ?thesis by (auto simp: rxmt_loop_def I_def)
qed

lemma sum_loop_step:
  assumes rep: "nl_rep (nl, mem) X S Q Lx Ly R" and i: "i \<in> set lsa_types"
  shows "\<exists>d' mem'. sum_loop i (\<lambda>lsa. on_sum (ospf_lsdb_delete (Some lsa))) (nl, mem) = Inr (nl\<lparr>nl_sum := d'\<rparr>, mem') \<and>
     nl_rep (nl\<lparr>nl_sum := d'\<rparr>, mem') X (S(i := Map.empty)) Q Lx Ly R \<and> mem_sub mem mem'"
proof -
  define I where "I = (\<lambda>L s x. \<exists>d m. s = (nl\<lparr>nl_sum := d\<rparr>, m) \<and> nl_rep s X x Q Lx (Ly(i := L)) R \<and> mem_sub mem m)"
  have db: "lsdb_rep (nl_sum n, m) x L (refs X + refs Q + opt_ref (nl_req_last n) + R)"
    if "nl_rep (n, m) X x Q Lx L R" for n m x L
    using that by (simp add: nl_rep_def lsdb_rep_def ac_simps)
  have "\<exists>s'. list_loop nl_sum (\<lambda>d nl. nl\<lparr>nl_sum := d\<rparr>) i (\<lambda>lsa. on_sum (ospf_lsdb_delete (Some lsa))) (nl, mem) = Inr s' \<and>
     I (Ly i) s' (S(i := Map.empty))"
  proof (rule list_loop_clear)
    show "db_table (nl_sum (fst s)) i (x i) L" if "I L s x" for L s x
      using lsdb_rep_table(1,4) [OF db i, of "fst s" "snd s" x "Ly(i := L)"] that by (auto simp: I_def db_table_def)
    show "I L' (fst s\<lparr>nl_sum := put_table i t (nl_sum (fst s))\<rparr>, snd s) x"
      if "I L s x" "rt_stores t (x i) L'" for L L' s x t
    proof -
      from that(1) obtain d m where s: "s = (nl\<lparr>nl_sum := d\<rparr>, m)" "nl_rep s X x Q Lx (Ly(i := L)) R"
        "mem_sub mem m" by (auto simp: I_def)
      from s(1,2) have "nl_rep (nl\<lparr>nl_sum := d\<rparr>, m) X x Q Lx (Ly(i := L)) R" by simp
      from put_table_rep [OF db [OF this] i, of t L'] that(2)
      have "lsdb_ok m x (Ly(i := L')) (put_table i t d)" by (simp add: lsdb_rep_def)
      then show ?thesis using s by (auto simp: I_def nl_rep_def)
    qed
    show "\<exists>s'. on_sum (ospf_lsdb_delete (Some l)) s = Inr s' \<and> I (add_mset a (Ly i)) s' (put_key i k None x) \<and>
        held_node (nl_sum (fst s')) i a k None t"
      if s: "I (add_mset a (Ly i)) s x" and n: "ty_db (ld_type (nl_sum (fst s)) ! i) = Some t" "rt_node t a k (Some l)"
      for s x a k l t
    proof -
      let ?L = "Ly(i := add_mset a (Ly i))"
      from s obtain d m where d: "s = (nl\<lparr>nl_sum := d\<rparr>, m)" "nl_rep (nl\<lparr>nl_sum := d\<rparr>, m) X x Q Lx ?L R"
        "mem_sub mem m" by (auto simp: I_def)
      have "\<exists>d' m'. on_sum (ospf_lsdb_delete (Some l)) (nl\<lparr>nl_sum := d\<rparr>, m) = Inr ((nl\<lparr>nl_sum := d\<rparr>)\<lparr>nl_sum := d'\<rparr>, m') \<and>
         nl_rep ((nl\<lparr>nl_sum := d\<rparr>)\<lparr>nl_sum := d'\<rparr>, m') X (put_key i k None x) Q Lx ?L R \<and> mem_sub m m' \<and> held_node d' i a k None t"
      proof (rule on_sum_step [OF d(2)])
        fix R'
        assume "lsdb_rep (nl_sum (nl\<lparr>nl_sum := d\<rparr>), m) x ?L R'"
        from ospf_lsdb_delete_held [OF this i, of a "Ly i" t k l] n d(1)
        show "\<exists>d' m'. ospf_lsdb_delete (Some l) (nl_sum (nl\<lparr>nl_sum := d\<rparr>), m) = Inr (d', m') \<and>
           lsdb_rep (d', m') (put_key i k None x) ?L R' \<and> mem_sub m m' \<and> held_node d' i a k None t"
          by (fastforce simp: held_node_def)
      qed
      then show ?thesis using mem_sub_trans [OF d(3)] d(1) by (auto simp: I_def)
    qed
    show "I (Ly i) (nl, mem) S" using rep by (auto simp: I_def intro!: exI [of _ "nl_sum nl"])
  qed simp
  then show ?thesis by (auto simp: sum_loop_def I_def)
qed

lemma each_type_clears:
  assumes "\<And>i s x. i \<in> set is \<Longrightarrow> J s x \<Longrightarrow> \<exists>s'. f i s = Inr s' \<and> J s' (x(i := Map.empty))" "J s D"
  shows "\<exists>s'. each_type is f s = Inr s' \<and> J s' (\<lambda>i. if i \<in> set is then Map.empty else D i)"
  using assms
proof (induction "is" arbitrary: s D)
  case (Cons i js)
  from Cons.prems(1) [of i s D] Cons.prems(2) obtain s1 where s1: "f i s = Inr s1" "J s1 (D(i := Map.empty))"
    by (metis list.set_intros(1))
  have "\<exists>s'. each_type js f s1 = Inr s' \<and> J s' (\<lambda>j. if j \<in> set js then Map.empty else (D(i := Map.empty)) j)"
    using Cons.prems(1) by (intro Cons.IH [OF _ s1(2)]) auto
  moreover have "(\<lambda>j. if j \<in> set js then Map.empty else (D(i := Map.empty)) j) =
      (\<lambda>j. if j \<in> set (i # js) then Map.empty else D j)" by auto
  ultimately show ?case using s1(1) by simp
qed simp

lemma retransmit_clear_step:
  assumes "nl_rep (nl, mem) X S Q Lx Ly R" "counters mem (rxmt_counts X C)"
  shows "\<exists>d' mem'. ospf_ls_retransmit_clear (nl, mem) = Inr (nl\<lparr>nl_rxmt := d', nl_req_last := None\<rparr>, mem') \<and>
     nl_rep (nl\<lparr>nl_rxmt := d', nl_req_last := None\<rparr>, mem') (cleared_db X) S Q Lx Ly R \<and>
     counters mem' (rxmt_counts (cleared_db X) C) \<and> mem_le mem mem'"
proof -
  define J where "J = (\<lambda>s x. \<exists>d m. s = (nl\<lparr>nl_rxmt := d\<rparr>, m) \<and> nl_rep s x S Q Lx Ly R \<and> counters m (rxmt_counts x C) \<and> mem_le mem m)"
  have "\<exists>s'. each_type lsa_types (\<lambda>i. rxmt_loop i ospf_ls_retransmit_delete) (nl, mem) = Inr s' \<and>
     J s' (\<lambda>i. if i \<in> set lsa_types then Map.empty else X i)"
  proof (rule each_type_clears)
    show "\<exists>s'. rxmt_loop i ospf_ls_retransmit_delete s = Inr s' \<and> J s' (x(i := Map.empty))"
      if i: "i \<in> set lsa_types" and s: "J s x" for i s x
    proof -
      from s obtain d m where d: "s = (nl\<lparr>nl_rxmt := d\<rparr>, m)" "nl_rep (nl\<lparr>nl_rxmt := d\<rparr>, m) x S Q Lx Ly R"
        "counters m (rxmt_counts x C)" "mem_le mem m" by (auto simp: J_def)
      from rxmt_loop_step [OF d(2,3) i] d(1) mem_le_trans [OF d(4)] show ?thesis by (auto simp: J_def)
    qed
    show "J (nl, mem) X" using assms by (auto simp: J_def intro!: exI [of _ "nl_rxmt nl"])
  qed
  then obtain d m where d: "each_type lsa_types (\<lambda>i. rxmt_loop i ospf_ls_retransmit_delete) (nl, mem) = Inr (nl\<lparr>nl_rxmt := d\<rparr>, m)"
    "nl_rep (nl\<lparr>nl_rxmt := d\<rparr>, m) (cleared_db X) S Q Lx Ly R" "counters m (rxmt_counts (cleared_db X) C)" "mem_le mem m"
    unfolding J_def cleared_db_def by auto
  from drop_req_last_step [OF d(2)] obtain m' where m': "drop_req_last (nl\<lparr>nl_rxmt := d\<rparr>, m) = Inr (nl\<lparr>nl_rxmt := d, nl_req_last := None\<rparr>, m')"
    "nl_rep (nl\<lparr>nl_rxmt := d, nl_req_last := None\<rparr>, m') (cleared_db X) S Q Lx Ly R" "mem_sub m m'" by auto
  then show ?thesis
    using d counters_sub [OF d(3) m'(3)] mem_le_trans [OF d(4) mem_sub_le [OF m'(3)]] by (auto simp: ospf_ls_retransmit_clear_def)
qed

lemma summary_clear_step:
  assumes "nl_rep (nl, mem) X S Q Lx Ly R"
  shows "\<exists>d' mem'. ospf_db_summary_clear (nl, mem) = Inr (nl\<lparr>nl_sum := d'\<rparr>, mem') \<and>
     nl_rep (nl\<lparr>nl_sum := d'\<rparr>, mem') X (cleared_db S) Q Lx Ly R \<and> mem_sub mem mem'"
proof -
  define J where "J = (\<lambda>s x. \<exists>d m. s = (nl\<lparr>nl_sum := d\<rparr>, m) \<and> nl_rep s X x Q Lx Ly R \<and> mem_sub mem m)"
  have "\<exists>s'. each_type lsa_types (\<lambda>i. sum_loop i (\<lambda>lsa. on_sum (ospf_lsdb_delete (Some lsa)))) (nl, mem) = Inr s' \<and>
     J s' (\<lambda>i. if i \<in> set lsa_types then Map.empty else S i)"
  proof (rule each_type_clears)
    show "\<exists>s'. sum_loop i (\<lambda>lsa. on_sum (ospf_lsdb_delete (Some lsa))) s = Inr s' \<and> J s' (x(i := Map.empty))"
      if i: "i \<in> set lsa_types" and s: "J s x" for i s x
    proof -
      from s obtain d m where d: "s = (nl\<lparr>nl_sum := d\<rparr>, m)" "nl_rep (nl\<lparr>nl_sum := d\<rparr>, m) X x Q Lx Ly R" "mem_sub mem m"
        by (auto simp: J_def)
      from sum_loop_step [OF d(2) i] d(1) mem_sub_trans [OF d(3)] show ?thesis by (auto simp: J_def)
    qed
    show "J (nl, mem) S" using assms by (auto simp: J_def intro!: exI [of _ "nl_sum nl"])
  qed
  then show ?thesis by (auto simp: J_def ospf_db_summary_clear_def cleared_db_def)
qed

lemma request_delete_all_step:
  assumes "nl_rep (nl, mem) X S Q Lx Ly R"
  shows "\<exists>d' mem'. ospf_ls_request_delete_all (nl, mem) = Inr (nl\<lparr>nl_req_last := None, nl_req := d'\<rparr>, mem') \<and>
     nl_rep (nl\<lparr>nl_req_last := None, nl_req := d'\<rparr>, mem') X S (cleared_db Q) Lx Ly R \<and> mem_sub mem mem'"
proof -
  from drop_req_last_step [OF assms] obtain m1 where m1: "drop_req_last (nl, mem) = Inr (nl\<lparr>nl_req_last := None\<rparr>, m1)"
    "nl_rep (nl\<lparr>nl_req_last := None\<rparr>, m1) X S Q Lx Ly R" "mem_sub mem m1" by blast
  have "\<exists>d' m2. on_req ospf_lsdb_delete_all (nl\<lparr>nl_req_last := None\<rparr>, m1) = Inr (nl\<lparr>nl_req_last := None, nl_req := d'\<rparr>, m2) \<and>
    nl_rep (nl\<lparr>nl_req_last := None, nl_req := d'\<rparr>, m2) X S (cleared_db Q) Lx Ly R \<and> mem_sub m1 m2"
    by (rule on_req_step [OF m1(2)]) (rule ospf_lsdb_delete_all_step)
  then show ?thesis using m1(1) mem_sub_trans [OF m1(3)] by (auto simp: ospf_ls_request_delete_all_def)
qed

section \<open>Emptiness\<close>

lemma lsdb_isempty_iff:
  assumes "lsdb_ok mem D Ls d" "mem_ok mem (refs D + R)" "card (dom (lm_lsas mem)) < 2 ^ 64"
  shows "ospf_lsdb_isempty d \<longleftrightarrow> (\<forall>i \<in> set lsa_types. D i = Map.empty)"
proof -
  have fin: "finite (dom (D i))" if "i \<in> set lsa_types" for i
    using lsdb_okD(2) [OF assms(1) that] by (simp add: type_ok_def)
  have at: "lsa_at mem l i k" if "i \<in> set lsa_types" "D i k = Some l" for i k l
    using lsdb_okD(2) [OF assms(1) that(1)] that(2) by (simp add: type_ok_def)
  let ?E = "SIGMA i : set lsa_types. dom (D i)"
  define n where "n = (\<Sum>i \<in> set lsa_types. card (dom (D i)))"
  have n: "n = card ?E" unfolding n_def using fin by (subst card_SigmaI) auto
  let ?f = "\<lambda>(i, k). the (D i k)"
  have "inj_on ?f ?E"
  proof (rule inj_onI, clarify)
    fix i k j k' l l'
    assume "i \<in> set lsa_types" "D i k = Some l" "j \<in> set lsa_types" "D j k' = Some l'" "the (D i k) = the (D j k')"
    then have "lsa_at mem l i k" "lsa_at mem l j k'" using at by auto
    then show "i = j \<and> k = k'" by (auto simp: lsa_at_def)
  qed
  moreover have "?f ` ?E \<subseteq> dom (lm_lsas mem)"
  proof
    fix l
    assume "l \<in> ?f ` ?E"
    then obtain i k where "i \<in> set lsa_types" "D i k = Some l" by auto
    from at [OF this] show "l \<in> dom (lm_lsas mem)" by (auto simp: lsa_at_def)
  qed
  moreover have "dom (lm_lsas mem) \<subseteq> {..<lm_brk mem}" using assms(2) unfolding mem_ok_def by blast
  then have "finite (dom (lm_lsas mem))" by (rule finite_subset) simp
  ultimately have "card ?E \<le> card (dom (lm_lsas mem))" by (rule card_inj_on_le)
  then have small: "n < 2 ^ 64" using assms(3) n by linarith
  have "ld_total d = (of_nat n :: u64)"
    using assms(1) by (simp add: lsdb_ok_def tally_def n_def of_nat_sum)
  moreover have "(of_nat n :: u64) = 0 \<longleftrightarrow> n = 0"
    using small by (auto simp: word_of_nat_eq_0_iff dvd_def)
  moreover have "n = 0 \<longleftrightarrow> (\<forall>i \<in> set lsa_types. D i = Map.empty)"
    unfolding n_def using fin by (auto simp: card_eq_0_iff)
  ultimately show ?thesis by (simp add: ospf_lsdb_isempty_def)
qed

end
