(* ===== verification/OspfLsdbProps.thy ===== *)
theory OspfLsdbProps
  imports OspfLsdb
begin

text \<open>
  The link state database against its specification: a sequence of calls on a new database behaves
  as on a map from types and keys to advertisements, and emptying the database gives back every
  reference it took.
\<close>

section \<open>A new database\<close>

lemma fold_put_table:
  assumes "\<And>i. i \<in> set is \<Longrightarrow> i < length (ld_type d)"
  shows "length (ld_type (fold (\<lambda>i. put_table i t) is d)) = length (ld_type d) \<and>
     ld_total (fold (\<lambda>i. put_table i t) is d) = ld_total d \<and>
     ld_type (fold (\<lambda>i. put_table i t) is d) ! j =
       (if j \<in> set is then (ld_type d ! j)\<lparr>ty_db := Some t\<rparr> else ld_type d ! j)"
  using assms
proof (induction "is" arbitrary: d)
  case (Cons i js)
  then have "i < length (ld_type d)" by simp
  then show ?case using Cons.IH [of "put_table i t d"] Cons.prems by (auto simp: put_table_def)
qed simp

lemma ospf_lsdb_new_rep:
  assumes "mem_ok mem R"
  shows "lsdb_rep (ospf_lsdb_new, mem) (\<lambda>_. Map.empty) (\<lambda>_. {#}) R"
proof -
  define d where "d = \<lparr>ld_type = replicate OSPF_MAX_LSA \<lparr>ty_count = 0, ty_count_self = 0, ty_checksum = 0,
       ty_db = None\<rparr>, ld_total = 0, ld_new_hook = False, ld_del_hook = False\<rparr>"
  have "i < length (ld_type d)" if "i \<in> set lsa_types" for i using that by (simp add: d_def)
  note new = fold_put_table [OF this, of lsa_types route_table_init]
  have eq: "ospf_lsdb_new = fold (\<lambda>i. put_table i route_table_init) lsa_types d"
    by (simp add: ospf_lsdb_new_def ospf_lsdb_init_def d_def)
  have "type_ok mem i Map.empty {#} (ld_type ospf_lsdb_new ! i)" if "i \<in> set lsa_types" for i
    using new [of i] that rt_stores_init unfolding eq by (simp add: type_ok_def d_def)
  moreover have "length (ld_type ospf_lsdb_new) = OSPF_MAX_LSA" "ld_total ospf_lsdb_new = 0"
    using new [of 0] unfolding eq by (simp_all add: d_def)
  ultimately show ?thesis using assms by (simp add: lsdb_rep_def lsdb_ok_def refs_def)
qed

section \<open>Calls\<close>

datatype lsdb_call =
    AddLsa nat | DeleteLsa nat | DeleteAll | LookupLsa nat | LookupId u8 u32 u32

fun lsdb_exec :: "lsdb_call \<Rightarrow> lsdb_state \<Rightarrow> (lsdb_state \<times> nat option) res" where
  "lsdb_exec (AddLsa l) s = and_then (ospf_lsdb_add l s) (\<lambda>s. Inr (s, None))"
| "lsdb_exec (DeleteLsa l) s = and_then (ospf_lsdb_delete (Some l) s) (\<lambda>s. Inr (s, None))"
| "lsdb_exec DeleteAll s = and_then (ospf_lsdb_delete_all s) (\<lambda>s. Inr (s, None))"
| "lsdb_exec (LookupLsa l) s = ospf_lsdb_lookup l s"
| "lsdb_exec (LookupId ty i a) (lsdb, mem) =
     and_then (ospf_lsdb_lookup_by_id ty i a lsdb) (\<lambda>(lsdb, r). Inr ((lsdb, mem), r))"

fun lsdb_run :: "lsdb_call list \<Rightarrow> lsdb_state \<Rightarrow> (lsdb_state \<times> nat option list) res" where
  "lsdb_run [] s = Inr (s, [])"
| "lsdb_run (c # cs) s =
     and_then (lsdb_exec c s) (\<lambda>(s, r). and_then (lsdb_run cs s) (\<lambda>(s, rs). Inr (s, r # rs)))"

text \<open>The specification: a map per type, updated at the key of the advertisement.\<close>

definition type_of :: "lsa_mem \<Rightarrow> nat \<Rightarrow> nat" where
  "type_of mem l = unat (h_type (lsa_data (the (lm_lsas mem l))))"

definition key_of :: "lsa_mem \<Rightarrow> nat \<Rightarrow> bool list" where
  "key_of mem l = prefix_key (ls_prefix_set (the (lm_lsas mem l)))"

fun map_exec :: "lsa_mem \<Rightarrow> lsdb_call \<Rightarrow> content \<Rightarrow> content \<times> nat option" where
  "map_exec mem (AddLsa l) D = (put_key (type_of mem l) (key_of mem l) (Some l) D, None)"
| "map_exec mem (DeleteLsa l) D =
     (if D (type_of mem l) (key_of mem l) = Some l
      then put_key (type_of mem l) (key_of mem l) None D else D, None)"
| "map_exec mem DeleteAll D = (cleared_db D, None)"
| "map_exec mem (LookupLsa l) D = (D, D (type_of mem l) (key_of mem l))"
| "map_exec mem (LookupId ty i a) D = (D, D (unat ty) (prefix_key (prefix_ls i a)))"

fun map_run :: "lsa_mem \<Rightarrow> lsdb_call list \<Rightarrow> content \<Rightarrow> content \<times> nat option list" where
  "map_run mem [] D = (D, [])"
| "map_run mem (c # cs) D =
     (let (D, r) = map_exec mem c D; (D, rs) = map_run mem cs D in (D, r # rs))"

text \<open>The caller holds a reference to the advertisements it passes, and types are in range.\<close>

fun lsdb_call_ok :: "lsa_mem \<Rightarrow> nat multiset \<Rightarrow> lsdb_call \<Rightarrow> bool" where
  "lsdb_call_ok mem R (AddLsa l) \<longleftrightarrow> l \<in># R \<and> type_of mem l \<in> set lsa_types"
| "lsdb_call_ok mem R (DeleteLsa l) \<longleftrightarrow> l \<in># R \<and> type_of mem l \<in> set lsa_types"
| "lsdb_call_ok mem R DeleteAll \<longleftrightarrow> True"
| "lsdb_call_ok mem R (LookupLsa l) \<longleftrightarrow> l \<in># R \<and> type_of mem l \<in> set lsa_types"
| "lsdb_call_ok mem R (LookupId ty i a) \<longleftrightarrow> unat ty \<in> set lsa_types"

lemma held_lsa:
  assumes "mem_ok mem' (Q + R)" "set_mset R \<subseteq> dom (lm_lsas mem)" "mem_sub mem mem'" "l \<in># R"
  obtains x where "lm_lsas mem' l = Some x" "type_of mem l = unat (h_type (lsa_data x))"
    "key_of mem l = prefix_key (ls_prefix_set x)"
proof -
  obtain x where x: "lm_lsas mem' l = Some x" using assms(1,4) unfolding mem_ok_def by fastforce
  obtain y where y: "lm_lsas mem l = Some y" using assms(2,4) by blast
  with x assms(3) have "lsa_content x = lsa_content y" by (simp add: mem_sub_def same_content_def)
  with x y that show thesis by (simp add: lsa_content_def type_of_def key_of_def ls_prefix_set_def)
qed

lemma lsdb_exec_step:
  assumes rep: "lsdb_rep (lsdb, mem') D Ls R" and mem: "mem_sub mem mem'" "set_mset R \<subseteq> dom (lm_lsas mem)"
    and ok: "lsdb_call_ok mem R c"
  shows "\<exists>lsdb2 mem2. lsdb_exec c (lsdb, mem') = Inr ((lsdb2, mem2), snd (map_exec mem c D)) \<and>
     lsdb_rep (lsdb2, mem2) (fst (map_exec mem c D)) Ls R \<and> mem_sub mem mem2"
proof -
  have mok: "mem_ok mem' (refs D + R)" using rep by (simp add: lsdb_rep_def)
  show ?thesis
  proof (cases c)
    case (AddLsa l)
    with ok have l: "l \<in># R" "type_of mem l \<in> set lsa_types" by simp_all
    from held_lsa [OF mok mem(2,1) l(1)] obtain x where "lm_lsas mem' l = Some x"
      "type_of mem l = unat (h_type (lsa_data x))" "key_of mem l = prefix_key (ls_prefix_set x)" .
    from ospf_lsdb_add_step [OF rep this(1,2) l(2) this(3)] AddLsa show ?thesis
      by (auto intro: mem_sub_trans [OF mem(1)])
  next
    case (DeleteLsa l)
    with ok have l: "l \<in># R" "type_of mem l \<in> set lsa_types" by simp_all
    from held_lsa [OF mok mem(2,1) l(1)] obtain x where "lm_lsas mem' l = Some x"
      "type_of mem l = unat (h_type (lsa_data x))" "key_of mem l = prefix_key (ls_prefix_set x)" .
    from ospf_lsdb_delete_step [OF rep this(1,2) l(2) this(3) refl] DeleteLsa show ?thesis
      by (auto intro: mem_sub_trans [OF mem(1)])
  next
    case DeleteAll
    with ospf_lsdb_delete_all_step [OF rep] show ?thesis by (auto intro: mem_sub_trans [OF mem(1)])
  next
    case (LookupLsa l)
    with ok have l: "l \<in># R" "type_of mem l \<in> set lsa_types" by simp_all
    from held_lsa [OF mok mem(2,1) l(1)] obtain x where x: "lm_lsas mem' l = Some x"
      "type_of mem l = unat (h_type (lsa_data x))" "key_of mem l = prefix_key (ls_prefix_set x)" .
    from lookup_key_step [OF rep l(2), of "ls_prefix_set x"] LookupLsa x mem(1) show ?thesis
      by (auto simp: ospf_lsdb_lookup_def deref_lsa_def)
  next
    case (LookupId ty i a)
    with lookup_key_step [OF rep, of "unat ty" "prefix_ls i a"] ok mem(1) show ?thesis
      by (auto simp: ospf_lsdb_lookup_by_id_def)
  qed
qed

lemma lsdb_run_step:
  assumes "lsdb_rep (lsdb, mem') D Ls R" "mem_sub mem mem'" "set_mset R \<subseteq> dom (lm_lsas mem)"
    and "list_all (lsdb_call_ok mem R) cs"
  shows "\<exists>lsdb2 mem2. lsdb_run cs (lsdb, mem') = Inr ((lsdb2, mem2), snd (map_run mem cs D)) \<and>
     lsdb_rep (lsdb2, mem2) (fst (map_run mem cs D)) Ls R \<and> mem_sub mem mem2"
  using assms
proof (induction cs arbitrary: lsdb mem' D)
  case (Cons c cs)
  from lsdb_exec_step [OF Cons.prems(1-3), of c] Cons.prems(4) obtain lsdb1 mem1 where
    s1: "lsdb_exec c (lsdb, mem') = Inr ((lsdb1, mem1), snd (map_exec mem c D))"
      "lsdb_rep (lsdb1, mem1) (fst (map_exec mem c D)) Ls R" "mem_sub mem mem1" by auto
  from Cons.IH [OF s1(2,3) Cons.prems(3)] Cons.prems(4) s1(1) show ?case
    by (auto simp: Let_def split: prod.splits)
qed simp

section \<open>Properties\<close>

text \<open>C7: the link state database is a map. On a new database any sequence of additions, deletions
  and lookups by a caller that holds the advertisements returns without a fault; the lookups return
  what a map from types and keys to advertisements returns, and in the end the database represents
  that map: every table holds its part of it, the counts, the counts of self-originated
  advertisements and the checksums are the sums over it, and each reference count is the number of
  references there are.\<close>

theorem ospf_lsdb_refines_map:
  assumes "mem_ok mem R" "list_all (lsdb_call_ok mem R) cs"
  shows "\<exists>lsdb mem'. lsdb_run cs (ospf_lsdb_new, mem) = Inr ((lsdb, mem'), snd (map_run mem cs (\<lambda>_. Map.empty))) \<and>
     lsdb_rep (lsdb, mem') (fst (map_run mem cs (\<lambda>_. Map.empty))) (\<lambda>_. {#}) R"
  using lsdb_run_step [OF ospf_lsdb_new_rep [OF assms(1)] mem_sub_refl _ assms(2)] assms(1)
  by (auto simp: mem_ok_def)

text \<open>Two versions of one router-LSA, each held by its creator and by the caller.\<close>

definition sample_header :: "u32 \<Rightarrow> lsa_header" where
  "sample_header seq = \<lparr>h_ls_age = 0, h_options = 2, h_type = 1, h_id = 1, h_adv_router = 1,
     h_ls_seqnum = seq, h_checksum = 0x3412, h_length = 0x2400\<rparr>"

definition sample_object :: "u32 \<Rightarrow> ospf_lsa" where
  "sample_object seq = \<lparr>lsa_flags = OSPF_LSA_SELF, lsa_data = sample_header seq, lsa_tv_recv = zero_time,
     lsa_tv_orig = zero_time, lsa_lock = 2, lsa_stat = 0, retransmit_counter = 0, refresh_list = -1\<rparr>"

definition sample_lsa_mem :: lsa_mem where
  "sample_lsa_mem = \<lparr>lm_lsas = [0 \<mapsto> sample_object 1, 2 \<mapsto> sample_object 2], lm_brk = 3, lm_hooks = []\<rparr>"

lemma sample_mem_ok: "mem_ok sample_lsa_mem {#0, 2#}"
  by (auto simp: mem_ok_def sample_lsa_mem_def sample_object_def CHECK_FLAG_def lsa_consts)

lemma sample_type: "type_of sample_lsa_mem 0 = 1" "type_of sample_lsa_mem 2 = 1"
  "key_of sample_lsa_mem 2 = key_of sample_lsa_mem 0"
  by (simp_all add: type_of_def key_of_def sample_lsa_mem_def sample_object_def sample_header_def ls_prefix_set_def)

theorem ospf_lsdb_refines_map_witness:
  "\<exists>s. lsdb_run [AddLsa 0, LookupLsa 2, AddLsa 2, DeleteLsa 0, LookupLsa 0, DeleteAll, LookupLsa 2]
     (ospf_lsdb_new, sample_lsa_mem) = Inr (s, [None, Some 0, None, None, Some 2, None, None])"
proof -
  have "list_all (lsdb_call_ok sample_lsa_mem {#0, 2#})
      [AddLsa 0, LookupLsa 2, AddLsa 2, DeleteLsa 0, LookupLsa 0, DeleteAll, LookupLsa 2]"
    by (simp add: sample_type OSPF_MIN_LSA_def OSPF_MAX_LSA_def)
  from ospf_lsdb_refines_map [OF sample_mem_ok this] show ?thesis
    by (auto simp: sample_type put_key_def cleared_db_def OSPF_MIN_LSA_def OSPF_MAX_LSA_def)
qed

lemma finish_tables_step:
  assumes "lsdb_rep (lsdb, mem) D Ls R"
  shows "\<exists>lsdb'. finish_tables (lsdb, mem) = Inr (lsdb', mem)"
proof -
  have fin: "\<exists>lsdb'. each_type is (\<lambda>i (lsdb, mem). and_then (get_table lsdb i) (\<lambda>table.
      and_then (route_table_finish table) (\<lambda>_. Inr (upd_type i (\<lambda>t. t\<lparr>ty_db := None\<rparr>) lsdb, mem))))
      (lsdb, mem) = Inr (lsdb', mem)"
    if "distinct is" "\<And>i. i \<in> set is \<Longrightarrow> \<exists>t. get_table lsdb i = Inr t \<and> rt_inv t" for "is" lsdb
    using that
  proof (induction "is" arbitrary: lsdb)
    case (Cons i js)
    then obtain t where t: "get_table lsdb i = Inr t" "rt_inv t" by auto
    from route_table_finish_spec [OF t(2)] obtain t' where t': "route_table_finish t = Inr t'" by blast
    let ?lsdb = "upd_type i (\<lambda>t. t\<lparr>ty_db := None\<rparr>) lsdb"
    have "get_table ?lsdb j = get_table lsdb j" if "j \<noteq> i" for j
      using that t(1) by (simp add: get_table_def get_type_def upd_type_def)
    with Cons.IH [of ?lsdb] Cons.prems t t' show ?case by fastforce
  qed simp
  have tabs: "\<exists>t. get_table lsdb i = Inr t \<and> rt_inv t" if "i \<in> set lsa_types" for i
    using lsdb_okD(4) [of mem D Ls lsdb i] assms that unfolding lsdb_rep_def rt_stores_def by auto
  show ?thesis unfolding finish_tables_def by (rule fin [OF _ tabs]) simp_all
qed

text \<open>C8: a database can be emptied and destroyed. From any state of a database the loop of
  \<open>ospf_lsdb_delete_all\<close>, which deletes nodes while it iterates, ends without a fault;
  \<open>ospf_lsdb_cleanup\<close> then passes its assertion and frees the tables, and what is left of the
  references to advertisements are those of the others.\<close>

theorem ospf_lsdb_gives_back:
  assumes "lsdb_rep (lsdb, mem) D (\<lambda>_. {#}) R"
  shows "\<exists>lsdb' mem'. and_then (ospf_lsdb_delete_all (lsdb, mem)) ospf_lsdb_cleanup = Inr (lsdb', mem') \<and>
     mem_ok mem' R \<and> mem_sub mem mem'"
proof -
  have none: "refs (cleared_db E) = {#}" for E by (simp add: refs_def cleared_db_def)
  from ospf_lsdb_delete_all_step [OF assms] obtain lsdb1 mem1 where
    s1: "ospf_lsdb_delete_all (lsdb, mem) = Inr (lsdb1, mem1)"
      "lsdb_rep (lsdb1, mem1) (cleared_db D) (\<lambda>_. {#}) R" "mem_sub mem mem1" by blast
  then have "ld_total lsdb1 = 0" by (simp add: lsdb_rep_def lsdb_ok_def cleared_db_def)
  moreover from ospf_lsdb_delete_all_step [OF s1(2)] obtain lsdb2 mem2 where
    s2: "ospf_lsdb_delete_all (lsdb1, mem1) = Inr (lsdb2, mem2)"
      "lsdb_rep (lsdb2, mem2) (cleared_db (cleared_db D)) (\<lambda>_. {#}) R" "mem_sub mem1 mem2" by blast
  moreover from finish_tables_step [OF s2(2)] obtain lsdb3 where "finish_tables (lsdb2, mem2) = Inr (lsdb3, mem2)"
    by blast
  ultimately show ?thesis
    using s1(1) none mem_sub_trans [OF s1(3) s2(3)] s2(2) by (auto simp: ospf_lsdb_cleanup_def lsdb_rep_def)
qed

theorem ospf_lsdb_gives_back_witness:
  "\<exists>lsdb mem D. lsdb_run [AddLsa 0] (ospf_lsdb_new, sample_lsa_mem) = Inr ((lsdb, mem), [None]) \<and>
     D 1 (key_of sample_lsa_mem 0) = Some 0 \<and> lsdb_rep (lsdb, mem) D (\<lambda>_. {#}) {#0, 2#} \<and>
     (\<exists>lsdb' mem'. and_then (ospf_lsdb_delete_all (lsdb, mem)) ospf_lsdb_cleanup = Inr (lsdb', mem') \<and>
        mem_ok mem' {#0, 2#})"
proof -
  have "list_all (lsdb_call_ok sample_lsa_mem {#0, 2#}) [AddLsa 0]"
    by (simp add: sample_type OSPF_MIN_LSA_def OSPF_MAX_LSA_def)
  from lsdb_run_step [OF ospf_lsdb_new_rep [OF sample_mem_ok] mem_sub_refl _ this] sample_mem_ok
  obtain lsdb mem where run: "lsdb_run [AddLsa 0] (ospf_lsdb_new, sample_lsa_mem) = Inr ((lsdb, mem), [None])"
    "lsdb_rep (lsdb, mem) (put_key 1 (key_of sample_lsa_mem 0) (Some 0) (\<lambda>_. Map.empty)) (\<lambda>_. {#}) {#0, 2#}"
    by (auto simp: sample_type mem_ok_def)
  moreover have "put_key 1 (key_of sample_lsa_mem 0) (Some 0) (\<lambda>_. Map.empty) 1 (key_of sample_lsa_mem 0) = Some 0"
    by (simp add: put_key_def)
  ultimately show ?thesis using ospf_lsdb_gives_back [OF run(2)] by blast
qed

end
