(* ===== verification/OspfNbrListsProps.thy ===== *)
theory OspfNbrListsProps
  imports OspfNbrLists OspfLsdbProps
begin

text \<open>
  What the lists of a neighbor promise: \<open>nsm_clear_adj\<close> empties them and gives every reference
  back, and whatever calls are made on them, the retransmission counter of an advertisement is the
  number of retransmission lists it is on.
\<close>

section \<open>Clearing an adjacency\<close>

lemma cleared_idle: "\<forall>i \<in> set lsa_types. D i = Map.empty \<Longrightarrow> cleared_db D = D"
  by (auto simp: cleared_db_def fun_eq_iff)

lemma refs_cleared [simp]: "refs (cleared_db D) = {#}"
  by (simp add: refs_def cleared_db_def)

lemma rxmt_counts_cleared [simp]: "rxmt_counts (cleared_db X) C = C"
  by (simp add: rxmt_counts_def)

definition few :: "lsa_mem \<Rightarrow> bool" where
  "few mem \<longleftrightarrow> card (dom (lm_lsas mem)) < 2 ^ 64"

definition none :: "content \<Rightarrow> bool" where
  "none D \<longleftrightarrow> (\<forall>i \<in> set lsa_types. D i = Map.empty)"

lemma nl_isempty:
  assumes "nl_rep (nl, mem) X S Q Lx Ly R" "few mem"
  shows "ospf_ls_retransmit_isempty nl \<longleftrightarrow> none X" "ospf_db_summary_isempty nl \<longleftrightarrow> none S"
    "ospf_ls_request_isempty nl \<longleftrightarrow> none Q"
proof -
  have all: "mem_ok mem (refs X + (refs S + refs Q + opt_ref (nl_req_last nl) + R))"
    "mem_ok mem (refs S + (refs X + refs Q + opt_ref (nl_req_last nl) + R))"
    "mem_ok mem (refs Q + (refs X + refs S + opt_ref (nl_req_last nl) + R))"
    using assms(1) by (simp_all add: nl_rep_def ac_simps)
  have ok: "lsdb_ok mem X Lx (nl_rxmt nl)" "lsdb_ok mem S Ly (nl_sum nl)" "lsdb_ok mem Q (\<lambda>_. {#}) (nl_req nl)"
    using assms(1) by (simp_all add: nl_rep_def)
  note small = assms(2) [unfolded few_def]
  show "ospf_ls_retransmit_isempty nl \<longleftrightarrow> none X"
    using lsdb_isempty_iff [OF ok(1) all(1) small] by (simp add: none_def ospf_ls_retransmit_isempty_def)
  show "ospf_db_summary_isempty nl \<longleftrightarrow> none S"
    using lsdb_isempty_iff [OF ok(2) all(2) small] by (simp add: none_def ospf_db_summary_isempty_def)
  show "ospf_ls_request_isempty nl \<longleftrightarrow> none Q"
    using lsdb_isempty_iff [OF ok(3) all(3) small] by (simp add: none_def ospf_ls_request_isempty_def)
qed

lemma few_le:
  assumes "few mem" "mem_le mem mem'" "mem_ok mem R"
  shows "few mem'"
proof -
  have "dom (lm_lsas mem) \<subseteq> {..<lm_brk mem}" using assms(3) unfolding mem_ok_def by blast
  then have "finite (dom (lm_lsas mem))" by (rule finite_subset) simp
  moreover have "dom (lm_lsas mem') \<subseteq> dom (lm_lsas mem)" using assms(2) unfolding mem_le_def by blast
  ultimately have "card (dom (lm_lsas mem')) \<le> card (dom (lm_lsas mem))" by (rule card_mono)
  then show ?thesis using assms(1) by (simp add: few_def)
qed

lemma nl_mem_ok: "nl_rep (nl, mem) X S Q Lx Ly R \<Longrightarrow> mem_ok mem (refs X + refs S + refs Q + opt_ref (nl_req_last nl) + R)"
  by (simp add: nl_rep_def)

lemma clear_lists_step:
  assumes rep: "nl_rep (nl, mem) X S Q Lx Ly R" and K: "counters mem (rxmt_counts X C)" and few: "few mem"
  shows "\<exists>nl' mem'. clear_lists (nl, mem) = Inr (nl', mem') \<and>
     nl_rep (nl', mem') (cleared_db X) (cleared_db S) (cleared_db Q) Lx Ly R \<and> counters mem' C \<and> mem_le mem mem' \<and>
     nl_req_last nl' = (if none X \<and> none Q then nl_req_last nl else None)"
proof -
  note idle = cleared_idle [folded none_def]
  obtain nl1 m1 where s1: "(if \<not> ospf_db_summary_isempty nl then ospf_db_summary_clear (nl, mem) else Inr (nl, mem)) = Inr (nl1, m1)"
    "nl_rep (nl1, m1) X (cleared_db S) Q Lx Ly R" "mem_sub mem m1" "nl_req_last nl1 = nl_req_last nl"
    using summary_clear_step [OF rep] nl_isempty(2) [OF rep few] rep idle [of S] by (cases "none S") auto
  have few1: "few m1" by (rule few_le [OF few mem_sub_le [OF s1(3)] nl_mem_ok [OF rep]])
  obtain nl2 m2 where s2: "(if \<not> ospf_ls_request_isempty nl1 then ospf_ls_request_delete_all (nl1, m1) else Inr (nl1, m1)) = Inr (nl2, m2)"
    "nl_rep (nl2, m2) X (cleared_db S) (cleared_db Q) Lx Ly R" "mem_sub m1 m2"
    "nl_req_last nl2 = (if none Q then nl_req_last nl else None)"
    using request_delete_all_step [OF s1(2)] nl_isempty(3) [OF s1(2) few1] s1(2,4) idle [of Q] by (cases "none Q") auto
  have few2: "few m2" by (rule few_le [OF few1 mem_sub_le [OF s2(3)] nl_mem_ok [OF s1(2)]])
  have K2: "counters m2 (rxmt_counts X C)" using counters_sub [OF counters_sub [OF K s1(3)] s2(3)] .
  obtain nl3 m3 where s3: "(if \<not> ospf_ls_retransmit_isempty nl2 then ospf_ls_retransmit_clear (nl2, m2) else Inr (nl2, m2)) = Inr (nl3, m3)"
    "nl_rep (nl3, m3) (cleared_db X) (cleared_db S) (cleared_db Q) Lx Ly R" "mem_le m2 m3" "counters m3 C"
    "nl_req_last nl3 = (if none X \<and> none Q then nl_req_last nl else None)"
  proof (cases "none X")
    case True
    then have "rxmt_counts X C = C" using idle [of X] rxmt_counts_cleared [of X C] by simp
    with True K2 s2(2,4) nl_isempty(1) [OF s2(2) few2] idle [of X] that show ?thesis by simp
  next
    case False
    with retransmit_clear_step [OF s2(2) K2] nl_isempty(1) [OF s2(2) few2] that show ?thesis by auto
  qed
  have "mem_le mem m3" using mem_le_trans [OF mem_le_trans [OF mem_sub_le [OF s1(3)] mem_sub_le [OF s2(3)]] s3(3)] .
  moreover have "clear_lists (nl, mem) = Inr (nl3, m3)" using s1(1) s2(1) s3(1) by (simp add: clear_lists_def)
  ultimately show ?thesis using s3 by blast
qed

section \<open>Calls\<close>

datatype nl_call =
    RequestAdd nat | RequestDelete nat | RetransmitAdd nat | RetransmitDeleteNbr nat | ImpliedAck nat | LsAck nat
  | RequestSent nat | SummaryAdd nat | ClearAdj

text \<open>The advertisement put into a request is one of the request list.\<close>

definition request_sent :: "nat \<Rightarrow> nl_state \<Rightarrow> nl_state res" where
  "request_sent l st = and_then (ospf_ls_request_lookup l st) (\<lambda>(st, r). case r of None \<Rightarrow> Inr st | Some lsa \<Rightarrow> set_req_last lsa st)"

fun nl_exec :: "timeval \<Rightarrow> (nat \<Rightarrow> bool) \<Rightarrow> nl_call \<Rightarrow> nl_state \<Rightarrow> nl_state res" where
  "nl_exec now here (RequestAdd l) st = ospf_ls_request_add l st"
| "nl_exec now here (RequestDelete l) st = ospf_ls_request_delete l st"
| "nl_exec now here (RetransmitAdd l) st = ospf_ls_retransmit_add now l st"
| "nl_exec now here (RetransmitDeleteNbr l) st = retransmit_delete_nbr l st"
| "nl_exec now here (ImpliedAck l) st = implied_ack l st"
| "nl_exec now here (LsAck l) st = ls_ack now l st"
| "nl_exec now here (RequestSent l) st = request_sent l st"
| "nl_exec now here (SummaryAdd l) st = ospf_db_summary_add now here l st"
| "nl_exec now here ClearAdj st = clear_lists st"

fun nl_run :: "(nat \<Rightarrow> bool) \<Rightarrow> (timeval \<times> nl_call) list \<Rightarrow> nl_state \<Rightarrow> nl_state res" where
  "nl_run here [] st = Inr st"
| "nl_run here ((now, c) # cs) st = and_then (nl_exec now here c st) (nl_run here cs)"

text \<open>The caller holds the advertisements it passes, and their types are in range.\<close>

fun nl_call_ok :: "lsa_mem \<Rightarrow> nat multiset \<Rightarrow> nl_call \<Rightarrow> bool" where
  "nl_call_ok mem R (RequestAdd l) \<longleftrightarrow> l \<in># R \<and> type_of mem l \<in> set lsa_types"
| "nl_call_ok mem R (RequestDelete l) \<longleftrightarrow> l \<in># R \<and> type_of mem l \<in> set lsa_types"
| "nl_call_ok mem R (RetransmitAdd l) \<longleftrightarrow> l \<in># R \<and> type_of mem l \<in> set lsa_types"
| "nl_call_ok mem R (RetransmitDeleteNbr l) \<longleftrightarrow> l \<in># R \<and> type_of mem l \<in> set lsa_types"
| "nl_call_ok mem R (ImpliedAck l) \<longleftrightarrow> l \<in># R \<and> type_of mem l \<in> set lsa_types"
| "nl_call_ok mem R (LsAck l) \<longleftrightarrow> l \<in># R \<and> type_of mem l \<in> set lsa_types"
| "nl_call_ok mem R (RequestSent l) \<longleftrightarrow> l \<in># R \<and> type_of mem l \<in> set lsa_types"
| "nl_call_ok mem R (SummaryAdd l) \<longleftrightarrow> l \<in># R \<and> type_of mem l \<in> set lsa_types"
| "nl_call_ok mem R ClearAdj \<longleftrightarrow> True"

text \<open>The lists are consistent, and every counter is the number of entries.\<close>

definition nl_inv :: "nl_state \<Rightarrow> content \<Rightarrow> content \<Rightarrow> content \<Rightarrow> nat multiset \<Rightarrow> (nat \<Rightarrow> int) \<Rightarrow> bool" where
  "nl_inv st X S Q R C \<longleftrightarrow> nl_rep st X S Q (\<lambda>_. {#}) (\<lambda>_. {#}) R \<and> counters (snd st) (rxmt_counts X C)"

lemma held_in:
  assumes "nl_rep (nl, mem') X S Q Lx Ly R" "mem_le mem mem'" "set_mset R \<subseteq> dom (lm_lsas mem)" "l \<in># R"
  obtains x where "lm_lsas mem' l = Some x" "type_of mem l = unat (h_type (lsa_data x))"
proof -
  obtain x where x: "lm_lsas mem' l = Some x" using nl_live(1) [OF assms(1,4)] by blast
  obtain y where y: "lm_lsas mem l = Some y" using assms(3,4) by blast
  with x assms(2) have "lsa_data x = lsa_data y" unfolding mem_le_def by blast
  with x y that show thesis by (simp add: type_of_def)
qed

lemma request_delete_step:
  assumes rep: "nl_rep (nl, mem) X S Q Lx Ly R" and x: "lm_lsas mem l = Some x" and l: "l \<in># R"
    and i: "unat (h_type (lsa_data x)) \<in> set lsa_types"
  shows "\<exists>nl' mem' Q'. ospf_ls_request_delete l (nl, mem) = Inr (nl', mem') \<and> nl_rep (nl', mem') X S Q' Lx Ly R \<and> mem_sub mem mem'"
proof -
  obtain nl1 m1 where s1: "(if nl_req_last nl = Some l then drop_req_last (nl, mem) else Inr (nl, mem)) = Inr (nl1, m1)"
    "nl_rep (nl1, m1) X S Q Lx Ly R" "mem_sub mem m1"
    using drop_req_last_step [OF rep] rep by (cases "nl_req_last nl = Some l") auto
  have "l \<in> dom (lm_lsas m1)" by (rule nl_live(1) [OF s1(2) l])
  from later_lsa [OF mem_sub_le [OF s1(3)] x this refl refl] obtain x1 where
    x1: "lm_lsas m1 l = Some x1" "unat (h_type (lsa_data x)) = unat (h_type (lsa_data x1))" .
  have "\<exists>d' m2. on_req (ospf_lsdb_delete (Some l)) (nl1, m1) = Inr (nl1\<lparr>nl_req := d'\<rparr>, m2) \<and>
     nl_rep (nl1\<lparr>nl_req := d'\<rparr>, m2) X S (if Q (unat (h_type (lsa_data x1))) (prefix_key (ls_prefix_set x1)) = Some l
       then put_key (unat (h_type (lsa_data x1))) (prefix_key (ls_prefix_set x1)) None Q else Q) Lx Ly R \<and> mem_sub m1 m2"
    using i x1(2) by (intro on_req_step [OF s1(2)] ospf_lsdb_delete_step [OF _ x1(1) refl _ refl refl]) simp_all
  then show ?thesis using s1(1) mem_sub_trans [OF s1(3)] by (auto simp: ospf_ls_request_delete_def)
qed

text \<open>Looking an entry up and taking it off the list, if a test allows it.\<close>

lemma take_off_step:
  assumes rep: "nl_rep (nl, mem) X S Q Lx Ly R" and K: "counters mem (rxmt_counts X C)"
    and x: "lm_lsas mem l = Some x" and i: "unat (h_type (lsa_data x)) \<in> set lsa_types"
    and body: "\<And>d r y. lm_lsas mem r = Some y \<Longrightarrow> body (nl\<lparr>nl_rxmt := d\<rparr>, mem) r =
      (if P y then ospf_ls_retransmit_delete r (nl\<lparr>nl_rxmt := d\<rparr>, mem) else Inr (nl\<lparr>nl_rxmt := d\<rparr>, mem))"
  shows "\<exists>nl' mem' X'. and_then (ospf_ls_retransmit_lookup l (nl, mem)) (\<lambda>(st, lsr). case lsr of None \<Rightarrow> Inr st | Some r \<Rightarrow> body st r) = Inr (nl', mem') \<and>
     nl_rep (nl', mem') X' S Q Lx Ly R \<and> counters mem' (rxmt_counts X' C) \<and> mem_le mem mem'"
proof -
  define j k where jk: "j = unat (h_type (lsa_data x))" "k = prefix_key (ls_prefix_set x)"
  from rxmt_lookup_step [OF rep x jk(1) _ jk(2)] i jk obtain d1 where
    d1: "ospf_ls_retransmit_lookup l (nl, mem) = Inr ((nl\<lparr>nl_rxmt := d1\<rparr>, mem), X j k)"
      "nl_rep (nl\<lparr>nl_rxmt := d1\<rparr>, mem) X S Q Lx Ly R" by auto
  show ?thesis
  proof (cases "X j k")
    case None
    then show ?thesis using d1 K by auto
  next
    case (Some r)
    with nl_live(2) [OF rep, of j k r] i jk obtain y where
      y: "lm_lsas mem r = Some y" "j = unat (h_type (lsa_data y))" "k = prefix_key (ls_prefix_set y)" by (auto simp: lsa_at_def)
    from retransmit_delete_step [OF d1(2) K y(1,2) _ y(3)] Some i jk obtain d2 m2 where
      "ospf_ls_retransmit_delete r (nl\<lparr>nl_rxmt := d1\<rparr>, mem) = Inr (nl\<lparr>nl_rxmt := d2\<rparr>, m2)"
      "nl_rep (nl\<lparr>nl_rxmt := d2\<rparr>, m2) (put_key j k None X) S Q Lx Ly R"
      "counters m2 (rxmt_counts (put_key j k None X) C)" "mem_le mem m2" by auto
    then show ?thesis using d1 K Some body [OF y(1)] by (cases "P y") auto
  qed
qed

lemma set_req_last_step:
  assumes rep: "nl_rep (nl, mem) X S Q Lx Ly R" and r: "i \<in> set lsa_types" "Q i k = Some r"
  shows "\<exists>mem'. set_req_last r (nl, mem) = Inr (nl\<lparr>nl_req_last := Some r\<rparr>, mem') \<and>
     nl_rep (nl\<lparr>nl_req_last := Some r\<rparr>, mem') X S Q Lx Ly R \<and> mem_sub mem mem'"
proof -
  from drop_req_last_step [OF rep] obtain m1 where m1: "drop_req_last (nl, mem) = Inr (nl\<lparr>nl_req_last := None\<rparr>, m1)"
    "nl_rep (nl\<lparr>nl_req_last := None\<rparr>, m1) X S Q Lx Ly R" "mem_sub mem m1" by blast
  obtain p where un: "ospf_lsa_unlock (nl_req_last nl) mem = Inr (m1, p)"
    using m1(1) by (auto simp: drop_req_last_def and_then_Inr_iff)
  have ok: "mem_ok m1 (refs X + refs S + refs Q + R)" using m1(2) by (simp add: nl_rep_def opt_ref_def)
  have "lsa_at m1 r i k" using m1(2) r by (auto simp: nl_rep_def lsdb_ok_def type_ok_def)
  then obtain y where "lm_lsas m1 r = Some y" by (auto simp: lsa_at_def)
  from lsa_lock_step [OF ok this] obtain m2 where m2: "ospf_lsa_lock r m1 = Inr m2" "mem_ok m2 (add_mset r (refs X + refs S + refs Q + R))"
    "mem_sub m1 m2" by (auto simp: mem_sub_def)
  have "mem_ok m2 (refs X + (refs S + refs Q + {#r#} + R))" "mem_ok m2 (refs S + (refs X + refs Q + {#r#} + R))"
    "mem_ok m2 (refs Q + (refs X + refs S + {#r#} + R))" using m2(2) by (simp_all add: ac_simps)
  from lsdb_ok_mem [OF _ mem_sub_le [OF m2(3)] this(1)] lsdb_ok_mem [OF _ mem_sub_le [OF m2(3)] this(2)]
    lsdb_ok_mem [OF _ mem_sub_le [OF m2(3)] this(3)]
  have "nl_rep (nl\<lparr>nl_req_last := Some r\<rparr>, m2) X S Q Lx Ly R"
    using m1(2) m2(2) by (simp add: nl_rep_def opt_ref_def)
  then show ?thesis using un m2(1) mem_sub_trans [OF m1(3) m2(3)] by (simp add: set_req_last_def)
qed

lemma request_sent_step:
  assumes rep: "nl_rep (nl, mem) X S Q Lx Ly R" and x: "lm_lsas mem l = Some x" and i: "unat (h_type (lsa_data x)) \<in> set lsa_types"
  shows "\<exists>nl' mem'. request_sent l (nl, mem) = Inr (nl', mem') \<and> nl_rep (nl', mem') X S Q Lx Ly R \<and> mem_sub mem mem'"
proof -
  define j k where jk: "j = unat (h_type (lsa_data x))" "k = prefix_key (ls_prefix_set x)"
  have "lsdb_rep (nl_req nl, mem) Q (\<lambda>_. {#}) (refs X + refs S + opt_ref (nl_req_last nl) + R)"
    using rep by (simp add: nl_rep_def lsdb_rep_def ac_simps)
  from lookup_key_step [OF this i, of "ls_prefix_set x"] obtain d where
    d: "lookup_key j (ls_prefix_set x) (nl_req nl) = Inr (d, Q j k)" "lsdb_ok mem Q (\<lambda>_. {#}) d" by (auto simp: lsdb_rep_def jk)
  have rep1: "nl_rep (nl\<lparr>nl_req := d\<rparr>, mem) X S Q Lx Ly R" using rep d(2) by (simp add: nl_rep_def)
  have lk: "ospf_ls_request_lookup l (nl, mem) = Inr ((nl\<lparr>nl_req := d\<rparr>, mem), Q j k)"
    using d(1) x jk(1) by (auto simp: ospf_ls_request_lookup_def ospf_lsdb_lookup_def deref_lsa_def)
  show ?thesis
  proof (cases "Q j k")
    case None
    then show ?thesis using lk rep1 by (simp add: request_sent_def)
  next
    case (Some r)
    with set_req_last_step [OF rep1, of j k r] i jk(1) lk show ?thesis by (auto simp: request_sent_def)
  qed
qed

lemma summary_add_step:
  assumes rep: "nl_rep (nl, mem) X S Q Lx Ly R" and K: "counters mem (rxmt_counts X C)"
    and x: "lm_lsas mem l = Some x" and i: "i = unat (h_type (lsa_data x))" "i \<in> set lsa_types"
    and k: "k = prefix_key (ls_prefix_set x)" and l: "l \<in># R"
    and skip: "skip \<longleftrightarrow> h_type (lsa_data x) = OSPF_OPAQUE_LINK_LSA \<and> \<not> here l \<or> CHECK_FLAG (lsa_flags x) OSPF_LSA_LOCAL_XLT"
    and X': "X' = (if \<not> skip \<and> IS_LSA_MAXAGE now x \<and> rxmt_takes now mem X l then put_key i k (Some l) X else X)"
    and S': "S' = (if \<not> skip \<and> \<not> IS_LSA_MAXAGE now x then put_key i k (Some l) S else S)"
  shows "\<exists>nl' mem'. ospf_db_summary_add now here l (nl, mem) = Inr (nl', mem') \<and> nl_rep (nl', mem') X' S' Q Lx Ly R \<and>
     counters mem' (rxmt_counts X' C) \<and> mem_le mem mem' \<and> nl_req_last nl' = nl_req_last nl"
proof (cases "skip")
  case True
  then show ?thesis using rep K X' S' x skip by (auto simp: ospf_db_summary_add_def deref_lsa_def)
next
  case False
  show ?thesis
  proof (cases "IS_LSA_MAXAGE now x")
    case True
    with False X' have X'': "X' = (if rxmt_takes now mem X l then put_key i k (Some l) X else X)" by simp
    from retransmit_add_step [OF rep K x i k l X''] True False S' x skip show ?thesis
      by (auto simp: ospf_db_summary_add_def deref_lsa_def)
  next
    case old: False
    have "\<exists>d' m'. on_sum (ospf_lsdb_add l) (nl, mem) = Inr (nl\<lparr>nl_sum := d'\<rparr>, m') \<and>
       nl_rep (nl\<lparr>nl_sum := d'\<rparr>, m') X (put_key i k (Some l) S) Q Lx Ly R \<and> mem_sub mem m' \<and> True"
      by (rule on_sum_step [OF rep]) (auto dest!: ospf_lsdb_add_step [OF _ x i k])
    then obtain d' m' where "on_sum (ospf_lsdb_add l) (nl, mem) = Inr (nl\<lparr>nl_sum := d'\<rparr>, m')"
      "nl_rep (nl\<lparr>nl_sum := d'\<rparr>, m') X (put_key i k (Some l) S) Q Lx Ly R" "mem_sub mem m'" by blast
    with old False X' S' x skip counters_sub [OF K] mem_sub_le show ?thesis
      by (fastforce simp: ospf_db_summary_add_def deref_lsa_def)
  qed
qed

lemma nl_exec_step:
  assumes inv: "nl_inv (nl, mem') X S Q R C" and mem: "mem_le mem mem'" "set_mset R \<subseteq> dom (lm_lsas mem)" "few mem'"
    and ok: "nl_call_ok mem R c"
  shows "\<exists>nl2 mem2 X2 S2 Q2. nl_exec now here c (nl, mem') = Inr (nl2, mem2) \<and> nl_inv (nl2, mem2) X2 S2 Q2 R C \<and> mem_le mem' mem2"
proof -
  have rep: "nl_rep (nl, mem') X S Q (\<lambda>_. {#}) (\<lambda>_. {#}) R" and K: "counters mem' (rxmt_counts X C)"
    using inv by (simp_all add: nl_inv_def)
  have held: "\<exists>x. lm_lsas mem' l = Some x \<and> unat (h_type (lsa_data x)) \<in> set lsa_types"
    if "l \<in># R" "type_of mem l \<in> set lsa_types" for l
  proof -
    from held_in [OF rep mem(1,2) that(1)] obtain x where "lm_lsas mem' l = Some x" "type_of mem l = unat (h_type (lsa_data x))" .
    then show ?thesis using that(2) by metis
  qed
  show ?thesis
  proof (cases c)
    case (RequestAdd l)
    with ok held [of l] obtain x where x: "lm_lsas mem' l = Some x" "unat (h_type (lsa_data x)) \<in> set lsa_types" by auto
    have "\<exists>d' m'. on_req (ospf_lsdb_add l) (nl, mem') = Inr (nl\<lparr>nl_req := d'\<rparr>, m') \<and>
       nl_rep (nl\<lparr>nl_req := d'\<rparr>, m') X S (put_key (unat (h_type (lsa_data x))) (prefix_key (ls_prefix_set x)) (Some l) Q)
         (\<lambda>_. {#}) (\<lambda>_. {#}) R \<and> mem_sub mem' m'"
      by (intro on_req_step [OF rep] ospf_lsdb_add_step [OF _ x(1) refl x(2) refl])
    then show ?thesis
      using RequestAdd counters_sub [OF K] by (fastforce simp: ospf_ls_request_add_def nl_inv_def intro: mem_sub_le)
  next
    case (RequestDelete l)
    with ok held [of l] obtain x where x: "lm_lsas mem' l = Some x" "unat (h_type (lsa_data x)) \<in> set lsa_types" "l \<in># R" by auto
    from request_delete_step [OF rep x(1,3,2)] RequestDelete counters_sub [OF K] show ?thesis
      by (fastforce simp: nl_inv_def intro: mem_sub_le)
  next
    case (RetransmitAdd l)
    with ok held [of l] obtain x where x: "lm_lsas mem' l = Some x" "unat (h_type (lsa_data x)) \<in> set lsa_types" "l \<in># R" by auto
    from retransmit_add_step [OF rep K x(1) refl x(2) refl x(3) refl] RetransmitAdd show ?thesis
      by (fastforce simp: nl_inv_def)
  next
    case (RetransmitDeleteNbr l)
    with ok held [of l] obtain x where x: "lm_lsas mem' l = Some x" "unat (h_type (lsa_data x)) \<in> set lsa_types" by auto
    let ?body = "\<lambda>st r. and_then (deref_lsa (snd st) r) (\<lambda>y. and_then (deref_lsa (snd st) l) (\<lambda>x.
      if h_ls_seqnum (lsa_data y) = h_ls_seqnum (lsa_data x) then ospf_ls_retransmit_delete r st else Inr st))"
    have "\<exists>nl' m' X'. retransmit_delete_nbr l (nl, mem') = Inr (nl', m') \<and> nl_rep (nl', m') X' S Q (\<lambda>_. {#}) (\<lambda>_. {#}) R \<and>
       counters m' (rxmt_counts X' C) \<and> mem_le mem' m'"
      unfolding retransmit_delete_nbr_def
      by (rule take_off_step [OF rep K x, where body = ?body and P = "\<lambda>y. h_ls_seqnum (lsa_data y) = h_ls_seqnum (lsa_data x)"])
        (simp add: deref_lsa_def x(1))
    with RetransmitDeleteNbr show ?thesis by (fastforce simp: nl_inv_def)
  next
    case (ImpliedAck l)
    with ok held [of l] obtain x where x: "lm_lsas mem' l = Some x" "unat (h_type (lsa_data x)) \<in> set lsa_types" by auto
    have "\<exists>nl' m' X'. implied_ack l (nl, mem') = Inr (nl', m') \<and> nl_rep (nl', m') X' S Q (\<lambda>_. {#}) (\<lambda>_. {#}) R \<and>
       counters m' (rxmt_counts X' C) \<and> mem_le mem' m'"
      unfolding implied_ack_def
      by (rule take_off_step [OF rep K x, where body = "\<lambda>st r. ospf_ls_retransmit_delete r st" and P = "\<lambda>_. True"]) simp
    with ImpliedAck show ?thesis by (fastforce simp: nl_inv_def)
  next
    case (LsAck l)
    with ok held [of l] obtain x where x: "lm_lsas mem' l = Some x" "unat (h_type (lsa_data x)) \<in> set lsa_types" by auto
    let ?body = "\<lambda>st r. and_then (deref_lsa (snd st) r) (\<lambda>y. and_then (deref_lsa (snd st) l) (\<lambda>x.
      if ospf_lsa_more_recent now (Some y) (Some x) = 0 then ospf_ls_retransmit_delete r st else Inr st))"
    have "\<exists>nl' m' X'. ls_ack now l (nl, mem') = Inr (nl', m') \<and> nl_rep (nl', m') X' S Q (\<lambda>_. {#}) (\<lambda>_. {#}) R \<and>
       counters m' (rxmt_counts X' C) \<and> mem_le mem' m'"
      unfolding ls_ack_def
      by (rule take_off_step [OF rep K x, where body = ?body and P = "\<lambda>y. ospf_lsa_more_recent now (Some y) (Some x) = 0"])
        (simp add: deref_lsa_def x(1))
    with LsAck show ?thesis by (fastforce simp: nl_inv_def)
  next
    case (RequestSent l)
    with ok held [of l] obtain x where x: "lm_lsas mem' l = Some x" "unat (h_type (lsa_data x)) \<in> set lsa_types" by auto
    from request_sent_step [OF rep x] RequestSent counters_sub [OF K] show ?thesis by (fastforce simp: nl_inv_def intro: mem_sub_le)
  next
    case (SummaryAdd l)
    with ok held [of l] obtain x where x: "lm_lsas mem' l = Some x" "unat (h_type (lsa_data x)) \<in> set lsa_types" "l \<in># R" by auto
    from summary_add_step [OF rep K x(1) refl x(2) refl x(3) refl refl refl] SummaryAdd show ?thesis
      by (fastforce simp: nl_inv_def)
  next
    case ClearAdj
    from clear_lists_step [OF rep K mem(3)] ClearAdj show ?thesis by (fastforce simp: nl_inv_def)
  qed
qed

lemma nl_run_step:
  assumes "nl_inv (nl, mem') X S Q R C" "mem_le mem mem'" "set_mset R \<subseteq> dom (lm_lsas mem)" "few mem'"
    and "list_all (nl_call_ok mem R) (map snd cs)"
  shows "\<exists>nl2 mem2 X2 S2 Q2. nl_run here cs (nl, mem') = Inr (nl2, mem2) \<and> nl_inv (nl2, mem2) X2 S2 Q2 R C \<and> few mem2"
  using assms
proof (induction cs arbitrary: nl mem' X S Q)
  case (Cons nc cs)
  obtain now c where nc: "nc = (now, c)" by fastforce
  from nl_exec_step [OF Cons.prems(1-4), of c now here] Cons.prems(5) nc obtain nl1 m1 X1 S1 Q1 where
    s1: "nl_exec now here c (nl, mem') = Inr (nl1, m1)" "nl_inv (nl1, m1) X1 S1 Q1 R C" "mem_le mem' m1" by auto
  have "mem_ok mem' (refs X + refs S + refs Q + opt_ref (nl_req_last nl) + R)"
    using Cons.prems(1) by (simp add: nl_inv_def nl_rep_def)
  from few_le [OF Cons.prems(4) s1(3) this] have "few m1" .
  from Cons.IH [OF s1(2) mem_le_trans [OF Cons.prems(2) s1(3)] Cons.prems(3) this] Cons.prems(5) s1(1) nc show ?case by simp
qed auto

definition nl_new :: nbr_lists where
  "nl_new = \<lparr>nl_rxmt = ospf_lsdb_new, nl_sum = ospf_lsdb_new, nl_req = ospf_lsdb_new, nl_req_last = None\<rparr>"

lemma refs_empty [simp]: "refs (\<lambda>_. Map.empty) = {#}"
  by (simp add: refs_def)

lemma nl_new_inv:
  assumes "mem_ok mem R" "counters mem C"
  shows "nl_inv (nl_new, mem) (\<lambda>_. Map.empty) (\<lambda>_. Map.empty) (\<lambda>_. Map.empty) R C"
  using ospf_lsdb_new_rep [OF assms(1)] assms
  by (simp add: nl_inv_def nl_rep_def nl_new_def lsdb_rep_def opt_ref_def rxmt_counts_def)

section \<open>Properties\<close>

text \<open>C9: the retransmission counter counts. Starting with the lists of a new neighbor, any sequence of
  calls by a caller that holds the advertisements ends without a fault, with three consistent lists,
  exact reference counts, and for every advertisement a retransmission counter that is the number of
  its entries on this list and, as before, those on the lists of other neighbors.\<close>

theorem retransmit_counters_exact:
  assumes "mem_ok mem R" "counters mem C" "few mem" "list_all (nl_call_ok mem R) (map snd cs)"
  shows "\<exists>nl mem' X S Q. nl_run here cs (nl_new, mem) = Inr (nl, mem') \<and> nl_inv (nl, mem') X S Q R C"
  using nl_run_step [OF nl_new_inv [OF assms(1,2)] mem_le_refl _ assms(3,4)] assms(1) by (fastforce simp: mem_ok_def)

text \<open>C10: clearing an adjacency. From any consistent state \<open>nsm_clear_adj\<close> ends without a fault with three
  empty lists; every reference the lists held is given back and every retransmission counter is what
  the other neighbors need. The reference to the last request goes too, unless there was neither
  a request nor a retransmission left.\<close>

theorem clear_adj_gives_back:
  assumes "nl_inv (nl, mem) X S Q R C" "few mem"
  shows "\<exists>nl' mem'. clear_lists (nl, mem) = Inr (nl', mem') \<and>
     ospf_ls_retransmit_isempty nl' \<and> ospf_db_summary_isempty nl' \<and> ospf_ls_request_isempty nl' \<and>
     mem_ok mem' (opt_ref (nl_req_last nl') + R) \<and> counters mem' C \<and>
     nl_req_last nl' = (if none X \<and> none Q then nl_req_last nl else None)"
proof -
  have rep: "nl_rep (nl, mem) X S Q (\<lambda>_. {#}) (\<lambda>_. {#}) R" and K: "counters mem (rxmt_counts X C)"
    using assms(1) by (simp_all add: nl_inv_def)
  from clear_lists_step [OF rep K assms(2)] obtain nl' mem' where s: "clear_lists (nl, mem) = Inr (nl', mem')"
    "nl_rep (nl', mem') (cleared_db X) (cleared_db S) (cleared_db Q) (\<lambda>_. {#}) (\<lambda>_. {#}) R" "counters mem' C" "mem_le mem mem'"
    "nl_req_last nl' = (if none X \<and> none Q then nl_req_last nl else None)" by blast
  have "few mem'" by (rule few_le [OF assms(2) s(4) nl_mem_ok [OF rep]])
  moreover have "none (cleared_db D)" for D by (simp add: none_def cleared_db_def)
  ultimately have "ospf_ls_retransmit_isempty nl'" "ospf_db_summary_isempty nl'" "ospf_ls_request_isempty nl'"
    using nl_isempty [OF s(2)] by simp_all
  moreover have "mem_ok mem' (opt_ref (nl_req_last nl') + R)" using nl_mem_ok [OF s(2)] by simp
  ultimately show ?thesis using s(1,3,5) by blast
qed

lemma sample_counters: "counters sample_lsa_mem (\<lambda>_. 0)" "few sample_lsa_mem"
  by (auto simp: counters_def sample_lsa_mem_def sample_object_def few_def split: if_splits)

abbreviation "sample_calls \<equiv> [(zero_time, RetransmitAdd 0), (zero_time, RetransmitAdd 2), (zero_time, RequestAdd 0)]"

lemma sample_calls_ok: "list_all (nl_call_ok sample_lsa_mem {#0, 2#}) (map snd sample_calls)"
  by (simp add: sample_type OSPF_MIN_LSA_def OSPF_MAX_LSA_def)

theorem retransmit_counters_exact_witness:
  "\<exists>nl mem X S Q. nl_run (\<lambda>_. True) sample_calls (nl_new, sample_lsa_mem) = Inr (nl, mem) \<and>
     nl_inv (nl, mem) X S Q {#0, 2#} (\<lambda>_. 0)"
  by (rule retransmit_counters_exact [OF sample_mem_ok sample_counters sample_calls_ok])

theorem clear_adj_gives_back_witness:
  "\<exists>nl mem nl' mem'. nl_run (\<lambda>_. True) sample_calls (nl_new, sample_lsa_mem) = Inr (nl, mem) \<and>
     clear_lists (nl, mem) = Inr (nl', mem') \<and> ospf_ls_retransmit_isempty nl' \<and> counters mem' (\<lambda>_. 0)"
proof -
  have sub: "set_mset {#0, 2#} \<subseteq> dom (lm_lsas sample_lsa_mem)" by (simp add: sample_lsa_mem_def)
  from nl_run_step [OF nl_new_inv [OF sample_mem_ok sample_counters(1)] mem_le_refl sub sample_counters(2) sample_calls_ok]
  obtain nl mem X S Q where run: "nl_run (\<lambda>_. True) sample_calls (nl_new, sample_lsa_mem) = Inr (nl, mem)"
    "nl_inv (nl, mem) X S Q {#0, 2#} (\<lambda>_. 0)" "few mem" by blast
  from clear_adj_gives_back [OF run(2,3)] run(1) show ?thesis by blast
qed

end
