(* ===== verification/StreamBuf.thy ===== *)
theory StreamBuf
  imports Prefix
begin

unbundle bit_operations_syntax

text \<open>
  \<^verbatim>\<open>lib/stream.c\<close>, \<^verbatim>\<open>lib/stream.h\<close> and the read loop of
  \<^verbatim>\<open>lib/network.c\<close>: the byte buffer every daemon builds and parses its packets in.
  Positions are 64-bit \<open>size_t\<close> words that wrap; an access outside the data segment is
  the fault \<open>OutOfBounds\<close>, so that its absence is something to prove. A failed
  \<open>STREAM_BOUND_WARN\<close> ends in \<open>assert (0)\<close>, the fault \<open>AssertFailed\<close>.
  What a fresh block from the allocator holds is the parameter \<open>mem\<close>; the results of the
  \<open>read\<close> system calls are a parameter too.
\<close>

section \<open>The buffer\<close>

record stream =
  getp :: u64
  endp :: u64
  st_size :: u64
  st_data :: "u8 list"

definition GETP_VALID :: "stream \<Rightarrow> u64 \<Rightarrow> bool" where
  "GETP_VALID s g \<longleftrightarrow> g \<le> endp s"

definition ENDP_VALID :: "stream \<Rightarrow> u64 \<Rightarrow> bool" where
  "ENDP_VALID s e \<longleftrightarrow> e \<le> st_size s"

definition STREAM_VERIFY_SANE :: "stream \<Rightarrow> unit res" where
  "STREAM_VERIFY_SANE s =
     and_then (ensure (GETP_VALID s (getp s))) (\<lambda>_. ensure (ENDP_VALID s (endp s)))"

definition STREAM_WRITEABLE :: "stream \<Rightarrow> u64" where
  "STREAM_WRITEABLE s = st_size s - endp s"

definition STREAM_READABLE :: "stream \<Rightarrow> u64" where
  "STREAM_READABLE s = endp s - getp s"

text \<open>\<open>CHECK_SIZE\<close>: the size that is left of a requested one.\<close>

definition CHECK_SIZE :: "stream \<Rightarrow> u64 \<Rightarrow> u64" where
  "CHECK_SIZE s z = (if endp s + z > st_size s then st_size s - endp s else z)"

section \<open>Memory accesses\<close>

definition data_get :: "stream \<Rightarrow> u64 \<Rightarrow> u8 res" where
  "data_get s i = (if unat i < length (st_data s) then Inr (st_data s ! unat i) else Inl OutOfBounds)"

definition data_set :: "stream \<Rightarrow> u64 \<Rightarrow> u8 \<Rightarrow> stream res" where
  "data_set s i c = (if unat i < length (st_data s) then Inr (s\<lparr>st_data := (st_data s)[unat i := c]\<rparr>)
                     else Inl OutOfBounds)"

text \<open>\<open>memcpy\<close> out of and into the data segment.\<close>

definition data_read :: "stream \<Rightarrow> u64 \<Rightarrow> u64 \<Rightarrow> u8 list res" where
  "data_read s i n =
     (if unat i + unat n \<le> length (st_data s) then Inr (take (unat n) (drop (unat i) (st_data s)))
      else Inl OutOfBounds)"

definition data_write :: "stream \<Rightarrow> u64 \<Rightarrow> u8 list \<Rightarrow> stream res" where
  "data_write s i bs =
     (if unat i + length bs \<le> length (st_data s)
      then Inr (s\<lparr>st_data := take (unat i) (st_data s) @ bs @ drop (unat i + length bs) (st_data s)\<rparr>)
      else Inl OutOfBounds)"

text \<open>The expressions \<open>s->data[s->getp++]\<close> and \<open>s->data[s->endp++] = c\<close>.\<close>

definition fetch :: "stream \<Rightarrow> (stream \<times> u8) res" where
  "fetch s = and_then (data_get s (getp s)) (\<lambda>b. Inr (s\<lparr>getp := getp s + 1\<rparr>, b))"

definition emit :: "u8 \<Rightarrow> stream \<Rightarrow> stream res" where
  "emit c s = and_then (data_set s (endp s) c) (\<lambda>s. Inr (s\<lparr>endp := endp s + 1\<rparr>))"

text \<open>Runs of such expressions, one per byte of a word.\<close>

fun fetch_n :: "nat \<Rightarrow> stream \<Rightarrow> (stream \<times> u8 list) res" where
  "fetch_n 0 s = Inr (s, [])"
| "fetch_n (Suc n) s = and_then (fetch s) (\<lambda>(s, b).
     and_then (fetch_n n s) (\<lambda>(s, bs). Inr (s, b # bs)))"

fun emit_all :: "u8 list \<Rightarrow> stream \<Rightarrow> stream res" where
  "emit_all [] s = Inr s"
| "emit_all (c # cs) s = and_then (emit c s) (emit_all cs)"

fun get_at :: "nat \<Rightarrow> stream \<Rightarrow> u64 \<Rightarrow> u8 list res" where
  "get_at 0 s i = Inr []"
| "get_at (Suc n) s i = and_then (data_get s i) (\<lambda>b.
     and_then (get_at n s (i + 1)) (\<lambda>bs. Inr (b # bs)))"

fun put_at :: "u8 list \<Rightarrow> u64 \<Rightarrow> stream \<Rightarrow> stream res" where
  "put_at [] i s = Inr s"
| "put_at (c # cs) i s = and_then (data_set s i c) (put_at cs (i + 1))"

section \<open>Words and bytes\<close>

text \<open>The shift expressions the source writes out for 2, 4 and 8 bytes.\<close>

definition bytes_w :: "u16 \<Rightarrow> u8 list" where
  "bytes_w w = [ucast (drop_bit 8 w), ucast w]"

definition bytes_l :: "u32 \<Rightarrow> u8 list" where
  "bytes_l l = [ucast (drop_bit 24 l), ucast (drop_bit 16 l), ucast (drop_bit 8 l), ucast l]"

definition bytes_q :: "u64 \<Rightarrow> u8 list" where
  "bytes_q q = [ucast (drop_bit 56 q), ucast (drop_bit 48 q), ucast (drop_bit 40 q),
     ucast (drop_bit 32 q), ucast (drop_bit 24 q), ucast (drop_bit 16 q), ucast (drop_bit 8 q), ucast q]"

definition word_w :: "u8 list \<Rightarrow> u16" where
  "word_w bs = push_bit 8 (ucast (bs ! 0)) OR ucast (bs ! 1)"

definition word_l :: "u8 list \<Rightarrow> u32" where
  "word_l bs = push_bit 24 (ucast (bs ! 0)) OR push_bit 16 (ucast (bs ! 1)) OR
     push_bit 8 (ucast (bs ! 2)) OR ucast (bs ! 3)"

definition word_q :: "u8 list \<Rightarrow> u64" where
  "word_q bs = push_bit 56 (ucast (bs ! 0)) OR push_bit 48 (ucast (bs ! 1)) OR
     push_bit 40 (ucast (bs ! 2)) OR push_bit 32 (ucast (bs ! 3)) OR
     push_bit 24 (ucast (bs ! 4)) OR push_bit 16 (ucast (bs ! 5)) OR
     push_bit 8 (ucast (bs ! 6)) OR ucast (bs ! 7)"

section \<open>Creation and copies\<close>

definition stream_new :: "(nat \<Rightarrow> u8) \<Rightarrow> u64 \<Rightarrow> stream res" where
  "stream_new mem n =
     and_then (ensure (n > 0))
       (\<lambda>_. Inr \<lparr>getp = 0, endp = 0, st_size = n, st_data = map mem [0..<unat n]\<rparr>)"

definition stream_copy :: "stream \<Rightarrow> stream \<Rightarrow> stream res" where
  "stream_copy new src =
     and_then (STREAM_VERIFY_SANE src) (\<lambda>_.
     and_then (ensure (st_size new \<ge> endp src)) (\<lambda>_.
     and_then (data_read src 0 (endp src)) (\<lambda>bs.
       data_write (new\<lparr>endp := endp src, getp := getp src\<rparr>) 0 bs)))"

definition stream_dup :: "(nat \<Rightarrow> u8) \<Rightarrow> stream \<Rightarrow> stream res" where
  "stream_dup mem s =
     and_then (STREAM_VERIFY_SANE s) (\<lambda>_.
     and_then (stream_new mem (endp s)) (\<lambda>new. stream_copy new s))"

definition stream_dupcat :: "(nat \<Rightarrow> u8) \<Rightarrow> stream \<Rightarrow> stream \<Rightarrow> u64 \<Rightarrow> stream res" where
  "stream_dupcat mem s1 s2 offset =
     and_then (STREAM_VERIFY_SANE s1) (\<lambda>_.
     and_then (STREAM_VERIFY_SANE s2) (\<lambda>_.
     and_then (stream_new mem (endp s1 + endp s2)) (\<lambda>new.
     and_then (data_read s1 0 offset) (\<lambda>b1.
     and_then (data_write new 0 b1) (\<lambda>new.
     and_then (data_read s2 0 (endp s2)) (\<lambda>b2.
     and_then (data_write new offset b2) (\<lambda>new.
     and_then (data_read s1 offset (endp s1 - offset)) (\<lambda>b3.
     and_then (data_write new (offset + endp s2) b3) (\<lambda>new.
       Inr (new\<lparr>endp := endp s1 + endp s2\<rparr>))))))))))"

text \<open>\<open>XREALLOC\<close> keeps the bytes that fit; what it adds is the parameter \<open>mem\<close>.\<close>

definition stream_resize :: "(nat \<Rightarrow> u8) \<Rightarrow> stream \<Rightarrow> u64 \<Rightarrow> (stream \<times> u64) res" where
  "stream_resize mem s newsize =
     and_then (STREAM_VERIFY_SANE s) (\<lambda>_.
       let s = s\<lparr>st_data := map (\<lambda>i. if i < length (st_data s) then st_data s ! i else mem i)
                               [0..<unat newsize], st_size := newsize\<rparr>;
           s = (if endp s > st_size s then s\<lparr>endp := st_size s\<rparr> else s);
           s = (if getp s > endp s then s\<lparr>getp := endp s\<rparr> else s)
       in and_then (STREAM_VERIFY_SANE s) (\<lambda>_. Inr (s, st_size s)))"

section \<open>Positions\<close>

definition stream_get_getp :: "stream \<Rightarrow> u64 res" where
  "stream_get_getp s = and_then (STREAM_VERIFY_SANE s) (\<lambda>_. Inr (getp s))"

definition stream_get_endp :: "stream \<Rightarrow> u64 res" where
  "stream_get_endp s = and_then (STREAM_VERIFY_SANE s) (\<lambda>_. Inr (endp s))"

definition stream_get_size :: "stream \<Rightarrow> u64 res" where
  "stream_get_size s = and_then (STREAM_VERIFY_SANE s) (\<lambda>_. Inr (st_size s))"

definition stream_set_getp :: "stream \<Rightarrow> u64 \<Rightarrow> stream res" where
  "stream_set_getp s pos =
     and_then (STREAM_VERIFY_SANE s) (\<lambda>_.
     and_then (ensure (GETP_VALID s pos)) (\<lambda>_. Inr (s\<lparr>getp := pos\<rparr>)))"

definition stream_set_endp :: "stream \<Rightarrow> u64 \<Rightarrow> stream res" where
  "stream_set_endp s pos =
     and_then (STREAM_VERIFY_SANE s) (\<lambda>_.
     and_then (ensure (ENDP_VALID s pos)) (\<lambda>_.
     and_then (ensure (\<not> getp s > pos)) (\<lambda>_.
       let s = s\<lparr>endp := pos\<rparr> in and_then (STREAM_VERIFY_SANE s) (\<lambda>_. Inr s))))"

definition stream_forward_getp :: "stream \<Rightarrow> u64 \<Rightarrow> stream res" where
  "stream_forward_getp s n =
     and_then (STREAM_VERIFY_SANE s) (\<lambda>_.
     and_then (ensure (GETP_VALID s (getp s + n))) (\<lambda>_. Inr (s\<lparr>getp := getp s + n\<rparr>)))"

definition stream_forward_endp :: "stream \<Rightarrow> u64 \<Rightarrow> stream res" where
  "stream_forward_endp s n =
     and_then (STREAM_VERIFY_SANE s) (\<lambda>_.
     and_then (ensure (ENDP_VALID s (endp s + n))) (\<lambda>_. Inr (s\<lparr>endp := endp s + n\<rparr>)))"

section \<open>Reading\<close>

definition stream_get :: "stream \<Rightarrow> u64 \<Rightarrow> (stream \<times> u8 list) res" where
  "stream_get s n =
     and_then (STREAM_VERIFY_SANE s) (\<lambda>_.
     and_then (ensure (\<not> STREAM_READABLE s < n)) (\<lambda>_.
     and_then (data_read s (getp s) n) (\<lambda>bs. Inr (s\<lparr>getp := getp s + n\<rparr>, bs))))"

text \<open>The guard of the sequential and of the positional reads, for \<open>n\<close> bytes.\<close>

definition read_guard :: "nat \<Rightarrow> stream \<Rightarrow> unit res" where
  "read_guard n s =
     and_then (STREAM_VERIFY_SANE s) (\<lambda>_. ensure (\<not> STREAM_READABLE s < of_nat n))"

definition from_guard :: "nat \<Rightarrow> stream \<Rightarrow> u64 \<Rightarrow> unit res" where
  "from_guard n s from =
     and_then (STREAM_VERIFY_SANE s) (\<lambda>_. ensure (GETP_VALID s (from + of_nat n)))"

definition stream_getc :: "stream \<Rightarrow> (stream \<times> u8) res" where
  "stream_getc s = and_then (read_guard 1 s) (\<lambda>_. fetch s)"

definition stream_getc_from :: "stream \<Rightarrow> u64 \<Rightarrow> u8 res" where
  "stream_getc_from s from = and_then (from_guard 1 s from) (\<lambda>_. data_get s from)"

definition stream_getw :: "stream \<Rightarrow> (stream \<times> u16) res" where
  "stream_getw s = and_then (read_guard 2 s) (\<lambda>_.
     and_then (fetch_n 2 s) (\<lambda>(s, bs). Inr (s, word_w bs)))"

definition stream_getw_from :: "stream \<Rightarrow> u64 \<Rightarrow> u16 res" where
  "stream_getw_from s from = and_then (from_guard 2 s from) (\<lambda>_.
     and_then (get_at 2 s from) (\<lambda>bs. Inr (word_w bs)))"

definition stream_getl_from :: "stream \<Rightarrow> u64 \<Rightarrow> u32 res" where
  "stream_getl_from s from = and_then (from_guard 4 s from) (\<lambda>_.
     and_then (get_at 4 s from) (\<lambda>bs. Inr (word_l bs)))"

definition stream_getl :: "stream \<Rightarrow> (stream \<times> u32) res" where
  "stream_getl s = and_then (read_guard 4 s) (\<lambda>_.
     and_then (fetch_n 4 s) (\<lambda>(s, bs). Inr (s, word_l bs)))"

definition stream_getq_from :: "stream \<Rightarrow> u64 \<Rightarrow> u64 res" where
  "stream_getq_from s from = and_then (from_guard 8 s from) (\<lambda>_.
     and_then (get_at 8 s from) (\<lambda>bs. Inr (word_q bs)))"

definition stream_getq :: "stream \<Rightarrow> (stream \<times> u64) res" where
  "stream_getq s = and_then (read_guard 8 s) (\<lambda>_.
     and_then (fetch_n 8 s) (\<lambda>(s, bs). Inr (s, word_q bs)))"

text \<open>Addresses stay in network order: \<open>memcpy\<close> to and from a 32-bit word.\<close>

definition stream_get_ipv4 :: "stream \<Rightarrow> (stream \<times> u32) res" where
  "stream_get_ipv4 s = and_then (read_guard 4 s) (\<lambda>_.
     and_then (data_read s (getp s) 4) (\<lambda>bs. Inr (s\<lparr>getp := getp s + 4\<rparr>, load32 bs)))"

section \<open>Writing\<close>

text \<open>
  \<open>stream_put\<close>: a null source (\<open>None\<close>) writes zeros. The source array is read for as
  many bytes as are written.
\<close>

definition stream_put :: "stream \<Rightarrow> u8 list option \<Rightarrow> u64 \<Rightarrow> stream res" where
  "stream_put s src n =
     (let n = CHECK_SIZE s n
      in and_then (STREAM_VERIFY_SANE s) (\<lambda>_.
         and_then (ensure (\<not> STREAM_WRITEABLE s < n)) (\<lambda>_.
         and_then (case src of
             Some bs \<Rightarrow> if unat n \<le> length bs then data_write s (endp s) (take (unat n) bs)
                        else Inl OutOfBounds
           | None \<Rightarrow> data_write s (endp s) (replicate (unat n) 0))
           (\<lambda>s. Inr (s\<lparr>endp := endp s + n\<rparr>)))))"

definition write_guard :: "nat \<Rightarrow> stream \<Rightarrow> unit res" where
  "write_guard n s =
     and_then (STREAM_VERIFY_SANE s) (\<lambda>_. ensure (\<not> STREAM_WRITEABLE s < of_nat n))"

definition at_guard :: "nat \<Rightarrow> stream \<Rightarrow> u64 \<Rightarrow> unit res" where
  "at_guard n s putp =
     and_then (STREAM_VERIFY_SANE s) (\<lambda>_. ensure (GETP_VALID s (putp + of_nat n)))"

definition stream_putc :: "stream \<Rightarrow> u8 \<Rightarrow> (stream \<times> nat) res" where
  "stream_putc s c = and_then (write_guard 1 s) (\<lambda>_.
     and_then (emit c s) (\<lambda>s. Inr (s, 1)))"

definition stream_putw :: "stream \<Rightarrow> u16 \<Rightarrow> (stream \<times> nat) res" where
  "stream_putw s w = and_then (write_guard 2 s) (\<lambda>_.
     and_then (emit_all (bytes_w w) s) (\<lambda>s. Inr (s, 2)))"

definition stream_putl :: "stream \<Rightarrow> u32 \<Rightarrow> (stream \<times> nat) res" where
  "stream_putl s l = and_then (write_guard 4 s) (\<lambda>_.
     and_then (emit_all (bytes_l l) s) (\<lambda>s. Inr (s, 4)))"

definition stream_putq :: "stream \<Rightarrow> u64 \<Rightarrow> (stream \<times> nat) res" where
  "stream_putq s q = and_then (write_guard 8 s) (\<lambda>_.
     and_then (emit_all (bytes_q q) s) (\<lambda>s. Inr (s, 8)))"

definition stream_putc_at :: "stream \<Rightarrow> u64 \<Rightarrow> u8 \<Rightarrow> (stream \<times> nat) res" where
  "stream_putc_at s putp c = and_then (at_guard 1 s putp) (\<lambda>_.
     and_then (data_set s putp c) (\<lambda>s. Inr (s, 1)))"

definition stream_putw_at :: "stream \<Rightarrow> u64 \<Rightarrow> u16 \<Rightarrow> (stream \<times> nat) res" where
  "stream_putw_at s putp w = and_then (at_guard 2 s putp) (\<lambda>_.
     and_then (put_at (bytes_w w) putp s) (\<lambda>s. Inr (s, 2)))"

definition stream_putl_at :: "stream \<Rightarrow> u64 \<Rightarrow> u32 \<Rightarrow> (stream \<times> nat) res" where
  "stream_putl_at s putp l = and_then (at_guard 4 s putp) (\<lambda>_.
     and_then (put_at (bytes_l l) putp s) (\<lambda>s. Inr (s, 4)))"

definition stream_putq_at :: "stream \<Rightarrow> u64 \<Rightarrow> u64 \<Rightarrow> (stream \<times> nat) res" where
  "stream_putq_at s putp q = and_then (at_guard 8 s putp) (\<lambda>_.
     and_then (put_at (bytes_q q) putp s) (\<lambda>s. Inr (s, 8)))"

definition stream_put_ipv4 :: "stream \<Rightarrow> u32 \<Rightarrow> (stream \<times> nat) res" where
  "stream_put_ipv4 s l = and_then (write_guard 4 s) (\<lambda>_.
     and_then (data_write s (endp s) (store32 l)) (\<lambda>s. Inr (s\<lparr>endp := endp s + 4\<rparr>, 4)))"

definition stream_put_in_addr :: "stream \<Rightarrow> u32 \<Rightarrow> (stream \<times> nat) res" where
  "stream_put_in_addr s addr = and_then (write_guard 4 s) (\<lambda>_.
     and_then (data_write s (endp s) (store32 addr)) (\<lambda>s. Inr (s\<lparr>endp := endp s + 4\<rparr>, 4)))"

definition stream_put_prefix :: "stream \<Rightarrow> prefix \<Rightarrow> (stream \<times> nat) res" where
  "stream_put_prefix s p =
     and_then (STREAM_VERIFY_SANE s) (\<lambda>_.
       let psize = PSIZE (prefixlen p)
       in and_then (ensure (\<not> STREAM_WRITEABLE s < of_nat psize + 1)) (\<lambda>_.
          and_then (emit (of_nat (prefixlen p)) s) (\<lambda>s.
          and_then (data_write s (endp s) (take psize (u_prefix p))) (\<lambda>s.
            Inr (s\<lparr>endp := endp s + of_nat psize\<rparr>, psize)))))"

definition stream_write :: "stream \<Rightarrow> u8 list \<Rightarrow> u64 \<Rightarrow> (stream \<times> u64) res" where
  "stream_write s ptr n =
     (let n = CHECK_SIZE s n
      in and_then (STREAM_VERIFY_SANE s) (\<lambda>_.
         and_then (ensure (\<not> STREAM_WRITEABLE s < n)) (\<lambda>_.
         and_then (if unat n \<le> length ptr then data_write s (endp s) (take (unat n) ptr)
                   else Inl OutOfBounds)
           (\<lambda>s. Inr (s\<lparr>endp := endp s + n\<rparr>, n)))))"

section \<open>System calls\<close>

text \<open>
  One result of \<open>read\<close> and its relatives: an error, which \<open>ERRNO_IO_RETRY\<close> says is
  transient or not, or the bytes received (none at end of file).
\<close>

datatype read_result = ReadError bool | ReadData "u8 list"

text \<open>\<open>readn\<close>: the loop over \<open>read\<close>, whose results are a list; the bytes come back with
  the return value.\<close>

fun readn :: "read_result list \<Rightarrow> int \<Rightarrow> int \<Rightarrow> u8 list \<Rightarrow> int \<times> u8 list" where
  "readn [] nbytes nleft got = (nbytes - nleft, got)"
| "readn (r # rs) nbytes nleft got =
     (if nleft > 0
      then (case r of
              ReadError _ \<Rightarrow> (-1, got)
            | ReadData bs \<Rightarrow>
                if bs = [] then (nbytes - nleft, got)
                else readn rs nbytes (nleft - int (length bs)) (got @ bs))
      else (nbytes - nleft, got))"

definition stream_read :: "stream \<Rightarrow> read_result list \<Rightarrow> u64 \<Rightarrow> (stream \<times> int) res" where
  "stream_read s rs n =
     and_then (STREAM_VERIFY_SANE s) (\<lambda>_.
     and_then (ensure (\<not> STREAM_WRITEABLE s < n)) (\<lambda>_.
       let len = sint (ucast n :: u32); (nbytes, got) = readn rs len len []
       in and_then (data_write s (endp s) got) (\<lambda>s.
            Inr (if nbytes > 0 then s\<lparr>endp := endp s + of_int nbytes\<rparr> else s, nbytes))))"

text \<open>\<open>stream_read_try\<close> and \<open>stream_recvfrom\<close> differ in the system call only.\<close>

definition stream_read_try :: "stream \<Rightarrow> read_result \<Rightarrow> u64 \<Rightarrow> (stream \<times> int) res" where
  "stream_read_try s r n =
     and_then (STREAM_VERIFY_SANE s) (\<lambda>_.
     and_then (ensure (\<not> STREAM_WRITEABLE s < n)) (\<lambda>_.
       case r of
         ReadData bs \<Rightarrow> and_then (data_write s (endp s) bs) (\<lambda>s.
           Inr (s\<lparr>endp := endp s + of_nat (length bs)\<rparr>, int (length bs)))
       | ReadError retry \<Rightarrow> Inr (s, if retry then -2 else -1)))"

definition stream_recvfrom :: "stream \<Rightarrow> read_result \<Rightarrow> u64 \<Rightarrow> (stream \<times> int) res" where
  "stream_recvfrom s r n =
     and_then (STREAM_VERIFY_SANE s) (\<lambda>_.
     and_then (ensure (\<not> STREAM_WRITEABLE s < n)) (\<lambda>_.
       case r of
         ReadData bs \<Rightarrow> and_then (data_write s (endp s) bs) (\<lambda>s.
           Inr (s\<lparr>endp := endp s + of_nat (length bs)\<rparr>, int (length bs)))
       | ReadError retry \<Rightarrow> Inr (s, if retry then -2 else -1)))"

definition stream_recvmsg :: "stream \<Rightarrow> read_result \<Rightarrow> nat \<Rightarrow> u64 \<Rightarrow> (stream \<times> int) res" where
  "stream_recvmsg s r iovlen n =
     and_then (STREAM_VERIFY_SANE s) (\<lambda>_.
     and_then (ensure (iovlen > 0)) (\<lambda>_.
     and_then (ensure (\<not> STREAM_WRITEABLE s < n)) (\<lambda>_.
       case r of
         ReadData bs \<Rightarrow> and_then (data_write s (endp s) bs) (\<lambda>s.
           Inr (if bs \<noteq> [] then s\<lparr>endp := endp s + of_nat (length bs)\<rparr> else s, int (length bs)))
       | ReadError retry \<Rightarrow> Inr (s, -1))))"

text \<open>\<open>stream_flush\<close> hands the unread bytes to \<open>write\<close> and leaves the buffer alone.\<close>

definition stream_flush :: "stream \<Rightarrow> (u8 list \<Rightarrow> int) \<Rightarrow> int res" where
  "stream_flush s write_fd =
     and_then (STREAM_VERIFY_SANE s) (\<lambda>_.
     and_then (data_read s (getp s) (endp s - getp s)) (\<lambda>bs. Inr (write_fd bs)))"

definition stream_pnt :: "stream \<Rightarrow> u8 list res" where
  "stream_pnt s = and_then (STREAM_VERIFY_SANE s) (\<lambda>_. Inr (drop (unat (getp s)) (st_data s)))"

definition stream_empty :: "stream \<Rightarrow> bool res" where
  "stream_empty s = and_then (STREAM_VERIFY_SANE s) (\<lambda>_. Inr (endp s = 0))"

definition stream_reset :: "stream \<Rightarrow> stream res" where
  "stream_reset s = and_then (STREAM_VERIFY_SANE s) (\<lambda>_. Inr (s\<lparr>getp := 0, endp := 0\<rparr>))"

end
