(* ===== verification/StreamProps.thy ===== *)
theory StreamProps
  imports StreamBuf
begin

unbundle bit_operations_syntax

text \<open>
  Correctness of the packet buffer. \<open>stream_ok\<close> is the invariant stated at the head of
  \<^verbatim>\<open>lib/stream.c\<close>; \<open>pending\<close> is what is still to be read. Reading and writing
  refine a byte queue, so that fields written in any order come back as written.
\<close>

section \<open>The invariant\<close>

definition stream_ok :: "stream \<Rightarrow> bool" where
  "stream_ok s \<longleftrightarrow> getp s \<le> endp s \<and> endp s \<le> st_size s \<and> length (st_data s) = unat (st_size s)"

definition written :: "stream \<Rightarrow> u8 list" where
  "written s = take (unat (endp s)) (st_data s)"

definition pending :: "stream \<Rightarrow> u8 list" where
  "pending s = drop (unat (getp s)) (written s)"

definition room :: "stream \<Rightarrow> nat" where
  "room s = unat (st_size s) - unat (endp s)"

lemma stream_ok_nat: "stream_ok s \<longleftrightarrow> unat (getp s) \<le> unat (endp s) \<and>
    unat (endp s) \<le> unat (st_size s) \<and> length (st_data s) = unat (st_size s)"
  by (simp add: stream_ok_def word_le_nat_alt)

lemma length_written: "stream_ok s \<Longrightarrow> length (written s) = unat (endp s)"
  by (simp add: stream_ok_nat written_def)

lemma length_pending: "stream_ok s \<Longrightarrow> length (pending s) = unat (endp s) - unat (getp s)"
  by (simp add: pending_def length_written)

lemma unat_lt_u64 [simp]: "unat (x :: u64) < 18446744073709551616"
  using unsigned_less [of x] by simp

lemma unat_add_le:
  fixes a :: u64
  assumes "unat a + n \<le> unat (b :: u64)"
  shows "unat (a + of_nat n) = unat a + n"
proof -
  have "unat a + n < 2 ^ 64" using le_less_trans [OF assms unat_lt_u64 [of b]] by simp
  then show ?thesis by (simp add: unat_word_ariths unat_of_nat)
qed

lemma sane_ok [simp]: "stream_ok s \<Longrightarrow> STREAM_VERIFY_SANE s = Inr ()"
  by (simp add: STREAM_VERIFY_SANE_def GETP_VALID_def ENDP_VALID_def stream_ok_def)

lemma readable_nat: "stream_ok s \<Longrightarrow> unat (STREAM_READABLE s) = length (pending s)"
  by (simp add: STREAM_READABLE_def length_pending stream_ok_def unat_sub)

lemma writeable_nat: "stream_ok s \<Longrightarrow> unat (STREAM_WRITEABLE s) = room s"
  by (simp add: STREAM_WRITEABLE_def room_def stream_ok_def unat_sub)

lemma less_of_nat_u64: "n < 18446744073709551616 \<Longrightarrow> (x :: u64) < of_nat n \<longleftrightarrow> unat x < n"
  by (simp add: word_less_nat_alt unat_of_nat)

lemma read_guard_iff:
  assumes "stream_ok s" "n < 18446744073709551616"
  shows "read_guard n s = (if n \<le> length (pending s) then Inr () else Inl AssertFailed)"
  using assms by (simp add: read_guard_def ensure_def less_of_nat_u64 readable_nat)

lemma write_guard_iff:
  assumes "stream_ok s" "n < 18446744073709551616"
  shows "write_guard n s = (if n \<le> room s then Inr () else Inl AssertFailed)"
  using assms by (simp add: write_guard_def ensure_def less_of_nat_u64 writeable_nat)

section \<open>Sequential access\<close>

lemma fetch_ok:
  assumes "stream_ok s" "pending s = b # bs"
  shows "fetch s = Inr (s\<lparr>getp := getp s + 1\<rparr>, b)" "stream_ok (s\<lparr>getp := getp s + 1\<rparr>)"
    "pending (s\<lparr>getp := getp s + 1\<rparr>) = bs"
proof -
  have lt: "unat (getp s) < unat (endp s)"
    using length_pending [OF assms(1)] assms(2) by simp
  have g: "unat (getp s + 1) = Suc (unat (getp s))"
    using unat_add_le [of "getp s" 1 "endp s"] lt by simp
  have "st_data s ! unat (getp s) = b"
    using arg_cong [OF assms(2), of "\<lambda>l. l ! 0"] lt length_written [OF assms(1)]
    by (simp add: pending_def) (simp add: written_def)
  then show "fetch s = Inr (s\<lparr>getp := getp s + 1\<rparr>, b)"
    using lt assms(1) by (simp add: fetch_def data_get_def stream_ok_nat)
  show "stream_ok (s\<lparr>getp := getp s + 1\<rparr>)" using assms(1) lt by (simp add: stream_ok_nat g)
  have "drop (Suc (unat (getp s))) (written s) = bs"
    using assms(2) by (metis drop_Suc list.sel(3) pending_def tl_drop)
  then show "pending (s\<lparr>getp := getp s + 1\<rparr>) = bs" by (simp add: pending_def g written_def)
qed

lemma fetch_n_ok:
  assumes "stream_ok s" "pending s = xs @ ys"
  shows "\<exists>s'. fetch_n (length xs) s = Inr (s', xs) \<and> stream_ok s' \<and> pending s' = ys \<and>
     written s' = written s \<and> room s' = room s \<and> st_size s' = st_size s"
  using assms
proof (induction xs arbitrary: s)
  case (Cons x xs)
  let ?s = "s\<lparr>getp := getp s + 1\<rparr>"
  have p: "pending s = x # (xs @ ys)" using Cons.prems(2) by simp
  from Cons.IH [OF fetch_ok(2,3) [OF Cons.prems(1) p]] obtain s' where
    "fetch_n (length xs) ?s = Inr (s', xs)" "stream_ok s'" "pending s' = ys"
    "written s' = written s" "room s' = room s" "st_size s' = st_size s"
    by (auto simp: written_def room_def)
  with fetch_ok(1) [OF Cons.prems(1) p] show ?case by simp
qed simp

lemma emit_ok:
  assumes "stream_ok s" "0 < room s"
  shows "\<exists>s'. emit c s = Inr s' \<and> stream_ok s' \<and> pending s' = pending s @ [c] \<and>
     written s' = written s @ [c] \<and> room s' = room s - 1 \<and> st_size s' = st_size s \<and> getp s' = getp s"
proof -
  let ?e = "unat (endp s)"
  have lt: "?e < unat (st_size s)" using assms(2) by (simp add: room_def)
  have e: "unat (endp s + 1) = Suc ?e" using unat_add_le [of "endp s" 1 "st_size s"] lt by simp
  have len: "?e < length (st_data s)" "unat (getp s) \<le> ?e"
    using assms(1) lt by (simp_all add: stream_ok_nat)
  let ?s = "s\<lparr>st_data := (st_data s)[?e := c], endp := endp s + 1\<rparr>"
  have "emit c s = Inr ?s" using len by (simp add: emit_def data_set_def)
  moreover have w: "written ?s = written s @ [c]"
    using len by (simp add: written_def e take_Suc_conv_app_nth)
  moreover have "pending ?s = pending s @ [c]"
    using w len length_written [OF assms(1)] by (simp add: pending_def)
  ultimately show ?thesis using assms(1) lt by (simp add: stream_ok_nat e room_def)
qed

lemma emit_all_ok:
  assumes "stream_ok s" "length cs \<le> room s"
  shows "\<exists>s'. emit_all cs s = Inr s' \<and> stream_ok s' \<and> pending s' = pending s @ cs \<and>
     written s' = written s @ cs \<and> room s' = room s - length cs \<and> st_size s' = st_size s \<and>
     getp s' = getp s"
  using assms
proof (induction cs arbitrary: s)
  case (Cons c cs)
  from emit_ok [OF Cons.prems(1), of c] Cons.prems(2) obtain s1 where
    s1: "emit c s = Inr s1" "stream_ok s1" "pending s1 = pending s @ [c]" "written s1 = written s @ [c]"
      "room s1 = room s - 1" "st_size s1 = st_size s" "getp s1 = getp s" by auto
  have "length cs \<le> room s1" using s1(5) Cons.prems(2) by simp
  from Cons.IH [OF s1(2) this] obtain s2 where
    "emit_all cs s1 = Inr s2" "stream_ok s2" "pending s2 = pending s1 @ cs" "written s2 = written s1 @ cs"
      "room s2 = room s1 - length cs" "st_size s2 = st_size s1" "getp s2 = getp s1" by auto
  with s1 show ?case by simp
qed simp

section \<open>Bytes of words\<close>

lemma bit_byte_slice:
  fixes w :: "'a::len word"
  assumes "n < LENGTH('a)"
  shows "bit (push_bit k (ucast (ucast (drop_bit k w) :: u8)) :: 'a word) n \<longleftrightarrow> k \<le> n \<and> n < k + 8 \<and> bit w n"
    "bit (ucast (ucast (drop_bit k w) :: u8) :: 'a word) n \<longleftrightarrow> n < 8 \<and> bit w (k + n)"
    "bit (ucast (ucast w :: u8) :: 'a word) n \<longleftrightarrow> n < 8 \<and> bit w n"
  using assms by (auto simp: bit_simps)

lemma word_bytes_w: "word_w (bytes_w w @ rest) = w"
  by (rule bit_word_eqI) (auto simp: word_w_def bytes_w_def bit_or_iff bit_byte_slice nth_append)

lemma word_bytes_l: "word_l (bytes_l l @ rest) = l"
  by (rule bit_word_eqI) (auto simp: word_l_def bytes_l_def bit_or_iff bit_byte_slice nth_append)

lemma word_bytes_q: "word_q (bytes_q q @ rest) = q"
proof (rule bit_word_eqI)
  fix n
  assume n: "n < LENGTH(64)"
  have "bit (word_q (bytes_q q @ rest)) n \<longleftrightarrow> bit q n \<and>
     (n < 8 \<or> (8 \<le> n \<and> n < 16) \<or> (16 \<le> n \<and> n < 24) \<or> (24 \<le> n \<and> n < 32) \<or> (32 \<le> n \<and> n < 40) \<or>
      (40 \<le> n \<and> n < 48) \<or> (48 \<le> n \<and> n < 56) \<or> (56 \<le> n \<and> n < 64))"
    using n by (simp add: word_q_def bytes_q_def bit_or_iff bit_byte_slice) blast
  moreover have "n < 8 \<or> (8 \<le> n \<and> n < 16) \<or> (16 \<le> n \<and> n < 24) \<or> (24 \<le> n \<and> n < 32) \<or>
      (32 \<le> n \<and> n < 40) \<or> (40 \<le> n \<and> n < 48) \<or> (48 \<le> n \<and> n < 56) \<or> (56 \<le> n \<and> n < 64)"
    using n by auto
  ultimately show "bit (word_q (bytes_q q @ rest)) n = bit q n" by blast
qed

lemma load_store32: "load32 (store32 w @ rest) = w"
proof (rule bit_word_eqI)
  fix n
  assume n: "n < LENGTH(32)"
  have "bit (load32 (store32 w @ rest)) n \<longleftrightarrow> bit w n \<and>
     (n < 8 \<or> (8 \<le> n \<and> n < 16) \<or> (16 \<le> n \<and> n < 24) \<or> (24 \<le> n \<and> n < 32))"
    using n by (simp add: load32_def store32_def bit_or_iff bit_byte_slice byte_at_def) blast
  moreover have "n < 8 \<or> (8 \<le> n \<and> n < 16) \<or> (16 \<le> n \<and> n < 24) \<or> (24 \<le> n \<and> n < 32)"
    using n by auto
  ultimately show "bit (load32 (store32 w @ rest)) n = bit w n" by blast
qed

section \<open>Blocks\<close>

lemma data_write_end:
  assumes "stream_ok s" "length bs \<le> room s"
  shows "\<exists>s1. data_write s (endp s) bs = Inr s1 \<and> endp s1 = endp s \<and>
     (let s2 = s1\<lparr>endp := endp s + of_nat (length bs)\<rparr> in stream_ok s2 \<and>
        pending s2 = pending s @ bs \<and> written s2 = written s @ bs \<and> room s2 = room s - length bs \<and>
        st_size s2 = st_size s)"
proof -
  have le: "unat (endp s) + length bs \<le> unat (st_size s)" "unat (st_size s) = length (st_data s)"
    "unat (getp s) \<le> unat (endp s)" "unat (endp s) \<le> unat (st_size s)"
    using assms by (auto simp: room_def stream_ok_nat)
  note e = unat_add_le [OF le(1)]
  then show ?thesis
    using le by (auto simp: data_write_def Let_def stream_ok_nat written_def pending_def room_def)
qed

lemma data_read_pending:
  assumes "stream_ok s" "pending s = xs @ ys"
  shows "data_read s (getp s) (of_nat (length xs)) = Inr xs"
    "stream_ok (s\<lparr>getp := getp s + of_nat (length xs)\<rparr>)"
    "pending (s\<lparr>getp := getp s + of_nat (length xs)\<rparr>) = ys"
proof -
  have le: "unat (getp s) + length xs \<le> unat (endp s)" "unat (endp s) \<le> length (st_data s)"
    using assms length_pending [OF assms(1)] by (auto simp: stream_ok_nat)
  note g = unat_add_le [OF le(1)]
  have n: "unat (of_nat (length xs) :: u64) = length xs"
    using le(1) le_less_trans [OF _ unat_lt_u64 [of "endp s"]] by (simp add: unat_of_nat)
  have "take (length xs) (pending s) = xs" using assms(2) by simp
  then have "take (length xs) (drop (unat (getp s)) (st_data s)) = xs"
    using le by (simp add: pending_def written_def drop_take min_def split: if_splits)
  with le n show "data_read s (getp s) (of_nat (length xs)) = Inr xs" by (simp add: data_read_def)
  show "stream_ok (s\<lparr>getp := getp s + of_nat (length xs)\<rparr>)"
    using assms(1) le(1) by (simp add: stream_ok_nat g)
  have "drop (length xs) (pending s) = ys" using assms(2) by simp
  then show "pending (s\<lparr>getp := getp s + of_nat (length xs)\<rparr>) = ys"
    by (simp add: pending_def g written_def add.commute)
qed

section \<open>Fields\<close>

text \<open>The typed accesses of the interface, as fields of a packet.\<close>

datatype field = FC u8 | FW u16 | FL u32 | FQ u64 | FA u32

datatype field_type = TC | TW | TL | TQ | TA

fun field_bytes :: "field \<Rightarrow> u8 list" where
  "field_bytes (FC c) = [c]"
| "field_bytes (FW w) = bytes_w w"
| "field_bytes (FL l) = bytes_l l"
| "field_bytes (FQ q) = bytes_q q"
| "field_bytes (FA a) = store32 a"

fun type_of :: "field \<Rightarrow> field_type" where
  "type_of (FC _) = TC"
| "type_of (FW _) = TW"
| "type_of (FL _) = TL"
| "type_of (FQ _) = TQ"
| "type_of (FA _) = TA"

fun put_field :: "field \<Rightarrow> stream \<Rightarrow> stream res" where
  "put_field (FC c) s = and_then (stream_putc s c) (\<lambda>(s, n). Inr s)"
| "put_field (FW w) s = and_then (stream_putw s w) (\<lambda>(s, n). Inr s)"
| "put_field (FL l) s = and_then (stream_putl s l) (\<lambda>(s, n). Inr s)"
| "put_field (FQ q) s = and_then (stream_putq s q) (\<lambda>(s, n). Inr s)"
| "put_field (FA a) s = and_then (stream_put_ipv4 s a) (\<lambda>(s, n). Inr s)"

fun get_field :: "field_type \<Rightarrow> stream \<Rightarrow> (stream \<times> field) res" where
  "get_field TC s = and_then (stream_getc s) (\<lambda>(s, c). Inr (s, FC c))"
| "get_field TW s = and_then (stream_getw s) (\<lambda>(s, w). Inr (s, FW w))"
| "get_field TL s = and_then (stream_getl s) (\<lambda>(s, l). Inr (s, FL l))"
| "get_field TQ s = and_then (stream_getq s) (\<lambda>(s, q). Inr (s, FQ q))"
| "get_field TA s = and_then (stream_get_ipv4 s) (\<lambda>(s, a). Inr (s, FA a))"

fun put_each :: "('f \<Rightarrow> 's \<Rightarrow> 's res) \<Rightarrow> 'f list \<Rightarrow> 's \<Rightarrow> 's res" where
  "put_each put [] s = Inr s"
| "put_each put (f # fs) s = and_then (put f s) (put_each put fs)"

fun get_each :: "('t \<Rightarrow> 's \<Rightarrow> ('s \<times> 'f) res) \<Rightarrow> 't list \<Rightarrow> 's \<Rightarrow> ('s \<times> 'f list) res" where
  "get_each get [] s = Inr (s, [])"
| "get_each get (t # ts) s = and_then (get t s) (\<lambda>(s, f).
     and_then (get_each get ts s) (\<lambda>(s, fs). Inr (s, f # fs)))"

text \<open>
  A queue of encoded fields: what a packet writer and a packet reader rely on. Writing appends
  the encoding as long as there is room; reading a field of the type that is next returns it.
\<close>

locale field_queue =
  fixes ok :: "'s \<Rightarrow> bool" and queue :: "'s \<Rightarrow> 'b list" and space :: "'s \<Rightarrow> nat"
    and put :: "'f \<Rightarrow> 's \<Rightarrow> 's res" and get :: "'t \<Rightarrow> 's \<Rightarrow> ('s \<times> 'f) res"
    and enc :: "'f \<Rightarrow> 'b list" and tag :: "'f \<Rightarrow> 't"
  assumes put_ok: "ok s \<Longrightarrow> length (enc f) \<le> space s \<Longrightarrow> \<exists>s'. put f s = Inr s' \<and> ok s' \<and>
      queue s' = queue s @ enc f \<and> space s' = space s - length (enc f)"
    and get_ok: "ok s \<Longrightarrow> queue s = enc f @ rest \<Longrightarrow> \<exists>s'. get (tag f) s = Inr (s', f) \<and> ok s' \<and>
      queue s' = rest \<and> space s' = space s"
begin

lemma put_all:
  assumes "ok s" "length (concat (map enc fs)) \<le> space s"
  shows "\<exists>s'. put_each put fs s = Inr s' \<and> ok s' \<and> queue s' = queue s @ concat (map enc fs) \<and>
     space s' = space s - length (concat (map enc fs))"
  using assms
proof (induction fs arbitrary: s)
  case (Cons f fs)
  from put_ok [OF Cons.prems(1), of f] Cons.prems(2) obtain s1 where s1: "put f s = Inr s1" "ok s1"
    "queue s1 = queue s @ enc f" "space s1 = space s - length (enc f)" by auto
  have "length (concat (map enc fs)) \<le> space s1" using s1(4) Cons.prems(2) by simp
  from Cons.IH [OF s1(2) this] s1 show ?case by auto
qed simp

lemma get_all:
  assumes "ok s" "queue s = concat (map enc fs) @ rest"
  shows "\<exists>s'. get_each get (map tag fs) s = Inr (s', fs) \<and> ok s' \<and> queue s' = rest"
  using assms
proof (induction fs arbitrary: s)
  case (Cons f fs)
  then have "queue s = enc f @ (concat (map enc fs) @ rest)" by simp
  from get_ok [OF Cons.prems(1) this] obtain s1 where s1: "get (tag f) s = Inr (s1, f)" "ok s1"
    "queue s1 = concat (map enc fs) @ rest" by blast
  from Cons.IH [OF s1(2,3)] s1(1) show ?case by auto
qed simp

lemma round_trip:
  assumes "ok s" "queue s = []" "length (concat (map enc fs)) \<le> space s"
  shows "\<exists>s1 s2. put_each put fs s = Inr s1 \<and> get_each get (map tag fs) s1 = Inr (s2, fs) \<and>
     ok s2 \<and> queue s2 = []"
proof -
  from put_all [OF assms(1,3)] assms(2) obtain s1 where "put_each put fs s = Inr s1" "ok s1"
    "queue s1 = concat (map enc fs) @ []" by auto
  with get_all [of s1 fs "[]"] show ?thesis by blast
qed

end

lemma length_bytes [simp]:
  "length (bytes_w w) = 2" "length (bytes_l l) = 4" "length (bytes_q q) = 8" "length (store32 l) = 4"
  by (simp_all add: bytes_w_def bytes_l_def bytes_q_def store32_def)

lemma put_field_ok:
  assumes "stream_ok s" "length (field_bytes f) \<le> room s"
  shows "\<exists>s'. put_field f s = Inr s' \<and> stream_ok s' \<and> pending s' = pending s @ field_bytes f \<and>
     room s' = room s - length (field_bytes f)"
proof (cases f)
  case (FC c)
  with emit_all_ok [of s "[c]"] assms write_guard_iff [of s 1] show ?thesis
    by (auto simp: stream_putc_def and_then_Inr_iff)
next
  case (FW w)
  with emit_all_ok [of s "bytes_w w"] assms write_guard_iff [of s 2] show ?thesis
    by (auto simp: stream_putw_def)
next
  case (FL l)
  with emit_all_ok [of s "bytes_l l"] assms write_guard_iff [of s 4] show ?thesis
    by (auto simp: stream_putl_def)
next
  case (FQ q)
  with emit_all_ok [of s "bytes_q q"] assms write_guard_iff [of s 8] show ?thesis
    by (auto simp: stream_putq_def)
next
  case (FA a)
  with data_write_end [of s "store32 a"] assms write_guard_iff [of s 4] show ?thesis
    by (auto simp: stream_put_ipv4_def Let_def)
qed

lemma get_field_ok:
  assumes "stream_ok s" "pending s = field_bytes f @ rest"
  shows "\<exists>s'. get_field (type_of f) s = Inr (s', f) \<and> stream_ok s' \<and> pending s' = rest \<and> room s' = room s"
proof (cases f)
  case (FC c)
  with fetch_ok [of s c rest] assms read_guard_iff [of s 1] show ?thesis
    by (simp add: stream_getc_def room_def)
next
  case (FW w)
  with fetch_n_ok [of s "bytes_w w" rest] assms read_guard_iff [of s 2] word_bytes_w [of w "[]"]
  show ?thesis by (auto simp: stream_getw_def)
next
  case (FL l)
  with fetch_n_ok [of s "bytes_l l" rest] assms read_guard_iff [of s 4] word_bytes_l [of l "[]"]
  show ?thesis by (auto simp: stream_getl_def)
next
  case (FQ q)
  with fetch_n_ok [of s "bytes_q q" rest] assms read_guard_iff [of s 8] word_bytes_q [of q "[]"]
  show ?thesis by (auto simp: stream_getq_def)
next
  case (FA a)
  with data_read_pending [of s "store32 a" rest] assms read_guard_iff [of s 4] load_store32 [of a "[]"]
  show ?thesis by (auto simp: stream_get_ipv4_def room_def)
qed

interpretation packet: field_queue stream_ok pending room put_field get_field field_bytes type_of
  by unfold_locales (fact put_field_ok, fact get_field_ok)

text \<open>C32: what is written is what is read. Any sequence of characters, words, longs, quads and
  addresses written to a stream with nothing pending and enough room, and then read back with
  the reads of the same types, comes back unchanged, and nothing is left over.\<close>

theorem stream_fields_roundtrip:
  assumes "stream_ok s" "pending s = []" "length (concat (map field_bytes fs)) \<le> room s"
  shows "\<exists>s1 s2. put_each put_field fs s = Inr s1 \<and>
     get_each get_field (map type_of fs) s1 = Inr (s2, fs) \<and> stream_ok s2 \<and> pending s2 = []"
  using assms by (rule packet.round_trip)

definition empty_stream :: stream where
  "empty_stream = \<lparr>getp = 0, endp = 0, st_size = 16, st_data = replicate 16 0\<rparr>"

lemma empty_stream_ok: "stream_ok empty_stream" "pending empty_stream = []" "room empty_stream = 16"
  by (simp_all add: empty_stream_def stream_ok_def pending_def written_def room_def)

theorem stream_fields_roundtrip_witness:
  "stream_ok empty_stream \<and> pending empty_stream = [] \<and>
   (\<exists>s1 s2. put_each put_field [FW 0x1234, FC 7, FA 0x0a000001] empty_stream = Inr s1 \<and>
      get_each get_field [TW, TC, TA] s1 = Inr (s2, [FW 0x1234, FC 7, FA 0x0a000001]))"
  using stream_fields_roundtrip [OF empty_stream_ok(1,2), of "[FW 0x1234, FC 7, FA 0x0a000001]"]
    empty_stream_ok by auto

section \<open>Positional access\<close>

lemma at_guard_iff:
  assumes "stream_ok s" "unat i + n < 18446744073709551616"
  shows "at_guard n s i = (if unat i + n \<le> unat (endp s) then Inr () else Inl AssertFailed)"
    "from_guard n s i = (if unat i + n \<le> unat (endp s) then Inr () else Inl AssertFailed)"
proof -
  have "unat (i + of_nat n) = unat i + n" using assms(2) by (simp add: unat_word_ariths unat_of_nat)
  with assms(1) show "at_guard n s i = (if unat i + n \<le> unat (endp s) then Inr () else Inl AssertFailed)"
    "from_guard n s i = (if unat i + n \<le> unat (endp s) then Inr () else Inl AssertFailed)"
    by (simp_all add: at_guard_def from_guard_def ensure_def GETP_VALID_def word_le_nat_alt)
qed

lemma get_at_ok:
  assumes "stream_ok s" "unat i + n \<le> unat (endp s)"
  shows "get_at n s i = Inr (take n (drop (unat i) (written s)))"
  using assms(2)
proof (induction n arbitrary: i)
  case (Suc n)
  have i: "unat (i + 1) = Suc (unat i)" using unat_add_le [of i 1 "endp s"] Suc.prems by simp
  have len: "unat i < length (written s)" "unat i < length (st_data s)"
    using Suc.prems assms(1) by (simp_all add: length_written stream_ok_nat)
  have "data_get s i = Inr (written s ! unat i)"
    using len Suc.prems by (simp add: data_get_def written_def)
  moreover have "get_at n s (i + 1) = Inr (take n (drop (Suc (unat i)) (written s)))"
    using Suc.IH [of "i + 1"] Suc.prems i by simp
  ultimately show ?case using len(1) by (simp add: Cons_nth_drop_Suc [symmetric])
qed simp

lemma put_at_ok:
  assumes "stream_ok s" "unat i + length cs \<le> unat (endp s)"
  shows "\<exists>s'. put_at cs i s = Inr s' \<and> stream_ok s' \<and> endp s' = endp s \<and> getp s' = getp s \<and>
     written s' = take (unat i) (written s) @ cs @ drop (unat i + length cs) (written s)"
  using assms
proof (induction cs arbitrary: i s)
  case Nil
  then show ?case by simp
next
  case (Cons c cs)
  let ?s = "s\<lparr>st_data := (st_data s)[unat i := c]\<rparr>"
  have i: "unat (i + 1) = Suc (unat i)" using unat_add_le [of i 1 "endp s"] Cons.prems by simp
  have ok: "stream_ok ?s" "unat (i + 1) + length cs \<le> unat (endp ?s)"
    using Cons.prems i by (simp_all add: stream_ok_nat)
  have len: "unat i < length (st_data s)" "unat i < length (written s)"
    using Cons.prems by (simp_all add: length_written stream_ok_nat)
  then have "data_set s i c = Inr ?s" by (simp add: data_set_def)
  moreover have w: "written ?s = (written s)[unat i := c]" by (simp add: written_def take_update_swap)
  moreover have "take (Suc (unat i)) ((written s)[unat i := c]) = take (unat i) (written s) @ [c]"
    using len(2) by (simp add: take_Suc_conv_app_nth)
  ultimately show ?case using Cons.IH [OF ok] i by auto
qed

text \<open>Patching. A long written at a position inside the written part is what
  \<open>stream_getl_from\<close> reads there, every other byte and both positions stay, and a position
  that ends outside the written part is refused by the assertion; no position whose end does not
  wrap around makes either access leave the buffer.\<close>

theorem stream_putl_at_getl_from:
  assumes "stream_ok s" "unat i + 4 < 2 ^ 64"
  shows "if unat i + 4 \<le> unat (endp s)
     then \<exists>s'. stream_putl_at s i l = Inr (s', 4) \<and> stream_getl_from s' i = Inr l \<and> stream_ok s' \<and>
        getp s' = getp s \<and> endp s' = endp s \<and>
        (\<forall>k < unat (endp s). k < unat i \<or> unat i + 4 \<le> k \<longrightarrow> written s' ! k = written s ! k)
     else stream_putl_at s i l = Inl AssertFailed \<and> stream_getl_from s i = Inl AssertFailed"
proof (cases "unat i + 4 \<le> unat (endp s)")
  case True
  from put_at_ok [OF assms(1), of i "bytes_l l"] True obtain s' where
    s': "put_at (bytes_l l) i s = Inr s'" "stream_ok s'" "endp s' = endp s" "getp s' = getp s"
      "written s' = take (unat i) (written s) @ bytes_l l @ drop (unat i + 4) (written s)" by auto
  have len: "length (written s) = unat (endp s)" using assms(1) by (rule length_written)
  have "get_at 4 s' i = Inr (bytes_l l)"
    using get_at_ok [OF s'(2), of i 4] True s'(3,5) len by simp
  moreover have "written s' ! k = written s ! k" if "k < unat (endp s)" "k < unat i \<or> unat i + 4 \<le> k" for k
    using that True len by (auto simp: s'(5) nth_append)
  ultimately show ?thesis
    using True s' at_guard_iff [of s i 4] at_guard_iff [of s' i 4] assms word_bytes_l [of l "[]"]
    by (simp add: stream_putl_at_def stream_getl_from_def)
next
  case False
  with at_guard_iff [of s i 4] assms show ?thesis
    by (simp add: stream_putl_at_def stream_getl_from_def)
qed

definition filled_stream :: stream where
  "filled_stream = \<lparr>getp = 1, endp = 6, st_size = 8, st_data = [1, 2, 3, 4, 5, 6, 7, 8]\<rparr>"

lemma filled_stream_ok: "stream_ok filled_stream" "pending filled_stream = [2, 3, 4, 5, 6]"
  "written filled_stream = [1, 2, 3, 4, 5, 6]" "room filled_stream = 2"
  by (simp_all add: filled_stream_def stream_ok_def pending_def written_def room_def)

theorem stream_putl_at_getl_from_witness:
  "stream_ok filled_stream \<and> unat (1 :: u64) + 4 < 2 ^ 64 \<and>
   (\<exists>s'. stream_putl_at filled_stream 1 0xc0000201 = Inr (s', 4) \<and>
      stream_getl_from s' 1 = Inr 0xc0000201 \<and> written s' ! 5 = 6)"
  using stream_putl_at_getl_from [OF filled_stream_ok(1), of 1 "0xc0000201"] filled_stream_ok
  by (auto simp: filled_stream_def)

text \<open>A position near the end of the address space passes the check. The bound test adds
  the width to the position in \<open>size_t\<close> and the sum wraps to a small number, so that
  \<open>stream_getq_from\<close> (and every other positional access of more than one byte) reads outside
  the buffer instead of failing the assertion.\<close>

theorem stream_getq_from_wraps:
  assumes "stream_ok s" "st_size s \<le> 2 ^ 63"
  shows "stream_getq_from s (- 8) = Inl OutOfBounds"
proof -
  have "length (st_data s) \<le> 2 ^ 63"
    using assms by (simp add: stream_ok_nat word_le_nat_alt)
  moreover have "unat (- 8 :: u64) = 2 ^ 64 - 8" by simp
  ultimately have "data_get s (- 8) = Inl OutOfBounds" by (simp add: data_get_def)
  then have "get_at 8 s (- 8) = Inl OutOfBounds"
    using get_at.simps(2) [of 7 s "- 8"] by simp
  then show ?thesis using assms(1) by (simp add: stream_getq_from_def from_guard_def GETP_VALID_def)
qed

theorem stream_getq_from_wraps_witness:
  "stream_ok filled_stream \<and> stream_getq_from filled_stream (- 8) = Inl OutOfBounds"
  using stream_getq_from_wraps [OF filled_stream_ok(1)] filled_stream_ok(1) by (simp add: filled_stream_def)

section \<open>Bulk writes\<close>

lemma CHECK_SIZE_nat:
  assumes "stream_ok s" "unat (endp s) + unat n < 18446744073709551616"
  shows "unat (CHECK_SIZE s n) = min (unat n) (room s)"
proof -
  have "unat (endp s + n) = unat (endp s) + unat n" using assms(2) by (simp add: unat_word_ariths)
  moreover have "unat (st_size s - endp s) = room s"
    using assms(1) by (simp add: room_def stream_ok_def unat_sub)
  ultimately show ?thesis using assms(1)
    by (auto simp: CHECK_SIZE_def word_less_nat_alt room_def stream_ok_nat)
qed

lemma bulk_write:
  assumes "stream_ok s" "unat n = length bs" "length bs \<le> room s"
  shows "\<exists>s'. and_then (data_write s (endp s) bs) (\<lambda>s. Inr (s\<lparr>endp := endp s + n\<rparr>)) = Inr s' \<and>
     stream_ok s' \<and> pending s' = pending s @ bs \<and> written s' = written s @ bs"
proof -
  have "of_nat (length bs) = n" using assms(2) by (metis of_nat_unat ucast_id)
  with data_write_end [OF assms(1,3)] show ?thesis by (auto simp: Let_def)
qed

text \<open>\<open>stream_put\<close> never fails on a well-formed stream, but it truncates: it appends the
  first bytes of the source, or zeros, as many as there is room for, and drops the rest.\<close>

theorem stream_put_truncates:
  assumes "stream_ok s" "unat (endp s) + unat n < 2 ^ 64"
    and "\<And>bs. src = Some bs \<Longrightarrow> unat n \<le> length bs"
  shows "\<exists>s'. stream_put s src n = Inr s' \<and> stream_ok s' \<and>
     written s' = written s @ take (min (unat n) (room s))
       (case src of Some bs \<Rightarrow> bs | None \<Rightarrow> replicate (unat n) 0)"
proof -
  define k where "k = CHECK_SIZE s n"
  have k: "unat k = min (unat n) (room s)" using CHECK_SIZE_nat [of s n] assms by (simp add: k_def)
  then have "\<not> STREAM_WRITEABLE s < k"
    using assms(1) by (simp add: word_less_nat_alt writeable_nat)
  moreover have "(case src of
       Some bs \<Rightarrow> if unat k \<le> length bs then data_write s (endp s) (take (unat k) bs) else Inl OutOfBounds
     | None \<Rightarrow> data_write s (endp s) (replicate (unat k) 0)) =
     data_write s (endp s) (take (unat k) (case src of Some bs \<Rightarrow> bs | None \<Rightarrow> replicate (unat n) 0))"
    using k assms(3) by (auto split: option.splits simp: min_def)
  moreover have "length (take (unat k) (case src of Some bs \<Rightarrow> bs | None \<Rightarrow> replicate (unat n) 0)) = unat k"
    using k assms(3) by (auto split: option.splits)
  ultimately show ?thesis
    using bulk_write [OF assms(1), of k "take (unat k) (case src of Some bs \<Rightarrow> bs | None \<Rightarrow> replicate (unat n) 0)"] k assms(1)
    by (auto simp: stream_put_def Let_def k_def [symmetric])
qed

theorem stream_put_truncates_witness:
  "stream_ok filled_stream \<and>
   (\<exists>s'. stream_put filled_stream (Some [9, 9, 9]) 3 = Inr s' \<and> written s' = [1, 2, 3, 4, 5, 6, 9, 9])"
  using stream_put_truncates [OF filled_stream_ok(1), of 3 "Some [9, 9, 9]"] filled_stream_ok
  by (auto simp: filled_stream_def)

section \<open>Any sequence of calls\<close>

datatype stream_call =
    SetGetp u64 | SetEndp u64 | ForwardGetp u64 | ForwardEndp u64
  | GetBytes u64 | GetField field_type
  | PutBytes "u8 list option" u64 | PutField field | PutPrefix prefix
  | GetCFrom u64 | GetWFrom u64 | GetLFrom u64 | GetQFrom u64
  | PatchC u64 u8 | PatchW u64 u16 | PatchL u64 u32 | PatchQ u64 u64
  | ReadTry read_result u64 | Resize "nat \<Rightarrow> u8" u64 | Reset

fun stream_exec :: "stream_call \<Rightarrow> stream \<Rightarrow> stream res" where
  "stream_exec (SetGetp p) s = stream_set_getp s p"
| "stream_exec (SetEndp p) s = stream_set_endp s p"
| "stream_exec (ForwardGetp n) s = stream_forward_getp s n"
| "stream_exec (ForwardEndp n) s = stream_forward_endp s n"
| "stream_exec (GetBytes n) s = and_then (stream_get s n) (\<lambda>(s, bs). Inr s)"
| "stream_exec (GetField t) s = and_then (get_field t s) (\<lambda>(s, f). Inr s)"
| "stream_exec (GetCFrom i) s = and_then (stream_getc_from s i) (\<lambda>c. Inr s)"
| "stream_exec (GetWFrom i) s = and_then (stream_getw_from s i) (\<lambda>w. Inr s)"
| "stream_exec (GetLFrom i) s = and_then (stream_getl_from s i) (\<lambda>l. Inr s)"
| "stream_exec (GetQFrom i) s = and_then (stream_getq_from s i) (\<lambda>q. Inr s)"
| "stream_exec (PutBytes src n) s = stream_put s src n"
| "stream_exec (PutField f) s = put_field f s"
| "stream_exec (PutPrefix p) s = and_then (stream_put_prefix s p) (\<lambda>(s, n). Inr s)"
| "stream_exec (PatchC i c) s = and_then (stream_putc_at s i c) (\<lambda>(s, n). Inr s)"
| "stream_exec (PatchW i w) s = and_then (stream_putw_at s i w) (\<lambda>(s, n). Inr s)"
| "stream_exec (PatchL i l) s = and_then (stream_putl_at s i l) (\<lambda>(s, n). Inr s)"
| "stream_exec (PatchQ i q) s = and_then (stream_putq_at s i q) (\<lambda>(s, n). Inr s)"
| "stream_exec (ReadTry r n) s = and_then (stream_read_try s r n) (\<lambda>(s, k). Inr s)"
| "stream_exec (Resize mem n) s = and_then (stream_resize mem s n) (\<lambda>(s, k). Inr s)"
| "stream_exec Reset s = stream_reset s"

text \<open>
  Calls with meaningful arguments: positions and sizes do not wrap around, a source array is as
  long as the caller says, a prefix is well-formed, \<open>read\<close> returns at most what it was
  asked for, and a buffer is not resized to nothing.
\<close>

fun call_fits :: "stream_call \<Rightarrow> stream \<Rightarrow> bool" where
  "call_fits (ForwardGetp n) s \<longleftrightarrow> unat (getp s) + unat n < 2 ^ 64"
| "call_fits (ForwardEndp n) s \<longleftrightarrow> unat (endp s) + unat n < 2 ^ 64"
| "call_fits (GetCFrom i) s \<longleftrightarrow> unat i + 1 < 2 ^ 64"
| "call_fits (GetWFrom i) s \<longleftrightarrow> unat i + 2 < 2 ^ 64"
| "call_fits (GetLFrom i) s \<longleftrightarrow> unat i + 4 < 2 ^ 64"
| "call_fits (GetQFrom i) s \<longleftrightarrow> unat i + 8 < 2 ^ 64"
| "call_fits (PutBytes src n) s \<longleftrightarrow> unat (endp s) + unat n < 2 ^ 64 \<and>
     (case src of Some bs \<Rightarrow> unat n \<le> length bs | None \<Rightarrow> True)"
| "call_fits (PutPrefix p) s \<longleftrightarrow> wf_prefix p"
| "call_fits (PatchC i c) s \<longleftrightarrow> unat i + 1 < 2 ^ 64"
| "call_fits (PatchW i w) s \<longleftrightarrow> unat i + 2 < 2 ^ 64"
| "call_fits (PatchL i l) s \<longleftrightarrow> unat i + 4 < 2 ^ 64"
| "call_fits (PatchQ i q) s \<longleftrightarrow> unat i + 8 < 2 ^ 64"
| "call_fits (ReadTry r n) s \<longleftrightarrow> (case r of ReadData bs \<Rightarrow> length bs \<le> unat n | ReadError _ \<Rightarrow> True)"
| "call_fits (Resize mem n) s \<longleftrightarrow> n \<noteq> 0"
| "call_fits _ s \<longleftrightarrow> True"

definition field_width :: "field_type \<Rightarrow> nat" where
  "field_width t = (case t of TC \<Rightarrow> 1 | TW \<Rightarrow> 2 | TL \<Rightarrow> 4 | TQ \<Rightarrow> 8 | TA \<Rightarrow> 4)"

text \<open>The bytes a call takes are there: unread ones to read, room to write, and written ones to read or overwrite
  at a position. Copying bytes in truncates, so it always has room.\<close>

fun room_for :: "stream_call \<Rightarrow> stream \<Rightarrow> bool" where
  "room_for (SetGetp p) s \<longleftrightarrow> p \<le> endp s"
| "room_for (SetEndp p) s \<longleftrightarrow> getp s \<le> p \<and> p \<le> st_size s"
| "room_for (ForwardGetp n) s \<longleftrightarrow> unat (getp s) + unat n \<le> unat (endp s)"
| "room_for (ForwardEndp n) s \<longleftrightarrow> unat (endp s) + unat n \<le> unat (st_size s)"
| "room_for (GetBytes n) s \<longleftrightarrow> unat n \<le> length (pending s)"
| "room_for (GetField t) s \<longleftrightarrow> field_width t \<le> length (pending s)"
| "room_for (GetCFrom i) s \<longleftrightarrow> unat i + 1 \<le> unat (endp s)"
| "room_for (GetWFrom i) s \<longleftrightarrow> unat i + 2 \<le> unat (endp s)"
| "room_for (GetLFrom i) s \<longleftrightarrow> unat i + 4 \<le> unat (endp s)"
| "room_for (GetQFrom i) s \<longleftrightarrow> unat i + 8 \<le> unat (endp s)"
| "room_for (PutField f) s \<longleftrightarrow> length (field_bytes f) \<le> room s"
| "room_for (PutPrefix p) s \<longleftrightarrow> PSIZE (prefixlen p) + 1 \<le> room s"
| "room_for (PatchC i c) s \<longleftrightarrow> unat i + 1 \<le> unat (endp s)"
| "room_for (PatchW i w) s \<longleftrightarrow> unat i + 2 \<le> unat (endp s)"
| "room_for (PatchL i l) s \<longleftrightarrow> unat i + 4 \<le> unat (endp s)"
| "room_for (PatchQ i q) s \<longleftrightarrow> unat i + 8 \<le> unat (endp s)"
| "room_for (ReadTry r n) s \<longleftrightarrow> unat n \<le> room s"
| "room_for _ s \<longleftrightarrow> True"

text \<open>Where \<open>b\<close> holds the call returns a well-formed stream, and where not an assertion stops it.\<close>

definition outcome :: "bool \<Rightarrow> stream res \<Rightarrow> bool" where
  "outcome b r \<longleftrightarrow> (case r of Inl e \<Rightarrow> \<not> b \<and> e = AssertFailed | Inr s \<Rightarrow> b \<and> stream_ok s)"

lemma outcome_simps [simp]: "outcome b (Inr s) \<longleftrightarrow> b \<and> stream_ok s" "outcome b (Inl e) \<longleftrightarrow> \<not> b \<and> e = AssertFailed"
  by (simp_all add: outcome_def)

lemma outcome_ensure [simp]: "outcome b (and_then (ensure c) f) \<longleftrightarrow> (if c then outcome b (f ()) else \<not> b)"
  by (simp add: ensure_def)

lemma outcome_put_field: "stream_ok s \<Longrightarrow> outcome (length (field_bytes f) \<le> room s) (put_field f s)"
proof (cases "length (field_bytes f) \<le> room s")
  case False
  assume "stream_ok s"
  then have "put_field f s = Inl AssertFailed"
    using False write_guard_iff [of s "length (field_bytes f)"]
    by (cases f) (auto simp: stream_putc_def stream_putw_def stream_putl_def stream_putq_def stream_put_ipv4_def)
  with False show ?thesis by simp
qed (auto dest: put_field_ok)

lemma outcome_get_field:
  assumes "stream_ok s"
  shows "outcome (field_width t \<le> length (pending s)) (and_then (get_field t s) (\<lambda>(s, f). Inr s))"
proof (cases "field_width t \<le> length (pending s)")
  case False
  then have "get_field t s = Inl AssertFailed"
    using read_guard_iff [OF assms, of "field_width t"]
    by (cases t) (auto simp: field_width_def stream_getc_def stream_getw_def stream_getl_def
        stream_getq_def stream_get_ipv4_def)
  with False show ?thesis by simp
next
  case True
  define xs where "xs = take (field_width t) (pending s)"
  have p: "pending s = xs @ drop (field_width t) (pending s)" "length xs = field_width t"
    using True by (simp_all add: xs_def)
  note g = read_guard_iff [OF assms, of "field_width t"]
  from fetch_n_ok [OF assms p(1)] obtain s' where s': "fetch_n (length xs) s = Inr (s', xs)" "stream_ok s'"
    by blast
  show ?thesis
  proof (cases t)
    case TA
    with data_read_pending [OF assms p(1)] p(2) g True show ?thesis
      by (simp add: field_width_def stream_get_ipv4_def)
  next
    case TC
    then have "\<exists>b s'. fetch s = Inr (s', b) \<and> stream_ok s'"
      using fetch_ok [OF assms, of "hd (pending s)" "tl (pending s)"] True
      by (cases "pending s") (auto simp: field_width_def)
    with TC g True show ?thesis by (auto simp: field_width_def stream_getc_def)
  qed (insert s' p(2) g True,
      auto simp: field_width_def stream_getw_def stream_getl_def stream_getq_def)
qed

lemma and_then_Inr_right [simp]: "and_then m Inr = m"
  by (cases m) simp_all

lemma outcome_patch:
  assumes "stream_ok s" "unat i + length cs < 18446744073709551616"
  shows "outcome (unat i + length cs \<le> unat (endp s)) (and_then (at_guard (length cs) s i) (\<lambda>_. put_at cs i s))"
  using at_guard_iff [OF assms] put_at_ok [OF assms(1), of i cs] by auto

lemma outcome_get_from:
  assumes "stream_ok s" "unat i + n < 18446744073709551616"
  shows "outcome (unat i + n \<le> unat (endp s)) (and_then (from_guard n s i) (\<lambda>_. and_then (get_at n s i) (\<lambda>_. Inr s)))"
  using at_guard_iff [OF assms] get_at_ok [OF assms(1), of i n] assms(1) by auto

lemma outcome_put_prefix:
  assumes "stream_ok s" "wf_prefix p"
  shows "outcome (PSIZE (prefixlen p) + 1 \<le> room s) (and_then (stream_put_prefix s p) (\<lambda>(s, n). Inr s))"
proof -
  define k where "k = PSIZE (prefixlen p)"
  have k: "k \<le> 16" "length (u_prefix p) = 16"
    using assms(2) by (auto simp: k_def PSIZE_def wf_prefix_def af_defs split: if_splits)
  have guard: "STREAM_WRITEABLE s < of_nat k + 1 \<longleftrightarrow> room s < Suc k"
    using less_of_nat_u64 [of "Suc k" "STREAM_WRITEABLE s"] k(1) writeable_nat [OF assms(1)]
    by (simp add: add.commute)
  show ?thesis
  proof (cases "Suc k \<le> room s")
    case True
    from emit_ok [OF assms(1), of "of_nat (prefixlen p)"] True obtain s1 where
      s1: "emit (of_nat (prefixlen p)) s = Inr s1" "stream_ok s1" "room s1 = room s - 1" by auto
    have "k \<le> room s1" using s1(3) True by simp
    with data_write_end [OF s1(2), of "take k (u_prefix p)"] k obtain s2 where
      "data_write s1 (endp s1) (take k (u_prefix p)) = Inr s2" "stream_ok (s2\<lparr>endp := endp s1 + of_nat k\<rparr>)"
      "endp s2 = endp s1" by (auto simp: Let_def)
    with s1 guard True assms(1) show ?thesis by (simp add: stream_put_prefix_def Let_def k_def [symmetric])
  next
    case False
    with guard assms(1) show ?thesis by (simp add: stream_put_prefix_def Let_def k_def [symmetric])
  qed
qed

lemma outcome_read_try:
  assumes "stream_ok s" "case r of ReadData bs \<Rightarrow> length bs \<le> unat n | ReadError _ \<Rightarrow> True"
  shows "outcome (unat n \<le> room s) (and_then (stream_read_try s r n) (\<lambda>(s, k). Inr s))"
proof (cases "unat n \<le> room s")
  case False
  then show ?thesis using assms(1) by (simp add: stream_read_try_def word_less_nat_alt writeable_nat)
next
  case True
  then have n: "\<not> STREAM_WRITEABLE s < n" using assms(1) by (simp add: word_less_nat_alt writeable_nat)
  show ?thesis
  proof (cases r)
    case (ReadData bs)
    with data_write_end [OF assms(1), of bs] True n assms show ?thesis
      by (auto simp: stream_read_try_def Let_def)
  qed (simp add: stream_read_try_def n True assms(1))
qed

lemma outcome_put_bytes:
  assumes "stream_ok s" "unat (endp s) + unat n < 18446744073709551616"
    "case src of Some bs \<Rightarrow> unat n \<le> length bs | None \<Rightarrow> True"
  shows "outcome True (stream_put s src n)"
proof -
  define k where "k = CHECK_SIZE s n"
  have k: "unat k = min (unat n) (room s)" using CHECK_SIZE_nat [OF assms(1,2)] by (simp add: k_def)
  then have g: "\<not> STREAM_WRITEABLE s < k"
    using assms(1) by (simp add: word_less_nat_alt writeable_nat)
  show ?thesis
  proof (cases src)
    case None
    with bulk_write [OF assms(1), of k "replicate (unat k) 0"] k g assms(1) show ?thesis
      by (auto simp: stream_put_def Let_def k_def [symmetric])
  next
    case (Some bs)
    with bulk_write [OF assms(1), of k "take (unat k) bs"] k g assms show ?thesis
      by (auto simp: stream_put_def Let_def k_def [symmetric])
  qed
qed

lemma stream_exec_outcome:
  assumes "stream_ok s" "call_fits c s"
  shows "outcome (room_for c s) (stream_exec c s)"
proof (cases c)
  case (ForwardGetp n)
  then have "unat (getp s + n) = unat (getp s) + unat n" using assms(2) by (simp add: unat_word_ariths)
  with ForwardGetp assms(1) show ?thesis
    by (auto simp: stream_forward_getp_def GETP_VALID_def stream_ok_nat word_le_nat_alt)
next
  case (ForwardEndp n)
  then have "unat (endp s + n) = unat (endp s) + unat n" using assms(2) by (simp add: unat_word_ariths)
  with ForwardEndp assms(1) show ?thesis
    by (auto simp: stream_forward_endp_def ENDP_VALID_def stream_ok_nat word_le_nat_alt)
next
  case (GetBytes n)
  show ?thesis
  proof (cases "unat n \<le> length (pending s)")
    case True
    with data_read_pending [OF assms(1), of "take (unat n) (pending s)" "drop (unat n) (pending s)"]
      GetBytes assms(1) readable_nat [OF assms(1)] show ?thesis by (simp add: stream_get_def word_less_nat_alt)
  qed (simp add: stream_get_def GetBytes assms(1) readable_nat word_less_nat_alt)
next
  case (GetField t)
  with outcome_get_field [OF assms(1)] show ?thesis by simp
next
  case (GetCFrom i)
  have "and_then (get_at 1 s i) (\<lambda>_. Inr s) = and_then (data_get s i) (\<lambda>_. Inr s)" by (cases "data_get s i") simp_all
  with GetCFrom outcome_get_from [OF assms(1), of i 1] assms(2) show ?thesis
    by (simp add: stream_getc_from_def and_then_assoc)
next
  case (GetWFrom i)
  with outcome_get_from [OF assms(1), of i 2] assms(2) show ?thesis by (simp add: stream_getw_from_def and_then_assoc)
next
  case (GetLFrom i)
  with outcome_get_from [OF assms(1), of i 4] assms(2) show ?thesis by (simp add: stream_getl_from_def and_then_assoc)
next
  case (GetQFrom i)
  with outcome_get_from [OF assms(1), of i 8] assms(2) show ?thesis by (simp add: stream_getq_from_def and_then_assoc)
next
  case (PutPrefix p)
  with outcome_put_prefix [OF assms(1)] assms(2) show ?thesis by simp
next
  case (ReadTry r n)
  with outcome_read_try [OF assms(1)] assms(2) show ?thesis by simp
next
  case (PatchC i x)
  have "put_at [] (i + 1) = Inr" by (simp add: fun_eq_iff)
  with PatchC outcome_patch [OF assms(1), of i "[x]"] assms(2) show ?thesis
    by (simp add: stream_putc_at_def and_then_assoc split_def)
next
  case (PatchW i w)
  with outcome_patch [OF assms(1), of i "bytes_w w"] assms(2) show ?thesis
    by (simp add: stream_putw_at_def and_then_assoc split_def)
next
  case (PatchL i l)
  with outcome_patch [OF assms(1), of i "bytes_l l"] assms(2) show ?thesis
    by (simp add: stream_putl_at_def and_then_assoc split_def)
next
  case (PatchQ i q)
  with outcome_patch [OF assms(1), of i "bytes_q q"] assms(2) show ?thesis
    by (simp add: stream_putq_at_def and_then_assoc split_def)
next
  case (Resize mem n)
  with assms(1) show ?thesis
    by (auto simp: stream_resize_def Let_def STREAM_VERIFY_SANE_def GETP_VALID_def ENDP_VALID_def
        stream_ok_def and_then_assoc not_less)
next
  case (SetEndp p)
  with assms(1) show ?thesis
    by (auto simp: stream_set_endp_def Let_def STREAM_VERIFY_SANE_def GETP_VALID_def ENDP_VALID_def stream_ok_def)
qed (insert assms outcome_put_field outcome_put_bytes,
    auto simp: stream_set_getp_def GETP_VALID_def stream_reset_def stream_ok_def)

text \<open>The streams a program can have: new ones, and what calls with meaningful arguments make of them.\<close>

inductive stream_reach :: "stream \<Rightarrow> bool" where
  reach_new: "stream_new mem n = Inr s \<Longrightarrow> stream_reach s"
| reach_call: "stream_reach s \<Longrightarrow> call_fits c s \<Longrightarrow> stream_exec c s = Inr s' \<Longrightarrow> stream_reach s'"

text \<open>C33: memory safety of the buffer. After whatever sequence of calls on a new stream, reads and writes at the positions of the stream
  or at a given one, moves, resizing and input, \<open>getp \<le> endp \<le> size\<close> holds, and no next call reads or writes outside the buffer:
  it returns if the bytes it takes are there (unread ones, room behind the written ones, or written ones at the given position), and is stopped by an
  assertion if they are not, before it accesses anything. The arguments are meaningful: no sum of a position and a size wraps
  around, and an array of the caller is as long as the call says.\<close>

theorem stream_calls_memory_safe:
  assumes "stream_reach s"
  shows "stream_ok s \<and> (\<forall>c. call_fits c s \<longrightarrow>
    (if room_for c s then \<exists>s'. stream_exec c s = Inr s' \<and> stream_ok s' else stream_exec c s = Inl AssertFailed))"
proof -
  have ok: "stream_ok s"
    using assms
  proof (induction rule: stream_reach.induct)
    case (reach_new mem n s)
    then show ?case by (auto simp: stream_new_def stream_ok_def and_then_Inr_iff)
  next
    case (reach_call s c s')
    then show ?case using stream_exec_outcome [OF reach_call.IH reach_call.hyps(2)] by simp
  qed
  have "if room_for c s then \<exists>s'. stream_exec c s = Inr s' \<and> stream_ok s' else stream_exec c s = Inl AssertFailed"
    if "call_fits c s" for c
    using stream_exec_outcome [OF ok that] by (cases "stream_exec c s") simp_all
  with ok show ?thesis by blast
qed

theorem stream_calls_memory_safe_witness:
  "\<exists>s s'. stream_new (\<lambda>_. 0) 4 = Inr s \<and> stream_exec (PutField (FW 5)) s = Inr s' \<and> stream_ok s' \<and>
     stream_exec (PatchL 0 7) s = Inl AssertFailed"
proof -
  obtain s where s: "stream_new (\<lambda>_. 0) 4 = Inr s" "room s = 4" "endp s = 0" by (simp add: stream_new_def room_def)
  have "call_fits (PutField (FW 5)) s" "room_for (PutField (FW 5)) s" "call_fits (PatchL 0 7) s" "\<not> room_for (PatchL 0 7) s"
    using s by simp_all
  with stream_calls_memory_safe [OF reach_new [OF s(1)]] s(1) show ?thesis by (metis (full_types))
qed

end
