(* ===== verification/OspfAuth.thy ===== *)
theory OspfAuth
  imports OspfExamin StreamProps RouteMap
begin

unbundle bit_operations_syntax

text \<open>
  Authentication of OSPF packets (\<^verbatim>\<open>ospfd/ospf_packet.c\<close>): the header a sender builds, the
  checksum, the simple password, the MD5 digest with its sequence number, and the check a receiver
  makes. An outgoing packet is a stream of \<^verbatim>\<open>StreamBuf\<close>, a received one the bytes from the
  OSPF header on.

  The message digest is the parameter \<open>md5\<close>: the theorems hold for every function whose values
  are 16 bytes long. The neighbours of an interface are a list in the order of their table.
\<close>

section \<open>Interfaces\<close>

record crypt_key =
  key_id :: u8
  auth_key :: "u8 list"

record ospf_nbr =
  nbr_router_id :: u32
  nbr_crypt_seqnum :: u32   \<comment> \<open>in network order, as received\<close>

record ospf_interface =
  oi_router_id :: u32
  oi_area_id :: u32
  oi_auth_type :: int          \<comment> \<open>\<open>OSPF_IF_PARAM (oi, auth_type)\<close>\<close>
  oi_area_auth_type :: int     \<comment> \<open>\<open>oi->area->auth_type\<close>\<close>
  oi_auth_simple :: "u8 list"
  oi_auth_crypt :: "crypt_key list"
  oi_crypt_seqnum :: u32
  oi_nbrs :: "ospf_nbr list"

definition OSPF_AUTH_NOTSET :: int where "OSPF_AUTH_NOTSET = -1"

definition ospf_auth_type :: "ospf_interface \<Rightarrow> int" where
  "ospf_auth_type oi =
     (let auth_type = (if oi_auth_type oi = OSPF_AUTH_NOTSET then oi_area_auth_type oi
                       else oi_auth_type oi)
      in if auth_type = uint OSPF_AUTH_CRYPTOGRAPHIC \<and> oi_auth_crypt oi = []
         then uint OSPF_AUTH_NULL else auth_type)"

fun ospf_crypt_key_lookup :: "crypt_key list \<Rightarrow> u8 \<Rightarrow> crypt_key option" where
  "ospf_crypt_key_lookup [] i = None"
| "ospf_crypt_key_lookup (ck # cks) i =
     (if key_id ck = i then Some ck else ospf_crypt_key_lookup cks i)"

text \<open>
  The lookup of a neighbour walks over the table of the interface. The table is only read here, and the neighbours are
  compared in the order of the walk: \<open>oi_nbrs\<close> lists them, and \<open>nbr_by_routerid\<close> is what the walk returns
  (lemma \<open>nbr_lookup_walks\<close>).
\<close>

fun routerid_walk :: "nat \<Rightarrow> u32 \<Rightarrow> nat option \<Rightarrow> ospf_nbr route_table \<Rightarrow> (ospf_nbr route_table \<times> ospf_nbr option) res" where
  "routerid_walk 0 i rn t = Inl Diverged"
| "routerid_walk (Suc fuel) i rn t =
     (case rn of
        None \<Rightarrow> Inr (t, None)
      | Some a \<Rightarrow> and_then (info_of a t) (\<lambda>info.
          let next = and_then (route_next t a) (\<lambda>(t, rn). routerid_walk fuel i rn t)
          in case info of
               None \<Rightarrow> next
             | Some nbr \<Rightarrow> if nbr_router_id nbr = i then and_then (route_unlock_node a t) (\<lambda>t. Inr (t, Some nbr)) else next))"

definition ospf_nbr_lookup_by_routerid :: "ospf_nbr route_table \<Rightarrow> u32 \<Rightarrow> (ospf_nbr route_table \<times> ospf_nbr option) res" where
  "ospf_nbr_lookup_by_routerid nbrs i =
     and_then (route_top nbrs) (\<lambda>(t, rn). routerid_walk (Suc (RouteTable.walk_fuel t)) i rn t)"

fun nbr_by_routerid :: "ospf_nbr list \<Rightarrow> u32 \<Rightarrow> ospf_nbr option" where
  "nbr_by_routerid [] i = None"
| "nbr_by_routerid (nbr # nbrs) i =
     (if nbr_router_id nbr = i then Some nbr else nbr_by_routerid nbrs i)"

text \<open>\<open>nbr->crypt_seqnum = ...\<close> on the neighbour the lookup returned.\<close>

fun set_nbr_seqnum :: "ospf_nbr list \<Rightarrow> u32 \<Rightarrow> u32 \<Rightarrow> ospf_nbr list" where
  "set_nbr_seqnum [] i q = []"
| "set_nbr_seqnum (nbr # nbrs) i q =
     (if nbr_router_id nbr = i then nbr\<lparr>nbr_crypt_seqnum := q\<rparr> # nbrs
      else nbr # set_nbr_seqnum nbrs i q)"

section \<open>Sending\<close>

definition on_data :: "(u8 list \<Rightarrow> u8 list res) \<Rightarrow> stream \<Rightarrow> stream res" where
  "on_data f s = and_then (f (st_data s)) (\<lambda>d. Inr (s\<lparr>st_data := d\<rparr>))"

definition header_bytes :: "u8 \<Rightarrow> ospf_interface \<Rightarrow> u8 list \<Rightarrow> u8 list res" where
  "header_bytes type oi d =
     and_then (wr8 0 OSPF_VERSION d) (\<lambda>d.
     and_then (wr8 1 type d) (\<lambda>d.
     and_then (wr_bytes 4 (store32 (oi_router_id oi)) d) (\<lambda>d.
     and_then (wr16 12 0 d) (\<lambda>d.
     and_then (wr_bytes 8 (store32 (oi_area_id oi)) d) (\<lambda>d.
     and_then (wr16 14 (htons (of_int (ospf_auth_type oi))) d) (\<lambda>d.
       wr_bytes 16 (replicate OSPF_AUTH_SIMPLE_SIZE 0) d))))))"

definition ospf_make_header :: "u8 \<Rightarrow> ospf_interface \<Rightarrow> stream \<Rightarrow> stream res" where
  "ospf_make_header type oi s =
     and_then (on_data (header_bytes type oi) s) (\<lambda>s.
       stream_forward_endp s (of_nat OSPF_HEADER_SIZE))"

definition ospf_make_auth :: "ospf_interface \<Rightarrow> u8 list \<Rightarrow> u8 list res" where
  "ospf_make_auth oi d =
     (if ospf_auth_type oi = uint OSPF_AUTH_SIMPLE
      then wr_bytes 16 (take OSPF_AUTH_SIMPLE_SIZE (oi_auth_simple oi)) d
      else if ospf_auth_type oi = uint OSPF_AUTH_CRYPTOGRAPHIC
      then and_then (wr16 16 0 d) (\<lambda>d.
           and_then (wr8 18 (if oi_auth_crypt oi = [] then 0 else key_id (last (oi_auth_crypt oi))) d)
             (\<lambda>d. wr8 19 (of_nat OSPF_AUTH_MD5_SIZE) d))
      else Inr d)"

definition ospf_fill_header :: "ospf_interface \<Rightarrow> stream \<Rightarrow> u16 \<Rightarrow> stream res" where
  "ospf_fill_header oi s len =
     on_data (\<lambda>d.
       and_then (wr16 2 (htons len) d) (\<lambda>d.
       and_then (rd16 d 14) (\<lambda>auth_type.
       and_then (if ntohs auth_type \<noteq> OSPF_AUTH_CRYPTOGRAPHIC
                 then and_then (in_cksum d (uint len)) (\<lambda>c. wr16 12 c d)
                 else wr16 12 0 d) (\<lambda>d.
         ospf_make_auth oi d)))) s"

record ospf_packet =
  op_s :: stream
  op_length :: u16

text \<open>
  \<open>ospf_make_md5_digest\<close> at the time \<open>t\<close>; it returns the number of bytes added.
\<close>

definition next_seqnum :: "u32 \<Rightarrow> ospf_interface \<Rightarrow> ospf_interface" where
  "next_seqnum t oi =
     (if t > oi_crypt_seqnum oi then oi\<lparr>oi_crypt_seqnum := t\<rparr>
      else oi\<lparr>oi_crypt_seqnum := oi_crypt_seqnum oi + 1\<rparr>)"

definition ospf_make_md5_digest ::
    "(u8 list \<Rightarrow> u8 list) \<Rightarrow> u32 \<Rightarrow> ospf_interface \<Rightarrow> ospf_packet \<Rightarrow>
     (ospf_interface \<times> ospf_packet \<times> nat) res" where
  "ospf_make_md5_digest md5 t oi op =
     and_then (rd16 (st_data (op_s op)) 14) (\<lambda>auth_type.
       if ntohs auth_type \<noteq> OSPF_AUTH_CRYPTOGRAPHIC then Inr (oi, op, 0)
       else let oi = next_seqnum t oi
         in and_then (on_data (wr_bytes 20 (store32 (htonl (oi_crypt_seqnum oi)))) (op_s op)) (\<lambda>s.
            let key = (if oi_auth_crypt oi = [] then replicate OSPF_AUTH_MD5_SIZE 0
                       else take OSPF_AUTH_MD5_SIZE (auth_key (last (oi_auth_crypt oi))))
            in and_then (rd16 (st_data s) 2) (\<lambda>len.
               if unat (ntohs len) > length (st_data s) then Inl OutOfBounds
               else let digest = md5 (take (unat (ntohs len)) (st_data s) @ key)
                 in and_then (stream_put s (Some digest) (of_nat OSPF_AUTH_MD5_SIZE)) (\<lambda>s.
                      Inr (oi, \<lparr>op_s = s, op_length = ntohs len + of_nat OSPF_AUTH_MD5_SIZE\<rparr>,
                           OSPF_AUTH_MD5_SIZE)))))"

section \<open>Receiving\<close>

text \<open>The received packet is changed: the check clears the fields it leaves out of the sum.\<close>

definition ospf_check_sum :: "u8 list \<Rightarrow> (u8 list \<times> bool) res" where
  "ospf_check_sum p =
     and_then (wr_bytes 16 (replicate OSPF_AUTH_SIMPLE_SIZE 0) p) (\<lambda>p.
     and_then (rd16 p 12) (\<lambda>checksum.
     and_then (wr16 12 0 p) (\<lambda>p.
     and_then (rd16 p 2) (\<lambda>len.
     and_then (in_cksum p (uint (ntohs len))) (\<lambda>ret.
       Inr (p, ret = checksum))))))"

definition rd_bytes :: "nat \<Rightarrow> nat \<Rightarrow> u8 list \<Rightarrow> u8 list res" where
  "rd_bytes i n p = (if i + n \<le> length p then Inr (window i n p) else Inl OutOfBounds)"

definition ospf_check_md5_digest ::
    "(u8 list \<Rightarrow> u8 list) \<Rightarrow> ospf_interface \<Rightarrow> u8 list \<Rightarrow> (ospf_interface \<times> bool) res" where
  "ospf_check_md5_digest md5 oi p =
     and_then (rd16 p 2) (\<lambda>len.
     and_then (rd8 p 18) (\<lambda>kid.
     and_then (rd_bytes 4 4 p) (\<lambda>rid.
     and_then (rd_bytes 20 4 p) (\<lambda>sq.
       let n = unat (ntohs len); router_id = load32 rid; seqnum = load32 sq
       in case ospf_crypt_key_lookup (oi_auth_crypt oi) kid of
            None \<Rightarrow> Inr (oi, False)
          | Some ck \<Rightarrow>
             let nbr = nbr_by_routerid (oi_nbrs oi) router_id
             in if (case nbr of None \<Rightarrow> False | Some x \<Rightarrow> ntohl (nbr_crypt_seqnum x) > ntohl seqnum)
                then Inr (oi, False)
                else and_then (rd_bytes 0 n p) (\<lambda>body.
                     and_then (rd_bytes n OSPF_AUTH_MD5_SIZE p) (\<lambda>theirs.
                       if theirs \<noteq> md5 (body @ take OSPF_AUTH_MD5_SIZE (auth_key ck))
                       then Inr (oi, False)
                       else Inr (oi\<lparr>oi_nbrs := set_nbr_seqnum (oi_nbrs oi) router_id seqnum\<rparr>,
                                 True)))))))"

definition ospf_check_auth ::
    "(u8 list \<Rightarrow> u8 list) \<Rightarrow> ospf_interface \<Rightarrow> u8 list \<Rightarrow> (ospf_interface \<times> u8 list \<times> bool) res" where
  "ospf_check_auth md5 oi p =
     and_then (rd16 p 14) (\<lambda>auth_type.
       let pkt_auth_type = ntohs auth_type; iface_auth_type = of_int (ospf_auth_type oi)
       in if pkt_auth_type = OSPF_AUTH_NULL
          then if OSPF_AUTH_NULL \<noteq> iface_auth_type then Inr (oi, p, False)
               else and_then (ospf_check_sum p) (\<lambda>(p, r). Inr (oi, p, r))
          else if pkt_auth_type = OSPF_AUTH_SIMPLE
          then if OSPF_AUTH_SIMPLE \<noteq> iface_auth_type then Inr (oi, p, False)
               else and_then (rd_bytes 16 OSPF_AUTH_SIMPLE_SIZE p) (\<lambda>pw.
                 if take OSPF_AUTH_SIMPLE_SIZE (oi_auth_simple oi) \<noteq> pw then Inr (oi, p, False)
                 else and_then (ospf_check_sum p) (\<lambda>(p, r). Inr (oi, p, r)))
          else if pkt_auth_type = OSPF_AUTH_CRYPTOGRAPHIC
          then if OSPF_AUTH_CRYPTOGRAPHIC \<noteq> iface_auth_type then Inr (oi, p, False)
               else and_then (rd16 p 12) (\<lambda>checksum.
                 if checksum \<noteq> 0 then Inr (oi, p, False)
                 else and_then (rd8 p 18) (\<lambda>kid.
                   if oi_auth_crypt oi = [] then Inl NullDeref
                   else if kid \<noteq> key_id (last (oi_auth_crypt oi)) then Inr (oi, p, False)
                   else and_then (ospf_check_md5_digest md5 oi p) (\<lambda>(oi, r). Inr (oi, p, r))))
          else Inr (oi, p, False))"

section \<open>Header bytes\<close>

text \<open>The 24 bytes of a header, multi-byte fields as they lie in memory.\<close>

definition header :: "u8 \<Rightarrow> u8 \<Rightarrow> u8 \<Rightarrow> u32 \<Rightarrow> u32 \<Rightarrow> u16 \<Rightarrow> u16 \<Rightarrow> u8 list \<Rightarrow> u8 list" where
  "header type l1 l0 rid area cks auth_type auth =
     [2, type, l1, l0] @ store32 rid @ store32 area @
     [ucast cks, ucast (drop_bit 8 cks), ucast (drop_bit 8 auth_type), ucast auth_type] @ auth"

lemma length_header [simp]: "length (header ty l1 l0 rid area cks at auth) = 16 + length auth"
  by (simp add: header_def store32_def)

lemma ucast_htons [simp]:
  "ucast (htons w) = (ucast (drop_bit 8 w) :: u8)" "ucast (drop_bit 8 (htons w)) = (ucast w :: u8)"
  by (simp_all add: htons_def)

lemma explicit_24:
  assumes "24 \<le> length d"
  obtains a b c e a1 a2 a3 a4 a5 a6 a7 a8 a9 a10 a11 a12 a13 a14 a15 a16 a17 a18 a19 a20 r where
    "d = [a, b, c, e, a1, a2, a3, a4, a5, a6, a7, a8, a9, a10, a11, a12, a13, a14, a15, a16, a17,
          a18, a19, a20] @ r"
proof -
  obtain h r where "d = h @ r" "length h = 24"
    using assms append_take_drop_id [of 24 d] by (metis length_take min.absorb2)
  then show thesis
    using that by (auto simp: eval_nat_numeral length_Suc_conv)
qed

lemmas header_eval = wr_bytes_def wr16_def wr8_def rd16_def rd8_def header_def store32_def
  OSPF_VERSION_def ospf_sizes

lemma header_bytes_eq:
  assumes "24 \<le> length d"
  shows "header_bytes ty oi d =
    Inr (header ty (d ! 2) (d ! 3) (oi_router_id oi) (oi_area_id oi) 0 (of_int (ospf_auth_type oi))
           (replicate 8 0) @ drop 24 d)"
  using assms by (elim explicit_24) (simp add: header_bytes_def header_eval)


lemma header_access [simp]:
  "rd16 (header ty l1 l0 rid area cks at auth @ r) 2 = Inr (load16 l1 l0)"
  "rd16 (header ty l1 l0 rid area cks at auth @ r) 12 = Inr cks"
  "rd16 (header ty l1 l0 rid area cks at auth @ r) 14 = Inr (htons at)"
  "wr16 2 w (header ty l1 l0 rid area cks at auth @ r) =
     Inr (header ty (ucast w) (ucast (drop_bit 8 w)) rid area cks at auth @ r)"
  "wr16 12 w (header ty l1 l0 rid area cks at auth @ r) = Inr (header ty l1 l0 rid area w at auth @ r)"
  by (simp_all add: header_eval htons_def)

lemma rd_router_id [simp]:
  "rd_bytes 4 4 (header ty l1 l0 rid area cks at auth @ r) = Inr (store32 rid)"
  by (simp add: rd_bytes_def window_def header_eval)

lemma header_auth [simp]:
  assumes "length auth = 8"
  shows "length xs = 8 \<Longrightarrow>
      wr_bytes 16 xs (header ty l1 l0 rid area cks at auth @ r) = Inr (header ty l1 l0 rid area cks at xs @ r)"
    and "rd_bytes 16 8 (header ty l1 l0 rid area cks at auth @ r) = Inr auth"
  using assms by (simp_all add: wr_bytes_def rd_bytes_def window_def header_def store32_def)

lemma load32_store32 [simp]: "load32 (store32 w) = w"
  using load_store32 [of w "[]"] by simp

text \<open>Building a packet up to its body.\<close>

lemma make_header_written:
  assumes "stream_ok s" "endp s = 0" "24 \<le> room s"
  shows "\<exists>s' l1 l0. ospf_make_header ty oi s = Inr s' \<and> stream_ok s' \<and> room s' = room s - 24 \<and>
    written s' = header ty l1 l0 (oi_router_id oi) (oi_area_id oi) 0 (of_int (ospf_auth_type oi))
                   (replicate 8 0)"
proof -
  have d: "24 \<le> length (st_data s)" "unat (st_size s) = length (st_data s)" "getp s = 0"
    using assms by (auto simp: stream_ok_nat room_def unat_eq_zero)
  let ?h = "header ty (st_data s ! 2) (st_data s ! 3) (oi_router_id oi) (oi_area_id oi) 0
    (of_int (ospf_auth_type oi)) (replicate 8 0)"
  let ?s = "s\<lparr>st_data := ?h @ drop 24 (st_data s), endp := 24\<rparr>"
  have "24 \<le> st_size s"
    using d by (simp add: word_le_nat_alt)
  then have "ospf_make_header ty oi s = Inr ?s"
    using assms d
    by (simp add: ospf_make_header_def on_data_def header_bytes_eq stream_forward_endp_def
        STREAM_VERIFY_SANE_def GETP_VALID_def ENDP_VALID_def ospf_sizes)
  moreover have "stream_ok ?s" "room ?s = room s - 24" "written ?s = ?h"
    using d assms by (simp_all add: stream_ok_nat room_def written_def)
  ultimately show ?thesis by blast
qed

lemma stream_put_fits:
  assumes "stream_ok s" "length bs \<le> room s"
  shows "\<exists>s'. stream_put s (Some bs) (of_nat (length bs)) = Inr s' \<and> stream_ok s' \<and>
    written s' = written s @ bs \<and> room s' = room s - length bs"
proof -
  define k where "k = CHECK_SIZE s (of_nat (length bs))"
  have sz: "unat (endp s) + length bs \<le> unat (st_size s)" "unat (st_size s) < 2 ^ 64"
    using assms unsigned_less [of "st_size s", where ?'a = nat] by (auto simp: room_def stream_ok_nat)
  then have "length bs < 2 ^ 64" "unat (endp s) + length bs < 2 ^ 64"
    by linarith+
  moreover from this have n: "unat (of_nat (length bs) :: u64) = length bs"
    by (simp add: unat_of_nat)
  ultimately have k: "unat k = length bs"
    using CHECK_SIZE_nat [of s "of_nat (length bs)"] assms sz by (simp add: k_def)
  then have "k = of_nat (length bs)" "\<not> STREAM_WRITEABLE s < k"
    using assms by (simp_all add: word_unat_eq_iff n word_less_nat_alt writeable_nat)
  moreover have "STREAM_VERIFY_SANE s = Inr ()"
    using assms(1) by (simp add: STREAM_VERIFY_SANE_def GETP_VALID_def ENDP_VALID_def stream_ok_def)
  moreover obtain s1 where "data_write s (endp s) bs = Inr s1" "endp s1 = endp s"
    "stream_ok (s1\<lparr>endp := endp s + of_nat (length bs)\<rparr>)"
    "written (s1\<lparr>endp := endp s + of_nat (length bs)\<rparr>) = written s @ bs"
    "room (s1\<lparr>endp := endp s + of_nat (length bs)\<rparr>) = room s - length bs"
    using data_write_end [OF assms] by (auto simp: Let_def)
  ultimately show ?thesis
    using k by (simp add: stream_put_def Let_def flip: k_def)
qed


lemma in_cksum_prefix:
  assumes "n \<le> length xs" "n \<le> 131072"
  shows "in_cksum (xs @ ys) (int n) = in_cksum xs (int n)"
  using assms in_cksum_words [of n xs] in_cksum_words [of n "xs @ ys"] by simp

lemma written_split: "stream_ok s \<Longrightarrow> st_data s = written s @ drop (unat (endp s)) (st_data s)"
  by (simp add: written_def)

text \<open>A change of the written part alone.\<close>

lemma on_data_written:
  assumes s: "stream_ok s" "written s = w"
    and f: "\<And>r. f (w @ r) = Inr (w' r @ r)" "\<And>r. length (w' r) = length w"
  shows "\<exists>s' r. on_data f s = Inr s' \<and> stream_ok s' \<and> written s' = w' r \<and> room s' = room s \<and>
    st_data s' = w' r @ r"
proof -
  let ?r = "drop (unat (endp s)) (st_data s)"
  have d: "st_data s = w @ ?r"
    using written_split [OF s(1)] s(2) by simp
  have l: "length w = unat (endp s)"
    using length_written [OF s(1)] s(2) by simp
  let ?s = "s\<lparr>st_data := w' ?r @ ?r\<rparr>"
  have "on_data f s = Inr ?s"
    using f(1) [of ?r] d by (simp add: on_data_def)
  moreover have "stream_ok ?s" "written ?s = w' ?r" "room ?s = room s"
    using s(1) f(2) l by (simp_all add: stream_ok_nat written_def room_def)
  ultimately show ?thesis
    by (intro exI [of _ ?s] exI [of _ ?r]) simp
qed

text \<open>The packet a sender has in its stream when \<open>ospf_fill_header\<close> is done; the checksum is that of
  the packet with a cleared checksum and authentication field.\<close>

definition auth_field :: "ospf_interface \<Rightarrow> u8 list" where
  "auth_field oi =
     (if ospf_auth_type oi = uint OSPF_AUTH_SIMPLE
      then take OSPF_AUTH_SIMPLE_SIZE (oi_auth_simple oi)
      else if ospf_auth_type oi = uint OSPF_AUTH_CRYPTOGRAPHIC
      then [0, 0, if oi_auth_crypt oi = [] then 0 else key_id (last (oi_auth_crypt oi)), 16, 0, 0, 0, 0]
      else replicate 8 0)"

lemma make_auth_eq:
  assumes "ospf_auth_type oi = uint OSPF_AUTH_SIMPLE \<Longrightarrow> 8 \<le> length (oi_auth_simple oi)"
  shows "ospf_make_auth oi (header ty l1 l0 rid area cks at (replicate 8 0) @ r) =
    Inr (header ty l1 l0 rid area cks at (auth_field oi) @ r)"
  using assms
  by (simp add: ospf_make_auth_def auth_field_def ospf_sizes min_def)
    (simp add: header_eval eval_nat_numeral)

definition sent_header :: "ospf_interface \<Rightarrow> u8 \<Rightarrow> u16 \<Rightarrow> u16 \<Rightarrow> u16 \<Rightarrow> u8 list \<Rightarrow> u8 list" where
  "sent_header oi ty n = header ty (ucast (drop_bit 8 n)) (ucast n) (oi_router_id oi) (oi_area_id oi)"

lemma fill_header_bytes:
  fixes n :: u16
  assumes n: "unat n = 24 + length body" and at: "at = of_int (ospf_auth_type oi)"
    and pw: "ospf_auth_type oi = uint OSPF_AUTH_SIMPLE \<Longrightarrow> 8 \<le> length (oi_auth_simple oi)"
    and s: "stream_ok s"
      "written s = header ty l1 l0 (oi_router_id oi) (oi_area_id oi) 0 at (replicate 8 0) @ body"
  shows "\<exists>s' c. ospf_fill_header oi s n = Inr s' \<and> stream_ok s' \<and> room s' = room s \<and>
    written s' = sent_header oi ty n c at (auth_field oi) @ body \<and>
    (if at = OSPF_AUTH_CRYPTOGRAPHIC then c = 0
     else in_cksum (sent_header oi ty n 0 at (replicate 8 0) @ body) (uint n) = Inr c)"
proof -
  let ?h = "\<lambda>c. sent_header oi ty n c at"
  have n': "unat n \<le> 131072"
    using unsigned_less [of n, where ?'a = nat] by simp
  have len: "length (?h 0 (replicate 8 0) @ body) = unat n"
    by (simp add: sent_header_def n)
  obtain k where k: "in_cksum (?h 0 (replicate 8 0) @ body) (uint n) = Inr k"
    using in_cksum_words [of "unat n" "?h 0 (replicate 8 0) @ body"] len n' by simp
  have k': "in_cksum (?h 0 (replicate 8 0) @ body @ r) (uint n) = Inr k" for r
    using in_cksum_prefix [of "unat n" "?h 0 (replicate 8 0) @ body" r] len n' k by simp
  let ?c = "if at = OSPF_AUTH_CRYPTOGRAPHIC then 0 else k"
  have af: "length (auth_field oi) = 8"
    using pw by (simp add: auth_field_def ospf_sizes)
  have "\<exists>s' r. ospf_fill_header oi s n = Inr s' \<and> stream_ok s' \<and>
      written s' = ?h ?c (auth_field oi) @ body \<and> room s' = room s \<and>
      st_data s' = (?h ?c (auth_field oi) @ body) @ r"
    unfolding ospf_fill_header_def
    by (rule on_data_written [OF s])
      (simp_all add: make_auth_eq pw af k' [unfolded sent_header_def] sent_header_def)
  then show ?thesis
    using k by (cases "at = OSPF_AUTH_CRYPTOGRAPHIC") auto
qed

lemma ntohs_bytes [simp]: "ntohs (load16 (ucast (drop_bit 8 n)) (ucast n)) = n"
  by (simp add: htons_def)

lemma rd16_type_written:
  assumes "stream_ok s" "written s = sent_header oi ty n c at auth @ r"
  shows "rd16 (st_data s) 14 = Inr (htons at)"
  using written_split [OF assms(1)] assms(2) by (metis append.assoc header_access(3) sent_header_def)

definition md5_field :: "ospf_interface \<Rightarrow> u32 \<Rightarrow> u8 list" where
  "md5_field oi q =
     [0, 0, if oi_auth_crypt oi = [] then 0 else key_id (last (oi_auth_crypt oi)), 16] @
     store32 (htonl q)"

lemma length_md5_field [simp]: "length (md5_field oi q) = 8"
  by (simp add: md5_field_def store32_def)

lemma make_md5_written:
  fixes n :: u16
  assumes n: "unat n = 24 + length body" and md5: "\<And>x. length (md5 x) = 16"
    and s: "stream_ok (op_s op)" "16 \<le> room (op_s op)"
      "written (op_s op) = sent_header oi ty n 0 OSPF_AUTH_CRYPTOGRAPHIC (auth_field oi) @ body"
    and oi: "ospf_auth_type oi = uint OSPF_AUTH_CRYPTOGRAPHIC" "oi_auth_crypt oi \<noteq> []"
    and q: "q = oi_crypt_seqnum (next_seqnum t oi)"
    and p: "p = sent_header oi ty n 0 OSPF_AUTH_CRYPTOGRAPHIC (md5_field oi q) @ body"
  shows "\<exists>op' k. ospf_make_md5_digest md5 t oi op = Inr (next_seqnum t oi, op', k) \<and>
    written (op_s op') = p @ md5 (p @ take 16 (auth_key (last (oi_auth_crypt oi))))"
proof -
  have keys: "oi_auth_crypt (next_seqnum t oi) = oi_auth_crypt oi"
    by (simp add: next_seqnum_def)
  have "\<exists>s' r. on_data (wr_bytes 20 (store32 (htonl q))) (op_s op) = Inr s' \<and> stream_ok s' \<and>
      written s' = p \<and> room s' = room (op_s op) \<and> st_data s' = p @ r"
    by (rule on_data_written [OF s(1,3)])
      (simp_all add: p oi sent_header_def auth_field_def md5_field_def header_eval
        OSPF_AUTH_SIMPLE_def OSPF_AUTH_CRYPTOGRAPHIC_def)
  then obtain s' r where s': "on_data (wr_bytes 20 (store32 (htonl q))) (op_s op) = Inr s'"
      "stream_ok s'" "written s' = p" "room s' = room (op_s op)" "st_data s' = p @ r"
    by blast
  let ?d = "md5 (p @ take 16 (auth_key (last (oi_auth_crypt oi))))"
  have len: "length p = unat n"
    by (simp add: p sent_header_def n)
  have 2: "rd16 (st_data s') 2 = Inr (load16 (ucast (drop_bit 8 n)) (ucast n))"
    by (simp add: s'(5) p sent_header_def)
  obtain s2 where "stream_put s' (Some ?d) (of_nat (length ?d)) = Inr s2" "written s2 = p @ ?d"
    using stream_put_fits [OF s'(2), of ?d] s s' md5 by auto
  then show ?thesis
    using rd16_type_written [OF s(1,3)] s'(1) s'(5) 2 oi keys len
    by (auto simp: ospf_make_md5_digest_def Let_def q md5 ospf_sizes)
qed


lemma check_sum_accepts:
  assumes "length auth = 8"
    and "in_cksum (sent_header oi ty n 0 at (replicate 8 0) @ body) (uint n) = Inr c"
  shows "ospf_check_sum (sent_header oi ty n c at auth @ body) =
    Inr (sent_header oi ty n 0 at (replicate 8 0) @ body, True)"
  using assms by (simp add: ospf_check_sum_def sent_header_def ospf_sizes)

lemma key_lookup_last:
  "cks \<noteq> [] \<Longrightarrow> distinct (map key_id cks) \<Longrightarrow>
   ospf_crypt_key_lookup cks (key_id (last cks)) = Some (last cks)"
  by (induction cks) (auto simp: image_iff dest: last_in_set)

lemma check_md5_accepts:
  fixes n :: u16
  assumes n: "unat n = 24 + length body" and md5: "\<And>x. length (md5 x) = 16"
    and p: "p = sent_header oi ty n 0 OSPF_AUTH_CRYPTOGRAPHIC (md5_field oi q) @ body"
    and keys: "oi_auth_crypt ri = oi_auth_crypt oi" "oi_auth_crypt oi \<noteq> []"
      "distinct (map key_id (oi_auth_crypt oi))"
    and fresh: "\<And>x. nbr_by_routerid (oi_nbrs ri) (oi_router_id oi) = Some x \<Longrightarrow>
      ntohl (nbr_crypt_seqnum x) \<le> q"
  shows "\<exists>ri'. ospf_check_md5_digest md5 ri
    (p @ md5 (p @ take 16 (auth_key (last (oi_auth_crypt oi))))) = Inr (ri', True)"
proof -
  let ?r = "md5 (p @ take 16 (auth_key (last (oi_auth_crypt oi))))"
  have len: "length p = unat n"
    by (simp add: p sent_header_def n)
  have rd: "rd16 (p @ ?r) 2 = Inr (load16 (ucast (drop_bit 8 n)) (ucast n))"
      "rd_bytes 4 4 (p @ ?r) = Inr (store32 (oi_router_id oi))"
    by (simp_all add: p sent_header_def)
  have kid: "rd8 (p @ ?r) 18 = Inr (key_id (last (oi_auth_crypt oi)))"
      "rd_bytes 20 4 (p @ ?r) = Inr (store32 (htonl q))"
    using keys(2) by (simp_all add: p sent_header_def md5_field_def header_eval rd_bytes_def window_def)
  have body: "rd_bytes 0 (unat n) (p @ ?r) = Inr p" "rd_bytes (unat n) 16 (p @ ?r) = Inr ?r"
    by (simp_all add: rd_bytes_def window_def len [symmetric] md5)
  show ?thesis
    using fresh
    by (auto simp: ospf_check_md5_digest_def rd kid body Let_def keys key_lookup_last ospf_sizes
        not_less split: option.splits)
qed

section \<open>Properties of the authentication\<close>

text \<open>What a sender does with a packet: header, body, lengths and authentication, digest.\<close>

definition ospf_send_packet ::
    "(u8 list \<Rightarrow> u8 list) \<Rightarrow> u32 \<Rightarrow> u8 \<Rightarrow> ospf_interface \<Rightarrow> stream \<Rightarrow> u8 list \<Rightarrow>
     (ospf_interface \<times> ospf_packet \<times> nat) res" where
  "ospf_send_packet md5 t ty oi s body =
     and_then (ospf_make_header ty oi s) (\<lambda>s.
     and_then (stream_put s (Some body) (of_nat (length body))) (\<lambda>s.
     and_then (ospf_fill_header oi s (of_nat (24 + length body))) (\<lambda>s.
       ospf_make_md5_digest md5 t oi \<lparr>op_s = s, op_length = of_nat (24 + length body)\<rparr>)))"

text \<open>Two interfaces with the same kind of authentication and the same secrets.\<close>

definition same_auth :: "ospf_interface \<Rightarrow> ospf_interface \<Rightarrow> bool" where
  "same_auth oi ri \<longleftrightarrow>
     ospf_auth_type oi \<in> {0, 1, 2} \<and> ospf_auth_type ri = ospf_auth_type oi \<and>
     (ospf_auth_type oi = 1 \<longrightarrow> 8 \<le> length (oi_auth_simple oi) \<and>
        take 8 (oi_auth_simple ri) = take 8 (oi_auth_simple oi)) \<and>
     (ospf_auth_type oi = 2 \<longrightarrow> oi_auth_crypt ri = oi_auth_crypt oi \<and>
        distinct (map key_id (oi_auth_crypt oi)))"

lemma crypt_has_keys: "ospf_auth_type oi = 2 \<Longrightarrow> oi_auth_crypt oi \<noteq> []"
  by (auto simp: ospf_auth_type_def Let_def OSPF_AUTH_NULL_def OSPF_AUTH_CRYPTOGRAPHIC_def split: if_splits)

lemmas auth_codes = OSPF_AUTH_NULL_def OSPF_AUTH_SIMPLE_def OSPF_AUTH_CRYPTOGRAPHIC_def

lemma check_auth_accepts_sum:
  assumes same: "same_auth oi ri" "ospf_auth_type oi \<noteq> 2"
    and c: "in_cksum (sent_header oi ty n 0 (of_int (ospf_auth_type oi)) (replicate 8 0) @ body) (uint n)
      = Inr c"
  shows "\<exists>p. ospf_check_auth md5 ri
    (sent_header oi ty n c (of_int (ospf_auth_type oi)) (auth_field oi) @ body) = Inr (ri, p, True)"
proof -
  have "length (auth_field oi) = 8"
    using same by (auto simp: same_auth_def auth_field_def ospf_sizes auth_codes)
  then have sum: "ospf_check_sum (sent_header oi ty n c (of_int (ospf_auth_type oi)) (auth_field oi) @ body) =
      Inr (sent_header oi ty n 0 (of_int (ospf_auth_type oi)) (replicate 8 0) @ body, True)"
    using c by (rule check_sum_accepts)
  have "ospf_auth_type oi = 0 \<or> ospf_auth_type oi = 1"
    using same by (auto simp: same_auth_def)
  then show ?thesis
    using same sum \<open>length (auth_field oi) = 8\<close>
    by (elim disjE)
      (simp_all add: ospf_check_auth_def sent_header_def same_auth_def auth_field_def auth_codes ospf_sizes Let_def)
qed


lemma check_auth_accepts_md5:
  fixes n :: u16
  assumes n: "unat n = 24 + length body" and md5: "\<And>x. length (md5 x) = 16"
    and same: "same_auth oi ri" "ospf_auth_type oi = 2"
    and p: "p = sent_header oi ty n 0 OSPF_AUTH_CRYPTOGRAPHIC (md5_field oi q) @ body"
    and fresh: "\<And>x. nbr_by_routerid (oi_nbrs ri) (oi_router_id oi) = Some x \<Longrightarrow>
      ntohl (nbr_crypt_seqnum x) \<le> q"
  shows "\<exists>ri' p'. ospf_check_auth md5 ri
    (p @ md5 (p @ take 16 (auth_key (last (oi_auth_crypt oi))))) = Inr (ri', p', True)"
proof -
  let ?r = "md5 (p @ take 16 (auth_key (last (oi_auth_crypt oi))))"
  have keys: "oi_auth_crypt ri = oi_auth_crypt oi" "oi_auth_crypt oi \<noteq> []"
      "distinct (map key_id (oi_auth_crypt oi))"
    using same crypt_has_keys [OF same(2)] by (simp_all add: same_auth_def)
  have rd: "rd16 (p @ ?r) 14 = Inr (htons OSPF_AUTH_CRYPTOGRAPHIC)" "rd16 (p @ ?r) 12 = Inr 0"
    by (simp_all add: p sent_header_def)
  have kid: "rd8 (p @ ?r) 18 = Inr (key_id (last (oi_auth_crypt oi)))"
    using keys(2) by (simp add: p sent_header_def md5_field_def header_eval)
  have ty: "of_int (ospf_auth_type ri) = OSPF_AUTH_CRYPTOGRAPHIC"
      "OSPF_AUTH_CRYPTOGRAPHIC \<noteq> OSPF_AUTH_NULL" "OSPF_AUTH_CRYPTOGRAPHIC \<noteq> OSPF_AUTH_SIMPLE"
    using same by (simp_all add: same_auth_def auth_codes)
  obtain ri' where "ospf_check_md5_digest md5 ri (p @ ?r) = Inr (ri', True)"
    using check_md5_accepts [where ?md5.0 = md5, OF n _ p keys] md5 fresh by blast
  then show ?thesis
    by (simp add: ospf_check_auth_def rd kid ty keys)
qed

text \<open>C25: a packet that one router builds and sends is accepted by the authentication check of a
  neighbour that is configured with the same kind of authentication and the same secrets: without
  authentication, with a simple password, and with MD5 unless the neighbour has seen a higher
  sequence number. Nothing in building and checking it fails.\<close>

theorem ospf_auth_roundtrip:
  assumes s: "stream_ok s" "endp s = 0" "24 + length body + 16 \<le> room s"
    and len: "24 + length body < 65536" and md5: "\<And>x. length (md5 x) = 16"
    and same: "same_auth oi ri"
    and fresh: "\<And>x. ospf_auth_type oi = uint OSPF_AUTH_CRYPTOGRAPHIC \<Longrightarrow> nbr_by_routerid (oi_nbrs ri) (oi_router_id oi) = Some x \<Longrightarrow>
      ntohl (nbr_crypt_seqnum x) \<le> oi_crypt_seqnum (next_seqnum t oi)"
  shows "\<exists>oi' op k ri' p'. ospf_send_packet md5 t ty oi s body = Inr (oi', op, k) \<and>
    ospf_check_auth md5 ri (written (op_s op)) = Inr (ri', p', True)"
proof -
  define n :: u16 where "n = of_nat (24 + length body)"
  have n: "unat n = 24 + length body"
    unfolding n_def unat_of_nat using len by simp
  let ?at = "of_int (ospf_auth_type oi) :: u16"
  obtain s1 l1 l0 where s1: "ospf_make_header ty oi s = Inr s1" "stream_ok s1" "room s1 = room s - 24"
    "written s1 = header ty l1 l0 (oi_router_id oi) (oi_area_id oi) 0 ?at (replicate 8 0)"
    using make_header_written [of s ty oi] s by auto
  obtain s2 where s2: "stream_put s1 (Some body) (of_nat (length body)) = Inr s2" "stream_ok s2"
    "written s2 = written s1 @ body" "room s2 = room s1 - length body"
    using stream_put_fits [OF s1(2), of body] s1(3) s(3) by force
  have pw: "8 \<le> length (oi_auth_simple oi)" if "ospf_auth_type oi = uint OSPF_AUTH_SIMPLE"
    using that same by (simp add: same_auth_def auth_codes)
  obtain s3 c where s3: "ospf_fill_header oi s2 n = Inr s3" "stream_ok s3" "room s3 = room s2"
    "written s3 = sent_header oi ty n c ?at (auth_field oi) @ body"
    "if ?at = OSPF_AUTH_CRYPTOGRAPHIC then c = 0
     else in_cksum (sent_header oi ty n 0 ?at (replicate 8 0) @ body) (uint n) = Inr c"
    using fill_header_bytes [OF n refl pw s2(2) s2(3) [unfolded s1(4)]] by blast
  let ?op = "\<lparr>op_s = s3, op_length = n\<rparr>"
  have send: "ospf_send_packet md5 t ty oi s body = ospf_make_md5_digest md5 t oi ?op"
    unfolding ospf_send_packet_def n_def [symmetric] using s1(1) s2(1) s3(1) by simp
  show ?thesis
  proof (cases "ospf_auth_type oi = 2")
    case True
    then have at: "?at = OSPF_AUTH_CRYPTOGRAPHIC" "ospf_auth_type oi = uint OSPF_AUTH_CRYPTOGRAPHIC"
      by (simp_all add: auth_codes)
    have w3: "written (op_s ?op) = sent_header oi ty n 0 OSPF_AUTH_CRYPTOGRAPHIC (auth_field oi) @ body"
      using s3(4,5) at by simp
    have ok3: "stream_ok (op_s ?op)" "16 \<le> room (op_s ?op)"
      using s3(2,3) s2(4) s1(3) s by simp_all
    obtain op' k where "ospf_make_md5_digest md5 t oi ?op = Inr (next_seqnum t oi, op', k)"
      "written (op_s op') = (sent_header oi ty n 0 OSPF_AUTH_CRYPTOGRAPHIC
         (md5_field oi (oi_crypt_seqnum (next_seqnum t oi))) @ body) @
         md5 ((sent_header oi ty n 0 OSPF_AUTH_CRYPTOGRAPHIC
         (md5_field oi (oi_crypt_seqnum (next_seqnum t oi))) @ body) @ take 16 (auth_key (last (oi_auth_crypt oi))))"
      using make_md5_written [where ?md5.0 = md5, OF n _ ok3 w3 at(2) crypt_has_keys [OF True] refl refl] md5
      by blast
    moreover obtain ri' p' where "ospf_check_auth md5 ri ((sent_header oi ty n 0 OSPF_AUTH_CRYPTOGRAPHIC
         (md5_field oi (oi_crypt_seqnum (next_seqnum t oi))) @ body) @
         md5 ((sent_header oi ty n 0 OSPF_AUTH_CRYPTOGRAPHIC
         (md5_field oi (oi_crypt_seqnum (next_seqnum t oi))) @ body) @ take 16 (auth_key (last (oi_auth_crypt oi)))))
         = Inr (ri', p', True)"
      using check_auth_accepts_md5 [where ?md5.0 = md5, OF n _ same True refl] md5 fresh [OF at(2)] by blast
    ultimately show ?thesis
      using send by auto
  next
    case False
    then have at: "?at \<noteq> OSPF_AUTH_CRYPTOGRAPHIC"
      using same by (auto simp: same_auth_def auth_codes)
    then have "ospf_make_md5_digest md5 t oi ?op = Inr (oi, ?op, 0)"
      using rd16_type_written [OF s3(2,4)] by (simp add: ospf_make_md5_digest_def)
    then show ?thesis
      using check_auth_accepts_sum [OF same False] s3(4,5) at send by force
  qed
qed

definition sample_oi :: ospf_interface where
  "sample_oi =
     \<lparr>oi_router_id = 0x01020304, oi_area_id = 0, oi_auth_type = -1, oi_area_auth_type = 2,
      oi_auth_simple = replicate 9 0,
      oi_auth_crypt = [\<lparr>key_id = 1, auth_key = replicate 17 3\<rparr>, \<lparr>key_id = 7, auth_key = replicate 17 5\<rparr>],
      oi_crypt_seqnum = 4, oi_nbrs = [\<lparr>nbr_router_id = 0x01020304, nbr_crypt_seqnum = 0x05000000\<rparr>]\<rparr>"

definition sample_stream :: stream where
  "sample_stream = \<lparr>getp = 0, endp = 0, st_size = 100, st_data = replicate 100 9\<rparr>"

lemma ntohl_0x05000000: "ntohl 0x05000000 = 5"
  by (simp add: htonl_def load32_def store32_def byte_at_def)

theorem ospf_auth_roundtrip_witness:
  "\<exists>oi' op k ri' p'.
     ospf_send_packet (\<lambda>x. take 16 (x @ replicate 16 0)) 30 1 sample_oi sample_stream [1, 2, 3] =
       Inr (oi', op, k) \<and>
     ospf_check_auth (\<lambda>x. take 16 (x @ replicate 16 0)) sample_oi (written (op_s op)) = Inr (ri', p', True)"
proof (rule ospf_auth_roundtrip)
  show "same_auth sample_oi sample_oi"
    by (simp add: same_auth_def sample_oi_def ospf_auth_type_def OSPF_AUTH_NOTSET_def auth_codes)
  show "ntohl (nbr_crypt_seqnum x) \<le> oi_crypt_seqnum (next_seqnum 30 sample_oi)"
    if "nbr_by_routerid (oi_nbrs sample_oi) (oi_router_id sample_oi) = Some x" for x
    using that by (auto simp: sample_oi_def next_seqnum_def ntohl_0x05000000)
qed (simp_all add: sample_stream_def stream_ok_nat room_def)

section \<open>Neighbours\<close>

lemma routerid_walk_finds:
  "rt_stores t m (add_mset a L) \<Longrightarrow> rt_node t a k (m k) \<Longrightarrow> sorted_wrt key_less ks \<Longrightarrow>
   set ks = dom m \<inter> {j. j = k \<or> key_less k j} \<Longrightarrow> card (rt_after t k) < fuel \<Longrightarrow>
   \<exists>t'. routerid_walk (Suc fuel) i (Some a) t = Inr (t', nbr_by_routerid (map (the \<circ> m) ks) i) \<and> rt_stores t' m L"
proof (induction fuel arbitrary: a k ks t)
  case (Suc fuel)
  from sorted_keys_Cons [OF Suc.prems(3,4)] obtain ks' where
    ks': "ks = (if m k = None then [] else [k]) @ ks'" "sorted_wrt key_less ks'" "set ks' = dom m \<inter> {j. key_less k j}" .
  have info: "info_of a t = Inr (m k)" using Suc.prems(2) by (rule rtm.info_law)
  show ?case
  proof (cases "\<exists>nbr. m k = Some nbr \<and> nbr_router_id nbr = i")
    case True
    with rtm.unlock_law [OF Suc.prems(1)] ks'(1) info show ?thesis by auto
  next
    case False
    then have rest: "nbr_by_routerid (map (the \<circ> m) ks) i = nbr_by_routerid (map (the \<circ> m) ks') i"
      using ks'(1) by auto
    from rt_next_law [OF Suc.prems(1,2)] obtain t' r where
      t': "route_next t a = Inr (t', r)" "rt_fewer t' t" "rt_reached t' m L {j. key_less k j} r" by blast
    have step: "routerid_walk (Suc (Suc fuel)) i (Some a) t = routerid_walk (Suc fuel) i r t'"
      using False info t'(1) by (auto simp: Let_def split: option.splits)
    show ?thesis
    proof (cases r)
      case None
      with t'(3) ks'(3) have "ks' = []" "rt_stores t' m L" by (auto simp: rt_reached_def)
      then show ?thesis unfolding step rest using None by simp
    next
      case (Some b)
      with t'(3) obtain k' where k': "key_less k k'" "rt_stores t' m (add_mset b L)" "rt_node t' b k' (m k')"
        "\<forall>j \<in> dom m \<inter> {j. key_less k j}. j = k' \<or> key_less k' j" by (auto simp: rt_reached_def)
      have set': "set ks' = dom m \<inter> {j. j = k' \<or> key_less k' j}"
        using ks'(3) k'(1,4) key_less_trans [OF k'(1)] by auto
      have "card (rt_after t' k') < card (rt_after t k)"
        using Suc.prems(1) t'(2) k'(1,3) by (intro rt_after_less) (auto simp: rt_stores_def)
      then have "card (rt_after t' k') < fuel" using Suc.prems(5) by simp
      from Suc.IH [OF k'(2,3) ks'(2) set' this] show ?thesis unfolding step rest Some .
    qed
  qed
qed simp

text \<open>The walk ends, returns what the list of the neighbours in the order of the table gives, and the table keeps its
  contents and its locks.\<close>

lemma nbr_lookup_walks:
  assumes "rt_stores t m L" "sorted_keys m ks"
  shows "\<exists>t'. ospf_nbr_lookup_by_routerid t i = Inr (t', nbr_by_routerid (map (the \<circ> m) ks) i) \<and> rt_stores t' m L"
proof -
  from rt_top_law [OF assms(1)] obtain t' rn where t': "route_top t = Inr (t', rn)" "rt_inv t'" "rt_reached t' m L UNIV rn" by blast
  show ?thesis
  proof (cases rn)
    case None
    with t'(3) assms(2) have "rt_stores t' m L" "ks = []" by (auto simp: rt_reached_def sorted_keys_def)
    then show ?thesis using t'(1) None by (simp add: ospf_nbr_lookup_by_routerid_def)
  next
    case (Some a)
    with t'(3) obtain k where k: "rt_stores t' m (add_mset a L)" "rt_node t' a k (m k)" "\<forall>j \<in> dom m. j = k \<or> key_less k j"
      by (auto simp: rt_reached_def)
    have "sorted_wrt key_less ks" "set ks = dom m \<inter> {j. j = k \<or> key_less k j}" using assms(2) k(3) by (auto simp: sorted_keys_def)
    from routerid_walk_finds [OF k(1,2) this rt_after_finite(2) [OF t'(2)]] show ?thesis
      using t'(1) Some by (simp add: ospf_nbr_lookup_by_routerid_def)
  qed
qed

section \<open>Replay\<close>

lemma nbr_lookup_set:
  "nbr_by_routerid (set_nbr_seqnum nbrs i q) j =
     (if i = j then map_option (\<lambda>x. x\<lparr>nbr_crypt_seqnum := q\<rparr>) (nbr_by_routerid nbrs i)
      else nbr_by_routerid nbrs j)"
  by (induction nbrs) auto

definition pkt_router_id :: "u8 list \<Rightarrow> u32" where
  "pkt_router_id p = load32 (window 4 4 p)"

definition pkt_seqnum :: "u8 list \<Rightarrow> u32" where
  "pkt_seqnum p = load32 (window 20 4 p)"

lemma check_auth_crypt:
  assumes "ospf_auth_type oi = 2" "ospf_check_auth md5 oi p = Inr (oi', p', ok)"
  shows "if ok then oi' = oi\<lparr>oi_nbrs := set_nbr_seqnum (oi_nbrs oi) (pkt_router_id p) (pkt_seqnum p)\<rparr> \<and>
      (\<forall>x. nbr_by_routerid (oi_nbrs oi) (pkt_router_id p) = Some x \<longrightarrow>
           ntohl (nbr_crypt_seqnum x) \<le> ntohl (pkt_seqnum p))
    else oi' = oi"
  using assms
  by (auto simp: ospf_check_auth_def ospf_check_md5_digest_def and_then_Inr_iff Let_def auth_codes
      rd_bytes_def pkt_router_id_def pkt_seqnum_def not_less
      split: if_splits option.splits)

text \<open>The packets accepted out of a sequence of received ones.\<close>

fun receive_all ::
    "(u8 list \<Rightarrow> u8 list) \<Rightarrow> ospf_interface \<Rightarrow> u8 list list \<Rightarrow> (ospf_interface \<times> u8 list list) res" where
  "receive_all md5 oi [] = Inr (oi, [])"
| "receive_all md5 oi (p # ps) =
     and_then (ospf_check_auth md5 oi p) (\<lambda>(oi, _, ok).
     and_then (receive_all md5 oi ps) (\<lambda>(oi, qs). Inr (oi, (if ok then [p] else []) @ qs)))"

lemma receive_all_sorted:
  assumes "ospf_auth_type oi = 2" "nbr_by_routerid (oi_nbrs oi) r = Some x"
    and "receive_all md5 oi ps = Inr (oi', qs)"
  shows "sorted (ntohl (nbr_crypt_seqnum x) #
    map (\<lambda>p. ntohl (pkt_seqnum p)) (filter (\<lambda>p. pkt_router_id p = r) qs))"
  using assms
proof (induction ps arbitrary: oi x qs)
  case (Cons p ps)
  obtain oi1 p1 ok qs1 where c: "ospf_check_auth md5 oi p = Inr (oi1, p1, ok)"
    "receive_all md5 oi1 ps = Inr (oi', qs1)" "qs = (if ok then [p] else []) @ qs1"
    using Cons.prems(3) by (auto simp: and_then_Inr_iff split: prod.splits)
  note ca = check_auth_crypt [OF Cons.prems(1) c(1)]
  have ty: "ospf_auth_type oi1 = 2"
    using ca Cons.prems(1) by (cases ok) (auto simp: ospf_auth_type_def)
  show ?case
  proof (cases "ok \<and> pkt_router_id p = r")
    case True
    then have "nbr_by_routerid (oi_nbrs oi1) r = Some (x\<lparr>nbr_crypt_seqnum := pkt_seqnum p\<rparr>)"
      "ntohl (nbr_crypt_seqnum x) \<le> ntohl (pkt_seqnum p)"
      using ca Cons.prems(2) by (auto simp: nbr_lookup_set)
    then show ?thesis
      using Cons.IH [OF ty _ c(2)] True c(3) by auto
  next
    case False
    then have "nbr_by_routerid (oi_nbrs oi1) r = Some x"
      using ca Cons.prems(2) by (cases ok) (auto simp: nbr_lookup_set)
    then show ?thesis
      using Cons.IH [OF ty _ c(2)] False c(3) by auto
  qed
qed simp

text \<open>C26: with MD5 authentication an old packet is not accepted again: of any sequence of received
  packets, those accepted from one neighbour have sequence numbers that never decrease, starting
  from the one stored for the neighbour.\<close>

theorem ospf_md5_no_replay:
  assumes "ospf_auth_type oi = 2" "nbr_by_routerid (oi_nbrs oi) r = Some x"
    and "receive_all md5 oi ps = Inr (oi', qs)"
  shows "sorted (ntohl (nbr_crypt_seqnum x) #
    map (\<lambda>p. ntohl (pkt_seqnum p)) (filter (\<lambda>p. pkt_router_id p = r) qs))"
  by (rule receive_all_sorted [OF assms])


definition sample_packet :: "u8 \<Rightarrow> u8 list" where
  "sample_packet q =
     [2, 1, 0, 24, 4, 3, 2, 1, 0, 0, 0, 0, 0, 0, 0, 2, 0, 0, 7, 16, 0, 0, 0, q] @ replicate 16 0"

theorem ospf_md5_no_replay_witness:
  "\<exists>oi'. receive_all (\<lambda>x. replicate 16 0) sample_oi (map sample_packet [6, 5, 9]) =
      Inr (oi', map sample_packet [6, 9]) \<and>
    sorted (ntohl 0x05000000 # map (\<lambda>p. ntohl (pkt_seqnum p))
      (filter (\<lambda>p. pkt_router_id p = 0x01020304) (map sample_packet [6, 9])))"
proof -
  obtain oi' where r: "receive_all (\<lambda>x. replicate 16 0) sample_oi (map sample_packet [6, 5, 9]) =
      Inr (oi', map sample_packet [6, 9])"
    by (simp add: sample_oi_def sample_packet_def ospf_check_auth_def ospf_check_md5_digest_def rd16_def
        rd8_def rd_bytes_def window_def load16_def htons_def htonl_def load32_def store32_def byte_at_def
        Let_def auth_codes ospf_auth_type_def OSPF_AUTH_NOTSET_def ospf_sizes)
  have "ospf_auth_type sample_oi = 2" "nbr_by_routerid (oi_nbrs sample_oi) 0x01020304 =
      Some \<lparr>nbr_router_id = 0x01020304, nbr_crypt_seqnum = 0x05000000\<rparr>"
    by (simp_all add: sample_oi_def ospf_auth_type_def OSPF_AUTH_NOTSET_def auth_codes)
  from ospf_md5_no_replay [OF this r, unfolded ospf_nbr.select_convs] r show ?thesis
    by blast
qed

end
