(* ===== verification/Irdp.thy ===== *)
theory Irdp
  imports Checksum StreamProps
begin

unbundle bit_operations_syntax

text \<open>
  ICMP router discovery of the zebra daemon (\<^verbatim>\<open>zebra/irdp_packet.c\<close>,
  \<^verbatim>\<open>zebra/irdp_main.c\<close>, \<^verbatim>\<open>zebra/irdp_interface.c\<close>): the check of received packets, the
  answer to a solicitation, the advertisement packet and the timer of unsolicited advertisements.
  A received packet is the receive buffer from the IP header on. The values of \<open>random ()\<close> are
  arguments; a scheduled timer is the number of seconds it waits.
\<close>

section \<open>State and constants\<close>

record irdp_interface =
  MaxAdvertInterval :: u64
  MinAdvertInterval :: u64
  Preference :: u64
  irdp_flags :: u32
  Lifetime :: u16
  AdvPrefList :: "(u32 \<times> u32) list"   \<comment> \<open>empty also when the pointer is null\<close>
  irdp_sent :: nat
  t_advertise :: "u32 option"

definition IF_BROADCAST :: u32 where "IF_BROADCAST = 2"
definition IF_SOLICIT :: u32 where "IF_SOLICIT = 4"
definition IF_SHUTDOWN :: u32 where "IF_SHUTDOWN = 64"
definition ICMP_MINLEN :: int where "ICMP_MINLEN = 8"
definition IRDP_RX_BUF :: int where "IRDP_RX_BUF = 1500"
definition ICMP_ROUTERADVERT :: u8 where "ICMP_ROUTERADVERT = 9"
definition ICMP_ROUTERSOLICIT :: u8 where "ICMP_ROUTERSOLICIT = 10"
definition INADDR_BROADCAST :: u32 where "INADDR_BROADCAST = 0xffffffff"
definition INADDR_ALLRTRS_GROUP :: u32 where "INADDR_ALLRTRS_GROUP = 0xe0000002"
definition MAX_RESPONSE_DELAY :: u32 where "MAX_RESPONSE_DELAY = 2"
definition MAX_INITIAL_ADVERT_INTERVAL :: u32 where "MAX_INITIAL_ADVERT_INTERVAL = 16"
definition MAX_INITIAL_ADVERTISEMENTS :: nat where "MAX_INITIAL_ADVERTISEMENTS = 3"

lemmas irdp_consts = IF_BROADCAST_def IF_SOLICIT_def IF_SHUTDOWN_def ICMP_MINLEN_def IRDP_RX_BUF_def
  ICMP_ROUTERADVERT_def ICMP_ROUTERSOLICIT_def INADDR_BROADCAST_def INADDR_ALLRTRS_GROUP_def

section \<open>Receiving\<close>

definition process_solicit :: "u32 \<Rightarrow> irdp_interface \<Rightarrow> irdp_interface" where
  "process_solicit rnd irdp =
     (if irdp_flags irdp AND IF_SOLICIT \<noteq> 0 then irdp
      else irdp\<lparr>irdp_flags := irdp_flags irdp OR IF_SOLICIT,
                t_advertise := Some (rnd mod MAX_RESPONSE_DELAY + 1)\<rparr>)"

text \<open>What becomes of a packet: it is dropped, ignored, or taken as a solicitation.\<close>

datatype irdp_verdict = IrdpDrop | IrdpIgnore | IrdpSolicit

definition irdp_accept :: "irdp_interface \<Rightarrow> u32 \<Rightarrow> bool" where
  "irdp_accept irdp dst \<longleftrightarrow>
     \<not> (\<not> (dst = INADDR_BROADCAST \<and> irdp_flags irdp AND IF_BROADCAST \<noteq> 0) \<or>
        (dst = INADDR_ALLRTRS_GROUP \<and> irdp_flags irdp AND IF_BROADCAST = 0))"

definition irdp_verdict_of :: "u8 list \<Rightarrow> int \<Rightarrow> irdp_interface \<Rightarrow> irdp_verdict res" where
  "irdp_verdict_of p len irdp =
     and_then (rd8 p 0) (\<lambda>vhl.
     and_then (rd16 p 2) (\<lambda>ip_len.
     and_then (rd16 p 16) (\<lambda>d1. and_then (rd16 p 18) (\<lambda>d2.
       let ip_hlen = 4 * unat (vhl AND 0x0f);
           iplen = uint (ntohs ip_len);
           datalen = len - int ip_hlen;
           dst = of_nat (65536 * unat (ntohs d1) + unat (ntohs d2))
       in if len \<noteq> iplen then Inr IrdpDrop
          else if iplen < ICMP_MINLEN then Inr IrdpDrop
          else if iplen > IRDP_RX_BUF - 34 then Inr IrdpDrop
          else let icmp = drop ip_hlen p
            in and_then (in_cksum icmp datalen) (\<lambda>c.
               and_then (rd16 icmp 2) (\<lambda>checksum.
                 if c \<noteq> checksum then Inr IrdpDrop
                 else and_then (rd8 icmp 0) (\<lambda>type.
                      and_then (rd8 icmp 1) (\<lambda>code.
                        if \<not> (type = ICMP_ROUTERADVERT \<or> type = ICMP_ROUTERSOLICIT) then Inr IrdpIgnore
                        else if code \<noteq> 0 then Inr IrdpDrop
                        else if \<not> irdp_accept irdp dst then Inr IrdpDrop
                        else Inr (if type = ICMP_ROUTERSOLICIT then IrdpSolicit else IrdpIgnore)))))))))"

definition parse_irdp_packet :: "u32 \<Rightarrow> u8 list \<Rightarrow> int \<Rightarrow> irdp_interface \<Rightarrow> irdp_interface res" where
  "parse_irdp_packet rnd p len irdp =
     and_then (irdp_verdict_of p len irdp) (\<lambda>v.
       Inr (if v = IrdpSolicit then process_solicit rnd irdp else irdp))"

section \<open>Sending\<close>

fun get_pref :: "(u32 \<times> u32) list \<Rightarrow> u32 \<Rightarrow> u32 \<Rightarrow> u32" where
  "get_pref [] addr pref = pref"
| "get_pref ((ip, p) # l) addr pref = (if ip = addr then p else get_pref l addr pref)"

definition make_advertisement_packet :: "irdp_interface \<Rightarrow> u32 \<Rightarrow> stream \<Rightarrow> (stream \<times> nat) res" where
  "make_advertisement_packet irdp addr s =
     (let pref = get_pref (AdvPrefList irdp) addr (ucast (Preference irdp))
      in and_then (stream_putc s ICMP_ROUTERADVERT) (\<lambda>(s, _).
         and_then (stream_putc s 0) (\<lambda>(s, _).
         and_then (stream_putw s 0) (\<lambda>(s, _).
         and_then (stream_putc s 1) (\<lambda>(s, _).
         and_then (stream_putc s 2) (\<lambda>(s, _).
         and_then (stream_putw s (if irdp_flags irdp AND IF_SHUTDOWN \<noteq> 0 then 0 else Lifetime irdp)) (\<lambda>(s, _).
         and_then (stream_putl s (htonl addr)) (\<lambda>(s, _).
         and_then (stream_putl s pref) (\<lambda>(s, _).
         and_then (in_cksum (st_data s) 16) (\<lambda>checksum.
         and_then (stream_putw_at s 2 (htons checksum)) (\<lambda>(s, _). Inr (s, 16))))))))))))"

text \<open>
  \<open>irdp_send_thread\<close>: one advertisement for each of the \<open>n\<close> connected IPv4 addresses, then the
  next timer. \<open>random () % tmp\<close> with \<open>tmp = 0\<close> is a division by zero.
\<close>

definition irdp_send_thread :: "nat \<Rightarrow> u32 \<Rightarrow> irdp_interface \<Rightarrow> irdp_interface res" where
  "irdp_send_thread n rnd irdp =
     (let irdp = irdp\<lparr>irdp_flags := irdp_flags irdp AND NOT IF_SOLICIT, irdp_sent := irdp_sent irdp + n\<rparr>;
          tmp = ucast (MaxAdvertInterval irdp - MinAdvertInterval irdp) :: u32
      in if tmp = 0 then Inl DivByZero
         else let timer = ucast (MinAdvertInterval irdp) + (rnd mod tmp + 1);
                  timer = (if irdp_sent irdp < MAX_INITIAL_ADVERTISEMENTS \<and>
                              timer > MAX_INITIAL_ADVERT_INTERVAL
                           then MAX_INITIAL_ADVERT_INTERVAL else timer)
           in Inr (irdp\<lparr>t_advertise := Some timer\<rparr>))"

definition ip_irdp_minadvertinterval :: "u32 \<Rightarrow> irdp_interface \<Rightarrow> irdp_interface" where
  "ip_irdp_minadvertinterval v irdp =
     (if ucast v \<le> MaxAdvertInterval irdp then irdp\<lparr>MinAdvertInterval := ucast v\<rparr> else irdp)"

definition ip_irdp_maxadvertinterval :: "u32 \<Rightarrow> irdp_interface \<Rightarrow> irdp_interface" where
  "ip_irdp_maxadvertinterval v irdp =
     (if MinAdvertInterval irdp \<le> ucast v then irdp\<lparr>MaxAdvertInterval := ucast v\<rparr> else irdp)"

section \<open>What the checks let through\<close>

text \<open>C30: every packet with a right, nonzero checksum is dropped. A sender stores the checksum of
  the message over a zero field; the receiver then sums the message with the field, gets zero, and
  compares that with the field.\<close>

theorem irdp_drops_correct_packets:
  assumes h: "length h = 20" "h ! 0 = 0x45" "ntohs (load16 (h ! 2) (h ! 3)) = of_nat (20 + length m)"
    and m: "4 \<le> length m" "20 + length m < 65536" "m ! 2 = 0" "m ! 3 = 0"
    and c: "in_cksum m (int (length m)) = Inr c" "c \<noteq> 0"
  shows "irdp_verdict_of (h @ m[2 := ucast c, 3 := ucast (drop_bit 8 c)]) (int (20 + length m)) irdp =
    Inr IrdpDrop"
proof -
  let ?m = "m[2 := ucast c, 3 := ucast (drop_bit 8 c)]"
  have z: "in_cksum ?m (int (length m)) = Inr 0"
    using in_cksum_store [of "length m" m 2 c] m c by (simp add: numeral_3_eq_3)
  have f: "rd16 ?m 2 = Inr c"
    using m(1) by (simp add: nth_list_update)
  have rd: "rd8 (h @ ?m) 0 = Inr 0x45" "rd16 (h @ ?m) 2 = Inr (load16 (h ! 2) (h ! 3))"
    using h by (simp_all add: nth_append)
  obtain w v where d: "rd16 (h @ ?m) 16 = Inr w" "rd16 (h @ ?m) 18 = Inr v"
    using h by simp
  have l: "uint (ntohs (load16 (h ! 2) (h ! 3))) = int (20 + length m)"
  proof -
    have "unat (of_nat (20 + length m) :: u16) = 20 + length m"
      unfolding unat_of_nat using m(2) by simp
    then show ?thesis
      unfolding h(3) by (metis int_eq_iff uint_nat)
  qed
  have hl: "4 * unat ((0x45 :: u8) AND 0x0f) = 20" and e: "drop 20 (h @ ?m) = ?m"
      and n: "int (20 + length m) - int 20 = int (length m)"
    using h(1) by simp_all
  show ?thesis
    unfolding irdp_verdict_of_def rd d and_then.simps Let_def l hl e n z f
    using c(2) by simp
qed

text \<open>An interface in multicast mode takes no packet at all: the negation in the test of the
  destination covers only its first half.\<close>

theorem irdp_multicast_deaf:
  assumes "irdp_flags irdp AND IF_BROADCAST = 0" "parse_irdp_packet rnd p len irdp = Inr irdp'"
  shows "irdp' = irdp"
  using assms
  by (auto simp: parse_irdp_packet_def irdp_verdict_of_def irdp_accept_def and_then_Inr_iff Let_def
      split: if_splits)

text \<open>Both commands accept equal limits, and then the next timer divides by zero.\<close>

theorem irdp_equal_limits_crash:
  "irdp_send_thread n rnd
     (ip_irdp_minadvertinterval 600
        \<lparr>MaxAdvertInterval = 600, MinAdvertInterval = 450, Preference = 0, irdp_flags = 0,
         Lifetime = 1350, AdvPrefList = [], irdp_sent = 0, t_advertise = None\<rparr>) = Inl DivByZero"
  by (simp add: irdp_send_thread_def ip_irdp_minadvertinterval_def)

theorem irdp_drops_correct_packets_witness:
  "in_cksum [10, 0, 0, 0, 0, 0, 0, 0] 8 = Inr 0xfff5 \<and>
   irdp_verdict_of ([0x45, 0, 0, 28, 0, 0, 0, 0, 1, 1, 0, 0, 192, 0, 2, 1, 255, 255, 255, 255] @
       [10, 0, 0xf5, 0xff, 0, 0, 0, 0]) 28
     \<lparr>MaxAdvertInterval = 600, MinAdvertInterval = 450, Preference = 0, irdp_flags = IF_BROADCAST,
      Lifetime = 1350, AdvPrefList = [], irdp_sent = 0, t_advertise = None\<rparr> = Inr IrdpDrop"
proof -
  have c: "in_cksum [10, 0, 0, 0, 0, 0, 0, 0] 8 = Inr 0xfff5"
    using in_cksum_words [of 8 "[10, 0, 0, 0, 0, 0, 0, 0]"] by (simp add: oc_sum_def)
  have e: "(0xfff5 :: u8) = 0xf5"
    by simp
  show ?thesis
    using c irdp_drops_correct_packets
      [of "[0x45, 0, 0, 28, 0, 0, 0, 0, 1, 1, 0, 0, 192, 0, 2, 1, 255, 255, 255, 255]"
          "[10, 0, 0, 0, 0, 0, 0, 0]" "0xfff5"]
    by (simp add: htons_def load16_def e)
qed

end
