(* ===== verification/StreamFifo.thy ===== *)
theory StreamFifo
  imports Prelude
begin

text \<open>
  The stream queue of \<^verbatim>\<open>lib/stream.c\<close>, a list threaded through the \<open>next\<close> field of
  the streams. The model keeps those fields: a map from the address of every allocated stream to
  its \<open>next\<close> pointer. The queue contract is stated once as a locale that the linked list of
  \<^verbatim>\<open>lib/linklist.c\<close> implements as well.
\<close>

section \<open>The contract of a queue\<close>

fun push_all :: "('a \<Rightarrow> 's \<Rightarrow> 's res) \<Rightarrow> 'a list \<Rightarrow> 's \<Rightarrow> 's res" where
  "push_all push [] s = Inr s"
| "push_all push (x # xs) s = and_then (push x s) (push_all push xs)"

fun pop_n :: "('s \<Rightarrow> ('s \<times> 'a option) res) \<Rightarrow> nat \<Rightarrow> 's \<Rightarrow> ('s \<times> 'a option list) res" where
  "pop_n pop 0 s = Inr (s, [])"
| "pop_n pop (Suc n) s = and_then (pop s) (\<lambda>(s, x).
     and_then (pop_n pop n s) (\<lambda>(s, xs). Inr (s, x # xs)))"

locale queue_impl =
  fixes rep :: "'s \<Rightarrow> 'a list \<Rightarrow> bool" and fresh :: "'s \<Rightarrow> 'a \<Rightarrow> bool"
    and push :: "'a \<Rightarrow> 's \<Rightarrow> 's res" and pop :: "'s \<Rightarrow> ('s \<times> 'a option) res"
  assumes push_rep: "rep s xs \<Longrightarrow> fresh s x \<Longrightarrow>
      \<exists>s'. push x s = Inr s' \<and> rep s' (xs @ [x]) \<and> (\<forall>y. y \<noteq> x \<longrightarrow> fresh s y \<longrightarrow> fresh s' y)"
    and pop_rep: "rep s xs \<Longrightarrow>
      \<exists>s'. pop s = Inr (s', case xs of [] \<Rightarrow> None | x # _ \<Rightarrow> Some x) \<and> rep s' (tl xs)"
begin

lemma push_all_rep:
  assumes "rep s xs" "distinct ys" "\<And>y. y \<in> set ys \<Longrightarrow> fresh s y"
  shows "\<exists>s'. push_all push ys s = Inr s' \<and> rep s' (xs @ ys)"
  using assms
proof (induction ys arbitrary: s xs)
  case (Cons y ys)
  from push_rep [OF Cons.prems(1), of y] Cons.prems(3) obtain s1 where s1: "push y s = Inr s1"
    "rep s1 (xs @ [y])" "\<And>z. z \<noteq> y \<Longrightarrow> fresh s z \<Longrightarrow> fresh s1 z" by auto
  have "fresh s1 z" if "z \<in> set ys" for z using that s1(3) [of z] Cons.prems(2) Cons.prems(3) [of z] by auto
  with Cons.IH [OF s1(2)] Cons.prems(2) s1(1) show ?case by auto
qed simp

lemma pop_n_rep:
  assumes "rep s xs"
  shows "\<exists>s'. pop_n pop n s = Inr (s', map Some (take n xs) @ replicate (n - length xs) None) \<and>
     rep s' (drop n xs)"
  using assms
proof (induction n arbitrary: s xs)
  case (Suc n)
  from pop_rep [OF Suc.prems] obtain s1 where s1: "pop s = Inr (s1, case xs of [] \<Rightarrow> None | x # _ \<Rightarrow> Some x)"
    "rep s1 (tl xs)" by blast
  from Suc.IH [OF s1(2)] s1(1) show ?case by (cases xs) auto
qed simp

lemma first_in_first_out:
  assumes "rep s []" "distinct ys" "\<And>y. y \<in> set ys \<Longrightarrow> fresh s y"
  shows "\<exists>s1 s2. push_all push ys s = Inr s1 \<and> pop_n pop (Suc (length ys)) s1 = Inr (s2, map Some ys @ [None])"
proof -
  from push_all_rep [OF assms] obtain s1 where "push_all push ys s = Inr s1" "rep s1 ys" by auto
  with pop_n_rep [of s1 ys "Suc (length ys)"] show ?thesis by auto
qed

end

section \<open>The stream queue\<close>

record stream_fifo =
  fifo_count :: nat
  fifo_head :: "nat option"
  fifo_tail :: "nat option"

type_synonym nexts = "nat \<rightharpoonup> nat option"

definition stream_fifo_new :: stream_fifo where
  "stream_fifo_new = \<lparr>fifo_count = 0, fifo_head = None, fifo_tail = None\<rparr>"

definition set_next :: "nat \<Rightarrow> nat option \<Rightarrow> nexts \<Rightarrow> nexts res" where
  "set_next a q nx = (if a \<in> dom nx then Inr (nx(a \<mapsto> q)) else Inl NullDeref)"

definition get_next :: "nat \<Rightarrow> nexts \<Rightarrow> nat option res" where
  "get_next a nx = (case nx a of None \<Rightarrow> Inl NullDeref | Some q \<Rightarrow> Inr q)"

definition stream_fifo_push :: "nat \<Rightarrow> nexts \<times> stream_fifo \<Rightarrow> (nexts \<times> stream_fifo) res" where
  "stream_fifo_push s = (\<lambda>(nx, fifo).
     and_then (case fifo_tail fifo of
         Some t \<Rightarrow> and_then (set_next t (Some s) nx) (\<lambda>nx. Inr (nx, fifo))
       | None \<Rightarrow> Inr (nx, fifo\<lparr>fifo_head := Some s\<rparr>))
       (\<lambda>(nx, fifo). Inr (nx, fifo\<lparr>fifo_tail := Some s, fifo_count := Suc (fifo_count fifo)\<rparr>)))"

definition stream_fifo_pop :: "nexts \<times> stream_fifo \<Rightarrow> ((nexts \<times> stream_fifo) \<times> nat option) res" where
  "stream_fifo_pop = (\<lambda>(nx, fifo).
     case fifo_head fifo of
       None \<Rightarrow> Inr ((nx, fifo), None)
     | Some s \<Rightarrow> and_then (get_next s nx) (\<lambda>q.
         let fifo = fifo\<lparr>fifo_head := q\<rparr>;
             fifo = (if fifo_head fifo = None then fifo\<lparr>fifo_tail := None\<rparr> else fifo)
         in Inr ((nx, fifo\<lparr>fifo_count := fifo_count fifo - 1\<rparr>), Some s)))"

definition stream_fifo_head :: "stream_fifo \<Rightarrow> nat option" where
  "stream_fifo_head fifo = fifo_head fifo"

text \<open>The loop of \<open>stream_fifo_clean\<close>; \<open>stream_free\<close> removes the stream.\<close>

fun clean_walk :: "nat \<Rightarrow> nat option \<Rightarrow> nexts \<Rightarrow> nexts res" where
  "clean_walk 0 q nx = Inl Diverged"
| "clean_walk (Suc fuel) q nx =
     (case q of
        None \<Rightarrow> Inr nx
      | Some s \<Rightarrow> and_then (get_next s nx) (\<lambda>nxt. clean_walk fuel nxt (nx(s := None))))"

definition stream_fifo_clean :: "nat \<Rightarrow> nexts \<times> stream_fifo \<Rightarrow> (nexts \<times> stream_fifo) res" where
  "stream_fifo_clean fuel = (\<lambda>(nx, fifo).
     and_then (clean_walk fuel (fifo_head fifo) nx) (\<lambda>nx.
       Inr (nx, fifo\<lparr>fifo_head := None, fifo_tail := None, fifo_count := 0\<rparr>)))"

section \<open>Representation\<close>

fun chain :: "nexts \<Rightarrow> nat option \<Rightarrow> nat list \<Rightarrow> bool" where
  "chain nx q [] \<longleftrightarrow> q = None"
| "chain nx q (x # xs) \<longleftrightarrow> q = Some x \<and> (\<exists>q'. nx x = Some q' \<and> chain nx q' xs)"

definition fifo_rep :: "nexts \<times> stream_fifo \<Rightarrow> nat list \<Rightarrow> bool" where
  "fifo_rep = (\<lambda>(nx, fifo) xs. chain nx (fifo_head fifo) xs \<and> distinct xs \<and>
     fifo_tail fifo = (if xs = [] then None else Some (last xs)) \<and> fifo_count fifo = length xs)"

text \<open>A stream that may be pushed: allocated, not in the queue, and with a null \<open>next\<close>.\<close>

definition fifo_fresh :: "nexts \<times> stream_fifo \<Rightarrow> nat \<Rightarrow> bool" where
  "fifo_fresh = (\<lambda>(nx, fifo) s. nx s = Some None \<and> fifo_tail fifo \<noteq> Some s \<and>
     (\<forall>xs. chain nx (fifo_head fifo) xs \<longrightarrow> s \<notin> set xs))"

lemma chain_frame: "chain nx q xs \<Longrightarrow> (\<And>x. x \<in> set xs \<Longrightarrow> nx' x = nx x) \<Longrightarrow> chain nx' q xs"
  by (induction xs arbitrary: q) auto

lemma chain_unique: "chain nx q xs \<Longrightarrow> chain nx q ys \<Longrightarrow> xs = ys"
proof (induction xs arbitrary: q ys)
  case Nil
  then show ?case by (cases ys) auto
next
  case (Cons x xs)
  then show ?case by (cases ys) auto
qed

lemma chain_dom: "chain nx q xs \<Longrightarrow> set xs \<subseteq> dom nx"
  by (induction xs arbitrary: q) auto

lemma chain_snoc:
  "chain nx q (xs @ [x]) \<Longrightarrow> distinct (xs @ [x]) \<Longrightarrow> nx s = Some None \<Longrightarrow> s \<noteq> x \<Longrightarrow> s \<notin> set xs \<Longrightarrow>
   chain (nx(x \<mapsto> Some s)) q (xs @ [x, s])"
  by (induction xs arbitrary: q) auto

lemma stream_fifo_push_rep:
  assumes "fifo_rep (nx, fifo) xs" "fifo_fresh (nx, fifo) s"
  shows "\<exists>f'. stream_fifo_push s (nx, fifo) = Inr f' \<and> fifo_rep f' (xs @ [s]) \<and>
     (\<forall>y. y \<noteq> s \<longrightarrow> fifo_fresh (nx, fifo) y \<longrightarrow> fifo_fresh f' y)"
proof (cases xs rule: rev_cases)
  case Nil
  with assms have c: "fifo_head fifo = None" "fifo_tail fifo = None" "fifo_count fifo = 0"
    "chain nx (Some s) [s]" by (auto simp: fifo_rep_def fifo_fresh_def)
  have "y \<notin> set zs" if "y \<noteq> s" "chain nx (Some s) zs" for y zs
    using chain_unique [OF that(2) c(4)] that(1) by simp
  with c Nil show ?thesis by (auto simp: fifo_rep_def fifo_fresh_def stream_fifo_push_def)
next
  case (snoc ys x)
  have c: "chain nx (fifo_head fifo) (ys @ [x])" "distinct (ys @ [x])" "fifo_tail fifo = Some x"
    "fifo_count fifo = Suc (length ys)" "nx s = Some None" "s \<notin> set (ys @ [x])"
    using assms snoc by (auto simp: fifo_rep_def fifo_fresh_def)
  then have x: "x \<in> dom nx" using chain_dom [of nx "fifo_head fifo" "ys @ [x]"] by simp
  have c': "chain (nx(x \<mapsto> Some s)) (fifo_head fifo) (ys @ [x, s])" using chain_snoc c by auto
  have fr: "y \<notin> set zs" if "y \<noteq> s" "fifo_fresh (nx, fifo) y"
    "chain (nx(x \<mapsto> Some s)) (fifo_head fifo) zs" for y zs
    using chain_unique [OF that(3) c'] that(1,2) c(1) by (auto simp: fifo_fresh_def)
  have "stream_fifo_push s (nx, fifo) =
      Inr (nx(x \<mapsto> Some s), fifo\<lparr>fifo_tail := Some s, fifo_count := Suc (fifo_count fifo)\<rparr>)"
    using c(3) x by (simp add: stream_fifo_push_def set_next_def)
  with c c' snoc fr show ?thesis
    by (auto simp: fifo_rep_def) (auto simp: fifo_fresh_def)
qed

lemma stream_fifo_pop_rep:
  assumes "fifo_rep (nx, fifo) xs"
  shows "\<exists>f'. stream_fifo_pop (nx, fifo) = Inr (f', case xs of [] \<Rightarrow> None | x # _ \<Rightarrow> Some x) \<and>
     fifo_rep f' (tl xs)"
proof (cases xs)
  case Nil
  with assms show ?thesis by (auto simp: fifo_rep_def stream_fifo_pop_def)
next
  case (Cons x ys)
  with assms obtain q where q: "fifo_head fifo = Some x" "nx x = Some q" "chain nx q ys"
    "fifo_tail fifo = Some (last (x # ys))" "distinct (x # ys)" "fifo_count fifo = Suc (length ys)"
    by (auto simp: fifo_rep_def)
  then have "q = None \<longleftrightarrow> ys = []" by (cases ys) auto
  with q Cons show ?thesis by (auto simp: stream_fifo_pop_def get_next_def fifo_rep_def Let_def)
qed

interpretation sfifo: queue_impl fifo_rep fifo_fresh stream_fifo_push stream_fifo_pop
  by unfold_locales (auto dest: stream_fifo_push_rep stream_fifo_pop_rep simp: split_paired_all)

section \<open>Properties\<close>

text \<open>the stream queue is first in, first out. Distinct fresh streams pushed on an empty
  queue are popped in the same order, after which the queue is empty; no null or freed pointer
  is followed.\<close>

theorem stream_fifo_in_order:
  assumes "distinct ss" "\<And>s. s \<in> set ss \<Longrightarrow> nx s = Some None"
  shows "\<exists>f1 f2. push_all stream_fifo_push ss (nx, stream_fifo_new) = Inr f1 \<and>
     pop_n stream_fifo_pop (Suc (length ss)) f1 = Inr (f2, map Some ss @ [None])"
proof (rule sfifo.first_in_first_out)
  show "fifo_rep (nx, stream_fifo_new) []" by (simp add: fifo_rep_def stream_fifo_new_def)
  show "fifo_fresh (nx, stream_fifo_new) s" if "s \<in> set ss" for s
  proof -
    have "s \<notin> set xs" if "chain nx None xs" for xs using that by (cases xs) auto
    then show ?thesis using assms(2) [OF that] by (auto simp: fifo_fresh_def stream_fifo_new_def)
  qed
qed (rule assms(1))

theorem stream_fifo_in_order_witness:
  "\<exists>f1 f2. push_all stream_fifo_push [3, 1, 2]
       ([3 \<mapsto> None, 1 \<mapsto> None, 2 \<mapsto> None], stream_fifo_new) = Inr f1 \<and>
     pop_n stream_fifo_pop (Suc (length [3, 1, 2 :: nat])) f1 = Inr (f2, map Some [3, 1, 2] @ [None])"
  by (rule stream_fifo_in_order) auto

lemma clean_walk_cycle:
  "nx a = Some (Some b) \<Longrightarrow> nx b = Some (Some a) \<Longrightarrow> a \<noteq> b \<Longrightarrow>
   clean_walk (Suc (Suc (Suc fuel))) (Some a) nx = Inl NullDeref"
  by (simp add: get_next_def)

text \<open>Popping does not clear the \<open>next\<close> field of the stream it returns, and pushing
  does not either. A stream that is popped while others are queued and then pushed again, on this
  or another queue, still points into the queue: here two streams become a cycle, and cleaning the
  queue frees a stream and then follows the freed pointer.\<close>

theorem stream_fifo_repush_cycle:
  assumes "a \<noteq> b"
  shows "\<exists>f1 f2 f3. push_all stream_fifo_push [a, b] ([a \<mapsto> None, b \<mapsto> None], stream_fifo_new) = Inr f1 \<and>
     stream_fifo_pop f1 = Inr (f2, Some a) \<and> stream_fifo_push a f2 = Inr f3 \<and>
     (\<forall>fuel. stream_fifo_clean (3 + fuel) f3 = Inl NullDeref)"
  using assms clean_walk_cycle [of _ b a]
  by (auto simp: stream_fifo_push_def stream_fifo_pop_def stream_fifo_new_def stream_fifo_clean_def
      set_next_def get_next_def Let_def numeral_3_eq_3)

theorem stream_fifo_repush_cycle_witness:
  "(0 :: nat) \<noteq> 1 \<and> (\<exists>f1 f2 f3. push_all stream_fifo_push [0, 1] ([0 \<mapsto> None, 1 \<mapsto> None], stream_fifo_new) = Inr f1 \<and>
     stream_fifo_pop f1 = Inr (f2, Some 0) \<and> stream_fifo_push 0 f2 = Inr f3 \<and>
     (\<forall>fuel. stream_fifo_clean (3 + fuel) f3 = Inl NullDeref))"
  using stream_fifo_repush_cycle [of 0 1] by simp

end
