(* ===== verification/LinkList.thy ===== *)
theory LinkList
  imports Dll StreamFifo
begin

text \<open>
  \<^verbatim>\<open>lib/linklist.c\<close> and \<^verbatim>\<open>lib/linklist.h\<close>: the doubly linked list of data pointers
  used all over the daemons. A list record holds the heap of its nodes; \<open>listnode_new\<close>
  takes a fresh address and \<open>listnode_free\<close> removes the node. A data pointer is an option,
  \<open>None\<close> the null pointer; the \<open>cmp\<close> callback is an optional argument, and what the
  \<open>del\<close> callback is called on is returned as a list.
\<close>

section \<open>Nodes and lists\<close>

record 'a listnode =
  ln_next :: "nat option"
  ln_prev :: "nat option"
  ln_data :: "'a option"

record 'a linklist =
  l_head :: "nat option"
  l_tail :: "nat option"
  l_count :: nat
  l_nodes :: "nat \<rightharpoonup> 'a listnode"
  l_brk :: nat

definition node_at :: "'a linklist \<Rightarrow> nat \<Rightarrow> 'a listnode res" where
  "node_at l a = (case l_nodes l a of None \<Rightarrow> Inl NullDeref | Some n \<Rightarrow> Inr n)"

definition upd_at :: "nat \<Rightarrow> ('a listnode \<Rightarrow> 'a listnode) \<Rightarrow> 'a linklist \<Rightarrow> 'a linklist res" where
  "upd_at a f l = and_then (node_at l a) (\<lambda>n. Inr (l\<lparr>l_nodes := (l_nodes l)(a \<mapsto> f n)\<rparr>))"

definition upd_ptr :: "nat option \<Rightarrow> ('a listnode \<Rightarrow> 'a listnode) \<Rightarrow> 'a linklist \<Rightarrow> 'a linklist res" where
  "upd_ptr q f l = (case q of None \<Rightarrow> Inl NullDeref | Some a \<Rightarrow> upd_at a f l)"

definition walk_bound :: "'a linklist \<Rightarrow> nat" where
  "walk_bound l = Suc (l_brk l)"

section \<open>Operations\<close>

definition list_new :: "'a linklist" where
  "list_new = \<lparr>l_head = None, l_tail = None, l_count = 0, l_nodes = Map.empty, l_brk = 0\<rparr>"

definition listnode_new :: "'a linklist \<Rightarrow> 'a linklist \<times> nat" where
  "listnode_new l =
     (l\<lparr>l_nodes := (l_nodes l)(l_brk l \<mapsto> \<lparr>ln_next = None, ln_prev = None, ln_data = None\<rparr>),
        l_brk := Suc (l_brk l)\<rparr>, l_brk l)"

definition listnode_free :: "nat \<Rightarrow> 'a linklist \<Rightarrow> 'a linklist" where
  "listnode_free a l = l\<lparr>l_nodes := (l_nodes l)(a := None)\<rparr>"

definition listnode_add :: "'a linklist \<Rightarrow> 'a option \<Rightarrow> 'a linklist res" where
  "listnode_add l val =
     and_then (ensure (val \<noteq> None)) (\<lambda>_.
       let (l, node) = listnode_new l
       in and_then (upd_at node (\<lambda>n. n\<lparr>ln_prev := l_tail l, ln_data := val\<rparr>) l) (\<lambda>l.
          and_then (if l_head l = None then Inr (l\<lparr>l_head := Some node\<rparr>)
                    else upd_ptr (l_tail l) (\<lambda>n. n\<lparr>ln_next := Some node\<rparr>) l) (\<lambda>l.
            Inr (l\<lparr>l_tail := Some node, l_count := Suc (l_count l)\<rparr>))))"

text \<open>The search of \<open>listnode_add_sort\<close> for the first node the value is smaller than.\<close>

fun sort_walk :: "nat \<Rightarrow> ('a \<Rightarrow> 'a \<Rightarrow> int) \<Rightarrow> 'a linklist \<Rightarrow> 'a \<Rightarrow> nat option \<Rightarrow> nat option res" where
  "sort_walk 0 cmp l v q = Inl Diverged"
| "sort_walk (Suc fuel) cmp l v q =
     (case q of
        None \<Rightarrow> Inr None
      | Some a \<Rightarrow> and_then (node_at l a) (\<lambda>n.
          case ln_data n of
            None \<Rightarrow> Inl NullDeref
          | Some d \<Rightarrow> if cmp v d < 0 then Inr (Some a) else sort_walk fuel cmp l v (ln_next n)))"

definition add_before :: "nat \<Rightarrow> nat \<Rightarrow> 'a linklist \<Rightarrow> 'a linklist res" where
  "add_before new n l =
     and_then (node_at l n) (\<lambda>nd.
     and_then (upd_at new (\<lambda>m. m\<lparr>ln_next := Some n, ln_prev := ln_prev nd\<rparr>) l) (\<lambda>l.
     and_then (case ln_prev nd of
         Some b \<Rightarrow> upd_at b (\<lambda>m. m\<lparr>ln_next := Some new\<rparr>) l
       | None \<Rightarrow> Inr (l\<lparr>l_head := Some new\<rparr>)) (\<lambda>l.
     and_then (upd_at n (\<lambda>m. m\<lparr>ln_prev := Some new\<rparr>) l) (\<lambda>l.
       Inr (l\<lparr>l_count := Suc (l_count l)\<rparr>)))))"

definition add_at_tail :: "nat \<Rightarrow> 'a linklist \<Rightarrow> 'a linklist res" where
  "add_at_tail new l =
     and_then (upd_at new (\<lambda>m. m\<lparr>ln_prev := l_tail l\<rparr>) l) (\<lambda>l.
     and_then (case l_tail l of
         Some b \<Rightarrow> upd_at b (\<lambda>m. m\<lparr>ln_next := Some new\<rparr>) l
       | None \<Rightarrow> Inr (l\<lparr>l_head := Some new\<rparr>)) (\<lambda>l.
       Inr (l\<lparr>l_tail := Some new, l_count := Suc (l_count l)\<rparr>)))"

definition listnode_add_sort ::
    "('a \<Rightarrow> 'a \<Rightarrow> int) option \<Rightarrow> 'a linklist \<Rightarrow> 'a option \<Rightarrow> 'a linklist res" where
  "listnode_add_sort cmp l val =
     (case val of
        None \<Rightarrow> Inl AssertFailed
      | Some v \<Rightarrow>
         let (l, new) = listnode_new l
         in and_then (upd_at new (\<lambda>n. n\<lparr>ln_data := val\<rparr>) l) (\<lambda>l.
            and_then (case cmp of
                Some c \<Rightarrow> sort_walk (walk_bound l) c l v (l_head l)
              | None \<Rightarrow> Inr None) (\<lambda>place.
              case place of Some n \<Rightarrow> add_before new n l | None \<Rightarrow> add_at_tail new l)))"

definition listnode_add_after :: "'a linklist \<Rightarrow> nat option \<Rightarrow> 'a option \<Rightarrow> 'a linklist res" where
  "listnode_add_after l pp val =
     and_then (ensure (val \<noteq> None)) (\<lambda>_.
       let (l, nn) = listnode_new l
       in and_then (upd_at nn (\<lambda>n. n\<lparr>ln_data := val\<rparr>) l) (\<lambda>l.
          and_then (case pp of
              None \<Rightarrow>
                and_then (case l_head l of
                    Some h \<Rightarrow> upd_at h (\<lambda>n. n\<lparr>ln_prev := Some nn\<rparr>) l
                  | None \<Rightarrow> Inr (l\<lparr>l_tail := Some nn\<rparr>)) (\<lambda>l.
                and_then (upd_at nn (\<lambda>n. n\<lparr>ln_next := l_head l, ln_prev := None\<rparr>) l) (\<lambda>l.
                  Inr (l\<lparr>l_head := Some nn\<rparr>)))
            | Some p \<Rightarrow> and_then (node_at l p) (\<lambda>pn.
                and_then (case ln_next pn of
                    Some b \<Rightarrow> upd_at b (\<lambda>n. n\<lparr>ln_prev := Some nn\<rparr>) l
                  | None \<Rightarrow> Inr (l\<lparr>l_tail := Some nn\<rparr>)) (\<lambda>l.
                and_then (upd_at nn (\<lambda>n. n\<lparr>ln_next := ln_next pn, ln_prev := Some p\<rparr>) l) (\<lambda>l.
                  upd_at p (\<lambda>n. n\<lparr>ln_next := Some nn\<rparr>) l)))) (\<lambda>l.
            Inr (l\<lparr>l_count := Suc (l_count l)\<rparr>))))"

text \<open>\<open>LISTNODE_DETACH\<close>, which \<open>listnode_delete\<close> and \<open>list_delete_node\<close> write out.\<close>

definition detach :: "nat \<Rightarrow> 'a linklist \<Rightarrow> 'a linklist res" where
  "detach node l =
     and_then (node_at l node) (\<lambda>nd.
     and_then (case ln_prev nd of
         Some b \<Rightarrow> upd_at b (\<lambda>n. n\<lparr>ln_next := ln_next nd\<rparr>) l
       | None \<Rightarrow> Inr (l\<lparr>l_head := ln_next nd\<rparr>)) (\<lambda>l.
     and_then (case ln_next nd of
         Some b \<Rightarrow> upd_at b (\<lambda>n. n\<lparr>ln_prev := ln_prev nd\<rparr>) l
       | None \<Rightarrow> Inr (l\<lparr>l_tail := ln_prev nd\<rparr>)) (\<lambda>l.
       Inr (l\<lparr>l_count := l_count l - 1\<rparr>))))"

definition LISTNODE_ATTACH :: "nat \<Rightarrow> 'a linklist \<Rightarrow> 'a linklist res" where
  "LISTNODE_ATTACH node l =
     and_then (upd_at node (\<lambda>n. n\<lparr>ln_prev := l_tail l, ln_next := None\<rparr>) l) (\<lambda>l.
     and_then (if l_head l = None then Inr (l\<lparr>l_head := Some node\<rparr>)
               else upd_ptr (l_tail l) (\<lambda>n. n\<lparr>ln_next := Some node\<rparr>) l) (\<lambda>l.
       Inr (l\<lparr>l_tail := Some node, l_count := Suc (l_count l)\<rparr>)))"

definition listnode_move_to_tail :: "'a linklist \<Rightarrow> nat \<Rightarrow> 'a linklist res" where
  "listnode_move_to_tail l n = and_then (detach n l) (LISTNODE_ATTACH n)"

fun data_walk :: "nat \<Rightarrow> 'a linklist \<Rightarrow> 'a option \<Rightarrow> nat option \<Rightarrow> nat option res" where
  "data_walk 0 l val q = Inl Diverged"
| "data_walk (Suc fuel) l val q =
     (case q of
        None \<Rightarrow> Inr None
      | Some a \<Rightarrow> and_then (node_at l a) (\<lambda>n.
          if ln_data n = val then Inr (Some a) else data_walk fuel l val (ln_next n)))"

definition list_delete_node :: "'a linklist \<Rightarrow> nat \<Rightarrow> 'a linklist res" where
  "list_delete_node l node = and_then (detach node l) (\<lambda>l. Inr (listnode_free node l))"

definition listnode_delete :: "'a linklist \<Rightarrow> 'a option \<Rightarrow> 'a linklist res" where
  "listnode_delete l val =
     and_then (data_walk (walk_bound l) l val (l_head l)) (\<lambda>r.
       case r of None \<Rightarrow> Inr l | Some node \<Rightarrow> list_delete_node l node)"

definition listnode_head :: "'a linklist \<Rightarrow> 'a option res" where
  "listnode_head l =
     (case l_head l of None \<Rightarrow> Inr None | Some a \<Rightarrow> and_then (node_at l a) (\<lambda>n. Inr (ln_data n)))"

text \<open>The lookup reads the data through \<open>listgetdata\<close>, which asserts that it is not null.\<close>

fun lookup_node_walk :: "nat \<Rightarrow> 'a linklist \<Rightarrow> 'a option \<Rightarrow> nat option \<Rightarrow> nat option res" where
  "lookup_node_walk 0 l val q = Inl Diverged"
| "lookup_node_walk (Suc fuel) l val q =
     (case q of
        None \<Rightarrow> Inr None
      | Some a \<Rightarrow> and_then (node_at l a) (\<lambda>n.
          and_then (ensure (ln_data n \<noteq> None)) (\<lambda>_.
            if ln_data n = val then Inr (Some a) else lookup_node_walk fuel l val (ln_next n))))"

definition listnode_lookup :: "'a linklist \<Rightarrow> 'a option \<Rightarrow> nat option res" where
  "listnode_lookup l val = lookup_node_walk (walk_bound l) l val (l_head l)"

fun del_walk :: "nat \<Rightarrow> 'a linklist \<Rightarrow> nat option \<Rightarrow> ('a linklist \<times> 'a option list) res" where
  "del_walk 0 l q = Inl Diverged"
| "del_walk (Suc fuel) l q =
     (case q of
        None \<Rightarrow> Inr (l, [])
      | Some a \<Rightarrow> and_then (node_at l a) (\<lambda>n.
          and_then (del_walk fuel (listnode_free a l) (ln_next n)) (\<lambda>(l, ds).
            Inr (l, ln_data n # ds))))"

definition list_delete_all_node :: "'a linklist \<Rightarrow> ('a linklist \<times> 'a option list) res" where
  "list_delete_all_node l =
     and_then (del_walk (walk_bound l) l (l_head l)) (\<lambda>(l, ds).
       Inr (l\<lparr>l_head := None, l_tail := None, l_count := 0\<rparr>, ds))"

definition list_add_node_prev :: "'a linklist \<Rightarrow> nat \<Rightarrow> 'a option \<Rightarrow> 'a linklist res" where
  "list_add_node_prev l current val =
     and_then (ensure (val \<noteq> None)) (\<lambda>_.
       let (l, node) = listnode_new l
       in and_then (upd_at node (\<lambda>n. n\<lparr>ln_next := Some current, ln_data := val\<rparr>) l) (\<lambda>l.
          and_then (node_at l current) (\<lambda>cn.
          and_then (case ln_prev cn of
              None \<Rightarrow> Inr (l\<lparr>l_head := Some node\<rparr>)
            | Some b \<Rightarrow> upd_at b (\<lambda>n. n\<lparr>ln_next := Some node\<rparr>) l) (\<lambda>l.
          and_then (upd_at node (\<lambda>n. n\<lparr>ln_prev := ln_prev cn\<rparr>) l) (\<lambda>l.
          and_then (upd_at current (\<lambda>n. n\<lparr>ln_prev := Some node\<rparr>) l) (\<lambda>l.
            Inr (l\<lparr>l_count := Suc (l_count l)\<rparr>)))))))"

definition list_add_node_next :: "'a linklist \<Rightarrow> nat \<Rightarrow> 'a option \<Rightarrow> 'a linklist res" where
  "list_add_node_next l current val =
     and_then (ensure (val \<noteq> None)) (\<lambda>_.
       let (l, node) = listnode_new l
       in and_then (upd_at node (\<lambda>n. n\<lparr>ln_prev := Some current, ln_data := val\<rparr>) l) (\<lambda>l.
          and_then (node_at l current) (\<lambda>cn.
          and_then (case ln_next cn of
              None \<Rightarrow> Inr (l\<lparr>l_tail := Some node\<rparr>)
            | Some b \<Rightarrow> upd_at b (\<lambda>n. n\<lparr>ln_prev := Some node\<rparr>) l) (\<lambda>l.
          and_then (upd_at node (\<lambda>n. n\<lparr>ln_next := ln_next cn\<rparr>) l) (\<lambda>l.
          and_then (upd_at current (\<lambda>n. n\<lparr>ln_next := Some node\<rparr>) l) (\<lambda>l.
            Inr (l\<lparr>l_count := Suc (l_count l)\<rparr>)))))))"

fun add_list_walk :: "nat \<Rightarrow> 'a linklist \<Rightarrow> 'a linklist \<Rightarrow> nat option \<Rightarrow> 'a linklist res" where
  "add_list_walk 0 l m q = Inl Diverged"
| "add_list_walk (Suc fuel) l m q =
     (case q of
        None \<Rightarrow> Inr l
      | Some a \<Rightarrow> and_then (node_at m a) (\<lambda>n.
          and_then (listnode_add l (ln_data n)) (\<lambda>l. add_list_walk fuel l m (ln_next n))))"

definition list_add_list :: "'a linklist \<Rightarrow> 'a linklist \<Rightarrow> 'a linklist res" where
  "list_add_list l m = add_list_walk (walk_bound m) l m (l_head m)"

section \<open>Representation\<close>

definition lk_of :: "'a linklist \<Rightarrow> links" where
  "lk_of l a = map_option (\<lambda>n. (ln_next n, ln_prev n)) (l_nodes l a)"

definition data_at :: "'a linklist \<Rightarrow> nat \<Rightarrow> 'a" where
  "data_at l a = the (ln_data (the (l_nodes l a)))"

definition ll_rep :: "'a linklist \<Rightarrow> nat list \<Rightarrow> bool" where
  "ll_rep l ps \<longleftrightarrow> dll (lk_of l) (l_head l) (l_tail l) ps \<and> dom (l_nodes l) = set ps \<and>
     l_count l = length ps \<and> (\<forall>p \<in> set ps. p < l_brk l) \<and>
     (\<forall>n \<in> ran (l_nodes l). ln_data n \<noteq> None)"

text \<open>The list of data a linked list stands for.\<close>

definition ll_abs :: "'a linklist \<Rightarrow> 'a list \<Rightarrow> bool" where
  "ll_abs l xs \<longleftrightarrow> (\<exists>ps. ll_rep l ps \<and> xs = map (data_at l) ps)"

lemma ll_rep_node:
  assumes "ll_rep l (xs @ x # ys)"
  shows "\<exists>n. l_nodes l x = Some n \<and> ln_next n = first_p ys \<and> ln_prev n = last_p xs \<and> ln_data n \<noteq> None"
proof -
  have lk: "lk_of l x = Some (first_p ys, last_p xs)" using assms dll_node(1) by (auto simp: ll_rep_def)
  then obtain n where "l_nodes l x = Some n" "ln_next n = first_p ys" "ln_prev n = last_p xs"
    by (auto simp: lk_of_def)
  moreover from this assms have "ln_data n \<noteq> None" by (auto simp: ll_rep_def ran_def)
  ultimately show ?thesis by blast
qed

lemma ll_rep_bound:
  assumes "ll_rep l ps"
  shows "length ps < walk_bound l"
proof -
  from assms have "set ps \<subseteq> {..<l_brk l}" "distinct ps" by (auto simp: ll_rep_def dll_def)
  then have "length ps \<le> l_brk l" by (metis card_lessThan card_mono distinct_card finite_lessThan)
  then show ?thesis by (simp add: walk_bound_def)
qed

section \<open>Insertion and removal\<close>

text \<open>The change to the neighbours of a place: what was last before it and first after it.\<close>

definition patch ::
    "nat option \<Rightarrow> nat option \<Rightarrow> nat option \<Rightarrow> nat option \<Rightarrow> nat \<Rightarrow> 'a listnode \<Rightarrow> 'a listnode" where
  "patch lp nx fp pv a n = n\<lparr>ln_next := (if lp = Some a then nx else ln_next n),
                              ln_prev := (if fp = Some a then pv else ln_prev n)\<rparr>"

lemma patch_simps [simp]:
  "ln_next (patch lp nx fp pv a n) = (if lp = Some a then nx else ln_next n)"
  "ln_prev (patch lp nx fp pv a n) = (if fp = Some a then pv else ln_prev n)"
  "ln_data (patch lp nx fp pv a n) = ln_data n"
  by (simp_all add: patch_def)

lemma patch_other [simp]: "lp \<noteq> Some a \<Longrightarrow> fp \<noteq> Some a \<Longrightarrow> patch lp nx fp pv a n = n"
  "lp \<noteq> Some a \<Longrightarrow> fp \<noteq> Some a \<Longrightarrow> map_option (patch lp nx fp pv a) r = r"
  by (simp_all add: patch_def) (cases r, simp_all)

text \<open>The list with a new node of data \<open>v\<close> between the nodes \<open>xs\<close> and \<open>ys\<close>.\<close>

definition ins :: "nat list \<Rightarrow> nat list \<Rightarrow> 'a \<Rightarrow> 'a linklist \<Rightarrow> 'a linklist" where
  "ins xs ys v l = \<lparr>l_head = (if xs = [] then Some (l_brk l) else l_head l),
     l_tail = (if ys = [] then Some (l_brk l) else l_tail l), l_count = Suc (l_count l),
     l_nodes = (\<lambda>a. if a = l_brk l then Some \<lparr>ln_next = first_p ys, ln_prev = last_p xs, ln_data = Some v\<rparr>
       else map_option (patch (last_p xs) (Some (l_brk l)) (first_p ys) (Some (l_brk l)) a) (l_nodes l a)),
     l_brk = Suc (l_brk l)\<rparr>"

definition del :: "nat list \<Rightarrow> nat \<Rightarrow> nat list \<Rightarrow> 'a linklist \<Rightarrow> 'a linklist" where
  "del xs x ys l = l\<lparr>l_head := (if xs = [] then first_p ys else l_head l),
     l_tail := (if ys = [] then last_p xs else l_tail l), l_count := l_count l - 1,
     l_nodes := (\<lambda>a. if a = x then None
       else map_option (patch (last_p xs) (first_p ys) (first_p ys) (last_p xs) a) (l_nodes l a))\<rparr>"

lemma ins_rep:
  assumes "ll_rep l (xs @ ys)"
  shows "ll_rep (ins xs ys v l) (xs @ l_brk l # ys)"
    "map (data_at (ins xs ys v l)) (xs @ l_brk l # ys) = map (data_at l) xs @ v # map (data_at l) ys"
proof -
  have r: "dll (lk_of l) (l_head l) (l_tail l) (xs @ ys)" "dom (l_nodes l) = set (xs @ ys)"
    "l_count l = length (xs @ ys)" "\<And>p. p \<in> set (xs @ ys) \<Longrightarrow> p < l_brk l"
    "\<And>a n. l_nodes l a = Some n \<Longrightarrow> ln_data n \<noteq> None" using assms by (auto simp: ll_rep_def ran_def)
  have x: "l_brk l \<notin> set (xs @ ys)" using r(4) by blast
  have "dll (lk_of (ins xs ys v l)) (l_head (ins xs ys v l)) (l_tail (ins xs ys v l)) (xs @ l_brk l # ys)"
    using x r(1) by (intro dll_insert [OF r(1) x]) (auto simp: ins_def lk_of_def)
  moreover have "dom (l_nodes (ins xs ys v l)) = set (xs @ l_brk l # ys)"
    using r(2) by (auto simp: ins_def set_eq_iff dom_def split: if_splits)
  moreover have "ln_data n \<noteq> None" if n: "n \<in> ran (l_nodes (ins xs ys v l))" for n
    using n by (auto simp: ins_def ran_def split: if_splits dest: r(5))
  ultimately show "ll_rep (ins xs ys v l) (xs @ l_brk l # ys)"
    using r(3,4) by (auto simp: ll_rep_def ins_def less_Suc_eq)
  have "data_at (ins xs ys v l) p = data_at l p" if "p \<in> set (xs @ ys)" for p
  proof -
    have "p \<noteq> l_brk l" "p \<in> dom (l_nodes l)" using that x r(2) by auto
    then show ?thesis by (auto simp: data_at_def ins_def)
  qed
  moreover have "data_at (ins xs ys v l) (l_brk l) = v" by (simp add: data_at_def ins_def)
  ultimately show "map (data_at (ins xs ys v l)) (xs @ l_brk l # ys) = map (data_at l) xs @ v # map (data_at l) ys"
    by simp
qed

lemma del_rep:
  assumes "ll_rep l (xs @ x # ys)"
  shows "ll_rep (del xs x ys l) (xs @ ys)"
    "map (data_at (del xs x ys l)) (xs @ ys) = map (data_at l) xs @ map (data_at l) ys"
proof -
  have r: "dll (lk_of l) (l_head l) (l_tail l) (xs @ x # ys)" "dom (l_nodes l) = set (xs @ x # ys)"
    "l_count l = length (xs @ x # ys)" "\<And>p. p \<in> set (xs @ x # ys) \<Longrightarrow> p < l_brk l"
    "\<And>a n. l_nodes l a = Some n \<Longrightarrow> ln_data n \<noteq> None" using assms by (auto simp: ll_rep_def ran_def)
  have x: "x \<notin> set (xs @ ys)" using r(1) by (simp add: dll_def)
  have "dll (lk_of (del xs x ys l)) (l_head (del xs x ys l)) (l_tail (del xs x ys l)) (xs @ ys)"
    using x by (intro dll_remove [OF r(1)]) (auto simp: del_def lk_of_def)
  moreover have "dom (l_nodes (del xs x ys l)) = set (xs @ ys)"
    using r(2) x by (auto simp: del_def set_eq_iff dom_def split: if_splits)
  moreover have "ln_data n \<noteq> None" if n: "n \<in> ran (l_nodes (del xs x ys l))" for n
    using n by (auto simp: del_def ran_def split: if_splits dest: r(5))
  ultimately show "ll_rep (del xs x ys l) (xs @ ys)"
    using r(3,4) by (auto simp: ll_rep_def del_def)
  have "data_at (del xs x ys l) p = data_at l p" if "p \<in> set (xs @ ys)" for p
  proof -
    have "p \<noteq> x" "p \<in> dom (l_nodes l)" using that x r(2) by auto
    then show ?thesis by (auto simp: data_at_def del_def)
  qed
  then show "map (data_at (del xs x ys l)) (xs @ ys) = map (data_at l) xs @ map (data_at l) ys" by simp
qed

lemma listnode_add_ins:
  assumes "ll_rep l xs"
  shows "listnode_add l (Some v) = Inr (ins xs [] v l)"
proof -
  have nin: "l_brk l \<notin> dom (l_nodes l)" using assms by (auto simp: ll_rep_def)
  have ends: "l_head l = first_p xs" "l_tail l = last_p xs" using assms dll_ends by (auto simp: ll_rep_def)
  show ?thesis
  proof (cases xs rule: rev_cases)
    case Nil
    then have "l_nodes l = Map.empty" using assms by (auto simp: ll_rep_def)
    with Nil ends show ?thesis
      by (auto simp: listnode_add_def listnode_new_def upd_at_def node_at_def ins_def intro!: linklist.equality)
  next
    case (snoc ys y)
    with assms obtain n where n: "l_nodes l y = Some n" using ll_rep_node [of l ys y "[]"] by auto
    then have "y \<noteq> l_brk l" using nin by auto
    with snoc ends nin n show ?thesis
      by (auto simp: listnode_add_def listnode_new_def upd_at_def upd_ptr_def node_at_def ins_def fun_eq_iff
          patch_def intro!: linklist.equality)
  qed
qed

lemma ll_rep_split:
  assumes "ll_rep l (xs @ y # ys)"
  obtains n where "l_nodes l y = Some n" "ln_next n = first_p ys" "ln_prev n = last_p xs"
    "l_head l = first_p (xs @ y # ys)" "l_tail l = last_p (xs @ y # ys)" "y \<noteq> l_brk l"
    "l_nodes l (l_brk l) = None"
    "\<And>b. last_p xs = Some b \<Longrightarrow> b \<noteq> y \<and> b \<noteq> l_brk l \<and> (\<exists>m. l_nodes l b = Some m) \<and> first_p ys \<noteq> Some b"
    "\<And>b. first_p ys = Some b \<Longrightarrow> b \<noteq> y \<and> b \<noteq> l_brk l \<and> (\<exists>m. l_nodes l b = Some m)"
proof -
  from assms have d: "distinct (xs @ y # ys)" "dom (l_nodes l) = set (xs @ y # ys)"
    "\<And>p. p \<in> set (xs @ y # ys) \<Longrightarrow> p < l_brk l" by (auto simp: ll_rep_def dll_def)
  have dm: "\<exists>m. l_nodes l b = Some m" "b \<noteq> l_brk l" if "b \<in> set (xs @ y # ys)" for b
    using d(2,3) that by blast+
  have nb: "l_nodes l (l_brk l) = None" using d(2,3) by blast
  obtain n where n: "l_nodes l y = Some n" "ln_next n = first_p ys" "ln_prev n = last_p xs"
    using ll_rep_node [OF assms] by blast
  have ends: "l_head l = first_p (xs @ y # ys)" "l_tail l = last_p (xs @ y # ys)"
    using assms dll_ends by (auto simp: ll_rep_def)
  have lp: "b \<noteq> y \<and> b \<noteq> l_brk l \<and> (\<exists>m. l_nodes l b = Some m) \<and> first_p ys \<noteq> Some b" if "last_p xs = Some b" for b
    using ptr_in_set(2) [OF that] ptr_in_set(1) [of ys b] d(1) dm [of b] by auto
  have fp: "b \<noteq> y \<and> b \<noteq> l_brk l \<and> (\<exists>m. l_nodes l b = Some m)" if "first_p ys = Some b" for b
    using ptr_in_set(1) [OF that] d(1) dm [of b] by auto
  show thesis using that [OF n ends _ nb lp fp] dm(2) [of y] by simp
qed

lemma first_p_append [simp]: "first_p (xs @ ys) = (if xs = [] then first_p ys else first_p xs)"
  by (cases xs) auto

lemma last_p_append [simp]: "last_p (xs @ ys) = (if ys = [] then last_p xs else last_p ys)"
  by (auto simp: last_p_def)

lemmas node_ops = upd_at_def upd_ptr_def node_at_def listnode_new_def fun_eq_iff patch_def

lemma list_delete_node_del:
  assumes "ll_rep l (xs @ x # ys)"
  shows "list_delete_node l x = Inr (del xs x ys l)"
  using assms
proof (rule ll_rep_split)
  fix n
  assume n: "l_nodes l x = Some n" "ln_next n = first_p ys" "ln_prev n = last_p xs"
    and ends: "l_head l = first_p (xs @ x # ys)" "l_tail l = last_p (xs @ x # ys)"
    and lp: "\<And>b. last_p xs = Some b \<Longrightarrow> b \<noteq> x \<and> b \<noteq> l_brk l \<and> (\<exists>m. l_nodes l b = Some m) \<and> first_p ys \<noteq> Some b"
    and fp: "\<And>b. first_p ys = Some b \<Longrightarrow> b \<noteq> x \<and> b \<noteq> l_brk l \<and> (\<exists>m. l_nodes l b = Some m)"
  show ?thesis
  proof (cases "last_p xs"; cases "first_p ys")
    fix b c
    assume bc: "last_p xs = Some b" "first_p ys = Some c"
    then obtain m k where "l_nodes l b = Some m" "l_nodes l c = Some k" "b \<noteq> c" "b \<noteq> x" "c \<noteq> x"
      using lp [of b] fp [of c] by auto
    with bc n ends show ?thesis
      by (auto simp: list_delete_node_def detach_def listnode_free_def del_def node_ops intro!: linklist.equality)
  qed (insert n ends lp fp, auto simp: list_delete_node_def detach_def listnode_free_def del_def node_ops
      intro!: linklist.equality)
qed

lemma list_add_node_prev_ins:
  assumes "ll_rep l (xs @ x # ys)"
  shows "list_add_node_prev l x (Some v) = Inr (ins xs (x # ys) v l)"
  using assms
proof (rule ll_rep_split)
  fix n
  assume n: "l_nodes l x = Some n" "ln_next n = first_p ys" "ln_prev n = last_p xs"
    and ends: "l_head l = first_p (xs @ x # ys)" "l_tail l = last_p (xs @ x # ys)"
    and x: "x \<noteq> l_brk l" "l_nodes l (l_brk l) = None"
    and lp: "\<And>b. last_p xs = Some b \<Longrightarrow> b \<noteq> x \<and> b \<noteq> l_brk l \<and> (\<exists>m. l_nodes l b = Some m) \<and> first_p ys \<noteq> Some b"
  show ?thesis
  proof (cases "last_p xs")
    case None
    with n ends x show ?thesis
      by (auto simp: list_add_node_prev_def ins_def node_ops intro!: linklist.equality)
  next
    case (Some b)
    with lp obtain m where "b \<noteq> x" "b \<noteq> l_brk l" "l_nodes l b = Some m" by auto
    with Some n ends x show ?thesis
      by (auto simp: list_add_node_prev_def ins_def node_ops intro!: linklist.equality)
  qed
qed

lemma list_add_node_next_ins:
  assumes "ll_rep l (xs @ x # ys)"
  shows "list_add_node_next l x (Some v) = Inr (ins (xs @ [x]) ys v l)"
    "listnode_add_after l (Some x) (Some v) = Inr (ins (xs @ [x]) ys v l)"
proof -
  have "list_add_node_next l x (Some v) = Inr (ins (xs @ [x]) ys v l) \<and>
    listnode_add_after l (Some x) (Some v) = Inr (ins (xs @ [x]) ys v l)"
    using assms
  proof (rule ll_rep_split)
    fix n
    assume n: "l_nodes l x = Some n" "ln_next n = first_p ys" "ln_prev n = last_p xs"
      and ends: "l_head l = first_p (xs @ x # ys)" "l_tail l = last_p (xs @ x # ys)"
      and x: "x \<noteq> l_brk l" "l_nodes l (l_brk l) = None"
      and fp: "\<And>b. first_p ys = Some b \<Longrightarrow> b \<noteq> x \<and> b \<noteq> l_brk l \<and> (\<exists>m. l_nodes l b = Some m)"
    show ?thesis
    proof (cases "first_p ys")
      case None
      with n ends x show ?thesis
        by (auto simp: list_add_node_next_def listnode_add_after_def ins_def node_ops intro!: linklist.equality)
    next
      case (Some b)
      with fp obtain m where "b \<noteq> x" "b \<noteq> l_brk l" "l_nodes l b = Some m" by auto
      with Some n ends x show ?thesis
        by (auto simp: list_add_node_next_def listnode_add_after_def ins_def node_ops intro!: linklist.equality)
    qed
  qed
  then show "list_add_node_next l x (Some v) = Inr (ins (xs @ [x]) ys v l)"
    "listnode_add_after l (Some x) (Some v) = Inr (ins (xs @ [x]) ys v l)" by simp_all
qed

lemma listnode_add_after_head:
  assumes "ll_rep l xs"
  shows "listnode_add_after l None (Some v) = Inr (ins [] xs v l)"
proof (cases xs)
  case Nil
  then have "l_nodes l = Map.empty" "l_head l = None" "l_tail l = None"
    using assms dll_ends [of "lk_of l" "l_head l" "l_tail l" xs] by (auto simp: ll_rep_def)
  with Nil show ?thesis
    by (auto simp: listnode_add_after_def ins_def node_ops intro!: linklist.equality)
next
  case (Cons x ys)
  with assms have "ll_rep l ([] @ x # ys)" by simp
  then show ?thesis
  proof (rule ll_rep_split)
    fix n
    assume "l_nodes l x = Some n" "l_head l = first_p ([] @ x # ys)" "l_tail l = last_p ([] @ x # ys)"
      "x \<noteq> l_brk l" "l_nodes l (l_brk l) = None"
    with Cons show ?thesis
      by (auto simp: listnode_add_after_def ins_def node_ops intro!: linklist.equality)
  qed
qed

section \<open>Walks\<close>

lemma data_walk_find:
  assumes "ll_rep l (ws @ ps)" "length ps < fuel"
  shows "data_walk fuel l (Some v) (first_p ps) = Inr (first_p (dropWhile (\<lambda>p. data_at l p \<noteq> v) ps)) \<and>
    lookup_node_walk fuel l (Some v) (first_p ps) = Inr (first_p (dropWhile (\<lambda>p. data_at l p \<noteq> v) ps))"
  using assms
proof (induction ps arbitrary: ws fuel)
  case Nil
  then show ?case by (cases fuel) auto
next
  case (Cons p ps)
  obtain n d where n: "l_nodes l p = Some n" "ln_next n = first_p ps" "ln_data n = Some d"
    using ll_rep_node [OF Cons.prems(1)] by auto
  moreover have "data_at l p = d" using n by (simp add: data_at_def)
  moreover have "ll_rep l ((ws @ [p]) @ ps)" using Cons.prems(1) by simp
  ultimately show ?case
    using Cons.IH [of "ws @ [p]"] Cons.prems(2) by (cases fuel) (auto simp: node_at_def)
qed

lemma sort_walk_find:
  assumes "ll_rep l0 (ws @ ps)" "\<And>p. p \<in> set ps \<Longrightarrow> l_nodes l p = l_nodes l0 p" "length ps < fuel"
  shows "sort_walk fuel cmp l v (first_p ps) = Inr (first_p (dropWhile (\<lambda>p. \<not> cmp v (data_at l0 p) < 0) ps))"
  using assms
proof (induction ps arbitrary: ws fuel)
  case Nil
  then show ?case by (cases fuel) auto
next
  case (Cons p ps)
  obtain n d where n: "l_nodes l p = Some n" "ln_next n = first_p ps" "ln_data n = Some d"
    using ll_rep_node [OF Cons.prems(1)] Cons.prems(2) [of p] by auto
  moreover have "data_at l0 p = d" using n Cons.prems(2) [of p] by (simp add: data_at_def)
  moreover have "ll_rep l0 ((ws @ [p]) @ ps)" using Cons.prems(1) by simp
  ultimately show ?case
    using Cons.IH [of "ws @ [p]"] Cons.prems(2,3) by (cases fuel) (auto simp: node_at_def)
qed

lemma first_p_dropWhile:
  "first_p (dropWhile P ps) = Some q \<Longrightarrow> ps = takeWhile P ps @ q # tl (dropWhile P ps)"
  by (metis first_p_simps(1) first_p_def list.case_eq_if list.collapse option.distinct(1) option.inject takeWhile_dropWhile_id)

lemma remove1_map:
  "dropWhile (\<lambda>p. f p \<noteq> v) ps = q # rest \<Longrightarrow>
   remove1 v (map f ps) = map f (takeWhile (\<lambda>p. f p \<noteq> v) ps) @ map f rest"
  by (induction ps) (auto split: if_splits)

lemma listnode_delete_del:
  assumes "ll_rep l ps"
  shows "\<exists>l' qs. listnode_delete l (Some v) = Inr l' \<and> ll_rep l' qs \<and>
     map (data_at l') qs = remove1 v (map (data_at l) ps)"
proof -
  let ?P = "\<lambda>p. data_at l p \<noteq> v"
  have h: "l_head l = first_p ps" using assms dll_ends by (auto simp: ll_rep_def)
  have walk: "data_walk (walk_bound l) l (Some v) (l_head l) = Inr (first_p (dropWhile ?P ps))"
    using data_walk_find [of l "[]" ps] assms ll_rep_bound [OF assms] h by simp
  show ?thesis
  proof (cases "dropWhile ?P ps")
    case Nil
    then have "v \<notin> set (map (data_at l) ps)" by (auto simp: dropWhile_eq_Nil_conv)
    then show ?thesis using walk Nil assms by (auto simp: listnode_delete_def remove1_idem)
  next
    case (Cons q rest)
    then have ps: "ps = takeWhile ?P ps @ q # rest" by (metis takeWhile_dropWhile_id)
    then have rep: "ll_rep l (takeWhile ?P ps @ q # rest)" using assms by simp
    have "listnode_delete l (Some v) = Inr (del (takeWhile ?P ps) q rest l)"
      using walk Cons list_delete_node_del [OF rep] by (simp add: listnode_delete_def)
    with del_rep [OF rep] remove1_map [OF Cons] show ?thesis by metis
  qed
qed

lemma listnode_add_sort_ins:
  assumes "ll_rep l ps"
  shows "listnode_add_sort (Some cmp) l (Some v) =
     Inr (ins (takeWhile (\<lambda>p. \<not> cmp v (data_at l p) < 0) ps) (dropWhile (\<lambda>p. \<not> cmp v (data_at l p) < 0) ps) v l)"
proof -
  let ?P = "\<lambda>p. \<not> cmp v (data_at l p) < 0"
  let ?l = "l\<lparr>l_brk := Suc (l_brk l), l_nodes := (l_nodes l)(l_brk l \<mapsto> \<lparr>ln_next = None, ln_prev = None, ln_data = Some v\<rparr>)\<rparr>"
  have b: "\<And>p. p \<in> set ps \<Longrightarrow> p < l_brk l" using assms by (auto simp: ll_rep_def)
  have h: "l_head l = first_p ps" "l_tail l = last_p ps" using assms dll_ends by (auto simp: ll_rep_def)
  have "\<And>p. p \<in> set ps \<Longrightarrow> l_nodes ?l p = l_nodes l p" using b by force
  then have walk: "sort_walk (walk_bound ?l) cmp ?l v (l_head ?l) = Inr (first_p (dropWhile ?P ps))"
    using sort_walk_find [of l "[]" ps ?l "walk_bound ?l" cmp v] assms ll_rep_bound [OF assms] h
    by (simp add: walk_bound_def)
  have new: "listnode_add_sort (Some cmp) l (Some v) =
     (case first_p (dropWhile ?P ps) of Some n \<Rightarrow> add_before (l_brk l) n ?l | None \<Rightarrow> add_at_tail (l_brk l) ?l)"
    using walk by (simp add: listnode_add_sort_def listnode_new_def upd_at_def node_at_def)
  show ?thesis
  proof (cases "dropWhile ?P ps")
    case Nil
    then have tw: "takeWhile ?P ps = ps" by (simp add: dropWhile_eq_Nil_conv takeWhile_eq_all_conv)
    show ?thesis
    proof (cases ps rule: rev_cases)
      case (snoc ys y)
      then have "y < l_brk l" "\<exists>n. l_nodes l y = Some n" using b assms by (auto simp: ll_rep_def)
      then obtain n where "y \<noteq> l_brk l" "l_nodes l y = Some n" by auto
      then show ?thesis
        unfolding new tw Nil using h snoc
        by (auto simp: add_at_tail_def ins_def node_ops intro!: linklist.equality)
    qed (insert h assms, unfold new tw Nil, auto simp: add_at_tail_def ins_def node_ops ll_rep_def intro!: linklist.equality)
  next
    case (Cons q rest)
    let ?tw = "takeWhile ?P ps"
    have ps: "ps = ?tw @ q # rest" using Cons by (metis takeWhile_dropWhile_id)
    then have "ll_rep l (?tw @ q # rest)" using assms by simp
    then show ?thesis
    proof (rule ll_rep_split)
      fix n
      assume n: "l_nodes l q = Some n" "ln_next n = first_p rest" "ln_prev n = last_p ?tw"
        and ends: "l_head l = first_p (?tw @ q # rest)" "l_tail l = last_p (?tw @ q # rest)"
        and x: "q \<noteq> l_brk l" "l_nodes l (l_brk l) = None"
        and lp: "\<And>b. last_p ?tw = Some b \<Longrightarrow> b \<noteq> q \<and> b \<noteq> l_brk l \<and> (\<exists>m. l_nodes l b = Some m) \<and> first_p rest \<noteq> Some b"
      show ?thesis
      proof (cases "last_p ?tw")
        case None
        with n ends x Cons show ?thesis
          unfolding new Cons by (auto simp: add_before_def ins_def node_ops intro!: linklist.equality)
      next
        case (Some c)
        with lp obtain m where "c \<noteq> q" "c \<noteq> l_brk l" "l_nodes l c = Some m" by auto
        with Some n ends x Cons show ?thesis
          unfolding new Cons by (auto simp: add_before_def ins_def node_ops intro!: linklist.equality)
      qed
    qed
  qed
qed

lemma takeWhile_map_data: "takeWhile Q (map f ps) = map f (takeWhile (Q \<circ> f) ps)"
  "dropWhile Q (map f ps) = map f (dropWhile (Q \<circ> f) ps)"
  by (induction ps) auto

section \<open>Properties\<close>

lemma listnode_add_abs: "ll_abs l xs \<Longrightarrow> \<exists>l'. listnode_add l (Some v) = Inr l' \<and> ll_abs l' (xs @ [v])"
  using listnode_add_ins ins_rep [of l _ "[]"] by (fastforce simp: ll_abs_def)

lemma listnode_head_abs:
  assumes "ll_rep l ps"
  shows "listnode_head l = Inr (if ps = [] then None else Some (data_at l (hd ps)))"
proof -
  have h: "l_head l = first_p ps" using assms dll_ends by (auto simp: ll_rep_def)
  show ?thesis
  proof (cases ps)
    case (Cons p qs)
    with ll_rep_node [of l "[]" p qs] assms h show ?thesis by (auto simp: listnode_head_def node_at_def data_at_def)
  qed (simp add: listnode_head_def h)
qed

lemma listnode_delete_abs:
  "ll_abs l xs \<Longrightarrow> \<exists>l'. listnode_delete l (Some v) = Inr l' \<and> ll_abs l' (remove1 v xs)"
  unfolding ll_abs_def using listnode_delete_del [of l _ v] by metis

lemma listnode_head_hd:
  "ll_abs l xs \<Longrightarrow> listnode_head l = Inr (case xs of [] \<Rightarrow> None | x # _ \<Rightarrow> Some x)"
  unfolding ll_abs_def by (auto simp: listnode_head_abs split: list.splits)

text \<open>Taking the head's data off the list, as the callers that use a list as a queue do.\<close>

definition head_then_delete :: "'a linklist \<Rightarrow> ('a linklist \<times> 'a option) res" where
  "head_then_delete l = and_then (listnode_head l) (\<lambda>x.
     case x of None \<Rightarrow> Inr (l, None) | Some v \<Rightarrow> and_then (listnode_delete l (Some v)) (\<lambda>l. Inr (l, Some v)))"

interpretation lqueue: queue_impl ll_abs "\<lambda>_ _. True" "\<lambda>v l. listnode_add l (Some v)" head_then_delete
proof
  fix l :: "'a linklist" and xs
  assume a: "ll_abs l xs"
  show "\<exists>l'. head_then_delete l = Inr (l', case xs of [] \<Rightarrow> None | x # _ \<Rightarrow> Some x) \<and> ll_abs l' (tl xs)"
  proof (cases xs)
    case (Cons x ys)
    with listnode_delete_abs [OF a, of x] listnode_head_hd [OF a] show ?thesis
      by (auto simp: head_then_delete_def)
  qed (insert a listnode_head_hd [OF a], simp add: head_then_delete_def)
qed (auto dest: listnode_add_abs)

text \<open>C34: the linked list is a list. On a list that stands for \<open>xs\<close>, adding appends, deleting
  removes the first occurrence and leaves the list alone when there is none, the head is the first
  element, and the lookup finds a node exactly when the value occurs; no null or freed pointer is
  followed and the node count stays right.\<close>

theorem linklist_refines_list:
  assumes "ll_abs l xs"
  shows "(\<exists>l'. listnode_add l (Some v) = Inr l' \<and> ll_abs l' (xs @ [v])) \<and>
     (\<exists>l'. listnode_delete l (Some v) = Inr l' \<and> ll_abs l' (remove1 v xs)) \<and>
     listnode_head l = Inr (case xs of [] \<Rightarrow> None | x # _ \<Rightarrow> Some x) \<and>
     (\<exists>r. listnode_lookup l (Some v) = Inr r \<and> (r \<noteq> None \<longleftrightarrow> v \<in> set xs)) \<and>
     l_count l = length xs"
proof -
  from assms obtain ps where rep: "ll_rep l ps" and xs: "xs = map (data_at l) ps" by (auto simp: ll_abs_def)
  have h: "l_head l = first_p ps" using rep dll_ends by (auto simp: ll_rep_def)
  have "\<exists>r. listnode_lookup l (Some v) = Inr r \<and> (r \<noteq> None \<longleftrightarrow> v \<in> set xs)"
  proof (intro exI conjI)
    let ?r = "first_p (dropWhile (\<lambda>p. data_at l p \<noteq> v) ps)"
    show "listnode_lookup l (Some v) = Inr ?r"
      using data_walk_find [of l "[]" ps] rep ll_rep_bound [OF rep] h by (simp add: listnode_lookup_def)
    show "?r \<noteq> None \<longleftrightarrow> v \<in> set xs"
      unfolding ptr_None dropWhile_eq_Nil_conv xs by auto
  qed
  moreover have "l_count l = length xs" using rep xs by (simp add: ll_rep_def)
  ultimately show ?thesis 
    using listnode_add_abs [OF assms, of v] listnode_delete_abs [OF assms, of v] listnode_head_hd [OF assms]
    by (intro conjI)
qed

lemma ll_abs_new: "ll_abs list_new []"
  by (auto simp: ll_abs_def ll_rep_def list_new_def dll_def)

theorem linklist_refines_list_witness:
  "\<exists>l l'. listnode_add list_new (Some (3 :: nat)) = Inr l \<and> listnode_delete l (Some 3) = Inr l' \<and>
     ll_abs l' [] \<and> l_count l = 1"
proof -
  from listnode_add_abs [OF ll_abs_new, of "3 :: nat"] obtain l where
    l: "listnode_add list_new (Some (3 :: nat)) = Inr l" "ll_abs l [3]" by auto
  with linklist_refines_list [OF l(2), of 3] show ?thesis by auto
qed

text \<open>\<open>listnode_add_sort\<close> inserts before the first element that is greater, so after
  the elements equal to it, and a list sorted by a comparison callback that is a total preorder
  stays sorted.\<close>

theorem listnode_add_sort_sorted:
  assumes "ll_abs l xs" "sorted_wrt (\<lambda>a b. cmp a b \<le> 0) xs"
    and sym: "\<And>a b. cmp a b < 0 \<longleftrightarrow> cmp b a > 0" and trans: "\<And>a b c. cmp a b \<le> 0 \<Longrightarrow> cmp b c \<le> 0 \<Longrightarrow> cmp a c \<le> 0"
  shows "\<exists>l' ys zs. listnode_add_sort (Some cmp) l (Some v) = Inr l' \<and> xs = ys @ zs \<and> ll_abs l' (ys @ v # zs) \<and>
     sorted_wrt (\<lambda>a b. cmp a b \<le> 0) (ys @ v # zs) \<and> (\<forall>y \<in> set ys. \<not> cmp v y < 0)"
proof -
  from assms(1) obtain ps where rep: "ll_rep l ps" and xs: "xs = map (data_at l) ps" by (auto simp: ll_abs_def)
  let ?P = "\<lambda>p. \<not> cmp v (data_at l p) < 0" and ?Q = "\<lambda>x. \<not> cmp v x < 0"
  let ?ys = "takeWhile ?Q xs" and ?zs = "dropWhile ?Q xs"
  have split: "ps = takeWhile ?P ps @ dropWhile ?P ps" by simp
  then have rep': "ll_rep l (takeWhile ?P ps @ dropWhile ?P ps)" using rep by simp
  have maps: "?ys = map (data_at l) (takeWhile ?P ps)" "?zs = map (data_at l) (dropWhile ?P ps)"
    unfolding xs takeWhile_map_data by (simp_all add: comp_def)
  obtain l' where l': "listnode_add_sort (Some cmp) l (Some v) = Inr l'" "ll_abs l' (?ys @ v # ?zs)"
    using listnode_add_sort_ins [OF rep, of cmp v] ins_rep [OF rep', of v] maps unfolding ll_abs_def by metis
  have le: "cmp y v \<le> 0" if "y \<in> set ?ys" for y
    using set_takeWhileD [OF that] sym [of v y] by simp
  have ge: "cmp v z \<le> 0" if "z \<in> set ?zs" for z
  proof (cases ?zs)
    case Nil
    with that show ?thesis by simp
  next
    case (Cons w ws)
    then have "\<not> ?Q w" using hd_dropWhile [of ?Q xs] by simp
    then have vw: "cmp v w \<le> 0" by simp
    have "sorted_wrt (\<lambda>a b. cmp a b \<le> 0) ?zs"
      using sorted_wrt_append [of "\<lambda>a b. cmp a b \<le> 0" ?ys ?zs] assms(2) unfolding takeWhile_dropWhile_id by blast
    then have "z = w \<or> cmp w z \<le> 0" using that Cons by auto
    then show ?thesis using vw trans [OF vw, of z] by blast
  qed
  have "sorted_wrt (\<lambda>a b. cmp a b \<le> 0) (?ys @ ?zs)" using assms(2) unfolding takeWhile_dropWhile_id .
  then have "sorted_wrt (\<lambda>a b. cmp a b \<le> 0) (?ys @ v # ?zs)"
    unfolding sorted_wrt_append sorted_wrt.simps using le ge by (simp del: takeWhile_dropWhile_id)
  moreover have "\<forall>y \<in> set ?ys. \<not> cmp v y < 0" by (auto dest: set_takeWhileD)
  moreover have "xs = ?ys @ ?zs" by simp
  ultimately show ?thesis using l' by blast
qed

theorem listnode_add_sort_sorted_witness:
  "\<exists>l l' ys zs. listnode_add list_new (Some (4 :: int)) = Inr l \<and>
     listnode_add_sort (Some (\<lambda>a b. a - b)) l (Some 2) = Inr l' \<and> [4 :: int] = ys @ zs \<and>
     sorted_wrt (\<lambda>a b. a - b \<le> 0) (ys @ 2 # zs)"
proof -
  from listnode_add_abs [OF ll_abs_new, of 4] obtain l where
    l: "listnode_add list_new (Some (4 :: int)) = Inr l" "ll_abs l [4]" by auto
  have "\<exists>l' ys zs. listnode_add_sort (Some (\<lambda>a b. a - b)) l (Some 2) = Inr l' \<and> [4 :: int] = ys @ zs \<and>
     ll_abs l' (ys @ 2 # zs) \<and> sorted_wrt (\<lambda>a b. a - b \<le> 0) (ys @ 2 # zs) \<and> (\<forall>y \<in> set ys. \<not> 2 - y < 0)"
    using l(2) by (intro listnode_add_sort_sorted) auto
  with l(1) show ?thesis
    by (elim exE conjE, intro exI conjI)
qed

end
