(* ===== verification/Spec2Isabelle.thy ===== *)
theory Spec2Isabelle
  imports HashProps BufferProps Vector WorkQueueProps PrefixListProps RmapProps OspfElection OspfNbrListsProps OspfAuth Irdp RouteTableIter StreamProps LinkList
begin

text \<open>
  This is a verification library for a routing platform derived from Quagga. The platform is a set
  of daemons, one per protocol (\<^verbatim>\<open>bgpd\<close>, \<^verbatim>\<open>ospfd\<close>, \<^verbatim>\<open>ripd\<close>, \<^verbatim>\<open>isisd\<close>, \<^verbatim>\<open>zebra\<close> and others), around a
  common library \<^verbatim>\<open>lib\<close>. Every daemon is one process with one loop, the scheduler of
  \<^verbatim>\<open>lib/thread.c\<close>, which calls the handlers of timers, descriptors and events; handlers read and
  write packets in the buffers of \<^verbatim>\<open>lib/stream.c\<close>, keep prefixes in the routing tables of
  \<^verbatim>\<open>lib/table.c\<close> and pointers in the lists, vectors and hash tables of \<^verbatim>\<open>lib\<close>, send through the
  output buffers of \<^verbatim>\<open>lib/buffer.c\<close>, put off work to the queues of \<^verbatim>\<open>lib/workqueue.c\<close>, which are threads of the
  scheduler again, and filter routes with the prefix lists and route maps of \<^verbatim>\<open>lib/plist.c\<close> and
  \<^verbatim>\<open>lib/routemap.c\<close>. The development models that library first and then the parts of \<^verbatim>\<open>ospfd\<close> that stand on it.

  \<^bold>\<open>How the sources are modelled.\<close> A function of the sources is a function here, with the same name
  where there is no clash; a loop is a recursive function with its own name or a combinator. State
  is passed explicitly. Structures are records, pointers are natural numbers into a heap of the
  records they point to, a null pointer is \<open>None\<close>. Whatever the C code must not do is a value of
  \<open>fault\<close> (theory \<open>Prelude\<close>): a null or freed pointer, an access outside a buffer, a failed
  assertion, a division by zero, and \<open>Diverged\<close> for a loop whose bound is used up. A function that
  can fault returns \<open>'a res\<close>, with \<open>Inl\<close> the fault, and \<open>and_then\<close> sequences such functions. Machine
  integers are words of their width where the code can wrap around or works bitwise, \<open>int\<close> and \<open>nat\<close>
  where a bound is proved or the C type is a signed counter. Logging and debug output is left out.

  \<^bold>\<open>Loops and their bounds.\<close> Loops that are not structurally recursive have a termination proof or a
  bound. The bounds are computed from the state: the walks in a routing table get the number of its
  nodes (\<open>walk_fuel\<close>), which the theorems show to be enough, since every step goes to a node with a
  longer or a later prefix; the walks along a list or a queue get the number of its nodes; copying
  into an output buffer gets one turn for each byte, the doubling of a vector 33. The main
  loop of the scheduler, the flush of a whole output buffer, the run of a work queue and the nested calls of
  route maps get the number of turns or what the system calls return as an argument, because they need not
  end. Every theorem about a function with a bound shows that it returns a result, so that a bound that is
  too small would contradict it; for the run of a work queue, whose items may ask for ever to be run again, and for the flush of a
  whole buffer, which may be interrupted for ever, the theorems say that nothing else can go wrong and, for the flush, when it ends.

  \<^bold>\<open>Counters.\<close> The lock of a route node (\<open>unsigned int\<close>) is a \<open>nat\<close>, the lock and the retransmission counter of an advertisement (\<open>int\<close>)
  are \<open>int\<close> without a bound: the theorems show which number they are, the number of references or of lists, and so speak of executions in
  which these numbers stay in the range of the C type. The node count of a table (\<open>unsigned long\<close>) is the number of nodes in memory.

  \<^bold>\<open>The library.\<close>
  \<^item> \<open>Prelude\<close>: faults, sequencing, the types of C integers, shared lemmas.
  \<^item> \<open>Prefix\<close> (\<^verbatim>\<open>lib/prefix.c\<close>): prefixes as byte arrays with a length; comparison, masks, parsing.
    \<open>prefix_key\<close>, the bits of the network part, is what the other theories reason with.
  \<^item> \<open>RouteTable\<close> (\<^verbatim>\<open>lib/table.c\<close>): the compressed binary trie in a heap of nodes with parent pointers
    and lock counts; \<open>RouteTableInv\<close> has its invariant \<open>rt_inv\<close> (the heap is a tree ordered by
    prefix, the count is right, a node without data has two children or a lock) and the lookups,
    \<open>RouteTableGet\<close> insertion, \<open>RouteTableDel\<close> unlocking and deletion, \<open>RouteTableIter\<close> iteration in
    order and destruction. \<open>RouteMap\<close> is the interface for clients: \<open>rt_stores t m L\<close> says that the table
    \<open>t\<close> stores the map \<open>m\<close> and that the locks \<open>L\<close> are out; its laws are the locale \<open>prefix_store\<close>,
    interpreted on the table, and \<open>rt_for_fold\<close> turns the iteration idiom of the daemons, with a body
    that may delete what it visits, into a fold over the sorted keys.
  \<^item> \<open>StreamBuf\<close>, \<open>StreamProps\<close>, \<open>StreamFifo\<close> (\<^verbatim>\<open>lib/stream.c\<close>): buffers with read and write positions,
    round trips, memory safety; the queue of streams.
  \<^item> \<open>Dll\<close> and \<open>LinkList\<close> (\<^verbatim>\<open>lib/linklist.c\<close>): doubly linked lists in a heap; every operation refines
    the operation on lists. \<open>Dll\<close> is shared with the lists of the scheduler.
  \<^item> \<open>Pqueue\<close> (\<^verbatim>\<open>lib/pqueue.c\<close>): the binary heap with positions stored back into its elements.
  \<^item> \<open>Clock\<close>, \<open>Thread\<close> and the theories \<open>Thread\<dots>\<close> (\<^verbatim>\<open>lib/thread.c\<close>): the clocks, the five lists, the
    timer queues, the descriptor sets, whose macros access memory outside the set for a descriptor that is negative or not below
    \<open>FD_SETSIZE\<close>, and the main loop, with what \<open>select\<close>, the signals and the system
    clock do as an argument. The invariant \<open>sched\<close> says that every thread is where its type
    says; the properties are that no sequence of calls breaks it, that timers expire in order, and
    that a turn of the loop whose \<open>select\<close> returns runs work that is ready.
    \<open>ThreadWaiting\<close> follows one background thread through the main loop.
  \<^item> \<open>WorkQueue\<close>, \<open>WorkQueueProps\<close> (\<^verbatim>\<open>lib/workqueue.c\<close>): work queues on the model of the scheduler. The answers
    of the work function and the readings of the clock are functions of the trace, the list of all that happened; the
    properties are that no item is lost, no wake-up is lost and the granularity never goes down.
  \<^item> \<open>Vector\<close> (\<^verbatim>\<open>lib/vector.c\<close>): vectors refine partial functions from slots to data.
  \<^item> \<open>Hash\<close>, \<open>HashProps\<close> (\<^verbatim>\<open>lib/hash.c\<close>): the array of chains with doubling, a refinement of a map for keys
    and comparisons that keep the contract \<open>hash_functions\<close> (equality is an equivalence that the keys respect), interpreted on the functions
    of the clients \<^verbatim>\<open>lib/distribute.c\<close> and \<^verbatim>\<open>lib/if_rmap.c\<close>.
  \<^item> \<open>Buffer\<close>, \<open>BufferProps\<close> (\<^verbatim>\<open>lib/buffer.c\<close>): output buffers; what the kernel does with a write is an
    argument, and the bytes stay in order whatever it does, also where a flush does not end.
  \<^item> \<open>Checksum\<close> (\<^verbatim>\<open>lib/checksum.c\<close> and its users): the Internet and the Fletcher checksum.
  \<^item> \<open>Names\<close>, \<open>PrefixList\<close>, \<open>PrefixListProps\<close> (\<^verbatim>\<open>lib/plist.c\<close>): prefix lists kept by name, their commands, the
    filters received from BGP peers and their application; the first matching entry in the order of sequence numbers
    decides.
  \<^item> \<open>Rmap\<close>, \<open>RmapConf\<close>, \<open>RmapProps\<close> (\<^verbatim>\<open>lib/routemap.c\<close>): route maps with their commands and terminals, whose
    application is compared with a relation that states the matrix of results in a comment of the source without the code of the rules; what the commands of the daemons do to a route is an argument.

  \<^bold>\<open>The OSPF daemon.\<close>
  \<^item> \<open>OspfExamin\<close>, \<open>OspfAuth\<close> (\<^verbatim>\<open>ospfd/ospf_packet.c\<close>): the length checks of received packets against a
    grammar of packets, and their authentication; the MD5 function is an argument. The lookup of a neighbor by its router
    walks over the route table, and is shown to find the first of the list of neighbors in the order of the table.
  \<^item> \<open>OspfLsa\<close> (\<^verbatim>\<open>ospfd/ospf_lsa.c\<close>): advertisements as objects with reference counts. \<open>mem_ok mem R\<close> says
    that every count is the number of references in the multiset \<open>R\<close>.
  \<^item> \<open>OspfLsdb\<close>, \<open>OspfLsdbProps\<close> (\<^verbatim>\<open>ospfd/ospf_lsdb.c\<close>): the link state database on routing tables;
    \<open>lsdb_rep\<close> ties tables, counters and reference counts to a map from types and keys to
    advertisements, and the operations refine those of the map.
  \<^item> \<open>OspfNbrLists\<close>, \<open>OspfNbrListsProps\<close> (\<^verbatim>\<open>ospfd/ospf_flood.c\<close>, \<^verbatim>\<open>ospfd/ospf_nsm.c\<close>): the request,
    retransmission and summary lists of a neighbor, three databases over one memory, with the
    counters of the retransmissions.
  \<^item> \<open>OspfElection\<close> (\<^verbatim>\<open>ospfd/ospf_ism.c\<close>): the election of the designated routers over the table of
    neighbors, in two rounds of which the second reads what the first recorded.

  \<^bold>\<open>The zebra daemon.\<close> \<open>Irdp\<close> (\<^verbatim>\<open>zebra/irdp_packet.c\<close>, \<^verbatim>\<open>zebra/irdp_main.c\<close>): ICMP router discovery.

  \<^bold>\<open>Interfaces.\<close> Where one part relies on another its promise is a locale: \<open>prefix_store\<close> for the
  routing table, \<open>queue_impl\<close> for the queues of streams and of list nodes, \<open>field_queue\<close> for packets
  written and read field by field, \<open>cmp_order\<close> and \<open>pq_callbacks\<close> for what the priority queue asks of its
  comparison and update functions, \<open>self_delimiting\<close> for the blocks packets are made of, \<open>hash_functions\<close> for
  the keys of hash tables, \<open>slots\<close> for vectors. Each is
  interpreted on the definitions of the part that provides it, and the properties of the parts that
  use it rest on those facts.

  \<^bold>\<open>Properties.\<close> Each property is a theorem right after a text block with its number; those of one
  component are at the end of its theory or in its \<open>\<dots>Props\<close> theory, followed by a witness that
  applies it to a concrete state. Some properties state what the code does where that differs from
  what its comments or its purpose say: the checksum of ISIS that is never refused, the router
  discovery packet that is dropped because it is right, the route map whose limit of nested calls drifts, the
  prefix list entry that cannot be removed, the granularity that is never reduced, the sleep on an event that is ready.

  \<^bold>\<open>Not modelled.\<close> The command line and the terminals (\<^verbatim>\<open>lib/command.c\<close>, \<^verbatim>\<open>lib/vty.c\<close>, the
  \<^verbatim>\<open>*_vty.c\<close> and \<^verbatim>\<open>*_cmd.c\<close> files) parse and print configuration; the sockets, \<^verbatim>\<open>netlink\<close> and the other
  parts that talk to the kernel are calls of the system; \<^verbatim>\<open>lib/regex.c\<close>, \<^verbatim>\<open>lib/getopt.c\<close> and
  \<^verbatim>\<open>lib/md5.c\<close> are copies of other programs. The rest of \<^verbatim>\<open>lib\<close> (access lists, key chains,
  interfaces, the client of \<^verbatim>\<open>zebra\<close>), the other daemons and the rest of \<^verbatim>\<open>ospfd\<close> are not modelled. The neighbor and
  interface state machines of \<^verbatim>\<open>ospfd\<close> change their state by building packets from the areas, the
  databases and the interfaces at once, and a model of the transitions alone would leave out what they do;
  their lists, their election and their packets are modelled as above.
\<close>

end
